(* ===== verification/Mach_Prelude.thy ===== *)
theory Mach_Prelude
  imports Main "HOL-Library.Word"
begin

text \<open>
  The prelude of the development: the fact collections of the library, 32-bit
  machine arithmetic as the C compiler of the VAX performs it, and null-terminated
  chains of pointers, which are the representation of every list the C sources keep
  (ready and condition queues, free lists, interface queues, routing-table buckets).
  A pointer is a natural number and the null pointer is 0.
\<close>

named_theorems step_defs "definitions of operations, for unfolding one call"
named_theorems chain_simps "facts on pointer chains"
named_theorems frame_rules "what an operation leaves unchanged"

type_synonym ptr = nat

section \<open>Machine integers\<close>

text \<open>
  \<open>u32\<close> reduces a natural number to the range of the C type \<open>unsigned int\<close>,
  \<open>s32\<close> an integer to the range of \<open>int\<close> and \<open>long\<close> (two's complement, 32
  bits) and \<open>s16\<close> to that of \<open>short\<close>.  Pointers and sizes are \<open>unsigned\<close> values.
\<close>

definition u32 :: "nat \<Rightarrow> nat" where
  "u32 n = n mod 2 ^ 32"

definition s32 :: "int \<Rightarrow> int" where
  "s32 i = (i + 2 ^ 31) mod 2 ^ 32 - 2 ^ 31"

definition s16 :: "int \<Rightarrow> int" where
  "s16 i = (i + 2 ^ 15) mod 2 ^ 16 - 2 ^ 15"

definition sub32 :: "nat \<Rightarrow> nat \<Rightarrow> nat" where
  "sub32 a b = u32 (a + 2 ^ 32 - b)"

lemma u32_id [simp]: "n < 2 ^ 32 \<Longrightarrow> u32 n = n"
  by (simp add: u32_def)

lemma u32_less: "u32 n < 2 ^ 32"
  by (simp add: u32_def)

lemma u32_le: "u32 n \<le> n"
  by (simp add: u32_def)

lemma sub32_id [simp]: "b \<le> a \<Longrightarrow> a < 2 ^ 32 \<Longrightarrow> sub32 a b = a - b"
proof -
  assume "b \<le> a" and "a < 2 ^ 32"
  then have "a + 2 ^ 32 - b = (a - b) + 1 * 2 ^ 32" by simp
  then have "sub32 a b = (a - b) mod 2 ^ 32" unfolding sub32_def u32_def by (metis mod_mult_self1)
  with \<open>a < 2 ^ 32\<close> show ?thesis by simp
qed

lemma s32_id [simp]: "- (2 ^ 31) \<le> i \<Longrightarrow> i < 2 ^ 31 \<Longrightarrow> s32 i = i"
  by (simp add: s32_def)

lemma s16_id [simp]: "- (2 ^ 15) \<le> i \<Longrightarrow> i < 2 ^ 15 \<Longrightarrow> s16 i = i"
  by (simp add: s16_def)

lemma s32_range: "- (2 ^ 31) \<le> s32 i \<and> s32 i < 2 ^ 31"
  by (simp add: s32_def)

section \<open>Chains of pointers\<close>

text \<open>
  \<open>chain nx p xs\<close>: following \<open>nx\<close> from \<open>p\<close> visits exactly the nodes \<open>xs\<close>
  and ends at the null pointer.
\<close>

primrec chain :: "(ptr \<Rightarrow> ptr) \<Rightarrow> ptr \<Rightarrow> ptr list \<Rightarrow> bool" where
  "chain nx p [] \<longleftrightarrow> p = 0"
| "chain nx p (x # xs) \<longleftrightarrow> p = x \<and> x \<noteq> 0 \<and> chain nx (nx x) xs"

lemma chain_null_iff [chain_simps]: "chain nx 0 xs \<longleftrightarrow> xs = []"
  by (cases xs) auto

lemma chain_nonnull: "chain nx p xs \<Longrightarrow> p \<noteq> 0 \<Longrightarrow> \<exists>ys. xs = p # ys \<and> chain nx (nx p) ys"
  by (cases xs) auto

lemma chain_members: "chain nx p xs \<Longrightarrow> 0 \<notin> set xs"
  by (induction xs arbitrary: p) auto

lemma chain_last: "chain nx p xs \<Longrightarrow> xs \<noteq> [] \<Longrightarrow> 0 < last xs"
  using chain_members [of nx p xs] last_in_set [of xs] by (metis gr0I)

lemma chain_cong: "\<forall>y \<in> set xs. nx' y = nx y \<Longrightarrow> chain nx' p xs = chain nx p xs"
  by (induction xs arbitrary: p) auto

lemma chain_upd [chain_simps]: "y \<notin> set xs \<Longrightarrow> chain (nx(y := v)) p xs = chain nx p xs"
  by (rule chain_cong) auto

lemma chain_fun: "chain nx p xs \<Longrightarrow> chain nx p ys \<Longrightarrow> xs = ys"
proof (induction xs arbitrary: p ys)
  case Nil
  then show ?case by (simp add: chain_null_iff)
next
  case (Cons x xs)
  then show ?case by (cases ys) auto
qed

lemma chain_suffix: "chain nx p (xs @ y # ys) \<Longrightarrow> chain nx y (y # ys)"
  by (induction xs arbitrary: p) auto

lemma chain_head_notin: "chain nx p (x # xs) \<Longrightarrow> x \<notin> set xs"
proof
  assume c: "chain nx p (x # xs)" and "x \<in> set xs"
  then obtain us vs where "xs = us @ x # vs" by (auto dest: split_list)
  with c have "chain nx (nx x) (us @ x # vs)" by simp
  then have "chain nx x (x # vs)" by (rule chain_suffix)
  moreover from c have "chain nx x (x # xs)" by auto
  ultimately have "x # vs = x # xs" by (rule chain_fun)
  with \<open>xs = us @ x # vs\<close> show False by simp
qed

lemma chain_distinct: "chain nx p xs \<Longrightarrow> distinct xs"
proof (induction xs arbitrary: p)
  case Nil
  then show ?case by simp
next
  case (Cons x xs)
  from Cons.prems have "x \<notin> set xs" by (rule chain_head_notin)
  with Cons show ?case by auto
qed

text \<open>Appending a node: the old last node is redirected to it.\<close>

lemma chain_snoc:
  assumes "chain nx p xs" and "xs \<noteq> []" and "x \<noteq> 0" and "x \<notin> set xs"
  shows "chain (nx(x := 0, last xs := x)) p (xs @ [x])"
  using assms
proof (induction xs arbitrary: p)
  case Nil
  then show ?case by simp
next
  case (Cons y ys)
  show ?case
  proof (cases "ys = []")
    case True
    with Cons.prems show ?thesis by auto
  next
    case False
    from Cons.prems(1) have "y \<notin> set ys" by (rule chain_head_notin)
    with False have "y \<noteq> last ys" by (metis last_in_set)
    with False Cons show ?thesis by auto
  qed
qed

text \<open>Unlinking a node: its predecessor is redirected to its successor.\<close>

lemma chain_unlink:
  "chain nx p (xs @ r # q # ys) \<Longrightarrow> chain (nx(r := nx q)) p (xs @ r # ys)"
proof (induction xs arbitrary: p)
  case Nil
  from Nil have "chain nx p (r # q # ys)" by simp
  then have "r \<notin> set (q # ys)" by (rule chain_head_notin)
  then have "chain (nx(r := nx q)) (nx q) ys = chain nx (nx q) ys" by (intro chain_upd) auto
  with Nil show ?case by (auto simp: fun_upd_def)
next
  case (Cons x xs)
  from Cons.prems have "chain nx p (x # xs @ r # q # ys)" by simp
  then have "x \<notin> set (xs @ r # q # ys)" by (rule chain_head_notin)
  with Cons show ?case by auto
qed

text \<open>Following a chain with a bound on the number of nodes, as the C loops do.\<close>

fun nodes :: "nat \<Rightarrow> (ptr \<Rightarrow> ptr) \<Rightarrow> ptr \<Rightarrow> ptr list" where
  "nodes 0 nx p = []"
| "nodes (Suc k) nx p = (if p = 0 then [] else p # nodes k nx (nx p))"

lemma nodes_chain: "chain nx p xs \<Longrightarrow> length xs \<le> k \<Longrightarrow> nodes k nx p = xs"
  by (induction k arbitrary: p xs; case_tac xs) (auto simp: chain_simps)

section \<open>Loops over a chain\<close>

text \<open>
  The C loop \<open>for (p = head; p; p = p->next)\<close> in its two uses: searching for the first node
  with a property, and running a body on every node.  The body may change the state, and the
  link is read after it has run.  A loop over a cyclic list does not return.
\<close>

partial_function (option) find_from :: "(ptr \<Rightarrow> ptr) \<Rightarrow> (ptr \<Rightarrow> bool) \<Rightarrow> ptr \<Rightarrow> ptr option" where
  "find_from nx P p = (if p = 0 then Some 0 else if P p then Some p else find_from nx P (nx p))"

partial_function (option) fold_from ::
  "('s \<Rightarrow> ptr \<Rightarrow> ptr) \<Rightarrow> (ptr \<Rightarrow> 's \<Rightarrow> 's) \<Rightarrow> ptr \<Rightarrow> 's \<Rightarrow> 's option" where
  "fold_from nx f p s = (if p = 0 then Some s else fold_from nx f (nx (f p s) p) (f p s))"

definition first_with :: "(ptr \<Rightarrow> bool) \<Rightarrow> ptr list \<Rightarrow> ptr" where
  "first_with P xs = (case find P xs of None \<Rightarrow> 0 | Some x \<Rightarrow> x)"

lemma first_with_simps [simp]:
  "first_with P [] = 0" "first_with P (x # xs) = (if P x then x else first_with P xs)"
  by (auto simp: first_with_def)

lemma first_with_append:
  "0 \<notin> set xs \<Longrightarrow> first_with P (xs @ ys) = (if first_with P xs = 0 then first_with P ys else first_with P xs)"
  by (induction xs) auto

lemma first_with_zero_iff: "0 \<notin> set xs \<Longrightarrow> first_with P xs = 0 \<longleftrightarrow> (\<forall>x \<in> set xs. \<not> P x)"
  by (induction xs) auto

lemma first_with_member: "first_with P xs \<noteq> 0 \<Longrightarrow> first_with P xs \<in> set xs \<and> P (first_with P xs)"
  by (induction xs) auto

lemma first_with_cong: "(\<And>x. x \<in> set xs \<Longrightarrow> P x = Q x) \<Longrightarrow> first_with P xs = first_with Q xs"
  by (induction xs) auto

lemma find_from_chain: "chain nx p xs \<Longrightarrow> find_from nx P p = Some (first_with P xs)"
  by (induction xs arbitrary: p) (auto simp: find_from.simps)

text \<open>
  A body that keeps the links of the list (in the sense of \<open>I\<close>) runs once on every node, in
  the order of the list.
\<close>

lemma fold_from_chain:
  assumes "\<And>y t. y \<in> set xs \<Longrightarrow> I t \<Longrightarrow> I (f y t)" and "\<And>t. I t \<Longrightarrow> \<forall>y \<in> set xs. nx t y = lk y"
    and "I s" and "chain lk p xs"
  shows "fold_from nx f p s = Some (fold f xs s) \<and> I (fold f xs s)"
  using assms
proof (induction xs arbitrary: p s)
  case Nil
  then show ?case by (simp add: fold_from.simps)
next
  case (Cons x xs)
  have I: "I (f x s)" using Cons.prems by simp
  have l: "\<And>t. I t \<Longrightarrow> \<forall>y \<in> set xs. nx t y = lk y" using Cons.prems(2) by simp
  have "fold_from nx f p s = fold_from nx f (nx (f x s) x) (f x s)"
    using Cons.prems(4) by (subst fold_from.simps) auto
  moreover have "chain lk (nx (f x s) x) xs" using Cons.prems(2,4) I by simp
  ultimately show ?case using Cons.IH [OF _ l I] Cons.prems(1) by simp
qed

end
