(* ===== verification/Cthread_Time.thy ===== *)
theory Cthread_Time
  imports Mach_Prelude "HOL-Library.Signed_Division"
begin

text \<open>
  The time arithmetic of the C Threads package (\<open>mach/lib/threads/time.c\<close>), which its
  simulated blocking calls use for their deadlines.  The fields of \<open>struct timeval\<close>
  are 32-bit \<open>long\<close> values, so every C addition, subtraction and product is followed by
  \<^const>\<open>s32\<close>; C division truncates towards zero (\<open>sdiv\<close>, \<open>smod\<close>).  A null
  pointer argument, which the routines replace by the current time, is \<open>None\<close>; the value
  that \<open>gettimeofday\<close> stores is the argument \<open>now\<close>.
\<close>

record timeval =
  tv_sec :: int
  tv_usec :: int

definition timeval_cmp :: "timeval \<Rightarrow> timeval \<Rightarrow> int" where
  "timeval_cmp t1 t2 =
     (if tv_sec t1 = tv_sec t2
      then s32 (tv_usec t1 - tv_usec t2)
      else s32 (tv_sec t1 - tv_sec t2))"

definition time_arg :: "timeval \<Rightarrow> timeval option \<Rightarrow> timeval" where
  "time_arg now t = (case t of None \<Rightarrow> now | Some v \<Rightarrow> v)"

definition time_compare :: "timeval \<Rightarrow> timeval option \<Rightarrow> timeval option \<Rightarrow> int" where
  "time_compare now t1 t2 = timeval_cmp (time_arg now t1) (time_arg now t2)"

definition time_plus :: "timeval \<Rightarrow> timeval option \<Rightarrow> timeval option \<Rightarrow> timeval" where
  "time_plus now t1 t2 =
     (let a = time_arg now t1; b = time_arg now t2;
          r = \<lparr>tv_sec = s32 (tv_sec a + tv_sec b), tv_usec = s32 (tv_usec a + tv_usec b)\<rparr>
      in if tv_usec r \<ge> 1000000
         then r\<lparr>tv_usec := s32 (tv_usec r - 1000000), tv_sec := s32 (tv_sec r + 1)\<rparr>
         else r)"

definition time_diff :: "timeval \<Rightarrow> timeval option \<Rightarrow> timeval option \<Rightarrow> timeval" where
  "time_diff now t1 t2 =
     (let a = time_arg now t1; b = time_arg now t2;
          r = \<lparr>tv_sec = s32 (tv_sec a - tv_sec b), tv_usec = s32 (tv_usec a - tv_usec b)\<rparr>
      in if tv_usec r < 0
         then r\<lparr>tv_usec := s32 (tv_usec r + 1000000), tv_sec := s32 (tv_sec r - 1)\<rparr>
         else r)"

definition time_msec_to_timeval :: "int \<Rightarrow> timeval" where
  "time_msec_to_timeval msec =
     \<lparr>tv_sec = msec sdiv 1000, tv_usec = s32 ((msec smod 1000) * 1000)\<rparr>"

definition time_timeval_to_msec :: "timeval \<Rightarrow> int" where
  "time_timeval_to_msec t = s32 (s32 (tv_sec t * 1000) + tv_usec t sdiv 1000)"

section \<open>Normalised times\<close>

text \<open>
  A time is normalised when its fields are \<open>long\<close> values and the microseconds are those
  of one second; \<open>usecs\<close> is the time as one number of microseconds.
\<close>

definition long_ok :: "int \<Rightarrow> bool" where
  "long_ok i \<longleftrightarrow> - (2 ^ 31) \<le> i \<and> i < 2 ^ 31"

definition time_ok :: "timeval \<Rightarrow> bool" where
  "time_ok t \<longleftrightarrow> long_ok (tv_sec t) \<and> 0 \<le> tv_usec t \<and> tv_usec t < 1000000"

definition usecs :: "timeval \<Rightarrow> int" where
  "usecs t = tv_sec t * 1000000 + tv_usec t"

lemma s32_long [simp]: "long_ok i \<Longrightarrow> s32 i = i"
  by (simp add: long_ok_def)

lemma s32_small: "- 2000000 \<le> i \<Longrightarrow> i \<le> 2000000 \<Longrightarrow> s32 i = i"
  by simp

lemma s32_add_cancel: "long_ok a \<Longrightarrow> s32 (s32 (a + b) - b) = a"
proof -
  assume a: "long_ok a"
  have "(s32 (a + b) - b + 2 ^ 31) mod 2 ^ 32 = (a + 2 ^ 31) mod (2 ^ 32 :: int)"
    unfolding s32_def by (simp add: mod_simps algebra_simps)
  then have "s32 (s32 (a + b) - b) = s32 a" unfolding s32_def by simp
  with a show ?thesis by simp
qed

lemma s32_s32_add [simp]: "s32 (s32 a + b) = s32 (a + b)"
proof -
  have "(s32 a + b + 2 ^ 31) mod 2 ^ 32 = (a + b + 2 ^ 31) mod (2 ^ 32 :: int)"
    unfolding s32_def by (simp add: mod_simps algebra_simps)
  then show ?thesis unfolding s32_def by simp
qed

lemma s32_s32_diff [simp]: "s32 (s32 a - b) = s32 (a - b)"
  using s32_s32_add [of a "- b"] by simp

lemma time_ok_arg [simp]: "time_arg now (Some t) = t"
  by (simp add: time_arg_def)

text \<open>
  \<^bold>\<open>The sum of two normalised times is normalised\<close> and is their sum in
  microseconds, as long as the seconds fit a 32-bit \<open>long\<close>.
\<close>

theorem time_plus_adds:
  assumes "time_ok a" and "time_ok b" and "long_ok (tv_sec a + tv_sec b + 1)"
    and "long_ok (tv_sec a + tv_sec b)"
  shows "time_ok (time_plus now (Some a) (Some b))
    \<and> usecs (time_plus now (Some a) (Some b)) = usecs a + usecs b"
proof -
  have "s32 (tv_usec a + tv_usec b) = tv_usec a + tv_usec b"
    using assms by (intro s32_small) (auto simp: time_ok_def)
  moreover have "s32 (tv_usec a + tv_usec b - 1000000) = tv_usec a + tv_usec b - 1000000"
    using assms by (intro s32_small) (auto simp: time_ok_def)
  ultimately show ?thesis
    using assms by (auto simp: time_plus_def time_ok_def usecs_def Let_def algebra_simps)
qed

theorem time_plus_adds_witness:
  "usecs (time_plus \<lparr>tv_sec = 0, tv_usec = 0\<rparr> (Some \<lparr>tv_sec = 5, tv_usec = 999999\<rparr>)
     (Some \<lparr>tv_sec = 2, tv_usec = 2\<rparr>)) = 8000001"
proof -
  have "time_ok \<lparr>tv_sec = 5, tv_usec = 999999\<rparr>" "time_ok \<lparr>tv_sec = 2, tv_usec = 2\<rparr>"
    by (simp_all add: time_ok_def long_ok_def)
  from time_plus_adds [OF this] show ?thesis
    by (simp add: long_ok_def) (simp add: usecs_def)
qed

text \<open>
  \<^bold>\<open>Subtracting what was added gives the first time back\<close>, for every two
  normalised times: the wrap-around of the seconds cancels.
\<close>

theorem time_diff_plus:
  assumes a: "time_ok a" and b: "time_ok b"
  shows "time_diff now (Some (time_plus now (Some a) (Some b))) (Some b) = a"
proof -
  have u: "s32 (tv_usec a + tv_usec b) = tv_usec a + tv_usec b"
    "s32 (tv_usec a + tv_usec b - 1000000) = tv_usec a + tv_usec b - 1000000"
    "s32 (tv_usec a - 1000000) = tv_usec a - 1000000" "s32 (tv_usec a) = tv_usec a"
    using a b by (auto intro!: s32_small simp: time_ok_def)
  have s: "s32 (tv_sec a) = tv_sec a" using a by (simp add: time_ok_def)
  show ?thesis
    using a b by (auto simp: time_diff_def time_plus_def Let_def u s algebra_simps time_ok_def)
qed

theorem time_diff_plus_witness:
  "time_diff \<lparr>tv_sec = 0, tv_usec = 0\<rparr> (Some (time_plus \<lparr>tv_sec = 0, tv_usec = 0\<rparr>
     (Some \<lparr>tv_sec = 2147483647, tv_usec = 999999\<rparr>) (Some \<lparr>tv_sec = 1, tv_usec = 1\<rparr>)))
     (Some \<lparr>tv_sec = 1, tv_usec = 1\<rparr>) = \<lparr>tv_sec = 2147483647, tv_usec = 999999\<rparr>"
  by (rule time_diff_plus) (simp_all add: time_ok_def long_ok_def)

text \<open>
  \<^bold>\<open>Comparison orders normalised times\<close> whose seconds differ by less than
  \<open>2^31\<close>: the sign of the result is the order of the times in microseconds.
\<close>

theorem time_compare_sign:
  assumes a: "time_ok a" and b: "time_ok b" and d: "long_ok (tv_sec a - tv_sec b)"
  shows "sgn (time_compare now (Some a) (Some b)) = sgn (usecs a - usecs b)"
proof (cases "tv_sec a = tv_sec b")
  case True
  have "s32 (tv_usec a - tv_usec b) = tv_usec a - tv_usec b"
    using a b by (intro s32_small) (auto simp: time_ok_def)
  with True show ?thesis by (simp add: time_compare_def timeval_cmp_def usecs_def)
next
  case False
  with a b d show ?thesis
    by (auto simp: time_compare_def timeval_cmp_def usecs_def time_ok_def sgn_if)
qed

theorem time_compare_sign_witness:
  "sgn (time_compare \<lparr>tv_sec = 0, tv_usec = 0\<rparr> (Some \<lparr>tv_sec = 4, tv_usec = 7\<rparr>)
     (Some \<lparr>tv_sec = 5, tv_usec = 2\<rparr>)) = - 1"
proof -
  have "time_ok \<lparr>tv_sec = 4, tv_usec = 7\<rparr>" "time_ok \<lparr>tv_sec = 5, tv_usec = 2\<rparr>"
    by (simp_all add: time_ok_def long_ok_def)
  from time_compare_sign [OF this] show ?thesis
    by (simp add: long_ok_def) (simp add: usecs_def)
qed

section \<open>Milliseconds\<close>

lemma msec_split: "(i sdiv 1000) * 1000 + i smod 1000 = (i :: int)"
  using smod_sdiv_mult_eq [of i 1000] by linarith

lemma smod_1000_bound: "- 1000 < i smod 1000 \<and> i smod (1000 :: int) < 1000"
  using smod_int_range [of 1000 i] by auto

lemma sdiv_mult_1000: "(i * 1000) sdiv 1000 = (i :: int)"
  by (auto simp: signed_divide_int_def sgn_if)

text \<open>
  \<^bold>\<open>Milliseconds survive the conversion to a time and back\<close>, for every 32-bit
  value, negative ones included.
\<close>

theorem msec_round_trip: "long_ok msec \<Longrightarrow> time_timeval_to_msec (time_msec_to_timeval msec) = msec"
proof -
  assume l: "long_ok msec"
  have "s32 ((msec smod 1000) * 1000) = (msec smod 1000) * 1000"
    using smod_1000_bound [of msec] by (intro s32_small) auto
  then have "time_timeval_to_msec (time_msec_to_timeval msec)
      = s32 ((msec sdiv 1000) * 1000 + msec smod 1000)"
    by (simp add: time_timeval_to_msec_def time_msec_to_timeval_def sdiv_mult_1000)
  with l show ?thesis by (simp add: msec_split)
qed

theorem msec_round_trip_witness:
  "time_timeval_to_msec (time_msec_to_timeval (- 1500)) = - 1500"
  by (rule msec_round_trip) (simp add: long_ok_def)

end
