(* ===== verification/Cthread_Sync.thy ===== *)
theory Cthread_Sync
  imports Mach_Prelude
begin

text \<open>
  Spin locks and the lock word of a mutex (\<open>mach/lib/threads/sync.c\<close>), in the
  \<open>COROUTINE\<close> configuration, where \<open>mutex_try_lock\<close> and \<open>mutex_unlock\<close> are C code.
  No other thread runs between two C statements of a coroutine, so \<open>spin_lock\<close> on a held
  lock never returns: it is a partial function and that outcome is \<open>None\<close>.  The waiting
  loop of \<open>mutex_wait_lock\<close>, which yields to other coroutines, is part of
  \<open>Cthread_Coroutine\<close>.
\<close>

definition mutex_try_lock :: "int \<Rightarrow> bool \<times> int" where
  "mutex_try_lock m = (if m \<noteq> 0 then (False, m) else (True, 1))"

definition mutex_unlock :: "int \<Rightarrow> int" where
  "mutex_unlock m = 0"

partial_function (option) spin_lock :: "int \<Rightarrow> int option" where
  "spin_lock p =
     (if p \<noteq> 0 then spin_lock p
      else (case mutex_try_lock p of (ok, p') \<Rightarrow> if \<not> ok then spin_lock p' else Some p'))"

definition spin_unlock :: "int \<Rightarrow> int" where
  "spin_unlock p = mutex_unlock p"

lemma spin_lock_free [simp]: "spin_lock 0 = Some 1"
  by (simp add: spin_lock.simps mutex_try_lock_def)

lemma spin_lock_Some: "spin_lock p = Some q \<Longrightarrow> p = 0 \<and> q = 1"
proof (rule spin_lock.raw_induct [where P = "\<lambda>p q. p = 0 \<and> q = 1"])
  fix f p q
  assume IH: "\<And>p q. f p = Some q \<Longrightarrow> p = 0 \<and> q = 1"
    and "(if p \<noteq> 0 then f p
      else (case mutex_try_lock p of (ok, p') \<Rightarrow> if \<not> ok then f p' else Some p')) = Some q"
  then show "p = 0 \<and> q = 1"
    by (auto simp: mutex_try_lock_def split: if_splits)
qed

lemma spin_lock_held [simp]: "p \<noteq> 0 \<Longrightarrow> spin_lock p = None"
  using spin_lock_Some by (cases "spin_lock p") auto

lemma spin_unlock_eq [simp]: "spin_unlock p = 0"
  by (simp add: spin_unlock_def mutex_unlock_def)

text \<open>
  \<^bold>\<open>A spin lock is taken exactly when it was free\<close>: the call returns if and only
  if the lock word is 0, it then leaves 1 there, and unlocking restores 0.
\<close>

theorem spin_lock_iff: "spin_lock p = Some q \<longleftrightarrow> p = 0 \<and> q = 1 \<and> spin_unlock q = 0"
  using spin_lock_Some [of p q] by auto

end
