(* ===== verification/Cthread_Malloc.thy ===== *)
theory Cthread_Malloc
  imports Cthread_Sync
begin

text \<open>
  The power-of-two allocator of the C Threads package (\<open>mach/lib/threads/malloc.c\<close>),
  in the configurations the Makefile builds (\<open>MTHREAD\<close> and \<open>COROUTINE\<close>, with
  \<open>DEBUG\<close>; the \<open>MTASK\<close> variant is disabled there).  Memory is a function from byte
  addresses to bytes, 32-bit words in it are little-endian as on the VAX; the block headers
  and the pool descriptors live in that memory, at the addresses the C code computes.  The
  array \<open>malloc_free_list\<close> is static data outside the memory the kernel hands out: its
  lock words, list heads and use counts are the fields \<open>fl_lock\<close>, \<open>fl_head\<close>,
  \<open>fl_in_use\<close> of the state, and its address is a field of the environment, because
  allocated blocks store pointers into it.  The kernel call \<open>vm_allocate\<close> and the page
  size are also fields of the environment.  A call that spins for ever on a lock is
  \<open>None\<close>.
\<close>

section \<open>Byte memory\<close>

type_synonym memory = "nat \<Rightarrow> 8 word"

definition load32 :: "memory \<Rightarrow> nat \<Rightarrow> nat" where
  "load32 m a = unat (m a) + 256 * unat (m (a + 1)) + 65536 * unat (m (a + 2))
     + 16777216 * unat (m (a + 3))"

definition store32 :: "memory \<Rightarrow> nat \<Rightarrow> nat \<Rightarrow> memory" where
  "store32 m a v = m(a := of_nat v, a + 1 := of_nat (v div 256),
     a + 2 := of_nat (v div 65536), a + 3 := of_nat (v div 16777216))"

lemma store32_other: "x < a \<or> a + 4 \<le> x \<Longrightarrow> store32 m a v x = m x"
  by (auto simp: store32_def)

lemma load32_cong: "\<forall>x \<in> {a..<a + 4}. m' x = m x \<Longrightarrow> load32 m' a = load32 m a"
  by (simp add: load32_def)

lemma load32_store32_other: "b + 4 \<le> a \<or> a + 4 \<le> b \<Longrightarrow> load32 (store32 m a v) b = load32 m b"
  by (rule load32_cong) (auto simp: store32_other)

lemma word_bytes:
  "v = v mod 256 + 256 * (v div 256 mod 256) + 65536 * (v div 65536 mod 256)
     + 16777216 * (v div (16777216 :: nat))"
proof -
  have "v = v mod 256 + 256 * (v div 256)" by simp
  moreover have "v div 256 = v div 256 mod 256 + 256 * (v div 65536)"
    using mod_mult_div_eq [of "v div 256" 256] by (simp add: div_mult2_eq [symmetric])
  moreover have "v div 65536 = v div 65536 mod 256 + 256 * (v div 16777216)"
    using mod_mult_div_eq [of "v div 65536" 256] by (simp add: div_mult2_eq [symmetric])
  ultimately show ?thesis by linarith
qed

lemma load32_store32 [simp]: "v < 2 ^ 32 \<Longrightarrow> load32 (store32 m a v) a = v"
proof -
  assume "v < 2 ^ 32"
  then have "v div 16777216 < 256" by auto
  with word_bytes [of v] show ?thesis
    by (simp add: load32_def store32_def unat_of_nat)
qed

lemma load32_less: "load32 m a < 2 ^ 32"
proof -
  have b: "unat (x :: 8 word) \<le> 255" for x
  proof -
    have "unat x < 2 ^ LENGTH(8)" by (rule unsigned_less)
    then show ?thesis by simp
  qed
  show ?thesis
    using b [of "m a"] b [of "m (a + 1)"] b [of "m (a + 2)"] b [of "m (a + 3)"]
    by (simp add: load32_def)
qed

definition bcopy :: "nat \<Rightarrow> nat \<Rightarrow> nat \<Rightarrow> memory \<Rightarrow> memory" where
  "bcopy src dst n m = (\<lambda>x. if dst \<le> x \<and> x < dst + n then m (src + (x - dst)) else m x)"

section \<open>State and operations\<close>

text \<open>
  \<open>kern\<close> is the state of the kernel's memory management, which only \<open>vm_allocate\<close>
  changes.
\<close>

record 'k malloc_state =
  mem :: memory
  fl_lock :: "nat \<Rightarrow> int"
  fl_head :: "nat \<Rightarrow> ptr"
  fl_in_use :: "nat \<Rightarrow> int"
  malloc_lock :: int
  pool :: ptr
  pool_size :: nat
  malloc_pool_size :: nat
  kern :: 'k

record 'k malloc_env =
  vm_page_size :: nat
  malloc_free_list :: ptr
  vm_allocate :: "nat \<Rightarrow> 'k \<Rightarrow> ptr option \<times> 'k"

definition NBUCKETS :: nat where "NBUCKETS = 29"
definition MIN_SIZE :: nat where "MIN_SIZE = 8"
definition HEADER :: nat where "HEADER = 4"

text \<open>
  The search of the older pools for room (the inner \<open>while\<close> of \<open>more_memory\<close>):
  \<open>next\<close> is the first word of a pool descriptor, \<open>size\<close> the second.
\<close>

partial_function (option) search_pools :: "nat \<Rightarrow> ptr \<Rightarrow> memory \<Rightarrow> (ptr \<times> memory) option" where
  "search_pools amount prev m =
     (let cur = load32 m prev in
      if cur = 0 then Some (0, m)
      else if amount \<le> load32 m (cur + 4) then
        (let sz = load32 m (cur + 4) - amount; m1 = store32 m (cur + 4) sz in
         Some (u32 (cur + sz), if sz = 0 then store32 m1 prev (load32 m1 cur) else m1))
      else search_pools amount cur m)"

text \<open>The loop that threads the new blocks onto a free list.\<close>

fun carve :: "nat \<Rightarrow> nat \<Rightarrow> nat \<Rightarrow> ptr \<Rightarrow> 'k malloc_state \<Rightarrow> 'k malloc_state" where
  "carve bsize i 0 h s = s"
| "carve bsize i (Suc n) h s =
     carve bsize i n (u32 (h + bsize))
       (s\<lparr>mem := store32 (mem s) h (fl_head s i), fl_head := (fl_head s)(i := h)\<rparr>)"

text \<open>
  The part of \<open>more_memory\<close> under \<open>malloc_lock\<close>: finding \<open>amount\<close> bytes.
\<close>

definition more_from_first_pool :: "nat \<Rightarrow> 'k malloc_state \<Rightarrow> ptr \<times> 'k malloc_state" where
  "more_from_first_pool amount s =
     (let sz = pool_size s - amount; at = u32 (pool s + sz); s1 = s\<lparr>pool_size := sz\<rparr> in
      if sz = 0 then
        (let p = load32 (mem s1) (pool s1); s2 = s1\<lparr>pool := p\<rparr> in
         (at, if p \<noteq> 0 then s2\<lparr>pool_size := load32 (mem s2) (p + 4)\<rparr> else s2))
      else (at, s1))"

definition more_from_kernel ::
  "'k malloc_env \<Rightarrow> nat \<Rightarrow> 'k malloc_state \<Rightarrow> ptr option \<times> 'k malloc_state" where
  "more_from_kernel e amount s =
     (let chunk = u32 (vm_page_size e * malloc_pool_size s) in
      if amount \<ge> chunk then
        (case vm_allocate e amount (kern s) of (r, k) \<Rightarrow> (r, s\<lparr>kern := k\<rparr>))
      else
        (case vm_allocate e chunk (kern s) of
           (None, k) \<Rightarrow> (None, s\<lparr>kern := k\<rparr>)
         | (Some new_pool, k) \<Rightarrow>
            (let m1 = (if pool s \<noteq> 0 then store32 (mem s) (pool s + 4) (pool_size s) else mem s);
                 m2 = store32 m1 new_pool (pool s); sz = chunk - amount
             in (Some (u32 (new_pool + sz)),
                 s\<lparr>kern := k, mem := m2, pool := new_pool, pool_size := sz\<rparr>))))"

definition more_memory ::
  "'k malloc_env \<Rightarrow> nat \<Rightarrow> nat \<Rightarrow> 'k malloc_state \<Rightarrow> (bool \<times> 'k malloc_state) option" where
  "more_memory e bsize i s =
     (let (amount, n) = (if bsize \<le> vm_page_size e then (vm_page_size e, vm_page_size e div bsize)
                         else (bsize, 1)) in
      case spin_lock (malloc_lock s) of None \<Rightarrow> None
      | Some l \<Rightarrow>
        (let s1 = s\<lparr>malloc_lock := l\<rparr> in
         case (if amount \<le> pool_size s1
               then (case more_from_first_pool amount s1 of (w, s2) \<Rightarrow> Some (Some w, s2))
               else (case (if pool s1 \<noteq> 0 then search_pools amount (pool s1) (mem s1)
                           else Some (0, mem s1)) of
                       None \<Rightarrow> None
                     | Some (w, m) \<Rightarrow>
                        Some (if w = 0 then more_from_kernel e amount (s1\<lparr>mem := m\<rparr>)
                              else (Some w, s1\<lparr>mem := m\<rparr>))))
         of None \<Rightarrow> None
         | Some (r, s2) \<Rightarrow>
            (let s3 = s2\<lparr>malloc_lock := spin_unlock (malloc_lock s2)\<rparr> in
             Some (case r of None \<Rightarrow> (False, s3) | Some w \<Rightarrow> (True, carve bsize i n w s3)))))"

function size_class :: "nat \<Rightarrow> nat \<Rightarrow> nat \<Rightarrow> nat \<times> nat" where
  "size_class bsize i n =
     (if n < bsize \<and> i < NBUCKETS then size_class bsize (i + 1) (u32 (n * 2)) else (i, n))"
  by pat_completeness auto
termination
  by (relation "measure (\<lambda>(bsize, i, n). NBUCKETS - i)") auto

declare size_class.simps [simp del]

definition fl_addr :: "'k malloc_env \<Rightarrow> nat \<Rightarrow> ptr" where
  "fl_addr e i = malloc_free_list e + 12 * i"

definition malloc :: "'k malloc_env \<Rightarrow> nat \<Rightarrow> 'k malloc_state \<Rightarrow> (ptr \<times> 'k malloc_state) option" where
  "malloc e req s =
     (let bsize = u32 (req + HEADER) in
      if bsize \<le> HEADER then Some (0, s)
      else
        (let (i, n) = size_class bsize 0 MIN_SIZE in
         if i = NBUCKETS then Some (0, s)
         else
           case spin_lock (fl_lock s i) of None \<Rightarrow> None
           | Some l \<Rightarrow>
             (let s1 = s\<lparr>fl_lock := (fl_lock s)(i := l)\<rparr> in
              case (if fl_head s1 i = 0 then more_memory e n i s1 else Some (True, s1)) of
                None \<Rightarrow> None
              | Some (ok, s2) \<Rightarrow>
                 if \<not> ok
                 then Some (0, s2\<lparr>fl_lock := (fl_lock s2)(i := spin_unlock (fl_lock s2 i))\<rparr>)
                 else
                   (let h = fl_head s2 i;
                        s3 = s2\<lparr>fl_head := (fl_head s2)(i := load32 (mem s2) h),
                                fl_in_use := (fl_in_use s2)(i := fl_in_use s2 i + 1),
                                fl_lock := (fl_lock s2)(i := spin_unlock (fl_lock s2 i))\<rparr>
                    in Some (u32 (h + HEADER),
                             s3\<lparr>mem := store32 (mem s3) h (fl_addr e i)\<rparr>)))))"

text \<open>
  The bucket of a block, from the free-list pointer in its header; \<open>None\<close> is a pointer
  the sanity checks refuse.  The C pointer difference divides the signed byte distance by
  the size of \<open>struct free_list\<close> (12 bytes), truncating.
\<close>

definition bucket_of :: "'k malloc_env \<Rightarrow> ptr \<Rightarrow> nat option" where
  "bucket_of e fl =
     (let d = s32 (int fl - int (malloc_free_list e));
          i = (if d < 0 then - ((- d) div 12) else d div 12)
      in if i < 0 \<or> i \<ge> int NBUCKETS then None
         else if fl \<noteq> fl_addr e (nat i) then None
         else Some (nat i))"

definition free :: "'k malloc_env \<Rightarrow> ptr \<Rightarrow> 'k malloc_state \<Rightarrow> 'k malloc_state option" where
  "free e base s =
     (if base = 0 then Some s
      else
        (let h = sub32 base HEADER in
         case bucket_of e (load32 (mem s) h) of None \<Rightarrow> Some s
         | Some i \<Rightarrow>
            (case spin_lock (fl_lock s i) of None \<Rightarrow> None
             | Some l \<Rightarrow>
                (let s1 = s\<lparr>fl_lock := (fl_lock s)(i := l)\<rparr>;
                     s2 = s1\<lparr>mem := store32 (mem s1) h (fl_head s1 i),
                             fl_head := (fl_head s1)(i := h),
                             fl_in_use := (fl_in_use s1)(i := fl_in_use s1 i - 1)\<rparr>
                 in Some (s2\<lparr>fl_lock := (fl_lock s2)(i := spin_unlock (fl_lock s2 i))\<rparr>)))))"

definition realloc ::
  "'k malloc_env \<Rightarrow> ptr \<Rightarrow> nat \<Rightarrow> 'k malloc_state \<Rightarrow> (ptr \<times> 'k malloc_state) option" where
  "realloc e old_base new_size s =
     (if old_base = 0 then malloc e new_size s
      else
        (let h = sub32 old_base HEADER in
         case bucket_of e (load32 (mem s) h) of None \<Rightarrow> Some (0, s)
         | Some i \<Rightarrow>
            (let old_size = 2 ^ (i + 3) - HEADER in
             if old_size \<ge> new_size \<and> u32 (new_size + HEADER) > 2 ^ (i + 2)
             then Some (old_base, s)
             else
               (case malloc e new_size s of None \<Rightarrow> None
                | Some (new_base, s1) \<Rightarrow>
                   (let s2 = (if new_base \<noteq> 0
                              then s1\<lparr>mem := bcopy old_base new_base
                                        (if old_size < new_size then old_size else new_size)
                                        (mem s1)\<rparr>
                              else s1)
                    in (case free e old_base s2 of None \<Rightarrow> None
                        | Some s3 \<Rightarrow> Some (new_base, s3)))))))"

text \<open>Taking and releasing every free-list lock around a \<open>fork\<close>.\<close>

function lock_buckets :: "nat \<Rightarrow> 'k malloc_state \<Rightarrow> 'k malloc_state option" where
  "lock_buckets i s =
     (if i < NBUCKETS then
        (case spin_lock (fl_lock s i) of None \<Rightarrow> None
         | Some l \<Rightarrow> lock_buckets (i + 1) (s\<lparr>fl_lock := (fl_lock s)(i := l)\<rparr>))
      else Some s)"
  by pat_completeness auto
termination
  by (relation "measure (\<lambda>(i, s). NBUCKETS - i)") auto

declare lock_buckets.simps [simp del]

fun unlock_buckets :: "nat \<Rightarrow> 'k malloc_state \<Rightarrow> 'k malloc_state" where
  "unlock_buckets 0 s = s"
| "unlock_buckets (Suc i) s =
     unlock_buckets i (s\<lparr>fl_lock := (fl_lock s)(i := spin_unlock (fl_lock s i))\<rparr>)"

definition malloc_fork_prepare :: "'k malloc_state \<Rightarrow> 'k malloc_state option" where
  "malloc_fork_prepare s = lock_buckets 0 s"

definition malloc_fork_parent :: "'k malloc_state \<Rightarrow> 'k malloc_state" where
  "malloc_fork_parent s = unlock_buckets NBUCKETS s"

definition malloc_fork_child :: "'k malloc_state \<Rightarrow> 'k malloc_state" where
  "malloc_fork_child s = unlock_buckets NBUCKETS s"

end
