(* ===== verification/Cthread_Malloc_Heap.thy ===== *)
theory Cthread_Malloc_Heap
  imports Cthread_Malloc
begin

text \<open>
  The heap invariant of the allocator.  The heap is described by ghost data: the free blocks of
  every bucket (\<open>F\<close>), the pools with the room left in them (\<open>P\<close>), the blocks the
  program holds (\<open>A\<close>) and areas in transit inside an operation (\<open>L\<close>).  The invariant
  says that all these areas are disjoint parts of memory the kernel gave, and that the link
  words in memory spell out \<open>F\<close> and \<open>P\<close>.  Each step of an operation moves an area from
  one owner to another.
\<close>

section \<open>Areas of memory\<close>

datatype owner = Free nat | Pool | Used nat | Loose

type_synonym area = "owner \<times> nat \<times> nat"

definition span :: "area \<Rightarrow> nat set" where
  "span a = (case a of (t, b, n) \<Rightarrow> {b..<b + n})"

lemma span_simp [simp]: "span (t, b, n) = {b..<b + n}"
  by (simp add: span_def)

definition disjoint_areas :: "area set \<Rightarrow> bool" where
  "disjoint_areas S \<longleftrightarrow> (\<forall>x \<in> S. \<forall>y \<in> S. x \<noteq> y \<longrightarrow> span x \<inter> span y = {})"

lemma disjoint_areas_replace:
  assumes "disjoint_areas (insert x S)" and "x \<notin> S" and "disjoint_areas T"
    and "\<forall>y \<in> T. span y \<subseteq> span x"
  shows "disjoint_areas (T \<union> S)"
proof -
  have *: "span y \<inter> span z = {}" if "y \<in> T" "z \<in> S" for y z
  proof -
    from that assms(2) have "x \<noteq> z" by auto
    with assms(1) that have "span x \<inter> span z = {}" by (auto simp: disjoint_areas_def)
    with assms(4) that show ?thesis by blast
  qed
  have "span y \<inter> span z = {}" if "y \<in> T \<union> S" "z \<in> T \<union> S" "y \<noteq> z" for y z
  proof (cases "y \<in> T"; cases "z \<in> T")
    assume "y \<in> T" "z \<in> T"
    with assms(3) that show ?thesis by (auto simp: disjoint_areas_def)
  next
    assume "y \<in> T" "z \<notin> T"
    with that * show ?thesis by blast
  next
    assume "y \<notin> T" "z \<in> T"
    with that * [of z y] show ?thesis by blast
  next
    assume "y \<notin> T" "z \<notin> T"
    with that assms(1) show ?thesis by (auto simp: disjoint_areas_def)
  qed
  then show ?thesis by (auto simp: disjoint_areas_def)
qed

definition area_ok :: "nat set \<Rightarrow> area \<Rightarrow> bool" where
  "area_ok own a = (case a of (t, b, n) \<Rightarrow>
     0 < b \<and> 8 \<le> n \<and> b + n \<le> 2 ^ 32 \<and> {b..<b + n} \<subseteq> own)"

definition geometry :: "nat set \<Rightarrow> area set \<Rightarrow> bool" where
  "geometry own S \<longleftrightarrow> disjoint_areas S \<and> (\<forall>a \<in> S. area_ok own a)"

lemma geometry_replace:
  assumes "geometry own (insert x S)" and "x \<notin> S" and "disjoint_areas T"
    and "\<forall>y \<in> T. span y \<subseteq> span x" and "\<forall>y \<in> T. area_ok own y"
  shows "geometry own (T \<union> S)"
  using assms disjoint_areas_replace [of x S T] by (auto simp: geometry_def)

lemma geometry_subset: "geometry own S \<Longrightarrow> T \<subseteq> S \<Longrightarrow> geometry own T"
  unfolding geometry_def disjoint_areas_def by blast

text \<open>
  The link words: the first word of every area and the second word of every pool.  Two
  different link words never overlap.
\<close>

definition link_words :: "area set \<Rightarrow> nat set" where
  "link_words S = {b. \<exists>t n. (t, b, n) \<in> S} \<union> {p + 4 | p. \<exists>n. (Pool, p, n) \<in> S}"

lemma link_wordI: "(t, b, n) \<in> S \<Longrightarrow> b \<in> link_words S"
  by (auto simp: link_words_def)

lemma link_word_pool: "(Pool, p, n) \<in> S \<Longrightarrow> p + 4 \<in> link_words S"
  by (auto simp: link_words_def)

lemma link_word_area:
  assumes "geometry own S" and "a \<in> link_words S"
  obtains t b n where "(t, b, n) \<in> S" and "a = b \<or> a = b + 4" and "{a..<a + 4} \<subseteq> span (t, b, n)"
proof -
  from assms(2) obtain t b n where x: "(t, b, n) \<in> S" "a = b \<or> a = b + 4"
    by (auto simp: link_words_def)
  with assms(1) have "8 \<le> n" by (auto simp: geometry_def area_ok_def)
  with x that show ?thesis by (auto simp: subset_iff)
qed

lemma words_apart:
  assumes "{a..<a + 4} \<inter> {c..<c + 4} = {}"
  shows "a + 4 \<le> c \<or> c + 4 \<le> (a :: nat)"
proof (rule ccontr)
  assume "\<not> ?thesis"
  then have "max a c \<in> {a..<a + 4} \<inter> {c..<c + 4}" by auto
  with assms show False by simp
qed

lemma link_words_apart:
  assumes g: "geometry own S" and "a \<in> link_words S" and "c \<in> link_words S" and "a \<noteq> c"
  shows "a + 4 \<le> c \<or> c + 4 \<le> a"
proof -
  obtain t b n where x: "(t, b, n) \<in> S" "a = b \<or> a = b + 4" "{a..<a + 4} \<subseteq> span (t, b, n)"
    by (rule link_word_area [OF g assms(2)])
  obtain t' b' n' where y: "(t', b', n') \<in> S" "c = b' \<or> c = b' + 4"
      "{c..<c + 4} \<subseteq> span (t', b', n')"
    by (rule link_word_area [OF g assms(3)])
  show ?thesis
  proof (cases "(t, b, n) = (t', b', n')")
    case True
    with x(2) y(2) assms(4) show ?thesis by auto
  next
    case False
    with g x(1) y(1) have "span (t, b, n) \<inter> span (t', b', n') = {}"
      unfolding geometry_def disjoint_areas_def by blast
    with x(3) y(3) have "{a..<a + 4} \<inter> {c..<c + 4} = {}" by blast
    then show ?thesis by (rule words_apart)
  qed
qed

lemma load32_store32_link:
  assumes "geometry own S" and "a \<in> link_words S" and "c \<in> link_words S" and "v < 2 ^ 32"
  shows "load32 (store32 m a v) c = (if c = a then v else load32 m c)"
  using link_words_apart [OF assms(1-3)] assms(4) by (auto simp: load32_store32_other)

lemma chain_store32:
  assumes "geometry own S" and "a \<in> link_words S" and "set xs \<subseteq> link_words S" and "v < 2 ^ 32"
  shows "chain (load32 (store32 m a v)) p xs = chain ((load32 m)(a := v)) p xs"
  using assms load32_store32_link [OF assms(1,2) _ assms(4)] by (intro chain_cong) auto

lemma area_start_unique:
  assumes "geometry own S" and "(t, b, n) \<in> S" and "(t', b', n') \<in> S" and "b' \<in> span (t, b, n)"
  shows "(t', b', n') = (t, b, n)"
proof (rule ccontr)
  assume "(t', b', n') \<noteq> (t, b, n)"
  with assms(1-3) have "span (t', b', n') \<inter> span (t, b, n) = {}"
    unfolding geometry_def disjoint_areas_def by blast
  moreover from assms(1,3) have "b' \<in> span (t', b', n')"
    by (auto simp: geometry_def area_ok_def)
  ultimately show False using assms(4) by blast
qed

lemma span_not_link:
  assumes g: "geometry own S" and x: "(t, b, n) \<in> S" and a: "a \<in> span (t, b, n)"
  shows "a \<notin> link_words (S - {(t, b, n)})"
proof
  assume l: "a \<in> link_words (S - {(t, b, n)})"
  have "geometry own (S - {(t, b, n)})" using g by (rule geometry_subset) auto
  then obtain t' b' n' where y: "(t', b', n') \<in> S - {(t, b, n)}" "{a..<a + 4} \<subseteq> span (t', b', n')"
    using l by (rule link_word_area)
  have "span (t, b, n) \<inter> span (t', b', n') = {}"
    using g x y(1) unfolding geometry_def disjoint_areas_def by blast
  moreover have "a \<in> span (t', b', n')" using y(2) by auto
  ultimately show False using a by blast
qed

section \<open>The heap invariant\<close>

definition areas ::
  "(nat \<Rightarrow> ptr list) \<Rightarrow> (ptr \<times> nat) list \<Rightarrow> (ptr \<times> nat) set \<Rightarrow> area set \<Rightarrow> area set" where
  "areas F P A L =
     {(Free i, b, 2 ^ (i + 3)) | i b. b \<in> set (F i)} \<union> {(Pool, p, n) | p n. (p, n) \<in> set P}
     \<union> {(Used i, b, 2 ^ (i + 3)) | i b. (b, i) \<in> A} \<union> L"

lemma areas_free: "b \<in> set (F i) \<Longrightarrow> (Free i, b, 2 ^ (i + 3)) \<in> areas F P A L"
  by (auto simp: areas_def)

lemma areas_pool: "(p, n) \<in> set P \<Longrightarrow> (Pool, p, n) \<in> areas F P A L"
  by (auto simp: areas_def)

lemma areas_used: "(b, i) \<in> A \<Longrightarrow> (Used i, b, 2 ^ (i + 3)) \<in> areas F P A L"
  by (auto simp: areas_def)

lemma areas_loose: "areas F P A L = L \<union> areas F P A {}"
  by (auto simp: areas_def)

lemma areas_not_loose: "(Loose, b, n) \<notin> areas F P A {}"
  by (auto simp: areas_def)

definition pools_rep ::
  "'k malloc_env \<Rightarrow> memory \<Rightarrow> ptr \<Rightarrow> nat \<Rightarrow> (ptr \<times> nat) list \<Rightarrow> bool" where
  "pools_rep e m p sz P \<longleftrightarrow>
     chain (load32 m) p (map fst P) \<and> (\<forall>(q, n) \<in> set P. vm_page_size e dvd n)
     \<and> (case P of [] \<Rightarrow> sz = 0
         | (q, n) # R \<Rightarrow> sz = n \<and> (\<forall>(q', n') \<in> set R. load32 m (q' + 4) = n'))"

lemma pools_rep_size: "pools_rep e m p sz (x # R) \<Longrightarrow> (b, k) \<in> set R \<Longrightarrow> load32 m (b + 4) = k"
  by (fastforce simp: pools_rep_def split: prod.splits)

lemma pools_rep_cong:
  assumes "\<And>q n. (q, n) \<in> set P \<Longrightarrow> load32 m' q = load32 m q \<and> load32 m' (q + 4) = load32 m (q + 4)"
  shows "pools_rep e m' p sz P = pools_rep e m p sz P"
proof -
  have "chain (load32 m') p (map fst P) = chain (load32 m) p (map fst P)"
    using assms by (intro chain_cong) auto
  moreover have "(case x of (q, n) \<Rightarrow> load32 m' (q + 4) = n) = (case x of (q, n) \<Rightarrow> load32 m (q + 4) = n)"
    if "x \<in> set P" for x
    using assms that by (cases x) auto
  ultimately show ?thesis by (cases P) (auto simp: pools_rep_def)
qed

definition block_links ::
  "'k malloc_env \<Rightarrow> memory \<Rightarrow> (nat \<Rightarrow> ptr) \<Rightarrow> (nat \<Rightarrow> ptr list) \<Rightarrow> (ptr \<times> nat) set \<Rightarrow> bool" where
  "block_links e m heads F A \<longleftrightarrow>
     (\<forall>i. chain (load32 m) (heads i) (F i)) \<and> (\<forall>i \<ge> NBUCKETS. F i = [])
     \<and> (\<forall>(b, i) \<in> A. i < NBUCKETS \<and> load32 m b = fl_addr e i)"

definition links ::
  "'k malloc_env \<Rightarrow> 'k malloc_state \<Rightarrow> (nat \<Rightarrow> ptr list) \<Rightarrow> (ptr \<times> nat) list \<Rightarrow> (ptr \<times> nat) set \<Rightarrow> bool"
  where
  "links e s F P A \<longleftrightarrow>
     block_links e (mem s) (fl_head s) F A \<and> pools_rep e (mem s) (pool s) (pool_size s) P"

definition heap_inv ::
  "('k \<Rightarrow> nat set) \<Rightarrow> 'k malloc_env \<Rightarrow> 'k malloc_state \<Rightarrow> (nat \<Rightarrow> ptr list) \<Rightarrow> (ptr \<times> nat) list
     \<Rightarrow> (ptr \<times> nat) set \<Rightarrow> area set \<Rightarrow> bool" where
  "heap_inv own e s F P A L \<longleftrightarrow>
     geometry (own (kern s)) (areas F P A L) \<and> links e s F P A \<and> fst ` L \<subseteq> {Loose}"

text \<open>The memory of the program's blocks is not touched.\<close>

definition keeps :: "(ptr \<times> nat) set \<Rightarrow> memory \<Rightarrow> memory \<Rightarrow> bool" where
  "keeps A m m' \<longleftrightarrow> (\<forall>(b, i) \<in> A. \<forall>x \<in> {b..<b + 2 ^ (i + 3)}. m' x = m x)"

lemma keeps_refl [simp]: "keeps A m m"
  by (auto simp: keeps_def)

lemma keeps_trans: "keeps A m1 m2 \<Longrightarrow> keeps A m2 m3 \<Longrightarrow> keeps A m1 m3"
  by (fastforce simp: keeps_def)

lemma keeps_store32:
  assumes g: "geometry own (areas F P A L)" and x: "(t, b, n) \<in> areas F P A L"
    and t: "\<forall>i. t \<noteq> Used i" and a: "{a..<a + 4} \<subseteq> span (t, b, n)"
  shows "keeps A m (store32 m a v)"
  unfolding keeps_def
proof (clarify)
  fix b' i y
  assume u: "(b', i) \<in> A" and y: "y \<in> {b'..<b' + 2 ^ (i + 3)}"
  from u have "(Used i, b', 2 ^ (i + 3)) \<in> areas F P A L" by (auto simp: areas_def)
  with g x t have "span (Used i, b', 2 ^ (i + 3)) \<inter> span (t, b, n) = {}"
    unfolding geometry_def disjoint_areas_def by blast
  with y a have "y \<notin> {a..<a + 4}" by (auto simp: disjoint_iff)
  then show "store32 m a v y = m y" by (intro store32_other) auto
qed

lemma load32_store32_sub:
  assumes g: "geometry own S" and a: "a \<in> link_words S" and sub: "T \<subseteq> S"
    and na: "a \<notin> link_words T" and v: "v < 2 ^ 32" and c: "c \<in> link_words T"
  shows "load32 (store32 m a v) c = load32 m c"
proof -
  have "c \<in> link_words S" using c sub by (auto simp: link_words_def)
  moreover have "c \<noteq> a" using c na by auto
  ultimately show ?thesis using load32_store32_link [OF g a _ v] by simp
qed

lemma block_links_store:
  assumes l: "block_links e m heads F A" and g: "geometry own S" and sub: "areas F [] A {} \<subseteq> S"
    and a: "a \<in> link_words S" and na: "a \<notin> link_words (areas F [] A {})" and v: "v < 2 ^ 32"
  shows "block_links e (store32 m a v) heads F A"
proof -
  note rd = load32_store32_sub [OF g a sub na v]
  have f: "load32 (store32 m a v) b = load32 m b" if "b \<in> set (F i)" for i b
    using that by (intro rd link_wordI [OF areas_free])
  have u: "load32 (store32 m a v) b = load32 m b" if "(b, i) \<in> A" for i b
    using that by (intro rd link_wordI [OF areas_used])
  have "chain (load32 (store32 m a v)) q (F i) = chain (load32 m) q (F i)" for q i
    using f by (intro chain_cong) auto
  then show ?thesis using l u by (auto simp: block_links_def)
qed

lemma link_words_mono: "S \<subseteq> T \<Longrightarrow> link_words S \<subseteq> link_words T"
  by (auto simp: link_words_def)

lemma areas_mono_pools: "set P \<subseteq> set P' \<Longrightarrow> areas F P A L \<subseteq> areas F P' A L"
  by (auto simp: areas_def)

lemma links_store:
  assumes l: "links e s F P A" and g: "geometry own S" and sub: "areas F P A {} \<subseteq> S"
    and a: "a \<in> link_words S" and na: "a \<notin> link_words (areas F P A {})" and v: "v < 2 ^ 32"
  shows "links e (s\<lparr>mem := store32 (mem s) a v\<rparr>) F P A"
proof -
  note rd = load32_store32_sub [OF g a sub na v, of _ "mem s"]
  have m: "areas F [] A {} \<subseteq> areas F P A {}" by (rule areas_mono_pools) simp
  have "load32 (store32 (mem s) a v) q = load32 (mem s) q
      \<and> load32 (store32 (mem s) a v) (q + 4) = load32 (mem s) (q + 4)"
    if "(q, n) \<in> set P" for q n
    using that by (auto intro!: rd link_wordI [OF areas_pool] link_word_pool [OF areas_pool])
  then have "pools_rep e (store32 (mem s) a v) q sz P = pools_rep e (mem s) q sz P" for q sz
    by (intro pools_rep_cong) auto
  moreover have "block_links e (store32 (mem s) a v) (fl_head s) F A"
    using l m sub na link_words_mono [OF m]
    by (intro block_links_store [OF _ g _ a _ v]) (auto simp: links_def)
  ultimately show ?thesis using l by (simp add: links_def)
qed

lemma links_push:
  "links e s F P A \<Longrightarrow> load32 (mem s) h = fl_head s i \<Longrightarrow> h \<noteq> 0 \<Longrightarrow> i < NBUCKETS
    \<Longrightarrow> links e (s\<lparr>fl_head := (fl_head s)(i := h)\<rparr>) (F(i := h # F i)) P A"
  by (auto simp: links_def block_links_def)

lemma links_pop:
  assumes "links e s F P A" and "F i = h # xs"
  shows "links e (s\<lparr>fl_head := (fl_head s)(i := load32 (mem s) h)\<rparr>) (F(i := xs)) P A"
proof -
  from assms(1) have "chain (load32 (mem s)) (fl_head s i) (F i)"
    by (simp add: links_def block_links_def)
  with assms(2) have "chain (load32 (mem s)) (load32 (mem s) h) xs" by auto
  with assms show ?thesis by (auto simp: links_def block_links_def)
qed

lemma links_use:
  "links e s F P A \<Longrightarrow> load32 (mem s) h = fl_addr e i \<Longrightarrow> i < NBUCKETS \<Longrightarrow> links e s F P (insert (h, i) A)"
  by (auto simp: links_def block_links_def)

lemma links_drop: "links e s F P A \<Longrightarrow> links e s F P (A - B)"
  by (auto simp: links_def block_links_def)

section \<open>Moving areas\<close>

lemma heap_inv_geometry: "heap_inv own e s F P A L \<Longrightarrow> geometry (own (kern s)) (areas F P A L)"
  by (simp add: heap_inv_def)

lemma heap_inv_links: "heap_inv own e s F P A L \<Longrightarrow> links e s F P A"
  by (simp add: heap_inv_def)

lemma geometry_start_less: "geometry own S \<Longrightarrow> (t, b, n) \<in> S \<Longrightarrow> b + n \<le> 2 ^ 32 \<and> 0 < b \<and> 8 \<le> n"
  by (auto simp: geometry_def area_ok_def)

lemma heap_inv_head_less:
  assumes "heap_inv own e s F P A L"
  shows "fl_head s i < 2 ^ 32"
proof (cases "F i")
  case Nil
  with heap_inv_links [OF assms] have "fl_head s i = 0" by (auto simp: links_def block_links_def dest: spec [of _ i])
  then show ?thesis by simp
next
  case (Cons b bs)
  with heap_inv_links [OF assms] have "fl_head s i = b" by (auto simp: links_def block_links_def dest: spec [of _ i])
  moreover have "(Free i, b, 2 ^ (i + 3)) \<in> areas F P A L" using Cons by (intro areas_free) simp
  with heap_inv_geometry [OF assms] have "b < 2 ^ 32"
    by (auto dest!: geometry_start_less)
  ultimately show ?thesis by simp
qed

lemma two_power_ge_8: "8 \<le> (2 :: nat) ^ (i + 3)"
proof -
  have "(1 :: nat) \<le> 2 ^ i" by simp
  then show ?thesis by (simp add: power_add)
qed

lemma loose_store:
  assumes inv: "heap_inv own e s F P A {(Loose, h, n)}" and v: "v < 2 ^ 32"
  shows "links e (s\<lparr>mem := store32 (mem s) h v\<rparr>) F P A \<and> keeps A (mem s) (store32 (mem s) h v)"
proof -
  let ?S = "areas F P A {(Loose, h, n)}"
  note g = heap_inv_geometry [OF inv] and l = heap_inv_links [OF inv]
  have x: "(Loose, h, n) \<in> ?S" by (simp add: areas_def)
  have n: "8 \<le> n" using geometry_start_less [OF g x] by simp
  have "h \<notin> link_words (?S - {(Loose, h, n)})" using n by (intro span_not_link [OF g x]) simp
  moreover have "?S - {(Loose, h, n)} = areas F P A {}" by (auto simp: areas_def)
  ultimately have "links e (s\<lparr>mem := store32 (mem s) h v\<rparr>) F P A"
    using v by (intro links_store [OF l g _ link_wordI [OF x]]) (auto simp: areas_def)
  moreover have "keeps A (mem s) (store32 (mem s) h v)"
    using n by (intro keeps_store32 [OF g x]) auto
  ultimately show ?thesis by simp
qed

lemma heap_inv_push:
  assumes inv: "heap_inv own e s F P A {(Loose, h, n)}" and i: "i < NBUCKETS"
    and n: "n = 2 ^ (i + 3) \<or> 2 ^ (i + 3) + 8 \<le> n"
    and s': "s' = s\<lparr>mem := store32 (mem s) h (fl_head s i), fl_head := (fl_head s)(i := h)\<rparr>"
    and L': "L' = (if n = 2 ^ (i + 3) then {} else {(Loose, h + 2 ^ (i + 3), n - 2 ^ (i + 3))})"
  shows "heap_inv own e s' (F(i := h # F i)) P A L' \<and> keeps A (mem s) (mem s')"
proof -
  note g = heap_inv_geometry [OF inv] and hd = heap_inv_head_less [OF inv, of i]
  let ?T = "insert (Free i, h, 2 ^ (i + 3)) L'"
  have ok: "area_ok (own (kern s)) (Loose, h, n)"
    using g by (auto simp: geometry_def areas_def)
  have e: "areas (F(i := h # F i)) P A L' = ?T \<union> areas F P A {}"
    by (auto simp: areas_def split: if_splits)
  have "geometry (own (kern s)) (?T \<union> areas F P A {})"
  proof (rule geometry_replace [of _ "(Loose, h, n)"])
    show "geometry (own (kern s)) (insert (Loose, h, n) (areas F P A {}))"
      using g by (simp add: areas_loose [of F P A "{(Loose, h, n)}"])
    show "disjoint_areas ?T" using n by (auto simp: disjoint_areas_def L' split: if_splits)
    show "\<forall>y \<in> ?T. span y \<subseteq> span (Loose, h, n)" using n by (auto simp: L' split: if_splits)
    show "\<forall>y \<in> ?T. area_ok (own (kern s)) y"
      using ok n two_power_ge_8 [of i] by (auto simp: L' area_ok_def split: if_splits)
  qed (rule areas_not_loose)
  moreover have "links e s' (F(i := h # F i)) P A"
  proof -
    have "links e (s\<lparr>mem := store32 (mem s) h (fl_head s i)\<rparr>) F P A"
      using loose_store [OF inv hd] by simp
    from links_push [OF this _ _ i, of h] hd ok show ?thesis
      by (simp add: s' area_ok_def)
  qed
  moreover have "keeps A (mem s) (mem s')" using loose_store [OF inv hd] by (simp add: s')
  moreover have "fst ` L' \<subseteq> {Loose}" "kern s' = kern s" by (auto simp: L' s')
  ultimately show ?thesis unfolding heap_inv_def e by simp
qed

lemma carve_fields [simp]:
  "fl_lock (carve b i n h s) = fl_lock s" "malloc_lock (carve b i n h s) = malloc_lock s"
  "pool (carve b i n h s) = pool s" "pool_size (carve b i n h s) = pool_size s"
  "malloc_pool_size (carve b i n h s) = malloc_pool_size s" "kern (carve b i n h s) = kern s"
  "fl_in_use (carve b i n h s) = fl_in_use s"
  by (induction n arbitrary: h s) auto

lemma heap_inv_carve:
  assumes "heap_inv own e s F P A {(Loose, h, Suc n * 2 ^ (i + 3))}" and "i < NBUCKETS"
  shows "\<exists>F'. heap_inv own e (carve (2 ^ (i + 3)) i (Suc n) h s) F' P A {} \<and> F' i \<noteq> []
    \<and> keeps A (mem s) (mem (carve (2 ^ (i + 3)) i (Suc n) h s))"
  using assms
proof (induction n arbitrary: h s F)
  case 0
  from heap_inv_push [OF 0 _ refl refl] show ?case by fastforce
next
  case (Suc n)
  let ?b = "2 ^ (i + 3) :: nat"
  let ?s = "s\<lparr>mem := store32 (mem s) h (fl_head s i), fl_head := (fl_head s)(i := h)\<rparr>"
  have ne: "Suc (Suc n) * ?b \<noteq> ?b" "?b + 8 \<le> Suc (Suc n) * ?b"
    using two_power_ge_8 [of i] by auto
  have eq: "Suc (Suc n) * ?b - ?b = Suc n * ?b" by simp
  from heap_inv_push [OF Suc.prems _ refl refl] ne eq
  have step: "heap_inv own e ?s (F(i := h # F i)) P A {(Loose, h + ?b, Suc n * ?b)}"
    and k: "keeps A (mem s) (mem ?s)"
    by auto
  have "(Loose, h + ?b, Suc n * ?b) \<in> areas (F(i := h # F i)) P A {(Loose, h + ?b, Suc n * ?b)}"
    by (simp add: areas_def)
  from geometry_start_less [OF heap_inv_geometry [OF step] this]
  have "u32 (h + ?b) = h + ?b" using two_power_ge_8 [of i] by (intro u32_id) simp
  then have c: "carve ?b i (Suc (Suc n)) h s = carve ?b i (Suc n) (h + ?b) ?s" by simp
  from Suc.IH [OF step Suc.prems(2)] k show ?case unfolding c by (blast intro: keeps_trans)
qed

end
