(* ===== verification/Cthread_Malloc_Correct.thy ===== *)
theory Cthread_Malloc_Correct
  imports Cthread_Malloc_Heap
begin

text \<open>
  Correctness of \<open>malloc\<close>, \<open>free\<close>, \<open>realloc\<close> and the fork hooks: every operation
  returns when no lock is held, keeps the heap invariant and the contents of the program's
  blocks, and releases every lock it took.
\<close>

section \<open>What the kernel promises\<close>

text \<open>
  \<open>own k\<close> are the addresses the task has been given in kernel state \<open>k\<close>.  A successful
  \<open>vm_allocate\<close> returns addresses that were not in use.
\<close>

definition vm_spec :: "('k \<Rightarrow> nat set) \<Rightarrow> 'k malloc_env \<Rightarrow> bool" where
  "vm_spec own e \<longleftrightarrow> (\<forall>n k. 0 < n \<longrightarrow>
     (case vm_allocate e n k of
        (None, k') \<Rightarrow> own k \<subseteq> own k'
      | (Some a, k') \<Rightarrow> 0 < a \<and> a + n \<le> 2 ^ 32 \<and> {a..<a + n} \<inter> own k = {}
          \<and> own k \<union> {a..<a + n} \<subseteq> own k'))"

text \<open>The kernel grants a request of any size up to \<open>room\<close>, and at least one chunk.\<close>

definition vm_gives :: "'k malloc_env \<Rightarrow> 'k malloc_state \<Rightarrow> nat \<Rightarrow> bool" where
  "vm_gives e s room \<longleftrightarrow>
     (\<forall>n. 0 < n \<and> n \<le> max room (vm_page_size e * malloc_pool_size s)
        \<longrightarrow> fst (vm_allocate e n (kern s)) \<noteq> None)"

lemma vm_gives_mono: "vm_gives e s n \<Longrightarrow> m \<le> n \<Longrightarrow> vm_gives e s m"
  by (auto simp: vm_gives_def)

lemma vm_gives_fields [simp]:
  "vm_gives e (s\<lparr>malloc_lock := l\<rparr>) n = vm_gives e s n" "vm_gives e (s\<lparr>fl_lock := f\<rparr>) n = vm_gives e s n"
  by (simp_all add: vm_gives_def)

definition env_ok :: "'k malloc_env \<Rightarrow> 'k malloc_state \<Rightarrow> bool" where
  "env_ok e s \<longleftrightarrow> (\<exists>k. 3 \<le> k \<and> k < 32 \<and> vm_page_size e = 2 ^ k)
     \<and> 0 < malloc_pool_size s \<and> vm_page_size e * malloc_pool_size s < 2 ^ 32
     \<and> 0 < malloc_free_list e \<and> malloc_free_list e + 12 * NBUCKETS < 2 ^ 32"

lemma area_ok_mono: "area_ok own a \<Longrightarrow> own \<subseteq> own' \<Longrightarrow> area_ok own' a"
  by (cases a) (auto simp: area_ok_def subset_iff)

lemma geometry_own_mono: "geometry own S \<Longrightarrow> own \<subseteq> own' \<Longrightarrow> geometry own' S"
  by (auto simp: geometry_def intro: area_ok_mono)

lemma geometry_fresh:
  assumes g: "geometry own S" and f: "{a..<a + n} \<inter> own = {}" and "own \<union> {a..<a + n} \<subseteq> own'"
    and "0 < a" and "8 \<le> n" and "a + n \<le> 2 ^ 32"
  shows "geometry own' (insert (t, a, n) S)"
proof -
  have "span y \<inter> {a..<a + n} = {}" if "y \<in> S" for y
    using g f that unfolding geometry_def area_ok_def by (cases y) fastforce
  then have "disjoint_areas (insert (t, a, n) S)"
    using g unfolding geometry_def disjoint_areas_def by (auto simp: Int_commute)
  moreover have "geometry own' S" using g assms(3) by (intro geometry_own_mono [OF g]) auto
  ultimately show ?thesis using assms(3-6) by (auto simp: geometry_def area_ok_def)
qed

section \<open>Taking memory from a pool\<close>

lemma areas_pools_split:
  "areas F (P1 @ (p, n) # P2) A L = insert (Pool, p, n) (areas F (P1 @ P2) A L)"
  by (auto simp: areas_def)

lemma geometry_split_pool:
  assumes g: "geometry own (areas F (P1 @ (p, n) # P2) A {})" and d: "p \<notin> fst ` set (P1 @ P2)"
    and sz: "sz = n - amount" "amount \<le> n" "sz = 0 \<or> 8 \<le> sz" "8 \<le> amount"
    and P': "P' = P1 @ (if sz = 0 then [] else [(p, sz)]) @ P2"
  shows "geometry own (areas F P' A {(Loose, p + sz, amount)})"
proof -
  let ?T = "{(Loose, p + sz, amount)} \<union> (if sz = 0 then {} else {(Pool, p, sz)})"
  have ok: "area_ok own (Pool, p, n)" using g by (auto simp: geometry_def areas_def)
  have e: "areas F P' A {(Loose, p + sz, amount)} = ?T \<union> areas F (P1 @ P2) A {}"
    by (auto simp: P' areas_def)
  have "geometry own (?T \<union> areas F (P1 @ P2) A {})"
  proof (rule geometry_replace [of _ "(Pool, p, n)"])
    show "geometry own (insert (Pool, p, n) (areas F (P1 @ P2) A {}))"
      using g by (simp add: areas_pools_split)
    show "(Pool, p, n) \<notin> areas F (P1 @ P2) A {}" using d by (force simp: areas_def)
    show "disjoint_areas ?T" by (auto simp: disjoint_areas_def)
    show "\<forall>y \<in> ?T. span y \<subseteq> span (Pool, p, n)" using sz by auto
    show "\<forall>y \<in> ?T. area_ok own y" using ok sz by (auto simp: area_ok_def subset_iff)
  qed
  then show ?thesis by (simp only: e)
qed

lemma page_remainder:
  assumes "(2 :: nat) ^ k dvd n" and "2 ^ k dvd amount" and "amount \<le> n" and "3 \<le> k"
  shows "n - amount = 0 \<or> 8 \<le> n - amount"
proof -
  have "2 ^ k dvd n - amount" using assms by (intro dvd_diff_nat)
  moreover have "(8 :: nat) \<le> 2 ^ k" using assms(4) power_increasing [of 3 k "2 :: nat"] by simp
  ultimately show ?thesis by (metis dvd_imp_le gr0I le_trans)
qed

lemma more_from_first_pool_inv:
  assumes inv: "heap_inv own e s F P A {}" and am: "amount \<le> pool_size s" "8 \<le> amount"
    and pg: "vm_page_size e = 2 ^ k" "3 \<le> k" "vm_page_size e dvd amount"
    and r: "more_from_first_pool amount s = (w, s')"
  shows "\<exists>P'. heap_inv own e s' F P' A {(Loose, w, amount)} \<and> mem s' = mem s \<and> fl_lock s' = fl_lock s
    \<and> malloc_lock s' = malloc_lock s \<and> malloc_pool_size s' = malloc_pool_size s
    \<and> fl_in_use s' = fl_in_use s"
proof -
  note g = heap_inv_geometry [OF inv] and l = heap_inv_links [OF inv]
  from l am obtain p n R where P: "P = (p, n) # R" and n: "pool_size s = n" "pool s = p"
    by (cases P) (auto simp: links_def pools_rep_def)
  have c: "chain (load32 (mem s)) p (p # map fst R)" and dv: "vm_page_size e dvd n"
    and R: "\<forall>(q, m) \<in> set R. load32 (mem s) (q + 4) = m \<and> vm_page_size e dvd m"
    using l P n by (auto simp: links_def pools_rep_def)
  let ?sz = "n - amount"
  let ?P = "[] @ (if ?sz = 0 then [] else [(p, ?sz)]) @ R"
  have dsz: "vm_page_size e dvd ?sz" using dv pg(3) am(1) n(1) by (intro dvd_diff_nat) auto
  have s8: "?sz = 0 \<or> 8 \<le> ?sz"
    using dv pg am(1) n(1) by (intro page_remainder [of k]) auto
  have np: "p \<notin> fst ` set ([] @ R)" using chain_head_notin [OF c] by simp
  have gp: "geometry (own (kern s)) (areas F ?P A {(Loose, p + ?sz, amount)})"
  proof (rule geometry_split_pool [OF _ np refl _ s8 am(2) refl])
    show "geometry (own (kern s)) (areas F ([] @ (p, n) # R) A {})" using g P by simp
    show "amount \<le> n" using am(1) n(1) by simp
  qed
  have "(Pool, p, n) \<in> areas F P A {}" using P by (intro areas_pool) simp
  from geometry_start_less [OF g this] am have "p + ?sz < 2 ^ 32" by auto
  then have w: "w = p + ?sz" using r n by (auto simp: more_from_first_pool_def Let_def split: if_splits)
  have "links e s' F ?P A"
  proof (cases "?sz = 0")
    case True
    have "pools_rep e (mem s) (load32 (mem s) p)
        (if load32 (mem s) p \<noteq> 0 then load32 (mem s) (load32 (mem s) p + 4) else 0) R"
      using c R by (cases R) (auto simp: pools_rep_def)
    with True r n l show ?thesis
      by (auto simp: more_from_first_pool_def Let_def links_def split: if_splits)
  next
    case False
    with r n l P dsz R c show ?thesis
      by (auto simp: more_from_first_pool_def Let_def links_def pools_rep_def)
  qed
  moreover have "kern s' = kern s" using r by (auto simp: more_from_first_pool_def Let_def split: if_splits)
  ultimately have "heap_inv own e s' F ?P A {(Loose, w, amount)}"
    using gp w by (simp add: heap_inv_def)
  moreover have "mem s' = mem s \<and> fl_lock s' = fl_lock s \<and> malloc_lock s' = malloc_lock s
      \<and> malloc_pool_size s' = malloc_pool_size s \<and> fl_in_use s' = fl_in_use s"
    using r by (auto simp: more_from_first_pool_def Let_def split: if_splits)
  ultimately show ?thesis by blast
qed

section \<open>Searching the older pools\<close>

lemma search_pools_none:
  assumes "chain (load32 m) (load32 m prev) (map fst R)"
    and "\<forall>(q, n) \<in> set R. load32 m (q + 4) = n \<and> n < amount"
  shows "search_pools amount prev m = Some (0, m)"
  using assms
proof (induction R arbitrary: prev)
  case Nil
  then show ?case by (simp add: search_pools.simps)
next
  case (Cons x R)
  obtain q n where x: "x = (q, n)" by fastforce
  with Cons show ?case by (subst search_pools.simps) auto
qed

lemma search_pools_found:
  assumes "chain (load32 m) (load32 m prev) (map fst (R1 @ (q, n) # R2))"
    and "\<forall>(q, n) \<in> set R1. load32 m (q + 4) = n \<and> n < amount" and "amount \<le> n"
    and "load32 m (q + 4) = n"
  shows "search_pools amount prev m =
    (let m1 = store32 m (q + 4) (n - amount) in
     Some (u32 (q + (n - amount)),
       if n - amount = 0 then store32 m1 (last (prev # map fst R1)) (load32 m1 q) else m1))"
  using assms
proof (induction R1 arbitrary: prev)
  case Nil
  then show ?case by (subst search_pools.simps) (auto simp: Let_def)
next
  case (Cons x R1)
  obtain q' n' where x: "x = (q', n')" by fastforce
  with Cons have "search_pools amount prev m = search_pools amount q' m"
    by (subst search_pools.simps) auto
  with Cons x show ?case by (auto simp: Let_def)
qed

lemma split_first:
  assumes "\<exists>x \<in> set R. Q x"
  obtains R1 x R2 where "R = R1 @ x # R2" and "Q x" and "\<forall>y \<in> set R1. \<not> Q y"
  using assms split_list_first_prop [of R Q] by blast

text \<open>
  The memory after a successful search: the room of pool \<open>q\<close> shrinks, and an empty pool
  is unlinked from its predecessor.
\<close>

lemma pools_rep_shrink:
  assumes g: "geometry own (areas F P A {})" and P: "P = (p0, n0) # R1 @ (q, n) # R2"
    and r: "pools_rep e m p n0 P" and v: "v < 2 ^ 32" "vm_page_size e dvd v"
  shows "pools_rep e (store32 m (q + 4) v) p n0 ((p0, n0) # R1 @ (q, v) # R2)"
proof -
  let ?S = "areas F P A {}"
  have x: "(Pool, q, n) \<in> ?S" using P by (intro areas_pool) simp
  have c: "chain (load32 m) p (map fst P)" using r by (simp add: pools_rep_def)
  note rd = load32_store32_link [OF g link_word_pool [OF x] _ v(1), of _ m]
  have st: "load32 (store32 m (q + 4) v) b = load32 m b" if "(b, k) \<in> set P" for b k
  proof -
    have y: "(Pool, b, k) \<in> ?S" using that by (rule areas_pool)
    have "b \<noteq> q + 4"
    proof
      assume "b = q + 4"
      with geometry_start_less [OF g x] have "b \<in> span (Pool, q, n)" by simp
      from area_start_unique [OF g x y this] \<open>b = q + 4\<close> show False by simp
    qed
    with rd [OF link_wordI [OF y]] show ?thesis by simp
  qed
  have nd: "distinct (map fst P)" using c by (rule chain_distinct)
  have sz: "load32 (store32 m (q + 4) v) (b + 4) = load32 m (b + 4)"
    if "(b, k) \<in> set ((p0, n0) # R1 @ R2)" for b k
  proof -
    have "b \<in> fst ` set ((p0, n0) # R1 @ R2)" using that by force
    then have "b \<noteq> q" using nd P by auto
    moreover have "(Pool, b, k) \<in> ?S" using that P by (intro areas_pool) auto
    ultimately show ?thesis using rd [OF link_word_pool] by simp
  qed
  have R: "load32 m (b + 4) = k" if "(b, k) \<in> set (R1 @ R2)" for b k
    using r that unfolding P by (elim pools_rep_size) auto
  have "load32 (store32 m (q + 4) v) (b + 4) = k" if "(b, k) \<in> set (R1 @ (q, v) # R2)" for b k
  proof (cases "(b, k) = (q, v)")
    case True
    then show ?thesis using v by simp
  next
    case False
    with that have "(b, k) \<in> set (R1 @ R2)" by auto
    with sz [of b k] R [of b k] show ?thesis by auto
  qed
  moreover have "\<forall>y \<in> set (map fst P). load32 (store32 m (q + 4) v) y = load32 m y"
    using st by auto
  from chain_cong [OF this] c have "chain (load32 (store32 m (q + 4) v)) p (map fst P)" by simp
  moreover have "\<forall>(b, k) \<in> set ((p0, n0) # R1 @ (q, v) # R2). vm_page_size e dvd k"
    using r P v(2) by (auto simp: pools_rep_def)
  ultimately show ?thesis using r P by (auto simp: pools_rep_def)
qed

lemma pools_rep_unlink:
  assumes g: "geometry own (areas F P A {})" and P: "P = (p0, n0) # R1 @ (q, n) # R2"
    and r: "pools_rep e m p n0 ((p0, n0) # R1 @ (q, n') # R2)"
    and prv: "prv = last (p0 # map fst R1)"
  shows "pools_rep e (store32 m prv (load32 m q)) p n0 ((p0, n0) # R1 @ R2)"
proof -
  let ?S = "areas F P A {}" and ?m = "store32 m prv (load32 m q)"
  have c: "chain (load32 m) p (map fst P)" using r by (simp add: pools_rep_def P)
  have "prv \<in> fst ` set ((p0, n0) # R1)"
    using prv last_in_set [of "map fst ((p0, n0) # R1)"] by auto
  then obtain np where "(prv, np) \<in> set ((p0, n0) # R1)" by (metis imageE prod.collapse)
  then have x: "(prv, np) \<in> set P" using P by auto
  have xS: "(Pool, prv, np) \<in> ?S" using x by (rule areas_pool)
  note rd = load32_store32_link [OF g link_wordI [OF xS] _ load32_less, of _ m]
  have sz: "load32 ?m (b + 4) = load32 m (b + 4)" if "(b, k) \<in> set P" for b k
  proof -
    have y: "(Pool, b, k) \<in> ?S" using that by (rule areas_pool)
    have "b + 4 \<noteq> prv"
    proof
      assume "b + 4 = prv"
      with geometry_start_less [OF g y] have "prv \<in> span (Pool, b, k)" by simp
      from area_start_unique [OF g y xS this] \<open>b + 4 = prv\<close> show False by simp
    qed
    with rd [OF link_word_pool [OF y]] show ?thesis by simp
  qed
  obtain bl where bl: "p0 # map fst R1 = bl @ [prv]"
    using prv append_butlast_last_id [of "p0 # map fst R1"] by (metis list.distinct(1))
  then have "map fst P = bl @ prv # q # map fst R2" using P by simp
  with c have "chain (load32 m) p (bl @ prv # q # map fst R2)" by simp
  then have "chain ((load32 m)(prv := load32 m q)) p (bl @ prv # map fst R2)"
    by (rule chain_unlink)
  moreover have "bl @ prv # map fst R2 = map fst ((p0, n0) # R1 @ R2)" using bl by simp
  ultimately have "chain ((load32 m)(prv := load32 m q)) p (map fst ((p0, n0) # R1 @ R2))"
    by (simp only:)
  then have "chain (load32 ?m) p (map fst ((p0, n0) # R1 @ R2))"
  proof (rule iffD1 [OF chain_cong, rotated])
    show "\<forall>y \<in> set (map fst ((p0, n0) # R1 @ R2)). ((load32 m)(prv := load32 m q)) y = load32 ?m y"
      using rd P by (force intro: link_wordI [OF areas_pool])
  qed
  moreover have "load32 ?m (b + 4) = k" if "(b, k) \<in> set (R1 @ R2)" for b k
  proof -
    have "load32 m (b + 4) = k" using r that by (elim pools_rep_size) auto
    with sz [of b k] that P show ?thesis by auto
  qed
  ultimately show ?thesis using r P by (auto simp: pools_rep_def)
qed

lemma pool_store:
  assumes g: "geometry own (areas F P A {})" and x: "(q, n) \<in> set P" and a: "a = q \<or> a = q + 4"
    and v: "v < 2 ^ 32" and b: "block_links e m heads F A"
  shows "block_links e (store32 m a v) heads F A \<and> keeps A m (store32 m a v)"
proof -
  let ?S = "areas F P A {}"
  have xS: "(Pool, q, n) \<in> ?S" using x by (rule areas_pool)
  have n: "8 \<le> n" using geometry_start_less [OF g xS] by simp
  have sub: "{a..<a + 4} \<subseteq> span (Pool, q, n)" using a n by auto
  then have "a \<notin> link_words (?S - {(Pool, q, n)})" by (intro span_not_link [OF g xS]) auto
  moreover have "areas F [] A {} \<subseteq> ?S - {(Pool, q, n)}" by (auto simp: areas_def)
  ultimately have "a \<notin> link_words (areas F [] A {})" using link_words_mono by blast
  moreover have "a \<in> link_words ?S" using a xS by (auto intro: link_wordI link_word_pool)
  ultimately have "block_links e (store32 m a v) heads F A"
    by (intro block_links_store [OF b g _ _ _ v] areas_mono_pools) auto
  moreover have "keeps A m (store32 m a v)" by (rule keeps_store32 [OF g xS _ sub]) auto
  ultimately show ?thesis ..
qed

lemma search_found_inv:
  assumes inv: "heap_inv own e s F P A {}" and P: "P = (p0, n0) # R1 @ (q, n) # R2"
    and am: "amount \<le> n" "8 \<le> amount" "vm_page_size e dvd amount"
    and pg: "vm_page_size e = 2 ^ k" "3 \<le> k"
    and m1: "m1 = store32 (mem s) (q + 4) (n - amount)"
    and m2: "m2 = (if n - amount = 0 then store32 m1 (last (p0 # map fst R1)) (load32 m1 q) else m1)"
  shows "\<exists>P'. heap_inv own e (s\<lparr>mem := m2\<rparr>) F P' A {(Loose, q + (n - amount), amount)}
    \<and> keeps A (mem s) m2"
proof -
  note g = heap_inv_geometry [OF inv] and l = heap_inv_links [OF inv]
  let ?sz = "n - amount"
  let ?P = "((p0, n0) # R1) @ (if ?sz = 0 then [] else [(q, ?sz)]) @ R2"
  have r: "pools_rep e (mem s) (pool s) n0 P" and n0: "pool_size s = n0"
    using l P by (auto simp: links_def pools_rep_def)
  have dv: "vm_page_size e dvd n" using r P by (auto simp: pools_rep_def)
  have dsz: "vm_page_size e dvd ?sz" using dv am by (intro dvd_diff_nat) auto
  have s8: "?sz = 0 \<or> 8 \<le> ?sz" using dv pg am by (intro page_remainder [of k]) auto
  have xS: "(Pool, q, n) \<in> areas F P A {}" using P by (intro areas_pool) simp
  have sz32: "?sz < 2 ^ 32" using geometry_start_less [OF g xS] by auto
  have "distinct (map fst P)" using r chain_distinct by (auto simp: pools_rep_def)
  then have nq: "q \<notin> fst ` set (((p0, n0) # R1) @ R2)" using P by auto
  have gp: "geometry (own (kern s)) (areas F ?P A {(Loose, q + ?sz, amount)})"
    using g P by (intro geometry_split_pool [OF _ nq refl am(1) s8 am(2) refl]) simp
  have bl: "block_links e (mem s) (fl_head s) F A" using l by (simp add: links_def)
  have q: "(q, n) \<in> set P" using P by simp
  from pool_store [OF g q _ sz32 bl, of "q + 4"]
  have b1: "block_links e m1 (fl_head s) F A" and k1: "keeps A (mem s) m1" by (auto simp: m1)
  have r1: "pools_rep e m1 (pool s) n0 ((p0, n0) # R1 @ (q, ?sz) # R2)"
    unfolding m1 by (rule pools_rep_shrink [OF g P r sz32 dsz])
  have "last (p0 # map fst R1) \<in> fst ` set ((p0, n0) # R1)"
    using last_in_set [of "map fst ((p0, n0) # R1)"] by auto
  then obtain np where "(last (p0 # map fst R1), np) \<in> set ((p0, n0) # R1)"
    by (metis imageE prod.collapse)
  then have pv: "(last (p0 # map fst R1), np) \<in> set P" using P by auto
  note st = pool_store [OF g pv _ load32_less b1, of "last (p0 # map fst R1)"]
  have b2: "block_links e m2 (fl_head s) F A" and k2: "keeps A m1 m2"
    using st b1 by (auto simp: m2)
  have "pools_rep e m2 (pool s) n0 ?P"
    using pools_rep_unlink [OF g P r1 refl] r1 by (auto simp: m2)
  with b2 n0 gp have "heap_inv own e (s\<lparr>mem := m2\<rparr>) F ?P A {(Loose, q + ?sz, amount)}"
    by (simp add: heap_inv_def links_def)
  moreover have "keeps A (mem s) m2" using k1 k2 by (rule keeps_trans)
  ultimately show ?thesis by blast
qed

lemma search_pools_inv:
  assumes inv: "heap_inv own e s F P A {}" and p: "pool s \<noteq> 0"
    and am: "8 \<le> amount" "vm_page_size e dvd amount"
    and pg: "vm_page_size e = 2 ^ k" "3 \<le> k"
  shows "search_pools amount (pool s) (mem s) = Some (0, mem s)
    \<or> (\<exists>w m P'. search_pools amount (pool s) (mem s) = Some (w, m) \<and> w \<noteq> 0
        \<and> heap_inv own e (s\<lparr>mem := m\<rparr>) F P' A {(Loose, w, amount)} \<and> keeps A (mem s) m)"
proof -
  note g = heap_inv_geometry [OF inv] and l = heap_inv_links [OF inv]
  from l p obtain n0 R where P: "P = (pool s, n0) # R"
    by (cases P) (auto simp: links_def pools_rep_def)
  have sz: "load32 (mem s) (b + 4) = k" if "(b, k) \<in> set R" for b k
    using l P that by (auto simp: links_def dest: pools_rep_size)
  have c: "chain (load32 (mem s)) (load32 (mem s) (pool s)) (map fst R)"
    using l P by (auto simp: links_def pools_rep_def)
  show ?thesis
  proof (cases "\<exists>(q, n) \<in> set R. amount \<le> n")
    case False
    with sz have "\<forall>(q, n) \<in> set R. load32 (mem s) (q + 4) = n \<and> n < amount" by fastforce
    from search_pools_none [OF c this] show ?thesis ..
  next
    case True
    then obtain R1 x R2 where R: "R = R1 @ x # R2" and x: "case x of (q, n) \<Rightarrow> amount \<le> n"
      and R1: "\<forall>y \<in> set R1. \<not> (case y of (q, n) \<Rightarrow> amount \<le> n)"
      by (rule split_first)
    obtain q n where xq: "x = (q, n)" by fastforce
    have an: "amount \<le> n" using x xq by simp
    have R1': "\<forall>(q, n) \<in> set R1. load32 (mem s) (q + 4) = n \<and> n < amount"
      using R1 sz R by fastforce
    have szq: "load32 (mem s) (q + 4) = n" using sz R xq by simp
    have P': "P = (pool s, n0) # R1 @ (q, n) # R2" using P R xq by simp
    have "(Pool, q, n) \<in> areas F P A {}" using P' by (intro areas_pool) simp
    from geometry_start_less [OF g this] am an
    have w: "u32 (q + (n - amount)) = q + (n - amount)" "q + (n - amount) \<noteq> 0"
      by (auto intro!: u32_id)
    have c': "chain (load32 (mem s)) (load32 (mem s) (pool s)) (map fst (R1 @ (q, n) # R2))"
      using c R xq by simp
    from search_pools_found [OF c' R1' an szq] w
      search_found_inv [OF inv P' an am pg refl refl]
    show ?thesis by (auto simp: Let_def)
  qed
qed

section \<open>Memory from the kernel\<close>

lemma save_first_size:
  assumes g: "geometry own (areas F P A {})" and r: "pools_rep e m p sz P"
    and m1: "m1 = (if p \<noteq> 0 then store32 m (p + 4) sz else m)" and b: "block_links e m heads F A"
  shows "chain (load32 m1) p (map fst P) \<and> (\<forall>(q, k) \<in> set P. load32 m1 (q + 4) = k)
    \<and> block_links e m1 heads F A \<and> keeps A m m1"
proof (cases P)
  case Nil
  with assms show ?thesis by (simp add: pools_rep_def)
next
  case (Cons x R)
  then obtain n0 where P: "P = (p, n0) # R" and n0: "sz = n0" and p0: "p \<noteq> 0"
    using r by (cases x) (auto simp: pools_rep_def)
  have c: "chain (load32 m) p (map fst P)" using r by (simp add: pools_rep_def)
  have x: "(p, n0) \<in> set P" using P by simp
  note xS = areas_pool [OF x, of F A "{}"]
  have v: "sz < 2 ^ 32" using geometry_start_less [OF g xS] n0 by auto
  note rd = load32_store32_link [OF g link_word_pool [OF xS] _ v, of _ m]
  have st: "load32 m1 q = load32 m q" if "(q, k) \<in> set P" for q k
  proof -
    have y: "(Pool, q, k) \<in> areas F P A {}" using that by (rule areas_pool)
    have "q \<noteq> p + 4"
    proof
      assume "q = p + 4"
      with geometry_start_less [OF g xS] have "q \<in> span (Pool, p, n0)" by simp
      from area_start_unique [OF g xS y this] \<open>q = p + 4\<close> show False by simp
    qed
    with rd [OF link_wordI [OF y]] p0 show ?thesis by (simp add: m1)
  qed
  have "\<forall>y \<in> set (map fst P). load32 m1 y = load32 m y" using st by auto
  from chain_cong [OF this] c have "chain (load32 m1) p (map fst P)" by simp
  moreover have "load32 m1 (q + 4) = k" if "(q, k) \<in> set P" for q k
  proof (cases "q = p")
    case True
    moreover have "distinct (map fst P)" using c by (rule chain_distinct)
    ultimately have "k = n0" using that P by force
    with True v n0 p0 show ?thesis by (simp add: m1)
  next
    case False
    with that P have "(q, k) \<in> set R" by auto
    with r P have "load32 m (q + 4) = k" by (auto dest: pools_rep_size)
    with False rd [OF link_word_pool [OF areas_pool [OF that]]] p0 show ?thesis by (simp add: m1)
  qed
  moreover have "block_links e m1 heads F A \<and> keeps A m m1"
    using pool_store [OF g x _ v b, of "p + 4"] p0 by (simp add: m1)
  ultimately show ?thesis by auto
qed

lemma new_pool_links:
  assumes g: "geometry own (areas F ((a, n) # P) A {})" and b: "block_links e m1 heads F A"
    and c: "chain (load32 m1) p (map fst P)" and sz: "\<forall>(q, k) \<in> set P. load32 m1 (q + 4) = k"
    and dv: "\<forall>(q, k) \<in> set P. vm_page_size e dvd k" "vm_page_size e dvd v" and p: "p < 2 ^ 32"
    and m2: "m2 = store32 m1 a p" and nf: "a \<notin> fst ` set P"
  shows "pools_rep e m2 a v ((a, v) # P) \<and> block_links e m2 heads F A \<and> keeps A m1 m2"
proof -
  let ?S = "areas F ((a, n) # P) A {}"
  have x: "(a, n) \<in> set ((a, n) # P)" by simp
  note xS = areas_pool [OF x, of F A "{}"]
  have a0: "0 < a" "8 \<le> n" using geometry_start_less [OF g xS] by auto
  note rd = load32_store32_link [OF g link_wordI [OF xS] _ p, of _ m1]
  have e: "?S = insert (Pool, a, n) (areas F P A {})" using areas_pools_split [of F "[]" a n P A "{}"] by simp
  have np: "q \<noteq> a \<and> q + 4 \<noteq> a" if "(q, k) \<in> set P" "(q, k) \<noteq> (a, n)" for q k
  proof -
    have y: "(Pool, q, k) \<in> ?S" using that by (intro areas_pool) simp
    have "a \<notin> span (Pool, q, k)" using area_start_unique [OF g y xS] that(2) by auto
    with geometry_start_less [OF g y] show ?thesis by auto
  qed
  have "\<forall>y \<in> set (map fst P). load32 m2 y = load32 m1 y"
    using rd np nf by (force simp: m2 intro: link_wordI [OF areas_pool])
  from chain_cong [OF this] c have "chain (load32 m2) p (map fst P)" by simp
  moreover have "load32 m2 (q + 4) = k" if "(q, k) \<in> set P" for q k
  proof -
    have "load32 m1 (q + 4) = k" using sz that by auto
    moreover have "q + 4 \<noteq> a" using np that nf by force
    moreover have "(Pool, q, k) \<in> ?S" using that by (intro areas_pool) simp
    ultimately show ?thesis using rd [OF link_word_pool] by (simp add: m2)
  qed
  moreover have "block_links e m2 heads F A \<and> keeps A m1 m2"
    unfolding m2 by (rule pool_store [OF g x _ p b]) simp
  ultimately show ?thesis using dv a0 p by (auto simp: pools_rep_def m2)
qed

lemma vm_spec_None: "vm_spec own e \<Longrightarrow> 0 < n \<Longrightarrow> vm_allocate e n k = (None, k') \<Longrightarrow> own k \<subseteq> own k'"
  unfolding vm_spec_def by (drule spec [of _ n], drule spec [of _ k]) simp

lemma vm_spec_Some:
  "vm_spec own e \<Longrightarrow> 0 < n \<Longrightarrow> vm_allocate e n k = (Some a, k')
    \<Longrightarrow> 0 < a \<and> a + n \<le> 2 ^ 32 \<and> {a..<a + n} \<inter> own k = {} \<and> own k \<union> {a..<a + n} \<subseteq> own k'"
  unfolding vm_spec_def by (drule spec [of _ n], drule spec [of _ k]) simp

lemma heap_inv_kern:
  "heap_inv own e s F P A L \<Longrightarrow> own (kern s) \<subseteq> own k \<Longrightarrow> heap_inv own e (s\<lparr>kern := k\<rparr>) F P A L"
  by (auto simp: heap_inv_def links_def intro: geometry_own_mono)

lemma heap_inv_fresh:
  assumes inv: "heap_inv own e s F P A {}" and vm: "vm_spec own e" and n: "8 \<le> n"
    and a: "vm_allocate e n (kern s) = (Some a, k)"
  shows "heap_inv own e (s\<lparr>kern := k\<rparr>) F P A {(Loose, a, n)}
    \<and> geometry (own k) (areas F ((a, n) # P) A {}) \<and> a \<notin> fst ` set P"
proof -
  note g = heap_inv_geometry [OF inv]
  from vm_spec_Some [OF vm _ a] n have s: "0 < a" "a + n \<le> 2 ^ 32" "{a..<a + n} \<inter> own (kern s) = {}"
    "own (kern s) \<union> {a..<a + n} \<subseteq> own k" by auto
  note f = geometry_fresh [OF g s(3,4,1) n s(2)]
  have "areas F P A {(Loose, a, n)} = insert (Loose, a, n) (areas F P A {})"
    "areas F ((a, n) # P) A {} = insert (Pool, a, n) (areas F P A {})" by (auto simp: areas_def)
  moreover have "a \<notin> fst ` set P"
  proof
    assume "a \<in> fst ` set P"
    then obtain m where "(a, m) \<in> set P" by auto
    then have "(Pool, a, m) \<in> areas F P A {}" by (rule areas_pool)
    with g have "a \<in> own (kern s)" by (fastforce simp: geometry_def area_ok_def)
    moreover have "a \<in> {a..<a + n}" using n by simp
    ultimately show False using s(3) by blast
  qed
  ultimately show ?thesis using inv f by (simp add: heap_inv_def links_def)
qed

lemma heap_inv_new_pool:
  assumes inv: "heap_inv own e s F P A {}" and vm: "vm_spec own e"
    and pg: "vm_page_size e = 2 ^ j" "3 \<le> j" "vm_page_size e dvd chunk" "vm_page_size e dvd amount"
    and am: "8 \<le> amount" "amount < chunk"
    and a: "vm_allocate e chunk (kern s) = (Some a, k)"
    and m1: "m1 = (if pool s \<noteq> 0 then store32 (mem s) (pool s + 4) (pool_size s) else mem s)"
    and m2: "m2 = store32 m1 a (pool s)"
    and s': "s' = s\<lparr>kern := k, mem := m2, pool := a, pool_size := chunk - amount\<rparr>"
  shows "heap_inv own e s' F ((a, chunk - amount) # P) A {(Loose, u32 (a + (chunk - amount)), amount)}
    \<and> keeps A (mem s) m2"
proof -
  let ?sz = "chunk - amount"
  note g = heap_inv_geometry [OF inv] and l = heap_inv_links [OF inv]
  have r: "pools_rep e (mem s) (pool s) (pool_size s) P" and b: "block_links e (mem s) (fl_head s) F A"
    using l by (auto simp: links_def)
  have "8 \<le> chunk" using am by simp
  from heap_inv_fresh [OF inv vm this a]
  have gf: "geometry (own k) (areas F ((a, chunk) # P) A {})" and nf: "a \<notin> fst ` set P" by auto
  have sz: "?sz \<noteq> 0" "8 \<le> ?sz" "vm_page_size e dvd ?sz"
    using page_remainder [of j chunk amount] pg am by (auto intro: dvd_diff_nat)
  have "geometry (own k) (areas F ([] @ [(a, ?sz)] @ P) A {(Loose, a + ?sz, amount)})"
    using gf nf am sz by (intro geometry_split_pool [of _ _ "[]" a chunk P]) auto
  moreover have "a + chunk \<le> 2 ^ 32" using vm_spec_Some [OF vm _ a] am by simp
  then have "u32 (a + ?sz) = a + ?sz" using am by (intro u32_id) auto
  moreover note sv = save_first_size [OF g r m1 b]
  have "pool s < 2 ^ 32"
  proof (cases P)
    case Nil
    with r show ?thesis by (simp add: pools_rep_def)
  next
    case (Cons x R)
    with r obtain n where "(pool s, n) \<in> set P" by (cases x) (auto simp: pools_rep_def)
    from geometry_start_less [OF g areas_pool [OF this]] show ?thesis by auto
  qed
  then have "pools_rep e m2 a ?sz ((a, ?sz) # P) \<and> block_links e m2 (fl_head s) F A \<and> keeps A m1 m2"
    using sv r sz by (intro new_pool_links [OF gf _ _ _ _ sz(3) _ m2 nf]) (auto simp: pools_rep_def)
  ultimately show ?thesis
    using sv by (auto simp: heap_inv_def links_def s' intro: keeps_trans)
qed

lemma more_from_kernel_inv:
  assumes inv: "heap_inv own e s F P A {}" and vm: "vm_spec own e" and env: "env_ok e s"
    and am: "8 \<le> amount" "vm_page_size e dvd amount" and r: "more_from_kernel e amount s = (res, s')"
  shows "(case res of None \<Rightarrow> heap_inv own e s' F P A {}
      | Some w \<Rightarrow> \<exists>P'. heap_inv own e s' F P' A {(Loose, w, amount)})
    \<and> keeps A (mem s) (mem s')"
proof -
  obtain j where pg: "vm_page_size e = 2 ^ j" "3 \<le> j" using env by (auto simp: env_ok_def)
  let ?chunk = "u32 (vm_page_size e * malloc_pool_size s)"
  have ch: "?chunk = vm_page_size e * malloc_pool_size s" "0 < ?chunk"
    using env by (auto simp: env_ok_def)
  show ?thesis
  proof (cases "?chunk \<le> amount")
    case True
    obtain k where k: "vm_allocate e amount (kern s) = (res, k)" "s' = s\<lparr>kern := k\<rparr>"
      using True r by (auto simp: more_from_kernel_def Let_def split: prod.splits)
    show ?thesis
    proof (cases res)
      case None
      with k vm_spec_None [OF vm _ k(1) [unfolded None]] am inv show ?thesis
        by (auto intro: heap_inv_kern)
    next
      case (Some a)
      with k heap_inv_fresh [OF inv vm am(1), of a k] show ?thesis by auto
    qed
  next
    case False
    obtain x k where k: "vm_allocate e ?chunk (kern s) = (x, k)" by fastforce
    show ?thesis
    proof (cases x)
      case None
      with k False r ch(2) inv vm_spec_None [OF vm, of ?chunk "kern s" k] show ?thesis
        by (auto simp: more_from_kernel_def Let_def intro: heap_inv_kern)
    next
      case (Some a)
      have dc: "vm_page_size e dvd ?chunk" using ch by simp
      have lt: "amount < ?chunk" using False by simp
      note np = heap_inv_new_pool [OF inv vm pg dc am(2,1) lt k [unfolded Some] refl refl refl]
      from r False k Some have "res = Some (u32 (a + (?chunk - amount)))"
        by (auto simp: more_from_kernel_def Let_def)
      with r False k Some np show ?thesis
        by (auto simp: more_from_kernel_def Let_def)
    qed
  qed
qed

lemma more_from_kernel_fields:
  "more_from_kernel e amount s = (res, s') \<Longrightarrow> fl_lock s' = fl_lock s \<and> malloc_lock s' = malloc_lock s
    \<and> malloc_pool_size s' = malloc_pool_size s \<and> fl_in_use s' = fl_in_use s"
  by (auto simp: more_from_kernel_def Let_def split: if_splits prod.splits option.splits)

lemma more_from_kernel_succeeds:
  assumes "vm_gives e s amount" and "env_ok e s" and "0 < amount"
    and r: "more_from_kernel e amount s = (res, s')"
  shows "res \<noteq> None"
proof -
  let ?chunk = "vm_page_size e * malloc_pool_size s"
  have ch: "u32 ?chunk = ?chunk" using assms(2) by (auto simp: env_ok_def)
  have "0 < ?chunk" using assms(2) by (auto simp: env_ok_def)
  then have "fst (vm_allocate e amount (kern s)) \<noteq> None" "fst (vm_allocate e ?chunk (kern s)) \<noteq> None"
    using assms(1,3) by (auto simp: vm_gives_def)
  with r show ?thesis
    by (auto simp: more_from_kernel_def Let_def ch split: if_splits prod.splits option.splits)
qed

section \<open>more\_memory\<close>

lemma heap_inv_locks [simp]:
  "heap_inv own e (s\<lparr>malloc_lock := l\<rparr>) F P A L = heap_inv own e s F P A L"
  "heap_inv own e (s\<lparr>fl_lock := f\<rparr>) F P A L = heap_inv own e s F P A L"
  "heap_inv own e (s\<lparr>fl_in_use := u\<rparr>) F P A L = heap_inv own e s F P A L"
  by (auto simp: heap_inv_def links_def)

lemma env_ok_fields [simp]:
  "env_ok e (s\<lparr>malloc_lock := l\<rparr>) = env_ok e s" "env_ok e (s\<lparr>fl_lock := f\<rparr>) = env_ok e s"
  "env_ok e (s\<lparr>mem := m\<rparr>) = env_ok e s"
  by (auto simp: env_ok_def)

text \<open>The three ways to find \<open>amount\<close> bytes, as \<open>more_memory\<close> combines them.\<close>

definition find_memory ::
  "'k malloc_env \<Rightarrow> nat \<Rightarrow> 'k malloc_state \<Rightarrow> (ptr option \<times> 'k malloc_state) option" where
  "find_memory e amount s1 =
     (if amount \<le> pool_size s1
      then (case more_from_first_pool amount s1 of (w, s2) \<Rightarrow> Some (Some w, s2))
      else (case (if pool s1 \<noteq> 0 then search_pools amount (pool s1) (mem s1)
                  else Some (0, mem s1)) of
              None \<Rightarrow> None
            | Some (w, m) \<Rightarrow>
               Some (if w = 0 then more_from_kernel e amount (s1\<lparr>mem := m\<rparr>)
                     else (Some w, s1\<lparr>mem := m\<rparr>))))"

lemma find_memory_inv:
  assumes inv: "heap_inv own e s F P A {}" and vm: "vm_spec own e" and env: "env_ok e s"
    and am: "8 \<le> amount" "vm_page_size e dvd amount"
  shows "\<exists>res s'. find_memory e amount s = Some (res, s') \<and> keeps A (mem s) (mem s')
    \<and> (case res of None \<Rightarrow> heap_inv own e s' F P A {}
        | Some w \<Rightarrow> \<exists>P'. heap_inv own e s' F P' A {(Loose, w, amount)})
    \<and> fl_lock s' = fl_lock s \<and> malloc_lock s' = malloc_lock s
    \<and> malloc_pool_size s' = malloc_pool_size s \<and> fl_in_use s' = fl_in_use s
    \<and> (vm_gives e s amount \<longrightarrow> res \<noteq> None)"
proof -
  obtain j where pg: "vm_page_size e = 2 ^ j" "3 \<le> j" using env by (auto simp: env_ok_def)
  have kern: ?thesis if "find_memory e amount s = Some (more_from_kernel e amount s)"
  proof -
    obtain res s' where r: "more_from_kernel e amount s = (res, s')" by fastforce
    from that more_from_kernel_inv [OF inv vm env am r] more_from_kernel_fields [OF r]
      more_from_kernel_succeeds [OF _ env _ r] am show ?thesis by (auto simp: r)
  qed
  show ?thesis
  proof (cases "amount \<le> pool_size s")
    case True
    obtain w s' where r: "more_from_first_pool amount s = (w, s')" by fastforce
    from more_from_first_pool_inv [OF inv True am(1) pg am(2) r] True r show ?thesis
      by (auto simp: find_memory_def)
  next
    case False
    show ?thesis
    proof (cases "pool s = 0")
      case True
      with False show ?thesis by (intro kern) (simp add: find_memory_def)
    next
      case ne: False
      from search_pools_inv [OF inv ne am pg] show ?thesis
      proof
        assume "search_pools amount (pool s) (mem s) = Some (0, mem s)"
        with False ne show ?thesis by (intro kern) (simp add: find_memory_def)
      next
        assume "\<exists>w m P'. search_pools amount (pool s) (mem s) = Some (w, m) \<and> w \<noteq> 0
          \<and> heap_inv own e (s\<lparr>mem := m\<rparr>) F P' A {(Loose, w, amount)} \<and> keeps A (mem s) m"
        with False ne show ?thesis by (auto simp: find_memory_def)
      qed
    qed
  qed
qed

lemma more_memory_eq:
  "more_memory e bsize i s =
     (let (amount, n) = (if bsize \<le> vm_page_size e then (vm_page_size e, vm_page_size e div bsize)
                         else (bsize, 1)) in
      case spin_lock (malloc_lock s) of None \<Rightarrow> None
      | Some l \<Rightarrow>
        (case find_memory e amount (s\<lparr>malloc_lock := l\<rparr>) of None \<Rightarrow> None
         | Some (r, s2) \<Rightarrow>
            (let s3 = s2\<lparr>malloc_lock := spin_unlock (malloc_lock s2)\<rparr> in
             Some (case r of None \<Rightarrow> (False, s3) | Some w \<Rightarrow> (True, carve bsize i n w s3)))))"
  unfolding more_memory_def find_memory_def Let_def ..

lemma amount_blocks:
  assumes "vm_page_size e = 2 ^ j" and "3 \<le> j"
    and "(amount, n) = (if 2 ^ (i + 3) \<le> vm_page_size e
      then (vm_page_size e, vm_page_size e div 2 ^ (i + 3)) else (2 ^ (i + 3), 1))"
  shows "8 \<le> amount \<and> vm_page_size e dvd amount \<and> amount = n * 2 ^ (i + 3) \<and> 0 < n"
proof (cases "2 ^ (i + 3) \<le> vm_page_size e")
  case True
  then have le: "i + 3 \<le> j" using assms(1) by (simp add: power_le_imp_le_exp)
  then have "(2 :: nat) ^ j = 2 ^ (j - (i + 3)) * 2 ^ (i + 3)" by (simp flip: power_add)
  moreover have "(8 :: nat) \<le> 2 ^ j" using assms(2) power_increasing [of 3 j "2 :: nat"] by simp
  ultimately show ?thesis using True assms by auto
next
  case False
  then have "j \<le> i + 3" using assms(1) power_increasing [of "i + 3" j "2 :: nat"] by (cases "j \<le> i + 3") auto
  with False assms two_power_ge_8 [of i] show ?thesis by (auto intro: le_imp_power_dvd)
qed

lemma more_memory_inv:
  assumes inv: "heap_inv own e s F P A {}" and vm: "vm_spec own e" and env: "env_ok e s"
    and lk: "malloc_lock s = 0" and i: "i < NBUCKETS"
  shows "\<exists>ok s' F' P'. more_memory e (2 ^ (i + 3)) i s = Some (ok, s') \<and> heap_inv own e s' F' P' A {}
    \<and> (ok \<longrightarrow> F' i \<noteq> []) \<and> keeps A (mem s) (mem s') \<and> fl_lock s' = fl_lock s \<and> malloc_lock s' = 0
    \<and> malloc_pool_size s' = malloc_pool_size s
    \<and> (vm_gives e s (2 ^ (i + 3)) \<longrightarrow> ok)"
proof -
  obtain j where pg: "vm_page_size e = 2 ^ j" "3 \<le> j" using env by (auto simp: env_ok_def)
  obtain amount n where an: "(amount, n) = (if 2 ^ (i + 3) \<le> vm_page_size e
      then (vm_page_size e, vm_page_size e div 2 ^ (i + 3)) else (2 ^ (i + 3), 1))"
    by (metis surj_pair)
  note ab = amount_blocks [OF pg an]
  then obtain n' where n': "n = Suc n'" using gr0_implies_Suc by blast
  have inv1: "heap_inv own e (s\<lparr>malloc_lock := 1\<rparr>) F P A {}" using inv by simp
  have env1: "env_ok e (s\<lparr>malloc_lock := 1\<rparr>)" using env by simp
  from find_memory_inv [OF inv1 vm env1, of amount] ab obtain res s1 where
    f: "find_memory e amount (s\<lparr>malloc_lock := 1\<rparr>) = Some (res, s1)" and k: "keeps A (mem s) (mem s1)"
    and h: "case res of None \<Rightarrow> heap_inv own e s1 F P A {}
        | Some w \<Rightarrow> \<exists>P'. heap_inv own e s1 F P' A {(Loose, w, amount)}"
    and fld: "fl_lock s1 = fl_lock s" "malloc_pool_size s1 = malloc_pool_size s"
    and su: "vm_gives e s amount \<longrightarrow> res \<noteq> None"
    by auto
  have "vm_page_size e \<le> vm_page_size e * malloc_pool_size s" using env by (simp add: env_ok_def)
  then have gv: "vm_gives e s amount" if "vm_gives e s (2 ^ (i + 3))"
    using that an by (auto simp: vm_gives_def split: if_splits)
  have eq: "more_memory e (2 ^ (i + 3)) i s = Some (case res of None \<Rightarrow> (False, s1\<lparr>malloc_lock := 0\<rparr>)
      | Some w \<Rightarrow> (True, carve (2 ^ (i + 3)) i n w (s1\<lparr>malloc_lock := 0\<rparr>)))"
    using f lk by (simp add: more_memory_eq an [symmetric] Let_def)
  show ?thesis
  proof (cases res)
    case None
    with eq h k fld su gv show ?thesis by auto
  next
    case (Some w)
    with h obtain P' where "heap_inv own e (s1\<lparr>malloc_lock := 0\<rparr>) F P' A {(Loose, w, Suc n' * 2 ^ (i + 3))}"
      using ab n' by auto
    from heap_inv_carve [OF this i] Some eq k fld n' show ?thesis
      by (auto intro: keeps_trans)
  qed
qed

end
