(* ===== verification/Cthread_Malloc_Props.thy ===== *)
theory Cthread_Malloc_Props
  imports Cthread_Malloc_Correct
begin

text \<open>
  The contract of the allocator's entry points: \<open>malloc\<close>, \<open>free\<close>, \<open>realloc\<close>
  and the fork hooks.
\<close>

section \<open>Handing blocks out and taking them back\<close>

lemma heap_inv_pop:
  assumes inv: "heap_inv own e s F P A {}" and F: "F i = h # xs"
    and s': "s' = s\<lparr>fl_head := (fl_head s)(i := load32 (mem s) h)\<rparr>"
  shows "heap_inv own e s' (F(i := xs)) P A {(Loose, h, 2 ^ (i + 3))}"
proof -
  note g = heap_inv_geometry [OF inv] and l = heap_inv_links [OF inv]
  let ?x = "(Free i, h, 2 ^ (i + 3))" and ?S = "areas (F(i := xs)) P A {}"
  have "chain (load32 (mem s)) (fl_head s i) (h # xs)"
    using l F by (metis block_links_def links_def)
  then have nx: "h \<notin> set xs" by (rule chain_head_notin)
  have "b \<in> set (F j) \<longleftrightarrow> b = h \<and> j = i \<or> b \<in> set ((F(i := xs)) j)" for b j using F by auto
  then have e: "areas F P A {} = insert ?x ?S"
    unfolding areas_def by (auto simp del: fun_upd_apply)
  have ok: "area_ok (own (kern s)) ?x" using g e by (simp add: geometry_def)
  have "geometry (own (kern s)) ({(Loose, h, 2 ^ (i + 3))} \<union> ?S)"
  proof (rule geometry_replace [of _ ?x])
    show "geometry (own (kern s)) (insert ?x ?S)" using g e by simp
    show "?x \<notin> ?S" using nx by (auto simp: areas_def)
  qed (use ok in \<open>auto simp: disjoint_areas_def area_ok_def\<close>)
  moreover have "{(Loose, h, 2 ^ (i + 3))} \<union> ?S = areas (F(i := xs)) P A {(Loose, h, 2 ^ (i + 3))}"
    by (simp add: areas_loose [of "F(i := xs)" P A "{(Loose, h, 2 ^ (i + 3))}"])
  ultimately show ?thesis
    using links_pop [OF l F] by (simp add: heap_inv_def s')
qed

lemma heap_inv_tag:
  assumes inv: "heap_inv own e s F P A {(Loose, h, 2 ^ (i + 3))}" and i: "i < NBUCKETS"
    and v: "fl_addr e i < 2 ^ 32" and s': "s' = s\<lparr>mem := store32 (mem s) h (fl_addr e i)\<rparr>"
  shows "heap_inv own e s' F P (insert (h, i) A) {} \<and> keeps A (mem s) (mem s') \<and> (h, i) \<notin> A
    \<and> 0 < h \<and> h + 2 ^ (i + 3) \<le> 2 ^ 32"
proof -
  note g = heap_inv_geometry [OF inv]
  let ?x = "(Loose, h, 2 ^ (i + 3))"
  have xS: "?x \<in> areas F P A {?x}" by (simp add: areas_def)
  have ok: "area_ok (own (kern s)) ?x" using g xS unfolding geometry_def by blast
  have na: "(h, i) \<notin> A"
  proof
    assume "(h, i) \<in> A"
    from area_start_unique [OF g xS areas_used [OF this]] show False by simp
  qed
  have "geometry (own (kern s)) ({(Used i, h, 2 ^ (i + 3))} \<union> areas F P A {})"
  proof (rule geometry_replace [of _ ?x])
    show "geometry (own (kern s)) (insert ?x (areas F P A {}))"
      using g by (simp add: areas_loose [of F P A "{?x}"])
    show "?x \<notin> areas F P A {}" by (rule areas_not_loose)
  qed (use ok in \<open>auto simp: disjoint_areas_def area_ok_def\<close>)
  moreover have "{(Used i, h, 2 ^ (i + 3))} \<union> areas F P A {} = areas F P (insert (h, i) A) {}"
    by (auto simp: areas_def)
  moreover from loose_store [OF inv v] have "links e s' F P A" "keeps A (mem s) (mem s')"
    by (auto simp: s')
  moreover have "links e s' F P (insert (h, i) A)"
    using links_use [OF \<open>links e s' F P A\<close> _ i] v by (simp add: s')
  ultimately show ?thesis using na geometry_start_less [OF g xS] by (simp add: heap_inv_def s')
qed

lemma heap_inv_release:
  assumes inv: "heap_inv own e s F P A {}" and h: "(h, i) \<in> A"
  shows "heap_inv own e s F P (A - {(h, i)}) {(Loose, h, 2 ^ (i + 3))}"
proof -
  note g = heap_inv_geometry [OF inv]
  let ?x = "(Used i, h, 2 ^ (i + 3))" and ?S = "areas F P (A - {(h, i)}) {}"
  have e: "areas F P A {} = insert ?x ?S" using h by (auto simp: areas_def)
  have ok: "area_ok (own (kern s)) ?x" using g e by (simp add: geometry_def)
  have "geometry (own (kern s)) ({(Loose, h, 2 ^ (i + 3))} \<union> ?S)"
  proof (rule geometry_replace [of _ ?x])
    show "geometry (own (kern s)) (insert ?x ?S)" using g e by simp
    show "?x \<notin> ?S" by (auto simp: areas_def)
  qed (use ok in \<open>auto simp: disjoint_areas_def area_ok_def\<close>)
  moreover have "{(Loose, h, 2 ^ (i + 3))} \<union> ?S = areas F P (A - {(h, i)}) {(Loose, h, 2 ^ (i + 3))}"
    by (simp add: areas_loose [of F P "A - {(h, i)}" "{(Loose, h, 2 ^ (i + 3))}"])
  ultimately show ?thesis
    using heap_inv_links [OF inv] by (simp add: heap_inv_def links_drop)
qed

section \<open>The size class\<close>

lemma size_class_spec:
  assumes "i \<le> 28" and "size_class sz i (2 ^ (i + 3)) = (i', n')" and "sz < 2 ^ 32"
  shows "(if sz \<le> 2 ^ 31
          then i' < NBUCKETS \<and> n' = 2 ^ (i' + 3) \<and> sz \<le> n' \<and> (i' = i \<or> 2 ^ (i' + 2) < sz)
          else i' = NBUCKETS)"
  using assms
proof (induction "28 - i" arbitrary: i)
  case 0
  then have i: "i = 28" by simp
  show ?case
  proof (cases "sz \<le> 2 ^ 31")
    case True
    with 0 i show ?thesis by (auto simp: size_class.simps [of sz 28] NBUCKETS_def)
  next
    case False
    have "size_class sz 29 0 = (29, 0)" by (simp add: size_class.simps [of sz 29] NBUCKETS_def)
    with False 0 i show ?thesis
      by (auto simp: size_class.simps [of sz 28] NBUCKETS_def u32_def)
  qed
next
  case (Suc d)
  show ?case
  proof (cases "2 ^ (i + 3) < sz")
    case False
    have "(2 :: nat) ^ (i + 3) \<le> 2 ^ 31" using Suc by (intro power_increasing) auto
    with False Suc show ?thesis by (auto simp: size_class.simps [of sz i] NBUCKETS_def)
  next
    case True
    have "(2 :: nat) ^ (i + 4) \<le> 2 ^ 31" using Suc by (intro power_increasing) auto
    then have "u32 (2 ^ (i + 1 + 3)) = 2 ^ (i + 1 + 3)" by (intro u32_id) (simp add: add.commute)
    moreover have "2 ^ (i + 3) * 2 = (2 :: nat) ^ (i + 1 + 3)" by (simp add: power_add)
    ultimately have "u32 (2 ^ (i + 3) * 2) = 2 ^ (i + 1 + 3)" by simp
    with True Suc have "size_class sz (i + 1) (2 ^ (i + 1 + 3)) = (i', n')"
      by (simp add: size_class.simps [of sz i] NBUCKETS_def)
    moreover have "d = 28 - (i + 1)" "i + 1 \<le> 28" using Suc.hyps(2) by auto
    ultimately have IH: "if sz \<le> 2 ^ 31
        then i' < NBUCKETS \<and> n' = 2 ^ (i' + 3) \<and> sz \<le> n' \<and> (i' = i + 1 \<or> 2 ^ (i' + 2) < sz)
        else i' = NBUCKETS"
      using Suc.hyps(1) [of "i + 1"] Suc.prems(3) by blast
    have "2 ^ (i' + 2) < sz" if "i' = i + 1"
    proof -
      have "i' + 2 = i + 3" using that by simp
      with True show ?thesis by metis
    qed
    with IH show ?thesis by argo
  qed
qed

definition unlocked :: "'k malloc_state \<Rightarrow> bool" where
  "unlocked s \<longleftrightarrow> (\<forall>i. fl_lock s i = 0) \<and> malloc_lock s = 0"

lemma fl_addr_less: "env_ok e s \<Longrightarrow> i < NBUCKETS \<Longrightarrow> fl_addr e i < 2 ^ 32"
  by (auto simp: env_ok_def fl_addr_def)

text \<open>Popping the first block of a bucket and writing its header.\<close>

lemma heap_inv_take:
  assumes inv: "heap_inv own e s F P A {}" and F: "F i \<noteq> []" and i: "i < NBUCKETS"
    and v: "fl_addr e i < 2 ^ 32" and h: "h = fl_head s i"
    and s': "s' = s\<lparr>fl_head := (fl_head s)(i := load32 (mem s) h), mem := store32 (mem s) h (fl_addr e i)\<rparr>"
  shows "\<exists>F'. heap_inv own e s' F' P (insert (h, i) A) {} \<and> keeps A (mem s) (mem s') \<and> (h, i) \<notin> A
    \<and> 0 < h \<and> h + 2 ^ (i + 3) \<le> 2 ^ 32"
proof -
  from F obtain x xs where x: "F i = x # xs" by (cases "F i") auto
  have "chain (load32 (mem s)) (fl_head s i) (F i)"
    using heap_inv_links [OF inv] by (simp add: links_def block_links_def)
  with x h have "F i = h # xs" by simp
  from heap_inv_tag [OF heap_inv_pop [OF inv this refl] i v refl] show ?thesis
    by (auto simp: s')
qed

section \<open>malloc\<close>

text \<open>The outcome of an allocation, from the program's point of view.\<close>

definition malloc_post ::
  "('k \<Rightarrow> nat set) \<Rightarrow> 'k malloc_env \<Rightarrow> nat \<Rightarrow> (ptr \<times> nat) set \<Rightarrow> 'k malloc_state \<Rightarrow> ptr
     \<Rightarrow> 'k malloc_state \<Rightarrow> bool" where
  "malloc_post own e req A s r s' \<longleftrightarrow> unlocked s' \<and> keeps A (mem s) (mem s')
     \<and> malloc_pool_size s' = malloc_pool_size s
     \<and> (if r = 0 then \<exists>F P. heap_inv own e s' F P A {}
         else \<exists>i F P. heap_inv own e s' F P (insert (r - 4, i) A) {} \<and> (r - 4, i) \<notin> A
            \<and> 4 < r \<and> r < 2 ^ 32 \<and> req + 4 \<le> 2 ^ (i + 3) \<and> (i = 0 \<or> 2 ^ (i + 2) < req + 4))"

lemma malloc_refuses:
  assumes "req < 2 ^ 32" and "req = 0 \<or> 2 ^ 31 < req + 4"
  shows "malloc e req s = Some (0, s)"
proof (cases "u32 (req + HEADER) \<le> HEADER")
  case True
  then show ?thesis by (simp add: malloc_def)
next
  case False
  have "req \<noteq> 0"
  proof
    assume "req = 0"
    with False show False by (simp add: HEADER_def u32_def)
  qed
  have "req + 4 < 2 ^ 32"
  proof (rule ccontr)
    assume "\<not> req + 4 < 2 ^ 32"
    then have "u32 (req + 4) = (req + 4 - 2 ^ 32) mod 2 ^ 32"
      unfolding u32_def by (intro le_mod_geq) simp
    also have "\<dots> \<le> 4" using assms(1) by (intro order_trans [OF mod_less_eq_dividend]) simp
    finally show False using False by (simp add: HEADER_def)
  qed
  with \<open>req \<noteq> 0\<close> assms(2) have "2 ^ 31 < u32 (req + HEADER)" "u32 (req + HEADER) < 2 ^ 32"
    by (auto simp: HEADER_def)
  moreover obtain i n where sc: "size_class (u32 (req + HEADER)) 0 MIN_SIZE = (i, n)" by fastforce
  ultimately have "i = NBUCKETS"
    using size_class_spec [of 0 "u32 (req + HEADER)" i n] by (simp add: MIN_SIZE_def)
  with False sc show ?thesis by (simp add: malloc_def)
qed

lemma malloc_class:
  assumes "0 < req" and "req + 4 \<le> 2 ^ 31"
  obtains i where "size_class (u32 (req + HEADER)) 0 MIN_SIZE = (i, 2 ^ (i + 3))" and "i < NBUCKETS"
    and "req + 4 \<le> 2 ^ (i + 3)" and "i = 0 \<or> 2 ^ (i + 2) < req + 4" and "\<not> u32 (req + HEADER) \<le> HEADER"
proof -
  have u: "u32 (req + HEADER) = req + 4" using assms by (simp add: HEADER_def)
  obtain i n where sc: "size_class (req + 4) 0 MIN_SIZE = (i, n)" by fastforce
  then have sc': "size_class (req + 4) 0 (2 ^ (0 + 3)) = (i, n)" by (simp add: MIN_SIZE_def)
  have "req + 4 < 2 ^ 32" using assms by simp
  from size_class_spec [OF _ sc' this] assms
  have "i < NBUCKETS \<and> n = 2 ^ (i + 3) \<and> req + 4 \<le> n \<and> (i = 0 \<or> 2 ^ (i + 2) < req + 4)" by simp
  with sc u assms that [of i] show ?thesis by (simp add: HEADER_def)
qed

lemma malloc_spec:
  assumes inv: "heap_inv own e s F P A {}" and vm: "vm_spec own e" and env: "env_ok e s"
    and un: "unlocked s" and req: "req < 2 ^ 32"
  shows "\<exists>r s'. malloc e req s = Some (r, s') \<and> malloc_post own e req A s r s'
    \<and> (vm_gives e s (8 + 2 * (req + 4)) \<and> 0 < req \<and> req + 4 \<le> 2 ^ 31 \<longrightarrow> r \<noteq> 0)"
proof (cases "req = 0 \<or> 2 ^ 31 < req + 4")
  case True
  have "malloc_post own e req A s 0 s"
    unfolding malloc_post_def using inv un by (auto simp: keeps_refl)
  moreover have "\<not> (vm_gives e s (8 + 2 * (req + 4)) \<and> 0 < req \<and> req + 4 \<le> 2 ^ 31)" using True by linarith
  ultimately show ?thesis using malloc_refuses [OF req True] by blast
next
  case False
  then have "0 < req" "req + 4 \<le> 2 ^ 31" by auto
  then obtain i where sc: "size_class (u32 (req + HEADER)) 0 MIN_SIZE = (i, 2 ^ (i + 3))"
    and i: "i < NBUCKETS" and fits: "req + 4 \<le> 2 ^ (i + 3)" "i = 0 \<or> 2 ^ (i + 2) < req + 4"
    and ok: "\<not> u32 (req + HEADER) \<le> HEADER"
    by (rule malloc_class)
  have "2 ^ (i + 3) \<le> 8 + 2 * (req + 4)" using fits(2) by (auto simp: power_add)
  then have gv: "vm_gives e s (2 ^ (i + 3))" if "vm_gives e s (8 + 2 * (req + 4))"
    using that by (rule vm_gives_mono [rotated])
  let ?s1 = "s\<lparr>fl_lock := (fl_lock s)(i := 1)\<rparr>"
  have inv1: "heap_inv own e ?s1 F P A {}" and env1: "env_ok e ?s1" using inv env by auto
  have l1: "malloc_lock ?s1 = 0" using un by (simp add: unlocked_def)
  have "\<exists>b s2 F2 P2. (if fl_head s i = 0 then more_memory e (2 ^ (i + 3)) i ?s1 else Some (True, ?s1))
      = Some (b, s2) \<and> heap_inv own e s2 F2 P2 A {} \<and> (b \<longrightarrow> F2 i \<noteq> []) \<and> keeps A (mem s) (mem s2)
      \<and> fl_lock s2 = (fl_lock s)(i := 1) \<and> malloc_lock s2 = 0
      \<and> malloc_pool_size s2 = malloc_pool_size s \<and> (vm_gives e s (2 ^ (i + 3)) \<longrightarrow> b)"
  proof (cases "fl_head s i = 0")
    case True
    from more_memory_inv [OF inv1 vm env1 l1 i] True show ?thesis by simp
  next
    case False
    have "chain (load32 (mem s)) (fl_head s i) (F i)"
      using heap_inv_links [OF inv] by (simp add: links_def block_links_def)
    with False have "F i \<noteq> []" by auto
    with False inv1 l1 show ?thesis by auto
  qed
  then obtain b s2 F2 P2 where m: "(if fl_head s i = 0 then more_memory e (2 ^ (i + 3)) i ?s1
      else Some (True, ?s1)) = Some (b, s2)" and h2: "heap_inv own e s2 F2 P2 A {}"
    and ne: "b \<longrightarrow> F2 i \<noteq> []" and k: "keeps A (mem s) (mem s2)"
    and lk: "fl_lock s2 = (fl_lock s)(i := 1)" "malloc_lock s2 = 0"
    and mp: "malloc_pool_size s2 = malloc_pool_size s" and nf: "vm_gives e s (2 ^ (i + 3)) \<longrightarrow> b" by blast
  show ?thesis
  proof (cases b)
    case False
    let ?s = "s2\<lparr>fl_lock := (fl_lock s2)(i := 0)\<rparr>"
    have "malloc e req s = Some (0, ?s)"
      using sc i ok m un False by (simp add: malloc_def Let_def unlocked_def)
    moreover have "malloc_post own e req A s 0 ?s"
      using h2 k lk mp un by (auto simp: malloc_post_def unlocked_def)
    ultimately show ?thesis using nf gv False by blast
  next
    case True
    let ?h = "fl_head s2 i"
    let ?s = "s2\<lparr>fl_head := (fl_head s2)(i := load32 (mem s2) ?h),
      fl_in_use := (fl_in_use s2)(i := fl_in_use s2 i + 1), fl_lock := (fl_lock s2)(i := 0),
      mem := store32 (mem s2) ?h (fl_addr e i)\<rparr>"
    from heap_inv_take [OF h2 _ i fl_addr_less [OF env i] refl refl] True ne
    obtain F3 where h3: "heap_inv own e (s2\<lparr>fl_head := (fl_head s2)(i := load32 (mem s2) ?h),
        mem := store32 (mem s2) ?h (fl_addr e i)\<rparr>) F3 P2 (insert (?h, i) A) {}"
      and k3: "keeps A (mem s2) (store32 (mem s2) ?h (fl_addr e i))" and na: "(?h, i) \<notin> A"
      and b: "0 < ?h" "?h + 2 ^ (i + 3) \<le> 2 ^ 32" by auto
    have r: "u32 (?h + HEADER) = ?h + 4"
      using b two_power_ge_8 [of i] by (simp add: HEADER_def)
    have "malloc e req s = Some (?h + 4, ?s)"
      using sc i ok m un True r by (simp add: malloc_def Let_def unlocked_def)
    moreover have "heap_inv own e ?s F3 P2 (insert (?h, i) A) {}"
      using h3 by (simp add: heap_inv_def links_def)
    moreover have "?h + 4 < 2 ^ 32" using b two_power_ge_8 [of i] by simp
    ultimately have "malloc_post own e req A s (?h + 4) ?s"
      using k k3 lk mp un na b fits
      by (auto simp: malloc_post_def unlocked_def intro: keeps_trans)
    with \<open>malloc e req s = Some (?h + 4, ?s)\<close> show ?thesis by auto
  qed
qed

section \<open>free\<close>

lemma bucket_of_fl_addr:
  assumes "i < NBUCKETS"
  shows "bucket_of e (fl_addr e i) = Some i"
proof -
  have "int (fl_addr e i) - int (malloc_free_list e) = 12 * int i" by (simp add: fl_addr_def)
  moreover have "s32 (12 * int i) = 12 * int i" using assms by (intro s32_id) (auto simp: NBUCKETS_def)
  ultimately show ?thesis using assms by (simp add: bucket_of_def Let_def)
qed

text \<open>What a block of the program looks like.\<close>

lemma heap_inv_block:
  assumes inv: "heap_inv own e s F P A {}" and h: "(h, i) \<in> A"
  shows "i < NBUCKETS" and "load32 (mem s) h = fl_addr e i" and "0 < h" and "h + 2 ^ (i + 3) \<le> 2 ^ 32"
    and "sub32 (h + 4) HEADER = h"
proof -
  have l: "\<forall>(b, i) \<in> A. i < NBUCKETS \<and> load32 (mem s) b = fl_addr e i"
    using heap_inv_links [OF inv] by (simp add: links_def block_links_def)
  from l h show "i < NBUCKETS" "load32 (mem s) h = fl_addr e i" by auto
  from geometry_start_less [OF heap_inv_geometry [OF inv] areas_used [OF h]]
  show "0 < h" and b: "h + 2 ^ (i + 3) \<le> 2 ^ 32" by auto
  have "h + 4 < 2 ^ 32" using b two_power_ge_8 [of i] by linarith
  then show "sub32 (h + 4) HEADER = h" by (simp add: HEADER_def)
qed

lemma free_spec:
  assumes inv: "heap_inv own e s F P A {}" and un: "unlocked s" and h: "(h, i) \<in> A"
  shows "\<exists>s' F'. free e (h + 4) s = Some s' \<and> unlocked s' \<and> heap_inv own e s' F' P (A - {(h, i)}) {}
    \<and> keeps (A - {(h, i)}) (mem s) (mem s') \<and> h \<in> set (F' i)
    \<and> fl_in_use s' = (fl_in_use s)(i := fl_in_use s i - 1) \<and> malloc_pool_size s' = malloc_pool_size s"
proof -
  note b = heap_inv_block [OF inv h]
  let ?s1 = "s\<lparr>mem := store32 (mem s) h (fl_head s i), fl_head := (fl_head s)(i := h)\<rparr>"
  let ?s' = "?s1\<lparr>fl_lock := (fl_lock s)(i := 0), fl_in_use := (fl_in_use s)(i := fl_in_use s i - 1)\<rparr>"
  from heap_inv_push [OF heap_inv_release [OF inv h] b(1) disjI1 [OF refl] refl refl]
  have "heap_inv own e ?s1 (F(i := h # F i)) P (A - {(h, i)}) {}"
    and k: "keeps (A - {(h, i)}) (mem s) (mem ?s1)" by auto
  then have "heap_inv own e ?s' (F(i := h # F i)) P (A - {(h, i)}) {}" by simp
  moreover have "free e (h + 4) s = Some ?s'"
    using b un by (simp add: free_def Let_def bucket_of_fl_addr unlocked_def)
  moreover have "unlocked ?s'" using un by (simp add: unlocked_def)
  ultimately show ?thesis using k by (intro exI [of _ ?s'] exI [of _ "F(i := h # F i)"]) simp
qed

section \<open>The program writes into its blocks\<close>

lemma heap_inv_write:
  assumes inv: "heap_inv own e s F P A {}" and h: "(h, i) \<in> A"
    and m': "\<forall>x. x < h + 4 \<or> h + 2 ^ (i + 3) \<le> x \<longrightarrow> m' x = mem s x"
  shows "heap_inv own e (s\<lparr>mem := m'\<rparr>) F P A {}"
proof -
  let ?S = "areas F P A {}"
  note g = heap_inv_geometry [OF inv] and l = heap_inv_links [OF inv]
  have u: "(Used i, h, 2 ^ (i + 3)) \<in> ?S" by (rule areas_used [OF h])
  have same: "load32 m' c = load32 (mem s) c" if "c \<in> link_words ?S" for c
  proof -
    from that obtain t b n where x: "(t, b, n) \<in> ?S" and c: "c = b \<or> c = b + 4 \<and> t = Pool"
      by (auto simp: link_words_def)
    have "8 \<le> n" using geometry_start_less [OF g x] by simp
    show ?thesis
    proof (cases "(t, b, n) = (Used i, h, 2 ^ (i + 3))")
      case True
      with c m' show ?thesis by (intro load32_cong) auto
    next
      case False
      with g x u have "span (t, b, n) \<inter> span (Used i, h, 2 ^ (i + 3)) = {}"
        unfolding geometry_def disjoint_areas_def by blast
      moreover have "{c..<c + 4} \<subseteq> span (t, b, n)" using c \<open>8 \<le> n\<close> by auto
      ultimately have "\<forall>x \<in> {c..<c + 4}. x < h \<or> h + 2 ^ (i + 3) \<le> x" by fastforce
      with m' show ?thesis by (intro load32_cong) auto
    qed
  qed
  have "chain (load32 m') (fl_head s j) (F j) = chain (load32 (mem s)) (fl_head s j) (F j)" for j
    using same by (intro chain_cong) (auto intro: link_wordI areas_free)
  moreover have "load32 m' b = load32 (mem s) b" if "(b, j) \<in> A" for b j
    using that by (intro same link_wordI [OF areas_used])
  ultimately have "block_links e m' (fl_head s) F A"
    using l by (fastforce simp: links_def block_links_def)
  moreover have "pools_rep e m' (pool s) (pool_size s) P"
    using l same pools_rep_cong [of P m' "mem s" e "pool s" "pool_size s"]
    by (auto simp: links_def intro: link_wordI link_word_pool areas_pool)
  ultimately show ?thesis using inv by (simp add: heap_inv_def links_def)
qed

section \<open>realloc\<close>

definition realloc_keeps :: "nat \<Rightarrow> nat \<Rightarrow> bool" where
  "realloc_keeps i new_size \<longleftrightarrow> new_size + 4 \<le> 2 ^ (i + 3) \<and> 2 ^ (i + 2) < new_size + 4"

lemma realloc_same_bucket:
  assumes inv: "heap_inv own e s F P A {}" and h: "(h, i) \<in> A" and k: "realloc_keeps i new_size"
  shows "realloc e (h + 4) new_size s = Some (h + 4, s)"
proof -
  note b = heap_inv_block [OF inv h]
  have "new_size + 4 \<le> 2 ^ 31"
    using k b(1) power_increasing [of "i + 3" 31 "2 :: nat"]
    by (simp add: realloc_keeps_def NBUCKETS_def)
  then have "u32 (new_size + HEADER) = new_size + 4" by (simp add: HEADER_def)
  then show ?thesis
    using b k by (auto simp: realloc_def Let_def bucket_of_fl_addr realloc_keeps_def HEADER_def)
qed

lemma realloc_other_bucket:
  assumes inv: "heap_inv own e s F P A {}" and h: "(h, i) \<in> A" and k: "\<not> realloc_keeps i new_size"
    and "new_size < 2 ^ 32"
  shows "realloc e (h + 4) new_size s =
    (case malloc e new_size s of None \<Rightarrow> None
     | Some (new_base, s1) \<Rightarrow>
        (case free e (h + 4)
           (if new_base \<noteq> 0
            then s1\<lparr>mem := bcopy (h + 4) new_base (min (2 ^ (i + 3) - 4) new_size) (mem s1)\<rparr>
            else s1) of
           None \<Rightarrow> None | Some s3 \<Rightarrow> Some (new_base, s3)))"
proof -
  note b = heap_inv_block [OF inv h]
  have "(2 :: nat) ^ (i + 3) \<le> 2 ^ 31"
    using b(1) by (intro power_increasing) (auto simp: NBUCKETS_def)
  then have "\<not> (new_size \<le> 2 ^ (i + 3) - 4 \<and> 2 ^ (i + 2) < u32 (new_size + 4))"
    using k two_power_ge_8 [of i] by (auto simp: realloc_keeps_def)
  then show ?thesis
    using b by (auto simp: realloc_def Let_def bucket_of_fl_addr HEADER_def min_def not_less
      split: option.splits)
qed

text \<open>The copy into a new block leaves everything else alone.\<close>

lemma heap_inv_bcopy:
  assumes inv: "heap_inv own e s F P A {}" and h: "(h, i) \<in> A" and n: "n + 4 \<le> 2 ^ (i + 3)"
    and s': "s' = s\<lparr>mem := bcopy src (h + 4) n (mem s)\<rparr>"
  shows "heap_inv own e s' F P A {} \<and> keeps (A - {(h, i)}) (mem s) (mem s')"
proof -
  have "heap_inv own e s' F P A {}"
    unfolding s' using n by (intro heap_inv_write [OF inv h]) (auto simp: bcopy_def)
  moreover have "mem s' x = mem s x" if y: "(b, j) \<in> A" "(b, j) \<noteq> (h, i)" and x: "x \<in> {b..<b + 2 ^ (j + 3)}" for b j x
  proof -
    have "span (Used j, b, 2 ^ (j + 3)) \<inter> span (Used i, h, 2 ^ (i + 3)) = {}"
      using heap_inv_geometry [OF inv] areas_used [OF y(1), of F P "{}"] areas_used [OF h, of F P "{}"] y(2)
      unfolding geometry_def disjoint_areas_def by blast
    with x have "x < h \<or> h + 2 ^ (i + 3) \<le> x" by fastforce
    with n show ?thesis by (auto simp: s' bcopy_def)
  qed
  ultimately show ?thesis unfolding keeps_def by blast
qed

lemma keepsD: "keeps A m m' \<Longrightarrow> (b, i) \<in> A \<Longrightarrow> b \<le> x \<Longrightarrow> x < b + 2 ^ (i + 3) \<Longrightarrow> m' x = m x"
  by (fastforce simp: keeps_def)

lemma keeps_mono: "keeps A m m' \<Longrightarrow> B \<subseteq> A \<Longrightarrow> keeps B m m'"
  by (auto simp: keeps_def)

definition realloc_post ::
  "('k \<Rightarrow> nat set) \<Rightarrow> 'k malloc_env \<Rightarrow> ptr \<Rightarrow> nat \<Rightarrow> nat \<Rightarrow> (ptr \<times> nat) set \<Rightarrow> 'k malloc_state \<Rightarrow> ptr
     \<Rightarrow> 'k malloc_state \<Rightarrow> bool" where
  "realloc_post own e h i new_size A s r s' \<longleftrightarrow> unlocked s' \<and> keeps (A - {(h, i)}) (mem s) (mem s')
     \<and> (if r = 0 then \<exists>F P. heap_inv own e s' F P (A - {(h, i)}) {}
         else \<exists>j F P. heap_inv own e s' F P (insert (r - 4, j) (A - {(h, i)})) {} \<and> (r - 4, j) \<notin> A
            \<and> 4 < r \<and> new_size + 4 \<le> 2 ^ (j + 3)
            \<and> (\<forall>x < min (2 ^ (i + 3) - 4) new_size. mem s' (r + x) = mem s (h + 4 + x)))"

lemma realloc_moves:
  assumes inv: "heap_inv own e s F P A {}" and vm: "vm_spec own e" and env: "env_ok e s"
    and un: "unlocked s" and h: "(h, i) \<in> A" and nk: "\<not> realloc_keeps i n" and n: "n < 2 ^ 32"
  shows "\<exists>r s'. realloc e (h + 4) n s = Some (r, s') \<and> realloc_post own e h i n A s r s'"
proof -
  note eq = realloc_other_bucket [OF inv h nk n]
  from malloc_spec [OF inv vm env un n] obtain r s1 where
    m: "malloc e n s = Some (r, s1)" and post: "malloc_post own e n A s r s1" by blast
  have un1: "unlocked s1" and k1: "keeps A (mem s) (mem s1)" using post by (auto simp: malloc_post_def)
  show ?thesis
  proof (cases "r = 0")
    case True
    with post obtain F1 P1 where "heap_inv own e s1 F1 P1 A {}" by (auto simp: malloc_post_def)
    from free_spec [OF this un1 h] obtain s2 F2 where "free e (h + 4) s1 = Some s2" "unlocked s2"
      "heap_inv own e s2 F2 P1 (A - {(h, i)}) {}" "keeps (A - {(h, i)}) (mem s1) (mem s2)" by auto
    with True eq m k1 show ?thesis
      by (auto simp: realloc_post_def intro: keeps_trans [OF keeps_mono])
  next
    case False
    let ?c = "min (2 ^ (i + 3) - 4) n"
    from post False obtain j F1 P1 where inv1: "heap_inv own e s1 F1 P1 (insert (r - 4, j) A) {}"
      and new: "(r - 4, j) \<notin> A" and r: "4 < r" and fit: "n + 4 \<le> 2 ^ (j + 3)"
      by (auto simp: malloc_post_def)
    let ?A = "insert (r - 4, j) A" and ?s2 = "s1\<lparr>mem := bcopy (h + 4) r ?c (mem s1)\<rparr>"
    have r4: "r - 4 + 4 = r" using r by simp
    have "heap_inv own e ?s2 F1 P1 ?A {} \<and> keeps (?A - {(r - 4, j)}) (mem s1) (mem ?s2)"
      using fit r4 by (intro heap_inv_bcopy [OF inv1]) auto
    then have inv2: "heap_inv own e ?s2 F1 P1 ?A {}" and k2: "keeps A (mem s1) (mem ?s2)"
      using new by auto
    have un2: "unlocked ?s2" using un1 by (simp add: unlocked_def)
    from h have "(h, i) \<in> ?A" by simp
    from free_spec [OF inv2 un2 this] obtain s3 F3 where f: "free e (h + 4) ?s2 = Some s3"
      and un3: "unlocked s3" and inv3: "heap_inv own e s3 F3 P1 (?A - {(h, i)}) {}"
      and k3: "keeps (?A - {(h, i)}) (mem ?s2) (mem s3)" by auto
    have ne: "(h, i) \<noteq> (r - 4, j)" using h new by auto
    have A: "?A - {(h, i)} = insert (r - 4, j) (A - {(h, i)})" using ne by auto
    have "mem s3 (r + x) = mem s (h + 4 + x)" if "x < ?c" for x
    proof -
      have "mem s3 (r + x) = mem ?s2 (r + x)"
        using that fit r by (intro keepsD [OF k3, of "r - 4" j]) (auto simp: A)
      also have "\<dots> = mem s1 (h + 4 + x)" using that by (simp add: bcopy_def)
      also have "\<dots> = mem s (h + 4 + x)" using that by (intro keepsD [OF k1 h]) auto
      finally show ?thesis .
    qed
    moreover have "keeps (A - {(h, i)}) (mem s) (mem s3)"
    proof (rule keeps_trans)
      show "keeps (A - {(h, i)}) (mem s) (mem ?s2)"
        by (rule keeps_mono [OF keeps_trans [OF k1 k2]]) blast
      show "keeps (A - {(h, i)}) (mem ?s2) (mem s3)" by (rule keeps_mono [OF k3]) blast
    qed
    moreover note un3 inv3 [unfolded A] new r fit
    ultimately have "realloc_post own e h i n A s r s3"
      unfolding realloc_post_def if_not_P [OF False] by blast
    with eq m False f show ?thesis by auto
  qed
qed

section \<open>The fork hooks\<close>

lemma lock_buckets_spec:
  "lock_buckets i s =
     (if \<forall>j. i \<le> j \<and> j < NBUCKETS \<longrightarrow> fl_lock s j = 0
      then Some (s\<lparr>fl_lock := (\<lambda>j. if i \<le> j \<and> j < NBUCKETS then 1 else fl_lock s j)\<rparr>) else None)"
proof (induction i s rule: lock_buckets.induct)
  case (1 i s)
  show ?case
  proof (cases "i < NBUCKETS")
    case False
    then have "(\<lambda>j. if i \<le> j \<and> j < NBUCKETS then 1 else fl_lock s j) = fl_lock s" by (intro ext) auto
    with False show ?thesis by (simp add: lock_buckets.simps [of i s])
  next
    case True
    show ?thesis
    proof (cases "fl_lock s i = 0")
      case False
      with True show ?thesis by (auto simp: lock_buckets.simps [of i s])
    next
      case z: True
      let ?s = "s\<lparr>fl_lock := (fl_lock s)(i := 1)\<rparr>"
      have all: "(\<forall>j. i + 1 \<le> j \<and> j < NBUCKETS \<longrightarrow> fl_lock ?s j = 0) \<longleftrightarrow>
          (\<forall>j. i \<le> j \<and> j < NBUCKETS \<longrightarrow> fl_lock s j = 0)"
        using z by (auto simp: Suc_le_eq le_less)
      have fn: "(\<lambda>j. if i + 1 \<le> j \<and> j < NBUCKETS then 1 else fl_lock ?s j) =
          (\<lambda>j. if i \<le> j \<and> j < NBUCKETS then 1 else fl_lock s j)"
        using True by (intro ext) auto
      have "lock_buckets i s = lock_buckets (i + 1) ?s"
        using True z by (simp add: lock_buckets.simps [of i s])
      also have "\<dots> = (if \<forall>j. i + 1 \<le> j \<and> j < NBUCKETS \<longrightarrow> fl_lock ?s j = 0
          then Some (?s\<lparr>fl_lock := (\<lambda>j. if i + 1 \<le> j \<and> j < NBUCKETS then 1 else fl_lock ?s j)\<rparr>) else None)"
        using z by (intro 1) (auto simp: True)
      finally show ?thesis unfolding all fn by simp
    qed
  qed
qed

lemma unlock_buckets_spec:
  "unlock_buckets n s = s\<lparr>fl_lock := (\<lambda>j. if j < n then 0 else fl_lock s j)\<rparr>"
proof (induction n arbitrary: s)
  case 0
  then show ?case by simp
next
  case (Suc n)
  have "(\<lambda>j. if j < n then 0 else fl_lock (s\<lparr>fl_lock := (fl_lock s)(n := 0)\<rparr>) j)
      = (\<lambda>j. if j < Suc n then 0 else fl_lock s j)"
    by (intro ext) auto
  with Suc [of "s\<lparr>fl_lock := (fl_lock s)(n := 0)\<rparr>"] show ?case by (simp add: fun_upd_def)
qed

end
