(* ===== verification/Cthread_Malloc_Contract.thy ===== *)
theory Cthread_Malloc_Contract
  imports Cthread_Malloc_Props
begin

text \<open>
  The interface the rest of the package sees of the allocator, as the locale \<open>allocator\<close>,
  its interpretation on \<open>malloc\<close> and \<open>free\<close>, and the properties of the entry points of
  \<open>malloc.c\<close>.
\<close>

section \<open>A program that allocates and frees\<close>

text \<open>
  A client is a list of calls.  It keeps the pointers it holds with the sizes it asked for;
  \<open>Release k\<close> frees the \<open>k\<close>-th of them.  A refused request leaves the client as it was.
\<close>

datatype client_call = Request nat | Release nat

fun run_client ::
  "(nat \<Rightarrow> 's \<Rightarrow> (ptr \<times> 's) option) \<Rightarrow> (ptr \<Rightarrow> 's \<Rightarrow> 's option) \<Rightarrow> client_call list
     \<Rightarrow> (ptr \<times> nat) list \<Rightarrow> 's \<Rightarrow> ((ptr \<times> nat) list \<times> 's) option" where
  "run_client alloc release [] live s = Some (live, s)"
| "run_client alloc release (Request n # cs) live s =
     (case alloc n s of None \<Rightarrow> None
      | Some (p, s') \<Rightarrow> run_client alloc release cs (if p = 0 then live else (p, n) # live) s')"
| "run_client alloc release (Release k # cs) live s =
     (if k < length live
      then (case release (fst (live ! k)) s of None \<Rightarrow> None
            | Some s' \<Rightarrow> run_client alloc release cs (take k live @ drop (Suc k) live) s')
      else run_client alloc release cs live s)"

definition requests_ok :: "client_call list \<Rightarrow> bool" where
  "requests_ok cs \<longleftrightarrow> (\<forall>c \<in> set cs. case c of Request n \<Rightarrow> n < 2 ^ 32 | Release k \<Rightarrow> True)"

fun extents_disjoint :: "(ptr \<times> nat) list \<Rightarrow> bool" where
  "extents_disjoint [] \<longleftrightarrow> True"
| "extents_disjoint ((p, n) # xs) \<longleftrightarrow>
     (\<forall>(q, m) \<in> set xs. p + n \<le> q \<or> q + m \<le> p \<or> n = 0 \<or> m = 0) \<and> extents_disjoint xs"

locale allocator =
  fixes ok :: "'s \<Rightarrow> 'b set \<Rightarrow> bool"
    and start :: "'b \<Rightarrow> ptr"
    and payload :: "'b \<Rightarrow> nat set"
    and alloc :: "nat \<Rightarrow> 's \<Rightarrow> (ptr \<times> 's) option"
    and release :: "ptr \<Rightarrow> 's \<Rightarrow> 's option"
  assumes disjoint: "ok s A \<Longrightarrow> b \<in> A \<Longrightarrow> c \<in> A \<Longrightarrow> b \<noteq> c \<Longrightarrow> payload b \<inter> payload c = {}"
    and alloc_ok: "ok s A \<Longrightarrow> n < 2 ^ 32 \<Longrightarrow> \<exists>p s'. alloc n s = Some (p, s') \<and>
      (if p = 0 then ok s' A
       else \<exists>b. start b = p \<and> b \<notin> A \<and> {p..<p + n} \<subseteq> payload b \<and> ok s' (insert b A))"
    and release_ok: "ok s A \<Longrightarrow> b \<in> A \<Longrightarrow> \<exists>s'. release (start b) s = Some s' \<and> ok s' (A - {b})"
begin

definition holds :: "(ptr \<times> nat) list \<Rightarrow> 'b list \<Rightarrow> bool" where
  "holds live bs \<longleftrightarrow> distinct bs \<and>
     list_all2 (\<lambda>(p, n) b. start b = p \<and> {p..<p + n} \<subseteq> payload b) live bs"

lemma holds_disjoint: "ok s (set bs) \<Longrightarrow> holds live bs \<Longrightarrow> extents_disjoint live"
proof -
  assume ok: "ok s (set bs)" and "holds live bs"
  then have "list_all2 (\<lambda>(p, n) b. start b = p \<and> {p..<p + n} \<subseteq> payload b) live bs" "distinct bs"
    by (auto simp: holds_def)
  moreover have "\<forall>b \<in> set bs. \<forall>c \<in> set bs. b \<noteq> c \<longrightarrow> payload b \<inter> payload c = {}"
    using ok disjoint by blast
  ultimately show ?thesis
  proof (induction live bs rule: list_all2_induct)
    case Nil
    then show ?case by simp
  next
    case (Cons x live b bs)
    obtain p n where x: "x = (p, n)" by fastforce
    have "p + n \<le> q \<or> q + m \<le> p \<or> n = 0 \<or> m = 0" if "(q, m) \<in> set live" for q m
    proof -
      from that Cons.hyps(2) obtain c where c: "c \<in> set bs" "{q..<q + m} \<subseteq> payload c"
        by (fastforce simp: list_all2_conv_all_nth in_set_conv_nth)
      with Cons.prems have "payload b \<inter> payload c = {}" by auto
      with Cons.hyps(1) c x have i: "{p..<p + n} \<inter> {q..<q + m} = {}" by blast
      show ?thesis
      proof (rule ccontr)
        assume "\<not> ?thesis"
        then have "max p q \<in> {p..<p + n} \<inter> {q..<q + m}" by auto
        with i show False by simp
      qed
    qed
    with x Cons show ?case by auto
  qed
qed

lemma holds_drop:
  assumes "holds live bs" and "k < length live"
  shows "holds (take k live @ drop (Suc k) live) (take k bs @ drop (Suc k) bs)"
    and "set (take k bs @ drop (Suc k) bs) = set bs - {bs ! k}" and "start (bs ! k) = fst (live ! k)"
proof -
  from assms have d: "distinct bs" and l: "length live = length bs"
    and a: "list_all2 (\<lambda>(p, n) b. start b = p \<and> {p..<p + n} \<subseteq> payload b) live bs"
    by (auto simp: holds_def dest: list_all2_lengthD)
  have b: "bs = take k bs @ bs ! k # drop (Suc k) bs" using assms(2) l by (simp add: id_take_nth_drop)
  have d': "distinct (take k bs @ bs ! k # drop (Suc k) bs)" using d by (simp only: b [symmetric])
  show "set (take k bs @ drop (Suc k) bs) = set bs - {bs ! k}"
    using d' arg_cong [OF b, of set] by auto
  show "start (bs ! k) = fst (live ! k)"
    using list_all2_nthD [OF a assms(2)] by (auto split: prod.splits)
  from a d' show "holds (take k live @ drop (Suc k) live) (take k bs @ drop (Suc k) bs)"
    by (auto simp: holds_def intro!: list_all2_appendI)
qed

lemma run_client_safe:
  assumes "requests_ok cs" and "ok s (set bs)" and "holds live bs"
  shows "\<exists>live' s' bs'. run_client alloc release cs live s = Some (live', s') \<and> ok s' (set bs')
    \<and> holds live' bs'"
  using assms
proof (induction cs arbitrary: live s bs)
  case Nil
  then show ?case by auto
next
  case (Cons c cs)
  have r: "requests_ok cs" using Cons.prems(1) by (simp add: requests_ok_def)
  show ?case
  proof (cases c)
    case (Request n)
    with Cons.prems(1) have "n < 2 ^ 32" by (simp add: requests_ok_def)
    from alloc_ok [OF Cons.prems(2) this] obtain p s' where a: "alloc n s = Some (p, s')"
      and p: "if p = 0 then ok s' (set bs)
        else \<exists>b. start b = p \<and> b \<notin> set bs \<and> {p..<p + n} \<subseteq> payload b \<and> ok s' (insert b (set bs))"
      by blast
    show ?thesis
    proof (cases "p = 0")
      case True
      with p Cons.IH [OF r _ Cons.prems(3)] Request a show ?thesis by auto
    next
      case False
      with p obtain b where b: "start b = p" "b \<notin> set bs" "{p..<p + n} \<subseteq> payload b"
        and ok': "ok s' (set (b # bs))" by auto
      with Cons.prems(3) have "holds ((p, n) # live) (b # bs)" by (auto simp: holds_def)
      from Cons.IH [OF r ok' this] Request a False show ?thesis by auto
    qed
  next
    case (Release k)
    show ?thesis
    proof (cases "k < length live")
      case False
      with Release Cons.IH [OF r Cons.prems(2,3)] show ?thesis by simp
    next
      case True
      note h = holds_drop [OF Cons.prems(3) True]
      have "bs ! k \<in> set bs"
        using True Cons.prems(3) by (auto simp: holds_def dest: list_all2_lengthD)
      from release_ok [OF Cons.prems(2) this] h obtain s' where
        "release (fst (live ! k)) s = Some s'" "ok s' (set (take k bs @ drop (Suc k) bs))" by auto
      with Cons.IH [OF r _ h(1)] Release True show ?thesis by simp
    qed
  qed
qed

end

section \<open>The allocator of malloc.c provides the interface\<close>

definition malloc_ok ::
  "('k \<Rightarrow> nat set) \<Rightarrow> 'k malloc_env \<Rightarrow> 'k malloc_state \<Rightarrow> (ptr \<times> nat) set \<Rightarrow> bool" where
  "malloc_ok own e s A \<longleftrightarrow> vm_spec own e \<and> env_ok e s \<and> unlocked s \<and> (\<exists>F P. heap_inv own e s F P A {})"

lemma malloc_ok_malloc:
  assumes "malloc_ok own e s A" and n: "n < 2 ^ 32"
  shows "\<exists>r s'. malloc e n s = Some (r, s') \<and>
    (if r = 0 then malloc_ok own e s' A
     else \<exists>i. malloc_ok own e s' (insert (r - 4, i) A) \<and> (r - 4, i) \<notin> A \<and> 4 < r
       \<and> n + 4 \<le> 2 ^ (i + 3) \<and> (i = 0 \<or> 2 ^ (i + 2) < n + 4))
    \<and> keeps A (mem s) (mem s')
    \<and> (vm_gives e s (8 + 2 * (n + 4)) \<and> 0 < n \<and> n + 4 \<le> 2 ^ 31 \<longrightarrow> r \<noteq> 0)"
proof -
  from assms(1) obtain F P where inv: "heap_inv own e s F P A {}" and vm: "vm_spec own e"
    and env: "env_ok e s" and un: "unlocked s" by (auto simp: malloc_ok_def)
  from malloc_spec [OF inv vm env un n] obtain r s' where m: "malloc e n s = Some (r, s')"
    and p: "malloc_post own e n A s r s'"
    and ne: "vm_gives e s (8 + 2 * (n + 4)) \<and> 0 < n \<and> n + 4 \<le> 2 ^ 31 \<longrightarrow> r \<noteq> 0" by blast
  from p env have "env_ok e s'" by (simp add: malloc_post_def env_ok_def)
  with p vm m ne show ?thesis
    unfolding malloc_post_def malloc_ok_def by (cases "r = 0") fastforce+
qed

lemma malloc_ok_free:
  assumes "malloc_ok own e s A" and h: "(h, i) \<in> A"
  shows "\<exists>s'. free e (h + 4) s = Some s' \<and> malloc_ok own e s' (A - {(h, i)})
    \<and> keeps (A - {(h, i)}) (mem s) (mem s') \<and> fl_in_use s' = (fl_in_use s)(i := fl_in_use s i - 1)"
proof -
  from assms(1) obtain F P where inv: "heap_inv own e s F P A {}" and vm: "vm_spec own e"
    and env: "env_ok e s" and un: "unlocked s" by (auto simp: malloc_ok_def)
  from free_spec [OF inv un h] vm env show ?thesis
    by (fastforce simp: malloc_ok_def env_ok_def)
qed

lemma malloc_ok_disjoint:
  assumes "malloc_ok own e s A" and "(h, i) \<in> A" and "(k, j) \<in> A" and "(h, i) \<noteq> (k, j)"
  shows "{h..<h + 2 ^ (i + 3)} \<inter> {k..<k + 2 ^ (j + 3)} = {}"
proof -
  from assms(1) obtain F P where inv: "heap_inv own e s F P A {}" by (auto simp: malloc_ok_def)
  have "span (Used i, h, 2 ^ (i + 3)) \<inter> span (Used j, k, 2 ^ (j + 3)) = {}"
    using heap_inv_geometry [OF inv] areas_used [OF assms(2), of F P "{}"]
      areas_used [OF assms(3), of F P "{}"] assms(4)
    unfolding geometry_def disjoint_areas_def by blast
  then show ?thesis by simp
qed

interpretation heap: allocator "malloc_ok own e" "\<lambda>(h, i). h + 4" "\<lambda>(h, i). {h + 4..<h + 2 ^ (i + 3)}"
  "malloc e" "free e" for own e
proof unfold_locales
  fix s A and b c :: "nat \<times> nat"
  assume "malloc_ok own e s A" "b \<in> A" "c \<in> A" "b \<noteq> c"
  with malloc_ok_disjoint [of own e s A "fst b" "snd b" "fst c" "snd c"]
  show "(case b of (h, i) \<Rightarrow> {h + 4..<h + 2 ^ (i + 3)}) \<inter> (case c of (h, i) \<Rightarrow> {h + 4..<h + 2 ^ (i + 3)}) = {}"
    by (cases b; cases c) fastforce
next
  fix s A and n :: nat
  assume "malloc_ok own e s A" "n < 2 ^ 32"
  from malloc_ok_malloc [OF this] obtain r s' where m: "malloc e n s = Some (r, s')"
    and p: "if r = 0 then malloc_ok own e s' A
      else \<exists>i. malloc_ok own e s' (insert (r - 4, i) A) \<and> (r - 4, i) \<notin> A \<and> 4 < r
       \<and> n + 4 \<le> 2 ^ (i + 3) \<and> (i = 0 \<or> 2 ^ (i + 2) < n + 4)" by blast
  have "\<exists>b. (case b of (h, i) \<Rightarrow> h + 4) = r \<and> b \<notin> A
      \<and> {r..<r + n} \<subseteq> (case b of (h, i) \<Rightarrow> {h + 4..<h + 2 ^ (i + 3)}) \<and> malloc_ok own e s' (insert b A)"
    if nz: "r \<noteq> 0"
  proof -
    from p nz obtain i where i: "malloc_ok own e s' (insert (r - 4, i) A)" "(r - 4, i) \<notin> A" "4 < r"
      "n + 4 \<le> 2 ^ (i + 3)" by auto
    then show ?thesis by (intro exI [of _ "(r - 4, i)"]) auto
  qed
  with m p show "\<exists>p s'. malloc e n s = Some (p, s') \<and> (if p = 0 then malloc_ok own e s' A
      else \<exists>b. (case b of (h, i) \<Rightarrow> h + 4) = p \<and> b \<notin> A
        \<and> {p..<p + n} \<subseteq> (case b of (h, i) \<Rightarrow> {h + 4..<h + 2 ^ (i + 3)}) \<and> malloc_ok own e s' (insert b A))"
    by (intro exI [of _ r] exI [of _ s']) auto
next
  fix s A and b :: "nat \<times> nat"
  assume "malloc_ok own e s A" "b \<in> A"
  with malloc_ok_free [of own e s A "fst b" "snd b"]
  show "\<exists>s'. free e (case b of (h, i) \<Rightarrow> h + 4) s = Some s' \<and> malloc_ok own e s' (A - {b})"
    by (cases b) auto
qed

section \<open>Properties\<close>

text \<open>
  (C1) \<^bold>\<open>No client can make the allocator overlap two live blocks\<close>: whatever sequence of
  requests and releases a client makes, every call returns, the heap invariant is kept, and
  the extents the client holds never overlap.
\<close>

theorem malloc_client_safe:
  assumes "malloc_ok own e s {}" and "requests_ok cs"
  shows "\<exists>live s' A. run_client (malloc e) (free e) cs [] s = Some (live, s')
    \<and> extents_disjoint live \<and> malloc_ok own e s' A \<and> length live = card A"
proof -
  have "heap.holds [] []" by (simp add: heap.holds_def)
  from heap.run_client_safe [OF assms(2), of own e s "[]" "[]"] assms(1) this
  obtain live s' bs where r: "run_client (malloc e) (free e) cs [] s = Some (live, s')"
    and ok: "malloc_ok own e s' (set bs)" and h: "heap.holds live bs" by auto
  from h have "length live = card (set bs)"
    by (auto simp: heap.holds_def distinct_card dest: list_all2_lengthD)
  with r ok heap.holds_disjoint [OF ok h] show ?thesis by blast
qed

text \<open>
  A kernel that hands out ascending addresses from page 1 on, and a heap in its initial
  state: the instances at which the properties below are applied.
\<close>

definition bump :: "nat \<Rightarrow> nat \<Rightarrow> ptr option \<times> nat" where
  "bump n k = (let a = max k 4096 in if a + n \<le> 2 ^ 32 then (Some a, a + n) else (None, k))"

definition bump_own :: "nat \<Rightarrow> nat set" where
  "bump_own k = {4096..<k}"

definition bump_env :: "nat malloc_env" where
  "bump_env = \<lparr>vm_page_size = 1024, malloc_free_list = 512, vm_allocate = bump\<rparr>"

definition fresh_heap :: "nat malloc_state" where
  "fresh_heap = \<lparr>mem = (\<lambda>_. 0), fl_lock = (\<lambda>_. 0), fl_head = (\<lambda>_. 0), fl_in_use = (\<lambda>_. 0),
     malloc_lock = 0, pool = 0, pool_size = 0, malloc_pool_size = 32, kern = 4096\<rparr>"

lemma bump_vm_spec: "vm_spec bump_own bump_env"
  by (auto simp: vm_spec_def bump_env_def bump_def bump_own_def Let_def)

lemma fresh_heap_ok: "malloc_ok bump_own bump_env fresh_heap {}"
proof -
  have "1024 = (2 :: nat) ^ 10" by simp
  then have "env_ok bump_env fresh_heap"
    unfolding env_ok_def bump_env_def fresh_heap_def NBUCKETS_def by (auto intro!: exI [of _ 10])
  moreover have "heap_inv bump_own bump_env fresh_heap (\<lambda>_. []) [] {} {}"
    by (simp add: heap_inv_def geometry_def disjoint_areas_def areas_def links_def block_links_def
        pools_rep_def fresh_heap_def)
  moreover have "unlocked fresh_heap" by (simp add: unlocked_def fresh_heap_def)
  ultimately show ?thesis using bump_vm_spec by (auto simp: malloc_ok_def)
qed

lemma fresh_heap_gives: "vm_gives bump_env fresh_heap 100000"
  by (auto simp: vm_gives_def bump_env_def bump_def fresh_heap_def Let_def)

theorem malloc_client_safe_witness:
  "\<exists>live s' A. run_client (malloc bump_env) (free bump_env)
      [Request 10, Request 5000, Release 1, Request 12] [] fresh_heap = Some (live, s')
    \<and> extents_disjoint live \<and> malloc_ok bump_own bump_env s' A \<and> length live = card A"
  by (rule malloc_client_safe [OF fresh_heap_ok]) (simp add: requests_ok_def)

text \<open>
  (C22) \<^bold>\<open>malloc returns a fresh block of the right size class\<close>: when no lock is held, a call
  returns; either it returns null and nothing changes hands, or it returns a pointer four bytes
  into a new block of the smallest bucket that fits the request and its header, disjoint from
  every block the program holds, whose contents are untouched.  It returns null only if the
  size is refused or the kernel has no memory.
\<close>

theorem malloc_fresh_block:
  assumes "malloc_ok own e s A" and "n < 2 ^ 32"
  shows "\<exists>r s'. malloc e n s = Some (r, s') \<and>
    (if r = 0 then malloc_ok own e s' A
     else \<exists>i. malloc_ok own e s' (insert (r - 4, i) A) \<and> (r - 4, i) \<notin> A \<and> 4 < r
       \<and> n + 4 \<le> 2 ^ (i + 3) \<and> (i = 0 \<or> 2 ^ (i + 2) < n + 4))
    \<and> keeps A (mem s) (mem s')
    \<and> (vm_gives e s (8 + 2 * (n + 4)) \<and> 0 < n \<and> n + 4 \<le> 2 ^ 31 \<longrightarrow> r \<noteq> 0)"
  using assms by (rule malloc_ok_malloc)

theorem malloc_fresh_block_witness:
  "\<exists>r s' i. malloc bump_env 100 fresh_heap = Some (r, s') \<and> r \<noteq> 0
    \<and> malloc_ok bump_own bump_env s' {(r - 4, i)} \<and> 104 \<le> (2 :: nat) ^ (i + 3)"
proof -
  have "vm_gives bump_env fresh_heap (8 + 2 * (100 + 4))"
    using fresh_heap_gives by (rule vm_gives_mono) simp
  with malloc_fresh_block [OF fresh_heap_ok, of 100] show ?thesis by fastforce
qed

text \<open>
  \<^bold>\<open>free takes a block back\<close>: freeing a block the program holds returns, moves that
  block and no other to the free list of its bucket, decrements the bucket's use count and
  leaves the contents of every other block alone.
\<close>

theorem free_returns_block:
  assumes "malloc_ok own e s A" and "(h, i) \<in> A"
  shows "\<exists>s'. free e (h + 4) s = Some s' \<and> malloc_ok own e s' (A - {(h, i)})
    \<and> keeps (A - {(h, i)}) (mem s) (mem s') \<and> fl_in_use s' = (fl_in_use s)(i := fl_in_use s i - 1)"
  using assms by (rule malloc_ok_free)

lemma some_block:
  "\<exists>r s' i. malloc bump_env 100 fresh_heap = Some (r, s') \<and> malloc_ok bump_own bump_env s' {(r - 4, i)}
     \<and> 4 < r"
proof -
  have "vm_gives bump_env fresh_heap (8 + 2 * (100 + 4))"
    using fresh_heap_gives by (rule vm_gives_mono) simp
  with malloc_ok_malloc [OF fresh_heap_ok, of 100] show ?thesis by fastforce
qed

theorem free_returns_block_witness:
  "\<exists>r s1 s2. malloc bump_env 100 fresh_heap = Some (r, s1) \<and> free bump_env r s1 = Some s2
    \<and> malloc_ok bump_own bump_env s2 {}"
proof -
  obtain r s1 i where m: "malloc bump_env 100 fresh_heap = Some (r, s1)" and r: "4 < r"
    and ok: "malloc_ok bump_own bump_env s1 {(r - 4, i)}" using some_block by blast
  from free_returns_block [OF ok, of "r - 4" i] m r show ?thesis by auto
qed

text \<open>
  (C26) \<^bold>\<open>realloc moves the contents\<close>: if the new size belongs in the block's bucket the call
  returns the same pointer and changes nothing.  Otherwise it returns, the old block is free,
  and either the result is null or it points to a new block large enough whose first bytes,
  up to the smaller of the two sizes, are those of the old block.  When the allocation of the
  new block fails the old block is freed all the same.
\<close>

theorem realloc_moves_contents:
  assumes "malloc_ok own e s A" and "(h, i) \<in> A" and "n < 2 ^ 32"
  shows "if realloc_keeps i n then realloc e (h + 4) n s = Some (h + 4, s)
    else \<exists>r s'. realloc e (h + 4) n s = Some (r, s') \<and> realloc_post own e h i n A s r s'"
proof -
  from assms(1) obtain F P where "heap_inv own e s F P A {}" "vm_spec own e" "env_ok e s" "unlocked s"
    by (auto simp: malloc_ok_def)
  with assms(2,3) realloc_same_bucket [of own e s F P A h i n] realloc_moves [of own e s F P A h i n]
  show ?thesis by simp
qed

theorem realloc_moves_contents_witness:
  "\<exists>r s1 i s2 r'. malloc bump_env 100 fresh_heap = Some (r, s1) \<and> realloc bump_env r 3000000000 s1 = Some (r', s2)
    \<and> realloc_post bump_own bump_env (r - 4) i 3000000000 {(r - 4, i)} s1 r' s2"
proof -
  obtain r s1 i where m: "malloc bump_env 100 fresh_heap = Some (r, s1)" and r: "4 < r"
    and ok: "malloc_ok bump_own bump_env s1 {(r - 4, i)}" using some_block by blast
  then obtain F P where "heap_inv bump_own bump_env s1 F P {(r - 4, i)} {}" by (auto simp: malloc_ok_def)
  then have "i < NBUCKETS" by (rule heap_inv_block) simp
  then have "(2 :: nat) ^ (i + 3) \<le> 2 ^ 31" by (intro power_increasing) (auto simp: NBUCKETS_def)
  then have "\<not> realloc_keeps i 3000000000" by (simp add: realloc_keeps_def)
  with realloc_moves_contents [OF ok, of "r - 4" i 3000000000] m r show ?thesis by auto
qed

text \<open>
  \<^bold>\<open>malloc refuses the sizes it cannot represent\<close>: a request of zero bytes, or one that
  with its header exceeds the largest bucket (2 GB), also when adding the header wraps around,
  returns null and changes nothing.
\<close>

theorem malloc_refuses_size:
  assumes "req < 2 ^ 32" and "req = 0 \<or> 2 ^ 31 < req + 4"
  shows "malloc e req s = Some (0, s)"
  using assms by (rule malloc_refuses)

theorem malloc_refuses_size_witness: "malloc bump_env 4294967294 fresh_heap = Some (0, fresh_heap)"
  by (rule malloc_refuses_size) simp_all

text \<open>
  \<^bold>\<open>The fork hooks bracket a fork\<close>: \<open>malloc_fork_prepare\<close> returns exactly when no
  free-list lock is held; it then holds all of them, and the hook run in the parent (or in the
  child) restores the state.
\<close>

theorem malloc_fork_brackets:
  "case malloc_fork_prepare s of
     None \<Rightarrow> \<exists>i < NBUCKETS. fl_lock s i \<noteq> 0
   | Some s' \<Rightarrow> (\<forall>i < NBUCKETS. fl_lock s i = 0 \<and> fl_lock s' i = 1)
       \<and> malloc_fork_parent s' = s \<and> malloc_fork_child s' = s"
proof (cases "\<forall>i < NBUCKETS. fl_lock s i = 0")
  case False
  then have "malloc_fork_prepare s = None" by (simp add: malloc_fork_prepare_def lock_buckets_spec)
  with False show ?thesis by simp
next
  case True
  let ?s' = "s\<lparr>fl_lock := (\<lambda>j. if j < NBUCKETS then 1 else fl_lock s j)\<rparr>"
  from True have p: "malloc_fork_prepare s = Some ?s'"
    by (simp add: malloc_fork_prepare_def lock_buckets_spec)
  have "(\<lambda>j. if j < NBUCKETS then 0 else fl_lock s j) = fl_lock s" using True by (intro ext) auto
  then have "unlock_buckets NBUCKETS ?s' = s" by (simp add: unlock_buckets_spec cong: if_cong)
  with True p show ?thesis by (simp add: malloc_fork_parent_def malloc_fork_child_def)
qed

theorem malloc_fork_brackets_witness:
  "\<exists>s'. malloc_fork_prepare fresh_heap = Some s' \<and> malloc_fork_parent s' = fresh_heap"
  using malloc_fork_brackets [of fresh_heap]
  by (cases "malloc_fork_prepare fresh_heap") (auto simp: fresh_heap_def)

end
