(* ===== verification/Cthread_Stack.thy ===== *)
theory Cthread_Stack
  imports Cthread_Sync "HOL-Library.Word"
begin

text \<open>
  The stacks of the C Threads package, \<open>mach/lib/threads/stack.c\<close> (configurations
  \<open>MTHREAD\<close> and \<open>COROUTINE\<close>), and the search for the running cproc,
  \<open>ur_cthread_self\<close> of \<open>cprocs.c\<close>: a stack segment holds, at its lowest address, the
  pointer of the cproc that runs on it, and the segment is found by masking the stack
  pointer.  Addresses are 32-bit words.  The kernel calls and the UNIX stack limit are
  arguments (\<open>stack_env\<close>); a failing kernel call exits the program, which is \<open>None\<close>.
\<close>

unbundle bit_operations_syntax

type_synonym addr = "32 word"

text \<open>The fields of \<open>struct cproc\<close> that concern its stack.\<close>

record cproc_stack =
  stack_base :: addr
  stack_size :: addr
  initial_stack :: bool

record 'k stack_state =
  cthread_stack_mask :: addr
  cthread_stack_size :: addr
  next_stack_base :: addr
  initial_stack_boundary :: addr
  initial_stack_deallocated :: addr
  initial_stack_lock :: int
  self_word :: "addr \<Rightarrow> ptr"
  stacks :: "ptr \<Rightarrow> cproc_stack"
  vm :: 'k

record 'k stack_env =
  page_size :: addr
  cthread_stack_base :: addr
  getrlimit :: "addr option"
  vm_allocate_at :: "addr \<Rightarrow> addr \<Rightarrow> 'k \<Rightarrow> bool \<times> 'k"
  vm_deallocate :: "addr \<Rightarrow> addr \<Rightarrow> 'k \<Rightarrow> bool \<times> 'k"
  vm_protect_none :: "addr \<Rightarrow> addr \<Rightarrow> 'k \<Rightarrow> bool \<times> 'k"

definition BYTES_TO_PAGES :: "'k stack_env \<Rightarrow> addr \<Rightarrow> addr" where
  "BYTES_TO_PAGES e b = (b + page_size e - 1) div page_size e"

definition upd_stack :: "ptr \<Rightarrow> (cproc_stack \<Rightarrow> cproc_stack) \<Rightarrow> 'k stack_state \<Rightarrow> 'k stack_state" where
  "upd_stack p f s = s\<lparr>stacks := (stacks s)(p := f (stacks s p))\<rparr>"

definition setup_stack :: "'k stack_env \<Rightarrow> ptr \<Rightarrow> addr \<Rightarrow> 'k stack_state \<Rightarrow> 'k stack_state option" where
  "setup_stack e p base s =
     (let sb = base + 2 * page_size e;
          s1 = upd_stack p (\<lambda>c. c\<lparr>stack_base := sb,
                 stack_size := (if initial_stack c then initial_stack_boundary s - sb
                                else cthread_stack_size s - 2 * page_size e)\<rparr>) s
      in case vm_protect_none e (base + page_size e) (page_size e) (vm s1) of
           (ok, k) \<Rightarrow> if ok then Some (s1\<lparr>vm := k, self_word := (self_word s1)(base := p)\<rparr>) else None)"

text \<open>\<open>sp\<close> is the stack pointer at the call.\<close>

definition stack_init :: "'k stack_env \<Rightarrow> addr \<Rightarrow> ptr \<Rightarrow> 'k stack_state \<Rightarrow> 'k stack_state option" where
  "stack_init e sp p s =
     (case getrlimit e of None \<Rightarrow> None
      | Some rlim \<Rightarrow>
        (let sz = BYTES_TO_PAGES e rlim * page_size e; msk = NOT (sz - 1);
             s1 = s\<lparr>cthread_stack_size := sz, cthread_stack_mask := msk,
                    next_stack_base := (cthread_stack_base e + sz - 1) AND msk,
                    initial_stack_boundary := sp\<rparr>
         in setup_stack e p (sp AND msk) (upd_stack p (\<lambda>c. c\<lparr>initial_stack := True\<rparr>) s1)))"

text \<open>The loop that tries one segment after the other.\<close>

partial_function (option) alloc_segment ::
  "'k stack_env \<Rightarrow> addr \<Rightarrow> addr \<Rightarrow> 'k \<Rightarrow> (addr \<times> 'k) option" where
  "alloc_segment e sz base k =
     (case vm_allocate_at e base sz k of (ok, k1) \<Rightarrow>
        if ok then Some (base, k1) else alloc_segment e sz (base + sz) k1)"

definition normal_alloc_stack :: "'k stack_env \<Rightarrow> ptr \<Rightarrow> 'k stack_state \<Rightarrow> 'k stack_state option" where
  "normal_alloc_stack e p s =
     (case alloc_segment e (cthread_stack_size s) (next_stack_base s) (vm s) of None \<Rightarrow> None
      | Some (base, k) \<Rightarrow>
         setup_stack e p base (s\<lparr>vm := k, next_stack_base := base + cthread_stack_size s\<rparr>))"

text \<open>
  Reusing the initial stack: its pages below the boundary are given back and allocated again;
  clearing the boundary page writes memory that holds no self pointer.
\<close>

definition reuse_initial_stack :: "'k stack_env \<Rightarrow> ptr \<Rightarrow> 'k stack_state \<Rightarrow> 'k stack_state option" where
  "reuse_initial_stack e p s =
     (let boundary_page = initial_stack_boundary s AND NOT (page_size e - 1);
          base = initial_stack_boundary s AND cthread_stack_mask s;
          s1 = upd_stack p (\<lambda>c. c\<lparr>initial_stack := True\<rparr>) s
      in case vm_deallocate e base (boundary_page - base) (vm s1) of (ok1, k1) \<Rightarrow>
           if \<not> ok1 then None
           else (case vm_allocate_at e base (boundary_page - base) k1 of (ok2, k2) \<Rightarrow>
                   if \<not> ok2 then None else setup_stack e p base (s1\<lparr>vm := k2\<rparr>)))"

definition alloc_stack :: "'k stack_env \<Rightarrow> ptr \<Rightarrow> 'k stack_state \<Rightarrow> 'k stack_state option" where
  "alloc_stack e p s =
     (if initial_stack_deallocated s \<noteq> 0 then
        (case spin_lock (initial_stack_lock s) of None \<Rightarrow> None
         | Some l \<Rightarrow>
           (let s1 = s\<lparr>initial_stack_lock := l\<rparr> in
            if initial_stack_deallocated s1 = 0
            then normal_alloc_stack e p (s1\<lparr>initial_stack_lock := spin_unlock (initial_stack_lock s1)\<rparr>)
            else reuse_initial_stack e p
                   (s1\<lparr>initial_stack_deallocated := 0,
                       initial_stack_lock := spin_unlock (initial_stack_lock s1)\<rparr>)))
      else normal_alloc_stack e p s)"

definition dealloc_stack :: "'k stack_env \<Rightarrow> ptr \<Rightarrow> 'k stack_state \<Rightarrow> 'k stack_state option" where
  "dealloc_stack e p s =
     (if initial_stack (stacks s p)
      then Some (s\<lparr>initial_stack_deallocated := stack_base (stacks s p)\<rparr>)
      else (case vm_deallocate e (stack_base (stacks s p) AND cthread_stack_mask s) (cthread_stack_size s) (vm s) of
              (ok, k) \<Rightarrow> if ok then Some (s\<lparr>vm := k\<rparr>) else None))"

definition stack_fork_child :: "'k stack_env \<Rightarrow> 'k stack_state \<Rightarrow> 'k stack_state" where
  "stack_fork_child e s =
     s\<lparr>next_stack_base := (cthread_stack_base e + cthread_stack_size s - 1) AND cthread_stack_mask s\<rparr>"

definition ur_cthread_self :: "addr \<Rightarrow> 'k stack_state \<Rightarrow> ptr" where
  "ur_cthread_self sp s = self_word s (sp AND cthread_stack_mask s)"

section \<open>Masking a stack pointer\<close>

lemma mask_low_bits: "x AND NOT (2 ^ k - 1 :: addr) = x - take_bit k x"
proof -
  have "x AND NOT (mask k :: addr) = push_bit k (drop_bit k x)"
    by (rule bit_word_eqI) (auto simp: bit_and_iff bit_not_iff bit_mask_iff bit_push_bit_iff bit_drop_bit_eq)
  also have "\<dots> = x - take_bit k x" by (metis add_diff_cancel_right' bits_ident)
  finally show ?thesis by (simp add: mask_eq_exp_minus_1)
qed

definition aligned :: "nat \<Rightarrow> addr \<Rightarrow> bool" where
  "aligned k b \<longleftrightarrow> take_bit k b = 0"

lemma aligned_masked: "aligned k (x AND NOT (2 ^ k - 1))"
proof -
  have "x AND NOT (2 ^ k - 1) = x AND NOT (mask k)" by (simp add: mask_eq_exp_minus_1)
  then show ?thesis unfolding aligned_def
    by (intro bit_word_eqI) (simp add: bit_take_bit_iff bit_and_iff bit_not_iff bit_mask_iff)
qed

lemma take_bit_sum: "take_bit k (a + b :: addr) = take_bit k (take_bit k a + take_bit k b)"
  by (transfer, simp add: take_bit_take_bit)
    (metis (no_types) min.idem min.commute min.assoc take_bit_add take_bit_take_bit)

lemma aligned_add: "aligned k b \<Longrightarrow> aligned k (b + 2 ^ k)"
proof -
  assume "aligned k b"
  moreover have "take_bit k ((2 :: addr) ^ k) = 0" by (rule bit_word_eqI) (auto simp: bit_take_bit_iff bit_exp_iff)
  ultimately show ?thesis using take_bit_sum [of k b "2 ^ k"] by (simp add: aligned_def)
qed

lemma take_bit_small:
  assumes "k < 32" and "off < (2 :: addr) ^ k"
  shows "take_bit k off = off"
proof -
  have "(2 :: nat) ^ k < 2 ^ 32" using assms(1) by (intro power_strict_increasing) auto
  then have "unat ((2 :: addr) ^ k) = 2 ^ k" using unat_of_nat [where ?'a = 32, of "2 ^ k"] by simp
  then have "unat off < 2 ^ k" using assms(2) by (simp add: word_less_nat_alt)
  then have "unat (take_bit k off) = unat off" by (simp add: unsigned_take_bit_eq take_bit_nat_eq_self)
  then show ?thesis by (simp only: word_unat_eq_iff)
qed

lemma segment_of:
  assumes "aligned k b" and "k < 32" and "off < (2 :: addr) ^ k"
  shows "(b + off) AND NOT (2 ^ k - 1) = b"
proof -
  have "take_bit k (b + off) = off"
    using assms(1) take_bit_small [OF assms(2,3)] take_bit_sum [of k b off] by (simp add: aligned_def)
  then show ?thesis by (simp add: mask_low_bits)
qed

section \<open>Every cproc finds itself\<close>

text \<open>
  What the kernel promises on the calls of this file, for ranges of whole pages: \<open>held k\<close> are the
  addresses that are allocated in the address space \<open>k\<close>.  A \<open>vm_allocate\<close> at a fixed address
  succeeds only if the whole range is free, and then allocates exactly the range; a failed one
  changes nothing; \<open>vm_deallocate\<close> frees exactly the range; \<open>vm_protect\<close> changes no allocation.
\<close>

definition span :: "addr \<Rightarrow> addr \<Rightarrow> addr set" where
  "span b n = {a. unat b \<le> unat a \<and> unat a < unat b + unat n}"

definition paged :: "'k stack_env \<Rightarrow> addr \<Rightarrow> bool" where
  "paged e x \<longleftrightarrow> x AND (page_size e - 1) = 0"

definition pages :: "'k stack_env \<Rightarrow> addr \<Rightarrow> addr \<Rightarrow> bool" where
  "pages e b n \<longleftrightarrow> paged e b \<and> paged e n \<and> n \<noteq> 0"

definition vm_tracks :: "'k stack_env \<Rightarrow> ('k \<Rightarrow> addr set) \<Rightarrow> bool" where
  "vm_tracks e held \<longleftrightarrow>
     (\<forall>b n k k'. vm_allocate_at e b n k = (True, k') \<longrightarrow> pages e b n
         \<longrightarrow> span b n \<inter> held k = {} \<and> held k' = held k \<union> span b n)
   \<and> (\<forall>b n k k'. vm_allocate_at e b n k = (False, k') \<longrightarrow> held k' = held k)
   \<and> (\<forall>b n k k'. vm_deallocate e b n k = (True, k') \<longrightarrow> pages e b n \<longrightarrow> held k' = held k - span b n)
   \<and> (\<forall>b n k k'. vm_protect_none e b n k = (True, k') \<longrightarrow> held k' = held k)"

lemma vm_allocate_held:
  "vm_tracks e held \<Longrightarrow> vm_allocate_at e b n k = (True, k') \<Longrightarrow> pages e b n
    \<Longrightarrow> span b n \<inter> held k = {} \<and> held k' = held k \<union> span b n"
  by (simp add: vm_tracks_def)

lemma vm_allocate_refused: "vm_tracks e held \<Longrightarrow> vm_allocate_at e b n k = (False, k') \<Longrightarrow> held k' = held k"
  by (simp add: vm_tracks_def)

lemma vm_deallocate_held:
  "vm_tracks e held \<Longrightarrow> vm_deallocate e b n k = (True, k') \<Longrightarrow> pages e b n \<Longrightarrow> held k' = held k - span b n"
  by (simp add: vm_tracks_def)

lemma span_start: "n \<noteq> 0 \<Longrightarrow> b \<in> span b n"
  by (simp add: span_def unat_gt_0)

text \<open>A range within a segment meets the start of no other segment.\<close>

lemma span_segment:
  assumes "aligned k b" and "k < 32" and "unat n \<le> 2 ^ k" and "c \<in> span b n" and "aligned k c"
  shows "c = b"
proof -
  have le: "b \<le> c" and lt: "unat c - unat b < 2 ^ k" using assms(3,4) by (auto simp: span_def word_le_nat_alt)
  have p: "unat ((2 :: addr) ^ k) = 2 ^ k"
  proof -
    have "(2 :: nat) ^ k < 2 ^ 32" using assms(2) by (intro power_strict_increasing) auto
    then show ?thesis using unat_of_nat [where ?'a = 32, of "2 ^ k"] by simp
  qed
  have "unat (c - b) = unat c - unat b" using le by (rule unat_sub)
  then have "c - b < 2 ^ k" using lt p by (simp add: word_less_nat_alt)
  from segment_of [OF assms(1,2) this] have "c AND NOT (2 ^ k - 1) = b" by simp
  moreover have "c AND NOT (2 ^ k - 1) = c" using assms(5) by (simp add: mask_low_bits aligned_def)
  ultimately show ?thesis by simp
qed

text \<open>With pages of a power of two, segments and the part of the initial segment below a page are whole pages.\<close>

lemma paged_take_bit: "page_size e = 2 ^ j \<Longrightarrow> paged e x \<longleftrightarrow> take_bit j x = 0"
  by (simp add: paged_def take_bit_eq_mask mask_eq_exp_minus_1)

lemma aligned_paged:
  assumes "page_size e = 2 ^ j" and "j \<le> k" and "aligned k x"
  shows "paged e x"
proof -
  have "take_bit j x = take_bit j (take_bit k x)" using assms(2) by simp
  then show ?thesis using assms(3) unfolding paged_take_bit [OF assms(1)] aligned_def by (metis take_bit_of_0)
qed

lemma segment_pages:
  assumes "page_size e = 2 ^ j" and "j \<le> k" and "k < 32" and "aligned k b"
  shows "pages e b (2 ^ k)"
proof -
  have "aligned k (2 ^ k)" using aligned_add [of k 0] by (simp add: aligned_def)
  then show ?thesis using assms aligned_paged [OF assms(1,2)] by (simp add: pages_def)
qed

definition initial_segment :: "nat \<Rightarrow> addr \<Rightarrow> addr" where
  "initial_segment k sp = sp AND NOT (2 ^ k - 1)"

text \<open>
  The configurations in which the mask works: the size of a page is a power of two, the stack
  limit, rounded up to pages, is a power of two and larger than the two pages below the stack, and
  the initial stack pointer is not in the lowest page of its segment.
\<close>

definition stack_config :: "'k stack_env \<Rightarrow> nat \<Rightarrow> addr \<Rightarrow> bool" where
  "stack_config e k sp \<longleftrightarrow> k < 32 \<and> (\<exists>j < k. page_size e = 2 ^ j) \<and> 2 * page_size e < 2 ^ k
     \<and> (\<exists>r. getrlimit e = Some r \<and> BYTES_TO_PAGES e r * page_size e = 2 ^ k)
     \<and> sp AND NOT (page_size e - 1) \<noteq> initial_segment k sp"

lemma initial_part:
  assumes j: "page_size e = 2 ^ j" "j < k" and k: "k < 32" and n: "n = (sp AND NOT (page_size e - 1)) - initial_segment k sp" "n \<noteq> 0"
  shows "pages e (initial_segment k sp) n \<and> unat n \<le> 2 ^ k"
proof -
  let ?b = "initial_segment k sp"
  have b: "aligned k ?b" by (simp add: initial_segment_def aligned_masked)
  have bp: "take_bit j (sp AND NOT (page_size e - 1)) = 0" using aligned_masked [of j sp] j by (simp add: aligned_def)
  have pb: "paged e ?b" using aligned_paged [OF j(1) _ b] j(2) by simp
  have "take_bit j (?b + n) = 0" using bp n(1) by simp
  then have "take_bit j n = 0" using take_bit_sum [of j ?b n] pb j(1) by (simp add: paged_take_bit)
  then have pn: "paged e n" using j(1) by (simp add: paged_take_bit)
  have nn: "n = take_bit k sp - take_bit j sp"
    unfolding n(1) initial_segment_def j(1) mask_low_bits by simp
  have le: "take_bit j sp \<le> take_bit k sp"
  proof -
    have "take_bit j sp = take_bit j (take_bit k sp)" using j(2) by simp
    then show ?thesis by (metis take_bit_nat_less_eq_self unsigned_take_bit_eq word_le_nat_alt)
  qed
  have "unat n = unat (take_bit k sp) - unat (take_bit j sp)" unfolding nn using le by (rule unat_sub)
  moreover have "unat (take_bit k sp) < 2 ^ k" by (simp add: unsigned_take_bit_eq take_bit_nat_less_exp)
  ultimately show ?thesis using pb pn n(2) by (simp add: pages_def)
qed

definition segment :: "'k stack_state \<Rightarrow> ptr \<Rightarrow> addr" where
  "segment s p = stack_base (stacks s p) AND cthread_stack_mask s"

text \<open>A cproc with a stack: its segment is allocated and names it.\<close>

definition seated :: "addr set \<Rightarrow> nat \<Rightarrow> addr \<Rightarrow> 'k stack_state \<Rightarrow> ptr \<Rightarrow> bool" where
  "seated H k sp s p \<longleftrightarrow> aligned k (segment s p) \<and> segment s p \<in> H \<and> self_word s (segment s p) = p
     \<and> (initial_stack (stacks s p) \<longleftrightarrow> segment s p = initial_segment k sp)"

definition sized :: "nat \<Rightarrow> addr \<Rightarrow> 'k stack_state \<Rightarrow> bool" where
  "sized k sp s \<longleftrightarrow> cthread_stack_mask s = NOT (2 ^ k - 1) \<and> cthread_stack_size s = 2 ^ k
     \<and> aligned k (next_stack_base s) \<and> initial_stack_boundary s = sp \<and> initial_stack_lock s = 0"

definition stacks_ok :: "('k \<Rightarrow> addr set) \<Rightarrow> nat \<Rightarrow> addr \<Rightarrow> ptr set \<Rightarrow> 'k stack_state \<Rightarrow> bool" where
  "stacks_ok held k sp L s \<longleftrightarrow>
     sized k sp s \<and> initial_segment k sp \<in> held (vm s) \<and> (\<forall>p \<in> L. seated (held (vm s)) k sp s p)
   \<and> (initial_stack_deallocated s \<noteq> 0 \<longrightarrow> (\<forall>p \<in> L. \<not> initial_stack (stacks s p)))"

text \<open>The runs of the package, with the set of the cprocs that have a stack.\<close>

inductive stack_reach :: "'k stack_env \<Rightarrow> addr \<Rightarrow> 'k stack_state \<Rightarrow> ptr set \<Rightarrow> 'k stack_state \<Rightarrow> bool"
  for e sp st where
  init: "stack_init e sp p st = Some s \<Longrightarrow> stack_reach e sp st {p} s"
| alloc: "stack_reach e sp st L s \<Longrightarrow> p \<notin> L
    \<Longrightarrow> alloc_stack e p (upd_stack p (\<lambda>c. c\<lparr>initial_stack := False\<rparr>) s) = Some s'
    \<Longrightarrow> stack_reach e sp st (insert p L) s'"
| dealloc: "stack_reach e sp st L s \<Longrightarrow> p \<in> L \<Longrightarrow> dealloc_stack e p s = Some s'
    \<Longrightarrow> stack_reach e sp st (L - {p}) s'"
| fork: "stack_reach e sp st L s \<Longrightarrow> stack_reach e sp st L (stack_fork_child e s)"

lemma upd_stack_simps [simp]:
  "stacks (upd_stack p f s) = (stacks s)(p := f (stacks s p))"
  "vm (upd_stack p f s) = vm s" "self_word (upd_stack p f s) = self_word s"
  "cthread_stack_mask (upd_stack p f s) = cthread_stack_mask s"
  "cthread_stack_size (upd_stack p f s) = cthread_stack_size s"
  "next_stack_base (upd_stack p f s) = next_stack_base s"
  "initial_stack_boundary (upd_stack p f s) = initial_stack_boundary s"
  "initial_stack_deallocated (upd_stack p f s) = initial_stack_deallocated s"
  "initial_stack_lock (upd_stack p f s) = initial_stack_lock s"
  by (simp_all add: upd_stack_def)

lemma seated_cong:
  "\<lbrakk>seated H k sp s p; stacks s' p = stacks s p; cthread_stack_mask s' = cthread_stack_mask s;
    self_word s' (segment s p) = self_word s (segment s p); segment s p \<in> H'\<rbrakk> \<Longrightarrow> seated H' k sp s' p"
  by (simp add: seated_def segment_def)

lemma seated_segment_inj: "seated H k sp s p \<Longrightarrow> seated H k sp s q \<Longrightarrow> segment s p = segment s q \<Longrightarrow> p = q"
  by (auto simp: seated_def)

lemma seated_held: "seated H k sp s p \<Longrightarrow> segment s p \<in> H"
  by (simp add: seated_def)

text \<open>What \<open>setup_stack\<close> needs of the state before it, and what it establishes.\<close>

lemma setup_stack_ok:
  assumes v: "vm_tracks e held" and c: "k < 32" "2 * page_size e < 2 ^ k"
    and z: "sized k sp s" "initial_segment k sp \<in> held (vm s)" "p \<notin> L" "aligned k b" "b \<in> held (vm s)"
    and i: "initial_stack (stacks s p) \<longleftrightarrow> b = initial_segment k sp"
    and L: "\<forall>q \<in> L. seated (held (vm s)) k sp s q \<and> segment s q \<noteq> b"
    and d: "initial_stack_deallocated s \<noteq> 0 \<longrightarrow> (\<forall>q \<in> insert p L. \<not> initial_stack (stacks s q))"
    and u: "setup_stack e p b s = Some s'"
  shows "stacks_ok held k sp (insert p L) s'"
proof -
  obtain ok kk where pr: "vm_protect_none e (b + page_size e) (page_size e) (vm s) = (ok, kk)" by fastforce
  with u have ok: "ok" by (cases ok) (auto simp: setup_stack_def Let_def)
  with v pr have h: "held kk = held (vm s)" by (simp add: vm_tracks_def)
  have s': "stacks s' = (stacks s)(p := (stacks s p)\<lparr>stack_base := b + 2 * page_size e,
        stack_size := (if initial_stack (stacks s p) then initial_stack_boundary s - (b + 2 * page_size e)
                       else cthread_stack_size s - 2 * page_size e)\<rparr>)"
    "vm s' = kk" "self_word s' = (self_word s)(b := p)" "cthread_stack_mask s' = cthread_stack_mask s"
    "cthread_stack_size s' = cthread_stack_size s" "next_stack_base s' = next_stack_base s"
    "initial_stack_boundary s' = initial_stack_boundary s" "initial_stack_lock s' = initial_stack_lock s"
    "initial_stack_deallocated s' = initial_stack_deallocated s"
    using u pr ok by (auto simp: setup_stack_def Let_def)
  have "segment s' p = b"
    using z c segment_of [of k b "2 * page_size e"] s' by (simp add: segment_def sized_def)
  then have p: "seated (held (vm s')) k sp s' p" using z i s' h by (simp add: seated_def)
  have q: "seated (held (vm s')) k sp s' q" if "q \<in> L" for q
  proof -
    have "q \<noteq> p" and Q: "seated (held (vm s)) k sp s q" and "segment s q \<noteq> b" using that L z(3) by auto
    then show ?thesis using seated_held [OF Q] s' h by (intro seated_cong [OF Q]) simp_all
  qed
  have "sized k sp s'" using z s' by (simp add: sized_def)
  then show ?thesis using z s' p q d h by (simp add: stacks_ok_def)
qed

lemma alloc_segment_gives:
  fixes kk :: "'k"
  assumes "alloc_segment e sz b kk = Some r" and "sz = 2 ^ k" and "vm_tracks e held" and "k < 32" and "aligned k b"
    and "page_size e = 2 ^ j" and j: "j < k"
  shows "aligned k (fst r) \<and> fst r \<notin> held kk \<and> held (snd r) = held kk \<union> span (fst r) sz"
proof -
  let ?P = "\<lambda>e sz b kk r. sz = 2 ^ k \<longrightarrow> vm_tracks e held \<longrightarrow> page_size e = 2 ^ j \<longrightarrow> aligned k b
      \<longrightarrow> aligned k (fst r) \<and> fst r \<notin> held kk \<and> held (snd r) = held kk \<union> span (fst r) sz"
  have "?P e sz b kk r"
  proof (rule alloc_segment.raw_induct [where P = ?P, OF _ assms(1)], intro impI)
    fix f :: "'k stack_env \<Rightarrow> addr \<Rightarrow> addr \<Rightarrow> 'k \<Rightarrow> (addr \<times> 'k) option" and e sz b kk r
    assume IH: "\<And>e sz b kk r. f e sz b kk = Some r \<Longrightarrow> ?P e sz b kk r"
      and f: "(case vm_allocate_at e b sz kk of (ok, k1) \<Rightarrow> if ok then Some (b, k1) else f e sz (b + sz) k1) = Some r"
      and z: "sz = 2 ^ k" and v: "vm_tracks e held" and pg: "page_size e = 2 ^ j" and al: "aligned k b"
    obtain ok k1 where a: "vm_allocate_at e b sz kk = (ok, k1)" by fastforce
    show "aligned k (fst r) \<and> fst r \<notin> held kk \<and> held (snd r) = held kk \<union> span (fst r) sz"
    proof (cases ok)
      case True
      with f a have r: "r = (b, k1)" by simp
      have g: "pages e b sz" using segment_pages [OF pg _ assms(4) al] j z by simp
      have "span b sz \<inter> held kk = {} \<and> held k1 = held kk \<union> span b sz"
        using vm_allocate_held [OF v _ g, of kk k1] True a by simp
      then show ?thesis using al r span_start [of sz b] g by (auto simp: pages_def)
    next
      case False
      with f a have "f e sz (b + sz) k1 = Some r" by simp
      moreover have "held k1 = held kk" using vm_allocate_refused [OF v, of b sz kk k1] False a by simp
      moreover have "aligned k (b + sz)" using al z by (simp add: aligned_add)
      ultimately show ?thesis using IH z v pg by metis
    qed
  qed
  then show ?thesis using assms by blast
qed

lemma normal_alloc_ok:
  assumes v: "vm_tracks e held" and c: "k < 32" "2 * page_size e < 2 ^ k" and j: "page_size e = 2 ^ j" "j < k"
    and o: "stacks_ok held k sp L s" and p: "p \<notin> L" "\<not> initial_stack (stacks s p)"
    and u: "normal_alloc_stack e p s = Some s'"
  shows "stacks_ok held k sp (insert p L) s'"
proof -
  have z: "cthread_stack_size s = 2 ^ k" "aligned k (next_stack_base s)" using o by (auto simp: stacks_ok_def sized_def)
  obtain b kk where a: "alloc_segment e (2 ^ k) (next_stack_base s) (vm s) = Some (b, kk)"
    using u z by (auto simp: normal_alloc_stack_def split: option.splits)
  have n: "(2 :: addr) ^ k \<noteq> 0" using c(1) by simp
  have g: "aligned k b" "b \<notin> held (vm s)" "held (vm s) \<subseteq> held kk" "b \<in> held kk"
    using alloc_segment_gives [OF a refl v c(1) z(2) j] span_start [OF n, of b] by auto
  let ?s = "s\<lparr>vm := kk, next_stack_base := b + 2 ^ k\<rparr>"
  have sg: "segment ?s q = segment s q" for q by (simp add: segment_def)
  have L: "\<forall>q \<in> L. seated (held (vm ?s)) k sp ?s q \<and> segment ?s q \<noteq> b"
  proof
    fix q
    assume "q \<in> L"
    with o have q: "seated (held (vm s)) k sp s q" by (simp add: stacks_ok_def)
    then have "seated (held (vm ?s)) k sp ?s q" using g by (rule_tac seated_cong [OF q]) (auto dest: seated_held)
    then show "seated (held (vm ?s)) k sp ?s q \<and> segment ?s q \<noteq> b" using seated_held [OF q] g sg by auto
  qed
  show ?thesis
  proof (rule setup_stack_ok [OF v c _ _ p(1) _ _ _ L])
    show "setup_stack e p b ?s = Some s'" using u a z by (simp add: normal_alloc_stack_def)
  qed (use o g p aligned_add [of k b] in \<open>auto simp: stacks_ok_def sized_def\<close>)
qed

lemma reuse_initial_ok:
  assumes v: "vm_tracks e held" and j: "page_size e = 2 ^ j" "j < k" and c: "k < 32" "2 * page_size e < 2 ^ k"
      "sp AND NOT (page_size e - 1) \<noteq> initial_segment k sp"
    and o: "stacks_ok held k sp L s" and p: "p \<notin> L" "\<forall>q \<in> L. \<not> initial_stack (stacks s q)"
      "initial_stack_deallocated s = 0"
    and u: "reuse_initial_stack e p s = Some s'"
  shows "stacks_ok held k sp (insert p L) s'"
proof -
  let ?b = "initial_segment k sp" and ?s = "upd_stack p (\<lambda>c. c\<lparr>initial_stack := True\<rparr>) s"
  let ?n = "(sp AND NOT (page_size e - 1)) - ?b"
  have n: "?n \<noteq> 0" using c(3) by simp
  have z: "sp AND cthread_stack_mask s = ?b" "initial_stack_boundary s = sp"
    using o by (auto simp: stacks_ok_def sized_def initial_segment_def)
  obtain k1 k2 where d: "vm_deallocate e ?b ?n (vm s) = (True, k1)" "vm_allocate_at e ?b ?n k1 = (True, k2)"
    and t: "setup_stack e p ?b (?s\<lparr>vm := k2\<rparr>) = Some s'"
    using u z by (auto simp: reuse_initial_stack_def Let_def split: prod.splits if_splits)
  have g: "pages e ?b ?n" using initial_part [OF j c(1) refl n] by simp
  have "held k1 = held (vm s) - span ?b ?n" by (rule vm_deallocate_held [OF v d(1) g])
  moreover have "held k2 = held k1 \<union> span ?b ?n" using vm_allocate_held [OF v d(2) g] by simp
  ultimately have h: "held (vm s) \<subseteq> held k2" by auto
  let ?t = "?s\<lparr>vm := k2\<rparr>"
  have L: "\<forall>q \<in> L. seated (held (vm ?t)) k sp ?t q \<and> segment ?t q \<noteq> ?b"
  proof
    fix q
    assume "q \<in> L"
    with o p have q: "seated (held (vm s)) k sp s q" "q \<noteq> p" "\<not> initial_stack (stacks s q)"
      by (auto simp: stacks_ok_def)
    have sg: "segment ?t q = segment s q" using q(2) by (simp add: segment_def)
    have "seated (held (vm ?t)) k sp ?t q"
      using q(2) subsetD [OF h seated_held [OF q(1)]] by (intro seated_cong [OF q(1)]) simp_all
    then show "seated (held (vm ?t)) k sp ?t q \<and> segment ?t q \<noteq> ?b" using q sg by (simp add: seated_def)
  qed
  show ?thesis
    by (rule setup_stack_ok [OF v c(1,2) _ _ p(1) _ _ _ L _ t])
      (use o subsetD [OF h] p(3) aligned_masked [of k sp] in \<open>simp_all add: stacks_ok_def sized_def initial_segment_def\<close>)
qed

lemma stacks_ok_upd: "stacks_ok held k sp L s \<Longrightarrow> p \<notin> L \<Longrightarrow> stacks_ok held k sp L (upd_stack p f s)"
  unfolding stacks_ok_def seated_def sized_def segment_def by auto

lemma alloc_stack_ok:
  assumes v: "vm_tracks e held" and j: "page_size e = 2 ^ j" "j < k" and c: "k < 32" "2 * page_size e < 2 ^ k"
      "sp AND NOT (page_size e - 1) \<noteq> initial_segment k sp"
    and o: "stacks_ok held k sp L s" and p: "p \<notin> L" "\<not> initial_stack (stacks s p)"
    and u: "alloc_stack e p s = Some s'"
  shows "stacks_ok held k sp (insert p L) s'"
proof (cases "initial_stack_deallocated s = 0")
  case True
  with u have "normal_alloc_stack e p s = Some s'" by (simp add: alloc_stack_def)
  then show ?thesis by (rule normal_alloc_ok [OF v c(1,2) j o p])
next
  case False
  let ?s = "s\<lparr>initial_stack_deallocated := 0, initial_stack_lock := 0\<rparr>"
  have "initial_stack_lock s = 0" using o by (simp add: stacks_ok_def sized_def)
  with u False have r: "reuse_initial_stack e p ?s = Some s'"
    by (simp add: alloc_stack_def)
  have i: "\<forall>q \<in> L. \<not> initial_stack (stacks ?s q)" using o False by (auto simp: stacks_ok_def)
  have "stacks_ok held k sp L ?s" using o unfolding stacks_ok_def seated_def sized_def segment_def by auto
  then show ?thesis using reuse_initial_ok [OF v j c _ p(1) i _ r] by simp
qed

lemma dealloc_stack_ok:
  assumes v: "vm_tracks e held" and j: "page_size e = 2 ^ j" "j < k" and c: "k < 32"
    and o: "stacks_ok held k sp L s" and p: "p \<in> L" and u: "dealloc_stack e p s = Some s'"
  shows "stacks_ok held k sp (L - {p}) s'"
proof -
  have P: "seated (held (vm s)) k sp s p" using o p by (simp add: stacks_ok_def)
  have q: "seated (held (vm s)) k sp s q \<and> segment s q \<noteq> segment s p" if "q \<in> L - {p}" for q
    using o that P seated_segment_inj [of "held (vm s)" k sp s] by (auto simp: stacks_ok_def)
  show ?thesis
  proof (cases "initial_stack (stacks s p)")
    case True
    with u have s': "s' = s\<lparr>initial_stack_deallocated := stack_base (stacks s p)\<rparr>" by (simp add: dealloc_stack_def)
    have "\<not> initial_stack (stacks s r) \<and> seated (held (vm s')) k sp s' r" if "r \<in> L - {p}" for r
    proof -
      have "seated (held (vm s')) k sp s' r" using seated_held [OF conjunct1 [OF q [OF that]]] s'
        by (intro seated_cong [OF conjunct1 [OF q [OF that]]]) simp_all
      then show ?thesis using q [OF that] True P by (auto simp: seated_def)
    qed
    then show ?thesis using o s' by (simp add: stacks_ok_def sized_def)
  next
    case False
    have z: "cthread_stack_size s = 2 ^ k" "(2 :: addr) ^ k \<noteq> 0" using o c by (auto simp: stacks_ok_def sized_def)
    with u False obtain kk where d: "vm_deallocate e (segment s p) (2 ^ k) (vm s) = (True, kk)" and s': "s' = s\<lparr>vm := kk\<rparr>"
      by (auto simp: dealloc_stack_def segment_def split: prod.splits if_splits)
    have al: "aligned k (segment s p)" using P by (simp add: seated_def)
    have h: "held kk = held (vm s) - span (segment s p) (2 ^ k)"
      using vm_deallocate_held [OF v d] segment_pages [OF j(1) _ c al] j(2) by simp
    have keep: "b \<in> held kk" if "b \<in> held (vm s)" "aligned k b" "b \<noteq> segment s p" for b
    proof -
      have "unat ((2 :: addr) ^ k) \<le> 2 ^ k" using unat_of_nat [where ?'a = 32, of "2 ^ k"] by simp
      then show ?thesis using that h span_segment [OF al c _ _ that(2)] by auto
    qed
    have "seated (held (vm s')) k sp s' r" if "r \<in> L - {p}" for r
      using seated_held [OF conjunct1 [OF q [OF that]]] q [OF that] s' keep
      by (intro seated_cong [OF conjunct1 [OF q [OF that]]]) (simp_all add: seated_def)
    moreover have "initial_segment k sp \<in> held kk"
      using o P False aligned_masked [of k sp] by (intro keep) (auto simp: stacks_ok_def seated_def initial_segment_def)
    ultimately show ?thesis using o False P s' by (auto simp: stacks_ok_def sized_def seated_def)
  qed
qed

lemma stack_init_ok:
  assumes v: "vm_tracks e held" and c: "stack_config e k sp" and u: "stack_init e sp p st = Some s"
    and i: "initial_stack_lock st = 0" "initial_stack_deallocated st = 0" "initial_segment k sp \<in> held (vm st)"
  shows "stacks_ok held k sp {p} s"
proof -
  obtain r where r: "getrlimit e = Some r" "BYTES_TO_PAGES e r * page_size e = 2 ^ k" "k < 32"
      "2 * page_size e < 2 ^ k"
    using c by (auto simp: stack_config_def)
  let ?s = "upd_stack p (\<lambda>c. c\<lparr>initial_stack := True\<rparr>) (st\<lparr>cthread_stack_size := 2 ^ k,
      cthread_stack_mask := NOT (2 ^ k - 1), next_stack_base := (cthread_stack_base e + 2 ^ k - 1) AND NOT (2 ^ k - 1),
      initial_stack_boundary := sp\<rparr>)"
  have "setup_stack e p (initial_segment k sp) ?s = Some s"
    using u r by (simp add: stack_init_def Let_def initial_segment_def)
  then show ?thesis
    by (rule_tac setup_stack_ok [OF v r(3,4), of sp ?s p "{}"])
      (use i aligned_masked in \<open>simp_all add: sized_def initial_segment_def\<close>)
qed

lemma stack_reach_ok:
  assumes "stack_reach e sp st L s" and v: "vm_tracks e held" and c: "stack_config e k sp"
    and i: "initial_stack_lock st = 0" "initial_stack_deallocated st = 0" "initial_segment k sp \<in> held (vm st)"
  shows "stacks_ok held k sp L s"
proof -
  obtain j where j: "page_size e = 2 ^ j" "j < k" using c by (auto simp: stack_config_def)
  show ?thesis using assms(1)
  proof induction
    case (init p s)
    then show ?case by (rule stack_init_ok [OF v c _ i])
  next
    case (alloc L s p s')
    have "stacks_ok held k sp L (upd_stack p (\<lambda>c. c\<lparr>initial_stack := False\<rparr>) s)"
      using alloc by (intro stacks_ok_upd)
    then show ?case using alloc(2,3) c j by (intro alloc_stack_ok [OF v j]) (auto simp: stack_config_def initial_segment_def)
  next
    case (dealloc L s p s')
    then show ?case using c by (intro dealloc_stack_ok [OF v j]) (auto simp: stack_config_def)
  next
    case (fork L s)
    have "sized k sp (stack_fork_child e s)"
      using fork aligned_masked [of k "cthread_stack_base e + 2 ^ k - 1"]
      by (simp add: stacks_ok_def sized_def stack_fork_child_def)
    moreover have "seated H k sp (stack_fork_child e s) p = seated H k sp s p" for H p
      by (simp add: seated_def segment_def stack_fork_child_def)
    ultimately show ?case using fork by (simp add: stacks_ok_def stack_fork_child_def)
  qed
qed

text \<open>
  (C20) \<^bold>\<open>Every cproc finds itself\<close>: in every run of stack initialisation, allocation, deallocation
  and \<open>fork\<close>, on a kernel whose \<open>vm_allocate\<close> and \<open>vm_deallocate\<close> give out free pages and take back
  the pages named (\<open>vm_tracks\<close>), and with a stack limit that rounds to a power of two
  (\<open>stack_config\<close>), the search from any address in the segment of a cproc that has a stack returns
  that cproc.
\<close>

theorem cproc_finds_itself:
  assumes "stack_reach e sp st L s" and "vm_tracks e held" and "stack_config e k sp"
    and "initial_stack_lock st = 0" and "initial_stack_deallocated st = 0"
    and "initial_segment k sp \<in> held (vm st)" and "p \<in> L" and "off < 2 ^ k"
  shows "ur_cthread_self (segment s p + off) s = p"
proof -
  have o: "stacks_ok held k sp L s" by (rule stack_reach_ok [OF assms(1-6)])
  have "k < 32" using assms(3) by (simp add: stack_config_def)
  moreover have "aligned k (segment s p)" "self_word s (segment s p) = p" "cthread_stack_mask s = NOT (2 ^ k - 1)"
    using o assms(7) by (auto simp: stacks_ok_def seated_def sized_def)
  ultimately show ?thesis using segment_of [of k "segment s p" off] assms(8) by (simp add: ur_cthread_self_def)
qed

text \<open>A kernel that keeps the set of the allocated addresses; at the start a page at 0 and the top of the memory are in use.\<close>

definition set_kernel :: "addr set stack_env" where
  "set_kernel = \<lparr>page_size = 0x1000, cthread_stack_base = 0, getrlimit = Some 0xFF00,
     vm_allocate_at = (\<lambda>b n k. if span b n \<inter> k = {} then (True, k \<union> span b n) else (False, k)),
     vm_deallocate = (\<lambda>b n k. (True, k - span b n)), vm_protect_none = (\<lambda>b n k. (True, k))\<rparr>"

definition stack_start :: "addr set stack_state" where
  "stack_start = \<lparr>cthread_stack_mask = 0, cthread_stack_size = 0, next_stack_base = 0, initial_stack_boundary = 0,
     initial_stack_deallocated = 0, initial_stack_lock = 0, self_word = (\<lambda>_. 0),
     stacks = (\<lambda>_. \<lparr>stack_base = 0, stack_size = 0, initial_stack = False\<rparr>), vm = span 0 0x1000 \<union> span 0x7FFF0000 0x10000\<rparr>"

definition stack_run :: "addr set stack_state option" where
  "stack_run = Option.bind (stack_init set_kernel 0x7FFFE123 1 stack_start) (alloc_stack set_kernel 2)"

lemma set_kernel_tracks: "vm_tracks set_kernel id"
  by (auto simp: vm_tracks_def set_kernel_def split: if_splits)

lemma set_kernel_config: "stack_config set_kernel 16 0x7FFFE123"
proof -
  have "(2 :: addr) ^ 12 = 0x1000" by simp
  then have "\<exists>j < 16. page_size set_kernel = 2 ^ j" by (intro exI [of _ 12]) (simp add: set_kernel_def)
  then show ?thesis by (simp add: stack_config_def set_kernel_def BYTES_TO_PAGES_def initial_segment_def)
qed

text \<open>The first segment, at 0, is refused and the second is given out.\<close>

lemma set_kernel_segments:
  assumes "sz = 0x10000 \<or> sz = 0x3000"
  shows "span 0 sz \<inter> vm stack_start \<noteq> {}" and "span sz sz \<inter> vm stack_start = {}"
proof -
  have "0 \<in> span 0 sz \<inter> vm stack_start" using assms by (auto simp: span_def stack_start_def)
  then show "span 0 sz \<inter> vm stack_start \<noteq> {}" by blast
  show "span sz sz \<inter> vm stack_start = {}" using assms by (auto simp: span_def stack_start_def)
qed

theorem cproc_finds_itself_witness:
  "\<exists>s. stack_run = Some s \<and> segment s 2 = 0x10000 \<and> ur_cthread_self (segment s 2 + 0x8765) s = 2"
proof -
  obtain s0 where i: "stack_init set_kernel 0x7FFFE123 1 stack_start = Some s0" and f: "\<not> initial_stack (stacks s0 2)"
    and n: "next_stack_base s0 = 0" "cthread_stack_size s0 = 0x10000" "vm s0 = vm stack_start" "initial_stack_deallocated s0 = 0"
      "cthread_stack_mask s0 = NOT 0xFFFF"
    by (simp add: stack_init_def set_kernel_def stack_start_def BYTES_TO_PAGES_def setup_stack_def Let_def upd_stack_def)
  have u: "upd_stack 2 (\<lambda>c. c\<lparr>initial_stack := False\<rparr>) s0 = s0"
    using f by (simp add: upd_stack_def fun_upd_def fun_eq_iff)
  have "alloc_segment set_kernel 0x10000 0 (vm stack_start) = Some (0x10000, vm stack_start \<union> span 0x10000 0x10000)"
    using set_kernel_segments [of "0x10000"] by (simp add: alloc_segment.simps set_kernel_def)
  then obtain s where a: "alloc_stack set_kernel 2 s0 = Some s" and g: "segment s 2 = 0x10000"
    using n by (simp add: alloc_stack_def normal_alloc_stack_def setup_stack_def Let_def segment_def)
      (simp add: set_kernel_def)
  have r: "stack_run = Some s" using i a by (simp add: stack_run_def)
  have "stack_reach set_kernel 0x7FFFE123 stack_start {2, 1} s"
    using stack_reach.alloc [OF stack_reach.init [OF i], of 2 s] u a by simp
  moreover have "initial_segment 16 0x7FFFE123 \<in> id (vm stack_start)"
    by (simp add: stack_start_def initial_segment_def span_def)
  ultimately have "ur_cthread_self (segment s 2 + 0x8765) s = 2"
    using cproc_finds_itself [OF _ set_kernel_tracks set_kernel_config, of stack_start "{2, 1}" s 2 "0x8765"]
    by (simp add: stack_start_def)
  with r g show ?thesis by blast
qed

text \<open>
  \<^bold>\<open>The search for a segment ends at the first free one\<close>: if a segment at a multiple of the
  stack size after the starting point is free, the loop returns, and with the first such segment.
\<close>

theorem alloc_segment_first_free:
  assumes v: "vm_tracks e held" and give: "\<And>b k. span b sz \<inter> held k = {} \<Longrightarrow> fst (vm_allocate_at e b sz k)"
    and p: "\<And>i. pages e (b + of_nat i * sz) sz"
    and "span (b + of_nat n * sz) sz \<inter> held k = {}" and "\<And>i. i < n \<Longrightarrow> span (b + of_nat i * sz) sz \<inter> held k \<noteq> {}"
  shows "\<exists>k'. alloc_segment e sz b k = Some (b + of_nat n * sz, k') \<and> held k' = held k \<union> span (b + of_nat n * sz) sz"
  using assms(3-5)
proof (induction n arbitrary: b k)
  case 0
  obtain ok k1 where a: "vm_allocate_at e b sz k = (ok, k1)" by fastforce
  have ok: "ok" using give [of b k] 0(2) a by simp
  have "held k1 = held k \<union> span b sz" using vm_allocate_held [OF v, of b sz k k1] 0(1) [of 0] a ok by simp
  with a ok show ?case by (simp add: alloc_segment.simps)
next
  case (Suc n)
  obtain ok k1 where a: "vm_allocate_at e b sz k = (ok, k1)" by fastforce
  have "span b sz \<inter> held k \<noteq> {}" using Suc.prems(3) [of 0] by simp
  then have ok: "\<not> ok" using vm_allocate_held [OF v, of b sz k k1] a Suc.prems(1) [of 0] by (cases ok) auto
  then have h: "held k1 = held k" using vm_allocate_refused [OF v, of b sz k k1] a by simp
  have e: "b + sz + of_nat i * sz = b + of_nat (Suc i) * sz" for i by (simp add: algebra_simps)
  have "alloc_segment e sz b k = alloc_segment e sz (b + sz) k1"
    using a ok by (subst alloc_segment.simps) simp
  then show ?case using Suc.IH [of "b + sz" k1] Suc.prems unfolding e h by (metis Suc_less_eq)
qed

text \<open>
  The assumption on the stack limit is needed: the code rounds it to pages and not to a power of
  two.  With three pages the mask is no mask, and an address in the middle of the segment at
  0x3000 (a multiple of the size, as \<open>next_stack_base\<close> gives) leads elsewhere.
\<close>

lemma stack_mask_needs_power_of_two:
  "\<exists>s. Option.bind (stack_init (set_kernel\<lparr>getrlimit := Some 0x3000\<rparr>) 0x7FFFE123 1 stack_start)
        (alloc_stack (set_kernel\<lparr>getrlimit := Some 0x3000\<rparr>) 2) = Some s
    \<and> self_word s 0x3000 = 2 \<and> cthread_stack_size s = 0x3000 \<and> ur_cthread_self (0x3000 + 0x1000) s \<noteq> 2"
proof -
  let ?e = "set_kernel\<lparr>getrlimit := Some 0x3000\<rparr>"
  obtain s0 where i: "stack_init ?e 0x7FFFE123 1 stack_start = Some s0"
    and n: "next_stack_base s0 = 0" "cthread_stack_size s0 = 0x3000" "vm s0 = vm stack_start" "initial_stack_deallocated s0 = 0"
      "cthread_stack_mask s0 = NOT 0x2FFF" "self_word s0 0x4000 = 0"
    by (simp add: stack_init_def set_kernel_def stack_start_def BYTES_TO_PAGES_def setup_stack_def Let_def upd_stack_def)
  have "alloc_segment ?e 0x3000 0 (vm stack_start) = Some (0x3000, vm stack_start \<union> span 0x3000 0x3000)"
    using set_kernel_segments [of "0x3000"] by (simp add: alloc_segment.simps set_kernel_def)
  then show ?thesis
    using i n by (simp add: alloc_stack_def normal_alloc_stack_def setup_stack_def Let_def ur_cthread_self_def)
      (simp add: set_kernel_def)
qed

end
