(* ===== verification/Cthread_Queue.thy ===== *)
theory Cthread_Queue
  imports Mach_Prelude
begin

text \<open>
  The singly linked queues of the C Threads package (the macros
  \<open>cthread_queue_init\<close>, \<open>cthread_queue_enq\<close>, \<open>cthread_queue_preq\<close>,
  \<open>cthread_queue_head\<close> and \<open>cthread_queue_deq\<close> of
  \<open>mach/mach_include/cthreads.h\<close>).  A queue is a pair of pointers; the links are the
  \<open>next\<close> fields of the queued objects, a function from pointers to pointers that every
  queue of the program shares.  The locale \<open>linked_queue\<close> is the interface the clients of
  an intrusive queue rely on; it is interpreted here for the C Threads macros and in
  \<open>Net_Ifqueue\<close> for the interface queues of the kernel.
\<close>

section \<open>The interface of an intrusive queue\<close>

text \<open>
  \<open>rep nx q xs\<close>: with the links \<open>nx\<close>, the queue \<open>q\<close> holds the objects \<open>xs\<close>,
  first to leave first.
\<close>

fun enq_all :: "('h \<Rightarrow> 'q \<Rightarrow> ptr \<Rightarrow> 'h \<times> 'q) \<Rightarrow> 'h \<Rightarrow> 'q \<Rightarrow> ptr list \<Rightarrow> 'h \<times> 'q" where
  "enq_all enq nx q [] = (nx, q)"
| "enq_all enq nx q (x # xs) = (case enq nx q x of (nx', q') \<Rightarrow> enq_all enq nx' q' xs)"

fun drain :: "('h \<Rightarrow> 'q \<Rightarrow> 'h \<times> 'q \<times> ptr) \<Rightarrow> nat \<Rightarrow> 'h \<Rightarrow> 'q \<Rightarrow> ptr list" where
  "drain deq 0 nx q = []"
| "drain deq (Suc n) nx q = (case deq nx q of (nx', q', x) \<Rightarrow>
     if x = 0 then [] else x # drain deq n nx' q')"

locale linked_queue =
  fixes rep :: "(ptr \<Rightarrow> ptr) \<Rightarrow> 'q \<Rightarrow> ptr list \<Rightarrow> bool"
    and enq :: "(ptr \<Rightarrow> ptr) \<Rightarrow> 'q \<Rightarrow> ptr \<Rightarrow> (ptr \<Rightarrow> ptr) \<times> 'q"
    and deq :: "(ptr \<Rightarrow> ptr) \<Rightarrow> 'q \<Rightarrow> (ptr \<Rightarrow> ptr) \<times> 'q \<times> ptr"
  assumes rep_members: "rep nx q xs \<Longrightarrow> distinct xs \<and> 0 \<notin> set xs"
    and rep_fun: "rep nx q xs \<Longrightarrow> rep nx q ys \<Longrightarrow> xs = ys"
    and rep_cong: "rep nx q xs \<Longrightarrow> \<forall>y \<in> set xs. nx' y = nx y \<Longrightarrow> rep nx' q xs"
    and enq_rep: "rep nx q xs \<Longrightarrow> x \<noteq> 0 \<Longrightarrow> x \<notin> set xs \<Longrightarrow> enq nx q x = (nx', q')
      \<Longrightarrow> rep nx' q' (xs @ [x])"
    and enq_frame: "rep nx q xs \<Longrightarrow> enq nx q x = (nx', q') \<Longrightarrow> y \<noteq> x \<Longrightarrow> y \<notin> set xs
      \<Longrightarrow> nx' y = nx y"
    and deq_empty: "rep nx q [] \<Longrightarrow> deq nx q = (nx, q, 0)"
    and deq_rep: "rep nx q (x # xs) \<Longrightarrow> deq nx q = (nx', q', y) \<Longrightarrow> rep nx' q' xs \<and> y = x"
    and deq_frame: "rep nx q xs \<Longrightarrow> deq nx q = (nx', q', x) \<Longrightarrow> y \<notin> set xs \<Longrightarrow> nx' y = nx y"
begin

lemma enq_other:
  assumes "rep nx q xs" and "rep nx r ys" and "set xs \<inter> set ys = {}" and "x \<notin> set ys"
    and "enq nx q x = (nx', q')"
  shows "rep nx' r ys"
proof (rule rep_cong [OF assms(2)])
  show "\<forall>y \<in> set ys. nx' y = nx y"
  proof
    fix y
    assume "y \<in> set ys"
    with assms(3,4) have "y \<noteq> x" and "y \<notin> set xs" by auto
    then show "nx' y = nx y" by (rule enq_frame [OF assms(1,5)])
  qed
qed

lemma deq_other:
  assumes "rep nx q xs" and "rep nx r ys" and "set xs \<inter> set ys = {}"
    and "deq nx q = (nx', q', x)"
  shows "rep nx' r ys"
proof (rule rep_cong [OF assms(2)])
  show "\<forall>y \<in> set ys. nx' y = nx y"
  proof
    fix y
    assume "y \<in> set ys"
    with assms(3) have "y \<notin> set xs" by auto
    then show "nx' y = nx y" by (rule deq_frame [OF assms(1,4)])
  qed
qed

lemma deq_null_iff:
  assumes "rep nx q xs" and "deq nx q = (nx', q', x)"
  shows "x = 0 \<longleftrightarrow> xs = []"
proof (cases xs)
  case Nil
  with assms show ?thesis by (simp add: deq_empty)
next
  case (Cons y ys)
  with assms have "x = y" by (auto dest: deq_rep)
  moreover from assms(1) Cons have "y \<noteq> 0" by (auto dest: rep_members)
  ultimately show ?thesis using Cons by simp
qed

lemma enq_all_rep:
  assumes "rep nx q xs" and "distinct (xs @ ys)" and "0 \<notin> set ys"
    and "enq_all enq nx q ys = (nx', q')"
  shows "rep nx' q' (xs @ ys)"
  using assms
proof (induction ys arbitrary: nx q xs)
  case Nil
  then show ?case by simp
next
  case (Cons y ys)
  obtain nx1 q1 where e: "enq nx q y = (nx1, q1)" by fastforce
  with Cons.prems have "rep nx1 q1 (xs @ [y])" by (intro enq_rep) auto
  from Cons.IH [OF this] Cons.prems e show ?case by simp
qed

lemma drain_rep: "rep nx q xs \<Longrightarrow> length xs \<le> n \<Longrightarrow> drain deq n nx q = xs"
proof (induction n arbitrary: nx q xs)
  case 0
  then show ?case by simp
next
  case (Suc n)
  obtain nx1 q1 x where d: "deq nx q = (nx1, q1, x)" using prod_cases3 by blast
  show ?case
  proof (cases xs)
    case Nil
    with Suc.prems show ?thesis by (simp add: deq_empty)
  next
    case (Cons y ys)
    with Suc.prems(1) d have "rep nx1 q1 ys" "x = y" by (auto dest: deq_rep)
    moreover from Suc.prems(1) Cons have "y \<noteq> 0" by (auto dest: rep_members)
    ultimately show ?thesis using Suc Cons d by simp
  qed
qed

text \<open>What was put in comes out in the same order, after what was there before.\<close>

lemma fifo:
  assumes "rep nx q xs" and "distinct (xs @ ys)" and "0 \<notin> set ys"
    and "enq_all enq nx q ys = (nx', q')" and "length (xs @ ys) \<le> n"
  shows "drain deq n nx' q' = xs @ ys"
  using assms by (intro drain_rep enq_all_rep)

end

section \<open>The queues of cthreads.h\<close>

record cthread_queue =
  cq_head :: ptr
  cq_tail :: ptr

definition cthread_queue_init :: "cthread_queue \<Rightarrow> cthread_queue" where
  "cthread_queue_init q = q\<lparr>cq_head := 0, cq_tail := 0\<rparr>"

definition QUEUE_INITIALIZER :: cthread_queue where
  "QUEUE_INITIALIZER = \<lparr>cq_head = 0, cq_tail = 0\<rparr>"

definition cthread_queue_enq ::
  "(ptr \<Rightarrow> ptr) \<Rightarrow> cthread_queue \<Rightarrow> ptr \<Rightarrow> (ptr \<Rightarrow> ptr) \<times> cthread_queue" where
  [step_defs]: "cthread_queue_enq nx q x =
     (let nx1 = nx(x := 0) in
      if cq_tail q = 0
      then (nx1, q\<lparr>cq_head := x, cq_tail := x\<rparr>)
      else (nx1(cq_tail q := x), q\<lparr>cq_tail := x\<rparr>))"

definition cthread_queue_preq ::
  "(ptr \<Rightarrow> ptr) \<Rightarrow> cthread_queue \<Rightarrow> ptr \<Rightarrow> (ptr \<Rightarrow> ptr) \<times> cthread_queue" where
  [step_defs]: "cthread_queue_preq nx q x =
     (let q1 = (if cq_tail q = 0 then q\<lparr>cq_tail := x\<rparr> else q)
      in (nx(x := cq_head q1), q1\<lparr>cq_head := x\<rparr>))"

definition cthread_queue_head :: "cthread_queue \<Rightarrow> ptr" where
  "cthread_queue_head q = cq_head q"

definition cthread_queue_deq ::
  "(ptr \<Rightarrow> ptr) \<Rightarrow> cthread_queue \<Rightarrow> cthread_queue \<times> ptr" where
  [step_defs]: "cthread_queue_deq nx q =
     (let x = cq_head q in
      if x \<noteq> 0 then
        (let q1 = q\<lparr>cq_head := nx x\<rparr> in
         (if nx x = 0 then q1\<lparr>cq_tail := 0\<rparr> else q1, x))
      else (q, x))"

text \<open>The representation predicate: a chain from the head whose last node is the tail.\<close>

definition queue_rep :: "(ptr \<Rightarrow> ptr) \<Rightarrow> cthread_queue \<Rightarrow> ptr list \<Rightarrow> bool" where
  "queue_rep nx q xs \<longleftrightarrow>
     chain nx (cq_head q) xs \<and> cq_tail q = (if xs = [] then 0 else last xs)"

lemma queue_rep_empty [simp]: "queue_rep nx QUEUE_INITIALIZER []"
  by (simp add: queue_rep_def QUEUE_INITIALIZER_def)

lemma queue_rep_init [simp]: "queue_rep nx (cthread_queue_init q) []"
  by (simp add: queue_rep_def cthread_queue_init_def)

lemma queue_rep_Nil_iff: "queue_rep nx q [] \<longleftrightarrow> cq_head q = 0 \<and> cq_tail q = 0"
  by (simp add: queue_rep_def)

lemma queue_rep_head: "queue_rep nx q xs \<Longrightarrow> cthread_queue_head q = (if xs = [] then 0 else hd xs)"
  by (cases xs) (auto simp: queue_rep_def cthread_queue_head_def)

lemma queue_rep_enq:
  assumes r: "queue_rep nx q xs" and "x \<noteq> 0" and n: "x \<notin> set xs"
    and e: "cthread_queue_enq nx q x = (nx', q')"
  shows "queue_rep nx' q' (xs @ [x])"
proof (cases "xs = []")
  case True
  with assms show ?thesis by (auto simp: queue_rep_def cthread_queue_enq_def)
next
  case False
  with r have t: "cq_tail q = last xs" "cq_tail q \<noteq> 0" and c: "chain nx (cq_head q) xs"
    by (auto simp: queue_rep_def dest: chain_last)
  from chain_snoc [OF c False assms(2,3)] t e
  show ?thesis by (auto simp: queue_rep_def cthread_queue_enq_def Let_def)
qed

lemma queue_enq_frame:
  assumes "queue_rep nx q xs" and "cthread_queue_enq nx q x = (nx', q')"
    and "y \<noteq> x" and "y \<notin> set xs"
  shows "nx' y = nx y"
proof -
  have "cq_tail q = 0 \<or> cq_tail q \<in> set xs"
    using assms(1) by (auto simp: queue_rep_def split: if_splits)
  with assms(2-4) show ?thesis
    by (auto simp: cthread_queue_enq_def Let_def split: if_splits)
qed

lemma queue_rep_preq:
  assumes "queue_rep nx q xs" and "x \<noteq> 0" and "x \<notin> set xs"
    and "cthread_queue_preq nx q x = (nx', q')"
  shows "queue_rep nx' q' (x # xs)"
  using assms
  by (cases "xs = []") (auto simp: queue_rep_def cthread_queue_preq_def Let_def chain_simps
      split: if_splits dest: chain_last)

lemma queue_preq_frame: "cthread_queue_preq nx q x = (nx', q') \<Longrightarrow> y \<noteq> x \<Longrightarrow> nx' y = nx y"
  by (auto simp: cthread_queue_preq_def Let_def)

lemma queue_deq_Nil: "queue_rep nx q [] \<Longrightarrow> cthread_queue_deq nx q = (q, 0)"
  by (simp add: queue_rep_def cthread_queue_deq_def)

lemma queue_rep_deq:
  assumes "queue_rep nx q (x # xs)" and "cthread_queue_deq nx q = (q', y)"
  shows "queue_rep nx q' xs \<and> y = x"
  using assms
  by (cases xs) (auto simp: queue_rep_def cthread_queue_deq_def Let_def split: if_splits)

lemma queue_rep_cong:
  "queue_rep nx q xs \<Longrightarrow> \<forall>y \<in> set xs. nx' y = nx y \<Longrightarrow> queue_rep nx' q xs"
  using chain_cong [of xs nx' nx] by (auto simp: queue_rep_def)

lemma queue_rep_upd: "queue_rep nx q xs \<Longrightarrow> y \<notin> set xs \<Longrightarrow> queue_rep (nx(y := v)) q xs"
  by (rule queue_rep_cong) auto

interpretation ctq: linked_queue queue_rep cthread_queue_enq
  "\<lambda>nx q. case cthread_queue_deq nx q of (q', x) \<Rightarrow> (nx, q', x)"
proof unfold_locales
  fix nx q xs
  assume "queue_rep nx q xs"
  then show "distinct xs \<and> 0 \<notin> set xs"
    by (auto simp: queue_rep_def dest: chain_distinct chain_members)
next
  fix nx q xs ys
  assume "queue_rep nx q xs" and "queue_rep nx q ys"
  then show "xs = ys" by (auto simp: queue_rep_def intro: chain_fun)
next
  fix nx q x xs nx' q' y
  assume "queue_rep nx q (x # xs)"
    and "(case cthread_queue_deq nx q of (q', x) \<Rightarrow> (nx, q', x)) = (nx', q', y)"
  then show "queue_rep nx' q' xs \<and> y = x"
    by (auto split: prod.splits dest: queue_rep_deq)
qed (auto intro: queue_rep_cong queue_rep_enq queue_enq_frame
      simp: queue_deq_Nil split: prod.splits)

text \<open>
  \<^bold>\<open>The queues are first in, first out\<close>: enqueuing distinct objects on a queue and then
  dequeuing until the queue is empty yields what the queue held, followed by the new objects in
  the order they were added.
\<close>

theorem cthread_queue_fifo:
  assumes "queue_rep nx q xs" and "distinct (xs @ ys)" and "0 \<notin> set ys"
    and "enq_all cthread_queue_enq nx q ys = (nx', q')" and "length (xs @ ys) \<le> n"
  shows "drain (\<lambda>nx q. case cthread_queue_deq nx q of (q', x) \<Rightarrow> (nx, q', x)) n nx' q' = xs @ ys"
  using assms by (rule ctq.fifo)

theorem cthread_queue_fifo_witness:
  "\<exists>nx q. enq_all cthread_queue_enq (\<lambda>_. 0) QUEUE_INITIALIZER [7, 3, 9] = (nx, q)
    \<and> drain (\<lambda>nx q. case cthread_queue_deq nx q of (q', x) \<Rightarrow> (nx, q', x)) 3 nx q = [7, 3, 9]"
proof -
  obtain nx q where e: "enq_all cthread_queue_enq (\<lambda>_. 0) QUEUE_INITIALIZER [7, 3, 9] = (nx, q)"
    by fastforce
  from cthread_queue_fifo [OF queue_rep_empty _ _ e, of 3] e show ?thesis by simp
qed

end
