(* ===== verification/Cthread_Coroutine.thy ===== *)
theory Cthread_Coroutine
  imports Cthread_Queue Cthread_Sync
begin

text \<open>
  The coroutine scheduler of the C Threads package: \<open>cprocs.c\<close> and \<open>mutex_wait_lock\<close> of
  \<open>sync.c\<close> in \<open>mach/lib/threads\<close>, configuration \<open>COROUTINE\<close>.  The running cproc is the
  head of the queue \<open>ready\<close>; waiting cprocs are on the queue of a condition variable.  All
  queues are linked through the \<open>next\<close> field of the cprocs.  \<open>cproc_switch\<close> is machine
  code that saves one context and loads another: a suspended cproc is represented by what it
  does when it is loaded again (\<open>cont\<close>), and \<open>current\<close> is the cproc whose context is loaded.
  Assertions are compiled out, as without \<open>DEBUG\<close>.
\<close>

section \<open>The state\<close>

text \<open>
  The outcomes of a call that does not come back to its caller: every cproc is blocked, the call
  loops for ever (\<open>Hangs\<close>), or it follows the null pointer.
\<close>

datatype coro_error = All_blocked | Hangs | Null_pointer

datatype cproc_state = CPROC_RUNNING | CPROC_SPINNING | CPROC_BLOCKED

text \<open>
  What a loaded context does first: return to the client, take the mutex at the end of
  \<open>condition_wait\<close>, or go on in the loop of \<open>mutex_wait_lock\<close>.
\<close>

datatype cont = Return | Relock ptr | Retry ptr

record cproc =
  incarnation :: ptr
  cstate :: cproc_state
  reply_port :: nat
  link :: ptr
  ctx :: cont

record condition =
  c_lock :: int
  c_queue :: cthread_queue

record coro_state =
  nxt :: "ptr \<Rightarrow> ptr"
  procs :: "ptr \<Rightarrow> cproc"
  cprocs_started :: bool
  ready :: cthread_queue
  n_blocked :: int
  cproc_lock :: int
  cprocs :: ptr
  conds :: "ptr \<Rightarrow> condition"
  mutexes :: "ptr \<Rightarrow> int"
  current :: ptr

definition upd_cproc :: "ptr \<Rightarrow> (cproc \<Rightarrow> cproc) \<Rightarrow> coro_state \<Rightarrow> coro_state" where
  "upd_cproc p f s = s\<lparr>procs := (procs s)(p := f (procs s p))\<rparr>"

definition upd_cond :: "ptr \<Rightarrow> (condition \<Rightarrow> condition) \<Rightarrow> coro_state \<Rightarrow> coro_state" where
  "upd_cond c f s = s\<lparr>conds := (conds s)(c := f (conds s c))\<rparr>"

definition ready_enq :: "ptr \<Rightarrow> coro_state \<Rightarrow> coro_state" where
  "ready_enq p s = (case cthread_queue_enq (nxt s) (ready s) p of (n, q) \<Rightarrow> s\<lparr>nxt := n, ready := q\<rparr>)"

definition ready_preq :: "ptr \<Rightarrow> coro_state \<Rightarrow> coro_state" where
  "ready_preq p s = (case cthread_queue_preq (nxt s) (ready s) p of (n, q) \<Rightarrow> s\<lparr>nxt := n, ready := q\<rparr>)"

definition ready_deq :: "coro_state \<Rightarrow> ptr \<times> coro_state" where
  "ready_deq s = (case cthread_queue_deq (nxt s) (ready s) of (q, p) \<Rightarrow> (p, s\<lparr>ready := q\<rparr>))"

definition cond_enq :: "ptr \<Rightarrow> ptr \<Rightarrow> coro_state \<Rightarrow> coro_state" where
  "cond_enq c p s = (case cthread_queue_enq (nxt s) (c_queue (conds s c)) p of (n, q) \<Rightarrow>
     upd_cond c (\<lambda>x. x\<lparr>c_queue := q\<rparr>) (s\<lparr>nxt := n\<rparr>))"

text \<open>\<open>cproc_switch (&p->context, &q->context)\<close>, where \<open>p\<close> goes on with \<open>k\<close> when loaded again.\<close>

definition cproc_switch :: "ptr \<Rightarrow> cont \<Rightarrow> ptr \<Rightarrow> coro_state \<Rightarrow> coro_state" where
  "cproc_switch p k q s = (upd_cproc p (\<lambda>x. x\<lparr>ctx := k\<rparr>) s)\<lparr>current := q\<rparr>"

section \<open>Creation\<close>

text \<open>\<open>p\<close> is the block \<open>malloc\<close> returned; the code does not test it.\<close>

definition cproc_alloc :: "ptr \<Rightarrow> coro_state \<Rightarrow> coro_error + coro_state" where
  "cproc_alloc p s =
     (if p = 0 then Inl Null_pointer
      else (let s1 = upd_cproc p (\<lambda>x. x\<lparr>incarnation := 0, cstate := CPROC_RUNNING, reply_port := 0\<rparr>) s
            in case spin_lock (cproc_lock s1) of None \<Rightarrow> Inl Hangs
               | Some l \<Rightarrow>
                 (let s2 = s1\<lparr>cproc_lock := l\<rparr>;
                      s3 = upd_cproc p (\<lambda>x. x\<lparr>link := cprocs s2\<rparr>) s2;
                      s4 = s3\<lparr>cprocs := p\<rparr>
                  in Inr (s4\<lparr>cproc_lock := spin_unlock (cproc_lock s4)\<rparr>))))"

text \<open>The first cproc runs on the context that called \<open>cproc_init\<close>.\<close>

definition cproc_init :: "ptr \<Rightarrow> coro_state \<Rightarrow> coro_error + coro_state" where
  "cproc_init p s =
     (case cproc_alloc p s of Inl e \<Rightarrow> Inl e
      | Inr s1 \<Rightarrow> Inr ((ready_enq p s1)\<lparr>n_blocked := 0, cprocs_started := True, current := p\<rparr>))"

text \<open>\<open>cproc_start\<close> saves the parent and enters \<open>cthread_body\<close> on the stack of the child.\<close>

definition cproc_create :: "ptr \<Rightarrow> coro_state \<Rightarrow> coro_error + coro_state" where
  "cproc_create child s =
     (let parent = current s in
      case cproc_alloc child s of Inl e \<Rightarrow> Inl e
      | Inr s1 \<Rightarrow>
        (let s2 = ready_preq child s1
         in Inr (upd_cproc child (\<lambda>x. x\<lparr>ctx := Return\<rparr>) (cproc_switch parent Return child s2))))"

section \<open>Yielding and mutexes\<close>

definition cthread_yield :: "cont \<Rightarrow> coro_state \<Rightarrow> coro_state" where
  "cthread_yield k s =
     (if cq_head (ready s) \<noteq> cq_tail (ready s)
      then (case ready_deq s of (p, s1) \<Rightarrow>
              (let s2 = ready_enq p s1 in cproc_switch p k (cthread_queue_head (ready s2)) s2))
      else upd_cproc (current s) (\<lambda>x. x\<lparr>ctx := k\<rparr>) s)"

text \<open>
  The busy-waiting loop of \<open>mutex_wait_lock\<close>, and one round of its second loop: the mutex is
  taken or the cproc yields and tries again when it is loaded.
\<close>

fun mutex_spin :: "nat \<Rightarrow> int \<Rightarrow> bool \<times> int" where
  "mutex_spin 0 l = (False, l)"
| "mutex_spin (Suc n) l =
     (if l = 0 then (case mutex_try_lock l of (ok, l') \<Rightarrow> if ok then (True, l') else mutex_spin n l')
      else mutex_spin n l)"

definition mutex_wait_round :: "ptr \<Rightarrow> coro_state \<Rightarrow> coro_state" where
  "mutex_wait_round m s =
     (if mutexes s m = 0
      then (case mutex_try_lock (mutexes s m) of (ok, l) \<Rightarrow>
              if ok then upd_cproc (current s) (\<lambda>x. x\<lparr>ctx := Return\<rparr>) (s\<lparr>mutexes := (mutexes s)(m := l)\<rparr>)
              else cthread_yield (Retry m) (s\<lparr>mutexes := (mutexes s)(m := l)\<rparr>))
      else cthread_yield (Retry m) s)"

definition mutex_wait_lock :: "nat \<Rightarrow> ptr \<Rightarrow> coro_state \<Rightarrow> coro_state" where
  "mutex_wait_lock mutex_spin_limit m s =
     (case mutex_spin mutex_spin_limit (mutexes s m) of (ok, l) \<Rightarrow>
        if ok then upd_cproc (current s) (\<lambda>x. x\<lparr>ctx := Return\<rparr>) (s\<lparr>mutexes := (mutexes s)(m := l)\<rparr>)
        else mutex_wait_round m (s\<lparr>mutexes := (mutexes s)(m := l)\<rparr>))"

definition mutex_lock :: "nat \<Rightarrow> ptr \<Rightarrow> coro_state \<Rightarrow> coro_state" where
  "mutex_lock lim m s =
     (case mutex_try_lock (mutexes s m) of (ok, l) \<Rightarrow>
        if ok then upd_cproc (current s) (\<lambda>x. x\<lparr>ctx := Return\<rparr>) (s\<lparr>mutexes := (mutexes s)(m := l)\<rparr>)
        else mutex_wait_lock lim m (s\<lparr>mutexes := (mutexes s)(m := l)\<rparr>))"

definition mutex_release :: "ptr \<Rightarrow> coro_state \<Rightarrow> coro_state" where
  "mutex_release m s = s\<lparr>mutexes := (mutexes s)(m := mutex_unlock (mutexes s m))\<rparr>"

text \<open>The loaded context goes on.\<close>

definition resume :: "nat \<Rightarrow> coro_state \<Rightarrow> coro_state" where
  "resume lim s = (case ctx (procs s (current s)) of
     Return \<Rightarrow> s | Relock m \<Rightarrow> mutex_lock lim m s | Retry m \<Rightarrow> mutex_wait_round m s)"

section \<open>Condition variables\<close>

definition condition_init :: "ptr \<Rightarrow> coro_state \<Rightarrow> coro_state" where
  "condition_init c s = upd_cond c (\<lambda>x. x\<lparr>c_lock := 0, c_queue := cthread_queue_init (c_queue x)\<rparr>) s"

text \<open>With no cproc left to run the message is printed and the null context is loaded.\<close>

definition condition_wait :: "ptr \<Rightarrow> ptr \<Rightarrow> coro_state \<Rightarrow> coro_error + coro_state" where
  "condition_wait c m s =
     (case ready_deq s of (p, s1) \<Rightarrow>
        (let s2 = upd_cproc p (\<lambda>x. x\<lparr>cstate := CPROC_BLOCKED\<rparr>) (cond_enq c p s1);
             s3 = mutex_release m (s2\<lparr>n_blocked := n_blocked s2 + 1\<rparr>);
             q = cthread_queue_head (ready s3)
         in if q = 0 then Inl All_blocked else Inr (cproc_switch p (Relock m) q s3)))"

definition cproc_continue :: "ptr \<Rightarrow> coro_state \<Rightarrow> coro_state" where
  "cproc_continue p s =
     (let s1 = ready_enq p (upd_cproc p (\<lambda>x. x\<lparr>cstate := CPROC_RUNNING\<rparr>) s)
      in s1\<lparr>n_blocked := n_blocked s1 - 1\<rparr>)"

definition cond_signal :: "ptr \<Rightarrow> coro_state \<Rightarrow> coro_error + coro_state" where
  "cond_signal c s =
     (case spin_lock (c_lock (conds s c)) of None \<Rightarrow> Inl Hangs
      | Some l \<Rightarrow>
        (let s1 = upd_cond c (\<lambda>x. x\<lparr>c_lock := l\<rparr>) s in
         case cthread_queue_deq (nxt s1) (c_queue (conds s1 c)) of (q, p) \<Rightarrow>
           (let s2 = upd_cond c (\<lambda>x. x\<lparr>c_queue := q\<rparr>) s1;
                s3 = upd_cond c (\<lambda>x. x\<lparr>c_lock := spin_unlock (c_lock x)\<rparr>) s2
            in if p \<noteq> 0 then Inr (cproc_continue p s3) else Inr s3)))"

text \<open>The loop of \<open>cond_broadcast\<close> over its local queue.\<close>

partial_function (option) continue_all :: "cthread_queue \<Rightarrow> coro_state \<Rightarrow> coro_state option" where
  "continue_all q s =
     (case cthread_queue_deq (nxt s) q of (q', p) \<Rightarrow>
        if p = 0 then Some s else continue_all q' (cproc_continue p s))"

definition cond_broadcast :: "ptr \<Rightarrow> coro_state \<Rightarrow> coro_error + coro_state" where
  "cond_broadcast c s =
     (case spin_lock (c_lock (conds s c)) of None \<Rightarrow> Inl Hangs
      | Some l \<Rightarrow>
        (let s1 = upd_cond c (\<lambda>x. x\<lparr>c_lock := l\<rparr>) s;
             queue = c_queue (conds s1 c);
             s2 = upd_cond c (\<lambda>x. x\<lparr>c_queue := cthread_queue_init (c_queue x)\<rparr>) s1;
             s3 = upd_cond c (\<lambda>x. x\<lparr>c_lock := spin_unlock (c_lock x)\<rparr>) s2
         in case continue_all queue s3 of None \<Rightarrow> Inl Hangs | Some s4 \<Rightarrow> Inr s4))"

text \<open>The macros of \<open>cthreads.h\<close> skip the call when nobody waits.\<close>

definition condition_signal :: "ptr \<Rightarrow> coro_state \<Rightarrow> coro_error + coro_state" where
  "condition_signal c s = (if cq_head (c_queue (conds s c)) \<noteq> 0 then cond_signal c s else Inr s)"

definition condition_broadcast :: "ptr \<Rightarrow> coro_state \<Rightarrow> coro_error + coro_state" where
  "condition_broadcast c s = (if cq_head (c_queue (conds s c)) \<noteq> 0 then cond_broadcast c s else Inr s)"

section \<open>The child of a fork\<close>

text \<open>
  \<open>cproc_fork_child\<close> releases what belonged to the other cprocs; the calls of \<open>free\<close> and
  \<open>dealloc_stack\<close> it makes are collected in order.
\<close>

datatype release = Free_cthread ptr | Dealloc_stack ptr | Free_cproc ptr

definition release_cproc :: "ptr \<Rightarrow> coro_state \<Rightarrow> release list" where
  "release_cproc p s = (if incarnation (procs s p) \<noteq> 0 then [Free_cthread (incarnation (procs s p))] else [])
     @ [Dealloc_stack p, Free_cproc p]"

text \<open>The running cproc becomes the only one.\<close>

definition keep_self :: "ptr \<Rightarrow> coro_state \<Rightarrow> coro_state" where
  "keep_self p s =
     (let s1 = upd_cproc p (\<lambda>x. x\<lparr>cstate := CPROC_RUNNING, reply_port := 0\<rparr>) s;
          s2 = upd_cproc p (\<lambda>x. x\<lparr>link := 0\<rparr>) (s1\<lparr>cprocs := p\<rparr>)
      in ready_enq p s2)"

partial_function (option) fork_cprocs :: "ptr \<Rightarrow> release list \<Rightarrow> coro_state \<Rightarrow> (release list \<times> coro_state) option" where
  "fork_cprocs p rel s =
     (if p = 0 then Some (rel, s)
      else if current s = p then fork_cprocs (link (procs s p)) rel (keep_self p s)
      else fork_cprocs (link (procs s p)) (rel @ release_cproc p s) s)"

definition cproc_fork_child :: "coro_state \<Rightarrow> (release list \<times> coro_state) option" where
  "cproc_fork_child s =
     (let s1 = s\<lparr>ready := cthread_queue_init (ready s), n_blocked := 0, cproc_lock := 0\<rparr>
      in fork_cprocs (cprocs s1) [] s1)"

section \<open>The abstract scheduler\<close>

text \<open>
  What the package promises: a list of runnable cprocs, whose head runs, and a list of waiters
  for each condition variable, all served in order.
\<close>

record sched =
  rdy :: "ptr list"
  wtg :: "ptr \<Rightarrow> ptr list"

datatype call =
  Init_cond ptr | Create ptr | Yield | Lock ptr | Unlock ptr | Wait ptr ptr | Signal ptr | Broadcast ptr | Resume

definition rotate_ready :: "sched \<Rightarrow> sched" where
  "rotate_ready a = a\<lparr>rdy := rotate1 (rdy a)\<rparr>"

text \<open>\<open>free\<close>: whether the mutex the call wants is free.\<close>

fun sched_call :: "bool \<Rightarrow> call \<Rightarrow> sched \<Rightarrow> sched option" where
  "sched_call free (Init_cond c) a = Some (a\<lparr>wtg := (wtg a)(c := [])\<rparr>)"
| "sched_call free (Create p) a = Some (a\<lparr>rdy := p # rdy a\<rparr>)"
| "sched_call free Yield a = Some (rotate_ready a)"
| "sched_call free (Lock m) a = Some (if free then a else rotate_ready a)"
| "sched_call free (Unlock m) a = Some a"
| "sched_call free (Wait c m) a =
     (if length (rdy a) = 1 then None
      else Some (a\<lparr>rdy := tl (rdy a), wtg := (wtg a)(c := wtg a c @ [hd (rdy a)])\<rparr>))"
| "sched_call free (Signal c) a =
     Some (a\<lparr>rdy := rdy a @ take 1 (wtg a c), wtg := (wtg a)(c := drop 1 (wtg a c))\<rparr>)"
| "sched_call free (Broadcast c) a = Some (a\<lparr>rdy := rdy a @ wtg a c, wtg := (wtg a)(c := [])\<rparr>)"
| "sched_call free Resume a = Some (if free then a else rotate_ready a)"

fun coro_call :: "nat \<Rightarrow> call \<Rightarrow> coro_state \<Rightarrow> coro_error + coro_state" where
  "coro_call lim (Init_cond c) s = Inr (condition_init c s)"
| "coro_call lim (Create p) s = cproc_create p s"
| "coro_call lim Yield s = Inr (cthread_yield Return s)"
| "coro_call lim (Lock m) s = Inr (mutex_lock lim m s)"
| "coro_call lim (Unlock m) s = Inr (mutex_release m s)"
| "coro_call lim (Wait c m) s = condition_wait c m s"
| "coro_call lim (Signal c) s = condition_signal c s"
| "coro_call lim (Broadcast c) s = condition_broadcast c s"
| "coro_call lim Resume s = Inr (resume lim s)"

text \<open>The mutex a call of the running cproc wants is free.\<close>

fun wants_free :: "call \<Rightarrow> coro_state \<Rightarrow> bool" where
  "wants_free (Lock m) s = (mutexes s m = 0)"
| "wants_free Resume s = (case ctx (procs s (current s)) of Return \<Rightarrow> True
     | Relock m \<Rightarrow> mutexes s m = 0 | Retry m \<Rightarrow> mutexes s m = 0)"
| "wants_free _ s = True"

section \<open>The representation of the abstract state\<close>

definition queues_apart :: "sched \<Rightarrow> bool" where
  "queues_apart a \<longleftrightarrow> (\<forall>c. set (rdy a) \<inter> set (wtg a c) = {})
     \<and> (\<forall>c d. c \<noteq> d \<longrightarrow> set (wtg a c) \<inter> set (wtg a d) = {})"

definition queues_rep :: "ptr set \<Rightarrow> coro_state \<Rightarrow> sched \<Rightarrow> bool" where
  "queues_rep C s a \<longleftrightarrow> queue_rep (nxt s) (ready s) (rdy a)
     \<and> (\<forall>c \<in> C. queue_rep (nxt s) (c_queue (conds s c)) (wtg a c)) \<and> (\<forall>c. c \<notin> C \<longrightarrow> wtg a c = [])
     \<and> queues_apart a"

text \<open>
  \<open>sched_rep C ps s a\<close>: the state \<open>s\<close>, with the condition variables \<open>C\<close> and the list
  \<open>ps\<close> of all cprocs, represents the abstract state \<open>a\<close>.
\<close>

definition states_ok :: "coro_state \<Rightarrow> sched \<Rightarrow> bool" where
  "states_ok s a \<longleftrightarrow> (\<forall>p \<in> set (rdy a). cstate (procs s p) = CPROC_RUNNING)
     \<and> (\<forall>c. \<forall>p \<in> set (wtg a c). cstate (procs s p) = CPROC_BLOCKED)"

definition all_cprocs :: "sched \<Rightarrow> ptr set" where
  "all_cprocs a = set (rdy a) \<union> (\<Union>c. set (wtg a c))"

definition sched_rep :: "ptr set \<Rightarrow> ptr list \<Rightarrow> coro_state \<Rightarrow> sched \<Rightarrow> bool" where
  "sched_rep C ps s a \<longleftrightarrow> finite C \<and> queues_rep C s a \<and> states_ok s a
     \<and> rdy a \<noteq> [] \<and> current s = hd (rdy a)
     \<and> n_blocked s = (\<Sum>c \<in> C. int (length (wtg a c)))
     \<and> chain (\<lambda>p. link (procs s p)) (cprocs s) ps \<and> set ps = all_cprocs a
     \<and> cproc_lock s = 0 \<and> (\<forall>c \<in> C. c_lock (conds s c) = 0)"

end
