(* ===== verification/Cthread_Coroutine_Props.thy ===== *)
theory Cthread_Coroutine_Props
  imports Cthread_Coroutine
begin

text \<open>
  The coroutine scheduler refines the abstract scheduler on lists: a lemma for each queue
  operation, a lemma for each call, and the properties that follow.
\<close>

section \<open>Fields an operation leaves alone\<close>

lemma ready_enq_frame [simp]:
  "procs (ready_enq p s) = procs s" "n_blocked (ready_enq p s) = n_blocked s" "cproc_lock (ready_enq p s) = cproc_lock s"
  "cprocs (ready_enq p s) = cprocs s" "conds (ready_enq p s) = conds s" "mutexes (ready_enq p s) = mutexes s"
  "current (ready_enq p s) = current s"
  by (simp_all add: ready_enq_def split: prod.split)

lemma ready_preq_frame [simp]:
  "procs (ready_preq p s) = procs s" "n_blocked (ready_preq p s) = n_blocked s" "cproc_lock (ready_preq p s) = cproc_lock s"
  "cprocs (ready_preq p s) = cprocs s" "conds (ready_preq p s) = conds s" "mutexes (ready_preq p s) = mutexes s"
  "current (ready_preq p s) = current s"
  by (simp_all add: ready_preq_def split: prod.split)

lemma cond_enq_frame [simp]:
  "procs (cond_enq c p s) = procs s" "n_blocked (cond_enq c p s) = n_blocked s" "cproc_lock (cond_enq c p s) = cproc_lock s"
  "cprocs (cond_enq c p s) = cprocs s" "ready (cond_enq c p s) = ready s" "mutexes (cond_enq c p s) = mutexes s"
  "current (cond_enq c p s) = current s" "c_lock (conds (cond_enq c p s) d) = c_lock (conds s d)"
  by (simp_all add: cond_enq_def upd_cond_def split: prod.split)

lemma upd_cproc_frame [simp]:
  "nxt (upd_cproc p f s) = nxt s" "ready (upd_cproc p f s) = ready s" "n_blocked (upd_cproc p f s) = n_blocked s"
  "cproc_lock (upd_cproc p f s) = cproc_lock s" "cprocs (upd_cproc p f s) = cprocs s" "conds (upd_cproc p f s) = conds s"
  "mutexes (upd_cproc p f s) = mutexes s" "current (upd_cproc p f s) = current s"
  "procs (upd_cproc p f s) = (procs s)(p := f (procs s p))"
  by (simp_all add: upd_cproc_def)

lemma upd_cond_frame [simp]:
  "nxt (upd_cond c f s) = nxt s" "ready (upd_cond c f s) = ready s" "n_blocked (upd_cond c f s) = n_blocked s"
  "cproc_lock (upd_cond c f s) = cproc_lock s" "cprocs (upd_cond c f s) = cprocs s" "procs (upd_cond c f s) = procs s"
  "mutexes (upd_cond c f s) = mutexes s" "current (upd_cond c f s) = current s"
  "conds (upd_cond c f s) = (conds s)(c := f (conds s c))"
  by (simp_all add: upd_cond_def)

lemma cproc_switch_frame [simp]:
  "nxt (cproc_switch p k q s) = nxt s" "ready (cproc_switch p k q s) = ready s"
  "n_blocked (cproc_switch p k q s) = n_blocked s" "cproc_lock (cproc_switch p k q s) = cproc_lock s"
  "cprocs (cproc_switch p k q s) = cprocs s" "conds (cproc_switch p k q s) = conds s"
  "mutexes (cproc_switch p k q s) = mutexes s" "current (cproc_switch p k q s) = q"
  "procs (cproc_switch p k q s) = (procs s)(p := (procs s p)\<lparr>ctx := k\<rparr>)"
  by (simp_all add: cproc_switch_def)

section \<open>The queues\<close>

lemma queues_rep_cong:
  "nxt s' = nxt s \<Longrightarrow> ready s' = ready s \<Longrightarrow> (\<And>c. c_queue (conds s' c) = c_queue (conds s c))
    \<Longrightarrow> queues_rep C s' a = queues_rep C s a"
  by (simp add: queues_rep_def)

lemma queues_apartD:
  "queues_apart a \<Longrightarrow> set (rdy a) \<inter> set (wtg a c) = {}"
  "queues_apart a \<Longrightarrow> c \<noteq> d \<Longrightarrow> set (wtg a c) \<inter> set (wtg a d) = {}"
  by (auto simp: queues_apart_def)

lemma queues_rep_ready_enq:
  assumes "queues_rep C s a" and "p \<noteq> 0" and "p \<notin> all_cprocs a"
  shows "queues_rep C (ready_enq p s) (a\<lparr>rdy := rdy a @ [p]\<rparr>)"
proof -
  obtain n q where e: "cthread_queue_enq (nxt s) (ready s) p = (n, q)" by fastforce
  have r: "queue_rep (nxt s) (ready s) (rdy a)" and ap: "queues_apart a" using assms(1) by (auto simp: queues_rep_def)
  have p: "p \<notin> set (rdy a)" "\<And>c. p \<notin> set (wtg a c)" using assms(3) by (auto simp: all_cprocs_def)
  have "queue_rep n q (rdy a @ [p])" by (rule queue_rep_enq [OF r assms(2) p(1) e])
  moreover have "queue_rep n (c_queue (conds s c)) (wtg a c)" if "c \<in> C" for c
    using ctq.enq_other [OF r _ queues_apartD(1) [OF ap] p(2) e] assms(1) that by (simp add: queues_rep_def)
  moreover have "queues_apart (a\<lparr>rdy := rdy a @ [p]\<rparr>)" using ap p(2) by (auto simp: queues_apart_def)
  ultimately show ?thesis using assms(1) e by (simp add: queues_rep_def ready_enq_def)
qed

lemma queues_rep_ready_preq:
  assumes "queues_rep C s a" and "p \<noteq> 0" and "p \<notin> all_cprocs a"
  shows "queues_rep C (ready_preq p s) (a\<lparr>rdy := p # rdy a\<rparr>)"
proof -
  obtain n q where e: "cthread_queue_preq (nxt s) (ready s) p = (n, q)" by fastforce
  have r: "queue_rep (nxt s) (ready s) (rdy a)" and ap: "queues_apart a" using assms(1) by (auto simp: queues_rep_def)
  have p: "p \<notin> set (rdy a)" "\<And>c. p \<notin> set (wtg a c)" using assms(3) by (auto simp: all_cprocs_def)
  have "queue_rep n q (p # rdy a)" by (rule queue_rep_preq [OF r assms(2) p(1) e])
  moreover have "queue_rep n (c_queue (conds s c)) (wtg a c)" if "c \<in> C" for c
  proof (rule queue_rep_cong)
    show "queue_rep (nxt s) (c_queue (conds s c)) (wtg a c)" using assms(1) that by (simp add: queues_rep_def)
    show "\<forall>y \<in> set (wtg a c). n y = nxt s y" using queue_preq_frame [OF e] p(2) [of c] by metis
  qed
  moreover have "queues_apart (a\<lparr>rdy := p # rdy a\<rparr>)" using ap p(2) by (auto simp: queues_apart_def)
  ultimately show ?thesis using assms(1) e by (simp add: queues_rep_def ready_preq_def)
qed

lemma queues_rep_ready_deq:
  assumes "queues_rep C s a" and "rdy a = p # rs"
  shows "\<exists>q. ready_deq s = (p, s\<lparr>ready := q\<rparr>) \<and> queues_rep C (s\<lparr>ready := q\<rparr>) (a\<lparr>rdy := rs\<rparr>)"
proof -
  obtain q x where d: "cthread_queue_deq (nxt s) (ready s) = (q, x)" by fastforce
  have "queue_rep (nxt s) (ready s) (p # rs)" using assms by (simp add: queues_rep_def)
  note x = queue_rep_deq [OF this d]
  have "queues_apart (a\<lparr>rdy := rs\<rparr>)" using assms by (auto simp: queues_rep_def queues_apart_def)
  then have "queues_rep C (s\<lparr>ready := q\<rparr>) (a\<lparr>rdy := rs\<rparr>)" using assms(1) x by (simp add: queues_rep_def)
  then show ?thesis using d x by (intro exI [of _ q]) (simp add: ready_deq_def)
qed

lemma queues_rep_cond_enq:
  assumes "queues_rep C s a" and "c \<in> C" and "p \<noteq> 0" and "p \<notin> all_cprocs a"
  shows "queues_rep C (cond_enq c p s) (a\<lparr>wtg := (wtg a)(c := wtg a c @ [p])\<rparr>)"
proof -
  obtain n q where e: "cthread_queue_enq (nxt s) (c_queue (conds s c)) p = (n, q)" by fastforce
  have r: "queue_rep (nxt s) (ready s) (rdy a)" and w: "\<And>d. d \<in> C \<Longrightarrow> queue_rep (nxt s) (c_queue (conds s d)) (wtg a d)"
    and ap: "queues_apart a" using assms(1) by (auto simp: queues_rep_def)
  have p: "p \<notin> set (rdy a)" "\<And>c. p \<notin> set (wtg a c)" using assms(4) by (auto simp: all_cprocs_def)
  have "queue_rep n q (wtg a c @ [p])" by (rule queue_rep_enq [OF w [OF assms(2)] assms(3) p(2) e])
  moreover have "queue_rep n (ready s) (rdy a)"
    using ctq.enq_other [OF w [OF assms(2)] r _ p(1) e] queues_apartD(1) [OF ap, of c] by blast
  moreover have "queue_rep n (c_queue (conds s d)) (wtg a d)" if "d \<in> C" "d \<noteq> c" for d
    using ctq.enq_other [OF w [OF assms(2)] w [OF that(1)] queues_apartD(2) [OF ap] p(2) e] that by blast
  moreover have "queues_apart (a\<lparr>wtg := (wtg a)(c := wtg a c @ [p])\<rparr>)" using ap p by (auto simp: queues_apart_def)
  ultimately show ?thesis using assms(1,2) e by (auto simp: queues_rep_def cond_enq_def upd_cond_def)
qed

text \<open>Taking the first waiter, or all of them, off a condition variable.\<close>

lemma queues_rep_drop:
  assumes "queues_rep C s a" and "c \<in> C" and "queue_rep (nxt s) q ws" and "set ws \<subseteq> set (wtg a c)"
  shows "queues_rep C (upd_cond c (\<lambda>x. x\<lparr>c_queue := q\<rparr>) s) (a\<lparr>wtg := (wtg a)(c := ws)\<rparr>)"
proof -
  have "queues_apart (a\<lparr>wtg := (wtg a)(c := ws)\<rparr>)"
  proof -
    have ap: "queues_apart a" using assms(1) by (simp add: queues_rep_def)
    have "set (rdy a) \<inter> set ws = {}" using queues_apartD(1) [OF ap, of c] assms(4) by blast
    moreover have "set (wtg a d) \<inter> set ws = {}" "set ws \<inter> set (wtg a d) = {}" if "d \<noteq> c" for d
      using queues_apartD(2) [OF ap that] assms(4) by blast+
    ultimately show ?thesis using queues_apartD [OF ap] by (auto simp: queues_apart_def)
  qed
  then show ?thesis using assms(1-3) by (auto simp: queues_rep_def)
qed

section \<open>The refinement, call by call\<close>

lemma sum_waiters:
  "finite C \<Longrightarrow> c \<in> C \<Longrightarrow>
    (\<Sum>d \<in> C. int (length ((w(c := x)) d))) = (\<Sum>d \<in> C. int (length (w d))) - int (length (w c)) + int (length x)"
  by (simp add: sum.remove)

text \<open>A change of contexts, mutex words and other fields outside the representation.\<close>

lemma sched_rep_cong:
  assumes "sched_rep C ps s a" and "nxt s' = nxt s" "ready s' = ready s" "conds s' = conds s" "current s' = current s"
    "n_blocked s' = n_blocked s" "cproc_lock s' = cproc_lock s" "cprocs s' = cprocs s"
    and "\<And>p. cstate (procs s' p) = cstate (procs s p)" "\<And>p. link (procs s' p) = link (procs s p)"
  shows "sched_rep C ps s' a"
  using assms(1) queues_rep_cong [of s' s C a] assms(2-8)
  unfolding sched_rep_def states_ok_def assms(9,10) by simp

lemma sched_rep_move:
  assumes "sched_rep C ps s a" and "queues_rep C s' a'" and "states_ok s' a'" and "rdy a' \<noteq> []"
    and "current s' = hd (rdy a')" and "n_blocked s' = (\<Sum>c \<in> C. int (length (wtg a' c)))"
    and "all_cprocs a' = all_cprocs a" and "\<And>p. link (procs s' p) = link (procs s p)"
    and "cprocs s' = cprocs s" and "cproc_lock s' = cproc_lock s" and "\<And>c. c_lock (conds s' c) = c_lock (conds s c)"
  shows "sched_rep C ps s' a'"
  using assms(1-7,9-) unfolding sched_rep_def assms(8) by simp

lemma sched_rep_head: "sched_rep C ps s a \<Longrightarrow> \<exists>rs. rdy a = current s # rs"
  by (cases "rdy a") (auto simp: sched_rep_def)

lemma sched_rep_nonnull: "sched_rep C ps s a \<Longrightarrow> p \<in> all_cprocs a \<Longrightarrow> p \<noteq> 0"
  using chain_members by (metis sched_rep_def)

lemma running_not_waiting: "sched_rep C ps s a \<Longrightarrow> current s \<notin> set (wtg a c)"
  by (cases "rdy a") (auto simp: sched_rep_def queues_rep_def queues_apart_def)

lemma ready_distinct: "queues_rep C s a \<Longrightarrow> distinct (rdy a)"
  using ctq.rep_members by (auto simp: queues_rep_def)

lemma ready_single_iff:
  assumes "queues_rep C s a" and "rdy a = p # rs"
  shows "cq_head (ready s) = cq_tail (ready s) \<longleftrightarrow> rs = []"
proof -
  have "cq_head (ready s) = p" "cq_tail (ready s) = last (p # rs)"
    using assms by (auto simp: queues_rep_def queue_rep_def)
  moreover have "p \<notin> set rs" using ready_distinct [OF assms(1)] assms(2) by simp
  ultimately show ?thesis using last_in_set [of rs] by (auto simp: last_ConsR)
qed

lemma yield_refines:
  assumes R: "sched_rep C ps s a"
  shows "sched_rep C ps (cthread_yield k s) (rotate_ready a)"
proof -
  obtain rs where a: "rdy a = current s # rs" using sched_rep_head [OF R] by blast
  have Q: "queues_rep C s a" using R by (simp add: sched_rep_def)
  show ?thesis
  proof (cases "rs = []")
    case True
    then have "cthread_yield k s = upd_cproc (current s) (\<lambda>x. x\<lparr>ctx := k\<rparr>) s"
      using ready_single_iff [OF Q a] by (simp add: cthread_yield_def)
    moreover have "rotate_ready a = a" using True a by (simp add: rotate_ready_def)
    ultimately show ?thesis using R by (auto intro: sched_rep_cong)
  next
    case False
    obtain q where d: "ready_deq s = (current s, s\<lparr>ready := q\<rparr>)" and Q1: "queues_rep C (s\<lparr>ready := q\<rparr>) (a\<lparr>rdy := rs\<rparr>)"
      using queues_rep_ready_deq [OF Q a] by blast
    let ?p = "current s" and ?s2 = "ready_enq (current s) (s\<lparr>ready := q\<rparr>)"
    have p: "?p \<noteq> 0" using sched_rep_nonnull [OF R, of ?p] a by (simp add: all_cprocs_def)
    have "?p \<notin> set rs" using ready_distinct [OF Q] a by simp
    moreover have "?p \<notin> set (wtg a c)" for c using Q a by (auto simp: queues_rep_def queues_apart_def)
    ultimately have n: "?p \<notin> all_cprocs (a\<lparr>rdy := rs\<rparr>)" by (simp add: all_cprocs_def)
    have Q2: "queues_rep C ?s2 (rotate_ready a)"
      using queues_rep_ready_enq [OF Q1 p n] a by (simp add: rotate_ready_def)
    then have h: "cthread_queue_head (ready ?s2) = hd (rdy (rotate_ready a))"
      using queue_rep_head [of "nxt ?s2"] a by (auto simp: queues_rep_def rotate_ready_def)
    have y: "cthread_yield k s = cproc_switch ?p k (hd (rdy (rotate_ready a))) ?s2"
      using False ready_single_iff [OF Q a] d h by (simp add: cthread_yield_def)
    have "queues_rep C (cthread_yield k s) (rotate_ready a)" using Q2 unfolding y
      by (subst queues_rep_cong [of _ ?s2]) simp_all
    moreover have "states_ok (cthread_yield k s) (rotate_ready a)"
      using R running_not_waiting [OF R] by (auto simp: sched_rep_def states_ok_def y rotate_ready_def)
    ultimately show ?thesis
      using R by (intro sched_rep_move [OF R]) (auto simp: y sched_rep_def rotate_ready_def all_cprocs_def)
  qed
qed

lemma mutex_spin_held: "l \<noteq> 0 \<Longrightarrow> mutex_spin n l = (False, l)"
  by (induction n) auto

lemma mutex_wait_round_refines:
  assumes "sched_rep C ps s a"
  shows "sched_rep C ps (mutex_wait_round m s) (if mutexes s m = 0 then a else rotate_ready a)"
proof (cases "mutexes s m = 0")
  case True
  then show ?thesis using assms
    by (auto simp: mutex_wait_round_def mutex_try_lock_def intro!: sched_rep_cong [OF assms])
next
  case False
  then show ?thesis using yield_refines [OF assms] by (simp add: mutex_wait_round_def)
qed

lemma mutex_lock_refines:
  assumes "sched_rep C ps s a"
  shows "sched_rep C ps (mutex_lock lim m s) (if mutexes s m = 0 then a else rotate_ready a)"
proof (cases "mutexes s m = 0")
  case True
  then show ?thesis using assms
    by (auto simp: mutex_lock_def mutex_try_lock_def intro!: sched_rep_cong [OF assms])
next
  case False
  then have "mutex_lock lim m s = mutex_wait_round m s"
    by (simp add: mutex_lock_def mutex_try_lock_def mutex_wait_lock_def mutex_spin_held)
  with False mutex_wait_round_refines [OF assms, of m] show ?thesis by simp
qed

lemma resume_refines:
  assumes "sched_rep C ps s a"
  shows "sched_rep C ps (resume lim s) (if wants_free Resume s then a else rotate_ready a)"
  using assms mutex_lock_refines [OF assms] mutex_wait_round_refines [OF assms]
  by (cases "ctx (procs s (current s))") (auto simp: resume_def)

lemma wait_refines:
  assumes R: "sched_rep C ps s a" and c: "c \<in> C"
  shows "case sched_call f (Wait c m) a of None \<Rightarrow> condition_wait c m s = Inl All_blocked
    | Some a' \<Rightarrow> \<exists>s'. condition_wait c m s = Inr s' \<and> sched_rep C ps s' a' \<and> ctx (procs s' (current s)) = Relock m"
proof -
  obtain rs where a: "rdy a = current s # rs" using sched_rep_head [OF R] by blast
  have Q: "queues_rep C s a" and fin: "finite C" using R by (auto simp: sched_rep_def)
  let ?p = "current s" and ?a = "a\<lparr>rdy := rs, wtg := (wtg a)(c := wtg a c @ [current s])\<rparr>"
  obtain q where d: "ready_deq s = (?p, s\<lparr>ready := q\<rparr>)" and Q1: "queues_rep C (s\<lparr>ready := q\<rparr>) (a\<lparr>rdy := rs\<rparr>)"
    using queues_rep_ready_deq [OF Q a] by blast
  have p: "?p \<noteq> 0" using sched_rep_nonnull [OF R, of ?p] a by (simp add: all_cprocs_def)
  have pr: "?p \<notin> set rs" using ready_distinct [OF Q] a by simp
  moreover have pw: "?p \<notin> set (wtg a d)" for d using Q a by (auto simp: queues_rep_def queues_apart_def)
  ultimately have n: "?p \<notin> all_cprocs (a\<lparr>rdy := rs\<rparr>)" by (simp add: all_cprocs_def)
  define s2 where "s2 = cond_enq c ?p (s\<lparr>ready := q\<rparr>)"
  define s3 where "s3 = mutex_release m ((upd_cproc ?p (\<lambda>x. x\<lparr>cstate := CPROC_BLOCKED\<rparr>) s2)\<lparr>n_blocked := n_blocked s + 1\<rparr>)"
  have Q2: "queues_rep C s2 ?a" using queues_rep_cond_enq [OF Q1 c p n] by (simp add: s2_def)
  have Q3: "queues_rep C s3 ?a" using Q2 by (subst queues_rep_cong [of s3 s2]) (auto simp: s3_def mutex_release_def)
  have r: "ready s3 = ready s2" "nxt s3 = nxt s2" by (auto simp: s3_def mutex_release_def)
  have h: "cthread_queue_head (ready s3) = (if rs = [] then 0 else hd rs)"
    using Q2 queue_rep_head [of "nxt s2" "ready s2" rs] r by (simp add: queues_rep_def)
  have hd0: "rs \<noteq> [] \<Longrightarrow> hd rs \<noteq> 0"
    using sched_rep_nonnull [OF R, of "hd rs"] a by (auto simp: all_cprocs_def)
  have w: "condition_wait c m s = (if rs = [] then Inl All_blocked else Inr (cproc_switch ?p (Relock m) (hd rs) s3))"
    using h hd0 by (cases "rs = []") (simp_all add: condition_wait_def d Let_def s3_def s2_def)
  show ?thesis
  proof (cases "rs = []")
    case True
    then show ?thesis using w a by simp
  next
    case False
    let ?s = "cproc_switch ?p (Relock m) (hd rs) s3"
    have f3: "procs s3 = (procs s)(?p := (procs s ?p)\<lparr>cstate := CPROC_BLOCKED\<rparr>)" "cprocs s3 = cprocs s"
        "cproc_lock s3 = cproc_lock s" "n_blocked s3 = n_blocked s + 1" "\<And>d. c_lock (conds s3 d) = c_lock (conds s d)"
      by (simp_all add: s3_def s2_def mutex_release_def)
    have "queues_rep C ?s ?a" using Q3 by (subst queues_rep_cong [of _ s3]) simp_all
    moreover have "states_ok ?s ?a" using R a pr pw by (auto simp: sched_rep_def states_ok_def f3)
    moreover have "n_blocked s + 1 = (\<Sum>d \<in> C. int (length (wtg ?a d)))"
      using R sum_waiters [OF fin c, of "wtg a"] by (simp add: sched_rep_def)
    moreover have "all_cprocs ?a = all_cprocs a" using a by (auto simp: all_cprocs_def split: if_splits)
    ultimately have "sched_rep C ps ?s ?a"
      using False by (intro sched_rep_move [OF R]) (simp_all add: f3)
    then show ?thesis using w a False by (simp add: f3)
  qed
qed

lemma all_waiters_upd: "(\<Union>d. set ((w(c := x)) d)) = set x \<union> (\<Union>d \<in> - {c}. set (w d))"
  by (auto split: if_splits)

lemma all_waiters: "(\<Union>d. set (w d)) = set (w c) \<union> (\<Union>d \<in> - {c}. set (w d))"
  using all_waiters_upd [of w c "w c"] by simp

lemma sched_update_commute: "a\<lparr>wtg := w, rdy := r\<rparr> = a\<lparr>rdy := r, wtg := w\<rparr>"
  by (cases a) simp

lemma dropped_waiter:
  assumes "queues_apart a" and "x \<in> set (wtg a c)" and "x \<notin> set vs"
  shows "x \<notin> all_cprocs (a\<lparr>wtg := (wtg a)(c := vs)\<rparr>)"
proof
  assume "x \<in> all_cprocs (a\<lparr>wtg := (wtg a)(c := vs)\<rparr>)"
  then consider "x \<in> set (rdy a)" | d where "d \<noteq> c" "x \<in> set (wtg a d)"
    using assms(3) all_waiters_upd [of "wtg a" c vs] by (auto simp: all_cprocs_def split: if_splits)
  then show False using assms(2) queues_apartD(1) [OF assms(1), of c] queues_apartD(2) [OF assms(1)] by cases blast+
qed

text \<open>What waking the cprocs \<open>us\<close> changes, apart from the queues.\<close>

definition woken :: "ptr list \<Rightarrow> coro_state \<Rightarrow> coro_state \<Rightarrow> bool" where
  "woken us s s' \<longleftrightarrow> n_blocked s' = n_blocked s - int (length us)
     \<and> (\<forall>r. cstate (procs s' r) = (if r \<in> set us then CPROC_RUNNING else cstate (procs s r)))
     \<and> (\<forall>r. link (procs s' r) = link (procs s r)) \<and> (\<forall>r. ctx (procs s' r) = ctx (procs s r))
     \<and> cprocs s' = cprocs s \<and> cproc_lock s' = cproc_lock s
     \<and> conds s' = conds s \<and> current s' = current s \<and> mutexes s' = mutexes s"

lemma woken_none: "woken [] s s"
  by (simp add: woken_def)

lemma woken_one: "woken [p] s (cproc_continue p s)"
  by (simp add: woken_def cproc_continue_def Let_def)

lemma woken_trans: "woken us s s1 \<Longrightarrow> woken vs s1 s2 \<Longrightarrow> woken (us @ vs) s s2"
  by (simp add: woken_def)

lemma continue_queues:
  assumes "queues_rep C s a" and "p \<noteq> 0" and "p \<notin> all_cprocs a"
  shows "queues_rep C (cproc_continue p s) (a\<lparr>rdy := rdy a @ [p]\<rparr>)"
proof -
  let ?s = "upd_cproc p (\<lambda>x. x\<lparr>cstate := CPROC_RUNNING\<rparr>) s"
  have "queues_rep C ?s a" using assms(1) by (subst queues_rep_cong [of _ s]) simp_all
  then have "queues_rep C (ready_enq p ?s) (a\<lparr>rdy := rdy a @ [p]\<rparr>)" using assms(2,3) by (rule queues_rep_ready_enq)
  then show ?thesis by (subst queues_rep_cong [of _ "ready_enq p ?s"]) (simp_all add: cproc_continue_def Let_def)
qed

lemma continue_keeps_queue:
  assumes "queues_rep C s a" and "queue_rep (nxt s) q ws" and "set ws \<inter> all_cprocs a = {}" and "p \<notin> set ws"
  shows "queue_rep (nxt (cproc_continue p s)) q ws"
proof -
  obtain n r where e: "cthread_queue_enq (nxt s) (ready s) p = (n, r)" by fastforce
  have "queue_rep (nxt s) (ready s) (rdy a)" "set (rdy a) \<inter> set ws = {}"
    using assms(1,3) by (auto simp: queues_rep_def all_cprocs_def)
  then have "queue_rep n q ws" using ctq.enq_other [OF _ assms(2) _ assms(4) e] by blast
  then show ?thesis using e by (simp add: cproc_continue_def ready_enq_def Let_def)
qed

lemma continue_all_queues:
  assumes "queues_rep C s a" and "queue_rep (nxt s) q ws" and "set ws \<inter> all_cprocs a = {}"
  shows "\<exists>s'. continue_all q s = Some s' \<and> queues_rep C s' (a\<lparr>rdy := rdy a @ ws\<rparr>) \<and> woken ws s s'"
  using assms
proof (induction ws arbitrary: q s a)
  case Nil
  then show ?case using queue_deq_Nil [of "nxt s" q] woken_none by (simp add: continue_all.simps)
next
  case (Cons p ws)
  obtain q' x where d: "cthread_queue_deq (nxt s) q = (q', x)" by fastforce
  have x: "queue_rep (nxt s) q' ws" "x = p" using queue_rep_deq [OF Cons.prems(2) d] by auto
  have p: "p \<noteq> 0" "p \<notin> set ws" "p \<notin> all_cprocs a" "set ws \<inter> all_cprocs a = {}"
    using ctq.rep_members [OF Cons.prems(2)] Cons.prems(3) by auto
  let ?s = "cproc_continue p s" and ?a = "a\<lparr>rdy := rdy a @ [p]\<rparr>"
  have "queues_rep C ?s ?a" by (rule continue_queues [OF Cons.prems(1) p(1,3)])
  moreover have "queue_rep (nxt ?s) q' ws" by (rule continue_keeps_queue [OF Cons.prems(1) x(1) p(4,2)])
  moreover have "set ws \<inter> all_cprocs ?a = {}" using p by (auto simp: all_cprocs_def)
  ultimately obtain s' where "continue_all q' ?s = Some s'" "queues_rep C s' (?a\<lparr>rdy := rdy ?a @ ws\<rparr>)" "woken ws ?s s'"
    using Cons.IH by blast
  moreover have "continue_all q s = continue_all q' ?s" using d x p by (subst continue_all.simps) simp
  ultimately show ?case using woken_trans [OF woken_one [of p s]] by simp
qed

lemma wake_refines:
  assumes R: "sched_rep C ps s a" and c: "c \<in> C" and w: "wtg a c = us @ vs" and k: "woken us s1 s'"
    and s1: "procs s1 = procs s" "n_blocked s1 = n_blocked s" "cprocs s1 = cprocs s" "cproc_lock s1 = cproc_lock s"
      "current s1 = current s" "\<And>d. c_lock (conds s1 d) = c_lock (conds s d)"
    and Q: "queues_rep C s' (a\<lparr>rdy := rdy a @ us, wtg := (wtg a)(c := vs)\<rparr>)"
  shows "sched_rep C ps s' (a\<lparr>rdy := rdy a @ us, wtg := (wtg a)(c := vs)\<rparr>)" (is "sched_rep C ps s' ?a")
proof (rule sched_rep_move [OF R Q])
  have fin: "finite C" and ap: "queues_apart ?a" using R Q by (auto simp: sched_rep_def queues_rep_def)
  have v: "p \<notin> set us" if "p \<in> set (wtg ?a d)" for p d using queues_apartD(1) [OF ap, of d] that by auto
  show "states_ok s' ?a" unfolding states_ok_def
  proof (intro conjI allI ballI)
    show "cstate (procs s' p) = CPROC_RUNNING" if "p \<in> set (rdy ?a)" for p
      using R k s1(1) that by (auto simp: sched_rep_def states_ok_def woken_def)
    show "cstate (procs s' p) = CPROC_BLOCKED" if "p \<in> set (wtg ?a d)" for p d
    proof -
      have "p \<in> set (wtg a d)" using that w by (auto split: if_splits)
      then show ?thesis using R k s1(1) v [OF that] by (auto simp: sched_rep_def states_ok_def woken_def)
    qed
  qed
  show "n_blocked s' = (\<Sum>d \<in> C. int (length (wtg ?a d)))"
    using R k s1(2) sum_waiters [OF fin c, of "wtg a" vs] w by (simp add: sched_rep_def woken_def)
  show "all_cprocs ?a = all_cprocs a"
    unfolding all_cprocs_def all_waiters [of "wtg a" c] using all_waiters_upd [of "wtg a" c vs] w by auto
  show "current s' = hd (rdy ?a)" "rdy ?a \<noteq> []" using R k s1(5) by (auto simp: sched_rep_def woken_def)
qed (use k s1 in \<open>auto simp: woken_def\<close>)

lemma broadcast_refines:
  assumes R: "sched_rep C ps s a" and c: "c \<in> C"
  shows "\<exists>s'. cond_broadcast c s = Inr s'
    \<and> sched_rep C ps s' (a\<lparr>rdy := rdy a @ wtg a c, wtg := (wtg a)(c := [])\<rparr>) \<and> mutexes s' = mutexes s"
proof -
  let ?q = "c_queue (conds s c)" and ?a = "a\<lparr>wtg := (wtg a)(c := [])\<rparr>"
  let ?s = "upd_cond c (\<lambda>x. x\<lparr>c_queue := cthread_queue_init (c_queue x)\<rparr>) s"
  have Q: "queues_rep C s a" and l: "c_lock (conds s c) = 0" using R c by (auto simp: sched_rep_def)
  define s3 where "s3 = upd_cond c (\<lambda>x. x\<lparr>c_queue := cthread_queue_init (c_queue x), c_lock := 0\<rparr>) s"
  have "queues_rep C ?s ?a"
    using queues_rep_drop [OF Q c, of "cthread_queue_init ?q" "[]"] by (simp add: upd_cond_def)
  then have Q3: "queues_rep C s3 ?a" by (subst queues_rep_cong [of s3 ?s]) (simp_all add: s3_def)
  have w: "queue_rep (nxt s3) ?q (wtg a c)" using Q c by (simp add: queues_rep_def s3_def)
  have ap: "queues_apart a" using Q by (simp add: queues_rep_def)
  have "set (wtg a c) \<inter> all_cprocs ?a = {}"
    using dropped_waiter [OF ap, of _ c "[]"] by auto
  from continue_all_queues [OF Q3 w this] obtain s' where k: "continue_all ?q s3 = Some s'"
      "queues_rep C s' (?a\<lparr>rdy := rdy ?a @ wtg a c\<rparr>)" "woken (wtg a c) s3 s'" by blast
  have b: "cond_broadcast c s = Inr s'"
    using k(1) l by (simp add: cond_broadcast_def Let_def s3_def upd_cond_def)
  have "sched_rep C ps s' (a\<lparr>rdy := rdy a @ wtg a c, wtg := (wtg a)(c := [])\<rparr>)"
    using k(2) l by (intro wake_refines [OF R c _ k(3)]) (simp_all add: s3_def sched_update_commute)
  then show ?thesis using b k(3) by (simp add: woken_def s3_def)
qed

lemma signal_refines:
  assumes R: "sched_rep C ps s a" and c: "c \<in> C"
  shows "\<exists>s'. cond_signal c s = Inr s'
    \<and> sched_rep C ps s' (a\<lparr>rdy := rdy a @ take 1 (wtg a c), wtg := (wtg a)(c := drop 1 (wtg a c))\<rparr>)
    \<and> mutexes s' = mutexes s"
proof -
  obtain q p where d: "cthread_queue_deq (nxt s) (c_queue (conds s c)) = (q, p)" by fastforce
  have Q: "queues_rep C s a" and l: "c_lock (conds s c) = 0" using R c by (auto simp: sched_rep_def)
  have w: "queue_rep (nxt s) (c_queue (conds s c)) (wtg a c)" using Q c by (simp add: queues_rep_def)
  let ?us = "take 1 (wtg a c)" and ?vs = "drop 1 (wtg a c)"
  let ?a = "a\<lparr>wtg := (wtg a)(c := ?vs)\<rparr>" and ?s = "upd_cond c (\<lambda>x. x\<lparr>c_queue := q\<rparr>) s"
  define s3 where "s3 = upd_cond c (\<lambda>x. x\<lparr>c_queue := q, c_lock := 0\<rparr>) s"
  have qr: "queue_rep (nxt s) q ?vs \<and> ?us = (if p = 0 then [] else [p])"
  proof (cases "wtg a c")
    case Nil
    then show ?thesis using w d queue_deq_Nil [of "nxt s"] by simp
  next
    case (Cons x xs)
    then show ?thesis using w d queue_rep_deq [of "nxt s" _ x xs q p] ctq.rep_members [OF w] by auto
  qed
  have "queues_rep C ?s ?a" using queues_rep_drop [OF Q c, of q ?vs] qr set_drop_subset [of 1 "wtg a c"] by blast
  then have Q3: "queues_rep C s3 ?a" by (subst queues_rep_cong [of s3 ?s]) (simp_all add: s3_def)
  define s' where "s' = (if p = 0 then s3 else cproc_continue p s3)"
  have g: "cond_signal c s = Inr s'" using d l by (simp add: cond_signal_def Let_def s3_def upd_cond_def s'_def)
  have k: "woken ?us s3 s'" using qr woken_none woken_one by (simp add: s'_def)
  have "queues_rep C s' (a\<lparr>rdy := rdy a @ ?us, wtg := (wtg a)(c := ?vs)\<rparr>)"
  proof (cases "p = 0")
    case True
    then show ?thesis using Q3 qr by (simp add: s'_def)
  next
    case False
    then have u: "?us = [p]" using qr by simp
    then have e: "wtg a c = p # ?vs" by (metis append_Cons append_Nil append_take_drop_id)
    have ap: "queues_apart a" using Q by (simp add: queues_rep_def)
    have "p \<notin> all_cprocs ?a"
      using ctq.rep_members [OF w] e by (intro dropped_waiter [OF ap]) (metis list.set_intros(1), metis distinct.simps(2))
    then show ?thesis using continue_queues [OF Q3 False] False u by (simp add: s'_def sched_update_commute)
  qed
  then have "sched_rep C ps s' (a\<lparr>rdy := rdy a @ ?us, wtg := (wtg a)(c := ?vs)\<rparr>)"
    using l by (intro wake_refines [OF R c _ k]) (simp_all add: s3_def)
  then show ?thesis using g k by (simp add: woken_def s3_def)
qed

lemma create_refines:
  assumes R: "sched_rep C ps s a" and p: "p \<noteq> 0" "p \<notin> all_cprocs a"
  shows "\<exists>s'. cproc_create p s = Inr s' \<and> sched_rep C (p # ps) s' (a\<lparr>rdy := p # rdy a\<rparr>) \<and> mutexes s' = mutexes s"
proof -
  have l: "cproc_lock s = 0" and Q: "queues_rep C s a" using R by (auto simp: sched_rep_def)
  define s1 where "s1 = (upd_cproc p (\<lambda>x. x\<lparr>incarnation := 0, cstate := CPROC_RUNNING, reply_port := 0, link := cprocs s\<rparr>) s)
      \<lparr>cprocs := p, cproc_lock := 0\<rparr>"
  have al: "cproc_alloc p s = Inr s1" using l p by (simp add: cproc_alloc_def Let_def s1_def upd_cproc_def)
  define s2 where "s2 = ready_preq p s1"
  define s' where "s' = upd_cproc p (\<lambda>x. x\<lparr>ctx := Return\<rparr>) (cproc_switch (current s) Return p s2)"
  have g: "cproc_create p s = Inr s'" by (simp add: cproc_create_def al Let_def s2_def s'_def)
  have "queues_rep C s1 a" using Q by (subst queues_rep_cong [of s1 s]) (simp_all add: s1_def)
  then have "queues_rep C s2 (a\<lparr>rdy := p # rdy a\<rparr>)" using queues_rep_ready_preq p by (simp add: s2_def)
  then have Q': "queues_rep C s' (a\<lparr>rdy := p # rdy a\<rparr>)"
    by (subst queues_rep_cong [of s' s2]) (simp_all add: s'_def)
  have c: "current s \<in> all_cprocs a" using sched_rep_head [OF R] by (auto simp: all_cprocs_def)
  have f: "cprocs s' = p" "cproc_lock s' = 0" "n_blocked s' = n_blocked s" "conds s' = conds s" "current s' = p"
      "mutexes s' = mutexes s" "\<And>r. r \<noteq> p \<Longrightarrow> cstate (procs s' r) = cstate (procs s r)"
      "\<And>r. link (procs s' r) = (if r = p then cprocs s else link (procs s r))" "cstate (procs s' p) = CPROC_RUNNING"
    using c p(2) by (auto simp: s'_def s2_def s1_def)
  have ps: "chain (\<lambda>r. link (procs s r)) (cprocs s) ps" "set ps = all_cprocs a" using R by (auto simp: sched_rep_def)
  have "chain (\<lambda>r. link (procs s' r)) (cprocs s) ps = chain (\<lambda>r. link (procs s r)) (cprocs s) ps"
    using ps(2) p(2) by (intro chain_cong) (auto simp: f)
  then have "chain (\<lambda>r. link (procs s' r)) (cprocs s') (p # ps)" using ps p f by simp
  moreover have "states_ok s' (a\<lparr>rdy := p # rdy a\<rparr>)"
  proof -
    have "cstate (procs s' r) = (if r = p then CPROC_RUNNING else cstate (procs s r))" for r using f(7,9) by simp
    then show ?thesis using R p(2) unfolding sched_rep_def states_ok_def all_cprocs_def by auto
  qed
  moreover have "set (p # ps) = all_cprocs (a\<lparr>rdy := p # rdy a\<rparr>)" using ps by (auto simp: all_cprocs_def)
  ultimately have "sched_rep C (p # ps) s' (a\<lparr>rdy := p # rdy a\<rparr>)" using R Q' f by (simp add: sched_rep_def)
  then show ?thesis using g f by blast
qed

lemma init_cond_refines:
  assumes R: "sched_rep C ps s a" and c: "wtg a c = []"
  shows "sched_rep (insert c C) ps (condition_init c s) (a\<lparr>wtg := (wtg a)(c := [])\<rparr>)"
proof -
  have e: "a\<lparr>wtg := (wtg a)(c := [])\<rparr> = a" using c by (simp add: fun_upd_idem)
  have "(\<Sum>d \<in> insert c C. int (length (wtg a d))) = (\<Sum>d \<in> C. int (length (wtg a d)))"
    using R c by (cases "c \<in> C") (auto simp: sched_rep_def insert_absorb)
  then show ?thesis unfolding e using R c by (auto simp: sched_rep_def queues_rep_def states_ok_def condition_init_def)
qed

section \<open>Properties\<close>

fun legal :: "ptr set \<Rightarrow> call \<Rightarrow> sched \<Rightarrow> bool" where
  "legal C (Init_cond c) a = (wtg a c = [])"
| "legal C (Create p) a = (p \<noteq> 0 \<and> p \<notin> all_cprocs a)"
| "legal C (Wait c m) a = (c \<in> C)"
| "legal C (Signal c) a = (c \<in> C)"
| "legal C (Broadcast c) a = (c \<in> C)"
| "legal C _ a = True"

fun conds_after :: "call \<Rightarrow> ptr set \<Rightarrow> ptr set" where
  "conds_after (Init_cond c) C = insert c C"
| "conds_after _ C = C"

fun cprocs_after :: "call \<Rightarrow> ptr list \<Rightarrow> ptr list" where
  "cprocs_after (Create p) ps = p # ps"
| "cprocs_after _ ps = ps"

lemma no_waiters_iff:
  assumes "sched_rep C ps s a" and "c \<in> C"
  shows "cq_head (c_queue (conds s c)) = 0 \<longleftrightarrow> wtg a c = []"
proof -
  have w: "queue_rep (nxt s) (c_queue (conds s c)) (wtg a c)" using assms by (simp add: sched_rep_def queues_rep_def)
  show ?thesis using queue_rep_head [OF w] ctq.rep_members [OF w] by (cases "wtg a c") (auto simp: cthread_queue_head_def)
qed

lemma idle_wakeup: "wtg a c = [] \<Longrightarrow> a\<lparr>rdy := rdy a @ take n (wtg a c), wtg := (wtg a)(c := drop n (wtg a c))\<rparr> = a"
  by (simp add: fun_upd_idem)

text \<open>
  The scheduling part of the refinement: every legal call has the effect of the abstract call on
  the list of runnable cprocs and on the lists of waiters, with all invariants of the
  representation kept, or ends with all cprocs blocked.  \<open>Cthread_Monitor\<close> adds the mutexes and the
  suspended contexts.
\<close>

lemma scheduler_refines:
  assumes "sched_rep C ps s a" and "legal C call a"
  shows "case sched_call (wants_free call s) call a of
      None \<Rightarrow> coro_call lim call s = Inl All_blocked
    | Some a' \<Rightarrow> \<exists>s'. coro_call lim call s = Inr s' \<and> sched_rep (conds_after call C) (cprocs_after call ps) s' a'"
proof (cases call)
  case (Wait c m)
  then show ?thesis using wait_refines [OF assms(1), of c m True] assms(2)
    by (auto split: option.splits if_splits)
next
  case (Signal c)
  then show ?thesis using signal_refines [OF assms(1), of c] assms no_waiters_iff [OF assms(1), of c] idle_wakeup [of a c 1]
    by (cases "wtg a c = []") (auto simp: condition_signal_def)
next
  case (Broadcast c)
  then show ?thesis using broadcast_refines [OF assms(1), of c] assms no_waiters_iff [OF assms(1), of c] idle_wakeup [of a c 1]
    by (cases "wtg a c = []") (auto simp: condition_broadcast_def)
next
  case (Create p)
  then show ?thesis using create_refines [OF assms(1), of p] assms(2) by auto
next
  case (Unlock m)
  then show ?thesis using assms(1) by (auto simp: mutex_release_def intro!: sched_rep_cong [OF assms(1)])
next
  case Resume
  then show ?thesis using resume_refines [OF assms(1), of lim] by (auto split: if_splits)
qed (use assms in \<open>simp_all add: init_cond_refines yield_refines mutex_lock_refines\<close>)

definition coro_start :: coro_state where
  "coro_start = \<lparr>nxt = (\<lambda>_. 0), procs = (\<lambda>_. \<lparr>incarnation = 0, cstate = CPROC_SPINNING, reply_port = 0, link = 0, ctx = Return\<rparr>),
     cprocs_started = False, ready = QUEUE_INITIALIZER, n_blocked = 0, cproc_lock = 0, cprocs = 0,
     conds = (\<lambda>_. \<lparr>c_lock = 0, c_queue = QUEUE_INITIALIZER\<rparr>), mutexes = (\<lambda>_. 0), current = 0\<rparr>"

text \<open>\<open>cproc_init\<close> establishes the representation, with one runnable cproc.\<close>

lemma cproc_init_rep:
  assumes "ready s = QUEUE_INITIALIZER" and "cproc_lock s = 0" and "cprocs s = 0" and "p \<noteq> 0"
  shows "\<exists>s'. cproc_init p s = Inr s' \<and> sched_rep {} [p] s' \<lparr>rdy = [p], wtg = \<lambda>_. []\<rparr>"
  using assms
  by (simp add: cproc_init_def cproc_alloc_def Let_def ready_enq_def cthread_queue_enq_def QUEUE_INITIALIZER_def
      sched_rep_def queues_rep_def queue_rep_def queues_apart_def states_ok_def all_cprocs_def)

text \<open>
  (C31) \<^bold>\<open>Yielding is round robin\<close>: if every cproc only yields, the cproc that runs after \<open>i\<close>
  yields is the one at position \<open>i\<close> (modulo the number of runnable cprocs) of the ready
  queue, and after one round the queue is what it was.
\<close>

theorem yield_round_robin:
  assumes "sched_rep C ps s a"
  shows "current ((cthread_yield Return ^^ i) s) = rdy a ! (i mod length (rdy a))
    \<and> sched_rep C ps ((cthread_yield Return ^^ length (rdy a)) s) a"
proof -
  have R: "sched_rep C ps ((cthread_yield Return ^^ i) s) (a\<lparr>rdy := rotate i (rdy a)\<rparr>)" for i
  proof (induction i)
    case 0
    then show ?case using assms by simp
  next
    case (Suc i)
    then show ?case using yield_refines [OF Suc] by (simp add: rotate_ready_def)
  qed
  have "rdy a \<noteq> []" using assms by (simp add: sched_rep_def)
  then have "hd (rotate i (rdy a)) = rdy a ! (i mod length (rdy a))" by (rule hd_rotate_conv_nth)
  moreover have "current ((cthread_yield Return ^^ i) s) = hd (rotate i (rdy a))" using R [of i] by (simp add: sched_rep_def)
  ultimately show ?thesis using R [of "length (rdy a)"] by simp
qed

theorem yield_round_robin_witness:
  "\<exists>s. Inr s = cproc_init 8 coro_start \<and> current ((cthread_yield Return ^^ 5) s) = 8"
proof -
  obtain s where i: "cproc_init 8 coro_start = Inr s" and R: "sched_rep {} [8] s \<lparr>rdy = [8], wtg = \<lambda>_. []\<rparr>"
    using cproc_init_rep [of coro_start 8] by (auto simp: coro_start_def)
  from yield_round_robin [OF R, of 5] i show ?thesis by (intro exI [of _ s]) simp
qed

section \<open>The child of a fork\<close>

lemma keep_self_links: "r \<noteq> p \<Longrightarrow> procs (keep_self p s) r = procs s r"
  by (simp add: keep_self_def Let_def)

lemma count_distinct: "distinct zs \<Longrightarrow> count_list zs r = (if r \<in> set zs then 1 else 0)"
  by (induction zs) auto

text \<open>Before the loop has met the running cproc and after it.\<close>

lemma fork_cprocs_others:
  assumes "chain (\<lambda>r. link (procs s r)) p (xs @ ys)" and "current s \<notin> set xs"
  shows "fork_cprocs p rel s = fork_cprocs (case ys of [] \<Rightarrow> 0 | y # _ \<Rightarrow> y) (rel @ concat (map (\<lambda>r. release_cproc r s) xs)) s"
  using assms
proof (induction xs arbitrary: p rel)
  case Nil
  then show ?case by (cases ys) auto
next
  case (Cons x xs)
  have x: "p = x" "x \<noteq> 0" "current s \<noteq> x" "chain (\<lambda>r. link (procs s r)) (link (procs s x)) (xs @ ys)"
    using Cons.prems by auto
  then have "fork_cprocs p rel s = fork_cprocs (link (procs s x)) (rel @ release_cproc x s) s"
    by (subst fork_cprocs.simps) simp
  then show ?case using Cons.IH [OF x(4)] Cons.prems(2) by simp
qed

lemma fork_cprocs_all:
  assumes "chain (\<lambda>r. link (procs s r)) p (xs @ current s # ys)"
  shows "fork_cprocs p [] s =
    Some (concat (map (\<lambda>r. release_cproc r s) (xs @ ys)), keep_self (current s) s)"
proof -
  let ?p = "current s" and ?s = "keep_self (current s) s"
  have d: "distinct (xs @ ?p # ys)" by (rule chain_distinct [OF assms])
  then have k: "\<forall>r \<in> set ys. procs ?s r = procs s r" using keep_self_links by (metis distinct.simps(2) distinct_append)
  have c: "chain (\<lambda>r. link (procs s r)) ?p (?p # ys)" by (rule chain_suffix [OF assms])
  then have "chain (\<lambda>r. link (procs s r)) (link (procs s ?p)) (ys @ [])" "?p \<noteq> 0" by auto
  moreover have "chain (\<lambda>r. link (procs ?s r)) (link (procs s ?p)) (ys @ []) =
      chain (\<lambda>r. link (procs s r)) (link (procs s ?p)) (ys @ [])"
    using k by (intro chain_cong) simp
  moreover have "concat (map (\<lambda>r. release_cproc r ?s) ys) = concat (map (\<lambda>r. release_cproc r s) ys)"
    using k by (intro arg_cong [where f = concat] map_cong) (simp_all add: release_cproc_def)
  moreover have "current ?s = ?p" by (simp add: keep_self_def Let_def)
  ultimately have "fork_cprocs (link (procs s ?p)) rel ?s = Some (rel @ concat (map (\<lambda>r. release_cproc r s) ys), ?s)" for rel
    using fork_cprocs_others [of ?s "link (procs s ?p)" ys "[]" rel] d fork_cprocs.simps [of 0] by auto
  moreover have "fork_cprocs ?p rel s = fork_cprocs (link (procs s ?p)) rel ?s" for rel
    using \<open>?p \<noteq> 0\<close> by (subst fork_cprocs.simps) simp
  ultimately show ?thesis using fork_cprocs_others [OF assms, of "[]"] d by simp
qed

text \<open>
  \<^bold>\<open>After a fork the child has one cproc\<close>: \<open>cproc_fork_child\<close> returns, leaves a
  scheduler with the running cproc as the only one, runnable, and releases the stack and the
  structure of every other cproc exactly once, and nothing of the running one.
\<close>

theorem cproc_fork_child_single:
  assumes "sched_rep C ps s a"
  shows "\<exists>rel s'. cproc_fork_child s = Some (rel, s')
    \<and> sched_rep {} [current s] s' \<lparr>rdy = [current s], wtg = \<lambda>_. []\<rparr>
    \<and> (\<forall>r. count_list rel (Dealloc_stack r) = (if r \<in> set ps \<and> r \<noteq> current s then 1 else 0)
         \<and> count_list rel (Free_cproc r) = (if r \<in> set ps \<and> r \<noteq> current s then 1 else 0))"
proof -
  let ?p = "current s" and ?s = "s\<lparr>ready := cthread_queue_init (ready s), n_blocked := 0, cproc_lock := 0\<rparr>"
  have c: "chain (\<lambda>r. link (procs s r)) (cprocs s) ps" and m: "?p \<in> set ps"
    using assms sched_rep_head [OF assms] by (auto simp: sched_rep_def all_cprocs_def)
  then obtain xs ys where ps: "ps = xs @ ?p # ys" by (auto dest: split_list)
  have d: "distinct ps" by (rule chain_distinct [OF c])
  have "fork_cprocs (cprocs s) [] ?s = Some (concat (map (\<lambda>r. release_cproc r ?s) (xs @ ys)), keep_self ?p ?s)"
    using fork_cprocs_all [of ?s "cprocs s" xs ys] c ps by simp
  moreover have "?p \<noteq> 0" using chain_members [OF c] m by metis
  then have "sched_rep {} [?p] (keep_self ?p ?s) \<lparr>rdy = [?p], wtg = \<lambda>_. []\<rparr>"
    by (simp add: keep_self_def Let_def ready_enq_def cthread_queue_enq_def cthread_queue_init_def sched_rep_def
        queues_rep_def queue_rep_def queues_apart_def states_ok_def all_cprocs_def)
  moreover have "count_list (concat (map (\<lambda>r. release_cproc r t) zs)) (Dealloc_stack r) = count_list zs r
      \<and> count_list (concat (map (\<lambda>r. release_cproc r t) zs)) (Free_cproc r) = count_list zs r" for t zs r
    by (induction zs) (auto simp: release_cproc_def)
  moreover have "count_list (xs @ ys) r = (if r \<in> set ps \<and> r \<noteq> ?p then 1 else 0)" for r
    using d unfolding ps by (auto simp: count_distinct)
  ultimately show ?thesis unfolding cproc_fork_child_def Let_def
    by (intro exI [of _ "concat (map (\<lambda>r. release_cproc r ?s) (xs @ ys))"] exI [of _ "keep_self ?p ?s"]) simp
qed

theorem cproc_fork_child_single_witness:
  "\<exists>s rel s'. cproc_init 8 coro_start = Inr s \<and> cproc_fork_child s = Some (rel, s')
     \<and> sched_rep {} [8] s' \<lparr>rdy = [8], wtg = \<lambda>_. []\<rparr>"
proof -
  obtain s where i: "cproc_init 8 coro_start = Inr s" and R: "sched_rep {} [8] s \<lparr>rdy = [8], wtg = \<lambda>_. []\<rparr>"
    using cproc_init_rep [of coro_start 8] by (auto simp: coro_start_def)
  have "current s = 8" using R by (simp add: sched_rep_def)
  with cproc_fork_child_single [OF R] i show ?thesis by auto
qed

end
