(* ===== verification/Cthread_Threads.thy ===== *)
theory Cthread_Threads
  imports Cthread_Queue Cthread_Sync
begin

text \<open>
  The threads of the C Threads package, \<open>mach/lib/threads/cthreads.c\<close>: thread structures and
  their free list, forking, the loop every cproc runs, detaching, joining and exiting.  The
  cprocs are interleaved: a step is what one cproc does between two points where another may
  run (a mutex it takes, a condition variable it waits for, the creation of a cproc), and its
  place in the code is a value of \<open>place\<close>.  A step that takes a mutex is \<open>None\<close> while the mutex
  is held.  The waiters of a condition variable are a list, in the order \<open>Cthread_Coroutine\<close>
  serves them.  Functions, arguments and results are numbers; a function's return is a step
  with the result as an argument, as are the pointers \<open>malloc\<close> and \<open>cproc_create\<close> return.
\<close>

section \<open>State\<close>

text \<open>The status bits \<open>T_MAIN\<close>, \<open>T_RETURNED\<close> and \<open>T_DETACHED\<close> are three fields.\<close>

record cthread =
  t_lock :: int
  T_MAIN :: bool
  T_RETURNED :: bool
  T_DETACHED :: bool
  t_func :: nat
  t_arg :: nat
  t_result :: nat
  t_name :: string

definition initial_cthread :: cthread where
  "initial_cthread = \<lparr>t_lock = 0, T_MAIN = False, T_RETURNED = False, T_DETACHED = False,
     t_func = 0, t_arg = 0, t_result = 0, t_name = []\<rparr>"

text \<open>
  The places of a cproc: in client code; before the mutex of \<open>cthread_body\<close>, at its start or
  woken; waiting for \<open>cthread_needed\<close>; in \<open>cthread_fork\<close> after the critical section; after the
  function has returned; about to signal \<open>done\<close>; before the thread count is taken down; in
  \<open>cthread_join\<close> before the lock and waiting; in \<open>cthread_exit\<close> of the main thread before
  the lock and waiting; gone.
\<close>

datatype place =
  Client | Body | Needed | Forked ptr | Finish ptr | Signal_done ptr | Count | Join ptr | Done_wait ptr
  | Exiting | Idle_wait | Gone

record thr_state =
  tnxt :: "ptr \<Rightarrow> ptr"
  thr :: "ptr \<Rightarrow> cthread"
  cthreads :: cthread_queue
  cthread_lock :: int
  cthread_needed :: "ptr list"
  cthread_idle :: "ptr list"
  done_of :: "ptr \<Rightarrow> ptr list"
  n_cprocs :: int
  n_cthreads :: int
  max_cprocs :: int
  free_cthreads :: ptr
  cthread_free_lock :: int
  assoc :: "ptr \<Rightarrow> ptr"
  at :: "ptr \<Rightarrow> place"
  cprocs_of :: "ptr list"

definition upd_thr :: "ptr \<Rightarrow> (cthread \<Rightarrow> cthread) \<Rightarrow> thr_state \<Rightarrow> thr_state" where
  "upd_thr t f s = s\<lparr>thr := (thr s)(t := f (thr s t))\<rparr>"

definition goto :: "ptr \<Rightarrow> place \<Rightarrow> thr_state \<Rightarrow> thr_state" where
  "goto p l s = s\<lparr>at := (at s)(p := l)\<rparr>"

definition take_mutex :: "int \<Rightarrow> int option" where
  "take_mutex l = (case mutex_try_lock l of (ok, l') \<Rightarrow> if ok then Some l' else None)"

definition lock_cthreads :: "thr_state \<Rightarrow> thr_state option" where
  "lock_cthreads s = map_option (\<lambda>l. s\<lparr>cthread_lock := l\<rparr>) (take_mutex (cthread_lock s))"

definition unlock_cthreads :: "thr_state \<Rightarrow> thr_state" where
  "unlock_cthreads s = s\<lparr>cthread_lock := mutex_unlock (cthread_lock s)\<rparr>"

definition lock_thread :: "ptr \<Rightarrow> thr_state \<Rightarrow> thr_state option" where
  "lock_thread t s = map_option (\<lambda>l. upd_thr t (\<lambda>x. x\<lparr>t_lock := l\<rparr>) s) (take_mutex (t_lock (thr s t)))"

definition unlock_thread :: "ptr \<Rightarrow> thr_state \<Rightarrow> thr_state" where
  "unlock_thread t s = upd_thr t (\<lambda>x. x\<lparr>t_lock := mutex_unlock (t_lock x)\<rparr>) s"

text \<open>The conditions of this file: a woken cproc goes on to take its mutex again.\<close>

definition signal_needed :: "thr_state \<Rightarrow> thr_state" where
  "signal_needed s = (case cthread_needed s of [] \<Rightarrow> s | w # ws \<Rightarrow> goto w Body (s\<lparr>cthread_needed := ws\<rparr>))"

definition signal_idle :: "thr_state \<Rightarrow> thr_state" where
  "signal_idle s = (case cthread_idle s of [] \<Rightarrow> s | w # ws \<Rightarrow> goto w Exiting (s\<lparr>cthread_idle := ws\<rparr>))"

definition signal_done :: "ptr \<Rightarrow> thr_state \<Rightarrow> thr_state" where
  "signal_done t s =
     (case done_of s t of [] \<Rightarrow> s | w # ws \<Rightarrow> goto w (Join t) (s\<lparr>done_of := (done_of s)(t := ws)\<rparr>))"

section \<open>Thread structures\<close>

text \<open>\<open>m\<close> is what \<open>malloc\<close> returns if it is called.\<close>

definition cthread_alloc :: "ptr \<Rightarrow> nat \<Rightarrow> nat \<Rightarrow> thr_state \<Rightarrow> (ptr \<times> thr_state) option" where
  "cthread_alloc m func arg s =
     (case (if free_cthreads s \<noteq> 0 then
              (case spin_lock (cthread_free_lock s) of None \<Rightarrow> None
               | Some l \<Rightarrow>
                 (let s1 = s\<lparr>cthread_free_lock := l\<rparr>; t = free_cthreads s1;
                      s2 = (if t \<noteq> 0 then s1\<lparr>free_cthreads := tnxt s1 t\<rparr> else s1)
                  in Some (t, s2\<lparr>cthread_free_lock := spin_unlock (cthread_free_lock s2)\<rparr>)))
            else Some (0, s)) of
        None \<Rightarrow> None
      | Some (t1, s3) \<Rightarrow>
        (let t = (if t1 = 0 then m else t1);
             s4 = s3\<lparr>tnxt := (tnxt s3)(t := 0), thr := (thr s3)(t := initial_cthread), done_of := (done_of s3)(t := [])\<rparr>
         in Some (t, upd_thr t (\<lambda>x. x\<lparr>t_func := func, t_arg := arg\<rparr>) s4)))"

definition cthread_free :: "ptr \<Rightarrow> thr_state \<Rightarrow> thr_state option" where
  "cthread_free t s =
     (case spin_lock (cthread_free_lock s) of None \<Rightarrow> None
      | Some l \<Rightarrow>
        (let s1 = s\<lparr>cthread_free_lock := l\<rparr>;
             s2 = s1\<lparr>tnxt := (tnxt s1)(t := free_cthreads s1), free_cthreads := t\<rparr>
         in Some (s2\<lparr>cthread_free_lock := spin_unlock (cthread_free_lock s2)\<rparr>)))"

text \<open>\<open>p\<close> is the cproc \<open>cproc_init\<close> makes of the caller.\<close>

definition cthread_set_name :: "ptr \<Rightarrow> string \<Rightarrow> thr_state \<Rightarrow> thr_state" where
  "cthread_set_name t name s = upd_thr t (\<lambda>x. x\<lparr>t_name := name\<rparr>) s"

definition cthread_init :: "ptr \<Rightarrow> ptr \<Rightarrow> thr_state \<Rightarrow> thr_state option" where
  "cthread_init p m s =
     (let s1 = s\<lparr>cprocs_of := p # cprocs_of s, n_cprocs := 1\<rparr> in
      case cthread_alloc m 0 0 s1 of None \<Rightarrow> None
      | Some (t, s2) \<Rightarrow>
        (let s3 = cthread_set_name t ''main'' (upd_thr t (\<lambda>x. x\<lparr>T_MAIN := True\<rparr>) (s2\<lparr>n_cthreads := 1\<rparr>))
         in Some (goto p Client (s3\<lparr>assoc := (assoc s3)(p := t)\<rparr>))))"

definition cthread_name :: "ptr \<Rightarrow> thr_state \<Rightarrow> string" where
  "cthread_name t s = (if t = 0 then ''idle'' else if t_name (thr s t) = [] then ''?'' else t_name (thr s t))"

definition cthread_limit :: "thr_state \<Rightarrow> int" where
  "cthread_limit s = max_cprocs s"

definition cthread_set_limit :: "int \<Rightarrow> thr_state \<Rightarrow> thr_state" where
  "cthread_set_limit n s = s\<lparr>max_cprocs := n\<rparr>"

definition cthread_count :: "thr_state \<Rightarrow> int" where
  "cthread_count s = n_cthreads s"

section \<open>Forking\<close>

text \<open>
  \<open>cthread_fork\<close> up to the point where the child may run, with the lock held; the new cproc
  \<open>c\<close> starts in \<open>cthread_body\<close>.
\<close>

definition fork_begin :: "ptr \<Rightarrow> ptr \<Rightarrow> ptr \<Rightarrow> nat \<Rightarrow> nat \<Rightarrow> thr_state \<Rightarrow> thr_state option" where
  "fork_begin p m c func arg s =
     (if at s p \<noteq> Client then None
      else case lock_cthreads s of None \<Rightarrow> None
      | Some s1 \<Rightarrow>
        (case cthread_alloc m func arg s1 of None \<Rightarrow> None
         | Some (t, s2) \<Rightarrow>
           (case cthread_queue_enq (tnxt s2) (cthreads s2) t of (nx, q) \<Rightarrow>
              (let s3 = s2\<lparr>tnxt := nx, cthreads := q, n_cthreads := n_cthreads s2 + 1\<rparr>;
                   s4 = (if n_cthreads s3 > n_cprocs s3 \<and> (max_cprocs s3 = 0 \<or> n_cprocs s3 < max_cprocs s3)
                         then goto c Body (s3\<lparr>n_cprocs := n_cprocs s3 + 1, cprocs_of := c # cprocs_of s3,
                                              assoc := (assoc s3)(c := 0)\<rparr>)
                         else s3)
               in Some (goto p (Forked t) s4)))))"

definition fork_end :: "ptr \<Rightarrow> thr_state \<Rightarrow> thr_state option" where
  "fork_end p s = (case at s p of Forked t \<Rightarrow> Some (goto p Client (signal_needed (unlock_cthreads s))) | _ \<Rightarrow> None)"

section \<open>The loop of a cproc\<close>

text \<open>One round of the loop of \<open>cthread_body\<close>, with \<open>cthread_lock\<close> held.\<close>

definition body_round :: "ptr \<Rightarrow> thr_state \<Rightarrow> thr_state" where
  "body_round self s =
     (case cthread_queue_deq (tnxt s) (cthreads s) of (q, t) \<Rightarrow>
        (let s1 = s\<lparr>cthreads := q\<rparr> in
         if t \<noteq> 0
         then (let s2 = unlock_cthreads s1 in goto self Client (s2\<lparr>assoc := (assoc s2)(self := t)\<rparr>))
         else (let s2 = signal_idle s1
               in goto self Needed (unlock_cthreads (s2\<lparr>cthread_needed := cthread_needed s2 @ [self]\<rparr>)))))"

definition body_enter :: "ptr \<Rightarrow> thr_state \<Rightarrow> thr_state option" where
  "body_enter self s = (if at s self \<noteq> Body then None else map_option (body_round self) (lock_cthreads s))"

text \<open>
  The function returns, or \<open>cthread_exit\<close> jumps to the end of \<open>cthread_body\<close>.  When the main
  program returns, the C start-up code calls \<open>cthread_exit\<close>.
\<close>

definition cthread_exit :: "ptr \<Rightarrow> nat \<Rightarrow> thr_state \<Rightarrow> thr_state option" where
  "cthread_exit p result s =
     (if at s p \<noteq> Client then None
      else (let t = assoc s p; s1 = upd_thr t (\<lambda>x. x\<lparr>t_result := result\<rparr>) s in
            Some (goto p (if T_MAIN (thr s1 t) then Exiting else Finish t) s1)))"

definition body_finish :: "ptr \<Rightarrow> thr_state \<Rightarrow> thr_state option" where
  "body_finish self s =
     (case at s self of Finish t \<Rightarrow>
        (case lock_thread t s of None \<Rightarrow> None
         | Some s1 \<Rightarrow>
           if T_MAIN (thr s1 t) then Some (goto self Exiting (unlock_thread t s1))
           else if T_DETACHED (thr s1 t) then
             map_option (\<lambda>s2. goto self Count (s2\<lparr>assoc := (assoc s2)(self := 0)\<rparr>)) (cthread_free t (unlock_thread t s1))
           else Some (goto self (Signal_done t) (unlock_thread t (upd_thr t (\<lambda>x. x\<lparr>T_RETURNED := True\<rparr>) s1))))
      | _ \<Rightarrow> None)"

definition body_signal :: "ptr \<Rightarrow> thr_state \<Rightarrow> thr_state option" where
  "body_signal self s =
     (case at s self of Signal_done t \<Rightarrow>
        (let s1 = signal_done t s in Some (goto self Count (s1\<lparr>assoc := (assoc s1)(self := 0)\<rparr>)))
      | _ \<Rightarrow> None)"

definition body_count :: "ptr \<Rightarrow> thr_state \<Rightarrow> thr_state option" where
  "body_count self s =
     (if at s self \<noteq> Count then None
      else map_option (\<lambda>s1. body_round self (s1\<lparr>n_cthreads := n_cthreads s1 - 1\<rparr>)) (lock_cthreads s))"

section \<open>Detaching, joining, exiting\<close>

definition cthread_detach :: "ptr \<Rightarrow> ptr \<Rightarrow> thr_state \<Rightarrow> thr_state option" where
  "cthread_detach p t s =
     (if at s p \<noteq> Client then None
      else case lock_thread t s of None \<Rightarrow> None
      | Some s1 \<Rightarrow>
        if T_RETURNED (thr s1 t) then cthread_free t (unlock_thread t s1)
        else Some (unlock_thread t (upd_thr t (\<lambda>x. x\<lparr>T_DETACHED := True\<rparr>) s1)))"

definition cthread_join :: "ptr \<Rightarrow> ptr \<Rightarrow> thr_state \<Rightarrow> thr_state option" where
  "cthread_join p t s = (if at s p \<noteq> Client then None else Some (goto p (Join t) s))"

text \<open>One round of the loop of \<open>cthread_join\<close>; the result is present when it returns.\<close>

definition join_round :: "ptr \<Rightarrow> thr_state \<Rightarrow> (nat option \<times> thr_state) option" where
  "join_round p s =
     (case at s p of Join t \<Rightarrow>
        (case lock_thread t s of None \<Rightarrow> None
         | Some s1 \<Rightarrow>
           if \<not> T_RETURNED (thr s1 t)
           then Some (None, goto p (Done_wait t) (unlock_thread t (s1\<lparr>done_of := (done_of s1)(t := done_of s1 t @ [p])\<rparr>)))
           else (let r = t_result (thr s1 t) in
                 map_option (\<lambda>s2. (Some r, goto p Client s2)) (cthread_free t (unlock_thread t s1))))
      | _ \<Rightarrow> None)"

definition exit_round :: "ptr \<Rightarrow> thr_state \<Rightarrow> thr_state option" where
  "exit_round p s =
     (if at s p \<noteq> Exiting then None
      else case lock_cthreads s of None \<Rightarrow> None
      | Some s1 \<Rightarrow>
        if n_cthreads s1 > 1
        then Some (goto p Idle_wait (unlock_cthreads (s1\<lparr>cthread_idle := cthread_idle s1 @ [p]\<rparr>)))
        else Some (goto p Gone (unlock_cthreads s1)))"

end
