(* ===== verification/Cthread_Threads_Props.thy ===== *)
theory Cthread_Threads_Props
  imports Cthread_Threads
begin

text \<open>
  The life of a thread structure: in every interleaving of the cprocs in which the client joins
  or detaches each thread at most once, a structure is always in exactly one place, is freed
  exactly once, after its function has returned and it has been joined or detached, and the
  counters agree with the threads and cprocs there are.
\<close>

section \<open>Runs\<close>

text \<open>
  \<open>thr_reach A H res s\<close>: a run leads to \<open>s\<close>, where \<open>A\<close> are the structures obtained from
  \<open>malloc\<close>, \<open>H\<close> the threads the client may still join or detach and \<open>res\<close> the last
  result of each thread.
\<close>

inductive thr_reach :: "thr_state \<Rightarrow> ptr set \<Rightarrow> ptr set \<Rightarrow> (ptr \<Rightarrow> nat) \<Rightarrow> thr_state \<Rightarrow> bool" for st where
  init: "cthread_init p m st = Some s \<Longrightarrow> p \<noteq> 0 \<Longrightarrow> m \<noteq> 0 \<Longrightarrow> thr_reach st {m} {} (\<lambda>_. 0) s"
| fork: "thr_reach st A H res s \<Longrightarrow> fork_begin p m c func arg s = Some s' \<Longrightarrow> at s' p = Forked t
    \<Longrightarrow> m \<noteq> 0 \<Longrightarrow> m \<notin> A \<Longrightarrow> c \<noteq> 0 \<Longrightarrow> c \<notin> set (cprocs_of s) \<Longrightarrow> thr_reach st (insert t A) (insert t H) res s'"
| forked: "thr_reach st A H res s \<Longrightarrow> fork_end p s = Some s' \<Longrightarrow> thr_reach st A H res s'"
| enter: "thr_reach st A H res s \<Longrightarrow> body_enter p s = Some s' \<Longrightarrow> thr_reach st A H res s'"
| returns: "thr_reach st A H res s \<Longrightarrow> cthread_exit p r s = Some s' \<Longrightarrow> thr_reach st A H (res(assoc s p := r)) s'"
| finish: "thr_reach st A H res s \<Longrightarrow> body_finish p s = Some s' \<Longrightarrow> thr_reach st A H res s'"
| signal: "thr_reach st A H res s \<Longrightarrow> body_signal p s = Some s' \<Longrightarrow> thr_reach st A H res s'"
| count: "thr_reach st A H res s \<Longrightarrow> body_count p s = Some s' \<Longrightarrow> thr_reach st A H res s'"
| detach: "thr_reach st A H res s \<Longrightarrow> t \<in> H \<Longrightarrow> cthread_detach p t s = Some s' \<Longrightarrow> thr_reach st A (H - {t}) res s'"
| join: "thr_reach st A H res s \<Longrightarrow> t \<in> H \<Longrightarrow> cthread_join p t s = Some s' \<Longrightarrow> thr_reach st A (H - {t}) res s'"
| joining: "thr_reach st A H res s \<Longrightarrow> join_round p s = Some (r, s') \<Longrightarrow> thr_reach st A H res s'"
| exiting: "thr_reach st A H res s \<Longrightarrow> exit_round p s = Some s' \<Longrightarrow> thr_reach st A H res s'"
| limit: "thr_reach st A H res s \<Longrightarrow> thr_reach st A H res (cthread_set_limit n s)"

definition thr_start :: "int \<Rightarrow> thr_state" where
  "thr_start lim = \<lparr>tnxt = (\<lambda>_. 0), thr = (\<lambda>_. initial_cthread), cthreads = QUEUE_INITIALIZER, cthread_lock = 0,
     cthread_needed = [], cthread_idle = [], done_of = (\<lambda>_. []), n_cprocs = 0, n_cthreads = 0, max_cprocs = lim,
     free_cthreads = 0, cthread_free_lock = 0, assoc = (\<lambda>_. 0), at = (\<lambda>_. Gone), cprocs_of = []\<rparr>"

section \<open>The invariant\<close>

text \<open>The phase of a structure, and who will release it.\<close>

datatype phase = Unused | Queued | Running | Returned | Freed

datatype claim = Nobody | Main_thread | Handle | Joiner ptr | Detached

text \<open>The thread a cproc runs; a cproc about to signal \<open>done\<close> has given its thread up.\<close>

fun signalling :: "place \<Rightarrow> bool" where
  "signalling (Signal_done t) = True"
| "signalling _ = False"

definition own :: "thr_state \<Rightarrow> ptr \<Rightarrow> ptr" where
  "own s q = (if signalling (at s q) then 0 else assoc s q)"

definition busy :: "thr_state \<Rightarrow> ptr \<Rightarrow> bool" where
  "busy s q \<longleftrightarrow> assoc s q \<noteq> 0 \<or> at s q = Count"

definition lists_ok :: "thr_state \<Rightarrow> ptr list \<Rightarrow> ptr list \<Rightarrow> bool" where
  "lists_ok s qs fs \<longleftrightarrow> queue_rep (tnxt s) (cthreads s) qs \<and> chain (tnxt s) (free_cthreads s) fs
     \<and> cthread_free_lock s = 0 \<and> (\<forall>t. t_lock (thr s t) = 0)"

definition phases_ok :: "thr_state \<Rightarrow> ptr list \<Rightarrow> ptr list \<Rightarrow> ptr set \<Rightarrow> (ptr \<Rightarrow> phase) \<Rightarrow> bool" where
  "phases_ok s qs fs A ph \<longleftrightarrow> (\<forall>t. ph t = Queued \<longleftrightarrow> t \<in> set qs) \<and> (\<forall>t. ph t = Freed \<longleftrightarrow> t \<in> set fs)
     \<and> (\<forall>t. ph t = Running \<longleftrightarrow> t \<noteq> 0 \<and> (\<exists>q. own s q = t))
     \<and> (\<forall>q q'. own s q = own s q' \<longrightarrow> own s q \<noteq> 0 \<longrightarrow> q = q')
     \<and> (\<forall>t. ph t \<noteq> Unused \<longleftrightarrow> t \<in> A) \<and> 0 \<notin> A"

definition thread_ok :: "cthread \<Rightarrow> nat \<Rightarrow> phase \<Rightarrow> claim \<Rightarrow> bool" where
  "thread_ok x r f c \<longleftrightarrow>
     (f = Queued \<or> f = Running \<longrightarrow> \<not> T_RETURNED x \<and> c \<noteq> Nobody \<and> (T_DETACHED x \<longleftrightarrow> c = Detached) \<and> (T_MAIN x \<longleftrightarrow> c = Main_thread))
   \<and> (f = Returned \<longrightarrow> T_RETURNED x \<and> \<not> T_MAIN x \<and> t_result x = r \<and> (c = Handle \<or> (\<exists>p. c = Joiner p)))
   \<and> (f = Unused \<or> f = Freed \<longrightarrow> c = Nobody)"

definition claims_ok :: "thr_state \<Rightarrow> ptr set \<Rightarrow> (ptr \<Rightarrow> claim) \<Rightarrow> bool" where
  "claims_ok s H cl \<longleftrightarrow> (\<forall>t. cl t = Handle \<longleftrightarrow> t \<in> H)
     \<and> (\<forall>t p. cl t = Joiner p \<longleftrightarrow> at s p = Join t \<or> at s p = Done_wait t)"

definition waits_ok :: "thr_state \<Rightarrow> bool" where
  "waits_ok s \<longleftrightarrow> (\<forall>t p. p \<in> set (done_of s t) \<longleftrightarrow> at s p = Done_wait t) \<and> (\<forall>t. distinct (done_of s t))
     \<and> (\<forall>p. p \<in> set (cthread_needed s) \<longleftrightarrow> at s p = Needed) \<and> distinct (cthread_needed s)
     \<and> (\<forall>p. p \<in> set (cthread_idle s) \<longleftrightarrow> at s p = Idle_wait) \<and> distinct (cthread_idle s)"

fun place_ok :: "place \<Rightarrow> ptr \<Rightarrow> (ptr \<Rightarrow> cthread) \<Rightarrow> (ptr \<Rightarrow> nat) \<Rightarrow> bool" where
  "place_ok (Finish t) x th res = (x = t \<and> t \<noteq> 0 \<and> \<not> T_MAIN (th t) \<and> t_result (th t) = res t)"
| "place_ok (Signal_done t) x th res = (x \<noteq> 0)"
| "place_ok Body x th res = (x = 0)"
| "place_ok Needed x th res = (x = 0)"
| "place_ok Count x th res = (x = 0)"
| "place_ok Gone x th res = True"
| "place_ok _ x th res = (x \<noteq> 0)"

definition procs_ok :: "thr_state \<Rightarrow> (ptr \<Rightarrow> nat) \<Rightarrow> bool" where
  "procs_ok s res \<longleftrightarrow> distinct (cprocs_of s) \<and> (\<forall>q. q \<notin> set (cprocs_of s) \<longrightarrow> at s q = Gone \<and> assoc s q = 0)
     \<and> (\<forall>q. place_ok (at s q) (assoc s q) (thr s) res)"

definition counts_ok :: "thr_state \<Rightarrow> ptr list \<Rightarrow> bool" where
  "counts_ok s qs \<longleftrightarrow> n_cprocs s = int (length (cprocs_of s))
     \<and> n_cthreads s = int (length qs) + int (length (filter (busy s) (cprocs_of s)))"

definition thr_inv :: "ptr set \<Rightarrow> ptr set \<Rightarrow> (ptr \<Rightarrow> nat) \<Rightarrow> thr_state \<Rightarrow> ptr list \<Rightarrow> ptr list \<Rightarrow> (ptr \<Rightarrow> phase) \<Rightarrow> (ptr \<Rightarrow> claim) \<Rightarrow> bool" where
  "thr_inv A H res s qs fs ph cl \<longleftrightarrow> lists_ok s qs fs \<and> phases_ok s qs fs A ph
     \<and> (\<forall>t. thread_ok (thr s t) (res t) (ph t) (cl t)) \<and> claims_ok s H cl \<and> waits_ok s \<and> procs_ok s res \<and> counts_ok s qs"

lemma thr_invI:
  "\<lbrakk>lists_ok s qs fs; phases_ok s qs fs A ph; \<And>t. thread_ok (thr s t) (res t) (ph t) (cl t); claims_ok s H cl; waits_ok s;
    procs_ok s res; counts_ok s qs\<rbrakk> \<Longrightarrow> thr_inv A H res s qs fs ph cl"
  by (simp add: thr_inv_def)

lemma thr_invD:
  assumes "thr_inv A H res s qs fs ph cl"
  shows "lists_ok s qs fs" "phases_ok s qs fs A ph" "\<And>t. thread_ok (thr s t) (res t) (ph t) (cl t)" "claims_ok s H cl"
    "waits_ok s" "procs_ok s res" "counts_ok s qs"
  using assms by (auto simp: thr_inv_def)

section \<open>Moving a cproc\<close>

lemma busy_cong: "assoc s' q = assoc s q \<Longrightarrow> (at s' q = Count \<longleftrightarrow> at s q = Count) \<Longrightarrow> busy s' q = busy s q"
  by (simp add: busy_def)

lemma filter_busy:
  assumes "distinct ps" and "q \<in> set ps" and "\<And>p. p \<noteq> q \<Longrightarrow> f p = g p"
  shows "int (length (filter f ps)) = int (length (filter g ps)) + (if f q then 1 else 0) - (if g q then 1 else 0)"
  using assms
proof (induction ps)
  case Nil
  then show ?case by simp
next
  case (Cons p ps)
  show ?case
  proof (cases "p = q")
    case True
    then have "filter f ps = filter g ps" using Cons.prems by (intro filter_cong) (auto, metis+)
    then show ?thesis using True by simp
  next
    case False
    then show ?thesis using Cons by auto
  qed
qed

lemma take_mutex_iff [simp]: "take_mutex l = Some l' \<longleftrightarrow> l = 0 \<and> l' = 1"
  by (auto simp: take_mutex_def mutex_try_lock_def)

lemma lock_cthreads_iff: "lock_cthreads s = Some s' \<longleftrightarrow> cthread_lock s = 0 \<and> s' = s\<lparr>cthread_lock := 1\<rparr>"
  by (auto simp: lock_cthreads_def)

lemma lock_thread_iff: "lock_thread t s = Some s' \<longleftrightarrow> t_lock (thr s t) = 0 \<and> s' = upd_thr t (\<lambda>x. x\<lparr>t_lock := 1\<rparr>) s"
  by (auto simp: lock_thread_def)

text \<open>The part of the state the invariant reads is not the mutex \<open>cthread_lock\<close>.\<close>

lemma own_cong: "at s' = at s \<Longrightarrow> assoc s' = assoc s \<Longrightarrow> own s' = own s"
  by (simp add: own_def fun_eq_iff)

lemma busy_eq: "at s' = at s \<Longrightarrow> assoc s' = assoc s \<Longrightarrow> busy s' = busy s"
  by (simp add: busy_def fun_eq_iff)

lemma thr_inv_cong:
  assumes "thr_inv A H res s qs fs ph cl" and "tnxt s' = tnxt s" "thr s' = thr s" "cthreads s' = cthreads s"
    "free_cthreads s' = free_cthreads s" "cthread_free_lock s' = cthread_free_lock s" "at s' = at s" "assoc s' = assoc s"
    "done_of s' = done_of s" "cthread_needed s' = cthread_needed s" "cthread_idle s' = cthread_idle s"
    "cprocs_of s' = cprocs_of s" "n_cprocs s' = n_cprocs s" "n_cthreads s' = n_cthreads s"
  shows "thr_inv A H res s' qs fs ph cl"
  using assms(1)
  unfolding thr_inv_def lists_ok_def phases_ok_def claims_ok_def waits_ok_def procs_ok_def counts_ok_def assms(2-)
    own_cong [OF assms(7,8)] busy_eq [OF assms(7,8)] .

lemma thr_inv_lock [simp]: "thr_inv A H res (s\<lparr>cthread_lock := l\<rparr>) qs fs ph cl = thr_inv A H res s qs fs ph cl"
  using thr_inv_cong [of A H res s qs fs ph cl "s\<lparr>cthread_lock := l\<rparr>"]
    thr_inv_cong [of A H res "s\<lparr>cthread_lock := l\<rparr>" qs fs ph cl s] by auto

lemma thr_inv_unlock [simp]: "thr_inv A H res (unlock_cthreads s) qs fs ph cl = thr_inv A H res s qs fs ph cl"
  by (simp add: unlock_cthreads_def)

text \<open>The places that no list or counter knows of.\<close>

fun plain_place :: "place \<Rightarrow> bool" where
  "plain_place Client = True" | "plain_place Body = True" | "plain_place (Forked t) = True" | "plain_place (Finish t) = True"
| "plain_place Exiting = True" | "plain_place Gone = True" | "plain_place _ = False"

lemma plain_placeD:
  "plain_place l \<Longrightarrow> l \<noteq> Needed \<and> l \<noteq> Idle_wait \<and> l \<noteq> Count \<and> (\<forall>t. l \<noteq> Join t \<and> l \<noteq> Done_wait t \<and> l \<noteq> Signal_done t)"
  by (cases l) auto

lemma goto_fields [simp]:
  "tnxt (goto q l s) = tnxt s" "thr (goto q l s) = thr s" "cthreads (goto q l s) = cthreads s"
  "free_cthreads (goto q l s) = free_cthreads s" "cthread_free_lock (goto q l s) = cthread_free_lock s"
  "at (goto q l s) = (at s)(q := l)" "assoc (goto q l s) = assoc s" "done_of (goto q l s) = done_of s"
  "cthread_needed (goto q l s) = cthread_needed s" "cthread_idle (goto q l s) = cthread_idle s"
  "cprocs_of (goto q l s) = cprocs_of s" "n_cprocs (goto q l s) = n_cprocs s" "n_cthreads (goto q l s) = n_cthreads s"
  "max_cprocs (goto q l s) = max_cprocs s" "cthread_lock (goto q l s) = cthread_lock s"
  by (simp_all add: goto_def)

lemma own_eq: "(\<forall>t. at s q \<noteq> Signal_done t) \<Longrightarrow> own s q = assoc s q"
  by (cases "at s q") (auto simp: own_def)

text \<open>A move of one cproc that leaves threads, lists and counters alone.\<close>

definition same_threads :: "thr_state \<Rightarrow> thr_state \<Rightarrow> bool" where
  "same_threads s s' \<longleftrightarrow> tnxt s' = tnxt s \<and> thr s' = thr s \<and> cthreads s' = cthreads s \<and> free_cthreads s' = free_cthreads s
     \<and> cthread_free_lock s' = cthread_free_lock s \<and> assoc s' = assoc s \<and> cprocs_of s' = cprocs_of s
     \<and> n_cprocs s' = n_cprocs s \<and> n_cthreads s' = n_cthreads s \<and> max_cprocs s' = max_cprocs s"

lemma move_keeps:
  assumes I: "thr_inv A H res s qs fs ph cl" and q: "q \<in> set (cprocs_of s)" and st: "same_threads s s'"
    and at: "at s' = (at s)(q := l)" and sg: "signalling l \<longleftrightarrow> signalling (at s q)" and b: "l = Count \<longleftrightarrow> at s q = Count"
    and p: "place_ok l (assoc s q) (thr s) res" and cl: "claims_ok s' H' cl'" "\<And>t. thread_ok (thr s t) (res t) (ph t) (cl' t)"
    and w: "waits_ok s'"
  shows "thr_inv A H' res s' qs fs ph cl'"
proof (rule thr_invI)
  note D = thr_invD [OF I] and S = st [unfolded same_threads_def]
  have o: "own s' = own s" using sg at S by (auto simp: fun_eq_iff own_def)
  have bs: "busy s' = busy s" using b at S by (auto simp: fun_eq_iff busy_def)
  show "lists_ok s' qs fs" using D(1) S by (simp add: lists_ok_def)
  show "phases_ok s' qs fs A ph" using D(2) unfolding phases_ok_def o .
  show "procs_ok s' res" using D(6) q p at S by (auto simp: procs_ok_def)
  show "counts_ok s' qs" using D(7) S unfolding counts_ok_def bs by metis
  show "thread_ok (thr s' t) (res t) (ph t) (cl' t)" for t using cl(2) S by simp
qed (use cl(1) w in auto)

lemma goto_plain:
  assumes I: "thr_inv A H res s qs fs ph cl" and q: "q \<in> set (cprocs_of s)" and l: "plain_place (at s q)" "plain_place l"
    and p: "place_ok l (assoc s q) (thr s) res"
  shows "thr_inv A H res (goto q l s) qs fs ph cl"
proof (rule move_keeps [OF I q _ _ _ _ p _ thr_invD(3) [OF I]])
  note n = plain_placeD [OF l(1)] plain_placeD [OF l(2)]
  show "same_threads s (goto q l s)" by (simp add: same_threads_def)
  show "signalling l \<longleftrightarrow> signalling (at s q)" using l by (cases l; cases "at s q") auto
  show "l = Count \<longleftrightarrow> at s q = Count" using n by blast
  show "claims_ok (goto q l s) H cl" using thr_invD(4) [OF I] n unfolding claims_ok_def goto_fields fun_upd_apply by metis
  show "waits_ok (goto q l s)" using thr_invD(5) [OF I] n unfolding waits_ok_def by auto
qed simp

lemma client_is_cproc: "thr_inv A H res s qs fs ph cl \<Longrightarrow> at s q \<noteq> Gone \<Longrightarrow> q \<in> set (cprocs_of s)"
  using thr_invD(6) [of A H res s qs fs ph cl] by (auto simp: procs_ok_def)

lemma place_of: "thr_inv A H res s qs fs ph cl \<Longrightarrow> place_ok (at s q) (assoc s q) (thr s) res"
  using thr_invD(6) [of A H res s qs fs ph cl] by (auto simp: procs_ok_def)

section \<open>Conditions\<close>

lemma signal_needed_inv:
  assumes I: "thr_inv A H res s qs fs ph cl"
  shows "thr_inv A H res (signal_needed s) qs fs ph cl"
proof (cases "cthread_needed s")
  case Nil
  then show ?thesis using I by (simp add: signal_needed_def)
next
  case (Cons w ws)
  have W: "waits_ok s" and C: "claims_ok s H cl" using thr_invD [OF I] by auto
  have w: "at s w = Needed" "w \<notin> set ws" "distinct ws" "\<And>p. p \<in> set ws \<longleftrightarrow> p \<noteq> w \<and> at s p = Needed"
    using W Cons unfolding waits_ok_def by (metis list.set_intros(1), simp_all, metis insert_iff list.simps(15))
  have m: "w \<in> set (cprocs_of s)" using client_is_cproc [OF I, of w] w(1) by simp
  have e: "signal_needed s = goto w Body (s\<lparr>cthread_needed := ws\<rparr>)" using Cons by (simp add: signal_needed_def)
  show ?thesis unfolding e
  proof (rule move_keeps [OF I m, where l = Body, OF _ _ _ _ _ _ thr_invD(3) [OF I]])
    show "claims_ok (goto w Body (s\<lparr>cthread_needed := ws\<rparr>)) H cl" using C w(1) by (auto simp: claims_ok_def)
    show "waits_ok (goto w Body (s\<lparr>cthread_needed := ws\<rparr>))" using W w by (auto simp: waits_ok_def)
    show "place_ok Body (assoc s w) (thr s) res" using place_of [OF I, of w] w(1) by simp
  qed (use w in \<open>simp_all add: same_threads_def\<close>)
qed

lemma signal_idle_inv:
  assumes I: "thr_inv A H res s qs fs ph cl"
  shows "thr_inv A H res (signal_idle s) qs fs ph cl"
proof (cases "cthread_idle s")
  case Nil
  then show ?thesis using I by (simp add: signal_idle_def)
next
  case (Cons w ws)
  have W: "waits_ok s" and C: "claims_ok s H cl" using thr_invD [OF I] by auto
  have w: "at s w = Idle_wait" "w \<notin> set ws" "distinct ws" "\<And>p. p \<in> set ws \<longleftrightarrow> p \<noteq> w \<and> at s p = Idle_wait"
    using W Cons unfolding waits_ok_def by (metis list.set_intros(1), simp_all, metis insert_iff list.simps(15))
  have m: "w \<in> set (cprocs_of s)" using client_is_cproc [OF I, of w] w(1) by simp
  have e: "signal_idle s = goto w Exiting (s\<lparr>cthread_idle := ws\<rparr>)" using Cons by (simp add: signal_idle_def)
  show ?thesis unfolding e
  proof (rule move_keeps [OF I m, where l = Exiting, OF _ _ _ _ _ _ thr_invD(3) [OF I]])
    show "claims_ok (goto w Exiting (s\<lparr>cthread_idle := ws\<rparr>)) H cl" using C w(1) by (auto simp: claims_ok_def)
    show "waits_ok (goto w Exiting (s\<lparr>cthread_idle := ws\<rparr>))" using W w by (auto simp: waits_ok_def)
    show "place_ok Exiting (assoc s w) (thr s) res" using place_of [OF I, of w] w(1) by simp
  qed (use w in \<open>simp_all add: same_threads_def\<close>)
qed

lemma signal_done_inv:
  assumes I: "thr_inv A H res s qs fs ph cl"
  shows "thr_inv A H res (signal_done t s) qs fs ph cl"
proof (cases "done_of s t")
  case Nil
  then show ?thesis using I by (simp add: signal_done_def)
next
  case (Cons w ws)
  have W: "waits_ok s" and C: "claims_ok s H cl" using thr_invD [OF I] by auto
  have w: "at s w = Done_wait t" "w \<notin> set ws" "distinct ws" "\<And>p. p \<in> set ws \<longleftrightarrow> p \<noteq> w \<and> at s p = Done_wait t"
    using W Cons unfolding waits_ok_def
    by (metis list.set_intros(1), metis distinct.simps(2), metis distinct.simps(2), metis distinct.simps(2) insert_iff list.simps(15))
  have m: "w \<in> set (cprocs_of s)" using client_is_cproc [OF I, of w] w(1) by simp
  let ?s = "goto w (Join t) (s\<lparr>done_of := (done_of s)(t := ws)\<rparr>)"
  have e: "signal_done t s = ?s" using Cons by (simp add: signal_done_def)
  show ?thesis unfolding e
  proof (rule move_keeps [OF I m, where l = "Join t", OF _ _ _ _ _ _ thr_invD(3) [OF I]])
    show "claims_ok ?s H cl" using C w(1) by (auto simp: claims_ok_def)
    show "waits_ok ?s" using W w by (auto simp: waits_ok_def)
    show "place_ok (Join t) (assoc s w) (thr s) res" using place_of [OF I, of w] w(1) by simp
  qed (use w in \<open>simp_all add: same_threads_def\<close>)
qed

section \<open>Structures\<close>

lemma unclaimed:
  assumes "claims_ok s H cl" and "cl t = Nobody"
  shows "at s p \<noteq> Join t \<and> at s p \<noteq> Done_wait t"
proof -
  have "cl t = Joiner p \<longleftrightarrow> at s p = Join t \<or> at s p = Done_wait t" using assms(1) by (simp add: claims_ok_def)
  then show ?thesis using assms(2) by simp
qed

lemma cthread_free_eq:
  "lists_ok s qs fs \<Longrightarrow> cthread_free t s = Some (s\<lparr>tnxt := (tnxt s)(t := free_cthreads s), free_cthreads := t, cthread_free_lock := 0\<rparr>)"
  by (simp add: lists_ok_def cthread_free_def Let_def)

lemma free_lists:
  assumes "lists_ok s qs fs" and "t \<notin> set qs" and "t \<notin> set fs" and "t \<noteq> 0"
    and "tnxt s' = (tnxt s)(t := free_cthreads s)" "free_cthreads s' = t" "cthread_free_lock s' = 0" "cthreads s' = cthreads s"
    and "\<And>x. t_lock (thr s' x) = 0"
  shows "lists_ok s' qs (t # fs)"
  using assms queue_rep_upd [of "tnxt s" "cthreads s" qs t] chain_upd [of t fs "tnxt s" "free_cthreads s" "free_cthreads s"]
  by (simp add: lists_ok_def)

lemma phase_lists:
  "phases_ok s qs fs A ph \<Longrightarrow> (ph t \<noteq> Queued \<longrightarrow> t \<notin> set qs) \<and> (ph t \<noteq> Freed \<longrightarrow> t \<notin> set fs) \<and> (ph t \<noteq> Unused \<longrightarrow> t \<noteq> 0)"
  by (auto simp: phases_ok_def)

text \<open>Changing the phase of one structure, when no cproc changes its thread.\<close>

lemma phases_move:
  assumes P: "phases_ok s qs fs A ph" and o: "own s' = own s" and t: "ph t \<noteq> Running" "f \<noteq> Running" "f \<noteq> Unused" "t \<noteq> 0"
    and q: "\<And>x. x \<in> set qs' \<longleftrightarrow> (if x = t then f = Queued else x \<in> set qs)"
    and f: "\<And>x. x \<in> set fs' \<longleftrightarrow> (if x = t then f = Freed else x \<in> set fs)"
  shows "phases_ok s' qs' fs' (insert t A) (ph(t := f))"
  using P t unfolding phases_ok_def o q f by auto

text \<open>A cproc takes a thread, and gives one up.\<close>

lemma phases_start:
  assumes P: "phases_ok s qs fs A ph" and o: "own s' = (own s)(p := x)" "own s p = 0"
    and x: "ph x = Queued" "x \<noteq> 0" and q: "\<And>y. y \<in> set qs' \<longleftrightarrow> y \<noteq> x \<and> y \<in> set qs"
  shows "phases_ok s' qs' fs A (ph(x := Running))"
proof -
  have R: "\<And>t. ph t = Running \<longleftrightarrow> t \<noteq> 0 \<and> (\<exists>q. own s q = t)" and J: "\<And>q q'. own s q = own s q' \<Longrightarrow> own s q \<noteq> 0 \<Longrightarrow> q = q'"
    and B: "\<And>t. ph t = Queued \<longleftrightarrow> t \<in> set qs" "\<And>t. ph t = Freed \<longleftrightarrow> t \<in> set fs" "\<And>t. ph t \<noteq> Unused \<longleftrightarrow> t \<in> A" "0 \<notin> A"
    using P by (auto simp: phases_ok_def)
  have n: "own s r \<noteq> x" for r using R [of x] x by auto
  have "(ph(x := Running)) t = Running \<longleftrightarrow> t \<noteq> 0 \<and> (\<exists>q. own s' q = t)" for t
  proof (cases "t = x \<or> t = 0")
    case True
    then show ?thesis using x(2) R [of 0] by (auto simp: o)
  next
    case False
    then have "(\<exists>q. own s' q = t) \<longleftrightarrow> (\<exists>q. own s q = t)" using o by (metis fun_upd_apply)
    then show ?thesis using R [of t] False by simp
  qed
  moreover have "q = q'" if "own s' q = own s' q'" "own s' q \<noteq> 0" for q q'
    using that J [of q q'] n by (auto simp: o split: if_splits)
  moreover have "(ph(x := Running)) t = Queued \<longleftrightarrow> t \<in> set qs'" for t using B(1) q by simp
  moreover have "(ph(x := Running)) t = Freed \<longleftrightarrow> t \<in> set fs" for t using B(2) [of t] x(1) by auto
  moreover have "(ph(x := Running)) t \<noteq> Unused \<longleftrightarrow> t \<in> A" for t using B(3) [of t] x(1) by auto
  ultimately show ?thesis using B(4) by (simp add: phases_ok_def)
qed

lemma phases_stop:
  assumes P: "phases_ok s qs fs A ph" and o: "own s' = (own s)(p := 0)" "own s p = x" and x: "x \<noteq> 0" "f = Returned \<or> f = Freed"
    and q: "\<And>y. y \<in> set fs' \<longleftrightarrow> y \<in> set fs \<or> (y = x \<and> f = Freed)"
  shows "phases_ok s' qs fs' A (ph(x := f))"
proof -
  have R: "\<And>t. ph t = Running \<longleftrightarrow> t \<noteq> 0 \<and> (\<exists>q. own s q = t)" and J: "\<And>q q'. own s q = own s q' \<Longrightarrow> own s q \<noteq> 0 \<Longrightarrow> q = q'"
    and B: "\<And>t. ph t = Queued \<longleftrightarrow> t \<in> set qs" "\<And>t. ph t = Freed \<longleftrightarrow> t \<in> set fs" "\<And>t. ph t \<noteq> Unused \<longleftrightarrow> t \<in> A" "0 \<notin> A"
    using P by (auto simp: phases_ok_def)
  have rx: "ph x = Running" using R [of x] x o(2) by auto
  have n: "own s r \<noteq> x" if "r \<noteq> p" for r using J [of r p] that x(1) o(2) by auto
  have "(ph(x := f)) t = Running \<longleftrightarrow> t \<noteq> 0 \<and> (\<exists>q. own s' q = t)" for t
  proof (cases "t = x \<or> t = 0")
    case True
    then show ?thesis using x n R [of 0] by (auto simp: o)
  next
    case False
    then have "(\<exists>q. own s' q = t) \<longleftrightarrow> (\<exists>q. own s q = t)" using o by (metis fun_upd_apply)
    then show ?thesis using R [of t] False by simp
  qed
  moreover have "q = q'" if "own s' q = own s' q'" "own s' q \<noteq> 0" for q q'
    using that J [of q q'] by (auto simp: o split: if_splits)
  moreover have "(ph(x := f)) t = Queued \<longleftrightarrow> t \<in> set qs" for t using B(1) [of t] rx x(2) by auto
  moreover have "(ph(x := f)) t = Freed \<longleftrightarrow> t \<in> set fs'" for t using B(2) [of t] rx x(2) q [of t] by auto
  moreover have "(ph(x := f)) t \<noteq> Unused \<longleftrightarrow> t \<in> A" for t using B(3) [of t] rx x(2) by auto
  ultimately show ?thesis using B(4) by (simp add: phases_ok_def)
qed

lemma alloc_from:
  assumes I: "thr_inv A H res s qs fs ph cl" and m: "m \<noteq> 0" "m \<notin> A"
  shows "\<exists>t fs' fc. cthread_alloc m func arg s = Some (t, s\<lparr>tnxt := (tnxt s)(t := 0),
        thr := (thr s)(t := initial_cthread\<lparr>t_func := func, t_arg := arg\<rparr>), free_cthreads := fc, cthread_free_lock := 0\<rparr>)
    \<and> t \<noteq> 0 \<and> (ph t = Unused \<or> ph t = Freed) \<and> set fs' = set fs - {t} \<and> chain ((tnxt s)(t := 0)) fc fs'"
proof -
  note D = thr_invD [OF I]
  have l: "cthread_free_lock s = 0" and c: "chain (tnxt s) (free_cthreads s) fs" using D(1) by (auto simp: lists_ok_def)
  have dn: "(done_of s)(t := []) = done_of s" if "ph t = Unused \<or> ph t = Freed" for t
  proof -
    have "cl t = Nobody" using D(3) [of t] that by (auto simp: thread_ok_def)
    then have "\<forall>p. at s p \<noteq> Done_wait t" using D(4) by (metis claim.distinct(5) claims_ok_def)
    then have "done_of s t = []" using D(5) by (metis list.set_intros(1) neq_Nil_conv waits_ok_def)
    then show ?thesis by (simp add: fun_upd_idem)
  qed
  show ?thesis
  proof (cases fs)
    case Nil
    then have z: "free_cthreads s = 0" using c by simp
    have um: "ph m = Unused" using D(2) m by (auto simp: phases_ok_def)
    have "cthread_alloc m func arg s = Some (m, s\<lparr>tnxt := (tnxt s)(m := 0),
        thr := (thr s)(m := initial_cthread\<lparr>t_func := func, t_arg := arg\<rparr>), free_cthreads := 0, cthread_free_lock := 0\<rparr>)"
      using z l dn [of m] um by (simp add: cthread_alloc_def Let_def upd_thr_def)
    then show ?thesis using um m Nil by (intro exI [of _ m] exI [of _ "[]"] exI [of _ 0]) simp
  next
    case (Cons t gs)
    then have z: "free_cthreads s = t" "t \<noteq> 0" "chain (tnxt s) (tnxt s t) gs" using c by auto
    have n: "t \<notin> set gs" using chain_head_notin c unfolding Cons by blast
    have ft: "ph t = Freed" using D(2) Cons by (simp add: phases_ok_def)
    have "cthread_alloc m func arg s = Some (t, s\<lparr>tnxt := (tnxt s)(t := 0),
        thr := (thr s)(t := initial_cthread\<lparr>t_func := func, t_arg := arg\<rparr>), free_cthreads := tnxt s t, cthread_free_lock := 0\<rparr>)"
      using z l dn [of t] ft by (simp add: cthread_alloc_def Let_def upd_thr_def)
    moreover have "chain ((tnxt s)(t := 0)) (tnxt s t) gs" using z n by (simp add: chain_upd)
    ultimately show ?thesis using ft z Cons n by (intro exI [of _ t] exI [of _ gs] exI [of _ "tnxt s t"]) auto
  qed
qed

section \<open>The steps keep the invariant\<close>

text \<open>A new thread is queued, with no cproc for it yet.\<close>

lemma enqueue_inv:
  assumes I: "thr_inv A H res s qs fs ph cl" and ph: "ph t = Unused \<or> ph t = Freed" and t: "t \<noteq> 0"
    and fs': "set fs' = set fs - {t}" "chain ((tnxt s)(t := 0)) fc fs'"
    and e: "cthread_queue_enq ((tnxt s)(t := 0)) (cthreads s) t = (nx, q)"
    and s': "s' = s\<lparr>thr := (thr s)(t := initial_cthread\<lparr>t_func := func, t_arg := arg\<rparr>), free_cthreads := fc,
        cthread_free_lock := 0, tnxt := nx, cthreads := q\<rparr>"
  shows "lists_ok s' (qs @ [t]) fs'" and "phases_ok s' (qs @ [t]) fs' (insert t A) (ph(t := Queued))"
    and "thread_ok (thr s' x) (res x) ((ph(t := Queued)) x) ((cl(t := Handle)) x)"
    and "claims_ok s' (insert t H) (cl(t := Handle))" and "waits_ok s'" and "procs_ok s' res"
proof -
  note D = thr_invD [OF I]
  have n: "t \<notin> set qs" "cl t = Nobody" using D(2) D(3) [of t] ph by (auto simp: phases_ok_def thread_ok_def)
  have r: "queue_rep ((tnxt s)(t := 0)) (cthreads s) qs" using D(1) n by (intro queue_rep_upd) (simp add: lists_ok_def)
  have Q: "queue_rep nx q (qs @ [t])" by (rule queue_rep_enq [OF r t n(1) e])
  have dj: "x \<notin> set qs" "x \<noteq> t" if "x \<in> set fs'" for x
  proof -
    show "x \<noteq> t" using that fs'(1) by auto
    have "x \<in> set fs" using that fs'(1) by auto
    then show "x \<notin> set qs" using D(2) unfolding phases_ok_def by (metis phase.distinct(13))
  qed
  have "chain nx fc fs' = chain ((tnxt s)(t := 0)) fc fs'"
    using queue_enq_frame [OF r e] dj by (intro chain_cong) blast
  then show "lists_ok s' (qs @ [t]) fs'" using Q fs'(2) D(1) s' by (simp add: lists_ok_def initial_cthread_def)
  have o: "own s' = own s" using s' by (simp add: fun_eq_iff own_def)
  show "phases_ok s' (qs @ [t]) fs' (insert t A) (ph(t := Queued))"
  proof (rule phases_move [OF D(2) o])
    show "ph t \<noteq> Running" using ph by auto
  qed (use t fs'(1) in simp_all)
  show "thread_ok (thr s' x) (res x) ((ph(t := Queued)) x) ((cl(t := Handle)) x)"
    using D(3) [of x] s' by (simp add: thread_ok_def initial_cthread_def)
  have nj: "at s p \<noteq> Join t \<and> at s p \<noteq> Done_wait t" for p by (rule unclaimed [OF D(4) n(2)])
  show "claims_ok s' (insert t H) (cl(t := Handle))" using D(4) nj s' unfolding claims_ok_def by auto
  show "waits_ok s'" using D(5) s' by (simp add: waits_ok_def)
  have "x \<noteq> t" if "at s y = Finish x" for x y
  proof -
    have "own s y = x" "x \<noteq> 0" using D(6) that own_eq [of s y] by (auto simp: procs_ok_def dest!: spec [of _ y])
    then have "ph x = Running" using D(2) by (auto simp: phases_ok_def)
    then show ?thesis using ph by auto
  qed
  then have "place_ok (at s y) (assoc s y) (thr s') res" for y
    using D(6) s' by (cases "at s y") (auto simp: procs_ok_def dest!: spec [of _ y])
  then show "procs_ok s' res" using D(6) s' by (simp add: procs_ok_def)
qed

lemma client_threads: "thr_inv A H res s qs fs ph cl \<Longrightarrow> at s p = Client \<Longrightarrow> assoc s p \<noteq> 0"
  using place_of [of A H res s qs fs ph cl p] by simp

lemma set_limit_inv:
  assumes "thr_inv A H res s qs fs ph cl"
  shows "thr_inv A H res (cthread_set_limit n s) qs fs ph cl"
  by (rule thr_inv_cong [OF assms]) (simp_all add: cthread_set_limit_def)

text \<open>What a fork does to the counters and to the cprocs.\<close>

lemma fork_begin_counts:
  assumes "fork_begin p m c func arg s = Some s'"
  shows "n_cthreads s' = n_cthreads s + 1"
    and "max_cprocs s' = max_cprocs s"
    and "cprocs_of s' = (if n_cthreads s + 1 > n_cprocs s \<and> (max_cprocs s = 0 \<or> n_cprocs s < max_cprocs s)
      then c # cprocs_of s else cprocs_of s)"
    and "n_cprocs s' = (if n_cthreads s + 1 > n_cprocs s \<and> (max_cprocs s = 0 \<or> n_cprocs s < max_cprocs s)
      then n_cprocs s + 1 else n_cprocs s)"
  using assms
  by (auto simp: fork_begin_def lock_cthreads_def cthread_alloc_def upd_thr_def goto_def Let_def
      split: if_splits option.splits prod.splits)

lemma fork_begin_inv:
  assumes I: "thr_inv A H res s qs fs ph cl" and f: "fork_begin p m c func arg s = Some s'" and fk: "at s' p = Forked t"
    and m: "m \<noteq> 0" "m \<notin> A" and c: "c \<noteq> 0" "c \<notin> set (cprocs_of s)"
  shows "\<exists>qs fs ph cl. thr_inv (insert t A) (insert t H) res s' qs fs ph cl"
proof -
  let ?s1 = "s\<lparr>cthread_lock := 1\<rparr>"
  have p: "at s p = Client" "cthread_lock s = 0" using f by (auto simp: fork_begin_def lock_cthreads_iff split: if_splits option.splits)
  have I1: "thr_inv A H res ?s1 qs fs ph cl" using I by simp
  obtain x fs' fc where al: "cthread_alloc m func arg ?s1 = Some (x, ?s1\<lparr>tnxt := (tnxt s)(x := 0),
        thr := (thr s)(x := initial_cthread\<lparr>t_func := func, t_arg := arg\<rparr>), free_cthreads := fc, cthread_free_lock := 0\<rparr>)"
      "x \<noteq> 0" "ph x = Unused \<or> ph x = Freed" "set fs' = set fs - {x}" "chain ((tnxt s)(x := 0)) fc fs'"
    using alloc_from [OF I1 m, of func arg] by auto
  obtain nx q where e: "cthread_queue_enq ((tnxt s)(x := 0)) (cthreads s) x = (nx, q)" by fastforce
  define s2 where "s2 = ?s1\<lparr>thr := (thr s)(x := initial_cthread\<lparr>t_func := func, t_arg := arg\<rparr>), free_cthreads := fc,
        cthread_free_lock := 0, tnxt := nx, cthreads := q\<rparr>"
  have c1: "chain ((tnxt ?s1)(x := 0)) fc fs'" and e1: "cthread_queue_enq ((tnxt ?s1)(x := 0)) (cthreads ?s1) x = (nx, q)"
    and eq: "s2 = ?s1\<lparr>thr := (thr ?s1)(x := initial_cthread\<lparr>t_func := func, t_arg := arg\<rparr>), free_cthreads := fc,
        cthread_free_lock := 0, tnxt := nx, cthreads := q\<rparr>"
    using al(5) e by (simp_all add: s2_def)
  note E = enqueue_inv [OF I1 al(3,2,4) c1 e1 eq]
  define new where "new = (n_cthreads s + 1 > n_cprocs s \<and> (max_cprocs s = 0 \<or> n_cprocs s < max_cprocs s))"
  define s4 where "s4 = (let s3 = s2\<lparr>n_cthreads := n_cthreads s + 1\<rparr> in
      if new then goto c Body (s3\<lparr>n_cprocs := n_cprocs s + 1, cprocs_of := c # cprocs_of s, assoc := (assoc s)(c := 0)\<rparr>) else s3)"
  have s': "s' = goto p (Forked x) s4"
    using f p al(1) e by (simp add: fork_begin_def lock_cthreads_def take_mutex_def mutex_try_lock_def Let_def s4_def s2_def new_def
        cong: if_cong)
  then have x: "x = t" using fk by simp
  note D = thr_invD [OF I]
  have cc: "at s c = Gone" "assoc s c = 0" using D(6) c by (auto simp: procs_ok_def)
  have pc: "p \<noteq> c" "p \<in> set (cprocs_of s)" using cc p client_is_cproc [OF I, of p] by auto
  have f2: "at s2 = at s" "assoc s2 = assoc s" "cprocs_of s2 = cprocs_of s" "done_of s2 = done_of s" "cthread_needed s2 = cthread_needed s"
      "cthread_idle s2 = cthread_idle s" "max_cprocs s2 = max_cprocs s" "n_cprocs s2 = n_cprocs s"
    by (simp_all add: s2_def)
  have at4: "at s4 = (if new then (at s2)(c := Body) else at s2)" "assoc s4 = assoc s2" "thr s4 = thr s2" "done_of s4 = done_of s2"
      "cthread_needed s4 = cthread_needed s2" "cthread_idle s4 = cthread_idle s2"
      "cprocs_of s4 = (if new then c # cprocs_of s else cprocs_of s)" "max_cprocs s4 = max_cprocs s"
      "n_cthreads s4 = n_cthreads s + 1" "n_cprocs s4 = (if new then n_cprocs s + 1 else n_cprocs s)" "tnxt s4 = tnxt s2"
      "cthreads s4 = cthreads s2" "free_cthreads s4 = free_cthreads s2" "cthread_free_lock s4 = cthread_free_lock s2"
    using cc by (auto simp: s4_def Let_def f2 fun_eq_iff)
  have o4: "own s4 = own s2" using cc by (auto simp: fun_eq_iff own_def at4 f2)
  have "thr_inv (insert t A) (insert t H) res s4 (qs @ [t]) fs' (ph(t := Queued)) (cl(t := Handle))"
  proof (rule thr_invI)
    show "lists_ok s4 (qs @ [t]) fs'" using E(1) x by (simp add: lists_ok_def at4)
    show "phases_ok s4 (qs @ [t]) fs' (insert t A) (ph(t := Queued))" using E(2) x unfolding phases_ok_def o4 by simp
    show "thread_ok (thr s4 y) (res y) ((ph(t := Queued)) y) ((cl(t := Handle)) y)" for y using E(3) [of y] x at4 by simp
    show "claims_ok s4 (insert t H) (cl(t := Handle))" using E(4) x cc by (auto simp: claims_ok_def at4 f2)
    show "waits_ok s4" using E(5) cc by (auto simp: waits_ok_def at4 f2)
    show "procs_ok s4 res" using E(6) cc c by (auto simp: procs_ok_def at4 f2)
    have b: "filter (busy s4) (cprocs_of s4) = filter (busy s) (cprocs_of s)"
    proof -
      have "filter (busy s4) (cprocs_of s) = filter (busy s) (cprocs_of s)"
        using c by (intro filter_cong refl) (auto simp: busy_def at4 f2)
      then show ?thesis using cc by (simp add: at4 f2 busy_def)
    qed
    show "counts_ok s4 (qs @ [t])" using D(7) unfolding counts_ok_def b by (auto simp: at4 new_def)
  qed
  moreover have "p \<in> set (cprocs_of s4)" "plain_place (at s4 p)" "assoc s4 p \<noteq> 0"
    using pc p client_threads [OF I p(1)] by (simp_all add: at4 f2)
  ultimately show ?thesis unfolding s' x using goto_plain by (metis place_ok.simps(8) plain_place.simps(3))
qed

lemma fork_end_inv:
  assumes I: "thr_inv A H res s qs fs ph cl" and f: "fork_end p s = Some s'"
  shows "thr_inv A H res s' qs fs ph cl"
proof -
  obtain t where t: "at s p = Forked t" and s': "s' = goto p Client (signal_needed (unlock_cthreads s))"
    using f by (auto simp: fork_end_def split: place.splits)
  let ?s = "signal_needed (unlock_cthreads s)"
  have I1: "thr_inv A H res ?s qs fs ph cl" using I by (intro signal_needed_inv) simp
  have "p \<notin> set (cthread_needed s)" using thr_invD(5) [OF I] t by (simp add: waits_ok_def)
  then have at: "at ?s p = Forked t" "assoc ?s = assoc s" "thr ?s = thr s"
    using t by (auto simp: signal_needed_def unlock_cthreads_def split: list.splits)
  have "assoc s p \<noteq> 0" using place_of [OF I, of p] t by simp
  then show ?thesis unfolding s' using at client_is_cproc [OF I1, of p] by (intro goto_plain [OF I1]) auto
qed

text \<open>A cproc takes a queued thread, or goes to sleep.\<close>

lemma body_round_inv:
  assumes I: "thr_inv A H res s qs fs ph cl" and at: "at s p = Body \<or> at s p = Count"
  shows "\<exists>qs ph. thr_inv A H res (body_round p (s\<lparr>n_cthreads := n_cthreads s - (if at s p = Count then 1 else 0)\<rparr>)) qs fs ph cl"
proof -
  note D = thr_invD [OF I]
  let ?k = "if at s p = Count then 1 else 0 :: int"
  let ?s = "s\<lparr>n_cthreads := n_cthreads s - ?k\<rparr>"
  obtain q t where d: "cthread_queue_deq (tnxt s) (cthreads s) = (q, t)" by fastforce
  have Q: "queue_rep (tnxt s) (cthreads s) qs" using D(1) by (simp add: lists_ok_def)
  have as: "assoc s p = 0" using place_of [OF I, of p] at by auto
  have m: "p \<in> set (cprocs_of s)" using client_is_cproc [OF I, of p] at by auto
  have dist: "distinct (cprocs_of s)" using D(6) by (simp add: procs_ok_def)
  have ow: "own s p = 0" using as by (simp add: own_def)
  have np: "p \<notin> set (cthread_needed s)" "p \<notin> set (cthread_idle s)" "\<And>x. p \<notin> set (done_of s x)"
    using D(5) at unfolding waits_ok_def by auto
  show ?thesis
  proof (cases qs)
    case (Cons x xs)
    then have q: "queue_rep (tnxt s) q xs" "t = x" using queue_rep_deq [of "tnxt s" "cthreads s" x xs q t] Q d by auto
    have x: "x \<noteq> 0" "x \<notin> set xs" using ctq.rep_members [OF Q] Cons by auto
    define s' where "s' = goto p Client (?s\<lparr>cthreads := q, cthread_lock := 0, assoc := (assoc s)(p := x)\<rparr>)"
    have e: "body_round p ?s = s'"
      using d q x by (simp add: body_round_def Let_def s'_def unlock_cthreads_def mutex_unlock_def)
    have f: "at s' = (at s)(p := Client)" "assoc s' = (assoc s)(p := x)" "thr s' = thr s" "tnxt s' = tnxt s" "cthreads s' = q"
        "free_cthreads s' = free_cthreads s" "cthread_free_lock s' = cthread_free_lock s" "cprocs_of s' = cprocs_of s"
        "done_of s' = done_of s" "cthread_needed s' = cthread_needed s" "cthread_idle s' = cthread_idle s"
        "n_cprocs s' = n_cprocs s" "n_cthreads s' = n_cthreads s - ?k" "max_cprocs s' = max_cprocs s"
      by (simp_all add: s'_def)
    have own': "own s' = (own s)(p := x)" by (auto simp: fun_eq_iff own_def f)
    have px: "ph x = Queued" using D(2) Cons by (simp add: phases_ok_def)
    have "thr_inv A H res s' xs fs (ph(x := Running)) cl"
    proof (rule thr_invI)
      show "lists_ok s' xs fs" using D(1) q by (simp add: lists_ok_def f)
      show "phases_ok s' xs fs A (ph(x := Running))"
        using x px Cons by (intro phases_start [OF D(2) own' ow]) auto
      show "thread_ok (thr s' y) (res y) ((ph(x := Running)) y) (cl y)" for y
        using D(3) [of y] px by (auto simp: f thread_ok_def)
      show "claims_ok s' H cl" using D(4) at by (auto simp: claims_ok_def f)
      show "waits_ok s'" using D(5) at by (auto simp: waits_ok_def f)
      show "procs_ok s' res" using D(6) m x by (auto simp: procs_ok_def f)
      have "int (length (filter (busy s') (cprocs_of s))) = int (length (filter (busy s) (cprocs_of s))) + 1 - ?k"
        using filter_busy [OF dist m, of "busy s'" "busy s"] as x by (simp add: busy_def f)
      then show "counts_ok s' xs" using D(7) Cons by (auto simp: counts_ok_def f)
    qed
    then show ?thesis unfolding e by blast
  next
    case Nil
    then have q: "queue_rep (tnxt s) q []" "t = 0" using queue_deq_Nil [of "tnxt s" "cthreads s"] Q d by auto
    let ?i = "signal_idle s"
    have I1: "thr_inv A H res ?i [] fs ph cl" using signal_idle_inv [OF I] Nil by simp
    note E = thr_invD [OF I1]
    have fi: "assoc ?i = assoc s" "thr ?i = thr s" "tnxt ?i = tnxt s" "free_cthreads ?i = free_cthreads s"
        "cthread_free_lock ?i = cthread_free_lock s" "cprocs_of ?i = cprocs_of s" "done_of ?i = done_of s"
        "cthread_needed ?i = cthread_needed s" "n_cprocs ?i = n_cprocs s" "n_cthreads ?i = n_cthreads s"
        "max_cprocs ?i = max_cprocs s" "at ?i p = at s p"
      using np(2) by (auto simp: signal_idle_def split: list.splits)
    define s' where "s' = goto p Needed ((signal_idle (?s\<lparr>cthreads := q\<rparr>))\<lparr>cthread_needed := cthread_needed s @ [p], cthread_lock := 0\<rparr>)"
    have e: "body_round p ?s = s'"
      using d q by (auto simp: body_round_def Let_def s'_def unlock_cthreads_def mutex_unlock_def signal_idle_def goto_def split: list.splits)
    have f: "at s' = (at ?i)(p := Needed)" "assoc s' = assoc s" "thr s' = thr s" "tnxt s' = tnxt s" "cthreads s' = q"
        "free_cthreads s' = free_cthreads s" "cthread_free_lock s' = cthread_free_lock s" "cprocs_of s' = cprocs_of s"
        "done_of s' = done_of s" "cthread_needed s' = cthread_needed s @ [p]" "cthread_idle s' = cthread_idle ?i"
        "n_cprocs s' = n_cprocs s" "n_cthreads s' = n_cthreads s - ?k" "max_cprocs s' = max_cprocs s"
      by (auto simp: s'_def signal_idle_def split: list.splits)
    have own': "own s' = own ?i" using ow as fi at by (auto simp: fun_eq_iff own_def f)
    have "thr_inv A H res s' [] fs ph cl"
    proof (rule thr_invI)
      show "lists_ok s' [] fs" using D(1) q by (simp add: lists_ok_def f)
      show "phases_ok s' [] fs A ph" using E(2) unfolding phases_ok_def own' .
      show "thread_ok (thr s' y) (res y) (ph y) (cl y)" for y using D(3) [of y] by (simp add: f)
      show "claims_ok s' H cl" using E(4) at fi by (auto simp: claims_ok_def f)
      show "waits_ok s'" using E(5) at np fi by (auto simp: waits_ok_def f)
      show "procs_ok s' res" using E(6) m as fi by (auto simp: procs_ok_def f)
      have "int (length (filter (busy s') (cprocs_of s))) = int (length (filter (busy ?i) (cprocs_of s))) - ?k"
        using filter_busy [OF dist m, of "busy s'" "busy ?i"] as fi by (simp add: busy_def f)
      then show "counts_ok s' []" using E(7) by (auto simp: counts_ok_def f fi)
    qed
    then show ?thesis unfolding e by blast
  qed
qed


lemma body_enter_inv:
  assumes I: "thr_inv A H res s qs fs ph cl" and f: "body_enter p s = Some s'"
  shows "\<exists>qs ph. thr_inv A H res s' qs fs ph cl"
proof -
  let ?s = "s\<lparr>cthread_lock := 1\<rparr>"
  have e: "at s p = Body" "s' = body_round p ?s" using f by (auto simp: body_enter_def lock_cthreads_iff split: if_splits)
  have "?s\<lparr>n_cthreads := n_cthreads ?s - 0\<rparr> = ?s" by (cases s) simp
  then show ?thesis using body_round_inv [of A H res ?s qs fs ph cl p] I e by simp
qed

lemma body_count_inv:
  assumes I: "thr_inv A H res s qs fs ph cl" and f: "body_count p s = Some s'"
  shows "\<exists>qs ph. thr_inv A H res s' qs fs ph cl"
proof -
  let ?s = "s\<lparr>cthread_lock := 1\<rparr>"
  have e: "at s p = Count" "s' = body_round p (?s\<lparr>n_cthreads := n_cthreads ?s - 1\<rparr>)"
    using f by (auto simp: body_count_def lock_cthreads_iff split: if_splits)
  then show ?thesis using body_round_inv [of A H res ?s qs fs ph cl p] I by simp
qed

text \<open>A change of one structure's fields.\<close>

lemma thr_only:
  assumes I: "thr_inv A H res s qs fs ph cl" and l: "\<And>t. t_lock (th t) = 0"
    and t: "\<And>t. thread_ok (th t) (res' t) (ph t) (cl' t)" and c: "claims_ok s H' cl'"
    and p: "\<And>q. place_ok (at s q) (assoc s q) th res'"
  shows "thr_inv A H' res' (s\<lparr>thr := th\<rparr>) qs fs ph cl'"
proof (rule thr_invI)
  note D = thr_invD [OF I]
  let ?s = "s\<lparr>thr := th\<rparr>"
  have o: "own ?s = own s" and b: "busy ?s = busy s" by (simp_all add: own_def busy_def fun_eq_iff)
  show "lists_ok ?s qs fs" using D(1) l by (simp add: lists_ok_def)
  show "phases_ok ?s qs fs A ph" using D(2) unfolding phases_ok_def o .
  show "counts_ok ?s qs" using D(7) unfolding counts_ok_def b by auto
  show "procs_ok ?s res'" using D(6) p by (simp add: procs_ok_def)
  show "thread_ok (thr ?s t) (res' t) (ph t) (cl' t)" for t using t by simp
  show "claims_ok ?s H' cl'" using c by (simp add: claims_ok_def)
  show "waits_ok ?s" using D(5) by (simp add: waits_ok_def)
qed

lemma claim_handle: "claims_ok s H cl \<Longrightarrow> cl t = Handle \<longleftrightarrow> t \<in> H"
  by (simp add: claims_ok_def)

lemma claim_joiner: "claims_ok s H cl \<Longrightarrow> cl t = Joiner p \<longleftrightarrow> at s p = Join t \<or> at s p = Done_wait t"
  by (simp add: claims_ok_def)

lemma owner_running:
  assumes I: "thr_inv A H res s qs fs ph cl" and "assoc s p = t" "t \<noteq> 0" "\<forall>x. at s p \<noteq> Signal_done x"
  shows "ph t = Running" and "own s p = t" and "own s q = t \<Longrightarrow> q = p"
proof -
  show o: "own s p = t" using assms own_eq by blast
  then show "ph t = Running" using thr_invD(2) [OF I] assms(3) by (auto simp: phases_ok_def)
  show "q = p" if "own s q = t" using thr_invD(2) [OF I] assms(3) o that unfolding phases_ok_def by metis
qed

lemma finish_own: "thr_inv A H res s qs fs ph cl \<Longrightarrow> at s q = Finish t \<Longrightarrow> own s q = t"
  using place_of [of A H res s qs fs ph cl q] by (simp add: own_def)

lemma cthread_exit_inv:
  assumes I: "thr_inv A H res s qs fs ph cl" and f: "cthread_exit p r s = Some s'"
  shows "thr_inv A H (res(assoc s p := r)) s' qs fs ph cl"
proof -
  note D = thr_invD [OF I]
  define t where "t = assoc s p"
  define th where "th = (thr s)(t := (thr s t)\<lparr>t_result := r\<rparr>)"
  have p: "at s p = Client" and s': "s' = goto p (if T_MAIN (thr s t) then Exiting else Finish t) (s\<lparr>thr := th\<rparr>)"
    using f by (auto simp: cthread_exit_def Let_def t_def upd_thr_def th_def split: if_splits)
  have t: "t \<noteq> 0" using client_threads [OF I p] by (simp add: t_def)
  note R = owner_running [OF I t_def [symmetric] t]
  have x: "at s q \<noteq> Finish t" for q using R(3) [of q] finish_own [OF I, of q t] p by auto
  have J: "thr_inv A H (res(t := r)) (s\<lparr>thr := th\<rparr>) qs fs ph cl"
  proof (rule thr_only [OF I _ _ D(4)])
    show "t_lock (th y) = 0" for y using D(1) by (simp add: lists_ok_def th_def)
    show "thread_ok (th y) ((res(t := r)) y) (ph y) (cl y)" for y
      using D(3) [of y] R(1) p by (cases "y = t") (simp_all add: th_def thread_ok_def)
    show "place_ok (at s q) (assoc s q) th (res(t := r))" for q
      using place_of [OF I, of q] x [of q] by (cases "at s q") (auto simp: th_def)
  qed
  have m: "p \<in> set (cprocs_of s)" using client_is_cproc [OF I, of p] p by simp
  show ?thesis unfolding s' t_def [symmetric]
    using p t m by (intro goto_plain [OF J]) (auto simp: t_def [symmetric] th_def)
qed

lemma lock_unlock:
  assumes "t_lock (thr s t) = 0"
  shows "unlock_thread t (upd_thr t (\<lambda>x. x\<lparr>t_lock := 1\<rparr>) s) = s"
proof -
  have "(thr s t)\<lparr>t_lock := 0\<rparr> = thr s t" using assms by (cases "thr s t") simp
  then show ?thesis by (cases s) (simp add: unlock_thread_def upd_thr_def mutex_unlock_def)
qed

lemma thr_upd [simp]: "thr (upd_thr t f s) = (thr s)(t := f (thr s t))"
  by (simp add: upd_thr_def)

lemma unlocked: "thr_inv A H res s qs fs ph cl \<Longrightarrow> t_lock (thr s t) = 0"
  using thr_invD(1) [of A H res s qs fs ph cl] by (simp add: lists_ok_def)

text \<open>The two ways a function's return ends: the structure is freed at once, or waits for its joiner.\<close>

lemma finish_detached:
  assumes I: "thr_inv A H res s qs fs ph cl" and p: "at s p = Finish t" and d: "T_DETACHED (thr s t)"
    and s': "s' = goto p Count (s\<lparr>tnxt := (tnxt s)(t := free_cthreads s), free_cthreads := t, cthread_free_lock := 0,
        assoc := (assoc s)(p := 0)\<rparr>)"
  shows "thr_inv A H res s' qs (t # fs) (ph(t := Freed)) (cl(t := Nobody))"
proof (rule thr_invI)
  note D = thr_invD [OF I]
  have pl: "assoc s p = t" "t \<noteq> 0" using place_of [OF I, of p] p by auto
  have ns: "\<forall>x. at s p \<noteq> Signal_done x" using p by simp
  note R = owner_running [OF I pl ns]
  have c: "cl t = Detached" using D(3) [of t] R(1) d by (simp add: thread_ok_def)
  have m: "p \<in> set (cprocs_of s)" using client_is_cproc [OF I, of p] p by simp
  have ow: "own s' = (own s)(p := 0)" using s' by (auto simp: fun_eq_iff own_def)
  have bu: "busy s' = busy s" using s' pl by (auto simp: fun_eq_iff busy_def)
  show "lists_ok s' qs (t # fs)"
    using phase_lists [OF D(2), of t] R(1) pl unlocked [OF I] s' by (intro free_lists [OF D(1)]) auto
  show "phases_ok s' qs (t # fs) A (ph(t := Freed))" by (rule phases_stop [OF D(2) ow R(2) pl(2)]) auto
  show "thread_ok (thr s' x) (res x) ((ph(t := Freed)) x) ((cl(t := Nobody)) x)" for x
    using D(3) [of x] s' by (simp add: thread_ok_def)
  have nj: "at s q \<noteq> Join t \<and> at s q \<noteq> Done_wait t" for q using D(4) c unfolding claims_ok_def by (metis claim.distinct(19))
  have "t \<notin> H" using claim_handle [OF D(4), of t] c by simp
  then show "claims_ok s' H (cl(t := Nobody))" using D(4) c nj p s' unfolding claims_ok_def by auto
  show "waits_ok s'" using D(5) p s' by (auto simp: waits_ok_def)
  have f: "at s' = (at s)(p := Count)" "assoc s' = (assoc s)(p := 0)" "thr s' = thr s" "cprocs_of s' = cprocs_of s"
      "n_cprocs s' = n_cprocs s" "n_cthreads s' = n_cthreads s" "max_cprocs s' = max_cprocs s"
    by (simp_all add: s')
  show "procs_ok s' res" using D(6) m by (auto simp: procs_ok_def f)
  show "counts_ok s' qs" using D(7) unfolding counts_ok_def bu f .
qed

lemma finish_returned:
  assumes I: "thr_inv A H res s qs fs ph cl" and p: "at s p = Finish t" and d: "\<not> T_DETACHED (thr s t)"
    and s': "s' = goto p (Signal_done t) (upd_thr t (\<lambda>x. x\<lparr>T_RETURNED := True\<rparr>) s)"
  shows "thr_inv A H res s' qs fs (ph(t := Returned)) cl"
proof (rule thr_invI)
  note D = thr_invD [OF I]
  have pl: "assoc s p = t" "t \<noteq> 0" "\<not> T_MAIN (thr s t)" "t_result (thr s t) = res t" using place_of [OF I, of p] p by auto
  have ns: "\<forall>x. at s p \<noteq> Signal_done x" using p by simp
  note R = owner_running [OF I pl(1,2) ns]
  have f: "at s' = (at s)(p := Signal_done t)" "assoc s' = assoc s" "thr s' = (thr s)(t := (thr s t)\<lparr>T_RETURNED := True\<rparr>)"
    by (simp_all add: s' upd_thr_def)
  have ow: "own s' = (own s)(p := 0)" by (auto simp: fun_eq_iff own_def f)
  have bu: "busy s' = busy s" using p by (auto simp: fun_eq_iff busy_def f)
  show "lists_ok s' qs fs" using D(1) by (auto simp: lists_ok_def s' upd_thr_def)
  show "phases_ok s' qs fs A (ph(t := Returned))" by (rule phases_stop [OF D(2) ow R(2) pl(2)]) auto
  show "thread_ok (thr s' x) (res x) ((ph(t := Returned)) x) (cl x)" for x
    using D(3) [of x] R(1) d pl(3,4) by (cases "cl x") (auto simp: thread_ok_def f)
  show "claims_ok s' H cl" using D(4) p unfolding claims_ok_def f by auto
  show "waits_ok s'" using D(5) p by (auto simp: waits_ok_def s' upd_thr_def)
  have x: "at s q \<noteq> Finish t" if "q \<noteq> p" for q using R(3) [of q] finish_own [OF I, of q t] that by auto
  have "place_ok (at s' q) (assoc s' q) (thr s') res" for q
    using place_of [OF I, of q] x [of q] pl(1,2) by (cases "at s q") (auto simp: f)
  moreover have "p \<in> set (cprocs_of s)" using client_is_cproc [OF I, of p] p by simp
  ultimately show "procs_ok s' res" using D(6) by (auto simp: procs_ok_def s' upd_thr_def)
  show "counts_ok s' qs" using D(7) s' unfolding counts_ok_def bu by (auto simp: upd_thr_def)
qed

lemma body_finish_inv:
  assumes I: "thr_inv A H res s qs fs ph cl" and f: "body_finish p s = Some s'"
  shows "\<exists>fs ph cl. thr_inv A H res s' qs fs ph cl"
proof -
  obtain t where p: "at s p = Finish t" using f by (auto simp: body_finish_def split: place.splits)
  have m: "\<not> T_MAIN (thr s t)" using place_of [OF I, of p] p by simp
  note L = lock_unlock [OF unlocked [OF I], of t]
  let ?x = "thr s t"
  have lk: "lock_thread t s = Some (upd_thr t (\<lambda>x. x\<lparr>t_lock := 1\<rparr>) s)" using unlocked [OF I] by (simp add: lock_thread_iff)
  show ?thesis
  proof (cases "T_DETACHED ?x")
    case True
    have "s' = goto p Count (s\<lparr>tnxt := (tnxt s)(t := free_cthreads s), free_cthreads := t, cthread_free_lock := 0,
        assoc := (assoc s)(p := 0)\<rparr>)"
      using f m True by (simp add: body_finish_def p lk L cthread_free_eq [OF thr_invD(1) [OF I]])
    then show ?thesis using finish_detached [OF I p True] by blast
  next
    case False
    have "(?x\<lparr>T_RETURNED := True, t_lock := 0\<rparr>) = ?x\<lparr>T_RETURNED := True\<rparr>"
      using unlocked [OF I, of t] by (cases ?x) simp
    then have "s' = goto p (Signal_done t) (upd_thr t (\<lambda>x. x\<lparr>T_RETURNED := True\<rparr>) s)"
      using f m False by (simp add: body_finish_def p lk unlock_thread_def upd_thr_def mutex_unlock_def)
    then show ?thesis using finish_returned [OF I p False] by blast
  qed
qed

lemma signal_done_at: "at s p = Signal_done t \<Longrightarrow> waits_ok s \<Longrightarrow> at (signal_done u s) p = Signal_done t"
proof -
  assume a: "at s p = Signal_done t" and w: "waits_ok s"
  have "p \<in> set (done_of s u) \<longleftrightarrow> at s p = Done_wait u" using w by (simp add: waits_ok_def)
  then show "at (signal_done u s) p = Signal_done t" using a by (auto simp: signal_done_def split: list.splits)
qed

lemma body_signal_inv:
  assumes I: "thr_inv A H res s qs fs ph cl" and f: "body_signal p s = Some s'"
  shows "thr_inv A H res s' qs fs ph cl"
proof (rule thr_invI)
  obtain t where t: "at s p = Signal_done t" using f by (auto simp: body_signal_def split: place.splits)
  let ?i = "signal_done t s"
  have s': "s' = goto p Count (?i\<lparr>assoc := (assoc ?i)(p := 0)\<rparr>)" using f t by (simp add: body_signal_def Let_def)
  have J: "thr_inv A H res ?i qs fs ph cl" by (rule signal_done_inv [OF I])
  note D = thr_invD [OF J]
  have p: "at ?i p = Signal_done t" using signal_done_at [OF t thr_invD(5) [OF I]] .
  have a: "assoc ?i p \<noteq> 0" using place_of [OF J, of p] p by simp
  have m: "p \<in> set (cprocs_of ?i)" using client_is_cproc [OF J, of p] p by simp
  have f: "at s' = (at ?i)(p := Count)" "assoc s' = (assoc ?i)(p := 0)" "thr s' = thr ?i" "tnxt s' = tnxt ?i" "cthreads s' = cthreads ?i"
      "free_cthreads s' = free_cthreads ?i" "cthread_free_lock s' = cthread_free_lock ?i" "cprocs_of s' = cprocs_of ?i"
      "done_of s' = done_of ?i" "cthread_needed s' = cthread_needed ?i" "cthread_idle s' = cthread_idle ?i"
      "n_cprocs s' = n_cprocs ?i" "n_cthreads s' = n_cthreads ?i" "max_cprocs s' = max_cprocs ?i"
    by (simp_all add: s')
  have o: "own s' = own ?i" using p by (auto simp: fun_eq_iff own_def f)
  have b: "busy s' = busy ?i" using a by (auto simp: fun_eq_iff busy_def f)
  show "lists_ok s' qs fs" using D(1) by (simp add: lists_ok_def f)
  show "phases_ok s' qs fs A ph" using D(2) unfolding phases_ok_def o .
  show "thread_ok (thr s' y) (res y) (ph y) (cl y)" for y using D(3) [of y] by (simp add: f)
  show "claims_ok s' H cl" using D(4) p by (auto simp: claims_ok_def f)
  show "waits_ok s'" using D(5) p by (auto simp: waits_ok_def f)
  show "procs_ok s' res" using D(6) m by (auto simp: procs_ok_def f)
  show "counts_ok s' qs" using D(7) unfolding counts_ok_def b f .
qed

text \<open>A structure whose function has returned is freed, by \<open>cthread_detach\<close> or \<open>cthread_join\<close>.\<close>

lemma free_returned:
  assumes I: "thr_inv A H res s qs fs ph cl" and t: "ph t = Returned" and p: "at s p = Client \<and> cl t = Handle \<or> at s p = Join t"
    and s': "s' = goto p Client (s\<lparr>tnxt := (tnxt s)(t := free_cthreads s), free_cthreads := t, cthread_free_lock := 0\<rparr>)"
  shows "thr_inv A (H - {t}) res s' qs (t # fs) (ph(t := Freed)) (cl(t := Nobody))"
proof (rule thr_invI)
  note D = thr_invD [OF I]
  have f: "at s' = (at s)(p := Client)" "assoc s' = assoc s" "thr s' = thr s" "cthreads s' = cthreads s" "cprocs_of s' = cprocs_of s"
      "done_of s' = done_of s" "cthread_needed s' = cthread_needed s" "cthread_idle s' = cthread_idle s"
      "n_cprocs s' = n_cprocs s" "n_cthreads s' = n_cthreads s" "max_cprocs s' = max_cprocs s"
    by (simp_all add: s')
  have a: "assoc s p \<noteq> 0" "p \<in> set (cprocs_of s)" using place_of [OF I, of p] client_is_cproc [OF I, of p] p by auto
  have o: "own s' = own s" using p by (auto simp: fun_eq_iff own_def f)
  have b: "busy s' = busy s" using a by (auto simp: fun_eq_iff busy_def f)
  have tA: "t \<in> A" "t \<noteq> 0" using D(2) t phase_lists [OF D(2), of t] unfolding phases_ok_def by (metis phase.distinct(5), simp)
  show "lists_ok s' qs (t # fs)"
    using phase_lists [OF D(2), of t] t tA unlocked [OF I] s' by (intro free_lists [OF D(1)]) auto
  have "phases_ok s' qs (t # fs) (insert t A) (ph(t := Freed))"
    using t tA phase_lists [OF D(2), of t] by (intro phases_move [OF D(2) o]) auto
  then show "phases_ok s' qs (t # fs) A (ph(t := Freed))" using tA by (simp add: insert_absorb)
  show "thread_ok (thr s' x) (res x) ((ph(t := Freed)) x) ((cl(t := Nobody)) x)" for x
    using D(3) [of x] by (cases "x = t") (simp_all add: f thread_ok_def)
  have j: "q = p \<and> at s p = Join t" if "at s q = Join t \<or> at s q = Done_wait t" for q
  proof -
    have "cl t = Joiner q" using claim_joiner [OF D(4), of t q] that by blast
    then show ?thesis using claim_joiner [OF D(4), of t p] p by auto
  qed
  have "(cl(t := Nobody)) x = Joiner q \<longleftrightarrow> at s' q = Join x \<or> at s' q = Done_wait x" for x q
  proof (cases "x = t")
    case True
    then show ?thesis using j [of q] p by (auto simp: f)
  next
    case False
    then show ?thesis using claim_joiner [OF D(4), of x q] p by (auto simp: f)
  qed
  moreover have "(cl(t := Nobody)) x = Handle \<longleftrightarrow> x \<in> H - {t}" for x using claim_handle [OF D(4), of x] by simp
  ultimately show "claims_ok s' (H - {t}) (cl(t := Nobody))" unfolding claims_ok_def by blast
  show "waits_ok s'" using D(5) p by (auto simp: waits_ok_def f)
  show "procs_ok s' res" using D(6) a by (auto simp: procs_ok_def f)
  show "counts_ok s' qs" using D(7) unfolding counts_ok_def b f .
qed

lemma handle_phase:
  assumes I: "thr_inv A H res s qs fs ph cl" and t: "cl t \<noteq> Nobody"
  shows "T_RETURNED (thr s t) \<longleftrightarrow> ph t = Returned"
  using thr_invD(3) [OF I, of t] t by (cases "ph t") (auto simp: thread_ok_def)

lemma locked: "thr_inv A H res s qs fs ph cl \<Longrightarrow> lock_thread t s = Some (upd_thr t (\<lambda>x. x\<lparr>t_lock := 1\<rparr>) s)"
  by (simp add: lock_thread_iff unlocked)

lemma cthread_detach_inv:
  assumes I: "thr_inv A H res s qs fs ph cl" and h: "t \<in> H" and f: "cthread_detach p t s = Some s'"
  shows "\<exists>fs ph cl. thr_inv A (H - {t}) res s' qs fs ph cl"
proof -
  note D = thr_invD [OF I] and L = lock_unlock [OF unlocked [OF I], of t]
  have p: "at s p = Client" using f by (simp add: cthread_detach_def split: if_splits)
  have c: "cl t = Handle" using claim_handle [OF D(4)] h by simp
  note R = handle_phase [OF I, of t]
  show ?thesis
  proof (cases "T_RETURNED (thr s t)")
    case True
    let ?s = "s\<lparr>tnxt := (tnxt s)(t := free_cthreads s), free_cthreads := t, cthread_free_lock := 0\<rparr>"
    have "s' = ?s" using f p True by (simp add: cthread_detach_def locked [OF I] L cthread_free_eq [OF D(1)])
    moreover have "goto p Client ?s = ?s" using p by (simp add: goto_def fun_upd_idem)
    ultimately have "s' = goto p Client ?s" by simp
    moreover have "ph t = Returned" "at s p = Client \<and> cl t = Handle \<or> at s p = Join t" using R c True p by simp_all
    ultimately show ?thesis using free_returned [OF I] by blast
  next
    case False
    let ?x = "thr s t"
    let ?th = "(thr s)(t := ?x\<lparr>T_DETACHED := True\<rparr>)"
    have "(?x\<lparr>T_DETACHED := True, t_lock := 0\<rparr>) = ?x\<lparr>T_DETACHED := True\<rparr>" using unlocked [OF I, of t] by (cases ?x) simp
    then have s': "s' = s\<lparr>thr := ?th\<rparr>"
      using f p False by (simp add: cthread_detach_def locked [OF I] unlock_thread_def upd_thr_def mutex_unlock_def)
    have "thr_inv A (H - {t}) res (s\<lparr>thr := ?th\<rparr>) qs fs ph (cl(t := Detached))"
    proof (rule thr_only [OF I])
      show "t_lock (?th y) = 0" for y using unlocked [OF I] by simp
      show "thread_ok (?th y) (res y) (ph y) ((cl(t := Detached)) y)" for y
        using D(3) [of y] R c False by (cases "y = t"; cases "ph t") (simp_all add: thread_ok_def)
      have "(cl(t := Detached)) x = Joiner q \<longleftrightarrow> at s q = Join x \<or> at s q = Done_wait x" for x q
        using claim_joiner [OF D(4), of x q] c by auto
      moreover have "(cl(t := Detached)) x = Handle \<longleftrightarrow> x \<in> H - {t}" for x using claim_handle [OF D(4), of x] by simp
      ultimately show "claims_ok s (H - {t}) (cl(t := Detached))" unfolding claims_ok_def by blast
      show "place_ok (at s q) (assoc s q) ?th res" for q using place_of [OF I, of q] by (cases "at s q") auto
    qed
    then show ?thesis unfolding s' by blast
  qed
qed

lemma cthread_join_inv:
  assumes I: "thr_inv A H res s qs fs ph cl" and h: "t \<in> H" and f: "cthread_join p t s = Some s'"
  shows "\<exists>cl. thr_inv A (H - {t}) res s' qs fs ph cl"
proof -
  note D = thr_invD [OF I]
  have p: "at s p = Client" and s': "s' = goto p (Join t) s" using f by (auto simp: cthread_join_def split: if_splits)
  have c: "cl t = Handle" using claim_handle [OF D(4)] h by simp
  have m: "p \<in> set (cprocs_of s)" using client_is_cproc [OF I, of p] p by simp
  have "thr_inv A (H - {t}) res (goto p (Join t) s) qs fs ph (cl(t := Joiner p))"
  proof (rule move_keeps [OF I m, where l = "Join t"])
    have "(cl(t := Joiner p)) x = Joiner q \<longleftrightarrow> at s' q = Join x \<or> at s' q = Done_wait x" for x q
      using claim_joiner [OF D(4), of x q] claim_joiner [OF D(4), of x p] c p s' by auto
    moreover have "(cl(t := Joiner p)) x = Handle \<longleftrightarrow> x \<in> H - {t}" for x using claim_handle [OF D(4), of x] by simp
    ultimately show "claims_ok (goto p (Join t) s) (H - {t}) (cl(t := Joiner p))" unfolding claims_ok_def s' by blast
    show "thread_ok (thr s y) (res y) (ph y) ((cl(t := Joiner p)) y)" for y
      using D(3) [of y] c by (cases "y = t"; cases "ph t") (simp_all add: thread_ok_def)
    show "waits_ok (goto p (Join t) s)" using D(5) p by (auto simp: waits_ok_def)
  qed (use p client_threads [OF I p] in \<open>simp_all add: same_threads_def\<close>)
  then show ?thesis using s' by blast
qed

lemma join_round_inv:
  assumes I: "thr_inv A H res s qs fs ph cl" and f: "join_round p s = Some (r, s')"
  shows "\<exists>fs ph cl. thr_inv A H res s' qs fs ph cl"
    and "\<And>t x. at s p = Join t \<Longrightarrow> r = Some x \<Longrightarrow> x = res t"
proof -
  note D = thr_invD [OF I]
  obtain t where p: "at s p = Join t" using f by (auto simp: join_round_def split: place.splits)
  note L = lock_unlock [OF unlocked [OF I], of t]
  have c: "cl t = Joiner p" using claim_joiner [OF D(4)] p by simp
  have hn: "t \<notin> H" using claim_handle [OF D(4), of t] c by simp
  have m: "p \<in> set (cprocs_of s)" using client_is_cproc [OF I, of p] p by simp
  note R = handle_phase [OF I, of t]
  have "(\<exists>fs ph cl. thr_inv A H res s' qs fs ph cl) \<and> (\<forall>x. r = Some x \<longrightarrow> x = res t)"
  proof (cases "T_RETURNED (thr s t)")
    case True
    then have pr: "ph t = Returned" using R c by simp
    have "t_result (thr s t) = res t" using D(3) [of t] pr by (simp add: thread_ok_def)
    moreover have "s' = goto p Client (s\<lparr>tnxt := (tnxt s)(t := free_cthreads s), free_cthreads := t, cthread_free_lock := 0\<rparr>)"
        and "r = Some (t_result (thr s t))"
      using f p True by (auto simp: join_round_def locked [OF I] L cthread_free_eq [OF D(1)] Let_def)
    ultimately show ?thesis using free_returned [OF I pr] p hn by (metis Diff_insert_absorb Diff_idemp insert_Diff_if option.inject)
  next
    case False
    define i where "i = s\<lparr>done_of := (done_of s)(t := done_of s t @ [p])\<rparr>"
    have "(thr s t)\<lparr>t_lock := 0\<rparr> = thr s t" using unlocked [OF I, of t] by (cases "thr s t") simp
    then have "i\<lparr>thr := (thr s)(t := (thr s t)\<lparr>t_lock := 0\<rparr>)\<rparr> = i" by (cases s) (simp add: i_def)
    then have "r = None" and s': "s' = goto p (Done_wait t) i"
      using f p False by (auto simp: join_round_def locked [OF I] i_def unlock_thread_def upd_thr_def mutex_unlock_def)
    have "thr_inv A H res s' qs fs ph cl" unfolding s'
    proof (rule move_keeps [OF I m, where l = "Done_wait t", OF _ _ _ _ _ _ D(3)])
      show "claims_ok (goto p (Done_wait t) i) H cl" using D(4) p by (auto simp: claims_ok_def i_def)
      show "waits_ok (goto p (Done_wait t) i)" using D(5) p by (auto simp: waits_ok_def i_def)
    qed (use p place_of [OF I, of p] in \<open>simp_all add: same_threads_def i_def\<close>)
    then show ?thesis using \<open>r = None\<close> by blast
  qed
  then show "\<exists>fs ph cl. thr_inv A H res s' qs fs ph cl" "\<And>t x. at s p = Join t \<Longrightarrow> r = Some x \<Longrightarrow> x = res t" using p by auto
qed

lemma exit_round_inv:
  assumes I: "thr_inv A H res s qs fs ph cl" and f: "exit_round p s = Some s'"
  shows "thr_inv A H res s' qs fs ph cl"
proof -
  have p: "at s p = Exiting" using f by (simp add: exit_round_def split: if_splits)
  let ?s = "unlock_cthreads (s\<lparr>cthread_lock := 1\<rparr>)"
  have J: "thr_inv A H res ?s qs fs ph cl" using I by simp
  note D = thr_invD [OF J]
  have q: "at ?s p = Exiting" using p by (simp add: unlock_cthreads_def)
  have m: "p \<in> set (cprocs_of ?s)" using client_is_cproc [OF J, of p] q by simp
  show ?thesis
  proof (cases "n_cthreads s > 1")
    case True
    define i where "i = ?s\<lparr>cthread_idle := cthread_idle ?s @ [p]\<rparr>"
    have "s' = goto p Idle_wait i"
      using f p True by (auto simp: exit_round_def lock_cthreads_iff i_def unlock_cthreads_def split: option.splits)
    moreover have "thr_inv A H res (goto p Idle_wait i) qs fs ph cl"
    proof (rule move_keeps [OF J m, where l = Idle_wait, OF _ _ _ _ _ _ D(3)])
      show "claims_ok (goto p Idle_wait i) H cl" using D(4) q by (auto simp: claims_ok_def i_def)
      show "waits_ok (goto p Idle_wait i)" using D(5) q by (auto simp: waits_ok_def i_def)
    qed (use q place_of [OF J, of p] in \<open>simp_all add: same_threads_def i_def\<close>)
    ultimately show ?thesis by simp
  next
    case False
    have "s' = goto p Gone ?s" using f p False by (auto simp: exit_round_def lock_cthreads_iff split: option.splits)
    then show ?thesis using goto_plain [OF J m] q by simp
  qed
qed

end
