(* ===== verification/Cthread_Threads_Runs.thy ===== *)
theory Cthread_Threads_Runs
  imports Cthread_Threads_Props
begin

text \<open>
  What holds in every state a run of the threads package reaches: where the thread structures
  are, what the counters say, what a join returns, and that no wake-up is lost.
\<close>

section \<open>Every run keeps the invariant\<close>

lemma init_inv:
  assumes i: "cthread_init p m (thr_start lim) = Some s" and p: "p \<noteq> 0" "m \<noteq> 0"
  shows "thr_inv {m} {} (\<lambda>_. 0) s [] [] ((\<lambda>_. Unused)(m := Running)) ((\<lambda>_. Nobody)(m := Main_thread))"
proof -
  have s: "s = (thr_start lim)\<lparr>cprocs_of := [p], n_cprocs := 1, n_cthreads := 1, at := (\<lambda>_. Gone)(p := Client), assoc := (\<lambda>_. 0)(p := m),
      thr := (\<lambda>_. initial_cthread)(m := initial_cthread\<lparr>T_MAIN := True, t_name := ''main''\<rparr>)\<rparr>"
    using i by (auto simp: cthread_init_def cthread_alloc_def thr_start_def upd_thr_def cthread_set_name_def goto_def Let_def
        initial_cthread_def fun_eq_iff)
  have o: "own s q = (if q = p then m else 0)" for q by (simp add: s own_def thr_start_def)
  show ?thesis
  proof (rule thr_invI)
    show "lists_ok s [] []"
      by (simp add: lists_ok_def s thr_start_def initial_cthread_def)
    show "phases_ok s [] [] {m} ((\<lambda>_. Unused)(m := Running))" using p by (auto simp: phases_ok_def o)
    show "thread_ok (thr s t) 0 (((\<lambda>_. Unused)(m := Running)) t) (((\<lambda>_. Nobody)(m := Main_thread)) t)" for t
      by (simp add: thread_ok_def s initial_cthread_def)
    show "claims_ok s {} ((\<lambda>_. Nobody)(m := Main_thread))" by (auto simp: claims_ok_def s)
    show "waits_ok s" by (simp add: waits_ok_def s thr_start_def)
    show "procs_ok s (\<lambda>_. 0)" using p by (simp add: procs_ok_def s)
    show "counts_ok s []" using p by (simp add: counts_ok_def s busy_def thr_start_def)
  qed
qed

lemma reach_inv:
  assumes "thr_reach (thr_start lim) A H res s"
  shows "\<exists>qs fs ph cl. thr_inv A H res s qs fs ph cl"
  using assms
proof (induction rule: thr_reach.induct)
  case (init p m s)
  then show ?case using init_inv by blast
next
  case (fork A H res s p m c func arg s' t)
  then show ?case using fork_begin_inv by metis
next
  case (enter A H res s p s')
  then show ?case using body_enter_inv by metis
next
  case (finish A H res s p s')
  then show ?case using body_finish_inv by metis
next
  case (count A H res s p s')
  then show ?case using body_count_inv by metis
next
  case (detach A H res s t p s')
  then show ?case using cthread_detach_inv by metis
next
  case (join A H res s t p s')
  then show ?case using cthread_join_inv by metis
next
  case (joining A H res s p r s')
  then show ?case using join_round_inv(1) by metis
next
  case (limit A H res s n)
  then show ?case using set_limit_inv by metis
qed (use fork_end_inv cthread_exit_inv body_signal_inv exit_round_inv in metis)+

section \<open>A run\<close>

text \<open>The main thread forks one thread, which runs and returns 7 while the main thread joins it.\<close>

definition demo :: "nat \<Rightarrow> thr_state" where
  "demo n = the (fold (\<lambda>f so. Option.bind so f)
     (take n [cthread_init 1 10, fork_begin 1 20 2 5 6, fork_end 1, body_enter 2, cthread_join 1 20, map_option snd \<circ> join_round 1,
              cthread_exit 2 7, body_finish 2, body_signal 2]) (Some (thr_start 0)))"

lemmas demo_defs = cthread_init_def cthread_alloc_def thr_start_def upd_thr_def cthread_set_name_def goto_def Let_def
  initial_cthread_def fork_begin_def lock_cthreads_def take_mutex_def mutex_try_lock_def cthread_queue_enq_def
  QUEUE_INITIALIZER_def fork_end_def signal_needed_def unlock_cthreads_def mutex_unlock_def body_enter_def body_round_def
  cthread_queue_deq_def cthread_join_def join_round_def lock_thread_def unlock_thread_def cthread_exit_def body_finish_def
  body_signal_def signal_done_def

lemma demo_Suc0: "cthread_init 1 10 (thr_start 0) = Some (demo 1)"
  by (simp add: demo_def demo_defs)

lemma demo_forked: "fork_begin 1 20 2 5 6 (demo 1) = Some (demo 2)" "at (demo 2) 1 = Forked 20" "cprocs_of (demo 1) = [1]"
  by (simp_all add: demo_def demo_defs)

lemma demo_fork_end: "fork_end 1 (demo 2) = Some (demo 3)"
  by (simp add: demo_def demo_defs)

lemma demo_enter: "body_enter 2 (demo 3) = Some (demo 4)"
  by (simp add: demo_def demo_defs)

lemma demo_join: "cthread_join 1 20 (demo 4) = Some (demo 5)"
  by (simp add: demo_def demo_defs)

lemma demo_wait: "join_round 1 (demo 5) = Some (None, demo 6)"
  by (simp add: demo_def demo_defs)

lemma demo_return: "cthread_exit 2 7 (demo 6) = Some (demo 7)" "assoc (demo 6) 2 = 20"
  by (simp_all add: demo_def demo_defs)

lemma demo_finish: "body_finish 2 (demo 7) = Some (demo 8)"
  by (simp add: demo_def demo_defs)

lemma demo_signal: "body_signal 2 (demo 8) = Some (demo 9)" "at (demo 9) 1 = Join 20"
  by (simp_all add: demo_def demo_defs)

lemma demo_reach3: "thr_reach (thr_start 0) {20, 10} {20} (\<lambda>_. 0) (demo 3)"
proof -
  have "thr_reach (thr_start 0) {10} {} (\<lambda>_. 0) (demo 1)" by (rule thr_reach.init [OF demo_Suc0]) simp_all
  then have "thr_reach (thr_start 0) {20, 10} {20} (\<lambda>_. 0) (demo 2)"
    by (rule thr_reach.fork [OF _ demo_forked(1,2)]) (use demo_forked(3) in simp_all)
  then show ?thesis by (rule thr_reach.forked [OF _ demo_fork_end])
qed

lemma demo_reach6: "thr_reach (thr_start 0) {20, 10} {} (\<lambda>_. 0) (demo 6)"
proof -
  have "thr_reach (thr_start 0) {20, 10} {20} (\<lambda>_. 0) (demo 4)" by (rule thr_reach.enter [OF demo_reach3 demo_enter])
  then have "thr_reach (thr_start 0) {20, 10} ({20} - {20}) (\<lambda>_. 0) (demo 5)" by (rule thr_reach.join [OF _ _ demo_join]) simp
  then show ?thesis using thr_reach.joining [OF _ demo_wait] by simp
qed

lemma demo_reach8: "thr_reach (thr_start 0) {20, 10} {} ((\<lambda>_. 0)(20 := 7)) (demo 8)"
proof -
  have "thr_reach (thr_start 0) {20, 10} {} ((\<lambda>_. 0)(20 := 7)) (demo 7)"
    using thr_reach.returns [OF demo_reach6 demo_return(1)] by (simp add: demo_return(2))
  then show ?thesis by (rule thr_reach.finish [OF _ demo_finish])
qed

lemma demo_reach9: "thr_reach (thr_start 0) {20, 10} {} ((\<lambda>_. 0)(20 := 7)) (demo 9)"
  by (rule thr_reach.signal [OF demo_reach8 demo_signal(1)])

section \<open>Structures, counters and results\<close>

text \<open>(C4) In every interleaving of the cprocs, every thread structure the package ever obtained is
  in exactly one place: queued, on the free list, run by one cproc, or returned and held by the one
  who will release it.  No structure is freed while the client holds its handle or a cproc joins
  it, none is lost, and no two cprocs run the same thread.\<close>

theorem thread_structures_accounted:
  assumes r: "thr_reach (thr_start lim) A H res s"
  shows "\<exists>qs fs. queue_rep (tnxt s) (cthreads s) qs \<and> chain (tnxt s) (free_cthreads s) fs \<and> distinct (qs @ fs)
     \<and> (\<forall>p q. own s p = own s q \<longrightarrow> own s p \<noteq> 0 \<longrightarrow> p = q)
     \<and> (\<forall>p. own s p \<notin> set qs \<union> set fs)
     \<and> A = set qs \<union> set fs \<union> (range (own s) - {0}) \<union> {t \<in> A. T_RETURNED (thr s t) \<and> (t \<in> H \<or> (\<exists>p. at s p = Join t \<or> at s p = Done_wait t))}
     \<and> (\<forall>t. t \<in> H \<or> (\<exists>p. at s p = Join t \<or> at s p = Done_wait t) \<longrightarrow> t \<in> A \<and> t \<notin> set fs)"
proof -
  obtain qs fs ph cl where I: "thr_inv A H res s qs fs ph cl" using reach_inv [OF r] by blast
  note D = thr_invD [OF I]
  have Q: "queue_rep (tnxt s) (cthreads s) qs" and F: "chain (tnxt s) (free_cthreads s) fs" using D(1) by (auto simp: lists_ok_def)
  have P: "\<And>t. ph t = Queued \<longleftrightarrow> t \<in> set qs" "\<And>t. ph t = Freed \<longleftrightarrow> t \<in> set fs" "\<And>t. ph t = Running \<longleftrightarrow> t \<noteq> 0 \<and> t \<in> range (own s)"
      "\<And>t. ph t \<noteq> Unused \<longleftrightarrow> t \<in> A" and J: "\<forall>p q. own s p = own s q \<longrightarrow> own s p \<noteq> 0 \<longrightarrow> p = q"
    using D(2) by (auto simp: phases_ok_def)
  have z: "0 \<notin> set qs" "0 \<notin> set fs" "distinct qs" "distinct fs"
    using ctq.rep_members [OF Q] chain_members [OF F] chain_distinct [OF F] by auto
  have d: "set qs \<inter> set fs = {}"
  proof -
    have "x \<notin> set fs" if "x \<in> set qs" for x using P(1,2) [of x] that by auto
    then show ?thesis by blast
  qed
  have o: "own s p \<notin> set qs \<union> set fs" for p using P(1-3) [of "own s p"] z by (cases "own s p = 0") auto
  let ?w = "\<lambda>t. t \<in> H \<or> (\<exists>p. at s p = Join t \<or> at s p = Done_wait t)"
  have w: "?w t \<longleftrightarrow> cl t = Handle \<or> (\<exists>p. cl t = Joiner p)" for t
    using claim_handle [OF D(4)] claim_joiner [OF D(4)] by blast
  have R: "T_RETURNED (thr s t) \<and> ?w t" if "ph t = Returned" for t
    unfolding w using D(3) [of t] that by (simp add: thread_ok_def)
  have "t \<in> set qs \<union> set fs \<union> (range (own s) - {0}) \<union> {t \<in> A. T_RETURNED (thr s t) \<and> ?w t}" if "t \<in> A" for t
    using that P [of t] R [of t] by (cases "ph t") auto
  moreover have "t \<in> A" if "t \<in> set qs \<union> set fs \<union> (range (own s) - {0})" for t
    using that P(1-3) [of t] P(4) [of t] by auto
  ultimately have "A = set qs \<union> set fs \<union> (range (own s) - {0}) \<union> {t \<in> A. T_RETURNED (thr s t) \<and> ?w t}" by blast
  moreover have "t \<in> A \<and> t \<notin> set fs" if "?w t" for t
    using that D(3) [of t] P(2,4) [of t] unfolding w by (cases "ph t") (auto simp: thread_ok_def)
  ultimately show ?thesis using Q F z d o J by (intro exI [of _ qs] exI [of _ fs]) simp
qed

theorem thread_structures_accounted_witness:
  "\<exists>s qs fs. thr_reach (thr_start 0) {20, 10} {20} (\<lambda>_. 0) s \<and> queue_rep (tnxt s) (cthreads s) qs
     \<and> chain (tnxt s) (free_cthreads s) fs \<and> (20 :: nat) \<notin> set fs"
proof -
  obtain qs fs where "queue_rep (tnxt (demo 3)) (cthreads (demo 3)) qs" "chain (tnxt (demo 3)) (free_cthreads (demo 3)) fs"
      "\<forall>t. t \<in> {20} \<or> (\<exists>p. at (demo 3) p = Join t \<or> at (demo 3) p = Done_wait t) \<longrightarrow> t \<in> {20, 10} \<and> t \<notin> set fs"
    using thread_structures_accounted [OF demo_reach3] by (elim exE conjE)
  then show ?thesis using demo_reach3 by (intro exI [of _ "demo 3"] exI [of _ qs] exI [of _ fs]) simp
qed

text \<open>(C24) The counters, in every interleaving and with any changes of the limit on the way:
  \<open>n_cprocs\<close> is the number of cprocs and \<open>cthread_count\<close> the number of threads queued or with a cproc.
  A fork counts one thread more, and it creates a cproc exactly when there are no more cprocs
  without a thread than threads already queued and the limit allows it (a limit of 0 is no limit); so
  a positive limit that holds before a fork holds after it.\<close>

theorem thread_counters:
  assumes r: "thr_reach (thr_start lim) A H res s"
  shows "\<exists>qs. queue_rep (tnxt s) (cthreads s) qs \<and> n_cprocs s = int (length (cprocs_of s)) \<and> distinct (cprocs_of s)
     \<and> cthread_count s = int (length qs) + int (length (filter (busy s) (cprocs_of s)))
     \<and> (\<forall>p m c func arg s'. fork_begin p m c func arg s = Some s' \<longrightarrow>
          cthread_count s' = cthread_count s + 1 \<and> n_cprocs s' = int (length (cprocs_of s'))
        \<and> cprocs_of s' = (if length (filter (\<lambda>q. \<not> busy s q) (cprocs_of s)) \<le> length qs
                             \<and> (cthread_limit s = 0 \<or> n_cprocs s < cthread_limit s) then c # cprocs_of s else cprocs_of s)
        \<and> (0 < cthread_limit s \<and> n_cprocs s \<le> cthread_limit s \<longrightarrow> n_cprocs s' \<le> cthread_limit s'))"
proof -
  obtain qs fs ph cl where "thr_inv A H res s qs fs ph cl" using reach_inv [OF r] by blast
  note D = thr_invD [OF this]
  have Q: "queue_rep (tnxt s) (cthreads s) qs" using D(1) by (simp add: lists_ok_def)
  have n: "n_cprocs s = int (length (cprocs_of s))"
      "n_cthreads s = int (length qs) + int (length (filter (busy s) (cprocs_of s)))"
    using D(7) by (auto simp: counts_ok_def)
  have "length (cprocs_of s) = length (filter (busy s) (cprocs_of s)) + length (filter (\<lambda>q. \<not> busy s q) (cprocs_of s))"
    by (simp add: sum_length_filter_compl)
  then have idle: "n_cthreads s + 1 > n_cprocs s \<longleftrightarrow> length (filter (\<lambda>q. \<not> busy s q) (cprocs_of s)) \<le> length qs"
    using n by linarith
  have "cthread_count s' = cthread_count s + 1 \<and> n_cprocs s' = int (length (cprocs_of s'))
      \<and> cprocs_of s' = (if length (filter (\<lambda>q. \<not> busy s q) (cprocs_of s)) \<le> length qs
           \<and> (cthread_limit s = 0 \<or> n_cprocs s < cthread_limit s) then c # cprocs_of s else cprocs_of s)
      \<and> (0 < cthread_limit s \<and> n_cprocs s \<le> cthread_limit s \<longrightarrow> n_cprocs s' \<le> cthread_limit s')"
    if "fork_begin p m c func arg s = Some s'" for p m c func arg s'
    using fork_begin_counts [OF that, unfolded idle] n(1) by (auto simp: cthread_count_def cthread_limit_def)
  moreover have "distinct (cprocs_of s)" using D(6) by (simp add: procs_ok_def)
  moreover have "cthread_count s = int (length qs) + int (length (filter (busy s) (cprocs_of s)))"
    using n(2) by (simp add: cthread_count_def)
  ultimately show ?thesis using Q n(1) by blast
qed

text \<open>The main thread sets the limit to one cproc and forks: the thread waits for a cproc.\<close>

theorem thread_counters_witness:
  "\<exists>s'. fork_begin 1 20 2 5 6 (cthread_set_limit 1 (demo 1)) = Some s' \<and> cprocs_of s' = [1] \<and> cthread_count s' = 2"
proof -
  let ?s = "cthread_set_limit 1 (demo 1)"
  have "thr_reach (thr_start 0) {10} {} (\<lambda>_. 0) (demo 1)" by (rule thr_reach.init [OF demo_Suc0]) simp_all
  then have r: "thr_reach (thr_start 0) {10} {} (\<lambda>_. 0) ?s" by (rule thr_reach.limit)
  have d: "cprocs_of ?s = [1]" "n_cprocs ?s = 1" "cthread_limit ?s = 1" "cthread_count ?s = 1"
    by (simp_all add: demo_def demo_defs cthread_set_limit_def cthread_limit_def cthread_count_def)
  obtain s' where f: "fork_begin 1 20 2 5 6 ?s = Some s'" by (simp add: demo_def demo_defs cthread_set_limit_def)
  then have "cthread_count s' = cthread_count ?s + 1 \<and> cprocs_of s' = cprocs_of ?s"
    using thread_counters [OF r] d by auto
  then show ?thesis using f d by simp
qed

text \<open>(C25) A join ends in one step once the thread has returned, with the result the thread's
  function returned or passed to \<open>cthread_exit\<close>; before that it goes to sleep.\<close>

theorem join_returns_result:
  assumes r: "thr_reach (thr_start lim) A H res s" and p: "at s p = Join t"
  shows "\<exists>s'. join_round p s = Some (if T_RETURNED (thr s t) then Some (res t) else None, s')
     \<and> at s' p = (if T_RETURNED (thr s t) then Client else Done_wait t)"
proof -
  obtain qs fs ph cl where I: "thr_inv A H res s qs fs ph cl" using reach_inv [OF r] by blast
  note L = lock_unlock [OF unlocked [OF I], of t]
  show ?thesis
  proof (cases "T_RETURNED (thr s t)")
    case True
    then obtain s' where j: "join_round p s = Some (Some (t_result (thr s t)), s')" "at s' p = Client"
      using p by (simp add: join_round_def locked [OF I] L cthread_free_eq [OF thr_invD(1) [OF I]] Let_def)
    then show ?thesis using join_round_inv(2) [OF I j(1) p] True by simp
  next
    case False
    then show ?thesis using p by (simp add: join_round_def locked [OF I])
  qed
qed

theorem join_returns_result_witness: "\<exists>s'. join_round 1 (demo 9) = Some (Some 7, s') \<and> at s' 1 = Client"
proof -
  have "T_RETURNED (thr (demo 9) 20)" by (simp add: demo_def demo_defs)
  then show ?thesis using join_returns_result [OF demo_reach9 demo_signal(2)] by simp
qed

end
