(* ===== verification/Cthread_Threads_Wake.thy ===== *)
theory Cthread_Threads_Wake
  imports Cthread_Threads_Runs
begin

text \<open>
  No wake-up of the threads package is lost: while a thread is queued and a cproc sleeps, enough
  cprocs are on their way to the queue; a joiner sleeps only while the thread has not returned
  or its signal is still to come; the main thread sleeps in \<open>cthread_exit\<close> only while other
  threads exist.
\<close>

section \<open>Cprocs on their way to the queue\<close>

fun coming :: "place \<Rightarrow> bool" where
  "coming Body = True" | "coming Count = True" | "coming (Forked t) = True" | "coming _ = False"

definition weight :: "thr_state \<Rightarrow> ptr \<Rightarrow> int" where
  "weight s q = (if busy s q then 1 else 0) + (if coming (at s q) then 1 else 0)"

definition load :: "thr_state \<Rightarrow> int" where
  "load s = sum (weight s) (set (cprocs_of s))"

definition needed_ok :: "thr_state \<Rightarrow> bool" where
  "needed_ok s \<longleftrightarrow> cthread_needed s \<noteq> [] \<longrightarrow> n_cthreads s \<le> load s"

definition done_ok :: "thr_state \<Rightarrow> bool" where
  "done_ok s \<longleftrightarrow> (\<forall>t p. at s p = Done_wait t \<longrightarrow> T_RETURNED (thr s t) \<longrightarrow> (\<exists>q. at s q = Signal_done t))"

definition main_ok :: "ptr \<Rightarrow> thr_state \<Rightarrow> bool" where
  "main_ok m s \<longleftrightarrow> (\<forall>t. T_MAIN (thr s t) \<longrightarrow> t = m) \<and> (\<forall>p. at s p = Exiting \<or> at s p = Idle_wait \<longrightarrow> assoc s p = m)"

definition idle_ok :: "thr_state \<Rightarrow> bool" where
  "idle_ok s \<longleftrightarrow> cthread_idle s \<noteq> [] \<longrightarrow> 1 < n_cthreads s"

definition wake_inv :: "ptr \<Rightarrow> thr_state \<Rightarrow> bool" where
  "wake_inv m s \<longleftrightarrow> needed_ok s \<and> done_ok s \<and> main_ok m s \<and> idle_ok s"

lemma card_busy: "distinct ps \<Longrightarrow> int (length (filter P ps)) = (\<Sum>q\<in>set ps. if P q then 1 else 0)"
  by (induction ps) auto

lemma load_eq:
  "distinct (cprocs_of s) \<Longrightarrow> load s = int (length (filter (busy s) (cprocs_of s))) + int (length (filter (\<lambda>q. coming (at s q)) (cprocs_of s)))"
  by (simp add: load_def weight_def card_busy sum.distrib)

lemma load_mono: "cprocs_of s' = cprocs_of s \<Longrightarrow> (\<And>q. weight s q \<le> weight s' q) \<Longrightarrow> load s \<le> load s'"
  by (simp add: load_def sum_mono)

lemma load_one:
  assumes "p \<in> set (cprocs_of s)" and "cprocs_of s' = cprocs_of s" and "\<And>q. q \<noteq> p \<Longrightarrow> weight s' q = weight s q"
  shows "load s' = load s + weight s' p - weight s p"
proof -
  have "sum (weight s') (set (cprocs_of s) - {p}) = sum (weight s) (set (cprocs_of s) - {p})"
    using assms(3) by (intro sum.cong) auto
  then show ?thesis using assms(1,2) by (simp add: load_def sum.remove [of _ p])
qed

lemma load_busy: "int (length (filter (busy s) (cprocs_of s))) \<le> load s" if "distinct (cprocs_of s)"
  using load_eq [OF that] by simp

text \<open>Steps that keep the counters and the sleeping cprocs.\<close>

lemma wake_frame:
  assumes W: "wake_inv m s" and eq: "cprocs_of s' = cprocs_of s" "n_cthreads s' = n_cthreads s" "cthread_needed s' = cthread_needed s"
      "cthread_idle s' = cthread_idle s"
    and w: "\<And>q. weight s q \<le> weight s' q"
    and d: "\<And>p t. at s' p = Done_wait t \<Longrightarrow> at s p = Done_wait t \<or> \<not> T_RETURNED (thr s' t)"
      "\<And>t. T_RETURNED (thr s' t) \<Longrightarrow> T_RETURNED (thr s t) \<or> (\<exists>q. at s' q = Signal_done t)"
      "\<And>q t. at s q = Signal_done t \<Longrightarrow> at s' q = Signal_done t"
    and i: "\<And>t. T_MAIN (thr s' t) \<Longrightarrow> T_MAIN (thr s t)" "\<And>p. at s' p = Exiting \<or> at s' p = Idle_wait \<Longrightarrow> assoc s' p = m"
  shows "wake_inv m s'"
proof -
  have "needed_ok s'" using W load_mono [OF eq(1) w] eq by (auto simp: wake_inv_def needed_ok_def)
  moreover have "done_ok s'" using W d unfolding wake_inv_def done_ok_def by metis
  moreover have "main_ok m s'" using W i unfolding wake_inv_def main_ok_def by metis
  moreover have "idle_ok s'" using W eq by (simp add: wake_inv_def idle_ok_def)
  ultimately show ?thesis by (simp add: wake_inv_def)
qed

lemma wakeD: "wake_inv m s \<Longrightarrow> at s p = Exiting \<or> at s p = Idle_wait \<Longrightarrow> assoc s p = m"
  by (auto simp: wake_inv_def main_ok_def)

lemma wake_init:
  assumes "cthread_init p m (thr_start lim) = Some s"
  shows "wake_inv m s"
  using assms by (auto simp: wake_inv_def needed_ok_def done_ok_def main_ok_def idle_ok_def cthread_init_def cthread_alloc_def
      thr_start_def upd_thr_def cthread_set_name_def goto_def Let_def initial_cthread_def split: if_splits)

lemma wake_exit:
  assumes W: "wake_inv m s" and f: "cthread_exit p r s = Some s'"
  shows "wake_inv m s'"
proof -
  define t where "t = assoc s p"
  have p: "at s p = Client"
    and s': "s' = goto p (if T_MAIN (thr s t) then Exiting else Finish t) (upd_thr t (\<lambda>x. x\<lparr>t_result := r\<rparr>) s)"
    using f by (auto simp: cthread_exit_def Let_def t_def split: if_splits)
  have mt: "T_MAIN (thr s t) \<Longrightarrow> t = m" using W by (simp add: wake_inv_def main_ok_def)
  show ?thesis
  proof (rule wake_frame [OF W])
    show "weight s q \<le> weight s' q" for q using p by (simp add: s' weight_def busy_def upd_thr_def)
    show "assoc s' q = m" if "at s' q = Exiting \<or> at s' q = Idle_wait" for q
      using that wakeD [OF W, of q] mt t_def by (auto simp: s' upd_thr_def split: if_splits)
  qed (use p in \<open>auto simp: s' upd_thr_def split: if_splits\<close>)
qed

lemma wake_join:
  assumes W: "wake_inv m s" and f: "cthread_join p t s = Some s'"
  shows "wake_inv m s'"
proof -
  have p: "at s p = Client" and s': "s' = goto p (Join t) s" using f by (auto simp: cthread_join_def split: if_splits)
  show ?thesis
  proof (rule wake_frame [OF W])
    show "weight s q \<le> weight s' q" for q using p by (simp add: s' weight_def busy_def)
    show "assoc s' q = m" if "at s' q = Exiting \<or> at s' q = Idle_wait" for q
      using that wakeD [OF W, of q] by (auto simp: s' split: if_splits)
  qed (use p in \<open>auto simp: s' split: if_splits\<close>)
qed

lemma wake_detach:
  assumes I: "thr_inv A H res s qs fs ph cl" and W: "wake_inv m s" and f: "cthread_detach p t s = Some s'"
  shows "wake_inv m s'"
proof -
  have e: "at s' = at s" "assoc s' = assoc s" "cprocs_of s' = cprocs_of s" "n_cthreads s' = n_cthreads s"
      "cthread_needed s' = cthread_needed s" "cthread_idle s' = cthread_idle s"
      "\<And>x. T_RETURNED (thr s' x) = T_RETURNED (thr s x)" "\<And>x. T_MAIN (thr s' x) = T_MAIN (thr s x)"
    using f by (auto simp: cthread_detach_def locked [OF I] lock_unlock [OF unlocked [OF I]] unlock_thread_def
        cthread_free_eq [OF thr_invD(1) [OF I]] upd_thr_def cthread_free_def Let_def split: if_splits option.splits)
  show ?thesis
  proof (rule wake_frame [OF W e(3-6)])
    show "weight s q \<le> weight s' q" for q by (simp add: weight_def busy_def e)
    show "assoc s' q = m" if "at s' q = Exiting \<or> at s' q = Idle_wait" for q using that wakeD [OF W, of q] by (simp add: e)
  qed (simp_all add: e)
qed

lemma wake_join_round:
  assumes I: "thr_inv A H res s qs fs ph cl" and W: "wake_inv m s" and f: "join_round p s = Some (r, s')"
  shows "wake_inv m s'"
proof -
  obtain t where p: "at s p = Join t" using f by (auto simp: join_round_def split: place.splits)
  have e: "assoc s' = assoc s" "cprocs_of s' = cprocs_of s" "n_cthreads s' = n_cthreads s"
      "cthread_needed s' = cthread_needed s" "cthread_idle s' = cthread_idle s"
      "\<And>x. T_RETURNED (thr s' x) = T_RETURNED (thr s x)" "\<And>x. T_MAIN (thr s' x) = T_MAIN (thr s x)"
      and at: "at s' = (at s)(p := if T_RETURNED (thr s t) then Client else Done_wait t)"
    using f p by (auto simp: join_round_def locked [OF I] lock_unlock [OF unlocked [OF I]] unlock_thread_def
        upd_thr_def cthread_free_def Let_def split: if_splits option.splits)
  show ?thesis
  proof (rule wake_frame [OF W e(2-5)])
    show "weight s q \<le> weight s' q" for q using p by (simp add: weight_def busy_def e at)
    show "assoc s' q = m" if "at s' q = Exiting \<or> at s' q = Idle_wait" for q
      using that wakeD [OF W, of q] by (auto simp: e at split: if_splits)
  qed (use p in \<open>auto simp: e at split: if_splits\<close>)
qed

lemma wake_finish:
  assumes I: "thr_inv A H res s qs fs ph cl" and W: "wake_inv m s" and f: "body_finish p s = Some s'"
  shows "wake_inv m s'"
proof -
  obtain t where p: "at s p = Finish t" using f by (auto simp: body_finish_def split: place.splits)
  have nm: "\<not> T_MAIN (thr s t)" "assoc s p = t" "t \<noteq> 0" using place_of [OF I, of p] p by auto
  let ?d = "T_DETACHED (thr s t)"
  have e: "assoc s' = (if ?d then (assoc s)(p := 0) else assoc s)" "cprocs_of s' = cprocs_of s" "n_cthreads s' = n_cthreads s"
      "cthread_needed s' = cthread_needed s" "cthread_idle s' = cthread_idle s"
      "\<And>x. T_RETURNED (thr s' x) \<longleftrightarrow> T_RETURNED (thr s x) \<or> x = t \<and> \<not> ?d" "\<And>x. T_MAIN (thr s' x) = T_MAIN (thr s x)"
      and at: "at s' = (at s)(p := if ?d then Count else Signal_done t)"
    using f p nm by (auto simp: body_finish_def locked [OF I] lock_unlock [OF unlocked [OF I]] unlock_thread_def
        upd_thr_def cthread_free_def Let_def split: if_splits option.splits)
  show ?thesis
  proof (rule wake_frame [OF W e(2-5)])
    show "weight s q \<le> weight s' q" for q using p nm by (simp add: weight_def busy_def e at)
    show "assoc s' q = m" if "at s' q = Exiting \<or> at s' q = Idle_wait" for q
      using that wakeD [OF W, of q] by (auto simp: e at split: if_splits)
  qed (use p in \<open>auto simp: e at split: if_splits\<close>)
qed

section \<open>The steps that move sleeping cprocs\<close>

lemma wake_signal:
  assumes I: "thr_inv A H res s qs fs ph cl" and W: "wake_inv m s" and f: "body_signal p s = Some s'"
  shows "wake_inv m s'"
proof -
  note D = thr_invD [OF I]
  obtain t where p: "at s p = Signal_done t" using f by (auto simp: body_signal_def split: place.splits)
  have wt: "\<And>q. q \<in> set (done_of s t) \<longleftrightarrow> at s q = Done_wait t" using D(5) by (simp add: waits_ok_def)
  have a: "assoc s p \<noteq> 0" using place_of [OF I, of p] p by simp
  have e: "assoc s' = (assoc s)(p := 0)" "cprocs_of s' = cprocs_of s" "n_cthreads s' = n_cthreads s"
      "cthread_needed s' = cthread_needed s" "cthread_idle s' = cthread_idle s" "thr s' = thr s"
      and at: "at s' = (case done_of s t of [] \<Rightarrow> at s | w # ws \<Rightarrow> (at s)(w := Join t))(p := Count)"
    using f p by (auto simp: body_signal_def Let_def signal_done_def split: list.splits)
  have one: "q = w" if "at s q = Done_wait t" "at s w = Done_wait t" for q w
    using that claim_joiner [OF D(4), of t] by (metis claim.inject)
  have "load s \<le> load s'"
  proof (rule load_mono [OF e(2)])
    show "weight s q \<le> weight s' q" for q
      using a p wt [of q] by (auto simp: weight_def busy_def e at split: list.splits)
  qed
  then have "needed_ok s'" using W by (auto simp: wake_inv_def needed_ok_def e)
  moreover have "done_ok s'"
    unfolding done_ok_def
  proof (intro allI impI)
    fix x q assume q: "at s' q = Done_wait x" and x: "T_RETURNED (thr s' x)"
    have q': "at s q = Done_wait x" "q \<noteq> p" using q by (auto simp: at split: list.splits if_splits)
    then obtain r where r: "at s r = Signal_done x" using W x by (auto simp: wake_inv_def done_ok_def e)
    have "x \<noteq> t"
    proof
      assume xt: "x = t"
      then have "q \<in> set (done_of s t)" using wt q' by simp
      then obtain w ws where ws: "done_of s t = w # ws" by (cases "done_of s t") auto
      then have "w = q" using one wt q'(1) xt by (metis list.set_intros(1))
      then show False using q ws q'(2) by (simp add: at)
    qed
    then have "r \<noteq> p" using r p by auto
    then have "at s' r = Signal_done x" using r wt [of r] by (auto simp: at split: list.splits)
    then show "\<exists>r. at s' r = Signal_done x" by blast
  qed
  moreover have "main_ok m s'" using W p unfolding wake_inv_def main_ok_def e at by (auto split: list.splits if_splits)
  moreover have "idle_ok s'" using W by (simp add: wake_inv_def idle_ok_def e)
  ultimately show ?thesis by (simp add: wake_inv_def)
qed

lemma wake_exit_round:
  assumes W: "wake_inv m s" and f: "exit_round p s = Some s'"
  shows "wake_inv m s'"
proof -
  have p: "at s p = Exiting" using f by (simp add: exit_round_def split: if_splits)
  let ?w = "1 < n_cthreads s"
  have e: "assoc s' = assoc s" "cprocs_of s' = cprocs_of s" "n_cthreads s' = n_cthreads s" "cthread_needed s' = cthread_needed s"
      "cthread_idle s' = (if ?w then cthread_idle s @ [p] else cthread_idle s)" "thr s' = thr s"
      and at: "at s' = (at s)(p := if ?w then Idle_wait else Gone)"
    using f p by (auto simp: exit_round_def lock_cthreads_iff unlock_cthreads_def split: if_splits option.splits)
  have "load s \<le> load s'" using p by (intro load_mono [OF e(2)]) (simp add: weight_def busy_def e at)
  then have "needed_ok s'" using W by (auto simp: wake_inv_def needed_ok_def e)
  moreover have "done_ok s'" using W p unfolding wake_inv_def done_ok_def e at fun_upd_apply by (metis place.distinct)
  moreover have "main_ok m s'" using W p unfolding wake_inv_def main_ok_def e at by (auto split: if_splits)
  moreover have "idle_ok s'" using W by (auto simp: wake_inv_def idle_ok_def e)
  ultimately show ?thesis by (simp add: wake_inv_def)
qed

lemma wake_fork_end:
  assumes I: "thr_inv A H res s qs fs ph cl" and W: "wake_inv m s" and f: "fork_end p s = Some s'"
  shows "wake_inv m s'"
proof -
  note D = thr_invD [OF I]
  obtain t where p: "at s p = Forked t" using f by (auto simp: fork_end_def split: place.splits)
  have wn: "\<And>q. q \<in> set (cthread_needed s) \<longleftrightarrow> at s q = Needed" using D(5) by (simp add: waits_ok_def)
  have a: "assoc s p \<noteq> 0" "p \<in> set (cprocs_of s)" using place_of [OF I, of p] client_is_cproc [OF I, of p] p by auto
  have e: "assoc s' = assoc s" "cprocs_of s' = cprocs_of s" "n_cthreads s' = n_cthreads s" "cthread_idle s' = cthread_idle s" "thr s' = thr s"
      and at: "at s' = (case cthread_needed s of [] \<Rightarrow> at s | w # ws \<Rightarrow> (at s)(w := Body))(p := Client)"
      and nd: "cthread_needed s' = tl (cthread_needed s)"
    using f p by (auto simp: fork_end_def signal_needed_def unlock_cthreads_def split: list.splits)
  have "needed_ok s'"
  proof (cases "cthread_needed s")
    case Nil
    then show ?thesis by (simp add: needed_ok_def nd)
  next
    case (Cons w ws)
    have w: "at s w = Needed" "w \<in> set (cprocs_of s)" "assoc s w = 0" "w \<noteq> p"
      using wn [of w] Cons client_is_cproc [OF I, of w] place_of [OF I, of w] p by auto
    define i where "i = goto w Body s"
    have "load i = load s + weight i w - weight s w"
      by (rule load_one) (use w in \<open>simp_all add: i_def weight_def busy_def\<close>)
    moreover have "load s' = load i + weight s' p - weight i p"
      by (rule load_one) (use a Cons in \<open>simp_all add: i_def weight_def busy_def e at\<close>)
    ultimately have "load s' = load s" using w a p Cons by (simp add: i_def weight_def busy_def e at)
    then show ?thesis using W Cons by (simp add: wake_inv_def needed_ok_def e)
  qed
  moreover have "done_ok s'"
  proof -
    have "at s' q = Done_wait x \<longleftrightarrow> at s q = Done_wait x" "at s' q = Signal_done x \<longleftrightarrow> at s q = Signal_done x" for q x
      using p wn [of q] by (auto simp: at split: list.splits)
    then show ?thesis using W by (simp add: wake_inv_def done_ok_def e)
  qed
  moreover have "main_ok m s'" using W p unfolding wake_inv_def main_ok_def e at by (auto split: list.splits if_splits)
  moreover have "idle_ok s'" using W by (simp add: wake_inv_def idle_ok_def e)
  ultimately show ?thesis by (simp add: wake_inv_def)
qed

text \<open>At most one cproc is in \<open>cthread_exit\<close>.\<close>

lemma one_exiting:
  assumes I: "thr_inv A H res s qs fs ph cl" and W: "wake_inv m s" and p: "at s p = Exiting \<or> at s p = Idle_wait"
    and q: "at s q = Exiting \<or> at s q = Idle_wait"
  shows "q = p"
proof -
  have "own s p = m" "own s q = m" "assoc s p = m" using wakeD [OF W] p q own_eq [of s p] own_eq [of s q] by auto
  moreover have "assoc s p \<noteq> 0" using place_of [OF I, of p] p by auto
  ultimately show ?thesis using thr_invD(2) [OF I] unfolding phases_ok_def by metis
qed

lemma two_busy:
  assumes "distinct ps" "p \<in> set ps" "q \<in> set ps" "p \<noteq> q" "P p" "P q"
  shows "2 \<le> length (filter P ps)"
proof -
  have "card {p, q} \<le> card (set (filter P ps))" using assms by (intro card_mono) auto
  moreover have "card (set (filter P ps)) = length (filter P ps)" using assms(1) by (intro distinct_card) simp
  moreover have "card {p, q} = 2" using assms(4) by simp
  ultimately show ?thesis by linarith
qed

lemma wake_round:
  assumes I: "thr_inv A H res s qs fs ph cl" and W: "wake_inv m s" and at: "at s p = Body \<or> at s p = Count"
    and s': "s' = body_round p (s\<lparr>n_cthreads := n_cthreads s - (if at s p = Count then 1 else 0)\<rparr>)"
  shows "wake_inv m s'"
proof -
  note D = thr_invD [OF I]
  let ?k = "if at s p = Count then 1 else 0 :: int"
  obtain q t where d: "cthread_queue_deq (tnxt s) (cthreads s) = (q, t)" by fastforce
  have Q: "queue_rep (tnxt s) (cthreads s) qs" using D(1) by (simp add: lists_ok_def)
  have as: "assoc s p = 0" "p \<in> set (cprocs_of s)" using place_of [OF I, of p] client_is_cproc [OF I, of p] at by auto
  have dist: "distinct (cprocs_of s)" using D(6) by (simp add: procs_ok_def)
  have wi: "\<And>q. q \<in> set (cthread_idle s) \<longleftrightarrow> at s q = Idle_wait" and di: "distinct (cthread_idle s)" using D(5) by (simp_all add: waits_ok_def)
  have n: "n_cthreads s = int (length qs) + int (length (filter (busy s) (cprocs_of s)))" using D(7) by (simp add: counts_ok_def)
  show ?thesis
  proof (cases qs)
    case (Cons x xs)
    then have x: "t = x" "x \<noteq> 0" using queue_rep_deq [of "tnxt s" "cthreads s" x xs q t] Q d ctq.rep_members [OF Q] by auto
    have e: "assoc s' = (assoc s)(p := x)" "cprocs_of s' = cprocs_of s" "n_cthreads s' = n_cthreads s - ?k"
        "cthread_needed s' = cthread_needed s" "cthread_idle s' = cthread_idle s" "thr s' = thr s" "at s' = (at s)(p := Client)"
      using d x by (auto simp: s' body_round_def Let_def unlock_cthreads_def)
    have "load s' = load s + weight s' p - weight s p"
      by (rule load_one) (use as in \<open>simp_all add: weight_def busy_def e\<close>)
    then have l: "load s' = load s - ?k" using at as x by (auto simp: weight_def busy_def e)
    then have "needed_ok s'" using W by (auto simp: wake_inv_def needed_ok_def e)
    moreover have "done_ok s'"
    proof -
      have "at s' r = Done_wait y \<longleftrightarrow> at s r = Done_wait y" "at s' r = Signal_done y \<longleftrightarrow> at s r = Signal_done y" for r y
        using at by (auto simp: e)
      then show ?thesis using W by (simp add: wake_inv_def done_ok_def e)
    qed
    moreover have "main_ok m s'" using W by (auto simp: wake_inv_def main_ok_def e)
    moreover have "idle_ok s'"
    proof (cases "at s p = Count \<and> cthread_idle s \<noteq> []")
      case True
      then obtain r where r: "at s r = Idle_wait" using wi by (metis list.set_intros(1) neq_Nil_conv)
      then have "busy s r" "busy s p" "r \<noteq> p" "r \<in> set (cprocs_of s)"
        using place_of [OF I, of r] client_is_cproc [OF I, of r] True by (auto simp: busy_def)
      then have "2 \<le> length (filter (busy s) (cprocs_of s))" using two_busy dist as(2) by metis
      then show ?thesis using n Cons by (simp add: idle_ok_def e)
    next
      case False
      then show ?thesis using W by (auto simp: wake_inv_def idle_ok_def e)
    qed
    ultimately show ?thesis by (simp add: wake_inv_def)
  next
    case Nil
    then have t: "t = 0" using queue_deq_Nil [of "tnxt s" "cthreads s"] Q d by auto
    have e: "assoc s' = assoc s" "cprocs_of s' = cprocs_of s" "n_cthreads s' = n_cthreads s - ?k" "cthread_idle s' = tl (cthread_idle s)"
        "thr s' = thr s" "at s' = (case cthread_idle s of [] \<Rightarrow> at s | w # ws \<Rightarrow> (at s)(w := Exiting))(p := Needed)"
      using d t by (auto simp: s' body_round_def Let_def unlock_cthreads_def signal_idle_def split: list.splits)
    have b: "busy s' r = (if r = p then False else busy s r)" for r
      using as wi [of r] by (auto simp: busy_def e split: list.splits)
    have "int (length (filter (busy s') (cprocs_of s))) = int (length (filter (busy s) (cprocs_of s))) - ?k"
      using filter_busy [OF dist as(2), of "busy s'" "busy s"] as at by (simp add: b) (auto simp: busy_def)
    then have "needed_ok s'" using n Nil load_busy [of s'] dist by (auto simp: needed_ok_def e)
    moreover have "done_ok s'"
    proof -
      have "at s' r = Done_wait y \<longleftrightarrow> at s r = Done_wait y" "at s' r = Signal_done y \<longleftrightarrow> at s r = Signal_done y" for r y
        using at wi [of r] by (auto simp: e split: list.splits)
      then show ?thesis using W by (simp add: wake_inv_def done_ok_def e)
    qed
    moreover have "main_ok m s'"
    proof -
      have "assoc s r = m" if "at s' r = Exiting \<or> at s' r = Idle_wait" for r
        using that wakeD [OF W, of r] wi [of r] by (auto simp: e split: list.splits if_splits)
      then show ?thesis using W by (simp add: wake_inv_def main_ok_def e)
    qed
    moreover have "cthread_idle s' = []"
    proof (cases "cthread_idle s")
      case (Cons w ws)
      have "ws = []"
      proof (cases ws)
        case (Cons v vs)
        then have "v = w" using one_exiting [OF I W, of w v] wi [of w] wi [of v] \<open>cthread_idle s = w # ws\<close> by auto
        then show ?thesis using di Cons \<open>cthread_idle s = w # ws\<close> by simp
      qed simp
      then show ?thesis using Cons by (simp add: e)
    qed (simp add: e)
    ultimately show ?thesis by (simp add: wake_inv_def idle_ok_def)
  qed
qed

lemma wake_fork:
  assumes I: "thr_inv A H res s qs fs ph cl" and W: "wake_inv m0 s" and f: "fork_begin p m c func arg s = Some s'"
    and m: "m \<noteq> 0" "m \<notin> A" and c: "c \<notin> set (cprocs_of s)"
  shows "wake_inv m0 s'"
proof -
  let ?s1 = "s\<lparr>cthread_lock := 1\<rparr>"
  have p: "at s p = Client" "cthread_lock s = 0" using f by (auto simp: fork_begin_def lock_cthreads_iff split: if_splits option.splits)
  have I1: "thr_inv A H res ?s1 qs fs ph cl" using I by simp
  obtain x fc where al: "cthread_alloc m func arg ?s1 = Some (x, ?s1\<lparr>tnxt := (tnxt s)(x := 0),
        thr := (thr s)(x := initial_cthread\<lparr>t_func := func, t_arg := arg\<rparr>), free_cthreads := fc, cthread_free_lock := 0\<rparr>)"
    using alloc_from [OF I1 m, of func arg] by auto
  obtain nx q where e: "cthread_queue_enq ((tnxt s)(x := 0)) (cthreads s) x = (nx, q)" by fastforce
  define new where "new = (n_cthreads s + 1 > n_cprocs s \<and> (max_cprocs s = 0 \<or> n_cprocs s < max_cprocs s))"
  have cc: "at s c = Gone" "assoc s c = 0" using thr_invD(6) [OF I] c by (auto simp: procs_ok_def)
  have pc: "p \<noteq> c" "p \<in> set (cprocs_of s)" using cc p client_is_cproc [OF I, of p] by auto
  have g: "assoc s' = assoc s" "cprocs_of s' = (if new then c # cprocs_of s else cprocs_of s)" "n_cthreads s' = n_cthreads s + 1"
      "cthread_needed s' = cthread_needed s" "cthread_idle s' = cthread_idle s"
      "thr s' = (thr s)(x := initial_cthread\<lparr>t_func := func, t_arg := arg\<rparr>)"
      "at s' = (if new then (at s)(c := Body, p := Forked x) else (at s)(p := Forked x))"
    using f p al e cc
    by (auto simp: fork_begin_def lock_cthreads_def take_mutex_def mutex_try_lock_def Let_def new_def fun_eq_iff split: if_splits)
  define i where "i = goto p (Forked x) s"
  have w: "weight s' r = weight i r" if "r \<noteq> c" for r using that by (simp add: weight_def busy_def g i_def)
  have "load s' = load i + (if new then weight s' c else 0)"
  proof -
    have "sum (weight s') (set (cprocs_of s)) = sum (weight i) (set (cprocs_of s))" using c w by (intro sum.cong refl) metis
    then show ?thesis using c by (simp add: load_def g i_def)
  qed
  moreover have "load i = load s + weight i p - weight s p"
    by (rule load_one) (use pc in \<open>simp_all add: i_def weight_def busy_def\<close>)
  moreover have "weight i p = weight s p + 1" using p by (simp add: i_def weight_def busy_def)
  moreover have "0 \<le> weight s' c" by (simp add: weight_def)
  ultimately have "load s + 1 \<le> load s'" by simp
  then have "needed_ok s'" using W by (auto simp: wake_inv_def needed_ok_def g)
  moreover have "done_ok s'"
  proof -
    have "at s' r = Done_wait y \<longleftrightarrow> at s r = Done_wait y" "at s' r = Signal_done y \<longleftrightarrow> at s r = Signal_done y" for r y
      using p cc by (auto simp: g)
    moreover have "T_RETURNED (thr s' y) \<Longrightarrow> T_RETURNED (thr s y)" for y by (simp add: g initial_cthread_def split: if_splits)
    ultimately show ?thesis using W unfolding wake_inv_def done_ok_def by metis
  qed
  moreover have "main_ok m0 s'" using W by (auto simp: wake_inv_def main_ok_def g initial_cthread_def split: if_splits)
  moreover have "idle_ok s'" using W by (auto simp: wake_inv_def idle_ok_def g)
  ultimately show ?thesis by (simp add: wake_inv_def)
qed

lemma wake_enter:
  assumes I: "thr_inv A H res s qs fs ph cl" and W: "wake_inv m s" and f: "body_enter p s = Some s'"
  shows "wake_inv m s'"
proof -
  let ?s = "s\<lparr>cthread_lock := 1\<rparr>"
  have e: "at s p = Body" "s' = body_round p ?s" using f by (auto simp: body_enter_def lock_cthreads_iff split: if_splits)
  have "?s\<lparr>n_cthreads := n_cthreads ?s - 0\<rparr> = ?s" by (cases s) simp
  moreover have "wake_inv m ?s" using W by (simp add: wake_inv_def needed_ok_def done_ok_def main_ok_def idle_ok_def load_def weight_def busy_def)
  ultimately show ?thesis using wake_round [of A H res ?s qs fs ph cl m p s'] I e by simp
qed

lemma wake_count:
  assumes I: "thr_inv A H res s qs fs ph cl" and W: "wake_inv m s" and f: "body_count p s = Some s'"
  shows "wake_inv m s'"
proof -
  let ?s = "s\<lparr>cthread_lock := 1\<rparr>"
  have e: "at s p = Count" "s' = body_round p (?s\<lparr>n_cthreads := n_cthreads ?s - 1\<rparr>)"
    using f by (auto simp: body_count_def lock_cthreads_iff split: if_splits)
  moreover have "wake_inv m ?s" using W by (simp add: wake_inv_def needed_ok_def done_ok_def main_ok_def idle_ok_def load_def weight_def busy_def)
  ultimately show ?thesis using wake_round [of A H res ?s qs fs ph cl m p s'] I by simp
qed

lemma reach_wake:
  assumes "thr_reach (thr_start lim) A H res s"
  shows "\<exists>m. wake_inv m s"
  using assms
proof (induction rule: thr_reach.induct)
  case (init p m s)
  then show ?case using wake_init by blast
next
  case (fork A H res s p m c func arg s' t)
  then show ?case using wake_fork reach_inv by metis
next
  case (forked A H res s p s')
  then show ?case using wake_fork_end reach_inv by metis
next
  case (enter A H res s p s')
  then show ?case using wake_enter reach_inv by metis
next
  case (finish A H res s p s')
  then show ?case using wake_finish reach_inv by metis
next
  case (signal A H res s p s')
  then show ?case using wake_signal reach_inv by metis
next
  case (count A H res s p s')
  then show ?case using wake_count reach_inv by metis
next
  case (detach A H res s t p s')
  then show ?case using wake_detach reach_inv by metis
next
  case (joining A H res s p r s')
  then show ?case using wake_join_round reach_inv by metis
next
  case (limit A H res s n)
  have "wake_inv m (cthread_set_limit n s) = wake_inv m s" for m
    by (simp add: cthread_set_limit_def wake_inv_def needed_ok_def done_ok_def main_ok_def idle_ok_def load_def weight_def busy_def)
  then show ?case using limit by simp
qed (use wake_exit wake_join wake_exit_round in blast)+

text \<open>(C5) No wake-up is lost in any interleaving.  While cprocs sleep for work, there are at least as
  many cprocs on their way to the queue as threads in it.  A joiner sleeps on a returned thread only
  while a cproc is about to signal it.  The main thread sleeps in \<open>cthread_exit\<close> only while other
  threads exist.\<close>

theorem threads_no_lost_wakeup:
  assumes r: "thr_reach (thr_start lim) A H res s"
  shows "(\<exists>qs. queue_rep (tnxt s) (cthreads s) qs
       \<and> (cthread_needed s \<noteq> [] \<longrightarrow> length qs \<le> length (filter (\<lambda>q. coming (at s q)) (cprocs_of s))))
     \<and> (\<forall>p t. at s p = Done_wait t \<longrightarrow> T_RETURNED (thr s t) \<longrightarrow> (\<exists>q. at s q = Signal_done t))
     \<and> (cthread_idle s \<noteq> [] \<longrightarrow> 1 < cthread_count s)"
proof -
  obtain m where W: "wake_inv m s" using reach_wake [OF r] by blast
  obtain qs fs ph cl where I: "thr_inv A H res s qs fs ph cl" using reach_inv [OF r] by blast
  note D = thr_invD [OF I]
  have Q: "queue_rep (tnxt s) (cthreads s) qs" using D(1) by (simp add: lists_ok_def)
  have "length qs \<le> length (filter (\<lambda>q. coming (at s q)) (cprocs_of s))" if "cthread_needed s \<noteq> []"
    using W that D(7) load_eq [of s] D(6) by (auto simp: wake_inv_def needed_ok_def counts_ok_def procs_ok_def)
  then show ?thesis using W Q by (auto simp: wake_inv_def done_ok_def idle_ok_def cthread_count_def)
qed

theorem threads_no_lost_wakeup_witness:
  "thr_reach (thr_start 0) {20, 10} {} ((\<lambda>_. 0)(20 := 7)) (demo 8) \<and> at (demo 8) 1 = Done_wait 20 \<and> (\<exists>q. at (demo 8) q = Signal_done 20)"
proof -
  have "at (demo 8) 1 = Done_wait 20" "T_RETURNED (thr (demo 8) 20)" by (simp_all add: demo_def demo_defs)
  then show ?thesis using threads_no_lost_wakeup [OF demo_reach8] demo_reach8 by blast
qed

end
