(* ===== verification/Net_Ifqueue.thy ===== *)
theory Net_Ifqueue
  imports Cthread_Queue
begin

text \<open>
  The packet queues of the kernel's network code: the structure \<open>ifqueue\<close> and the macros
  \<open>IF_QFULL\<close>, \<open>IF_DROP\<close>, \<open>IF_ENQUEUE\<close>, \<open>IF_PREPEND\<close>, \<open>IF_DEQUEUE\<close> of
  \<open>kernel/net/if.h\<close>.  A packet is the pointer to its first mbuf; packets are linked by
  the mbuf field \<open>m_act\<close>, a function from pointers to pointers.  The interface
  \<open>linked_queue\<close> of \<open>Cthread_Queue\<close> is interpreted a second time here, on these
  macros.
\<close>

record ifqueue =
  ifq_head :: ptr
  ifq_tail :: ptr
  ifq_len :: int
  ifq_maxlen :: int
  ifq_drops :: int

definition IFQ_MAXLEN :: int where "IFQ_MAXLEN = 50"

definition IF_QFULL :: "ifqueue \<Rightarrow> bool" where
  "IF_QFULL q \<longleftrightarrow> ifq_len q \<ge> ifq_maxlen q"

definition IF_DROP :: "ifqueue \<Rightarrow> ifqueue" where
  "IF_DROP q = q\<lparr>ifq_drops := ifq_drops q + 1\<rparr>"

definition IF_ENQUEUE :: "(ptr \<Rightarrow> ptr) \<Rightarrow> ifqueue \<Rightarrow> ptr \<Rightarrow> (ptr \<Rightarrow> ptr) \<times> ifqueue" where
  [step_defs]: "IF_ENQUEUE m_act q m =
     (let a1 = m_act(m := 0);
          (a2, q1) = (if ifq_tail q = 0 then (a1, q\<lparr>ifq_head := m\<rparr>) else (a1(ifq_tail q := m), q))
      in (a2, q1\<lparr>ifq_tail := m, ifq_len := ifq_len q1 + 1\<rparr>))"

definition IF_PREPEND :: "(ptr \<Rightarrow> ptr) \<Rightarrow> ifqueue \<Rightarrow> ptr \<Rightarrow> (ptr \<Rightarrow> ptr) \<times> ifqueue" where
  [step_defs]: "IF_PREPEND m_act q m =
     (let a1 = m_act(m := ifq_head q);
          q1 = (if ifq_tail q = 0 then q\<lparr>ifq_tail := m\<rparr> else q)
      in (a1, q1\<lparr>ifq_head := m, ifq_len := ifq_len q1 + 1\<rparr>))"

definition IF_DEQUEUE :: "(ptr \<Rightarrow> ptr) \<Rightarrow> ifqueue \<Rightarrow> (ptr \<Rightarrow> ptr) \<times> ifqueue \<times> ptr" where
  [step_defs]: "IF_DEQUEUE m_act q =
     (let m = ifq_head q in
      if m \<noteq> 0 then
        (let q1 = q\<lparr>ifq_head := m_act m\<rparr>;
             q2 = (if ifq_head q1 = 0 then q1\<lparr>ifq_tail := 0\<rparr> else q1)
         in (m_act(m := 0), q2\<lparr>ifq_len := ifq_len q2 - 1\<rparr>, m))
      else (m_act, q, m))"

definition ifq_rep :: "(ptr \<Rightarrow> ptr) \<Rightarrow> ifqueue \<Rightarrow> ptr list \<Rightarrow> bool" where
  "ifq_rep nx q xs \<longleftrightarrow> chain nx (ifq_head q) xs \<and> ifq_tail q = (if xs = [] then 0 else last xs)
     \<and> ifq_len q = int (length xs)"

lemma ifq_rep_empty: "ifq_head q = 0 \<Longrightarrow> ifq_tail q = 0 \<Longrightarrow> ifq_len q = 0 \<Longrightarrow> ifq_rep nx q []"
  by (simp add: ifq_rep_def)

lemma ifq_rep_drop [simp]: "ifq_rep nx (IF_DROP q) xs = ifq_rep nx q xs"
  by (simp add: ifq_rep_def IF_DROP_def)

lemma ifq_enqueue_rep:
  assumes r: "ifq_rep nx q xs" and "x \<noteq> 0" and n: "x \<notin> set xs"
    and e: "IF_ENQUEUE nx q x = (nx', q')"
  shows "ifq_rep nx' q' (xs @ [x])"
proof (cases "xs = []")
  case True
  with assms show ?thesis by (auto simp: ifq_rep_def IF_ENQUEUE_def Let_def)
next
  case False
  with r have t: "ifq_tail q = last xs" "ifq_tail q \<noteq> 0" and c: "chain nx (ifq_head q) xs"
    by (auto simp: ifq_rep_def dest: chain_last)
  from t e have q': "nx' = nx(x := 0, last xs := x)" "ifq_head q' = ifq_head q" "ifq_tail q' = x"
    "ifq_len q' = ifq_len q + 1"
    by (auto simp: IF_ENQUEUE_def Let_def)
  from chain_snoc [OF c False assms(2) n] r q' show ?thesis by (simp add: ifq_rep_def)
qed

lemma ifq_enqueue_frame:
  "ifq_rep nx q xs \<Longrightarrow> IF_ENQUEUE nx q x = (nx', q') \<Longrightarrow> y \<noteq> x \<Longrightarrow> y \<notin> set xs \<Longrightarrow> nx' y = nx y"
  by (cases "xs = []") (auto simp: IF_ENQUEUE_def Let_def ifq_rep_def dest: chain_last split: if_splits)

lemma ifq_prepend_rep:
  assumes r: "ifq_rep nx q xs" and "x \<noteq> 0" and n: "x \<notin> set xs" and e: "IF_PREPEND nx q x = (nx', q')"
  shows "ifq_rep nx' q' (x # xs)"
  using assms
  by (cases "xs = []") (auto simp: ifq_rep_def IF_PREPEND_def Let_def chain_simps dest: chain_last)

lemma ifq_dequeue_empty: "ifq_rep nx q [] \<Longrightarrow> IF_DEQUEUE nx q = (nx, q, 0)"
  by (auto simp: ifq_rep_def IF_DEQUEUE_def)

lemma ifq_dequeue_rep:
  assumes r: "ifq_rep nx q (x # xs)" and d: "IF_DEQUEUE nx q = (nx', q', y)"
  shows "ifq_rep nx' q' xs \<and> y = x"
proof -
  have c: "chain nx x (x # xs)" using r by (auto simp: ifq_rep_def)
  then have n: "x \<notin> set xs" by (rule chain_head_notin)
  have h: "ifq_head q = x" "x \<noteq> 0" using r by (auto simp: ifq_rep_def)
  from c have c': "chain (nx(x := 0)) (nx x) xs" using n by (simp add: chain_upd)
  from d h have y: "y = x" "nx' = nx(x := 0)" "ifq_head q' = nx x" "ifq_len q' = ifq_len q - 1"
    "ifq_tail q' = (if nx x = 0 then 0 else ifq_tail q)"
    by (auto simp: IF_DEQUEUE_def Let_def split: if_splits)
  have "nx x = 0 \<longleftrightarrow> xs = []" using c by (cases xs) auto
  with y c' r show ?thesis by (auto simp: ifq_rep_def)
qed

lemma ifq_dequeue_frame:
  "ifq_rep nx q xs \<Longrightarrow> IF_DEQUEUE nx q = (nx', q', x) \<Longrightarrow> y \<notin> set xs \<Longrightarrow> nx' y = nx y"
  by (cases xs) (auto simp: IF_DEQUEUE_def Let_def ifq_rep_def split: if_splits)

interpretation ifq: linked_queue ifq_rep IF_ENQUEUE IF_DEQUEUE
proof unfold_locales
  fix nx q xs
  assume "ifq_rep nx q xs"
  then show "distinct xs \<and> 0 \<notin> set xs"
    by (auto simp: ifq_rep_def dest: chain_distinct chain_members)
next
  fix nx q xs ys
  assume "ifq_rep nx q xs" "ifq_rep nx q ys"
  then show "xs = ys" by (auto simp: ifq_rep_def intro: chain_fun)
next
  fix nx q xs nx'
  assume "ifq_rep nx q xs" "\<forall>y \<in> set xs. nx' y = nx y"
  then show "ifq_rep nx' q xs" using chain_cong [of xs nx' nx] by (auto simp: ifq_rep_def)
qed (auto intro: ifq_enqueue_rep ifq_enqueue_frame ifq_dequeue_empty ifq_dequeue_frame
      dest: ifq_dequeue_rep)

end
