(* ===== verification/Net_If.thy ===== *)
theory Net_If
  imports Net_Ifqueue
begin

unbundle bit_operations_syntax

text \<open>
  The interface layer of the kernel's network code, \<open>kernel/net/if.c\<close> with the structures
  of \<open>if.h\<close>: the list of interfaces, the address lists, lookup of interfaces by address,
  by network and by name, the interface ioctls and the watchdog timers.  Interfaces and
  addresses live in two maps from pointers; the list links are the fields \<open>if_next\<close> and
  \<open>ifa_next\<close>.  The drivers' procedures, the protocols' control input, the address-family
  switch and the user-copy primitive are arguments, gathered in the record \<open>if_env\<close>.
\<close>

section \<open>Data\<close>

type_synonym byte = "8 word"
type_synonym flags = "16 word"

record sockaddr =
  sa_family :: nat
  sa_data :: "byte list"

datatype errno =
  EPERM | EACCES | ESRCH | ENXIO | EFAULT | EBUSY | EEXIST | EINVAL | EOPNOTSUPP | EAFNOSUPPORT | EADDRINUSE
  | EADDRNOTAVAIL | ENETDOWN | ENETUNREACH | ENOBUFS | EISCONN | ENOTCONN | EHOSTUNREACH | EMSGSIZE

datatype ioctl_cmd =
  SIOCGIFCONF | SIOCSARP | SIOCDARP | SIOCGARP | SIOCGIFFLAGS | SIOCGIFMETRIC | SIOCSIFFLAGS
  | SIOCSIFMETRIC | SIOCSIFADDR | SIOCSIFDSTADDR | SIOCADDRT | SIOCDELRT | TIOCGETD | OtherIoctl nat

definition AF_INET :: nat where "AF_INET = 2"
definition AF_MAX :: nat where "AF_MAX = 17"

definition IFF_UP :: flags where "IFF_UP = 0x1"
definition IFF_BROADCAST :: flags where "IFF_BROADCAST = 0x2"
definition IFF_LOOPBACK :: flags where "IFF_LOOPBACK = 0x8"
definition IFF_POINTOPOINT :: flags where "IFF_POINTOPOINT = 0x10"
definition IFF_RUNNING :: flags where "IFF_RUNNING = 0x40"
definition IFF_CANTCHANGE :: flags where
  "IFF_CANTCHANGE = IFF_BROADCAST OR IFF_POINTOPOINT OR IFF_RUNNING"

definition on :: "flags \<Rightarrow> flags \<Rightarrow> bool" where
  "on f bits \<longleftrightarrow> f AND bits \<noteq> 0"

text \<open>Procedure handles are pointers, 0 for an absent procedure.\<close>

record ifnet =
  if_name :: string
  if_unit :: int
  if_mtu :: int
  if_flags :: flags
  if_timer :: int
  if_metric :: int
  if_addrlist :: ptr
  if_snd :: ifqueue
  if_ioctl :: ptr
  if_reset :: ptr
  if_watchdog :: ptr
  if_ipackets :: int
  if_ierrors :: int
  if_opackets :: int
  if_oerrors :: int
  if_collisions :: int
  if_next :: ptr

text \<open>\<open>ifa_ifu\<close> is the union of the broadcast and the destination address.\<close>

record ifaddr =
  ifa_addr :: sockaddr
  ifa_ifu :: sockaddr
  ifa_ifp :: ptr
  ifa_next :: ptr

record 'p net =
  ifnet_list :: ptr
  ifs :: "ptr \<Rightarrow> ifnet"
  ifas :: "ptr \<Rightarrow> ifaddr"
  proto :: 'p

record ifreq =
  ifr_name :: string
  ifr_flags :: flags
  ifr_metric :: int

text \<open>An entry of the configuration list: the interface name as a C string, and an address.\<close>

type_synonym conf_entry = "string \<times> sockaddr"

record ifconf =
  ifc_len :: int
  ifc_req :: ptr

text \<open>The two readings of the memory an ioctl is handed.\<close>

record ioctl_data =
  d_ifreq :: ifreq
  d_ifconf :: ifconf

record 'p if_env =
  drv_ioctl :: "ptr \<Rightarrow> ptr \<Rightarrow> ioctl_cmd \<Rightarrow> flags \<Rightarrow> 'p net \<Rightarrow> errno option \<times> flags \<times> 'p net"
  drv_reset :: "ptr \<Rightarrow> int \<Rightarrow> int \<Rightarrow> 'p net \<Rightarrow> 'p net"
  drv_watchdog :: "ptr \<Rightarrow> int \<Rightarrow> 'p net \<Rightarrow> 'p net"
  pfctlinput_ifdown :: "sockaddr \<Rightarrow> 'p \<Rightarrow> 'p"
  timeout_slowtimo :: "'p net \<Rightarrow> 'p net"
  af_netmatch :: "nat \<Rightarrow> sockaddr \<Rightarrow> sockaddr \<Rightarrow> bool"
  arpioctl :: "ioctl_cmd \<Rightarrow> 'p net \<Rightarrow> errno option \<times> 'p net"
  usrreq_control :: "ioctl_cmd \<Rightarrow> ptr \<Rightarrow> 'p net \<Rightarrow> errno option \<times> 'p net"
  copyout :: "ptr \<Rightarrow> errno option"
  ifqmaxlen :: int

section \<open>The interface list\<close>

abbreviation if_link :: "'p net \<Rightarrow> ptr \<Rightarrow> ptr" where
  "if_link s p \<equiv> if_next (ifs s p)"

abbreviation ifa_link :: "'p net \<Rightarrow> ptr \<Rightarrow> ptr" where
  "ifa_link s a \<equiv> ifa_next (ifas s a)"

definition upd_if :: "ptr \<Rightarrow> (ifnet \<Rightarrow> ifnet) \<Rightarrow> 'p net \<Rightarrow> 'p net" where
  "upd_if p f s = s\<lparr>ifs := (ifs s)(p := f (ifs s p))\<rparr>"

definition if_slowtimo :: "'p if_env \<Rightarrow> 'p net \<Rightarrow> 'p net option" where
  "if_slowtimo e s =
     map_option (timeout_slowtimo e)
       (fold_from if_link
          (\<lambda>p s. if if_timer (ifs s p) = 0 then s
                 else
                   (let s1 = upd_if p (\<lambda>i. i\<lparr>if_timer := s16 (if_timer i - 1)\<rparr>) s in
                    if if_timer (ifs s1 p) \<noteq> 0 then s1
                    else if if_watchdog (ifs s1 p) \<noteq> 0
                         then drv_watchdog e (if_watchdog (ifs s1 p)) (if_unit (ifs s1 p)) s1
                         else s1))
          (ifnet_list s) s)"

definition ifinit :: "'p if_env \<Rightarrow> 'p net \<Rightarrow> 'p net option" where
  "ifinit e s =
     (case fold_from if_link
        (\<lambda>p s. if ifq_maxlen (if_snd (ifs s p)) = 0
               then upd_if p (\<lambda>i. i\<lparr>if_snd := (if_snd i)\<lparr>ifq_maxlen := ifqmaxlen e\<rparr>\<rparr>) s else s)
        (ifnet_list s) s of
        None \<Rightarrow> None | Some s1 \<Rightarrow> if_slowtimo e s1)"

definition ifubareset :: "'p if_env \<Rightarrow> int \<Rightarrow> 'p net \<Rightarrow> 'p net option" where
  "ifubareset e uban s =
     fold_from if_link
       (\<lambda>p s. if if_reset (ifs s p) \<noteq> 0 then drv_reset e (if_reset (ifs s p)) (if_unit (ifs s p)) uban s
              else s)
       (ifnet_list s) s"

text \<open>\<open>if_attach\<close> walks a pointer to the link to be filled in: the head, or some \<open>if_next\<close>.\<close>

partial_function (option) if_attach_at :: "ptr \<Rightarrow> ptr \<Rightarrow> 'p net \<Rightarrow> 'p net option" where
  "if_attach_at ifp p s =
     (if if_link s p \<noteq> 0 then if_attach_at ifp (if_link s p) s
      else Some (upd_if p (\<lambda>i. i\<lparr>if_next := ifp\<rparr>) s))"

definition if_attach :: "ptr \<Rightarrow> 'p net \<Rightarrow> 'p net option" where
  "if_attach ifp s =
     (if ifnet_list s \<noteq> 0 then if_attach_at ifp (ifnet_list s) s else Some (s\<lparr>ifnet_list := ifp\<rparr>))"

section \<open>Lookup by address\<close>

partial_function (option) ifa_search ::
  "'p net \<Rightarrow> (ptr \<Rightarrow> bool) \<Rightarrow> (ptr \<Rightarrow> ptr \<Rightarrow> bool) \<Rightarrow> ptr \<Rightarrow> ptr option" where
  "ifa_search s Q P ifp =
     (if ifp = 0 then Some 0
      else if Q ifp then
        (case find_from (ifa_link s) (P ifp) (if_addrlist (ifs s ifp)) of
           None \<Rightarrow> None
         | Some a \<Rightarrow> if a \<noteq> 0 then Some a else ifa_search s Q P (if_link s ifp))
      else ifa_search s Q P (if_link s ifp))"

definition equal_addr :: "sockaddr \<Rightarrow> sockaddr \<Rightarrow> bool" where
  "equal_addr a b \<longleftrightarrow> sa_data a = sa_data b"

definition matches_addr :: "'p net \<Rightarrow> sockaddr \<Rightarrow> ptr \<Rightarrow> ptr \<Rightarrow> bool" where
  "matches_addr s addr ifp a \<longleftrightarrow> sa_family (ifa_addr (ifas s a)) = sa_family addr
     \<and> (equal_addr (ifa_addr (ifas s a)) addr
        \<or> on (if_flags (ifs s ifp)) IFF_BROADCAST \<and> equal_addr (ifa_ifu (ifas s a)) addr)"

definition ifa_ifwithaddr :: "sockaddr \<Rightarrow> 'p net \<Rightarrow> ptr option" where
  "ifa_ifwithaddr addr s = ifa_search s (\<lambda>_. True) (matches_addr s addr) (ifnet_list s)"

definition ifa_ifwithdstaddr :: "sockaddr \<Rightarrow> 'p net \<Rightarrow> ptr option" where
  "ifa_ifwithdstaddr addr s =
     ifa_search s (\<lambda>p. on (if_flags (ifs s p)) IFF_POINTOPOINT)
       (\<lambda>p a. sa_family (ifa_addr (ifas s a)) = sa_family addr \<and> equal_addr (ifa_ifu (ifas s a)) addr)
       (ifnet_list s)"

definition ifa_ifwithnet :: "'p if_env \<Rightarrow> sockaddr \<Rightarrow> 'p net \<Rightarrow> ptr option" where
  "ifa_ifwithnet e addr s =
     (if sa_family addr \<ge> AF_MAX then Some 0
      else ifa_search s (\<lambda>_. True)
        (\<lambda>p a. sa_family (ifa_addr (ifas s a)) = sa_family addr
             \<and> af_netmatch e (sa_family addr) (ifa_addr (ifas s a)) addr)
        (ifnet_list s))"

section \<open>Taking an interface down\<close>

definition if_down :: "'p if_env \<Rightarrow> ptr \<Rightarrow> 'p net \<Rightarrow> 'p net option" where
  "if_down e ifp s =
     (let rtn = if_ioctl (ifs s ifp); fl = if_flags (ifs s ifp) AND NOT IFF_UP;
          (fl', ok, s1) = (if rtn = 0 then (fl, False, s)
             else case drv_ioctl e rtn ifp SIOCSIFFLAGS fl s of (err, f, t) \<Rightarrow> (f, err = None, t));
          s2 = (if \<not> ok then upd_if ifp (\<lambda>i. i\<lparr>if_flags := fl'\<rparr>) s1 else s1)
      in fold_from ifa_link (\<lambda>a s. s\<lparr>proto := pfctlinput_ifdown e (ifa_addr (ifas s a)) (proto s)\<rparr>)
           (if_addrlist (ifs s2 ifp)) s2)"

section \<open>Names\<close>

definition IFNAMSIZ :: nat where "IFNAMSIZ = 16"

definition NUL :: char where "NUL = char_of (0 :: nat)"

definition digit :: "char \<Rightarrow> bool" where
  "digit c \<longleftrightarrow> 48 \<le> (of_char c :: nat) \<and> (of_char c :: nat) \<le> 57"

text \<open>The C type \<open>char\<close> is signed.\<close>

definition char_val :: "char \<Rightarrow> int" where
  "char_val c = (if (of_char c :: int) < 128 then of_char c else of_char c - 256)"

definition ifunit :: "string \<Rightarrow> 'p net \<Rightarrow> ptr option" where
  "ifunit name s =
     (let arr = take IFNAMSIZ name;
          namlen = length (takeWhile (\<lambda>c. c \<noteq> NUL \<and> \<not> digit c) arr)
      in if namlen = length arr \<or> arr ! namlen = NUL \<or> namlen = 0 then Some 0
         else
           (let unit = foldl (\<lambda>u c. s32 (10 * u + (char_val c - 48))) 0
                         (takeWhile (\<lambda>c. c \<noteq> NUL) (drop namlen arr))
            in find_from (if_link s)
                 (\<lambda>p. unit = if_unit (ifs s p) \<and> namlen = length (if_name (ifs s p))
                    \<and> if_name (ifs s p) = take namlen name)
                 (ifnet_list s)))"

section \<open>The configuration list\<close>

definition IFREQ_SIZE :: int where "IFREQ_SIZE = 32"

definition zero_addr :: sockaddr where
  "zero_addr = \<lparr>sa_family = 0, sa_data = replicate 14 0\<rparr>"

definition conf_name :: "ifnet \<Rightarrow> string" where
  "conf_name i = take (IFNAMSIZ - 2) (if_name i) @ [char_of (nat ((48 + if_unit i) mod 256))]"

record conf_state =
  cs_space :: int
  cs_ifrp :: ptr
  cs_error :: "errno option"
  cs_out :: "(ptr \<times> conf_entry) list"

definition conf_put :: "'p if_env \<Rightarrow> conf_entry \<Rightarrow> conf_state \<Rightarrow> conf_state" where
  "conf_put e x c =
     (case copyout e (cs_ifrp c) of
        Some err \<Rightarrow> c\<lparr>cs_error := Some err\<rparr>
      | None \<Rightarrow> c\<lparr>cs_error := None, cs_space := cs_space c - IFREQ_SIZE, cs_ifrp := cs_ifrp c + 32,
                  cs_out := cs_out c @ [(cs_ifrp c, x)]\<rparr>)"

partial_function (option) conf_addrs ::
  "'p if_env \<Rightarrow> 'p net \<Rightarrow> string \<Rightarrow> ptr \<Rightarrow> conf_state \<Rightarrow> conf_state option" where
  "conf_addrs e s name ifa c =
     (if cs_space c > IFREQ_SIZE \<and> ifa \<noteq> 0 then
        (let c1 = conf_put e (name, ifa_addr (ifas s ifa)) c in
         if cs_error c1 \<noteq> None then Some c1 else conf_addrs e s name (ifa_link s ifa) c1)
      else Some c)"

partial_function (option) conf_ifs :: "'p if_env \<Rightarrow> 'p net \<Rightarrow> ptr \<Rightarrow> conf_state \<Rightarrow> conf_state option" where
  "conf_ifs e s ifp c =
     (if cs_space c > IFREQ_SIZE \<and> ifp \<noteq> 0 then
        (if if_addrlist (ifs s ifp) = 0 then
           (let c1 = conf_put e (conf_name (ifs s ifp), zero_addr) c in
            if cs_error c1 \<noteq> None then Some c1 else conf_ifs e s (if_link s ifp) c1)
         else
           (case conf_addrs e s (conf_name (ifs s ifp)) (if_addrlist (ifs s ifp)) c of
              None \<Rightarrow> None | Some c1 \<Rightarrow> conf_ifs e s (if_link s ifp) c1))
      else Some c)"

definition ifconf_list ::
  "'p if_env \<Rightarrow> ifconf \<Rightarrow> 'p net \<Rightarrow> (errno option \<times> ifconf \<times> (ptr \<times> conf_entry) list) option" where
  "ifconf_list e ifc s =
     (case conf_ifs e s (ifnet_list s)
             \<lparr>cs_space = ifc_len ifc, cs_ifrp = ifc_req ifc, cs_error = None, cs_out = []\<rparr> of
        None \<Rightarrow> None
      | Some c \<Rightarrow> Some (cs_error c, ifc\<lparr>ifc_len := ifc_len ifc - cs_space c\<rparr>, cs_out c))"

section \<open>Interface ioctls\<close>

text \<open>
  \<open>suser\<close> is the outcome of the privilege test of the same name (\<open>Some\<close> of the error it
  leaves in \<open>u.u_error\<close> when it fails).
\<close>

definition if_setflags :: "'p if_env \<Rightarrow> ptr \<Rightarrow> flags \<Rightarrow> 'p net \<Rightarrow> 'p net option" where
  "if_setflags e ifp new s =
     (case (if on (if_flags (ifs s ifp)) IFF_UP \<and> \<not> on new IFF_UP then if_down e ifp s else Some s) of
        None \<Rightarrow> None
      | Some s1 \<Rightarrow>
         (let s2 = upd_if ifp (\<lambda>i. i\<lparr>if_flags := (if_flags i AND IFF_CANTCHANGE)
                     OR (new AND NOT IFF_CANTCHANGE)\<rparr>) s1
          in Some (if if_ioctl (ifs s2 ifp) \<noteq> 0
                   then snd (snd (drv_ioctl e (if_ioctl (ifs s2 ifp)) ifp SIOCSIFFLAGS new s2))
                   else s2)))"

definition ifioctl ::
  "'p if_env \<Rightarrow> errno option \<Rightarrow> ptr \<Rightarrow> ioctl_cmd \<Rightarrow> ioctl_data \<Rightarrow> 'p net
     \<Rightarrow> (errno option \<times> ioctl_data \<times> (ptr \<times> conf_entry) list \<times> 'p net) option" where
  "ifioctl e suser so_proto cmd data s =
     (if cmd = SIOCGIFCONF then
        (case ifconf_list e (d_ifconf data) s of None \<Rightarrow> None
         | Some (err, ifc, out) \<Rightarrow> Some (err, data\<lparr>d_ifconf := ifc\<rparr>, out, s))
      else if cmd \<in> {SIOCSARP, SIOCDARP} \<and> suser \<noteq> None then Some (suser, data, [], s)
      else if cmd \<in> {SIOCSARP, SIOCDARP, SIOCGARP} then
        (case arpioctl e cmd s of (err, s1) \<Rightarrow> Some (err, data, [], s1))
      else
        (case ifunit (ifr_name (d_ifreq data)) s of None \<Rightarrow> None
         | Some ifp \<Rightarrow>
           if ifp = 0 then Some (Some ENXIO, data, [], s)
           else
             (case cmd of
                SIOCGIFFLAGS \<Rightarrow>
                  Some (None, data\<lparr>d_ifreq := (d_ifreq data)\<lparr>ifr_flags := if_flags (ifs s ifp)\<rparr>\<rparr>, [], s)
              | SIOCGIFMETRIC \<Rightarrow>
                  Some (None, data\<lparr>d_ifreq := (d_ifreq data)\<lparr>ifr_metric := if_metric (ifs s ifp)\<rparr>\<rparr>, [], s)
              | SIOCSIFFLAGS \<Rightarrow>
                  if suser \<noteq> None then Some (suser, data, [], s)
                  else map_option (\<lambda>s1. (None, data, [], s1)) (if_setflags e ifp (ifr_flags (d_ifreq data)) s)
              | SIOCSIFMETRIC \<Rightarrow>
                  if suser \<noteq> None then Some (suser, data, [], s)
                  else Some (None, data, [], upd_if ifp (\<lambda>i. i\<lparr>if_metric := ifr_metric (d_ifreq data)\<rparr>) s)
              | _ \<Rightarrow>
                  if so_proto = 0 then Some (Some EOPNOTSUPP, data, [], s)
                  else (case usrreq_control e cmd ifp s of (err, s1) \<Rightarrow> Some (err, data, [], s1)))))"

end
