(* ===== verification/Net_If_Props.thy ===== *)
theory Net_If_Props
  imports Net_If
begin

text \<open>
  Properties of the interface layer: attaching, lookup by address and by name, the
  configuration list, flag changes and the watchdog timers.
\<close>

unbundle bit_operations_syntax

section \<open>Well-formed interface lists\<close>

text \<open>
  \<open>net_ok s ifl al\<close>: the interfaces are linked in the order \<open>ifl\<close>, and the addresses of
  each interface \<open>i\<close> in the order \<open>al i\<close>.
\<close>

definition net_ok :: "'p net \<Rightarrow> ptr list \<Rightarrow> (ptr \<Rightarrow> ptr list) \<Rightarrow> bool" where
  "net_ok s ifl al \<longleftrightarrow> chain (if_link s) (ifnet_list s) ifl
     \<and> (\<forall>i \<in> set ifl. chain (ifa_link s) (if_addrlist (ifs s i)) (al i))"

lemma net_ok_chain: "net_ok s ifl al \<Longrightarrow> chain (if_link s) (ifnet_list s) ifl"
  by (simp add: net_ok_def)

lemma net_ok_addrs: "net_ok s ifl al \<Longrightarrow> i \<in> set ifl \<Longrightarrow> chain (ifa_link s) (if_addrlist (ifs s i)) (al i)"
  by (simp add: net_ok_def)

lemma upd_if_simps [simp]:
  "ifs (upd_if p f s) q = (if q = p then f (ifs s p) else ifs s q)"
  "ifas (upd_if p f s) = ifas s" "ifnet_list (upd_if p f s) = ifnet_list s" "proto (upd_if p f s) = proto s"
  by (simp_all add: upd_if_def)

section \<open>Attaching\<close>

lemma if_attach_at_chain:
  assumes "chain (if_link s) p xs" and "xs \<noteq> []"
  shows "if_attach_at ifp p s = Some (upd_if (last xs) (\<lambda>i. i\<lparr>if_next := ifp\<rparr>) s)"
  using assms
proof (induction xs arbitrary: p)
  case Nil
  then show ?case by simp
next
  case (Cons x xs)
  then show ?case
    by (cases xs) (auto simp: if_attach_at.simps [of ifp x s])
qed

text \<open>
  \<^bold>\<open>Attaching appends the interface\<close>: \<open>if_attach\<close> returns and the new interface is the
  last of the list; the order of the others and all address lists stay as they were.  The
  caller must hand in an interface whose \<open>if_next\<close> is null.
\<close>

theorem if_attach_appends:
  assumes ok: "net_ok s ifl al" and "ifp \<noteq> 0" and "ifp \<notin> set ifl" and "if_next (ifs s ifp) = 0"
    and "chain (ifa_link s) (if_addrlist (ifs s ifp)) (al ifp)"
  shows "\<exists>s'. if_attach ifp s = Some s' \<and> net_ok s' (ifl @ [ifp]) al"
proof (cases "ifl = []")
  case True
  with assms show ?thesis by (auto simp: if_attach_def net_ok_def)
next
  case False
  note c = net_ok_chain [OF ok]
  then have h: "ifnet_list s \<noteq> 0" using False by (cases ifl) auto
  let ?s = "upd_if (last ifl) (\<lambda>i. i\<lparr>if_next := ifp\<rparr>) s"
  have "if_attach ifp s = Some ?s"
    using if_attach_at_chain [OF c False] h by (simp add: if_attach_def)
  moreover have "if_link ?s x = ((if_link s)(ifp := 0, last ifl := ifp)) x" for x
    using assms(4) by auto
  then have "chain (if_link ?s) (ifnet_list s) (ifl @ [ifp])
      = chain ((if_link s)(ifp := 0, last ifl := ifp)) (ifnet_list s) (ifl @ [ifp])"
    by (intro chain_cong) blast
  then have "chain (if_link ?s) (ifnet_list s) (ifl @ [ifp])"
    using chain_snoc [OF c False assms(2,3)] by blast
  moreover have "chain (ifa_link ?s) (if_addrlist (ifs ?s i)) (al i)" if "i \<in> set (ifl @ [ifp])" for i
    using that net_ok_addrs [OF ok] assms(5) by auto
  ultimately show ?thesis unfolding net_ok_def by auto
qed

definition demo_if :: "string \<Rightarrow> int \<Rightarrow> ptr \<Rightarrow> ifnet" where
  "demo_if nm u nxt = \<lparr>if_name = nm, if_unit = u, if_mtu = 1500, if_flags = 0x43, if_timer = 1, if_metric = 0,
     if_addrlist = 0, if_snd = \<lparr>ifq_head = 0, ifq_tail = 0, ifq_len = 0, ifq_maxlen = 50, ifq_drops = 0\<rparr>,
     if_ioctl = 0, if_reset = 0, if_watchdog = 9, if_ipackets = 0, if_ierrors = 0, if_opackets = 0,
     if_oerrors = 0, if_collisions = 0, if_next = nxt\<rparr>"

definition demo_addr :: "byte \<Rightarrow> ptr \<Rightarrow> ptr \<Rightarrow> ifaddr" where
  "demo_addr b ifp nxt = \<lparr>ifa_addr = \<lparr>sa_family = 2, sa_data = replicate 14 b\<rparr>,
     ifa_ifu = \<lparr>sa_family = 2, sa_data = replicate 14 255\<rparr>, ifa_ifp = ifp, ifa_next = nxt\<rparr>"

text \<open>Two interfaces \<open>de0\<close> and \<open>sl3\<close>; the first has two addresses.\<close>

definition demo_net :: "nat list net" where
  "demo_net = \<lparr>ifnet_list = 1,
     ifs = (\<lambda>p. if p = 1 then (demo_if ''de'' 0 2)\<lparr>if_addrlist := 10\<rparr>
              else if p = 2 then (demo_if ''sl'' 3 0) else demo_if ''lo'' 0 0),
     ifas = (\<lambda>a. if a = 10 then demo_addr 7 1 11 else demo_addr 8 1 0), proto = []\<rparr>"

definition demo_al :: "ptr \<Rightarrow> ptr list" where
  "demo_al i = (if i = 1 then [10, 11] else [])"

lemma demo_net_ok: "net_ok demo_net [1, 2] demo_al"
  by (simp add: net_ok_def demo_net_def demo_al_def demo_if_def demo_addr_def)

theorem if_attach_appends_witness:
  "\<exists>s'. if_attach 3 demo_net = Some s' \<and> net_ok s' ([1, 2] @ [3]) demo_al"
  by (rule if_attach_appends [OF demo_net_ok])
    (simp_all add: demo_net_def demo_if_def demo_al_def)

section \<open>Lookup by address\<close>

definition addr_pairs :: "ptr list \<Rightarrow> (ptr \<Rightarrow> ptr list) \<Rightarrow> (ptr \<times> ptr) list" where
  "addr_pairs ifl al = concat (map (\<lambda>i. map (Pair i) (al i)) ifl)"

definition first_addr :: "(ptr \<Rightarrow> ptr \<Rightarrow> bool) \<Rightarrow> (ptr \<times> ptr) list \<Rightarrow> ptr" where
  "first_addr R ps = (case find (\<lambda>(i, a). R i a) ps of None \<Rightarrow> 0 | Some (i, a) \<Rightarrow> a)"

lemma first_addr_simps [simp]:
  "first_addr R [] = 0" "first_addr R ((i, a) # ps) = (if R i a then a else first_addr R ps)"
  by (auto simp: first_addr_def)

lemma first_addr_map: "0 \<notin> set as \<Longrightarrow>
   first_addr R (map (Pair i) as @ ps) = (if first_with (R i) as = 0 then first_addr R ps else first_with (R i) as)"
  by (induction as) auto

lemma ifa_search_spec:
  assumes "chain (if_link s) p xs" and "\<forall>i \<in> set xs. chain (ifa_link s) (if_addrlist (ifs s i)) (al i)"
  shows "ifa_search s Q P p = Some (first_addr (\<lambda>i a. Q i \<and> P i a) (addr_pairs xs al))"
  using assms
proof (induction xs arbitrary: p)
  case Nil
  then show ?case by (simp add: ifa_search.simps addr_pairs_def)
next
  case (Cons x xs)
  have c: "chain (ifa_link s) (if_addrlist (ifs s x)) (al x)" using Cons.prems by simp
  note z = chain_members [OF c]
  have IH: "ifa_search s Q P (if_link s x) = Some (first_addr (\<lambda>i a. Q i \<and> P i a) (addr_pairs xs al))"
    using Cons by auto
  have p: "addr_pairs (x # xs) al = map (Pair x) (al x) @ addr_pairs xs al" by (simp add: addr_pairs_def)
  show ?case
  proof (cases "Q x")
    case True
    then have "first_with (\<lambda>a. Q x \<and> P x a) (al x) = first_with (P x) (al x)" by (intro first_with_cong) simp
    with True Cons.prems IH show ?thesis
      by (auto simp: ifa_search.simps [of s Q P x] find_from_chain [OF c] p first_addr_map [OF z])
  next
    case False
    then have "first_with (\<lambda>a. Q x \<and> P x a) (al x) = 0" using first_with_zero_iff [OF z] by blast
    with False Cons.prems IH show ?thesis
      by (auto simp: ifa_search.simps [of s Q P x] p first_addr_map [OF z])
  qed
qed

lemma first_addr_zero_iff:
  "\<forall>(i, a) \<in> set ps. a \<noteq> 0 \<Longrightarrow> first_addr R ps = 0 \<longleftrightarrow> (\<forall>(i, a) \<in> set ps. \<not> R i a)"
  by (induction ps) (auto split: if_splits)

lemma addr_pairs_nonzero:
  assumes "net_ok s ifl al"
  shows "\<forall>(i, a) \<in> set (addr_pairs ifl al). a \<noteq> 0"
proof -
  have "a \<noteq> 0" if "i \<in> set ifl" "a \<in> set (al i)" for i a
    using chain_members [OF net_ok_addrs [OF assms that(1)]] that(2) by metis
  then show ?thesis by (auto simp: addr_pairs_def)
qed

lemma first_addr_split:
  assumes "first_addr R ps \<noteq> 0"
  shows "\<exists>us i vs. ps = us @ (i, first_addr R ps) # vs \<and> R i (first_addr R ps) \<and> (\<forall>(j, b) \<in> set us. \<not> R j b)"
  using assms
proof (induction ps)
  case Nil
  then show ?case by simp
next
  case (Cons x ps)
  obtain i a where x: "x = (i, a)" by fastforce
  show ?case
  proof (cases "R i a")
    case True
    with x show ?thesis by (intro exI [of _ "[]"]) auto
  next
    case False
    with Cons x obtain us j vs where "ps = us @ (j, first_addr R ps) # vs" "R j (first_addr R ps)"
      "\<forall>(j, b) \<in> set us. \<not> R j b" by auto
    with False x show ?thesis by (intro exI [of _ "x # us"]) auto
  qed
qed

text \<open>
  \<^bold>\<open>Lookup by address returns the first match\<close>: \<open>ifa_ifwithaddr\<close> always returns on a
  well-formed list.  It returns null exactly when no address of any interface matches (its own
  address, or the broadcast address of a broadcast interface); otherwise the first match in the
  order of interfaces and addresses.
\<close>

theorem ifa_ifwithaddr_first:
  assumes ok: "net_ok s ifl al"
  shows "\<exists>a. ifa_ifwithaddr addr s = Some a \<and>
    (if a = 0 then \<forall>(i, b) \<in> set (addr_pairs ifl al). \<not> matches_addr s addr i b
     else \<exists>us i vs. addr_pairs ifl al = us @ (i, a) # vs \<and> matches_addr s addr i a
       \<and> (\<forall>(j, b) \<in> set us. \<not> matches_addr s addr j b))"
proof -
  let ?a = "first_addr (matches_addr s addr) (addr_pairs ifl al)"
  have "ifa_ifwithaddr addr s = Some ?a"
    using ifa_search_spec [of s "ifnet_list s" ifl al "\<lambda>_. True"] ok
    by (simp add: ifa_ifwithaddr_def net_ok_def)
  moreover note first_addr_zero_iff [OF addr_pairs_nonzero [OF ok], of "matches_addr s addr"]
    first_addr_split [of "matches_addr s addr" "addr_pairs ifl al"]
  ultimately show ?thesis by (intro exI [of _ ?a]) simp
qed

theorem ifa_ifwithaddr_first_witness:
  "\<exists>a. ifa_ifwithaddr \<lparr>sa_family = 2, sa_data = replicate 14 8\<rparr> demo_net = Some a \<and> a \<noteq> 0"
proof -
  let ?x = "\<lparr>sa_family = 2, sa_data = replicate 14 (8 :: byte)\<rparr>"
  from ifa_ifwithaddr_first [OF demo_net_ok, of ?x] obtain a where
    a: "ifa_ifwithaddr ?x demo_net = Some a"
      "a = 0 \<longrightarrow> (\<forall>(i, b) \<in> set (addr_pairs [1, 2] demo_al). \<not> matches_addr demo_net ?x i b)"
    by (auto split: if_splits)
  moreover have "(1, 11) \<in> set (addr_pairs [1, 2] demo_al)" by (simp add: addr_pairs_def demo_al_def)
  moreover have "matches_addr demo_net ?x 1 11"
    by (simp add: matches_addr_def demo_net_def demo_addr_def equal_addr_def)
  ultimately show ?thesis by (intro exI [of _ a]) auto
qed

section \<open>Names\<close>

definition plain_name :: "string \<Rightarrow> bool" where
  "plain_name nm \<longleftrightarrow> nm \<noteq> [] \<and> length nm \<le> 14 \<and> (\<forall>c \<in> set nm. c \<noteq> NUL \<and> \<not> digit c)"

lemma takeWhile_prefix: "(\<forall>c \<in> set xs. P c) \<Longrightarrow> takeWhile P (xs @ ys) = xs @ takeWhile P ys"
  by (induction xs) auto

lemma of_char_small: "n < 256 \<Longrightarrow> (of_char (char_of n) :: nat) = n"
  by (simp add: of_char_of)

lemma NUL_iff: "c = NUL \<longleftrightarrow> (of_char c :: nat) = 0"
  using char_of_eq_iff [of "0 :: nat" c] by (auto simp: NUL_def)

text \<open>The name \<open>ifconf\<close> reports, as the array of characters it copies out.\<close>

definition conf_array :: "ifnet \<Rightarrow> string \<Rightarrow> string" where
  "conf_array i rest = conf_name i @ NUL # rest"

lemma ifunit_conf_array:
  assumes nm: "plain_name (if_name i)" and u: "0 \<le> if_unit i" "if_unit i \<le> 207"
  shows "ifunit (conf_array i rest) s =
    (if if_unit i \<le> 9
     then find_from (if_link s) (\<lambda>p. if_unit i = if_unit (ifs s p) \<and> length (if_name i) = length (if_name (ifs s p))
        \<and> if_name (ifs s p) = if_name i) (ifnet_list s)
     else Some 0)"
proof -
  let ?d = "char_of (nat ((48 + if_unit i) mod 256)) :: char" and ?n = "length (if_name i)"
  let ?arr = "take IFNAMSIZ (conf_array i rest)" and ?t = "take (14 - ?n) rest"
  have v: "(of_char ?d :: nat) = nat (48 + if_unit i)" using u by (simp add: of_char_small nat_less_iff)
  have dig: "digit ?d \<longleftrightarrow> if_unit i \<le> 9" using u by (auto simp: digit_def v nat_le_iff le_nat_iff)
  have nn: "?d \<noteq> NUL" using v u by (simp add: NUL_iff)
  have l: "?n \<le> 14" "0 < ?n" using nm by (auto simp: plain_name_def)
  have arr: "?arr = if_name i @ ?d # NUL # ?t"
    using l by (simp add: conf_array_def conf_name_def IFNAMSIZ_def take_Cons')
  have all: "\<forall>c \<in> set (if_name i). c \<noteq> NUL \<and> \<not> digit c" using nm by (auto simp: plain_name_def)
  show ?thesis
  proof (cases "if_unit i \<le> 9")
    case True
    then have tw: "length (takeWhile (\<lambda>c. c \<noteq> NUL \<and> \<not> digit c) ?arr) = ?n"
      unfolding arr takeWhile_prefix [OF all] using dig nn by simp
    have cv: "char_val ?d - 48 = if_unit i"
    proof -
      have "(of_char ?d :: int) = int (of_char ?d)" by (rule of_nat_of_char [symmetric])
      also have "\<dots> = 48 + if_unit i" unfolding v using u by simp
      finally have "(of_char ?d :: int) = 48 + if_unit i" .
      with True show ?thesis by (simp add: char_val_def)
    qed
    have un: "foldl (\<lambda>u c. s32 (10 * u + (char_val c - 48))) 0 (takeWhile (\<lambda>c. c \<noteq> NUL) (drop ?n ?arr)) = if_unit i"
      unfolding arr using True u cv nn by simp
    have nt: "take ?n (conf_array i rest) = if_name i" using l by (simp add: conf_array_def conf_name_def IFNAMSIZ_def)
    show ?thesis unfolding ifunit_def Let_def tw un nt using True l nn by (simp add: arr nth_append)
  next
    case False
    then have "length (takeWhile (\<lambda>c. c \<noteq> NUL \<and> \<not> digit c) ?arr) = ?n + 1"
      unfolding arr takeWhile_prefix [OF all] using dig nn by simp
    with False show ?thesis by (simp add: ifunit_def Let_def arr nth_append)
  qed
qed

text \<open>
  \<^bold>\<open>The names ifconf reports lead back to the interface, up to unit 9\<close>: for an interface
  of the list with a plain name, looking up the reported name with \<open>ifunit\<close> finds an
  interface with that name and unit, if the unit is a single digit.  From unit 10 on, \<open>ifconf\<close>
  writes the character after \<open>9\<close> and the lookup returns null.
\<close>

theorem ifunit_of_conf_name:
  assumes ok: "net_ok s ifl al" and p: "p \<in> set ifl" and nm: "plain_name (if_name (ifs s p))"
    and u: "0 \<le> if_unit (ifs s p)" "if_unit (ifs s p) \<le> 207"
  shows "\<exists>q. ifunit (conf_array (ifs s p) rest) s = Some q \<and>
    (if if_unit (ifs s p) \<le> 9
     then q \<in> set ifl \<and> if_name (ifs s q) = if_name (ifs s p) \<and> if_unit (ifs s q) = if_unit (ifs s p)
     else q = 0)"
proof -
  let ?P = "\<lambda>q. if_unit (ifs s p) = if_unit (ifs s q) \<and> length (if_name (ifs s p)) = length (if_name (ifs s q))
    \<and> if_name (ifs s q) = if_name (ifs s p)"
  note c = net_ok_chain [OF ok]
  have "first_with ?P ifl \<noteq> 0" using first_with_zero_iff [OF chain_members [OF c], of ?P] p by auto
  from first_with_member [OF this] show ?thesis
    unfolding ifunit_conf_array [OF nm u] find_from_chain [OF c] by auto
qed

theorem ifunit_of_conf_name_witness:
  "\<exists>q. ifunit (conf_array (ifs demo_net 2) []) demo_net = Some q \<and> q \<in> {1, 2}
    \<and> if_name (ifs demo_net q) = ''sl'' \<and> if_unit (ifs demo_net q) = 3"
proof -
  have "plain_name ''sl''" by (simp add: plain_name_def NUL_iff digit_def)
  with ifunit_of_conf_name [OF demo_net_ok, of 2 "[]"] show ?thesis
    by (auto simp: demo_net_def demo_if_def)
qed

section \<open>The configuration list\<close>

definition conf_inv :: "int \<Rightarrow> ptr \<Rightarrow> conf_state \<Rightarrow> bool" where
  "conf_inv len req c \<longleftrightarrow> cs_space c = len - 32 * int (length (cs_out c))
     \<and> cs_ifrp c = req + 32 * length (cs_out c)
     \<and> map fst (cs_out c) = map (\<lambda>k. req + 32 * k) [0..<length (cs_out c)]
     \<and> (cs_out c \<noteq> [] \<longrightarrow> 0 < cs_space c)"

lemma conf_put_inv: "conf_inv len req c \<Longrightarrow> 32 < cs_space c \<Longrightarrow> conf_inv len req (conf_put e x c)"
  by (auto simp: conf_inv_def conf_put_def IFREQ_SIZE_def split: option.splits)

lemma conf_addrs_inv:
  "chain (ifa_link s) a as \<Longrightarrow> conf_inv len req c \<Longrightarrow> \<exists>c'. conf_addrs e s nm a c = Some c' \<and> conf_inv len req c'"
proof (induction as arbitrary: a c)
  case Nil
  then show ?case by (simp add: conf_addrs.simps)
next
  case (Cons x as)
  let ?c = "conf_put e (nm, ifa_addr (ifas s x)) c"
  show ?case
  proof (cases "cs_space c > IFREQ_SIZE")
    case True
    then have "conf_inv len req ?c" using Cons.prems by (intro conf_put_inv) (auto simp: IFREQ_SIZE_def)
    with Cons True show ?thesis by (auto simp: conf_addrs.simps [of e s nm x c] Let_def)
  next
    case False
    then have "conf_addrs e s nm a c = Some c" by (subst conf_addrs.simps) simp
    with Cons.prems show ?thesis by simp
  qed
qed

lemma conf_ifs_inv:
  assumes "chain (if_link s) p xs" and "\<forall>i \<in> set xs. chain (ifa_link s) (if_addrlist (ifs s i)) (al i)"
    and "conf_inv len req c"
  shows "\<exists>c'. conf_ifs e s p c = Some c' \<and> conf_inv len req c'"
  using assms
proof (induction xs arbitrary: p c)
  case Nil
  then show ?case by (simp add: conf_ifs.simps)
next
  case (Cons x xs)
  let ?c = "conf_put e (conf_name (ifs s x), zero_addr) c"
  show ?case
  proof (cases "cs_space c > IFREQ_SIZE")
    case True
    then have i: "conf_inv len req ?c" using Cons.prems by (intro conf_put_inv) (auto simp: IFREQ_SIZE_def)
    obtain c1 where c1: "conf_addrs e s (conf_name (ifs s x)) (if_addrlist (ifs s x)) c = Some c1"
        "conf_inv len req c1"
      using conf_addrs_inv [of s "if_addrlist (ifs s x)" "al x" len req c e "conf_name (ifs s x)"] Cons.prems
      by auto
    have IH: "\<exists>c'. conf_ifs e s (if_link s x) d = Some c' \<and> conf_inv len req c'" if "conf_inv len req d" for d
      using Cons.IH [OF _ _ that] Cons.prems by auto
    from IH [OF i] IH [OF c1(2)] i c1 Cons.prems(1) True show ?thesis
      by (auto simp: conf_ifs.simps [of e s x c] Let_def)
  next
    case False
    then have "conf_ifs e s p c = Some c" by (subst conf_ifs.simps) simp
    with Cons.prems show ?thesis by simp
  qed
qed

text \<open>
  (C30) \<^bold>\<open>ifconf stays inside the caller's buffer\<close>: whatever the copies to user space return, the
  call returns, the entries it wrote lie one after the other from the start of the buffer, their
  total size is the length it reports, and it is less than the length the caller gave (so a
  buffer that is an exact multiple of the entry size loses its last slot).
\<close>

theorem ifconf_in_bounds:
  assumes "net_ok s ifl al" and "0 < ifc_len ifc"
  shows "\<exists>err ifc' out. ifconf_list e ifc s = Some (err, ifc', out)
    \<and> map fst out = map (\<lambda>k. ifc_req ifc + 32 * k) [0..<length out]
    \<and> ifc_len ifc' = 32 * int (length out) \<and> ifc_len ifc' < ifc_len ifc"
proof -
  let ?c = "\<lparr>cs_space = ifc_len ifc, cs_ifrp = ifc_req ifc, cs_error = None, cs_out = []\<rparr>"
  have "conf_inv (ifc_len ifc) (ifc_req ifc) ?c" by (simp add: conf_inv_def)
  with conf_ifs_inv [of s "ifnet_list s" ifl al "ifc_len ifc" "ifc_req ifc" ?c e] assms(1)
  obtain c' where "conf_ifs e s (ifnet_list s) ?c = Some c'" "conf_inv (ifc_len ifc) (ifc_req ifc) c'"
    by (auto simp: net_ok_def)
  with assms(2) show ?thesis by (cases "cs_out c' = []") (auto simp: ifconf_list_def conf_inv_def)
qed

definition quiet_env :: "nat list if_env" where
  "quiet_env = \<lparr>drv_ioctl = (\<lambda>h p c f s. (Some EINVAL, f, s)), drv_reset = (\<lambda>h u b s. s),
     drv_watchdog = (\<lambda>h u s. s\<lparr>proto := proto s @ [nat u]\<rparr>), pfctlinput_ifdown = (\<lambda>a l. l),
     timeout_slowtimo = (\<lambda>s. s), af_netmatch = (\<lambda>f a b. sa_data a = sa_data b),
     arpioctl = (\<lambda>c s. (None, s)), usrreq_control = (\<lambda>c p s. (None, s)), copyout = (\<lambda>a. None),
     ifqmaxlen = 50\<rparr>"

theorem ifconf_in_bounds_witness:
  "\<exists>err ifc' out. ifconf_list quiet_env \<lparr>ifc_len = 96, ifc_req = 5000\<rparr> demo_net = Some (err, ifc', out)
    \<and> ifc_len ifc' < 96"
  using ifconf_in_bounds [OF demo_net_ok, of "\<lparr>ifc_len = 96, ifc_req = 5000\<rparr>" quiet_env] by auto

section \<open>Interface flags\<close>

text \<open>
  A driver whose ioctl procedure refuses \<open>SIOCSIFFLAGS\<close> and changes nothing (the SLIP driver
  is one); there may also be no procedure.
\<close>

definition refuses_flags :: "'p if_env \<Rightarrow> bool" where
  "refuses_flags e \<longleftrightarrow> (\<forall>h p f s. \<exists>err. drv_ioctl e h p SIOCSIFFLAGS f s = (Some err, f, s))"

lemma if_down_flags:
  assumes ok: "net_ok s ifl al" and p: "p \<in> set ifl" and r: "refuses_flags e"
  shows "\<exists>s'. if_down e p s = Some s' \<and> ifs s' = (ifs s)(p := (ifs s p)\<lparr>if_flags := if_flags (ifs s p) AND NOT IFF_UP\<rparr>)
    \<and> ifas s' = ifas s \<and> ifnet_list s' = ifnet_list s
    \<and> proto s' = fold (pfctlinput_ifdown e) (map (\<lambda>a. ifa_addr (ifas s a)) (al p)) (proto s)"
proof -
  let ?s = "upd_if p (\<lambda>i. i\<lparr>if_flags := if_flags (ifs s p) AND NOT IFF_UP\<rparr>) s"
  let ?f = "\<lambda>a s. s\<lparr>proto := pfctlinput_ifdown e (ifa_addr (ifas s a)) (proto s)\<rparr>"
  have "drv_ioctl e (if_ioctl (ifs s p)) p SIOCSIFFLAGS (if_flags (ifs s p) AND NOT IFF_UP) s
      = (fst (drv_ioctl e (if_ioctl (ifs s p)) p SIOCSIFFLAGS (if_flags (ifs s p) AND NOT IFF_UP) s),
         if_flags (ifs s p) AND NOT IFF_UP, s)"
    and "fst (drv_ioctl e (if_ioctl (ifs s p)) p SIOCSIFFLAGS (if_flags (ifs s p) AND NOT IFF_UP) s) \<noteq> None"
    using r unfolding refuses_flags_def by (metis fst_conv, metis fst_conv option.distinct(1))
  then have e: "if_down e p s = fold_from ifa_link ?f (if_addrlist (ifs s p)) ?s"
    by (auto simp: if_down_def Let_def split: prod.splits)
  have I: "fold_from ifa_link ?f (if_addrlist (ifs s p)) ?s = Some (fold ?f (al p) ?s)
      \<and> ifas (fold ?f (al p) ?s) = ifas s"
    using net_ok_addrs [OF ok p]
    by (intro fold_from_chain [where I = "\<lambda>t. ifas t = ifas s" and lk = "ifa_link s"]) auto
  have "ifs (fold ?f as t) = ifs t \<and> ifnet_list (fold ?f as t) = ifnet_list t \<and> ifas (fold ?f as t) = ifas t
      \<and> proto (fold ?f as t) = fold (pfctlinput_ifdown e) (map (\<lambda>a. ifa_addr (ifas t a)) as) (proto t)" for as t
    by (induction as arbitrary: t) auto
  from this [of "al p" ?s] I e show ?thesis by (auto simp: upd_if_def)
qed

text \<open>
  \<^bold>\<open>Setting flags keeps the kernel's own bits\<close>: \<open>SIOCSIFFLAGS\<close> by a privileged caller,
  with a driver that leaves flags to the generic code, sets every bit outside
  \<open>IFF_CANTCHANGE\<close> from the request and keeps the others; no other interface changes.  When
  the interface goes down, each of its addresses is reported to the protocols, in order.
\<close>

theorem setflags_keeps_cantchange:
  assumes ok: "net_ok s ifl al" and p: "p \<in> set ifl" and r: "refuses_flags e"
  shows "\<exists>s'. if_setflags e p new s = Some s'
    \<and> if_flags (ifs s' p) = (if_flags (ifs s p) AND IFF_CANTCHANGE) OR (new AND NOT IFF_CANTCHANGE)
    \<and> (\<forall>q. q \<noteq> p \<longrightarrow> ifs s' q = ifs s q)
    \<and> proto s' = (if on (if_flags (ifs s p)) IFF_UP \<and> \<not> on new IFF_UP
        then fold (pfctlinput_ifdown e) (map (\<lambda>a. ifa_addr (ifas s a)) (al p)) (proto s) else proto s)"
proof -
  let ?down = "on (if_flags (ifs s p)) IFF_UP \<and> \<not> on new IFF_UP"
  obtain s1 where s1: "(if ?down then if_down e p s else Some s) = Some s1"
    and f1: "if_flags (ifs s1 p) AND IFF_CANTCHANGE = if_flags (ifs s p) AND IFF_CANTCHANGE"
    and o: "\<forall>q. q \<noteq> p \<longrightarrow> ifs s1 q = ifs s q"
    and pr: "proto s1 = (if ?down then fold (pfctlinput_ifdown e) (map (\<lambda>a. ifa_addr (ifas s a)) (al p)) (proto s) else proto s)"
  proof (cases ?down)
    case True
    have "NOT IFF_UP AND IFF_CANTCHANGE = IFF_CANTCHANGE"
      by (simp add: IFF_UP_def IFF_CANTCHANGE_def IFF_BROADCAST_def IFF_POINTOPOINT_def IFF_RUNNING_def)
    then have "if_flags (ifs s p) AND NOT IFF_UP AND IFF_CANTCHANGE = if_flags (ifs s p) AND IFF_CANTCHANGE"
      by (simp only: and.assoc)
    then have "(if_flags (ifs s p) AND NOT IFF_UP) AND IFF_CANTCHANGE = if_flags (ifs s p) AND IFF_CANTCHANGE"
      by (simp only: and.assoc)
    with if_down_flags [OF ok p r] True that show ?thesis by auto
  next
    case False
    with that show ?thesis by auto
  qed
  let ?s2 = "upd_if p (\<lambda>i. i\<lparr>if_flags := (if_flags i AND IFF_CANTCHANGE) OR (new AND NOT IFF_CANTCHANGE)\<rparr>) s1"
  have "snd (snd (drv_ioctl e h p SIOCSIFFLAGS new t)) = t" for h t
    using r unfolding refuses_flags_def by (metis snd_conv)
  then have "if_setflags e p new s = Some ?s2" unfolding if_setflags_def s1 by (simp add: Let_def)
  with f1 o pr show ?thesis by simp
qed

theorem setflags_keeps_cantchange_witness:
  "\<exists>s'. if_setflags quiet_env 1 0x9 demo_net = Some s' \<and> if_flags (ifs s' 1) = 0x4b"
proof -
  have "refuses_flags quiet_env" by (simp add: refuses_flags_def quiet_env_def)
  from setflags_keeps_cantchange [OF demo_net_ok _ this, of 1 "0x9"] show ?thesis
    by (auto simp: demo_net_def demo_if_def IFF_CANTCHANGE_def IFF_BROADCAST_def IFF_POINTOPOINT_def IFF_RUNNING_def)
qed

section \<open>Watchdog timers\<close>

text \<open>Watchdog procedures that act on the driver's own state only.\<close>

definition watchdogs_local :: "'p if_env \<Rightarrow> (ptr \<Rightarrow> int \<Rightarrow> 'p \<Rightarrow> 'p) \<Rightarrow> bool" where
  "watchdogs_local e w \<longleftrightarrow> (\<forall>h u s. drv_watchdog e h u s = s\<lparr>proto := w h u (proto s)\<rparr>)"

definition short_ok :: "int \<Rightarrow> bool" where
  "short_ok t \<longleftrightarrow> - (2 ^ 15) < t \<and> t < 2 ^ 15"

definition expired :: "'p net \<Rightarrow> ptr \<Rightarrow> bool" where
  "expired s p \<longleftrightarrow> if_timer (ifs s p) = 1 \<and> if_watchdog (ifs s p) \<noteq> 0"

definition tick :: "'p net \<Rightarrow> ptr \<Rightarrow> ifnet" where
  "tick s p = (ifs s p)\<lparr>if_timer := (if if_timer (ifs s p) = 0 then 0 else if_timer (ifs s p) - 1)\<rparr>"

text \<open>
  \<^bold>\<open>One clock tick\<close>: \<open>if_slowtimo\<close> decrements every running timer of the list once, leaves
  stopped timers and everything else alone, and calls the watchdog procedure of exactly the
  interfaces whose timer ran out, in the order of the list.
\<close>

theorem if_slowtimo_tick:
  assumes ok: "net_ok s ifl al" and w: "watchdogs_local e w" and t: "timeout_slowtimo e = (\<lambda>s. s)"
    and r: "\<forall>p \<in> set ifl. short_ok (if_timer (ifs s p))"
  shows "\<exists>s'. if_slowtimo e s = Some s' \<and> (\<forall>p. ifs s' p = (if p \<in> set ifl then tick s p else ifs s p))
    \<and> proto s' = fold (\<lambda>p. w (if_watchdog (ifs s p)) (if_unit (ifs s p))) (filter (expired s) ifl) (proto s)
    \<and> net_ok s' ifl al"
proof -
  define f where "f = (\<lambda>p s. if if_timer (ifs s p) = 0 then s
    else (let s1 = upd_if p (\<lambda>i. i\<lparr>if_timer := s16 (if_timer i - 1)\<rparr>) s in
      if if_timer (ifs s1 p) \<noteq> 0 then s1
      else if if_watchdog (ifs s1 p) \<noteq> 0
           then drv_watchdog e (if_watchdog (ifs s1 p)) (if_unit (ifs s1 p)) s1 else s1))"
  note c = net_ok_chain [OF ok]
  have step: "ifas (f p u) = ifas u \<and> ifnet_list (f p u) = ifnet_list u \<and> ifs (f p u) = (ifs u)(p := tick u p)
      \<and> proto (f p u) = (if expired u p then w (if_watchdog (ifs u p)) (if_unit (ifs u p)) (proto u) else proto u)"
    if "short_ok (if_timer (ifs u p))" for p u
  proof -
    have "s16 (if_timer (ifs u p) - 1) = if_timer (ifs u p) - 1"
      using that by (intro s16_id) (auto simp: short_ok_def)
    then show ?thesis
      using w by (auto simp: f_def tick_def expired_def watchdogs_local_def Let_def fun_upd_def)
  qed
  have f: "ifas (fold f ps u) = ifas u \<and> ifnet_list (fold f ps u) = ifnet_list u
      \<and> (\<forall>p. ifs (fold f ps u) p = (if p \<in> set ps then tick u p else ifs u p))
      \<and> proto (fold f ps u) = fold (\<lambda>p. w (if_watchdog (ifs u p)) (if_unit (ifs u p))) (filter (expired u) ps) (proto u)"
    if "distinct ps" "\<forall>p \<in> set ps. short_ok (if_timer (ifs u p))" for ps u
    using that
  proof (induction ps arbitrary: u)
    case Nil
    then show ?case by simp
  next
    case (Cons p ps)
    from Cons.prems have p: "short_ok (if_timer (ifs u p))" by simp
    note s = step [OF this]
    have k: "tick (f p u) q = tick u q" "ifs (f p u) q = ifs u q" "expired (f p u) q = expired u q" if "q \<noteq> p" for q
      using s that by (simp_all add: tick_def expired_def)
    have "q \<noteq> p" if "q \<in> set ps" for q using Cons.prems that by auto
    with k have flt: "filter (expired (f p u)) ps = filter (expired u) ps"
      and fld: "fold (\<lambda>p'. w (if_watchdog (ifs (f p u) p')) (if_unit (ifs (f p u) p'))) (filter (expired u) ps) x
        = fold (\<lambda>p. w (if_watchdog (ifs u p)) (if_unit (ifs u p))) (filter (expired u) ps) x" for x
      by (auto intro!: filter_cong fold_cong)
    have IH: "ifas (fold f ps (f p u)) = ifas (f p u) \<and> ifnet_list (fold f ps (f p u)) = ifnet_list (f p u)
      \<and> (\<forall>q. ifs (fold f ps (f p u)) q = (if q \<in> set ps then tick (f p u) q else ifs (f p u) q))
      \<and> proto (fold f ps (f p u)) = fold (\<lambda>q. w (if_watchdog (ifs (f p u) q)) (if_unit (ifs (f p u) q))) (filter (expired (f p u)) ps) (proto (f p u))"
      using Cons.prems k by (intro Cons.IH) (auto simp: \<open>\<And>q. q \<in> set ps \<Longrightarrow> q \<noteq> p\<close>)
    have "ifs (fold f (p # ps) u) q = (if q \<in> set (p # ps) then tick u q else ifs u q)" for q
      using IH s k [of q] Cons.prems(1) by (cases "q = p") auto
    moreover have "proto (fold f (p # ps) u) = fold (\<lambda>p. w (if_watchdog (ifs u p)) (if_unit (ifs u p))) (filter (expired u) (p # ps)) (proto u)"
      using IH s flt fld by simp
    ultimately show ?case using IH s by simp
  qed
  have links: "if_link (f p u) q = if_link u q" for p u q
    using w by (auto simp: f_def watchdogs_local_def Let_def)
  have "fold_from if_link f (ifnet_list s) s = Some (fold f ifl s) \<and> (\<forall>q. if_link (fold f ifl s) q = if_link s q)"
    using c links by (intro fold_from_chain [where I = "\<lambda>t. \<forall>q. if_link t q = if_link s q" and lk = "if_link s"]) auto
  then have "if_slowtimo e s = Some (fold f ifl s)" unfolding if_slowtimo_def f_def [symmetric] t by simp
  moreover note F = f [OF chain_distinct [OF c] r]
  moreover have "net_ok (fold f ifl s) ifl al"
  proof -
    have "if_link (fold f ifl s) q = if_link s q" "if_addrlist (ifs (fold f ifl s) q) = if_addrlist (ifs s q)" for q
      using F by (simp_all add: tick_def)
    then show ?thesis using ok F unfolding net_ok_def by (simp add: tick_def)
  qed
  ultimately show ?thesis by blast
qed

theorem if_slowtimo_tick_witness:
  "\<exists>s'. if_slowtimo quiet_env demo_net = Some s' \<and> if_timer (ifs s' 1) = 0 \<and> proto s' = [0, 3]"
proof -
  have w: "watchdogs_local quiet_env (\<lambda>h u l. l @ [nat u])" by (simp add: watchdogs_local_def quiet_env_def)
  have t: "timeout_slowtimo quiet_env = (\<lambda>s. s)" by (simp add: quiet_env_def)
  from if_slowtimo_tick [OF demo_net_ok w t] show ?thesis
    by (auto simp: demo_net_def demo_if_def short_ok_def tick_def expired_def)
qed

end
