(* ===== verification/Net_Route.thy ===== *)
theory Net_Route
  imports Net_If_Props
begin

text \<open>
  The routing tables, \<open>kernel/net/route.c\<close> with the structures of \<open>route.h\<close>, and the
  address-family switch of \<open>af.c\<close>.  A routing entry lives in an mbuf; entry and mbuf are
  one pointer here, the entries are the map \<open>rts\<close> and the hash chains are linked by
  \<open>m_next\<close>.  The mbuf allocator and the hash functions of the address families are
  arguments (\<open>rt_env\<close>); \<open>RTHASHSIZ\<close> is that of a host that is not a gateway.
\<close>

unbundle bit_operations_syntax

section \<open>State\<close>

record rtentry =
  rt_hash :: nat
  rt_dst :: sockaddr
  rt_gateway :: sockaddr
  rt_flags :: flags
  rt_refcnt :: int
  rt_use :: nat
  rt_ifp :: ptr

record route =
  ro_rt :: ptr
  ro_dst :: sockaddr

definition RTF_UP :: flags where "RTF_UP = 0x1"
definition RTF_GATEWAY :: flags where "RTF_GATEWAY = 0x2"
definition RTF_HOST :: flags where "RTF_HOST = 0x4"
definition RTF_DYNAMIC :: flags where "RTF_DYNAMIC = 0x10"
definition RTF_MODIFIED :: flags where "RTF_MODIFIED = 0x20"

definition RTHASHSIZ :: nat where "RTHASHSIZ = 8"

definition RTHASHMOD :: "nat \<Rightarrow> nat" where
  "RTHASHMOD h = h mod RTHASHSIZ"

record rtstat =
  rts_badredirect :: int
  rts_dynamic :: int
  rts_newgateway :: int
  rts_unreach :: int
  rts_wildcard :: int

record ('p, 'm) rt_state =
  rnet :: "'p net"
  rthost :: "nat \<Rightarrow> ptr"
  rtnet :: "nat \<Rightarrow> ptr"
  rt_next :: "ptr \<Rightarrow> ptr"
  rts :: "ptr \<Rightarrow> rtentry"
  rttrash :: int
  rstat :: rtstat
  mbufs :: 'm

record ('p, 'm) rt_env =
  ifenv :: "'p if_env"
  af_hash :: "nat \<Rightarrow> sockaddr \<Rightarrow> nat \<times> nat"
  m_get :: "'m \<Rightarrow> ptr \<times> 'm"
  m_free :: "ptr \<Rightarrow> 'm \<Rightarrow> 'm"

definition wildcard :: sockaddr where
  "wildcard = zero_addr"

definition netmatch :: "('p, 'm) rt_env \<Rightarrow> nat \<Rightarrow> sockaddr \<Rightarrow> sockaddr \<Rightarrow> bool" where
  "netmatch e af = af_netmatch (ifenv e) af"

definition rtbucket :: "('p, 'm) rt_state \<Rightarrow> bool \<Rightarrow> nat \<Rightarrow> ptr" where
  "rtbucket s host k = (if host then rthost s k else rtnet s k)"

definition set_rtbucket :: "bool \<Rightarrow> nat \<Rightarrow> ptr \<Rightarrow> ('p, 'm) rt_state \<Rightarrow> ('p, 'm) rt_state" where
  "set_rtbucket host k p s =
     (if host then s\<lparr>rthost := (rthost s)(k := p)\<rparr> else s\<lparr>rtnet := (rtnet s)(k := p)\<rparr>)"

definition upd_rt :: "ptr \<Rightarrow> (rtentry \<Rightarrow> rtentry) \<Rightarrow> ('p, 'm) rt_state \<Rightarrow> ('p, 'm) rt_state" where
  "upd_rt m f s = s\<lparr>rts := (rts s)(m := f (rts s m))\<rparr>"

section \<open>Lookup\<close>

definition rt_usable :: "('p, 'm) rt_state \<Rightarrow> nat \<Rightarrow> ptr \<Rightarrow> bool" where
  "rt_usable s hash m \<longleftrightarrow> rt_hash (rts s m) = hash \<and> on (rt_flags (rts s m)) RTF_UP
     \<and> on (if_flags (ifs (rnet s) (rt_ifp (rts s m)))) IFF_UP"

definition host_match :: "('p, 'm) rt_state \<Rightarrow> sockaddr \<Rightarrow> nat \<Rightarrow> ptr \<Rightarrow> bool" where
  "host_match s dst hash m \<longleftrightarrow> rt_usable s hash m \<and> rt_dst (rts s m) = dst"

definition net_match :: "('p, 'm) rt_env \<Rightarrow> ('p, 'm) rt_state \<Rightarrow> nat \<Rightarrow> sockaddr \<Rightarrow> nat \<Rightarrow> ptr \<Rightarrow> bool" where
  "net_match e s af dst hash m \<longleftrightarrow> rt_usable s hash m \<and> sa_family (rt_dst (rts s m)) = af
     \<and> netmatch e af (rt_dst (rts s m)) dst"

text \<open>Taking a reference for the caller; \<open>wild\<close> is set on the pass for the wildcard.\<close>

definition rt_take :: "bool \<Rightarrow> ptr \<Rightarrow> route \<Rightarrow> ('p, 'm) rt_state \<Rightarrow> route \<times> ('p, 'm) rt_state" where
  "rt_take wild m ro s =
     (let s1 = upd_rt m (\<lambda>r. r\<lparr>rt_refcnt := s16 (rt_refcnt r + 1)\<rparr>) s;
          s2 = (if wild then s1\<lparr>rstat := (rstat s1)\<lparr>rts_wildcard := s16 (rts_wildcard (rstat s1) + 1)\<rparr>\<rparr> else s1)
      in (ro\<lparr>ro_rt := m\<rparr>, s2))"

definition rtalloc ::
  "('p, 'm) rt_env \<Rightarrow> route \<Rightarrow> ('p, 'm) rt_state \<Rightarrow> (route \<times> ('p, 'm) rt_state) option" where
  "rtalloc e ro s =
     (let dst = ro_dst ro; af = sa_family dst in
      if ro_rt ro \<noteq> 0 \<and> rt_ifp (rts s (ro_rt ro)) \<noteq> 0 \<and> on (rt_flags (rts s (ro_rt ro))) RTF_UP
      then Some (ro, s)
      else if af \<ge> AF_MAX then Some (ro, s)
      else
        (let (hosthash, nethash) = af_hash e af dst in
         case find_from (rt_next s) (host_match s dst hosthash) (rthost s (RTHASHMOD hosthash)) of
           None \<Rightarrow> None
         | Some m \<Rightarrow>
           if m \<noteq> 0 then Some (rt_take False m ro s)
           else
             (case find_from (rt_next s) (net_match e s af dst nethash) (rtnet s (RTHASHMOD nethash)) of
                None \<Rightarrow> None
              | Some m \<Rightarrow>
                if m \<noteq> 0 then Some (rt_take False m ro s)
                else
                  (case find_from (rt_next s) (net_match e s af wildcard 0) (rtnet s (RTHASHMOD 0)) of
                     None \<Rightarrow> None
                   | Some m \<Rightarrow>
                     if m \<noteq> 0 then Some (rt_take True m ro s)
                     else Some (ro, s\<lparr>rstat := (rstat s)\<lparr>rts_unreach := s16 (rts_unreach (rstat s) + 1)\<rparr>\<rparr>)))))"

text \<open>\<open>None\<close> is the panic on a null pointer.\<close>

definition rtfree :: "('p, 'm) rt_env \<Rightarrow> ptr \<Rightarrow> ('p, 'm) rt_state \<Rightarrow> ('p, 'm) rt_state option" where
  "rtfree e m s =
     (if m = 0 then None
      else
        (let s1 = upd_rt m (\<lambda>r. r\<lparr>rt_refcnt := s16 (rt_refcnt r - 1)\<rparr>) s in
         Some (if rt_refcnt (rts s1 m) = 0 \<and> \<not> on (rt_flags (rts s1 m)) RTF_UP
               then s1\<lparr>rttrash := rttrash s1 - 1, mbufs := m_free e m (mbufs s1)\<rparr>
               else s1)))"

section \<open>Changing the tables\<close>

text \<open>
  The scan of \<open>rtrequest\<close>: \<open>prev\<close> is 0 while \<open>mprev\<close> points at the bucket, and the
  predecessor afterwards.
\<close>

partial_function (option) rt_scan ::
  "(ptr \<Rightarrow> ptr) \<Rightarrow> (ptr \<Rightarrow> bool) \<Rightarrow> ptr \<Rightarrow> ptr \<Rightarrow> (ptr \<times> ptr) option" where
  "rt_scan nx P prev m =
     (if m = 0 then Some (prev, 0) else if P m then Some (prev, m) else rt_scan nx P m (nx m))"

definition rt_same :: "('p, 'm) rt_env \<Rightarrow> ('p, 'm) rt_state \<Rightarrow> rtentry \<Rightarrow> nat \<Rightarrow> ptr \<Rightarrow> bool" where
  "rt_same e s entry hash m \<longleftrightarrow> rt_hash (rts s m) = hash
     \<and> (if on (rt_flags entry) RTF_HOST then rt_dst (rts s m) = rt_dst entry
        else sa_family (rt_dst (rts s m)) = sa_family (rt_dst entry)
             \<and> netmatch e (sa_family (rt_dst entry)) (rt_dst (rts s m)) (rt_dst entry))
     \<and> rt_gateway (rts s m) = rt_gateway entry"

definition rt_find_ifa :: "('p, 'm) rt_env \<Rightarrow> rtentry \<Rightarrow> 'p net \<Rightarrow> ptr option" where
  "rt_find_ifa e entry n =
     (case (if \<not> on (rt_flags entry) RTF_GATEWAY then
              (case (if on (rt_flags entry) RTF_HOST then ifa_ifwithdstaddr (rt_dst entry) n else Some 0) of
                 None \<Rightarrow> None
               | Some ifa \<Rightarrow> if ifa = 0 then ifa_ifwithaddr (rt_gateway entry) n else Some ifa)
            else ifa_ifwithdstaddr (rt_gateway entry) n) of
        None \<Rightarrow> None
      | Some ifa \<Rightarrow> if ifa = 0 then ifa_ifwithnet (ifenv e) (rt_gateway entry) n else Some ifa)"

definition rt_delete :: "('p, 'm) rt_env \<Rightarrow> bool \<Rightarrow> nat \<Rightarrow> ptr \<Rightarrow> ptr \<Rightarrow> ('p, 'm) rt_state \<Rightarrow> ('p, 'm) rt_state" where
  "rt_delete e host k prev m s =
     (let s1 = (if prev = 0 then set_rtbucket host k (rt_next s m) s
                else s\<lparr>rt_next := (rt_next s)(prev := rt_next s m)\<rparr>)
      in if rt_refcnt (rts s1 m) > 0
         then (upd_rt m (\<lambda>r. r\<lparr>rt_flags := rt_flags r AND NOT RTF_UP\<rparr>) s1)
                \<lparr>rttrash := rttrash s1 + 1, rt_next := (rt_next s1)(m := 0)\<rparr>
         else s1\<lparr>mbufs := m_free e m (mbufs s1)\<rparr>)"

definition rt_insert :: "bool \<Rightarrow> nat \<Rightarrow> ptr \<Rightarrow> nat \<Rightarrow> rtentry \<Rightarrow> ptr \<Rightarrow> ('p, 'm) rt_state \<Rightarrow> ('p, 'm) rt_state" where
  "rt_insert host k m hash entry ifp s =
     (let s1 = set_rtbucket host k m (s\<lparr>rt_next := (rt_next s)(m := rtbucket s host k)\<rparr>)
      in upd_rt m (\<lambda>_. \<lparr>rt_hash = hash, rt_dst = rt_dst entry, rt_gateway = rt_gateway entry,
           rt_flags = RTF_UP OR (rt_flags entry AND (RTF_HOST OR RTF_GATEWAY OR RTF_DYNAMIC)),
           rt_refcnt = 0, rt_use = 0, rt_ifp = ifp\<rparr>) s1)"

definition rtrequest ::
  "('p, 'm) rt_env \<Rightarrow> ioctl_cmd \<Rightarrow> rtentry \<Rightarrow> ('p, 'm) rt_state \<Rightarrow> (errno option \<times> ('p, 'm) rt_state) option" where
  "rtrequest e req entry s =
     (let af = sa_family (rt_dst entry); host = on (rt_flags entry) RTF_HOST in
      if af \<ge> AF_MAX then Some (Some EAFNOSUPPORT, s)
      else
        (let (hosthash, nethash) = af_hash e af (rt_dst entry);
             hash = (if host then hosthash else nethash); k = RTHASHMOD hash in
         case rt_scan (rt_next s) (rt_same e s entry hash) 0 (rtbucket s host k) of
           None \<Rightarrow> None
         | Some (prev, m) \<Rightarrow>
           (case req of
              SIOCDELRT \<Rightarrow>
                if m = 0 then Some (Some ESRCH, s) else Some (None, rt_delete e host k prev m s)
            | SIOCADDRT \<Rightarrow>
                if m \<noteq> 0 then Some (Some EEXIST, s)
                else
                  (case rt_find_ifa e entry (rnet s) of
                     None \<Rightarrow> None
                   | Some ifa \<Rightarrow>
                     if ifa = 0 then Some (Some ENETUNREACH, s)
                     else
                       (case m_get e (mbufs s) of (m, mb) \<Rightarrow>
                          if m = 0 then Some (Some ENOBUFS, s\<lparr>mbufs := mb\<rparr>)
                          else Some (None, rt_insert host k m hash entry (ifa_ifp (ifas (rnet s) ifa))
                                             (s\<lparr>mbufs := mb\<rparr>))))
            | _ \<Rightarrow> Some (None, s))))"

definition rtinit ::
  "('p, 'm) rt_env \<Rightarrow> sockaddr \<Rightarrow> sockaddr \<Rightarrow> ioctl_cmd \<Rightarrow> flags \<Rightarrow> ('p, 'm) rt_state \<Rightarrow> ('p, 'm) rt_state option" where
  "rtinit e dst gateway cmd fl s =
     map_option snd (rtrequest e cmd \<lparr>rt_hash = 0, rt_dst = dst, rt_gateway = gateway, rt_flags = fl,
       rt_refcnt = 0, rt_use = 0, rt_ifp = 0\<rparr> s)"

definition rtioctl ::
  "('p, 'm) rt_env \<Rightarrow> errno option \<Rightarrow> ioctl_cmd \<Rightarrow> rtentry \<Rightarrow> ('p, 'm) rt_state
     \<Rightarrow> (errno option \<times> ('p, 'm) rt_state) option" where
  "rtioctl e suser cmd entry s =
     (if cmd \<noteq> SIOCADDRT \<and> cmd \<noteq> SIOCDELRT then Some (Some EINVAL, s)
      else if suser \<noteq> None then Some (suser, s)
      else rtrequest e cmd entry s)"

section \<open>Redirects\<close>

definition bad_redirect :: "('p, 'm) rt_state \<Rightarrow> ('p, 'm) rt_state" where
  "bad_redirect s = s\<lparr>rstat := (rstat s)\<lparr>rts_badredirect := s16 (rts_badredirect (rstat s) + 1)\<rparr>\<rparr>"

definition count_dynamic :: "('p, 'm) rt_state \<Rightarrow> ('p, 'm) rt_state" where
  "count_dynamic s = s\<lparr>rstat := (rstat s)\<lparr>rts_dynamic := s16 (rts_dynamic (rstat s) + 1)\<rparr>\<rparr>"

definition rt_smash :: "ptr \<Rightarrow> sockaddr \<Rightarrow> ('p, 'm) rt_state \<Rightarrow> ('p, 'm) rt_state" where
  "rt_smash m gateway s =
     (upd_rt m (\<lambda>r. r\<lparr>rt_gateway := gateway, rt_flags := rt_flags r OR RTF_MODIFIED\<rparr>) s)
       \<lparr>rstat := (rstat s)\<lparr>rts_newgateway := s16 (rts_newgateway (rstat s) + 1)\<rparr>\<rparr>"

text \<open>What is done with a route \<open>m\<close> that is still the one to be changed.\<close>

definition rt_change ::
  "('p, 'm) rt_env \<Rightarrow> sockaddr \<Rightarrow> sockaddr \<Rightarrow> flags \<Rightarrow> ptr \<Rightarrow> ('p, 'm) rt_state \<Rightarrow> ('p, 'm) rt_state option" where
  "rt_change e dst gateway fl m s =
     (case (if on (rt_flags (rts s m)) RTF_GATEWAY then
              (if \<not> on (rt_flags (rts s m)) RTF_HOST \<and> on fl RTF_HOST
               then map_option count_dynamic (rtinit e dst gateway SIOCADDRT (fl OR RTF_DYNAMIC) s)
               else Some (rt_smash m gateway s))
            else Some (bad_redirect s)) of
        None \<Rightarrow> None | Some s1 \<Rightarrow> rtfree e m s1)"

definition rtredirect ::
  "('p, 'm) rt_env \<Rightarrow> sockaddr \<Rightarrow> sockaddr \<Rightarrow> flags \<Rightarrow> sockaddr \<Rightarrow> ('p, 'm) rt_state \<Rightarrow> ('p, 'm) rt_state option" where
  "rtredirect e dst gateway fl src s =
     (case ifa_ifwithnet (ifenv e) gateway (rnet s) of None \<Rightarrow> None
      | Some g \<Rightarrow>
        if g = 0 then Some (bad_redirect s)
        else
          (case rtalloc e \<lparr>ro_rt = 0, ro_dst = dst\<rparr> s of None \<Rightarrow> None
           | Some (ro, s1) \<Rightarrow>
             (let m = ro_rt ro in
              case (if m \<noteq> 0 \<and> src \<noteq> rt_gateway (rts s1 m) then Some 1
                    else ifa_ifwithaddr gateway (rnet s1)) of
                None \<Rightarrow> None
              | Some a \<Rightarrow>
                if a \<noteq> 0
                then (let s2 = bad_redirect s1 in if m \<noteq> 0 then rtfree e m s2 else Some s2)
                else
                  (let wild = (m \<noteq> 0 \<and> netmatch e (sa_family dst) wildcard (rt_dst (rts s1 m))) in
                   case (if wild then rtfree e m s1 else Some s1) of
                     None \<Rightarrow> None
                   | Some s2 \<Rightarrow>
                     if m = 0 \<or> wild
                     then map_option count_dynamic
                            (rtinit e dst gateway SIOCADDRT ((fl AND RTF_HOST) OR RTF_GATEWAY OR RTF_DYNAMIC) s2)
                     else rt_change e dst gateway fl m s2))))"

section \<open>The address-family switch\<close>

text \<open>
  A slot of \<open>afswitch\<close> holds the two procedures of a family, 0 for an empty one;
  \<open>null_procs\<close> are the addresses of \<open>null_hash\<close> and \<open>null_netmatch\<close>.  \<open>null_init\<close>
  assigns the hash procedure twice and the match procedure never.
\<close>

record afswitch_slot =
  af_hash_proc :: ptr
  af_netmatch_proc :: ptr

definition null_init :: "ptr \<times> ptr \<Rightarrow> afswitch_slot list \<Rightarrow> afswitch_slot list" where
  "null_init null_procs = map (\<lambda>a. if af_hash_proc a = 0
     then a\<lparr>af_hash_proc := fst null_procs, af_hash_proc := fst null_procs\<rparr> else a)"

definition null_hash :: "sockaddr \<Rightarrow> nat \<times> nat" where
  "null_hash addr = (0, 0)"

definition null_netmatch :: "sockaddr \<Rightarrow> sockaddr \<Rightarrow> bool" where
  "null_netmatch a1 a2 = False"

end
