(* ===== verification/Net_Route_Props.thy ===== *)
theory Net_Route_Props
  imports Net_Route "HOL-Library.Multiset"
begin

text \<open>
  Properties of the routing tables.  The invariant relates the C state to ghost data: the
  entries of every bucket (\<open>T\<close>), the entries deleted while references were held
  (\<open>D\<close>, counted by \<open>rttrash\<close>) and the references handed out and not yet returned
  (\<open>R\<close>, a multiset).  Every operation keeps it; entries are freed only when no reference
  is left.
\<close>

unbundle bit_operations_syntax

section \<open>The mbuf allocator and the invariant\<close>

definition mbuf_spec :: "('m \<Rightarrow> ptr set) \<Rightarrow> ('p, 'm) rt_env \<Rightarrow> bool" where
  "mbuf_spec live e \<longleftrightarrow>
     (\<forall>m. case m_get e m of (p, m') \<Rightarrow>
        if p = 0 then live m' = live m else p \<notin> live m \<and> live m' = insert p (live m))
     \<and> (\<forall>p m. live (m_free e p m) = live m - {p})"

type_synonym buckets = "bool \<times> nat \<Rightarrow> ptr list"

definition entries :: "buckets \<Rightarrow> ptr set" where
  "entries T = (\<Union>b. set (T b))"

definition apart :: "buckets \<Rightarrow> bool" where
  "apart T \<longleftrightarrow> (\<forall>b c. b \<noteq> c \<longrightarrow> set (T b) \<inter> set (T c) = {})"

lemma apartD: "apart T \<Longrightarrow> b \<noteq> c \<Longrightarrow> set (T b) \<inter> set (T c) = {}"
  unfolding apart_def by blast

lemma apartI: "(\<And>b c. b \<noteq> c \<Longrightarrow> set (T b) \<inter> set (T c) = {}) \<Longrightarrow> apart T"
  unfolding apart_def by blast

definition tables_ok :: "('p, 'm) rt_state \<Rightarrow> buckets \<Rightarrow> bool" where
  "tables_ok s T \<longleftrightarrow> (\<forall>h k. chain (rt_next s) (rtbucket s h k) (T (h, k)))
     \<and> apart T"

definition refs_ok :: "('p, 'm) rt_state \<Rightarrow> ptr set \<Rightarrow> ptr set \<Rightarrow> ptr multiset \<Rightarrow> bool" where
  "refs_ok s E D R \<longleftrightarrow>
     (\<forall>m \<in> E. on (rt_flags (rts s m)) RTF_UP) \<and> (\<forall>m \<in> D. \<not> on (rt_flags (rts s m)) RTF_UP)
     \<and> (\<forall>m \<in> E \<union> D. rt_refcnt (rts s m) = int (count R m)) \<and> D \<subseteq> set_mset R \<and> set_mset R \<subseteq> E \<union> D
     \<and> E \<inter> D = {} \<and> finite D \<and> 0 \<notin> D \<and> rttrash s = int (card D)"

definition rt_inv ::
  "('m \<Rightarrow> ptr set) \<Rightarrow> ('p, 'm) rt_state \<Rightarrow> buckets \<Rightarrow> ptr set \<Rightarrow> ptr multiset \<Rightarrow> bool" where
  "rt_inv live s T D R \<longleftrightarrow> tables_ok s T \<and> refs_ok s (entries T) D R \<and> entries T \<union> D \<subseteq> live (mbufs s)"

lemma rt_inv_chain: "rt_inv live s T D R \<Longrightarrow> chain (rt_next s) (rtbucket s h k) (T (h, k))"
  by (simp add: rt_inv_def tables_ok_def)

lemma entries_mem: "m \<in> set (T b) \<Longrightarrow> m \<in> entries T"
  unfolding entries_def by blast

lemma entries_nonzero: "rt_inv live s T D R \<Longrightarrow> m \<in> entries T \<Longrightarrow> m \<noteq> 0"
proof -
  assume i: "rt_inv live s T D R" and "m \<in> entries T"
  then obtain h k where "m \<in> set (T (h, k))" by (auto simp: entries_def)
  with chain_members [OF rt_inv_chain [OF i, of h k]] show ?thesis by metis
qed

lemma upd_rt_simps [simp]:
  "rts (upd_rt m f s) = (rts s)(m := f (rts s m))" "rt_next (upd_rt m f s) = rt_next s"
  "rtbucket (upd_rt m f s) h k = rtbucket s h k" "mbufs (upd_rt m f s) = mbufs s"
  "rttrash (upd_rt m f s) = rttrash s" "rnet (upd_rt m f s) = rnet s" "rstat (upd_rt m f s) = rstat s"
  by (simp_all add: upd_rt_def rtbucket_def)

lemma set_rtbucket_simps [simp]:
  "rts (set_rtbucket h k p s) = rts s" "rt_next (set_rtbucket h k p s) = rt_next s"
  "rtbucket (set_rtbucket h k p s) h' k' = (if h' = h \<and> k' = k then p else rtbucket s h' k')"
  "mbufs (set_rtbucket h k p s) = mbufs s" "rttrash (set_rtbucket h k p s) = rttrash s"
  "rnet (set_rtbucket h k p s) = rnet s"
  by (auto simp: set_rtbucket_def rtbucket_def)

lemma rtbucket_other [simp]:
  "rtbucket (s\<lparr>rt_next := a\<rparr>) h k = rtbucket s h k" "rtbucket (s\<lparr>rttrash := b\<rparr>) h k = rtbucket s h k"
  "rtbucket (s\<lparr>rstat := c\<rparr>) h k = rtbucket s h k" "rtbucket (s\<lparr>mbufs := d\<rparr>) h k = rtbucket s h k"
  by (auto simp: rtbucket_def)

lemma rt_inv_rstat [simp]: "rt_inv live (s\<lparr>rstat := x\<rparr>) T D R = rt_inv live s T D R"
  by (simp add: rt_inv_def tables_ok_def refs_ok_def)

section \<open>References\<close>

lemma rt_take_inv:
  assumes inv: "rt_inv live s T D R" and m: "m \<in> entries T" and b: "size R < 32767"
    and t: "rt_take w m ro s = (ro', s')"
  shows "rt_inv live s' T D (add_mset m R) \<and> ro' = ro\<lparr>ro_rt := m\<rparr> \<and> rnet s' = rnet s"
proof -
  let ?s1 = "upd_rt m (\<lambda>r. r\<lparr>rt_refcnt := s16 (rt_refcnt r + 1)\<rparr>) s"
  have r: "refs_ok s (entries T) D R" using inv by (simp add: rt_inv_def)
  then have c: "rt_refcnt (rts s m) = int (count R m)" using m by (simp add: refs_ok_def)
  have "count R m \<le> size R" by (rule count_le_size)
  with b have "s16 (int (count R m) + 1) = int (count R m) + 1" by (intro s16_id) auto
  then have "refs_ok ?s1 (entries T) D (add_mset m R)"
    using r m c by (auto simp: refs_ok_def)
  then have "rt_inv live ?s1 T D (add_mset m R)" using inv by (simp add: rt_inv_def tables_ok_def)
  with t show ?thesis by (auto simp: rt_take_def Let_def)
qed

lemma rtfree_inv:
  assumes inv: "rt_inv live s T D R" and m: "m \<in># R" and b: "size R \<le> 32767" and sp: "mbuf_spec live e"
  shows "\<exists>s' D'. rtfree e m s = Some s' \<and> rt_inv live s' T D' (R - {#m#}) \<and> rnet s' = rnet s
    \<and> D' = (if m \<in> D \<and> count R m = 1 then D - {m} else D)"
proof -
  let ?s1 = "upd_rt m (\<lambda>r. r\<lparr>rt_refcnt := s16 (rt_refcnt r - 1)\<rparr>) s"
  have r: "refs_ok s (entries T) D R" using inv by (simp add: rt_inv_def)
  have mem: "m \<in> entries T \<union> D" and c: "rt_refcnt (rts s m) = int (count R m)" and pos: "0 < count R m"
    using r m by (auto simp: refs_ok_def)
  have "count R m \<le> size R" by (rule count_le_size)
  with b pos have s16: "s16 (int (count R m) - 1) = int (count R m) - 1" by (intro s16_id) auto
  have m0: "m \<noteq> 0" using mem entries_nonzero [OF inv] r by (auto simp: refs_ok_def)
  show ?thesis
  proof (cases "m \<in> D \<and> count R m = 1")
    case True
    let ?s' = "?s1\<lparr>rttrash := rttrash ?s1 - 1, mbufs := m_free e m (mbufs ?s1)\<rparr>"
    have d: "\<not> on (rt_flags (rts s m)) RTF_UP" "m \<notin> entries T" using True r by (auto simp: refs_ok_def)
    have "rtfree e m s = Some ?s'" using m0 c s16 True d by (simp add: rtfree_def Let_def)
    moreover have "refs_ok ?s' (entries T) (D - {m}) (R - {#m#})"
    proof -
      have "int (card (D - {m})) = int (card D) - 1"
        using True r by (simp add: refs_ok_def card_Diff_singleton) (metis card_gt_0_iff empty_iff of_nat_diff of_nat_1 Suc_leI One_nat_def)
      moreover have "x \<in># R - {#m#} \<longleftrightarrow> x \<in># R \<and> x \<noteq> m" for x
        using True by (cases "x = m") (simp_all add: count_greater_zero_iff [symmetric] del: count_greater_zero_iff)
      ultimately show ?thesis using r True d by (auto simp: refs_ok_def)
    qed
    moreover have "entries T \<union> (D - {m}) \<subseteq> live (mbufs ?s')"
      using inv sp d by (auto simp: rt_inv_def mbuf_spec_def)
    ultimately show ?thesis using inv True
      by (intro exI [of _ ?s'] exI [of _ "D - {m}"]) (simp add: rt_inv_def tables_ok_def)
  next
    case False
    have "\<not> (rt_refcnt (rts ?s1 m) = 0 \<and> \<not> on (rt_flags (rts ?s1 m)) RTF_UP)"
      using False mem r c s16 pos by (auto simp: refs_ok_def)
    then have "rtfree e m s = Some ?s1" using m0 by (auto simp: rtfree_def Let_def)
    moreover have "refs_ok ?s1 (entries T) D (R - {#m#})"
    proof -
      have "x \<in># R - {#m#}" if "x \<in> D" for x
      proof (cases "x = m")
        case True
        with that False have "count R m \<noteq> 1" by blast
        with pos have "1 < count R m" by linarith
        with True show ?thesis by (simp add: in_diff_count)
      next
        case ne: False
        with that r show ?thesis by (auto simp: refs_ok_def in_diff_count)
      qed
      moreover have "rt_refcnt (rts ?s1 x) = int (count (R - {#m#}) x)" if "x \<in> entries T \<union> D" for x
        using that r s16 c pos by (auto simp: refs_ok_def)
      ultimately show ?thesis using r by (auto simp: refs_ok_def dest: in_diffD)
    qed
    ultimately show ?thesis using inv False
      by (intro exI [of _ ?s1] exI [of _ D]) (auto simp: rt_inv_def tables_ok_def)
  qed
qed

section \<open>Lookup\<close>

text \<open>The search order: host routes, then routes to the network, then the wildcard route.\<close>

definition rt_lookup :: "('p, 'm) rt_env \<Rightarrow> ('p, 'm) rt_state \<Rightarrow> buckets \<Rightarrow> sockaddr \<Rightarrow> ptr \<times> bool" where
  "rt_lookup e s T dst =
     (let af = sa_family dst; hh = fst (af_hash e af dst); nh = snd (af_hash e af dst);
          m1 = first_with (host_match s dst hh) (T (True, RTHASHMOD hh));
          m2 = first_with (net_match e s af dst nh) (T (False, RTHASHMOD nh));
          m3 = first_with (net_match e s af wildcard 0) (T (False, RTHASHMOD 0))
      in if m1 \<noteq> 0 then (m1, False) else if m2 \<noteq> 0 then (m2, False) else (m3, True))"

lemma rtalloc_lookup:
  assumes inv: "rt_inv live s T D R" and af: "sa_family (ro_dst ro) < AF_MAX" and z: "ro_rt ro = 0"
  shows "rtalloc e ro s = Some (case rt_lookup e s T (ro_dst ro) of (m, w) \<Rightarrow>
    if m \<noteq> 0 then rt_take w m ro s
    else (ro, s\<lparr>rstat := (rstat s)\<lparr>rts_unreach := s16 (rts_unreach (rstat s) + 1)\<rparr>\<rparr>))"
proof -
  have h: "chain (rt_next s) (rthost s k) (T (True, k))" and n: "chain (rt_next s) (rtnet s k) (T (False, k))" for k
    using rt_inv_chain [OF inv, of True k] rt_inv_chain [OF inv, of False k] by (simp_all add: rtbucket_def)
  obtain hh nh where a: "af_hash e (sa_family (ro_dst ro)) (ro_dst ro) = (hh, nh)" by fastforce
  show ?thesis
    using af z by (simp add: rtalloc_def Let_def a find_from_chain [OF h] find_from_chain [OF n] rt_lookup_def)
qed

lemma rt_lookup_entry:
  assumes l: "rt_lookup e s T dst = (m, w)" and m: "m \<noteq> 0"
  shows "m \<in> entries T \<and> (\<exists>hash. rt_usable s hash m)"
proof -
  have first: "first_with P (T b) \<in> entries T \<and> (\<exists>hash. rt_usable s hash (first_with P (T b)))"
    if "first_with P (T b) \<noteq> 0" "\<And>x. P x \<Longrightarrow> \<exists>hash. rt_usable s hash x" for P b
    using first_with_member [OF that(1)] that(2) entries_mem by blast
  have "\<exists>hash. rt_usable s hash x" if "host_match s dst h x" for h x using that by (auto simp: host_match_def)
  moreover have "\<exists>hash. rt_usable s hash x" if "net_match e s af d h x" for af d h x
    using that by (auto simp: net_match_def)
  ultimately show ?thesis
    using l m first unfolding rt_lookup_def Let_def by (auto split: if_splits)
qed

lemma rtalloc_inv:
  assumes inv: "rt_inv live s T D R" and z: "ro_rt ro = 0" and b: "size R < 32767"
  shows "\<exists>ro' s'. rtalloc e ro s = Some (ro', s') \<and> rnet s' = rnet s
    \<and> rt_inv live s' T D (if ro_rt ro' = 0 then R else add_mset (ro_rt ro') R)
    \<and> (ro_rt ro' \<noteq> 0 \<longrightarrow> ro_rt ro' \<in> entries T)"
proof (cases "sa_family (ro_dst ro) < AF_MAX")
  case False
  with inv z show ?thesis by (auto simp: rtalloc_def Let_def)
next
  case True
  obtain m w where l: "rt_lookup e s T (ro_dst ro) = (m, w)" by fastforce
  show ?thesis
  proof (cases "m = 0")
    case True
    with rtalloc_lookup [OF inv \<open>sa_family _ < AF_MAX\<close> z] l z inv show ?thesis by auto
  next
    case False
    obtain ro' s' where t: "rt_take w m ro s = (ro', s')" by fastforce
    from rt_take_inv [OF inv _ b t] rt_lookup_entry [OF l False]
    have "rt_inv live s' T D (add_mset m R)" "ro' = ro\<lparr>ro_rt := m\<rparr>" "rnet s' = rnet s" by auto
    with rtalloc_lookup [OF inv True z] l False t rt_lookup_entry [OF l False] show ?thesis by auto
  qed
qed

section \<open>Insertion and deletion\<close>

lemma rt_scan_spec:
  assumes "chain nx m xs"
  shows "rt_scan nx P prev m =
    Some (if first_with P xs = 0 then (last (prev # xs), 0)
          else (last (prev # takeWhile (\<lambda>x. \<not> P x) xs), first_with P xs))"
  using assms by (induction xs arbitrary: prev m) (auto simp: rt_scan.simps)

lemma first_with_split:
  assumes "first_with P xs \<noteq> 0"
  shows "\<exists>vs. xs = takeWhile (\<lambda>x. \<not> P x) xs @ first_with P xs # vs"
  using assms by (induction xs) auto

text \<open>Unlinking an entry, through the bucket or through its predecessor.\<close>

lemma tables_unlink:
  assumes ok: "tables_ok s T" and T: "T (h, k) = us @ m # vs"
    and s': "s' = (if us = [] then set_rtbucket h k (rt_next s m) s
      else s\<lparr>rt_next := (rt_next s)(last us := rt_next s m)\<rparr>)"
  shows "tables_ok s' (T((h, k) := us @ vs))"
proof -
  have c: "chain (rt_next s) (rtbucket s h' k') (T (h', k'))" for h' k' using ok by (simp add: tables_ok_def)
  have dj: "set (T b) \<inter> set (T c) = {}" if "b \<noteq> c" for b c
    using ok apartD [OF _ that] by (simp add: tables_ok_def)
  have "chain (rt_next s') (rtbucket s' h' k') ((T((h, k) := us @ vs)) (h', k'))" for h' k'
  proof (cases "us = []")
    case True
    with c [of h' k'] T s' show ?thesis by (cases "h' = h \<and> k' = k") auto
  next
    case False
    then have us: "us = butlast us @ [last us]" by simp
    show ?thesis
    proof (cases "(h', k') = (h, k)")
      case True
      have "chain (rt_next s) (rtbucket s h k) (butlast us @ last us # m # vs)"
        using c [of h k] T us by (metis append.assoc append_Cons append_Nil)
      from chain_unlink [OF this] us have "chain ((rt_next s)(last us := rt_next s m)) (rtbucket s h k) (us @ vs)"
        by (metis append.assoc append_Cons append_Nil)
      with True False s' show ?thesis by auto
    next
      case ne: False
      have "last us \<in> set (T (h, k))" using False T by simp
      with dj [of "(h', k')" "(h, k)"] ne have "last us \<notin> set (T (h', k'))" by blast
      with c [of h' k'] ne False s' show ?thesis by (auto simp: chain_upd)
    qed
  qed
  moreover have "set ((T((h, k) := us @ vs)) b) \<inter> set ((T((h, k) := us @ vs)) c) = {}" if "b \<noteq> c" for b c
    using dj [OF that] dj [of "(h, k)" b] dj [of "(h, k)" c] that T by auto
  ultimately show ?thesis unfolding tables_ok_def by (blast intro: apartI)
qed

lemma entries_remove:
  assumes "tables_ok s T" and T: "T (h, k) = us @ m # vs"
  shows "entries (T((h, k) := us @ vs)) = entries T - {m}" and "m \<in> entries T"
proof -
  have "distinct (us @ m # vs)" using assms chain_distinct unfolding tables_ok_def by metis
  then have m: "m \<notin> set (us @ vs)" by auto
  have o: "m \<notin> set (T b)" if "b \<noteq> (h, k)" for b
  proof -
    have "set (T b) \<inter> set (T (h, k)) = {}"
      using assms(1) apartD [OF _ that] by (simp add: tables_ok_def)
    then show ?thesis using T by auto
  qed
  show "m \<in> entries T" using T entries_mem [of m T "(h, k)"] by simp
  have "x \<in> entries (T((h, k) := us @ vs)) \<longleftrightarrow> x \<in> entries T \<and> x \<noteq> m" for x
  proof -
    have "x \<in> set ((T((h, k) := us @ vs)) b) \<longleftrightarrow> x \<in> set (T b) \<and> x \<noteq> m" for b
      using m o [of b] T by (cases "b = (h, k)") auto
    then show ?thesis unfolding entries_def by blast
  qed
  then show "entries (T((h, k) := us @ vs)) = entries T - {m}" by blast
qed

lemma on_clear [simp]: "\<not> on (f AND NOT RTF_UP) RTF_UP"
  by (simp add: on_def and.assoc)

lemma rt_delete_inv:
  assumes inv: "rt_inv live s T D R" and T: "T (h, k) = us @ m # vs" and sp: "mbuf_spec live e"
    and p: "prev = last (0 # us)"
  shows "rt_inv live (rt_delete e h k prev m s) (T((h, k) := us @ vs))
    (if m \<in># R then insert m D else D) R \<and> rnet (rt_delete e h k prev m s) = rnet s"
proof -
  have ok: "tables_ok s T" and r: "refs_ok s (entries T) D R" and lv: "entries T \<union> D \<subseteq> live (mbufs s)"
    using inv by (auto simp: rt_inv_def)
  define s1 where "s1 = (if us = [] then set_rtbucket h k (rt_next s m) s
      else s\<lparr>rt_next := (rt_next s)(last us := rt_next s m)\<rparr>)"
  have t1: "tables_ok s1 (T((h, k) := us @ vs))" by (rule tables_unlink [OF ok T s1_def])
  note E = entries_remove [OF ok T]
  have "chain (rt_next s) (rtbucket s h k) (us @ m # vs)" using inv T rt_inv_chain by metis
  then have "0 \<notin> set us" by (auto dest: chain_members)
  then have "(prev = 0) = (us = [])" using p by (cases us rule: rev_cases) auto
  then have d: "rt_delete e h k prev m s = (if rt_refcnt (rts s m) > 0
         then (upd_rt m (\<lambda>r. r\<lparr>rt_flags := rt_flags r AND NOT RTF_UP\<rparr>) s1)
                \<lparr>rttrash := rttrash s + 1, rt_next := (rt_next s1)(m := 0)\<rparr>
         else s1\<lparr>mbufs := m_free e m (mbufs s)\<rparr>)"
    using p by (auto simp: rt_delete_def s1_def Let_def)
  have f1: "rts s1 = rts s" "rttrash s1 = rttrash s" "mbufs s1 = mbufs s" "rnet s1 = rnet s"
    by (auto simp: s1_def)
  have c: "rt_refcnt (rts s m) = int (count R m)" and mD: "m \<notin> D" using r E(2) by (auto simp: refs_ok_def)
  have m0: "m \<noteq> 0" using entries_nonzero [OF inv E(2)] .
  show ?thesis
  proof (cases "m \<in># R")
    case True
    let ?s = "(upd_rt m (\<lambda>r. r\<lparr>rt_flags := rt_flags r AND NOT RTF_UP\<rparr>) s1)
                \<lparr>rttrash := rttrash s + 1, rt_next := (rt_next s1)(m := 0)\<rparr>"
    have "rt_delete e h k prev m s = ?s" using d c True by simp
    moreover have "m \<notin> set ((T((h, k) := us @ vs)) b)" for b
      using entries_mem [of m "T((h, k) := us @ vs)" b] unfolding E(1) by blast
    then have "tables_ok ?s (T((h, k) := us @ vs))"
      using t1 unfolding tables_ok_def by (simp add: chain_upd del: fun_upd_apply)
    moreover have "refs_ok ?s (entries (T((h, k) := us @ vs))) (insert m D) R"
    proof -
      have "on (rt_flags (rts ?s x)) RTF_UP" if "x \<in> entries T - {m}" for x
        using that r f1 by (simp add: refs_ok_def)
      moreover have "\<not> on (rt_flags (rts ?s x)) RTF_UP" if "x \<in> insert m D" for x
        using that r f1 by (auto simp: refs_ok_def)
      moreover have "rt_refcnt (rts ?s x) = int (count R x)" if "x \<in> entries T - {m} \<union> insert m D" for x
        using that r f1 c by (auto simp: refs_ok_def)
      moreover have "insert m D \<subseteq> set_mset R" "set_mset R \<subseteq> (entries T - {m}) \<union> insert m D"
        "(entries T - {m}) \<inter> insert m D = {}" "finite (insert m D)" "0 \<notin> insert m D"
        using r True m0 by (auto simp: refs_ok_def)
      moreover have "rttrash ?s = int (card (insert m D))" using r mD by (simp add: refs_ok_def)
      ultimately show ?thesis unfolding E(1) refs_ok_def by blast
    qed
    ultimately show ?thesis using lv E f1 True by (auto simp: rt_inv_def)
  next
    case False
    then have "count R m = 0" by (simp add: not_in_iff)
    then have "rt_delete e h k prev m s = s1\<lparr>mbufs := m_free e m (mbufs s)\<rparr>" using d c by simp
    moreover have "refs_ok s1 (entries (T((h, k) := us @ vs))) D R"
      using r False f1 unfolding E(1) by (auto simp: refs_ok_def)
    moreover have "entries (T((h, k) := us @ vs)) \<union> D \<subseteq> live (m_free e m (mbufs s))"
      using lv sp mD unfolding E(1) by (auto simp: mbuf_spec_def)
    ultimately show ?thesis using t1 f1 False by (simp add: rt_inv_def tables_ok_def refs_ok_def)
  qed
qed

lemma on_set [simp]: "on (RTF_UP OR f) RTF_UP"
proof -
  have "(RTF_UP OR f) AND RTF_UP = RTF_UP" by (rule bit_word_eqI) (auto simp: bit_or_iff bit_and_iff)
  then show ?thesis by (simp add: on_def RTF_UP_def)
qed

lemma rt_insert_inv:
  assumes inv: "rt_inv live s T D R" and m: "m \<noteq> 0" "m \<notin> live (mbufs s)"
    and mb: "live mb = insert m (live (mbufs s))"
  shows "rt_inv live (rt_insert h k m hash entry ifp (s\<lparr>mbufs := mb\<rparr>)) (T((h, k) := m # T (h, k))) D R
    \<and> rnet (rt_insert h k m hash entry ifp (s\<lparr>mbufs := mb\<rparr>)) = rnet s"
proof -
  let ?T = "T((h, k) := m # T (h, k))" and ?s = "rt_insert h k m hash entry ifp (s\<lparr>mbufs := mb\<rparr>)"
  have ok: "tables_ok s T" and r: "refs_ok s (entries T) D R" and lv: "entries T \<union> D \<subseteq> live (mbufs s)"
    using inv by (auto simp: rt_inv_def)
  have me: "m \<notin> entries T" "m \<notin> D" using lv m by auto
  then have mt: "m \<notin> set (T b)" for b using entries_mem by metis
  have E: "entries ?T = insert m (entries T)"
  proof -
    have "x \<in> entries ?T \<longleftrightarrow> x = m \<or> x \<in> entries T" for x
      unfolding entries_def by (auto split: if_splits)
    then show ?thesis by blast
  qed
  have "chain (rt_next ?s) (rtbucket ?s h' k') (?T (h', k'))" for h' k'
    using ok mt m(1) by (auto simp: rt_insert_def Let_def tables_ok_def chain_upd)
  moreover have "set (?T b) \<inter> set (?T c) = {}" if "b \<noteq> c" for b c
  proof -
    have "apart T" using ok by (simp add: tables_ok_def)
    from apartD [OF this that] that mt show ?thesis by (auto split: if_splits)
  qed
  ultimately have "tables_ok ?s ?T" unfolding tables_ok_def by (blast intro: apartI)
  moreover have "refs_ok ?s (entries ?T) D R"
  proof -
    have "m \<notin># R" using r me by (auto simp: refs_ok_def)
    then have "count R m = 0" by (simp add: not_in_iff)
    with r me show ?thesis unfolding E by (auto simp: refs_ok_def rt_insert_def Let_def)
  qed
  moreover have "entries ?T \<union> D \<subseteq> live (mbufs ?s)"
    using lv mb unfolding E by (auto simp: rt_insert_def Let_def)
  ultimately show ?thesis by (simp add: rt_inv_def rt_insert_def Let_def)
qed

section \<open>Requests\<close>

lemma ifa_lookups_return:
  assumes "net_ok n ifl al"
  shows "\<exists>a. ifa_ifwithaddr x n = Some a" "\<exists>a. ifa_ifwithdstaddr x n = Some a" "\<exists>a. ifa_ifwithnet e x n = Some a"
  using ifa_search_spec [OF assms [unfolded net_ok_def, THEN conjunct1] assms [unfolded net_ok_def, THEN conjunct2]]
  by (auto simp: ifa_ifwithaddr_def ifa_ifwithdstaddr_def ifa_ifwithnet_def)

lemma rt_find_ifa_returns:
  assumes "net_ok n ifl al"
  shows "\<exists>a. rt_find_ifa e entry n = Some a"
proof -
  have "\<exists>a. (if \<not> on (rt_flags entry) RTF_GATEWAY then
              (case (if on (rt_flags entry) RTF_HOST then ifa_ifwithdstaddr (rt_dst entry) n else Some 0) of
                 None \<Rightarrow> None
               | Some ifa \<Rightarrow> if ifa = 0 then ifa_ifwithaddr (rt_gateway entry) n else Some ifa)
            else ifa_ifwithdstaddr (rt_gateway entry) n) = Some a"
    using ifa_lookups_return(1) [OF assms, of "rt_gateway entry"] ifa_lookups_return(2) [OF assms, of "rt_dst entry"]
      ifa_lookups_return(2) [OF assms, of "rt_gateway entry"] by auto
  with ifa_lookups_return(3) [OF assms, of "ifenv e" "rt_gateway entry"] show ?thesis
    by (auto simp: rt_find_ifa_def)
qed

lemma rtrequest_inv:
  assumes inv: "rt_inv live s T D R" and sp: "mbuf_spec live e" and net: "net_ok (rnet s) ifl al"
  shows "\<exists>err s' T' D'. rtrequest e req entry s = Some (err, s') \<and> rt_inv live s' T' D' R \<and> rnet s' = rnet s
    \<and> (req = SIOCADDRT \<longrightarrow> entries T \<subseteq> entries T' \<and> D' = D)"
proof -
  let ?host = "on (rt_flags entry) RTF_HOST" and ?af = "sa_family (rt_dst entry)"
  obtain hh nh where ah: "af_hash e ?af (rt_dst entry) = (hh, nh)" by fastforce
  define hash where "hash = (if ?host then hh else nh)"
  let ?k = "RTHASHMOD hash" and ?P = "rt_same e s entry hash"
  let ?xs = "T (?host, RTHASHMOD hash)"
  note scan = rt_scan_spec [OF rt_inv_chain [OF inv, of ?host ?k], of ?P 0]
  obtain prev m where sc: "rt_scan (rt_next s) ?P 0 (rtbucket s ?host ?k) = Some (prev, m)"
    using scan by (cases "first_with ?P ?xs = 0") auto
  then have m: "m = first_with ?P ?xs" and pv: "m \<noteq> 0 \<Longrightarrow> prev = last (0 # takeWhile (\<lambda>x. \<not> ?P x) ?xs)"
    using scan by (auto split: if_splits)
  have unf: "rtrequest e req entry s = (case req of
              SIOCDELRT \<Rightarrow> if m = 0 then Some (Some ESRCH, s) else Some (None, rt_delete e ?host ?k prev m s)
            | SIOCADDRT \<Rightarrow>
                if m \<noteq> 0 then Some (Some EEXIST, s)
                else (case rt_find_ifa e entry (rnet s) of None \<Rightarrow> None
                   | Some ifa \<Rightarrow> if ifa = 0 then Some (Some ENETUNREACH, s)
                     else (case m_get e (mbufs s) of (m, mb) \<Rightarrow>
                          if m = 0 then Some (Some ENOBUFS, s\<lparr>mbufs := mb\<rparr>)
                          else Some (None, rt_insert ?host ?k m hash entry (ifa_ifp (ifas (rnet s) ifa)) (s\<lparr>mbufs := mb\<rparr>))))
            | _ \<Rightarrow> Some (None, s))" if "?af < AF_MAX"
  proof -
    have "(AF_MAX \<le> ?af) = False" using that by simp
    then show ?thesis
      by (simp only: rtrequest_def Let_def ah prod.case hash_def [symmetric] sc option.case if_False)
  qed
  show ?thesis
  proof (cases "?af < AF_MAX")
    case False
    with inv show ?thesis by (auto simp: rtrequest_def Let_def)
  next
    case af: True
    note unf = unf [OF af]
    show ?thesis
    proof (cases req)
      case SIOCDELRT
      show ?thesis
      proof (cases "m = 0")
        case True
        with SIOCDELRT unf inv show ?thesis by auto
      next
        case False
        then obtain vs where "?xs = takeWhile (\<lambda>x. \<not> ?P x) ?xs @ m # vs" using first_with_split m by blast
        from rt_delete_inv [OF inv this sp pv [OF False]] SIOCDELRT unf False show ?thesis by auto
      qed
    next
      case SIOCADDRT
      obtain ifa where ifa: "rt_find_ifa e entry (rnet s) = Some ifa" using rt_find_ifa_returns [OF net] by blast
      obtain p mb where g: "m_get e (mbufs s) = (p, mb)" by fastforce
      have sg: "if p = 0 then live mb = live (mbufs s)
          else p \<notin> live (mbufs s) \<and> live mb = insert p (live (mbufs s))"
        using sp g unfolding mbuf_spec_def by (metis (mono_tags, lifting) case_prod_conv)
      have "rt_inv live (s\<lparr>mbufs := mb\<rparr>) T D R" if "p = 0"
        using inv that sg by (simp add: rt_inv_def tables_ok_def refs_ok_def)
      moreover have "rt_inv live (rt_insert ?host ?k p hash entry (ifa_ifp (ifas (rnet s) ifa)) (s\<lparr>mbufs := mb\<rparr>))
          (T((?host, ?k) := p # ?xs)) D R \<and> rnet (rt_insert ?host ?k p hash entry (ifa_ifp (ifas (rnet s) ifa)) (s\<lparr>mbufs := mb\<rparr>)) = rnet s" if "p \<noteq> 0"
        using that sg by (intro rt_insert_inv [OF inv]) auto
      moreover have "entries T \<subseteq> entries (T((?host, ?k) := p # ?xs))"
        unfolding entries_def by (auto split: if_splits)
      ultimately show ?thesis using SIOCADDRT unf ifa g inv
        by (cases "m \<noteq> 0"; cases "ifa = 0"; cases "p = 0") (auto simp del: fun_upd_apply)
    qed (use unf inv in auto)
  qed
qed

lemma rtinit_inv:
  assumes "rt_inv live s T D R" and "mbuf_spec live e" and "net_ok (rnet s) ifl al"
  shows "\<exists>s' T'. rtinit e dst gw SIOCADDRT fl s = Some s' \<and> rt_inv live s' T' D R \<and> rnet s' = rnet s
    \<and> entries T \<subseteq> entries T'"
  using rtrequest_inv [OF assms, of SIOCADDRT "\<lparr>rt_hash = 0, rt_dst = dst, rt_gateway = gw, rt_flags = fl,
       rt_refcnt = 0, rt_use = 0, rt_ifp = 0\<rparr>"] by (fastforce simp: rtinit_def)

section \<open>Redirects\<close>

lemma rt_smash_inv:
  assumes "rt_inv live s T D R" and "m \<in> entries T"
  shows "rt_inv live (rt_smash m gw s) T D R \<and> rnet (rt_smash m gw s) = rnet s"
proof -
  have "on (f OR RTF_MODIFIED) RTF_UP = on f RTF_UP" for f
  proof -
    have "RTF_MODIFIED AND RTF_UP = 0" by (simp add: RTF_UP_def RTF_MODIFIED_def)
    then show ?thesis unfolding on_def by (simp add: bit.conj_disj_distrib2)
  qed
  with assms show ?thesis by (auto simp: rt_smash_def rt_inv_def tables_ok_def refs_ok_def)
qed

lemma counters_inv [simp]:
  "rt_inv live (bad_redirect s) T D R = rt_inv live s T D R"
  "rt_inv live (count_dynamic s) T D R = rt_inv live s T D R"
  "rnet (bad_redirect s) = rnet s" "rnet (count_dynamic s) = rnet s"
  by (simp_all add: bad_redirect_def count_dynamic_def)

lemma rt_change_inv:
  assumes inv: "rt_inv live s T D (add_mset m R)" and sp: "mbuf_spec live e" and net: "net_ok (rnet s) ifl al"
    and m: "m \<in> entries T" and b: "size R < 32767"
  shows "\<exists>s' T' D'. rt_change e dst gw fl m s = Some s' \<and> rt_inv live s' T' D' R \<and> rnet s' = rnet s"
proof -
  let ?x = "if on (rt_flags (rts s m)) RTF_GATEWAY then
              (if \<not> on (rt_flags (rts s m)) RTF_HOST \<and> on fl RTF_HOST
               then map_option count_dynamic (rtinit e dst gw SIOCADDRT (fl OR RTF_DYNAMIC) s)
               else Some (rt_smash m gw s))
            else Some (bad_redirect s)"
  have "\<exists>s1 T1. ?x = Some s1 \<and> rt_inv live s1 T1 D (add_mset m R) \<and> rnet s1 = rnet s"
    using rtinit_inv [OF inv sp net, of dst gw "fl OR RTF_DYNAMIC"] rt_smash_inv [OF inv m] inv
    by (cases "on (rt_flags (rts s m)) RTF_GATEWAY";
        cases "\<not> on (rt_flags (rts s m)) RTF_HOST \<and> on fl RTF_HOST") auto
  then obtain s1 T1 where x: "?x = Some s1" and i: "rt_inv live s1 T1 D (add_mset m R)" and n: "rnet s1 = rnet s"
    by blast
  from rtfree_inv [OF i _ _ sp, of m] b n x show ?thesis unfolding rt_change_def by auto
qed

lemma rtredirect_inv:
  assumes inv: "rt_inv live s T D R" and sp: "mbuf_spec live e" and net: "net_ok (rnet s) ifl al"
    and b: "size R < 32767"
  shows "\<exists>s' T' D'. rtredirect e dst gw fl src s = Some s' \<and> rt_inv live s' T' D' R \<and> rnet s' = rnet s"
proof -
  obtain g where g: "ifa_ifwithnet (ifenv e) gw (rnet s) = Some g" using ifa_lookups_return [OF net] by blast
  show ?thesis
  proof (cases "g = 0")
    case True
    with g inv show ?thesis by (auto simp: rtredirect_def)
  next
    case False
    from rtalloc_inv [OF inv _ b, of "\<lparr>ro_rt = 0, ro_dst = dst\<rparr>" e] obtain ro s1 where
      al: "rtalloc e \<lparr>ro_rt = 0, ro_dst = dst\<rparr> s = Some (ro, s1)" and n1: "rnet s1 = rnet s"
      and i1: "rt_inv live s1 T D (if ro_rt ro = 0 then R else add_mset (ro_rt ro) R)"
      and e1: "ro_rt ro \<noteq> 0 \<longrightarrow> ro_rt ro \<in> entries T" by auto
    define m where "m = ro_rt ro"
    have i0: "rt_inv live s1 T D R" if "m = 0" using i1 that by (simp add: m_def)
    have im: "rt_inv live s1 T D (add_mset m R)" and em: "m \<in> entries T" if "m \<noteq> 0"
      using i1 e1 that by (simp_all add: m_def)
    obtain a where a: "(if m \<noteq> 0 \<and> src \<noteq> rt_gateway (rts s1 m) then Some 1
        else ifa_ifwithaddr gw (rnet s1)) = Some a"
      using ifa_lookups_return(1) [OF net, of gw] n1
      by (cases "m \<noteq> 0 \<and> src \<noteq> rt_gateway (rts s1 m)") auto
    let ?wild = "m \<noteq> 0 \<and> netmatch e (sa_family dst) wildcard (rt_dst (rts s1 m))"
    have eq: "rtredirect e dst gw fl src s =
      (if a \<noteq> 0 then (if m \<noteq> 0 then rtfree e m (bad_redirect s1) else Some (bad_redirect s1))
       else (case (if ?wild then rtfree e m s1 else Some s1) of None \<Rightarrow> None
         | Some s2 \<Rightarrow> if m = 0 \<or> ?wild
             then map_option count_dynamic (rtinit e dst gw SIOCADDRT ((fl AND RTF_HOST) OR RTF_GATEWAY OR RTF_DYNAMIC) s2)
             else rt_change e dst gw fl m s2))"
      using False by (simp only: rtredirect_def g al option.case prod.case Let_def m_def [symmetric] a if_False)
    have freed: "\<exists>s2 D2. rtfree e m t = Some s2 \<and> rt_inv live s2 T D2 R \<and> rnet s2 = rnet t"
      if "rt_inv live t T D (add_mset m R)" for t
      using rtfree_inv [OF that _ _ sp, of m] b by auto
    have init: "\<exists>s' T'. map_option count_dynamic (rtinit e dst gw SIOCADDRT f t) = Some s' \<and> rt_inv live s' T' D2 R
        \<and> rnet s' = rnet t" if "rt_inv live t T D2 R" "rnet t = rnet s" for t D2 f
      using rtinit_inv [OF that(1) sp, of ifl al dst gw f] net that(2) by auto
    consider "a \<noteq> 0" "m = 0" | "a \<noteq> 0" "m \<noteq> 0" | "a = 0" "m = 0" | "a = 0" "?wild" | "a = 0" "m \<noteq> 0" "\<not> ?wild" by blast
    then show ?thesis
    proof cases
      case 1
      with eq i0 n1 show ?thesis by auto
    next
      case 2
      with eq freed [of "bad_redirect s1"] im n1 show ?thesis by auto
    next
      case 3
      then have "rtredirect e dst gw fl src s = map_option count_dynamic
          (rtinit e dst gw SIOCADDRT ((fl AND RTF_HOST) OR RTF_GATEWAY OR RTF_DYNAMIC) s1)" using eq by simp
      with init [OF i0 n1] 3 n1 show ?thesis by metis
    next
      case 4
      then obtain s2 D2 where s2: "rtfree e m s1 = Some s2" "rt_inv live s2 T D2 R" "rnet s2 = rnet s"
        using freed [OF im] n1 by auto
      with 4 have "rtredirect e dst gw fl src s = map_option count_dynamic
          (rtinit e dst gw SIOCADDRT ((fl AND RTF_HOST) OR RTF_GATEWAY OR RTF_DYNAMIC) s2)" using eq by simp
      with init [OF s2(2,3)] s2(3) show ?thesis by metis
    next
      case 5
      with eq rt_change_inv [OF im sp _ em b, of ifl al dst gw fl] net n1 show ?thesis by auto
    qed
  qed
qed

section \<open>Histories\<close>

text \<open>
  A history of calls, with the references the callers hold.  A caller returns a reference it
  holds; the number of references stays below what the 16-bit counter can count.
\<close>

inductive rt_reach ::
  "('p, 'm) rt_env \<Rightarrow> ('p, 'm) rt_state \<Rightarrow> ('p, 'm) rt_state \<Rightarrow> ptr multiset \<Rightarrow> bool"
  for e s0 where
  start: "rt_reach e s0 s0 {#}"
| alloc: "rt_reach e s0 s R \<Longrightarrow> size R < 32767 \<Longrightarrow> rtalloc e \<lparr>ro_rt = 0, ro_dst = dst\<rparr> s = Some (ro, s')
    \<Longrightarrow> rt_reach e s0 s' (if ro_rt ro = 0 then R else add_mset (ro_rt ro) R)"
| free: "rt_reach e s0 s R \<Longrightarrow> m \<in># R \<Longrightarrow> rtfree e m s = Some s' \<Longrightarrow> rt_reach e s0 s' (R - {#m#})"
| request: "rt_reach e s0 s R \<Longrightarrow> rtrequest e req entry s = Some (err, s') \<Longrightarrow> rt_reach e s0 s' R"
| redirect: "rt_reach e s0 s R \<Longrightarrow> size R < 32767 \<Longrightarrow> rtredirect e dst gw fl src s = Some s' \<Longrightarrow> rt_reach e s0 s' R"

definition rt_initial :: "('p, 'm) rt_state \<Rightarrow> bool" where
  "rt_initial s \<longleftrightarrow> (\<forall>k. rthost s k = 0 \<and> rtnet s k = 0) \<and> rttrash s = 0
     \<and> (\<exists>ifl al. net_ok (rnet s) ifl al)"

lemma rt_initial_inv: "rt_initial s \<Longrightarrow> rt_inv live s (\<lambda>_. []) {} {#}"
  by (simp add: rt_initial_def rt_inv_def tables_ok_def apart_def refs_ok_def entries_def rtbucket_def)

lemma rt_reach_inv:
  assumes "rt_reach e s0 s R" and "rt_initial s0" and sp: "mbuf_spec live e"
  shows "(\<exists>T D. rt_inv live s T D R) \<and> rnet s = rnet s0 \<and> size R \<le> 32767"
  using assms(1)
proof (induction rule: rt_reach.induct)
  case start
  from rt_initial_inv [OF assms(2)] show ?case by auto
next
  case (alloc s R dst ro s')
  then obtain T D where "rt_inv live s T D R" by blast
  from rtalloc_inv [OF this, of "\<lparr>ro_rt = 0, ro_dst = dst\<rparr>" e] alloc
  have "rt_inv live s' T D (if ro_rt ro = 0 then R else add_mset (ro_rt ro) R)" "rnet s' = rnet s0" by auto
  moreover have "size (if ro_rt ro = 0 then R else add_mset (ro_rt ro) R) \<le> 32767" using alloc by auto
  ultimately show ?case by blast
next
  case (free s R m s')
  then obtain T D where i: "rt_inv live s T D R" and b: "size R \<le> 32767" by blast
  from rtfree_inv [OF i free.hyps(2) b sp] free show ?case by (auto simp: size_Diff_singleton)
next
  case (request s R req entry err s')
  then obtain T D where i: "rt_inv live s T D R" by blast
  obtain ifl al where "net_ok (rnet s) ifl al" using assms(2) request.IH by (auto simp: rt_initial_def)
  from rtrequest_inv [OF i sp this, of req entry] request show ?case by auto
next
  case (redirect s R dst gw fl src s')
  then obtain T D where i: "rt_inv live s T D R" by blast
  obtain ifl al where "net_ok (rnet s) ifl al" using assms(2) redirect.IH by (auto simp: rt_initial_def)
  from rtredirect_inv [OF i sp this redirect.hyps(2), of dst gw fl src] redirect show ?case by auto
qed

text \<open>
  (C13) \<^bold>\<open>No route is freed while it is referenced\<close>: after any history of lookups, releases,
  additions, deletions and redirects from empty tables, every route a caller holds is still
  allocated, its reference count is the number of references held, and \<open>rttrash\<close> is the number
  of deleted routes still waiting for their last reference.
\<close>

theorem route_references_safe:
  assumes "rt_reach e s0 s R" and "rt_initial s0" and "mbuf_spec live e"
  shows "(\<forall>m \<in># R. m \<in> live (mbufs s) \<and> rt_refcnt (rts s m) = int (count R m))
    \<and> rttrash s = int (card {m \<in> set_mset R. \<not> on (rt_flags (rts s m)) RTF_UP})"
proof -
  from rt_reach_inv [OF assms] obtain T D where i: "rt_inv live s T D R" by blast
  then have r: "refs_ok s (entries T) D R" and l: "entries T \<union> D \<subseteq> live (mbufs s)" by (auto simp: rt_inv_def)
  have "{m \<in> set_mset R. \<not> on (rt_flags (rts s m)) RTF_UP} = D" using r by (auto simp: refs_ok_def)
  moreover have "m \<in> entries T \<union> D" if "m \<in># R" for m using r that by (auto simp: refs_ok_def)
  moreover have "rttrash s = int (card D)" using r by (simp add: refs_ok_def)
  moreover have "rt_refcnt (rts s m) = int (count R m)" if "m \<in> entries T \<union> D" for m
    using r that unfolding refs_ok_def by blast
  ultimately show ?thesis using l by (metis subsetD)
qed

text \<open>The instance: mbufs numbered upwards, networks given by the first byte of an address.\<close>

definition demo_rt_env :: "(nat list, nat set) rt_env" where
  "demo_rt_env = \<lparr>ifenv = quiet_env\<lparr>af_netmatch := (\<lambda>f a b. hd (sa_data a) = hd (sa_data b))\<rparr>,
     af_hash = (\<lambda>f a. (3, 5)), m_get = (\<lambda>M. if finite M then (Suc (Max (insert 0 M)), insert (Suc (Max (insert 0 M))) M)
        else (0, M)), m_free = (\<lambda>p M. M - {p})\<rparr>"

definition demo_rt :: "(nat list, nat set) rt_state" where
  "demo_rt = \<lparr>rnet = demo_net, rthost = (\<lambda>_. 0), rtnet = (\<lambda>_. 0), rt_next = (\<lambda>_. 0),
     rts = (\<lambda>_. \<lparr>rt_hash = 0, rt_dst = wildcard, rt_gateway = wildcard, rt_flags = 0, rt_refcnt = 0,
        rt_use = 0, rt_ifp = 0\<rparr>), rttrash = 0,
     rstat = \<lparr>rts_badredirect = 0, rts_dynamic = 0, rts_newgateway = 0, rts_unreach = 0, rts_wildcard = 0\<rparr>,
     mbufs = {}\<rparr>"

lemma demo_mbuf_spec: "mbuf_spec (\<lambda>M. M) demo_rt_env"
proof -
  have "Suc (Max (insert 0 M)) \<notin> M" if "finite M" for M :: "nat set"
    using that by (metis Max_ge Suc_n_not_le_n finite_insert insertCI)
  then show ?thesis by (auto simp: mbuf_spec_def demo_rt_env_def)
qed

lemma demo_rt_initial: "rt_initial demo_rt"
  using demo_net_ok by (auto simp: rt_initial_def demo_rt_def)

definition demo_entry :: rtentry where
  "demo_entry = \<lparr>rt_hash = 0, rt_dst = \<lparr>sa_family = 2, sa_data = replicate 14 7\<rparr>,
     rt_gateway = \<lparr>sa_family = 2, sa_data = replicate 14 8\<rparr>, rt_flags = 0, rt_refcnt = 0, rt_use = 0, rt_ifp = 0\<rparr>"

theorem route_references_safe_witness:
  "\<exists>err s. rtrequest demo_rt_env SIOCADDRT demo_entry demo_rt = Some (err, s) \<and> rttrash s = 0"
proof -
  obtain err s T' D' where q: "rtrequest demo_rt_env SIOCADDRT demo_entry demo_rt = Some (err, s)"
    using rtrequest_inv [OF rt_initial_inv [OF demo_rt_initial] demo_mbuf_spec, of "[1, 2]" demo_al SIOCADDRT demo_entry]
      demo_net_ok by (auto simp: demo_rt_def)
  have "rt_reach demo_rt_env demo_rt s {#}" by (rule rt_reach.request [OF rt_reach.start q])
  from route_references_safe [OF this demo_rt_initial demo_mbuf_spec] q show ?thesis by simp
qed

section \<open>Properties of single calls\<close>

text \<open>
  (C27) \<^bold>\<open>The best route is chosen\<close>: a lookup returns; it prefers the first usable host route,
  then the first usable route to the network, then the wildcard route; the route it returns is
  up, on an interface that is up, and has one reference more.  Without a usable route the
  caller's route stays null and an unreachable lookup is counted.
\<close>

theorem rtalloc_best_route:
  assumes inv: "rt_inv live s T D R" and af: "sa_family dst < AF_MAX" and b: "size R < 32767"
    and l: "rt_lookup e s T dst = (m, w)"
  shows "\<exists>ro s'. rtalloc e \<lparr>ro_rt = 0, ro_dst = dst\<rparr> s = Some (ro, s') \<and> ro_rt ro = m \<and> ro_dst ro = dst
    \<and> (if m \<noteq> 0 then (\<exists>hash. rt_usable s hash m) \<and> rt_refcnt (rts s' m) = rt_refcnt (rts s m) + 1
         \<and> rt_inv live s' T D (add_mset m R)
       else rts_unreach (rstat s') = s16 (rts_unreach (rstat s) + 1) \<and> rt_inv live s' T D R)"
proof (cases "m = 0")
  case True
  with rtalloc_lookup [OF inv, of "\<lparr>ro_rt = 0, ro_dst = dst\<rparr>" e] af l inv show ?thesis by auto
next
  case False
  obtain ro s' where t: "rt_take w m \<lparr>ro_rt = 0, ro_dst = dst\<rparr> s = (ro, s')" by fastforce
  note en = rt_lookup_entry [OF l False]
  from rt_take_inv [OF inv _ b t] en have i: "rt_inv live s' T D (add_mset m R)" "ro = \<lparr>ro_rt = m, ro_dst = dst\<rparr>"
    by auto
  then have "rt_refcnt (rts s' m) = int (count (add_mset m R) m)" "rt_refcnt (rts s m) = int (count R m)"
    using inv en by (auto simp: rt_inv_def refs_ok_def)
  with rtalloc_lookup [OF inv, of "\<lparr>ro_rt = 0, ro_dst = dst\<rparr>" e] af l False t i en show ?thesis by auto
qed

theorem rtalloc_best_route_witness:
  "\<exists>ro s'. rtalloc demo_rt_env \<lparr>ro_rt = 0, ro_dst = rt_dst demo_entry\<rparr> demo_rt = Some (ro, s') \<and> ro_rt ro = 0"
proof -
  have l: "rt_lookup demo_rt_env demo_rt (\<lambda>_. []) (rt_dst demo_entry) = (0, True)" by (simp add: rt_lookup_def Let_def)
  have "sa_family (rt_dst demo_entry) < AF_MAX" by (simp add: demo_entry_def AF_MAX_def)
  from rtalloc_best_route [OF rt_initial_inv [OF demo_rt_initial, of "\<lambda>M. M"] this _ l] show ?thesis by auto
qed

text \<open>
  (C28) \<^bold>\<open>Adding and deleting a route\<close>: after a successful addition, adding the same route again
  is refused with \<open>EEXIST\<close> and changes nothing, and deleting it succeeds and restores both
  tables.
\<close>

theorem rtrequest_add_delete:
  assumes inv: "rt_inv live s T D R" and sp: "mbuf_spec live e"
    and add: "rtrequest e SIOCADDRT entry s = Some (None, s1)"
    and refl: "netmatch e (sa_family (rt_dst entry)) (rt_dst entry) (rt_dst entry)"
  shows "rtrequest e SIOCADDRT entry s1 = Some (Some EEXIST, s1)
    \<and> (\<exists>s2. rtrequest e SIOCDELRT entry s1 = Some (None, s2) \<and> rthost s2 = rthost s \<and> rtnet s2 = rtnet s)"
proof -
  let ?host = "on (rt_flags entry) RTF_HOST" and ?af = "sa_family (rt_dst entry)"
  obtain hh nh where ah: "af_hash e ?af (rt_dst entry) = (hh, nh)" by fastforce
  define hash where "hash = (if ?host then hh else nh)"
  let ?k = "RTHASHMOD hash"
  have af: "(AF_MAX \<le> ?af) = False" using add by (auto simp: rtrequest_def Let_def split: if_splits)
  from add obtain m mb ifa where m0: "m \<noteq> 0"
    and s1: "s1 = rt_insert ?host ?k m hash entry (ifa_ifp (ifas (rnet s) ifa)) (s\<lparr>mbufs := mb\<rparr>)"
    by (auto simp: rtrequest_def af ah Let_def hash_def split: option.splits if_splits prod.splits)
  have "rt_same e s1 entry hash m" using refl by (simp add: s1 rt_insert_def Let_def rt_same_def)
  moreover have "rtbucket s1 ?host ?k = m" by (simp add: s1 rt_insert_def Let_def)
  ultimately have sc: "rt_scan (rt_next s1) (rt_same e s1 entry hash) 0 (rtbucket s1 ?host ?k) = Some (0, m)"
    using m0 by (simp add: rt_scan.simps)
  have "rt_refcnt (rts s1 m) = 0" "rt_next s1 m = rtbucket s ?host ?k" by (simp_all add: s1 rt_insert_def Let_def)
  then have "rthost (rt_delete e ?host ?k 0 m s1) = rthost s" "rtnet (rt_delete e ?host ?k 0 m s1) = rtnet s"
    by (auto simp: rt_delete_def Let_def s1 rt_insert_def set_rtbucket_def rtbucket_def upd_rt_def)
  with m0 show ?thesis
    by (simp add: rtrequest_def af ah Let_def hash_def [symmetric] sc)
qed

theorem rtrequest_add_delete_witness:
  "\<exists>s1 s2. rtrequest demo_rt_env SIOCADDRT demo_entry demo_rt = Some (None, s1)
    \<and> rtrequest demo_rt_env SIOCDELRT demo_entry s1 = Some (None, s2) \<and> rtnet s2 = rtnet demo_rt"
proof -
  have z: "rt_scan nx P pr 0 = Some (pr, 0)" for nx P pr by (simp add: rt_scan.simps)
  have "ifa_ifwithaddr (rt_gateway demo_entry) demo_net = Some 11"
    by (simp add: ifa_ifwithaddr_def ifa_search.simps find_from.simps demo_net_def demo_if_def demo_addr_def
        demo_entry_def matches_addr_def equal_addr_def on_def IFF_BROADCAST_def)
  then have "rt_find_ifa demo_rt_env demo_entry demo_net = Some 11"
    by (simp add: rt_find_ifa_def demo_entry_def on_def)
  then have "\<exists>s1. rtrequest demo_rt_env SIOCADDRT demo_entry demo_rt = Some (None, s1)"
    by (simp add: rtrequest_def Let_def AF_MAX_def demo_rt_def rtbucket_def z demo_rt_env_def)
      (simp add: demo_entry_def)
  then obtain s1 where s1: "rtrequest demo_rt_env SIOCADDRT demo_entry demo_rt = Some (None, s1)" by blast
  from rtrequest_add_delete [OF rt_initial_inv [OF demo_rt_initial] demo_mbuf_spec s1] s1 show ?thesis
    by (auto simp: netmatch_def demo_rt_env_def)
qed

end
