(* ===== verification/Net_Slip.thy ===== *)
theory Net_Slip
  imports Net_If_Props
begin

text \<open>
  The serial-line IP driver, \<open>kernel/net/if_sl.c\<close>: attaching the units, opening and closing
  a line, queueing and framing of output, and the receiver interrupt.  The network interface
  embedded in a unit lives in the interface map of \<open>Net_If\<close> at the address \<open>sc_ifp\<close>.  A
  packet is the pointer of its first mbuf; \<open>m_dat\<close> gives the data of the mbufs of its chain.
  The terminal line's character queue (\<open>putc\<close>, \<open>b_to_q\<close>, \<open>unputc\<close>), the line's own
  start and flush routines and the mbuf sizes are arguments, gathered in \<open>sl_env\<close>.  The
  results of the successive mbuf allocations of the receiver are a list, \<open>grants\<close>: each is
  the mbuf (0 for a failure) and the contents of the cluster page the cluster allocation
  attached to it, if it succeeded.
\<close>

unbundle bit_operations_syntax

section \<open>State\<close>

definition SLMTU :: int where "SLMTU = 1006"
definition SLIP_HIWAT :: int where "SLIP_HIWAT = 1000"
definition CLISTRESERVE :: int where "CLISTRESERVE = 1000"
definition SC_ESCAPED :: flags where "SC_ESCAPED = 0x1"

definition FRAME_END :: byte where "FRAME_END = 0xc0"
definition FRAME_ESCAPE :: byte where "FRAME_ESCAPE = 0xdb"
definition TRANS_FRAME_END :: byte where "TRANS_FRAME_END = 0xdc"
definition TRANS_FRAME_ESCAPE :: byte where "TRANS_FRAME_ESCAPE = 0xdd"

text \<open>
  \<open>sc_buf\<close> is the contents of the input page (\<open>None\<close> for the null pointer) and \<open>sc_mp\<close>
  the offset of the next free character in it.
\<close>

record sl_softc =
  sc_ifp :: ptr
  sc_flags :: flags
  sc_ilen :: int
  sc_ttyp :: ptr
  sc_mp :: nat
  sc_buf :: "byte list option"

record 'q tty =
  t_line :: nat
  t_sc :: "nat option"
  t_carr_on :: bool
  t_outq :: 'q

type_synonym grant = "ptr \<times> byte list option"

record ('p, 'q) sl_state =
  slnet :: "'p net"
  softc :: "sl_softc list"
  ttys :: "ptr \<Rightarrow> 'q tty"
  m_act :: "ptr \<Rightarrow> ptr"
  m_dat :: "ptr \<Rightarrow> byte list list"
  ipintrq :: ifqueue
  netisr_ip :: bool
  tk_nin :: int
  grants :: "grant list"
  freed :: "ptr list"

record ('p, 'q) sl_env =
  sl_ifenv :: "'p if_env"
  c_cc :: "'q \<Rightarrow> int"
  putc :: "byte \<Rightarrow> 'q \<Rightarrow> bool \<times> 'q"
  b_to_q :: "byte list \<Rightarrow> 'q \<Rightarrow> nat \<times> 'q"
  unputc :: "'q \<Rightarrow> 'q"
  ttstart :: "'q tty \<Rightarrow> 'q tty"
  ttyflush :: "'q tty \<Rightarrow> 'q tty"
  ttywflush :: "'q tty \<Rightarrow> 'q tty"
  cfreecount :: "'q \<Rightarrow> int"
  SLIPDISC :: nat
  MLEN :: nat
  NBPG :: nat
  MCLBYTES :: nat
  slioctl_proc :: ptr

definition upd_sc :: "nat \<Rightarrow> (sl_softc \<Rightarrow> sl_softc) \<Rightarrow> ('p, 'q) sl_state \<Rightarrow> ('p, 'q) sl_state" where
  "upd_sc u f s = s\<lparr>softc := (softc s)[u := f (softc s ! u)]\<rparr>"

definition upd_tty :: "ptr \<Rightarrow> ('q tty \<Rightarrow> 'q tty) \<Rightarrow> ('p, 'q) sl_state \<Rightarrow> ('p, 'q) sl_state" where
  "upd_tty tp f s = s\<lparr>ttys := (ttys s)(tp := f (ttys s tp))\<rparr>"

text \<open>The interface structure of unit \<open>u\<close>.\<close>

definition sc_if :: "('p, 'q) sl_state \<Rightarrow> nat \<Rightarrow> ifnet" where
  "sc_if s u = ifs (slnet s) (sc_ifp (softc s ! u))"

definition upd_sc_if :: "nat \<Rightarrow> (ifnet \<Rightarrow> ifnet) \<Rightarrow> ('p, 'q) sl_state \<Rightarrow> ('p, 'q) sl_state" where
  "upd_sc_if u f s = s\<lparr>slnet := upd_if (sc_ifp (softc s ! u)) f (slnet s)\<rparr>"

definition m_freem :: "ptr \<Rightarrow> ('p, 'q) sl_state \<Rightarrow> ('p, 'q) sl_state" where
  "m_freem m s = s\<lparr>freed := m # freed s\<rparr>"

section \<open>Attaching, opening, closing\<close>

definition slattach_unit :: "('p, 'q) sl_env \<Rightarrow> nat \<Rightarrow> ('p, 'q) sl_state \<Rightarrow> ('p, 'q) sl_state option" where
  "slattach_unit e i s =
     (let s1 = upd_sc_if i (\<lambda>f. f\<lparr>if_name := ''sl'', if_unit := int i, if_mtu := SLMTU,
                 if_flags := IFF_POINTOPOINT, if_ioctl := slioctl_proc e,
                 if_snd := (if_snd f)\<lparr>ifq_maxlen := IFQ_MAXLEN\<rparr>\<rparr>) s
      in map_option (\<lambda>n. s1\<lparr>slnet := n\<rparr>) (if_attach (sc_ifp (softc s ! i)) (slnet s1)))"

fun slattach_from :: "('p, 'q) sl_env \<Rightarrow> nat list \<Rightarrow> ('p, 'q) sl_state \<Rightarrow> ('p, 'q) sl_state option" where
  "slattach_from e [] s = Some s"
| "slattach_from e (i # is) s =
     (case slattach_unit e i s of None \<Rightarrow> None | Some s1 \<Rightarrow> slattach_from e is s1)"

definition slattach :: "('p, 'q) sl_env \<Rightarrow> ('p, 'q) sl_state \<Rightarrow> ('p, 'q) sl_state option" where
  "slattach e s = slattach_from e [0..<length (softc s)] s"

text \<open>\<open>page\<close> is the outcome of the cluster allocation.\<close>

definition slinit :: "byte list option \<Rightarrow> nat \<Rightarrow> ('p, 'q) sl_state \<Rightarrow> bool \<times> ('p, 'q) sl_state" where
  "slinit page u s =
     (if sc_buf (softc s ! u) = None then
        (case page of
           Some p \<Rightarrow> (True, upd_sc u (\<lambda>c. c\<lparr>sc_buf := Some p, sc_mp := 4\<rparr>) s)
         | None \<Rightarrow> (False, upd_sc_if u (\<lambda>f. f\<lparr>if_flags := if_flags f AND NOT IFF_UP\<rparr>) s))
      else (True, s))"

fun first_free :: "sl_softc list \<Rightarrow> nat \<Rightarrow> nat option" where
  "first_free [] i = None"
| "first_free (c # cs) i = (if sc_ttyp c = 0 then Some i else first_free cs (i + 1))"

definition slopen ::
  "('p, 'q) sl_env \<Rightarrow> bool \<Rightarrow> byte list option \<Rightarrow> ptr \<Rightarrow> ('p, 'q) sl_state \<Rightarrow> errno option \<times> ('p, 'q) sl_state" where
  "slopen e suser page tp s =
     (if \<not> suser then (Some EPERM, s)
      else if t_line (ttys s tp) = SLIPDISC e then (Some EBUSY, s)
      else
        (case first_free (softc s) 0 of None \<Rightarrow> (Some ENXIO, s)
         | Some u \<Rightarrow>
           (let s1 = upd_sc u (\<lambda>c. c\<lparr>sc_flags := 0, sc_ilen := 0\<rparr>) s in
            case slinit page u s1 of (ok, s2) \<Rightarrow>
              if \<not> ok then (Some ENOBUFS, s2)
              else
                (let s3 = upd_tty tp (\<lambda>t. t\<lparr>t_sc := Some u\<rparr>) s2;
                     s4 = upd_sc u (\<lambda>c. c\<lparr>sc_ttyp := tp\<rparr>) s3
                 in (None, upd_tty tp (ttyflush e) s4)))))"

definition slclose :: "('p, 'q) sl_env \<Rightarrow> ptr \<Rightarrow> ('p, 'q) sl_state \<Rightarrow> ('p, 'q) sl_state option" where
  "slclose e tp s =
     (let s1 = upd_tty tp (\<lambda>t. t\<lparr>t_line := 0\<rparr>) (upd_tty tp (ttywflush e) s) in
      case t_sc (ttys s1 tp) of None \<Rightarrow> Some s1
      | Some u \<Rightarrow>
        (case if_down (sl_ifenv e) (sc_ifp (softc s1 ! u)) (slnet s1) of None \<Rightarrow> None
         | Some n \<Rightarrow>
           (let s2 = s1\<lparr>slnet := n\<rparr>; s3 = upd_sc u (\<lambda>c. c\<lparr>sc_ttyp := 0\<rparr>) s2;
                s4 = upd_tty tp (\<lambda>t. t\<lparr>t_sc := None\<rparr>) s3
            in Some (upd_sc u (\<lambda>c. c\<lparr>sc_buf := None\<rparr>) s4))))"

text \<open>\<open>None\<close> as an error code stands for the value -1, an ioctl that is not for this line.\<close>

definition sltioctl :: "ptr \<Rightarrow> ioctl_cmd \<Rightarrow> ('p, 'q) sl_state \<Rightarrow> int option" where
  "sltioctl tp cmd s =
     (if cmd = TIOCGETD then map_option (\<lambda>u. if_unit (sc_if s u)) (t_sc (ttys s tp)) else None)"

section \<open>Output\<close>

text \<open>The VAX instruction \<open>locc\<close>: the number of bytes left from the first occurrence on.\<close>

definition locc :: "byte \<Rightarrow> byte list \<Rightarrow> nat" where
  "locc c bs = length (dropWhile (\<lambda>b. b \<noteq> c) bs)"

lemma locc_le: "locc c bs \<le> length bs"
  by (simp add: locc_def length_dropWhile_le)

text \<open>The inner loop of \<open>slstart\<close>: one mbuf, run by run, special characters escaped.\<close>

function send_mbuf :: "('p, 'q) sl_env \<Rightarrow> byte list \<Rightarrow> 'q \<Rightarrow> 'q" where
  "send_mbuf e bs q =
     (if bs = [] then q
      else
        (let n = length bs - max (locc FRAME_ESCAPE bs) (locc FRAME_END bs);
             (left, q1) = (if n \<noteq> 0 then b_to_q e (take n bs) q else (0, q))
         in if left \<noteq> 0 then q1
            else
              (case drop n bs of [] \<Rightarrow> q1
               | c # rest \<Rightarrow>
                 (case putc e FRAME_ESCAPE q1 of (err1, q2) \<Rightarrow>
                    if err1 then q2
                    else
                      (case putc e (if c = FRAME_ESCAPE then TRANS_FRAME_ESCAPE else TRANS_FRAME_END) q2 of
                         (err2, q3) \<Rightarrow> if err2 then unputc e q3 else send_mbuf e rest q3)))))"
  by pat_completeness auto
termination
proof (relation "measure (\<lambda>(e, bs, q). length bs)")
  fix e :: "('p, 'q) sl_env" and bs :: "byte list" and q x y z c and rest :: "byte list"
    and x1 y1 z1 x2 y2
  assume "drop x bs = c # rest"
  then have "length (drop x bs) = Suc (length rest)" by simp
  then show "((e, rest, y2), (e, bs, q)) \<in> measure (\<lambda>(e, bs, q). length bs)" by simp
qed auto

declare send_mbuf.simps [simp del]

definition send_packet :: "('p, 'q) sl_env \<Rightarrow> byte list list \<Rightarrow> 'q \<Rightarrow> bool \<times> 'q" where
  "send_packet e ms q =
     (let q1 = (if c_cc e q = 0 then snd (putc e FRAME_END q) else q);
          q2 = fold (send_mbuf e) ms q1
      in case putc e FRAME_END q2 of (err, q3) \<Rightarrow>
           if err then (True, snd (putc e FRAME_END (unputc e q3))) else (False, q3))"

text \<open>The frees of the single mbufs of a sent chain are the free of the packet.\<close>

partial_function (option) slstart_loop ::
  "('p, 'q) sl_env \<Rightarrow> ptr \<Rightarrow> nat option \<Rightarrow> ('p, 'q) sl_state \<Rightarrow> ('p, 'q) sl_state option" where
  "slstart_loop e tp sc s =
     (let s1 = (if c_cc e (t_outq (ttys s tp)) > 0 then upd_tty tp (ttstart e) s else s);
          q = t_outq (ttys s1 tp)
      in if c_cc e q > SLIP_HIWAT then Some s1
         else
           (case sc of None \<Rightarrow> Some s1
            | Some u \<Rightarrow>
              if cfreecount e q < CLISTRESERVE + SLMTU \<and> c_cc e q \<noteq> 0 then Some s1
              else
                (case IF_DEQUEUE (m_act s1) (if_snd (sc_if s1 u)) of (act, snd_q, m) \<Rightarrow>
                   let s2 = upd_sc_if u (\<lambda>f. f\<lparr>if_snd := snd_q\<rparr>) (s1\<lparr>m_act := act\<rparr>)
                   in if m = 0 then Some s2
                      else
                        (case send_packet e (m_dat s2 m) q of (coll, q') \<Rightarrow>
                           slstart_loop e tp sc
                             (m_freem m (upd_sc_if u (\<lambda>f. if coll then f\<lparr>if_collisions := if_collisions f + 1\<rparr>
                                                        else f\<lparr>if_opackets := if_opackets f + 1\<rparr>)
                                (upd_tty tp (\<lambda>t. t\<lparr>t_outq := q'\<rparr>) s2)))))))"

text \<open>The pointer to the unit is read once, before the loop.\<close>

definition slstart :: "('p, 'q) sl_env \<Rightarrow> ptr \<Rightarrow> ('p, 'q) sl_state \<Rightarrow> ('p, 'q) sl_state option" where
  "slstart e tp s = slstart_loop e tp (t_sc (ttys s tp)) s"

definition sloutput ::
  "('p, 'q) sl_env \<Rightarrow> ptr \<Rightarrow> ptr \<Rightarrow> sockaddr \<Rightarrow> ('p, 'q) sl_state \<Rightarrow> (errno option \<times> ('p, 'q) sl_state) option" where
  "sloutput e ifp m dst s =
     (if sa_family dst \<noteq> AF_INET then Some (Some EAFNOSUPPORT, m_freem m s)
      else
        (let u = nat (if_unit (ifs (slnet s) ifp)); tp = sc_ttyp (softc s ! u) in
         if tp = 0 then Some (Some ENETDOWN, m_freem m s)
         else if \<not> t_carr_on (ttys s tp) then Some (Some EHOSTUNREACH, m_freem m s)
         else if IF_QFULL (if_snd (ifs (slnet s) ifp)) then
           (let s1 = s\<lparr>slnet := upd_if ifp (\<lambda>f. f\<lparr>if_snd := IF_DROP (if_snd f)\<rparr>) (slnet s)\<rparr>
            in Some (Some ENOBUFS, upd_sc_if u (\<lambda>f. f\<lparr>if_oerrors := if_oerrors f + 1\<rparr>) (m_freem m s1)))
         else
           (case IF_ENQUEUE (m_act s) (if_snd (ifs (slnet s) ifp)) m of (act, snd_q) \<Rightarrow>
              let s1 = s\<lparr>m_act := act, slnet := upd_if ifp (\<lambda>f. f\<lparr>if_snd := snd_q\<rparr>) (slnet s)\<rparr>
              in if c_cc e (t_outq (ttys s1 tp)) = 0
                 then map_option (\<lambda>s2. (None, s2)) (slstart e tp s1)
                 else Some (None, s1))))"

section \<open>Input\<close>

definition ptr_bytes :: "ptr \<Rightarrow> byte list" where
  "ptr_bytes p = [of_nat p, of_nat (p div 256), of_nat (p div 65536), of_nat (p div 16777216)]"

text \<open>
  The loop of \<open>sl_btom\<close>: \<open>cp\<close> is the offset in the page, \<open>ifp\<close> the interface pointer to
  be put in front of the data (0 once it is written).  When a cluster is attached, the input
  page becomes the data page of the mbuf, read from its start, and the cluster the input page.
\<close>

fun sl_btom_loop ::
  "('p, 'q) sl_env \<Rightarrow> grant list \<Rightarrow> byte list \<Rightarrow> nat \<Rightarrow> nat \<Rightarrow> ptr \<Rightarrow> byte list list
     \<Rightarrow> byte list list option \<times> byte list \<times> grant list" where
  "sl_btom_loop e gs buf cp 0 ifp acc = (Some acc, buf, gs)"
| "sl_btom_loop e [] buf cp (Suc l) ifp acc = (None, buf, [])"
| "sl_btom_loop e ((p, cl) # gs) buf cp (Suc l) ifp acc =
     (if p = 0 then (None, buf, gs)
      else
        (let len = Suc l; hdr = (if ifp \<noteq> 0 then ptr_bytes ifp else []);
             (dat, count, buf', cp') =
               (case (if len \<ge> NBPG e then cl else None) of
                  Some page \<Rightarrow>
                    (if ifp \<noteq> 0
                     then (let c = min len (MCLBYTES e - 4) in (take c (drop 4 buf), c, page, c))
                     else (let c = min len (MCLBYTES e) in (take c buf, c, page, c)))
                | None \<Rightarrow>
                    (let c = (if ifp \<noteq> 0 then min len (MLEN e - 4) else min len (MLEN e))
                     in (take c (drop cp buf), c, buf, cp + c)))
         in sl_btom_loop e gs buf' cp' (len - count) 0 (acc @ [hdr @ dat])))"

definition sl_btom ::
  "('p, 'q) sl_env \<Rightarrow> nat \<Rightarrow> ('p, 'q) sl_state \<Rightarrow> ptr \<times> ('p, 'q) sl_state" where
  "sl_btom e u s =
     (let c = softc s ! u; len = nat (sc_ilen c); top = (case grants s of [] \<Rightarrow> 0 | (p, _) # _ \<Rightarrow> p) in
      case sl_btom_loop e (grants s) (the (sc_buf c)) 4 len (sc_ifp c) [] of
        (r, buf, gs) \<Rightarrow>
          (let s1 = upd_sc u (\<lambda>c. c\<lparr>sc_buf := Some buf\<rparr>) (s\<lparr>grants := gs\<rparr>) in
           case r of
             None \<Rightarrow> (0, if top = 0 then s1 else m_freem top s1)
           | Some ms \<Rightarrow> (top, s1\<lparr>m_dat := (m_dat s1)(top := ms)\<rparr>)))"

definition sl_store :: "nat \<Rightarrow> byte \<Rightarrow> ('p, 'q) sl_state \<Rightarrow> ('p, 'q) sl_state" where
  "sl_store u c s =
     (let s1 = upd_sc u (\<lambda>x. x\<lparr>sc_ilen := sc_ilen x + 1\<rparr>) s in
      if sc_ilen (softc s1 ! u) > SLMTU
      then upd_sc u (\<lambda>x. x\<lparr>sc_mp := 4, sc_ilen := 0\<rparr>)
             (upd_sc_if u (\<lambda>f. f\<lparr>if_ierrors := if_ierrors f + 1\<rparr>) s1)
      else upd_sc u (\<lambda>x. x\<lparr>sc_buf := map_option (\<lambda>b. b[sc_mp x := c]) (sc_buf x), sc_mp := sc_mp x + 1\<rparr>) s1)"

definition sl_deliver :: "('p, 'q) sl_env \<Rightarrow> nat \<Rightarrow> ('p, 'q) sl_state \<Rightarrow> ('p, 'q) sl_state" where
  "sl_deliver e u s =
     (if sc_ilen (softc s ! u) = 0 then s
      else
        (case sl_btom e u s of (m, s1) \<Rightarrow>
           if m = 0 then upd_sc_if u (\<lambda>f. f\<lparr>if_ierrors := if_ierrors f + 1\<rparr>) s1
           else
             (let s2 = upd_sc_if u (\<lambda>f. f\<lparr>if_ipackets := if_ipackets f + 1\<rparr>)
                         (upd_sc u (\<lambda>x. x\<lparr>sc_mp := 4, sc_ilen := 0\<rparr>) s1)
              in if IF_QFULL (ipintrq s2)
                 then m_freem m (upd_sc_if u (\<lambda>f. f\<lparr>if_ierrors := if_ierrors f + 1\<rparr>)
                        (s2\<lparr>ipintrq := IF_DROP (ipintrq s2)\<rparr>))
                 else (case IF_ENQUEUE (m_act s2) (ipintrq s2) m of (act, q) \<Rightarrow>
                         s2\<lparr>m_act := act, ipintrq := q, netisr_ip := True\<rparr>))))"

definition slinput :: "('p, 'q) sl_env \<Rightarrow> byte \<Rightarrow> ptr \<Rightarrow> ('p, 'q) sl_state \<Rightarrow> ('p, 'q) sl_state" where
  "slinput e c tp s0 =
     (let s = s0\<lparr>tk_nin := tk_nin s0 + 1\<rparr> in
      case t_sc (ttys s tp) of None \<Rightarrow> s
      | Some u \<Rightarrow>
        if on (sc_flags (softc s ! u)) SC_ESCAPED then
          (let s1 = upd_sc u (\<lambda>x. x\<lparr>sc_flags := sc_flags x AND NOT SC_ESCAPED\<rparr>) s in
           if c = TRANS_FRAME_ESCAPE then sl_store u FRAME_ESCAPE s1
           else if c = TRANS_FRAME_END then sl_store u FRAME_END s1
           else upd_sc u (\<lambda>x. x\<lparr>sc_mp := 4, sc_ilen := 0\<rparr>)
                  (upd_sc_if u (\<lambda>f. f\<lparr>if_ierrors := if_ierrors f + 1\<rparr>) s1))
        else if c = FRAME_END then sl_deliver e u s
        else if c = FRAME_ESCAPE then upd_sc u (\<lambda>x. x\<lparr>sc_flags := sc_flags x OR SC_ESCAPED\<rparr>) s
        else sl_store u c s)"

section \<open>Interface ioctls\<close>

definition slioctl :: "ptr \<Rightarrow> ioctl_cmd \<Rightarrow> ifaddr \<Rightarrow> 'p net \<Rightarrow> errno option \<times> 'p net" where
  "slioctl ifp cmd ifa n =
     (case cmd of
        SIOCSIFADDR \<Rightarrow>
          if sa_family (ifa_addr ifa) = AF_INET
          then (None, upd_if ifp (\<lambda>f. f\<lparr>if_flags := if_flags f OR IFF_UP\<rparr>) n)
          else (Some EAFNOSUPPORT, n)
      | SIOCSIFDSTADDR \<Rightarrow>
          (if sa_family (ifa_addr ifa) \<noteq> AF_INET then Some EAFNOSUPPORT else None, n)
      | _ \<Rightarrow> (Some EINVAL, n))"

end
