(* ===== verification/Net_Slip_Props.thy ===== *)
theory Net_Slip_Props
  imports Net_Slip
begin

text \<open>
  Properties of the serial-line driver: the framing of output and the receiver are inverse to
  each other, the copy of a received packet into mbufs, the error paths of output, and the
  attachment of lines to units.
\<close>

unbundle bit_operations_syntax

section \<open>Framing of output\<close>

definition esc :: "byte \<Rightarrow> byte list" where
  "esc b = (if b = FRAME_END then [FRAME_ESCAPE, TRANS_FRAME_END]
            else if b = FRAME_ESCAPE then [FRAME_ESCAPE, TRANS_FRAME_ESCAPE] else [b])"

definition encode :: "byte list \<Rightarrow> byte list" where
  "encode bs = concat (map esc bs)"

lemma encode_simps [simp]: "encode [] = []" "encode (b # bs) = esc b @ encode bs" "encode (xs @ ys) = encode xs @ encode ys"
  by (simp_all add: encode_def)

definition plain :: "byte \<Rightarrow> bool" where
  "plain b \<longleftrightarrow> b \<noteq> FRAME_ESCAPE \<and> b \<noteq> FRAME_END"

lemma encode_plain: "\<forall>b \<in> set bs. plain b \<Longrightarrow> encode bs = bs"
  by (induction bs) (auto simp: esc_def plain_def)

text \<open>
  What the character queue promises: \<open>cont\<close> is its contents and \<open>room\<close> the number of characters for
  which there is space, in its last block and on the free list.  \<open>putc\<close> appends a character or fails
  when there is no space; \<open>b_to_q\<close> appends what fits and returns the number of characters left over.
\<close>

definition clist_ok :: "('p, 'q) sl_env \<Rightarrow> ('q \<Rightarrow> byte list) \<Rightarrow> ('q \<Rightarrow> nat) \<Rightarrow> bool" where
  "clist_ok e cont room \<longleftrightarrow>
     (\<forall>c q. \<exists>q'. putc e c q = (room q = 0, q') \<and> cont q' = cont q @ take (room q) [c] \<and> room q' = room q - 1)
     \<and> (\<forall>xs q. \<exists>q'. b_to_q e xs q = (length xs - room q, q') \<and> cont q' = cont q @ take (room q) xs
           \<and> room q' = room q - length xs)
     \<and> (\<forall>q. c_cc e q = int (length (cont q)))"

lemma clist_putc:
  assumes "clist_ok e cont room" and "0 < room q"
  shows "\<exists>q'. putc e c q = (False, q') \<and> cont q' = cont q @ [c] \<and> room q' = room q - 1"
proof -
  have "\<exists>q'. putc e c q = (room q = 0, q') \<and> cont q' = cont q @ take (room q) [c] \<and> room q' = room q - 1"
    using assms(1) by (simp add: clist_ok_def)
  moreover have "take (room q) [c] = [c]" using assms(2) by simp
  ultimately show ?thesis using assms(2) by auto
qed

lemma clist_run:
  assumes "clist_ok e cont room" and "length xs \<le> room q"
  shows "\<exists>q'. b_to_q e xs q = (0, q') \<and> cont q' = cont q @ xs \<and> room q' = room q - length xs"
proof -
  have "\<exists>q'. b_to_q e xs q = (length xs - room q, q') \<and> cont q' = cont q @ take (room q) xs \<and> room q' = room q - length xs"
    using assms(1) by (simp add: clist_ok_def)
  then show ?thesis using assms(2) by simp
qed

lemma locc_run: "length bs - max (locc FRAME_ESCAPE bs) (locc FRAME_END bs) = length (takeWhile plain bs)"
  by (induction bs) (auto simp: locc_def plain_def max_def Suc_diff_le length_dropWhile_le)

lemma send_mbuf_frames:
  assumes "clist_ok e cont room" and "length (encode bs) \<le> room q"
  shows "cont (send_mbuf e bs q) = cont q @ encode bs \<and> room (send_mbuf e bs q) = room q - length (encode bs)"
  using assms(2)
proof (induction "length bs" arbitrary: bs q rule: less_induct)
  case less
  let ?p = "takeWhile plain bs"
  have t: "take (length ?p) bs = ?p" "drop (length ?p) bs = dropWhile plain bs"
    by (metis takeWhile_eq_take) (simp add: dropWhile_eq_drop)
  have split: "bs = ?p @ dropWhile plain bs" by simp
  have p: "encode ?p = ?p" by (rule encode_plain) (auto dest: set_takeWhileD)
  have eb: "encode bs = ?p @ encode (dropWhile plain bs)" using split p by (metis encode_simps(3))
  then have "length ?p \<le> room q" using less.prems by simp
  from clist_run [OF assms(1) this]
  obtain q1 where q1: "(if length ?p \<noteq> 0 then b_to_q e ?p q else (0, q)) = (0, q1)" and c1: "cont q1 = cont q @ ?p"
    and m1: "room q1 = room q - length ?p" by (cases "?p = []") auto
  show ?case
  proof (cases "dropWhile plain bs")
    case Nil
    have "send_mbuf e bs q = q1"
    proof (cases "bs = []")
      case True
      with q1 show ?thesis by (simp add: send_mbuf.simps)
    next
      case False
      then show ?thesis
        by (simp only: send_mbuf.simps [of e bs] locc_run Let_def t q1 Nil prod.case list.case if_False not_not simp_thms)
    qed
    then show ?thesis using c1 m1 eb Nil by simp
  next
    case (Cons c rest)
    then have np: "\<not> plain c" using hd_dropWhile [of plain bs] by auto
    let ?t = "if c = FRAME_ESCAPE then TRANS_FRAME_ESCAPE else TRANS_FRAME_END"
    have ec: "esc c = [FRAME_ESCAPE, ?t]"
      using np by (auto simp: esc_def plain_def FRAME_END_def FRAME_ESCAPE_def)
    then have el: "length (encode bs) = length ?p + 2 + length (encode rest)" using eb Cons by simp
    have r1: "0 < room q1" using m1 el less.prems by simp
    from clist_putc [OF assms(1) r1] obtain q2 where
      q2: "putc e FRAME_ESCAPE q1 = (False, q2)" "cont q2 = cont q1 @ [FRAME_ESCAPE]" "room q2 = room q1 - 1" by blast
    have r2: "0 < room q2" using q2(3) m1 el less.prems by simp
    from clist_putc [OF assms(1) r2] obtain q3 where
      q3: "putc e ?t q2 = (False, q3)" "cont q3 = cont q2 @ [?t]" "room q3 = room q2 - 1" by blast
    have ne: "bs \<noteq> []" using Cons by auto
    have "send_mbuf e bs q = send_mbuf e rest q3"
      using ne by (simp only: send_mbuf.simps [of e bs] locc_run Let_def t q1 q2(1) q3(1) Cons prod.case list.case
          if_False not_not simp_thms)
    moreover have "length bs = length ?p + Suc (length rest)" using split Cons by (metis length_Cons length_append)
    then have "length rest < length bs" by simp
    moreover have "length (encode rest) \<le> room q3" using q3(3) q2(3) m1 el less.prems by simp
    ultimately show ?thesis using less.hyps [of rest q3] c1 m1 q2 q3 eb Cons ec by simp
  qed
qed

lemma send_mbufs_frames:
  assumes "clist_ok e cont room" and "length (encode (concat ms)) \<le> room q"
  shows "cont (fold (send_mbuf e) ms q) = cont q @ encode (concat ms)
    \<and> room (fold (send_mbuf e) ms q) = room q - length (encode (concat ms))"
  using assms(2)
proof (induction ms arbitrary: q)
  case Nil
  then show ?case by simp
next
  case (Cons b ms)
  then have b: "length (encode b) \<le> room q" by simp
  show ?case using send_mbuf_frames [OF assms(1) b] Cons.IH [of "send_mbuf e b q"] Cons.prems by simp
qed

lemma send_packet_frames:
  assumes "clist_ok e cont room" and "length (encode (concat ms)) + 2 \<le> room q"
  shows "\<exists>q'. send_packet e ms q = (False, q')
    \<and> cont q' = cont q @ (if cont q = [] then [FRAME_END] else []) @ encode (concat ms) @ [FRAME_END]"
proof -
  let ?q1 = "if c_cc e q = 0 then snd (putc e FRAME_END q) else q"
  have cc: "c_cc e q = 0 \<longleftrightarrow> cont q = []" using assms(1) by (simp add: clist_ok_def)
  have "0 < room q" using assms(2) by simp
  from clist_putc [OF assms(1) this] obtain qa where
    "putc e FRAME_END q = (False, qa)" "cont qa = cont q @ [FRAME_END]" "room qa = room q - 1" by blast
  then have c1: "cont ?q1 = cont q @ (if cont q = [] then [FRAME_END] else [])" and m1: "room q - 1 \<le> room ?q1" using cc by auto
  have l: "length (encode (concat ms)) \<le> room ?q1" using m1 assms(2) by linarith
  note f = send_mbufs_frames [OF assms(1) l]
  then have "0 < room (fold (send_mbuf e) ms ?q1)" using m1 assms(2) by linarith
  from clist_putc [OF assms(1) this] obtain q3 where "putc e FRAME_END (fold (send_mbuf e) ms ?q1) = (False, q3)"
    "cont q3 = cont (fold (send_mbuf e) ms ?q1) @ [FRAME_END]" by blast
  with f c1 show ?thesis by (simp add: send_packet_def Let_def)
qed

section \<open>The receiver\<close>

lemma upd_simps [simp]:
  "softc (upd_sc u f s) = (softc s)[u := f (softc s ! u)]" "softc (upd_sc_if u g s) = softc s"
  "ttys (upd_sc u f s) = ttys s" "ttys (upd_sc_if u g s) = ttys s" "grants (upd_sc u f s) = grants s"
  "grants (upd_sc_if u g s) = grants s" "m_act (upd_sc u f s) = m_act s" "m_act (upd_sc_if u g s) = m_act s"
  "ipintrq (upd_sc u f s) = ipintrq s" "ipintrq (upd_sc_if u g s) = ipintrq s"
  "m_dat (upd_sc u f s) = m_dat s" "m_dat (upd_sc_if u g s) = m_dat s"
  "slnet (upd_sc u f s) = slnet s" "freed (upd_sc u f s) = freed s" "freed (upd_sc_if u g s) = freed s"
  "netisr_ip (upd_sc u f s) = netisr_ip s" "netisr_ip (upd_sc_if u g s) = netisr_ip s"
  by (simp_all add: upd_sc_def upd_sc_if_def)

text \<open>A unit that has received the bytes \<open>got\<close> of a frame so far.\<close>

definition receiving :: "('p, 'q) sl_state \<Rightarrow> ptr \<Rightarrow> nat \<Rightarrow> byte list \<Rightarrow> bool" where
  "receiving s tp u got \<longleftrightarrow> t_sc (ttys s tp) = Some u \<and> u < length (softc s)
     \<and> \<not> on (sc_flags (softc s ! u)) SC_ESCAPED \<and> sc_ilen (softc s ! u) = int (length got)
     \<and> sc_mp (softc s ! u) = 4 + length got
     \<and> (\<exists>buf. sc_buf (softc s ! u) = Some buf \<and> 1010 \<le> length buf \<and> take (length got) (drop 4 buf) = got)"

text \<open>What the receiver leaves alone while it collects a frame.\<close>

definition same_env :: "('p, 'q) sl_state \<Rightarrow> ('p, 'q) sl_state \<Rightarrow> nat \<Rightarrow> bool" where
  "same_env s s' u \<longleftrightarrow> grants s' = grants s \<and> m_act s' = m_act s \<and> ipintrq s' = ipintrq s
     \<and> slnet s' = slnet s \<and> m_dat s' = m_dat s \<and> freed s' = freed s
     \<and> sc_ifp (softc s' ! u) = sc_ifp (softc s ! u)"

lemma same_env_refl: "same_env s s u"
  by (simp add: same_env_def)

lemma same_env_trans: "same_env a b u \<Longrightarrow> same_env b c u \<Longrightarrow> same_env a c u"
  by (simp add: same_env_def)

lemma take_store:
  "4 + n < length buf \<Longrightarrow> take (Suc n) (drop 4 (buf[4 + n := c])) = take n (drop 4 buf) @ [c]"
  by (simp add: take_Suc_conv_app_nth drop_update_swap)

lemma sl_store_receives:
  assumes r: "receiving s tp u got" and l: "length got < 1006"
  shows "receiving (sl_store u c s) tp u (got @ [c]) \<and> same_env s (sl_store u c s) u"
proof -
  from r obtain buf where b: "sc_buf (softc s ! u) = Some buf" "1010 \<le> length buf" "take (length got) (drop 4 buf) = got"
    by (auto simp: receiving_def)
  have "take (Suc (length got)) (drop 4 (buf[4 + length got := c])) = got @ [c]"
    using b l by (subst take_store) auto
  with r l b show ?thesis
    by (auto simp: sl_store_def Let_def receiving_def same_env_def SLMTU_def)
qed

lemma escaped_flags [simp]: "on (f OR SC_ESCAPED) SC_ESCAPED" "\<not> on (f AND NOT SC_ESCAPED) SC_ESCAPED"
proof -
  have "(f OR SC_ESCAPED) AND SC_ESCAPED = SC_ESCAPED" by (rule bit_word_eqI) (auto simp: bit_or_iff bit_and_iff)
  then show "on (f OR SC_ESCAPED) SC_ESCAPED" by (simp add: on_def SC_ESCAPED_def)
  show "\<not> on (f AND NOT SC_ESCAPED) SC_ESCAPED" by (simp add: on_def and.assoc)
qed

lemma receiving_tk [simp]:
  "receiving (s\<lparr>tk_nin := n\<rparr>) tp u got = receiving s tp u got" "same_env (s\<lparr>tk_nin := n\<rparr>) t u = same_env s t u"
  "same_env t (s\<lparr>tk_nin := n\<rparr>) u = same_env t s u"
  by (simp_all add: receiving_def same_env_def)

lemma slinput_byte:
  assumes r: "receiving s tp u got" and l: "length got < 1006"
  shows "receiving (fold (\<lambda>c. slinput e c tp) (esc b) s) tp u (got @ [b])
    \<and> same_env s (fold (\<lambda>c. slinput e c tp) (esc b) s) u"
proof (cases "plain b")
  case True
  then have "fold (\<lambda>c. slinput e c tp) (esc b) s = sl_store u b (s\<lparr>tk_nin := tk_nin s + 1\<rparr>)"
    using r by (auto simp: esc_def plain_def slinput_def receiving_def Let_def)
  with sl_store_receives [of "s\<lparr>tk_nin := tk_nin s + 1\<rparr>" tp u got b] r l show ?thesis by simp
next
  case False
  let ?t = "if b = FRAME_END then TRANS_FRAME_END else TRANS_FRAME_ESCAPE"
  let ?s1 = "s\<lparr>tk_nin := tk_nin s + 1\<rparr>"
  let ?s2 = "upd_sc u (\<lambda>x. x\<lparr>sc_flags := sc_flags x OR SC_ESCAPED\<rparr>) ?s1"
  let ?s3 = "upd_sc u (\<lambda>x. x\<lparr>sc_flags := sc_flags x AND NOT SC_ESCAPED\<rparr>) (?s2\<lparr>tk_nin := tk_nin ?s2 + 1\<rparr>)"
  have tu: "t_sc (ttys s tp) = Some u" "u < length (softc s)" "\<not> on (sc_flags (softc s ! u)) SC_ESCAPED"
    using r by (auto simp: receiving_def)
  have e: "esc b = [FRAME_ESCAPE, ?t]"
    using False by (auto simp: esc_def plain_def)
  have "slinput e FRAME_ESCAPE tp s = ?s2"
    using tu by (simp add: slinput_def Let_def FRAME_END_def FRAME_ESCAPE_def)
  moreover have "slinput e ?t tp ?s2 = sl_store u b ?s3"
    using tu False by (auto simp: slinput_def Let_def plain_def TRANS_FRAME_END_def TRANS_FRAME_ESCAPE_def
        FRAME_END_def FRAME_ESCAPE_def)
  ultimately have f: "fold (\<lambda>c. slinput e c tp) (esc b) s = sl_store u b ?s3" unfolding e by simp
  have r3: "receiving ?s3 tp u got" and se: "same_env s ?s3 u"
    using r by (auto simp: receiving_def same_env_def)
  from sl_store_receives [OF r3 l, of b] se show ?thesis unfolding f by (blast intro: same_env_trans)
qed

lemma slinput_encode:
  assumes "receiving s tp u got" and "length got + length bs \<le> 1006"
  shows "receiving (fold (\<lambda>c. slinput e c tp) (encode bs) s) tp u (got @ bs)
    \<and> same_env s (fold (\<lambda>c. slinput e c tp) (encode bs) s) u"
  using assms
proof (induction bs arbitrary: s got)
  case Nil
  then show ?case by (simp add: same_env_refl)
next
  case (Cons b bs)
  let ?s = "fold (\<lambda>c. slinput e c tp) (esc b) s"
  have l: "length got < 1006" using Cons.prems by simp
  note st = slinput_byte [OF Cons.prems(1) l, of e b]
  then have "receiving ?s tp u (got @ [b])" by blast
  from Cons.IH [OF this] Cons.prems st show ?case by (auto intro: same_env_trans)
qed

section \<open>Copying a packet into mbufs\<close>

definition no_cluster :: "('p, 'q) sl_env \<Rightarrow> grant list \<Rightarrow> nat \<Rightarrow> bool" where
  "no_cluster e gs len \<longleftrightarrow> len < NBPG e \<or> (\<forall>g \<in> set gs. snd g = None)"

lemma sl_btom_copies:
  assumes "no_cluster e gs len" and "4 < MLEN e" and "\<forall>g \<in> set gs. fst g \<noteq> 0"
    and "len \<le> length gs * (MLEN e - 4)"
  shows "\<exists>ms gs'. sl_btom_loop e gs buf cp len ifp acc = (Some (acc @ ms), buf, gs')
    \<and> (len \<noteq> 0 \<longrightarrow> concat ms = (if ifp \<noteq> 0 then ptr_bytes ifp else []) @ take len (drop cp buf))"
  using assms
proof (induction gs arbitrary: len cp ifp acc)
  case Nil
  then show ?case by simp
next
  case (Cons g gs)
  obtain p cl where g: "g = (p, cl)" by fastforce
  show ?case
  proof (cases len)
    case 0
    then show ?thesis by simp
  next
    case (Suc l)
    define c where "c = (if ifp \<noteq> 0 then min len (MLEN e - 4) else min len (MLEN e))"
    define hdr where "hdr = (if ifp \<noteq> 0 then ptr_bytes ifp else [])"
    define dat where "dat = hdr @ take c (drop cp buf)"
    have cn: "(if NBPG e \<le> Suc l then cl else None) = None" using Cons.prems(1) g Suc by (auto simp: no_cluster_def)
    have p0: "p \<noteq> 0" using Cons.prems(3) g by simp
    have step: "sl_btom_loop e (g # gs) buf cp len ifp acc
        = sl_btom_loop e gs buf (cp + c) (len - c) 0 (acc @ [dat])"
      unfolding g Suc dat_def hdr_def c_def
      by (simp only: sl_btom_loop.simps Let_def cn option.case prod.case p0 if_False)
    have "no_cluster e gs (len - c)" using Cons.prems(1) g by (auto simp: no_cluster_def)
    moreover have "len - c \<le> length gs * (MLEN e - 4)" using Cons.prems(2,4) by (auto simp: c_def min_def)
    moreover have "\<forall>g \<in> set gs. fst g \<noteq> 0" using Cons.prems(3) by simp
    ultimately have "\<exists>ms gs'. sl_btom_loop e gs buf (cp + c) (len - c) 0 (acc @ [dat]) = (Some ((acc @ [dat]) @ ms), buf, gs')
        \<and> (len - c \<noteq> 0 \<longrightarrow> concat ms = (if (0 :: ptr) \<noteq> 0 then ptr_bytes 0 else []) @ take (len - c) (drop (cp + c) buf))"
      using Cons.IH Cons.prems(2) by blast
    then obtain ms gs' where IH: "sl_btom_loop e gs buf (cp + c) (len - c) 0 (acc @ [dat]) = (Some (acc @ [dat] @ ms), buf, gs')"
      "len - c \<noteq> 0 \<longrightarrow> concat ms = take (len - c) (drop (cp + c) buf)" by auto
    have le: "c \<le> len" by (simp add: c_def)
    have "take c (drop cp buf) @ take (len - c) (drop c (drop cp buf)) = take len (drop cp buf)"
      using le by (metis le_add_diff_inverse take_add)
    then have tk: "take c (drop cp buf) @ take (len - c) (drop (cp + c) buf) = take len (drop cp buf)"
      by (simp add: add.commute)
    show ?thesis
    proof (cases "len - c = 0")
      case True
      with le have "c = len" by linarith
      then have "sl_btom_loop e (g # gs) buf cp len ifp acc = (Some (acc @ [dat]), buf, gs)"
        using step by simp
      moreover have "concat [dat] = hdr @ take len (drop cp buf)" using \<open>c = len\<close> by (simp add: dat_def)
      ultimately show ?thesis unfolding hdr_def by blast
    next
      case False
      with IH(2) tk have "concat ([dat] @ ms) = hdr @ take len (drop cp buf)" by (simp add: dat_def)
      with step IH(1) show ?thesis unfolding hdr_def by metis
    qed
  qed
qed

text \<open>
  Allocations that suffice for a packet of \<open>len\<close> bytes: enough mbufs, and either no cluster is
  attached or the first mbuf gets one (a page of at least 1010 bytes).
\<close>

definition grants_ok :: "('p, 'q) sl_env \<Rightarrow> grant list \<Rightarrow> nat \<Rightarrow> bool" where
  "grants_ok e gs len \<longleftrightarrow> gs \<noteq> [] \<and> (\<forall>g \<in> set gs. fst g \<noteq> 0) \<and> len \<le> length gs * (MLEN e - 4) \<and> 4 < MLEN e
     \<and> (no_cluster e gs len
        \<or> NBPG e \<le> len \<and> len \<le> MCLBYTES e - 4 \<and> (\<exists>page. snd (gs ! 0) = Some page \<and> 1010 \<le> length page))"

lemma sl_btom_loop_ok:
  assumes g: "grants_ok e gs len" and l: "0 < len" and i: "ifp \<noteq> 0" and b: "1010 \<le> length buf"
  shows "\<exists>ms buf' gs'. sl_btom_loop e gs buf 4 len ifp [] = (Some ms, buf', gs')
    \<and> concat ms = ptr_bytes ifp @ take len (drop 4 buf) \<and> 1010 \<le> length buf'"
proof (cases "no_cluster e gs len")
  case True
  from sl_btom_copies [OF True, of buf 4 ifp "[]"] g l i b show ?thesis by (auto simp: grants_ok_def)
next
  case False
  with g obtain p page gs1 where gs: "gs = (p, Some page) # gs1" "p \<noteq> 0" "1010 \<le> length page"
    and n: "NBPG e \<le> len" "len \<le> MCLBYTES e - 4"
    by (cases gs) (auto simp: grants_ok_def)
  from l obtain k where k: "len = Suc k" using gr0_implies_Suc by blast
  have m: "min len (MCLBYTES e - 4) = len" using n by simp
  have "sl_btom_loop e gs buf 4 len ifp [] = sl_btom_loop e gs1 page len (len - len) 0 ([] @ [ptr_bytes ifp @ take len (drop 4 buf)])"
    using gs n i m unfolding k by (simp add: Let_def)
  then show ?thesis using gs by simp
qed

lemma sl_btom_ok:
  assumes r: "receiving s tp u bs" and l: "0 < length bs" and g: "grants_ok e (grants s) (length bs)"
    and i: "sc_ifp (softc s ! u) \<noteq> 0"
  shows "\<exists>m s1. sl_btom e u s = (m, s1) \<and> m = fst (grants s ! 0) \<and> m \<noteq> 0
    \<and> concat (m_dat s1 m) = ptr_bytes (sc_ifp (softc s ! u)) @ bs
    \<and> m_act s1 = m_act s \<and> ipintrq s1 = ipintrq s \<and> freed s1 = freed s \<and> slnet s1 = slnet s \<and> ttys s1 = ttys s
    \<and> (\<exists>buf'. 1010 \<le> length buf' \<and> softc s1 = (softc s)[u := (softc s ! u)\<lparr>sc_buf := Some buf'\<rparr>])"
proof -
  from r obtain buf where b: "sc_buf (softc s ! u) = Some buf" "1010 \<le> length buf" "take (length bs) (drop 4 buf) = bs"
    "sc_ilen (softc s ! u) = int (length bs)" by (auto simp: receiving_def)
  from sl_btom_loop_ok [OF g l i b(2)] b(3) obtain ms buf' gs' where
    x: "sl_btom_loop e (grants s) buf 4 (length bs) (sc_ifp (softc s ! u)) [] = (Some ms, buf', gs')"
      "concat ms = ptr_bytes (sc_ifp (softc s ! u)) @ bs" "1010 \<le> length buf'" by auto
  from g obtain p cl gs1 where gs: "grants s = (p, cl) # gs1" "p \<noteq> 0" by (cases "grants s") (auto simp: grants_ok_def)
  have "sl_btom e u s = (p, (upd_sc u (\<lambda>c. c\<lparr>sc_buf := Some buf'\<rparr>) (s\<lparr>grants := gs'\<rparr>))\<lparr>m_dat := (m_dat s)(p := ms)\<rparr>)"
    using x(1) b gs by (simp add: sl_btom_def Let_def)
  with gs x show ?thesis by (auto simp: upd_sc_def)
qed

lemma sl_deliver_ok:
  assumes r: "receiving s tp u bs" and l: "0 < length bs" and g: "grants_ok e (grants s) (length bs)"
    and i: "sc_ifp (softc s ! u) \<noteq> 0" and q: "ifq_rep (m_act s) (ipintrq s) xs"
    and f: "int (length xs) < ifq_maxlen (ipintrq s)" and m: "m = fst (grants s ! 0)" "m \<notin> set xs"
  shows "let s' = sl_deliver e u s in ifq_rep (m_act s') (ipintrq s') (xs @ [m])
    \<and> concat (m_dat s' m) = ptr_bytes (sc_ifp (softc s ! u)) @ bs \<and> receiving s' tp u [] \<and> netisr_ip s'
    \<and> freed s' = freed s"
proof -
  from sl_btom_ok [OF r l g i] m obtain s1 buf' where
    b: "sl_btom e u s = (m, s1)" "m \<noteq> 0" "concat (m_dat s1 m) = ptr_bytes (sc_ifp (softc s ! u)) @ bs"
      "m_act s1 = m_act s" "ipintrq s1 = ipintrq s" "freed s1 = freed s" "ttys s1 = ttys s"
      "1010 \<le> length buf'" "softc s1 = (softc s)[u := (softc s ! u)\<lparr>sc_buf := Some buf'\<rparr>]" by auto
  have u: "u < length (softc s)" using r by (simp add: receiving_def)
  obtain act qq where e: "IF_ENQUEUE (m_act s) (ipintrq s) m = (act, qq)" by fastforce
  have nf: "\<not> IF_QFULL (ipintrq s)" using q f by (simp add: IF_QFULL_def ifq_rep_def)
  let ?s2 = "upd_sc_if u (\<lambda>f. f\<lparr>if_ipackets := if_ipackets f + 1\<rparr>) (upd_sc u (\<lambda>x. x\<lparr>sc_mp := 4, sc_ilen := 0\<rparr>) s1)"
  have "sc_ilen (softc s ! u) \<noteq> 0" using r l by (simp add: receiving_def)
  then have "sl_deliver e u s = ?s2\<lparr>m_act := act, ipintrq := qq, netisr_ip := True\<rparr>"
    using b e nf by (simp add: sl_deliver_def Let_def)
  moreover have "ifq_rep act qq (xs @ [m])" by (rule ifq_enqueue_rep [OF q b(2) m(2) e])
  ultimately show ?thesis using b u r by (auto simp: receiving_def Let_def)
qed

text \<open>
  (C15) \<^bold>\<open>SLIP transmits packets unchanged\<close>: the characters \<open>slstart\<close> queues for a packet, fed
  to the receiver interrupt of an idle unit one by one, put exactly one packet on the IP input
  queue; its mbufs hold the interface pointer followed by the data of the packet sent, byte for
  byte, whatever special characters it contains; the receiver is idle again.  The packet is not
  empty and at most \<open>SLMTU\<close> bytes, the character queue has room for the encoded packet and its two
  frame ends, the IP queue is not full, and the mbuf allocations of the receiver succeed in one of the
  two regular ways (\<open>grants_ok\<close>).
\<close>

theorem slip_round_trip:
  assumes c: "clist_ok e cont room" and room: "length (encode (concat ms)) + 2 \<le> room tq"
    and r: "receiving r tp u []" and l: "0 < length (concat ms)" "length (concat ms) \<le> 1006"
    and g: "grants_ok e (grants r) (length (concat ms))" and i: "sc_ifp (softc r ! u) \<noteq> 0"
    and q: "ifq_rep (m_act r) (ipintrq r) xs" and f: "int (length xs) < ifq_maxlen (ipintrq r)"
    and m: "m = fst (grants r ! 0)" "m \<notin> set xs"
  shows "\<exists>tq' new r'. send_packet e ms tq = (False, tq') \<and> cont tq' = cont tq @ new
    \<and> fold (\<lambda>b. slinput e b tp) new r = r' \<and> ifq_rep (m_act r') (ipintrq r') (xs @ [m])
    \<and> concat (m_dat r' m) = ptr_bytes (sc_ifp (softc r ! u)) @ concat ms \<and> receiving r' tp u [] \<and> netisr_ip r'"
proof -
  let ?pre = "if cont tq = [] then [FRAME_END] else []"
  let ?in = "\<lambda>b. slinput e b tp"
  from send_packet_frames [OF c room] obtain tq' where sp: "send_packet e ms tq = (False, tq')"
    "cont tq' = cont tq @ ?pre @ encode (concat ms) @ [FRAME_END]" by blast
  let ?r1 = "fold ?in ?pre r" and ?r2 = "fold ?in (encode (concat ms)) (fold ?in ?pre r)"
  have "slinput e FRAME_END tp r = r\<lparr>tk_nin := tk_nin r + 1\<rparr>"
    using r by (auto simp: slinput_def receiving_def Let_def sl_deliver_def)
  then have r1: "receiving ?r1 tp u []" "same_env r ?r1 u" using r by (auto simp: same_env_refl)
  have r2: "receiving ?r2 tp u (concat ms)" "same_env r ?r2 u"
    using slinput_encode [OF r1(1), of "concat ms" e] l r1(2) same_env_trans by auto
  let ?r3 = "?r2\<lparr>tk_nin := tk_nin ?r2 + 1\<rparr>"
  have "slinput e FRAME_END tp ?r2 = sl_deliver e u ?r3"
    using r2(1) by (auto simp: slinput_def receiving_def Let_def)
  then have f3: "fold ?in (?pre @ encode (concat ms) @ [FRAME_END]) r = sl_deliver e u ?r3" by simp
  have r3: "receiving ?r3 tp u (concat ms)" using r2(1) by simp
  have se: "grants ?r3 = grants r" "m_act ?r3 = m_act r" "ipintrq ?r3 = ipintrq r" "sc_ifp (softc ?r3 ! u) = sc_ifp (softc r ! u)"
    using r2(2) by (auto simp: same_env_def)
  have "ifq_rep (m_act ?r3) (ipintrq ?r3) xs" "int (length xs) < ifq_maxlen (ipintrq ?r3)"
    "grants_ok e (grants ?r3) (length (concat ms))" "sc_ifp (softc ?r3 ! u) \<noteq> 0" "m = fst (grants ?r3 ! 0)"
    using q f g i m(1) unfolding se by auto
  from sl_deliver_ok [OF r3 l(1) this(3,4,1,2,5) m(2)] sp f3 se(4) show ?thesis
    by (intro exI [of _ tq'] exI [of _ "?pre @ encode (concat ms) @ [FRAME_END]"] exI [of _ "sl_deliver e u ?r3"]) (simp add: Let_def)
qed

text \<open>The instance: character queues as lists of at most 3000 characters, and a unit with an empty input page.\<close>

definition demo_sl_env :: "(nat list, byte list) sl_env" where
  "demo_sl_env = \<lparr>sl_ifenv = quiet_env, c_cc = (\<lambda>q. int (length q)),
     putc = (\<lambda>c q. (3000 \<le> length q, q @ take (3000 - length q) [c])),
     b_to_q = (\<lambda>xs q. (length xs - (3000 - length q), q @ take (3000 - length q) xs)), unputc = butlast, ttstart = (\<lambda>t. t), ttyflush = (\<lambda>t. t\<lparr>t_outq := []\<rparr>),
     ttywflush = (\<lambda>t. t), cfreecount = (\<lambda>q. 5000), SLIPDISC = 4, MLEN = 112, NBPG = 512, MCLBYTES = 1024,
     slioctl_proc = 77\<rparr>"

definition demo_sl :: "(nat list, byte list) sl_state" where
  "demo_sl = \<lparr>slnet = demo_net,
     softc = [\<lparr>sc_ifp = 2, sc_flags = 0, sc_ilen = 0, sc_ttyp = 50, sc_mp = 4, sc_buf = Some (replicate 1024 0)\<rparr>],
     ttys = (\<lambda>_. \<lparr>t_line = 4, t_sc = Some 0, t_carr_on = True, t_outq = []\<rparr>), m_act = (\<lambda>_. 0), m_dat = (\<lambda>_. []),
     ipintrq = \<lparr>ifq_head = 0, ifq_tail = 0, ifq_len = 0, ifq_maxlen = 50, ifq_drops = 0\<rparr>,
     netisr_ip = False, tk_nin = 0, grants = [(300, None), (301, None)], freed = []\<rparr>"

lemma demo_receiving: "receiving demo_sl 50 0 []"
  by (simp add: receiving_def demo_sl_def on_def)

theorem slip_round_trip_witness:
  "\<exists>q' new r'. send_packet demo_sl_env [[1, 0xc0], [0xdb, 2]] [] = (False, q') \<and> q' = new
    \<and> fold (\<lambda>b. slinput demo_sl_env b 50) new demo_sl = r'
    \<and> concat (m_dat r' 300) = ptr_bytes 2 @ [1, 0xc0, 0xdb, 2]"
proof -
  have c: "clist_ok demo_sl_env (\<lambda>q. q) (\<lambda>q. 3000 - length q)" by (auto simp: clist_ok_def demo_sl_env_def)
  have room: "length (encode (concat [[1, 0xc0], [0xdb, 2]])) + 2 \<le> 3000 - length ([] :: byte list)" by (simp add: esc_def)
  have g: "grants_ok demo_sl_env (grants demo_sl) (length (concat [[1 :: byte, 0xc0], [0xdb, 2]]))"
    by (simp add: grants_ok_def demo_sl_env_def demo_sl_def no_cluster_def)
  have q: "ifq_rep (m_act demo_sl) (ipintrq demo_sl) []" by (simp add: ifq_rep_def demo_sl_def)
  have i: "sc_ifp (softc demo_sl ! 0) = 2" "fst (grants demo_sl ! 0) = 300" "ifq_maxlen (ipintrq demo_sl) = 50"
    by (simp_all add: demo_sl_def)
  from slip_round_trip [OF c room demo_receiving _ _ g _ q, of 300] i show ?thesis by auto
qed

text \<open>
  (C29) \<^bold>\<open>A cluster attached to a later mbuf corrupts the packet\<close>: when the cluster allocation
  for the first mbuf of a long packet fails and the one for the second succeeds, the second mbuf
  takes over the input page from its start, so the packet handed to IP repeats the gap for the
  interface pointer and the first bytes in place of the bytes that follow.
\<close>

theorem sl_btom_late_cluster:
  assumes "p \<noteq> 0" and "p' \<noteq> 0" and "ifp \<noteq> 0" and "MLEN e = 112" and "NBPG e = 512" and "MCLBYTES e = 1024"
  shows "sl_btom_loop e ((p, None) # (p', Some page) # gs) buf 4 1006 ifp []
    = (Some [ptr_bytes ifp @ take 108 (drop 4 buf), take 898 buf], page, gs)"
proof -
  let ?a = "[ptr_bytes ifp @ take 108 (drop 4 buf)]"
  have "sl_btom_loop e ((p, None) # (p', Some page) # gs) buf 4 (Suc 1005) ifp []
      = sl_btom_loop e ((p', Some page) # gs) buf (4 + 108) (1006 - 108) 0 ([] @ ?a)"
    using assms by (simp only: sl_btom_loop.simps) simp
  moreover have "sl_btom_loop e ((p', Some page) # gs) buf 112 (Suc 897) 0 ?a
      = sl_btom_loop e gs page 898 0 0 (?a @ [[] @ take 898 buf])"
    using assms by (simp only: sl_btom_loop.simps) simp
  ultimately show ?thesis by simp
qed

theorem sl_btom_late_cluster_witness:
  "sl_btom_loop demo_sl_env ((300, None) # (301, Some []) # []) (replicate 1024 7) 4 1006 2 []
    = (Some [ptr_bytes 2 @ take 108 (drop 4 (replicate 1024 7)), take 898 (replicate 1024 7)], [], [])"
  by (rule sl_btom_late_cluster) (simp_all add: demo_sl_env_def)

text \<open>
  \<^bold>\<open>A packet lost for want of mbufs stays in the input page\<close>: when no mbuf can be had at
  the end of a frame, the error is counted but the characters received stay where they are, so
  the bytes of the next frame are appended to them.
\<close>

theorem slip_enobufs_keeps_input:
  assumes r: "receiving s tp u got" and g: "grants s = []" and l: "0 < length got" and n: "length (got @ next) \<le> 1006"
  shows "receiving (fold (\<lambda>b. slinput e b tp) (FRAME_END # encode next) s) tp u (got @ next)"
proof -
  let ?s = "slinput e FRAME_END tp s"
  from r obtain buf where b: "sc_buf (softc s ! u) = Some buf" by (auto simp: receiving_def)
  have "0 < nat (sc_ilen (softc s ! u))" using r l by (simp add: receiving_def)
  then obtain k where k: "nat (sc_ilen (softc s ! u)) = Suc k" using gr0_implies_Suc by blast
  let ?s1 = "s\<lparr>tk_nin := tk_nin s + 1\<rparr>"
  have z: "sc_ilen (softc s ! u) \<noteq> 0" using k by auto
  have "sl_btom e u ?s1 = (0, upd_sc u (\<lambda>c. c\<lparr>sc_buf := Some buf\<rparr>) (?s1\<lparr>grants := []\<rparr>))"
    using g b k by (simp add: sl_btom_def)
  then have "sl_deliver e u ?s1 = upd_sc_if u (\<lambda>f. f\<lparr>if_ierrors := if_ierrors f + 1\<rparr>)
      (upd_sc u (\<lambda>c. c\<lparr>sc_buf := Some buf\<rparr>) (?s1\<lparr>grants := []\<rparr>))"
    using z by (simp add: sl_deliver_def)
  moreover have "?s = sl_deliver e u ?s1" using r by (simp add: slinput_def receiving_def Let_def)
  ultimately have "receiving ?s tp u got" using r b by (auto simp: receiving_def)
  from slinput_encode [OF this, of "next" e] n show ?thesis by simp
qed

theorem slip_enobufs_keeps_input_witness:
  "receiving (fold (\<lambda>b. slinput demo_sl_env b 50) (FRAME_END # encode [3])
     (fold (\<lambda>b. slinput demo_sl_env b 50) (encode [1, 2]) (demo_sl\<lparr>grants := []\<rparr>))) 50 0 [1, 2, 3]"
proof -
  have r: "receiving (demo_sl\<lparr>grants := []\<rparr>) 50 0 []" using demo_receiving by (simp add: receiving_def)
  let ?s = "fold (\<lambda>b. slinput demo_sl_env b 50) (encode [1, 2]) (demo_sl\<lparr>grants := []\<rparr>)"
  have "receiving ?s 50 0 ([] @ [1, 2])" "grants ?s = []"
    using slinput_encode [OF r, of "[1, 2]" demo_sl_env] by (auto simp: same_env_def)
  from slip_enobufs_keeps_input [of ?s 50 0 "[1, 2]" "[3]"] this show ?thesis by simp
qed

section \<open>The output queue\<close>

lemma sc_if_upd [simp]:
  "sc_if (upd_sc_if u f s) u = f (sc_if s u)" "sc_if (upd_tty tp g s) u = sc_if s u"
  "sc_if (m_freem m s) u = sc_if s u" "sc_if (s\<lparr>m_act := a\<rparr>) u = sc_if s u"
  by (simp_all add: sc_if_def upd_sc_if_def upd_tty_def m_freem_def)

lemma upd_tty_simps [simp]:
  "softc (upd_tty tp g s) = softc s" "m_act (upd_tty tp g s) = m_act s" "freed (upd_tty tp g s) = freed s"
  "ttys (upd_tty tp g s) = (ttys s)(tp := g (ttys s tp))" "m_dat (upd_tty tp g s) = m_dat s"
  "softc (m_freem m s) = softc s" "m_act (m_freem m s) = m_act s" "freed (m_freem m s) = m # freed s"
  "ttys (m_freem m s) = ttys s"
  by (simp_all add: upd_tty_def m_freem_def)

definition sent_ok :: "('p, 'q) sl_env \<Rightarrow> ptr \<Rightarrow> nat \<Rightarrow> ptr list \<Rightarrow> ('p, 'q) sl_state \<Rightarrow> ('p, 'q) sl_state \<Rightarrow> bool" where
  "sent_ok e tp u xs s s' \<longleftrightarrow> (\<exists>sent rest. xs = sent @ rest \<and> ifq_rep (m_act s') (if_snd (sc_if s' u)) rest
     \<and> freed s' = rev sent @ freed s
     \<and> if_opackets (sc_if s' u) + if_collisions (sc_if s' u)
         = if_opackets (sc_if s u) + if_collisions (sc_if s u) + int (length sent)
     \<and> (rest = [] \<or> c_cc e (t_outq (ttys s' tp)) > SLIP_HIWAT
        \<or> cfreecount e (t_outq (ttys s' tp)) < CLISTRESERVE + SLMTU \<and> c_cc e (t_outq (ttys s' tp)) \<noteq> 0))"

lemma slstart_loop_sends:
  assumes "ifq_rep (m_act s) (if_snd (sc_if s u)) xs"
  shows "\<exists>s'. slstart_loop e tp (Some u) s = Some s' \<and> sent_ok e tp u xs s s'"
  using assms
proof (induction xs arbitrary: s)
  case Nil
  define s1 where "s1 = (if c_cc e (t_outq (ttys s tp)) > 0 then upd_tty tp (ttstart e) s else s)"
  have t1: "m_act s1 = m_act s" "sc_if s1 u = sc_if s u" "freed s1 = freed s"
    by (auto simp: s1_def)
  have dq: "IF_DEQUEUE (m_act s) (if_snd (sc_if s u)) = (m_act s, if_snd (sc_if s u), 0)"
    using Nil by (intro ifq_dequeue_empty) simp
  have "\<exists>s'. slstart_loop e tp (Some u) s = Some s' \<and> (s' = s1 \<or> s' = upd_sc_if u (\<lambda>f. f\<lparr>if_snd := if_snd (sc_if s u)\<rparr>) (s1\<lparr>m_act := m_act s\<rparr>))"
    by (subst slstart_loop.simps) (auto simp: s1_def [symmetric] t1 dq Let_def)
  then show ?case using Nil t1 unfolding sent_ok_def by fastforce
next
  case (Cons m xs)
  define s1 where "s1 = (if c_cc e (t_outq (ttys s tp)) > 0 then upd_tty tp (ttstart e) s else s)"
  have t1: "m_act s1 = m_act s" "sc_if s1 u = sc_if s u" "freed s1 = freed s"
    by (auto simp: s1_def)
  let ?q = "t_outq (ttys s1 tp)"
  let ?stop = "c_cc e ?q > SLIP_HIWAT \<or> cfreecount e ?q < CLISTRESERVE + SLMTU \<and> c_cc e ?q \<noteq> 0"
  show ?case
  proof (cases ?stop)
    case True
    then have "slstart_loop e tp (Some u) s = Some s1" by (subst slstart_loop.simps) (auto simp: s1_def [symmetric] t1 Let_def)
    moreover have "sent_ok e tp u (m # xs) s s1"
      unfolding sent_ok_def using True Cons.prems t1 by (intro exI [of _ "[]"] exI [of _ "m # xs"]) auto
    ultimately show ?thesis by blast
  next
    case False
    obtain act sq m' where dq: "IF_DEQUEUE (m_act s) (if_snd (sc_if s u)) = (act, sq, m')" using prod_cases3 by blast
    have rep: "ifq_rep (m_act s) (if_snd (sc_if s u)) (m # xs)" using Cons.prems by simp
    from ifq_dequeue_rep [OF rep dq] have d: "ifq_rep act sq xs" "m' = m" by auto
    have m0: "m \<noteq> 0" using rep by (auto simp: ifq_rep_def)
    let ?s2 = "upd_sc_if u (\<lambda>f. f\<lparr>if_snd := sq\<rparr>) (s1\<lparr>m_act := act\<rparr>)"
    obtain coll q' where sp: "send_packet e (m_dat s1 m) ?q = (coll, q')" by fastforce
    define s3 where "s3 = m_freem m (upd_sc_if u (\<lambda>f. if coll then f\<lparr>if_collisions := if_collisions f + 1\<rparr>
        else f\<lparr>if_opackets := if_opackets f + 1\<rparr>) (upd_tty tp (\<lambda>t. t\<lparr>t_outq := q'\<rparr>) ?s2))"
    have "slstart_loop e tp (Some u) s = slstart_loop e tp (Some u) s3"
      using False m0 by (subst slstart_loop.simps) (auto simp: s1_def [symmetric] s3_def t1 dq d sp Let_def)
    moreover have "ifq_rep (m_act s3) (if_snd (sc_if s3 u)) xs"
      using t1 d by (auto simp: s3_def)
    from Cons.IH [OF this] obtain s' where s': "slstart_loop e tp (Some u) s3 = Some s'" "sent_ok e tp u xs s3 s'" by blast
    moreover have "sent_ok e tp u (m # xs) s s'"
    proof -
      from s'(2) obtain sent rest where x: "xs = sent @ rest" "ifq_rep (m_act s') (if_snd (sc_if s' u)) rest"
        "freed s' = rev sent @ freed s3" "if_opackets (sc_if s' u) + if_collisions (sc_if s' u)
         = if_opackets (sc_if s3 u) + if_collisions (sc_if s3 u) + int (length sent)"
        "rest = [] \<or> c_cc e (t_outq (ttys s' tp)) > SLIP_HIWAT
        \<or> cfreecount e (t_outq (ttys s' tp)) < CLISTRESERVE + SLMTU \<and> c_cc e (t_outq (ttys s' tp)) \<noteq> 0"
        unfolding sent_ok_def by blast
      have "freed s3 = m # freed s" "if_opackets (sc_if s3 u) + if_collisions (sc_if s3 u)
          = if_opackets (sc_if s u) + if_collisions (sc_if s u) + 1"
        using t1 by (auto simp: s3_def)
      with x show ?thesis unfolding sent_ok_def by (intro exI [of _ "m # sent"] exI [of _ rest]) auto
    qed
    ultimately show ?thesis by auto
  qed
qed

lemma slstart_sends:
  assumes "t_sc (ttys s tp) = Some u" and "ifq_rep (m_act s) (if_snd (sc_if s u)) xs"
  shows "\<exists>s'. slstart e tp s = Some s' \<and> sent_ok e tp u xs s s'"
  using slstart_loop_sends [OF assms(2)] assms(1) by (simp add: slstart_def)

text \<open>
  \<^bold>\<open>Every packet given to the driver is accounted for\<close>: \<open>sloutput\<close> returns.  If it returns
  an error the packet has been freed, exactly once, and the output queue holds what it held (a
  full queue counts a drop and an output error).  Otherwise the packets of the queue followed by
  the new one are, in this order, those sent and freed and those still queued; some are left
  only if the line is busy.
\<close>

theorem sloutput_accounts:
  assumes wire: "nat (if_unit (ifs (slnet s) ifp)) = u" "sc_ifp (softc s ! u) = ifp"
    and line: "sc_ttyp (softc s ! u) \<noteq> 0 \<longrightarrow> t_sc (ttys s (sc_ttyp (softc s ! u))) = Some u"
    and q: "ifq_rep (m_act s) (if_snd (ifs (slnet s) ifp)) xs" and m: "m \<noteq> 0" "m \<notin> set xs"
  shows "\<exists>err s'. sloutput e ifp m dst s = Some (err, s') \<and>
    (case err of
       Some x \<Rightarrow> freed s' = m # freed s \<and> ifq_rep (m_act s') (if_snd (ifs (slnet s') ifp)) xs
         \<and> (x = ENOBUFS \<longrightarrow> ifq_drops (if_snd (ifs (slnet s') ifp)) = ifq_drops (if_snd (ifs (slnet s) ifp)) + 1
              \<and> if_oerrors (ifs (slnet s') ifp) = if_oerrors (ifs (slnet s) ifp) + 1)
     | None \<Rightarrow> (\<exists>sent rest. xs @ [m] = sent @ rest \<and> freed s' = rev sent @ freed s
         \<and> ifq_rep (m_act s') (if_snd (sc_if s' u)) rest))"
proof -
  let ?tp = "sc_ttyp (softc s ! u)" and ?q = "if_snd (ifs (slnet s) ifp)"
  consider "sa_family dst \<noteq> AF_INET" | "sa_family dst = AF_INET" "?tp = 0"
    | "sa_family dst = AF_INET" "?tp \<noteq> 0" "\<not> t_carr_on (ttys s ?tp)"
    | "sa_family dst = AF_INET" "?tp \<noteq> 0" "t_carr_on (ttys s ?tp)" "IF_QFULL ?q"
    | "sa_family dst = AF_INET" "?tp \<noteq> 0" "t_carr_on (ttys s ?tp)" "\<not> IF_QFULL ?q" by blast
  then show ?thesis
  proof cases
    case 1
    with q show ?thesis by (simp add: sloutput_def m_freem_def)
  next
    case 2
    with q wire show ?thesis by (simp add: sloutput_def m_freem_def)
  next
    case 3
    with q wire show ?thesis by (simp add: sloutput_def m_freem_def)
  next
    case 4
    with q wire show ?thesis by (simp add: sloutput_def m_freem_def upd_sc_if_def Let_def) (simp add: IF_DROP_def)
  next
    case 5
    obtain act sq where e: "IF_ENQUEUE (m_act s) ?q m = (act, sq)" by fastforce
    have rep: "ifq_rep act sq (xs @ [m])" by (rule ifq_enqueue_rep [OF q m e])
    let ?s1 = "s\<lparr>m_act := act, slnet := upd_if ifp (\<lambda>f. f\<lparr>if_snd := sq\<rparr>) (slnet s)\<rparr>"
    have s1: "sloutput e ifp m dst s = (if c_cc e (t_outq (ttys ?s1 ?tp)) = 0
        then map_option (\<lambda>s2. (None, s2)) (slstart e ?tp ?s1) else Some (None, ?s1))"
      using 5 wire e by (simp add: sloutput_def Let_def)
    have r1: "ifq_rep (m_act ?s1) (if_snd (sc_if ?s1 u)) (xs @ [m])" using rep wire by (simp add: sc_if_def)
    show ?thesis
    proof (cases "c_cc e (t_outq (ttys ?s1 ?tp)) = 0")
      case False
      with s1 r1 show ?thesis
        by (auto intro!: exI [of _ "[]"] exI [of _ "xs @ [m]"])
    next
      case True
      have "t_sc (ttys ?s1 ?tp) = Some u" using line 5 by simp
      from slstart_sends [OF this r1] obtain s' where "slstart e ?tp ?s1 = Some s'" "sent_ok e ?tp u (xs @ [m]) ?s1 s'" by blast
      with True s1 show ?thesis by (auto simp: sent_ok_def)
    qed
  qed
qed

theorem sloutput_accounts_witness:
  "\<exists>err s'. sloutput demo_sl_env 2 400 \<lparr>sa_family = 2, sa_data = []\<rparr>
      (demo_sl\<lparr>softc := replicate 4 (softc demo_sl ! 0), ttys := (\<lambda>_. (ttys demo_sl 50)\<lparr>t_sc := Some 3\<rparr>)\<rparr>) = Some (err, s')"
proof -
  let ?s = "demo_sl\<lparr>softc := replicate 4 (softc demo_sl ! 0), ttys := (\<lambda>_. (ttys demo_sl 50)\<lparr>t_sc := Some 3\<rparr>)\<rparr>"
  have a: "nat (if_unit (ifs (slnet ?s) 2)) = 3" "sc_ifp (softc ?s ! 3) = 2"
    "sc_ttyp (softc ?s ! 3) \<noteq> 0 \<longrightarrow> t_sc (ttys ?s (sc_ttyp (softc ?s ! 3))) = Some 3"
    "ifq_rep (m_act ?s) (if_snd (ifs (slnet ?s) 2)) []"
    by (simp_all add: demo_sl_def demo_net_def demo_if_def ifq_rep_def)
  from sloutput_accounts [OF a(1-4), of 400 demo_sl_env "\<lparr>sa_family = 2, sa_data = []\<rparr>"] show ?thesis by auto
qed

section \<open>Lines and units\<close>

text \<open>A terminal points to a unit exactly when the unit points back, and then the unit has an input page.\<close>

definition lines_ok :: "('p, 'q) sl_state \<Rightarrow> bool" where
  "lines_ok s \<longleftrightarrow> (\<forall>tp u. t_sc (ttys s tp) = Some u \<longleftrightarrow> u < length (softc s) \<and> tp \<noteq> 0 \<and> sc_ttyp (softc s ! u) = tp)
     \<and> (\<forall>u < length (softc s). sc_ttyp (softc s ! u) \<noteq> 0 \<longrightarrow> sc_buf (softc s ! u) \<noteq> None)"

lemma first_free_Some: "first_free cs i = Some u \<Longrightarrow> i \<le> u \<and> u - i < length cs \<and> sc_ttyp (cs ! (u - i)) = 0"
proof (induction cs arbitrary: i)
  case Nil
  then show ?case by simp
next
  case (Cons c cs)
  show ?case
  proof (cases "sc_ttyp c = 0")
    case True
    with Cons.prems show ?thesis by auto
  next
    case False
    with Cons have IH: "i + 1 \<le> u" "u - (i + 1) < length cs" "sc_ttyp (cs ! (u - (i + 1))) = 0" by fastforce+
    then have "u - i = Suc (u - (i + 1))" by simp
    with IH show ?thesis by simp
  qed
qed

lemma first_free_None: "first_free cs i = None \<longleftrightarrow> (\<forall>c \<in> set cs. sc_ttyp c \<noteq> 0)"
  by (induction cs arbitrary: i) auto

text \<open>
  \<^bold>\<open>Opening keeps lines and units paired\<close>: \<open>slopen\<close> on a terminal that has no
  unit attaches it to a free unit with an input page, refuses with \<open>ENXIO\<close> only if every unit
  is taken, and changes no other pairing (\<open>slclose_unpairs\<close> below is the converse).
\<close>

theorem sl_lines_paired:
  assumes ok: "lines_ok s" and tp: "tp \<noteq> 0" "t_sc (ttys s tp) = None"
    and fl: "\<forall>t. t_sc (ttyflush e t) = t_sc t" and op: "slopen e su page tp s = (err, s')"
  shows "lines_ok s' \<and> (err = None \<longrightarrow> (\<exists>u. t_sc (ttys s' tp) = Some u \<and> sc_ilen (softc s' ! u) = 0))
    \<and> (err = Some ENXIO \<longrightarrow> (\<forall>c \<in> set (softc s). sc_ttyp c \<noteq> 0))"
proof (cases "su \<and> t_line (ttys s tp) \<noteq> SLIPDISC e")
  case False
  with op have "s' = s \<and> (err = Some EPERM \<or> err = Some EBUSY)" by (cases su) (auto simp: slopen_def)
  with ok show ?thesis by auto
next
  case True
  show ?thesis
  proof (cases "first_free (softc s) 0")
    case None
    with True op ok show ?thesis by (auto simp: slopen_def first_free_None)
  next
    case (Some u)
    have u: "u < length (softc s)" "sc_ttyp (softc s ! u) = 0" using first_free_Some [OF Some] by auto
    have none: "t_sc (ttys s x) \<noteq> Some u" for x using ok u by (auto simp: lines_ok_def)
    let ?s1 = "upd_sc u (\<lambda>c. c\<lparr>sc_flags := 0, sc_ilen := 0\<rparr>) s"
    obtain b s2 where i: "slinit page u ?s1 = (b, s2)" by fastforce
    have s2: "ttys s2 = ttys s" "length (softc s2) = length (softc s)"
      "\<forall>v. v \<noteq> u \<longrightarrow> softc s2 ! v = softc s ! v" "sc_ttyp (softc s2 ! u) = 0" "sc_ilen (softc s2 ! u) = 0"
      "b \<longrightarrow> sc_buf (softc s2 ! u) \<noteq> None"
      using i u by (auto simp: slinit_def split: if_splits option.splits)
    have old: "sc_ttyp (softc s2 ! v) = sc_ttyp (softc s ! v)" for v using s2 u by (cases "v = u") auto
    have buf: "sc_buf (softc s2 ! v) \<noteq> None" if "v < length (softc s)" "sc_ttyp (softc s ! v) \<noteq> 0" for v
      using that ok u s2(3) unfolding lines_ok_def by (metis (no_types, lifting))
    have link: "t_sc (ttys s x) = Some v \<longleftrightarrow> v < length (softc s) \<and> x \<noteq> 0 \<and> sc_ttyp (softc s ! v) = x" for x v
      using ok unfolding lines_ok_def by blast
    show ?thesis
    proof (cases b)
      case False
      then have "err = Some ENOBUFS" "s' = s2" using op True Some i by (auto simp: slopen_def Let_def)
      moreover have "lines_ok s2" unfolding lines_ok_def using link buf old s2(1,2) by simp
      ultimately show ?thesis by simp
    next
      case bt: True
      then have e: "err = None" "s' = upd_tty tp (ttyflush e) (upd_sc u (\<lambda>c. c\<lparr>sc_ttyp := tp\<rparr>) (upd_tty tp (\<lambda>t. t\<lparr>t_sc := Some u\<rparr>) s2))"
        using op True Some i by (auto simp: slopen_def Let_def)
      have t: "t_sc (ttys s' x) = (if x = tp then Some u else t_sc (ttys s x))" for x using e fl s2(1) by simp
      have sc: "softc s' ! v = (if v = u then (softc s2 ! u)\<lparr>sc_ttyp := tp\<rparr> else softc s ! v)"
        "length (softc s') = length (softc s)" for v
        using e s2 u by (auto simp: nth_list_update)
      have "t_sc (ttys s' x) = Some v \<longleftrightarrow> v < length (softc s') \<and> x \<noteq> 0 \<and> sc_ttyp (softc s' ! v) = x" for x v
        using link [of x v] link [of tp v] tp u t sc by auto
      moreover have "sc_buf (softc s' ! v) \<noteq> None" if "v < length (softc s')" "sc_ttyp (softc s' ! v) \<noteq> 0" for v
        using that sc buf [of v] s2(3,6) bt by (cases "v = u") auto
      ultimately have "lines_ok s'" unfolding lines_ok_def by blast
      moreover have "t_sc (ttys s' tp) = Some u" "sc_ilen (softc s' ! u) = 0" using t [of tp] sc(1) [of u] s2(5) by simp_all
      ultimately show ?thesis using e(1) by blast
    qed
  qed
qed

theorem sl_lines_paired_witness:
  "\<exists>err s'. slopen demo_sl_env True (Some (replicate 1024 0)) 60
      (demo_sl\<lparr>softc := [(softc demo_sl ! 0)\<lparr>sc_ttyp := 0, sc_buf := None\<rparr>],
         ttys := (\<lambda>_. \<lparr>t_line = 0, t_sc = None, t_carr_on = True, t_outq = []\<rparr>)\<rparr>) = (err, s') \<and> lines_ok s'"
proof -
  let ?s = "demo_sl\<lparr>softc := [(softc demo_sl ! 0)\<lparr>sc_ttyp := 0, sc_buf := None\<rparr>],
         ttys := (\<lambda>_. \<lparr>t_line = 0, t_sc = None, t_carr_on = True, t_outq = []\<rparr>)\<rparr>"
  obtain err s' where o: "slopen demo_sl_env True (Some (replicate 1024 0)) 60 ?s = (err, s')" by fastforce
  have "lines_ok ?s" "t_sc (ttys ?s 60) = None" "\<forall>t. t_sc (ttyflush demo_sl_env t) = t_sc t"
    by (auto simp: lines_ok_def demo_sl_def demo_sl_env_def less_Suc_eq)
  from sl_lines_paired [OF this(1) _ this(2,3) o] o show ?thesis by simp
qed

lemma slclose_unpairs:
  assumes ok: "lines_ok s" and t: "t_sc (ttys s tp) = Some u" and fl: "\<forall>t. t_sc (ttywflush e t) = t_sc t"
    and c: "slclose e tp s = Some s'"
  shows "lines_ok s' \<and> t_sc (ttys s' tp) = None \<and> sc_ttyp (softc s' ! u) = 0 \<and> sc_buf (softc s' ! u) = None"
proof -
  have link: "t_sc (ttys s x) = Some v \<longleftrightarrow> v < length (softc s) \<and> x \<noteq> 0 \<and> sc_ttyp (softc s ! v) = x" for x v
    using ok unfolding lines_ok_def by blast
  have u: "u < length (softc s)" "tp \<noteq> 0" "sc_ttyp (softc s ! u) = tp" using t link by auto
  have "t_sc (ttys s' x) = (if x = tp then None else t_sc (ttys s x))"
    and sc: "softc s' ! v = (if v = u then (softc s ! u)\<lparr>sc_ttyp := 0, sc_buf := None\<rparr> else softc s ! v)"
      "length (softc s') = length (softc s)" for x v
    using c t fl u by (auto simp: slclose_def Let_def nth_list_update split: option.splits)
  moreover from this have "t_sc (ttys s' x) = Some v \<longleftrightarrow> v < length (softc s') \<and> x \<noteq> 0 \<and> sc_ttyp (softc s' ! v) = x" for x v
    using link [of x v] link [of tp v] t u by auto
  moreover have "sc_buf (softc s' ! v) \<noteq> None" if "v < length (softc s')" "sc_ttyp (softc s' ! v) \<noteq> 0" for v
    using that sc ok unfolding lines_ok_def by (auto split: if_splits)
  ultimately show ?thesis unfolding lines_ok_def by auto
qed

end
