(* ===== verification/Net_Raw.thy ===== *)
theory Net_Raw
  imports Net_Route_Props
begin

text \<open>
  Raw sockets: the control blocks of \<open>kernel/net/raw_cb.c\<close> and the protocol of
  \<open>raw_usrreq.c\<close>.  The control blocks are a ring, doubly linked through the static block
  \<open>rawcb\<close>; the queue instructions of the VAX are \<open>insque\<close> and \<open>remque\<close>.  The socket layer
  and the mbuf allocator are not part of these files: every call of them is recorded, in
  order, in the field \<open>calls\<close>, and what such a call returns is an argument that may depend on
  all the calls before it (\<open>answer\<close>; 0 is failure).  Routes are released by \<open>rtfree\<close> of
  \<open>Net_Route\<close> and addresses are looked up by \<open>ifa_ifwithaddr\<close> of \<open>Net_If\<close>.  The
  debugging output of the data-link configuration is left out.
\<close>

unbundle bit_operations_syntax

section \<open>Data\<close>

definition RAW_LADDR :: flags where "RAW_LADDR = 1"
definition RAW_FADDR :: flags where "RAW_FADDR = 2"
definition RAWSNDQ :: nat where "RAWSNDQ = 2048"
definition RAWRCVQ :: nat where "RAWRCVQ = 2048"

record rawcb =
  rcb_next :: ptr
  rcb_prev :: ptr
  rcb_socket :: ptr
  rcb_faddr :: sockaddr
  rcb_laddr :: sockaddr
  sp_family :: nat
  sp_protocol :: nat
  rcb_pcb :: ptr
  rcb_options :: ptr
  rcb_route :: route
  rcb_flags :: flags
  rcb_ttl :: nat

record raw_header =
  raw_family :: nat
  raw_protocol :: nat
  raw_dst :: sockaddr
  raw_src :: sockaddr

text \<open>The fields of a socket these files read and write.\<close>

record socket =
  so_priv :: bool
  so_nofdref :: bool
  so_pcb :: ptr
  so_family :: nat

datatype raw_call =
  M_getclr | M_get | M_free ptr | M_freem ptr | M_copy ptr
  | Sbreserve_snd ptr nat | Sbreserve_rcv ptr nat | Sbrelease_snd ptr
  | Sbappendaddr ptr sockaddr ptr | Sorwakeup ptr
  | Sofree ptr | Soisconnected ptr | Soisdisconnected ptr | Socantsendmore ptr | Pr_output ptr ptr

record ('p, 'm) raw_state =
  rcbs :: "ptr \<Rightarrow> rawcb"
  sockets :: "ptr \<Rightarrow> socket"
  rtab :: "('p, 'm) rt_state"
  rawintrq :: ifqueue
  pkt_act :: "ptr \<Rightarrow> ptr"
  pkt_next :: "ptr \<Rightarrow> ptr"
  headers :: "ptr \<Rightarrow> raw_header"
  netisr_raw :: bool
  names :: "ptr \<Rightarrow> sockaddr"
  calls :: "raw_call list"

record ('p, 'm) raw_env =
  rtenv :: "('p, 'm) rt_env"
  rawcb_head :: ptr
  answer :: "raw_call list \<Rightarrow> raw_call \<Rightarrow> nat"
  output_error :: "raw_call list \<Rightarrow> errno option"
  sun_rpc :: bool
  ttlcontrol :: bool
  dli :: bool
  AF_IMPLINK :: nat
  AF_DLI :: nat

definition do_call :: "('p, 'm) raw_env \<Rightarrow> raw_call \<Rightarrow> ('p, 'm) raw_state \<Rightarrow> nat \<times> ('p, 'm) raw_state" where
  "do_call e c s = (answer e (calls s) c, s\<lparr>calls := calls s @ [c]\<rparr>)"

definition call :: "raw_call \<Rightarrow> ('p, 'm) raw_state \<Rightarrow> ('p, 'm) raw_state" where
  "call c s = s\<lparr>calls := calls s @ [c]\<rparr>"

definition upd_rcb :: "ptr \<Rightarrow> (rawcb \<Rightarrow> rawcb) \<Rightarrow> ('p, 'm) raw_state \<Rightarrow> ('p, 'm) raw_state" where
  "upd_rcb p f s = s\<lparr>rcbs := (rcbs s)(p := f (rcbs s p))\<rparr>"

definition upd_so :: "ptr \<Rightarrow> (socket \<Rightarrow> socket) \<Rightarrow> ('p, 'm) raw_state \<Rightarrow> ('p, 'm) raw_state" where
  "upd_so p f s = s\<lparr>sockets := (sockets s)(p := f (sockets s p))\<rparr>"

text \<open>The queue instructions: \<open>p\<close> after \<open>h\<close>, and \<open>p\<close> out of its ring.\<close>

definition insque :: "ptr \<Rightarrow> ptr \<Rightarrow> (ptr \<Rightarrow> rawcb) \<Rightarrow> ptr \<Rightarrow> rawcb" where
  "insque p h r =
     (let n = rcb_next (r h);
          r1 = r(p := (r p)\<lparr>rcb_next := n, rcb_prev := h\<rparr>);
          r2 = r1(n := (r1 n)\<lparr>rcb_prev := p\<rparr>)
      in r2(h := (r2 h)\<lparr>rcb_next := p\<rparr>))"

definition remque :: "ptr \<Rightarrow> (ptr \<Rightarrow> rawcb) \<Rightarrow> ptr \<Rightarrow> rawcb" where
  "remque p r =
     (let n = rcb_next (r p); v = rcb_prev (r p);
          r1 = r(v := (r v)\<lparr>rcb_next := n\<rparr>)
      in r1(n := (r1 n)\<lparr>rcb_prev := v\<rparr>))"

section \<open>Control blocks\<close>

text \<open>\<open>m_getclr\<close> hands out a block of zeros.\<close>

definition zero_rcb :: rawcb where
  "zero_rcb = \<lparr>rcb_next = 0, rcb_prev = 0, rcb_socket = 0, rcb_faddr = zero_addr, rcb_laddr = zero_addr,
     sp_family = 0, sp_protocol = 0, rcb_pcb = 0, rcb_options = 0, rcb_route = \<lparr>ro_rt = 0, ro_dst = zero_addr\<rparr>,
     rcb_flags = 0, rcb_ttl = 0\<rparr>"

definition raw_attach ::
  "('p, 'm) raw_env \<Rightarrow> ptr \<Rightarrow> nat \<Rightarrow> ('p, 'm) raw_state \<Rightarrow> errno option \<times> ('p, 'm) raw_state" where
  "raw_attach e so pro s =
     (case do_call e M_getclr s of (m, s1) \<Rightarrow>
      if m = 0 then (Some ENOBUFS, s1)
      else case do_call e (Sbreserve_snd so RAWSNDQ) s1 of (ok, s2) \<Rightarrow>
        if ok = 0 then (Some ENOBUFS, call (M_free m) s2)
        else case do_call e (Sbreserve_rcv so (if sun_rpc e then RAWRCVQ + 16 else RAWRCVQ)) s2 of (ok, s3) \<Rightarrow>
          if ok = 0 then (Some ENOBUFS, call (M_free m) (call (Sbrelease_snd so) s3))
          else
            (let s4 = s3\<lparr>rcbs := (rcbs s3)(m := zero_rcb)\<rparr>;
                 s5 = upd_so so (\<lambda>x. x\<lparr>so_pcb := m\<rparr>) (upd_rcb m (\<lambda>r. r\<lparr>rcb_socket := so\<rparr>) s4);
                 s6 = upd_rcb m (\<lambda>r. r\<lparr>rcb_pcb := 0, sp_family := so_family (sockets s5 so), sp_protocol := pro\<rparr>) s5;
                 s7 = (if ttlcontrol e then upd_rcb m (\<lambda>r. r\<lparr>rcb_ttl := 255\<rparr>) s6 else s6)
             in (None, s7\<lparr>rcbs := insque m (rawcb_head e) (rcbs s7)\<rparr>)))"

text \<open>\<open>None\<close> is a panic of \<open>rtfree\<close>.\<close>

definition raw_detach :: "('p, 'm) raw_env \<Rightarrow> ptr \<Rightarrow> ('p, 'm) raw_state \<Rightarrow> ('p, 'm) raw_state option" where
  "raw_detach e rp s =
     (let so = rcb_socket (rcbs s rp); rt = ro_rt (rcb_route (rcbs s rp)) in
      case (if rt \<noteq> 0 then map_option (\<lambda>t. s\<lparr>rtab := t\<rparr>) (rtfree (rtenv e) rt (rtab s)) else Some s) of
        None \<Rightarrow> None
      | Some s1 \<Rightarrow>
        (let s2 = call (Sofree so) (upd_so so (\<lambda>x. x\<lparr>so_pcb := 0\<rparr>) s1);
             s3 = s2\<lparr>rcbs := remque rp (rcbs s2)\<rparr>;
             s4 = (if rcb_options (rcbs s3 rp) \<noteq> 0 then call (M_freem (rcb_options (rcbs s3 rp))) s3 else s3)
         in Some (call (M_freem rp) s4)))"

definition raw_disconnect :: "('p, 'm) raw_env \<Rightarrow> ptr \<Rightarrow> ('p, 'm) raw_state \<Rightarrow> ('p, 'm) raw_state option" where
  "raw_disconnect e rp s =
     (let s1 = upd_rcb rp (\<lambda>r. r\<lparr>rcb_flags := rcb_flags r AND NOT RAW_FADDR\<rparr>) s in
      if so_nofdref (sockets s1 (rcb_socket (rcbs s1 rp))) then raw_detach e rp s1 else Some s1)"

text \<open>The internet address of a \<open>sockaddr_in\<close>: bytes 2 to 5 of the data.\<close>

definition sin_addr_any :: "sockaddr \<Rightarrow> bool" where
  "sin_addr_any a \<longleftrightarrow> (\<forall>b \<in> set (take 4 (drop 2 (sa_data a))). b = 0)"

text \<open>\<open>None\<close>: the interface list is cyclic and the lookup does not return.\<close>

definition raw_bind ::
  "('p, 'm) raw_env \<Rightarrow> ptr \<Rightarrow> ptr \<Rightarrow> ('p, 'm) raw_state \<Rightarrow> (errno option \<times> ('p, 'm) raw_state) option" where
  "raw_bind e so nam s =
     (let addr = names s nam; fam = sa_family addr; n = rnet (rtab s);
          bound = (let rp = so_pcb (sockets s so) in
                   (None, upd_rcb rp (\<lambda>r. r\<lparr>rcb_laddr := addr, rcb_flags := rcb_flags r OR RAW_LADDR\<rparr>) s))
      in if ifnet_list n = 0 then Some (Some EADDRNOTAVAIL, s)
         else if fam = AF_IMPLINK e \<or> fam = AF_INET then
           (if sin_addr_any addr then Some bound
            else map_option (\<lambda>a. if a = 0 then (Some EADDRNOTAVAIL, s) else bound) (ifa_ifwithaddr addr n))
         else if dli e \<and> fam = AF_DLI e then
           map_option (\<lambda>a. if a = 0 then (Some EADDRNOTAVAIL, s) else bound) (ifa_ifwithaddr addr n)
         else Some (Some EAFNOSUPPORT, s))"

definition raw_connaddr :: "ptr \<Rightarrow> ptr \<Rightarrow> ('p, 'm) raw_state \<Rightarrow> ('p, 'm) raw_state" where
  "raw_connaddr rp nam s =
     upd_rcb rp (\<lambda>r. r\<lparr>rcb_faddr := names s nam, rcb_flags := rcb_flags r OR RAW_FADDR\<rparr>) s"

section \<open>Input\<close>

definition raw_init :: "('p, 'm) raw_env \<Rightarrow> ('p, 'm) raw_state \<Rightarrow> ('p, 'm) raw_state" where
  "raw_init e s =
     (upd_rcb (rawcb_head e) (\<lambda>r. r\<lparr>rcb_next := rawcb_head e, rcb_prev := rawcb_head e\<rparr>) s)
       \<lparr>rawintrq := (rawintrq s)\<lparr>ifq_maxlen := IFQ_MAXLEN\<rparr>\<rparr>"

definition raw_input ::
  "('p, 'm) raw_env \<Rightarrow> ptr \<Rightarrow> raw_header \<Rightarrow> ('p, 'm) raw_state \<Rightarrow> ('p, 'm) raw_state" where
  "raw_input e m0 hdr s =
     (case do_call e M_get s of (m, s1) \<Rightarrow>
      if m = 0 then call (M_freem m0) s1
      else
        (let s2 = s1\<lparr>pkt_next := (pkt_next s1)(m := m0), headers := (headers s1)(m := hdr)\<rparr>;
             s3 = (if IF_QFULL (rawintrq s2) then call (M_freem m) s2
                   else (case IF_ENQUEUE (pkt_act s2) (rawintrq s2) m of (a, q) \<Rightarrow> s2\<lparr>pkt_act := a, rawintrq := q\<rparr>))
         in s3\<lparr>netisr_raw := True\<rparr>))"

definition raw_match :: "rawcb \<Rightarrow> raw_header \<Rightarrow> bool" where
  "raw_match rp rh \<longleftrightarrow> sp_family rp = raw_family rh
     \<and> (sp_protocol rp \<noteq> 0 \<longrightarrow> sp_protocol rp = raw_protocol rh)
     \<and> (on (rcb_flags rp) RAW_LADDR \<longrightarrow> rcb_laddr rp = raw_dst rh)
     \<and> (on (rcb_flags rp) RAW_FADDR \<longrightarrow> rcb_faddr rp = raw_src rh)"

text \<open>Appending the chain \<open>n\<close> to the receive buffer of a socket, or dropping it.\<close>

definition raw_append :: "('p, 'm) raw_env \<Rightarrow> ptr \<Rightarrow> sockaddr \<Rightarrow> ptr \<Rightarrow> ('p, 'm) raw_state \<Rightarrow> ('p, 'm) raw_state" where
  "raw_append e so src n s =
     (case do_call e (Sbappendaddr so src n) s of (ok, s1) \<Rightarrow>
        if ok = 0 then call (M_freem n) s1 else call (Sorwakeup so) s1)"

definition raw_copy :: "('p, 'm) raw_env \<Rightarrow> ptr \<Rightarrow> ptr \<Rightarrow> ('p, 'm) raw_state \<Rightarrow> ('p, 'm) raw_state" where
  "raw_copy e so m s =
     (case do_call e (M_copy (pkt_next s m)) s of (n, s1) \<Rightarrow>
        if n \<noteq> 0 then raw_append e so (raw_src (headers s1 m)) n s1 else s1)"

text \<open>The loop over the ring: the copy for a block is made when the next match is found.\<close>

partial_function (option) raw_scan ::
  "('p, 'm) raw_env \<Rightarrow> ptr \<Rightarrow> ptr \<Rightarrow> ptr \<Rightarrow> ('p, 'm) raw_state \<Rightarrow> (ptr \<times> ('p, 'm) raw_state) option" where
  "raw_scan e m rp lst s =
     (if rp = rawcb_head e then Some (lst, s)
      else if \<not> raw_match (rcbs s rp) (headers s m) then raw_scan e m (rcb_next (rcbs s rp)) lst s
      else
        (let s1 = (if lst \<noteq> 0 then raw_copy e lst m s else s)
         in raw_scan e m (rcb_next (rcbs s1 rp)) (rcb_socket (rcbs s1 rp)) s1))"

definition raw_deliver :: "('p, 'm) raw_env \<Rightarrow> ptr \<Rightarrow> ('p, 'm) raw_state \<Rightarrow> ('p, 'm) raw_state option" where
  "raw_deliver e m s =
     (case raw_scan e m (rcb_next (rcbs s (rawcb_head e))) 0 s of None \<Rightarrow> None
      | Some (lst, s1) \<Rightarrow>
        Some (if lst \<noteq> 0
              then call (M_free m) (raw_append e lst (raw_src (headers s1 m)) (pkt_next s1 m) s1)
              else call (M_freem m) s1))"

partial_function (option) rawintr :: "('p, 'm) raw_env \<Rightarrow> ('p, 'm) raw_state \<Rightarrow> ('p, 'm) raw_state option" where
  "rawintr e s =
     (case IF_DEQUEUE (pkt_act s) (rawintrq s) of (a, q, m) \<Rightarrow>
        (let s1 = s\<lparr>pkt_act := a, rawintrq := q\<rparr> in
         if m = 0 then Some s1
         else (case raw_deliver e m s1 of None \<Rightarrow> None | Some s2 \<Rightarrow> rawintr e s2)))"

section \<open>User requests\<close>

datatype pru =
  PRU_ATTACH | PRU_DETACH | PRU_BIND | PRU_LISTEN | PRU_CONNECT | PRU_ACCEPT | PRU_DISCONNECT | PRU_SHUTDOWN
  | PRU_RCVD | PRU_SEND | PRU_ABORT | PRU_CONTROL | PRU_SENSE | PRU_RCVOOB | PRU_SENDOOB | PRU_SOCKADDR
  | PRU_PEERADDR | PRU_CONNECT2 | PRU_OTHER

text \<open>
  \<open>raw_request\<close> is the switch; it returns the error, the packet that is still to be freed and
  the state.  \<open>raw_usrreq\<close> is the procedure around it.  \<open>None\<close> is a panic.
\<close>

definition raw_send ::
  "('p, 'm) raw_env \<Rightarrow> ptr \<Rightarrow> ptr \<Rightarrow> ptr \<Rightarrow> ptr \<Rightarrow> ('p, 'm) raw_state \<Rightarrow> errno option \<times> ptr \<times> ('p, 'm) raw_state" where
  "raw_send e rp so m nam s =
     (let fl = on (rcb_flags (rcbs s rp)) RAW_FADDR;
          ship = (\<lambda>s1. let err = output_error e (calls s1); s2 = call (Pr_output m so) s1 in
                   (err, 0, if nam \<noteq> 0 then upd_rcb rp (\<lambda>r. r\<lparr>rcb_flags := rcb_flags r AND NOT RAW_FADDR\<rparr>) s2 else s2))
      in if nam \<noteq> 0 then (if fl then (Some EISCONN, m, s) else ship (raw_connaddr rp nam s))
         else if \<not> fl then (Some ENOTCONN, m, s) else ship s)"

fun raw_request ::
  "('p, 'm) raw_env \<Rightarrow> pru \<Rightarrow> ptr \<Rightarrow> ptr \<Rightarrow> ptr \<Rightarrow> ptr \<Rightarrow> ('p, 'm) raw_state
     \<Rightarrow> (errno option \<times> ptr \<times> ('p, 'm) raw_state) option" where
  "raw_request e PRU_ATTACH rp so m nam s =
     (if \<not> so_priv (sockets s so) then Some (Some EACCES, m, s)
      else if rp \<noteq> 0 then Some (Some EINVAL, m, s)
      else case raw_attach e so nam s of (err, s1) \<Rightarrow> Some (err, m, s1))"
| "raw_request e PRU_DETACH rp so m nam s =
     (if rp = 0 then Some (Some ENOTCONN, m, s)
      else map_option (\<lambda>s1. (None, m, s1)) (raw_detach e rp s))"
| "raw_request e PRU_CONNECT rp so m nam s =
     (if on (rcb_flags (rcbs s rp)) RAW_FADDR then Some (Some EISCONN, m, s)
      else Some (None, m, call (Soisconnected so) (raw_connaddr rp nam s)))"
| "raw_request e PRU_CONNECT2 rp so m nam s = Some (Some EOPNOTSUPP, m, s)"
| "raw_request e PRU_BIND rp so m nam s =
     (if on (rcb_flags (rcbs s rp)) RAW_LADDR then Some (Some EINVAL, m, s)
      else map_option (\<lambda>(err, s1). (err, m, s1)) (raw_bind e so nam s))"
| "raw_request e PRU_DISCONNECT rp so m nam s =
     (if \<not> on (rcb_flags (rcbs s rp)) RAW_FADDR then Some (Some ENOTCONN, m, s)
      else map_option (\<lambda>s1. (None, m, call (Soisdisconnected so) s1)) (raw_disconnect e rp s))"
| "raw_request e PRU_SHUTDOWN rp so m nam s = Some (None, m, call (Socantsendmore so) s)"
| "raw_request e PRU_SEND rp so m nam s = Some (raw_send e rp so m nam s)"
| "raw_request e PRU_ABORT rp so m nam s =
     map_option (\<lambda>s1. (None, m, call (Soisdisconnected so) (call (Sofree so) s1))) (raw_disconnect e rp s)"
| "raw_request e PRU_SENSE rp so m nam s = Some (None, 0, s)"
| "raw_request e PRU_RCVOOB rp so m nam s = Some (Some EOPNOTSUPP, 0, s)"
| "raw_request e PRU_RCVD rp so m nam s = Some (Some EOPNOTSUPP, 0, s)"
| "raw_request e PRU_LISTEN rp so m nam s = Some (Some EOPNOTSUPP, m, s)"
| "raw_request e PRU_ACCEPT rp so m nam s = Some (Some EOPNOTSUPP, m, s)"
| "raw_request e PRU_SENDOOB rp so m nam s = Some (Some EOPNOTSUPP, m, s)"
| "raw_request e PRU_SOCKADDR rp so m nam s = Some (None, m, s\<lparr>names := (names s)(nam := rcb_laddr (rcbs s rp))\<rparr>)"
| "raw_request e PRU_PEERADDR rp so m nam s = Some (None, m, s\<lparr>names := (names s)(nam := rcb_faddr (rcbs s rp))\<rparr>)"
| "raw_request e PRU_CONTROL rp so m nam s = None"
| "raw_request e PRU_OTHER rp so m nam s = None"

definition raw_usrreq ::
  "('p, 'm) raw_env \<Rightarrow> pru \<Rightarrow> ptr \<Rightarrow> ptr \<Rightarrow> ptr \<Rightarrow> nat \<Rightarrow> ('p, 'm) raw_state
     \<Rightarrow> (errno option \<times> ('p, 'm) raw_state) option" where
  "raw_usrreq e req so m nam rights_len s =
     (let rp = so_pcb (sockets s so);
          release = (\<lambda>(err, m, s). (err, if m \<noteq> 0 then call (M_freem m) s else s))
      in if req = PRU_CONTROL then Some (Some EOPNOTSUPP, s)
         else if rights_len \<noteq> 0 then Some (release (Some EOPNOTSUPP, m, s))
         else if rp = 0 \<and> req \<noteq> PRU_ATTACH then Some (release (Some EINVAL, m, s))
         else map_option release (raw_request e req rp so m nam s))"

end
