(* ===== verification/Net_Raw_Props.thy ===== *)
theory Net_Raw_Props
  imports Net_Raw
begin

text \<open>
  Properties of the raw sockets: the ring of control blocks under the queue instructions, the
  pairing of sockets and control blocks under every user request, and the delivery of queued
  packets compared with a reference definition on lists.
\<close>

section \<open>The ring of control blocks\<close>

text \<open>\<open>ring_from r h v p xs\<close>: from \<open>p\<close>, whose predecessor is \<open>v\<close>, the ring runs through \<open>xs\<close> back to \<open>h\<close>.\<close>

primrec ring_from :: "(ptr \<Rightarrow> rawcb) \<Rightarrow> ptr \<Rightarrow> ptr \<Rightarrow> ptr \<Rightarrow> ptr list \<Rightarrow> bool" where
  "ring_from r h v p [] \<longleftrightarrow> p = h \<and> rcb_prev (r h) = v"
| "ring_from r h v p (x # xs) \<longleftrightarrow> p = x \<and> x \<noteq> h \<and> rcb_prev (r x) = v \<and> ring_from r h x (rcb_next (r x)) xs"

definition ring :: "(ptr \<Rightarrow> rawcb) \<Rightarrow> ptr \<Rightarrow> ptr list \<Rightarrow> bool" where
  "ring r h xs \<longleftrightarrow> ring_from r h h (rcb_next (r h)) xs \<and> distinct xs"

lemma ring_from_head: "ring_from r h v p xs \<Longrightarrow> h \<notin> set xs"
  by (induction xs arbitrary: v p) auto

lemma ring_from_cong:
  assumes "\<And>x. x \<in> set xs \<Longrightarrow> rcb_next (r' x) = rcb_next (r x) \<and> rcb_prev (r' x) = rcb_prev (r x)"
    and "rcb_prev (r' h) = rcb_prev (r h)"
  shows "ring_from r' h v p xs = ring_from r h v p xs"
  using assms by (induction xs arbitrary: v p) auto

lemma ring_cong:
  assumes "\<And>x. x \<in> set xs \<union> {h} \<Longrightarrow> rcb_next (r' x) = rcb_next (r x) \<and> rcb_prev (r' x) = rcb_prev (r x)"
  shows "ring r' h xs = ring r h xs"
  using ring_from_cong [of xs r' r h] assms by (simp add: ring_def)

lemma insque_links:
  assumes "p \<noteq> h" and "p \<noteq> rcb_next (r h)"
  shows "rcb_next (insque p h r x) = (if x = h then p else if x = p then rcb_next (r h) else rcb_next (r x))"
    and "rcb_prev (insque p h r x) = (if x = rcb_next (r h) then p else if x = p then h else rcb_prev (r x))"
  using assms by (auto simp: insque_def Let_def)

lemma remque_links:
  "rcb_next (remque p r x) = (if x = rcb_prev (r p) then rcb_next (r p) else rcb_next (r x))"
  "rcb_prev (remque p r x) = (if x = rcb_next (r p) then rcb_prev (r p) else rcb_prev (r x))"
  by (auto simp: remque_def Let_def)

lemma ring_insque:
  assumes R: "ring r h xs" and p: "p \<notin> set xs" "p \<noteq> h"
  shows "ring (insque p h r) h (p # xs)"
proof (cases xs)
  case Nil
  then have n: "rcb_next (r h) = h" using R by (simp add: ring_def)
  then show ?thesis using Nil p insque_links [of p h r] by (simp add: ring_def)
next
  case (Cons y ys)
  then have y: "rcb_next (r h) = y" "y \<noteq> h" "y \<noteq> p" "distinct (y # ys)" "ring_from r h y (rcb_next (r y)) ys"
    using R p by (auto simp: ring_def)
  have l: "p \<noteq> rcb_next (r h)" using y by simp
  have h: "h \<notin> set ys" using ring_from_head [OF y(5)] .
  have "ring_from (insque p h r) h y (rcb_next (r y)) ys = ring_from r h y (rcb_next (r y)) ys"
    using y p Cons h by (intro ring_from_cong) (auto simp: insque_links [of p h r, OF p(2) l])
  then show ?thesis using Cons y p by (auto simp: ring_def insque_links [of p h r, OF p(2) l])
qed

lemma ring_from_around:
  "ring_from r h v p (us @ x # vs) \<Longrightarrow> rcb_prev (r x) = last (v # us) \<and> rcb_next (r x) = hd (vs @ [h])"
proof (induction us arbitrary: v p)
  case Nil
  then show ?case by (cases vs) auto
next
  case (Cons u us)
  then have "ring_from r h u (rcb_next (r u)) (us @ x # vs)" by simp
  from Cons.IH [OF this] show ?case by simp
qed

lemma remque_from:
  assumes "ring_from r h v p (us @ x # vs)" and "distinct (us @ x # vs)" and "v \<notin> set (us @ x # vs)"
  shows "ring_from (remque x r) h v (if us = [] then rcb_next (r x) else p) (us @ vs)"
  using assms
proof (induction us arbitrary: v p)
  case Nil
  have f: "ring_from r h x (rcb_next (r x)) vs" "rcb_prev (r x) = v" using Nil by auto
  then have h: "h \<notin> set vs" using ring_from_head by blast
  show ?case
  proof (cases vs)
    case Nil
    then show ?thesis using f by (simp add: remque_links)
  next
    case (Cons y ys)
    then have y: "rcb_next (r x) = y" "y \<noteq> h" "ring_from r h y (rcb_next (r y)) ys" "y \<noteq> v" "y \<notin> set ys" "v \<notin> set ys"
      using f Nil.prems(2,3) by auto
    have "ring_from (remque x r) h y (rcb_next (r y)) ys = ring_from r h y (rcb_next (r y)) ys"
      using f y h Cons by (intro ring_from_cong) (auto simp: remque_links)
    then show ?thesis using f Cons y by (auto simp: remque_links)
  qed
next
  case (Cons u us)
  have u: "p = u" "u \<noteq> h" "rcb_prev (r u) = v" "ring_from r h u (rcb_next (r u)) (us @ x # vs)" using Cons.prems by auto
  have I: "ring_from (remque x r) h u (if us = [] then rcb_next (r x) else rcb_next (r u)) (us @ vs)"
    using Cons.IH [OF u(4)] Cons.prems(2) by simp
  note a = ring_from_around [OF u(4)]
  have "hd (vs @ [h]) \<noteq> u" using Cons.prems(2) u(2) by (cases vs) auto
  then have "rcb_prev (remque x r u) = v" using u a by (simp add: remque_links)
  moreover have "us \<noteq> [] \<Longrightarrow> last us \<noteq> u" using Cons.prems(2) last_in_set [of us] by auto
  then have "rcb_next (remque x r u) = (if us = [] then rcb_next (r x) else rcb_next (r u))"
    using a by (auto simp: remque_links)
  ultimately show ?case using I u by simp
qed

lemma ring_remque:
  assumes "ring r h (us @ x # vs)"
  shows "ring (remque x r) h (us @ vs)"
proof -
  have f: "ring_from r h h (rcb_next (r h)) (us @ x # vs)" and d: "distinct (us @ x # vs)" using assms by (auto simp: ring_def)
  have h: "h \<notin> set (us @ x # vs)" by (rule ring_from_head [OF f])
  have "us \<noteq> [] \<Longrightarrow> last us \<noteq> h" using h last_in_set [of us] by auto
  then have "rcb_next (remque x r h) = (if us = [] then rcb_next (r x) else rcb_next (r h))"
    using ring_from_around [OF f] by (auto simp: remque_links)
  then show ?thesis using remque_from [OF f d h] d by (simp add: ring_def)
qed

section \<open>Sockets and control blocks\<close>

definition raw_ok :: "ptr \<Rightarrow> ('p, 'm) raw_state \<Rightarrow> ptr list \<Rightarrow> bool" where
  "raw_ok h s xs \<longleftrightarrow> ring (rcbs s) h xs \<and> 0 \<notin> set xs
     \<and> (\<forall>x \<in> set xs. rcb_socket (rcbs s x) \<noteq> 0 \<and> so_pcb (sockets s (rcb_socket (rcbs s x))) = x)
     \<and> (\<forall>so. so_pcb (sockets s so) \<noteq> 0 \<longrightarrow>
          so_pcb (sockets s so) \<in> set xs \<and> rcb_socket (rcbs s (so_pcb (sockets s so))) = so)"

lemma raw_ok_cong:
  assumes "raw_ok h s xs" and "sockets s' = sockets s"
    and "\<And>x. rcb_next (rcbs s' x) = rcb_next (rcbs s x) \<and> rcb_prev (rcbs s' x) = rcb_prev (rcbs s x)
      \<and> rcb_socket (rcbs s' x) = rcb_socket (rcbs s x)"
  shows "raw_ok h s' xs"
  using assms ring_cong [of xs h "rcbs s'" "rcbs s"] by (simp add: raw_ok_def)

lemma raw_call_frame [simp]:
  "rcbs (call c s) = rcbs s" "sockets (call c s) = sockets s" "rtab (call c s) = rtab s" "calls (call c s) = calls s @ [c]"
  "headers (call c s) = headers s" "pkt_next (call c s) = pkt_next s" "pkt_act (call c s) = pkt_act s"
  "rawintrq (call c s) = rawintrq s"
  by (simp_all add: call_def)

lemma raw_ok_call [simp]: "raw_ok h (call c s) xs = raw_ok h s xs"
  by (simp add: raw_ok_def)

lemma upd_rcb_frame [simp]:
  "rcbs (upd_rcb p f s) = (rcbs s)(p := f (rcbs s p))" "sockets (upd_rcb p f s) = sockets s"
  "rtab (upd_rcb p f s) = rtab s" "calls (upd_rcb p f s) = calls s"
  by (simp_all add: upd_rcb_def)

lemma upd_so_frame [simp]:
  "sockets (upd_so p f s) = (sockets s)(p := f (sockets s p))" "rcbs (upd_so p f s) = rcbs s"
  "rtab (upd_so p f s) = rtab s" "calls (upd_so p f s) = calls s"
  by (simp_all add: upd_so_def)

lemma attach_ok:
  assumes R: "raw_ok h s xs" and so: "so \<noteq> 0" "so_pcb (sockets s so) = 0" and h: "rawcb_head e = h"
    and fresh: "\<And>hist. answer e hist M_getclr \<notin> set xs \<union> {h}" and a: "raw_attach e so pro s = (err, s')"
  shows "if err = None then raw_ok h s' (so_pcb (sockets s' so) # xs) else err = Some ENOBUFS \<and> raw_ok h s' xs"
proof -
  let ?m = "answer e (calls s) M_getclr"
  have m: "?m \<notin> set xs" "?m \<noteq> h" using fresh by auto
  show ?thesis
  proof (cases "err = None")
    case True
    define r where "r = (rcbs s)(?m := zero_rcb\<lparr>rcb_socket := so, sp_family := so_family (sockets s so),
        sp_protocol := pro, rcb_ttl := (if ttlcontrol e then 255 else 0)\<rparr>)"
    have s': "?m \<noteq> 0" "rcbs s' = insque ?m h r" "sockets s' = (sockets s)(so := (sockets s so)\<lparr>so_pcb := ?m\<rparr>)"
      using a True h unfolding r_def
      by (auto simp: raw_attach_def do_call_def Let_def zero_rcb_def upd_rcb_def upd_so_def split: if_splits)
    have "ring r h xs = ring (rcbs s) h xs" using m by (intro ring_cong) (auto simp: r_def)
    then have R1: "ring (insque ?m h r) h (?m # xs)" using R m by (intro ring_insque) (auto simp: raw_ok_def)
    have k: "rcb_socket (insque ?m h r x) = rcb_socket (r x)" for x by (auto simp: insque_def Let_def)
    have "rcb_socket (rcbs s x) \<noteq> so" if "x \<in> set xs" for x using R so that by (force simp: raw_ok_def)
    moreover have "so_pcb (sockets s q) \<noteq> ?m" for q using R m s'(1) by (metis raw_ok_def)
    ultimately show ?thesis using True R R1 s' so m unfolding raw_ok_def s' k by (auto simp: r_def)
  next
    case False
    then have "err = Some ENOBUFS" "rcbs s' = rcbs s" "sockets s' = sockets s"
      using a by (auto simp: raw_attach_def do_call_def Let_def split: if_splits)
    then show ?thesis using R by (auto intro: raw_ok_cong)
  qed
qed

definition detach_calls :: "('p, 'm) raw_state \<Rightarrow> ptr \<Rightarrow> raw_call list" where
  "detach_calls s rp = [Sofree (rcb_socket (rcbs s rp))]
     @ (if rcb_options (rcbs s rp) \<noteq> 0 then [M_freem (rcb_options (rcbs s rp))] else []) @ [M_freem rp]"

lemma detach_ok:
  assumes R: "raw_ok h s xs" and rp: "rp \<in> set xs"
  shows "\<exists>s'. raw_detach e rp s = Some s' \<and> raw_ok h s' (removeAll rp xs) \<and> calls s' = calls s @ detach_calls s rp"
proof -
  let ?so = "rcb_socket (rcbs s rp)" and ?rt = "ro_rt (rcb_route (rcbs s rp))"
  obtain s1 where s1: "(if ?rt \<noteq> 0 then map_option (\<lambda>t. s\<lparr>rtab := t\<rparr>) (rtfree (rtenv e) ?rt (rtab s)) else Some s) = Some s1"
    and f: "rcbs s1 = rcbs s" "sockets s1 = sockets s" "calls s1 = calls s"
  proof (cases "?rt = 0")
    case False
    then obtain t where "rtfree (rtenv e) ?rt (rtab s) = Some t" by (simp add: rtfree_def Let_def)
    then show ?thesis using that [of "s\<lparr>rtab := t\<rparr>"] False by simp
  qed (use that [of s] in simp)
  obtain us vs where xs: "xs = us @ rp # vs" using rp by (auto dest: split_list)
  have d: "distinct xs" using R by (simp add: raw_ok_def ring_def)
  then have rm: "removeAll rp xs = us @ vs" unfolding xs by (simp add: removeAll_id)
  define s' where "s' = call (M_freem rp) (let s3 = (call (Sofree ?so) (upd_so ?so (\<lambda>x. x\<lparr>so_pcb := 0\<rparr>) s1))
      \<lparr>rcbs := remque rp (rcbs s)\<rparr> in if rcb_options (rcbs s3 rp) \<noteq> 0 then call (M_freem (rcb_options (rcbs s3 rp))) s3 else s3)"
  have r: "raw_detach e rp s = Some s'"
    unfolding raw_detach_def Let_def s1 option.case by (simp add: s'_def Let_def f)
  have g: "rcbs s' = remque rp (rcbs s)" "sockets s' = (sockets s)(?so := (sockets s ?so)\<lparr>so_pcb := 0\<rparr>)"
      "calls s' = calls s @ detach_calls s rp"
    by (auto simp: s'_def Let_def f detach_calls_def remque_def)
  have "ring (remque rp (rcbs s)) h (us @ vs)" using R xs by (intro ring_remque) (simp add: raw_ok_def)
  moreover have k: "rcb_socket (remque rp (rcbs s) x) = rcb_socket (rcbs s x)" for x by (auto simp: remque_def Let_def)
  moreover have o: "rcb_socket (rcbs s x) \<noteq> ?so" if "x \<in> set (us @ vs)" for x
  proof -
    have "x \<in> set xs" "x \<noteq> rp" using that d xs by auto
    then show ?thesis using R rp by (metis raw_ok_def)
  qed
  moreover have "so_pcb (sockets s q) \<in> set (us @ vs)" if "so_pcb (sockets s q) \<noteq> 0" "q \<noteq> ?so" for q
  proof -
    have "so_pcb (sockets s q) \<in> set xs" "so_pcb (sockets s q) \<noteq> rp" using R that by (metis raw_ok_def)+
    then show ?thesis unfolding xs by auto
  qed
  moreover have "\<forall>x \<in> set (us @ vs). x \<in> set xs" using xs by auto
  moreover have "0 \<notin> set (us @ vs)" using R xs by (simp add: raw_ok_def)
  ultimately have "raw_ok h s' (us @ vs)" using R unfolding raw_ok_def g by simp
  then show ?thesis using r g rm by auto
qed

lemma disconnect_ok:
  assumes R: "raw_ok h s xs" and rp: "rp \<in> set xs"
  shows "\<exists>s'. raw_disconnect e rp s = Some s'
    \<and> (if so_nofdref (sockets s (rcb_socket (rcbs s rp)))
       then raw_ok h s' (removeAll rp xs) \<and> calls s' = calls s @ detach_calls s rp else raw_ok h s' xs)"
proof -
  let ?s = "upd_rcb rp (\<lambda>r. r\<lparr>rcb_flags := rcb_flags r AND NOT RAW_FADDR\<rparr>) s"
  have "raw_ok h ?s xs" using R by (rule raw_ok_cong) auto
  then show ?thesis using detach_ok [of h ?s xs rp e] rp
    by (cases "so_nofdref (sockets s (rcb_socket (rcbs s rp)))") (auto simp: raw_disconnect_def detach_calls_def)
qed

lemma bind_frame:
  assumes R: "raw_ok h s xs" and b: "raw_bind e so nam s = Some (err, s')"
  shows "raw_ok h s' xs"
proof -
  have "s' = s \<or> s' = upd_rcb (so_pcb (sockets s so))
      (\<lambda>r. r\<lparr>rcb_laddr := names s nam, rcb_flags := rcb_flags r OR RAW_LADDR\<rparr>) s"
    using b by (auto simp: raw_bind_def Let_def split: if_splits)
  then show ?thesis using R by (auto intro!: raw_ok_cong [OF R])
qed

lemma send_frame:
  assumes "raw_send e rp so m nam s = (err, m1, s1)"
  shows "sockets s1 = sockets s \<and> (\<forall>x. rcb_next (rcbs s1 x) = rcb_next (rcbs s x)
    \<and> rcb_prev (rcbs s1 x) = rcb_prev (rcbs s x) \<and> rcb_socket (rcbs s1 x) = rcb_socket (rcbs s x))"
  using assms by (auto simp: raw_send_def Let_def raw_connaddr_def split: if_splits)

lemma bind_returns:
  assumes "net_ok (rnet (rtab s)) ifl al"
  shows "\<exists>err s'. raw_bind e so nam s = Some (err, s')"
proof -
  obtain a where "ifa_ifwithaddr (names s nam) (rnet (rtab s)) = Some a" using ifa_ifwithaddr_first [OF assms] by blast
  then have "raw_bind e so nam s \<noteq> None" by (simp add: raw_bind_def Let_def)
  then show ?thesis by auto
qed

text \<open>
  The specification: which requests take the block of the socket out of the ring (\<open>nofd\<close>: no file
  descriptor refers to the socket), the ring after a request, and the errors of the requests that
  close a socket (\<open>rp\<close>: the block of the socket, \<open>faddr\<close>: it has a foreign address).
\<close>

definition detaches :: "pru \<Rightarrow> bool \<Rightarrow> bool" where
  "detaches req nofd \<longleftrightarrow> req = PRU_DETACH \<or> req \<in> {PRU_DISCONNECT, PRU_ABORT} \<and> nofd"

definition blocks_after :: "pru \<Rightarrow> errno option \<Rightarrow> bool \<Rightarrow> ptr \<Rightarrow> ptr \<Rightarrow> ptr list \<Rightarrow> ptr list" where
  "blocks_after req err nofd new rp xs =
     (if err \<noteq> None then xs else if req = PRU_ATTACH then new # xs
      else if detaches req nofd then removeAll rp xs else xs)"

definition closing_error :: "pru \<Rightarrow> ptr \<Rightarrow> bool \<Rightarrow> errno option" where
  "closing_error req rp faddr = (if rp = 0 then Some EINVAL
     else if req = PRU_DISCONNECT \<and> \<not> faddr then Some ENOTCONN else None)"

definition request_ok :: "ptr \<Rightarrow> pru \<Rightarrow> ptr \<Rightarrow> ptr list \<Rightarrow> ('p, 'm) raw_state \<Rightarrow> errno option \<Rightarrow> ('p, 'm) raw_state \<Rightarrow> bool" where
  "request_ok h req so xs s err s' \<longleftrightarrow>
     (let rp = so_pcb (sockets s so); nofd = so_nofdref (sockets s so)
      in raw_ok h s' (blocks_after req err nofd (so_pcb (sockets s' so)) rp xs)
       \<and> (err = None \<and> detaches req nofd \<longrightarrow> M_freem rp \<in> set (drop (length (calls s)) (calls s')))
       \<and> (err = None \<and> req = PRU_ATTACH \<longrightarrow> rp = 0 \<and> so_priv (sockets s so)))"

text \<open>A request that keeps the ring, and the release of a packet.\<close>

lemma request_ok_same:
  assumes "raw_ok h s' xs" and "req \<noteq> PRU_ATTACH \<or> err \<noteq> None" and "\<not> detaches req (so_nofdref (sockets s so)) \<or> err \<noteq> None"
  shows "request_ok h req so xs s err s'"
  using assms by (auto simp: request_ok_def blocks_after_def Let_def)

lemma request_ok_calls:
  assumes "request_ok h req so xs s err s'"
  shows "request_ok h req so xs s err (call c s')"
  using assms by (auto simp: request_ok_def Let_def)

lemma request_ok_removed:
  assumes "raw_ok h s' (removeAll (so_pcb (sockets s so)) xs)" and "M_freem (so_pcb (sockets s so)) \<in> set (drop (length (calls s)) (calls s'))"
    and "detaches req (so_nofdref (sockets s so))"
  shows "request_ok h req so xs s None s'"
  using assms by (auto simp: request_ok_def blocks_after_def Let_def detaches_def)

lemma disconnect_request:
  assumes R: "raw_ok h s xs" and rp: "so_pcb (sockets s so) \<noteq> 0" and req: "req = PRU_DISCONNECT \<or> req = PRU_ABORT"
  shows "\<exists>s1. raw_disconnect e (so_pcb (sockets s so)) s = Some s1 \<and> request_ok h req so xs s None s1"
proof -
  let ?rp = "so_pcb (sockets s so)"
  have m: "?rp \<in> set xs" "rcb_socket (rcbs s ?rp) = so" using R rp by (auto simp: raw_ok_def)
  from disconnect_ok [OF R m(1), of e] obtain s1 where s1: "raw_disconnect e ?rp s = Some s1"
    and c: "if so_nofdref (sockets s so) then raw_ok h s1 (removeAll ?rp xs) \<and> calls s1 = calls s @ detach_calls s ?rp
       else raw_ok h s1 xs" unfolding m(2) by blast
  have "request_ok h req so xs s None s1"
  proof (cases "so_nofdref (sockets s so)")
    case True
    then show ?thesis using c req by (intro request_ok_removed) (auto simp: detach_calls_def detaches_def)
  next
    case False
    then show ?thesis using c req by (intro request_ok_same) (auto simp: detaches_def)
  qed
  with s1 show ?thesis by blast
qed

lemma raw_request_pairs:
  assumes R: "raw_ok h s xs" and h: "rawcb_head e = h" and so: "so \<noteq> 0"
    and fresh: "\<And>hist. answer e hist M_getclr \<notin> set xs \<union> {h}" and net: "net_ok (rnet (rtab s)) ifl al"
    and rp: "rp = so_pcb (sockets s so)" and pcb: "req = PRU_ATTACH \<or> rp \<noteq> 0" and req: "req \<noteq> PRU_OTHER" "req \<noteq> PRU_CONTROL"
  shows "\<exists>err m1 s1. raw_request e req rp so m nam s = Some (err, m1, s1) \<and> request_ok h req so xs s err s1
    \<and> (req \<in> {PRU_DETACH, PRU_DISCONNECT, PRU_ABORT} \<longrightarrow> err = closing_error req rp (on (rcb_flags (rcbs s rp)) RAW_FADDR))"
proof (cases req)
  case PRU_ATTACH
  obtain err s1 where a: "raw_attach e so nam s = (err, s1)" by fastforce
  have "request_ok h PRU_ATTACH so xs s err s1" if "so_priv (sockets s so)" "rp = 0"
    using attach_ok [OF R so _ h fresh a] that rp by (auto simp: request_ok_def blocks_after_def detaches_def Let_def)
  moreover have "request_ok h PRU_ATTACH so xs s (Some x) s" for x using R by (intro request_ok_same) auto
  ultimately show ?thesis using PRU_ATTACH a by auto
next
  case PRU_DETACH
  have "rp \<in> set xs" using R rp pcb PRU_DETACH by (auto simp: raw_ok_def)
  from detach_ok [OF R this, of e] obtain s1 where "raw_detach e rp s = Some s1" "raw_ok h s1 (removeAll rp xs)"
    "calls s1 = calls s @ detach_calls s rp" by blast
  moreover from this have "request_ok h PRU_DETACH so xs s None s1"
    using rp by (intro request_ok_removed) (auto simp: detach_calls_def detaches_def)
  ultimately show ?thesis using PRU_DETACH pcb by (simp add: closing_error_def)
next
  case PRU_DISCONNECT
  have "request_ok h PRU_DISCONNECT so xs s (Some ENOTCONN) s" using R by (intro request_ok_same) auto
  then show ?thesis using disconnect_request [OF R, of so req e] PRU_DISCONNECT pcb rp
    by (auto simp: closing_error_def intro: request_ok_calls)
next
  case PRU_ABORT
  then show ?thesis using disconnect_request [OF R, of so req e] pcb rp
    by (auto simp: closing_error_def intro: request_ok_calls)
next
  case PRU_BIND
  obtain err s1 where b: "raw_bind e so nam s = Some (err, s1)" using bind_returns [OF net] by blast
  have "request_ok h PRU_BIND so xs s err s1" "request_ok h PRU_BIND so xs s (Some EINVAL) s"
    using bind_frame [OF R b] R by (auto intro!: request_ok_same simp: detaches_def)
  then show ?thesis using PRU_BIND b by auto
next
  case PRU_SEND
  obtain err m1 s1 where q: "raw_send e rp so m nam s = (err, m1, s1)" using prod_cases3 by blast
  have "raw_ok h s1 xs" using send_frame [OF q] by (intro raw_ok_cong [OF R]) auto
  then show ?thesis using PRU_SEND q by (auto intro!: request_ok_same simp: detaches_def)
next
  case PRU_CONNECT
  have "raw_ok h (raw_connaddr rp nam s) xs" by (rule raw_ok_cong [OF R]) (auto simp: raw_connaddr_def)
  then show ?thesis using PRU_CONNECT R by (auto intro!: request_ok_same simp: detaches_def)
qed (use R req in \<open>auto intro!: request_ok_same raw_ok_cong [OF R] simp: detaches_def\<close>)

text \<open>
  (C16) \<^bold>\<open>Raw sockets and control blocks stay paired\<close>: every request (of those the switch knows) is
  answered, and afterwards the control blocks form one ring, each belongs to one socket that
  points back to it, and the ring is exactly what the request makes of it (\<open>blocks_after\<close>): an attach
  without error, of a privileged socket without a block, puts one new block in front; a detach, and a
  disconnect or abort of a socket that no descriptor refers to, takes out the block of this socket
  and frees it; every other request and every error leaves the ring as it was.  The requests that
  close a socket fail only as \<open>closing_error\<close> says.
\<close>

theorem raw_usrreq_pairs:
  assumes R: "raw_ok h s xs" and h: "rawcb_head e = h" and so: "so \<noteq> 0"
    and fresh: "\<And>hist. answer e hist M_getclr \<notin> set xs \<union> {h}" and net: "net_ok (rnet (rtab s)) ifl al"
    and req: "req \<noteq> PRU_OTHER"
  shows "\<exists>err s'. raw_usrreq e req so m nam rights s = Some (err, s') \<and> request_ok h req so xs s err s'
    \<and> (req \<in> {PRU_DETACH, PRU_DISCONNECT, PRU_ABORT} \<and> rights = 0 \<longrightarrow>
        err = closing_error req (so_pcb (sockets s so)) (on (rcb_flags (rcbs s (so_pcb (sockets s so)))) RAW_FADDR))"
proof -
  let ?rp = "so_pcb (sockets s so)"
  show ?thesis
  proof (cases "req = PRU_CONTROL \<or> rights \<noteq> 0 \<or> (?rp = 0 \<and> req \<noteq> PRU_ATTACH)")
    case True
    have "request_ok h req so xs s (Some x) s" for x using R by (intro request_ok_same) auto
    then show ?thesis using True by (auto simp: raw_usrreq_def Let_def closing_error_def intro: request_ok_calls)
  next
    case False
    then obtain err m1 s1 where q: "raw_request e req ?rp so m nam s = Some (err, m1, s1)" "request_ok h req so xs s err s1"
      "req \<in> {PRU_DETACH, PRU_DISCONNECT, PRU_ABORT} \<longrightarrow> err = closing_error req ?rp (on (rcb_flags (rcbs s ?rp)) RAW_FADDR)"
      using raw_request_pairs [OF R h so fresh net refl _ req, of m nam] by blast
    have "raw_usrreq e req so m nam rights s = Some (err, if m1 \<noteq> 0 then call (M_freem m1) s1 else s1)"
      using False q(1) by (auto simp: raw_usrreq_def Let_def)
    then show ?thesis using q(2,3) by (auto intro: request_ok_calls)
  qed
qed

text \<open>A ring with one control block, 5, of the socket 9; the head is at 1.\<close>

definition demo_raw :: "bool \<Rightarrow> (nat list, nat set) raw_state" where
  "demo_raw nofd = \<lparr>rcbs = (\<lambda>_. zero_rcb)(1 := zero_rcb\<lparr>rcb_next := 5, rcb_prev := 5\<rparr>,
       5 := zero_rcb\<lparr>rcb_next := 1, rcb_prev := 1, rcb_socket := 9\<rparr>),
     sockets = (\<lambda>_. \<lparr>so_priv = True, so_nofdref = False, so_pcb = 0, so_family = 2\<rparr>)
       (9 := \<lparr>so_priv = True, so_nofdref = nofd, so_pcb = 5, so_family = 2\<rparr>),
     rtab = demo_rt, rawintrq = \<lparr>ifq_head = 0, ifq_tail = 0, ifq_len = 0, ifq_maxlen = 50, ifq_drops = 0\<rparr>,
     pkt_act = (\<lambda>_. 0), pkt_next = (\<lambda>_. 0), headers = (\<lambda>_. \<lparr>raw_family = 0, raw_protocol = 0, raw_dst = zero_addr, raw_src = zero_addr\<rparr>),
     netisr_raw = False, names = (\<lambda>_. zero_addr), calls = []\<rparr>"

definition demo_raw_env :: "(nat list, nat set) raw_env" where
  "demo_raw_env = \<lparr>rtenv = demo_rt_env, rawcb_head = 1, answer = (\<lambda>h c. 7), output_error = (\<lambda>_. None),
     sun_rpc = False, ttlcontrol = True, dli = False, AF_IMPLINK = 3, AF_DLI = 13\<rparr>"

lemma demo_raw_ok: "raw_ok 1 (demo_raw nofd) [5]"
  by (auto simp: raw_ok_def ring_def demo_raw_def zero_rcb_def)

text \<open>A disconnect of a socket that nobody refers to removes its block; one that is referred to keeps it.\<close>

theorem raw_usrreq_pairs_witness:
  "\<forall>nofd. \<exists>s'. raw_usrreq demo_raw_env PRU_ABORT 9 0 6 0 (demo_raw nofd) = Some (None, s') \<and> raw_ok 1 s' (if nofd then [] else [5])"
proof
  fix nofd
  have net: "net_ok (rnet (rtab (demo_raw nofd))) [1, 2] demo_al" using demo_net_ok by (simp add: demo_raw_def demo_rt_def)
  have a: "rawcb_head demo_raw_env = 1" "(9 :: ptr) \<noteq> 0" "\<And>hist. answer demo_raw_env hist M_getclr \<notin> set [5] \<union> {1}"
    "PRU_ABORT \<noteq> PRU_OTHER" by (simp_all add: demo_raw_env_def)
  have d: "so_pcb (sockets (demo_raw nofd) 9) = 5" "so_nofdref (sockets (demo_raw nofd) 9) = nofd" by (simp_all add: demo_raw_def)
  show "\<exists>s'. raw_usrreq demo_raw_env PRU_ABORT 9 0 6 0 (demo_raw nofd) = Some (None, s') \<and> raw_ok 1 s' (if nofd then [] else [5])"
    using raw_usrreq_pairs [OF demo_raw_ok a(1-3) net a(4), of 0 6 0] d
    by (auto simp: closing_error_def request_ok_def blocks_after_def detaches_def Let_def)
qed

text \<open>
  (C32) \<^bold>\<open>Aborting an unreferenced raw socket frees it twice\<close>: \<open>PRU_ABORT\<close> on a socket without
  file references calls \<open>sofree\<close> once inside \<open>raw_disconnect\<close>, after the control block has
  been taken off the socket, and once more afterwards.
\<close>

theorem raw_abort_frees_twice:
  assumes "raw_ok h s xs" and "so_pcb (sockets s so) \<noteq> 0" and "so_nofdref (sockets s so)"
  shows "\<exists>s'. raw_usrreq e PRU_ABORT so 0 nam 0 s = Some (None, s') \<and> so_pcb (sockets s' so) = 0
    \<and> count_list (drop (length (calls s)) (calls s')) (Sofree so) = 2"
proof -
  let ?rp = "so_pcb (sockets s so)"
  have rp: "?rp \<in> set xs" "rcb_socket (rcbs s ?rp) = so" using assms by (auto simp: raw_ok_def)
  obtain s1 where s1: "raw_disconnect e ?rp s = Some s1" "raw_ok h s1 (removeAll ?rp xs)" "calls s1 = calls s @ detach_calls s ?rp"
    using disconnect_ok [OF assms(1) rp(1), of e] rp(2) assms(3) by auto
  have "so_pcb (sockets s1 so) = 0"
  proof -
    have "sockets s1 so = (sockets s so)\<lparr>so_pcb := 0\<rparr>"
      using s1(1) rp(2) assms(3)
      by (auto simp: raw_disconnect_def raw_detach_def Let_def split: option.splits if_splits)
    then show ?thesis by simp
  qed
  then show ?thesis using s1 rp assms(2) by (simp add: raw_usrreq_def detach_calls_def)
qed

theorem raw_abort_frees_twice_witness:
  "\<exists>s'. raw_usrreq demo_raw_env PRU_ABORT 9 0 0 0 (demo_raw True) = Some (None, s')
    \<and> count_list (drop (length (calls (demo_raw True))) (calls s')) (Sofree 9) = 2"
proof -
  have "so_pcb (sockets (demo_raw True) 9) \<noteq> 0" "so_nofdref (sockets (demo_raw True) 9)" by (simp_all add: demo_raw_def)
  from raw_abort_frees_twice [OF demo_raw_ok this, of demo_raw_env 0] show ?thesis by blast
qed

section \<open>Delivery\<close>

text \<open>
  The reference: the calls made for one packet, given the sockets whose control blocks match it.
  All but the last socket get a copy; the last gets the packet itself.
\<close>

definition offer_calls :: "('p, 'm) raw_env \<Rightarrow> raw_call list \<Rightarrow> ptr \<Rightarrow> sockaddr \<Rightarrow> ptr \<Rightarrow> raw_call list" where
  "offer_calls e hist so src n =
     [Sbappendaddr so src n, if answer e hist (Sbappendaddr so src n) = 0 then M_freem n else Sorwakeup so]"

definition copy_calls :: "('p, 'm) raw_env \<Rightarrow> raw_call list \<Rightarrow> ptr \<Rightarrow> sockaddr \<Rightarrow> ptr \<Rightarrow> raw_call list" where
  "copy_calls e hist so src dat =
     (let n = answer e hist (M_copy dat) in
      M_copy dat # (if n \<noteq> 0 then offer_calls e (hist @ [M_copy dat]) so src n else []))"

fun packet_calls :: "('p, 'm) raw_env \<Rightarrow> raw_call list \<Rightarrow> ptr \<Rightarrow> sockaddr \<Rightarrow> ptr \<Rightarrow> ptr list \<Rightarrow> raw_call list" where
  "packet_calls e hist m src dat [] = [M_freem m]"
| "packet_calls e hist m src dat [so] = offer_calls e hist so src dat @ [M_free m]"
| "packet_calls e hist m src dat (so # so' # sos) =
     (let cs = copy_calls e hist so src dat in cs @ packet_calls e (hist @ cs) m src dat (so' # sos))"

definition receivers :: "('p, 'm) raw_state \<Rightarrow> ptr list \<Rightarrow> ptr \<Rightarrow> ptr list" where
  "receivers s xs m = map (\<lambda>x. rcb_socket (rcbs s x)) (filter (\<lambda>x. raw_match (rcbs s x) (headers s m)) xs)"

fun input_calls :: "('p, 'm) raw_env \<Rightarrow> ('p, 'm) raw_state \<Rightarrow> ptr list \<Rightarrow> raw_call list \<Rightarrow> ptr list \<Rightarrow> raw_call list" where
  "input_calls e s xs hist [] = hist"
| "input_calls e s xs hist (m # ms) =
     input_calls e s xs
       (hist @ packet_calls e hist m (raw_src (headers s m)) (pkt_next s m) (receivers s xs m)) ms"

text \<open>Delivery changes nothing but the calls.\<close>

lemma raw_append_calls: "raw_append e so src n s = s\<lparr>calls := calls s @ offer_calls e (calls s) so src n\<rparr>"
  by (simp add: raw_append_def do_call_def offer_calls_def call_def)

lemma raw_copy_calls:
  "raw_copy e so m s = s\<lparr>calls := calls s @ copy_calls e (calls s) so (raw_src (headers s m)) (pkt_next s m)\<rparr>"
  by (simp add: raw_copy_def do_call_def copy_calls_def raw_append_calls Let_def)

lemma raw_scan_ring:
  assumes "ring_from (rcbs s) h v p xs" and "rawcb_head e = h" and "\<forall>x \<in> set xs. rcb_socket (rcbs s x) \<noteq> 0"
  shows "\<exists>l cs. raw_scan e m p lst s = Some (l, s\<lparr>calls := calls s @ cs\<rparr>)
    \<and> (l = 0 \<longleftrightarrow> lst = 0 \<and> receivers s xs m = [])
    \<and> (\<forall>fin. (if l \<noteq> 0
        then cs @ offer_calls e (calls s @ cs) l (raw_src (headers s m)) (pkt_next s m) @ [M_free m]
        else cs @ [M_freem m])
      = packet_calls e (calls s) m (raw_src (headers s m)) (pkt_next s m)
          ((if lst = 0 then [] else [lst]) @ receivers s xs m))"
  using assms
proof (induction xs arbitrary: v p lst s)
  case Nil
  then have "raw_scan e m p lst s = Some (lst, s\<lparr>calls := calls s @ []\<rparr>)" by (subst raw_scan.simps) simp
  then show ?case by (intro exI [of _ lst] exI [of _ "[]"]) (simp add: receivers_def)
next
  case (Cons x xs)
  let ?src = "raw_src (headers s m)" and ?dat = "pkt_next s m" and ?n = "rcb_next (rcbs s x)"
  have x: "p = x" "x \<noteq> h" "ring_from (rcbs s) h x ?n xs" using Cons.prems by auto
  show ?case
  proof (cases "raw_match (rcbs s x) (headers s m)")
    case False
    then have "raw_scan e m p lst s = raw_scan e m ?n lst s" using x Cons.prems(2) by (subst raw_scan.simps) simp
    moreover have "receivers s (x # xs) m = receivers s xs m" using False by (simp add: receivers_def)
    ultimately show ?thesis using Cons.IH [OF x(3) Cons.prems(2)] Cons.prems(3) by simp
  next
    case True
    let ?so = "rcb_socket (rcbs s x)"
    define d where "d = (if lst = 0 then [] else copy_calls e (calls s) lst ?src ?dat)"
    let ?s = "s\<lparr>calls := calls s @ d\<rparr>"
    have so: "?so \<noteq> 0" using Cons.prems(3) by simp
    have r: "receivers s (x # xs) m = ?so # receivers ?s xs m" using True by (simp add: receivers_def)
    have "raw_scan e m p lst s = raw_scan e m ?n ?so ?s"
      using x Cons.prems(2) True by (subst raw_scan.simps) (simp add: raw_copy_calls d_def)
    moreover obtain l cs where I: "raw_scan e m ?n ?so ?s = Some (l, ?s\<lparr>calls := calls ?s @ cs\<rparr>)" "l \<noteq> 0"
        "cs @ offer_calls e (calls ?s @ cs) l ?src ?dat @ [M_free m]
          = packet_calls e (calls ?s) m ?src ?dat (?so # receivers ?s xs m)"
      using Cons.IH [of ?s x ?n ?so] x(3) Cons.prems(2,3) so by auto
    moreover have "(d @ cs) @ offer_calls e (calls s @ (d @ cs)) l ?src ?dat @ [M_free m]
        = packet_calls e (calls s) m ?src ?dat ((if lst = 0 then [] else [lst]) @ receivers s (x # xs) m)"
      using I(3) by (simp add: r d_def Let_def)
    ultimately show ?thesis using so r by (intro exI [of _ l] exI [of _ "d @ cs"]) simp
  qed
qed

lemma raw_deliver_calls:
  assumes "raw_ok h s xs" and "rawcb_head e = h"
  shows "raw_deliver e m s = Some (s\<lparr>calls := calls s
    @ packet_calls e (calls s) m (raw_src (headers s m)) (pkt_next s m) (receivers s xs m)\<rparr>)"
proof -
  have "ring_from (rcbs s) h h (rcb_next (rcbs s h)) xs" "\<forall>x \<in> set xs. rcb_socket (rcbs s x) \<noteq> 0"
    using assms(1) by (auto simp: raw_ok_def ring_def)
  from raw_scan_ring [OF this(1) assms(2) this(2), of m 0] obtain l cs where
    "raw_scan e m (rcb_next (rcbs s h)) 0 s = Some (l, s\<lparr>calls := calls s @ cs\<rparr>)"
    "(if l \<noteq> 0 then cs @ offer_calls e (calls s @ cs) l (raw_src (headers s m)) (pkt_next s m) @ [M_free m]
      else cs @ [M_freem m]) = packet_calls e (calls s) m (raw_src (headers s m)) (pkt_next s m) (receivers s xs m)"
    by auto
  then show ?thesis using assms(2) by (auto simp: raw_deliver_def raw_append_calls call_def split: if_splits)
qed

text \<open>
  (C23) \<^bold>\<open>The raw input loop equals its reference\<close>: \<open>rawintr\<close> returns, empties the queue and makes,
  for the queued packets in order, exactly the calls of the reference: no call but freeing for
  a packet nobody matches; a copy for every matching socket but the last, in the order of the
  ring; and the packet itself, exactly once, for the last.  No control block or socket changes.
\<close>

theorem rawintr_reference:
  assumes "raw_ok h s xs" and "rawcb_head e = h" and "ifq_rep (pkt_act s) (rawintrq s) ms"
  shows "\<exists>s'. rawintr e s = Some s' \<and> ifq_rep (pkt_act s') (rawintrq s') []
    \<and> calls s' = input_calls e s xs (calls s) ms \<and> rcbs s' = rcbs s \<and> sockets s' = sockets s"
  using assms
proof (induction ms arbitrary: s)
  case Nil
  then show ?case using ifq_dequeue_empty [of "pkt_act s" "rawintrq s"] by (subst rawintr.simps) simp
next
  case (Cons m ms)
  obtain a q x where d: "IF_DEQUEUE (pkt_act s) (rawintrq s) = (a, q, x)" using prod_cases3 by blast
  have x: "ifq_rep a q ms" "x = m" using ifq_dequeue_rep [OF Cons.prems(3) d] by auto
  have m: "m \<noteq> 0" using ifq.rep_members [OF Cons.prems(3)] by auto
  let ?s1 = "s\<lparr>pkt_act := a, rawintrq := q\<rparr>"
  let ?s2 = "?s1\<lparr>calls := calls s @ packet_calls e (calls s) m (raw_src (headers s m)) (pkt_next s m) (receivers s xs m)\<rparr>"
  have ok: "raw_ok h ?s1 xs" "raw_ok h ?s2 xs" using Cons.prems(1) by (auto simp: raw_ok_def)
  have r1: "receivers ?s1 xs m = receivers s xs m" by (simp add: receivers_def)
  have "rawintr e s = rawintr e ?s2"
    using d x m raw_deliver_calls [OF ok(1) Cons.prems(2), of m] r1 by (subst rawintr.simps) simp
  moreover have "input_calls e ?s2 xs hist ns = input_calls e s xs hist ns" for hist ns
    by (induction ns arbitrary: hist) (simp_all add: receivers_def)
  ultimately show ?case using Cons.IH [OF ok(2) Cons.prems(2)] x(1) by simp
qed

theorem rawintr_reference_witness:
  "\<exists>s'. rawintr demo_raw_env ((demo_raw False)\<lparr>headers := (\<lambda>_. \<lparr>raw_family = 0, raw_protocol = 0,
      raw_dst = zero_addr, raw_src = zero_addr\<rparr>), pkt_next := (\<lambda>_. 30),
      rawintrq := \<lparr>ifq_head = 20, ifq_tail = 20, ifq_len = 1, ifq_maxlen = 50, ifq_drops = 0\<rparr>\<rparr>) = Some s'
    \<and> calls s' = [Sbappendaddr 9 zero_addr 30, Sorwakeup 9, M_free 20]"
proof -
  let ?s = "(demo_raw False)\<lparr>headers := (\<lambda>_. \<lparr>raw_family = 0, raw_protocol = 0,
      raw_dst = zero_addr, raw_src = zero_addr\<rparr>), pkt_next := (\<lambda>_. 30),
      rawintrq := \<lparr>ifq_head = 20, ifq_tail = 20, ifq_len = 1, ifq_maxlen = 50, ifq_drops = 0\<rparr>\<rparr>"
  have ok: "raw_ok 1 ?s [5]" using demo_raw_ok [of False] by (simp add: raw_ok_def)
  have "ifq_rep (pkt_act ?s) (rawintrq ?s) [20]" by (simp add: ifq_rep_def demo_raw_def)
  moreover have "input_calls demo_raw_env ?s [5] (calls ?s) [20] = [Sbappendaddr 9 zero_addr 30, Sorwakeup 9, M_free 20]"
    by (simp add: receivers_def raw_match_def demo_raw_def zero_rcb_def on_def offer_calls_def demo_raw_env_def)
  ultimately show ?thesis using rawintr_reference [OF ok, of demo_raw_env "[20]"] by (auto simp: demo_raw_env_def)
qed

end
