(* ===== verification/Net_Loop.thy ===== *)
theory Net_Loop
  imports Net_If_Props
begin

text \<open>
  The loopback interface, \<open>kernel/net/if_loop.c\<close>, and the kernel thread that runs the
  protocols' input routines, \<open>netisr.c\<close> with the macros of \<open>netisr.h\<close>.  An mbuf is its
  pointer, with the offset, length and link fields as maps; \<open>if_word\<close> is the word at the start
  of its data, where the driver leaves the interface pointer.  The results of the mbuf
  allocations are a list (0 for a failure).  The scheduler's \<open>assert_wait\<close>, \<open>thread_block\<close>
  and \<open>wakeup\<close> appear as steps of the thread.
\<close>

unbundle bit_operations_syntax

section \<open>The loopback driver\<close>

definition LOMTU :: int where "LOMTU = 1024 + 512"

definition NETISR_RAW :: nat where "NETISR_RAW = 0"
definition NETISR_IP :: nat where "NETISR_IP = 2"
definition NETISR_IMP :: nat where "NETISR_IMP = 3"
definition NETISR_NS :: nat where "NETISR_NS = 6"

definition AF_NS :: nat where "AF_NS = 6"

record 'p lo_state =
  lonet :: "'p net"
  m_off :: "ptr \<Rightarrow> int"
  m_len :: "ptr \<Rightarrow> int"
  m_nxt :: "ptr \<Rightarrow> ptr"
  if_word :: "ptr \<Rightarrow> ptr"
  lo_act :: "ptr \<Rightarrow> ptr"
  ip_q :: ifqueue
  ns_q :: ifqueue
  netisr :: "32 word"
  mgets :: "ptr list"
  lo_freed :: "ptr list"

record lo_env =
  MMINOFF :: int
  MMAXOFF :: int
  inet :: bool
  ns :: bool
  loioctl_proc :: ptr

text \<open>\<open>schednetisr\<close> sets a bit; waking the thread is a step of the thread below.\<close>

definition schednetisr :: "nat \<Rightarrow> 32 word \<Rightarrow> 32 word" where
  "schednetisr n w = w OR push_bit n 1"

definition loattach :: "lo_env \<Rightarrow> ptr \<Rightarrow> 'p lo_state \<Rightarrow> 'p lo_state option" where
  "loattach e loif s =
     map_option (\<lambda>n. s\<lparr>lonet := n\<rparr>)
       (if_attach loif (upd_if loif (\<lambda>i. i\<lparr>if_name := ''lo'', if_mtu := LOMTU, if_flags := IFF_LOOPBACK,
          if_ioctl := loioctl_proc e\<rparr>) (lonet s)))"

text \<open>Making room for the interface pointer; 0 when there is no mbuf.\<close>

definition lo_prepend :: "lo_env \<Rightarrow> ptr \<Rightarrow> 'p lo_state \<Rightarrow> ptr \<times> 'p lo_state" where
  "lo_prepend e m0 s =
     (if m_off s m0 \<le> MMAXOFF e \<and> m_off s m0 \<ge> MMINOFF e + 4
      then (m0, s\<lparr>m_off := (m_off s)(m0 := m_off s m0 - 4), m_len := (m_len s)(m0 := m_len s m0 + 4)\<rparr>)
      else (let m = (case mgets s of [] \<Rightarrow> 0 | g # _ \<Rightarrow> g); s1 = s\<lparr>mgets := tl (mgets s)\<rparr> in
            if m = 0 then (0, s1)
            else (m, s1\<lparr>m_off := (m_off s1)(m := MMINOFF e), m_len := (m_len s1)(m := 4),
                        m_nxt := (m_nxt s1)(m := m0)\<rparr>)))"

definition lo_count :: "ptr \<Rightarrow> (ifnet \<Rightarrow> ifnet) \<Rightarrow> 'p lo_state \<Rightarrow> 'p lo_state" where
  "lo_count ifp f s = s\<lparr>lonet := upd_if ifp f (lonet s)\<rparr>"

definition lo_free :: "ptr \<Rightarrow> 'p lo_state \<Rightarrow> 'p lo_state" where
  "lo_free m s = s\<lparr>lo_freed := m # lo_freed s\<rparr>"

definition looutput :: "lo_env \<Rightarrow> ptr \<Rightarrow> ptr \<Rightarrow> sockaddr \<Rightarrow> 'p lo_state \<Rightarrow> errno option \<times> 'p lo_state" where
  "looutput e ifp m0 dst s =
     (case lo_prepend e m0 s of (m, s1) \<Rightarrow>
      if m = 0 then (Some ENOBUFS, s1)
      else
        (let s2 = s1\<lparr>if_word := (if_word s1)(m := ifp)\<rparr>;
             s3 = lo_count ifp (\<lambda>i. i\<lparr>if_opackets := if_opackets i + 1\<rparr>) s2
         in if inet e \<and> sa_family dst = AF_INET then
              (if IF_QFULL (ip_q s3) then (Some ENOBUFS, lo_free m (s3\<lparr>ip_q := IF_DROP (ip_q s3)\<rparr>))
               else case IF_ENQUEUE (lo_act s3) (ip_q s3) m of (a, q) \<Rightarrow>
                 (None, lo_count ifp (\<lambda>i. i\<lparr>if_ipackets := if_ipackets i + 1\<rparr>)
                    (s3\<lparr>lo_act := a, ip_q := q, netisr := schednetisr NETISR_IP (netisr s3)\<rparr>)))
            else if ns e \<and> sa_family dst = AF_NS then
              (if IF_QFULL (ns_q s3) then (Some ENOBUFS, lo_free m (s3\<lparr>ns_q := IF_DROP (ns_q s3)\<rparr>))
               else case IF_ENQUEUE (lo_act s3) (ns_q s3) m of (a, q) \<Rightarrow>
                 (None, lo_count ifp (\<lambda>i. i\<lparr>if_ipackets := if_ipackets i + 1\<rparr>)
                    (s3\<lparr>lo_act := a, ns_q := q, netisr := schednetisr NETISR_NS (netisr s3)\<rparr>)))
            else (Some EAFNOSUPPORT, lo_free m s3)))"

definition loioctl :: "ptr \<Rightarrow> ioctl_cmd \<Rightarrow> 'p lo_state \<Rightarrow> errno option \<times> 'p lo_state" where
  "loioctl ifp cmd s =
     (if cmd = SIOCSIFADDR then (None, lo_count ifp (\<lambda>i. i\<lparr>if_flags := if_flags i OR IFF_UP\<rparr>) s)
      else (Some EINVAL, s))"

section \<open>The network thread\<close>

text \<open>
  The places of the loop of \<open>netisr_thread\<close>: before \<open>assert_wait\<close>, between it and
  \<open>thread_block\<close>, asleep, before the test of a bit, and inside the routine of a bit.
\<close>

datatype isr_pc = Assert | Block | Asleep | Test nat | Handler nat

record isr_state =
  isr_pc :: isr_pc
  asserted :: bool
  bits :: "32 word"
  served :: "nat list"

record isr_config =
  nimp :: bool
  has_inet :: bool
  has_ns :: bool

definition isr_tests :: "isr_config \<Rightarrow> nat list" where
  "isr_tests c = (if nimp c then [NETISR_IMP] else []) @ (if has_inet c then [NETISR_IP] else [])
     @ (if has_ns c then [NETISR_NS] else []) @ [NETISR_RAW]"

text \<open>The place after the \<open>i\<close>-th test.\<close>

definition isr_after :: "isr_config \<Rightarrow> nat \<Rightarrow> isr_pc" where
  "isr_after c i = (if Suc i < length (isr_tests c) then Test (Suc i) else Assert)"

text \<open>
  One step of the thread, and an interrupt: \<open>schednetisr\<close> sets a bit and wakes the thread if it
  has asserted that it waits.
\<close>

definition thread_step :: "isr_config \<Rightarrow> isr_state \<Rightarrow> isr_state option" where
  "thread_step c s =
     (case isr_pc s of
        Assert \<Rightarrow> Some (s\<lparr>asserted := True, isr_pc := Block\<rparr>)
      | Block \<Rightarrow> Some (if asserted s then s\<lparr>isr_pc := Asleep\<rparr> else s\<lparr>isr_pc := Test 0\<rparr>)
      | Asleep \<Rightarrow> (if asserted s then None else Some (s\<lparr>isr_pc := Test 0\<rparr>))
      | Test i \<Rightarrow>
          (let n = isr_tests c ! i in
           if bits s AND push_bit n 1 \<noteq> 0
           then Some (s\<lparr>bits := bits s AND NOT (push_bit n 1), isr_pc := Handler i\<rparr>)
           else Some (s\<lparr>isr_pc := isr_after c i\<rparr>))
      | Handler i \<Rightarrow> Some (s\<lparr>served := served s @ [isr_tests c ! i], isr_pc := isr_after c i\<rparr>))"

definition interrupt :: "nat \<Rightarrow> isr_state \<Rightarrow> isr_state" where
  "interrupt n s = s\<lparr>bits := schednetisr n (bits s), asserted := False\<rparr>"

inductive isr_reach :: "isr_config \<Rightarrow> isr_state \<Rightarrow> bool" for c where
  start: "isr_reach c \<lparr>isr_pc = Assert, asserted = False, bits = 0, served = []\<rparr>"
| run: "isr_reach c s \<Longrightarrow> thread_step c s = Some t \<Longrightarrow> isr_reach c t"
| intr: "isr_reach c s \<Longrightarrow> n \<in> set (isr_tests c) \<Longrightarrow> isr_reach c (interrupt n s)"

section \<open>Properties\<close>

text \<open>What the receiver of a queued packet finds: the interface pointer, then the old data.\<close>

definition lo_framed :: "ptr \<Rightarrow> ptr \<Rightarrow> ptr \<Rightarrow> 'p lo_state \<Rightarrow> 'p lo_state \<Rightarrow> bool" where
  "lo_framed m m0 ifp s s' \<longleftrightarrow> if_word s' m = ifp
     \<and> (if m = m0 then m_off s' m0 + 4 = m_off s m0 \<and> m_len s' m0 = m_len s m0 + 4 \<and> m_nxt s' m0 = m_nxt s m0
        else m_len s' m = 4 \<and> m_nxt s' m = m0 \<and> m_off s' m0 = m_off s m0 \<and> m_len s' m0 = m_len s m0
          \<and> m_nxt s' m0 = m_nxt s m0)"

lemma schednetisr_set: "n < 32 \<Longrightarrow> schednetisr n w AND push_bit n 1 \<noteq> 0"
proof
  assume n: "n < 32" and z: "schednetisr n w AND push_bit n 1 = 0"
  have "bit (schednetisr n w AND push_bit n 1) n" using n by (simp add: schednetisr_def bit_simps)
  with z show False by simp
qed

lemma lo_prepend_framed:
  assumes "lo_prepend e m0 s = (m, s1)" and "m0 \<noteq> 0" and "m0 \<notin> set (mgets s)"
  shows "(m = 0 \<longrightarrow> s1 = s\<lparr>mgets := tl (mgets s)\<rparr>)
    \<and> (m \<noteq> 0 \<longrightarrow> lo_framed m m0 ifp s (s1\<lparr>if_word := (if_word s1)(m := ifp)\<rparr>) \<and> (m = m0 \<or> m \<in> set (mgets s)))
    \<and> lonet s1 = lonet s \<and> ip_q s1 = ip_q s \<and> ns_q s1 = ns_q s \<and> lo_act s1 = lo_act s \<and> netisr s1 = netisr s
    \<and> lo_freed s1 = lo_freed s"
  using assms by (auto simp: lo_prepend_def lo_framed_def Let_def split: if_splits list.splits)

text \<open>
  \<^bold>\<open>A looped-back packet is queued, dropped or lost\<close>: for an internet destination \<open>looutput\<close>
  appends the packet to the IP queue, framed by the interface pointer, and schedules the IP
  input; or, when the queue is full, counts a drop and frees it; or, when there is no room in
  front of the data and no mbuf, reports \<open>ENOBUFS\<close> while the packet is neither queued nor
  freed.
\<close>

theorem looutput_accounts:
  assumes q: "ifq_rep (lo_act s) (ip_q s) ps" and m0: "m0 \<noteq> 0" "m0 \<notin> set (mgets s)" and fresh: "m0 \<notin> set ps" "set (mgets s) \<inter> set ps = {}"
    and dst: "sa_family dst = AF_INET" "inet e" and u: "looutput e ifp m0 dst s = (err, s')"
  shows "(\<exists>m. err = None \<and> m \<noteq> 0 \<and> ifq_rep (lo_act s') (ip_q s') (ps @ [m]) \<and> lo_framed m m0 ifp s s'
        \<and> netisr s' AND push_bit NETISR_IP 1 \<noteq> 0 \<and> lo_freed s' = lo_freed s)
    \<or> (\<exists>m. err = Some ENOBUFS \<and> m \<noteq> 0 \<and> IF_QFULL (ip_q s) \<and> ifq_rep (lo_act s') (ip_q s') ps
        \<and> ifq_drops (ip_q s') = ifq_drops (ip_q s) + 1 \<and> lo_framed m m0 ifp s s' \<and> lo_freed s' = m # lo_freed s)
    \<or> (err = Some ENOBUFS \<and> s' = s\<lparr>mgets := tl (mgets s)\<rparr>)"
proof -
  obtain m s1 where p: "lo_prepend e m0 s = (m, s1)" by fastforce
  note f = lo_prepend_framed [OF p m0, of ifp]
  show ?thesis
  proof (cases "m = 0")
    case True
    then show ?thesis using u p f by (simp add: looutput_def)
  next
    case False
    then have F: "lo_framed m m0 ifp s (s1\<lparr>if_word := (if_word s1)(m := ifp)\<rparr>)" and mem: "m \<notin> set ps" using f fresh by auto
    have fr: "lo_framed m m0 ifp s s2 \<longleftrightarrow> lo_framed m m0 ifp s (s1\<lparr>if_word := (if_word s1)(m := ifp)\<rparr>)"
      if "if_word s2 = (if_word s1)(m := ifp)" "m_off s2 = m_off s1" "m_len s2 = m_len s1" "m_nxt s2 = m_nxt s1"
      for s2 :: "'a lo_state" using that by (simp add: lo_framed_def)
    show ?thesis
    proof (cases "IF_QFULL (ip_q s)")
      case True
      then show ?thesis using u p f False q dst F fr [of s']
        by (auto simp: looutput_def Let_def lo_count_def lo_free_def IF_DROP_def ifq_rep_def)
    next
      case n: False
      obtain a k where e: "IF_ENQUEUE (lo_act s) (ip_q s) m = (a, k)" by fastforce
      have "ifq_rep a k (ps @ [m])" by (rule ifq_enqueue_rep [OF q False mem e])
      moreover have "schednetisr NETISR_IP w AND push_bit NETISR_IP 1 \<noteq> 0" for w
        by (rule schednetisr_set) (simp add: NETISR_IP_def)
      ultimately show ?thesis using u p f False n e dst F fr [of s']
        by (auto simp: looutput_def Let_def lo_count_def)
    qed
  qed
qed

definition demo_lo :: "nat list lo_state" where
  "demo_lo = \<lparr>lonet = demo_net, m_off = (\<lambda>_. 40), m_len = (\<lambda>_. 20), m_nxt = (\<lambda>_. 0), if_word = (\<lambda>_. 0), lo_act = (\<lambda>_. 0),
     ip_q = \<lparr>ifq_head = 0, ifq_tail = 0, ifq_len = 0, ifq_maxlen = 50, ifq_drops = 0\<rparr>,
     ns_q = \<lparr>ifq_head = 0, ifq_tail = 0, ifq_len = 0, ifq_maxlen = 50, ifq_drops = 0\<rparr>,
     netisr = 0, mgets = [], lo_freed = []\<rparr>"

definition demo_lo_env :: lo_env where
  "demo_lo_env = \<lparr>MMINOFF = 12, MMAXOFF = 124, inet = True, ns = False, loioctl_proc = 1\<rparr>"

theorem looutput_accounts_witness:
  "\<exists>s'. looutput demo_lo_env 1 8 \<lparr>sa_family = 2, sa_data = []\<rparr> demo_lo = (None, s')
     \<and> (\<exists>m. ifq_rep (lo_act s') (ip_q s') [m] \<and> lo_framed m 8 1 demo_lo s')"
proof -
  obtain s' where u: "looutput demo_lo_env 1 8 \<lparr>sa_family = 2, sa_data = []\<rparr> demo_lo = (None, s')"
    by (simp add: looutput_def lo_prepend_def demo_lo_env_def demo_lo_def Let_def lo_count_def IF_QFULL_def IF_ENQUEUE_def
        AF_INET_def)
  have "ifq_rep (lo_act demo_lo) (ip_q demo_lo) []" by (simp add: ifq_rep_def demo_lo_def)
  from looutput_accounts [OF this _ _ _ _ _ _ u] u show ?thesis
    by (auto simp: demo_lo_def demo_lo_env_def AF_INET_def)
qed

subsection \<open>The network thread\<close>

text \<open>
  (C33) \<^bold>\<open>The network thread can sleep on pending work\<close>: there is a run in which a packet is queued
  and its bit set after the last test and before \<open>assert_wait\<close>; the wakeup finds nobody waiting,
  and the thread sleeps with the bit set, unable to move until another interrupt.
\<close>

theorem netisr_lost_wakeup:
  "\<exists>s. isr_reach c s \<and> isr_pc s = Asleep \<and> bits s AND push_bit NETISR_RAW 1 \<noteq> 0 \<and> thread_step c s = None"
proof -
  let ?s0 = "\<lparr>isr_pc = Assert, asserted = False, bits = 0, served = []\<rparr>"
  let ?s1 = "interrupt NETISR_RAW ?s0"
  let ?s2 = "?s1\<lparr>asserted := True, isr_pc := Block\<rparr>"
  let ?s3 = "?s2\<lparr>isr_pc := Asleep\<rparr>"
  have "isr_reach c ?s1" by (rule isr_reach.intr [OF isr_reach.start]) (simp add: isr_tests_def)
  then have "isr_reach c ?s2" by (rule isr_reach.run) (simp add: thread_step_def interrupt_def)
  then have "isr_reach c ?s3" by (rule isr_reach.run) (simp add: thread_step_def)
  moreover have "bits ?s3 AND push_bit NETISR_RAW 1 \<noteq> 0"
    using schednetisr_set [of NETISR_RAW 0] by (simp add: interrupt_def NETISR_RAW_def)
  moreover have "thread_step c ?s3 = None" by (simp add: thread_step_def)
  ultimately show ?thesis by (intro exI [of _ ?s3]) simp
qed

end
