(* ===== verification/Env_Table.thy ===== *)
theory Env_Table
  imports Mach_Prelude
begin

text \<open>
  The tables of the environment manager, \<open>mach/etc/envmgr/envprocs.c\<close>: names are compared
  and hashed without regard to case, every context has a hash table of named entries, a table
  may be shared by contexts until one of them is about to change it, and the ports that are
  values of entries are kept in a table with reference counts.  Blocks from \<open>malloc\<close> are numbers;
  the links of hash entries and the buckets of hash heads are maps.  A loop over a cyclic chain
  gives \<open>None\<close>.
\<close>

unbundle bit_operations_syntax

section \<open>Data\<close>

definition HASHTABLESIZE :: nat where "HASHTABLESIZE = 32"
definition HASHTABLEMASK :: int where "HASHTABLEMASK = 31"
definition MAXCONN :: nat where "MAXCONN = 256"
definition MAXPORTENT :: nat where "MAXPORTENT = 1000"
definition env_name_size :: nat where "env_name_size = 80"

type_synonym port = nat

abbreviation (input) PORT_NULL :: port where "PORT_NULL \<equiv> 0"

text \<open>The tag \<open>vartype\<close> and the union \<open>envval\<close> are one datatype; a port is an index of \<open>pt_table\<close>.\<close>

datatype env_t = Envstr | Envport

datatype env_var_t = Str string | Pi nat

fun vartype :: "env_var_t \<Rightarrow> env_t" where
  "vartype (Str v) = Envstr"
| "vartype (Pi i) = Envport"

record port_ent_t =
  pt :: port
  refcnt :: int

record hash_entry_t =
  he_name :: string
  he_context :: nat
  envval :: env_var_t

record context_head_t =
  ch_head :: ptr
  rwport :: port
  roport :: port
  inuse :: bool

text \<open>\<open>hrefcnt\<close> and \<open>hhead\<close> are the fields of \<open>hash_head_t\<close>, \<open>enext\<close> the link of an entry;
  the heads in use are the domain of \<open>hrefcnt\<close>, and \<open>heap\<close> is the set of blocks \<open>malloc\<close> has
  given for entries, which are never freed.\<close>

record 'k env_state =
  ent :: "ptr \<Rightarrow> hash_entry_t"
  enext :: "ptr \<Rightarrow> ptr"
  hrefcnt :: "ptr \<Rightarrow> int option"
  hhead :: "ptr \<Rightarrow> nat \<Rightarrow> ptr"
  contexts :: "nat \<Rightarrow> context_head_t"
  HashEntryPool :: ptr
  pt_table :: "nat \<Rightarrow> port_ent_t"
  heap :: "ptr set"
  krn :: 'k

text \<open>The kernel and the C library, and the standard ports of the task.\<close>

record 'k em_env =
  new_block :: "ptr set \<Rightarrow> ptr"
  port_allocate :: "'k \<Rightarrow> port option \<times> 'k"
  port_unrestrict :: "port \<Rightarrow> 'k \<Rightarrow> 'k"
  port_deallocate :: "port \<Rightarrow> 'k \<Rightarrow> bool \<times> 'k"
  vm_allocate :: "nat \<Rightarrow> 'k \<Rightarrow> bool \<times> 'k"
  vm_deallocate :: "nat \<Rightarrow> 'k \<Rightarrow> 'k"
  service_checkin :: "'k \<Rightarrow> port option \<times> 'k"
  environment_port :: port
  name_server_port :: port
  service_port :: port

definition upd_ent :: "ptr \<Rightarrow> (hash_entry_t \<Rightarrow> hash_entry_t) \<Rightarrow> 'k env_state \<Rightarrow> 'k env_state" where
  "upd_ent p f s = s\<lparr>ent := (ent s)(p := f (ent s p))\<rparr>"

definition set_head :: "ptr \<Rightarrow> nat \<Rightarrow> ptr \<Rightarrow> 'k env_state \<Rightarrow> 'k env_state" where
  "set_head h j p s = s\<lparr>hhead := (hhead s)(h := (hhead s h)(j := p))\<rparr>"

definition set_next :: "ptr \<Rightarrow> ptr \<Rightarrow> 'k env_state \<Rightarrow> 'k env_state" where
  "set_next p q s = s\<lparr>enext := (enext s)(p := q)\<rparr>"

definition upd_hrefcnt :: "ptr \<Rightarrow> int \<Rightarrow> 'k env_state \<Rightarrow> 'k env_state" where
  "upd_hrefcnt h d s = s\<lparr>hrefcnt := (hrefcnt s)(h := map_option (\<lambda>n. n + d) (hrefcnt s h))\<rparr>"

definition upd_refcnt :: "nat \<Rightarrow> int \<Rightarrow> 'k env_state \<Rightarrow> 'k env_state" where
  "upd_refcnt i d s = s\<lparr>pt_table := (pt_table s)(i := (pt_table s i)\<lparr>refcnt := refcnt (pt_table s i) + d\<rparr>)\<rparr>"

definition set_pt :: "nat \<Rightarrow> port \<Rightarrow> 'k env_state \<Rightarrow> 'k env_state" where
  "set_pt i p s = s\<lparr>pt_table := (pt_table s)(i := (pt_table s i)\<lparr>pt := p\<rparr>)\<rparr>"

section \<open>Names\<close>

text \<open>A character of a C string, and the value of a signed \<open>char\<close>.\<close>

definition char_at :: "string \<Rightarrow> nat \<Rightarrow> char" where
  "char_at S i = (if i < length S then S ! i else CHR 0x00)"

definition schar :: "char \<Rightarrow> int" where
  "schar c = (let n = int (of_char c) in if n < 128 then n else n - 256)"

definition up_char :: "char \<Rightarrow> char" where
  "up_char tc = (if schar tc \<ge> 97 then if schar tc \<le> 122 then char_of (nat (schar tc - 32)) else tc else tc)"

text \<open>The loop of \<open>StrEqCase\<close> from position \<open>i\<close> down to 1.\<close>

primrec eq_down :: "string \<Rightarrow> string \<Rightarrow> nat \<Rightarrow> bool" where
  "eq_down S1 S2 0 = True"
| "eq_down S1 S2 (Suc i) = (if char_at S1 (Suc i) \<noteq> up_char (char_at S2 (Suc i)) then False else eq_down S1 S2 i)"

definition StrEqCase :: "string \<Rightarrow> string \<Rightarrow> bool" where
  "StrEqCase S1 S2 = (let i = min (length S1) env_name_size in
     if length S2 \<noteq> i then False else eq_down S1 S2 i)"

definition ConvUpper :: "string \<Rightarrow> string" where
  "ConvUpper S = map up_char S"

definition Hash :: "string \<Rightarrow> nat" where
  "Hash S = nat (foldl (\<lambda>n c. n + schar c) 0 S AND HASHTABLEMASK)"

section \<open>Entries\<close>

definition e_malloc :: "'k em_env \<Rightarrow> 'k env_state \<Rightarrow> ptr" where
  "e_malloc e s = new_block e (heap s \<union> dom (hrefcnt s))"

definition NewHashEntry :: "'k em_env \<Rightarrow> 'k env_state \<Rightarrow> ptr \<times> 'k env_state" where
  "NewHashEntry e s =
     (if HashEntryPool s = 0 then (let p = e_malloc e s in (p, s\<lparr>heap := insert p (heap s)\<rparr>))
      else (let r = HashEntryPool s in (r, s\<lparr>HashEntryPool := enext s r\<rparr>)))"

definition FreeHashEntry :: "ptr \<Rightarrow> 'k env_state \<Rightarrow> 'k env_state" where
  "FreeHashEntry elem s = (let s1 = set_next elem (HashEntryPool s) s in s1\<lparr>HashEntryPool := elem\<rparr>)"

definition FindHashEntry :: "string \<Rightarrow> nat \<Rightarrow> 'k env_state \<Rightarrow> ptr option" where
  "FindHashEntry nm P s =
     (let S = ConvUpper nm; N = Hash S
      in find_from (enext s) (\<lambda>p. StrEqCase S (he_name (ent s p))) (hhead s (ch_head (contexts s P)) N))"

definition CreateHashEntry :: "'k em_env \<Rightarrow> string \<Rightarrow> nat \<Rightarrow> 'k env_state \<Rightarrow> ptr \<times> 'k env_state" where
  "CreateHashEntry e nm P s =
     (let S = ConvUpper nm; N = Hash S in
      case NewHashEntry e s of (p, s1) \<Rightarrow>
        (let h = ch_head (contexts s1 P); s2 = set_next p (hhead s1 h N) s1 in (p, set_head h N p s2)))"

section \<open>The port table\<close>

text \<open>The search of \<open>add_port\<close>: the slot of the port, or else the first slot without references.\<close>

fun add_scan :: "(nat \<Rightarrow> port_ent_t) \<Rightarrow> port \<Rightarrow> nat option \<Rightarrow> nat list \<Rightarrow> bool \<times> nat option" where
  "add_scan tab p emp [] = (False, emp)"
| "add_scan tab p emp (i # is) =
     (if pt (tab i) = p then (True, Some i)
      else add_scan tab p (if emp = None \<and> refcnt (tab i) = 0 then Some i else emp) is)"

definition add_port :: "port \<Rightarrow> 'k env_state \<Rightarrow> nat option \<times> 'k env_state" where
  "add_port p s =
     (case add_scan (pt_table s) p None [0..<MAXPORTENT] of
        (True, Some i) \<Rightarrow> (Some i, upd_refcnt i 1 s)
      | (_, None) \<Rightarrow> (None, s)
      | (False, Some i) \<Rightarrow> (Some i, upd_refcnt i 1 (set_pt i p s)))"

definition del_port :: "'k em_env \<Rightarrow> nat \<Rightarrow> 'k env_state \<Rightarrow> 'k env_state" where
  "del_port e i s =
     (let s1 = upd_refcnt i (- 1) s in
      if refcnt (pt_table s1 i) = 0
      then (case port_deallocate e (pt (pt_table s1 i)) (krn s1) of (ok, k) \<Rightarrow>
              (let s2 = s1\<lparr>krn := k\<rparr> in if ok then set_pt i PORT_NULL s2 else s2))
      else s1)"

definition remove_dead_port :: "port \<Rightarrow> 'k env_state \<Rightarrow> bool \<times> 'k env_state" where
  "remove_dead_port p s =
     (case find (\<lambda>i. pt (pt_table s i) = p) [0..<MAXPORTENT] of
        None \<Rightarrow> (False, s) | Some i \<Rightarrow> (True, set_pt i PORT_NULL s))"

section \<open>Deleting and copying\<close>

datatype env_ret = ENV_SUCCESS | ENV_VAR_NOT_FOUND | ENV_WRONG_VAR_TYPE | ENV_UNKNOWN_PORT | ENV_READ_ONLY
  | ENV_NO_MORE_CONN | ENV_PORT_TABLE_FULL | ENV_PORT_NULL | KERN_FAILURE

text \<open>The loop of \<open>DeleteHashEntry\<close>: the first match after \<open>p\<close> and its predecessor.\<close>

partial_function (option) del_scan :: "(ptr \<Rightarrow> ptr) \<Rightarrow> (ptr \<Rightarrow> bool) \<Rightarrow> ptr \<Rightarrow> (ptr \<times> ptr) option" where
  "del_scan nx M p =
     (let prev = p; q = nx p in if q = 0 then Some (prev, 0) else if M q then Some (prev, q) else del_scan nx M q)"

definition DeleteHashEntry :: "'k em_env \<Rightarrow> string \<Rightarrow> nat \<Rightarrow> env_t \<Rightarrow> 'k env_state \<Rightarrow> (env_ret \<times> 'k env_state) option" where
  "DeleteHashEntry e nm P vt s =
     (let S = ConvUpper nm; N = Hash S; h = ch_head (contexts s P); x = hhead s h N;
          M = (\<lambda>p. StrEqCase S (he_name (ent s p)));
          finish = (\<lambda>y s1. Some (ENV_SUCCESS, FreeHashEntry y
            (case envval (ent s1 y) of Pi i \<Rightarrow> del_port e i s1 | Str v \<Rightarrow> s1)))
      in if x = 0 then Some (ENV_VAR_NOT_FOUND, s)
         else if M x then
           (if vartype (envval (ent s x)) = vt then finish x (set_head h N (enext s x) s) else Some (ENV_WRONG_VAR_TYPE, s))
         else (case del_scan (enext s) M x of None \<Rightarrow> None
               | Some (prev, y) \<Rightarrow>
                 if y = 0 then Some (ENV_VAR_NOT_FOUND, s)
                 else if vartype (envval (ent s y)) \<noteq> vt then Some (ENV_WRONG_VAR_TYPE, s)
                 else finish y (set_next prev (enext s y) s)))"

text \<open>The inner loop of \<open>CopyHashTable\<close> over the chain of one bucket; \<open>prev\<close> is \<open>PrevEntry\<close>.\<close>

partial_function (option) copy_from ::
  "'k em_env \<Rightarrow> nat \<Rightarrow> ptr \<Rightarrow> nat \<Rightarrow> ptr \<Rightarrow> ptr \<Rightarrow> 'k env_state \<Rightarrow> (ptr \<times> 'k env_state) option" where
  "copy_from e P h j entry prev s =
     (if entry = 0 then Some (prev, s)
      else
        (case NewHashEntry e s of (n, s1) \<Rightarrow>
           (let s2 = (if hhead s1 h j = 0 then set_head h j n s1 else set_next prev n s1);
                s3 = upd_ent n (\<lambda>_. (ent s2 entry)\<lparr>he_context := P\<rparr>) s2;
                s4 = (case envval (ent s3 entry) of Pi i \<Rightarrow> upd_refcnt i 1 s3 | Str v \<Rightarrow> s3);
                s5 = set_next n 0 s4
            in copy_from e P h j (enext s5 entry) n s5)))"

primrec copy_buckets ::
  "'k em_env \<Rightarrow> nat \<Rightarrow> ptr \<Rightarrow> ptr \<Rightarrow> nat list \<Rightarrow> ptr \<Rightarrow> 'k env_state \<Rightarrow> 'k env_state option" where
  "copy_buckets e P h old [] prev s = Some s"
| "copy_buckets e P h old (j # js) prev s =
     (let entry = hhead s old j in
      case copy_from e P h j entry prev (set_head h j 0 s) of None \<Rightarrow> None
      | Some (prev', s') \<Rightarrow> copy_buckets e P h old js prev' s')"

definition CopyHashTable :: "'k em_env \<Rightarrow> nat \<Rightarrow> 'k env_state \<Rightarrow> 'k env_state option" where
  "CopyHashTable e P s =
     (let old = ch_head (contexts s P); s1 = upd_hrefcnt old (- 1) s; h = e_malloc e s1;
          s2 = s1\<lparr>contexts := (contexts s1)(P := (contexts s1 P)\<lparr>ch_head := h\<rparr>), hrefcnt := (hrefcnt s1)(h \<mapsto> 1)\<rparr>
      in copy_buckets e P h old [0..<HASHTABLESIZE] 0 s2)"

text \<open>\<open>None\<close> stands for the value \<open>MAXCONN\<close>; the flag says whether the port is the read-only one.\<close>

definition PortToContext :: "port \<Rightarrow> 'k env_state \<Rightarrow> (nat \<times> bool) option" where
  "PortToContext p s =
     (case find (\<lambda>i. inuse (contexts s i) \<and> (rwport (contexts s i) = p \<or> roport (contexts s i) = p)) [0..<MAXCONN] of
        None \<Rightarrow> None | Some i \<Rightarrow> Some (i, rwport (contexts s i) \<noteq> p))"

end
