(* ===== verification/Env_Server.thy ===== *)
theory Env_Server
  imports Env_Table
begin

text \<open>
  The calls of the environment manager (\<open>envprocs.c\<close>) and the messages its main loop handles
  (\<open>envmgrmain.c\<close>).  A result that is not written on an error is \<open>None\<close>.
\<close>

section \<open>Variables\<close>

text \<open>The table of a context is copied before a change when it is shared.\<close>

definition own_table :: "'k em_env \<Rightarrow> nat \<Rightarrow> 'k env_state \<Rightarrow> 'k env_state option" where
  "own_table e cx s = (if the (hrefcnt s (ch_head (contexts s cx))) > 1 then CopyHashTable e cx s else Some s)"

definition new_entry :: "'k em_env \<Rightarrow> string \<Rightarrow> nat \<Rightarrow> env_var_t \<Rightarrow> 'k env_state \<Rightarrow> 'k env_state" where
  "new_entry e nm cx v s =
     (case CreateHashEntry e nm cx s of (p, s1) \<Rightarrow> upd_ent p (\<lambda>x. x\<lparr>he_name := nm, he_context := cx, envval := v\<rparr>) s1)"

definition env_set_string :: "'k em_env \<Rightarrow> port \<Rightarrow> string \<Rightarrow> string \<Rightarrow> 'k env_state \<Rightarrow> (env_ret \<times> 'k env_state) option" where
  "env_set_string e sp nm v s =
     (case PortToContext sp s of None \<Rightarrow> Some (ENV_UNKNOWN_PORT, s)
      | Some (cx, restrict) \<Rightarrow>
        if restrict then Some (ENV_READ_ONLY, s)
        else (case own_table e cx s of None \<Rightarrow> None
              | Some s1 \<Rightarrow>
                (case FindHashEntry nm cx s1 of None \<Rightarrow> None
                 | Some p \<Rightarrow>
                   if p \<noteq> 0 then
                     (if vartype (envval (ent s1 p)) \<noteq> Envstr then Some (ENV_WRONG_VAR_TYPE, s1)
                      else Some (ENV_SUCCESS, upd_ent p (\<lambda>x. x\<lparr>envval := Str v\<rparr>) s1))
                   else Some (ENV_SUCCESS, new_entry e nm cx (Str v) s1))))"

definition env_get_string :: "port \<Rightarrow> string \<Rightarrow> 'k env_state \<Rightarrow> (env_ret \<times> string option) option" where
  "env_get_string sp nm s =
     (case PortToContext sp s of None \<Rightarrow> Some (ENV_UNKNOWN_PORT, None)
      | Some (cx, restrict) \<Rightarrow>
        (case FindHashEntry nm cx s of None \<Rightarrow> None
         | Some p \<Rightarrow>
           if p = 0 then Some (ENV_VAR_NOT_FOUND, Some [])
           else (case envval (ent s p) of Pi i \<Rightarrow> Some (ENV_WRONG_VAR_TYPE, Some []) | Str v \<Rightarrow> Some (ENV_SUCCESS, Some v))))"

definition env_del :: "'k em_env \<Rightarrow> port \<Rightarrow> string \<Rightarrow> env_t \<Rightarrow> 'k env_state \<Rightarrow> (env_ret \<times> 'k env_state) option" where
  "env_del e sp nm vt s =
     (case PortToContext sp s of None \<Rightarrow> Some (ENV_UNKNOWN_PORT, s)
      | Some (cx, restrict) \<Rightarrow>
        if restrict then Some (ENV_READ_ONLY, s)
        else (case own_table e cx s of None \<Rightarrow> None | Some s1 \<Rightarrow> DeleteHashEntry e nm cx vt s1))"

definition env_del_string :: "'k em_env \<Rightarrow> port \<Rightarrow> string \<Rightarrow> 'k env_state \<Rightarrow> (env_ret \<times> 'k env_state) option" where
  "env_del_string e sp nm s = env_del e sp nm Envstr s"

definition env_del_port :: "'k em_env \<Rightarrow> port \<Rightarrow> string \<Rightarrow> 'k env_state \<Rightarrow> (env_ret \<times> 'k env_state) option" where
  "env_del_port e sp nm s = env_del e sp nm Envport s"

definition env_set_port :: "'k em_env \<Rightarrow> port \<Rightarrow> string \<Rightarrow> port \<Rightarrow> 'k env_state \<Rightarrow> (env_ret \<times> 'k env_state) option" where
  "env_set_port e sp nm v s =
     (if v = PORT_NULL then Some (ENV_PORT_NULL, s)
      else case PortToContext sp s of None \<Rightarrow> Some (ENV_UNKNOWN_PORT, s)
      | Some (cx, restrict) \<Rightarrow>
        if restrict then Some (ENV_READ_ONLY, s)
        else (case own_table e cx s of None \<Rightarrow> None
              | Some s1 \<Rightarrow>
                (case FindHashEntry nm cx s1 of None \<Rightarrow> None
                 | Some p \<Rightarrow>
                   if p \<noteq> 0 then
                     (case envval (ent s1 p) of Str x \<Rightarrow> Some (ENV_WRONG_VAR_TYPE, s1)
                      | Pi i \<Rightarrow>
                        if pt (pt_table s1 i) = v then Some (ENV_SUCCESS, s1)
                        else (case add_port v s1 of (None, s2) \<Rightarrow> Some (ENV_PORT_TABLE_FULL, s2)
                              | (Some j, s2) \<Rightarrow> Some (ENV_SUCCESS, upd_ent p (\<lambda>x. x\<lparr>envval := Pi j\<rparr>) (del_port e i s2))))
                   else (case add_port v s1 of (None, s2) \<Rightarrow> Some (ENV_PORT_TABLE_FULL, s2)
                         | (Some j, s2) \<Rightarrow> Some (ENV_SUCCESS, new_entry e nm cx (Pi j) s2)))))"

definition env_get_port :: "'k em_env \<Rightarrow> port \<Rightarrow> string \<Rightarrow> 'k env_state \<Rightarrow> (env_ret \<times> port option \<times> 'k env_state) option" where
  "env_get_port e sp nm s =
     (case PortToContext sp s of None \<Rightarrow> Some (ENV_UNKNOWN_PORT, None, s)
      | Some (cx, restrict) \<Rightarrow>
        (case FindHashEntry nm cx s of None \<Rightarrow> None
         | Some p \<Rightarrow>
           if p = 0 then Some (ENV_VAR_NOT_FOUND, Some PORT_NULL, s)
           else (case envval (ent s p) of Str v \<Rightarrow> Some (ENV_WRONG_VAR_TYPE, Some PORT_NULL, s)
                 | Pi i \<Rightarrow>
                   if pt (pt_table s i) = PORT_NULL
                   then map_option (\<lambda>(r, s1). (ENV_VAR_NOT_FOUND, Some PORT_NULL, s1)) (DeleteHashEntry e nm cx Envport s)
                   else Some (ENV_SUCCESS, Some (pt (pt_table s i)), s))))"

section \<open>Lists of variables\<close>

text \<open>The nodes a loop over a chain visits.\<close>

partial_function (option) walk :: "(ptr \<Rightarrow> ptr) \<Rightarrow> ptr \<Rightarrow> ptr list option" where
  "walk nx p = (if p = 0 then Some [] else Option.bind (walk nx (nx p)) (\<lambda>ps. Some (p # ps)))"

primrec walk_buckets :: "nat list \<Rightarrow> ptr \<Rightarrow> 'k env_state \<Rightarrow> ptr list option" where
  "walk_buckets [] h s = Some []"
| "walk_buckets (j # js) h s =
     (case walk (enext s) (hhead s h j) of None \<Rightarrow> None
      | Some xs \<Rightarrow> map_option ((@) xs) (walk_buckets js h s))"

definition entries_of :: "nat \<Rightarrow> 'k env_state \<Rightarrow> ptr list option" where
  "entries_of cx s = walk_buckets [0..<HASHTABLESIZE] (ch_head (contexts s cx)) s"

text \<open>
  \<open>env_list_strings\<close> counts the string variables, allocates both arrays and fills them in a
  second pass; the arrays are given as the list of the pairs written, together with their size.
\<close>

definition env_list_strings ::
  "'k em_env \<Rightarrow> port \<Rightarrow> 'k env_state \<Rightarrow> (env_ret \<times> nat \<times> (string \<times> string) list \<times> 'k env_state) option" where
  "env_list_strings e sp s =
     (case PortToContext sp s of None \<Rightarrow> Some (ENV_UNKNOWN_PORT, 0, [], s)
      | Some (cx, restrict) \<Rightarrow>
        (case entries_of cx s of None \<Rightarrow> None
         | Some xs \<Rightarrow>
           (let vc = length (filter (\<lambda>p. vartype (envval (ent s p)) = Envstr) xs) in
            if vc = 0 then Some (ENV_SUCCESS, 0, [], s)
            else case vm_allocate e (vc * env_name_size) (krn s) of (ok1, k1) \<Rightarrow>
              if \<not> ok1 then Some (KERN_FAILURE, 0, [], s\<lparr>krn := k1\<rparr>)
              else case vm_allocate e (vc * 256) k1 of (ok2, k2) \<Rightarrow>
                if \<not> ok2 then Some (KERN_FAILURE, 0, [], s\<lparr>krn := k2\<rparr>)
                else (case entries_of cx (s\<lparr>krn := k2\<rparr>) of None \<Rightarrow> None
                      | Some ys \<Rightarrow>
                        Some (ENV_SUCCESS, vc,
                          concat (map (\<lambda>p. case envval (ent s p) of Str v \<Rightarrow> [(he_name (ent s p), v)] | Pi i \<Rightarrow> []) ys),
                          s\<lparr>krn := k2\<rparr>)))))"

text \<open>The first pass of \<open>env_list_ports\<close> deletes the variables whose port has died.\<close>

partial_function (option) purge_from ::
  "'k em_env \<Rightarrow> nat \<Rightarrow> ptr \<Rightarrow> nat \<Rightarrow> env_ret \<Rightarrow> 'k env_state \<Rightarrow> (nat \<times> env_ret \<times> 'k env_state) option" where
  "purge_from e cx entry vc ret s =
     (if entry = 0 then Some (vc, ret, s)
      else case envval (ent s entry) of
        Str v \<Rightarrow> purge_from e cx (enext s entry) vc ret s
      | Pi i \<Rightarrow>
        if pt (pt_table s i) = PORT_NULL
        then (let nextentry = enext s entry in
              case DeleteHashEntry e (he_name (ent s entry)) cx Envport s of None \<Rightarrow> None
              | Some (ret', s1) \<Rightarrow> purge_from e cx nextentry vc ret' s1)
        else purge_from e cx (enext s entry) (vc + 1) ret s)"

primrec purge_buckets ::
  "'k em_env \<Rightarrow> nat \<Rightarrow> nat list \<Rightarrow> nat \<Rightarrow> env_ret \<Rightarrow> 'k env_state \<Rightarrow> (nat \<times> env_ret \<times> 'k env_state) option" where
  "purge_buckets e cx [] vc ret s = Some (vc, ret, s)"
| "purge_buckets e cx (j # js) vc ret s =
     (case purge_from e cx (hhead s (ch_head (contexts s cx)) j) vc ret s of None \<Rightarrow> None
      | Some (vc', ret', s') \<Rightarrow> purge_buckets e cx js vc' ret' s')"

text \<open>
  The second pass writes the names into the array just allocated and the ports into \<open>tmp_ports\<close>,
  which has room for \<open>MAXPORTENT\<close> ports and is never checked: the last list of the result are the
  ports stored behind its end.
\<close>

definition ports_listed :: "'k env_state \<Rightarrow> ptr list \<Rightarrow> (string \<times> port) list" where
  "ports_listed s ys =
     concat (map (\<lambda>p. case envval (ent s p) of Str v \<Rightarrow> [] | Pi i \<Rightarrow> [(he_name (ent s p), pt (pt_table s i))]) ys)"

definition env_list_ports ::
  "'k em_env \<Rightarrow> port \<Rightarrow> 'k env_state \<Rightarrow> (env_ret \<times> nat \<times> (string \<times> port) list \<times> port list \<times> 'k env_state) option" where
  "env_list_ports e sp s =
     (case PortToContext sp s of None \<Rightarrow> Some (ENV_UNKNOWN_PORT, 0, [], [], s)
      | Some (cx, restrict) \<Rightarrow>
        (case purge_buckets e cx [0..<HASHTABLESIZE] 0 ENV_SUCCESS s of None \<Rightarrow> None
         | Some (vc, ret, s1) \<Rightarrow>
           if vc = 0 then Some (ret, 0, [], [], s1)
           else case vm_allocate e (vc * env_name_size) (krn s1) of (ok, k) \<Rightarrow>
             if \<not> ok then Some (KERN_FAILURE, 0, [], [], s1\<lparr>krn := k\<rparr>)
             else (case entries_of cx (s1\<lparr>krn := k\<rparr>) of None \<Rightarrow> None
                   | Some ys \<Rightarrow>
                     (let xs = ports_listed s1 ys
                      in Some (ENV_SUCCESS, length xs, xs, drop MAXPORTENT (map snd xs), s1\<lparr>krn := k\<rparr>)))))"

text \<open>\<open>retcode\<close> is not initialised when there are no names.\<close>

primrec set_all :: "(string \<Rightarrow> 'v \<Rightarrow> 'k env_state \<Rightarrow> (env_ret \<times> 'k env_state) option) \<Rightarrow> (string \<times> 'v) list
    \<Rightarrow> env_ret option \<Rightarrow> 'k env_state \<Rightarrow> (env_ret option \<times> 'k env_state) option" where
  "set_all f [] ret s = Some (ret, s)"
| "set_all f (x # xs) ret s =
     (case f (fst x) (snd x) s of None \<Rightarrow> None
      | Some (r, s1) \<Rightarrow> if r \<noteq> ENV_SUCCESS then Some (Some r, s1) else set_all f xs (Some r) s1)"

definition env_set_stlist ::
  "'k em_env \<Rightarrow> port \<Rightarrow> (string \<times> string) list \<Rightarrow> 'k env_state \<Rightarrow> (env_ret option \<times> 'k env_state) option" where
  "env_set_stlist e sp xs s =
     map_option (\<lambda>(r, s1). (r, s1\<lparr>krn := vm_deallocate e (length xs * 256) (vm_deallocate e (length xs * env_name_size) (krn s1))\<rparr>))
       (set_all (env_set_string e sp) xs None s)"

definition env_set_ptlist ::
  "'k em_env \<Rightarrow> port \<Rightarrow> (string \<times> port) list \<Rightarrow> 'k env_state \<Rightarrow> (env_ret option \<times> 'k env_state) option" where
  "env_set_ptlist e sp xs s =
     map_option (\<lambda>(r, s1). (r, s1\<lparr>krn := vm_deallocate e (length xs * 4) (vm_deallocate e (length xs * env_name_size) (krn s1))\<rparr>))
       (set_all (env_set_port e sp) xs None s)"

section \<open>Connections\<close>

definition free_context :: "'k env_state \<Rightarrow> nat option" where
  "free_context s = find (\<lambda>i. \<not> inuse (contexts s i)) [0..<MAXCONN]"

definition set_context :: "nat \<Rightarrow> context_head_t \<Rightarrow> 'k env_state \<Rightarrow> 'k env_state" where
  "set_context i c s = s\<lparr>contexts := (contexts s)(i := c)\<rparr>"

definition new_port :: "'k em_env \<Rightarrow> 'k env_state \<Rightarrow> port option \<times> 'k env_state" where
  "new_port e s =
     (case port_allocate e (krn s) of (None, k) \<Rightarrow> (None, s\<lparr>krn := k\<rparr>)
      | (Some p, k) \<Rightarrow> (Some p, s\<lparr>krn := port_unrestrict e p k\<rparr>))"

definition empty_table :: "'k em_env \<Rightarrow> 'k env_state \<Rightarrow> ptr \<times> 'k env_state" where
  "empty_table e s =
     (let h = e_malloc e s in (h, s\<lparr>hrefcnt := (hrefcnt s)(h \<mapsto> 1), hhead := (hhead s)(h := (\<lambda>i. 0))\<rparr>))"

definition env_copy_conn :: "'k em_env \<Rightarrow> port \<Rightarrow> 'k env_state \<Rightarrow> env_ret \<times> port option \<times> 'k env_state" where
  "env_copy_conn e sp s =
     (case PortToContext sp s of None \<Rightarrow> (ENV_UNKNOWN_PORT, None, s)
      | Some (cx, restrict) \<Rightarrow>
        (case free_context s of None \<Rightarrow> (ENV_NO_MORE_CONN, None, s)
         | Some ncx \<Rightarrow>
           (case new_port e s of (None, s1) \<Rightarrow> (KERN_FAILURE, None, s1)
            | (Some p, s1) \<Rightarrow>
              (let h = ch_head (contexts s1 cx); s2 = upd_hrefcnt h 1 s1
               in (ENV_SUCCESS, Some p, set_context ncx \<lparr>ch_head = h, rwport = p, roport = PORT_NULL, inuse = True\<rparr> s2)))))"

definition env_new_conn :: "'k em_env \<Rightarrow> 'k env_state \<Rightarrow> env_ret \<times> port option \<times> 'k env_state" where
  "env_new_conn e s =
     (case free_context s of None \<Rightarrow> (ENV_NO_MORE_CONN, None, s)
      | Some ncx \<Rightarrow>
        (case new_port e s of (None, s1) \<Rightarrow> (KERN_FAILURE, None, s1)
         | (Some p, s1) \<Rightarrow>
           (case empty_table e s1 of (h, s2) \<Rightarrow>
              (ENV_SUCCESS, Some p, set_context ncx \<lparr>ch_head = h, rwport = p, roport = PORT_NULL, inuse = True\<rparr> s2))))"

definition env_restrict_conn :: "'k em_env \<Rightarrow> port \<Rightarrow> 'k env_state \<Rightarrow> env_ret \<times> port option \<times> 'k env_state" where
  "env_restrict_conn e sp s =
     (case PortToContext sp s of None \<Rightarrow> (ENV_UNKNOWN_PORT, None, s)
      | Some (cx, restrict) \<Rightarrow>
        if roport (contexts s cx) \<noteq> PORT_NULL then (ENV_SUCCESS, Some (roport (contexts s cx)), s)
        else (case new_port e s of (None, s1) \<Rightarrow> (KERN_FAILURE, None, s1)
              | (Some p, s1) \<Rightarrow> (ENV_SUCCESS, Some p, set_context cx ((contexts s1 cx)\<lparr>roport := p\<rparr>) s1)))"

text \<open>The loops of \<open>env_disconnect\<close> over a table it disposes of, with the loop's own condition.\<close>

partial_function (option) dispose_chain :: "'k em_env \<Rightarrow> ptr \<Rightarrow> 'k env_state \<Rightarrow> 'k env_state option" where
  "dispose_chain e entry s =
     (if entry = 0 then Some s
      else (let s1 = (case envval (ent s entry) of Pi i \<Rightarrow> del_port e i s | Str v \<Rightarrow> s); tempentry = enext s1 entry
            in dispose_chain e tempentry (FreeHashEntry entry s1)))"

partial_function (option) dispose_from :: "'k em_env \<Rightarrow> ptr \<Rightarrow> nat \<Rightarrow> 'k env_state \<Rightarrow> 'k env_state option" where
  "dispose_from e h i s =
     (if i > HASHTABLESIZE
      then (case dispose_chain e (hhead s h i) s of None \<Rightarrow> None | Some s1 \<Rightarrow> dispose_from e h (i + 1) s1)
      else Some s)"

text \<open>A connection port is given back to the kernel and taken out of the port table.\<close>

definition drop_port :: "'k em_env \<Rightarrow> port \<Rightarrow> 'k env_state \<Rightarrow> 'k env_state" where
  "drop_port e p s = snd (remove_dead_port p (s\<lparr>krn := snd (port_deallocate e p (krn s))\<rparr>))"

definition env_disconnect :: "'k em_env \<Rightarrow> port \<Rightarrow> 'k env_state \<Rightarrow> (env_ret \<times> 'k env_state) option" where
  "env_disconnect e sp s =
     (case PortToContext sp s of None \<Rightarrow> Some (ENV_UNKNOWN_PORT, s)
      | Some (cx, restrict) \<Rightarrow>
        if restrict then
          (if roport (contexts s cx) \<noteq> sp then Some (ENV_READ_ONLY, s)
           else (let s1 = drop_port e sp s
                 in Some (ENV_SUCCESS, set_context cx ((contexts s1 cx)\<lparr>roport := PORT_NULL\<rparr>) s1)))
        else
          (let h = ch_head (contexts s cx); s1 = upd_hrefcnt h (- 1) s in
           case (if the (hrefcnt s1 h) = 0 then map_option (\<lambda>s2. s2\<lparr>hrefcnt := (hrefcnt s2)(h := None)\<rparr>) (dispose_from e h 0 s1) else Some s1) of
             None \<Rightarrow> None
           | Some s2 \<Rightarrow>
             (let s3 = set_context cx ((contexts s2 cx)\<lparr>inuse := False\<rparr>) s2;
                  s4 = drop_port e (rwport (contexts s3 cx)) s3;
                  s5 = set_context cx ((contexts s4 cx)\<lparr>rwport := PORT_NULL\<rparr>) s4;
                  s6 = (if roport (contexts s5 cx) \<noteq> PORT_NULL
                        then (let s6 = drop_port e (roport (contexts s5 cx)) s5
                              in set_context cx ((contexts s6 cx)\<lparr>roport := PORT_NULL\<rparr>) s6)
                        else s5)
              in Some (ENV_SUCCESS, set_context cx ((contexts s6 cx)\<lparr>ch_head := 0\<rparr>) s6))))"

section \<open>Start and notifications\<close>

definition EnvInitialize :: "'k em_env \<Rightarrow> 'k env_state \<Rightarrow> 'k env_state" where
  "EnvInitialize e s =
     (let s1 = s\<lparr>HashEntryPool := 0, contexts := (\<lambda>j. if j < MAXCONN then (contexts s j)\<lparr>inuse := False\<rparr> else contexts s j),
                 pt_table := (\<lambda>j. if j < MAXPORTENT then \<lparr>pt = PORT_NULL, refcnt = 0\<rparr> else pt_table s j)\<rparr>;
          s2 = snd (add_port (service_port e) (snd (add_port (name_server_port e) (snd (add_port (environment_port e) s1)))))
      in s2\<lparr>krn := snd (vm_allocate e (MAXPORTENT * 4) (krn s2))\<rparr>)"

definition initial_conn :: "'k em_env \<Rightarrow> 'k env_state \<Rightarrow> port option \<times> 'k env_state" where
  "initial_conn e s =
     (case service_checkin e (krn s) of (r, k) \<Rightarrow>
        if r = Some (environment_port e)
        then (case empty_table e (s\<lparr>krn := port_unrestrict e (environment_port e) k\<rparr>) of (h, s1) \<Rightarrow>
                (Some (environment_port e),
                 set_context 0 \<lparr>ch_head = h, rwport = environment_port e, roport = PORT_NULL, inuse = True\<rparr> s1))
        else snd (env_new_conn e (s\<lparr>krn := k\<rparr>)))"

definition env_init :: "'k em_env \<Rightarrow> 'k env_state \<Rightarrow> port option \<times> 'k env_state" where
  "env_init e s = initial_conn e (EnvInitialize e s)"

datatype emergency = NOTIFY_OWNERSHIP_RIGHTS port | NOTIFY_PORT_DELETED port

definition env_notify :: "'k em_env \<Rightarrow> emergency \<Rightarrow> 'k env_state \<Rightarrow> 'k env_state option" where
  "env_notify e n s =
     (case n of NOTIFY_OWNERSHIP_RIGHTS p \<Rightarrow> map_option snd (env_disconnect e p s)
      | NOTIFY_PORT_DELETED p \<Rightarrow> Some (snd (remove_dead_port p s)))"

end
