(* ===== verification/Env_Names.thy ===== *)
theory Env_Names
  imports Env_Server
begin

text \<open>
  Which names the environment manager takes for the same variable: \<open>StrEqCase\<close> compares all
  characters but the first, without regard to case, and the hash function separates first
  characters only modulo 32.
\<close>

lemma hash_mod: "Hash S = nat (foldl (\<lambda>n c. n + schar c) 0 S mod 32)"
proof -
  have "x AND 31 = x mod 32" for x :: int
    using take_bit_eq_mask [of 5 x] by (simp add: mask_eq_exp_minus_1 take_bit_eq_mod)
  then show ?thesis by (simp add: Hash_def HASHTABLEMASK_def)
qed

lemma hash_less: "Hash S < HASHTABLESIZE"
  by (simp add: hash_mod HASHTABLESIZE_def nat_less_iff)

lemma schar_range: "- 128 \<le> schar c \<and> schar c < 128"
proof -
  have "of_char c < (256 :: nat)" by simp
  then show ?thesis by (simp add: schar_def Let_def; linarith)
qed

lemma schar_inj: "schar c = schar d \<longleftrightarrow> c = d"
proof
  assume "schar c = schar d"
  moreover have "of_char c < (256 :: nat)" "of_char d < (256 :: nat)" by simp_all
  ultimately have "int (of_char c) = int (of_char d)" by (simp add: schar_def Let_def split: if_splits; linarith)
  then show "c = d" by simp
qed simp

lemma schar_char_of: "0 \<le> n \<Longrightarrow> n < 128 \<Longrightarrow> schar (char_of (nat n)) = n"
  by (simp add: schar_def of_char_of Let_def)

lemma schar_up: "schar (up_char c) = (if 97 \<le> schar c \<and> schar c \<le> 122 then schar c - 32 else schar c)"
  by (simp add: up_char_def schar_char_of)

lemma up_char_idem [simp]: "up_char (up_char c) = up_char c"
proof -
  have "schar (up_char (up_char c)) = schar (up_char c)" unfolding schar_up by auto
  then show ?thesis by (simp only: schar_inj)
qed

lemma up_nul [simp]: "up_char (CHR 0x00) = CHR 0x00"
  using schar_inj [of "up_char (CHR 0x00)" "CHR 0x00"] by (simp add: schar_up) (simp add: schar_def Let_def)

lemma ConvUpper_idem [simp]: "ConvUpper (ConvUpper S) = ConvUpper S" "length (ConvUpper S) = length S"
  by (simp_all add: ConvUpper_def)

lemma char_at_upper: "char_at (ConvUpper S) i = up_char (char_at S i)"
  by (simp add: char_at_def ConvUpper_def)

lemma eq_down_iff: "eq_down S1 S2 n \<longleftrightarrow> (\<forall>i. 1 \<le> i \<and> i \<le> n \<longrightarrow> char_at S1 i = up_char (char_at S2 i))"
  by (induction n) (auto simp: le_Suc_eq)

definition same_name :: "string \<Rightarrow> string \<Rightarrow> bool" where
  "same_name a b \<longleftrightarrow> length a = length b \<and> tl (ConvUpper a) = tl (ConvUpper b) \<and> Hash (ConvUpper a) = Hash (ConvUpper b)"

lemma same_name_refl [simp]: "same_name a a"
  by (simp add: same_name_def)

lemma same_name_sym: "same_name a b \<longleftrightarrow> same_name b a"
  by (auto simp: same_name_def)

lemma same_name_trans: "same_name a b \<Longrightarrow> same_name b c \<Longrightarrow> same_name a c"
  by (simp add: same_name_def)

lemma StrEqCase_iff:
  assumes "length a \<le> env_name_size"
  shows "StrEqCase (ConvUpper a) b \<longleftrightarrow> length b = length a \<and> tl (ConvUpper a) = tl (ConvUpper b)"
proof (cases "length b = length a")
  case True
  have "eq_down (ConvUpper a) b (length a) \<longleftrightarrow> (\<forall>i. 1 \<le> i \<and> i < length a \<longrightarrow> up_char (a ! i) = up_char (b ! i))"
    using True by (auto simp: eq_down_iff char_at_upper char_at_def ConvUpper_def)
  also have "\<dots> \<longleftrightarrow> tl (ConvUpper a) = tl (ConvUpper b)"
  proof -
    have "tl (ConvUpper a) = tl (ConvUpper b) \<longleftrightarrow> (\<forall>i < length a - 1. up_char (a ! Suc i) = up_char (b ! Suc i))"
      using True by (auto simp: list_eq_iff_nth_eq nth_tl ConvUpper_def)
    also have "\<dots> \<longleftrightarrow> (\<forall>i. 1 \<le> i \<and> i < length a \<longrightarrow> up_char (a ! i) = up_char (b ! i))"
    proof (intro iffI allI impI)
      fix i assume l: "\<forall>i < length a - 1. up_char (a ! Suc i) = up_char (b ! Suc i)" and i: "1 \<le> i \<and> i < length a"
      then show "up_char (a ! i) = up_char (b ! i)" using l [rule_format, of "i - 1"] by auto
    qed auto
    finally show ?thesis by simp
  qed
  finally show ?thesis using True assms by (simp add: StrEqCase_def)
next
  case False
  then show ?thesis using assms by (simp add: StrEqCase_def)
qed

text \<open>An entry with the hash of the name matches exactly when its name is the same.\<close>

lemma match_same_name:
  assumes "length a \<le> env_name_size" and "Hash (ConvUpper b) = Hash (ConvUpper a)"
  shows "StrEqCase (ConvUpper a) b \<longleftrightarrow> same_name a b"
  using StrEqCase_iff [OF assms(1), of b] assms(2) by (auto simp: same_name_def)

lemma fold_schar: "foldl (\<lambda>n c. n + schar c) k S = k + foldl (\<lambda>n c. n + schar c) 0 S"
proof (induction S arbitrary: k)
  case (Cons c S)
  show ?case using Cons.IH [of "k + schar c"] Cons.IH [of "schar c"] by simp
qed simp

lemma same_name_first:
  "same_name (c # a) (d # b) \<longleftrightarrow> ConvUpper a = ConvUpper b \<and> schar (up_char c) mod 32 = schar (up_char d) mod 32"
proof -
  let ?f = "\<lambda>S. foldl (\<lambda>n c. n + schar c) 0 S"
  have h: "Hash (x # S) = nat ((schar x + ?f S) mod 32)" for x S using fold_schar [of "schar x" S] by (simp add: hash_mod)
  have "nat ((x + z) mod 32) = nat ((y + z) mod 32) \<longleftrightarrow> x mod 32 = y mod 32" for x y z :: int
  proof -
    have "(x + z) mod 32 = (y + z) mod 32 \<longleftrightarrow> x mod 32 = y mod 32" by (simp add: mod_eq_dvd_iff)
    moreover have "nat (u mod 32) = nat (v mod 32) \<longleftrightarrow> u mod 32 = v mod 32" for u v :: int by (simp add: nat_eq_iff)
    ultimately show ?thesis by simp
  qed
  then have "Hash (x # S) = Hash (y # S) \<longleftrightarrow> schar x mod 32 = schar y mod 32" for x y S by (simp add: h)
  moreover have "length a = length b" if "ConvUpper a = ConvUpper b" using that by (metis ConvUpper_idem(2))
  ultimately show ?thesis by (auto simp: same_name_def ConvUpper_def)
qed

text \<open>Names that begin with a letter are the same exactly when they differ in case only.\<close>

definition letter :: "char \<Rightarrow> bool" where
  "letter c \<longleftrightarrow> 65 \<le> schar (up_char c) \<and> schar (up_char c) \<le> 90"

lemma same_name_letters:
  assumes "letter c" "letter d"
  shows "same_name (c # a) (d # b) \<longleftrightarrow> ConvUpper (c # a) = ConvUpper (d # b)"
proof -
  have m: "x mod 32 = x - 64" if "65 \<le> x" "x \<le> 90" for x :: int using that by presburger
  have "schar (up_char c) mod 32 = schar (up_char d) mod 32 \<longleftrightarrow> schar (up_char c) = schar (up_char d)"
    using m assms by (simp add: letter_def)
  then show ?thesis by (auto simp: same_name_first schar_inj ConvUpper_def)
qed

lemma same_name_digit: "same_name ''1X'' ''QX''"
  by (simp add: same_name_first schar_up) (simp add: schar_def up_char_def Let_def)

end
