(* ===== verification/Env_Inv.thy ===== *)
theory Env_Inv
  imports Env_Names
begin

text \<open>
  The shape of the environment manager's tables: a family of buckets, each a chain of entries,
  disjoint from each other and from the pool of free entries, with at most one entry per name
  and with every reference of an entry to the port table counted.  A bucket is a pair of a hash
  head and an index; the contents of a bucket are the names and values of its entries.
\<close>

type_synonym bucket = "ptr \<times> nat"

datatype env_value = VStr string | VPort port

definition em_ok :: "'k em_env \<Rightarrow> bool" where
  "em_ok e \<longleftrightarrow> (\<forall>A. finite A \<longrightarrow> new_block e A \<notin> A \<and> new_block e A \<noteq> 0)"

fun pvalue :: "(nat \<Rightarrow> port_ent_t) \<Rightarrow> env_var_t \<Rightarrow> env_value" where
  "pvalue tab (Str v) = VStr v"
| "pvalue tab (Pi i) = VPort (pt (tab i))"

definition item :: "'k env_state \<Rightarrow> ptr \<Rightarrow> string \<times> env_value" where
  "item s p = (he_name (ent s p), pvalue (pt_table s) (envval (ent s p)))"

definition cells :: "bucket set \<Rightarrow> (bucket \<Rightarrow> ptr list) \<Rightarrow> ptr set" where
  "cells D ch = (\<Union>d\<in>D. set (ch d))"

definition prefs :: "bucket set \<Rightarrow> (bucket \<Rightarrow> ptr list) \<Rightarrow> 'k env_state \<Rightarrow> nat \<Rightarrow> ptr set" where
  "prefs D ch s i = {x \<in> cells D ch. envval (ent s x) = Pi i}"

definition links_ok :: "bucket set \<Rightarrow> 'k env_state \<Rightarrow> (bucket \<Rightarrow> ptr list) \<Rightarrow> ptr list \<Rightarrow> bool" where
  "links_ok D s ch fs \<longleftrightarrow> (\<forall>d\<in>D. chain (enext s) (hhead s (fst d) (snd d)) (ch d)) \<and> chain (enext s) (HashEntryPool s) fs
     \<and> (\<forall>d\<in>D. \<forall>d'\<in>D. d \<noteq> d' \<longrightarrow> set (ch d) \<inter> set (ch d') = {}) \<and> set fs \<inter> cells D ch = {}
     \<and> set fs \<subseteq> heap s \<and> cells D ch \<subseteq> heap s \<and> finite (heap s) \<and> finite (dom (hrefcnt s))"

definition names_ok :: "bucket set \<Rightarrow> 'k env_state \<Rightarrow> (bucket \<Rightarrow> ptr list) \<Rightarrow> bool" where
  "names_ok D s ch \<longleftrightarrow> (\<forall>d\<in>D. \<forall>x\<in>set (ch d). Hash (ConvUpper (he_name (ent s x))) = snd d \<and> length (he_name (ent s x)) \<le> env_name_size)
     \<and> (\<forall>d\<in>D. \<forall>x\<in>set (ch d). \<forall>y\<in>set (ch d). x \<noteq> y \<longrightarrow> \<not> same_name (he_name (ent s x)) (he_name (ent s y)))"

definition ports_ok :: "bucket set \<Rightarrow> 'k env_state \<Rightarrow> (bucket \<Rightarrow> ptr list) \<Rightarrow> bool" where
  "ports_ok D s ch \<longleftrightarrow> (\<forall>x\<in>cells D ch. \<forall>i. envval (ent s x) = Pi i \<longrightarrow> i < MAXPORTENT)
     \<and> (\<forall>i<MAXPORTENT. int (card (prefs D ch s i)) \<le> refcnt (pt_table s i))"

definition table_ok :: "bucket set \<Rightarrow> 'k env_state \<Rightarrow> (bucket \<Rightarrow> ptr list) \<Rightarrow> ptr list \<Rightarrow> bool" where
  "table_ok D s ch fs \<longleftrightarrow> links_ok D s ch fs \<and> names_ok D s ch \<and> ports_ok D s ch"

lemma table_okD:
  assumes "table_ok D s ch fs"
  shows "links_ok D s ch fs" "names_ok D s ch" "ports_ok D s ch"
  using assms by (auto simp: table_ok_def)

lemma finite_cells: "links_ok D s ch fs \<Longrightarrow> finite (cells D ch)"
  unfolding links_ok_def by (meson finite_subset)

lemma finite_prefs: "links_ok D s ch fs \<Longrightarrow> finite (prefs D ch s i)"
  using finite_cells [of D s ch fs] by (simp add: prefs_def)

lemma bucket_chain: "links_ok D s ch fs \<Longrightarrow> (h, j) \<in> D \<Longrightarrow> chain (enext s) (hhead s h j) (ch (h, j))"
  by (force simp: links_ok_def)

lemma cellsI: "d \<in> D \<Longrightarrow> x \<in> set (ch d) \<Longrightarrow> x \<in> cells D ch"
  by (auto simp: cells_def)

lemma cell_nonnull: "links_ok D s ch fs \<Longrightarrow> x \<in> cells D ch \<Longrightarrow> x \<noteq> 0"
proof
  assume l: "links_ok D s ch fs" and x: "x \<in> cells D ch" and z: "x = 0"
  then obtain d where "d \<in> D" "0 \<in> set (ch d)" by (auto simp: cells_def)
  then show False using l chain_members [of "enext s" "hhead s (fst d) (snd d)" "ch d"] by (auto simp: links_ok_def)
qed

text \<open>An entry belongs to one bucket.\<close>

lemma cell_bucket: "links_ok D s ch fs \<Longrightarrow> d \<in> D \<Longrightarrow> d' \<in> D \<Longrightarrow> x \<in> set (ch d) \<Longrightarrow> x \<in> set (ch d') \<Longrightarrow> d' = d"
  unfolding links_ok_def by blast

section \<open>Looking up\<close>

definition contents :: "'k env_state \<Rightarrow> (bucket \<Rightarrow> ptr list) \<Rightarrow> bucket \<Rightarrow> (string \<times> env_value) list" where
  "contents s ch d = map (item s) (ch d)"

definition look_in :: "(string \<times> env_value) list \<Rightarrow> string \<Rightarrow> env_value option" where
  "look_in xs n = map_option snd (find (\<lambda>x. same_name n (fst x)) xs)"

lemma look_in_simps [simp]:
  "look_in [] n = None" "look_in ((m, v) # xs) n = (if same_name n m then Some v else look_in xs n)"
  by (simp_all add: look_in_def)

definition env_find :: "'k env_state \<Rightarrow> string \<Rightarrow> ptr list \<Rightarrow> ptr" where
  "env_find s n xs = first_with (\<lambda>p. same_name n (he_name (ent s p))) xs"

lemma find_entry:
  assumes T: "table_ok D s ch fs" and d: "(ch_head (contexts s P), Hash (ConvUpper n)) \<in> D" and n: "length n \<le> env_name_size"
  shows "FindHashEntry n P s = Some (env_find s n (ch (ch_head (contexts s P), Hash (ConvUpper n))))"
proof -
  let ?d = "(ch_head (contexts s P), Hash (ConvUpper n))"
  have c: "chain (enext s) (hhead s (fst ?d) (snd ?d)) (ch ?d)" using table_okD(1) [OF T] d by (simp add: bucket_chain)
  have m: "StrEqCase (ConvUpper n) (he_name (ent s p)) = same_name n (he_name (ent s p))" if "p \<in> set (ch ?d)" for p
    using match_same_name [OF n] table_okD(2) [OF T] d that by (fastforce simp: names_ok_def)
  have "FindHashEntry n P s = Some (first_with (\<lambda>p. StrEqCase (ConvUpper n) (he_name (ent s p))) (ch ?d))"
    using find_from_chain [OF c] by (simp add: FindHashEntry_def Let_def)
  also have "\<dots> = Some (env_find s n (ch ?d))" unfolding env_find_def using m by (simp cong: first_with_cong)
  finally show ?thesis .
qed

lemma env_find_look:
  assumes "0 \<notin> set xs"
  shows "look_in (map (item s) xs) n = (if env_find s n xs = 0 then None else Some (pvalue (pt_table s) (envval (ent s (env_find s n xs)))))"
  using assms by (induction xs) (auto simp: env_find_def item_def)

lemma env_find_member: "env_find s n xs \<noteq> 0 \<Longrightarrow> env_find s n xs \<in> set xs \<and> same_name n (he_name (ent s (env_find s n xs)))"
  unfolding env_find_def by (rule first_with_member)

section \<open>Taking and returning entries\<close>

lemma malloc_fresh:
  assumes "em_ok e" "finite (heap s)" "finite (dom (hrefcnt s))"
  shows "e_malloc e s \<notin> heap s" "e_malloc e s \<notin> dom (hrefcnt s)" "e_malloc e s \<noteq> 0"
proof -
  have f: "finite (heap s \<union> dom (hrefcnt s))" using assms by simp
  have "new_block e A \<notin> A \<and> new_block e A \<noteq> 0" if "finite A" for A using assms(1) that by (simp add: em_ok_def)
  from this [OF f] have "e_malloc e s \<notin> heap s \<union> dom (hrefcnt s) \<and> e_malloc e s \<noteq> 0" unfolding e_malloc_def .
  then show "e_malloc e s \<notin> heap s" "e_malloc e s \<notin> dom (hrefcnt s)" "e_malloc e s \<noteq> 0" by auto
qed

lemma new_entry_fresh:
  assumes e: "em_ok e" and l: "links_ok D s ch fs" and n: "NewHashEntry e s = (p, s')"
  shows "\<exists>fs'. links_ok D s' ch fs' \<and> p \<noteq> 0 \<and> p \<notin> set fs' \<and> p \<notin> cells D ch \<and> p \<in> heap s'
     \<and> (\<exists>q hp. s' = s\<lparr>HashEntryPool := q, heap := hp\<rparr>)"
proof (cases fs)
  case Nil
  then have z: "HashEntryPool s = 0" using l by (simp add: links_ok_def)
  have f: "finite (heap s)" "cells D ch \<subseteq> heap s" "finite (dom (hrefcnt s))" using l by (auto simp: links_ok_def)
  have p: "p = e_malloc e s" and s': "s' = s\<lparr>heap := insert p (heap s)\<rparr>"
    using n z by (auto simp: NewHashEntry_def Let_def)
  have np: "p \<notin> heap s" "p \<noteq> 0" using malloc_fresh [OF e f(1,3)] p by simp_all
  have "links_ok D s' ch []" using l Nil by (auto simp: links_ok_def s')
  moreover have "s' = s\<lparr>HashEntryPool := HashEntryPool s, heap := insert p (heap s)\<rparr>" using s' by (cases s) simp
  then have "\<exists>q hp. s' = s\<lparr>HashEntryPool := q, heap := hp\<rparr>" by blast
  moreover have "p \<notin> cells D ch" "p \<in> heap s'" using np f s' by auto
  ultimately show ?thesis using np by (intro exI [of _ "[]"]) simp
next
  case (Cons q gs)
  then have z: "HashEntryPool s = q" "q \<noteq> 0" "chain (enext s) (enext s q) gs" using l by (auto simp: links_ok_def)
  have p: "p = q" and s': "s' = s\<lparr>HashEntryPool := enext s q\<rparr>" using n z by (auto simp: NewHashEntry_def Let_def)
  have "q \<notin> set gs" using l chain_head_notin [of "enext s" "HashEntryPool s" q gs] Cons by (simp add: links_ok_def)
  moreover have "links_ok D s' ch gs" using l Cons z by (auto simp: links_ok_def s')
  moreover have "q \<notin> cells D ch" "q \<in> heap s" using l Cons by (auto simp: links_ok_def)
  moreover have "s' = s\<lparr>HashEntryPool := enext s q, heap := heap s\<rparr>" using s' by (cases s) simp
  then have "\<exists>q hp. s' = s\<lparr>HashEntryPool := q, heap := hp\<rparr>" by blast
  moreover have "heap s' = heap s" using s' by simp
  ultimately show ?thesis using z p by (intro exI [of _ gs]) simp
qed

text \<open>Changes outside the entries of a family of buckets.\<close>

lemma cells_upd: "d \<in> D \<Longrightarrow> cells D (ch(d := xs)) = cells (D - {d}) ch \<union> set xs"
  by (auto simp: cells_def split: if_splits)

lemma cells_insert: "cells (insert d D) ch = set (ch d) \<union> cells D ch"
  by (auto simp: cells_def)

lemma names_cong:
  assumes "\<And>x. x \<in> cells D ch \<Longrightarrow> he_name (ent s' x) = he_name (ent s x)"
  shows "names_ok D s' ch = names_ok D s ch"
proof -
  have "he_name (ent s' x) = he_name (ent s x)" if "d \<in> D" "x \<in> set (ch d)" for d x using assms that by (auto simp: cells_def)
  then show ?thesis unfolding names_ok_def by (simp cong: ball_cong)
qed

lemma prefs_cong:
  "(\<And>x. x \<in> cells D ch \<Longrightarrow> envval (ent s' x) = envval (ent s x)) \<Longrightarrow> prefs D ch s' i = prefs D ch s i"
  by (auto simp: prefs_def)

lemma contents_cong:
  assumes "d \<in> D" and "\<And>x. x \<in> cells D ch \<Longrightarrow> item s' x = item s x"
  shows "contents s' ch d = contents s ch d"
  using assms by (simp add: contents_def cells_def) blast

text \<open>One bucket is given a new chain.\<close>

lemma links_upd:
  assumes l: "links_ok D s ch fs" and d: "d \<in> D" and c: "chain (enext s') (hhead s' (fst d) (snd d)) xs"
    and hh: "\<And>d'. d' \<noteq> d \<Longrightarrow> hhead s' (fst d') (snd d') = hhead s (fst d') (snd d')"
    and nx: "\<And>x. x \<in> cells (D - {d}) ch \<Longrightarrow> enext s' x = enext s x"
    and f: "chain (enext s') (HashEntryPool s') fs'"
    and st: "set xs \<inter> cells (D - {d}) ch = {}" "set fs' \<inter> cells (D - {d}) ch = {}" "set fs' \<inter> set xs = {}"
    and hp: "set xs \<subseteq> heap s'" "set fs' \<subseteq> heap s'" "heap s \<subseteq> heap s'" "finite (heap s')" "hrefcnt s' = hrefcnt s"
  shows "links_ok D s' (ch(d := xs)) fs'"
proof -
  have a: "set (ch d') \<inter> set xs = {}" if "d' \<in> D" "d' \<noteq> d" for d' using st(1) that by (auto simp: cells_def)
  have b: "chain (enext s') (hhead s' (fst d') (snd d')) (ch d')" if "d' \<in> D" "d' \<noteq> d" for d'
  proof -
    have "\<forall>y\<in>set (ch d'). enext s' y = enext s y" using nx that by (auto simp: cells_def)
    then have "chain (enext s') (hhead s (fst d') (snd d')) (ch d') = chain (enext s) (hhead s (fst d') (snd d')) (ch d')" by (rule chain_cong)
    then show ?thesis using l hh that by (simp add: links_ok_def)
  qed
  have "\<forall>d'\<in>D. chain (enext s') (hhead s' (fst d') (snd d')) ((ch(d := xs)) d')" using b c by simp
  moreover have "set ((ch(d := xs)) u) \<inter> set ((ch(d := xs)) v) = {}" if "u \<in> D" "v \<in> D" "u \<noteq> v" for u v
    using l a [of u] a [of v] that by (auto simp: links_ok_def)
  moreover have k: "cells (D - {d}) ch \<subseteq> heap s'" "finite (dom (hrefcnt s'))"
  proof -
    have "cells D ch \<subseteq> heap s" "finite (dom (hrefcnt s))" using l by (auto simp: links_ok_def)
    then show "cells (D - {d}) ch \<subseteq> heap s'" "finite (dom (hrefcnt s'))" using hp(3,5) by (auto simp: cells_def)
  qed
  moreover have "set fs' \<inter> (cells (D - {d}) ch \<union> set xs) = {}" using st by blast
  moreover have "cells (D - {d}) ch \<union> set xs \<subseteq> heap s'" using k hp(1) by blast
  ultimately show ?thesis unfolding links_ok_def cells_upd [OF d] using f hp(2,4) by (intro conjI ballI impI) simp_all
qed

lemma cells_split: "d \<in> D \<Longrightarrow> cells D ch = cells (D - {d}) ch \<union> set (ch d)"
  by (auto simp: cells_def)

lemma other_cells: "links_ok D s ch fs \<Longrightarrow> d \<in> D \<Longrightarrow> set (ch d) \<inter> cells (D - {d}) ch = {}"
  unfolding links_ok_def cells_def by blast

text \<open>A new entry joins a bucket.\<close>

lemma add_cell:
  assumes T: "table_ok D s ch fs" and d: "d \<in> D" and p: "p \<notin> set fs" "p \<notin> cells D ch" "p \<in> heap s'"
    and c: "chain (enext s') (hhead s' (fst d) (snd d)) xs" "set xs = insert p (set (ch d))"
    and hh: "\<And>d'. d' \<noteq> d \<Longrightarrow> hhead s' (fst d') (snd d') = hhead s (fst d') (snd d')"
    and nx: "\<And>x. x \<notin> insert p (set (ch d)) \<Longrightarrow> enext s' x = enext s x"
    and hp: "heap s' = heap s" "HashEntryPool s' = HashEntryPool s" "hrefcnt s' = hrefcnt s"
    and nm: "Hash (ConvUpper (he_name (ent s' p))) = snd d" "length (he_name (ent s' p)) \<le> env_name_size"
      "\<And>x. x \<in> set (ch d) \<Longrightarrow> \<not> same_name (he_name (ent s' p)) (he_name (ent s x))"
    and en: "\<And>x. x \<noteq> p \<Longrightarrow> ent s' x = ent s x"
    and v: "\<And>i. envval (ent s' p) = Pi i \<Longrightarrow> i < MAXPORTENT"
      "\<And>i. i < MAXPORTENT \<Longrightarrow> int (card (prefs D ch s i)) + (if envval (ent s' p) = Pi i then 1 else 0) \<le> refcnt (pt_table s' i)"
  shows "table_ok D s' (ch(d := xs)) fs"
proof -
  note L = table_okD(1) [OF T] and N = table_okD(2) [OF T] and P = table_okD(3) [OF T]
  have cd: "set (ch d) \<subseteq> cells D ch" using d by (auto simp: cells_def)
  have cx: "cells D (ch(d := xs)) = insert p (cells D ch)" using cells_upd [OF d] cells_split [OF d] c(2) by blast
  have dj: "set fs \<inter> cells D ch = {}" using L by (simp add: links_ok_def)
  have "links_ok D s' (ch(d := xs)) fs"
  proof (rule links_upd [OF L d c(1) hh])
    have o: "x \<notin> insert p (set (ch d))" if "x \<in> cells (D - {d}) ch" for x
      using that other_cells [OF L d] p(2) cells_split [OF d, of ch] by blast
    then show "\<And>x. x \<in> cells (D - {d}) ch \<Longrightarrow> enext s' x = enext s x" using nx by blast
    have "y \<notin> insert p (set (ch d))" if "y \<in> set fs" for y using that p(1) dj cd by blast
    then have "\<forall>y\<in>set fs. enext s' y = enext s y" using nx by blast
    then show "chain (enext s') (HashEntryPool s') fs" using L hp chain_cong [of fs "enext s'" "enext s"] by (simp add: links_ok_def)
    show "set xs \<inter> cells (D - {d}) ch = {}" using o c(2) by blast
    show "set fs \<inter> cells (D - {d}) ch = {}" using dj cells_split [OF d, of ch] by blast
    show "set fs \<inter> set xs = {}" unfolding c(2) using dj cd p(1) by blast
    have H: "set fs \<subseteq> heap s" "cells D ch \<subseteq> heap s" "finite (heap s)" using L by (auto simp: links_ok_def)
    then show "set fs \<subseteq> heap s'" "heap s \<subseteq> heap s'" "finite (heap s')" by (simp_all add: hp(1))
    show "set xs \<subseteq> heap s'" unfolding c(2) using cd p(3) H(2) hp(1) by blast
    show "hrefcnt s' = hrefcnt s" by (rule hp(3))
  qed
  moreover have "names_ok D s' (ch(d := xs))"
  proof -
    have n: "ent s' x = ent s x" if "x \<in> cells D ch" for x using en p(2) that by metis
    have q: "Hash (ConvUpper (he_name (ent s' x))) = snd d' \<and> length (he_name (ent s' x)) \<le> env_name_size"
      if "d' \<in> D" "x \<in> set ((ch(d := xs)) d')" for d' x
      using that N nm(1,2) c(2) n cellsI [of d' D x ch] unfolding names_ok_def by (cases "d' = d"; cases "x = p") auto
    have "\<not> same_name (he_name (ent s' x)) (he_name (ent s' y))"
      if "d' \<in> D" "x \<in> set ((ch(d := xs)) d')" "y \<in> set ((ch(d := xs)) d')" "x \<noteq> y" for d' x y
    proof (cases "d' = d")
      case True
      then have xy: "x = p \<or> x \<in> set (ch d)" "y = p \<or> y \<in> set (ch d)" using that c(2) by auto
      have old: "\<not> same_name (he_name (ent s x)) (he_name (ent s y))" if "x \<in> set (ch d)" "y \<in> set (ch d)"
        using N d that \<open>x \<noteq> y\<close> by (simp add: names_ok_def)
      show ?thesis using xy old nm(3) [of x] nm(3) [of y] n cd \<open>x \<noteq> y\<close> same_name_sym by (metis subsetD)
    next
      case False
      then have "x \<in> cells D ch" "y \<in> cells D ch" using that by (auto simp: cells_def)
      then show ?thesis using that False N n by (simp add: names_ok_def)
    qed
    then show ?thesis unfolding names_ok_def using q by blast
  qed
  moreover have "ports_ok D s' (ch(d := xs))"
  proof -
    have pr: "prefs D (ch(d := xs)) s' i = prefs D ch s i \<union> (if envval (ent s' p) = Pi i then {p} else {})" for i
      unfolding prefs_def cx using en p(2) by (auto; metis)
    have "int (card (prefs D (ch(d := xs)) s' i)) \<le> refcnt (pt_table s' i)" if "i < MAXPORTENT" for i
    proof -
      have "p \<notin> prefs D ch s i" using p(2) by (simp add: prefs_def)
      then have "int (card (prefs D (ch(d := xs)) s' i)) = int (card (prefs D ch s i)) + (if envval (ent s' p) = Pi i then 1 else 0)"
        unfolding pr using finite_prefs [OF L, of i] by simp
      then show ?thesis using v(2) [OF that] by simp
    qed
    moreover have "i < MAXPORTENT" if "x \<in> cells D (ch(d := xs))" "envval (ent s' x) = Pi i" for x i
      using that P v(1) en unfolding cx ports_ok_def by (metis insert_iff)
    ultimately show ?thesis unfolding ports_ok_def by blast
  qed
  ultimately show ?thesis by (simp add: table_ok_def)
qed

text \<open>An entry leaves its bucket for the pool.\<close>

lemma drop_cell:
  assumes T: "table_ok D s ch fs" and d: "d \<in> D" and y: "y \<in> set (ch d)"
    and c: "chain (enext s') (hhead s' (fst d) (snd d)) xs" "set xs = set (ch d) - {y}"
    and hh: "\<And>d'. d' \<noteq> d \<Longrightarrow> hhead s' (fst d') (snd d') = hhead s (fst d') (snd d')"
    and nx: "\<And>x. x \<notin> set (ch d) \<Longrightarrow> enext s' x = enext s x" "enext s' y = HashEntryPool s"
    and hp: "heap s' = heap s" "HashEntryPool s' = y" "ent s' = ent s" "hrefcnt s' = hrefcnt s"
    and v: "\<And>i. i < MAXPORTENT \<Longrightarrow> int (card (prefs D ch s i)) - (if envval (ent s y) = Pi i then 1 else 0) \<le> refcnt (pt_table s' i)"
  shows "table_ok D s' (ch(d := xs)) (y # fs)"
proof -
  note L = table_okD(1) [OF T] and N = table_okD(2) [OF T] and P = table_okD(3) [OF T]
  have cd: "set (ch d) \<subseteq> cells D ch" using d by (auto simp: cells_def)
  have yo: "y \<notin> cells (D - {d}) ch" using other_cells [OF L d] y by blast
  have cx: "cells D (ch(d := xs)) = cells D ch - {y}" unfolding cells_upd [OF d] cells_split [OF d, of ch] c(2) using yo by blast
  have dj: "set fs \<inter> cells D ch = {}" using L by (simp add: links_ok_def)
  have y0: "y \<noteq> 0" "y \<notin> set fs" using cell_nonnull [OF L] cd y dj by blast+
  have H: "set fs \<subseteq> heap s" "cells D ch \<subseteq> heap s" "finite (heap s)" using L by (auto simp: links_ok_def)
  have "links_ok D s' (ch(d := xs)) (y # fs)"
  proof (rule links_upd [OF L d c(1) hh])
    have o: "x \<notin> set (ch d)" if "x \<in> cells (D - {d}) ch" for x using that other_cells [OF L d] by blast
    then show "\<And>x. x \<in> cells (D - {d}) ch \<Longrightarrow> enext s' x = enext s x" using nx(1) by blast
    have "z \<notin> set (ch d)" if "z \<in> set fs" for z using that dj cd by blast
    then have "\<forall>z\<in>set fs. enext s' z = enext s z" using nx(1) by blast
    then show "chain (enext s') (HashEntryPool s') (y # fs)"
      using L hp nx(2) y0(1) chain_cong [of fs "enext s'" "enext s"] by (simp add: links_ok_def)
    show "set xs \<inter> cells (D - {d}) ch = {}" unfolding c(2) using o by blast
    show "set (y # fs) \<inter> cells (D - {d}) ch = {}" using dj cells_split [OF d, of ch] yo by auto
    show "set (y # fs) \<inter> set xs = {}" unfolding c(2) using dj cd by auto
    show "set xs \<subseteq> heap s'" unfolding c(2) hp(1) using cd H(2) by blast
    show "set (y # fs) \<subseteq> heap s'" unfolding hp(1) using H cd y by auto
    show "heap s \<subseteq> heap s'" "finite (heap s')" "hrefcnt s' = hrefcnt s" using H by (simp_all add: hp(1,4))
  qed
  moreover have "names_ok D s' (ch(d := xs))"
  proof -
    have "set ((ch(d := xs)) d') \<subseteq> set (ch d')" for d' using c(2) by auto
    then show ?thesis using N unfolding names_ok_def hp(3) by (meson subsetD)
  qed
  moreover have "ports_ok D s' (ch(d := xs))"
  proof -
    have pr: "prefs D (ch(d := xs)) s' i = prefs D ch s i - {y}" for i unfolding prefs_def cx hp(3) by blast
    have "int (card (prefs D (ch(d := xs)) s' i)) \<le> refcnt (pt_table s' i)" if "i < MAXPORTENT" for i
    proof (cases "envval (ent s y) = Pi i")
      case True
      then have "y \<in> prefs D ch s i" using cd y by (auto simp: prefs_def)
      then have "int (card (prefs D ch s i - {y})) = int (card (prefs D ch s i)) - 1"
        using finite_prefs [OF L, of i] card_Suc_Diff1 [of "prefs D ch s i" y] by simp
      then show ?thesis using v [OF that] True pr by simp
    next
      case False
      then have "prefs D ch s i - {y} = prefs D ch s i" by (auto simp: prefs_def)
      then show ?thesis using v [OF that] False pr by simp
    qed
    moreover have "i < MAXPORTENT" if "x \<in> cells D (ch(d := xs))" "envval (ent s' x) = Pi i" for x i
      using that P unfolding cx ports_ok_def hp(3) by blast
    ultimately show ?thesis unfolding ports_ok_def by blast
  qed
  ultimately show ?thesis by (simp add: table_ok_def)
qed

text \<open>The value of an entry changes.\<close>

lemma set_cell:
  assumes T: "table_ok D s ch fs" and p: "p \<in> cells D ch"
    and eq: "enext s' = enext s" "hhead s' = hhead s" "heap s' = heap s" "HashEntryPool s' = HashEntryPool s" "hrefcnt s' = hrefcnt s"
    and en: "ent s' = (ent s)(p := x)" "he_name x = he_name (ent s p)"
    and v: "\<And>i. envval x = Pi i \<Longrightarrow> i < MAXPORTENT"
      "\<And>i. i < MAXPORTENT \<Longrightarrow> int (card (prefs D ch s i)) - (if envval (ent s p) = Pi i then 1 else 0)
          + (if envval x = Pi i then 1 else 0) \<le> refcnt (pt_table s' i)"
  shows "table_ok D s' ch fs"
proof -
  note L = table_okD(1) [OF T] and P = table_okD(3) [OF T]
  have "links_ok D s' ch fs" using L by (simp add: links_ok_def eq)
  moreover have "names_ok D s' ch" using table_okD(2) [OF T] names_cong [of D ch s' s] en by simp
  moreover have "ports_ok D s' ch"
  proof -
    have pr: "prefs D ch s' i = (prefs D ch s i - {p}) \<union> (if envval x = Pi i then {p} else {})" for i
      unfolding prefs_def en(1) using p by auto
    have "int (card (prefs D ch s' i)) \<le> refcnt (pt_table s' i)" if "i < MAXPORTENT" for i
    proof -
      have f: "finite (prefs D ch s i)" by (rule finite_prefs [OF L])
      have m: "p \<in> prefs D ch s i \<longleftrightarrow> envval (ent s p) = Pi i" using p by (simp add: prefs_def)
      have "int (card (prefs D ch s i - {p})) = int (card (prefs D ch s i)) - (if envval (ent s p) = Pi i then 1 else 0)"
      proof (cases "envval (ent s p) = Pi i")
        case True
        then show ?thesis using m card_Suc_Diff1 [OF f, of p] by simp
      qed (use m in simp)
      moreover have "int (card (prefs D ch s' i)) = int (card (prefs D ch s i - {p})) + (if envval x = Pi i then 1 else 0)"
        unfolding pr using f by (simp add: card.insert_remove)
      ultimately show ?thesis using v(2) [OF that] by simp
    qed
    moreover have "i < MAXPORTENT" if "y \<in> cells D ch" "envval (ent s' y) = Pi i" for y i
      using that P v(1) unfolding ports_ok_def en(1) by (auto split: if_splits)
    ultimately show ?thesis unfolding ports_ok_def by blast
  qed
  ultimately show ?thesis by (simp add: table_ok_def)
qed

section \<open>The port table\<close>

lemma add_scan_spec:
  "add_scan tab p emp is = (b, r) \<Longrightarrow> (b \<longrightarrow> (\<exists>i\<in>set is. r = Some i \<and> pt (tab i) = p))
     \<and> (\<not> b \<longrightarrow> r = emp \<or> (\<exists>i\<in>set is. r = Some i \<and> refcnt (tab i) = 0))"
proof (induction "is" arbitrary: emp)
  case (Cons i "is")
  show ?case
  proof (cases "pt (tab i) = p")
    case True
    then show ?thesis using Cons.prems by auto
  next
    case False
    then have "add_scan tab p (if emp = None \<and> refcnt (tab i) = 0 then Some i else emp) is = (b, r)" using Cons.prems by simp
    from Cons.IH [OF this] show ?thesis by (auto split: if_splits)
  qed
qed simp

lemma add_port_cases:
  assumes "add_port p s = (r, s')"
  shows "(r = None \<and> s' = s) \<or> (\<exists>i<MAXPORTENT. r = Some i \<and> ((pt (pt_table s i) = p \<and> s' = upd_refcnt i 1 s)
     \<or> (refcnt (pt_table s i) = 0 \<and> s' = upd_refcnt i 1 (set_pt i p s))))"
proof -
  obtain b q where a: "add_scan (pt_table s) p None [0..<MAXPORTENT] = (b, q)" by fastforce
  show ?thesis
  proof (cases q)
    case None
    then show ?thesis using assms a by (cases b) (auto simp: add_port_def)
  next
    case (Some i)
    then have "i < MAXPORTENT" "b \<Longrightarrow> pt (pt_table s i) = p" "\<not> b \<Longrightarrow> refcnt (pt_table s i) = 0"
      using add_scan_spec [OF a] by auto
    moreover have "r = Some i \<and> s' = (if b then upd_refcnt i 1 s else upd_refcnt i 1 (set_pt i p s))"
      using assms a Some by (cases b) (auto simp: add_port_def)
    ultimately show ?thesis by (cases b) auto
  qed
qed

text \<open>What an operation on the port table may change: the table and the kernel.\<close>

definition same_cells :: "'k env_state \<Rightarrow> 'k env_state \<Rightarrow> bool" where
  "same_cells s s' \<longleftrightarrow> ent s' = ent s \<and> enext s' = enext s \<and> hrefcnt s' = hrefcnt s \<and> hhead s' = hhead s
     \<and> contexts s' = contexts s \<and> HashEntryPool s' = HashEntryPool s \<and> heap s' = heap s"

lemma same_cells_refl [simp]: "same_cells s s"
  by (simp add: same_cells_def)

lemma same_cells_trans: "same_cells s s' \<Longrightarrow> same_cells s' s'' \<Longrightarrow> same_cells s s''"
  by (simp add: same_cells_def)

lemma unreferenced:
  assumes T: "table_ok D s ch fs" and z: "refcnt (pt_table s i) = 0" "i < MAXPORTENT" and x: "x \<in> cells D ch"
  shows "envval (ent s x) \<noteq> Pi i"
proof
  assume "envval (ent s x) = Pi i"
  then have "x \<in> prefs D ch s i" using x by (simp add: prefs_def)
  then have "0 < card (prefs D ch s i)" using finite_prefs [OF table_okD(1) [OF T]] by (metis card_gt_0_iff empty_iff)
  then show False using table_okD(3) [OF T] z by (auto simp: ports_ok_def dest!: spec [of _ i])
qed

lemma add_port_table:
  assumes T: "table_ok D s ch fs" and a: "add_port p s = (Some i, s')"
  shows "same_cells s s'" and "i < MAXPORTENT" and "pt (pt_table s' i) = p"
    and "\<And>k. k < MAXPORTENT \<Longrightarrow> int (card (prefs D ch s k)) + (if k = i then 1 else 0) \<le> refcnt (pt_table s' k)"
    and "\<And>x. x \<in> cells D ch \<Longrightarrow> item s' x = item s x"
proof -
  have i: "i < MAXPORTENT" and c: "(pt (pt_table s i) = p \<and> s' = upd_refcnt i 1 s)
     \<or> (refcnt (pt_table s i) = 0 \<and> s' = upd_refcnt i 1 (set_pt i p s))"
    using add_port_cases [OF a] by auto
  show "i < MAXPORTENT" by (rule i)
  show "same_cells s s'" "pt (pt_table s' i) = p" using c by (auto simp: same_cells_def upd_refcnt_def set_pt_def)
  have e: "ent s' = ent s" using c by (auto simp: upd_refcnt_def set_pt_def)
  have r: "refcnt (pt_table s' k) = refcnt (pt_table s k) + (if k = i then 1 else 0)" for k
    using c by (auto simp: upd_refcnt_def set_pt_def)
  show "int (card (prefs D ch s k)) + (if k = i then 1 else 0) \<le> refcnt (pt_table s' k)" if "k < MAXPORTENT" for k
    using table_okD(3) [OF T] that unfolding r ports_ok_def by simp
  show "item s' x = item s x" if x: "x \<in> cells D ch" for x
  proof -
    have "pt (pt_table s' k) = pt (pt_table s k)" if "envval (ent s x) = Pi k" for k
    proof (cases "k = i \<and> refcnt (pt_table s i) = 0")
      case True
      then show ?thesis using unreferenced [OF T _ i x] that by blast
    next
      case False
      then show ?thesis using c by (auto simp: upd_refcnt_def set_pt_def)
    qed
    then show ?thesis unfolding item_def e by (cases "envval (ent s x)") auto
  qed
qed

lemma del_port_table:
  "same_cells s (del_port e i s)"
  "refcnt (pt_table (del_port e i s) k) = refcnt (pt_table s k) - (if k = i then 1 else 0)"
  "k \<noteq> i \<or> refcnt (pt_table s i) \<noteq> 1 \<Longrightarrow> pt (pt_table (del_port e i s) k) = pt (pt_table s k)"
  by (auto simp: del_port_def same_cells_def upd_refcnt_def set_pt_def Let_def split: prod.splits)

text \<open>A slot that loses a reference keeps its port while an entry refers to it.\<close>

lemma del_port_items:
  assumes f: "finite X" and c: "int (card {x \<in> X. envval (ent s x) = Pi i}) < refcnt (pt_table s i)" and x: "x \<in> X"
  shows "item (del_port e i s) x = item s x"
proof -
  have e: "ent (del_port e i s) = ent s" using del_port_table(1) [of s e i] by (simp add: same_cells_def)
  have "pt (pt_table (del_port e i s) k) = pt (pt_table s k)" if k: "envval (ent s x) = Pi k" for k
  proof (rule del_port_table(3))
    have "k = i \<Longrightarrow> 0 < card {x \<in> X. envval (ent s x) = Pi i}" using x k f by (auto simp: card_gt_0_iff)
    then show "k \<noteq> i \<or> refcnt (pt_table s i) \<noteq> 1" using c by auto
  qed
  then show ?thesis unfolding item_def e by (cases "envval (ent s x)") auto
qed

end
