(* ===== verification/Env_Ops.thy ===== *)
theory Env_Ops
  imports Env_Inv
begin

text \<open>
  What the table operations do to the contents of the buckets: deleting removes the one item of
  that name, creating adds an item, copying a table gives buckets with the same contents and
  leaves the old ones alone.
\<close>

section \<open>Deleting\<close>

lemma del_scan_chain:
  "chain nx p (p # xs) \<Longrightarrow> (\<forall>x\<in>set xs. \<not> M x) \<and> (\<exists>q. del_scan nx M p = Some (q, 0))
     \<or> (\<exists>us r y vs. p # xs = us @ r # y # vs \<and> M y \<and> (\<forall>x\<in>set (tl (us @ [r])). \<not> M x) \<and> y \<noteq> 0 \<and> del_scan nx M p = Some (r, y))"
proof (induction xs arbitrary: p)
  case Nil
  then show ?case by (subst del_scan.simps) (auto simp: Let_def)
next
  case (Cons x xs)
  then have c: "nx p = x" "x \<noteq> 0" "chain nx x (x # xs)" by auto
  show ?case
  proof (cases "M x")
    case True
    then have "del_scan nx M p = Some (p, x)" using c by (subst del_scan.simps) (simp add: Let_def)
    then show ?thesis using True c by (intro disjI2 exI [of _ "[]"] exI [of _ p] exI [of _ x] exI [of _ xs]) simp
  next
    case False
    then have e: "del_scan nx M p = del_scan nx M x" using c by (subst del_scan.simps) (simp add: Let_def)
    from Cons.IH [OF c(3)] show ?thesis
    proof (elim disjE exE conjE)
      fix q assume "\<forall>x\<in>set xs. \<not> M x" "del_scan nx M x = Some (q, 0)"
      then show ?thesis using e False by auto
    next
      fix us r y vs
      assume a: "x # xs = us @ r # y # vs" "M y" "\<forall>x\<in>set (tl (us @ [r])). \<not> M x" "y \<noteq> 0" "del_scan nx M x = Some (r, y)"
      have "hd (us @ [r]) = x" using a(1) by (cases us) auto
      then have "\<forall>z\<in>set (us @ [r]). \<not> M z" using a(3) False by (cases us) auto
      then have "p # x # xs = (p # us) @ r # y # vs \<and> M y \<and> (\<forall>x\<in>set (tl ((p # us) @ [r])). \<not> M x) \<and> y \<noteq> 0
          \<and> del_scan nx M p = Some (r, y)"
        using a e by simp
      then show ?thesis by blast
    qed
  qed
qed

lemma first_with_unique:
  assumes "y \<in> set xs" "P y" "y \<noteq> 0" "\<And>x. x \<in> set xs \<Longrightarrow> P x \<Longrightarrow> x = y"
  shows "first_with P xs = y"
  using assms
proof (induction xs)
  case Nil
  show ?case using Nil.prems(1) by simp
next
  case (Cons x xs)
  show ?case
  proof (cases "P x")
    case True
    then have "x = y" using Cons.prems(4) [of x] by simp
    then show ?thesis using True by simp
  next
    case False
    then have "y \<in> set xs" using Cons.prems(1,2) by auto
    moreover have "x' = y" if "x' \<in> set xs" "P x'" for x' using Cons.prems(4) [of x'] that by simp
    ultimately have "first_with P xs = y" using Cons.IH Cons.prems(2,3) by blast
    then show ?thesis using False by simp
  qed
qed

text \<open>The entry of a name, if there is one, is the only one in its bucket.\<close>

lemma env_find_unique:
  assumes T: "table_ok D s ch fs" and d: "d \<in> D" and y: "y \<in> set (ch d)" and m: "same_name n (he_name (ent s y))"
  shows "env_find s n (ch d) = y"
  unfolding env_find_def
proof (rule first_with_unique [OF y, where P = "\<lambda>p. same_name n (he_name (ent s p))", OF m])
  show "y \<noteq> 0" using cell_nonnull [OF table_okD(1) [OF T]] cellsI [of d D y ch, OF d y] by blast
  show "x = y" if "x \<in> set (ch d)" "same_name n (he_name (ent s x))" for x
    using table_okD(2) [OF T] d y that m same_name_sym same_name_trans unfolding names_ok_def by metis
qed

lemma filter_item:
  assumes T: "table_ok D s ch fs" and d: "d \<in> D" and y: "y \<in> set (ch d)" and m: "same_name n (he_name (ent s y))"
  shows "filter (\<lambda>x. \<not> same_name n (fst x)) (contents s ch d) = map (item s) (filter (\<lambda>x. x \<noteq> y) (ch d))"
proof -
  have "\<not> same_name n (fst (item s x)) \<longleftrightarrow> x \<noteq> y" if "x \<in> set (ch d)" for x
  proof -
    have "same_name n (he_name (ent s x)) \<Longrightarrow> x = y"
      using env_find_unique [OF T d that] env_find_unique [OF T d y m] by metis
    then show ?thesis using m by (auto simp: item_def)
  qed
  then have "filter (\<lambda>x. \<not> same_name n (fst (item s x))) (ch d) = filter (\<lambda>x. x \<noteq> y) (ch d)" by (intro filter_cong refl) simp
  then show ?thesis by (simp add: contents_def filter_map o_def)
qed

text \<open>
  The end of \<open>DeleteHashEntry\<close>, after the entry has been unlinked in \<open>s1\<close>.
\<close>

lemma finish_delete:
  assumes T: "table_ok D s ch fs" and d: "d \<in> D" and y: "y \<in> set (ch d)"
    and c: "chain (enext s1) (hhead s1 (fst d) (snd d)) xs" "xs = filter (\<lambda>x. x \<noteq> y) (ch d)"
    and hh: "\<And>d'. d' \<noteq> d \<Longrightarrow> hhead s1 (fst d') (snd d') = hhead s (fst d') (snd d')"
    and nx: "\<And>x. x \<notin> set (ch d) \<Longrightarrow> enext s1 x = enext s x"
    and eq: "heap s1 = heap s" "HashEntryPool s1 = HashEntryPool s" "ent s1 = ent s" "pt_table s1 = pt_table s"
      "contexts s1 = contexts s" "hrefcnt s1 = hrefcnt s"
    and s': "s' = FreeHashEntry y (case envval (ent s1 y) of Pi i \<Rightarrow> del_port e i s1 | Str v \<Rightarrow> s1)"
  shows "table_ok D s' (ch(d := xs)) (y # fs)" and "contents s' (ch(d := xs)) d = map (item s) xs"
    and "\<And>d'. d' \<in> D \<Longrightarrow> d' \<noteq> d \<Longrightarrow> contents s' (ch(d := xs)) d' = contents s ch d'"
    and "contexts s' = contexts s" and "hrefcnt s' = hrefcnt s" and "ent s' = ent s"
proof -
  note L = table_okD(1) [OF T]
  define t where "t = (case envval (ent s1 y) of Pi i \<Rightarrow> del_port e i s1 | Str v \<Rightarrow> s1)"
  have sc: "same_cells s1 t" unfolding t_def using del_port_table(1) [of s1 e] by (cases "envval (ent s1 y)") auto
  have f: "enext s' = (enext s1)(y := HashEntryPool s)" "hhead s' = hhead s1" "HashEntryPool s' = y" "ent s' = ent s"
      "heap s' = heap s" "contexts s' = contexts s" "hrefcnt s' = hrefcnt s" "pt_table s' = pt_table t"
    using sc eq unfolding s' t_def [symmetric] by (simp_all add: same_cells_def FreeHashEntry_def Let_def set_next_def)
  show "contexts s' = contexts s" "hrefcnt s' = hrefcnt s" "ent s' = ent s" using f by simp_all
  have rc: "refcnt (pt_table s' k) = refcnt (pt_table s k) - (if envval (ent s y) = Pi k then 1 else 0)" for k
    unfolding f(8) t_def using del_port_table(2) [of e _ s1 k] eq by (cases "envval (ent s1 y)") auto
  have X: "set xs = set (ch d) - {y}" using c(2) by auto
  show "table_ok D s' (ch(d := xs)) (y # fs)"
  proof (rule drop_cell [OF T d y])
    show "chain (enext s') (hhead s' (fst d) (snd d)) xs" using c(1) X chain_upd [of y xs] by (simp add: f)
    show "int (card (prefs D ch s i)) - (if envval (ent s y) = Pi i then 1 else 0) \<le> refcnt (pt_table s' i)" if "i < MAXPORTENT" for i
      using table_okD(3) [OF T] that unfolding rc ports_ok_def by simp
    show "enext s' x = enext s x" if "x \<notin> set (ch d)" for x using nx [OF that] y that by (auto simp: f)
  qed (use X hh f in auto)
  have it: "item s' x = item s x" if "x \<in> cells D ch" "x \<noteq> y" for x
  proof (cases "envval (ent s y)")
    case (Str v)
    then show ?thesis using f eq by (simp add: item_def t_def)
  next
    case (Pi i)
    have i: "i < MAXPORTENT" using table_okD(3) [OF T] cellsI [of d D y ch, OF d y] Pi by (auto simp: ports_ok_def)
    have "item t x = item s1 x" unfolding t_def eq(3) Pi env_var_t.case
    proof (rule del_port_items [where X = "cells D ch - {y}"])
      show "finite (cells D ch - {y})" using finite_cells [OF L] by simp
      have "{x \<in> cells D ch - {y}. envval (ent s1 x) = Pi i} = prefs D ch s i - {y}" by (auto simp: prefs_def eq)
      moreover have "y \<in> prefs D ch s i" using Pi cellsI [of d D y ch] d y by (simp add: prefs_def)
      ultimately have "int (card {x \<in> cells D ch - {y}. envval (ent s1 x) = Pi i}) < int (card (prefs D ch s i))"
        using card_Diff1_less [OF finite_prefs [OF L], of y i] by (simp only: of_nat_less_iff)
      then show "int (card {x \<in> cells D ch - {y}. envval (ent s1 x) = Pi i}) < refcnt (pt_table s1 i)"
        using table_okD(3) [OF T] i unfolding ports_ok_def eq(4) by fastforce
    qed (use that in simp)
    then show ?thesis using f eq sc by (simp add: item_def same_cells_def)
  qed
  show "contents s' (ch(d := xs)) d = map (item s) xs"
    using it X cellsI [of d D _ ch, OF d] by (simp add: contents_def)
  show "contents s' (ch(d := xs)) d' = contents s ch d'" if "d' \<in> D" "d' \<noteq> d" for d'
  proof -
    have "y \<notin> set (ch d')" using cell_bucket [OF L d that(1) y] that(2) by blast
    then show ?thesis using it that cellsI [of d' D _ ch, OF that(1)] by (auto simp: contents_def)
  qed
qed

lemma filter_remove: "distinct (us @ y # vs) \<Longrightarrow> filter (\<lambda>x. x \<noteq> y) (us @ y # vs) = us @ vs"
proof -
  assume d: "distinct (us @ y # vs)"
  have "filter (\<lambda>x. x \<noteq> y) us = us" "filter (\<lambda>x. x \<noteq> y) vs = vs" by (rule filter_True, use d in auto)+
  then show ?thesis by simp
qed

lemma delete_entry:
  assumes T: "table_ok D s ch fs" and d: "d = (ch_head (contexts s P), Hash (ConvUpper n))" "d \<in> D" and n: "length n \<le> env_name_size"
    and y: "y = env_find s n (ch d)"
  shows "y = 0 \<Longrightarrow> DeleteHashEntry e n P vt s = Some (ENV_VAR_NOT_FOUND, s)"
    and "y \<noteq> 0 \<Longrightarrow> vartype (envval (ent s y)) \<noteq> vt \<Longrightarrow> DeleteHashEntry e n P vt s = Some (ENV_WRONG_VAR_TYPE, s)"
    and "y \<noteq> 0 \<Longrightarrow> vartype (envval (ent s y)) = vt \<Longrightarrow> \<exists>s' xs fs'. DeleteHashEntry e n P vt s = Some (ENV_SUCCESS, s')
       \<and> table_ok D s' (ch(d := xs)) fs' \<and> contents s' (ch(d := xs)) d = filter (\<lambda>x. \<not> same_name n (fst x)) (contents s ch d)
       \<and> (\<forall>d'\<in>D. d' \<noteq> d \<longrightarrow> contents s' (ch(d := xs)) d' = contents s ch d') \<and> contexts s' = contexts s \<and> hrefcnt s' = hrefcnt s
       \<and> xs = filter (\<lambda>x. x \<noteq> y) (ch d) \<and> ent s' = ent s"
proof -
  note L = table_okD(1) [OF T]
  let ?M = "\<lambda>p. StrEqCase (ConvUpper n) (he_name (ent s p))"
  let ?h = "fst d" and ?j = "snd d"
  have c: "chain (enext s) (hhead s ?h ?j) (ch d)" using L d(2) by (simp add: links_ok_def)
  have dist: "distinct (ch d)" by (rule chain_distinct [OF c])
  have m: "?M p \<longleftrightarrow> same_name n (he_name (ent s p))" if "p \<in> set (ch d)" for p
    using match_same_name [OF n] table_okD(2) [OF T] d that by (fastforce simp: names_ok_def)
  have u: "p = y" if "p \<in> set (ch d)" "?M p" for p using env_find_unique [OF T d(2) that(1)] m that y by simp
  have ym: "y \<in> set (ch d) \<and> ?M y" if "y \<noteq> 0" using env_find_member [of s n "ch d"] m that y by auto
  let ?fin = "\<lambda>s1. Some (ENV_SUCCESS, FreeHashEntry y (case envval (ent s1 y) of Pi i \<Rightarrow> del_port e i s1 | Str v \<Rightarrow> s1))"
  have D0: "DeleteHashEntry e n P vt s = Some (ENV_VAR_NOT_FOUND, s)" if "hhead s ?h ?j = 0" using that d(1) by (simp add: DeleteHashEntry_def Let_def)
  have main: "(y = 0 \<and> DeleteHashEntry e n P vt s = Some (ENV_VAR_NOT_FOUND, s))
     \<or> (y \<noteq> 0 \<and> vartype (envval (ent s y)) \<noteq> vt \<and> DeleteHashEntry e n P vt s = Some (ENV_WRONG_VAR_TYPE, s))
     \<or> (y \<noteq> 0 \<and> vartype (envval (ent s y)) = vt \<and> (\<exists>s1. DeleteHashEntry e n P vt s = ?fin s1
          \<and> chain (enext s1) (hhead s1 ?h ?j) (filter (\<lambda>x. x \<noteq> y) (ch d))
          \<and> (\<forall>d'. d' \<noteq> d \<longrightarrow> hhead s1 (fst d') (snd d') = hhead s (fst d') (snd d')) \<and> (\<forall>x. x \<notin> set (ch d) \<longrightarrow> enext s1 x = enext s x)
          \<and> heap s1 = heap s \<and> HashEntryPool s1 = HashEntryPool s \<and> ent s1 = ent s \<and> pt_table s1 = pt_table s
          \<and> contexts s1 = contexts s \<and> hrefcnt s1 = hrefcnt s))"
  proof (cases "ch d")
    case Nil
    then show ?thesis using c D0 ym by auto
  next
    case (Cons x xs)
    then have x: "hhead s ?h ?j = x" "x \<noteq> 0" "chain (enext s) (enext s x) xs" "chain (enext s) x (x # xs)" using c by auto
    show ?thesis
    proof (cases "?M x")
      case True
      then have yx: "x = y" using u Cons by simp
      let ?s1 = "set_head ?h ?j (enext s x) s"
      have "DeleteHashEntry e n P vt s = (if vartype (envval (ent s y)) = vt then ?fin ?s1 else Some (ENV_WRONG_VAR_TYPE, s))"
        using True x(1,2) d(1) yx by (auto simp: DeleteHashEntry_def Let_def split: env_var_t.splits)
      moreover have "filter (\<lambda>x. x \<noteq> y) (ch d) = xs" using filter_remove [of "[]" x xs] dist Cons yx by simp
      then have "chain (enext ?s1) (hhead ?s1 ?h ?j) (filter (\<lambda>x. x \<noteq> y) (ch d))" using x(3) by (simp add: set_head_def)
      moreover have "d' \<noteq> d \<Longrightarrow> hhead ?s1 (fst d') (snd d') = hhead s (fst d') (snd d')" for d' by (auto simp: set_head_def prod_eq_iff)
      ultimately show ?thesis using x(2) yx by (cases "vartype (envval (ent s y)) = vt") (auto simp: set_head_def intro!: exI [of _ ?s1])
    next
      case False
      from del_scan_chain [OF x(4), of ?M] show ?thesis
      proof (elim disjE exE conjE)
        fix q assume a: "\<forall>x\<in>set xs. \<not> ?M x" "del_scan (enext s) ?M x = Some (q, 0)"
        then have "y = 0" using ym False Cons by auto
        then show ?thesis using a False x d(1) by (simp add: DeleteHashEntry_def Let_def)
      next
        fix us r z vs assume a: "x # xs = us @ r # z # vs" "?M z" "z \<noteq> 0" "del_scan (enext s) ?M x = Some (r, z)"
        then have zy: "z = y" using u [of z] Cons by (metis append_Cons in_set_conv_decomp append.assoc append_Nil)
        let ?s1 = "set_next r (enext s z) s"
        have "DeleteHashEntry e n P vt s = (if vartype (envval (ent s y)) = vt then ?fin ?s1 else Some (ENV_WRONG_VAR_TYPE, s))"
          using a False x(1,2) d(1) zy by (auto simp: DeleteHashEntry_def Let_def split: env_var_t.splits)
        moreover have fl: "filter (\<lambda>x. x \<noteq> y) (ch d) = us @ r # vs"
          using filter_remove [of "us @ [r]" z vs] dist Cons a(1) zy by simp
        have "chain (enext ?s1) (hhead ?s1 ?h ?j) (us @ r # vs)"
          using chain_unlink [of "enext s" x us r z vs] x(4) a(1) x(1) by (simp add: set_next_def)
        moreover have "r \<in> set (ch d)" using Cons a(1) by simp
        ultimately show ?thesis using a(3) zy unfolding fl
          by (cases "vartype (envval (ent s y)) = vt") (auto simp: set_next_def intro!: exI [of _ ?s1])
      qed
    qed
  qed
  show "y = 0 \<Longrightarrow> DeleteHashEntry e n P vt s = Some (ENV_VAR_NOT_FOUND, s)" using main by blast
  show "y \<noteq> 0 \<Longrightarrow> vartype (envval (ent s y)) \<noteq> vt \<Longrightarrow> DeleteHashEntry e n P vt s = Some (ENV_WRONG_VAR_TYPE, s)" using main by blast
  assume "y \<noteq> 0" "vartype (envval (ent s y)) = vt"
  then obtain s1 where s1: "DeleteHashEntry e n P vt s = ?fin s1" "chain (enext s1) (hhead s1 ?h ?j) (filter (\<lambda>x. x \<noteq> y) (ch d))"
      "\<And>d'. d' \<noteq> d \<Longrightarrow> hhead s1 (fst d') (snd d') = hhead s (fst d') (snd d')" "\<And>x. x \<notin> set (ch d) \<Longrightarrow> enext s1 x = enext s x"
      "heap s1 = heap s" "HashEntryPool s1 = HashEntryPool s" "ent s1 = ent s" "pt_table s1 = pt_table s"
      "contexts s1 = contexts s" "hrefcnt s1 = hrefcnt s"
    using main by blast
  note Y = ym [OF \<open>y \<noteq> 0\<close>]
  define s' where "s' = FreeHashEntry y (case envval (ent s1 y) of Pi i \<Rightarrow> del_port e i s1 | Str v \<Rightarrow> s1)"
  note F = finish_delete [OF T d(2) conjunct1 [OF Y] s1(2) refl s1(3-10) s'_def]
  have "filter (\<lambda>x. \<not> same_name n (fst x)) (contents s ch d) = map (item s) (filter (\<lambda>x. x \<noteq> y) (ch d))"
    using filter_item [OF T d(2)] Y m by blast
  then show "\<exists>s' xs fs'. DeleteHashEntry e n P vt s = Some (ENV_SUCCESS, s')
       \<and> table_ok D s' (ch(d := xs)) fs' \<and> contents s' (ch(d := xs)) d = filter (\<lambda>x. \<not> same_name n (fst x)) (contents s ch d)
       \<and> (\<forall>d'\<in>D. d' \<noteq> d \<longrightarrow> contents s' (ch(d := xs)) d' = contents s ch d') \<and> contexts s' = contexts s \<and> hrefcnt s' = hrefcnt s
       \<and> xs = filter (\<lambda>x. x \<noteq> y) (ch d) \<and> ent s' = ent s"
    using F s1(1) unfolding s'_def [symmetric] by (intro exI [of _ s'] exI conjI) auto
qed

end
