(* ===== verification/Env_Copy.thy ===== *)
theory Env_Copy
  imports Env_Ops
begin

text \<open>
  Creating entries and copying a hash table: \<open>CreateHashEntry\<close> puts an item in front of its
  bucket, \<open>CopyHashTable\<close> makes buckets with the same contents out of new entries.
\<close>

lemma table_ports:
  assumes T: "table_ok D s ch fs" and c: "same_cells s s'"
    and r: "\<And>k. k < MAXPORTENT \<Longrightarrow> int (card (prefs D ch s k)) \<le> refcnt (pt_table s' k)"
  shows "table_ok D s' ch fs"
proof -
  have "prefs D ch s' k = prefs D ch s k" for k using c by (simp add: prefs_def same_cells_def)
  then show ?thesis using table_okD [OF T] c r
    by (simp add: table_ok_def links_ok_def names_ok_def ports_ok_def same_cells_def)
qed

section \<open>Creating\<close>

lemma create_entry:
  assumes e: "em_ok e" and T: "table_ok D s ch fs" and d: "d = (ch_head (contexts s P), Hash (ConvUpper n))" "d \<in> D"
    and n: "length n \<le> env_name_size" "env_find s n (ch d) = 0" and v: "\<And>i. v = Pi i \<Longrightarrow> i < MAXPORTENT"
      "\<And>i. i < MAXPORTENT \<Longrightarrow> int (card (prefs D ch s i)) + (if v = Pi i then 1 else 0) \<le> refcnt (pt_table s i)"
    and s': "s' = new_entry e n P v s"
  shows "\<exists>p fs'. table_ok D s' (ch(d := p # ch d)) fs' \<and> contents s' (ch(d := p # ch d)) d = (n, pvalue (pt_table s) v) # contents s ch d
     \<and> (\<forall>d'\<in>D. d' \<noteq> d \<longrightarrow> contents s' (ch(d := p # ch d)) d' = contents s ch d') \<and> contexts s' = contexts s \<and> hrefcnt s' = hrefcnt s"
proof -
  note L = table_okD(1) [OF T]
  obtain p s1 where n1: "NewHashEntry e s = (p, s1)" by fastforce
  from new_entry_fresh [OF e L n1] obtain fs' q hp where L1: "links_ok D s1 ch fs'" and p: "p \<noteq> 0" "p \<notin> set fs'" "p \<notin> cells D ch" "p \<in> heap s1"
    and s1: "s1 = s\<lparr>HashEntryPool := q, heap := hp\<rparr>" by blast
  have T1: "table_ok D s1 ch fs'" using L1 table_okD(2,3) [OF T] by (simp add: table_ok_def names_ok_def ports_ok_def prefs_def s1)
  let ?h = "fst d" and ?j = "snd d"
  have f: "ent s' = (ent s)(p := (ent s p)\<lparr>he_name := n, he_context := P, envval := v\<rparr>)" "enext s' = (enext s)(p := hhead s ?h ?j)"
      "hhead s' = (hhead s)(?h := (hhead s ?h)(?j := p))" "heap s' = heap s1" "HashEntryPool s' = HashEntryPool s1"
      "pt_table s' = pt_table s" "contexts s' = contexts s" "hrefcnt s' = hrefcnt s"
    using s' n1 d(1) by (simp_all add: new_entry_def CreateHashEntry_def Let_def s1 upd_ent_def set_head_def set_next_def)
  have c: "chain (enext s) (hhead s ?h ?j) (ch d)" using L d(2) by (simp add: links_ok_def)
  have cd: "set (ch d) \<subseteq> cells D ch" using d(2) by (auto simp: cells_def)
  have nn: "\<not> same_name n (he_name (ent s x))" if "x \<in> set (ch d)" for x
  proof
    assume "same_name n (he_name (ent s x))"
    then have "x = 0" using env_find_unique [OF T d(2) that] n(2) by simp
    then show False using cell_nonnull [OF L] cd that by blast
  qed
  have "table_ok D s' (ch(d := p # ch d)) fs'"
  proof (rule add_cell [OF T1 d(2) p(2,3)])
    have "p \<notin> set (ch d)" using p(3) cd by blast
    then show "chain (enext s') (hhead s' (fst d) (snd d)) (p # ch d)" using c p(1) by (simp add: f chain_upd)
    show "hhead s' (fst d') (snd d') = hhead s1 (fst d') (snd d')" if "d' \<noteq> d" for d' using that by (auto simp: f s1 prod_eq_iff)
    show "int (card (prefs D ch s1 i)) + (if envval (ent s' p) = Pi i then 1 else 0) \<le> refcnt (pt_table s' i)" if "i < MAXPORTENT" for i
      using v(2) [OF that] by (simp add: f s1 prefs_def)
    show "\<not> same_name (he_name (ent s' p)) (he_name (ent s1 x))" if "x \<in> set (ch d)" for x using nn [OF that] by (simp add: f s1)
    show "Hash (ConvUpper (he_name (ent s' p))) = snd d" using d(1) by (simp add: f)
  qed (use p n v(1) in \<open>auto simp: f s1\<close>)
  moreover have it: "item s' x = item s x" if "x \<in> cells D ch" for x using that p(3) by (auto simp: item_def f)
  then have "contents s' (ch(d := p # ch d)) d = (n, pvalue (pt_table s) v) # contents s ch d"
    using cd by (auto simp: contents_def) (simp add: item_def f)
  moreover have "contents s' (ch(d := p # ch d)) d' = contents s ch d'" if "d' \<in> D" "d' \<noteq> d" for d'
    using it that cellsI [of d' D _ ch, OF that(1)] by (simp add: contents_def)
  ultimately show ?thesis using f by blast
qed

section \<open>Copying\<close>

text \<open>A new, empty bucket.\<close>

lemma table_insert:
  assumes T: "table_ok D s ch fs" and d: "d \<notin> D" and z: "hhead s' (fst d) (snd d) = 0"
    and hh: "\<And>d'. d' \<noteq> d \<Longrightarrow> hhead s' (fst d') (snd d') = hhead s (fst d') (snd d')"
    and eq: "enext s' = enext s" "ent s' = ent s" "HashEntryPool s' = HashEntryPool s" "heap s' = heap s" "pt_table s' = pt_table s" "hrefcnt s' = hrefcnt s"
  shows "table_ok (insert d D) s' (ch(d := [])) fs"
proof -
  have c: "cells (insert d D) (ch(d := [])) = cells D ch" using d by (auto simp: cells_def split: if_splits)
  have k: "(ch(d := [])) d' = ch d'" "hhead s' (fst d') (snd d') = hhead s (fst d') (snd d')" if "d' \<in> D" for d'
    using that d hh by (metis fun_upd_other, metis)
  have "links_ok (insert d D) s' (ch(d := [])) fs"
    using table_okD(1) [OF T] d z k unfolding links_ok_def c eq by auto
  moreover have "names_ok (insert d D) s' (ch(d := []))" using table_okD(2) [OF T] k(1) by (simp add: names_ok_def eq)
  moreover have "ports_ok (insert d D) s' (ch(d := []))" using table_okD(3) [OF T] unfolding ports_ok_def prefs_def c eq .
  ultimately show ?thesis by (simp add: table_ok_def)
qed

lemma new_entry_heap: "NewHashEntry e s = (p, s') \<Longrightarrow> heap s \<subseteq> heap s'"
proof -
  assume "NewHashEntry e s = (p, s')"
  then have "s' = snd (NewHashEntry e s)" by simp
  then show ?thesis by (auto simp: NewHashEntry_def e_malloc_def Let_def)
qed

definition raw :: "'k env_state \<Rightarrow> ptr \<Rightarrow> string \<times> env_var_t" where
  "raw s x = (he_name (ent s x), envval (ent s x))"

text \<open>One step of the copying loop: a new entry at the end of the bucket.\<close>

lemma copy_step:
  assumes e: "em_ok e" and T: "table_ok D s ch fs" and d: "(h, j) \<in> D" "(old, j) \<in> D" "h \<noteq> old"
    and z: "ch (old, j) = us @ z # zs" and r: "map (raw s) (ch (h, j)) = map (raw s) us"
    and pv: "us \<noteq> [] \<Longrightarrow> prev = last (ch (h, j))"
  shows "\<exists>p s' fs'. copy_from e P h j z prev s = copy_from e P h j (enext s z) p s'
     \<and> table_ok D s' (ch((h, j) := ch (h, j) @ [p])) fs' \<and> raw s' p = raw s z \<and> (\<forall>x\<in>cells D ch. ent s' x = ent s x)
     \<and> (\<forall>k. pt (pt_table s' k) = pt (pt_table s k)) \<and> contexts s' = contexts s \<and> hrefcnt s' = hrefcnt s \<and> heap s \<subseteq> heap s'
     \<and> enext s' z = enext s z"
proof -
  note L = table_okD(1) [OF T] and N = table_okD(2) [OF T] and Pk = table_okD(3) [OF T]
  let ?d = "(h, j)"
  obtain p s1 where n1: "NewHashEntry e s = (p, s1)" by fastforce
  from new_entry_fresh [OF e L n1] obtain fs' q hp where L1: "links_ok D s1 ch fs'" and p: "p \<noteq> 0" "p \<notin> set fs'" "p \<notin> cells D ch" "p \<in> heap s1"
    and s1: "s1 = s\<lparr>HashEntryPool := q, heap := hp\<rparr>" by blast
  have T1: "table_ok D s1 ch fs'" using L1 N Pk by (simp add: table_ok_def names_ok_def ports_ok_def prefs_def s1)
  have c: "chain (enext s) (hhead s h j) (ch ?d)" by (rule bucket_chain [OF L d(1)])
  have zc: "z \<in> set (ch (old, j))" "z \<in> cells D ch" using z d(2) cellsI [of "(old, j)" D z ch] by simp_all
  have zn: "z \<noteq> 0" "z \<noteq> p" using cell_nonnull [OF L zc(2)] p(3) zc(2) by auto
  have zd: "z \<notin> set (ch ?d)" using cell_bucket [OF L d(2,1) zc(1)] d(3) by auto
  have un: "us = [] \<longleftrightarrow> ch ?d = []" using r by (metis map_is_Nil_conv)
  have hz: "hhead s h j = 0 \<longleftrightarrow> ch ?d = []" using c by (cases "ch ?d") auto
  let ?nx = "if ch ?d = [] then (enext s)(p := 0) else (enext s)(prev := p, p := 0)"
  let ?x = "(ent s z)\<lparr>he_context := P\<rparr>"
  define s' where "s' = set_next p 0 (case envval (ent s z) of
      Pi i \<Rightarrow> upd_refcnt i 1 (upd_ent p (\<lambda>_. ?x) (if hhead s1 h j = 0 then set_head h j p s1 else set_next prev p s1))
    | Str v \<Rightarrow> upd_ent p (\<lambda>_. ?x) (if hhead s1 h j = 0 then set_head h j p s1 else set_next prev p s1))"
  have f: "ent s' = (ent s)(p := ?x)" "enext s' = ?nx"
      "hhead s' = (if ch ?d = [] then (hhead s)(h := (hhead s h)(j := p)) else hhead s)" "heap s' = heap s1" "HashEntryPool s' = HashEntryPool s1"
      "contexts s' = contexts s" "hrefcnt s' = hrefcnt s" "\<And>k. pt (pt_table s' k) = pt (pt_table s k)"
      "\<And>k. refcnt (pt_table s' k) = refcnt (pt_table s k) + (if envval (ent s z) = Pi k then 1 else 0)"
    using hz by (auto simp: s'_def s1 upd_ent_def set_head_def set_next_def upd_refcnt_def split: env_var_t.splits)
  have pl: "ch ?d \<noteq> [] \<Longrightarrow> prev \<in> set (ch ?d)" using pv un by (metis last_in_set)
  have ez: "enext s' z = enext s z" using zn zd pl by (auto simp: f)
  have e1: "copy_from e P h j z prev s = copy_from e P h j (enext s' z) p s'"
    using zn n1 by (subst copy_from.simps) (auto simp: s'_def s1 Let_def upd_ent_def set_head_def set_next_def split: env_var_t.splits)
  have pn: "p \<notin> set (ch ?d)" using p(3) d(1) by (auto simp: cells_def)
  have "table_ok D s' (ch(?d := ch ?d @ [p])) fs'"
  proof (rule add_cell [OF T1 d(1) p(2,3)])
    show "chain (enext s') (hhead s' (fst ?d) (snd ?d)) (ch ?d @ [p])"
    proof (cases "ch ?d = []")
      case True
      then show ?thesis using p(1) by (simp add: f)
    next
      case False
      have "(enext s)(prev := p, p := 0) = (enext s)(p := 0, last (ch ?d) := p)" using pv un False pn pl by (metis fun_upd_twist)
      then show ?thesis using chain_snoc [OF c False p(1) pn] False by (simp add: f)
    qed
    show "hhead s' (fst d') (snd d') = hhead s1 (fst d') (snd d')" if "d' \<noteq> ?d" for d' using that by (auto simp: f s1 prod_eq_iff)
    show "enext s' x = enext s1 x" if "x \<notin> insert p (set (ch ?d))" for x using that pl by (auto simp: f s1)
    show "\<not> same_name (he_name (ent s' p)) (he_name (ent s1 x))" if x: "x \<in> set (ch ?d)" for x
    proof -
      have "raw s x \<in> set (map (raw s) us)" using x r by (metis imageI list.set_map)
      then obtain u where u: "u \<in> set us" "he_name (ent s u) = he_name (ent s x)" by (auto simp: raw_def)
      have "distinct (ch (old, j))" using chain_distinct [OF bucket_chain [OF L d(2)]] .
      then have "u \<in> set (ch (old, j))" "u \<noteq> z" using u z by auto
      then have "\<not> same_name (he_name (ent s z)) (he_name (ent s u))" using N d(2) zc(1) by (metis names_ok_def)
      then show ?thesis using u(2) by (simp add: f s1)
    qed
    have "Hash (ConvUpper (he_name (ent s z))) = j" "length (he_name (ent s z)) \<le> env_name_size" using N d(2) zc(1) by (force simp: names_ok_def)+
    then show "Hash (ConvUpper (he_name (ent s' p))) = snd ?d" "length (he_name (ent s' p)) \<le> env_name_size" by (simp_all add: f)
    show "i < MAXPORTENT" if "envval (ent s' p) = Pi i" for i using that Pk zc(2) by (simp add: f ports_ok_def)
    show "int (card (prefs D ch s1 i)) + (if envval (ent s' p) = Pi i then 1 else 0) \<le> refcnt (pt_table s' i)" if "i < MAXPORTENT" for i
      using Pk that by (simp add: f s1 prefs_def ports_ok_def)
  qed (use p in \<open>auto simp: f s1\<close>)
  moreover have "heap s \<subseteq> heap s'" unfolding f(4) by (rule new_entry_heap [OF n1])
  moreover have "\<forall>x\<in>cells D ch. ent s' x = ent s x" using p(3) by (auto simp: f)
  moreover have "raw s' p = raw s z" by (simp add: raw_def f)
  moreover have "copy_from e P h j z prev s = copy_from e P h j (enext s z) p s'" using e1 unfolding ez .
  ultimately show ?thesis using ez f(6-8) by blast
qed

text \<open>
  The state after part of a copy: old entries, ports, contexts and the references of the heads
  are as before.
\<close>

definition copy_frame :: "bucket set \<Rightarrow> (bucket \<Rightarrow> ptr list) \<Rightarrow> 'k env_state \<Rightarrow> 'k env_state \<Rightarrow> bool" where
  "copy_frame D ch s s' \<longleftrightarrow> (\<forall>x\<in>cells D ch. ent s' x = ent s x) \<and> (\<forall>k. pt (pt_table s' k) = pt (pt_table s k))
     \<and> contexts s' = contexts s \<and> hrefcnt s' = hrefcnt s \<and> heap s \<subseteq> heap s'"

lemma copy_frame_trans:
  "copy_frame D ch s s' \<Longrightarrow> copy_frame D' ch' s' s'' \<Longrightarrow> cells D ch \<subseteq> cells D' ch' \<Longrightarrow> copy_frame D ch s s''"
  unfolding copy_frame_def by (simp add: subset_iff)

lemma copy_frame_item: "copy_frame D ch s s' \<Longrightarrow> x \<in> cells D ch \<Longrightarrow> item s' x = item s x"
  unfolding copy_frame_def item_def by (cases "envval (ent s x)") simp_all

lemma copy_frame_contents:
  "copy_frame D ch s s' \<Longrightarrow> d \<in> D \<Longrightarrow> contents s' ch d = contents s ch d"
  by (rule contents_cong [of d D]) (auto intro: copy_frame_item)

lemma raw_cong: "ent s' x = ent s x \<Longrightarrow> raw s' x = raw s x"
  by (simp add: raw_def)

lemma copy_chain:
  assumes e: "em_ok e" and T: "table_ok D s ch fs" and d: "(h, j) \<in> D" "(old, j) \<in> D" "h \<noteq> old"
    and z: "ch (old, j) = us @ zs" and c: "chain (enext s) x zs" and r: "map (raw s) (ch (h, j)) = map (raw s) us"
    and pv: "us \<noteq> [] \<Longrightarrow> prev = last (ch (h, j))"
  shows "\<exists>q s' ns fs'. copy_from e P h j x prev s = Some (q, s') \<and> table_ok D s' (ch((h, j) := ch (h, j) @ ns)) fs'
     \<and> map (raw s') (ch (h, j) @ ns) = map (raw s') (ch (old, j)) \<and> copy_frame D ch s s'"
  using T z c r pv
proof (induction zs arbitrary: s ch fs us x prev)
  case Nil
  then have "copy_from e P h j x prev s = Some (prev, s)" by (subst copy_from.simps) simp
  moreover have "ch((h, j) := ch (h, j) @ []) = ch" by simp
  ultimately show ?case using Nil by (intro exI [of _ prev] exI [of _ s] exI [of _ "[]"] exI [of _ fs]) (simp add: copy_frame_def)
next
  case (Cons z zs)
  note L = table_okD(1) [OF Cons.prems(1)]
  have xz: "x = z" "chain (enext s) (enext s z) zs" using Cons.prems(3) by auto
  from copy_step [OF e Cons.prems(1) d Cons.prems(2,4,5), of P] obtain p s' fs' where
      s': "copy_from e P h j z prev s = copy_from e P h j (enext s z) p s'" "table_ok D s' (ch((h, j) := ch (h, j) @ [p])) fs'"
        "raw s' p = raw s z" "copy_frame D ch s s'" "enext s' z = enext s z"
    unfolding copy_frame_def by blast
  let ?ch = "ch((h, j) := ch (h, j) @ [p])"
  have o: "?ch (old, j) = (us @ [z]) @ zs" using Cons.prems(2) d(3) by simp
  have c': "chain (enext s') (enext s z) zs"
  proof -
    have "chain (enext s') (hhead s' old j) (us @ z # zs)" using bucket_chain [OF table_okD(1) [OF s'(2)] d(2)] o by simp
    then have "chain (enext s') z (z # zs)" by (rule chain_suffix)
    then show ?thesis using s'(5) by simp
  qed
  have cl: "y \<in> cells D ch" if "y \<in> set (ch (h, j)) \<union> set (ch (old, j))" for y
    using that d(1,2) cellsI [of "(h, j)" D y ch] cellsI [of "(old, j)" D y ch] by auto
  have rw: "raw s' y = raw s y" if "y \<in> set (ch (h, j)) \<union> set (ch (old, j))" for y
    using cl [OF that] s'(4) by (intro raw_cong) (simp add: copy_frame_def)
  have "map (raw s') (?ch (h, j)) = map (raw s') (us @ [z])"
  proof -
    have "map (raw s') (ch (h, j)) = map (raw s) (ch (h, j))" "map (raw s') us = map (raw s) us" "raw s' z = raw s z"
      using rw Cons.prems(2) by (auto intro!: map_cong)
    then show ?thesis using Cons.prems(4) s'(3) by simp
  qed
  moreover have "p = last (?ch (h, j))" by simp
  ultimately obtain q t ns fs2 where
    t: "copy_from e P h j (enext s z) p s' = Some (q, t)" "table_ok D t (?ch((h, j) := ?ch (h, j) @ ns)) fs2"
      "map (raw t) (?ch (h, j) @ ns) = map (raw t) (?ch (old, j))" "copy_frame D ?ch s' t"
    using Cons.IH [OF s'(2) o c', of p] by blast
  have "cells D ch \<subseteq> cells D ?ch" by (auto simp: cells_def)
  then have "copy_frame D ch s t" by (rule copy_frame_trans [OF s'(4) t(4)])
  moreover have "copy_from e P h j x prev s = Some (q, t)" using t(1) s'(1) xz by simp
  moreover have "table_ok D t (ch((h, j) := ch (h, j) @ p # ns)) fs2" using t(2) by simp
  moreover have "map (raw t) (ch (h, j) @ p # ns) = map (raw t) (ch (old, j))" using t(3) d(3) by simp
  ultimately show ?case by blast
qed

lemma map_raw_item: "map (raw s) xs = map (raw s) ys \<Longrightarrow> map (item s) xs = map (item s) ys"
proof -
  assume r: "map (raw s) xs = map (raw s) ys"
  have "map (item s) zs = map (\<lambda>r. (fst r, pvalue (pt_table s) (snd r))) (map (raw s) zs)" for zs by (simp add: raw_def item_def)
  then show ?thesis using r by metis
qed

lemma copy_tables:
  assumes e: "em_ok e" and h: "h \<noteq> old"
  shows "table_ok D s ch fs \<Longrightarrow> distinct js \<Longrightarrow> (\<And>j. j \<in> set js \<Longrightarrow> (h, j) \<notin> D \<and> (old, j) \<in> D)
    \<Longrightarrow> \<exists>s' ch' fs'. copy_buckets e P h old js prev s = Some s' \<and> table_ok (D \<union> {h} \<times> set js) s' ch' fs'
     \<and> (\<forall>j\<in>set js. contents s' ch' (h, j) = contents s ch (old, j)) \<and> (\<forall>d\<in>D. ch' d = ch d) \<and> copy_frame D ch s s'"
proof (induction js arbitrary: D s ch fs prev)
  case Nil
  then show ?case by (intro exI [of _ s] exI [of _ ch] exI [of _ fs]) (simp add: copy_frame_def)
next
  case (Cons j js)
  let ?d = "(h, j)" and ?s = "set_head h j 0 s" and ?ch = "ch((h, j) := [])" and ?D = "insert (h, j) D"
  have dn: "?d \<notin> D" "(old, j) \<in> D" using Cons.prems(3) by auto
  have T: "table_ok ?D ?s ?ch fs"
    by (intro table_insert [OF Cons.prems(1) dn(1)]) (auto simp: set_head_def prod_eq_iff)
  have o: "?ch (old, j) = [] @ ch (old, j)" using h by simp
  have c: "chain (enext ?s) (hhead s old j) (ch (old, j))"
    using bucket_chain [OF table_okD(1) [OF Cons.prems(1)] dn(2)] by (simp add: set_head_def)
  have "?d \<in> ?D" "(old, j) \<in> ?D" using dn by auto
  then have "\<exists>q s1 ns fs1. copy_from e P h j (hhead s old j) prev ?s = Some (q, s1) \<and> table_ok ?D s1 (?ch(?d := ?ch ?d @ ns)) fs1
     \<and> map (raw s1) (?ch ?d @ ns) = map (raw s1) (?ch (old, j)) \<and> copy_frame ?D ?ch ?s s1"
    by (intro copy_chain [OF e T _ _ h o c]) simp_all
  moreover have "?ch(?d := ?ch ?d @ ns) = ch(?d := ns)" "?ch ?d @ ns = ns" "?ch (old, j) = ch (old, j)" for ns using h by auto
  ultimately obtain q s1 ns fs1 where
    s1: "copy_from e P h j (hhead s old j) prev ?s = Some (q, s1)" "table_ok ?D s1 (ch(?d := ns)) fs1"
      "map (raw s1) ns = map (raw s1) (ch (old, j))" "copy_frame ?D ?ch ?s s1"
    by metis
  let ?ch1 = "ch(?d := ns)"
  have js: "(h, k) \<notin> ?D \<and> (old, k) \<in> ?D" if "k \<in> set js" for k using Cons.prems(2) Cons.prems(3) [of k] that by auto
  have "distinct js" using Cons.prems(2) by simp
  from Cons.IH [OF s1(2) this js, of q] obtain s' ch' fs' where
    s': "copy_buckets e P h old js q s1 = Some s'" "table_ok (?D \<union> {h} \<times> set js) s' ch' fs'"
      "\<And>k. k \<in> set js \<Longrightarrow> contents s' ch' (h, k) = contents s1 ?ch1 (old, k)" "\<And>d. d \<in> ?D \<Longrightarrow> ch' d = ?ch1 d" "copy_frame ?D ?ch1 s1 s'"
    by blast
  have "cells ?D ?ch = cells D ch" using dn(1) by (auto simp: cells_def split: if_splits)
  then have fr0: "copy_frame D ch s s1" using s1(4) by (simp add: copy_frame_def set_head_def)
  have "cells D ch \<subseteq> cells ?D ?ch1" using dn(1) by (auto simp: cells_def)
  then have fr: "copy_frame D ch s s'" by (rule copy_frame_trans [OF fr0 s'(5)])
  have same: "contents s1 ch d = contents s ch d" if "d \<in> D" for d by (rule copy_frame_contents [OF fr0 that])
  have "contents s' ch' ?d = contents s ch (old, j)"
  proof -
    have "contents s' ch' ?d = contents s' ?ch1 ?d" using s'(4) by (simp add: contents_def)
    also have "\<dots> = contents s1 ?ch1 ?d" by (rule copy_frame_contents [OF s'(5)]) simp
    also have "\<dots> = map (item s1) ns" by (simp add: contents_def)
    also have "\<dots> = map (item s1) (ch (old, j))" by (rule map_raw_item [OF s1(3)])
    finally show ?thesis using same [OF dn(2)] by (simp add: contents_def)
  qed
  moreover have "contents s' ch' (h, k) = contents s ch (old, k)" if "k \<in> set js" for k
  proof -
    have "(old, k) \<in> D" "(old, k) \<noteq> ?d" using js [OF that] h by auto
    then have "contents s1 ?ch1 (old, k) = contents s1 ch (old, k)" by (auto simp: contents_def)
    then show ?thesis using s'(3) [OF that] same [OF \<open>(old, k) \<in> D\<close>] by simp
  qed
  moreover have "?D \<union> {h} \<times> set js = D \<union> {h} \<times> set (j # js)" by auto
  moreover have "ch' d = ch d" if "d \<in> D" for d using s'(4) that dn(1) by auto
  moreover have "copy_buckets e P h old (j # js) prev s = Some s'" using s1(1) s'(1) by simp
  ultimately show ?case using s'(2) fr by (intro exI [of _ s'] exI [of _ ch'] exI [of _ fs']) auto
qed

end
