(* ===== verification/Env_Contexts.thy ===== *)
theory Env_Contexts
  imports Env_Copy
begin

text \<open>
  Contexts and the tables they share: the reference count of a hash head is the number of
  contexts that use it, and the table a context is about to change is made its own first,
  with every context reading what it read before.
\<close>

definition users :: "'k env_state \<Rightarrow> ptr \<Rightarrow> nat set" where
  "users s h = {c. c < MAXCONN \<and> inuse (contexts s c) \<and> ch_head (contexts s c) = h}"

definition live :: "'k env_state \<Rightarrow> ptr set" where
  "live s = {h. users s h \<noteq> {}}"

definition buckets :: "'k env_state \<Rightarrow> bucket set" where
  "buckets s = live s \<times> {..<HASHTABLESIZE}"

definition env_inv :: "'k env_state \<Rightarrow> (bucket \<Rightarrow> ptr list) \<Rightarrow> ptr list \<Rightarrow> bool" where
  "env_inv s ch fs \<longleftrightarrow> table_ok (buckets s) s ch fs \<and> (\<forall>h\<in>live s. hrefcnt s h = Some (int (card (users s h))))"

definition active :: "'k env_state \<Rightarrow> nat \<Rightarrow> bool" where
  "active s c \<longleftrightarrow> c < MAXCONN \<and> inuse (contexts s c)"

text \<open>The bucket of a name in a context, and what the context has for the name.\<close>

definition bucket_of_name :: "'k env_state \<Rightarrow> nat \<Rightarrow> string \<Rightarrow> bucket" where
  "bucket_of_name s c n = (ch_head (contexts s c), Hash (ConvUpper n))"

definition tab :: "'k env_state \<Rightarrow> (bucket \<Rightarrow> ptr list) \<Rightarrow> nat \<Rightarrow> string \<Rightarrow> env_value option" where
  "tab s ch c n = look_in (contents s ch (bucket_of_name s c n)) n"

definition look :: "'k env_state \<Rightarrow> nat \<Rightarrow> string \<Rightarrow> env_value option" where
  "look s c n = (case FindHashEntry n c s of None \<Rightarrow> None
     | Some p \<Rightarrow> if p = 0 then None else Some (pvalue (pt_table s) (envval (ent s p))))"

lemma finite_users [simp]: "finite (users s h)"
  by (simp add: users_def)

lemma active_live: "active s c \<Longrightarrow> ch_head (contexts s c) \<in> live s \<and> c \<in> users s (ch_head (contexts s c))"
  by (auto simp: active_def live_def users_def)

lemma active_bucket: "active s c \<Longrightarrow> bucket_of_name s c n \<in> buckets s"
  using active_live [of s c] hash_less by (simp add: bucket_of_name_def buckets_def)

lemma look_tab:
  assumes I: "env_inv s ch fs" and c: "active s c" and n: "length n \<le> env_name_size"
  shows "look s c n = tab s ch c n"
proof -
  have T: "table_ok (buckets s) s ch fs" using I by (simp add: env_inv_def)
  let ?d = "bucket_of_name s c n"
  have d: "?d \<in> buckets s" by (rule active_bucket [OF c])
  have "0 \<notin> set (ch ?d)" using cell_nonnull [OF table_okD(1) [OF T]] cellsI [of ?d "buckets s" 0 ch, OF d] by blast
  then show ?thesis using find_entry [OF T _ n, of c] d by (simp add: look_def tab_def contents_def env_find_look bucket_of_name_def)
qed

text \<open>Contexts whose buckets have the same contents read the same.\<close>

lemma tab_cong:
  "contents s' ch' (bucket_of_name s' c n) = contents s ch (bucket_of_name s c n) \<Longrightarrow> tab s' ch' c n = tab s ch c n"
  by (simp add: tab_def)

section \<open>A table of one's own\<close>

lemma table_grow:
  assumes "table_ok D s ch fs" and "ent s' = ent s" "enext s' = enext s" "hhead s' = hhead s" "HashEntryPool s' = HashEntryPool s"
    "pt_table s' = pt_table s" "heap s' = heap s" "finite (dom (hrefcnt s'))"
  shows "table_ok D s' ch fs"
  using assms unfolding table_ok_def links_ok_def names_ok_def ports_ok_def prefs_def by simp

lemma contents_eq: "ent s' = ent s \<Longrightarrow> pt_table s' = pt_table s \<Longrightarrow> contents s' ch d = contents s ch d"
  by (simp add: contents_def item_def)

lemma copy_table:
  assumes e: "em_ok e" and I: "env_inv s ch fs" and c: "active s c" and sh: "1 < the (hrefcnt s (ch_head (contexts s c)))"
  shows "\<exists>s' ch' fs' h. CopyHashTable e c s = Some s' \<and> env_inv s' ch' fs' \<and> users s' h = {c}
     \<and> contexts s' = (contexts s)(c := (contexts s c)\<lparr>ch_head := h\<rparr>) \<and> (\<forall>i n. active s i \<longrightarrow> tab s' ch' i n = tab s ch i n)"
proof -
  let ?old = "ch_head (contexts s c)"
  have T: "table_ok (buckets s) s ch fs" and R: "\<And>h. h \<in> live s \<Longrightarrow> hrefcnt s h = Some (int (card (users s h)))" using I by (auto simp: env_inv_def)
  have hp: "finite (heap s)" "finite (dom (hrefcnt s))" using table_okD(1) [OF T] by (auto simp: links_ok_def)
  define h where "h = e_malloc e (upd_hrefcnt ?old (- 1) s)"
  have ol: "?old \<in> live s" "c \<in> users s ?old" using active_live [OF c] by auto
  have dm: "dom (hrefcnt (upd_hrefcnt ?old (- 1) s)) = dom (hrefcnt s)" by (auto simp: upd_hrefcnt_def split: if_splits)
  have hn: "h \<notin> dom (hrefcnt s)" using malloc_fresh(2) [OF e, of "upd_hrefcnt ?old (- 1) s"] hp dm by (simp add: h_def upd_hrefcnt_def)
  have lv: "live s \<subseteq> dom (hrefcnt s)" using R by auto
  have ho: "h \<noteq> ?old" "h \<notin> live s" using hn lv ol by auto
  define s3 where "s3 = s\<lparr>contexts := (contexts s)(c := (contexts s c)\<lparr>ch_head := h\<rparr>),
      hrefcnt := (hrefcnt s)(?old \<mapsto> int (card (users s ?old)) - 1, h \<mapsto> 1)\<rparr>"
  have cp: "CopyHashTable e c s = copy_buckets e c h ?old [0..<HASHTABLESIZE] 0 s3"
    using R [OF ol(1)] by (simp add: CopyHashTable_def Let_def upd_hrefcnt_def h_def s3_def)
  have T3: "table_ok (buckets s) s3 ch fs" by (rule table_grow [OF T]) (use hp in \<open>auto simp: s3_def\<close>)
  have "\<exists>s' ch' fs'. copy_buckets e c h ?old [0..<HASHTABLESIZE] 0 s3 = Some s' \<and> table_ok (buckets s \<union> {h} \<times> set [0..<HASHTABLESIZE]) s' ch' fs'
     \<and> (\<forall>j\<in>set [0..<HASHTABLESIZE]. contents s' ch' (h, j) = contents s3 ch (?old, j)) \<and> (\<forall>d\<in>buckets s. ch' d = ch d) \<and> copy_frame (buckets s) ch s3 s'"
    by (rule copy_tables [OF e ho(1) T3]) (use ho ol in \<open>auto simp: buckets_def s3_def\<close>)
  then obtain s' ch' fs' where s': "CopyHashTable e c s = Some s'" "table_ok (buckets s \<union> {h} \<times> {..<HASHTABLESIZE}) s' ch' fs'"
      "\<And>j. j < HASHTABLESIZE \<Longrightarrow> contents s' ch' (h, j) = contents s3 ch (?old, j)" "\<And>d. d \<in> buckets s \<Longrightarrow> ch' d = ch d"
      "copy_frame (buckets s) ch s3 s'"
    unfolding cp by (metis atLeast_upt lessThan_iff)
  have cx: "contexts s' = (contexts s)(c := (contexts s c)\<lparr>ch_head := h\<rparr>)"
    and hr: "hrefcnt s' = (hrefcnt s)(?old \<mapsto> int (card (users s ?old)) - 1, h \<mapsto> 1)" using s'(5) by (auto simp: copy_frame_def s3_def)
  have ac: "c < MAXCONN" "inuse (contexts s c)" using c by (auto simp: active_def)
  have us: "users s' x = (if x = h then {c} else if x = ?old then users s ?old - {c} else users s x)" for x
    using ho(2) ac unfolding live_def by (auto simp: users_def cx split: if_splits)
  have "1 < card (users s ?old)" using sh R [OF ol(1)] by simp
  then have "users s ?old - {c} \<noteq> {}" by (metis card_Diff1_le card.empty card_Diff_singleton ol(2) not_less_iff_gr_or_eq zero_less_diff less_one)
  then have lv': "live s' = insert h (live s)" using ol unfolding live_def us by auto
  then have bs: "buckets s' = buckets s \<union> {h} \<times> {..<HASHTABLESIZE}" by (auto simp: buckets_def)
  have "hrefcnt s' x = Some (int (card (users s' x)))" if "x \<in> live s'" for x
    using that R [of x] R [OF ol(1)] ol(2) ho card_Suc_Diff1 [OF finite_users ol(2)] unfolding lv' us hr by auto
  then have "env_inv s' ch' fs'" using s'(2) by (simp add: env_inv_def bs)
  moreover have "tab s' ch' i n = tab s ch i n" if i: "active s i" for i n
  proof (rule tab_cong)
    let ?j = "Hash (ConvUpper n)"
    have j: "?j < HASHTABLESIZE" by (rule hash_less)
    have c3: "contents s3 ch d = contents s ch d" for d by (rule contents_eq) (simp_all add: s3_def)
    have old: "contents s' ch' d = contents s ch d" if "d \<in> buckets s" for d
      using copy_frame_contents [OF s'(5) that] s'(4) [OF that] c3 by (simp add: contents_def)
    show "contents s' ch' (bucket_of_name s' i n) = contents s ch (bucket_of_name s i n)"
    proof (cases "i = c")
      case True
      then show ?thesis using s'(3) [OF j] c3 by (simp add: bucket_of_name_def cx)
    next
      case False
      then show ?thesis using old [OF active_bucket [OF i]] by (simp add: bucket_of_name_def cx)
    qed
  qed
  moreover have "users s' h = {c}" by (simp add: us)
  ultimately show ?thesis using s'(1) cx by blast
qed

lemma own_table_ok:
  assumes e: "em_ok e" and I: "env_inv s ch fs" and c: "active s c"
  shows "\<exists>s' ch' fs' h. own_table e c s = Some s' \<and> env_inv s' ch' fs' \<and> users s' h = {c}
     \<and> contexts s' = (contexts s)(c := (contexts s c)\<lparr>ch_head := h\<rparr>) \<and> (\<forall>i n. active s i \<longrightarrow> tab s' ch' i n = tab s ch i n)"
proof (cases "1 < the (hrefcnt s (ch_head (contexts s c)))")
  case True
  then have "own_table e c s = CopyHashTable e c s" by (simp add: own_table_def)
  then show ?thesis using copy_table [OF e I c True] by presburger
next
  case False
  let ?h = "ch_head (contexts s c)"
  have "card (users s ?h) \<le> 1" using I False active_live [OF c] by (simp add: env_inv_def)
  moreover have "c \<in> users s ?h" using active_live [OF c] by simp
  ultimately have u: "users s ?h = {c}" by (auto simp: card_le_Suc0_iff_eq)
  have "(contexts s c)\<lparr>ch_head := ?h\<rparr> = contexts s c" by (cases "contexts s c") simp
  then have "contexts s = (contexts s)(c := (contexts s c)\<lparr>ch_head := ?h\<rparr>)" by simp
  moreover have "own_table e c s = Some s" using False by (simp add: own_table_def)
  ultimately show ?thesis using I u by blast
qed

end
