(* ===== verification/Env_Writes.thy ===== *)
theory Env_Writes
  imports Env_Contexts
begin

text \<open>
  The calls that change variables implement an update of one context's map from names to
  values: the sharing of tables between contexts is invisible.
\<close>

definition env_ok :: "'k env_state \<Rightarrow> bool" where
  "env_ok s \<longleftrightarrow> (\<exists>ch fs. env_inv s ch fs)"

section \<open>Changing one bucket\<close>

lemma env_invD:
  assumes "env_inv s ch fs"
  shows "table_ok (buckets s) s ch fs" "\<And>h. h \<in> live s \<Longrightarrow> hrefcnt s h = Some (int (card (users s h)))"
  using assms by (auto simp: env_inv_def)

lemma users_cong: "contexts s' = contexts s \<Longrightarrow> users s' = users s \<and> live s' = live s \<and> buckets s' = buckets s \<and> active s' = active s"
  by (simp add: users_def live_def buckets_def active_def fun_eq_iff)

lemma inv_cong:
  assumes I: "env_inv s ch fs" and T: "table_ok (buckets s) s' ch' fs'" and c: "contexts s' = contexts s" "hrefcnt s' = hrefcnt s"
  shows "env_inv s' ch' fs'"
  using I T users_cong [OF c(1)] c(2) by (simp add: env_inv_def)

lemma bucket_write:
  assumes I: "env_inv s ch fs" and c: "active s c" "users s (ch_head (contexts s c)) = {c}" and d: "d = bucket_of_name s c n"
    and T: "table_ok (buckets s) s' ch' fs'" and cx: "contexts s' = contexts s" "hrefcnt s' = hrefcnt s"
    and o: "\<And>d'. d' \<in> buckets s \<Longrightarrow> d' \<noteq> d \<Longrightarrow> contents s' ch' d' = contents s ch d'"
    and u: "\<And>m. look_in (contents s' ch' d) m = (if same_name n m then v else look_in (contents s ch d) m)"
  shows "env_inv s' ch' fs'" and "\<And>i m. active s i \<Longrightarrow> tab s' ch' i m = (if i = c \<and> same_name n m then v else tab s ch i m)"
proof -
  show "env_inv s' ch' fs'" by (rule inv_cong [OF I T cx])
  fix i m assume i: "active s i"
  have b: "bucket_of_name s' i m = bucket_of_name s i m" by (simp add: bucket_of_name_def cx)
  show "tab s' ch' i m = (if i = c \<and> same_name n m then v else tab s ch i m)"
  proof (cases "bucket_of_name s i m = d")
    case True
    then have "ch_head (contexts s i) = ch_head (contexts s c)" by (simp add: d bucket_of_name_def)
    then have "i \<in> users s (ch_head (contexts s c))" using i by (simp add: users_def active_def)
    then have "i = c" using c(2) by simp
    then show ?thesis unfolding tab_def b True using u [of m] by simp
  next
    case False
    then have "\<not> (i = c \<and> same_name n m)" by (auto simp: d bucket_of_name_def same_name_def)
    then show ?thesis unfolding tab_def b using o [OF active_bucket [OF i] False] by auto
  qed
qed

lemma look_in_upd:
  assumes "p \<in> set xs" and "same_name n (fst (f p))" and "\<And>x. x \<in> set xs \<Longrightarrow> x \<noteq> p \<Longrightarrow> g x = f x \<and> \<not> same_name n (fst (f x))"
    and "g p = (fst (f p), v)"
  shows "look_in (map g xs) m = (if same_name n m then Some v else look_in (map f xs) m)"
  using assms(1,3)
proof (induction xs)
  case (Cons x xs)
  have fx: "f x = (fst (f x), snd (f x))" by simp
  show ?case
  proof (cases "x = p")
    case True
    have eq: "same_name m (fst (f p)) \<longleftrightarrow> same_name n m" using assms(2) same_name_sym same_name_trans by blast
    show ?thesis
    proof (cases "same_name n m \<or> p \<in> set xs")
      case T: True
      then show ?thesis
      proof (cases "same_name n m")
        case False
        then have "look_in (map g xs) m = look_in (map f xs) m" using T Cons by auto
        then show ?thesis using False True assms(4) eq fx by (metis list.simps(9) look_in_simps(2))
      qed (use True assms(4) eq in simp)
    next
      case F: False
      then have "map g xs = map f xs" using Cons.prems(2) True by auto
      then show ?thesis using F True assms(4) eq fx by (metis list.simps(9) look_in_simps(2))
    qed
  next
    case False
    then have x: "g x = f x" "\<not> same_name n (fst (f x))" "p \<in> set xs" using Cons.prems by auto
    have "look_in (map g xs) m = (if same_name n m then Some v else look_in (map f xs) m)" using Cons.IH x(3) Cons.prems(2) by simp
    moreover have "same_name m (fst (f x)) \<Longrightarrow> \<not> same_name n m" using x(2) same_name_trans by blast
    ultimately show ?thesis using x(1) fx by (metis list.simps(9) look_in_simps(2))
  qed
qed simp

lemma look_in_filter: "look_in (filter (\<lambda>x. \<not> same_name n (fst x)) xs) m = (if same_name n m then None else look_in xs m)"
proof (induction xs)
  case (Cons x xs)
  have "same_name n (fst x) \<Longrightarrow> same_name m (fst x) \<Longrightarrow> same_name n m" using same_name_sym same_name_trans by blast
  moreover have "same_name n m \<Longrightarrow> same_name m (fst x) \<Longrightarrow> same_name n (fst x)" using same_name_trans by blast
  ultimately show ?case using Cons by (cases x) auto
qed simp

text \<open>The value of an entry is replaced.\<close>

lemma value_write:
  assumes T: "table_ok D s ch fs" and d: "d \<in> D" and p: "p \<in> set (ch d)" "same_name n (he_name (ent s p))"
    and it: "\<And>x. x \<in> cells D ch \<Longrightarrow> x \<noteq> p \<Longrightarrow> item s' x = item s x" and v: "item s' p = (he_name (ent s p), v)"
  shows "d' \<in> D \<Longrightarrow> d' \<noteq> d \<Longrightarrow> contents s' ch d' = contents s ch d'"
    and "look_in (contents s' ch d) m = (if same_name n m then Some v else look_in (contents s ch d) m)"
proof -
  note L = table_okD(1) [OF T]
  show "contents s' ch d' = contents s ch d'" if "d' \<in> D" "d' \<noteq> d"
  proof -
    have "p \<notin> set (ch d')" using cell_bucket [OF L d that(1) p(1)] that(2) by blast
    then show ?thesis using it cellsI [of d' D _ ch, OF that(1)] by (auto simp: contents_def)
  qed
  show "look_in (contents s' ch d) m = (if same_name n m then Some v else look_in (contents s ch d) m)"
    unfolding contents_def
  proof (rule look_in_upd [OF p(1)])
    show "same_name n (fst (item s p))" "item s' p = (fst (item s p), v)" using p(2) v by (simp_all add: item_def)
    show "item s' x = item s x \<and> \<not> same_name n (fst (item s x))" if "x \<in> set (ch d)" "x \<noteq> p" for x
    proof
      show "item s' x = item s x" using it cellsI [of d D x ch, OF d that(1)] that(2) by blast
      show "\<not> same_name n (fst (item s x))"
        using env_find_unique [OF T d that(1)] env_find_unique [OF T d p] that(2) by (auto simp: item_def)
    qed
  qed
qed

section \<open>The calls\<close>

lemma port_context: "PortToContext sp s = Some (c, r) \<Longrightarrow> active s c \<and> (r \<longleftrightarrow> rwport (contexts s c) \<noteq> sp)"
  by (auto simp: PortToContext_def active_def find_Some_iff split: option.splits)

text \<open>
  The call on a table of the caller's own: what it returns and what the contexts read
  afterwards.
\<close>

definition writes :: "'k env_state \<Rightarrow> (bucket \<Rightarrow> ptr list) \<Rightarrow> nat \<Rightarrow> string \<Rightarrow> env_value option \<Rightarrow> 'k env_state \<Rightarrow> bool" where
  "writes s ch c n v s' \<longleftrightarrow> (\<exists>ch' fs'. env_inv s' ch' fs' \<and> contexts s' = contexts s
     \<and> (\<forall>i m. active s i \<longrightarrow> tab s' ch' i m = (if i = c \<and> same_name n m then v else tab s ch i m)))"

lemma found_entry:
  assumes I: "env_inv s ch fs" and c: "active s c" and n: "length n \<le> env_name_size" and d: "d = bucket_of_name s c n"
  shows "FindHashEntry n c s = Some (env_find s n (ch d))" and "d \<in> buckets s"
    and "env_find s n (ch d) = 0 \<Longrightarrow> tab s ch c n = None"
    and "env_find s n (ch d) \<noteq> 0 \<Longrightarrow> tab s ch c n = Some (pvalue (pt_table s) (envval (ent s (env_find s n (ch d)))))"
proof -
  note T = env_invD(1) [OF I]
  show b: "d \<in> buckets s" unfolding d by (rule active_bucket [OF c])
  show "FindHashEntry n c s = Some (env_find s n (ch d))" using find_entry [OF T _ n, of c] b by (simp add: d bucket_of_name_def)
  have "0 \<notin> set (ch d)" using cell_nonnull [OF table_okD(1) [OF T]] cellsI [of d "buckets s" 0 ch, OF b] by blast
  from env_find_look [OF this, of s n]
  show "env_find s n (ch d) = 0 \<Longrightarrow> tab s ch c n = None"
    "env_find s n (ch d) \<noteq> 0 \<Longrightarrow> tab s ch c n = Some (pvalue (pt_table s) (envval (ent s (env_find s n (ch d)))))"
    by (simp_all add: tab_def contents_def d)
qed

lemma write_new:
  assumes e: "em_ok e" and I: "env_inv s ch fs" and c: "active s c" "users s (ch_head (contexts s c)) = {c}"
    and n: "length n \<le> env_name_size" and z: "tab s ch c n = None" and v: "\<And>i. v = Pi i \<Longrightarrow> i < MAXPORTENT"
      "\<And>i. i < MAXPORTENT \<Longrightarrow> int (card (prefs (buckets s) ch s i)) + (if v = Pi i then 1 else 0) \<le> refcnt (pt_table s i)"
  shows "writes s ch c n (Some (pvalue (pt_table s) v)) (new_entry e n c v s)"
proof -
  note T = env_invD(1) [OF I]
  let ?d = "bucket_of_name s c n"
  have d: "?d = (ch_head (contexts s c), Hash (ConvUpper n))" by (simp add: bucket_of_name_def)
  note F = found_entry [OF I c(1) n refl]
  have y: "env_find s n (ch ?d) = 0" using F(4) z by fastforce
  from create_entry [OF e T d F(2) n y v refl] obtain p fs' where
    N: "table_ok (buckets s) (new_entry e n c v s) (ch(?d := p # ch ?d)) fs'"
      "contents (new_entry e n c v s) (ch(?d := p # ch ?d)) ?d = (n, pvalue (pt_table s) v) # contents s ch ?d"
      "\<And>d'. d' \<in> buckets s \<Longrightarrow> d' \<noteq> ?d \<Longrightarrow> contents (new_entry e n c v s) (ch(?d := p # ch ?d)) d' = contents s ch d'"
      "contexts (new_entry e n c v s) = contexts s" "hrefcnt (new_entry e n c v s) = hrefcnt s" by blast
  have "look_in (contents (new_entry e n c v s) (ch(?d := p # ch ?d)) ?d) m
      = (if same_name n m then Some (pvalue (pt_table s) v) else look_in (contents s ch ?d) m)" for m
    unfolding N(2) using same_name_sym [of n m] by simp
  from bucket_write [OF I c refl N(1,4,5,3) this] N(4) show ?thesis unfolding writes_def by blast
qed

lemma write_value:
  assumes I: "env_inv s ch fs" and c: "active s c" "users s (ch_head (contexts s c)) = {c}" and n: "length n \<le> env_name_size"
    and p: "p = env_find s n (ch (bucket_of_name s c n))" "p \<noteq> 0" and T': "table_ok (buckets s) s' ch fs"
    and cx: "contexts s' = contexts s" "hrefcnt s' = hrefcnt s"
    and it: "\<And>x. x \<in> cells (buckets s) ch \<Longrightarrow> x \<noteq> p \<Longrightarrow> item s' x = item s x" and v: "item s' p = (he_name (ent s p), v)"
  shows "writes s ch c n (Some v) s'"
proof -
  note T = env_invD(1) [OF I]
  let ?d = "bucket_of_name s c n"
  have d: "?d \<in> buckets s" by (rule active_bucket [OF c(1)])
  have m: "p \<in> set (ch ?d)" "same_name n (he_name (ent s p))" using env_find_member [of s n "ch ?d"] p by auto
  note V = value_write [OF T d m it v]
  from bucket_write [OF I c refl T' cx V] cx(1) show ?thesis unfolding writes_def by blast
qed

lemma write_delete:
  assumes I: "env_inv s ch fs" and c: "active s c" "users s (ch_head (contexts s c)) = {c}" and n: "length n \<le> env_name_size"
  shows "\<exists>r s'. DeleteHashEntry e n c vt s = Some (r, s') \<and>
    (case tab s ch c n of None \<Rightarrow> r = ENV_VAR_NOT_FOUND \<and> s' = s
     | Some (VStr x) \<Rightarrow> if vt = Envstr then r = ENV_SUCCESS \<and> writes s ch c n None s' else r = ENV_WRONG_VAR_TYPE \<and> s' = s
     | Some (VPort x) \<Rightarrow> if vt = Envport then r = ENV_SUCCESS \<and> writes s ch c n None s' else r = ENV_WRONG_VAR_TYPE \<and> s' = s)"
proof -
  note T = env_invD(1) [OF I]
  let ?d = "bucket_of_name s c n" let ?y = "env_find s n (ch ?d)"
  have d: "?d = (ch_head (contexts s c), Hash (ConvUpper n))" by (simp add: bucket_of_name_def)
  note F = found_entry [OF I c(1) n refl]
  note X = delete_entry [OF T d F(2) n refl, where e = e and vt = vt]
  show ?thesis
  proof (cases "?y = 0")
    case True
    then show ?thesis using X(1) F(3) by simp
  next
    case False
    show ?thesis
    proof (cases "vartype (envval (ent s ?y)) = vt")
      case True
      from X(3) [OF False True] obtain s' xs fs' where S: "DeleteHashEntry e n c vt s = Some (ENV_SUCCESS, s')"
          "table_ok (buckets s) s' (ch(?d := xs)) fs'" "contents s' (ch(?d := xs)) ?d = filter (\<lambda>x. \<not> same_name n (fst x)) (contents s ch ?d)"
          "\<And>d'. d' \<in> buckets s \<Longrightarrow> d' \<noteq> ?d \<Longrightarrow> contents s' (ch(?d := xs)) d' = contents s ch d'"
          "contexts s' = contexts s" "hrefcnt s' = hrefcnt s" by blast
      have "look_in (contents s' (ch(?d := xs)) ?d) m = (if same_name n m then None else look_in (contents s ch ?d) m)" for m
        unfolding S(3) by (rule look_in_filter)
      from bucket_write [OF I c refl S(2,5,6,4) this] S(5) have "writes s ch c n None s'" unfolding writes_def by blast
      then show ?thesis using S(1) F(4) [OF False] True by (cases "envval (ent s ?y)") auto
    next
      case neq: False
      then show ?thesis using X(2) [OF False neq] F(4) [OF False] by (cases "envval (ent s ?y)") auto
    qed
  qed
qed

text \<open>Setting a string on a table of the caller's own.\<close>

lemma write_string:
  assumes e: "em_ok e" and I: "env_inv s ch fs" and c: "active s c" "users s (ch_head (contexts s c)) = {c}" and n: "length n \<le> env_name_size"
    and p: "FindHashEntry n c s = Some p"
  shows "p \<noteq> 0 \<Longrightarrow> vartype (envval (ent s p)) = Envstr \<Longrightarrow> writes s ch c n (Some (VStr v)) (upd_ent p (\<lambda>x. x\<lparr>envval := Str v\<rparr>) s)"
    and "p = 0 \<Longrightarrow> writes s ch c n (Some (VStr v)) (new_entry e n c (Str v) s)"
proof -
  note T = env_invD(1) [OF I] and F = found_entry [OF I c(1) n refl]
  have pe: "p = env_find s n (ch (bucket_of_name s c n))" using p F(1) by simp
  have P: "\<And>i. i < MAXPORTENT \<Longrightarrow> int (card (prefs (buckets s) ch s i)) \<le> refcnt (pt_table s i)" using table_okD(3) [OF T] by (simp add: ports_ok_def)
  show "writes s ch c n (Some (VStr v)) (new_entry e n c (Str v) s)" if "p = 0"
    using write_new [OF e I c n, of "Str v"] F(3) that pe P by simp
  assume p0: "p \<noteq> 0" and st: "vartype (envval (ent s p)) = Envstr"
  have pc: "p \<in> cells (buckets s) ch"
    using env_find_member [of s n "ch (bucket_of_name s c n)"] pe p0 cellsI [of "bucket_of_name s c n" "buckets s" p ch] F(2) by auto
  obtain u where u: "envval (ent s p) = Str u" using st by (cases "envval (ent s p)") auto
  show "writes s ch c n (Some (VStr v)) (upd_ent p (\<lambda>x. x\<lparr>envval := Str v\<rparr>) s)"
  proof (rule write_value [OF I c n pe p0])
    show "table_ok (buckets s) (upd_ent p (\<lambda>x. x\<lparr>envval := Str v\<rparr>) s) ch fs"
      by (rule set_cell [OF T pc, where x = "(ent s p)\<lparr>envval := Str v\<rparr>"]) (use P u in \<open>simp_all add: upd_ent_def\<close>)
  qed (simp_all add: upd_ent_def item_def)
qed

lemma write_port_value:
  assumes I: "env_inv s ch fs" and c: "active s c" "users s (ch_head (contexts s c)) = {c}" and n: "length n \<le> env_name_size"
    and p: "FindHashEntry n c s = Some p" "p \<noteq> 0" "envval (ent s p) = Pi i" and a: "add_port v s = (Some j, s2)"
  shows "writes s ch c n (Some (VPort v)) (upd_ent p (\<lambda>x. x\<lparr>envval := Pi j\<rparr>) (del_port e i s2))"
proof -
  note T = env_invD(1) [OF I] and F = found_entry [OF I c(1) n refl] and L = table_okD(1) [OF env_invD(1) [OF I]]
  have pe: "p = env_find s n (ch (bucket_of_name s c n))" using p F(1) by simp
  have pc: "p \<in> cells (buckets s) ch"
    using env_find_member [of s n "ch (bucket_of_name s c n)"] pe p(2) cellsI [of "bucket_of_name s c n" "buckets s" p ch] F(2) by auto
  note A = add_port_table [OF T a]
  let ?t = "del_port e i s2" let ?s = "upd_ent p (\<lambda>x. x\<lparr>envval := Pi j\<rparr>) ?t"
  have sc: "same_cells s ?t" by (rule same_cells_trans [OF A(1) del_port_table(1)])
  have f: "ent ?s = (ent s)(p := (ent s p)\<lparr>envval := Pi j\<rparr>)" "enext ?s = enext s" "hhead ?s = hhead s" "heap ?s = heap s"
      "HashEntryPool ?s = HashEntryPool s" "contexts ?s = contexts s" "hrefcnt ?s = hrefcnt s" "pt_table ?s = pt_table ?t"
    using sc by (simp_all add: same_cells_def upd_ent_def)
  have r2: "refcnt (pt_table ?t k) = refcnt (pt_table s2 k) - (if k = i then 1 else 0)" for k by (rule del_port_table(2))
  have i: "i < MAXPORTENT" using table_okD(3) [OF T] pc p(3) by (auto simp: ports_ok_def)
  have pi: "p \<in> prefs (buckets s) ch s i" using pc p(3) by (simp add: prefs_def)
  have e2: "ent s2 = ent s" using A(1) by (simp add: same_cells_def)
  have fp: "finite (prefs (buckets s) ch s i)" by (rule finite_prefs [OF L])
  have rc: "0 < card (prefs (buckets s) ch s i)" using fp pi by (metis card_gt_0_iff empty_iff)
  have lt: "int (card {x \<in> cells (buckets s) ch - {p}. envval (ent s2 x) = Pi i}) < refcnt (pt_table s2 i)"
  proof -
    have "{x \<in> cells (buckets s) ch - {p}. envval (ent s2 x) = Pi i} = prefs (buckets s) ch s i - {p}" by (auto simp: prefs_def e2)
    then show ?thesis using card_Diff1_less [OF fp pi] A(4) [OF i] by (simp split: if_splits)
  qed
  show ?thesis
  proof (rule write_value [OF I c n pe p(2)])
    show "table_ok (buckets s) ?s ch fs"
    proof (rule set_cell [OF T pc f(2,3,4,5,7,1)])
      show "int (card (prefs (buckets s) ch s k)) - (if envval (ent s p) = Pi k then 1 else 0)
          + (if envval ((ent s p)\<lparr>envval := Pi j\<rparr>) = Pi k then 1 else 0) \<le> refcnt (pt_table ?s k)" if "k < MAXPORTENT" for k
        using A(4) [OF that] r2 [of k] p(3) f(8) by (auto split: if_splits)
    qed (use A(2) in simp_all)
    show "item ?s x = item s x" if x: "x \<in> cells (buckets s) ch" "x \<noteq> p" for x
    proof -
      have "item ?t x = item s2 x" using x finite_cells [OF L] by (intro del_port_items [OF _ lt]) simp_all
      moreover have "item ?s x = item ?t x" using x(2) by (simp add: item_def upd_ent_def)
      ultimately show ?thesis using A(5) [OF x(1)] by simp
    qed
    have "j \<noteq> i \<or> refcnt (pt_table s2 i) \<noteq> 1" using A(4) [OF i] rc by auto
    then have "pt (pt_table ?t j) = v" using del_port_table(3) A(3) by metis
    then show "item ?s p = (he_name (ent s p), VPort v)" by (simp add: item_def f)
  qed (rule f)+
qed

lemma write_port_new:
  assumes e: "em_ok e" and I: "env_inv s ch fs" and c: "active s c" "users s (ch_head (contexts s c)) = {c}" and n: "length n \<le> env_name_size"
    and z: "tab s ch c n = None" and a: "add_port v s = (Some j, s2)"
  shows "writes s ch c n (Some (VPort v)) (new_entry e n c (Pi j) s2)"
proof -
  note T = env_invD(1) [OF I] and A = add_port_table [OF env_invD(1) [OF I] a]
  have cx: "contexts s2 = contexts s" "hrefcnt s2 = hrefcnt s" "ent s2 = ent s" using A(1) by (simp_all add: same_cells_def)
  have T2: "table_ok (buckets s) s2 ch fs"
  proof (rule table_ports [OF T A(1)])
    show "int (card (prefs (buckets s) ch s k)) \<le> refcnt (pt_table s2 k)" if "k < MAXPORTENT" for k using A(4) [OF that] by (simp split: if_splits)
  qed
  note U = users_cong [OF cx(1)]
  have I2: "env_inv s2 ch fs" by (rule inv_cong [OF I T2 cx(1,2)])
  have tb: "tab s2 ch i m = tab s ch i m" if "active s i" for i m
  proof (rule tab_cong)
    have "bucket_of_name s2 i m = bucket_of_name s i m" by (simp add: bucket_of_name_def cx)
    then show "contents s2 ch (bucket_of_name s2 i m) = contents s ch (bucket_of_name s i m)"
      using contents_cong [OF active_bucket [OF that], of ch s2 s] A(5) by simp
  qed
  have "writes s2 ch c n (Some (pvalue (pt_table s2) (Pi j))) (new_entry e n c (Pi j) s2)"
  proof (rule write_new [OF e I2])
    show "int (card (prefs (buckets s2) ch s2 k)) + (if Pi j = Pi k then 1 else 0) \<le> refcnt (pt_table s2 k)" if "k < MAXPORTENT" for k
      using A(4) [OF that] U by (auto simp: prefs_def cx)
  qed (use c n U cx tb z A(2) in auto)
  then show ?thesis using A(3) tb U cx unfolding writes_def by auto
qed

end
