(* ===== verification/Env_Props.thy ===== *)
theory Env_Props
  imports Env_Writes
begin

text \<open>
  The environment manager as a map per context: every changing call refines an update of the
  caller's map, a copied context is isolated from its original, and the names that are taken
  for one variable.
\<close>

section \<open>The abstract environment\<close>

datatype env_write = Set_string string string | Set_port string port | Del_string string | Del_port string

fun wname :: "env_write \<Rightarrow> string" where
  "wname (Set_string n v) = n" | "wname (Set_port n p) = n" | "wname (Del_string n) = n" | "wname (Del_port n) = n"

definition env_call :: "'k em_env \<Rightarrow> port \<Rightarrow> env_write \<Rightarrow> 'k env_state \<Rightarrow> (env_ret \<times> 'k env_state) option" where
  "env_call e sp w s = (case w of Set_string n v \<Rightarrow> env_set_string e sp n v s | Set_port n p \<Rightarrow> env_set_port e sp n p s
     | Del_string n \<Rightarrow> env_del_string e sp n s | Del_port n \<Rightarrow> env_del_port e sp n s)"

type_synonym env_map = "string \<Rightarrow> env_value option"

definition put :: "string \<Rightarrow> env_value option \<Rightarrow> env_map \<Rightarrow> env_map" where
  "put n v M = (\<lambda>m. if same_name n m then v else M m)"

fun spec_write :: "env_write \<Rightarrow> env_map \<Rightarrow> env_ret \<times> env_map" where
  "spec_write (Set_string n v) M =
     (case M n of Some (VPort p) \<Rightarrow> (ENV_WRONG_VAR_TYPE, M) | _ \<Rightarrow> (ENV_SUCCESS, put n (Some (VStr v)) M))"
| "spec_write (Set_port n p) M =
     (if p = PORT_NULL then (ENV_PORT_NULL, M)
      else case M n of Some (VStr v) \<Rightarrow> (ENV_WRONG_VAR_TYPE, M) | _ \<Rightarrow> (ENV_SUCCESS, put n (Some (VPort p)) M))"
| "spec_write (Del_string n) M =
     (case M n of None \<Rightarrow> (ENV_VAR_NOT_FOUND, M) | Some (VPort p) \<Rightarrow> (ENV_WRONG_VAR_TYPE, M) | Some (VStr v) \<Rightarrow> (ENV_SUCCESS, put n None M))"
| "spec_write (Del_port n) M =
     (case M n of None \<Rightarrow> (ENV_VAR_NOT_FOUND, M) | Some (VStr v) \<Rightarrow> (ENV_WRONG_VAR_TYPE, M) | Some (VPort p) \<Rightarrow> (ENV_SUCCESS, put n None M))"

text \<open>The state \<open>s'\<close> reads as \<open>s\<close> does, but for context \<open>c\<close>, which has the map \<open>M\<close>.\<close>

definition reads :: "'k env_state \<Rightarrow> (bucket \<Rightarrow> ptr list) \<Rightarrow> nat \<Rightarrow> env_map \<Rightarrow> 'k env_state \<Rightarrow> bool" where
  "reads s ch c M s' \<longleftrightarrow> (\<exists>ch' fs'. env_inv s' ch' fs' \<and> (\<exists>h. contexts s' = (contexts s)(c := (contexts s c)\<lparr>ch_head := h\<rparr>))
     \<and> (\<forall>i m. active s i \<longrightarrow> tab s' ch' i m = (if i = c then M m else tab s ch i m)))"

lemma tab_same: "same_name n m \<Longrightarrow> tab s ch c n = tab s ch c m"
proof -
  assume nm: "same_name n m"
  have "look_in xs n = look_in xs m" for xs
  proof (induction xs)
    case (Cons x xs)
    have "same_name n (fst x) \<longleftrightarrow> same_name m (fst x)" using nm same_name_sym same_name_trans by blast
    then show ?case using Cons by (cases x) simp
  qed simp
  moreover have "bucket_of_name s c n = bucket_of_name s c m" using nm by (simp add: bucket_of_name_def same_name_def)
  ultimately show ?thesis by (simp add: tab_def)
qed

text \<open>The state \<open>s1\<close> is \<open>s\<close> after the caller's table has been made its own.\<close>

definition owned :: "'k env_state \<Rightarrow> (bucket \<Rightarrow> ptr list) \<Rightarrow> nat \<Rightarrow> 'k env_state \<Rightarrow> (bucket \<Rightarrow> ptr list) \<Rightarrow> ptr list \<Rightarrow> bool" where
  "owned s ch c s1 ch1 fs1 \<longleftrightarrow> env_inv s1 ch1 fs1 \<and> active s1 c \<and> users s1 (ch_head (contexts s1 c)) = {c}
     \<and> (\<exists>h. contexts s1 = (contexts s)(c := (contexts s c)\<lparr>ch_head := h\<rparr>)) \<and> (\<forall>i n. active s i \<longrightarrow> tab s1 ch1 i n = tab s ch i n) \<and> active s c"

lemma ownedD:
  assumes "owned s ch c s1 ch1 fs1"
  shows "env_inv s1 ch1 fs1" "active s1 c" "users s1 (ch_head (contexts s1 c)) = {c}" "tab s1 ch1 c n = tab s ch c n"
  using assms by (auto simp: owned_def)

lemma owned_table:
  assumes e: "em_ok e" and I: "env_inv s ch fs" and p: "PortToContext sp s = Some (c, r)"
  shows "\<exists>s1 ch1 fs1. own_table e c s = Some s1 \<and> owned s ch c s1 ch1 fs1"
proof -
  have c: "active s c" using port_context [OF p] by simp
  from own_table_ok [OF e I c] obtain s1 ch1 fs1 h where O: "own_table e c s = Some s1" "env_inv s1 ch1 fs1" "users s1 h = {c}"
      "contexts s1 = (contexts s)(c := (contexts s c)\<lparr>ch_head := h\<rparr>)" "\<forall>i n. active s i \<longrightarrow> tab s1 ch1 i n = tab s ch i n" by blast
  have "active s1 c" "users s1 (ch_head (contexts s1 c)) = {c}" using c O(3,4) by (simp_all add: active_def)
  then show ?thesis using O c unfolding owned_def by blast
qed

lemma own_then_write:
  assumes O: "owned s ch c s1 ch1 fs1"
  shows "reads s ch c (tab s ch c) s1" and "writes s1 ch1 c n v s' \<Longrightarrow> reads s ch c (put n v (tab s ch c)) s'"
proof -
  obtain h where cx: "contexts s1 = (contexts s)(c := (contexts s c)\<lparr>ch_head := h\<rparr>)" using O by (auto simp: owned_def)
  have tb: "\<And>i n. active s i \<Longrightarrow> tab s1 ch1 i n = tab s ch i n" and I1: "env_inv s1 ch1 fs1" using O by (auto simp: owned_def)
  have ac: "active s1 i = active s i" for i by (simp add: active_def cx)
  show "reads s ch c (tab s ch c) s1" unfolding reads_def using I1 cx tb by (intro exI [of _ ch1] exI [of _ fs1]) auto
  assume "writes s1 ch1 c n v s'"
  then obtain ch' fs' where w: "env_inv s' ch' fs'" "contexts s' = contexts s1"
      "\<And>i m. active s1 i \<Longrightarrow> tab s' ch' i m = (if i = c \<and> same_name n m then v else tab s1 ch1 i m)" unfolding writes_def by blast
  then show "reads s ch c (put n v (tab s ch c)) s'"
    unfolding reads_def using cx tb ac by (intro exI [of _ ch'] exI [of _ fs']) (auto simp: put_def)
qed

lemma owned_find:
  assumes O: "owned s ch c s1 ch1 fs1" and n: "length n \<le> env_name_size"
  obtains q where "FindHashEntry n c s1 = Some q" and "q = 0 \<longleftrightarrow> tab s ch c n = None"
    and "q \<noteq> 0 \<longrightarrow> tab s ch c n = Some (pvalue (pt_table s1) (envval (ent s1 q)))"
proof -
  let ?q = "env_find s1 n (ch1 (bucket_of_name s1 c n))"
  note F = found_entry [OF ownedD(1,2) [OF O] n refl]
  have t: "tab s1 ch1 c n = tab s ch c n" by (rule ownedD(4) [OF O])
  have a: "?q = 0 \<longleftrightarrow> tab s ch c n = None" using F(3,4) t by (cases "?q = 0") simp_all
  show ?thesis
  proof (rule that [OF F(1) a])
    show "?q \<noteq> 0 \<longrightarrow> tab s ch c n = Some (pvalue (pt_table s1) (envval (ent s1 ?q)))" using F(4) t by metis
  qed
qed

text \<open>Every slot of the port table has references.\<close>

definition table_full :: "'k env_state \<Rightarrow> bool" where
  "table_full s \<longleftrightarrow> (\<forall>i<MAXPORTENT. refcnt (pt_table s i) \<noteq> 0)"

lemma add_scan_none: "add_scan t p emp is = (b, None) \<Longrightarrow> emp = None \<and> (\<forall>i\<in>set is. refcnt (t i) \<noteq> 0)"
  by (induction "is" arbitrary: emp) (auto split: if_splits)

lemma add_port_full:
  assumes "add_port p s = (None, s')"
  shows "s' = s" and "table_full s"
proof -
  obtain b q where a: "add_scan (pt_table s) p None [0..<MAXPORTENT] = (b, q)" by fastforce
  have q: "q = None \<and> s' = s" using assms a by (cases b; cases q) (auto simp: add_port_def)
  then show "s' = s" by simp
  show "table_full s" using add_scan_none [of "pt_table s" p None "[0..<MAXPORTENT]" b] a q by (simp add: table_full_def)
qed

definition refines :: "env_write \<Rightarrow> 'k env_state \<Rightarrow> (bucket \<Rightarrow> ptr list) \<Rightarrow> nat \<Rightarrow> (env_ret \<times> 'k env_state) option \<Rightarrow> bool" where
  "refines w s ch c o' \<longleftrightarrow> (\<exists>r s' M. o' = Some (r, s') \<and> reads s ch c M s'
     \<and> ((\<exists>n q. w = Set_port n q) \<and> r = ENV_PORT_TABLE_FULL \<and> M = tab s ch c \<and> table_full s' \<or> (r, M) = spec_write w (tab s ch c)))"

lemma refinesI: "reads s ch c M s' \<Longrightarrow> spec_write w (tab s ch c) = (r, M) \<Longrightarrow> refines w s ch c (Some (r, s'))"
  unfolding refines_def by (rule exI [of _ r], rule exI [of _ s'], rule exI [of _ M]) simp

lemma refines_full: "reads s ch c (tab s ch c) s' \<Longrightarrow> table_full s' \<Longrightarrow> refines (Set_port n q) s ch c (Some (ENV_PORT_TABLE_FULL, s'))"
  unfolding refines_def by blast

lemma set_string_call:
  assumes e: "em_ok e" and p: "PortToContext sp s = Some (c, False)" and n: "length m \<le> env_name_size"
    and o: "own_table e c s = Some s1" and O: "owned s ch c s1 ch1 fs1"
  shows "refines (Set_string m v) s ch c (env_set_string e sp m v s)"
proof -
  note W = own_then_write [OF O]
  obtain q where q: "FindHashEntry m c s1 = Some q" "q = 0 \<longleftrightarrow> tab s ch c m = None"
    "q \<noteq> 0 \<longrightarrow> tab s ch c m = Some (pvalue (pt_table s1) (envval (ent s1 q)))" by (rule owned_find [OF O n])
  note X = write_string [OF e ownedD(1-3) [OF O] n q(1), of v]
  show ?thesis
  proof (cases "q \<noteq> 0 \<and> vartype (envval (ent s1 q)) \<noteq> Envstr")
    case True
    then have "env_set_string e sp m v s = Some (ENV_WRONG_VAR_TYPE, s1)" using p o q(1) by (simp add: env_set_string_def)
    moreover have "spec_write (Set_string m v) (tab s ch c) = (ENV_WRONG_VAR_TYPE, tab s ch c)"
      using q(3) True by (cases "envval (ent s1 q)") auto
    ultimately show ?thesis using refinesI [OF W(1)] by simp
  next
    case False
    let ?s = "if q \<noteq> 0 then upd_ent q (\<lambda>x. x\<lparr>envval := Str v\<rparr>) s1 else new_entry e m c (Str v) s1"
    have "env_set_string e sp m v s = Some (ENV_SUCCESS, ?s)" using p o q(1) False by (auto simp: env_set_string_def)
    moreover have "writes s1 ch1 c m (Some (VStr v)) ?s" using X False by auto
    moreover have "spec_write (Set_string m v) (tab s ch c) = (ENV_SUCCESS, put m (Some (VStr v)) (tab s ch c))"
      using q(2,3) False by (cases "q = 0"; cases "envval (ent s1 q)") auto
    ultimately show ?thesis using refinesI [OF W(2)] by metis
  qed
qed

lemma set_port_new:
  assumes e: "em_ok e" and n: "length m \<le> env_name_size" and O: "owned s ch c s1 ch1 fs1" and v: "v \<noteq> PORT_NULL" and z: "tab s ch c m = None"
  shows "refines (Set_port m v) s ch c (case add_port v s1 of (None, s2) \<Rightarrow> Some (ENV_PORT_TABLE_FULL, s2)
     | (Some j, s2) \<Rightarrow> Some (ENV_SUCCESS, new_entry e m c (Pi j) s2))"
proof -
  note W = own_then_write [OF O]
  obtain a s2 where a: "add_port v s1 = (a, s2)" by fastforce
  show ?thesis
  proof (cases a)
    case None
    then show ?thesis using a add_port_full [of v s1 s2] refines_full [OF W(1)] by simp
  next
    case (Some j)
    have "tab s1 ch1 c m = None" using ownedD(4) [OF O] z by simp
    then have "writes s1 ch1 c m (Some (VPort v)) (new_entry e m c (Pi j) s2)"
      using write_port_new [OF e ownedD(1-3) [OF O] n] a Some by simp
    moreover have "spec_write (Set_port m v) (tab s ch c) = (ENV_SUCCESS, put m (Some (VPort v)) (tab s ch c))" using z v by simp
    ultimately show ?thesis using a Some refinesI [OF W(2)] by simp
  qed
qed

lemma set_port_old:
  assumes n: "length m \<le> env_name_size" and O: "owned s ch c s1 ch1 fs1" and v: "v \<noteq> PORT_NULL"
    and q: "FindHashEntry m c s1 = Some q" "q \<noteq> 0" "envval (ent s1 q) = Pi i" "tab s ch c m = Some (VPort (pt (pt_table s1 i)))"
  shows "refines (Set_port m v) s ch c (if pt (pt_table s1 i) = v then Some (ENV_SUCCESS, s1)
     else case add_port v s1 of (None, s2) \<Rightarrow> Some (ENV_PORT_TABLE_FULL, s2)
     | (Some j, s2) \<Rightarrow> Some (ENV_SUCCESS, upd_ent q (\<lambda>x. x\<lparr>envval := Pi j\<rparr>) (del_port e i s2)))"
proof -
  note W = own_then_write [OF O]
  have sp: "spec_write (Set_port m v) (tab s ch c) = (ENV_SUCCESS, put m (Some (VPort v)) (tab s ch c))" using q(4) v by simp
  obtain a s2 where a: "add_port v s1 = (a, s2)" by fastforce
  show ?thesis
  proof (cases "pt (pt_table s1 i) = v")
    case True
    have "put m (Some (VPort v)) (tab s ch c) = tab s ch c" using q(4) True tab_same [of m _ s ch c] by (auto simp: put_def fun_eq_iff)
    then show ?thesis using True sp refinesI [OF W(1)] by simp
  next
    case False
    show ?thesis
    proof (cases a)
      case None
      then show ?thesis using a False add_port_full [of v s1 s2] refines_full [OF W(1)] by simp
    next
      case (Some j)
      then have "writes s1 ch1 c m (Some (VPort v)) (upd_ent q (\<lambda>x. x\<lparr>envval := Pi j\<rparr>) (del_port e i s2))"
        using write_port_value [OF ownedD(1-3) [OF O] n q(1-3)] a by simp
      then show ?thesis using a Some False sp refinesI [OF W(2)] by simp
    qed
  qed
qed

lemma set_port_call:
  assumes e: "em_ok e" and I: "env_inv s ch fs" and p: "PortToContext sp s = Some (c, False)" and n: "length m \<le> env_name_size"
    and o: "own_table e c s = Some s1" and O: "owned s ch c s1 ch1 fs1"
  shows "refines (Set_port m v) s ch c (env_set_port e sp m v s)"
proof (cases "v = 0")
  case True
  have "reads s ch c (tab s ch c) s" unfolding reads_def using I
    by (intro exI [of _ ch] exI [of _ fs] conjI exI [of _ "ch_head (contexts s c)"]) (auto simp: fun_eq_iff)
  then show ?thesis using True refinesI [of s ch c "tab s ch c" s "Set_port m v" ENV_PORT_NULL] by (simp add: env_set_port_def)
next
  case v0: False
  obtain q where q: "FindHashEntry m c s1 = Some q" "q = 0 \<longleftrightarrow> tab s ch c m = None"
    "q \<noteq> 0 \<longrightarrow> tab s ch c m = Some (pvalue (pt_table s1) (envval (ent s1 q)))" by (rule owned_find [OF O n])
  show ?thesis
  proof (cases "q = 0")
    case True
    then show ?thesis using set_port_new [OF e n O v0] q p o v0 by (simp add: env_set_port_def)
  next
    case q0: False
    show ?thesis
    proof (cases "envval (ent s1 q)")
      case (Str x)
      have "spec_write (Set_port m v) (tab s ch c) = (ENV_WRONG_VAR_TYPE, tab s ch c)" using q(3) q0 v0 Str by simp
      then show ?thesis using refinesI [OF own_then_write(1) [OF O]] p o q(1) q0 v0 Str by (simp add: env_set_port_def)
    next
      case (Pi i)
      then show ?thesis using set_port_old [OF n O v0 q(1) q0 Pi, of e] q(3) p o q0 v0 q(1) by (simp add: env_set_port_def)
    qed
  qed
qed

lemma delete_call:
  assumes n: "length m \<le> env_name_size" and O: "owned s ch c s1 ch1 fs1"
    and w: "\<And>M. spec_write w M = (case M m of None \<Rightarrow> (ENV_VAR_NOT_FOUND, M)
       | Some (VStr x) \<Rightarrow> if vt = Envstr then (ENV_SUCCESS, put m None M) else (ENV_WRONG_VAR_TYPE, M)
       | Some (VPort x) \<Rightarrow> if vt = Envport then (ENV_SUCCESS, put m None M) else (ENV_WRONG_VAR_TYPE, M))"
  shows "refines w s ch c (DeleteHashEntry e m c vt s1)"
proof -
  note W = own_then_write [OF O]
  obtain r s' where d: "DeleteHashEntry e m c vt s1 = Some (r, s')" and
    X: "case tab s ch c m of None \<Rightarrow> r = ENV_VAR_NOT_FOUND \<and> s' = s1
     | Some (VStr x) \<Rightarrow> if vt = Envstr then r = ENV_SUCCESS \<and> writes s1 ch1 c m None s' else r = ENV_WRONG_VAR_TYPE \<and> s' = s1
     | Some (VPort x) \<Rightarrow> if vt = Envport then r = ENV_SUCCESS \<and> writes s1 ch1 c m None s' else r = ENV_WRONG_VAR_TYPE \<and> s' = s1"
    using write_delete [OF ownedD(1-3) [OF O] n, of e vt] unfolding ownedD(4) [OF O] by blast
  have "reads s ch c (snd (spec_write w (tab s ch c))) s' \<and> fst (spec_write w (tab s ch c)) = r"
    using X W(1) W(2) [of m None s'] unfolding w by (simp split: option.splits env_value.splits if_splits)
  then show ?thesis unfolding d using refinesI [of s ch c "snd (spec_write w (tab s ch c))" s' w r] by (metis prod.collapse)
qed

lemma write_call:
  assumes e: "em_ok e" and I: "env_inv s ch fs" and p: "PortToContext sp s = Some (c, False)" and n: "length (wname w) \<le> env_name_size"
  shows "refines w s ch c (env_call e sp w s)"
proof -
  from owned_table [OF e I p] obtain s1 ch1 fs1 where o: "own_table e c s = Some s1" "owned s ch c s1 ch1 fs1" by blast
  show ?thesis
  proof (cases w)
    case (Set_string m v)
    then show ?thesis using n set_string_call [OF e p _ o] by (simp add: env_call_def)
  next
    case (Set_port m v)
    then show ?thesis using n set_port_call [OF e I p _ o] by (simp add: env_call_def)
  next
    case (Del_string m)
    have "refines w s ch c (DeleteHashEntry e m c Envstr s1)"
      using n by (intro delete_call [OF _ o(2)]) (auto simp: Del_string split: option.splits env_value.splits)
    then show ?thesis using p o(1) by (simp add: Del_string env_call_def env_del_string_def env_del_def)
  next
    case (Del_port m)
    have "refines w s ch c (DeleteHashEntry e m c Envport s1)"
      using n by (intro delete_call [OF _ o(2)]) (auto simp: Del_port split: option.splits env_value.splits)
    then show ?thesis using p o(1) by (simp add: Del_port env_call_def env_del_port_def env_del_def)
  qed
qed

end
