(* ===== verification/Env_Conns.thy ===== *)
theory Env_Conns
  imports Env_Props
begin

text \<open>
  Connections: what copying, creating and destroying a context does to the other contexts, and
  that every call of the server keeps the invariant.
\<close>

section \<open>Contexts come and go\<close>

lemma free_context_Some: "free_context s = Some i \<Longrightarrow> i < MAXCONN \<and> \<not> inuse (contexts s i)"
  by (auto simp: free_context_def find_Some_iff)

lemma not_active_users: "\<not> active s i \<Longrightarrow> i \<notin> users s h"
  by (auto simp: active_def users_def)

lemma ports_only:
  assumes I: "env_inv s ch fs" and c: "same_cells s s'" and p: "pt_table s' = pt_table s"
  shows "env_inv s' ch fs"
proof -
  have "table_ok (buckets s) s' ch fs"
    using env_invD(1) [OF I] c p by (simp add: table_ok_def links_ok_def names_ok_def ports_ok_def prefs_def same_cells_def)
  then show ?thesis using I c by (intro inv_cong [OF I]) (simp_all add: same_cells_def)
qed

lemma new_port_frame: "new_port e s = (p, s') \<Longrightarrow> same_cells s s' \<and> pt_table s' = pt_table s"
  by (auto simp: new_port_def same_cells_def split: prod.splits option.splits)

lemma tab_eq:
  assumes e: "ent s' = ent s" "pt_table s' = pt_table s" and c: "ch_head (contexts s' i) = ch_head (contexts s j)"
    and b: "\<And>k. ch' (ch_head (contexts s j), k) = ch (ch_head (contexts s j), k)"
  shows "tab s' ch' i n = tab s ch j n"
proof -
  have "item s' = item s" by (rule ext) (simp add: item_def e)
  then show ?thesis using c b by (simp add: tab_def contents_def bucket_of_name_def)
qed

lemma tab_frame: "same_cells s s' \<Longrightarrow> pt_table s' = pt_table s \<Longrightarrow> tab s' ch i n = tab s ch i n"
  by (rule tab_eq) (simp_all add: same_cells_def)

text \<open>A context that was free begins to share a table.\<close>

lemma share_table:
  assumes I: "env_inv s ch fs" and c: "active s c" and f: "i < MAXCONN" "\<not> inuse (contexts s i)"
    and s': "s' = set_context i \<lparr>ch_head = ch_head (contexts s c), rwport = p, roport = q, inuse = True\<rparr> (upd_hrefcnt (ch_head (contexts s c)) 1 s)"
  shows "env_inv s' ch fs" and "tab s' ch i n = tab s ch c n" and "active s j \<Longrightarrow> tab s' ch j n = tab s ch j n"
proof -
  let ?h = "ch_head (contexts s c)"
  have h: "?h \<in> live s" using active_live [OF c] by simp
  have ci: "c \<noteq> i" using c f by (auto simp: active_def)
  have us: "users s' x = (if x = ?h then insert i (users s ?h) else users s x)" for x
    using f by (auto simp: s' users_def set_context_def upd_hrefcnt_def)
  then have lv: "live s' = live s" using h by (auto simp: live_def)
  have ni: "i \<notin> users s ?h" using f by (simp add: users_def)
  have hr: "hrefcnt s' = (hrefcnt s)(?h := map_option (\<lambda>n. n + 1) (hrefcnt s ?h))" by (simp add: s' set_context_def upd_hrefcnt_def)
  have R: "\<And>x. x \<in> live s \<Longrightarrow> hrefcnt s x = Some (int (card (users s x)))" by (rule env_invD(2) [OF I])
  have "hrefcnt s' x = Some (int (card (users s' x)))" if "x \<in> live s'" for x
    using R [of x] R [OF h] that ni unfolding lv us hr by auto
  moreover have "table_ok (buckets s') s' ch fs"
  proof -
    have "finite (dom (hrefcnt s'))"
      using table_okD(1) [OF env_invD(1) [OF I]] unfolding hr links_ok_def by simp
    then have "table_ok (buckets s) s' ch fs"
      by (intro table_grow [OF env_invD(1) [OF I]]) (simp_all add: s' set_context_def upd_hrefcnt_def)
    then show ?thesis by (simp add: buckets_def lv)
  qed
  ultimately show "env_inv s' ch fs" by (simp add: env_inv_def)
  show "tab s' ch i n = tab s ch c n"
    by (rule tab_eq) (simp_all add: s' set_context_def upd_hrefcnt_def)
  show "tab s' ch j n = tab s ch j n" if "active s j"
    by (rule tab_eq) (use that f in \<open>auto simp: s' set_context_def upd_hrefcnt_def active_def\<close>)
qed

text \<open>A context that was free gets an empty table.\<close>

lemma table_new:
  assumes T: "table_ok D s ch fs" and h: "h \<notin> fst ` D" and z: "\<And>j. hhead s' h j = 0" "\<And>h'. h' \<noteq> h \<Longrightarrow> hhead s' h' = hhead s h'"
    and eq: "enext s' = enext s" "ent s' = ent s" "HashEntryPool s' = HashEntryPool s" "heap s' = heap s" "pt_table s' = pt_table s"
      "finite (dom (hrefcnt s'))"
  shows "table_ok (D \<union> {h} \<times> J) s' (\<lambda>d. if fst d = h then [] else ch d) fs"
proof -
  let ?ch = "\<lambda>d. if fst d = h then [] else ch d"
  have k: "?ch d = ch d" "hhead s' (fst d) = hhead s (fst d)" if "d \<in> D" for d using that h z(2) by force+
  have c: "cells (D \<union> {h} \<times> J) ?ch = cells D ch" using k(1) by (auto simp: cells_def split: if_splits)
  have "links_ok (D \<union> {h} \<times> J) s' ?ch fs"
  proof -
    have "chain (enext s') (hhead s' (fst d) (snd d)) (?ch d)" if "d \<in> D \<union> {h} \<times> J" for d
    proof (cases "d \<in> D")
      case True
      then have "chain (enext s) (hhead s (fst d) (snd d)) (ch d)" using table_okD(1) [OF T] by (simp add: links_ok_def)
      then show ?thesis by (simp only: k [OF True] eq(1))
    next
      case False
      then show ?thesis using that z(1) by auto
    qed
    moreover have "set (?ch d) \<inter> set (?ch d') = {}" if "d \<in> D \<union> {h} \<times> J" "d' \<in> D \<union> {h} \<times> J" "d \<noteq> d'" for d d'
    proof (cases "d \<in> D \<and> d' \<in> D")
      case True
      then have "set (ch d) \<inter> set (ch d') = {}" using table_okD(1) [OF T] that(3) by (simp add: links_ok_def)
      then show ?thesis using True k(1) [of d] k(1) [of d'] by simp
    next
      case False
      then show ?thesis using that by auto
    qed
    moreover have "chain (enext s') (HashEntryPool s') fs \<and> set fs \<inter> cells D ch = {} \<and> set fs \<subseteq> heap s' \<and> cells D ch \<subseteq> heap s' \<and> finite (heap s')"
      using table_okD(1) [OF T] by (simp add: links_ok_def eq)
    ultimately show ?thesis unfolding links_ok_def c using eq(6) by (intro conjI ballI impI) simp_all
  qed
  moreover have "names_ok (D \<union> {h} \<times> J) s' ?ch"
  proof -
    have "d \<in> D \<and> x \<in> set (ch d)" if "d \<in> D \<union> {h} \<times> J" "x \<in> set (?ch d)" for d x using that by (auto split: if_splits)
    then show ?thesis using table_okD(2) [OF T] unfolding names_ok_def eq by blast
  qed
  moreover have "ports_ok (D \<union> {h} \<times> J) s' ?ch" using table_okD(3) [OF T] unfolding ports_ok_def prefs_def c eq .
  ultimately show ?thesis by (simp add: table_ok_def)
qed

lemma new_table:
  assumes e: "em_ok e" and I: "env_inv s ch fs" and f: "i < MAXCONN" "\<not> inuse (contexts s i)"
    and t: "empty_table e s = (h, s1)" and s': "s' = set_context i \<lparr>ch_head = h, rwport = p, roport = q, inuse = True\<rparr> s1"
  shows "\<exists>ch'. env_inv s' ch' fs \<and> (\<forall>m. tab s' ch' i m = None) \<and> (\<forall>j m. active s j \<longrightarrow> tab s' ch' j m = tab s ch j m)"
proof -
  note T = env_invD(1) [OF I]
  have fin: "finite (heap s)" "finite (dom (hrefcnt s))" using table_okD(1) [OF T] by (auto simp: links_ok_def)
  have R: "\<And>x. x \<in> live s \<Longrightarrow> hrefcnt s x = Some (int (card (users s x)))" by (rule env_invD(2) [OF I])
  have h: "h = e_malloc e s" and s1: "s1 = s\<lparr>hrefcnt := (hrefcnt s)(h \<mapsto> 1), hhead := (hhead s)(h := (\<lambda>i. 0))\<rparr>"
    using t by (auto simp: empty_table_def Let_def)
  have "h \<notin> dom (hrefcnt s)" using malloc_fresh(2) [OF e fin] h by simp
  then have hl: "h \<notin> live s" using R by auto
  have us: "users s' x = (if x = h then {i} else users s x)" for x
    using f hl unfolding live_def by (auto simp: s' s1 users_def set_context_def split: if_splits)
  have lv: "live s' = insert h (live s)" using hl by (auto simp: live_def us)
  have bs: "buckets s' = buckets s \<union> {h} \<times> {..<HASHTABLESIZE}" by (auto simp: buckets_def lv)
  let ?ch = "\<lambda>d. if fst d = h then [] else ch d"
  have "hrefcnt s' x = Some (int (card (users s' x)))" if "x \<in> live s'" for x
    using R [of x] that hl unfolding lv us by (auto simp: s' s1 set_context_def)
  moreover have "table_ok (buckets s') s' ?ch fs" unfolding bs
    by (rule table_new [OF T]) (use hl fin in \<open>auto simp: buckets_def s' s1 set_context_def\<close>)
  ultimately have "env_inv s' ?ch fs" by (simp add: env_inv_def)
  moreover have "tab s' ?ch i m = None" for m by (simp add: tab_def contents_def bucket_of_name_def s' set_context_def)
  moreover have "tab s' ?ch j m = tab s ch j m" if "active s j" for j m
  proof -
    have "ch_head (contexts s j) \<noteq> h" using active_live [OF that] hl by auto
    moreover have "j \<noteq> i" using that f by (auto simp: active_def)
    ultimately show ?thesis by (intro tab_eq) (simp_all add: s' s1 set_context_def)
  qed
  ultimately show ?thesis by blast
qed

section \<open>Values whose port has died\<close>

text \<open>
  One map of a context fades into another: every variable keeps its value, except that a
  variable whose value is one of the ports \<open>P\<close> may have lost the port or may be gone.
\<close>

definition fades :: "port set \<Rightarrow> env_map \<Rightarrow> env_map \<Rightarrow> bool" where
  "fades P M M' \<longleftrightarrow> (\<forall>n. M' n = M n \<or> (\<exists>p\<in>P. M n = Some (VPort p) \<and> (M' n = Some (VPort PORT_NULL) \<or> M' n = None)))"

lemma fades_refl [simp]: "fades P M M"
  by (simp add: fades_def)

lemma fades_trans: "fades P M M' \<Longrightarrow> fades Q M' M'' \<Longrightarrow> fades (P \<union> Q) M M''"
  unfolding fades_def by (metis UnCI env_value.inject(2) option.distinct(1) option.inject)

lemma fades_mono: "fades P M M' \<Longrightarrow> P \<subseteq> Q \<Longrightarrow> fades Q M M'"
  unfolding fades_def by blast

lemma fades_string: "fades P M M' \<Longrightarrow> M' n = Some (VStr v) \<longleftrightarrow> M n = Some (VStr v)"
  unfolding fades_def by (metis env_value.distinct(1) option.distinct(1) option.inject)

lemma look_in_values:
  assumes "\<And>x. x \<in> set xs \<Longrightarrow> fst (g x) = fst (f x) \<and> (snd (g x) = snd (f x) \<or> R (snd (f x)) (snd (g x)))"
  shows "look_in (map g xs) n = look_in (map f xs) n \<or> (\<exists>u v. R u v \<and> look_in (map f xs) n = Some u \<and> look_in (map g xs) n = Some v)"
  using assms
proof (induction xs)
  case (Cons x xs)
  have x: "fst (g x) = fst (f x)" "snd (g x) = snd (f x) \<or> R (snd (f x)) (snd (g x))" using Cons.prems [of x] by auto
  have IH: "look_in (map g xs) n = look_in (map f xs) n \<or> (\<exists>u v. R u v \<and> look_in (map f xs) n = Some u \<and> look_in (map g xs) n = Some v)"
    using Cons by simp
  have "look_in (map h (x # xs)) n = (if same_name n (fst (h x)) then Some (snd (h x)) else look_in (map h xs) n)" for h :: "'a \<Rightarrow> string \<times> env_value"
    by (cases "h x") simp
  then show ?case using x IH by (cases "same_name n (fst (f x))") auto
qed simp

lemma remove_dead:
  assumes I: "env_inv s ch fs" and r: "remove_dead_port p s = (b, s')"
  shows "env_inv s' ch fs" and "same_cells s s'" and "fades {p} (tab s ch i) (tab s' ch i)"
proof -
  have s': "s' = s \<or> (\<exists>j. pt (pt_table s j) = p \<and> s' = set_pt j PORT_NULL s)"
    using r by (auto simp: remove_dead_port_def find_Some_iff split: option.splits)
  then show sc: "same_cells s s'" by (auto simp: same_cells_def set_pt_def)
  have e: "ent s' = ent s" "contexts s' = contexts s" "hrefcnt s' = hrefcnt s" using sc by (simp_all add: same_cells_def)
  have rc: "refcnt (pt_table s' k) = refcnt (pt_table s k)" for k using s' by (auto simp: set_pt_def)
  have "table_ok (buckets s) s' ch fs"
    using table_okD(3) [OF env_invD(1) [OF I]] by (intro table_ports [OF env_invD(1) [OF I] sc]) (simp add: rc ports_ok_def)
  then show "env_inv s' ch fs" by (rule inv_cong [OF I _ e(2,3)])
  let ?R = "\<lambda>u v. u = VPort p \<and> v = VPort PORT_NULL"
  have it: "fst (item s' x) = fst (item s x) \<and> (snd (item s' x) = snd (item s x) \<or> ?R (snd (item s x)) (snd (item s' x)))" for x
    using s' by (cases "envval (ent s x)") (auto simp: item_def e set_pt_def split: if_splits)
  show "fades {p} (tab s ch i) (tab s' ch i)" unfolding fades_def
  proof
    fix n
    let ?xs = "ch (bucket_of_name s i n)"
    have b: "bucket_of_name s' i n = bucket_of_name s i n" by (simp add: bucket_of_name_def e)
    show "tab s' ch i n = tab s ch i n \<or> (\<exists>q\<in>{p}. tab s ch i n = Some (VPort q) \<and> (tab s' ch i n = Some (VPort PORT_NULL) \<or> tab s' ch i n = None))"
      using look_in_values [of ?xs "item s'" "item s" ?R n, OF it] unfolding tab_def contents_def b by auto
  qed
qed

section \<open>Leaving a table\<close>

lemma table_sub:
  assumes T: "table_ok D s ch fs" and d: "D' \<subseteq> D"
  shows "table_ok D' s ch fs"
proof -
  note L = table_okD(1) [OF T]
  have c: "cells D' ch \<subseteq> cells D ch" using d by (auto simp: cells_def)
  have "links_ok D' s ch fs" using L c d unfolding links_ok_def by (intro conjI) (auto; blast)+
  moreover have "names_ok D' s ch" using table_okD(2) [OF T] d unfolding names_ok_def by blast
  moreover have "ports_ok D' s ch"
  proof -
    have "int (card (prefs D' ch s i)) \<le> refcnt (pt_table s i)" if "i < MAXPORTENT" for i
    proof -
      have "prefs D' ch s i \<subseteq> prefs D ch s i" using c by (auto simp: prefs_def)
      then have "card (prefs D' ch s i) \<le> card (prefs D ch s i)" by (intro card_mono finite_prefs [OF L])
      then show ?thesis using table_okD(3) [OF T] that by (fastforce simp: ports_ok_def)
    qed
    then show ?thesis using table_okD(3) [OF T] c unfolding ports_ok_def by blast
  qed
  ultimately show ?thesis by (simp add: table_ok_def)
qed

text \<open>The tables of the other contexts are as before, but for values that are ports in \<open>P\<close>.\<close>

definition leaves :: "port set \<Rightarrow> nat \<Rightarrow> (bucket \<Rightarrow> ptr list) \<Rightarrow> ptr list \<Rightarrow> 'k env_state \<Rightarrow> 'k env_state \<Rightarrow> bool" where
  "leaves P c ch fs s s' \<longleftrightarrow> env_inv s' ch fs \<and> \<not> inuse (contexts s' c)
     \<and> (\<forall>j. j \<noteq> c \<longrightarrow> contexts s' j = contexts s j \<and> (active s j \<longrightarrow> fades P (tab s ch j) (tab s' ch j)))"

lemma leaves_trans:
  assumes "leaves P c ch fs s s'" and "leaves Q c ch fs s' s''"
  shows "leaves (P \<union> Q) c ch fs s s''"
proof -
  have "fades (P \<union> Q) (tab s ch j) (tab s'' ch j)" if "j \<noteq> c" "active s j" for j
  proof -
    have "active s' j" using assms(1) that by (simp add: leaves_def active_def)
    then show ?thesis using assms that unfolding leaves_def by (intro fades_trans [of P _ "tab s' ch j"]) auto
  qed
  then show ?thesis using assms by (simp add: leaves_def)
qed

lemma leave_table:
  assumes I: "env_inv s ch fs" and c: "active s c" and h: "h = ch_head (contexts s c)"
    and cx: "contexts s' = (contexts s)(c := x)" "\<not> inuse x"
    and hr: "hrefcnt s' = (hrefcnt s)(h := (if card (users s h) = 1 then None else Some (int (card (users s h)) - 1)))"
    and eq: "ent s' = ent s" "enext s' = enext s" "hhead s' = hhead s" "HashEntryPool s' = HashEntryPool s" "pt_table s' = pt_table s" "heap s' = heap s"
  shows "leaves {} c ch fs s s'"
proof -
  note T = env_invD(1) [OF I]
  have R: "\<And>x. x \<in> live s \<Longrightarrow> hrefcnt s x = Some (int (card (users s x)))" by (rule env_invD(2) [OF I])
  have cu: "c \<in> users s h" using active_live [OF c] h by simp
  have us: "users s' x = users s x - {c}" for x using cx by (auto simp: users_def)
  have nc: "users s y - {c} = users s y" if "y \<noteq> h" for y using that h by (auto simp: users_def)
  have lv: "live s' \<subseteq> live s" by (auto simp: live_def us)
  have "hrefcnt s' y = Some (int (card (users s' y)))" if y: "y \<in> live s'" for y
  proof (cases "y = h")
    case True
    have "card (users s h) = Suc (card (users s h - {c}))" using card_Suc_Diff1 [OF finite_users cu] by simp
    moreover have "card (users s h - {c}) \<noteq> 0" using y True by (simp add: live_def us)
    ultimately show ?thesis using True by (simp add: hr us)
  next
    case False
    then show ?thesis using R [of y] y lv nc [OF False] by (auto simp: hr us)
  qed
  moreover have "table_ok (buckets s') s' ch fs"
  proof (rule table_sub)
    have "finite (dom (hrefcnt s'))" using table_okD(1) [OF T] by (simp add: hr links_ok_def)
    then show "table_ok (buckets s) s' ch fs" by (rule table_grow [OF T eq])
    show "buckets s' \<subseteq> buckets s" using lv by (auto simp: buckets_def)
  qed
  moreover have "tab s' ch j = tab s ch j" if "j \<noteq> c" for j by (rule ext, rule tab_eq) (use that cx eq in auto)
  ultimately show ?thesis using cx by (simp add: leaves_def env_inv_def)
qed

text \<open>The fields of a context that is not in use, and the ports of a connection, go.\<close>

lemma leaves_set:
  assumes I: "env_inv s ch fs" and c: "\<not> inuse (contexts s c)" "\<not> inuse x"
  shows "leaves {} c ch fs s (set_context c x s)"
proof -
  let ?s = "set_context c x s"
  have us: "users ?s h = users s h" for h using c by (auto simp: users_def set_context_def)
  then have lv: "live ?s = live s" by (simp add: live_def)
  have b: "buckets ?s = buckets s" by (simp add: buckets_def lv)
  have "finite (dom (hrefcnt s))" using table_okD(1) [OF env_invD(1) [OF I]] by (simp add: links_ok_def)
  then have "table_ok (buckets ?s) ?s ch fs" unfolding b by (intro table_grow [OF env_invD(1) [OF I]]) (simp_all add: set_context_def)
  then have "env_inv ?s ch fs" using env_invD(2) [OF I] us lv by (simp add: env_inv_def set_context_def)
  moreover have "tab ?s ch j = tab s ch j" if "j \<noteq> c" for j by (rule ext, rule tab_eq) (use that in \<open>auto simp: set_context_def\<close>)
  ultimately show ?thesis using c by (simp add: leaves_def set_context_def)
qed

lemma leaves_drop:
  assumes I: "env_inv s ch fs" and c: "\<not> inuse (contexts s c)"
  shows "leaves {p} c ch fs s (drop_port e p s)" and "contexts (drop_port e p s) = contexts s"
proof -
  let ?s = "s\<lparr>krn := snd (port_deallocate e p (krn s))\<rparr>"
  obtain b s' where r: "remove_dead_port p ?s = (b, s')" by fastforce
  have f: "same_cells s ?s" "pt_table ?s = pt_table s" by (simp_all add: same_cells_def)
  note D = remove_dead [OF ports_only [OF I f] r]
  have s': "drop_port e p s = s'" using r by (simp add: drop_port_def)
  show k: "contexts (drop_port e p s) = contexts s" using same_cells_trans [OF f(1) D(2)] by (simp add: s' same_cells_def)
  have "tab ?s ch j = tab s ch j" for j by (rule ext, rule tab_frame [OF f])
  then show "leaves {p} c ch fs s (drop_port e p s)" using D(1) D(3) c k by (simp add: leaves_def s')
qed

text \<open>
  The loop of \<open>env_disconnect\<close> that is to return the entries of a table does nothing, because its
  condition is \<open>i > HASHTABLESIZE\<close>.
\<close>

lemma dispose_nothing: "dispose_from e h 0 s = Some s"
  by (subst dispose_from.simps) simp

lemma leaves_close:
  assumes K: "leaves P c ch fs s s'" and x: "\<not> inuse x"
  shows "leaves (P \<union> {q}) c ch fs s (set_context c x (drop_port e q s'))"
proof -
  have n: "\<not> inuse (contexts s' c)" and I: "env_inv s' ch fs" using K by (simp_all add: leaves_def)
  note D = leaves_drop [OF I n, where p = q and e = e]
  have "leaves {} c ch fs (drop_port e q s') (set_context c x (drop_port e q s'))"
    using D(1) x by (intro leaves_set) (simp_all add: leaves_def)
  from leaves_trans [OF leaves_trans [OF K D(1)] this] show ?thesis by simp
qed

lemma disconnect_rw:
  assumes I: "env_inv s ch fs" and p: "PortToContext sp s = Some (c, False)"
  shows "\<exists>s'. env_disconnect e sp s = Some (ENV_SUCCESS, s') \<and> leaves {rwport (contexts s c), roport (contexts s c)} c ch fs s s'"
proof -
  have c: "active s c" using port_context [OF p] by simp
  let ?h = "ch_head (contexts s c)"
  let ?n = "card (users s ?h)"
  have r: "hrefcnt s ?h = Some (int ?n)" using env_invD(2) [OF I] active_live [OF c] by simp
  define s1 where "s1 = upd_hrefcnt ?h (- 1) s"
  define s2 where "s2 = (if ?n = 1 then s1\<lparr>hrefcnt := (hrefcnt s1)(?h := None)\<rparr> else s1)"
  define s3 where "s3 = set_context c ((contexts s2 c)\<lparr>inuse := False\<rparr>) s2"
  define s5 where "s5 = set_context c ((contexts s3 c)\<lparr>rwport := PORT_NULL\<rparr>) (drop_port e (rwport (contexts s3 c)) s3)"
  define s6 where "s6 = (if roport (contexts s5 c) \<noteq> PORT_NULL then set_context c ((contexts s5 c)\<lparr>roport := PORT_NULL\<rparr>) (drop_port e (roport (contexts s5 c)) s5) else s5)"
  define s7 where "s7 = set_context c ((contexts s6 c)\<lparr>ch_head := 0\<rparr>) s6"
  have z: "the (hrefcnt s1 ?h) = 0 \<longleftrightarrow> ?n = 1" using r by (auto simp: s1_def upd_hrefcnt_def)
  have cx: "contexts s2 = contexts s" by (simp add: s1_def s2_def upd_hrefcnt_def)
  have K3: "leaves {} c ch fs s s3"
    by (rule leave_table [OF I c refl, where x = "(contexts s c)\<lparr>inuse := False\<rparr>"])
      (use r in \<open>auto simp: s3_def s2_def s1_def set_context_def upd_hrefcnt_def\<close>)
  have n3: "\<not> inuse (contexts s3 c)" by (simp add: s3_def set_context_def)
  have rw: "rwport (contexts s3 c) = rwport (contexts s c)" by (simp add: s3_def set_context_def cx)
  have d: "contexts (drop_port e q t) = contexts t" if "leaves P c ch fs s t" for P q and t :: "'a env_state"
    using leaves_drop(2) that unfolding leaves_def by blast
  have K5: "leaves {rwport (contexts s c)} c ch fs s s5"
    using leaves_close [OF K3, of "(contexts s3 c)\<lparr>rwport := PORT_NULL\<rparr>" "rwport (contexts s c)" e] n3 by (simp add: s5_def rw)
  have n5: "\<not> inuse (contexts s5 c)" using K5 by (simp add: leaves_def)
  have ro: "roport (contexts s5 c) = roport (contexts s c)" by (simp add: s5_def s3_def set_context_def cx)
  have m: "leaves Q c ch fs s t" if "leaves P c ch fs s t" "P \<subseteq> Q" for P Q and t :: "'a env_state"
    using that unfolding leaves_def by (blast intro: fades_mono)
  have K6: "leaves {rwport (contexts s c), roport (contexts s c)} c ch fs s s6"
  proof (cases "roport (contexts s5 c) = PORT_NULL")
    case True
    then show ?thesis using m [OF K5] by (simp add: s6_def)
  next
    case False
    then show ?thesis using leaves_close [OF K5, of "(contexts s5 c)\<lparr>roport := PORT_NULL\<rparr>" "roport (contexts s c)" e] n5 ro
      by (simp add: s6_def insert_commute)
  qed
  have "leaves {} c ch fs s6 s7" unfolding s7_def using K6 by (intro leaves_set) (simp_all add: leaves_def)
  from leaves_trans [OF K6 this] have "leaves {rwport (contexts s c), roport (contexts s c)} c ch fs s s7" by simp
  moreover have "(if the (hrefcnt s1 ?h) = 0 then map_option (\<lambda>s2. s2\<lparr>hrefcnt := (hrefcnt s2)(?h := None)\<rparr>) (dispose_from e ?h 0 s1) else Some s1) = Some s2"
    by (simp add: z dispose_nothing s2_def)
  then have "env_disconnect e sp s = Some (ENV_SUCCESS, s7)"
    by (simp only: env_disconnect_def Let_def p option.case prod.case if_False s1_def [symmetric] s3_def [symmetric] d [OF K3] s5_def [symmetric]
        d [OF K5] s6_def [symmetric] s7_def [symmetric])
  ultimately show ?thesis by blast
qed

end
