(* ===== verification/Env_Lists.thy ===== *)
theory Env_Lists
  imports Env_Conns
begin

text \<open>
  The calls that read: a variable whose port has died is deleted when it is met, from the table
  as it is, and the lists hold every variable of the caller's context.
\<close>

section \<open>Variables of dead ports\<close>

definition dims :: "'k env_state \<Rightarrow> (bucket \<Rightarrow> ptr list) \<Rightarrow> 'k env_state \<Rightarrow> (bucket \<Rightarrow> ptr list) \<Rightarrow> bool" where
  "dims s ch s' ch' \<longleftrightarrow> contexts s' = contexts s \<and> (\<forall>i. active s i \<longrightarrow> fades {PORT_NULL} (tab s ch i) (tab s' ch' i))"

lemma dims_refl [simp]: "dims s ch s ch"
  by (simp add: dims_def)

lemma dims_trans:
  assumes "dims s ch s' ch'" and "dims s' ch' s'' ch''"
  shows "dims s ch s'' ch''"
proof -
  have "fades {PORT_NULL} (tab s ch i) (tab s'' ch'' i)" if "active s i" for i
    using fades_trans [of "{PORT_NULL}" "tab s ch i" "tab s' ch' i" "{PORT_NULL}"] that assms users_cong [of s' s] by (simp add: dims_def)
  then show ?thesis using assms by (simp add: dims_def)
qed

lemma delete_dead:
  assumes I: "env_inv s ch fs" and c: "active s c" and n: "length n \<le> env_name_size" and d: "d = bucket_of_name s c n"
    and y: "y = env_find s n (ch d)" "y \<noteq> 0" "envval (ent s y) = Pi i" "pt (pt_table s i) = PORT_NULL"
  shows "\<exists>s' fs'. DeleteHashEntry e n c Envport s = Some (ENV_SUCCESS, s') \<and> env_inv s' (ch(d := filter (\<lambda>x. x \<noteq> y) (ch d))) fs'
     \<and> dims s ch s' (ch(d := filter (\<lambda>x. x \<noteq> y) (ch d)))"
proof -
  note T = env_invD(1) [OF I] and F = found_entry [OF I c n d]
  have d': "d = (ch_head (contexts s c), Hash (ConvUpper n))" by (simp add: d bucket_of_name_def)
  let ?ch = "ch(d := filter (\<lambda>x. x \<noteq> y) (ch d))"
  have vt: "vartype (envval (ent s y)) = Envport" using y(3) by simp
  from delete_entry(3) [OF T d' F(2) n y(1,2) vt, of e] obtain s' fs' where S:
      "DeleteHashEntry e n c Envport s = Some (ENV_SUCCESS, s')" "table_ok (buckets s) s' ?ch fs'"
      "contents s' ?ch d = filter (\<lambda>x. \<not> same_name n (fst x)) (contents s ch d)"
      "\<And>d'. d' \<in> buckets s \<Longrightarrow> d' \<noteq> d \<Longrightarrow> contents s' ?ch d' = contents s ch d'"
      "contexts s' = contexts s" "hrefcnt s' = hrefcnt s" by blast
  have I': "env_inv s' ?ch fs'" by (rule inv_cong [OF I S(2,5,6)])
  have v: "look_in (contents s ch d) n = Some (VPort PORT_NULL)" using F(4) y by (simp add: tab_def d [symmetric])
  have "tab s' ?ch k m = tab s ch k m \<or> tab s ch k m = Some (VPort PORT_NULL) \<and> tab s' ?ch k m = None" if "active s k" for k m
  proof (cases "bucket_of_name s k m = d")
    case True
    have "look_in (contents s ch d) m = Some (VPort PORT_NULL)" if nm: "same_name n m"
    proof -
      have "bucket_of_name s c m = d" using nm by (simp add: d bucket_of_name_def same_name_def)
      then show ?thesis using tab_same [OF nm, of s ch c] v by (simp add: tab_def d [symmetric])
    qed
    then show ?thesis using look_in_filter [of n "contents s ch d" m] S(3) True by (auto simp: tab_def bucket_of_name_def S(5))
  next
    case False
    then show ?thesis using S(4) [OF active_bucket [OF that] False] by (simp add: tab_def bucket_of_name_def S(5))
  qed
  then have "fades {PORT_NULL} (tab s ch k) (tab s' ?ch k)" if "active s k" for k using that unfolding fades_def by blast
  then show ?thesis using S(1,5) I' by (auto simp: dims_def)
qed

lemma get_port_call:
  assumes I: "env_inv s ch fs" and n: "length n \<le> env_name_size" and p: "PortToContext sp s = Some (c, r)"
  shows "\<exists>s' ch' fs'. env_get_port e sp n s = Some (case tab s ch c n of None \<Rightarrow> (ENV_VAR_NOT_FOUND, Some PORT_NULL, s')
       | Some (VStr v) \<Rightarrow> (ENV_WRONG_VAR_TYPE, Some PORT_NULL, s')
       | Some (VPort q) \<Rightarrow> if q = PORT_NULL then (ENV_VAR_NOT_FOUND, Some PORT_NULL, s') else (ENV_SUCCESS, Some q, s'))
     \<and> env_inv s' ch' fs' \<and> dims s ch s' ch'"
proof -
  have c: "active s c" using port_context [OF p] by simp
  note F = found_entry [OF I c n refl]
  let ?y = "env_find s n (ch (bucket_of_name s c n))"
  show ?thesis
  proof (cases "?y = 0")
    case True
    then show ?thesis using F(1,3) p I by (intro exI [of _ s] exI [of _ ch] exI [of _ fs]) (simp add: env_get_port_def)
  next
    case y: False
    show ?thesis
    proof (cases "envval (ent s ?y)")
      case (Str v)
      then show ?thesis using F(1,4) y p I by (intro exI [of _ s] exI [of _ ch] exI [of _ fs]) (simp add: env_get_port_def)
    next
      case (Pi i)
      show ?thesis
      proof (cases "pt (pt_table s i) = PORT_NULL")
        case True
        obtain s' fs' where "DeleteHashEntry e n c Envport s = Some (ENV_SUCCESS, s')"
            "env_inv s' (ch(bucket_of_name s c n := filter (\<lambda>x. x \<noteq> ?y) (ch (bucket_of_name s c n)))) fs'"
            "dims s ch s' (ch(bucket_of_name s c n := filter (\<lambda>x. x \<noteq> ?y) (ch (bucket_of_name s c n))))"
          using delete_dead [OF I c n refl refl y Pi True] by blast
        then show ?thesis using F(1,4) y p True Pi by (intro exI [of _ s'] exI conjI) (auto simp: env_get_port_def)
      next
        case False
        then show ?thesis using F(1,4) y p I Pi by (intro exI [of _ s] exI [of _ ch] exI [of _ fs]) (simp add: env_get_port_def)
      qed
    qed
  qed
qed

section \<open>Listing ports\<close>

lemma purge_chain:
  assumes "env_inv s ch fs" and "active s c" and "ch d = us @ vs" and "d = (ch_head (contexts s c), j)" and "j < HASHTABLESIZE"
    and "p = (case vs of [] \<Rightarrow> 0 | v # ws \<Rightarrow> v)"
  shows "\<exists>vc' r' s' ch' fs'. purge_from e c p vc r s = Some (vc', r', s') \<and> env_inv s' ch' fs' \<and> dims s ch s' ch'"
  using assms
proof (induction vs arbitrary: us p vc r s ch fs)
  case Nil
  then have "purge_from e c p vc r s = Some (vc, r, s)" by (subst purge_from.simps) simp
  then show ?case using Nil.prems(1) dims_refl by blast
next
  case (Cons v vs)
  note I = Cons.prems(1) and T = env_invD(1) [OF Cons.prems(1)] and c = Cons.prems(2)
  have p: "p = v" using Cons.prems(6) by simp
  have db: "d \<in> buckets s" using active_live [OF c] Cons.prems(4,5) by (simp add: buckets_def)
  have vd: "v \<in> set (ch d)" using Cons.prems(3) by simp
  have v0: "v \<noteq> 0" using cell_nonnull [OF table_okD(1) [OF T]] cellsI [of d "buckets s" v ch, OF db vd] by blast
  have ch: "chain (enext s) (hhead s (fst d) (snd d)) (us @ v # vs)" using table_okD(1) [OF T] db Cons.prems(3) by (auto simp: links_ok_def)
  have nx: "enext s v = (case vs of [] \<Rightarrow> 0 | v # ws \<Rightarrow> v)" using chain_suffix [OF ch] by (cases vs) auto
  have skip: ?case if "purge_from e c p vc r s = purge_from e c (enext s v) vc' r s" for vc'
    using Cons.IH [OF I c _ Cons.prems(4,5) nx, of "us @ [v]" vc' r] Cons.prems(3) that by simp
  show ?case
  proof (cases "envval (ent s v)")
    case (Str x)
    then show ?thesis by (intro skip [of vc]) (subst purge_from.simps, simp add: p v0)
  next
    case (Pi i)
    show ?thesis
    proof (cases "pt (pt_table s i) = PORT_NULL")
      case False
      then show ?thesis using Pi by (intro skip [of "vc + 1"]) (subst purge_from.simps, simp add: p v0)
    next
      case True
      let ?n = "he_name (ent s v)"
      have nm: "Hash (ConvUpper ?n) = snd d" "length ?n \<le> env_name_size" using table_okD(2) [OF T] db vd by (simp_all add: names_ok_def)
      have dn: "d = bucket_of_name s c ?n" using nm(1) Cons.prems(4) by (simp add: bucket_of_name_def)
      have f: "v = env_find s ?n (ch d)" using env_find_unique [OF T db vd same_name_refl] by simp
      have fl: "filter (\<lambda>x. x \<noteq> v) (ch d) = us @ vs" using filter_remove [of us v vs] chain_distinct [OF ch] Cons.prems(3) by simp
      obtain s1 fs1 where s1: "DeleteHashEntry e ?n c Envport s = Some (ENV_SUCCESS, s1)" "env_inv s1 (ch(d := us @ vs)) fs1" "dims s ch s1 (ch(d := us @ vs))"
        using delete_dead [OF I c nm(2) dn f v0 Pi True, of e] unfolding fl by blast
      have cx: "contexts s1 = contexts s" using s1(3) by (simp add: dims_def)
      have c1: "active s1 c" using users_cong [OF cx] c by simp
      have e1: "purge_from e c p vc r s = purge_from e c (enext s v) vc ENV_SUCCESS s1"
        using Pi True s1(1) by (subst purge_from.simps) (simp add: p v0 Let_def)
      have "\<exists>vc' r' s' ch' fs'. purge_from e c (enext s v) vc ENV_SUCCESS s1 = Some (vc', r', s') \<and> env_inv s' ch' fs' \<and> dims s1 (ch(d := us @ vs)) s' ch'"
        by (rule Cons.IH [OF s1(2) c1 _ _ Cons.prems(5) nx]) (simp_all add: Cons.prems(4) cx)
      then show ?thesis unfolding e1 using dims_trans [OF s1(3)] by blast
    qed
  qed
qed

lemma purge_table:
  assumes "env_inv s ch fs" and "active s c" and "set js \<subseteq> {..<HASHTABLESIZE}"
  shows "\<exists>vc' r' s' ch' fs'. purge_buckets e c js vc r s = Some (vc', r', s') \<and> env_inv s' ch' fs' \<and> dims s ch s' ch'"
  using assms
proof (induction js arbitrary: vc r s ch fs)
  case Nil
  then show ?case using dims_refl by auto
next
  case (Cons j js)
  let ?d = "(ch_head (contexts s c), j)"
  have j: "j < HASHTABLESIZE" using Cons.prems(3) by simp
  have "?d \<in> buckets s" using active_live [OF Cons.prems(2)] j by (simp add: buckets_def)
  then have "chain (enext s) (hhead s (ch_head (contexts s c)) j) (ch ?d)" by (rule bucket_chain [OF table_okD(1) [OF env_invD(1) [OF Cons.prems(1)]]])
  then have "hhead s (ch_head (contexts s c)) j = (case ch ?d of [] \<Rightarrow> 0 | v # ws \<Rightarrow> v)" by (cases "ch ?d") auto
  from purge_chain [OF Cons.prems(1,2) _ refl j this, of "[]" e vc r] obtain vc1 r1 s1 ch1 fs1 where s1:
      "purge_from e c (hhead s (ch_head (contexts s c)) j) vc r s = Some (vc1, r1, s1)" "env_inv s1 ch1 fs1" "dims s ch s1 ch1" by auto
  have "active s1 c" using s1(3) Cons.prems(2) users_cong [of s1 s] by (simp add: dims_def)
  from Cons.IH [OF s1(2) this, of vc1 r1] obtain vc' r' s' ch' fs' where
      "purge_buckets e c js vc1 r1 s1 = Some (vc', r', s')" "env_inv s' ch' fs'" "dims s1 ch1 s' ch'" using Cons.prems(3) by auto
  then show ?case using s1 dims_trans [OF s1(3)] by auto
qed

section \<open>The entries of a context\<close>

definition table_cells :: "(bucket \<Rightarrow> ptr list) \<Rightarrow> 'k env_state \<Rightarrow> nat \<Rightarrow> ptr list" where
  "table_cells ch s c = concat (map (\<lambda>j. ch (ch_head (contexts s c), j)) [0..<HASHTABLESIZE])"

lemma walk_chain: "chain nx p xs \<Longrightarrow> walk nx p = Some xs"
proof (induction xs arbitrary: p)
  case (Cons x xs)
  then show ?case by (subst walk.simps) auto
qed (simp add: walk.simps)

lemma entries_cells:
  assumes I: "env_inv s ch fs" and c: "active s c"
  shows "entries_of c s = Some (table_cells ch s c)"
proof -
  let ?h = "ch_head (contexts s c)"
  have w: "walk (enext s) (hhead s ?h j) = Some (ch (?h, j))" if "j < HASHTABLESIZE" for j
    using that active_live [OF c] by (intro walk_chain bucket_chain [OF table_okD(1) [OF env_invD(1) [OF I]]]) (simp add: buckets_def)
  have "walk_buckets js ?h s = Some (concat (map (\<lambda>j. ch (?h, j)) js))" if "set js \<subseteq> {..<HASHTABLESIZE}" for js
    using that by (induction js) (simp_all add: w)
  then show ?thesis by (simp add: entries_of_def table_cells_def atLeast0LessThan)
qed

text \<open>The cells of a table and the values its context reads.\<close>

lemma table_cells_value:
  assumes I: "env_inv s ch fs" and c: "active s c"
  shows "tab s ch c n = Some v \<longleftrightarrow> (\<exists>x\<in>set (table_cells ch s c). same_name n (he_name (ent s x)) \<and> v = pvalue (pt_table s) (envval (ent s x)))"
proof -
  note T = env_invD(1) [OF I]
  let ?d = "bucket_of_name s c n" let ?h = "ch_head (contexts s c)"
  have d: "?d \<in> buckets s" by (rule active_bucket [OF c])
  have "0 \<notin> set (ch ?d)" using cell_nonnull [OF table_okD(1) [OF T]] cellsI [of ?d "buckets s" 0 ch, OF d] by blast
  then have t: "tab s ch c n = (if env_find s n (ch ?d) = 0 then None else Some (pvalue (pt_table s) (envval (ent s (env_find s n (ch ?d))))))"
    unfolding tab_def contents_def by (rule env_find_look)
  have b: "x \<in> set (ch ?d)" if x: "x \<in> set (table_cells ch s c)" "same_name n (he_name (ent s x))" for x
  proof -
    obtain j where j: "j < HASHTABLESIZE" "x \<in> set (ch (?h, j))" using x(1) by (auto simp: table_cells_def)
    then have "(?h, j) \<in> buckets s" using active_live [OF c] by (simp add: buckets_def)
    then have "Hash (ConvUpper (he_name (ent s x))) = j" using table_okD(2) [OF T] j(2) by (fastforce simp: names_ok_def)
    then show ?thesis using x(2) j(2) by (simp add: bucket_of_name_def same_name_def)
  qed
  have sub: "set (ch ?d) \<subseteq> set (table_cells ch s c)" using hash_less [of "ConvUpper n"] by (auto simp: table_cells_def bucket_of_name_def intro!: bexI [of _ "Hash (ConvUpper n)"])
  show ?thesis
  proof
    assume a: "tab s ch c n = Some v"
    then have "env_find s n (ch ?d) \<noteq> 0" "v = pvalue (pt_table s) (envval (ent s (env_find s n (ch ?d))))" using t by (auto split: if_splits)
    then show "\<exists>x\<in>set (table_cells ch s c). same_name n (he_name (ent s x)) \<and> v = pvalue (pt_table s) (envval (ent s x))"
      using env_find_member [of s n "ch ?d"] sub by blast
  next
    assume "\<exists>x\<in>set (table_cells ch s c). same_name n (he_name (ent s x)) \<and> v = pvalue (pt_table s) (envval (ent s x))"
    then obtain x where x: "x \<in> set (table_cells ch s c)" "same_name n (he_name (ent s x))" "v = pvalue (pt_table s) (envval (ent s x))" by blast
    have "env_find s n (ch ?d) = x" by (rule env_find_unique [OF T d b [OF x(1,2)] x(2)])
    moreover have "x \<noteq> 0" using b [OF x(1,2)] \<open>0 \<notin> set (ch ?d)\<close> by metis
    ultimately show "tab s ch c n = Some v" using t x(3) by simp
  qed
qed

text \<open>\<open>env_list_strings\<close> gives every string variable of the context, and as many pairs as it counts.\<close>

definition strings_listed :: "'k env_state \<Rightarrow> ptr \<Rightarrow> (string \<times> string) list" where
  "strings_listed s p = (case envval (ent s p) of Str v \<Rightarrow> [(he_name (ent s p), v)] | Pi i \<Rightarrow> [])"

lemma length_listed: "length (concat (map (strings_listed s) xs)) = length (filter (\<lambda>p. vartype (envval (ent s p)) = Envstr) xs)"
  by (induction xs) (auto simp: strings_listed_def split: env_var_t.splits)

lemma member_listed: "(m, v) \<in> set (concat (map (strings_listed s) xs)) \<longleftrightarrow> (\<exists>x\<in>set xs. he_name (ent s x) = m \<and> envval (ent s x) = Str v)"
  by (induction xs) (auto simp: strings_listed_def split: env_var_t.splits)

lemma pvalue_string: "VStr v = pvalue t w \<longleftrightarrow> w = Str v"
  by (cases w) auto

lemma list_strings_call:
  assumes I: "env_inv s ch fs" and p: "PortToContext sp s = Some (c, r)" and a: "\<And>n k. fst (vm_allocate e n k)"
  shows "\<exists>k xs. env_list_strings e sp s = Some (ENV_SUCCESS, length xs, xs, s\<lparr>krn := k\<rparr>)
     \<and> (\<forall>n v. tab s ch c n = Some (VStr v) \<longleftrightarrow> (\<exists>m. (m, v) \<in> set xs \<and> same_name n m))"
proof -
  have c: "active s c" using port_context [OF p] by simp
  let ?xs = "concat (map (strings_listed s) (table_cells ch s c))"
  let ?vc = "length (filter (\<lambda>p. vartype (envval (ent s p)) = Envstr) (table_cells ch s c))"
  have E: "entries_of c s = Some (table_cells ch s c)" by (rule entries_cells [OF I c])
  have Ek: "entries_of c (s\<lparr>krn := k\<rparr>) = Some (table_cells ch s c)" for k
  proof -
    have "env_inv (s\<lparr>krn := k\<rparr>) ch fs" by (rule ports_only [OF I]) (simp_all add: same_cells_def)
    from entries_cells [OF this] c show ?thesis by (simp add: active_def table_cells_def)
  qed
  obtain k1 where k1: "vm_allocate e (?vc * env_name_size) (krn s) = (True, k1)" using a by (metis prod.collapse)
  obtain k2 where k2: "vm_allocate e (?vc * 256) k1 = (True, k2)" using a by (metis prod.collapse)
  have "\<exists>k. env_list_strings e sp s = Some (ENV_SUCCESS, length ?xs, ?xs, s\<lparr>krn := k\<rparr>)"
  proof (cases "?vc = 0")
    case True
    then have "?xs = []" using length_listed [of s "table_cells ch s c"] by (metis length_0_conv)
    moreover have "env_list_strings e sp s = Some (ENV_SUCCESS, 0, [], s)" using True p E by (simp add: env_list_strings_def Let_def)
    moreover have "s = s\<lparr>krn := krn s\<rparr>" by simp
    ultimately show ?thesis by (metis list.size(3))
  next
    case False
    then have "env_list_strings e sp s = Some (ENV_SUCCESS, ?vc, ?xs, s\<lparr>krn := k2\<rparr>)"
      using p E Ek k1 k2 unfolding env_list_strings_def strings_listed_def Let_def by simp
    then show ?thesis using length_listed [of s "table_cells ch s c"] by metis
  qed
  moreover have "tab s ch c n = Some (VStr v) \<longleftrightarrow> (\<exists>m. (m, v) \<in> set ?xs \<and> same_name n m)" for n v
    unfolding table_cells_value [OF I c] pvalue_string member_listed by blast
  ultimately show ?thesis by blast
qed

lemma list_ports_call:
  assumes I: "env_inv s ch fs" and p: "PortToContext sp s = Some (c, r)"
  shows "\<exists>r' n xs ov s' ch' fs'. env_list_ports e sp s = Some (r', n, xs, ov, s') \<and> env_inv s' ch' fs' \<and> dims s ch s' ch'"
proof -
  have c: "active s c" using port_context [OF p] by simp
  from purge_table [OF I c, of "[0..<HASHTABLESIZE]" e 0 ENV_SUCCESS] obtain vc r1 s1 ch1 fs1 where
    s1: "purge_buckets e c [0..<HASHTABLESIZE] 0 ENV_SUCCESS s = Some (vc, r1, s1)" "env_inv s1 ch1 fs1" "dims s ch s1 ch1" by (auto simp: atLeast0LessThan)
  have c1: "active s1 c" using s1(3) c users_cong [of s1 s] by (simp add: dims_def)
  have K: "env_inv (s1\<lparr>krn := k\<rparr>) ch1 fs1 \<and> dims s ch (s1\<lparr>krn := k\<rparr>) ch1 \<and> entries_of c (s1\<lparr>krn := k\<rparr>) \<noteq> None" for k
  proof -
    let ?s = "s1\<lparr>krn := k\<rparr>"
    have f: "same_cells s1 ?s" "pt_table ?s = pt_table s1" by (simp_all add: same_cells_def)
    have "env_inv ?s ch1 fs1" by (rule ports_only [OF s1(2) f])
    moreover have "tab ?s ch1 i = tab s1 ch1 i" for i by (rule ext, rule tab_frame [OF f])
    moreover have "active ?s c" using c1 by (simp add: active_def)
    ultimately show ?thesis using s1(3) entries_cells [of ?s ch1 fs1 c] by (simp add: dims_def)
  qed
  obtain ok k where k: "vm_allocate e (vc * env_name_size) (krn s1) = (ok, k)" by fastforce
  obtain ys where y: "entries_of c (s1\<lparr>krn := k\<rparr>) = Some ys" using K [of k] by auto
  show ?thesis
  proof (cases "vc = 0")
    case True
    then have "env_list_ports e sp s = Some (r1, 0, [], [], s1)" using p s1(1) by (simp add: env_list_ports_def)
    then show ?thesis using s1 by blast
  next
    case False
    then have "\<exists>r' n xs ov. env_list_ports e sp s = Some (r', n, xs, ov, s1\<lparr>krn := k\<rparr>)"
      using p s1(1) k y by (cases ok) (simp_all add: env_list_ports_def Let_def)
    then show ?thesis using K [of k] by blast
  qed
qed

end
