(* ===== verification/Env_Runs.thy ===== *)
theory Env_Runs
  imports Env_Lists
begin

text \<open>
  The environment manager as a server: the messages its main loop dispatches, as events, and
  runs of them.  Every call returns, every call keeps the invariant, and a call that does not
  come through the read-write port of a context leaves the context's strings alone.
\<close>

datatype env_event = Write port env_write | Get_string port string | Get_port port string | List_strings port | List_ports port
  | Set_stlist port "(string \<times> string) list" | Set_ptlist port "(string \<times> port) list"
  | Copy_conn port | New_conn | Restrict_conn port | Disconnect port | Notify emergency

definition env_step :: "'k em_env \<Rightarrow> env_event \<Rightarrow> 'k env_state \<Rightarrow> 'k env_state option" where
  "env_step e ev s =
     (case ev of Write sp w \<Rightarrow> map_option snd (env_call e sp w s)
      | Get_string sp n \<Rightarrow> map_option (\<lambda>_. s) (env_get_string sp n s)
      | Get_port sp n \<Rightarrow> map_option (\<lambda>(r, p, s'). s') (env_get_port e sp n s)
      | List_strings sp \<Rightarrow> map_option (\<lambda>(r, n, xs, s'). s') (env_list_strings e sp s)
      | List_ports sp \<Rightarrow> map_option (\<lambda>(r, n, xs, ov, s'). s') (env_list_ports e sp s)
      | Set_stlist sp xs \<Rightarrow> map_option snd (env_set_stlist e sp xs s)
      | Set_ptlist sp xs \<Rightarrow> map_option snd (env_set_ptlist e sp xs s)
      | Copy_conn sp \<Rightarrow> Some (snd (snd (env_copy_conn e sp s)))
      | New_conn \<Rightarrow> Some (snd (snd (env_new_conn e s)))
      | Restrict_conn sp \<Rightarrow> Some (snd (snd (env_restrict_conn e sp s)))
      | Disconnect sp \<Rightarrow> map_option snd (env_disconnect e sp s)
      | Notify n \<Rightarrow> env_notify e n s)"

primrec run_events :: "('ev \<Rightarrow> 's \<Rightarrow> 's option) \<Rightarrow> 'ev list \<Rightarrow> 's \<Rightarrow> 's option" where
  "run_events step [] s = Some s"
| "run_events step (ev # evs) s = (case step ev s of None \<Rightarrow> None | Some s' \<Rightarrow> run_events step evs s')"

text \<open>No event of the sequence belongs to client \<open>c\<close> when its turn comes.\<close>

primrec foreign :: "('ev \<Rightarrow> 's \<Rightarrow> 's option) \<Rightarrow> ('ev \<Rightarrow> 's \<Rightarrow> 'c \<Rightarrow> bool) \<Rightarrow> 'c \<Rightarrow> 'ev list \<Rightarrow> 's \<Rightarrow> bool" where
  "foreign step own c [] s \<longleftrightarrow> True"
| "foreign step own c (ev # evs) s \<longleftrightarrow> \<not> own ev s c \<and> (case step ev s of None \<Rightarrow> True | Some s' \<Rightarrow> foreign step own c evs s')"

text \<open>The names of an event fit into \<open>env_name_t\<close>, and the port an event comes through.\<close>

fun event_ok :: "env_event \<Rightarrow> bool" where
  "event_ok (Write sp w) \<longleftrightarrow> length (wname w) \<le> env_name_size"
| "event_ok (Get_string sp n) \<longleftrightarrow> length n \<le> env_name_size"
| "event_ok (Get_port sp n) \<longleftrightarrow> length n \<le> env_name_size"
| "event_ok (Set_stlist sp xs) \<longleftrightarrow> (\<forall>x\<in>set xs. length (fst x) \<le> env_name_size)"
| "event_ok (Set_ptlist sp xs) \<longleftrightarrow> (\<forall>x\<in>set xs. length (fst x) \<le> env_name_size)"
| "event_ok ev \<longleftrightarrow> True"

fun event_port :: "env_event \<Rightarrow> port option" where
  "event_port (Write sp w) = Some sp" | "event_port (Get_string sp n) = Some sp" | "event_port (Get_port sp n) = Some sp"
| "event_port (List_strings sp) = Some sp" | "event_port (List_ports sp) = Some sp"
| "event_port (Set_stlist sp xs) = Some sp" | "event_port (Set_ptlist sp ys) = Some sp"
| "event_port (Copy_conn sp) = Some sp" | "event_port New_conn = None" | "event_port (Restrict_conn sp) = Some sp"
| "event_port (Disconnect sp) = Some sp" | "event_port (Notify (NOTIFY_OWNERSHIP_RIGHTS sp)) = Some sp"
| "event_port (Notify (NOTIFY_PORT_DELETED sp)) = None"

definition issuer :: "env_event \<Rightarrow> 'k env_state \<Rightarrow> nat \<Rightarrow> bool" where
  "issuer ev s i \<longleftrightarrow> (case event_port ev of None \<Rightarrow> False | Some sp \<Rightarrow> PortToContext sp s = Some (i, False))"

section \<open>What an event leaves alone\<close>

definition spares :: "'k env_state \<Rightarrow> (bucket \<Rightarrow> ptr list) \<Rightarrow> (nat \<Rightarrow> bool) \<Rightarrow> 'k env_state \<Rightarrow> bool" where
  "spares s ch X s' \<longleftrightarrow> (\<exists>ch' fs'. env_inv s' ch' fs' \<and> (\<forall>i. active s i \<and> \<not> X i \<longrightarrow> active s' i \<and> fades UNIV (tab s ch i) (tab s' ch' i)))"

lemma sparesI:
  "env_inv s' ch' fs' \<Longrightarrow> (\<And>i. active s i \<Longrightarrow> \<not> X i \<Longrightarrow> active s' i \<and> fades P (tab s ch i) (tab s' ch' i)) \<Longrightarrow> spares s ch X s'"
  unfolding spares_def using fades_mono by blast

lemma spares_refl: "env_inv s ch fs \<Longrightarrow> spares s ch X s"
  by (rule sparesI [of s ch fs, where P = UNIV]) simp_all

lemma spares_dims: "env_inv s' ch' fs' \<Longrightarrow> dims s ch s' ch' \<Longrightarrow> spares s ch X s'"
  by (rule sparesI [of s' ch' fs', where P = "{PORT_NULL}"]) (simp_all add: dims_def active_def)

lemma spares_leaves:
  assumes "leaves P c ch fs s s'" and "X c"
  shows "spares s ch X s'"
proof (rule sparesI [of s' ch fs, where P = P])
  show "env_inv s' ch fs" using assms by (simp add: leaves_def)
  show "active s' i \<and> fades P (tab s ch i) (tab s' ch i)" if "active s i" "\<not> X i" for i
  proof -
    have "i \<noteq> c" using that(2) assms(2) by auto
    then show ?thesis using assms(1) that(1) by (simp add: leaves_def active_def)
  qed
qed

lemma spares_then:
  assumes "spares s ch X s1" and "\<And>ch1 fs1. env_inv s1 ch1 fs1 \<Longrightarrow> spares s1 ch1 X s2"
  shows "spares s ch X s2"
proof -
  obtain ch1 fs1 where 1: "env_inv s1 ch1 fs1" "\<And>i. active s i \<Longrightarrow> \<not> X i \<Longrightarrow> active s1 i \<and> fades UNIV (tab s ch i) (tab s1 ch1 i)"
    using assms(1) by (auto simp: spares_def)
  obtain ch2 fs2 where 2: "env_inv s2 ch2 fs2" "\<And>i. active s1 i \<Longrightarrow> \<not> X i \<Longrightarrow> active s2 i \<and> fades UNIV (tab s1 ch1 i) (tab s2 ch2 i)"
    using assms(2) [OF 1(1)] by (auto simp: spares_def)
  show ?thesis
  proof (rule sparesI [OF 2(1), where P = "UNIV \<union> UNIV"])
    show "active s2 i \<and> fades (UNIV \<union> UNIV) (tab s ch i) (tab s2 ch2 i)" if "active s i" "\<not> X i" for i
      using fades_trans 1(2) [OF that] 2(2) [OF _ that(2)] by blast
  qed
qed

text \<open>A change of the kernel, or of the ports of contexts, changes no table.\<close>

lemma inv_heads:
  assumes I: "env_inv s ch fs" and cx: "\<And>j. inuse (contexts s' j) = inuse (contexts s j) \<and> ch_head (contexts s' j) = ch_head (contexts s j)"
    and eq: "ent s' = ent s" "enext s' = enext s" "hhead s' = hhead s" "HashEntryPool s' = HashEntryPool s" "pt_table s' = pt_table s" "heap s' = heap s"
      "hrefcnt s' = hrefcnt s"
  shows "env_inv s' ch fs" and "active s' = active s" and "tab s' ch = tab s ch"
proof -
  have us: "users s' h = users s h" for h by (simp add: users_def cx)
  then have lv: "live s' = live s" by (simp add: live_def)
  have b: "buckets s' = buckets s" by (simp add: buckets_def lv)
  have "finite (dom (hrefcnt s'))" using table_okD(1) [OF env_invD(1) [OF I]] eq(7) by (simp add: links_ok_def)
  then have "table_ok (buckets s') s' ch fs" unfolding b by (rule table_grow [OF env_invD(1) [OF I] eq(1-6)])
  then show "env_inv s' ch fs" using env_invD(2) [OF I] us lv eq(7) by (simp add: env_inv_def)
  show "active s' = active s" by (simp add: active_def cx fun_eq_iff)
  show "tab s' ch = tab s ch" by (rule ext, rule ext, rule tab_eq) (simp_all add: eq(1,5) cx)
qed

lemma spares_heads:
  assumes "env_inv s ch fs" and "\<And>j. inuse (contexts s' j) = inuse (contexts s j) \<and> ch_head (contexts s' j) = ch_head (contexts s j)"
    and "ent s' = ent s" "enext s' = enext s" "hhead s' = hhead s" "HashEntryPool s' = HashEntryPool s" "pt_table s' = pt_table s" "heap s' = heap s"
      "hrefcnt s' = hrefcnt s"
  shows "spares s ch X s'"
  using inv_heads [OF assms] by (intro sparesI [of s' ch fs, where P = UNIV]) simp_all

section \<open>Writing\<close>

lemma write_refused: "PortToContext sp s = None \<or> PortToContext sp s = Some (c, True) \<Longrightarrow> \<exists>r. env_call e sp w s = Some (r, s)"
  by (cases w) (auto simp: env_call_def env_set_string_def env_set_port_def env_del_string_def env_del_port_def env_del_def)

lemma port_heads: "(\<And>j. contexts s' j = (contexts s j)\<lparr>ch_head := ch_head (contexts s' j)\<rparr>) \<Longrightarrow> PortToContext sp s' = PortToContext sp s"
proof -
  assume a: "\<And>j. contexts s' j = (contexts s j)\<lparr>ch_head := ch_head (contexts s' j)\<rparr>"
  have "inuse (contexts s' j) = inuse (contexts s j)" "rwport (contexts s' j) = rwport (contexts s j)" "roport (contexts s' j) = roport (contexts s j)" for j
    by (subst a, simp)+
  then show ?thesis by (simp add: PortToContext_def split: option.split)
qed

lemma write_spares:
  assumes e: "em_ok e" and I: "env_inv s ch fs" and n: "length (wname w) \<le> env_name_size"
  shows "\<exists>r s'. env_call e sp w s = Some (r, s') \<and> spares s ch (\<lambda>i. PortToContext sp s = Some (i, False)) s' \<and> PortToContext sp s' = PortToContext sp s"
proof (cases "\<exists>c. PortToContext sp s = Some (c, False)")
  case False
  then have "PortToContext sp s = None \<or> (\<exists>c. PortToContext sp s = Some (c, True))" by (metis (full_types) not_None_eq surj_pair)
  then obtain r where "env_call e sp w s = Some (r, s)" using write_refused by metis
  then show ?thesis using spares_refl [OF I] by blast
next
  case True
  then obtain c where p: "PortToContext sp s = Some (c, False)" by blast
  from write_call [OF e I p n] obtain r s' M where w: "env_call e sp w s = Some (r, s')" "reads s ch c M s'" unfolding refines_def by blast
  then obtain ch' fs' h where r: "env_inv s' ch' fs'" "contexts s' = (contexts s)(c := (contexts s c)\<lparr>ch_head := h\<rparr>)"
      "\<And>i m. active s i \<Longrightarrow> tab s' ch' i m = (if i = c then M m else tab s ch i m)" unfolding reads_def by blast
  have "spares s ch (\<lambda>i. PortToContext sp s = Some (i, False)) s'"
  proof (rule sparesI [OF r(1), where P = UNIV])
    fix i assume i: "active s i" "PortToContext sp s \<noteq> Some (i, False)"
    then have "i \<noteq> c" using p by auto
    then have "tab s' ch' i = tab s ch i" using r(3) [OF i(1)] by (simp add: fun_eq_iff)
    then show "active s' i \<and> fades UNIV (tab s ch i) (tab s' ch' i)" using i(1) r(2) by (auto simp: active_def)
  qed
  moreover have "PortToContext sp s' = PortToContext sp s" by (rule port_heads) (simp add: r(2))
  ultimately show ?thesis using w(1) by blast
qed

lemma set_all_spares:
  assumes e: "em_ok e" and w: "\<And>n v. wname (W n v) = n" and f: "f = (\<lambda>n v. env_call e sp (W n v))"
    and "env_inv s ch fs" and "\<forall>x\<in>set xs. length (fst x) \<le> env_name_size"
  shows "\<exists>r' s'. set_all f xs r s = Some (r', s') \<and> spares s ch (\<lambda>i. PortToContext sp s = Some (i, False)) s'"
  using assms(4,5)
proof (induction xs arbitrary: r s ch fs)
  case Nil
  then show ?case using spares_refl by (simp, blast)
next
  case (Cons x xs)
  let ?X = "\<lambda>i. PortToContext sp s = Some (i, False)"
  have "length (wname (W (fst x) (snd x))) \<le> env_name_size" using Cons.prems(2) w by simp
  from write_spares [OF e Cons.prems(1) this, of sp] obtain r1 s1 where s1: "f (fst x) (snd x) s = Some (r1, s1)"
      "spares s ch ?X s1" "PortToContext sp s1 = PortToContext sp s" unfolding f by blast
  show ?case
  proof (cases "r1 = ENV_SUCCESS")
    case False
    then show ?thesis using s1 by simp
  next
    case True
    have IH: "\<exists>r' s'. set_all f xs (Some r1) s1 = Some (r', s') \<and> spares s1 ch1 ?X s'" if "env_inv s1 ch1 fs1" for ch1 fs1
      using Cons.IH [OF that, of "Some r1"] Cons.prems(2) s1(3) by simp
    obtain ch1 fs1 where "env_inv s1 ch1 fs1" using s1(2) by (auto simp: spares_def)
    with IH obtain r' s' where s': "set_all f xs (Some r1) s1 = Some (r', s')" by blast
    then have "spares s1 ch1 ?X s'" if "env_inv s1 ch1 fs1" for ch1 fs1 using IH [OF that] by auto
    from spares_then [OF s1(2) this] show ?thesis using s1(1) s' True by simp
  qed
qed

section \<open>Connections\<close>

text \<open>
  A copied connection is a new context that reads as the one it copies; every other context keeps
  its connection and its variables.
\<close>

definition joins :: "'k env_state \<Rightarrow> (bucket \<Rightarrow> ptr list) \<Rightarrow> env_map \<Rightarrow> port \<Rightarrow> 'k env_state \<Rightarrow> bool" where
  "joins s ch M p s' \<longleftrightarrow> (\<exists>i ch' fs'. env_inv s' ch' fs' \<and> i < MAXCONN \<and> \<not> inuse (contexts s i) \<and> tab s' ch' i = M
     \<and> (\<exists>h. contexts s' = (contexts s)(i := \<lparr>ch_head = h, rwport = p, roport = PORT_NULL, inuse = True\<rparr>))
     \<and> (\<forall>j. active s j \<longrightarrow> tab s' ch' j = tab s ch j))"

lemma joins_spares:
  assumes "joins s ch M p s'"
  shows "spares s ch X s'"
proof -
  obtain i ch' fs' h where j: "env_inv s' ch' fs'" "\<not> inuse (contexts s i)" "contexts s' = (contexts s)(i := \<lparr>ch_head = h, rwport = p, roport = PORT_NULL, inuse = True\<rparr>)"
      "\<And>j. active s j \<Longrightarrow> tab s' ch' j = tab s ch j" using assms unfolding joins_def by blast
  show ?thesis by (rule sparesI [OF j(1), where P = UNIV]) (use j in \<open>auto simp: active_def\<close>)
qed

lemma copy_conn_call:
  assumes I: "env_inv s ch fs" and p: "PortToContext sp s = Some (c, r)"
  shows "case env_copy_conn e sp s of (r', q, s') \<Rightarrow> r' \<noteq> ENV_SUCCESS \<and> q = None \<and> spares s ch X s'
     \<or> r' = ENV_SUCCESS \<and> (\<exists>p. q = Some p \<and> joins s ch (tab s ch c) p s')"
proof (cases "free_context s")
  case None
  then show ?thesis using p spares_refl [OF I] by (simp add: env_copy_conn_def)
next
  case (Some i)
  obtain q s1 where n: "new_port e s = (q, s1)" by fastforce
  note f = new_port_frame [OF n]
  have cx: "contexts s1 = contexts s" using f by (simp add: same_cells_def)
  have I1: "env_inv s1 ch fs" using f by (intro ports_only [OF I]) auto
  have tb: "tab s1 ch j = tab s ch j" for j using f by (intro ext tab_frame) auto
  have ac: "active s1 = active s" using users_cong [OF cx] by simp
  have c: "active s1 c" using port_context [OF p] ac by simp
  note F = free_context_Some [OF Some]
  show ?thesis
  proof (cases q)
    case None
    have "spares s ch X s1" by (rule sparesI [OF I1, where P = UNIV]) (simp_all add: tb ac)
    then show ?thesis using p Some n None by (simp add: env_copy_conn_def)
  next
    case q: (Some pp)
    define s' where "s' = set_context i \<lparr>ch_head = ch_head (contexts s1 c), rwport = pp, roport = PORT_NULL, inuse = True\<rparr> (upd_hrefcnt (ch_head (contexts s1 c)) 1 s1)"
    have S: "env_copy_conn e sp s = (ENV_SUCCESS, Some pp, s')" using p Some n q by (simp add: env_copy_conn_def Let_def s'_def)
    have i: "i < MAXCONN" "\<not> inuse (contexts s1 i)" using F by (simp_all add: cx)
    note H = share_table [OF I1 c i s'_def]
    have "tab s' ch i = tab s ch c" using H(2) tb by (simp add: fun_eq_iff)
    moreover have "tab s' ch j = tab s ch j" if "active s j" for j using H(3) [of j] that ac tb by (simp add: fun_eq_iff)
    moreover have "contexts s' = (contexts s)(i := \<lparr>ch_head = ch_head (contexts s1 c), rwport = pp, roport = PORT_NULL, inuse = True\<rparr>)"
      by (simp add: s'_def set_context_def upd_hrefcnt_def cx)
    ultimately have "joins s ch (tab s ch c) pp s'" unfolding joins_def using H(1) F by blast
    then show ?thesis by (simp add: S)
  qed
qed

lemma new_conn_call:
  assumes e: "em_ok e" and I: "env_inv s ch fs"
  shows "case env_new_conn e s of (r', q, s') \<Rightarrow> r' \<noteq> ENV_SUCCESS \<and> q = None \<and> spares s ch X s'
     \<or> r' = ENV_SUCCESS \<and> (\<exists>p. q = Some p \<and> joins s ch (\<lambda>n. None) p s')"
proof (cases "free_context s")
  case None
  then show ?thesis using spares_refl [OF I] by (simp add: env_new_conn_def)
next
  case (Some i)
  obtain q s1 where n: "new_port e s = (q, s1)" by fastforce
  note f = new_port_frame [OF n]
  have cx: "contexts s1 = contexts s" using f by (simp add: same_cells_def)
  have I1: "env_inv s1 ch fs" using f by (intro ports_only [OF I]) auto
  have tb: "tab s1 ch j = tab s ch j" for j using f by (intro ext tab_frame) auto
  have ac: "active s1 = active s" using users_cong [OF cx] by simp
  note F = free_context_Some [OF Some]
  show ?thesis
  proof (cases q)
    case None
    have "spares s ch X s1" by (rule sparesI [OF I1, where P = UNIV]) (simp_all add: tb ac)
    then show ?thesis using Some n None by (simp add: env_new_conn_def)
  next
    case q: (Some pp)
    obtain h s2 where t: "empty_table e s1 = (h, s2)" by fastforce
    define s' where "s' = set_context i \<lparr>ch_head = h, rwport = pp, roport = PORT_NULL, inuse = True\<rparr> s2"
    have S: "env_new_conn e s = (ENV_SUCCESS, Some pp, s')" using Some n q t by (simp add: env_new_conn_def s'_def)
    have i: "i < MAXCONN" "\<not> inuse (contexts s1 i)" using F by (simp_all add: cx)
    from new_table [OF e I1 i t s'_def] obtain ch' where H: "env_inv s' ch' fs" "\<And>m. tab s' ch' i m = None"
        "\<And>j m. active s1 j \<Longrightarrow> tab s' ch' j m = tab s1 ch j m" by blast
    have "contexts s2 = contexts s" using t cx by (auto simp: empty_table_def Let_def)
    then have "contexts s' = (contexts s)(i := \<lparr>ch_head = h, rwport = pp, roport = PORT_NULL, inuse = True\<rparr>)" by (simp add: s'_def set_context_def)
    moreover have "tab s' ch' j = tab s ch j" if "active s j" for j using H(3) [of j] that ac tb by (simp add: fun_eq_iff)
    moreover have "tab s' ch' i = (\<lambda>n. None)" using H(2) by (simp add: fun_eq_iff)
    ultimately have "joins s ch (\<lambda>n. None) pp s'" unfolding joins_def using H(1) F by blast
    then show ?thesis by (simp add: S)
  qed
qed

lemma restrict_conn_call:
  assumes I: "env_inv s ch fs"
  shows "spares s ch X (snd (snd (env_restrict_conn e sp s)))"
proof -
  obtain q s1 where n: "new_port e s = (q, s1)" by fastforce
  note f = new_port_frame [OF n]
  have "spares s ch X s1" using f by (intro spares_heads [OF I]) (simp_all add: same_cells_def)
  moreover have "spares s ch X (set_context c ((contexts s1 c)\<lparr>roport := p\<rparr>) s1)" for c p
    using f by (intro spares_heads [OF I]) (simp_all add: same_cells_def set_context_def)
  ultimately show ?thesis using spares_refl [OF I] n
    by (auto simp: env_restrict_conn_def split: option.splits)
qed

lemma drop_port_spares:
  assumes I: "env_inv s ch fs"
  shows "spares s ch X (set_context c ((contexts (drop_port e p s) c)\<lparr>roport := q\<rparr>) (drop_port e p s))"
proof -
  let ?s = "s\<lparr>krn := snd (port_deallocate e p (krn s))\<rparr>"
  obtain b s' where r: "remove_dead_port p ?s = (b, s')" by fastforce
  have f: "same_cells s ?s" "pt_table ?s = pt_table s" by (simp_all add: same_cells_def)
  note D = remove_dead [OF ports_only [OF I f] r]
  have s': "drop_port e p s = s'" using r by (simp add: drop_port_def)
  have cx: "contexts s' = contexts s" using D(2) by (simp add: same_cells_def)
  have tb: "tab ?s ch i = tab s ch i" for i by (rule ext, rule tab_frame [OF f])
  let ?t = "set_context c ((contexts s' c)\<lparr>roport := q\<rparr>) s'"
  note H = inv_heads [OF D(1), of ?t]
  have "spares s ch X ?t"
  proof (rule sparesI [where P = "{p}"])
    show "env_inv ?t ch fs" by (rule H(1)) (auto simp: set_context_def)
    have "active ?t = active s'" "tab ?t ch = tab s' ch" by (rule H(2) H(3); auto simp: set_context_def)+
    then show "active ?t i \<and> fades {p} (tab s ch i) (tab ?t ch i)" if "active s i" for i
      using that D(3) [of i] tb users_cong [OF cx] by simp
  qed
  then show ?thesis by (simp add: s')
qed

lemma disconnect_spares:
  assumes I: "env_inv s ch fs"
  shows "\<exists>r s'. env_disconnect e sp s = Some (r, s') \<and> spares s ch (\<lambda>i. PortToContext sp s = Some (i, False)) s'"
proof (cases "PortToContext sp s")
  case None
  then show ?thesis using spares_refl [OF I] by (simp add: env_disconnect_def)
next
  case (Some x)
  then obtain c r where p: "PortToContext sp s = Some (c, r)" by (cases x) auto
  show ?thesis
  proof (cases r)
    case True
    then show ?thesis using p spares_refl [OF I] drop_port_spares [OF I, where p = sp and q = PORT_NULL and c = c]
      by (cases "roport (contexts s c) = sp") (auto simp: env_disconnect_def Let_def)
  next
    case False
    then have p: "PortToContext sp s = Some (c, False)" using p by simp
    from disconnect_rw [OF I p, of e] obtain s' where s': "env_disconnect e sp s = Some (ENV_SUCCESS, s')"
        "leaves {rwport (contexts s c), roport (contexts s c)} c ch fs s s'" by blast
    have "spares s ch (\<lambda>i. PortToContext sp s = Some (i, False)) s'" by (rule spares_leaves [OF s'(2)]) (rule p)
    then show ?thesis using s'(1) by blast
  qed
qed

section \<open>Every event\<close>

lemma krn_spares: "env_inv s ch fs \<Longrightarrow> spares s ch X (s\<lparr>krn := k\<rparr>)"
  by (rule spares_heads) simp_all

lemma list_strings_total:
  assumes I: "env_inv s ch fs"
  shows "\<exists>r n xs k. env_list_strings e sp s = Some (r, n, xs, s\<lparr>krn := k\<rparr>)"
proof (cases "PortToContext sp s")
  case None
  then have "env_list_strings e sp s = Some (ENV_UNKNOWN_PORT, 0, [], s\<lparr>krn := krn s\<rparr>)" by (simp add: env_list_strings_def)
  then show ?thesis by blast
next
  case (Some x)
  then obtain c r where p: "PortToContext sp s = Some (c, r)" by (cases x) auto
  have c: "active s c" using port_context [OF p] by simp
  have E: "entries_of c (s\<lparr>krn := k\<rparr>) = Some (table_cells ch s c)" for k
  proof -
    have "env_inv (s\<lparr>krn := k\<rparr>) ch fs" by (rule ports_only [OF I]) (simp_all add: same_cells_def)
    from entries_cells [OF this] c show ?thesis by (simp add: active_def table_cells_def)
  qed
  have s0: "s = s\<lparr>krn := krn s\<rparr>" by simp
  let ?vc = "length (filter (\<lambda>p. vartype (envval (ent s p)) = Envstr) (table_cells ch s c))"
  obtain o1 k1 where k1: "vm_allocate e (?vc * env_name_size) (krn s) = (o1, k1)" by fastforce
  obtain o2 k2 where k2: "vm_allocate e (?vc * 256) k1 = (o2, k2)" by fastforce
  have "\<exists>r n xs k. env_list_strings e sp s = Some (r, n, xs, s\<lparr>krn := k\<rparr>)"
  proof (cases "?vc = 0")
    case True
    then have "env_list_strings e sp s = Some (ENV_SUCCESS, 0, [], s)" using p E [of "krn s"] by (simp add: env_list_strings_def Let_def)
    then show ?thesis using s0 by metis
  next
    case False
    then have "env_list_strings e sp s = Some (if o1 \<and> o2 then ENV_SUCCESS else KERN_FAILURE, if o1 \<and> o2 then ?vc else 0,
        if o1 \<and> o2 then concat (map (strings_listed s) (table_cells ch s c)) else [], s\<lparr>krn := if o1 then k2 else k1\<rparr>)"
      using p E [of "krn s"] E [of k2] k1 k2 unfolding env_list_strings_def Let_def strings_listed_def by (cases o1; cases o2) simp_all
    then show ?thesis by blast
  qed
  then show ?thesis .
qed

lemma get_string_total:
  assumes I: "env_inv s ch fs" and n: "length n \<le> env_name_size"
  shows "env_get_string sp n s \<noteq> None"
proof (cases "PortToContext sp s")
  case (Some x)
  then obtain c r where p: "PortToContext sp s = Some (c, r)" by (cases x) auto
  have c: "active s c" using port_context [OF p] by simp
  show ?thesis using p found_entry(1) [OF I c n refl] by (simp add: env_get_string_def split: env_var_t.splits)
qed (simp add: env_get_string_def)

lemma read_spares:
  assumes I: "env_inv s ch fs"
  shows "length n \<le> env_name_size \<Longrightarrow> \<exists>r q s'. env_get_port e sp n s = Some (r, q, s') \<and> spares s ch X s'"
    and "\<exists>r m xs ov s'. env_list_ports e sp s = Some (r, m, xs, ov, s') \<and> spares s ch X s'"
proof -
  show "\<exists>r q s'. env_get_port e sp n s = Some (r, q, s') \<and> spares s ch X s'" if n: "length n \<le> env_name_size"
  proof (cases "PortToContext sp s")
    case None
    then show ?thesis using spares_refl [OF I] by (simp add: env_get_port_def)
  next
    case (Some x)
    then obtain c r where p: "PortToContext sp s = Some (c, r)" by (cases x) auto
    let ?F = "\<lambda>s'. case tab s ch c n of None \<Rightarrow> (ENV_VAR_NOT_FOUND, Some PORT_NULL, s') | Some (VStr v) \<Rightarrow> (ENV_WRONG_VAR_TYPE, Some PORT_NULL, s')
       | Some (VPort q) \<Rightarrow> if q = PORT_NULL then (ENV_VAR_NOT_FOUND, Some PORT_NULL, s') else (ENV_SUCCESS, Some q, s')"
    from get_port_call [OF I n p, of e] obtain s' ch' fs' where s': "env_inv s' ch' fs'" "dims s ch s' ch'" "env_get_port e sp n s = Some (?F s')" by blast
    moreover have "\<exists>r' q. ?F s' = (r', q, s')" by (simp split: option.split env_value.split)
    then obtain r' q where "?F s' = (r', q, s')" by (elim exE)
    ultimately have "env_get_port e sp n s = Some (r', q, s')" by (simp only:)
    then show ?thesis using spares_dims [OF s'(1,2)] by blast
  qed
  show "\<exists>r m xs ov s'. env_list_ports e sp s = Some (r, m, xs, ov, s') \<and> spares s ch X s'"
  proof (cases "PortToContext sp s")
    case None
    then show ?thesis using spares_refl [OF I] by (simp add: env_list_ports_def)
  next
    case (Some x)
    then obtain c r where p: "PortToContext sp s = Some (c, r)" by (cases x) auto
    from list_ports_call [OF I p, of e] show ?thesis using spares_dims by blast
  qed
qed

lemma list_spares:
  assumes e: "em_ok e" and I: "env_inv s ch fs" and x: "\<forall>x\<in>set xs. length (fst x) \<le> env_name_size"
  shows "\<exists>r s'. env_set_stlist e sp xs s = Some (r, s') \<and> spares s ch (\<lambda>i. PortToContext sp s = Some (i, False)) s'"
proof -
  have f: "env_set_string e sp = (\<lambda>n v. env_call e sp (Set_string n v))" by (simp add: env_call_def fun_eq_iff)
  from set_all_spares [OF e _ f I x, of None] obtain r s1 where
    s1: "set_all (env_set_string e sp) xs None s = Some (r, s1)" "spares s ch (\<lambda>i. PortToContext sp s = Some (i, False)) s1" by auto
  then show ?thesis using spares_then [OF s1(2) krn_spares] by (simp add: env_set_stlist_def)
qed

lemma ptlist_spares:
  assumes e: "em_ok e" and I: "env_inv s ch fs" and x: "\<forall>x\<in>set xs. length (fst x) \<le> env_name_size"
  shows "\<exists>r s'. env_set_ptlist e sp xs s = Some (r, s') \<and> spares s ch (\<lambda>i. PortToContext sp s = Some (i, False)) s'"
proof -
  have f: "env_set_port e sp = (\<lambda>n v. env_call e sp (Set_port n v))" by (simp add: env_call_def fun_eq_iff)
  from set_all_spares [OF e _ f I x, of None] obtain r s1 where
    s1: "set_all (env_set_port e sp) xs None s = Some (r, s1)" "spares s ch (\<lambda>i. PortToContext sp s = Some (i, False)) s1" by auto
  then show ?thesis using spares_then [OF s1(2) krn_spares] by (simp add: env_set_ptlist_def)
qed

lemma step_spares:
  assumes e: "em_ok e" and I: "env_inv s ch fs" and ok: "event_ok ev"
  shows "\<exists>s'. env_step e ev s = Some s' \<and> spares s ch (issuer ev s) s'"
proof -
  have iss: "issuer ev s = (\<lambda>i. PortToContext sp s = Some (i, False))" if "event_port ev = Some sp" for sp
    using that by (simp add: issuer_def fun_eq_iff)
  show ?thesis
  proof (cases ev)
    case (Write sp w)
    then show ?thesis using write_spares [OF e I, of w sp] ok iss [of sp] by (auto simp: env_step_def)
  next
    case (Get_string sp n)
    then show ?thesis using get_string_total [OF I, of n sp] ok spares_refl [OF I] by (auto simp: env_step_def)
  next
    case (Get_port sp n)
    then show ?thesis using read_spares(1) [OF I, of n e sp "issuer ev s"] ok by (auto simp: env_step_def)
  next
    case (List_strings sp)
    then show ?thesis using list_strings_total [OF I, of e sp] krn_spares [OF I] by (auto simp: env_step_def)
  next
    case (List_ports sp)
    then show ?thesis using read_spares(2) [OF I, of e sp "issuer ev s"] by (auto simp: env_step_def)
  next
    case (Set_stlist sp xs)
    then show ?thesis using list_spares [OF e I, of xs sp] ok iss [of sp] by (auto simp: env_step_def)
  next
    case (Set_ptlist sp xs)
    then show ?thesis using ptlist_spares [OF e I, of xs sp] ok iss [of sp] by (auto simp: env_step_def)
  next
    case (Copy_conn sp)
    have "spares s ch (issuer ev s) (snd (snd (env_copy_conn e sp s)))"
    proof (cases "PortToContext sp s")
      case None
      then show ?thesis using spares_refl [OF I] by (simp add: env_copy_conn_def)
    next
      case (Some x)
      then obtain c r where p: "PortToContext sp s = Some (c, r)" by (cases x) auto
      show ?thesis using copy_conn_call [OF I p, where e = e and X = "issuer ev s"] joins_spares by (fastforce split: prod.splits)
    qed
    then show ?thesis by (simp add: Copy_conn env_step_def)
  next
    case New_conn
    have "spares s ch (issuer ev s) (snd (snd (env_new_conn e s)))"
      using new_conn_call [OF e I, where X = "issuer ev s"] joins_spares by (fastforce split: prod.splits)
    then show ?thesis by (simp add: New_conn env_step_def)
  next
    case (Restrict_conn sp)
    then show ?thesis using restrict_conn_call [OF I] by (simp add: env_step_def)
  next
    case (Disconnect sp)
    then show ?thesis using disconnect_spares [OF I, of e sp] iss [of sp] by (auto simp: env_step_def)
  next
    case (Notify n)
    show ?thesis
    proof (cases n)
      case (NOTIFY_OWNERSHIP_RIGHTS sp)
      then show ?thesis using Notify disconnect_spares [OF I, of e sp] iss [of sp] by (auto simp: env_step_def env_notify_def)
    next
      case (NOTIFY_PORT_DELETED p)
      obtain b s' where r: "remove_dead_port p s = (b, s')" by fastforce
      note D = remove_dead [OF I r]
      have "active s' = active s" using D(2) users_cong [of s' s] by (simp add: same_cells_def)
      then have "spares s ch (issuer ev s) s'" using D(3) by (intro sparesI [OF D(1), where P = "{p}"]) simp
      then show ?thesis using Notify NOTIFY_PORT_DELETED r by (simp add: env_step_def env_notify_def)
    qed
  qed
qed

end
