(* ===== verification/Env_Manager.thy ===== *)
theory Env_Manager
  imports Env_Runs
begin

text \<open>
  What the environment manager promises its clients: it answers every sequence of messages, no
  client but the holder of a context's read-write port changes its strings, every write is the
  update of one variable of one context, a copied environment is independent of its original,
  and which names are one variable.
\<close>

section \<open>A service with private state\<close>







section \<open>Starting\<close>





section \<open>What clients read\<close>

definition env_of :: "'k env_state \<Rightarrow> nat \<Rightarrow> env_map" where
  "env_of s c n = (if length n \<le> env_name_size then look s c n else None)"

definition short_names :: "env_map \<Rightarrow> env_map" where
  "short_names M n = (if length n \<le> env_name_size then M n else None)"

lemma env_of_tab: "env_inv s ch fs \<Longrightarrow> active s c \<Longrightarrow> env_of s c = short_names (tab s ch c)"
  by (simp add: env_of_def short_names_def look_tab fun_eq_iff)

lemma put_short: "length n \<le> env_name_size \<Longrightarrow> short_names (put n v M) = put n v (short_names M)"
  by (auto simp: short_names_def put_def fun_eq_iff same_name_def)

lemma spec_short:
  "length (wname w) \<le> env_name_size \<Longrightarrow> spec_write w (short_names M) = (fst (spec_write w M), short_names (snd (spec_write w M)))"
  by (cases w) (auto simp: put_short split: option.splits env_value.splits, auto simp: short_names_def)

text \<open>The result of a write, in what the clients read.\<close>

lemma write_result:
  assumes e: "em_ok e" and s: "env_ok s" and p: "PortToContext sp s = Some (c, False)" and n: "length (wname w) \<le> env_name_size"
  obtains r s' where "env_call e sp w s = Some (r, s')" and "env_ok s'" and "PortToContext sp s' = Some (c, False)"
    and "(\<exists>n q. w = Set_port n q) \<and> r = ENV_PORT_TABLE_FULL \<and> env_of s' c = env_of s c \<and> table_full s' \<or> (r, env_of s' c) = spec_write w (env_of s c)"
    and "\<And>i. active s i \<Longrightarrow> i \<noteq> c \<Longrightarrow> env_of s' i = env_of s i" and "\<And>i. active s i \<Longrightarrow> active s' i"
proof -
  obtain ch fs where I: "env_inv s ch fs" using s by (auto simp: env_ok_def)
  have c: "active s c" using port_context [OF p] by simp
  from write_call [OF e I p n] obtain r s' M where w: "env_call e sp w s = Some (r, s')" "reads s ch c M s'"
      "(\<exists>n q. w = Set_port n q) \<and> r = ENV_PORT_TABLE_FULL \<and> M = tab s ch c \<and> table_full s' \<or> (r, M) = spec_write w (tab s ch c)" unfolding refines_def by blast
  then obtain ch' fs' h where r: "env_inv s' ch' fs'" "contexts s' = (contexts s)(c := (contexts s c)\<lparr>ch_head := h\<rparr>)"
      "\<And>i m. active s i \<Longrightarrow> tab s' ch' i m = (if i = c then M m else tab s ch i m)" unfolding reads_def by blast
  have ac: "active s' i" if "active s i" for i using that r(2) by (auto simp: active_def)
  have M: "env_of s' c = short_names M"
    using env_of_tab [OF r(1) ac [OF c]] r(3) [OF c] by (simp add: short_names_def fun_eq_iff)
  have T: "env_of s c = short_names (tab s ch c)" by (rule env_of_tab [OF I c])
  show ?thesis
  proof (rule that [OF w(1)])
    show "env_ok s'" using r(1) by (auto simp: env_ok_def)
    have "PortToContext sp s' = PortToContext sp s" by (rule port_heads) (simp add: r(2))
    then show "PortToContext sp s' = Some (c, False)" using p by simp
    show "(\<exists>n q. w = Set_port n q) \<and> r = ENV_PORT_TABLE_FULL \<and> env_of s' c = env_of s c \<and> table_full s' \<or> (r, env_of s' c) = spec_write w (env_of s c)"
      using w(3) spec_short [OF n, of "tab s ch c"] unfolding M T by (metis fst_conv snd_conv)
    show "active s' i" if "active s i" for i using ac [OF that] .
    show "env_of s' i = env_of s i" if i: "active s i" "i \<noteq> c" for i
      unfolding env_of_tab [OF r(1) ac [OF i(1)]] env_of_tab [OF I i(1)] using r(3) [OF i(1)] i(2) by (simp add: short_names_def fun_eq_iff)
  qed
qed

lemma set_string_result:
  assumes "em_ok e" and "env_ok s" and "PortToContext sp s = Some (c, False)" and n: "length n \<le> env_name_size"
  obtains r s' where "env_set_string e sp n v s = Some (r, s')" and "env_ok s'" and "PortToContext sp s' = Some (c, False)"
    and "(r, env_of s' c) = spec_write (Set_string n v) (env_of s c)"
proof -
  have "length (wname (Set_string n v)) \<le> env_name_size" using n by simp
  then show ?thesis
  proof (rule write_result [OF assms(1-3)])
    fix r s' assume w: "env_call e sp (Set_string n v) s = Some (r, s')" "env_ok s'" "PortToContext sp s' = Some (c, False)"
      "(\<exists>m q. Set_string n v = Set_port m q) \<and> r = ENV_PORT_TABLE_FULL \<and> env_of s' c = env_of s c \<and> table_full s' \<or> (r, env_of s' c) = spec_write (Set_string n v) (env_of s c)"
    show ?thesis by (rule that [OF _ w(2,3)]) (use w(1,4) in \<open>simp_all add: env_call_def\<close>)
  qed
qed

lemma get_string_reads:
  assumes s: "env_ok s" and p: "PortToContext sp s = Some (c, r)" and n: "length n \<le> env_name_size"
  shows "env_get_string sp n s = Some (case env_of s c n of None \<Rightarrow> (ENV_VAR_NOT_FOUND, Some []) | Some (VPort q) \<Rightarrow> (ENV_WRONG_VAR_TYPE, Some [])
     | Some (VStr v) \<Rightarrow> (ENV_SUCCESS, Some v))"
proof -
  obtain ch fs where I: "env_inv s ch fs" using s by (auto simp: env_ok_def)
  have c: "active s c" using port_context [OF p] by simp
  let ?y = "env_find s n (ch (bucket_of_name s c n))"
  note F = found_entry [OF I c n refl]
  have t: "env_of s c n = tab s ch c n" using env_of_tab [OF I c] n by (simp add: short_names_def)
  show ?thesis
  proof (cases "?y = 0")
    case True
    then show ?thesis using F(1,3) p t by (simp add: env_get_string_def)
  next
    case False
    then show ?thesis using F(1,4) p t by (cases "envval (ent s ?y)") (simp_all add: env_get_string_def)
  qed
qed

section \<open>A concrete environment manager\<close>

text \<open>A \<open>malloc\<close> that gives the next number, a kernel that numbers its ports, and a server with one context.\<close>

definition demo_env :: "nat em_env" where
  "demo_env = \<lparr>new_block = (\<lambda>A. Suc (Max (insert 0 A))), port_allocate = (\<lambda>k. (Some (k + 100), k + 1)), port_unrestrict = (\<lambda>p k. k),
     port_deallocate = (\<lambda>p k. (True, k)), vm_allocate = (\<lambda>n k. (True, k)), vm_deallocate = (\<lambda>n k. k), service_checkin = (\<lambda>k. (None, k)),
     environment_port = 1, name_server_port = 2, service_port = 3\<rparr>"

definition demo_state :: "nat env_state" where
  "demo_state = \<lparr>ent = (\<lambda>p. \<lparr>he_name = [], he_context = 0, envval = Str []\<rparr>), enext = (\<lambda>p. 0), hrefcnt = [1 \<mapsto> 1], hhead = (\<lambda>h j. 0),
     contexts = (\<lambda>i. \<lparr>ch_head = 1, rwport = 10, roport = 0, inuse = (i = 0)\<rparr>), HashEntryPool = 0,
     pt_table = (\<lambda>i. \<lparr>pt = 0, refcnt = 0\<rparr>), heap = {}, krn = 0\<rparr>"

lemma demo_env_ok: "em_ok demo_env"
proof -
  have "Suc (Max (insert 0 A)) \<notin> A" if "finite A" for A :: "nat set"
    using that Max_ge [of "insert 0 A"] by (metis Suc_n_not_le_n finite_insert insertI2)
  then show ?thesis by (simp add: em_ok_def demo_env_def)
qed

lemma demo_users: "users demo_state h = (if h = 1 then {0} else {})"
  by (auto simp: users_def demo_state_def MAXCONN_def)

lemma demo_ok: "env_inv demo_state (\<lambda>d. []) []" "env_ok demo_state"
proof -
  have "live demo_state = {1}" by (auto simp: live_def demo_users)
  then show "env_inv demo_state (\<lambda>d. []) []"
    by (simp add: env_inv_def demo_users table_ok_def links_ok_def names_ok_def ports_ok_def cells_def prefs_def) (simp add: demo_state_def)
  then show "env_ok demo_state" by (auto simp: env_ok_def)
qed

lemma demo_port: "PortToContext 10 demo_state = Some (0, False)"
  by (simp add: PortToContext_def demo_state_def MAXCONN_def upt_conv_Cons)

lemma demo_active: "active demo_state i \<longleftrightarrow> i = 0"
  by (auto simp: active_def demo_state_def MAXCONN_def)

lemma demo_empty: "env_of demo_state 0 n = None"
  using env_of_tab [OF demo_ok(1), of 0] by (simp add: demo_active short_names_def tab_def contents_def)

lemma demo_free: "free_context demo_state = Some 1"
  by (simp add: free_context_def demo_state_def MAXCONN_def upt_conv_Cons)

section \<open>The properties\<close>









text \<open>
  (C6) Every call that changes a variable through a read-write port implements the update of one
  variable in the map of one context, with the error codes of the map; only when every slot of the
  port table has references may a port be refused.  The maps of all other contexts stay, whatever tables
  they share with the caller.
\<close>

theorem env_write_refines:
  assumes "em_ok e" and "env_ok s" and "PortToContext sp s = Some (c, False)" and "length (wname w) \<le> env_name_size"
  shows "\<exists>r s'. env_call e sp w s = Some (r, s') \<and> env_ok s'
     \<and> ((r, env_of s' c) = spec_write w (env_of s c) \<or> (\<exists>n q. w = Set_port n q) \<and> r = ENV_PORT_TABLE_FULL \<and> env_of s' c = env_of s c \<and> table_full s')
     \<and> (\<forall>i. active s i \<and> i \<noteq> c \<longrightarrow> env_of s' i = env_of s i)"
  using write_result [OF assms] by metis

theorem env_write_refines_witness:
  "\<exists>r s'. env_call demo_env 10 (Set_string ''TERM'' ''vt100'') demo_state = Some (r, s') \<and> env_ok s'
     \<and> (r, env_of s' 0) = (ENV_SUCCESS, put ''TERM'' (Some (VStr ''vt100'')) (env_of demo_state 0))"
  using env_write_refines [OF demo_env_ok demo_ok(2) demo_port, of "Set_string ''TERM'' ''vt100''"] demo_empty by (fastforce simp: env_name_size_def)

text \<open>
  (C34) A string that is set, for a new variable or in place of the string of an existing one, is
  read back under every name that is the same variable, and all other variables read as before.  A
  variable that holds a port is refused and keeps its port.
\<close>

theorem env_string_round_trip:
  assumes "em_ok e" and "env_ok s" and "PortToContext sp s = Some (c, False)" and "length n \<le> env_name_size" and "length m \<le> env_name_size"
  shows "\<exists>s'. (case env_of s c n of
       Some (VPort q) \<Rightarrow> env_set_string e sp n v s = Some (ENV_WRONG_VAR_TYPE, s') \<and> env_get_string sp m s' = env_get_string sp m s
     | _ \<Rightarrow> env_set_string e sp n v s = Some (ENV_SUCCESS, s')
         \<and> env_get_string sp m s' = (if same_name n m then Some (ENV_SUCCESS, Some v) else env_get_string sp m s))"
proof -
  obtain r s' where s': "env_set_string e sp n v s = Some (r, s')" "env_ok s'"
      "PortToContext sp s' = Some (c, False)" "(r, env_of s' c) = spec_write (Set_string n v) (env_of s c)" by (rule set_string_result [OF assms(1-4)])
  note g = get_string_reads [OF s'(2,3) assms(5)] get_string_reads [OF assms(2,3,5)]
  show ?thesis
  proof (cases "\<exists>q. env_of s c n = Some (VPort q)")
    case True
    then show ?thesis using s'(1,4) g by auto
  next
    case False
    then have r: "r = ENV_SUCCESS" "env_of s' c = put n (Some (VStr v)) (env_of s c)"
      using s'(4) by (auto split: option.splits env_value.splits)
    then show ?thesis using s'(1) g False by (auto simp: put_def split: option.splits env_value.splits)
  qed
qed

theorem env_string_round_trip_witness:
  "\<exists>s'. env_set_string demo_env 10 ''term'' ''vt100'' demo_state = Some (ENV_SUCCESS, s') \<and> env_get_string 10 ''TERM'' s' = Some (ENV_SUCCESS, Some ''vt100'')"
proof -
  have l: "letter (CHR ''t'')" "letter (CHR ''T'')" by (simp_all add: letter_def schar_up) (simp_all add: schar_def Let_def)
  have "ConvUpper ''term'' = ConvUpper ''TERM''" by code_simp
  then have "same_name ''term'' ''TERM''" using same_name_letters [OF l] by simp
  then show ?thesis using env_string_round_trip [OF demo_env_ok demo_ok(2) demo_port, of "''term''" "''TERM''" "''vt100''"] demo_empty
    by (simp add: env_name_size_def)
qed

text \<open>
  Names that begin with a letter are found under each other exactly when they differ in case only.
\<close>

theorem env_letter_names:
  assumes "letter x" and "letter y" and "length (x # a) \<le> env_name_size"
  shows "StrEqCase (ConvUpper (x # a)) (y # b) \<and> Hash (ConvUpper (x # a)) = Hash (ConvUpper (y # b)) \<longleftrightarrow> ConvUpper (x # a) = ConvUpper (y # b)"
  using same_name_letters [OF assms(1,2), of a b] match_same_name [OF assms(3), of "y # b"] by (auto simp: same_name_def)

theorem env_letter_names_witness:
  "StrEqCase (ConvUpper ''Term'') ''tERM'' \<and> Hash (ConvUpper ''Term'') = Hash (ConvUpper ''tERM'')"
proof -
  have "letter (CHR ''T'')" "letter (CHR ''t'')" by (simp_all add: letter_def schar_up) (simp_all add: schar_def Let_def)
  moreover have "ConvUpper ''Term'' = ConvUpper ''tERM''" by code_simp
  ultimately show ?thesis using env_letter_names [of "CHR ''T''" "CHR ''t''" "''erm''" "''ERM''"] by (simp add: env_name_size_def)
qed

text \<open>
  The comparison of names never looks at the first character, and the hash function tells first
  characters apart only modulo 32, so a name that begins with a digit is one variable with a name
  that begins with a letter: setting one of them overwrites the other.
\<close>

theorem env_digit_name_clobbers:
  assumes "em_ok e" and "env_ok s" and "PortToContext sp s = Some (c, False)" and "env_of s c ''1X'' = Some (VStr u)"
  shows "\<exists>s'. env_set_string e sp ''QX'' v s = Some (ENV_SUCCESS, s') \<and> env_get_string sp ''1X'' s' = Some (ENV_SUCCESS, Some v)"
proof -
  have n: "length ''QX'' \<le> env_name_size" "length ''1X'' \<le> env_name_size" by (simp_all add: env_name_size_def)
  have sm: "same_name ''QX'' ''1X''" using same_name_digit same_name_sym by blast
  have q: "env_of s c ''QX'' = Some (VStr u)"
  proof -
    obtain ch fs where I: "env_inv s ch fs" using assms(2) by (auto simp: env_ok_def)
    have c: "active s c" using port_context [OF assms(3)] by simp
    show ?thesis using assms(4) tab_same [OF sm, of s ch c] n unfolding env_of_tab [OF I c] short_names_def by simp
  qed
  obtain r s' where s': "env_set_string e sp ''QX'' v s = Some (r, s')" "env_ok s'"
      "PortToContext sp s' = Some (c, False)" "(r, env_of s' c) = spec_write (Set_string ''QX'' v) (env_of s c)" by (rule set_string_result [OF assms(1-3) n(1)])
  then have r: "r = ENV_SUCCESS" "env_of s' c = put ''QX'' (Some (VStr v)) (env_of s c)" using q by simp_all
  then show ?thesis using s'(1) get_string_reads [OF s'(2,3) n(2)] sm by (simp add: put_def)
qed

theorem env_digit_name_clobbers_witness:
  "\<exists>s s'. env_of s 0 ''1X'' = Some (VStr ''a'') \<and> env_set_string demo_env 10 ''QX'' ''b'' s = Some (ENV_SUCCESS, s')
     \<and> env_get_string 10 ''1X'' s' = Some (ENV_SUCCESS, Some ''b'')"
proof -
  have w: "length ''1X'' \<le> env_name_size" by (simp add: env_name_size_def)
  obtain r s where s: "env_set_string demo_env 10 ''1X'' ''a'' demo_state = Some (r, s)" "env_ok s" "PortToContext 10 s = Some (0, False)"
      "(r, env_of s 0) = spec_write (Set_string ''1X'' ''a'') (env_of demo_state 0)" by (rule set_string_result [OF demo_env_ok demo_ok(2) demo_port w])
  then have "env_of s 0 ''1X'' = Some (VStr ''a'')" by (simp add: demo_empty put_def)
  with env_digit_name_clobbers [OF demo_env_ok s(2,3) this, of "''b''"] show ?thesis by blast
qed

section \<open>Copies and lists\<close>

lemma port_of_new:
  assumes i: "i < MAXCONN" "\<not> inuse (contexts s i)" and cx: "contexts s' = (contexts s)(i := \<lparr>ch_head = h, rwport = p, roport = PORT_NULL, inuse = True\<rparr>)"
    and f: "\<And>j. active s j \<Longrightarrow> rwport (contexts s j) \<noteq> p \<and> roport (contexts s j) \<noteq> p"
  shows "PortToContext p s' = Some (i, False)"
proof -
  have "find (\<lambda>j. inuse (contexts s' j) \<and> (rwport (contexts s' j) = p \<or> roport (contexts s' j) = p)) [0..<MAXCONN] = Some i"
    unfolding find_Some_iff using i f by (intro exI [of _ i]) (auto simp: cx active_def)
  then show ?thesis by (simp add: PortToContext_def cx)
qed

text \<open>
  (C19) A copied environment: it reads as the original when it is made, and a write through the
  new port then leaves the original and every other environment as it was, although the tables are
  shared until that write.
\<close>

theorem env_copy_isolated:
  assumes "em_ok e" and "env_ok s" and "PortToContext sp s = Some (c, r)" and "env_copy_conn e sp s = (ENV_SUCCESS, Some p, s')"
    and "\<forall>j. active s j \<longrightarrow> rwport (contexts s j) \<noteq> p \<and> roport (contexts s j) \<noteq> p" and "length (wname w) \<le> env_name_size"
  shows "\<exists>i. PortToContext p s' = Some (i, False) \<and> env_of s' i = env_of s c
     \<and> (\<exists>r' t. env_call e p w s' = Some (r', t) \<and> (\<forall>j. active s j \<longrightarrow> env_of t j = env_of s j))"
proof -
  obtain ch fs where I: "env_inv s ch fs" using assms(2) by (auto simp: env_ok_def)
  have c: "active s c" using port_context [OF assms(3)] by simp
  have "joins s ch (tab s ch c) p s'" using copy_conn_call [OF I assms(3), where e = e] assms(4) by simp
  then obtain i ch' fs' h where j: "env_inv s' ch' fs'" "i < MAXCONN" "\<not> inuse (contexts s i)" "tab s' ch' i = tab s ch c"
      "contexts s' = (contexts s)(i := \<lparr>ch_head = h, rwport = p, roport = PORT_NULL, inuse = True\<rparr>)"
      "\<And>j. active s j \<Longrightarrow> tab s' ch' j = tab s ch j" unfolding joins_def by blast
  have P: "PortToContext p s' = Some (i, False)" by (rule port_of_new [OF j(2,3,5)]) (use assms(5) in blast)
  have ok: "env_ok s'" using j(1) by (auto simp: env_ok_def)
  have ac: "active s' k" "k \<noteq> i" if "active s k" for k using that j(3,5) by (auto simp: active_def)
  have "active s' i" using j(2,5) by (simp add: active_def)
  from env_of_tab [OF j(1) this] have E: "env_of s' i = env_of s c" using env_of_tab [OF I c] j(4) by simp
  have O: "env_of s' k = env_of s k" if "active s k" for k using env_of_tab [OF j(1) ac(1) [OF that]] env_of_tab [OF I that] j(6) [OF that] by simp
  from write_result [OF assms(1) ok P assms(6)] obtain r' t where "env_call e p w s' = Some (r', t)"
      "\<And>k. active s' k \<Longrightarrow> k \<noteq> i \<Longrightarrow> env_of t k = env_of s' k" by metis
  then show ?thesis using P E O ac by metis
qed

theorem env_copy_isolated_witness:
  "\<exists>s' i. env_copy_conn demo_env 10 demo_state = (ENV_SUCCESS, Some 100, s') \<and> PortToContext 100 s' = Some (i, False) \<and> env_of s' i = env_of demo_state 0
     \<and> (\<exists>r' t. env_call demo_env 100 (Set_string ''TERM'' ''vt100'') s' = Some (r', t) \<and> env_of t 0 = env_of demo_state 0)"
proof -
  obtain s' where s': "env_copy_conn demo_env 10 demo_state = (ENV_SUCCESS, Some 100, s')"
    by (simp add: env_copy_conn_def demo_port demo_free new_port_def Let_def) (simp add: demo_env_def demo_state_def)
  have f: "\<forall>j. active demo_state j \<longrightarrow> rwport (contexts demo_state j) \<noteq> 100 \<and> roport (contexts demo_state j) \<noteq> 100" by (simp add: demo_active) (simp add: demo_state_def)
  have w: "length (wname (Set_string ''TERM'' ''vt100'')) \<le> env_name_size" by (simp add: env_name_size_def)
  show ?thesis using s' env_copy_isolated [OF demo_env_ok demo_ok(2) demo_port s' f w] demo_active by blast
qed

text \<open>
  \<open>env_list_strings\<close> returns exactly the string variables of the context when its two arrays can
  be allocated, and the size it allocates for is the number of pairs it fills in.
\<close>

theorem env_list_strings_exact:
  assumes "env_ok s" and "PortToContext sp s = Some (c, r)" and "\<forall>n k. fst (vm_allocate e n k)"
  shows "\<exists>k xs. env_list_strings e sp s = Some (ENV_SUCCESS, length xs, xs, s\<lparr>krn := k\<rparr>)
     \<and> (\<forall>n v. length n \<le> env_name_size \<longrightarrow> env_of s c n = Some (VStr v) \<longleftrightarrow> (\<exists>m. (m, v) \<in> set xs \<and> same_name n m))"
proof -
  obtain ch fs where I: "env_inv s ch fs" using assms(1) by (auto simp: env_ok_def)
  have c: "active s c" using port_context [OF assms(2)] by simp
  from list_strings_call [OF I assms(2), of e] obtain k xs where x: "env_list_strings e sp s = Some (ENV_SUCCESS, length xs, xs, s\<lparr>krn := k\<rparr>)"
      "\<And>n v. tab s ch c n = Some (VStr v) \<longleftrightarrow> (\<exists>m. (m, v) \<in> set xs \<and> same_name n m)" using assms(3) by blast
  then show ?thesis unfolding env_of_tab [OF I c] by (intro exI [of _ k] exI [of _ xs]) (simp add: short_names_def)
qed

theorem env_list_strings_exact_witness:
  "\<exists>k xs. env_list_strings demo_env 10 demo_state = Some (ENV_SUCCESS, length xs, xs, demo_state\<lparr>krn := k\<rparr>)"
  using env_list_strings_exact [OF demo_ok(2) demo_port, of demo_env] by (auto simp: demo_env_def)

lemma drop_port_counts: "refcnt (pt_table (drop_port e p s) i) = refcnt (pt_table s i) \<and> HashEntryPool (drop_port e p s) = HashEntryPool s \<and> enext (drop_port e p s) = enext s"
  by (simp add: drop_port_def remove_dead_port_def set_pt_def split: option.split)

text \<open>
  When the last context of a table disconnects, the loop that should return the entries of the
  table to the pool and give up the ports they name does not run: the pool and the reference
  counts of all ports are what they were.
\<close>

theorem env_disconnect_leaks:
  assumes "env_disconnect e sp s = Some (r, s')"
  shows "HashEntryPool s' = HashEntryPool s \<and> enext s' = enext s \<and> (\<forall>i. refcnt (pt_table s' i) = refcnt (pt_table s i))"
  using assms
  by (auto simp: env_disconnect_def Let_def dispose_nothing set_context_def upd_hrefcnt_def drop_port_counts split: option.splits if_splits)

theorem env_disconnect_leaks_witness:
  "\<exists>r s'. env_disconnect demo_env 10 demo_state = Some (r, s') \<and> HashEntryPool s' = HashEntryPool demo_state"
  using disconnect_rw [OF demo_ok(1) demo_port, of demo_env] env_disconnect_leaks [of demo_env 10 demo_state] by blast

end
