(* ===== verification/Netmem_Sched.thy ===== *)
theory Netmem_Sched
  imports Mach_Prelude
begin

text \<open>
  The scheduler of the network shared memory server, \<open>mach/etc/netmemoryserver/scheduler.c\<close>: a
  memory object is an array of minimal pages, each unused, read by a set of kernels or written by
  one kernel; requests of kernels that must wait for a writer are linked behind each other.  The
  messages the server sends to the kernels are kept in \<open>sent\<close>, in the order in which they are sent.
  A loop that does not end gives \<open>None\<close>.
\<close>

unbundle bit_operations_syntax

section \<open>Data\<close>

definition MAX_NUM_KERNELS :: nat where "MAX_NUM_KERNELS = 32"
definition MIN_PAGE_SIZE :: nat where "MIN_PAGE_SIZE = 4096"
definition MIN_PAGE_SHIFT :: nat where "MIN_PAGE_SHIFT = 12"
definition MAX_PAGE_SIZE :: nat where "MAX_PAGE_SIZE = 8192"
definition MAX_PAGE_SHIFT :: nat where "MAX_PAGE_SHIFT = 13"

type_synonym kernel_id_set = "32 word"

definition SET_NULL :: kernel_id_set where "SET_NULL = 0"
definition SET_ADD :: "nat \<Rightarrow> kernel_id_set \<Rightarrow> kernel_id_set" where "SET_ADD elt S = S OR push_bit elt 1"
definition SET_DELETE :: "nat \<Rightarrow> kernel_id_set \<Rightarrow> kernel_id_set" where "SET_DELETE elt S = S AND NOT (push_bit elt 1)"
definition SET_MEMBER :: "kernel_id_set \<Rightarrow> nat \<Rightarrow> bool" where "SET_MEMBER S elt \<longleftrightarrow> S AND push_bit elt 1 \<noteq> 0"

datatype use_t = USE_NONE | USE_READ | USE_WRITE

text \<open>The union \<open>user\<close> is one 32-bit word; the member \<open>writer\<close> is its low half.\<close>

definition writer_of :: "32 word \<Rightarrow> nat" where
  "writer_of u = unat (u AND 0xFFFF)"

definition set_writer :: "nat \<Rightarrow> 32 word \<Rightarrow> 32 word" where
  "set_writer k u = (u AND NOT 0xFFFF) OR (word_of_nat k AND 0xFFFF)"

record min_page =
  use :: use_t
  user :: "32 word"
  mp_head :: ptr
  mp_tail :: ptr
  write_waiters :: kernel_id_set
  data_waiters :: kernel_id_set
  pending_completes :: kernel_id_set

record request =
  r_kernel :: int
  first_page :: nat
  last_page :: nat
  follow :: ptr
  sibling :: ptr
  r_next :: ptr
  r_count :: int
  r_mark :: nat

record kernel_t =
  request_port :: nat
  page_size :: nat
  real_page_size :: nat

record fault_info =
  read_faults :: int
  write_faults :: int
  protection_faults :: int

text \<open>What the kernel may still not do with the data it is given.\<close>

datatype supply_t = SUPPLY_ALL | SUPPLY_READ | SUPPLY_NONE

text \<open>
  The messages to a kernel: data at an offset, a request to clean and flush a range and to allow at
  most some access to it, with the port to answer to, and the report of an error; the message by
  which the server is told to watch a port; and the calls by which a port or memory is given back.
\<close>

datatype pager_msg = Data_provided nat "nat list" supply_t | Lock_request nat nat bool bool supply_t nat | Data_error nat nat
  | Set_attributes | Port_death nat nat | Port_deallocate | Vm_deallocate nat

record netobj =
  storage :: "nat \<Rightarrow> nat"
  paging_object :: nat
  object_size :: nat
  kerninfo :: "nat \<Rightarrow> kernel_t"
  faults_per_page :: "nat \<Rightarrow> fault_info"
  faults_total :: fault_info
  min_pages :: "nat \<Rightarrow> min_page"
  req :: "ptr \<Rightarrow> request"
  free_requests :: ptr
  all_requests :: ptr
  omark :: nat
  outstanding :: "nat \<Rightarrow> nat \<Rightarrow> int"
  req_heap :: "ptr set"
  sent :: "(nat \<times> pager_msg) list"

text \<open>
  The C library and what is read from variables that are not initialised: \<open>satisfy_request\<close> does not
  set \<open>first_page\<close>, \<open>last_page\<close> and \<open>use\<close> for a request of a kernel that has been closed.
  \<open>junk_shift\<close> is the value of \<open>1 << -1\<close>, which C leaves open.
\<close>

record nm_env =
  nm_malloc :: "ptr set \<Rightarrow> ptr"
  server_port :: nat
  junk_shift :: nat
  junk_first :: nat
  junk_last :: nat
  junk_use :: use_t

definition PAGE_TO_OFFSET :: "nat \<Rightarrow> nat" where "PAGE_TO_OFFSET page = push_bit MIN_PAGE_SHIFT page"
definition OFFSET_TO_PAGE :: "nat \<Rightarrow> nat" where "OFFSET_TO_PAGE offset = drop_bit MIN_PAGE_SHIFT offset"

text \<open>\<open>offset & ~(size - 1)\<close> on unsigned words.\<close>

definition round_down :: "nat \<Rightarrow> nat \<Rightarrow> nat" where
  "round_down offset sz = unat ((word_of_nat offset :: 32 word) AND NOT (word_of_nat sz - 1))"

definition upd_page :: "nat \<Rightarrow> (min_page \<Rightarrow> min_page) \<Rightarrow> netobj \<Rightarrow> netobj" where
  "upd_page j f s = s\<lparr>min_pages := (min_pages s)(j := f (min_pages s j))\<rparr>"

definition upd_req :: "ptr \<Rightarrow> (request \<Rightarrow> request) \<Rightarrow> netobj \<Rightarrow> netobj" where
  "upd_req r f s = s\<lparr>req := (req s)(r := f (req s r))\<rparr>"

definition send :: "nat \<Rightarrow> pager_msg \<Rightarrow> netobj \<Rightarrow> netobj" where
  "send p m s = s\<lparr>sent := sent s @ [(p, m)]\<rparr>"

text \<open>The pages of a loop from \<open>first_page\<close> to \<open>last_page\<close>.\<close>

definition pages :: "nat \<Rightarrow> nat \<Rightarrow> nat list" where
  "pages f l = [f..<Suc l]"

section \<open>Messages\<close>

definition provide :: "nat \<Rightarrow> nat \<Rightarrow> nat \<Rightarrow> supply_t \<Rightarrow> netobj \<Rightarrow> netobj" where
  "provide kn offset sz prot s =
     send (request_port (kerninfo s kn)) (Data_provided offset (map (storage s) [offset..<offset + sz]) prot) s"

text \<open>A kernel whose pages are smaller than a minimal page gets all the pages of the minimal page.\<close>

definition DATA_PROVIDED :: "nat \<Rightarrow> nat \<Rightarrow> supply_t \<Rightarrow> netobj \<Rightarrow> netobj" where
  "DATA_PROVIDED kn offset prot s =
     (let sz = real_page_size (kerninfo s kn) in
      if sz < MIN_PAGE_SIZE
      then fold (\<lambda>i. provide kn (offset + i * sz) sz prot) [0..<MIN_PAGE_SIZE div sz] s
      else provide kn offset sz prot s)"

definition LOCK_READER :: "nat \<Rightarrow> nat \<Rightarrow> nat \<Rightarrow> netobj \<Rightarrow> netobj" where
  "LOCK_READER kn offset len s = send (request_port (kerninfo s kn)) (Lock_request offset len False True SUPPLY_NONE 0) s"

definition LOCK_WRITER :: "nat \<Rightarrow> nat \<Rightarrow> nat \<Rightarrow> netobj \<Rightarrow> netobj" where
  "LOCK_WRITER kn offset len s =
     send (request_port (kerninfo s kn)) (Lock_request offset len True True SUPPLY_NONE (paging_object s)) s"

definition UNLOCK_WRITER :: "nat \<Rightarrow> nat \<Rightarrow> nat \<Rightarrow> netobj \<Rightarrow> netobj" where
  "UNLOCK_WRITER kn offset len s = send (request_port (kerninfo s kn)) (Lock_request offset len False False SUPPLY_ALL 0) s"

section \<open>Requests\<close>

definition req_alloc :: "nm_env \<Rightarrow> netobj \<Rightarrow> ptr \<times> netobj" where
  "req_alloc e s =
     (let r = free_requests s in
      if r \<noteq> 0 then (r, s\<lparr>free_requests := follow (req s r)\<rparr>)
      else (let r = nm_malloc e (req_heap s);
                s1 = s\<lparr>req_heap := insert r (req_heap s)\<rparr>;
                s2 = upd_req r (\<lambda>x. x\<lparr>r_next := all_requests s1\<rparr>) s1
            in (r, s2\<lparr>all_requests := r\<rparr>)))"

definition req_free :: "ptr \<Rightarrow> netobj \<Rightarrow> netobj" where
  "req_free r s = (let s1 = upd_req r (\<lambda>x. x\<lparr>follow := free_requests s\<rparr>) s in s1\<lparr>free_requests := r\<rparr>)"

definition add_outstanding :: "nat \<Rightarrow> nat \<Rightarrow> int \<Rightarrow> netobj \<Rightarrow> netobj" where
  "add_outstanding kn m d s = s\<lparr>outstanding := (outstanding s)(kn := (outstanding s kn)(m := s16 (outstanding s kn m + d)))\<rparr>"

definition req_mark :: "ptr \<Rightarrow> nat \<Rightarrow> netobj \<Rightarrow> netobj" where
  "req_mark r kn s = (let m = omark s in add_outstanding kn m 1 (upd_req r (\<lambda>x. x\<lparr>r_mark := m\<rparr>) s))"

definition req_unmark :: "ptr \<Rightarrow> nat \<Rightarrow> netobj \<Rightarrow> netobj" where
  "req_unmark r kn s = add_outstanding kn (r_mark (req s r)) (- 1) s"

section \<open>Granting access\<close>

definition mark_reader :: "nat \<Rightarrow> nat \<Rightarrow> netobj \<Rightarrow> netobj" where
  "mark_reader kn j s =
     (let s1 = (if use (min_pages s j) = USE_NONE then upd_page j (\<lambda>p. p\<lparr>use := USE_READ, user := SET_NULL\<rparr>) s else s)
      in upd_page j (\<lambda>p. p\<lparr>user := SET_ADD kn (user p)\<rparr>) s1)"

definition add_reader :: "nat \<Rightarrow> nat \<Rightarrow> nat \<Rightarrow> netobj \<Rightarrow> netobj" where
  "add_reader f l kn s = DATA_PROVIDED kn (PAGE_TO_OFFSET f) SUPPLY_READ (fold (mark_reader kn) (pages f l) s)"

text \<open>A reader is taken off the pages its own page covers, and told.\<close>

definition boot_reader :: "nat \<Rightarrow> nat \<Rightarrow> nat \<Rightarrow> netobj \<Rightarrow> netobj" where
  "boot_reader reader its_offset its_size s =
     (let start = drop_bit MIN_PAGE_SHIFT its_offset; stop = drop_bit MIN_PAGE_SHIFT (its_offset + its_size);
          s1 = fold (\<lambda>j. upd_page j (\<lambda>p. p\<lparr>user := SET_DELETE reader (user p)\<rparr>)) [start..<stop] s
      in LOCK_READER reader its_offset its_size s1)"

text \<open>First the readers whose pages properly include the page, then all other readers.\<close>

definition boot_bigger :: "nat \<Rightarrow> nat \<Rightarrow> nat \<Rightarrow> nat \<Rightarrow> netobj \<Rightarrow> netobj" where
  "boot_bigger f offset sz reader s =
     (if \<not> SET_MEMBER (user (min_pages s f)) reader then s
      else (let its_size = page_size (kerninfo s reader) in
            if its_size > sz then boot_reader reader (offset XOR (its_size - 1)) its_size s else s))"

definition boot_other :: "nat \<Rightarrow> nat \<Rightarrow> nat \<Rightarrow> bool \<times> netobj \<Rightarrow> bool \<times> netobj" where
  "boot_other kn j reader bs =
     (case bs of (were, s) \<Rightarrow>
        if \<not> SET_MEMBER (user (min_pages s j)) reader then (were, s)
        else if reader = kn then (True, s)
        else (were, boot_reader reader (PAGE_TO_OFFSET j) (page_size (kerninfo s reader)) s))"

definition boot_page :: "nat \<Rightarrow> nat \<Rightarrow> bool \<times> netobj \<Rightarrow> bool \<times> netobj" where
  "boot_page kn j bs = (if use (min_pages (snd bs) j) = USE_READ then fold (boot_other kn j) [0..<32] bs else bs)"

definition add_writer :: "nat \<Rightarrow> nat \<Rightarrow> nat \<Rightarrow> bool \<Rightarrow> netobj \<Rightarrow> netobj" where
  "add_writer f l kn needs_data s =
     (let offset = PAGE_TO_OFFSET f; sz = page_size (kerninfo s kn);
          s1 = (if use (min_pages s f) = USE_READ then fold (boot_bigger f offset sz) [0..<32] s else s)
      in case fold (boot_page kn) (pages f l) (False, s1) of (we_were_reading, s2) \<Rightarrow>
           (let s3 = fold (\<lambda>j. upd_page j (\<lambda>p. p\<lparr>use := USE_WRITE, user := set_writer kn (user p)\<rparr>)) (pages f l) s2
            in if needs_data \<or> \<not> we_were_reading then DATA_PROVIDED kn offset SUPPLY_ALL s3
               else UNLOCK_WRITER kn offset sz s3))"

section \<open>Waiting\<close>

text \<open>Every writer of the pages from \<open>j\<close> on is asked to give up its page for the request \<open>r\<close>.\<close>

partial_function (option) boot_writers :: "ptr \<Rightarrow> nat \<Rightarrow> nat \<Rightarrow> netobj \<Rightarrow> netobj option" where
  "boot_writers r j l s =
     (if j > l then Some s
      else if use (min_pages s j) \<noteq> USE_WRITE then boot_writers r (j + 1) l s
      else (let writer = writer_of (user (min_pages s j));
                s1 = req_mark r writer (upd_page j (\<lambda>p. p\<lparr>mp_head := r\<rparr>) s);
                its_size = page_size (kerninfo s1 writer);
                s2 = LOCK_WRITER writer (PAGE_TO_OFFSET j) its_size s1;
                s3 = upd_req r (\<lambda>x. x\<lparr>r_count := r_count x + 1\<rparr>) s2
            in boot_writers r (j + drop_bit MIN_PAGE_SHIFT its_size) l s3))"

definition add_expecting :: "ptr \<Rightarrow> netobj \<Rightarrow> netobj option" where
  "add_expecting r s =
     (let f = first_page (req s r); l = last_page (req s r);
          s1 = upd_req r (\<lambda>x. x\<lparr>r_count := 0, follow := 0, sibling := 0\<rparr>) s;
          s2 = fold (\<lambda>j. upd_page j (\<lambda>p. p\<lparr>mp_tail := r\<rparr>)) (pages f l) s1;
          writer = writer_of (user (min_pages s2 f)); its_size = page_size (kerninfo s2 writer)
      in if use (min_pages s2 f) = USE_WRITE \<and> its_size > page_size (kerninfo s2 (nat (r_kernel (req s2 r))))
         then Some (LOCK_WRITER writer (round_down (PAGE_TO_OFFSET f) its_size) its_size
                (req_mark r writer (upd_page f (\<lambda>p. p\<lparr>mp_head := r\<rparr>) s2)))
         else boot_writers r f l s2)"

definition follow_tail :: "ptr \<Rightarrow> nat \<Rightarrow> netobj \<Rightarrow> netobj" where
  "follow_tail r j s =
     (let t = mp_tail (min_pages s j);
          s1 = (if t \<noteq> 0 \<and> follow (req s t) = 0
                then upd_req r (\<lambda>x. x\<lparr>r_count := r_count x + 1\<rparr>) (upd_req t (\<lambda>x. x\<lparr>follow := r\<rparr>) s) else s)
      in upd_page j (\<lambda>p. p\<lparr>mp_tail := r\<rparr>) s1)"

text \<open>The place of a request among the siblings that follow a bigger one.\<close>

partial_function (option) sibling_place :: "(ptr \<Rightarrow> request) \<Rightarrow> nat \<Rightarrow> ptr \<Rightarrow> ptr option" where
  "sibling_place R f r = (if first_page (R (sibling (R r))) < f then sibling_place R f (sibling (R r)) else Some r)"

definition add_sleeping :: "ptr \<Rightarrow> netobj \<Rightarrow> netobj option" where
  "add_sleeping r s =
     (let f = first_page (req s r); l = last_page (req s r);
          s1 = upd_req r (\<lambda>x. x\<lparr>r_count := 0, follow := 0, sibling := 0\<rparr>) s;
          oldtail = mp_tail (min_pages s1 f);
          s2 = fold (follow_tail r) (pages f l) s1
      in if r_count (req s2 r) > 0 then Some s2
         else (let q = follow (req s2 oldtail) in
               if q = 0 \<or> first_page (req s2 q) > f
               then Some (upd_req r (\<lambda>x. x\<lparr>sibling := q\<rparr>) (upd_req oldtail (\<lambda>x. x\<lparr>follow := r\<rparr>) s2))
               else if sibling (req s2 q) = 0 then Some (upd_req q (\<lambda>x. x\<lparr>sibling := r\<rparr>) s2)
               else map_option (\<lambda>q'. upd_req q' (\<lambda>x. x\<lparr>sibling := r\<rparr>) (upd_req r (\<lambda>x. x\<lparr>sibling := sibling (req s2 q')\<rparr>) s2))
                      (sibling_place (req s2) f q)))"

section \<open>Satisfying requests\<close>

text \<open>The first half of \<open>satisfy_request\<close>: the kernel of the request gets the pages it waits for.\<close>

definition grant :: "ptr \<Rightarrow> netobj \<Rightarrow> use_t \<times> netobj" where
  "grant r s =
     (let x = req s r; k = nat (r_kernel x); f = first_page x; l = last_page x;
          u = (if SET_MEMBER (write_waiters (min_pages s f)) k then USE_WRITE else USE_READ);
          s1 = (if SET_MEMBER (write_waiters (min_pages s f)) k then upd_page f (\<lambda>p. p\<lparr>write_waiters := SET_DELETE k (write_waiters p)\<rparr>) s else s);
          needs_data = SET_MEMBER (data_waiters (min_pages s1 f)) k;
          s2 = (if needs_data then upd_page f (\<lambda>p. p\<lparr>data_waiters := SET_DELETE k (data_waiters p)\<rparr>) s1 else s1)
      in (u, if u = USE_WRITE then add_writer f l k needs_data s2 else add_reader f l k s2))"

definition mark_siblings :: "ptr \<Rightarrow> nat \<Rightarrow> netobj \<Rightarrow> netobj option" where
  "mark_siblings r writer s =
     fold_from (\<lambda>s r. sibling (req s r)) (\<lambda>r s. req_mark r writer (upd_page (first_page (req s r)) (\<lambda>p. p\<lparr>mp_head := r\<rparr>) s)) r s"

text \<open>
  \<open>satisfy False r\<close> is \<open>satisfy_request (r)\<close>, \<open>satisfy True r\<close> its last loop, over a request and its
  siblings.  A request of a closed kernel grants nothing.
\<close>

partial_function (option) satisfy :: "nm_env \<Rightarrow> bool \<Rightarrow> ptr \<Rightarrow> netobj \<Rightarrow> netobj option" where
  "satisfy e siblings r s =
     (if siblings then
        (if r = 0 then Some s
         else Option.bind (satisfy e False r s) (\<lambda>s1. satisfy e True (sibling (req s1 r)) (req_free r s1)))
      else
        (let dead = (r_kernel (req s r) = - 1);
             f = (if dead then junk_first e else first_page (req s r));
             l = (if dead then junk_last e else last_page (req s r));
             us1 = (if dead then (junk_use e, s) else grant r s);
             s2 = fold (\<lambda>j. upd_page j (\<lambda>p. if mp_tail p = r then p\<lparr>mp_tail := 0\<rparr> else p)) (pages f l) (snd us1);
             q = follow (req s2 r)
         in if q = 0 then Some s2
            else if first_page (req s2 q) < f \<or> last_page (req s2 q) > l then
              (let s3 = upd_req q (\<lambda>x. x\<lparr>r_count := r_count x - 1\<rparr>) s2 in
               if r_count (req s3 q) > 0 then Some s3
               else Option.bind (boot_writers q (first_page (req s3 q)) (last_page (req s3 q)) s3)
                      (\<lambda>s4. if r_count (req s4 q) = 0
                           then Option.bind (satisfy e False q s4) (\<lambda>s5. Some (req_free q s5)) else Some s4))
            else if fst us1 = USE_WRITE then
              (let writer = writer_of (user (min_pages s2 f)); its_size = page_size (kerninfo s2 writer)
               in mark_siblings q writer (LOCK_WRITER writer (PAGE_TO_OFFSET f) its_size s2))
            else satisfy e True q s2))"

definition satisfy_request :: "nm_env \<Rightarrow> ptr \<Rightarrow> netobj \<Rightarrow> netobj option" where
  "satisfy_request e r s = satisfy e False r s"

section \<open>The exported routines\<close>

text \<open>A request is queued: it expects the writers to leave, or sleeps behind requests that do.\<close>

definition wait_for :: "nm_env \<Rightarrow> nat \<Rightarrow> nat \<Rightarrow> nat \<Rightarrow> bool \<Rightarrow> bool \<Rightarrow> netobj \<Rightarrow> netobj option" where
  "wait_for e kn f l wr needs_data s =
     (let have_expecting = (\<exists>j\<in>set (pages f l). use (min_pages s j) = USE_WRITE \<and> mp_tail (min_pages s j) \<noteq> 0) in
      case req_alloc e s of (r, s1) \<Rightarrow>
        (let s2 = upd_req r (\<lambda>x. x\<lparr>r_kernel := int kn, first_page := f, last_page := l\<rparr>) s1;
             s3 = (if wr then upd_page f (\<lambda>p. p\<lparr>write_waiters := SET_ADD kn (write_waiters p)\<rparr>) s2 else s2);
             s4 = (if needs_data then upd_page f (\<lambda>p. p\<lparr>data_waiters := SET_ADD kn (data_waiters p)\<rparr>) s3 else s3)
         in if have_expecting then add_sleeping r s4 else add_expecting r s4))"

definition is_writer :: "nat \<Rightarrow> nat \<Rightarrow> netobj \<Rightarrow> bool" where
  "is_writer f kn s \<longleftrightarrow> use (min_pages s f) = USE_WRITE \<and> writer_of (user (min_pages s f)) = kn"

definition evicted :: "nat \<Rightarrow> nat \<Rightarrow> netobj \<Rightarrow> bool" where
  "evicted f l s \<longleftrightarrow> (\<exists>j\<in>set (pages f l). mp_tail (min_pages s j) \<noteq> 0)"

definition have_writer :: "nat \<Rightarrow> nat \<Rightarrow> netobj \<Rightarrow> bool" where
  "have_writer f l s \<longleftrightarrow> (\<exists>j\<in>set (pages f l). use (min_pages s j) = USE_WRITE)"

definition Add_reading_kernel :: "nm_env \<Rightarrow> nat \<Rightarrow> nat \<Rightarrow> nat \<Rightarrow> bool \<Rightarrow> netobj \<Rightarrow> netobj option" where
  "Add_reading_kernel e kn offset len needs_data s =
     (let f = OFFSET_TO_PAGE offset; l = OFFSET_TO_PAGE (offset + len) - 1 in
      if is_writer f kn s \<and> \<not> evicted f l s
      then Some (if needs_data then DATA_PROVIDED kn offset SUPPLY_ALL s else UNLOCK_WRITER kn offset len s)
      else if SET_MEMBER (write_waiters (min_pages s f)) kn then Some s
      else if SET_MEMBER (data_waiters (min_pages s f)) kn then Some s
      else if \<not> needs_data then Some s
      else if use (min_pages s f) = USE_READ \<and> SET_MEMBER (user (min_pages s f)) kn then Some (DATA_PROVIDED kn offset SUPPLY_READ s)
      else if \<not> have_writer f l s then Some (add_reader f l kn s)
      else wait_for e kn f l False True s)"

definition Add_writing_kernel :: "nm_env \<Rightarrow> nat \<Rightarrow> nat \<Rightarrow> nat \<Rightarrow> bool \<Rightarrow> netobj \<Rightarrow> netobj option" where
  "Add_writing_kernel e kn offset len needs_data s =
     (let f = OFFSET_TO_PAGE offset; l = OFFSET_TO_PAGE (offset + len) - 1 in
      if is_writer f kn s \<and> \<not> evicted f l s
      then Some (if needs_data then DATA_PROVIDED kn offset SUPPLY_ALL s else UNLOCK_WRITER kn offset len s)
      else if SET_MEMBER (write_waiters (min_pages s f)) kn
      then Some (if needs_data then upd_page f (\<lambda>p. p\<lparr>data_waiters := SET_ADD kn (data_waiters p)\<rparr>) s else s)
      else if SET_MEMBER (data_waiters (min_pages s f)) kn
      then Some (upd_page f (\<lambda>p. p\<lparr>write_waiters := SET_ADD kn (write_waiters p)\<rparr>) s)
      else if \<not> have_writer f l s then Some (add_writer f l kn needs_data s)
      else wait_for e kn f l True needs_data s)"

text \<open>All requests that the pages of a departing writer point to are satisfied.\<close>

partial_function (option) satisfy_heads :: "nm_env \<Rightarrow> nat \<Rightarrow> nat \<Rightarrow> nat \<Rightarrow> netobj \<Rightarrow> netobj option" where
  "satisfy_heads e kn j l s =
     (if j > l then Some s
      else if mp_head (min_pages s j) = 0 then satisfy_heads e kn (j + 1) l s
      else (let r = mp_head (min_pages s j);
                s1 = req_unmark r kn (upd_page j (\<lambda>p. p\<lparr>mp_head := 0\<rparr>) s);
                j' = last_page (req s1 r)
            in Option.bind (satisfy_request e r s1) (\<lambda>s2. satisfy_heads e kn (j' + 1) l (req_free r s2))))"

definition write_back :: "nat \<Rightarrow> nat list \<Rightarrow> netobj \<Rightarrow> netobj" where
  "write_back offset data s = s\<lparr>storage := (\<lambda>a. if offset \<le> a \<and> a < offset + length data then data ! (a - offset) else storage s a)\<rparr>"

definition Subtract_kernel :: "nm_env \<Rightarrow> nat \<Rightarrow> nat \<Rightarrow> nat list option \<Rightarrow> nat \<Rightarrow> netobj \<Rightarrow> netobj option" where
  "Subtract_kernel e kn offset data len s =
     (let round_offset = (if len < MIN_PAGE_SIZE then round_down offset MIN_PAGE_SIZE else offset);
          round_length = (if len < MIN_PAGE_SIZE then MIN_PAGE_SIZE else len);
          f = OFFSET_TO_PAGE round_offset; l = OFFSET_TO_PAGE (round_offset + round_length) - 1
      in if data = None \<and> SET_MEMBER (pending_completes (min_pages s f)) kn
         then Some (upd_page f (\<lambda>p. p\<lparr>pending_completes := SET_DELETE kn (pending_completes p)\<rparr>) s)
         else if use (min_pages s f) \<noteq> USE_WRITE \<or> writer_of (user (min_pages s f)) \<noteq> kn then Some s
         else (case data of Some d \<Rightarrow> Some (write_back offset d s)
           | None \<Rightarrow>
             (let s1 = fold (\<lambda>j. upd_page j (\<lambda>p. p\<lparr>use := USE_NONE\<rparr>)) (pages f l) s; r = mp_head (min_pages s1 f) in
              if r \<noteq> 0 \<and> (first_page (req s1 r) < f \<or> last_page (req s1 r) > l)
              then (let s2 = req_unmark r kn (upd_page f (\<lambda>p. p\<lparr>mp_head := 0\<rparr>) s1);
                        s3 = upd_req r (\<lambda>x. x\<lparr>r_count := r_count x - 1\<rparr>) s2
                    in if r_count (req s3 r) = 0 then map_option (req_free r) (satisfy_request e r s3) else Some s3)
              else satisfy_heads e kn f l s1)))"

definition Kernel_open :: "nat \<Rightarrow> netobj \<Rightarrow> netobj" where
  "Kernel_open kn s = send (request_port (kerninfo s kn)) Set_attributes s"

primrec close_pages :: "nm_env \<Rightarrow> nat \<Rightarrow> nat list \<Rightarrow> netobj \<Rightarrow> netobj option" where
  "close_pages e kn [] s = Some s"
| "close_pages e kn (j # js) s =
     Option.bind
       (if use (min_pages s j) = USE_READ then Some (upd_page j (\<lambda>p. p\<lparr>user := SET_DELETE kn (user p)\<rparr>) s)
        else if is_writer j kn s then Subtract_kernel e kn (PAGE_TO_OFFSET j) None (page_size (kerninfo s kn)) s
        else Some s)
       (\<lambda>s1. close_pages e kn js
          (upd_page j (\<lambda>p. p\<lparr>write_waiters := SET_DELETE kn (write_waiters p), data_waiters := SET_DELETE kn (data_waiters p),
             pending_completes := SET_DELETE kn (pending_completes p)\<rparr>) s1))"

definition Kernel_close :: "nm_env \<Rightarrow> nat \<Rightarrow> netobj \<Rightarrow> netobj option" where
  "Kernel_close e kn s =
     Option.bind
       (fold_from (\<lambda>s r. r_next (req s r)) (\<lambda>r. upd_req r (\<lambda>x. if r_kernel x = int kn then x\<lparr>r_kernel := - 1\<rparr> else x)) (all_requests s) s)
       (\<lambda>s1. map_option
          (\<lambda>s2. s2\<lparr>kerninfo := (kerninfo s2)(kn := (kerninfo s2 kn)\<lparr>request_port := 0\<rparr>),
                  outstanding := (outstanding s2)(kn := (outstanding s2 kn)(0 := 0, 1 := 0))\<rparr>)
          (close_pages e kn [0..<drop_bit MIN_PAGE_SHIFT (object_size s1)] s1))"

text \<open>The timer: kernels that have not answered since the tick before the last one are closed.\<close>

primrec close_late :: "nm_env \<Rightarrow> nat \<Rightarrow> nat list \<Rightarrow> netobj \<Rightarrow> netobj option" where
  "close_late e m [] s = Some s"
| "close_late e m (kn # ks) s =
     Option.bind (if outstanding s kn m > 0 then Kernel_close e kn s else Some s) (\<lambda>s1. close_late e m ks s1)"

definition timed_out :: "nm_env \<Rightarrow> netobj \<Rightarrow> netobj option" where
  "timed_out e s =
     (let newmark = (if omark s = 0 then 1 else 0)
      in map_option (\<lambda>s1. s1\<lparr>omark := newmark\<rparr>) (close_late e newmark [0..<MAX_NUM_KERNELS] s))"

definition no_page :: min_page where
  "no_page = \<lparr>use = USE_NONE, user = 0, mp_head = 0, mp_tail = 0, write_waiters = 0, data_waiters = 0, pending_completes = 0\<rparr>"

text \<open>\<open>None\<close> is \<open>NETMEMORY_RESOURCE_SHORTAGE\<close>; \<open>ok\<close> is whether \<open>calloc\<close> succeeds.\<close>

definition Object_create :: "bool \<Rightarrow> netobj \<Rightarrow> netobj option" where
  "Object_create ok s =
     (let num_min_pages = drop_bit MIN_PAGE_SHIFT (object_size s)
      in if \<not> ok then None else Some (s\<lparr>min_pages := (\<lambda>j. if j < num_min_pages then no_page else min_pages s j)\<rparr>))"

end
