(* ===== verification/Netmem_Rep.thy ===== *)
theory Netmem_Rep
  imports Netmem_Sched
begin

text \<open>
  Objects whose kernels all have the same page size: every page of such an object is a group of
  \<open>B\<close> minimal pages that are always used together, with a queue of waiting requests.  A page is
  represented as who has access to it and who waits for it, in order.
\<close>

section \<open>Sets and the union\<close>

lemma SET_MEMBER_bit: "SET_MEMBER S k \<longleftrightarrow> bit S k"
  by (simp add: SET_MEMBER_def bit_iff_and_push_bit_not_eq_0)

lemma bit_SET_ADD: "k < 32 \<Longrightarrow> bit (SET_ADD k S) j \<longleftrightarrow> j = k \<or> bit S j"
  unfolding SET_ADD_def set_bit_eq_or [symmetric] by (auto simp: bit_set_bit_iff)

lemma bit_SET_DELETE: "bit (SET_DELETE k S) j \<longleftrightarrow> j \<noteq> k \<and> bit S j"
  unfolding SET_DELETE_def unset_bit_eq_and_not [symmetric] by (auto simp: bit_unset_bit_iff)

lemma bit_SET_NULL: "\<not> bit SET_NULL j"
  by (simp add: SET_NULL_def)

lemma merge_mask: "((u AND NOT m) OR (w AND m)) AND m = w AND (m :: 32 word)"
  by (rule bit_eqI) (auto simp: bit_and_iff bit_or_iff bit_not_iff)

lemma writer_of_set: "k < 32 \<Longrightarrow> writer_of (set_writer k u) = k"
proof -
  assume k: "k < 32"
  have "set_writer k u AND 0xFFFF = word_of_nat k AND 0xFFFF"
    unfolding set_writer_def by (rule merge_mask)
  moreover have "(0xFFFF :: 32 word) = mask 16" by (simp add: mask_eq_exp_minus_1)
  ultimately have "writer_of (set_writer k u) = unat (take_bit 16 (word_of_nat k :: 32 word))" by (simp add: writer_of_def take_bit_eq_mask)
  also have "\<dots> = take_bit 16 (take_bit 32 k)" by (simp add: unsigned_take_bit_eq unsigned_of_nat)
  also have "\<dots> = k" using k by (simp add: take_bit_nat_eq_self)
  finally show "writer_of (set_writer k u) = k" .
qed

section \<open>Pages and their queues\<close>

datatype access = Free | Readers "nat set" | Writer nat

text \<open>A waiting kernel, whether it wants to write, and whether it needs the data.\<close>

type_synonym waiter = "nat \<times> bool \<times> bool"

record apage =
  acc :: access
  wq :: "waiter list"

fun readers :: "access \<Rightarrow> nat set" where
  "readers (Readers S) = S" | "readers Free = {}" | "readers (Writer k) = {}"

fun hdp :: "ptr list \<Rightarrow> ptr" where "hdp [] = 0" | "hdp (r # rs) = r"
fun lastp :: "ptr list \<Rightarrow> ptr" where "lastp [] = 0" | "lastp (r # rs) = last (r # rs)"

definition grp :: "nat \<Rightarrow> nat \<Rightarrow> nat list" where
  "grp B g = [g * B..<g * B + B]"

definition use_rep :: "access \<Rightarrow> min_page \<Rightarrow> bool" where
  "use_rep a p \<longleftrightarrow> (case a of Free \<Rightarrow> use p = USE_NONE
     | Readers S \<Rightarrow> use p = USE_READ \<and> (\<forall>k<32. bit (user p) k \<longleftrightarrow> k \<in> S)
     | Writer k \<Rightarrow> use p = USE_WRITE \<and> writer_of (user p) = k)"

definition wait_rep :: "waiter list \<Rightarrow> min_page \<Rightarrow> bool" where
  "wait_rep q p \<longleftrightarrow> (\<forall>k<32. bit (write_waiters p) k \<longleftrightarrow> (\<exists>d. (k, True, d) \<in> set q))
     \<and> (\<forall>k<32. bit (data_waiters p) k \<longleftrightarrow> (\<exists>w. (k, w, True) \<in> set q)) \<and> pending_completes p = 0"

definition req_rep :: "nat \<Rightarrow> nat \<Rightarrow> netobj \<Rightarrow> waiter \<Rightarrow> ptr \<Rightarrow> bool" where
  "req_rep B g s x r \<longleftrightarrow> r_kernel (req s r) = int (fst x) \<and> first_page (req s r) = g * B \<and> last_page (req s r) = g * B + B - 1 \<and> sibling (req s r) = 0"

text \<open>The requests \<open>rs\<close> are the queue of the page.\<close>

definition queue_rep :: "nat \<Rightarrow> nat \<Rightarrow> netobj \<Rightarrow> waiter list \<Rightarrow> ptr list \<Rightarrow> bool" where
  "queue_rep B g s q rs \<longleftrightarrow> list_all2 (req_rep B g s) q rs \<and> chain (\<lambda>r. follow (req s r)) (hdp rs) rs
     \<and> wait_rep q (min_pages s (g * B)) \<and> (\<forall>j\<in>set (grp B g). mp_tail (min_pages s j) = lastp rs)"

definition page_rep :: "nat \<Rightarrow> nat \<Rightarrow> netobj \<Rightarrow> apage \<Rightarrow> ptr list \<Rightarrow> bool" where
  "page_rep B g s a rs \<longleftrightarrow> (\<forall>j\<in>set (grp B g). use_rep (acc a) (min_pages s j) \<and> (j \<noteq> g * B \<longrightarrow> mp_head (min_pages s j) = 0))
     \<and> mp_head (min_pages s (g * B)) = hdp rs \<and> queue_rep B g s (wq a) rs"

text \<open>The kernels of a page have the page size of the object, and only a written page is waited for.\<close>

definition known :: "nat \<Rightarrow> netobj \<Rightarrow> nat \<Rightarrow> bool" where
  "known B s k \<longleftrightarrow> k < 32 \<and> page_size (kerninfo s k) = B * MIN_PAGE_SIZE"

definition page_ok :: "nat \<Rightarrow> netobj \<Rightarrow> apage \<Rightarrow> bool" where
  "page_ok B s a \<longleftrightarrow> (\<forall>k\<in>readers (acc a). known B s k) \<and> (\<forall>k. acc a = Writer k \<longrightarrow> known B s k)
     \<and> (\<forall>x\<in>set (wq a). known B s (fst x) \<and> (fst (snd x) \<or> snd (snd x))) \<and> distinct (map fst (wq a))
     \<and> (wq a \<noteq> [] \<longrightarrow> (\<exists>k. acc a = Writer k))"

text \<open>The requests of the queues and of the pool of free requests.\<close>

definition requests_ok :: "nat \<Rightarrow> netobj \<Rightarrow> (nat \<Rightarrow> ptr list) \<Rightarrow> ptr list \<Rightarrow> bool" where
  "requests_ok G s R fs \<longleftrightarrow> chain (\<lambda>r. follow (req s r)) (free_requests s) fs \<and> finite (req_heap s) \<and> set fs \<subseteq> req_heap s
     \<and> (\<forall>g<G. set (R g) \<subseteq> req_heap s \<and> set (R g) \<inter> set fs = {})
     \<and> (\<forall>g<G. \<forall>h<G. g \<noteq> h \<longrightarrow> set (R g) \<inter> set (R h) = {})"

definition object_rep :: "nat \<Rightarrow> nat \<Rightarrow> netobj \<Rightarrow> (nat \<Rightarrow> apage) \<Rightarrow> (nat \<Rightarrow> ptr list) \<Rightarrow> ptr list \<Rightarrow> bool" where
  "object_rep B G s A R fs \<longleftrightarrow> (\<forall>g<G. page_rep B g s (A g) (R g) \<and> page_ok B s (A g)) \<and> requests_ok G s R fs"

section \<open>The page server\<close>

text \<open>
  What the server does on one page: a function from the state of the page to its next state and
  the messages.  \<open>KI\<close> is the table of kernels, \<open>st\<close> the storage, \<open>po\<close> the paging object.
\<close>

definition page_offset :: "nat \<Rightarrow> nat \<Rightarrow> nat" where
  "page_offset B g = g * B * MIN_PAGE_SIZE"

definition data_msgs :: "(nat \<Rightarrow> kernel_t) \<Rightarrow> (nat \<Rightarrow> nat) \<Rightarrow> nat \<Rightarrow> nat \<Rightarrow> supply_t \<Rightarrow> (nat \<times> pager_msg) list" where
  "data_msgs KI st k off prot =
     (let sz = real_page_size (KI k); m = (\<lambda>a. (request_port (KI k), Data_provided a (map st [a..<a + sz]) prot))
      in if sz < MIN_PAGE_SIZE then map (\<lambda>i. m (off + i * sz)) [0..<MIN_PAGE_SIZE div sz] else [m off])"

definition lock_reader_msg :: "(nat \<Rightarrow> kernel_t) \<Rightarrow> nat \<Rightarrow> nat \<Rightarrow> nat \<Rightarrow> nat \<times> pager_msg" where
  "lock_reader_msg KI k off len = (request_port (KI k), Lock_request off len False True SUPPLY_NONE 0)"

definition lock_writer_msg :: "(nat \<Rightarrow> kernel_t) \<Rightarrow> nat \<Rightarrow> nat \<Rightarrow> nat \<Rightarrow> nat \<Rightarrow> nat \<times> pager_msg" where
  "lock_writer_msg KI po k off len = (request_port (KI k), Lock_request off len True True SUPPLY_NONE po)"

definition unlock_msg :: "(nat \<Rightarrow> kernel_t) \<Rightarrow> nat \<Rightarrow> nat \<Rightarrow> nat \<Rightarrow> nat \<times> pager_msg" where
  "unlock_msg KI k off len = (request_port (KI k), Lock_request off len False False SUPPLY_ALL 0)"

definition give_read :: "(nat \<Rightarrow> kernel_t) \<Rightarrow> (nat \<Rightarrow> nat) \<Rightarrow> nat \<Rightarrow> nat \<Rightarrow> access \<Rightarrow> access \<times> (nat \<times> pager_msg) list" where
  "give_read KI st off k a = (Readers (insert k (readers a)), data_msgs KI st k off SUPPLY_READ)"

definition give_write :: "(nat \<Rightarrow> kernel_t) \<Rightarrow> (nat \<Rightarrow> nat) \<Rightarrow> nat \<Rightarrow> nat \<Rightarrow> nat \<Rightarrow> bool \<Rightarrow> access \<Rightarrow> access \<times> (nat \<times> pager_msg) list" where
  "give_write KI st off len k nd a =
     (Writer k, map (\<lambda>r. lock_reader_msg KI r off len) (filter (\<lambda>r. r \<in> readers a \<and> r \<noteq> k) [0..<32])
        @ (if nd \<or> k \<notin> readers a then data_msgs KI st k off SUPPLY_ALL else [unlock_msg KI k off len]))"

text \<open>A page that has become free serves its queue, up to the first writer.\<close>

fun serve :: "(nat \<Rightarrow> kernel_t) \<Rightarrow> (nat \<Rightarrow> nat) \<Rightarrow> nat \<Rightarrow> nat \<Rightarrow> nat \<Rightarrow> access \<Rightarrow> waiter list \<Rightarrow> apage \<times> (nat \<times> pager_msg) list" where
  "serve KI st po off len a [] = (\<lparr>acc = a, wq = []\<rparr>, [])"
| "serve KI st po off len a ((k, w, nd) # q) =
     (if w then (case give_write KI st off len k nd a of (a', ms) \<Rightarrow>
        (\<lparr>acc = a', wq = q\<rparr>, ms @ (if q = [] then [] else [lock_writer_msg KI po k off len])))
      else (case give_read KI st off k a of (a', ms) \<Rightarrow> (case serve KI st po off len a' q of (p, ms') \<Rightarrow> (p, ms @ ms'))))"

end
