(* ===== verification/Netmem_Grant.thy ===== *)
theory Netmem_Grant
  imports Netmem_Rep
begin

text \<open>
  Granting access to a page of an object whose kernels have one page size: the loops of
  \<open>add_reader\<close> and \<open>add_writer\<close> over the minimal pages and the set of readers do what the page
  server does, and touch nothing but the page.
\<close>

section \<open>Loops that update pages\<close>

lemma group_mem: "j \<in> set (grp B g) \<longleftrightarrow> g * B \<le> j \<and> j < g * B + B"
  by (simp add: grp_def)

lemma pages_group: "0 < B \<Longrightarrow> pages (g * B) (g * B + B - 1) = grp B g"
  by (simp add: pages_def grp_def)

lemma distinct_group [simp]: "distinct (grp B g)"
  by (simp add: grp_def)

lemma group_disjoint: "g \<noteq> h \<Longrightarrow> set (grp B g) \<inter> set (grp B h) = {}"
proof -
  assume gh: "g \<noteq> h"
  have m: "g * B + B \<le> h * B" if "g < h" for g h :: nat using mult_le_mono1 [of "Suc g" h B] that by simp
  have "j < g * B \<or> g * B + B \<le> j" if "h * B \<le> j" "j < h * B + B" for j
    using m [of g h] m [of h g] that gh by linarith
  then show "set (grp B g) \<inter> set (grp B h) = {}" by (auto simp: group_mem) (meson leD)
qed

lemma first_group: "0 < B \<Longrightarrow> g * B \<in> set (grp B g)"
  by (simp add: group_mem)

lemma fold_upd_page:
  "distinct js \<Longrightarrow> fold (\<lambda>j. upd_page j f) js s = s\<lparr>min_pages := (\<lambda>j. if j \<in> set js then f (min_pages s j) else min_pages s j)\<rparr>"
proof (induction js arbitrary: s)
  case Nil
  have "(\<lambda>j. min_pages s j) = min_pages s" by simp
  then show ?case by simp
next
  case (Cons j js)
  then show ?case by (auto simp: upd_page_def fun_eq_iff intro!: netobj.equality)
qed

text \<open>Everything but the minimal pages and the messages is as before; the links of a page are as before.\<close>

definition same_rest :: "netobj \<Rightarrow> netobj \<Rightarrow> bool" where
  "same_rest s s' \<longleftrightarrow> storage s' = storage s \<and> paging_object s' = paging_object s \<and> object_size s' = object_size s \<and> kerninfo s' = kerninfo s
     \<and> faults_per_page s' = faults_per_page s \<and> faults_total s' = faults_total s
     \<and> req s' = req s \<and> free_requests s' = free_requests s \<and> all_requests s' = all_requests s \<and> omark s' = omark s
     \<and> outstanding s' = outstanding s \<and> req_heap s' = req_heap s"

lemma same_restD:
  assumes "same_rest s s'"
  shows "storage s' = storage s" "paging_object s' = paging_object s" "object_size s' = object_size s" "kerninfo s' = kerninfo s"
    "req s' = req s" "free_requests s' = free_requests s" "all_requests s' = all_requests s" "omark s' = omark s"
    "outstanding s' = outstanding s" "req_heap s' = req_heap s"
  using assms by (auto simp: same_rest_def)

lemma same_rest_refl [simp]: "same_rest s s"
  by (simp add: same_rest_def)

lemma same_rest_trans: "same_rest s s' \<Longrightarrow> same_rest s' s'' \<Longrightarrow> same_rest s s''"
  by (auto simp: same_rest_def)

definition same_links :: "min_page \<Rightarrow> min_page \<Rightarrow> bool" where
  "same_links p p' \<longleftrightarrow> mp_head p' = mp_head p \<and> mp_tail p' = mp_tail p \<and> write_waiters p' = write_waiters p
     \<and> data_waiters p' = data_waiters p \<and> pending_completes p' = pending_completes p"

definition regroup :: "nat \<Rightarrow> nat \<Rightarrow> access \<Rightarrow> netobj \<Rightarrow> netobj \<Rightarrow> bool" where
  "regroup B g a s s' \<longleftrightarrow> same_rest s s' \<and> (\<forall>j\<in>set (grp B g). use_rep a (min_pages s' j) \<and> same_links (min_pages s j) (min_pages s' j))
     \<and> (\<forall>j. j \<notin> set (grp B g) \<longrightarrow> min_pages s' j = min_pages s j)"

lemma regroupD:
  assumes "regroup B g a s s'"
  shows "same_rest s s'" "\<And>j. j \<in> set (grp B g) \<Longrightarrow> use_rep a (min_pages s' j)"
    "\<And>j. j \<in> set (grp B g) \<Longrightarrow> same_links (min_pages s j) (min_pages s' j)" "\<And>j. j \<notin> set (grp B g) \<Longrightarrow> min_pages s' j = min_pages s j"
  using assms by (auto simp: regroup_def)

lemma regroup_refl: "(\<And>j. j \<in> set (grp B g) \<Longrightarrow> use_rep a (min_pages s j)) \<Longrightarrow> regroup B g a s s"
  by (simp add: regroup_def same_links_def)

lemma regroup_trans: "regroup B g a s s' \<Longrightarrow> regroup B g a' s' s'' \<Longrightarrow> regroup B g a' s s''"
  unfolding regroup_def same_links_def using same_rest_trans by auto

section \<open>Messages\<close>

lemma send_rest: "same_rest s (send p m s)" "min_pages (send p m s) = min_pages s" "sent (send p m s) = sent s @ [(p, m)]"
  by (simp_all add: send_def same_rest_def)

lemma provide_eq: "provide k off sz prot s = s\<lparr>sent := sent s @ [(request_port (kerninfo s k), Data_provided off (map (storage s) [off..<off + sz]) prot)]\<rparr>"
  by (simp add: provide_def send_def)

lemma DATA_PROVIDED_eq: "DATA_PROVIDED k off prot s = s\<lparr>sent := sent s @ data_msgs (kerninfo s) (storage s) k off prot\<rparr>"
proof -
  let ?sz = "real_page_size (kerninfo s k)"
  have "fold (\<lambda>i. provide k (off + i * ?sz) ?sz prot) is s
     = s\<lparr>sent := sent s @ map (\<lambda>i. (request_port (kerninfo s k), Data_provided (off + i * ?sz) (map (storage s) [off + i * ?sz..<off + i * ?sz + ?sz]) prot)) is\<rparr>" for "is"
    by (induction "is" rule: rev_induct) (simp_all add: provide_eq)
  then show ?thesis by (simp add: DATA_PROVIDED_def data_msgs_def Let_def provide_eq)
qed

lemma regroup_sent: "regroup B g a s s' \<Longrightarrow> regroup B g a s (s'\<lparr>sent := x\<rparr>)"
  unfolding regroup_def same_rest_def by auto

section \<open>Readers\<close>

lemma add_reader_spec:
  assumes B: "0 < B" and k: "k < 32" and u: "\<And>j. j \<in> set (grp B g) \<Longrightarrow> use_rep a (min_pages s j)" and a: "a = Free \<or> (\<exists>S. a = Readers S)"
    and s': "s' = add_reader (g * B) (g * B + B - 1) k s"
  shows "regroup B g (Readers (insert k (readers a))) s s'"
    and "sent s' = sent s @ snd (give_read (kerninfo s) (storage s) (page_offset B g) k a)"
proof -
  define h :: "min_page \<Rightarrow> min_page" where "h = (\<lambda>p. if use p = USE_NONE then p\<lparr>use := USE_READ, user := SET_ADD k SET_NULL\<rparr> else p\<lparr>user := SET_ADD k (user p)\<rparr>)"
  have m: "mark_reader k = (\<lambda>j. upd_page j h)"
    by (intro ext) (simp add: mark_reader_def upd_page_def h_def Let_def)
  define t where "t = s\<lparr>min_pages := (\<lambda>j. if j \<in> set (grp B g) then h (min_pages s j) else min_pages s j)\<rparr>"
  have off: "PAGE_TO_OFFSET (g * B) = page_offset B g"
    by (simp add: PAGE_TO_OFFSET_def page_offset_def push_bit_eq_mult MIN_PAGE_SHIFT_def MIN_PAGE_SIZE_def)
  have st: "s' = t\<lparr>sent := sent s @ data_msgs (kerninfo s) (storage s) k (page_offset B g) SUPPLY_READ\<rparr>"
    unfolding s' add_reader_def pages_group [OF B] m off DATA_PROVIDED_eq fold_upd_page [OF distinct_group] by (simp add: t_def)
  have "use_rep (Readers (insert k (readers a))) (h p) \<and> same_links p (h p)" if p: "use_rep a p" for p
  proof (cases "a = Free")
    case True
    then show ?thesis using p k by (auto simp: use_rep_def h_def same_links_def bit_SET_ADD bit_SET_NULL)
  next
    case False
    then obtain S where "a = Readers S" using a by auto
    then show ?thesis using p k by (auto simp: use_rep_def h_def same_links_def bit_SET_ADD)
  qed
  then have "regroup B g (Readers (insert k (readers a))) s t" using u by (auto simp: regroup_def t_def same_rest_def intro!: exI [of _ "sent s"])
  then show "regroup B g (Readers (insert k (readers a))) s s'" unfolding st by (rule regroup_sent)
  show "sent s' = sent s @ snd (give_read (kerninfo s) (storage s) (page_offset B g) k a)" by (simp add: st give_read_def)
qed

section \<open>Writers\<close>

lemma boot_reader_eq:
  assumes "r < 32"
  shows "boot_reader r (PAGE_TO_OFFSET (g * B)) (B * MIN_PAGE_SIZE) s
     = s\<lparr>min_pages := (\<lambda>j. if j \<in> set (grp B g) then (min_pages s j)\<lparr>user := SET_DELETE r (user (min_pages s j))\<rparr> else min_pages s j),
          sent := sent s @ [lock_reader_msg (kerninfo s) r (page_offset B g) (B * MIN_PAGE_SIZE)]\<rparr>"
proof -
  have "drop_bit MIN_PAGE_SHIFT (PAGE_TO_OFFSET (g * B)) = g * B"
    by (simp add: PAGE_TO_OFFSET_def MIN_PAGE_SHIFT_def push_bit_eq_mult drop_bit_eq_div)
  moreover have "drop_bit MIN_PAGE_SHIFT (PAGE_TO_OFFSET (g * B) + B * MIN_PAGE_SIZE) = g * B + B"
    by (simp add: PAGE_TO_OFFSET_def MIN_PAGE_SHIFT_def MIN_PAGE_SIZE_def push_bit_eq_mult drop_bit_eq_div)
  moreover have "PAGE_TO_OFFSET (g * B) = page_offset B g"
    by (simp add: PAGE_TO_OFFSET_def page_offset_def push_bit_eq_mult MIN_PAGE_SHIFT_def MIN_PAGE_SIZE_def)
  ultimately show ?thesis
    unfolding boot_reader_def Let_def LOCK_READER_def send_def lock_reader_msg_def
    by (simp only: grp_def [symmetric] fold_upd_page [OF distinct_group]) simp
qed

lemma boot_all_others:
  assumes S: "\<And>j. j \<in> set (grp B g) \<Longrightarrow> use_rep (Readers S) (min_pages s j)" and B: "0 < B"
    and pz: "\<And>r. r \<in> S \<Longrightarrow> page_size (kerninfo s r) = B * MIN_PAGE_SIZE" and n: "n \<le> 32"
  shows "\<exists>s'. fold (boot_other k (g * B)) [0..<n] (False, s) = (k < n \<and> k \<in> S, s')
     \<and> regroup B g (Readers (S - {r. r < n \<and> r \<noteq> k})) s s'
     \<and> sent s' = sent s @ map (\<lambda>r. lock_reader_msg (kerninfo s) r (page_offset B g) (B * MIN_PAGE_SIZE)) (filter (\<lambda>r. r \<in> S \<and> r \<noteq> k) [0..<n])"
  using n
proof (induction n)
  case 0
  then show ?case using S by (auto intro: regroup_refl)
next
  case (Suc n)
  then obtain s1 where s1: "fold (boot_other k (g * B)) [0..<n] (False, s) = (k < n \<and> k \<in> S, s1)"
      "regroup B g (Readers (S - {r. r < n \<and> r \<noteq> k})) s s1"
      "sent s1 = sent s @ map (\<lambda>r. lock_reader_msg (kerninfo s) r (page_offset B g) (B * MIN_PAGE_SIZE)) (filter (\<lambda>r. r \<in> S \<and> r \<noteq> k) [0..<n])" by auto
  note K = same_restD(4) [OF regroupD(1) [OF s1(2)]]
  have mem: "SET_MEMBER (user (min_pages s1 (g * B))) n \<longleftrightarrow> n \<in> S"
    using regroupD(2) [OF s1(2) first_group [OF B]] Suc.prems by (auto simp: use_rep_def SET_MEMBER_bit)
  show ?case
  proof (cases "n \<in> S \<and> n \<noteq> k")
    case False
    then have "S - {r. r < Suc n \<and> r \<noteq> k} = S - {r. r < n \<and> r \<noteq> k}" by (auto simp: less_Suc_eq)
    moreover have "boot_other k (g * B) n (k < n \<and> k \<in> S, s1) = (k < Suc n \<and> k \<in> S, s1)"
      using False mem by (cases "n = k") (simp_all add: boot_other_def less_Suc_eq)
    ultimately show ?thesis using False s1 by simp
  next
    case True
    define s2 where "s2 = boot_reader n (PAGE_TO_OFFSET (g * B)) (B * MIN_PAGE_SIZE) s1"
    have e2: "s2 = s1\<lparr>min_pages := (\<lambda>j. if j \<in> set (grp B g) then (min_pages s1 j)\<lparr>user := SET_DELETE n (user (min_pages s1 j))\<rparr> else min_pages s1 j),
          sent := sent s1 @ [lock_reader_msg (kerninfo s1) n (page_offset B g) (B * MIN_PAGE_SIZE)]\<rparr>"
      unfolding s2_def using Suc.prems by (intro boot_reader_eq) simp
    have "use_rep (Readers (S - {r. r < Suc n \<and> r \<noteq> k})) (p\<lparr>user := SET_DELETE n (user p)\<rparr>) \<and> same_links p (p\<lparr>user := SET_DELETE n (user p)\<rparr>)"
      if "use_rep (Readers (S - {r. r < n \<and> r \<noteq> k})) p" for p
      using that True by (auto simp: use_rep_def same_links_def bit_SET_DELETE less_Suc_eq)
    then have "regroup B g (Readers (S - {r. r < Suc n \<and> r \<noteq> k})) s1 s2"
      using regroupD(2) [OF s1(2)] by (auto simp: regroup_def e2 same_rest_def)
    then have "regroup B g (Readers (S - {r. r < Suc n \<and> r \<noteq> k})) s s2" by (rule regroup_trans [OF s1(2)])
    moreover have "boot_other k (g * B) n (k < n \<and> k \<in> S, s1) = (k < n \<and> k \<in> S, s2)"
      using True mem pz by (simp add: boot_other_def s2_def K)
    moreover have "sent s2 = sent s1 @ [lock_reader_msg (kerninfo s) n (page_offset B g) (B * MIN_PAGE_SIZE)]" by (simp add: e2 K)
    ultimately show ?thesis using s1 True by (simp add: less_Suc_eq)
  qed
qed

lemma fold_id: "(\<And>x. x \<in> set xs \<Longrightarrow> f x s = s) \<Longrightarrow> fold f xs s = s"
  by (induction xs) auto

lemma boot_rest:
  assumes u: "\<And>j. j \<in> set js \<Longrightarrow> use_rep (Readers (S \<inter> {k})) (min_pages s j)"
  shows "fold (boot_page k) js (k \<in> S, s) = (k \<in> S, s)"
proof (rule fold_id)
  fix j assume j: "j \<in> set js"
  have "boot_other k j r (k \<in> S, s) = (k \<in> S, s)" if "r \<in> set [0..<32]" for r
    using u [OF j] that by (auto simp: boot_other_def use_rep_def SET_MEMBER_bit)
  then have "fold (boot_other k j) [0..<32] (k \<in> S, s) = (k \<in> S, s)" by (rule fold_id)
  then show "boot_page k j (k \<in> S, s) = (k \<in> S, s)" by (simp add: boot_page_def)
qed

lemma boot_readers:
  assumes S: "\<And>j. j \<in> set (grp B g) \<Longrightarrow> use_rep (Readers S) (min_pages s j)" and B: "0 < B" and k: "k < 32"
    and pz: "\<And>r. r \<in> S \<Longrightarrow> r < 32 \<and> page_size (kerninfo s r) = B * MIN_PAGE_SIZE"
  shows "\<exists>s'. fold (boot_page k) (grp B g) (False, s) = (k \<in> S, s') \<and> regroup B g (Readers (S \<inter> {k})) s s'
     \<and> sent s' = sent s @ map (\<lambda>r. lock_reader_msg (kerninfo s) r (page_offset B g) (B * MIN_PAGE_SIZE)) (filter (\<lambda>r. r \<in> S \<and> r \<noteq> k) [0..<32])"
proof -
  obtain s1 where s1: "fold (boot_other k (g * B)) [0..<32] (False, s) = (k < 32 \<and> k \<in> S, s1)"
      "regroup B g (Readers (S - {r. r < 32 \<and> r \<noteq> k})) s s1"
      "sent s1 = sent s @ map (\<lambda>r. lock_reader_msg (kerninfo s) r (page_offset B g) (B * MIN_PAGE_SIZE)) (filter (\<lambda>r. r \<in> S \<and> r \<noteq> k) [0..<32])"
    using boot_all_others [of B g S s 32 k] S B pz by blast
  have e: "S - {r. r < 32 \<and> r \<noteq> k} = S \<inter> {k}" using pz by auto
  have "grp B g = g * B # [Suc (g * B)..<g * B + B]" using B by (simp add: grp_def upt_conv_Cons)
  moreover have "boot_page k (g * B) (False, s) = (k \<in> S, s1)" using S [OF first_group [OF B]] s1(1) k by (simp add: boot_page_def use_rep_def)
  moreover have "fold (boot_page k) [Suc (g * B)..<g * B + B] (k \<in> S, s1) = (k \<in> S, s1)"
    using regroupD(2) [OF s1(2)] unfolding e by (intro boot_rest) (simp add: group_mem)
  ultimately show ?thesis using s1 unfolding e by simp
qed

lemma add_writer_spec:
  assumes B: "0 < B" and k: "known B s k" and u: "\<And>j. j \<in> set (grp B g) \<Longrightarrow> use_rep a (min_pages s j)" and a: "a = Free \<or> (\<exists>S. a = Readers S)"
    and pz: "\<And>r. r \<in> readers a \<Longrightarrow> known B s r" and s': "s' = add_writer (g * B) (g * B + B - 1) k nd s"
  shows "regroup B g (Writer k) s s'"
    and "sent s' = sent s @ snd (give_write (kerninfo s) (storage s) (page_offset B g) (B * MIN_PAGE_SIZE) k nd a)"
proof -
  let ?ms = "map (\<lambda>r. lock_reader_msg (kerninfo s) r (page_offset B g) (B * MIN_PAGE_SIZE)) (filter (\<lambda>r. r \<in> readers a \<and> r \<noteq> k) [0..<32])"
  have kz: "page_size (kerninfo s k) = B * MIN_PAGE_SIZE" "k < 32" using k by (simp_all add: known_def)
  have off: "PAGE_TO_OFFSET (g * B) = page_offset B g"
    by (simp add: PAGE_TO_OFFSET_def page_offset_def push_bit_eq_mult MIN_PAGE_SHIFT_def MIN_PAGE_SIZE_def)
  have "(if use (min_pages s (g * B)) = USE_READ then fold (boot_bigger (g * B) (page_offset B g) (B * MIN_PAGE_SIZE)) [0..<32] s else s) = s"
  proof (cases "use (min_pages s (g * B)) = USE_READ")
    case True
    then obtain S where S: "a = Readers S" using u [OF first_group [OF B]] a by (auto simp: use_rep_def)
    have "boot_bigger (g * B) (page_offset B g) (B * MIN_PAGE_SIZE) r s = s" if "r \<in> set [0..<32]" for r
      using u [OF first_group [OF B]] pz [of r] that by (auto simp: boot_bigger_def S use_rep_def SET_MEMBER_bit known_def Let_def)
    then have "fold (boot_bigger (g * B) (page_offset B g) (B * MIN_PAGE_SIZE)) [0..<32] s = s" by (rule fold_id)
    then show ?thesis by simp
  qed simp
  moreover have "\<exists>s2 a2. fold (boot_page k) (grp B g) (False, s) = (k \<in> readers a, s2) \<and> regroup B g a2 s s2 \<and> sent s2 = sent s @ ?ms"
  proof (cases "a = Free")
    case True
    have "boot_page k j (False, s) = (False, s)" if "j \<in> set (grp B g)" for j using u [OF that] True by (simp add: boot_page_def use_rep_def)
    then have "fold (boot_page k) (grp B g) (False, s) = (False, s)" by (rule fold_id)
    then show ?thesis using True regroup_refl [OF u] by auto
  next
    case False
    then obtain S where S: "a = Readers S" using a by auto
    show ?thesis using boot_readers [of B g S s k] u pz kz B unfolding S known_def by (auto 4 4)
  qed
  ultimately obtain s2 a2 where s2: "fold (boot_page k) (grp B g) (False, s) = (k \<in> readers a, s2)" "regroup B g a2 s s2" "sent s2 = sent s @ ?ms"
    "add_writer (g * B) (g * B + B - 1) k nd s =
      (let s3 = fold (\<lambda>j. upd_page j (\<lambda>p. p\<lparr>use := USE_WRITE, user := set_writer k (user p)\<rparr>)) (grp B g) s2
            in if nd \<or> k \<notin> readers a then DATA_PROVIDED k (page_offset B g) SUPPLY_ALL s3
               else UNLOCK_WRITER k (page_offset B g) (B * MIN_PAGE_SIZE) s3)"
    unfolding add_writer_def pages_group [OF B] off kz Let_def by auto
  define s3 where "s3 = s2\<lparr>min_pages := (\<lambda>j. if j \<in> set (grp B g) then (min_pages s2 j)\<lparr>use := USE_WRITE, user := set_writer k (user (min_pages s2 j))\<rparr> else min_pages s2 j)\<rparr>"
  note K = same_restD [OF regroupD(1) [OF s2(2)]]
  have st: "s' = s3\<lparr>sent := sent s2 @ (if nd \<or> k \<notin> readers a then data_msgs (kerninfo s) (storage s) k (page_offset B g) SUPPLY_ALL
      else [unlock_msg (kerninfo s) k (page_offset B g) (B * MIN_PAGE_SIZE)])\<rparr>"
    unfolding s' s2(4) Let_def fold_upd_page [OF distinct_group] s3_def [symmetric]
    by (simp add: DATA_PROVIDED_eq UNLOCK_WRITER_def send_def unlock_msg_def) (simp add: s3_def K)
  have "regroup B g (Writer k) s2 s3"
    using kz(2) by (simp add: regroup_def s3_def same_rest_def use_rep_def same_links_def writer_of_set)
  then have "regroup B g (Writer k) s s3" by (rule regroup_trans [OF s2(2)])
  then show "regroup B g (Writer k) s s'" unfolding st by (rule regroup_sent)
  show "sent s' = sent s @ snd (give_write (kerninfo s) (storage s) (page_offset B g) (B * MIN_PAGE_SIZE) k nd a)"
    by (simp add: st s2(3) give_write_def)
qed

end
