(* ===== verification/Netmem_Queue.thy ===== *)
theory Netmem_Queue
  imports Netmem_Grant
begin

text \<open>
  The queues of requests: \<open>satisfy_request\<close> serves the queue of a page that has become free, in
  order and up to the first kernel that wants to write, and returns the requests it has served.
\<close>

section \<open>Frames\<close>

lemma page_rep_cong:
  assumes "0 < B" and "\<And>j. j \<in> set (grp B g) \<Longrightarrow> min_pages s' j = min_pages s j" and "\<And>r. r \<in> set rs \<Longrightarrow> req s' r = req s r"
  shows "page_rep B g s' a rs \<longleftrightarrow> page_rep B g s a rs"
proof -
  have "chain (\<lambda>r. follow (req s' r)) (hdp rs) rs \<longleftrightarrow> chain (\<lambda>r. follow (req s r)) (hdp rs) rs" by (rule chain_cong) (use assms(3) in simp)
  moreover have "list_all2 (req_rep B g s') (wq a) rs \<longleftrightarrow> list_all2 (req_rep B g s) (wq a) rs"
    by (rule list.rel_cong) (use assms(3) in \<open>simp_all add: req_rep_def\<close>)
  ultimately show ?thesis using assms(2) first_group [OF assms(1)] by (simp add: page_rep_def queue_rep_def)
qed

definition sched_frame :: "nat \<Rightarrow> nat \<Rightarrow> ptr set \<Rightarrow> netobj \<Rightarrow> netobj \<Rightarrow> bool" where
  "sched_frame B g X s s' \<longleftrightarrow> storage s' = storage s \<and> paging_object s' = paging_object s \<and> object_size s' = object_size s \<and> kerninfo s' = kerninfo s
     \<and> faults_per_page s' = faults_per_page s \<and> faults_total s' = faults_total s \<and> req_heap s \<subseteq> req_heap s'
     \<and> (\<forall>j. j \<notin> set (grp B g) \<longrightarrow> min_pages s' j = min_pages s j) \<and> (\<forall>x. x \<notin> X \<longrightarrow> req s' x = req s x)"

lemma sched_frame_refl [simp]: "sched_frame B g X s s"
  by (simp add: sched_frame_def)

lemma sched_frame_trans: "sched_frame B g X s s' \<Longrightarrow> sched_frame B g Y s' s'' \<Longrightarrow> X \<subseteq> Z \<Longrightarrow> Y \<subseteq> Z \<Longrightarrow> sched_frame B g Z s s''"
  unfolding sched_frame_def by (intro conjI allI impI; (elim conjE)?) (auto, metis subsetD)

lemma sched_frame_mono: "sched_frame B g X s s' \<Longrightarrow> X \<subseteq> Y \<Longrightarrow> sched_frame B g Y s s'"
  unfolding sched_frame_def by blast

lemma regroup_frame: "regroup B g a s s' \<Longrightarrow> sched_frame B g {} s s'"
  by (simp add: regroup_def same_rest_def sched_frame_def)

lemma req_free_frame: "sched_frame B g {r} s (req_free r s)"
  by (simp add: sched_frame_def req_free_def upd_req_def Let_def)

lemma sched_frame_known: "sched_frame B g X s s' \<Longrightarrow> known B s' k = known B s k"
  by (simp add: sched_frame_def known_def)

lemma known_page_ok: "sched_frame B g X s s' \<Longrightarrow> page_ok B s' a = page_ok B s a"
  by (simp add: page_ok_def sched_frame_known)

section \<open>Granting the first request\<close>

lemma wait_rep_rest:
  assumes "wait_rep ((k, w, nd) # q) p" and "distinct (k # map fst q)" and "\<And>x. x \<in> set q \<Longrightarrow> fst x < 32" and "k < 32"
  shows "bit (write_waiters p) k \<longleftrightarrow> w" and "bit (data_waiters p) k \<longleftrightarrow> nd"
    and "wait_rep q (p\<lparr>write_waiters := SET_DELETE k (write_waiters p), data_waiters := SET_DELETE k (data_waiters p)\<rparr>)"
proof -
  have n: "(k, x) \<notin> set q" for x using assms(2) by force
  show "bit (write_waiters p) k \<longleftrightarrow> w" "bit (data_waiters p) k \<longleftrightarrow> nd" using assms(1,4) n by (auto simp: wait_rep_def)
  show "wait_rep q (p\<lparr>write_waiters := SET_DELETE k (write_waiters p), data_waiters := SET_DELETE k (data_waiters p)\<rparr>)"
    using assms(1) n by (auto simp: wait_rep_def bit_SET_DELETE)
qed

lemma SET_DELETE_absent: "\<not> bit S k \<Longrightarrow> SET_DELETE k S = S"
  by (rule bit_eqI) (auto simp: bit_SET_DELETE)

lemma grant_spec:
  assumes B: "0 < B" and u: "\<And>j. j \<in> set (grp B g) \<Longrightarrow> use_rep a (min_pages s j)" and a: "a = Free \<or> (\<exists>S. a = Readers S)"
    and Q: "queue_rep B g s ((k, w, nd) # q) (r # rs)" and d: "distinct (k # map fst q)"
    and K: "known B s k" "\<And>x. x \<in> set q \<Longrightarrow> known B s (fst x)" "\<And>x. x \<in> readers a \<Longrightarrow> known B s x" and g: "grant r s = (v, s')"
    and a': "(a', ms) = (if w then give_write (kerninfo s) (storage s) (page_offset B g) (B * MIN_PAGE_SIZE) k nd a
        else give_read (kerninfo s) (storage s) (page_offset B g) k a)"
  shows "v = (if w then USE_WRITE else USE_READ)" and "same_rest s s'" and "sent s' = sent s @ ms"
    and "\<And>j. j \<notin> set (grp B g) \<Longrightarrow> min_pages s' j = min_pages s j"
    and "\<And>j. j \<in> set (grp B g) \<Longrightarrow> use_rep a' (min_pages s' j) \<and> mp_head (min_pages s' j) = mp_head (min_pages s j) \<and> mp_tail (min_pages s' j) = mp_tail (min_pages s j)"
    and "wait_rep q (min_pages s' (g * B))"
proof -
  have rr: "r_kernel (req s r) = int k" "first_page (req s r) = g * B" "last_page (req s r) = g * B + B - 1" using Q by (auto simp: queue_rep_def req_rep_def)
  have k: "k < 32" "\<And>x. x \<in> set q \<Longrightarrow> fst x < 32" using K by (auto simp: known_def)
  let ?p = "min_pages s (g * B)"
  define p2 where "p2 = ?p\<lparr>write_waiters := SET_DELETE k (write_waiters ?p), data_waiters := SET_DELETE k (data_waiters ?p)\<rparr>"
  define s2 where "s2 = s\<lparr>min_pages := (min_pages s)(g * B := p2)\<rparr>"
  note W = wait_rep_rest [of k w nd q ?p, OF _ d k(2) k(1)]
  have w: "bit (write_waiters ?p) k \<longleftrightarrow> w" "bit (data_waiters ?p) k \<longleftrightarrow> nd" "wait_rep q p2" using W Q by (auto simp: queue_rep_def p2_def)
  have gs: "grant r s = (if w then USE_WRITE else USE_READ, if w then add_writer (g * B) (g * B + B - 1) k nd s2 else add_reader (g * B) (g * B + B - 1) k s2)"
  proof -
    have 1: "(if w then upd_page (g * B) (\<lambda>p. p\<lparr>write_waiters := SET_DELETE k (write_waiters p)\<rparr>) s else s)
        = s\<lparr>min_pages := (min_pages s)(g * B := ?p\<lparr>write_waiters := SET_DELETE k (write_waiters ?p)\<rparr>)\<rparr>"
      using w(1) by (cases w) (simp_all add: upd_page_def SET_DELETE_absent)
    have 2: "(if nd then upd_page (g * B) (\<lambda>p. p\<lparr>data_waiters := SET_DELETE k (data_waiters p)\<rparr>) t else t) = s2"
      if t: "t = s\<lparr>min_pages := (min_pages s)(g * B := ?p\<lparr>write_waiters := SET_DELETE k (write_waiters ?p)\<rparr>)\<rparr>" for t
      using w(2) by (cases nd) (simp_all add: t upd_page_def SET_DELETE_absent s2_def p2_def)
    show ?thesis unfolding grant_def Let_def rr nat_int SET_MEMBER_bit w(1) 1 using w(2) 2 [OF refl] by (cases w) simp_all
  qed
  have u2: "use_rep a (min_pages s2 j)" if "j \<in> set (grp B g)" for j using u [OF that] by (auto simp: s2_def p2_def use_rep_def split: access.splits)
  have K2: "known B s2 x = known B s x" for x by (simp add: known_def s2_def)
  have R: "regroup B g a' s2 s' \<and> sent s' = sent s2 @ ms"
  proof (cases w)
    case True
    then have s': "s' = add_writer (g * B) (g * B + B - 1) k nd s2" using g gs by simp
    have "fst (give_write (kerninfo s) (storage s) (page_offset B g) (B * MIN_PAGE_SIZE) k nd a) = Writer k" by (simp add: give_write_def)
    then have "a' = Writer k" using a' True by (metis fst_conv)
    moreover have "ms = snd (give_write (kerninfo s) (storage s) (page_offset B g) (B * MIN_PAGE_SIZE) k nd a)" using a' True by (metis snd_conv)
    ultimately show ?thesis using add_writer_spec [of B s2 k g a s' nd, OF B _ u2 a _ s'] K K2 by (simp add: s2_def)
  next
    case False
    then have s': "s' = add_reader (g * B) (g * B + B - 1) k s2" using g gs by simp
    have "a' = Readers (insert k (readers a)) \<and> ms = snd (give_read (kerninfo s) (storage s) (page_offset B g) k a)" using a' False by (auto simp: give_read_def)
    then show ?thesis using add_reader_spec [of B k g a s2 s', OF B k(1) u2 a s'] by (simp add: s2_def)
  qed
  show "v = (if w then USE_WRITE else USE_READ)" using g gs by simp
  show "same_rest s s'" using regroupD(1) [of B g a' s2 s'] R by (simp add: same_rest_def s2_def)
  show "sent s' = sent s @ ms" using R by (simp add: s2_def)
  show "min_pages s' j = min_pages s j" if "j \<notin> set (grp B g)" for j
    using regroupD(4) [of B g a' s2 s' j] R that first_group [OF B, of g] by (auto simp: s2_def)
  show "use_rep a' (min_pages s' j) \<and> mp_head (min_pages s' j) = mp_head (min_pages s j) \<and> mp_tail (min_pages s' j) = mp_tail (min_pages s j)"
    if "j \<in> set (grp B g)" for j
    using regroupD(2,3) [of B g a' s2 s' j] R that by (auto simp: s2_def p2_def same_links_def)
  show "wait_rep q (min_pages s' (g * B))"
    using regroupD(3) [of B g a' s2 s' "g * B"] R first_group [OF B, of g] w(3) by (simp add: s2_def same_links_def wait_rep_def)
qed

section \<open>Serving a queue\<close>

text \<open>A page whose queue is being served: no minimal page points to a request to be satisfied.\<close>

definition serving :: "nat \<Rightarrow> nat \<Rightarrow> netobj \<Rightarrow> access \<Rightarrow> waiter list \<Rightarrow> ptr list \<Rightarrow> bool" where
  "serving B g s a q rs \<longleftrightarrow> (\<forall>j\<in>set (grp B g). use_rep a (min_pages s j) \<and> mp_head (min_pages s j) = 0) \<and> queue_rep B g s q rs"

definition all_known :: "nat \<Rightarrow> netobj \<Rightarrow> access \<Rightarrow> waiter list \<Rightarrow> bool" where
  "all_known B s a q \<longleftrightarrow> (\<forall>k\<in>readers a. known B s k) \<and> (\<forall>x\<in>set q. known B s (fst x)) \<and> distinct (map fst q)"

definition unwritten :: "access \<Rightarrow> bool" where
  "unwritten a \<longleftrightarrow> a = Free \<or> (\<exists>S. a = Readers S)"

lemma unwritten_readers [simp]: "unwritten Free" "unwritten (Readers S)" "\<not> unwritten (Writer k)"
  by (auto simp: unwritten_def)

lemma serving_chain: "serving B g s a q rs \<Longrightarrow> chain (\<lambda>r. follow (req s r)) (hdp rs) rs"
  by (simp add: serving_def queue_rep_def)

lemma serving_rep: "serving B g s a q [] \<Longrightarrow> 0 < B \<Longrightarrow> page_rep B g s \<lparr>acc = a, wq = []\<rparr> []"
  by (auto simp: serving_def page_rep_def queue_rep_def first_group)

lemma lastp_last: "rs \<noteq> [] \<Longrightarrow> lastp rs = last rs"
  by (cases rs) auto

lemma satisfy_first:
  assumes B: "0 < B" and S: "serving B g s a ((k, w, nd) # q) (r # rs)" and a: "unwritten a" and K: "all_known B s a ((k, w, nd) # q)"
    and a': "(a', ms) = (if w then give_write (kerninfo s) (storage s) (page_offset B g) (B * MIN_PAGE_SIZE) k nd a
        else give_read (kerninfo s) (storage s) (page_offset B g) k a)"
  shows "\<exists>s2. satisfy e False r s = (if rs = [] then Some s2
           else if w then mark_siblings (hdp rs) k (LOCK_WRITER k (page_offset B g) (B * MIN_PAGE_SIZE) s2) else satisfy e True (hdp rs) s2)
      \<and> serving B g s2 a' q rs \<and> same_rest s s2 \<and> sent s2 = sent s @ ms \<and> (\<forall>j. j \<notin> set (grp B g) \<longrightarrow> min_pages s2 j = min_pages s j)"
proof -
  obtain v s1 where g: "grant r s = (v, s1)" by (cases "grant r s")
  have Q: "queue_rep B g s ((k, w, nd) # q) (r # rs)" and u: "\<And>j. j \<in> set (grp B g) \<Longrightarrow> use_rep a (min_pages s j) \<and> mp_head (min_pages s j) = 0"
    using S by (auto simp: serving_def)
  have kn: "known B s k" "\<And>x. x \<in> set q \<Longrightarrow> known B s (fst x)" "\<And>x. x \<in> readers a \<Longrightarrow> known B s x" "distinct (k # map fst q)"
    using K by (auto simp: all_known_def)
  have ur: "\<And>j. j \<in> set (grp B g) \<Longrightarrow> use_rep a (min_pages s j)" using u by blast
  note G = grant_spec [of B g a s k w nd q r rs v s1 a' ms, OF B ur a [unfolded unwritten_def] Q kn(4,1-3) g a']
  have v: "v = (if w then USE_WRITE else USE_READ)" and sr: "same_rest s s1" and se: "sent s1 = sent s @ ms" and wr: "wait_rep q (min_pages s1 (g * B))"
    and out: "\<And>j. j \<notin> set (grp B g) \<Longrightarrow> min_pages s1 j = min_pages s j"
    and ins: "\<And>j. j \<in> set (grp B g) \<Longrightarrow> use_rep a' (min_pages s1 j) \<and> mp_head (min_pages s1 j) = mp_head (min_pages s j) \<and> mp_tail (min_pages s1 j) = mp_tail (min_pages s j)"
    by (rule G; assumption)+
  let ?h = "\<lambda>p. if mp_tail p = r then p\<lparr>mp_tail := 0\<rparr> else p"
  define s2 where "s2 = s1\<lparr>min_pages := (\<lambda>j. if j \<in> set (grp B g) then ?h (min_pages s1 j) else min_pages s1 j)\<rparr>"
  have r: "r_kernel (req s r) = int k" "first_page (req s r) = g * B" "last_page (req s r) = g * B + B - 1"
    and c: "chain (\<lambda>r. follow (req s r)) r (r # rs)" and l2: "list_all2 (req_rep B g s) q rs" using Q by (auto simp: queue_rep_def req_rep_def)
  have fr: "follow (req s r) = hdp rs" using c by (cases rs) auto
  have nz: "rs \<noteq> [] \<Longrightarrow> hdp rs \<noteq> 0" using chain_members [OF c] by (cases rs) auto
  have rq: "req s2 = req s" "kerninfo s2 = kerninfo s" using same_restD [OF sr] by (simp_all add: s2_def)
  have f2: "fold (\<lambda>j. upd_page j ?h) (pages (g * B) (g * B + B - 1)) s1 = s2"
    unfolding pages_group [OF B] fold_upd_page [OF distinct_group] s2_def ..
  have tl: "mp_tail (min_pages s2 j) = lastp rs" if j: "j \<in> set (grp B g)" for j
  proof (cases "rs = []")
    case True
    then show ?thesis using ins [OF j] Q j by (simp add: s2_def queue_rep_def)
  next
    case False
    then have "last rs \<noteq> r" using chain_distinct [OF c] by auto
    then show ?thesis using ins [OF j] Q j False by (simp add: s2_def queue_rep_def lastp_last)
  qed
  have sv: "serving B g s2 a' q rs"
    unfolding serving_def queue_rep_def rq(1)
  proof (intro conjI ballI)
    fix j assume j: "j \<in> set (grp B g)"
    show "use_rep a' (min_pages s2 j)" "mp_head (min_pages s2 j) = 0" using ins [OF j] u [OF j] j
      by (auto simp: s2_def use_rep_def split: access.splits)
    show "mp_tail (min_pages s2 j) = lastp rs" by (rule tl [OF j])
  next
    have "req_rep B g s2 = req_rep B g s" by (intro ext) (simp add: req_rep_def rq(1))
    then show "list_all2 (req_rep B g s2) q rs" using l2 by simp
    show "chain (\<lambda>x. follow (req s x)) (hdp rs) rs" using c fr by simp
    show "wait_rep q (min_pages s2 (g * B))" using wr by (auto simp: s2_def wait_rep_def)
  qed
  have hd2: "rs \<noteq> [] \<Longrightarrow> first_page (req s (hdp rs)) = g * B \<and> last_page (req s (hdp rs)) = g * B + B - 1"
    using l2 by (cases rs; cases q) (auto simp: req_rep_def)
  have wk: "w \<Longrightarrow> writer_of (user (min_pages s2 (g * B))) = k"
    using ins [OF first_group [OF B]] a' first_group [OF B, of g] by (auto simp: s2_def use_rep_def give_write_def)
  have pz: "page_size (kerninfo s k) = B * MIN_PAGE_SIZE" using kn(1) by (simp add: known_def)
  have off: "PAGE_TO_OFFSET (g * B) = page_offset B g"
    by (simp add: PAGE_TO_OFFSET_def page_offset_def push_bit_eq_mult MIN_PAGE_SHIFT_def MIN_PAGE_SIZE_def)
  have "satisfy e False r s = (if rs = [] then Some s2
           else if w then mark_siblings (hdp rs) k (LOCK_WRITER k (page_offset B g) (B * MIN_PAGE_SIZE) s2) else satisfy e True (hdp rs) s2)"
  proof -
    have nd: "(r_kernel (req s r) = - 1) = False" using r(1) by simp
    note unf = satisfy.simps [of e False r s, unfolded Let_def nd if_False simp_thms r(2,3) g fst_conv snd_conv f2 rq fr off]
    show ?thesis
    proof (cases "rs = []")
      case True
      then have "hdp rs = 0" by simp
      then show ?thesis unfolding unf using True by simp
    next
      case False
      then show ?thesis unfolding unf using hd2 nz wk v pz by simp
    qed
  qed
  moreover have "same_rest s s2" using sr by (simp add: s2_def same_rest_def)
  moreover have "sent s2 = sent s @ ms" using se by (simp add: s2_def)
  moreover have "\<forall>j. j \<notin> set (grp B g) \<longrightarrow> min_pages s2 j = min_pages s j" using out by (simp add: s2_def)
  ultimately show ?thesis using sv by blast
qed

text \<open>After the writer has been granted the page, the next request waits for it.\<close>

lemma mark_next:
  assumes B: "0 < B" and S: "serving B g s (Writer k) q rs" and ne: "rs \<noteq> []"
  shows "\<exists>s'. mark_siblings (hdp rs) k s = Some s' \<and> page_rep B g s' \<lparr>acc = Writer k, wq = q\<rparr> rs \<and> sched_frame B g {hdp rs} s s'
     \<and> req_heap s' = req_heap s \<and> free_requests s' = free_requests s \<and> sent s' = sent s \<and> (\<forall>x. follow (req s' x) = follow (req s x))"
proof -
  obtain r rs' where rs: "rs = r # rs'" using ne by (cases rs) auto
  obtain x q' where q: "q = x # q'" "req_rep B g s x r" "list_all2 (req_rep B g s) q' rs'"
    using S rs by (auto simp: serving_def queue_rep_def list_all2_Cons2)
  have r0: "r \<noteq> 0" and c: "chain (\<lambda>r. follow (req s r)) r (r # rs')" using S rs by (auto simp: serving_def queue_rep_def)
  define s' where "s' = req_mark r k (upd_page (g * B) (\<lambda>p. p\<lparr>mp_head := r\<rparr>) s)"
  have f: "first_page (req s r) = g * B" "sibling (req s r) = 0" using q(2) by (simp_all add: req_rep_def)
  have s': "min_pages s' = (min_pages s)(g * B := (min_pages s (g * B))\<lparr>mp_head := r\<rparr>)" "req s' = (req s)(r := (req s r)\<lparr>r_mark := omark s\<rparr>)"
    "storage s' = storage s" "paging_object s' = paging_object s" "object_size s' = object_size s" "kerninfo s' = kerninfo s"
    "faults_per_page s' = faults_per_page s" "faults_total s' = faults_total s" "req_heap s' = req_heap s" "free_requests s' = free_requests s" "sent s' = sent s"
    by (simp_all add: s'_def req_mark_def add_outstanding_def upd_page_def upd_req_def Let_def)
  have rr: "req_rep B g s' = req_rep B g s" by (intro ext) (simp add: req_rep_def s')
  have "mark_siblings (hdp rs) k s = Some s'"
    unfolding mark_siblings_def rs hdp.simps
    by (subst fold_from.simps) (use r0 in \<open>simp add: f s'(2) s'_def [symmetric]\<close>, subst fold_from.simps, simp)
  moreover have "page_rep B g s' \<lparr>acc = Writer k, wq = q\<rparr> rs"
    unfolding page_rep_def queue_rep_def rr
  proof (intro conjI ballI impI)
    fix j assume j: "j \<in> set (grp B g)"
    show "use_rep (acc \<lparr>acc = Writer k, wq = q\<rparr>) (min_pages s' j)" using S j by (auto simp: serving_def s' use_rep_def)
    show "mp_head (min_pages s' j) = 0" if "j \<noteq> g * B" using S j that by (auto simp: serving_def s')
    show "mp_tail (min_pages s' j) = lastp rs" using S j by (auto simp: serving_def s' queue_rep_def)
  next
    show "mp_head (min_pages s' (g * B)) = hdp rs" by (simp add: s' rs)
    show "list_all2 (req_rep B g s) (wq \<lparr>acc = Writer k, wq = q\<rparr>) rs" using S by (simp add: serving_def queue_rep_def)
    have "(\<lambda>r. follow (req s' r)) = (\<lambda>r. follow (req s r))" by (auto simp: s')
    then show "chain (\<lambda>r. follow (req s' r)) (hdp rs) rs" using serving_chain [OF S] by simp
    show "wait_rep (wq \<lparr>acc = Writer k, wq = q\<rparr>) (min_pages s' (g * B))" using S by (simp add: serving_def queue_rep_def s' wait_rep_def)
  qed
  moreover have "sched_frame B g {hdp rs} s s'" using first_group [OF B, of g] by (auto simp: sched_frame_def s' rs)
  ultimately show ?thesis using s' by (intro exI [of _ s']) simp
qed

lemma same_rest_frame: "same_rest s s' \<Longrightarrow> (\<And>j. j \<notin> set (grp B g) \<Longrightarrow> min_pages s' j = min_pages s j) \<Longrightarrow> sched_frame B g X s s'"
  by (simp add: same_rest_def sched_frame_def)

lemma all_known_same: "sched_frame B g X s s' \<Longrightarrow> all_known B s' a q = all_known B s a q"
  by (simp add: all_known_def sched_frame_known)

lemma LOCK_WRITER_eq: "LOCK_WRITER k off len s = s\<lparr>sent := sent s @ [lock_writer_msg (kerninfo s) (paging_object s) k off len]\<rparr>"
  by (simp add: LOCK_WRITER_def send_def lock_writer_msg_def)

lemma serving_sent: "serving B g (s\<lparr>sent := x\<rparr>) a q rs = serving B g s a q rs"
proof -
  have "req_rep B g (s\<lparr>sent := x\<rparr>) = req_rep B g s" by (intro ext) (simp add: req_rep_def)
  then show ?thesis by (simp add: serving_def queue_rep_def)
qed

text \<open>What serving a queue leaves: a page, its remaining requests and the longer pool of free requests.\<close>

definition served :: "nat \<Rightarrow> nat \<Rightarrow> ptr list \<Rightarrow> ptr list \<Rightarrow> netobj \<Rightarrow> netobj \<Rightarrow> apage \<times> (nat \<times> pager_msg) list \<Rightarrow> ptr list \<Rightarrow> ptr list \<Rightarrow> bool" where
  "served B g rs fs s s' p rs' fs' \<longleftrightarrow> page_rep B g s' (fst p) rs' \<and> chain (\<lambda>r. follow (req s' r)) (free_requests s') fs'
     \<and> set fs' \<subseteq> set fs \<union> set rs \<and> set rs' \<subseteq> set rs \<and> set rs' \<inter> set fs' = {} \<and> req_heap s' = req_heap s
     \<and> sent s' = sent s @ snd p \<and> sched_frame B g (set rs) s s'"

lemma free_chain_frame:
  "sched_frame B g X s s' \<Longrightarrow> X \<inter> set fs = {} \<Longrightarrow> chain (\<lambda>r. follow (req s' r)) p fs = chain (\<lambda>r. follow (req s r)) p fs"
  by (rule chain_cong) (auto simp: sched_frame_def)

lemma page_rep_free:
  assumes "0 < B" "page_rep B g s a rs" "r \<notin> set rs"
  shows "page_rep B g (req_free r s) a rs"
proof -
  have "min_pages (req_free r s) = min_pages s" "\<And>x. x \<noteq> r \<Longrightarrow> req (req_free r s) x = req s x" by (simp_all add: req_free_def upd_req_def Let_def)
  then have "page_rep B g (req_free r s) a rs \<longleftrightarrow> page_rep B g s a rs" using assms(1,3) by (intro page_rep_cong) (simp, simp, metis)
  then show ?thesis using assms(2) by simp
qed

lemma req_free_chain:
  assumes "chain (\<lambda>x. follow (req s x)) (free_requests s) fs" and "r \<noteq> 0" and "r \<notin> set fs"
  shows "chain (\<lambda>x. follow (req (req_free r s) x)) (free_requests (req_free r s)) (r # fs)"
proof -
  have "chain (\<lambda>x. follow (req (req_free r s) x)) (free_requests s) fs = chain (\<lambda>x. follow (req s x)) (free_requests s) fs"
    using assms(3) by (intro chain_cong) (auto simp: req_free_def upd_req_def Let_def)
  then show ?thesis using assms by (simp add: req_free_def upd_req_def Let_def)
qed

text \<open>The request that has been satisfied is returned by the caller.\<close>

lemma served_free:
  assumes B: "0 < B" and V: "served B g rs fs s s' p rs' fs'" and r: "r \<noteq> 0" "r \<notin> set rs" "r \<notin> set fs"
  shows "served B g (r # rs) fs s (req_free r s') p rs' (r # fs')"
proof -
  note d = V [unfolded served_def]
  have n: "r \<notin> set fs'" "r \<notin> set rs'" using d r by auto
  have "page_rep B g (req_free r s') (fst p) rs'" using page_rep_free [OF B _ n(2)] d by simp
  moreover have "chain (\<lambda>x. follow (req (req_free r s') x)) (free_requests (req_free r s')) (r # fs')"
    by (rule req_free_chain [OF _ r(1) n(1)]) (use d in simp)
  moreover have "sched_frame B g (set (r # rs)) s (req_free r s')"
    using d by (intro sched_frame_trans [of B g "set rs" s s' "{r}", OF _ req_free_frame]) auto
  moreover have "req_heap (req_free r s') = req_heap s'" "sent (req_free r s') = sent s'" by (simp_all add: req_free_def upd_req_def Let_def)
  ultimately show ?thesis using d n by (auto simp: served_def)
qed

lemma served_trans:
  assumes V: "served B g rs fs s1 s' p rs' fs'" and sr: "sched_frame B g X s s1" and X: "X \<subseteq> set rs" and h: "req_heap s1 = req_heap s" and m: "sent s1 = sent s @ ms"
  shows "served B g rs fs s s' (fst p, ms @ snd p) rs' fs'"
proof -
  have "sched_frame B g (set rs) s s'" by (rule sched_frame_trans [OF sr _ X subset_refl]) (use V in \<open>simp add: served_def\<close>)
  then show ?thesis using V h m by (auto simp: served_def)
qed

lemma served_weaken:
  assumes "served B g rs fs s s' p rs' fs'" and "set rs \<subseteq> set rs0"
  shows "served B g rs0 fs s s' p rs' fs'"
  using assms sched_frame_mono [of B g "set rs" s s' "set rs0"] unfolding served_def by auto

lemma satisfy_spec:
  assumes B: "0 < B" and "serving B g s a (x # q) (r # rs)" and "unwritten a" and "all_known B s a (x # q)"
    and "chain (\<lambda>r. follow (req s r)) (free_requests s) fs" and "set fs \<inter> set (r # rs) = {}"
  shows "\<exists>s' rs' fs'. satisfy e False r s = Some s'
     \<and> served B g rs fs s s' (serve (kerninfo s) (storage s) (paging_object s) (page_offset B g) (B * MIN_PAGE_SIZE) a (x # q)) rs' fs'"
  using assms(2-)
proof (induction q arbitrary: s a x r rs)
  case Nil
  obtain k w nd where x: "x = (k, w, nd)" by (cases x)
  define am where "am = (if w then give_write (kerninfo s) (storage s) (page_offset B g) (B * MIN_PAGE_SIZE) k nd a
        else give_read (kerninfo s) (storage s) (page_offset B g) k a)"
  obtain a' ms where am': "(a', ms) = am" by (metis surj_pair)
  have "rs = []" using Nil.prems(1) by (auto simp: serving_def queue_rep_def)
  then obtain s2 where s2: "satisfy e False r s = Some s2" "serving B g s2 a' [] []" "same_rest s s2" "sent s2 = sent s @ ms"
      "\<forall>j. j \<notin> set (grp B g) \<longrightarrow> min_pages s2 j = min_pages s j"
    using satisfy_first [OF B Nil.prems(1) [unfolded x] Nil.prems(2) Nil.prems(3) [unfolded x] am' [unfolded am_def], of e] by auto
  have F: "sched_frame B g {} s s2" using s2(3,5) by (intro same_rest_frame) auto
  have sv: "serve (kerninfo s) (storage s) (paging_object s) (page_offset B g) (B * MIN_PAGE_SIZE) a [x] = (\<lparr>acc = a', wq = []\<rparr>, ms)"
    using am' unfolding am_def x by (cases w) (auto split: prod.splits)
  have "served B g rs fs s s2 (\<lparr>acc = a', wq = []\<rparr>, ms) [] fs"
    using serving_rep [OF s2(2) B] F Nil.prems(4,5) s2(3,4) same_restD [OF s2(3)] \<open>rs = []\<close> by (simp add: served_def)
  then show ?case using s2(1) unfolding sv by blast
next
  case (Cons y q)
  obtain k w nd where x: "x = (k, w, nd)" by (cases x)
  define am where "am = (if w then give_write (kerninfo s) (storage s) (page_offset B g) (B * MIN_PAGE_SIZE) k nd a
        else give_read (kerninfo s) (storage s) (page_offset B g) k a)"
  obtain a' ms where am': "(a', ms) = am" by (metis surj_pair)
  obtain r' rs' where rs: "rs = r' # rs'" using Cons.prems(1) by (auto simp: serving_def queue_rep_def list_all2_Cons1)
  obtain s2 where s2: "satisfy e False r s = (if w then mark_siblings r' k (LOCK_WRITER k (page_offset B g) (B * MIN_PAGE_SIZE) s2) else satisfy e True r' s2)"
      "serving B g s2 a' (y # q) rs" "same_rest s s2" "sent s2 = sent s @ ms" "\<forall>j. j \<notin> set (grp B g) \<longrightarrow> min_pages s2 j = min_pages s j"
    using satisfy_first [OF B Cons.prems(1) [unfolded x] Cons.prems(2) Cons.prems(3) [unfolded x] am' [unfolded am_def], of e]
    unfolding rs hdp.simps by (elim exE conjE) (simp only: list.distinct if_False)
  have F: "sched_frame B g {} s s2" using s2(3,5) by (intro same_rest_frame) auto
  note E = same_restD [OF s2(3)]
  have fs2: "chain (\<lambda>r. follow (req s2 r)) (free_requests s2) fs" using Cons.prems(4) by (simp add: E)
  show ?case
  proof (cases w)
    case True
    then have a': "a' = Writer k" using am' by (auto simp: am_def give_write_def)
    have "rs \<noteq> []" by (simp add: rs)
    let ?s3 = "LOCK_WRITER k (page_offset B g) (B * MIN_PAGE_SIZE) s2"
    obtain s' where s': "mark_siblings r' k ?s3 = Some s'" "page_rep B g s' \<lparr>acc = Writer k, wq = y # q\<rparr> rs"
        "sched_frame B g {r'} ?s3 s'" "req_heap s' = req_heap ?s3" "free_requests s' = free_requests ?s3" "sent s' = sent ?s3"
        "\<forall>x. follow (req s' x) = follow (req ?s3 x)"
      using mark_next [OF B, of g ?s3 k "y # q" rs] s2(2) \<open>rs \<noteq> []\<close> unfolding a' LOCK_WRITER_eq serving_sent rs by auto
    have F3: "sched_frame B g {} s ?s3" using F by (simp add: sched_frame_def LOCK_WRITER_eq)
    have "sched_frame B g (set rs) s s'" using s'(3) by (intro sched_frame_trans [OF F3]) (auto simp: rs)
    moreover have "serve (kerninfo s) (storage s) (paging_object s) (page_offset B g) (B * MIN_PAGE_SIZE) a (x # y # q)
        = (\<lparr>acc = Writer k, wq = y # q\<rparr>, ms @ [lock_writer_msg (kerninfo s) (paging_object s) k (page_offset B g) (B * MIN_PAGE_SIZE)])"
      using am' True a' unfolding am_def x by (auto split: prod.splits)
    moreover have "set rs \<inter> set fs = {}" using Cons.prems(5) by auto
    ultimately have "served B g rs fs s s' (serve (kerninfo s) (storage s) (paging_object s) (page_offset B g) (B * MIN_PAGE_SIZE) a (x # y # q)) rs fs"
      using s' s2(4) fs2 E by (auto simp: served_def LOCK_WRITER_eq)
    then show ?thesis using s2(1) s'(1) True by auto
  next
    case False
    then have a': "a' = Readers (insert k (readers a))" using am' by (auto simp: am_def give_read_def)
    have kn: "all_known B s2 a' (y # q)" using Cons.prems(3) unfolding all_known_same [OF F] by (auto simp: all_known_def a' x)
    have dj: "set fs \<inter> set (r' # rs') = {}" using Cons.prems(5) rs by auto
    obtain s3 rs3 fs3 where s3: "satisfy e False r' s2 = Some s3"
        "served B g rs' fs s2 s3 (serve (kerninfo s2) (storage s2) (paging_object s2) (page_offset B g) (B * MIN_PAGE_SIZE) a' (y # q)) rs3 fs3"
      using Cons.IH [OF s2(2) [unfolded rs] _ kn fs2 dj] a' by auto
    have c: "chain (\<lambda>r. follow (req s2 r)) r' (r' # rs')" using serving_chain [OF s2(2)] rs by simp
    have nr: "r' \<noteq> 0" "r' \<notin> set rs'" "r' \<notin> set fs" using chain_members [OF c] chain_distinct [OF c] dj by auto
    have "req s3 r' = req s2 r'" using s3(2) nr(2) by (simp add: served_def sched_frame_def)
    then have sb: "sibling (req s3 r') = 0" using s2(2) rs by (auto simp: serving_def queue_rep_def req_rep_def)
    have "satisfy e True r' s2 = Some (req_free r' s3)"
      by (subst satisfy.simps) (use nr(1) s3(1) sb in \<open>simp add: satisfy.simps [of e True 0]\<close>)
    moreover have "served B g rs fs s2 (req_free r' s3) (serve (kerninfo s2) (storage s2) (paging_object s2) (page_offset B g) (B * MIN_PAGE_SIZE) a' (y # q)) rs3 (r' # fs3)"
      unfolding rs by (rule served_free [OF B s3(2) nr])
    note served_trans [OF this F _ E(10) s2(4)]
    moreover have "serve (kerninfo s) (storage s) (paging_object s) (page_offset B g) (B * MIN_PAGE_SIZE) a (x # y # q)
        = (fst (serve (kerninfo s) (storage s) (paging_object s) (page_offset B g) (B * MIN_PAGE_SIZE) a' (y # q)),
           ms @ snd (serve (kerninfo s) (storage s) (paging_object s) (page_offset B g) (B * MIN_PAGE_SIZE) a' (y # q)))"
      using am' [symmetric] False unfolding am_def x by (simp add: split_beta)
    ultimately show ?thesis using s2(1) False E by (intro exI [of _ "req_free r' s3"] exI [of _ rs3] exI [of _ "r' # fs3"]) simp
  qed
qed

end
