(* ===== verification/Netmem_Wait.thy ===== *)
theory Netmem_Wait
  imports Netmem_Queue
begin

text \<open>
  Waiting for a written page: a request is taken from the pool or allocated, and is appended to the
  queue of the page; the writer is asked for the page by the first request of the queue.
\<close>

definition heap_fresh :: "nm_env \<Rightarrow> bool" where
  "heap_fresh e \<longleftrightarrow> (\<forall>H. finite H \<longrightarrow> nm_malloc e H \<noteq> 0 \<and> nm_malloc e H \<notin> H)"

lemma chain_end: "chain nx p xs \<Longrightarrow> xs \<noteq> [] \<Longrightarrow> nx (last xs) = 0"
  by (induction xs arbitrary: p) auto

section \<open>Allocation\<close>

lemma req_alloc_spec:
  assumes h: "heap_fresh e" and c: "chain (\<lambda>r. follow (req s r)) (free_requests s) fs" and fin: "finite (req_heap s)" and sub: "set fs \<subseteq> req_heap s"
    and a: "req_alloc e s = (r, s1)"
  shows "\<exists>fs1. chain (\<lambda>r. follow (req s1 r)) (free_requests s1) fs1 \<and> r \<noteq> 0 \<and> r \<notin> set fs1 \<and> set fs1 \<subseteq> set fs
      \<and> (r \<in> set fs \<or> r \<notin> req_heap s) \<and> req_heap s1 = insert r (req_heap s) \<and> sched_frame B g {r} s s1 \<and> min_pages s1 = min_pages s \<and> sent s1 = sent s"
proof (cases "free_requests s = 0")
  case False
  then obtain fs1 where fs: "fs = free_requests s # fs1" "chain (\<lambda>r. follow (req s r)) (follow (req s (free_requests s))) fs1"
    using chain_nonnull [OF c] by auto
  have "r = free_requests s" "s1 = s\<lparr>free_requests := follow (req s r)\<rparr>" using a False by (auto simp: req_alloc_def Let_def)
  then show ?thesis using fs chain_members [OF c] chain_distinct [OF c] sub by (intro exI [of _ fs1]) (auto simp: sched_frame_def)
next
  case True
  then have fs: "fs = []" using c by (cases fs) auto
  have r: "r = nm_malloc e (req_heap s)" "r \<noteq> 0" "r \<notin> req_heap s" using a True h fin by (auto simp: req_alloc_def heap_fresh_def Let_def)
  show ?thesis using a True fs r by (intro exI [of _ "[]"]) (auto simp: req_alloc_def upd_req_def sched_frame_def Let_def)
qed

section \<open>The queue with one more request\<close>

lemma lastp_snoc [simp]: "lastp (rs @ [r]) = r"
  by (cases rs) auto

lemma hdp_append: "hdp (rs @ [r]) = (if rs = [] then r else hdp rs)"
  by (cases rs) auto

lemma page_rep_enqueue:
  assumes P: "page_rep B g s p rs" and r: "r \<noteq> 0" "r \<notin> set rs"
    and use: "\<And>j. j \<in> set (grp B g) \<Longrightarrow> use_rep (acc p) (min_pages s' j) \<and> mp_tail (min_pages s' j) = r
        \<and> mp_head (min_pages s' j) = (if j = g * B \<and> rs = [] then r else mp_head (min_pages s j))"
    and W: "wait_rep (wq p @ [x]) (min_pages s' (g * B))" and B: "0 < B" and R: "req_rep B g s' x r"
    and old: "\<And>y. y \<in> set rs \<Longrightarrow> req s' y = (req s y)\<lparr>follow := (if y = last rs then r else follow (req s y))\<rparr>" and f0: "follow (req s' r) = 0"
  shows "page_rep B g s' (p\<lparr>wq := wq p @ [x]\<rparr>) (rs @ [r])"
proof -
  have Q: "list_all2 (req_rep B g s) (wq p) rs" and c: "chain (\<lambda>r. follow (req s r)) (hdp rs) rs"
    using P by (auto simp: page_rep_def queue_rep_def)
  have "list_all2 (req_rep B g s') (wq p) rs = list_all2 (req_rep B g s) (wq p) rs"
    by (rule list.rel_cong) (use old in \<open>simp_all add: req_rep_def\<close>)
  moreover have "chain (\<lambda>r. follow (req s' r)) (hdp (rs @ [r])) (rs @ [r])"
  proof (cases "rs = []")
    case True
    then show ?thesis using r f0 by simp
  next
    case False
    let ?n = "(\<lambda>r. follow (req s r))(r := 0, last rs := r)"
    have "chain ?n (hdp rs) (rs @ [r])" by (rule chain_snoc [OF c False r])
    moreover have "chain (\<lambda>r. follow (req s' r)) (hdp rs) (rs @ [r]) = chain ?n (hdp rs) (rs @ [r])"
      using old f0 r(2) False by (intro chain_cong) auto
    ultimately show ?thesis using False by (simp add: hdp_append)
  qed
  moreover have "mp_head (min_pages s' (g * B)) = hdp (rs @ [r])"
    using use [OF first_group [OF B]] P by (auto simp: page_rep_def hdp_append)
  moreover have "list_all2 (req_rep B g s') (wq p @ [x]) (rs @ [r]) \<longleftrightarrow> list_all2 (req_rep B g s') (wq p) rs \<and> req_rep B g s' x r"
    using list_all2_lengthD [OF Q] by (simp add: list_all2_append)
  ultimately show ?thesis using use W R Q P by (auto simp: page_rep_def queue_rep_def)
qed

section \<open>The two ways to wait\<close>

lemma fold_follow:
  assumes "distinct js" and "\<And>j. j \<in> set js \<Longrightarrow> mp_tail (min_pages s j) = t" and "follow (req s t) \<noteq> 0"
  shows "fold (follow_tail r) js s = s\<lparr>min_pages := (\<lambda>j. if j \<in> set js then (min_pages s j)\<lparr>mp_tail := r\<rparr> else min_pages s j)\<rparr>"
proof -
  have "fold (follow_tail r) js s = fold (\<lambda>j. upd_page j (\<lambda>p. p\<lparr>mp_tail := r\<rparr>)) js s"
    using assms
  proof (induction js arbitrary: s)
    case (Cons j js)
    have "follow_tail r j s = upd_page j (\<lambda>p. p\<lparr>mp_tail := r\<rparr>) s" using Cons.prems by (simp add: follow_tail_def Let_def)
    moreover have "fold (follow_tail r) js (upd_page j (\<lambda>p. p\<lparr>mp_tail := r\<rparr>) s) = fold (\<lambda>j. upd_page j (\<lambda>p. p\<lparr>mp_tail := r\<rparr>)) js (upd_page j (\<lambda>p. p\<lparr>mp_tail := r\<rparr>) s)"
      using Cons.prems by (intro Cons.IH) (auto simp: upd_page_def)
    ultimately show ?case by simp
  qed simp
  then show ?thesis unfolding fold_upd_page [OF assms(1)] .
qed

lemma add_sleeping_eq:
  assumes B: "0 < B" and f: "first_page (req s r) = g * B" "last_page (req s r) = g * B + B - 1"
    and t: "\<And>j. j \<in> set (grp B g) \<Longrightarrow> mp_tail (min_pages s j) = t" and t0: "t \<noteq> 0" "t \<noteq> r" "follow (req s t) = 0" and r0: "r \<noteq> 0"
  shows "add_sleeping r s = Some (s\<lparr>min_pages := (\<lambda>j. if j \<in> set (grp B g) then (min_pages s j)\<lparr>mp_tail := r\<rparr> else min_pages s j),
     req := (req s)(r := (req s r)\<lparr>r_count := 1, follow := 0, sibling := 0\<rparr>, t := (req s t)\<lparr>follow := r\<rparr>)\<rparr>)"
proof -
  define s1 where "s1 = s\<lparr>req := (req s)(r := (req s r)\<lparr>r_count := 0, follow := 0, sibling := 0\<rparr>)\<rparr>"
  define s2 where "s2 = s1\<lparr>req := (req s1)(t := (req s1 t)\<lparr>follow := r\<rparr>, r := (req s1 r)\<lparr>r_count := 1\<rparr>), min_pages := (min_pages s1)(g * B := (min_pages s1 (g * B))\<lparr>mp_tail := r\<rparr>)\<rparr>"
  have tf: "mp_tail (min_pages s1 (g * B)) = t" using t [OF first_group [OF B]] by (simp add: s1_def)
  have ft: "follow (req s1 t) = 0" "r_count (req s1 r) = 0" using t0 by (simp_all add: s1_def)
  have 1: "follow_tail r (g * B) s1 = s2"
    using t0(1,2) ft unfolding follow_tail_def Let_def tf by (simp add: upd_page_def upd_req_def s2_def)
  have g: "grp B g = g * B # [Suc (g * B)..<g * B + B]" using B by (simp add: grp_def upt_conv_Cons)
  have 2: "fold (follow_tail r) [Suc (g * B)..<g * B + B] s2
      = s2\<lparr>min_pages := (\<lambda>j. if j \<in> set [Suc (g * B)..<g * B + B] then (min_pages s2 j)\<lparr>mp_tail := r\<rparr> else min_pages s2 j)\<rparr>"
    by (rule fold_follow [of _ _ t]) (use t t0 r0 in \<open>auto simp: s2_def s1_def group_mem\<close>)
  define s3 where "s3 = fold (follow_tail r) (grp B g) s1"
  have s3: "s3 = s\<lparr>min_pages := (\<lambda>j. if j \<in> set (grp B g) then (min_pages s j)\<lparr>mp_tail := r\<rparr> else min_pages s j),
     req := (req s)(r := (req s r)\<lparr>r_count := 1, follow := 0, sibling := 0\<rparr>, t := (req s t)\<lparr>follow := r\<rparr>)\<rparr>"
    unfolding s3_def g fold_simps 1 2 using t0(2) by (auto simp: s2_def s1_def fun_eq_iff B)
  have "upd_req r (\<lambda>x. x\<lparr>r_count := 0, follow := 0, sibling := 0\<rparr>) s = s1" by (simp add: upd_req_def s1_def)
  then have "add_sleeping r s = Some s3"
    unfolding add_sleeping_def Let_def f pages_group [OF B] using t0(2) by (simp add: s3_def [symmetric]) (simp add: s3)
  then show ?thesis by (simp add: s3)
qed

lemma add_expecting_eq:
  assumes B: "0 < B" and f: "first_page (req s r) = g * B" "last_page (req s r) = g * B + B - 1" "r_kernel (req s r) = int k"
    and w: "use (min_pages s (g * B)) = USE_WRITE" "writer_of (user (min_pages s (g * B))) = w" and K: "known B s k" "known B s w"
  shows "add_expecting r s = Some (s\<lparr>
     min_pages := (\<lambda>j. if j \<in> set (grp B g) then (min_pages s j)\<lparr>mp_tail := r, mp_head := if j = g * B then r else mp_head (min_pages s j)\<rparr> else min_pages s j),
     req := (req s)(r := (req s r)\<lparr>r_count := 1, follow := 0, sibling := 0, r_mark := omark s\<rparr>),
     outstanding := (outstanding s)(w := (outstanding s w)(omark s := s16 (outstanding s w (omark s) + 1))),
     sent := sent s @ [lock_writer_msg (kerninfo s) (paging_object s) w (page_offset B g) (B * MIN_PAGE_SIZE)]\<rparr>)"
proof -
  define s1 where "s1 = s\<lparr>req := (req s)(r := (req s r)\<lparr>r_count := 0, follow := 0, sibling := 0\<rparr>)\<rparr>"
  define s2 where "s2 = s1\<lparr>min_pages := (\<lambda>j. if j \<in> set (grp B g) then (min_pages s j)\<lparr>mp_tail := r\<rparr> else min_pages s j)\<rparr>"
  have fg: "g * B \<in> set (grp B g)" by (rule first_group [OF B])
  have off: "PAGE_TO_OFFSET (g * B) = page_offset B g"
    by (simp add: PAGE_TO_OFFSET_def page_offset_def push_bit_eq_mult MIN_PAGE_SHIFT_def MIN_PAGE_SIZE_def)
  have pz: "page_size (kerninfo s k) = B * MIN_PAGE_SIZE" "page_size (kerninfo s w) = B * MIN_PAGE_SIZE" using K by (simp_all add: known_def)
  have sh: "drop_bit MIN_PAGE_SHIFT (B * MIN_PAGE_SIZE) = B" by (simp add: MIN_PAGE_SHIFT_def MIN_PAGE_SIZE_def drop_bit_eq_div)
  have e1: "upd_req r (\<lambda>x. x\<lparr>r_count := 0, follow := 0, sibling := 0\<rparr>) s = s1" by (simp add: upd_req_def s1_def)
  have m1: "min_pages s1 = min_pages s" by (simp add: s1_def)
  have e2: "fold (\<lambda>j. upd_page j (\<lambda>p. p\<lparr>mp_tail := r\<rparr>)) (grp B g) s1 = s2" unfolding fold_upd_page [OF distinct_group] s2_def m1 ..
  have k2: "r_kernel (req s2 r) = int k" "kerninfo s2 = kerninfo s" "use (min_pages s2 (g * B)) = USE_WRITE" "writer_of (user (min_pages s2 (g * B))) = w"
    using f(3) w fg by (simp_all add: s2_def s1_def)
  have "add_expecting r s = boot_writers r (g * B) (g * B + B - 1) s2"
    unfolding add_expecting_def Let_def f pages_group [OF B] e1 e2 k2 by (simp add: pz)
  also have "\<dots> = Some (upd_req r (\<lambda>x. x\<lparr>r_count := r_count x + 1\<rparr>) (LOCK_WRITER w (page_offset B g) (B * MIN_PAGE_SIZE) (req_mark r w (upd_page (g * B) (\<lambda>p. p\<lparr>mp_head := r\<rparr>) s2))))"
  proof -
    have ki: "kerninfo (req_mark r w (upd_page (g * B) (\<lambda>p. p\<lparr>mp_head := r\<rparr>) s2)) = kerninfo s"
      by (simp add: req_mark_def add_outstanding_def upd_page_def upd_req_def Let_def k2)
    show ?thesis
      by (subst boot_writers.simps) (use B in \<open>simp add: k2 off ki pz sh, subst boot_writers.simps, simp add: Let_def\<close>)
  qed
  also have "\<dots> = Some (s\<lparr>
     min_pages := (\<lambda>j. if j \<in> set (grp B g) then (min_pages s j)\<lparr>mp_tail := r, mp_head := if j = g * B then r else mp_head (min_pages s j)\<rparr> else min_pages s j),
     req := (req s)(r := (req s r)\<lparr>r_count := 1, follow := 0, sibling := 0, r_mark := omark s\<rparr>),
     outstanding := (outstanding s)(w := (outstanding s w)(omark s := s16 (outstanding s w (omark s) + 1))),
     sent := sent s @ [lock_writer_msg (kerninfo s) (paging_object s) w (page_offset B g) (B * MIN_PAGE_SIZE)]\<rparr>)"
    using fg by (auto simp: LOCK_WRITER_eq req_mark_def add_outstanding_def upd_page_def upd_req_def Let_def s2_def s1_def fun_eq_iff)
  finally show ?thesis .
qed

section \<open>Waiting\<close>

text \<open>A step of the server on one page, as seen by the rest of the object.\<close>

definition page_step :: "nat \<Rightarrow> nat \<Rightarrow> ptr list \<Rightarrow> ptr list \<Rightarrow> netobj \<Rightarrow> netobj \<Rightarrow> apage \<Rightarrow> (nat \<times> pager_msg) list \<Rightarrow> ptr list \<Rightarrow> ptr list \<Rightarrow> bool" where
  "page_step B g rs fs s s' p ms rs' fs' \<longleftrightarrow> page_rep B g s' p rs' \<and> chain (\<lambda>r. follow (req s' r)) (free_requests s') fs'
     \<and> set rs' \<union> set fs' \<subseteq> set rs \<union> set fs \<union> (req_heap s' - req_heap s) \<and> set rs' \<inter> set fs' = {} \<and> finite (req_heap s')
     \<and> sent s' = sent s @ ms \<and> sched_frame B g (set rs \<union> set fs \<union> - req_heap s) s s'"

lemma served_step:
  assumes "served B g rs fs s s' p rs' fs'" and "finite (req_heap s)"
  shows "page_step B g rs fs s s' (fst p) (snd p) rs' fs'"
  using assms sched_frame_mono [of B g "set rs" s s' "set rs \<union> set fs \<union> - req_heap s"] by (auto simp: served_def page_step_def)

text \<open>The request of \<open>wait_for\<close>, and the marks on the first minimal page.\<close>

definition prepared :: "nat \<Rightarrow> nat \<Rightarrow> nat \<Rightarrow> bool \<Rightarrow> bool \<Rightarrow> ptr \<Rightarrow> netobj \<Rightarrow> netobj" where
  "prepared f l k wr nd r s =
     (let s2 = upd_req r (\<lambda>x. x\<lparr>r_kernel := int k, first_page := f, last_page := l\<rparr>) s;
          s3 = (if wr then upd_page f (\<lambda>p. p\<lparr>write_waiters := SET_ADD k (write_waiters p)\<rparr>) s2 else s2)
      in if nd then upd_page f (\<lambda>p. p\<lparr>data_waiters := SET_ADD k (data_waiters p)\<rparr>) s3 else s3)"

definition marked :: "nat \<Rightarrow> bool \<Rightarrow> bool \<Rightarrow> min_page \<Rightarrow> min_page" where
  "marked k wr nd p = p\<lparr>write_waiters := (if wr then SET_ADD k (write_waiters p) else write_waiters p),
     data_waiters := (if nd then SET_ADD k (data_waiters p) else data_waiters p)\<rparr>"

lemma prepared_eq:
  "prepared f l k wr nd r s = s\<lparr>req := (req s)(r := (req s r)\<lparr>r_kernel := int k, first_page := f, last_page := l\<rparr>),
     min_pages := (min_pages s)(f := marked k wr nd (min_pages s f))\<rparr>"
  by (cases wr; cases nd) (simp_all add: prepared_def upd_req_def upd_page_def marked_def Let_def)

lemma marked_fields [simp]:
  "use (marked k wr nd p) = use p" "user (marked k wr nd p) = user p" "mp_head (marked k wr nd p) = mp_head p" "mp_tail (marked k wr nd p) = mp_tail p"
  by (simp_all add: marked_def)

lemma marked_wait:
  assumes "wait_rep q p" and "k < 32"
  shows "wait_rep (q @ [(k, wr, nd)]) (marked k wr nd p)"
  using assms by (auto simp: wait_rep_def marked_def bit_SET_ADD)

lemma wait_for_spec:
  assumes B: "0 < B" and h: "heap_fresh e" and P: "page_rep B g s p rs" and w: "acc p = Writer w" and K: "known B s k" "known B s w"
    and c: "chain (\<lambda>r. follow (req s r)) (free_requests s) fs" and fin: "finite (req_heap s)" and sub: "set fs \<subseteq> req_heap s" "set rs \<subseteq> req_heap s"
    and dj: "set rs \<inter> set fs = {}"
  shows "\<exists>s' rs' fs'. wait_for e k (g * B) (g * B + B - 1) wr nd s = Some s'
     \<and> page_step B g rs fs s s' (p\<lparr>wq := wq p @ [(k, wr, nd)]\<rparr>)
         (if wq p = [] then [lock_writer_msg (kerninfo s) (paging_object s) w (page_offset B g) (B * MIN_PAGE_SIZE)] else []) rs' fs'"
proof -
  obtain r s1 where a: "req_alloc e s = (r, s1)" by (cases "req_alloc e s")
  obtain fs1 where A: "chain (\<lambda>r. follow (req s1 r)) (free_requests s1) fs1" "r \<noteq> 0" "r \<notin> set fs1" "set fs1 \<subseteq> set fs"
      "r \<in> set fs \<or> r \<notin> req_heap s" "req_heap s1 = insert r (req_heap s)" "sched_frame B g {r} s s1" "min_pages s1 = min_pages s" "sent s1 = sent s"
    using req_alloc_spec [OF h c fin sub(1) a, of B g] by blast
  have rrs: "r \<notin> set rs" using A(5) dj sub by auto
  have same: "y \<noteq> r \<Longrightarrow> req s1 y = req s y" for y using A(7) by (simp add: sched_frame_def)
  have ki: "kerninfo s1 = kerninfo s" "paging_object s1 = paging_object s" "storage s1 = storage s" using A(7) by (simp_all add: sched_frame_def)
  define s4 where "s4 = prepared (g * B) (g * B + B - 1) k wr nd r s1"
  have s4: "s4 = s1\<lparr>req := (req s1)(r := (req s1 r)\<lparr>r_kernel := int k, first_page := g * B, last_page := g * B + B - 1\<rparr>),
      min_pages := (min_pages s)(g * B := marked k wr nd (min_pages s (g * B)))\<rparr>" by (simp add: s4_def prepared_eq A(8))
  have fg: "g * B \<in> set (grp B g)" by (rule first_group [OF B])
  have up: "use_rep (Writer w) (min_pages s j) \<and> (j \<noteq> g * B \<longrightarrow> mp_head (min_pages s j) = 0) \<and> mp_tail (min_pages s j) = lastp rs" if "j \<in> set (grp B g)" for j
    using P that w by (auto simp: page_rep_def queue_rep_def)
  have qr: "list_all2 (req_rep B g s) (wq p) rs" "chain (\<lambda>r. follow (req s r)) (hdp rs) rs" "wait_rep (wq p) (min_pages s (g * B))" using P by (auto simp: page_rep_def queue_rep_def)
  have q0: "wq p = [] \<longleftrightarrow> rs = []" using qr(1) by auto
  have he: "(\<exists>j\<in>set (pages (g * B) (g * B + B - 1)). use (min_pages s j) = USE_WRITE \<and> mp_tail (min_pages s j) \<noteq> 0) \<longleftrightarrow> rs \<noteq> []"
  proof
    assume "\<exists>j\<in>set (pages (g * B) (g * B + B - 1)). use (min_pages s j) = USE_WRITE \<and> mp_tail (min_pages s j) \<noteq> 0"
    then show "rs \<noteq> []" using up unfolding pages_group [OF B] by auto
  next
    assume ne: "rs \<noteq> []"
    then have "lastp rs \<noteq> 0" using chain_last [OF qr(2)] by (simp add: lastp_last)
    then show "\<exists>j\<in>set (pages (g * B) (g * B + B - 1)). use (min_pages s j) = USE_WRITE \<and> mp_tail (min_pages s j) \<noteq> 0"
      unfolding pages_group [OF B] using up [OF fg] fg by (intro bexI [of _ "g * B"]) (auto simp: use_rep_def)
  qed
  have wf: "wait_for e k (g * B) (g * B + B - 1) wr nd s = (if rs \<noteq> [] then add_sleeping r s4 else add_expecting r s4)"
    unfolding wait_for_def Let_def he a prod.case s4_def prepared_def ..
  have r4: "first_page (req s4 r) = g * B" "last_page (req s4 r) = g * B + B - 1" "r_kernel (req s4 r) = int k" by (simp_all add: s4)
  have u4: "use_rep (Writer w) (min_pages s4 j) \<and> mp_head (min_pages s4 j) = mp_head (min_pages s j) \<and> mp_tail (min_pages s4 j) = lastp rs" if "j \<in> set (grp B g)" for j
    using up [OF that] by (auto simp: s4 use_rep_def)
  have W: "wait_rep (wq p @ [(k, wr, nd)]) (min_pages s4 (g * B))" using marked_wait [OF qr(3)] K(1) by (simp add: s4 known_def)
  obtain s' where s': "wait_for e k (g * B) (g * B + B - 1) wr nd s = Some s'"
    and req': "\<And>y. y \<noteq> r \<Longrightarrow> req s' y = (req s y)\<lparr>follow := (if rs \<noteq> [] \<and> y = last rs then r else follow (req s y))\<rparr>"
    and r': "follow (req s' r) = 0" "sibling (req s' r) = 0" "r_kernel (req s' r) = int k" "first_page (req s' r) = g * B" "last_page (req s' r) = g * B + B - 1"
    and mp': "\<And>j. min_pages s' j = (if j \<in> set (grp B g) then (min_pages s4 j)\<lparr>mp_tail := r, mp_head := if j = g * B \<and> rs = [] then r else mp_head (min_pages s j)\<rparr> else min_pages s4 j)"
    and st': "sent s' = sent s @ (if wq p = [] then [lock_writer_msg (kerninfo s) (paging_object s) w (page_offset B g) (B * MIN_PAGE_SIZE)] else [])"
    and ot': "storage s' = storage s1" "paging_object s' = paging_object s1" "object_size s' = object_size s1" "kerninfo s' = kerninfo s1"
      "faults_per_page s' = faults_per_page s1" "faults_total s' = faults_total s1" "req_heap s' = req_heap s1" "free_requests s' = free_requests s1"
  proof (cases "rs = []")
    case True
    define s5 where "s5 = s4\<lparr>
       min_pages := (\<lambda>j. if j \<in> set (grp B g) then (min_pages s4 j)\<lparr>mp_tail := r, mp_head := if j = g * B then r else mp_head (min_pages s4 j)\<rparr> else min_pages s4 j),
       req := (req s4)(r := (req s4 r)\<lparr>r_count := 1, follow := 0, sibling := 0, r_mark := omark s4\<rparr>),
       outstanding := (outstanding s4)(w := (outstanding s4 w)(omark s4 := s16 (outstanding s4 w (omark s4) + 1))),
       sent := sent s4 @ [lock_writer_msg (kerninfo s4) (paging_object s4) w (page_offset B g) (B * MIN_PAGE_SIZE)]\<rparr>"
    have "add_expecting r s4 = Some s5"
      unfolding s5_def using u4 [OF fg] K by (intro add_expecting_eq [OF B r4]) (auto simp: use_rep_def known_def s4 ki)
    then have wf5: "wait_for e k (g * B) (g * B + B - 1) wr nd s = Some s5" using True unfolding wf by simp
    show ?thesis
    proof (rule that [of s5])
      show "min_pages s5 j = (if j \<in> set (grp B g) then (min_pages s4 j)\<lparr>mp_tail := r, mp_head := if j = g * B \<and> rs = [] then r else mp_head (min_pages s j)\<rparr> else min_pages s4 j)" for j
        using u4 [of j] True by (simp add: s5_def)
    qed (use True q0 A(9) wf5 in \<open>simp_all add: s5_def s4 same ki\<close>)
  next
    case False
    then have t: "lastp rs = last rs" "last rs \<noteq> 0" "last rs \<noteq> r" "last rs \<in> set rs" using chain_last [OF qr(2)] rrs last_in_set [of rs] by (auto simp: lastp_last)
    have "follow (req s (last rs)) = 0" by (rule chain_end [OF qr(2) False])
    then have "follow (req s4 (last rs)) = 0" using t(3) by (simp add: s4 same)
    note f0 = this
    define s5 where "s5 = s4\<lparr>min_pages := (\<lambda>j. if j \<in> set (grp B g) then (min_pages s4 j)\<lparr>mp_tail := r\<rparr> else min_pages s4 j),
       req := (req s4)(r := (req s4 r)\<lparr>r_count := 1, follow := 0, sibling := 0\<rparr>, last rs := (req s4 (last rs))\<lparr>follow := r\<rparr>)\<rparr>"
    have "add_sleeping r s4 = Some s5"
      unfolding s5_def using u4 t A(2) f0 by (intro add_sleeping_eq [OF B r4(1,2)]) auto
    then have wf5: "wait_for e k (g * B) (g * B + B - 1) wr nd s = Some s5" using False unfolding wf by simp
    show ?thesis
    proof (rule that [of s5])
      show "min_pages s5 j = (if j \<in> set (grp B g) then (min_pages s4 j)\<lparr>mp_tail := r, mp_head := if j = g * B \<and> rs = [] then r else mp_head (min_pages s j)\<rparr> else min_pages s4 j)" for j
        using u4 [of j] False by (simp add: s5_def)
    qed (use False q0 A(9) t wf5 in \<open>simp_all add: s5_def s4 same ki\<close>)
  qed
  have fs': "chain (\<lambda>r. follow (req s' r)) (free_requests s') fs1"
  proof -
    have "req s' y = req s1 y" if "y \<in> set fs1" for y
    proof -
      have "y \<noteq> r" "rs \<noteq> [] \<Longrightarrow> y \<noteq> last rs" using that A(3,4) dj last_in_set [of rs] by blast+
      then show ?thesis using req' [of y] same [of y] by auto
    qed
    then have "chain (\<lambda>r. follow (req s' r)) (free_requests s') fs1 = chain (\<lambda>r. follow (req s1 r)) (free_requests s') fs1" by (intro chain_cong) simp
    then show ?thesis using A(1) ot' by simp
  qed
  have F: "sched_frame B g (set rs \<union> set fs \<union> - req_heap s) s s'"
  proof -
    have "req s' y = req s y" if "y \<notin> set rs \<union> set fs \<union> - req_heap s" for y
    proof -
      have "y \<noteq> r" "rs \<noteq> [] \<Longrightarrow> y \<noteq> last rs" using that A(5) last_in_set [of rs] by blast+
      then show ?thesis using req' [of y] by auto
    qed
    moreover have "min_pages s' j = min_pages s j" if "j \<notin> set (grp B g)" for j using mp' [of j] that fg by (auto simp: s4)
    ultimately show ?thesis using A(6,7) by (auto simp: sched_frame_def ot')
  qed
  have "page_rep B g s' (p\<lparr>wq := wq p @ [(k, wr, nd)]\<rparr>) (rs @ [r])"
  proof (rule page_rep_enqueue [OF P A(2) rrs])
    show "use_rep (acc p) (min_pages s' j) \<and> mp_tail (min_pages s' j) = r \<and> mp_head (min_pages s' j) = (if j = g * B \<and> rs = [] then r else mp_head (min_pages s j))"
      if "j \<in> set (grp B g)" for j using u4 [OF that] that by (simp add: mp' w use_rep_def)
    show "wait_rep (wq p @ [(k, wr, nd)]) (min_pages s' (g * B))" using W fg by (simp add: mp' wait_rep_def)
    show "req_rep B g s' (k, wr, nd) r" by (simp add: req_rep_def r')
    show "req s' y = (req s y)\<lparr>follow := (if y = last rs then r else follow (req s y))\<rparr>" if "y \<in> set rs" for y
    proof -
      have "y \<noteq> r" "rs \<noteq> []" using that rrs by auto
      then show ?thesis using req' [of y] by auto
    qed
  qed (use B r' in auto)
  then show ?thesis using s' fs' F A fin st' ot' dj sub
    by (intro exI [of _ s'] exI [of _ "rs @ [r]"] exI [of _ fs1]) (auto simp: page_step_def)
qed

end
