(* ===== verification/Netmem_Pages.thy ===== *)
theory Netmem_Pages
  imports Netmem_Wait
begin

text \<open>
  The exported routines of the scheduler on objects whose kernels have one page size: every routine
  refines an operation of a page server, in which a page is an access and a queue of waiting
  kernels.
\<close>

section \<open>The operations of the page server\<close>

definition waiting :: "nat \<Rightarrow> apage \<Rightarrow> bool" where
  "waiting k p \<longleftrightarrow> k \<in> fst ` set (wq p)"

text \<open>A kernel joins the queue of a written page; the first one has the writer asked for the page.\<close>

definition a_wait :: "(nat \<Rightarrow> kernel_t) \<Rightarrow> nat \<Rightarrow> nat \<Rightarrow> nat \<Rightarrow> nat \<Rightarrow> waiter \<Rightarrow> apage \<Rightarrow> apage \<times> (nat \<times> pager_msg) list" where
  "a_wait KI po off len w x p = (p\<lparr>wq := wq p @ [x]\<rparr>, if wq p = [] then [lock_writer_msg KI po w off len] else [])"

definition a_again :: "(nat \<Rightarrow> kernel_t) \<Rightarrow> (nat \<Rightarrow> nat) \<Rightarrow> nat \<Rightarrow> nat \<Rightarrow> nat \<Rightarrow> bool \<Rightarrow> (nat \<times> pager_msg) list" where
  "a_again KI st off len k nd = (if nd then data_msgs KI st k off SUPPLY_ALL else [unlock_msg KI k off len])"

definition a_read :: "(nat \<Rightarrow> kernel_t) \<Rightarrow> (nat \<Rightarrow> nat) \<Rightarrow> nat \<Rightarrow> nat \<Rightarrow> nat \<Rightarrow> nat \<Rightarrow> bool \<Rightarrow> apage \<Rightarrow> apage \<times> (nat \<times> pager_msg) list" where
  "a_read KI st po off len k nd p =
     (if acc p = Writer k \<and> wq p = [] then (p, a_again KI st off len k nd)
      else if waiting k p \<or> \<not> nd then (p, [])
      else (case acc p of Writer w \<Rightarrow> a_wait KI po off len w (k, False, True) p
        | a \<Rightarrow> if k \<in> readers a then (p, data_msgs KI st k off SUPPLY_READ)
              else (case give_read KI st off k a of (a', ms) \<Rightarrow> (p\<lparr>acc := a'\<rparr>, ms))))"

definition upgrade :: "nat \<Rightarrow> bool \<Rightarrow> waiter \<Rightarrow> waiter" where
  "upgrade k nd x = (if fst x = k then (k, True, snd (snd x) \<or> nd) else x)"

definition a_write :: "(nat \<Rightarrow> kernel_t) \<Rightarrow> (nat \<Rightarrow> nat) \<Rightarrow> nat \<Rightarrow> nat \<Rightarrow> nat \<Rightarrow> nat \<Rightarrow> bool \<Rightarrow> apage \<Rightarrow> apage \<times> (nat \<times> pager_msg) list" where
  "a_write KI st po off len k nd p =
     (if acc p = Writer k \<and> wq p = [] then (p, a_again KI st off len k nd)
      else if waiting k p then (p\<lparr>wq := map (upgrade k nd) (wq p)\<rparr>, [])
      else (case acc p of Writer w \<Rightarrow> a_wait KI po off len w (k, True, nd) p
        | a \<Rightarrow> (case give_write KI st off len k nd a of (a', ms) \<Rightarrow> (p\<lparr>acc := a'\<rparr>, ms))))"

definition a_release :: "(nat \<Rightarrow> kernel_t) \<Rightarrow> (nat \<Rightarrow> nat) \<Rightarrow> nat \<Rightarrow> nat \<Rightarrow> nat \<Rightarrow> nat \<Rightarrow> apage \<Rightarrow> apage \<times> (nat \<times> pager_msg) list" where
  "a_release KI st po off len k p = (if acc p = Writer k then serve KI st po off len Free (wq p) else (p, []))"

section \<open>Pages within the object\<close>

lemma page_step_object:
  assumes R: "object_rep B G s A R fs" and g: "g < G" and B: "0 < B" and S: "page_step B g (R g) fs s s' p ms rs' fs'" and ok: "page_ok B s p"
  shows "object_rep B G s' (A(g := p)) (R(g := rs')) fs'"
proof -
  note S' = S [unfolded page_step_def]
  note R' = R [unfolded object_rep_def requests_ok_def]
  have F: "sched_frame B g (set (R g) \<union> set fs \<union> - req_heap s) s s'" using S' by simp
  have hh: "req_heap s \<subseteq> req_heap s'" using F by (simp add: sched_frame_def)
  have away: "set (R h) \<subseteq> req_heap s" "set (R h) \<inter> (set (R g) \<union> set fs) = {}" if "h < G" "h \<noteq> g" for h
    using R' that g by blast+
  have "page_rep B h s' (A h) (R h)" if h: "h < G" "h \<noteq> g" for h
  proof -
    have "page_rep B h s' (A h) (R h) \<longleftrightarrow> page_rep B h s (A h) (R h)"
    proof (rule page_rep_cong [OF B])
      show "min_pages s' j = min_pages s j" if "j \<in> set (grp B h)" for j
        using F group_disjoint [of g h B] h that by (auto simp: sched_frame_def)
      show "req s' r = req s r" if r: "r \<in> set (R h)" for r
      proof -
        have "r \<notin> set (R g) \<union> set fs \<union> - req_heap s" using away [OF h] r by blast
        then show ?thesis using F unfolding sched_frame_def by blast
      qed
    qed
    then show ?thesis using R' h by blast
  qed
  moreover have "page_ok B s' x \<longleftrightarrow> page_ok B s x" for x by (rule known_page_ok [OF F])
  moreover have "requests_ok G s' (R(g := rs')) fs'"
  proof -
    have u: "set rs' \<union> set fs' \<subseteq> set (R g) \<union> set fs \<union> (req_heap s' - req_heap s)" using S' by blast
    have "set (R g) \<union> set fs \<subseteq> req_heap s'" using R' g hh by blast
    then have v: "set rs' \<union> set fs' \<subseteq> req_heap s'" using u by blast
    have d: "set (R h) \<inter> (set rs' \<union> set fs') = {}" if "h < G" "h \<noteq> g" for h using away [OF that] u by blast
    have e: "set rs' \<inter> set fs' = {}" using S' by blast
    show ?thesis
      unfolding requests_ok_def
    proof (intro conjI allI impI)
      show "chain (\<lambda>r. follow (req s' r)) (free_requests s') fs'" "finite (req_heap s')" "set fs' \<subseteq> req_heap s'" using S' v by blast+
      show "set ((R(g := rs')) h) \<subseteq> req_heap s'" "set ((R(g := rs')) h) \<inter> set fs' = {}" if "h < G" for h
        using v e d [OF that] away(1) [OF that] hh by (cases "h = g"; force)+
      show "set ((R(g := rs')) i) \<inter> set ((R(g := rs')) h) = {}" if ih: "i < G" "h < G" "i \<noteq> h" for i h
      proof -
        have "set (R i) \<inter> set (R h) = {}" using R' ih by blast
        then show ?thesis using d [OF ih(1)] d [OF ih(2)] ih(3) by (cases "i = g"; cases "h = g"; force)
      qed
    qed
  qed
  ultimately show ?thesis using S' ok R' unfolding object_rep_def by simp
qed

lemma object_repD:
  assumes "object_rep B G s A R fs" and "g < G"
  shows "page_rep B g s (A g) (R g)" "page_ok B s (A g)" "chain (\<lambda>r. follow (req s r)) (free_requests s) fs" "finite (req_heap s)"
    "set fs \<subseteq> req_heap s" "set (R g) \<subseteq> req_heap s" "set (R g) \<inter> set fs = {}"
  using assms by (auto simp: object_rep_def requests_ok_def)

text \<open>A step that touches no request.\<close>

lemma quiet_step:
  assumes P: "page_rep B g s p rs" and c: "chain (\<lambda>r. follow (req s r)) (free_requests s) fs" and dj: "set rs \<inter> set fs = {}" and fin: "finite (req_heap s)"
    and B: "0 < B" and sr: "same_rest s s'" and out: "\<And>j. j \<notin> set (grp B g) \<Longrightarrow> min_pages s' j = min_pages s j" and m: "sent s' = sent s @ ms"
    and ins: "\<And>j. j \<in> set (grp B g) \<Longrightarrow> use_rep (acc p') (min_pages s' j) \<and> mp_head (min_pages s' j) = mp_head (min_pages s j) \<and> mp_tail (min_pages s' j) = mp_tail (min_pages s j)"
    and W: "wait_rep (wq p') (min_pages s' (g * B))" and K: "map fst (wq p') = map fst (wq p)"
  shows "page_step B g rs fs s s' p' ms rs fs"
proof -
  note E = same_restD [OF sr]
  have P': "list_all2 (req_rep B g s) (wq p) rs" using P by (simp add: page_rep_def queue_rep_def)
  have "list_all2 (req_rep B g s') (wq p') rs"
    unfolding list_all2_conv_all_nth
  proof (intro conjI allI impI)
    have len: "length (wq p') = length (wq p)" using K by (metis length_map)
    then show "length (wq p') = length rs" using list_all2_lengthD [OF P'] by simp
    fix i assume i: "i < length (wq p')"
    then have "fst (wq p' ! i) = fst (wq p ! i)" using K len by (metis nth_map)
    then show "req_rep B g s' (wq p' ! i) (rs ! i)" using list_all2_nthD [OF P', of i] i len by (simp add: req_rep_def E)
  qed
  then have "page_rep B g s' p' rs" using P ins W B first_group [OF B, of g] by (simp add: page_rep_def queue_rep_def E)
  then show ?thesis using c dj fin m same_rest_frame [OF sr out] by (auto simp: page_step_def E)
qed

lemma offsets:
  assumes "0 < B"
  shows "OFFSET_TO_PAGE (page_offset B g) = g * B" "OFFSET_TO_PAGE (page_offset B g + B * MIN_PAGE_SIZE) - 1 = g * B + B - 1"
proof -
  have "page_offset B g + B * MIN_PAGE_SIZE = (g * B + B) * 4096" by (simp add: page_offset_def MIN_PAGE_SIZE_def algebra_simps)
  then show "OFFSET_TO_PAGE (page_offset B g) = g * B" "OFFSET_TO_PAGE (page_offset B g + B * MIN_PAGE_SIZE) - 1 = g * B + B - 1"
    by (simp_all add: page_offset_def OFFSET_TO_PAGE_def MIN_PAGE_SHIFT_def MIN_PAGE_SIZE_def drop_bit_eq_div)
qed

text \<open>What the routines test on the page.\<close>

lemma page_tests:
  assumes B: "0 < B" and P: "page_rep B g s p rs" and ok: "page_ok B s p" and k: "k < 32"
  shows "is_writer (g * B) k s \<longleftrightarrow> acc p = Writer k"
    and "evicted (g * B) (g * B + B - 1) s \<longleftrightarrow> wq p \<noteq> []"
    and "have_writer (g * B) (g * B + B - 1) s \<longleftrightarrow> \<not> unwritten (acc p)"
    and "SET_MEMBER (write_waiters (min_pages s (g * B))) k \<longleftrightarrow> (\<exists>d. (k, True, d) \<in> set (wq p))"
    and "SET_MEMBER (data_waiters (min_pages s (g * B))) k \<longleftrightarrow> (\<exists>w. (k, w, True) \<in> set (wq p))"
    and "use (min_pages s (g * B)) = USE_READ \<and> SET_MEMBER (user (min_pages s (g * B))) k \<longleftrightarrow> k \<in> readers (acc p)"
proof -
  have fg: "g * B \<in> set (grp B g)" by (rule first_group [OF B])
  have u: "use_rep (acc p) (min_pages s j) \<and> mp_tail (min_pages s j) = lastp rs" if "j \<in> set (grp B g)" for j using P that by (simp add: page_rep_def queue_rep_def)
  have q: "list_all2 (req_rep B g s) (wq p) rs" "chain (\<lambda>r. follow (req s r)) (hdp rs) rs" "wait_rep (wq p) (min_pages s (g * B))"
    using P by (simp_all add: page_rep_def queue_rep_def)
  show "is_writer (g * B) k s \<longleftrightarrow> acc p = Writer k" using u [OF fg] by (auto simp: is_writer_def use_rep_def split: access.splits)
  have "lastp rs = 0 \<longleftrightarrow> rs = []" using chain_last [OF q(2)] by (cases "rs = []") (auto simp: lastp_last)
  then show "evicted (g * B) (g * B + B - 1) s \<longleftrightarrow> wq p \<noteq> []" using u q(1) fg unfolding evicted_def pages_group [OF B] by auto
  show "have_writer (g * B) (g * B + B - 1) s \<longleftrightarrow> \<not> unwritten (acc p)"
    using u fg unfolding have_writer_def pages_group [OF B] by (cases "acc p") (auto simp: use_rep_def)
  show "SET_MEMBER (write_waiters (min_pages s (g * B))) k \<longleftrightarrow> (\<exists>d. (k, True, d) \<in> set (wq p))"
    "SET_MEMBER (data_waiters (min_pages s (g * B))) k \<longleftrightarrow> (\<exists>w. (k, w, True) \<in> set (wq p))"
    using q(3) k by (simp_all add: wait_rep_def SET_MEMBER_bit)
  show "use (min_pages s (g * B)) = USE_READ \<and> SET_MEMBER (user (min_pages s (g * B))) k \<longleftrightarrow> k \<in> readers (acc p)"
    using u [OF fg] k by (cases "acc p") (auto simp: use_rep_def SET_MEMBER_bit)
qed

lemma waiting_iff: "page_ok B s p \<Longrightarrow> waiting k p \<longleftrightarrow> (\<exists>d. (k, True, d) \<in> set (wq p)) \<or> (\<exists>w. (k, w, True) \<in> set (wq p))"
  by (force simp: page_ok_def waiting_def)

section \<open>Pages stay well-formed\<close>

lemma a_wait_ok: "page_ok B s p \<Longrightarrow> known B s k \<Longrightarrow> \<not> waiting k p \<Longrightarrow> acc p = Writer w \<Longrightarrow> wr \<or> nd \<Longrightarrow> page_ok B s (fst (a_wait KI po off len w (k, wr, nd) p))"
  by (auto simp: a_wait_def page_ok_def waiting_def)

lemma fst_upgrade [simp]: "fst (upgrade k nd x) = fst x"
  by (simp add: upgrade_def)

lemma upgrade_wants: "fst (snd x) \<or> snd (snd x) \<Longrightarrow> fst (snd (upgrade k nd x)) \<or> snd (snd (upgrade k nd x))"
  by (auto simp: upgrade_def)

lemma upgrade_ok: "page_ok B s p \<Longrightarrow> page_ok B s (p\<lparr>wq := map (upgrade k nd) (wq p)\<rparr>)"
proof -
  assume p: "page_ok B s p"
  have "fst (snd y) \<or> snd (snd y)" if "y \<in> set (map (upgrade k nd) (wq p))" for y
    using that p upgrade_wants [of _ k nd] unfolding page_ok_def by (metis image_iff set_map)
  moreover have "known B s (fst y)" if "y \<in> set (map (upgrade k nd) (wq p))" for y using that p by (auto simp: page_ok_def)
  moreover have "map (fst \<circ> upgrade k nd) (wq p) = map fst (wq p)" by (simp add: comp_def)
  ultimately show ?thesis using p by (simp add: page_ok_def comp_def)
qed

lemma a_read_ok: "page_ok B s p \<Longrightarrow> known B s k \<Longrightarrow> page_ok B s (fst (a_read KI st po off len k nd p))"
  using a_wait_ok [of B s p k _ False True]
  by (cases "acc p") (auto simp: a_read_def give_read_def page_ok_def)

lemma a_write_ok: "page_ok B s p \<Longrightarrow> known B s k \<Longrightarrow> page_ok B s (fst (a_write KI st po off len k nd p))"
  using a_wait_ok [of B s p k _ True nd] upgrade_ok [of B s p k nd]
  by (cases "acc p") (auto simp: a_write_def give_write_def page_ok_def)

lemma serve_ok:
  assumes "all_known B s a q" and "unwritten a" and "\<And>x. x \<in> set q \<Longrightarrow> fst (snd x) \<or> snd (snd x)"
  shows "page_ok B s (fst (serve KI st po off len a q))"
  using assms
proof (induction KI st po off len a q rule: serve.induct)
  case (1 KI st po off len a)
  then show ?case by (auto simp: page_ok_def all_known_def)
next
  case (2 KI st po off len a k w nd q)
  show ?case
  proof (cases w)
    case True
    then show ?thesis using 2 by (auto simp: page_ok_def all_known_def give_write_def)
  next
    case False
    have "all_known B s (Readers (insert k (readers a))) q" using 2(2) by (auto simp: all_known_def)
    then have "page_ok B s (fst (serve KI st po off len (Readers (insert k (readers a))) q))"
      using 2(1) [OF False] 2(4) by (simp add: give_read_def)
    then show ?thesis using False by (simp add: give_read_def split_beta)
  qed
qed

lemma a_release_ok: "page_ok B s p \<Longrightarrow> page_ok B s (fst (a_release KI st po off len k p))"
  using serve_ok [of B s Free "wq p" KI st po off len] by (simp add: a_release_def page_ok_def all_known_def)

section \<open>Refinement\<close>

text \<open>The page \<open>p\<close> of the state \<open>s\<close> with the requests \<open>rs\<close>, and the pool \<open>fs\<close>.\<close>

definition page_state :: "nat \<Rightarrow> nat \<Rightarrow> netobj \<Rightarrow> apage \<Rightarrow> ptr list \<Rightarrow> ptr list \<Rightarrow> bool" where
  "page_state B g s p rs fs \<longleftrightarrow> 0 < B \<and> page_rep B g s p rs \<and> page_ok B s p \<and> chain (\<lambda>r. follow (req s r)) (free_requests s) fs
     \<and> finite (req_heap s) \<and> set fs \<subseteq> req_heap s \<and> set rs \<subseteq> req_heap s \<and> set rs \<inter> set fs = {}"

lemma page_stateD:
  assumes "page_state B g s p rs fs"
  shows "0 < B" "page_rep B g s p rs" "page_ok B s p" "chain (\<lambda>r. follow (req s r)) (free_requests s) fs" "finite (req_heap s)"
    "set fs \<subseteq> req_heap s" "set rs \<subseteq> req_heap s" "set rs \<inter> set fs = {}"
  using assms by (auto simp: page_state_def)

lemma page_rep_in:
  assumes "page_rep B g s p rs" and "0 < B"
  shows "\<And>j. j \<in> set (grp B g) \<Longrightarrow> use_rep (acc p) (min_pages s j)" and "wait_rep (wq p) (min_pages s (g * B))"
  using assms by (auto simp: page_rep_def queue_rep_def)

lemma message_step:
  assumes S: "page_state B g s p rs fs"
  shows "page_step B g rs fs s (s\<lparr>sent := sent s @ ms\<rparr>) p ms rs fs"
  using page_rep_in [OF page_stateD(2,1) [OF S]]
  by (intro quiet_step [OF page_stateD(2,4,8,5,1) [OF S]]) (auto simp: same_rest_def)

lemma regroup_step:
  assumes S: "page_state B g s p rs fs" and R: "regroup B g a s s'" and m: "sent s' = sent s @ ms"
  shows "page_step B g rs fs s s' (p\<lparr>acc := a\<rparr>) ms rs fs"
proof (rule quiet_step [OF page_stateD(2,4,8,5,1) [OF S] regroupD(1) [OF R] regroupD(4) [OF R] m])
  show "use_rep (acc (p\<lparr>acc := a\<rparr>)) (min_pages s' j) \<and> mp_head (min_pages s' j) = mp_head (min_pages s j) \<and> mp_tail (min_pages s' j) = mp_tail (min_pages s j)"
    if "j \<in> set (grp B g)" for j using regroupD(2,3) [OF R that] by (simp add: same_links_def)
  show "wait_rep (wq (p\<lparr>acc := a\<rparr>)) (min_pages s' (g * B))"
    using regroupD(3) [OF R first_group [OF page_stateD(1) [OF S]]] page_rep_in(2) [OF page_stateD(2,1) [OF S]] by (simp add: same_links_def wait_rep_def)
qed simp_all

lemma again_step:
  assumes S: "page_state B g s p rs fs"
  shows "page_step B g rs fs s (if nd then DATA_PROVIDED k (page_offset B g) SUPPLY_ALL s else UNLOCK_WRITER k (page_offset B g) len s) p
     (a_again (kerninfo s) (storage s) (page_offset B g) len k nd) rs fs"
  using message_step [OF S] by (simp add: a_again_def DATA_PROVIDED_eq UNLOCK_WRITER_def send_def unlock_msg_def)

lemma wait_step:
  assumes S: "page_state B g s p rs fs" and h: "heap_fresh e" and w: "acc p = Writer w" and k: "known B s k"
  shows "\<exists>s' rs' fs'. wait_for e k (g * B) (g * B + B - 1) wr nd s = Some s'
     \<and> page_step B g rs fs s s' (fst (a_wait (kerninfo s) (paging_object s) (page_offset B g) (B * MIN_PAGE_SIZE) w (k, wr, nd) p))
          (snd (a_wait (kerninfo s) (paging_object s) (page_offset B g) (B * MIN_PAGE_SIZE) w (k, wr, nd) p)) rs' fs'"
proof -
  have "known B s w" using page_stateD(3) [OF S] w by (simp add: page_ok_def)
  then show ?thesis
    using wait_for_spec [OF page_stateD(1) [OF S] h page_stateD(2) [OF S] w k _ page_stateD(4-8) [OF S], of wr nd]
    by (simp add: a_wait_def)
qed

end
