(* ===== verification/Netmem_Refine.thy ===== *)
theory Netmem_Refine
  imports Netmem_Pages
begin

text \<open>
  The exported routines \<open>Add_reading_kernel\<close>, \<open>Add_writing_kernel\<close> and \<open>Subtract_kernel\<close> refine the
  operations of the page server, on one page and on the whole object.
\<close>

section \<open>One page\<close>

lemma read_step:
  assumes S: "page_state B g s p rs fs" and h: "heap_fresh e" and k: "known B s k"
    and X: "X = a_read (kerninfo s) (storage s) (paging_object s) (page_offset B g) (B * MIN_PAGE_SIZE) k nd p"
  shows "\<exists>s' rs' fs'. Add_reading_kernel e k (page_offset B g) (B * MIN_PAGE_SIZE) nd s = Some s' \<and> page_step B g rs fs s s' (fst X) (snd X) rs' fs'"
proof -
  note D = page_stateD [OF S]
  have k32: "k < 32" using k by (simp add: known_def)
  note T = page_tests [OF D(1,2,3) k32] waiting_iff [OF D(3), of k]
  note U = Add_reading_kernel_def [of e k "page_offset B g" "B * MIN_PAGE_SIZE" nd s, unfolded Let_def offsets [OF D(1)] T]
  have skip: "page_step B g rs fs s s p [] rs fs" using message_step [OF S, of "[]"] by simp
  consider (own) "acc p = Writer k \<and> wq p = []" | (no) "\<not> (acc p = Writer k \<and> wq p = [])" "waiting k p \<or> \<not> nd"
    | (w) w where "\<not> (acc p = Writer k \<and> wq p = [])" "\<not> waiting k p" "nd" "acc p = Writer w"
    | (old) "\<not> waiting k p" "nd" "unwritten (acc p)" "k \<in> readers (acc p)"
    | (new) "\<not> waiting k p" "nd" "unwritten (acc p)" "k \<notin> readers (acc p)"
    by (cases "acc p") (auto simp: unwritten_def)
  then show ?thesis
  proof cases
    case own
    then have "X = (p, a_again (kerninfo s) (storage s) (page_offset B g) (B * MIN_PAGE_SIZE) k nd)" by (simp add: X a_read_def)
    then show ?thesis using again_step [OF S, of nd k "B * MIN_PAGE_SIZE"] own U by (intro exI conjI) simp_all
  next
    case no
    then have "X = (p, [])" "Add_reading_kernel e k (page_offset B g) (B * MIN_PAGE_SIZE) nd s = Some s" using T(7) by (auto simp: X a_read_def U)
    then show ?thesis using skip by auto
  next
    case w
    have nt: "(\<exists>d. (k, True, d) \<in> set (wq p)) = False" "(\<exists>w. (k, w, True) \<in> set (wq p)) = False" using w(2) T(7) by blast+
    have "Add_reading_kernel e k (page_offset B g) (B * MIN_PAGE_SIZE) nd s = wait_for e k (g * B) (g * B + B - 1) False True s"
      unfolding U nt using w by auto
    moreover have "X = a_wait (kerninfo s) (paging_object s) (page_offset B g) (B * MIN_PAGE_SIZE) w (k, False, True) p" using w by (auto simp: X a_read_def)
    ultimately show ?thesis using wait_step [OF S h w(4) k, of False True] by simp
  next
    case old
    have nt: "(\<exists>d. (k, True, d) \<in> set (wq p)) = False" "(\<exists>w. (k, w, True) \<in> set (wq p)) = False" using old(1) T(7) by blast+
    have "Add_reading_kernel e k (page_offset B g) (B * MIN_PAGE_SIZE) nd s = Some (DATA_PROVIDED k (page_offset B g) SUPPLY_READ s)"
      unfolding U nt using old by auto
    moreover have "X = (p, data_msgs (kerninfo s) (storage s) k (page_offset B g) SUPPLY_READ)" using old by (cases "acc p") (auto simp: X a_read_def)
    ultimately show ?thesis using message_step [OF S] by (auto simp: DATA_PROVIDED_eq)
  next
    case new
    have nt: "(\<exists>d. (k, True, d) \<in> set (wq p)) = False" "(\<exists>w. (k, w, True) \<in> set (wq p)) = False" using new(1) T(7) by blast+
    let ?s = "add_reader (g * B) (g * B + B - 1) k s"
    have "Add_reading_kernel e k (page_offset B g) (B * MIN_PAGE_SIZE) nd s = Some ?s" unfolding U nt using new by auto
    moreover have "X = (p\<lparr>acc := Readers (insert k (readers (acc p)))\<rparr>, snd (give_read (kerninfo s) (storage s) (page_offset B g) k (acc p)))"
      using new by (cases "acc p") (auto simp: X a_read_def give_read_def)
    moreover note add_reader_spec [OF D(1) k32 page_rep_in(1) [OF D(2,1)] new(3) [unfolded unwritten_def] refl]
    ultimately show ?thesis using regroup_step [OF S, of "Readers (insert k (readers (acc p)))" ?s] by auto
  qed
qed

lemma upgrade_wait:
  assumes W: "wait_rep q m" and d: "distinct (map fst q)" and k: "k < 32" and x: "(k, w, d') \<in> set q"
  shows "wait_rep (map (upgrade k nd) q) (m\<lparr>write_waiters := SET_ADD k (write_waiters m), data_waiters := (if d' \<or> nd then SET_ADD k (data_waiters m) else data_waiters m)\<rparr>)"
proof -
  have u: "y = (k, w, d')" if "y \<in> set q" "fst y = k" for y using that x d by (metis distinct_map fst_conv inj_onD)
  have e: "set (map (upgrade k nd) q) = insert (k, True, d' \<or> nd) {y \<in> set q. fst y \<noteq> k}"
  proof (intro equalityI subsetI)
    fix z assume "z \<in> set (map (upgrade k nd) q)"
    then obtain y where "y \<in> set q" "z = upgrade k nd y" by auto
    then show "z \<in> insert (k, True, d' \<or> nd) {y \<in> set q. fst y \<noteq> k}" using u [of y] by (cases "fst y = k") (auto simp: upgrade_def)
  next
    fix z assume z: "z \<in> insert (k, True, d' \<or> nd) {y \<in> set q. fst y \<noteq> k}"
    then have "z = upgrade k nd (if z = (k, True, d' \<or> nd) then (k, w, d') else z)" by (auto simp: upgrade_def)
    moreover have "(if z = (k, True, d' \<or> nd) then (k, w, d') else z) \<in> set q" using z x by auto
    ultimately show "z \<in> set (map (upgrade k nd) q)" unfolding set_map by (rule image_eqI)
  qed
  have 1: "(\<exists>d. (j, True, d) \<in> set (map (upgrade k nd) q)) \<longleftrightarrow> j = k \<or> (\<exists>d. (j, True, d) \<in> set q)" for j
    unfolding e by auto
  have 2: "(\<exists>w. (j, w, True) \<in> set (map (upgrade k nd) q)) \<longleftrightarrow> (if j = k then d' \<or> nd else \<exists>w. (j, w, True) \<in> set q)" for j
    unfolding e by auto
  have 3: "(\<exists>w. (k, w, True) \<in> set q) \<longleftrightarrow> d'" using u x by (metis fst_conv prod.inject)
  show ?thesis using W k 3 unfolding wait_rep_def 1 2 by (auto simp: bit_SET_ADD)
qed

lemma SET_ADD_present: "bit S k \<Longrightarrow> SET_ADD k S = S"
  unfolding SET_ADD_def set_bit_eq_or [symmetric] by (rule bit_eqI) (auto simp: bit_set_bit_iff)

lemma page_waiter:
  assumes "page_ok B s p" and "waiting k p"
  obtains w d where "(k, w, d) \<in> set (wq p)" "w \<or> d" "(\<exists>d. (k, True, d) \<in> set (wq p)) \<longleftrightarrow> w" "(\<exists>w. (k, w, True) \<in> set (wq p)) \<longleftrightarrow> d"
proof -
  obtain w d where x: "(k, w, d) \<in> set (wq p)" using assms(2) by (auto simp: waiting_def)
  have u: "y = (k, w, d)" if "y \<in> set (wq p)" "fst y = k" for y
    using that x assms(1) by (metis distinct_map fst_conv inj_onD page_ok_def)
  have "w \<or> d" using assms(1) x by (auto simp: page_ok_def)
  moreover have "(\<exists>d. (k, True, d) \<in> set (wq p)) \<longleftrightarrow> w" "(\<exists>w. (k, w, True) \<in> set (wq p)) \<longleftrightarrow> d" using u x by fastforce+
  ultimately show ?thesis using that x by blast
qed

lemma write_step:
  assumes S: "page_state B g s p rs fs" and h: "heap_fresh e" and k: "known B s k"
    and X: "X = a_write (kerninfo s) (storage s) (paging_object s) (page_offset B g) (B * MIN_PAGE_SIZE) k nd p"
  shows "\<exists>s' rs' fs'. Add_writing_kernel e k (page_offset B g) (B * MIN_PAGE_SIZE) nd s = Some s' \<and> page_step B g rs fs s s' (fst X) (snd X) rs' fs'"
proof -
  note D = page_stateD [OF S]
  have k32: "k < 32" using k by (simp add: known_def)
  note T = page_tests [OF D(1,2,3) k32] waiting_iff [OF D(3), of k]
  note U = Add_writing_kernel_def [of e k "page_offset B g" "B * MIN_PAGE_SIZE" nd s, unfolded Let_def offsets [OF D(1)] T]
  consider (own) "acc p = Writer k \<and> wq p = []" | (up) "\<not> (acc p = Writer k \<and> wq p = [])" "waiting k p"
    | (w) w where "\<not> (acc p = Writer k \<and> wq p = [])" "\<not> waiting k p" "acc p = Writer w"
    | (new) "\<not> waiting k p" "unwritten (acc p)"
    by (cases "acc p") (auto simp: unwritten_def)
  then show ?thesis
  proof cases
    case own
    then have "X = (p, a_again (kerninfo s) (storage s) (page_offset B g) (B * MIN_PAGE_SIZE) k nd)" by (simp add: X a_write_def)
    then show ?thesis using again_step [OF S, of nd k "B * MIN_PAGE_SIZE"] own U by (intro exI conjI) simp_all
  next
    case up
    obtain w d where x: "(k, w, d) \<in> set (wq p)" "w \<or> d" "(\<exists>d. (k, True, d) \<in> set (wq p)) \<longleftrightarrow> w" "(\<exists>w. (k, w, True) \<in> set (wq p)) \<longleftrightarrow> d"
      using page_waiter [OF D(3) up(2)] by blast
    let ?m = "min_pages s (g * B)"
    define m' where "m' = ?m\<lparr>write_waiters := SET_ADD k (write_waiters ?m), data_waiters := (if d \<or> nd then SET_ADD k (data_waiters ?m) else data_waiters ?m)\<rparr>"
    define s' where "s' = s\<lparr>min_pages := (min_pages s)(g * B := m')\<rparr>"
    have W: "wait_rep (wq p) ?m" by (rule page_rep_in(2) [OF D(2,1)])
    have b: "bit (write_waiters ?m) k \<longleftrightarrow> w" "bit (data_waiters ?m) k \<longleftrightarrow> d" using W k32 x(3,4) by (auto simp: wait_rep_def)
    have pr: "(\<exists>d. (k, True, d) \<in> set (wq p)) = w" "(\<exists>w. (k, w, True) \<in> set (wq p)) = d" using x(3,4) by auto
    have "Add_writing_kernel e k (page_offset B g) (B * MIN_PAGE_SIZE) nd s = Some s'"
      unfolding U pr using up(1) x(2) b SET_ADD_present [of "write_waiters ?m" k] SET_ADD_present [of "data_waiters ?m" k]
      by (auto simp: s'_def m'_def upd_page_def)
    moreover have "X = (p\<lparr>wq := map (upgrade k nd) (wq p)\<rparr>, [])" using up by (auto simp: X a_write_def)
    moreover have "page_step B g rs fs s s' (p\<lparr>wq := map (upgrade k nd) (wq p)\<rparr>) [] rs fs"
    proof (rule quiet_step [OF D(2,4,8,5,1)])
      show "use_rep (acc (p\<lparr>wq := map (upgrade k nd) (wq p)\<rparr>)) (min_pages s' j) \<and> mp_head (min_pages s' j) = mp_head (min_pages s j) \<and> mp_tail (min_pages s' j) = mp_tail (min_pages s j)"
        if "j \<in> set (grp B g)" for j using page_rep_in(1) [OF D(2,1) that] by (auto simp: s'_def m'_def use_rep_def split: access.splits)
      show "wait_rep (wq (p\<lparr>wq := map (upgrade k nd) (wq p)\<rparr>)) (min_pages s' (g * B))"
        using upgrade_wait [OF W _ k32 x(1), of nd] D(3) by (simp add: s'_def m'_def page_ok_def)
    qed (use first_group [OF D(1), of g] in \<open>auto simp: s'_def same_rest_def\<close>)
    ultimately show ?thesis by (intro exI conjI) simp_all
  next
    case w
    have nt: "(\<exists>d. (k, True, d) \<in> set (wq p)) = False" "(\<exists>w. (k, w, True) \<in> set (wq p)) = False" using w(2) T(7) by blast+
    have "Add_writing_kernel e k (page_offset B g) (B * MIN_PAGE_SIZE) nd s = wait_for e k (g * B) (g * B + B - 1) True nd s"
      unfolding U nt using w by auto
    moreover have "X = a_wait (kerninfo s) (paging_object s) (page_offset B g) (B * MIN_PAGE_SIZE) w (k, True, nd) p" using w by (auto simp: X a_write_def)
    ultimately show ?thesis using wait_step [OF S h w(3) k, of True nd] by simp
  next
    case new
    have nt: "(\<exists>d. (k, True, d) \<in> set (wq p)) = False" "(\<exists>w. (k, w, True) \<in> set (wq p)) = False" using new(1) T(7) by blast+
    let ?s = "add_writer (g * B) (g * B + B - 1) k nd s"
    have "Add_writing_kernel e k (page_offset B g) (B * MIN_PAGE_SIZE) nd s = Some ?s" unfolding U nt using new by auto
    moreover have "X = (p\<lparr>acc := Writer k\<rparr>, snd (give_write (kerninfo s) (storage s) (page_offset B g) (B * MIN_PAGE_SIZE) k nd (acc p)))"
      using new by (cases "acc p") (auto simp: X a_write_def give_write_def)
    moreover have "\<And>r. r \<in> readers (acc p) \<Longrightarrow> known B s r" using D(3) by (simp add: page_ok_def)
    note add_writer_spec [OF D(1) k page_rep_in(1) [OF D(2,1)] new(2) [unfolded unwritten_def] this refl, where nd = nd]
    ultimately show ?thesis using regroup_step [OF S, of "Writer k" ?s] by auto
  qed
qed

lemma satisfy_heads_none: "(\<And>i. j \<le> i \<Longrightarrow> i \<le> l \<Longrightarrow> mp_head (min_pages s i) = 0) \<Longrightarrow> satisfy_heads e k j l s = Some s"
proof (induction "Suc l - j" arbitrary: j)
  case 0
  then show ?case by (subst satisfy_heads.simps) simp
next
  case (Suc n)
  then have "satisfy_heads e k (j + 1) l s = Some s" by (intro Suc.hyps(1)) auto
  then show ?case using Suc by (subst satisfy_heads.simps) simp
qed

lemma no_rounding:
  assumes "0 < B"
  shows "(if B * MIN_PAGE_SIZE < MIN_PAGE_SIZE then x else y) = y"
  using assms by (cases B) simp_all

lemma release_serving:
  assumes S: "page_state B g s p rs fs" and w: "acc p = Writer k" and r: "rs = r # rs'"
    and s1: "s1 = s\<lparr>min_pages := (\<lambda>j. if j \<in> set (grp B g) then (min_pages s j)\<lparr>use := USE_NONE\<rparr> else min_pages s j)\<rparr>"
    and s2: "s2 = req_unmark r k (upd_page (g * B) (\<lambda>p. p\<lparr>mp_head := 0\<rparr>) s1)"
  shows "serving B g s2 Free (wq p) rs" "sched_frame B g {} s s2" "req_heap s2 = req_heap s" "sent s2 = sent s" "free_requests s2 = free_requests s" "req s2 = req s"
proof -
  note D = page_stateD [OF S]
  have m: "min_pages s2 j = (if j \<in> set (grp B g) then (min_pages s j)\<lparr>use := USE_NONE, mp_head := if j = g * B then 0 else mp_head (min_pages s j)\<rparr> else min_pages s j)" for j
    using first_group [OF D(1), of g] by (simp add: s2 s1 req_unmark_def add_outstanding_def upd_page_def)
  have rq: "req s2 = req s" by (simp add: s2 s1 req_unmark_def add_outstanding_def upd_page_def)
  have "req_rep B g s2 = req_rep B g s" by (intro ext) (simp add: req_rep_def rq)
  then show "serving B g s2 Free (wq p) rs"
    using D(2) first_group [OF D(1), of g] by (auto simp: serving_def page_rep_def queue_rep_def m rq use_rep_def wait_rep_def)
  show "req s2 = req s" by (rule rq)
  show "sched_frame B g {} s s2" by (auto simp: sched_frame_def m) (auto simp: s2 s1 req_unmark_def add_outstanding_def upd_page_def)
  show "req_heap s2 = req_heap s" "sent s2 = sent s" "free_requests s2 = free_requests s" by (simp_all add: s2 s1 req_unmark_def add_outstanding_def upd_page_def)
qed

lemma release_step:
  assumes S: "page_state B g s p rs fs"
    and X: "X = a_release (kerninfo s) (storage s) (paging_object s) (page_offset B g) (B * MIN_PAGE_SIZE) k p" and k: "known B s k"
  shows "\<exists>s' rs' fs'. Subtract_kernel e k (page_offset B g) None (B * MIN_PAGE_SIZE) s = Some s' \<and> page_step B g rs fs s s' (fst X) (snd X) rs' fs'"
proof -
  note D = page_stateD [OF S]
  have k32: "k < 32" using k by (simp add: known_def)
  have pc: "SET_MEMBER (pending_completes (min_pages s (g * B))) k = False"
    using page_rep_in(2) [OF D(2,1)] by (simp add: wait_rep_def SET_MEMBER_bit)
  have iw: "(use (min_pages s (g * B)) \<noteq> USE_WRITE \<or> writer_of (user (min_pages s (g * B))) \<noteq> k) = (acc p \<noteq> Writer k)"
    using page_tests(1) [OF D(1,2,3) k32] by (auto simp: is_writer_def)
  define s1 where "s1 = s\<lparr>min_pages := (\<lambda>j. if j \<in> set (grp B g) then (min_pages s j)\<lparr>use := USE_NONE\<rparr> else min_pages s j)\<rparr>"
  have f1: "fold (\<lambda>j. upd_page j (\<lambda>p. p\<lparr>use := USE_NONE\<rparr>)) (grp B g) s = s1" unfolding fold_upd_page [OF distinct_group] s1_def ..
  have fg: "g * B \<in> set (grp B g)" by (rule first_group [OF D(1)])
  have hd1: "mp_head (min_pages s1 (g * B)) = hdp rs" using D(2) fg by (simp add: s1_def page_rep_def)
  note U = Subtract_kernel_def [of e k "page_offset B g" None "B * MIN_PAGE_SIZE" s, unfolded Let_def no_rounding [OF D(1)] offsets [OF D(1)] pc iw
      pages_group [OF D(1)] f1 simp_thms if_False option.case hd1]
  have q: "list_all2 (req_rep B g s) (wq p) rs" using D(2) by (simp add: page_rep_def queue_rep_def)
  show ?thesis
  proof (cases "acc p = Writer k")
    case False
    then have "Subtract_kernel e k (page_offset B g) None (B * MIN_PAGE_SIZE) s = Some s" "X = (p, [])" by (simp_all add: U X a_release_def)
    then show ?thesis using message_step [OF S, of "[]"] by auto
  next
    case True
    then have Xs: "X = serve (kerninfo s) (storage s) (paging_object s) (page_offset B g) (B * MIN_PAGE_SIZE) Free (wq p)" by (simp add: X a_release_def)
    show ?thesis
    proof (cases rs)
      case Nil
      have "mp_head (min_pages s j) = 0" if "j \<in> set (grp B g)" for j
        using D(2) Nil that by (cases "j = g * B") (simp_all add: page_rep_def)
      then have "satisfy_heads e k (g * B) (g * B + B - 1) s1 = Some s1"
        using D(1) by (intro satisfy_heads_none) (simp add: s1_def group_mem)
      then have "Subtract_kernel e k (page_offset B g) None (B * MIN_PAGE_SIZE) s = Some s1" using True Nil by (simp add: U)
      moreover have "wq p = []" using q Nil by simp
      moreover have "regroup B g Free s s1" by (auto simp: regroup_def s1_def same_rest_def same_links_def use_rep_def)
      then have "page_step B g rs fs s s1 (p\<lparr>acc := Free\<rparr>) [] rs fs" by (rule regroup_step [OF S]) (simp add: s1_def)
      moreover have "p\<lparr>acc := Free\<rparr> = \<lparr>acc = Free, wq = []\<rparr>" using calculation(2) by (intro apage.equality) simp_all
      ultimately show ?thesis using Xs by (intro exI [of _ s1] exI [of _ rs] exI [of _ fs]) simp
    next
      case (Cons r rs')
      define s2 where "s2 = req_unmark r k (upd_page (g * B) (\<lambda>p. p\<lparr>mp_head := 0\<rparr>) s1)"
      note V = release_serving [OF S True Cons s1_def s2_def]
      obtain x q' where q': "wq p = x # q'" "req_rep B g s x r" using q Cons by (auto simp: list_all2_Cons2)
      have rr: "first_page (req s r) = g * B" "last_page (req s r) = g * B + B - 1" using q'(2) by (simp_all add: req_rep_def)
      have r1: "req s1 = req s" by (simp add: s1_def)
      have c: "chain (\<lambda>r. follow (req s r)) r (r # rs')" using D(2) Cons by (simp add: page_rep_def queue_rep_def)
      have nr: "r \<noteq> 0" "r \<notin> set rs'" "r \<notin> set fs" using c chain_distinct [OF c] D(8) Cons by auto
      have K: "all_known B s2 Free (x # q')" using D(3) unfolding all_known_same [OF V(2)] by (simp add: all_known_def page_ok_def q')
      have "chain (\<lambda>r. follow (req s2 r)) (free_requests s2) fs" using D(4) by (simp add: V)
      moreover have "set fs \<inter> set (r # rs') = {}" using D(8) Cons by auto
      moreover note V(1) [unfolded q'(1) Cons]
      ultimately obtain s3 rs3 fs3 where s3: "satisfy e False r s2 = Some s3"
          "served B g rs' fs s2 s3 (serve (kerninfo s2) (storage s2) (paging_object s2) (page_offset B g) (B * MIN_PAGE_SIZE) Free (x # q')) rs3 fs3"
        using satisfy_spec [OF D(1), of g s2 Free x q' r rs' fs e] K by auto
      have same: "kerninfo s2 = kerninfo s" "storage s2 = storage s" "paging_object s2 = paging_object s" using V(2) by (simp_all add: sched_frame_def)
      have "satisfy_heads e k (g * B) (g * B + B - 1) s1 = Some (req_free r s3)"
      proof -
        have "satisfy_heads e k (g * B) (g * B + B - 1) s1 = Option.bind (satisfy_request e r s2) (\<lambda>t. satisfy_heads e k (last_page (req s2 r) + 1) (g * B + B - 1) (req_free r t))"
          by (subst satisfy_heads.simps) (use D(1) hd1 nr(1) Cons in \<open>auto simp: Let_def s2_def\<close>)
        then show ?thesis using s3(1) D(1) by (simp add: satisfy_request_def V(6) rr satisfy_heads_none)
      qed
      then have "Subtract_kernel e k (page_offset B g) None (B * MIN_PAGE_SIZE) s = Some (req_free r s3)" using True Cons rr by (simp add: U r1)
      moreover have "served B g rs fs s2 (req_free r s3) X rs3 (r # fs3)"
        using served_free [OF D(1) s3(2) nr] unfolding same Xs q'(1) Cons .
      note served_trans [OF this V(2) _ V(3), of "[]"]
      then have "page_step B g rs fs s (req_free r s3) (fst X) (snd X) rs3 (r # fs3)"
        using served_step [OF _ D(5), of B g rs fs "req_free r s3" "(fst X, [] @ snd X)" rs3 "r # fs3"] V(4) by simp
      ultimately show ?thesis by (intro exI conjI)
    qed
  qed
qed

end
