(* ===== verification/Netmem_Object.thy ===== *)
theory Netmem_Object
  imports Netmem_Refine
begin

text \<open>
  The messages of the kernels to a memory object, \<open>mach/etc/netmemoryserver/object.c\<close>.  The object
  of a thread is the state.  \<open>offset & (size - 1) != 0\<close> is \<open>offset & ((size - 1) != 0)\<close>, a test of
  the lowest bit.
\<close>

unbundle bit_operations_syntax

section \<open>Kernels\<close>

definition port_to_kernel :: "netobj \<Rightarrow> nat \<Rightarrow> nat option" where
  "port_to_kernel s port = find (\<lambda>k. request_port (kerninfo s k) = port) [0..<MAX_NUM_KERNELS]"

definition ffs :: "nat \<Rightarrow> nat" where
  "ffs x = (case find (bit x) [0..<32] of None \<Rightarrow> 0 | Some i \<Rightarrow> Suc i)"

definition is_power_of_two :: "nm_env \<Rightarrow> nat \<Rightarrow> bool" where
  "is_power_of_two e x \<longleftrightarrow> x = (if ffs x = 0 then junk_shift e else push_bit (ffs x - 1) 1)"

definition memory_object_init :: "nm_env \<Rightarrow> nat \<Rightarrow> nat \<Rightarrow> nat \<Rightarrow> netobj \<Rightarrow> netobj" where
  "memory_object_init e memory_control memory_object_name psize s =
     (let s1 = (if memory_object_name \<noteq> 0 then send memory_object_name Port_deallocate s else s);
          fail = send memory_control Port_deallocate s1
      in if memory_control = 0 then s1
         else if psize > MAX_PAGE_SIZE then fail
         else if \<not> is_power_of_two e psize then fail
         else if port_to_kernel s1 memory_control \<noteq> None then fail
         else (case port_to_kernel s1 0 of None \<Rightarrow> fail
           | Some kn \<Rightarrow>
             (let s2 = s1\<lparr>kerninfo := (kerninfo s1)(kn := \<lparr>request_port = memory_control,
                    page_size = (if psize < MIN_PAGE_SIZE then MIN_PAGE_SIZE else psize), real_page_size = psize\<rparr>)\<rparr>
              in send (server_port e) (Port_death kn memory_control) (Kernel_open kn s2))))"

section \<open>Requests\<close>

definition misaligned :: "nat \<Rightarrow> nat \<Rightarrow> bool" where
  "misaligned offset sz \<longleftrightarrow> offset AND (if sz \<noteq> 1 then 1 else 0) \<noteq> 0"

definition VM_PROT_WRITE :: nat where "VM_PROT_WRITE = 2"

definition read_fault :: "int \<Rightarrow> fault_info \<Rightarrow> fault_info" where
  "read_fault n f = f\<lparr>read_faults := s32 (read_faults f + n)\<rparr>"

definition write_fault :: "int \<Rightarrow> fault_info \<Rightarrow> fault_info" where
  "write_fault n f = f\<lparr>write_faults := s32 (write_faults f + n)\<rparr>"

definition protection_fault :: "int \<Rightarrow> fault_info \<Rightarrow> fault_info" where
  "protection_fault n f = f\<lparr>protection_faults := s32 (protection_faults f + n)\<rparr>"

definition count_faults :: "(int \<Rightarrow> fault_info \<Rightarrow> fault_info) \<Rightarrow> nat \<Rightarrow> nat \<Rightarrow> netobj \<Rightarrow> netobj" where
  "count_faults f j count s =
     s\<lparr>faults_total := f (int count) (faults_total s),
       faults_per_page := fold (\<lambda>i F. F(i := f 1 (F i))) [j..<j + count] (faults_per_page s)\<rparr>"

definition fault_kind :: "bool \<Rightarrow> bool \<Rightarrow> int \<Rightarrow> fault_info \<Rightarrow> fault_info" where
  "fault_kind needs_data wr = (if \<not> needs_data then protection_fault else if wr then write_fault else read_fault)"

definition memory_object_request :: "nm_env \<Rightarrow> nat \<Rightarrow> nat \<Rightarrow> nat \<Rightarrow> nat \<Rightarrow> bool \<Rightarrow> netobj \<Rightarrow> netobj option" where
  "memory_object_request e memory_control offset len desired_access needs_data s =
     (if memory_control = 0 then Some s
      else case port_to_kernel s memory_control of
        None \<Rightarrow> Some (send memory_control (Data_error offset len) s)
      | Some kn \<Rightarrow>
        (let rps = real_page_size (kerninfo s kn); fail = Some (send memory_control (Data_error offset len) s) in
         if misaligned offset rps then fail
         else if len \<noteq> rps then fail
         else if offset \<ge> object_size s then fail
         else
           (let offset' = (if rps < MIN_PAGE_SIZE then round_down offset MIN_PAGE_SIZE else offset);
                len' = (if rps < MIN_PAGE_SIZE then MIN_PAGE_SIZE else len);
                wr = (desired_access AND VM_PROT_WRITE \<noteq> 0);
                s1 = count_faults (fault_kind needs_data wr) (drop_bit MIN_PAGE_SHIFT offset') (drop_bit MIN_PAGE_SHIFT len') s
            in if wr then Add_writing_kernel e kn offset' len' needs_data s1
               else Add_reading_kernel e kn offset' len' needs_data s1)))"

definition memory_object_data_request :: "nm_env \<Rightarrow> nat \<Rightarrow> nat \<Rightarrow> nat \<Rightarrow> nat \<Rightarrow> netobj \<Rightarrow> netobj option" where
  "memory_object_data_request e memory_control offset len desired_access s = memory_object_request e memory_control offset len desired_access True s"

definition memory_object_data_unlock :: "nm_env \<Rightarrow> nat \<Rightarrow> nat \<Rightarrow> nat \<Rightarrow> nat \<Rightarrow> netobj \<Rightarrow> netobj option" where
  "memory_object_data_unlock e memory_control offset len desired_access s = memory_object_request e memory_control offset len desired_access False s"

section \<open>Data and completed locks\<close>

definition memory_object_data_write :: "nm_env \<Rightarrow> nat \<Rightarrow> nat \<Rightarrow> nat list \<Rightarrow> netobj \<Rightarrow> netobj option" where
  "memory_object_data_write e memory_control offset data s =
     (if memory_control = 0 then Some s
      else case port_to_kernel s memory_control of None \<Rightarrow> Some s
      | Some kn \<Rightarrow>
        (let rps = real_page_size (kerninfo s kn) in
         if length data \<noteq> rps then Some s
         else if misaligned offset rps then Some s
         else if offset \<ge> object_size s then Some s
         else map_option (send 0 (Vm_deallocate (length data))) (Subtract_kernel e kn offset (Some data) (length data) s)))"

definition memory_object_lock_completed :: "nm_env \<Rightarrow> nat \<Rightarrow> nat \<Rightarrow> nat \<Rightarrow> netobj \<Rightarrow> netobj option" where
  "memory_object_lock_completed e memory_control offset len s =
     (if memory_control = 0 then Some s
      else case port_to_kernel s memory_control of None \<Rightarrow> Some s
      | Some kn \<Rightarrow>
        (let lps = page_size (kerninfo s kn) in
         if len \<noteq> lps then Some s
         else if misaligned offset lps then Some s
         else if offset \<ge> object_size s then Some s
         else Subtract_kernel e kn offset None len s))"

text \<open>\<open>_port_death\<close> as the object's own thread receives it.\<close>

definition port_death_object :: "nm_env \<Rightarrow> nat \<Rightarrow> netobj \<Rightarrow> netobj option" where
  "port_death_object e kn s = Kernel_close e kn s"

text \<open>The sizes are in entries rather than in bytes.\<close>

definition paging_object_statistics :: "netobj \<Rightarrow> fault_info list \<times> fault_info" where
  "paging_object_statistics s = (map (faults_per_page s) [0..<drop_bit MIN_PAGE_SHIFT (object_size s)], faults_total s)"

section \<open>The messages an object receives\<close>

text \<open>
  A round of \<open>object_server_routine\<close>: the messages of the kernels, then the server's own, from its
  timer (\<open>Timed_out\<close>) and from its notification thread (\<open>Port_dead\<close>), then the request for the
  statistics.  \<open>object_thread_terminate\<close> ends the thread and with it the sequence of rounds.
\<close>

datatype nm_event = Init nat nat nat | Data_request nat nat nat nat | Data_unlock nat nat nat nat | Data_write nat nat "nat list" | Lock_completed nat nat nat
  | Timed_out | Port_dead nat | Get_statistics

fun nm_step :: "nm_env \<Rightarrow> nm_event \<Rightarrow> netobj \<Rightarrow> netobj option" where
  "nm_step e (Init p n sz) s = Some (memory_object_init e p n sz s)"
| "nm_step e (Data_request p off len acs) s = memory_object_data_request e p off len acs s"
| "nm_step e (Data_unlock p off len acs) s = memory_object_data_unlock e p off len acs s"
| "nm_step e (Data_write p off d) s = memory_object_data_write e p off d s"
| "nm_step e (Lock_completed p off len) s = memory_object_lock_completed e p off len s"
| "nm_step e Timed_out s = timed_out e s"
| "nm_step e (Port_dead kn) s = port_death_object e kn s"
| "nm_step e Get_statistics s = Some s"

fun nm_run :: "nm_env \<Rightarrow> nm_event list \<Rightarrow> netobj \<Rightarrow> netobj option" where
  "nm_run e [] s = Some s"
| "nm_run e (v # vs) s = Option.bind (nm_step e v s) (nm_run e vs)"

end
