(* ===== verification/Netmem_Events.thy ===== *)
theory Netmem_Events
  imports Netmem_Object
begin

text \<open>
  Every message of a kernel to an object whose kernels have one page size is one operation of the
  page server on one page, or changes no page.
\<close>

section \<open>The invariant of an object\<close>

definition npages :: "nat \<Rightarrow> netobj \<Rightarrow> nat" where
  "npages B s = object_size s div (B * MIN_PAGE_SIZE)"

definition sized :: "nat \<Rightarrow> kernel_t \<Rightarrow> bool" where
  "sized B ki \<longleftrightarrow> page_size ki = B * MIN_PAGE_SIZE \<and> (real_page_size ki < MIN_PAGE_SIZE \<longrightarrow> B = 1 \<and> real_page_size ki dvd MIN_PAGE_SIZE)
     \<and> (MIN_PAGE_SIZE \<le> real_page_size ki \<longrightarrow> real_page_size ki = B * MIN_PAGE_SIZE)"

definition involved :: "apage \<Rightarrow> nat set" where
  "involved p = readers (acc p) \<union> {k. acc p = Writer k} \<union> fst ` set (wq p)"

definition kernels_ok :: "nat \<Rightarrow> netobj \<Rightarrow> bool" where
  "kernels_ok B s \<longleftrightarrow> (\<forall>k<32. request_port (kerninfo s k) \<noteq> 0 \<longrightarrow> sized B (kerninfo s k))
     \<and> (\<forall>k<32. \<forall>l<32. request_port (kerninfo s k) \<noteq> 0 \<longrightarrow> request_port (kerninfo s k) = request_port (kerninfo s l) \<longrightarrow> k = l)"

definition nm_inv :: "nat \<Rightarrow> netobj \<Rightarrow> (nat \<Rightarrow> apage) \<Rightarrow> bool" where
  "nm_inv B s A \<longleftrightarrow> 0 < B \<and> B * MIN_PAGE_SIZE dvd object_size s \<and> object_size s < 2 ^ 32 \<and> kernels_ok B s
     \<and> (\<exists>R fs. object_rep B (npages B s) s A R fs) \<and> (\<forall>g<npages B s. \<forall>k\<in>involved (A g). request_port (kerninfo s k) \<noteq> 0)"

text \<open>The representation reads only the pages, the requests and the sizes of the kernels' pages.\<close>

lemma object_rep_cong:
  assumes R: "object_rep B G s A R fs" and B: "0 < B" and m: "min_pages s' = min_pages s" "req s' = req s" "free_requests s' = free_requests s" "req_heap s' = req_heap s"
    and k: "\<And>g k. g < G \<Longrightarrow> k \<in> involved (A g) \<Longrightarrow> known B s k \<Longrightarrow> known B s' k"
  shows "object_rep B G s' A R fs"
proof -
  have "page_rep B g s' (A g) (R g) \<longleftrightarrow> page_rep B g s (A g) (R g)" for g by (rule page_rep_cong [OF B]) (simp_all add: m)
  moreover have "page_ok B s' (A g)" if "g < G" "page_ok B s (A g)" for g
    using k [OF that(1)] that(2) unfolding page_ok_def involved_def by blast
  ultimately show ?thesis using R by (auto simp: object_rep_def requests_ok_def m)
qed

lemma nm_inv_cong:
  assumes I: "nm_inv B s A" and m: "min_pages s' = min_pages s" "req s' = req s" "free_requests s' = free_requests s" "req_heap s' = req_heap s"
    "object_size s' = object_size s" and k: "kernels_ok B s'"
    and p: "\<And>k. request_port (kerninfo s k) \<noteq> 0 \<Longrightarrow> kerninfo s' k = kerninfo s k"
  shows "nm_inv B s' A"
proof -
  obtain R fs where R: "object_rep B (npages B s) s A R fs" using I by (auto simp: nm_inv_def)
  have np: "npages B s' = npages B s" by (simp add: npages_def m)
  have act: "request_port (kerninfo s k) \<noteq> 0" if "g < npages B s" "k \<in> involved (A g)" for g k using I that by (auto simp: nm_inv_def)
  have "object_rep B (npages B s) s' A R fs"
    by (rule object_rep_cong [OF R _ m(1-4)]) (use I p act in \<open>auto simp: nm_inv_def known_def\<close>)
  then show ?thesis using I k p act m np unfolding nm_inv_def by auto
qed

lemma nm_inv_same:
  assumes "nm_inv B s A" and "min_pages s' = min_pages s" "req s' = req s" "free_requests s' = free_requests s" "req_heap s' = req_heap s"
    "object_size s' = object_size s" "kerninfo s' = kerninfo s"
  shows "nm_inv B s' A"
  using assms by (intro nm_inv_cong [OF assms(1-6)]) (auto simp: nm_inv_def kernels_ok_def)

section \<open>Operations on one page\<close>

datatype page_op = P_read nat bool | P_write nat bool | P_release nat

fun op_kernel :: "page_op \<Rightarrow> nat" where
  "op_kernel (P_read k nd) = k" | "op_kernel (P_write k nd) = k" | "op_kernel (P_release k) = k"

fun page_act :: "(nat \<Rightarrow> kernel_t) \<Rightarrow> (nat \<Rightarrow> nat) \<Rightarrow> nat \<Rightarrow> nat \<Rightarrow> nat \<Rightarrow> page_op \<Rightarrow> apage \<Rightarrow> apage \<times> (nat \<times> pager_msg) list" where
  "page_act KI st po off len (P_read k nd) p = a_read KI st po off len k nd p"
| "page_act KI st po off len (P_write k nd) p = a_write KI st po off len k nd p"
| "page_act KI st po off len (P_release k) p = a_release KI st po off len k p"

fun op_code :: "nm_env \<Rightarrow> nat \<Rightarrow> nat \<Rightarrow> page_op \<Rightarrow> netobj \<Rightarrow> netobj option" where
  "op_code e off len (P_read k nd) s = Add_reading_kernel e k off len nd s"
| "op_code e off len (P_write k nd) s = Add_writing_kernel e k off len nd s"
| "op_code e off len (P_release k) s = Subtract_kernel e k off None len s"

lemma a_wait_involved: "involved (fst (a_wait KI po off len w x p)) \<subseteq> insert (fst x) (involved p)"
  by (auto simp: a_wait_def involved_def)

lemma serve_involved: "involved (fst (serve KI st po off len a q)) \<subseteq> readers a \<union> fst ` set q \<union> {k. a = Writer k}"
proof (induction KI st po off len a q rule: serve.induct)
  case (2 KI st po off len a k w nd q)
  show ?case
  proof (cases w)
    case False
    have "involved (fst (serve KI st po off len (Readers (insert k (readers a))) q)) \<subseteq> insert k (readers a) \<union> fst ` set q"
      using 2 [OF False] by (auto simp: give_read_def)
    then show ?thesis using False by (auto simp: give_read_def split_beta)
  qed (auto simp: give_write_def involved_def)
qed (auto simp: involved_def)

lemma page_act_involved: "involved (fst (page_act KI st po off len x p)) \<subseteq> insert (op_kernel x) (involved p)"
proof (cases x)
  case (P_read k nd)
  show ?thesis using a_wait_involved [of KI po off len _ "(k, False, True)" p]
    by (cases "acc p") (auto simp: P_read a_read_def give_read_def involved_def)
next
  case (P_write k nd)
  have "fst ` set (map (upgrade k nd) (wq p)) = fst ` set (wq p)" by (auto simp: image_image)
  then have "involved (p\<lparr>wq := map (upgrade k nd) (wq p)\<rparr>) = involved p" by (simp add: involved_def image_image)
  then show ?thesis using a_wait_involved [of KI po off len _ "(k, True, nd)" p]
    by (cases "acc p") (auto simp: P_write a_write_def give_write_def involved_def)
next
  case (P_release k)
  then show ?thesis using serve_involved [of KI st po off len Free "wq p"] by (auto simp: a_release_def involved_def)
qed

lemma op_refines:
  assumes I: "nm_inv B s A" and g: "g < npages B s" and h: "heap_fresh e" and k: "op_kernel x < 32" "request_port (kerninfo s (op_kernel x)) \<noteq> 0"
    and X: "X = page_act (kerninfo s) (storage s) (paging_object s) (page_offset B g) (B * MIN_PAGE_SIZE) x (A g)"
  shows "\<exists>s'. op_code e (page_offset B g) (B * MIN_PAGE_SIZE) x s = Some s' \<and> nm_inv B s' (A(g := fst X)) \<and> sent s' = sent s @ snd X
     \<and> storage s' = storage s \<and> kerninfo s' = kerninfo s \<and> paging_object s' = paging_object s \<and> object_size s' = object_size s
     \<and> faults_per_page s' = faults_per_page s \<and> faults_total s' = faults_total s"
proof -
  obtain R fs where R: "object_rep B (npages B s) s A R fs" using I by (auto simp: nm_inv_def)
  have B: "0 < B" using I by (simp add: nm_inv_def)
  have kn: "known B s (op_kernel x)" using I k by (auto simp: nm_inv_def kernels_ok_def sized_def known_def)
  have S: "page_state B g s (A g) (R g) fs" using object_repD [OF R g] B by (simp add: page_state_def)
  have ok: "page_ok B s (fst X)" using page_stateD(3) [OF S] kn by (cases x) (auto simp: X a_read_ok a_write_ok a_release_ok)
  obtain s' rs' fs' where s': "op_code e (page_offset B g) (B * MIN_PAGE_SIZE) x s = Some s'" "page_step B g (R g) fs s s' (fst X) (snd X) rs' fs'"
  proof (cases x)
    case (P_read k nd)
    then show ?thesis using read_step [OF S h, of k X nd] kn that X by auto
  next
    case (P_write k nd)
    then show ?thesis using write_step [OF S h, of k X nd] kn that X by auto
  next
    case (P_release k)
    then show ?thesis using release_step [OF S, of X k e] kn that X by auto
  qed
  have F: "sched_frame B g (set (R g) \<union> set fs \<union> - req_heap s) s s'" using s'(2) by (simp add: page_step_def)
  have same: "storage s' = storage s" "kerninfo s' = kerninfo s" "paging_object s' = paging_object s" "object_size s' = object_size s"
      "faults_per_page s' = faults_per_page s" "faults_total s' = faults_total s" using F by (simp_all add: sched_frame_def)
  have np: "npages B s' = npages B s" by (simp add: npages_def same)
  have "object_rep B (npages B s) s' (A(g := fst X)) (R(g := rs')) fs'" by (rule page_step_object [OF R g B s'(2) ok])
  moreover have "request_port (kerninfo s l) \<noteq> 0" if "i < npages B s" "l \<in> involved ((A(g := fst X)) i)" for i l
    using that I g k page_act_involved [of "kerninfo s" "storage s" "paging_object s" "page_offset B g" "B * MIN_PAGE_SIZE" x "A g"]
    by (cases "i = g") (auto simp: X nm_inv_def)
  ultimately have "nm_inv B s' (A(g := fst X))" using I unfolding nm_inv_def kernels_ok_def np same by blast
  then show ?thesis using s' same by (auto simp: page_step_def)
qed

section \<open>Messages as operations\<close>

definition aligned :: "netobj \<Rightarrow> nat \<Rightarrow> nat \<Rightarrow> bool" where
  "aligned s p off \<longleftrightarrow> (case port_to_kernel s p of None \<Rightarrow> True | Some k \<Rightarrow> real_page_size (kerninfo s k) dvd off)"

text \<open>The kernels have pages of \<open>B\<close> minimal pages, or smaller pages than a minimal page when \<open>B\<close> is 1, and name pages by their offsets.
  None of them dies, and at a tick of the timer none of them still owes the answer to a lock request
  from before the previous tick.\<close>

definition none_late :: "netobj \<Rightarrow> bool" where
  "none_late s \<longleftrightarrow> (\<forall>kn<MAX_NUM_KERNELS. \<not> 0 < outstanding s kn (if omark s = 0 then 1 else 0))"

fun event_ok :: "nat \<Rightarrow> netobj \<Rightarrow> nm_event \<Rightarrow> bool" where
  "event_ok B s (Init p n sz) \<longleftrightarrow> (p \<noteq> 0 \<and> sz \<le> MAX_PAGE_SIZE \<longrightarrow> sz \<noteq> 0 \<and> (if sz < MIN_PAGE_SIZE then MIN_PAGE_SIZE else sz) = B * MIN_PAGE_SIZE)"
| "event_ok B s (Data_request p off len acs) \<longleftrightarrow> aligned s p off"
| "event_ok B s (Data_unlock p off len acs) \<longleftrightarrow> aligned s p off"
| "event_ok B s (Data_write p off d) \<longleftrightarrow> aligned s p off"
| "event_ok B s (Lock_completed p off len) \<longleftrightarrow> B * MIN_PAGE_SIZE dvd off"
| "event_ok B s Timed_out \<longleftrightarrow> none_late s"
| "event_ok B s (Port_dead kn) \<longleftrightarrow> False"
| "event_ok B s Get_statistics \<longleftrightarrow> True"

text \<open>The kernel a message comes from, if the message is not refused.\<close>

definition sender :: "(kernel_t \<Rightarrow> nat) \<Rightarrow> netobj \<Rightarrow> nat \<Rightarrow> nat \<Rightarrow> nat \<Rightarrow> nat option" where
  "sender size_of s p off len =
     (if p = 0 then None else case port_to_kernel s p of None \<Rightarrow> None
      | Some k \<Rightarrow> if misaligned off (size_of (kerninfo s k)) \<or> len \<noteq> size_of (kerninfo s k) \<or> object_size s \<le> off then None else Some k)"

fun decode :: "nat \<Rightarrow> netobj \<Rightarrow> nm_event \<Rightarrow> (nat \<times> page_op) option" where
  "decode B s (Init p n sz) = None"
| "decode B s (Data_request p off len acs) =
     map_option (\<lambda>k. (off div (B * MIN_PAGE_SIZE), if acs AND VM_PROT_WRITE \<noteq> 0 then P_write k True else P_read k True)) (sender real_page_size s p off len)"
| "decode B s (Data_unlock p off len acs) =
     map_option (\<lambda>k. (off div (B * MIN_PAGE_SIZE), if acs AND VM_PROT_WRITE \<noteq> 0 then P_write k False else P_read k False)) (sender real_page_size s p off len)"
| "decode B s (Data_write p off d) = None"
| "decode B s (Lock_completed p off len) = map_option (\<lambda>k. (off div (B * MIN_PAGE_SIZE), P_release k)) (sender page_size s p off len)"
| "decode B s Timed_out = None"
| "decode B s (Port_dead kn) = None"
| "decode B s Get_statistics = None"

definition overwrite :: "nat \<Rightarrow> nat list \<Rightarrow> (nat \<Rightarrow> nat) \<Rightarrow> nat \<Rightarrow> nat" where
  "overwrite off d st = (\<lambda>a. if off \<le> a \<and> a < off + length d then d ! (a - off) else st a)"

text \<open>Data is stored only when it comes from the writer of the page.\<close>

fun store_after :: "nat \<Rightarrow> netobj \<Rightarrow> (nat \<Rightarrow> apage) \<Rightarrow> nm_event \<Rightarrow> nat \<Rightarrow> nat" where
  "store_after B s A (Data_write p off d) =
     (case sender real_page_size s p off (length d) of None \<Rightarrow> storage s
      | Some k \<Rightarrow> if acc (A (off div (B * MIN_PAGE_SIZE))) = Writer k then overwrite off d (storage s) else storage s)"
| "store_after B s A v = storage s"

definition harmless :: "(nat \<times> pager_msg) list \<Rightarrow> bool" where
  "harmless ms \<longleftrightarrow> (\<forall>x\<in>set ms. case snd x of Data_provided a d q \<Rightarrow> False | Lock_request a l c f q r \<Rightarrow> False | _ \<Rightarrow> True)"

lemma round_down_min: "off < 2 ^ 32 \<Longrightarrow> round_down off MIN_PAGE_SIZE = off div 4096 * 4096"
proof -
  assume off: "off < 2 ^ 32"
  have "(w :: 32 word) AND NOT (mask 12) = push_bit 12 (drop_bit 12 w)" for w
    by (rule bit_eqI) (auto simp: bit_and_iff bit_not_iff bit_mask_iff bit_push_bit_iff bit_drop_bit_eq)
  moreover have "(word_of_nat MIN_PAGE_SIZE - 1 :: 32 word) = mask 12" by (simp add: MIN_PAGE_SIZE_def mask_eq_exp_minus_1)
  ultimately have "round_down off MIN_PAGE_SIZE = unat (push_bit 12 (drop_bit 12 (word_of_nat off :: 32 word)))" by (simp add: round_down_def)
  also have "\<dots> = take_bit 32 (push_bit 12 (drop_bit 12 (take_bit 32 off)))" by (simp add: unsigned_push_bit_eq unsigned_drop_bit_eq unsigned_of_nat)
  also have "\<dots> = off div 4096 * 4096"
  proof -
    have "off div 4096 * 4096 \<le> off" by simp
    then have "off div 4096 * 4096 < 2 ^ 32" using off by linarith
    then show ?thesis using off by (simp add: take_bit_nat_eq_self push_bit_eq_mult drop_bit_eq_div)
  qed
  finally show ?thesis .
qed

lemma senderD:
  assumes "sender f s p off len = Some k"
  shows "k < 32" "request_port (kerninfo s k) = p" "p \<noteq> 0" "off < object_size s" "port_to_kernel s p = Some k" "len = f (kerninfo s k)" "\<not> misaligned off (f (kerninfo s k))"
proof -
  show p: "port_to_kernel s p = Some k" "p \<noteq> 0" "off < object_size s" "len = f (kerninfo s k)" "\<not> misaligned off (f (kerninfo s k))"
    using assms by (auto simp: sender_def split: if_splits option.splits)
  show "k < 32" "request_port (kerninfo s k) = p" using p(1) by (auto simp: port_to_kernel_def find_Some_iff MAX_NUM_KERNELS_def)
qed

lemma page_number:
  assumes I: "nm_inv B s A" and off: "off < object_size s"
  shows "off div (B * MIN_PAGE_SIZE) < npages B s"
proof -
  have d: "B * MIN_PAGE_SIZE dvd object_size s" and B: "0 < B * MIN_PAGE_SIZE" using I by (simp_all add: nm_inv_def MIN_PAGE_SIZE_def)
  have "off < npages B s * (B * MIN_PAGE_SIZE)" unfolding npages_def dvd_div_mult_self [OF d] by (rule off)
  then show ?thesis by (rule less_mult_imp_div_less)
qed

lemma page_of_real:
  assumes I: "nm_inv B s A" and k: "sender real_page_size s p off len = Some k" and a: "aligned s p off"
  shows "(if real_page_size (kerninfo s k) < MIN_PAGE_SIZE then round_down off MIN_PAGE_SIZE else off) = page_offset B (off div (B * MIN_PAGE_SIZE))"
    and "(if real_page_size (kerninfo s k) < MIN_PAGE_SIZE then MIN_PAGE_SIZE else real_page_size (kerninfo s k)) = B * MIN_PAGE_SIZE"
proof -
  note D = senderD [OF k]
  have z: "sized B (kerninfo s k)" using I D(1-3) by (simp add: nm_inv_def kernels_ok_def)
  have d: "real_page_size (kerninfo s k) dvd off" using a D(5) by (simp add: aligned_def)
  have b: "off < 2 ^ 32" using D(4) I by (simp add: nm_inv_def)
  show "(if real_page_size (kerninfo s k) < MIN_PAGE_SIZE then MIN_PAGE_SIZE else real_page_size (kerninfo s k)) = B * MIN_PAGE_SIZE"
    using z by (auto simp: sized_def)
  show "(if real_page_size (kerninfo s k) < MIN_PAGE_SIZE then round_down off MIN_PAGE_SIZE else off) = page_offset B (off div (B * MIN_PAGE_SIZE))"
  proof (cases "real_page_size (kerninfo s k) < MIN_PAGE_SIZE")
    case True
    then show ?thesis using z round_down_min [OF b] by (simp add: sized_def page_offset_def MIN_PAGE_SIZE_def)
  next
    case False
    then have "B * MIN_PAGE_SIZE dvd off" using z d by (simp add: sized_def)
    then show ?thesis using False by (simp add: page_offset_def mult.assoc)
  qed
qed

text \<open>A message that is no operation on a page, and the state after it.\<close>

lemma count_faults_same:
  "min_pages (count_faults f j n s) = min_pages s" "req (count_faults f j n s) = req s" "free_requests (count_faults f j n s) = free_requests s"
  "req_heap (count_faults f j n s) = req_heap s" "object_size (count_faults f j n s) = object_size s" "kerninfo (count_faults f j n s) = kerninfo s"
  "storage (count_faults f j n s) = storage s" "paging_object (count_faults f j n s) = paging_object s" "sent (count_faults f j n s) = sent s"
  by (simp_all add: count_faults_def)

text \<open>What a message does: \<open>s'\<close> is the state after it, \<open>A'\<close> its pages.\<close>

definition stepped :: "nat \<Rightarrow> netobj \<Rightarrow> (nat \<Rightarrow> apage) \<Rightarrow> nm_event \<Rightarrow> netobj \<Rightarrow> (nat \<Rightarrow> apage) \<Rightarrow> bool" where
  "stepped B s A v s' A' \<longleftrightarrow> nm_inv B s' A' \<and> object_size s' = object_size s \<and> paging_object s' = paging_object s \<and> storage s' = store_after B s A v
     \<and> (\<forall>k. request_port (kerninfo s k) \<noteq> 0 \<longrightarrow> kerninfo s' k = kerninfo s k)
     \<and> (case decode B s v of None \<Rightarrow> A' = A \<and> (\<exists>ms. sent s' = sent s @ ms \<and> harmless ms)
        | Some (g, x) \<Rightarrow> g < npages B s \<and> op_kernel x < 32 \<and> request_port (kerninfo s (op_kernel x)) \<noteq> 0 \<and> kerninfo s' = kerninfo s \<and>
           (let X = page_act (kerninfo s) (storage s) (paging_object s) (page_offset B g) (B * MIN_PAGE_SIZE) x (A g)
            in A' = A(g := fst X) \<and> sent s' = sent s @ snd X))"

lemma request_stepped:
  assumes I: "nm_inv B s A" and h: "heap_fresh e" and al: "aligned s p off"
    and dec: "decode B s v = map_option (\<lambda>k. (off div (B * MIN_PAGE_SIZE), if acs AND VM_PROT_WRITE \<noteq> 0 then P_write k nd else P_read k nd)) (sender real_page_size s p off len)"
    and st: "store_after B s A v = storage s"
  shows "\<exists>s' A'. memory_object_request e p off len acs nd s = Some s' \<and> stepped B s A v s' A'"
proof (cases "sender real_page_size s p off len")
  case None
  have "memory_object_request e p off len acs nd s = Some s \<or> memory_object_request e p off len acs nd s = Some (send p (Data_error off len) s)"
    using None by (auto simp: memory_object_request_def sender_def Let_def split: option.splits if_splits)
  moreover have "nm_inv B (send p (Data_error off len) s) A" by (rule nm_inv_same [OF I]) (simp_all add: send_def)
  ultimately show ?thesis using I None st dec
    by (auto simp: stepped_def harmless_def send_def intro!: exI [of _ A] exI [of _ "[]"])
next
  case (Some k)
  note D = senderD [OF Some]
  note P = page_of_real [OF I Some al]
  define g where "g = off div (B * MIN_PAGE_SIZE)"
  define x where "x = (if acs AND VM_PROT_WRITE \<noteq> 0 then P_write k nd else P_read k nd)"
  define s1 where "s1 = count_faults (fault_kind nd (acs AND VM_PROT_WRITE \<noteq> 0)) (drop_bit MIN_PAGE_SHIFT (page_offset B g)) (drop_bit MIN_PAGE_SHIFT (B * MIN_PAGE_SIZE)) s"
  note C = count_faults_same [of "fault_kind nd (acs AND VM_PROT_WRITE \<noteq> 0)" "drop_bit MIN_PAGE_SHIFT (page_offset B g)" "drop_bit MIN_PAGE_SHIFT (B * MIN_PAGE_SIZE)" s, folded s1_def]
  have I1: "nm_inv B s1 A" by (rule nm_inv_same [OF I C(1-6)])
  have g: "g < npages B s1" using page_number [OF I D(4)] by (simp add: g_def npages_def C)
  have xk: "op_kernel x = k" by (simp add: x_def)
  have "memory_object_request e p off len acs nd s = op_code e (page_offset B g) (B * MIN_PAGE_SIZE) x s1"
  proof -
    have "memory_object_request e p off len acs nd s = (let offset' = (if real_page_size (kerninfo s k) < MIN_PAGE_SIZE then round_down off MIN_PAGE_SIZE else off);
                len' = (if real_page_size (kerninfo s k) < MIN_PAGE_SIZE then MIN_PAGE_SIZE else real_page_size (kerninfo s k));
                wr = (acs AND VM_PROT_WRITE \<noteq> 0);
                s1 = count_faults (fault_kind nd wr) (drop_bit MIN_PAGE_SHIFT offset') (drop_bit MIN_PAGE_SHIFT len') s
            in if wr then Add_writing_kernel e k offset' len' nd s1 else Add_reading_kernel e k offset' len' nd s1)"
      using D by (simp add: memory_object_request_def Let_def)
    then show ?thesis unfolding P Let_def g_def [symmetric] s1_def [symmetric] by (simp add: x_def)
  qed
  moreover obtain s' where s': "op_code e (page_offset B g) (B * MIN_PAGE_SIZE) x s1 = Some s'"
      "nm_inv B s' (A(g := fst (page_act (kerninfo s) (storage s) (paging_object s) (page_offset B g) (B * MIN_PAGE_SIZE) x (A g))))"
      "sent s' = sent s @ snd (page_act (kerninfo s) (storage s) (paging_object s) (page_offset B g) (B * MIN_PAGE_SIZE) x (A g))"
      "storage s' = storage s" "kerninfo s' = kerninfo s" "paging_object s' = paging_object s" "object_size s' = object_size s"
    using op_refines [OF I1 g h _ _ refl, of x] D(1-3) unfolding xk C by auto
  moreover have "decode B s v = Some (g, x)" using dec Some by (simp add: g_def x_def)
  ultimately show ?thesis using st D(1-3) g xk
    by (intro exI [of _ s'] exI [of _ "A(g := fst (page_act (kerninfo s) (storage s) (paging_object s) (page_offset B g) (B * MIN_PAGE_SIZE) x (A g)))"])
       (simp add: stepped_def Let_def npages_def C)
qed

lemma lock_completed_stepped:
  assumes I: "nm_inv B s A" and h: "heap_fresh e" and al: "B * MIN_PAGE_SIZE dvd off"
  shows "\<exists>s' A'. memory_object_lock_completed e p off len s = Some s' \<and> stepped B s A (Lock_completed p off len) s' A'"
proof (cases "sender page_size s p off len")
  case None
  then have "memory_object_lock_completed e p off len s = Some s"
    by (auto simp: memory_object_lock_completed_def sender_def Let_def split: option.splits if_splits)
  then show ?thesis using I None by (auto simp: stepped_def harmless_def intro!: exI [of _ A])
next
  case (Some k)
  note D = senderD [OF Some]
  define g where "g = off div (B * MIN_PAGE_SIZE)"
  have off: "page_offset B g = off" using al by (simp add: g_def page_offset_def mult.assoc)
  have g: "g < npages B s" using page_number [OF I D(4)] by (simp add: g_def)
  have z: "page_size (kerninfo s k) = B * MIN_PAGE_SIZE" using I D(1-3) by (simp add: nm_inv_def kernels_ok_def sized_def)
  have "memory_object_lock_completed e p off len s = op_code e (page_offset B g) (B * MIN_PAGE_SIZE) (P_release k) s"
    using D z by (simp add: memory_object_lock_completed_def Let_def off)
  moreover obtain s' where s': "op_code e (page_offset B g) (B * MIN_PAGE_SIZE) (P_release k) s = Some s'"
      "nm_inv B s' (A(g := fst (page_act (kerninfo s) (storage s) (paging_object s) (page_offset B g) (B * MIN_PAGE_SIZE) (P_release k) (A g))))"
      "sent s' = sent s @ snd (page_act (kerninfo s) (storage s) (paging_object s) (page_offset B g) (B * MIN_PAGE_SIZE) (P_release k) (A g))"
      "storage s' = storage s" "kerninfo s' = kerninfo s" "paging_object s' = paging_object s" "object_size s' = object_size s"
    using op_refines [OF I g h _ _ refl, of "P_release k"] D(1-3) by auto
  moreover have "decode B s (Lock_completed p off len) = Some (g, P_release k)" using Some by (simp add: g_def)
  ultimately show ?thesis using D(1-3) g
    by (intro exI [of _ s'] exI [of _ "A(g := fst (page_act (kerninfo s) (storage s) (paging_object s) (page_offset B g) (B * MIN_PAGE_SIZE) (P_release k) (A g)))"])
       (simp add: stepped_def Let_def npages_def)
qed

lemma data_write_stepped:
  assumes I: "nm_inv B s A" and al: "aligned s p off"
  shows "\<exists>s'. memory_object_data_write e p off d s = Some s' \<and> stepped B s A (Data_write p off d) s' A"
proof (cases "sender real_page_size s p off (length d)")
  case None
  then have "memory_object_data_write e p off d s = Some s"
    by (auto simp: memory_object_data_write_def sender_def Let_def split: option.splits if_splits)
  then show ?thesis using I None by (auto simp: stepped_def harmless_def)
next
  case (Some k)
  note D = senderD [OF Some]
  note P = page_of_real [OF I Some al]
  define g where "g = off div (B * MIN_PAGE_SIZE)"
  have B: "0 < B" using I by (simp add: nm_inv_def)
  obtain R fs where R: "object_rep B (npages B s) s A R fs" using I by (auto simp: nm_inv_def)
  have g: "g < npages B s" using page_number [OF I D(4)] by (simp add: g_def)
  have w: "(use (min_pages s (g * B)) \<noteq> USE_WRITE \<or> writer_of (user (min_pages s (g * B))) \<noteq> k) = (acc (A g) \<noteq> Writer k)"
    using page_tests(1) [OF B object_repD(1,2) [OF R g] D(1)] by (auto simp: is_writer_def)
  have "Subtract_kernel e k off (Some d) (length d) s = Some (if acc (A g) = Writer k then write_back off d s else s)"
    unfolding Subtract_kernel_def Let_def D(6) P g_def [symmetric] offsets [OF B] w by simp
  then have e: "memory_object_data_write e p off d s = Some (send 0 (Vm_deallocate (length d)) (if acc (A g) = Writer k then write_back off d s else s))"
    using D by (simp add: memory_object_data_write_def Let_def)
  have "nm_inv B (send 0 (Vm_deallocate (length d)) (if acc (A g) = Writer k then write_back off d s else s)) A"
    by (rule nm_inv_same [OF I]) (simp_all add: send_def write_back_def)
  then show ?thesis unfolding e using Some
    by (auto simp: stepped_def harmless_def send_def write_back_def g_def overwrite_def intro!: exI [of _ "[(0, Vm_deallocate (length d))]"])
qed

lemma timed_out_stepped:
  assumes I: "nm_inv B s A" and l: "none_late s"
  shows "\<exists>s'. timed_out e s = Some s' \<and> stepped B s A Timed_out s' A"
proof -
  let ?m = "if omark s = 0 then 1 else 0"
  have "close_late e ?m ks s = Some s" if "set ks \<subseteq> {..<MAX_NUM_KERNELS}" for ks
    using that l by (induction ks) (auto simp: none_late_def)
  then have "timed_out e s = Some (s\<lparr>omark := ?m\<rparr>)" unfolding timed_out_def Let_def by (simp add: lessThan_atLeast0)
  moreover have "nm_inv B (s\<lparr>omark := ?m\<rparr>) A" by (rule nm_inv_same [OF I]) simp_all
  ultimately show ?thesis by (auto simp: stepped_def harmless_def)
qed

lemma port_to_kernel_None: "port_to_kernel s p = None \<longleftrightarrow> (\<forall>k<32. request_port (kerninfo s k) \<noteq> p)"
  by (auto simp: port_to_kernel_def find_None_iff MAX_NUM_KERNELS_def)

lemma port_to_kernel_Some: "port_to_kernel s p = Some k \<Longrightarrow> k < 32 \<and> request_port (kerninfo s k) = p"
  by (auto simp: port_to_kernel_def find_Some_iff MAX_NUM_KERNELS_def)

lemma power_of_two_dvd:
  assumes "is_power_of_two e sz" and "sz < MIN_PAGE_SIZE" and "sz \<noteq> 0"
  shows "sz dvd MIN_PAGE_SIZE"
proof -
  have lt: "sz < 2 ^ 32" using assms(2) by (simp add: MIN_PAGE_SIZE_def)
  have "find (bit sz) [0..<32] \<noteq> None"
  proof
    assume "find (bit sz) [0..<32] = None"
    then have "\<not> bit (take_bit 32 sz) i" for i by (auto simp: find_None_iff bit_take_bit_iff)
    then have "take_bit 32 sz = 0" by (intro bit_eqI) simp
    then show False using lt assms(3) by (simp add: take_bit_nat_eq_self)
  qed
  then obtain n where n: "sz = 2 ^ n" using assms(1) by (auto simp: is_power_of_two_def ffs_def push_bit_eq_mult)
  then have "n < 12" using assms(2) power_less_imp_less_exp [of "2 :: nat" n 12] by (simp add: MIN_PAGE_SIZE_def)
  then have "(2 :: nat) ^ n dvd 2 ^ 12" by (intro le_imp_power_dvd) simp
  then show ?thesis using n by (simp add: MIN_PAGE_SIZE_def)
qed

lemma init_stepped:
  assumes I: "nm_inv B s A" and ok: "event_ok B s (Init p n sz)"
  shows "stepped B s A (Init p n sz) (memory_object_init e p n sz s) A"
proof -
  define s1 where "s1 = (if n \<noteq> 0 then send n Port_deallocate s else s)"
  have s1: "min_pages s1 = min_pages s" "req s1 = req s" "free_requests s1 = free_requests s" "req_heap s1 = req_heap s" "object_size s1 = object_size s"
      "kerninfo s1 = kerninfo s" "storage s1 = storage s" "paging_object s1 = paging_object s" "\<exists>ms. sent s1 = sent s @ ms \<and> harmless ms"
    by (auto simp: s1_def send_def harmless_def)
  have quiet: "stepped B s A (Init p n sz) t A"
    if "min_pages t = min_pages s1" "req t = req s1" "free_requests t = free_requests s1" "req_heap t = req_heap s1" "object_size t = object_size s1"
      "kernels_ok B t" "\<And>k. request_port (kerninfo s k) \<noteq> 0 \<Longrightarrow> kerninfo t k = kerninfo s k" "storage t = storage s1" "paging_object t = paging_object s1"
      "\<exists>ms. sent t = sent s1 @ ms \<and> harmless ms" for t
  proof -
    have "nm_inv B t A" by (rule nm_inv_cong [OF I]) (simp_all add: that s1)
    moreover have "\<exists>ms. sent t = sent s @ ms \<and> harmless ms" using that(10) s1(9) by (auto simp: harmless_def)
    ultimately show ?thesis using that s1 by (simp add: stepped_def)
  qed
  have k1: "kernels_ok B s1" using I by (simp add: nm_inv_def kernels_ok_def s1)
  have fail: "stepped B s A (Init p n sz) (send p Port_deallocate s1) A" "stepped B s A (Init p n sz) s1 A"
    using k1 by (auto intro!: quiet simp: send_def s1 harmless_def kernels_ok_def)
  show ?thesis
  proof (cases "p \<noteq> 0 \<and> sz \<le> MAX_PAGE_SIZE \<and> is_power_of_two e sz \<and> port_to_kernel s1 p = None \<and> port_to_kernel s1 0 \<noteq> None")
    case False
    then have "memory_object_init e p n sz s = s1 \<or> memory_object_init e p n sz s = send p Port_deallocate s1"
      unfolding memory_object_init_def Let_def s1_def [symmetric] by (auto split: option.splits)
    then show ?thesis using fail by auto
  next
    case True
    then obtain kn where kn: "port_to_kernel s1 0 = Some kn" by auto
    note k0 = port_to_kernel_Some [OF kn]
    define ki where "ki = \<lparr>request_port = p, page_size = (if sz < MIN_PAGE_SIZE then MIN_PAGE_SIZE else sz), real_page_size = sz\<rparr>"
    have e: "memory_object_init e p n sz s = send (server_port e) (Port_death kn p) (Kernel_open kn (s1\<lparr>kerninfo := (kerninfo s1)(kn := ki)\<rparr>))"
      unfolding memory_object_init_def Let_def s1_def [symmetric] using True kn by (simp add: ki_def)
    have "sz < MIN_PAGE_SIZE \<Longrightarrow> sz dvd MIN_PAGE_SIZE" using True ok by (intro power_of_two_dvd [of e]) auto
    then have z: "sized B ki" using ok True by (auto simp: ki_def sized_def split: if_splits)
    have "kernels_ok B (s1\<lparr>kerninfo := (kerninfo s1)(kn := ki)\<rparr>)"
      using k1 z True unfolding kernels_ok_def port_to_kernel_None by (auto simp: ki_def)
    then have "kernels_ok B (send (server_port e) (Port_death kn p) (Kernel_open kn (s1\<lparr>kerninfo := (kerninfo s1)(kn := ki)\<rparr>)))"
      by (simp add: kernels_ok_def send_def Kernel_open_def)
    moreover have "kerninfo (send (server_port e) (Port_death kn p) (Kernel_open kn (s1\<lparr>kerninfo := (kerninfo s1)(kn := ki)\<rparr>))) k = kerninfo s k"
      if "request_port (kerninfo s k) \<noteq> 0" for k using that k0 by (auto simp: send_def Kernel_open_def s1)
    moreover have "\<exists>ms. sent (send (server_port e) (Port_death kn p) (Kernel_open kn (s1\<lparr>kerninfo := (kerninfo s1)(kn := ki)\<rparr>))) = sent s1 @ ms \<and> harmless ms"
      by (simp add: send_def Kernel_open_def harmless_def)
    ultimately show ?thesis unfolding e by (intro quiet) (simp_all add: send_def Kernel_open_def)
  qed
qed

theorem event_stepped:
  assumes I: "nm_inv B s A" and h: "heap_fresh e" and ok: "event_ok B s v"
  shows "\<exists>s' A'. nm_step e v s = Some s' \<and> stepped B s A v s' A'"
proof (cases v)
  case (Init p n sz)
  then show ?thesis using init_stepped [OF I, of p n sz e] ok by (intro exI [of _ "memory_object_init e p n sz s"] exI [of _ A]) simp
next
  case (Data_request p off len acs)
  then show ?thesis using request_stepped [OF I h, of p off v acs True len] ok by (simp add: memory_object_data_request_def)
next
  case (Data_unlock p off len acs)
  then show ?thesis using request_stepped [OF I h, of p off v acs False len] ok by (simp add: memory_object_data_unlock_def)
next
  case (Data_write p off d)
  then show ?thesis using data_write_stepped [OF I, of p off e d] ok by auto
next
  case (Lock_completed p off len)
  then show ?thesis using lock_completed_stepped [OF I h, of off p len] ok by auto
next
  case Timed_out
  then show ?thesis using timed_out_stepped [OF I, of e] ok by auto
next
  case (Port_dead kn)
  then show ?thesis using ok by simp
next
  case Get_statistics
  then show ?thesis using I by (auto simp: stepped_def harmless_def)
qed

end
