(* ===== verification/Netmem_Coherence.thy ===== *)
theory Netmem_Coherence
  imports Netmem_Events
begin

text \<open>
  The rights the kernels have, read off the messages they have been sent: the last message on an
  address counts.  At every time a kernel that may write an address is the only one that may access it.
\<close>

section \<open>Rights\<close>

datatype right = NoAccess | ReadOnly | ReadWrite

fun right_of :: "supply_t \<Rightarrow> right" where
  "right_of SUPPLY_ALL = ReadWrite" | "right_of SUPPLY_READ = ReadOnly" | "right_of SUPPLY_NONE = NoAccess"

fun msg_right :: "nat \<Rightarrow> pager_msg \<Rightarrow> right option" where
  "msg_right a (Data_provided off d q) = (if off \<le> a \<and> a < off + length d then Some (right_of q) else None)"
| "msg_right a (Lock_request off len c f q r) = (if off \<le> a \<and> a < off + len then Some (right_of q) else None)"
| "msg_right a m = None"

definition right_step :: "nat \<Rightarrow> nat \<Rightarrow> nat \<times> pager_msg \<Rightarrow> right \<Rightarrow> right" where
  "right_step p a x r = (if fst x = p then (case msg_right a (snd x) of None \<Rightarrow> r | Some r' \<Rightarrow> r') else r)"

definition rights_after :: "nat \<Rightarrow> nat \<Rightarrow> (nat \<times> pager_msg) list \<Rightarrow> right \<Rightarrow> right" where
  "rights_after p a ms r = fold (right_step p a) ms r"

definition rights :: "netobj \<Rightarrow> nat \<Rightarrow> nat \<Rightarrow> right" where
  "rights s p a = rights_after p a (sent s) NoAccess"

lemma rights_after_simps [simp]:
  "rights_after p a [] r = r" "rights_after p a (x # ms) r = rights_after p a ms (right_step p a x r)"
  "rights_after p a (ms @ ms') r = rights_after p a ms' (rights_after p a ms r)"
  by (simp_all add: rights_after_def)

lemma rights_append: "sent s' = sent s @ ms \<Longrightarrow> rights s' p a = rights_after p a ms (rights s p a)"
  by (simp add: rights_def)

lemma rights_after_none: "(\<And>x. x \<in> set ms \<Longrightarrow> msg_right a (snd x) = None) \<Longrightarrow> rights_after p a ms r = r"
  by (induction ms arbitrary: r) (simp_all add: right_step_def)

lemma rights_after_other: "(\<And>x. x \<in> set ms \<Longrightarrow> fst x \<noteq> p) \<Longrightarrow> rights_after p a ms r = r"
  by (induction ms arbitrary: r) (simp_all add: right_step_def)

lemma harmless_rights: "harmless ms \<Longrightarrow> rights_after p a ms r = r"
proof (rule rights_after_none)
  show "msg_right a (snd x) = None" if "harmless ms" "x \<in> set ms" for x
    using that by (cases "snd x") (auto simp: harmless_def)
qed

section \<open>The messages of the page server\<close>

lemma data_rights:
  assumes z: "sized B (KI k)" and B: "0 < B"
  shows "rights_after p a (data_msgs KI st k off q) r
     = (if p = request_port (KI k) \<and> off \<le> a \<and> a < off + B * MIN_PAGE_SIZE then right_of q else r)"
proof (cases "real_page_size (KI k) < MIN_PAGE_SIZE")
  case False
  then have "real_page_size (KI k) = B * MIN_PAGE_SIZE" using z by (simp add: sized_def)
  then show ?thesis using B False by (auto simp: data_msgs_def Let_def right_step_def)
next
  case True
  define sz where "sz = real_page_size (KI k)"
  define n where "n = MIN_PAGE_SIZE div sz"
  have m: "MIN_PAGE_SIZE = n * sz" "B = 1" using z True by (simp_all add: sized_def n_def sz_def)
  have "rights_after p a (map (\<lambda>i. (request_port (KI k), Data_provided (off + i * sz) (map st [off + i * sz..<off + i * sz + sz]) q)) [0..<i]) r
      = (if p = request_port (KI k) \<and> off \<le> a \<and> a < off + i * sz then right_of q else r)" for i
    by (induction i) (auto simp: right_step_def)
  then show ?thesis using True m by (simp add: data_msgs_def Let_def sz_def n_def)
qed

lemma lock_rights:
  assumes "off \<le> a" "a < off + len"
  shows "right_step p a (lock_reader_msg KI k off len) r = (if p = request_port (KI k) then NoAccess else r)"
    and "right_step p a (lock_writer_msg KI po k off len) r = (if p = request_port (KI k) then NoAccess else r)"
    and "right_step p a (unlock_msg KI k off len) r = (if p = request_port (KI k) then ReadWrite else r)"
  using assms by (auto simp: right_step_def lock_reader_msg_def lock_writer_msg_def unlock_msg_def)

lemma lock_readers_rights:
  assumes "off \<le> a" "a < off + len"
  shows "rights_after p a (map (\<lambda>k. lock_reader_msg KI k off len) ks) r = (if p \<in> (\<lambda>k. request_port (KI k)) ` set ks then NoAccess else r)"
  using assms by (induction ks arbitrary: r) (auto simp: lock_rights)

text \<open>A page justifies a right of a port.\<close>

definition justified :: "(nat \<Rightarrow> kernel_t) \<Rightarrow> access \<Rightarrow> waiter list \<Rightarrow> nat \<Rightarrow> right \<Rightarrow> bool" where
  "justified KI a q p r \<longleftrightarrow> (r = ReadWrite \<longrightarrow> q = [] \<and> (\<exists>k. a = Writer k \<and> request_port (KI k) = p))
     \<and> (r = ReadOnly \<longrightarrow> (\<exists>k\<in>readers a. request_port (KI k) = p))"

lemma give_write_rights:
  assumes z: "sized B (KI k)" and B: "0 < B" and a: "off \<le> a" "a < off + B * MIN_PAGE_SIZE" and u: "unwritten c" "readers c \<subseteq> {..<32}" and J: "justified KI c q p r"
  shows "rights_after p a (snd (give_write KI st off (B * MIN_PAGE_SIZE) k nd c)) r = (if p = request_port (KI k) then ReadWrite else NoAccess)"
proof -
  have "r = NoAccess \<or> (\<exists>l\<in>readers c. request_port (KI l) = p)" using J u(1) by (cases r) (auto simp: justified_def)
  then have "rights_after p a (map (\<lambda>r. lock_reader_msg KI r off (B * MIN_PAGE_SIZE)) (filter (\<lambda>r. r \<in> readers c \<and> r \<noteq> k) [0..<32])) r = NoAccess" if "p \<noteq> request_port (KI k)"
    using that u(2) unfolding lock_readers_rights [OF a] by (auto simp: image_iff)
  then show ?thesis using a by (simp add: give_write_def data_rights [where KI = KI and k = k, OF z B] lock_rights)
qed

lemma serve_rights:
  assumes "all_known B s c q" and "unwritten c" and "\<And>x. x \<in> set q \<Longrightarrow> sized B (KI (fst x))" and "0 < B" and "off \<le> a" "a < off + B * MIN_PAGE_SIZE"
    and "justified KI c [] p r"
  shows "justified KI (acc (fst (serve KI st po off (B * MIN_PAGE_SIZE) c q))) (wq (fst (serve KI st po off (B * MIN_PAGE_SIZE) c q))) p
     (rights_after p a (snd (serve KI st po off (B * MIN_PAGE_SIZE) c q)) r)"
  using assms
proof (induction q arbitrary: c r)
  case Nil
  then show ?case by simp
next
  case (Cons x q)
  obtain k w nd where x: "x = (k, w, nd)" by (cases x)
  have z: "sized B (KI k)" using Cons.prems(3) [of x] by (simp add: x)
  have rd: "readers c \<subseteq> {..<32}" using Cons.prems(1) by (auto simp: all_known_def known_def)
  show ?case
  proof (cases w)
    case True
    note W = give_write_rights [where KI = KI and k = k, OF z Cons.prems(4-6,2) rd Cons.prems(7), of st nd]
    have "fst (give_write KI st off (B * MIN_PAGE_SIZE) k nd c) = Writer k" by (simp add: give_write_def)
    then show ?thesis using True W Cons.prems(5,6) by (cases "q = []") (auto simp: x split_beta justified_def lock_rights)
  next
    case False
    let ?c = "Readers (insert k (readers c))"
    have K: "all_known B s ?c q" using Cons.prems(1) by (auto simp: all_known_def x)
    have "justified KI ?c [] p (rights_after p a (data_msgs KI st k off SUPPLY_READ) r)"
      using Cons.prems(2,5-7) by (cases c) (auto simp: data_rights [where KI = KI and k = k, OF z Cons.prems(4)] justified_def)
    note Cons.IH [OF K _ _ Cons.prems(4-6) this]
    then show ?thesis using False Cons.prems(3) by (simp add: x give_read_def split_beta)
  qed
qed

text \<open>The messages on a page say nothing about addresses outside it.\<close>

lemma lock_outside:
  assumes "\<not> (off \<le> a \<and> a < off + len)"
  shows "right_step p a (lock_reader_msg KI k off len) r = r" "right_step p a (lock_writer_msg KI po k off len) r = r" "right_step p a (unlock_msg KI k off len) r = r"
  using assms by (auto simp: right_step_def lock_reader_msg_def lock_writer_msg_def unlock_msg_def)

lemma data_outside:
  assumes "sized B (KI k)" and "0 < B" and "\<not> (off \<le> a \<and> a < off + B * MIN_PAGE_SIZE)"
  shows "rights_after p a (data_msgs KI st k off q) r = r"
  unfolding data_rights [where KI = KI and k = k, OF assms(1,2)] using assms(3) by auto

lemma give_write_outside:
  assumes "sized B (KI k)" and "0 < B" and "\<not> (off \<le> a \<and> a < off + B * MIN_PAGE_SIZE)"
  shows "rights_after p a (snd (give_write KI st off (B * MIN_PAGE_SIZE) k nd c)) r = r"
proof -
  have "rights_after p a (map (\<lambda>r. lock_reader_msg KI r off (B * MIN_PAGE_SIZE)) ks) r = r" for ks
    using lock_outside [OF assms(3)] by (induction ks) simp_all
  then show ?thesis using assms(3) by (simp add: give_write_def data_outside [where KI = KI and k = k, OF assms] lock_outside)
qed

lemma serve_outside:
  assumes "\<And>x. x \<in> set q \<Longrightarrow> sized B (KI (fst x))" and "0 < B" and "\<not> (off \<le> a \<and> a < off + B * MIN_PAGE_SIZE)"
  shows "rights_after p a (snd (serve KI st po off (B * MIN_PAGE_SIZE) c q)) r = r"
  using assms
proof (induction q arbitrary: c)
  case (Cons x q)
  obtain k w nd where x: "x = (k, w, nd)" by (cases x)
  have z: "sized B (KI k)" using Cons.prems(1) [of x] by (simp add: x)
  show ?case
  proof (cases w)
    case True
    then show ?thesis using Cons.prems(3) give_write_outside [where KI = KI and k = k, OF z Cons.prems(2,3)]
      by (simp add: x split_beta lock_outside)
  next
    case False
    have "rights_after p a (snd (serve KI st po off (B * MIN_PAGE_SIZE) (Readers (insert k (readers c))) q)) r = r"
      using Cons.IH [of "Readers (insert k (readers c))"] Cons.prems by simp
    then show ?thesis using False Cons.prems(3)
      by (simp add: x give_read_def split_beta data_outside [where KI = KI and k = k, OF z Cons.prems(2,3)])
  qed
qed simp

lemma page_act_outside:
  assumes q: "\<And>k. k \<in> involved c \<Longrightarrow> sized B (KI k)" and k: "sized B (KI (op_kernel x))" and B: "0 < B" and a: "\<not> (off \<le> a \<and> a < off + B * MIN_PAGE_SIZE)"
  shows "rights_after p a (snd (page_act KI st po off (B * MIN_PAGE_SIZE) x c)) r = r"
proof -
  have wait: "rights_after p a (snd (a_wait KI po off (B * MIN_PAGE_SIZE) w y c)) r = r" for w y by (simp add: a_wait_def lock_outside [OF a])
  have again: "rights_after p a (a_again KI st off (B * MIN_PAGE_SIZE) k nd) r = r" if "sized B (KI k)" for k nd
    using a by (simp add: a_again_def data_outside [where KI = KI and k = k, OF that B a] lock_outside)
  show ?thesis
  proof (cases x)
    case (P_read k nd)
    then have z: "sized B (KI k)" using k by simp
    show ?thesis using wait again [OF z] a unfolding P_read
      by (cases "acc c") (auto simp: a_read_def give_read_def data_outside [where KI = KI and k = k, OF z B a])
  next
    case (P_write k nd)
    then have z: "sized B (KI k)" using k by simp
    show ?thesis using wait again [OF z] give_write_outside [where KI = KI and k = k, OF z B a] unfolding P_write
      by (cases "acc c") (auto simp: a_write_def split_beta)
  next
    case (P_release k)
    then show ?thesis using serve_outside [of "wq c" B KI off a p st po Free r] q B a by (auto simp: a_release_def involved_def)
  qed
qed

text \<open>The operations keep the rights of the ports justified.\<close>

lemma page_act_rights:
  assumes ok: "page_ok B s c" and q: "\<And>k. k \<in> involved c \<Longrightarrow> sized B (KI k)" and z: "sized B (KI (op_kernel x))" and B: "0 < B"
    and a: "off \<le> a" "a < off + B * MIN_PAGE_SIZE" and J: "justified KI (acc c) (wq c) p r"
    and rel: "\<And>k. x = P_release k \<Longrightarrow> p = request_port (KI k) \<Longrightarrow> r = NoAccess"
  shows "justified KI (acc (fst (page_act KI st po off (B * MIN_PAGE_SIZE) x c))) (wq (fst (page_act KI st po off (B * MIN_PAGE_SIZE) x c))) p
     (rights_after p a (snd (page_act KI st po off (B * MIN_PAGE_SIZE) x c)) r)"
proof -
  have wait: "justified KI (acc (fst (a_wait KI po off (B * MIN_PAGE_SIZE) w y c))) (wq (fst (a_wait KI po off (B * MIN_PAGE_SIZE) w y c))) p
      (rights_after p a (snd (a_wait KI po off (B * MIN_PAGE_SIZE) w y c)) r)" if "acc c = Writer w" for w y
    using J a that by (auto simp: a_wait_def justified_def lock_rights)
  have again: "justified KI (acc c) (wq c) p (rights_after p a (a_again KI st off (B * MIN_PAGE_SIZE) k nd) r)"
    if "sized B (KI k)" "acc c = Writer k \<and> wq c = []" for k nd
    using J a that by (auto simp: a_again_def data_rights [where KI = KI and k = k, OF that(1) B] lock_rights justified_def)
  have rd: "readers (acc c) \<subseteq> {..<32}" using ok by (auto simp: page_ok_def known_def)
  have qu: "unwritten (acc c) \<Longrightarrow> wq c = []" using ok by (cases "acc c") (auto simp: page_ok_def)
  show ?thesis
  proof (cases x)
    case (P_read k nd)
    then have z: "sized B (KI k)" using z by simp
    have "justified KI (Readers (insert k (readers (acc c)))) (wq c) p (rights_after p a (data_msgs KI st k off SUPPLY_READ) r)" if "unwritten (acc c)"
      using J a that by (cases "acc c") (auto simp: data_rights [where KI = KI and k = k, OF z B] justified_def)
    then show ?thesis using wait again [OF z] J qu unfolding P_read
      by (cases "acc c") (auto simp: a_read_def give_read_def insert_absorb)
  next
    case (P_write k nd)
    then have z: "sized B (KI k)" using z by simp
    have "justified KI (Writer k) (wq c) p (rights_after p a (snd (give_write KI st off (B * MIN_PAGE_SIZE) k nd (acc c))) r)" if "unwritten (acc c)"
      unfolding give_write_rights [where KI = KI and k = k, OF z B a that rd J] qu [OF that] by (simp add: justified_def)
    moreover have "fst (give_write KI st off (B * MIN_PAGE_SIZE) k nd (acc c)) = Writer k" by (simp add: give_write_def)
    moreover have "justified KI (acc c) (map (upgrade k nd) (wq c)) p r" using J by (simp add: justified_def)
    ultimately show ?thesis using wait again [OF z] unfolding P_write
      by (cases "acc c") (auto simp: a_write_def split_beta)
  next
    case (P_release k)
    show ?thesis
    proof (cases "acc c = Writer k")
      case False
      then show ?thesis using J by (simp add: P_release a_release_def)
    next
      case True
      then have "r = NoAccess" using J rel [OF P_release] by (cases r) (auto simp: justified_def)
      then have "justified KI Free [] p r" by (simp add: justified_def)
      moreover have "all_known B s Free (wq c)" using ok by (simp add: all_known_def page_ok_def)
      ultimately show ?thesis using serve_rights [of B s Free "wq c" KI off a p r st po] q B a True by (auto simp: P_release a_release_def involved_def)
    qed
  qed
qed

end
