(* ===== verification/Mach_Events.thy ===== *)
theory Mach_Events
  imports Mach_Prelude
begin

text \<open>
  The interface of the servers of the release, whose main loops handle one message after another:
  every admissible sequence of events is answered, and what a client sees of its own object changes
  by events for that object only.
\<close>

section \<open>Servers of events\<close>

text \<open>
  A server answers events that are admissible in its state: \<open>good\<close> says so of a whole sequence of
  events, and \<open>run\<close> handles one.  The invariant may mention ghost data.
\<close>

locale event_server =
  fixes inv :: "'s \<Rightarrow> 'a \<Rightarrow> bool" and ok :: "'s \<Rightarrow> 'v \<Rightarrow> bool" and step :: "'v \<Rightarrow> 's \<Rightarrow> 's option"
    and run :: "'v list \<Rightarrow> 's \<Rightarrow> 's option" and good :: "'v list \<Rightarrow> 's \<Rightarrow> bool"
  assumes answers: "inv s a \<Longrightarrow> ok s v \<Longrightarrow> \<exists>s' a'. step v s = Some s' \<and> inv s' a'"
    and run_Nil: "run [] s = Some s" and run_Cons: "run (v # vs) s = Option.bind (step v s) (run vs)"
    and good_Cons: "good (v # vs) s \<Longrightarrow> ok s v \<and> (\<forall>s'. step v s = Some s' \<longrightarrow> good vs s')"
begin

lemma run_answers: "inv s a \<Longrightarrow> good vs s \<Longrightarrow> \<exists>s' a'. run vs s = Some s' \<and> inv s' a'"
proof (induction vs arbitrary: s a)
  case Nil
  then show ?case by (auto simp: run_Nil)
next
  case (Cons v vs)
  obtain s1 a1 where "step v s = Some s1" "inv s1 a1" using answers [OF Cons.prems(1)] good_Cons [OF Cons.prems(2)] by blast
  then show ?case using Cons.IH [of s1 a1] good_Cons [OF Cons.prems(2)] by (simp add: run_Cons)
qed

end

section \<open>Servers of objects\<close>

text \<open>
  A server that keeps objects for clients: an event changes what there is to see of an object only
  when it is an event for that object.
\<close>

locale object_server = event_server +
  fixes client :: "'s \<Rightarrow> 'c \<Rightarrow> bool" and view :: "'s \<Rightarrow> 'c \<Rightarrow> 'x" and own :: "'v \<Rightarrow> 'c \<Rightarrow> bool"
  assumes secluded: "inv s a \<Longrightarrow> ok s v \<Longrightarrow> step v s = Some s' \<Longrightarrow> client s c \<Longrightarrow> \<not> own v c \<Longrightarrow> client s' c \<and> view s' c = view s c"
begin

lemma run_secluded:
  "inv s a \<Longrightarrow> good vs s \<Longrightarrow> client s c \<Longrightarrow> \<forall>v\<in>set vs. \<not> own v c
     \<Longrightarrow> \<exists>s' a'. run vs s = Some s' \<and> inv s' a' \<and> client s' c \<and> view s' c = view s c"
proof (induction vs arbitrary: s a)
  case Nil
  then show ?case by (auto simp: run_Nil)
next
  case (Cons v vs)
  note g = good_Cons [OF Cons.prems(2)]
  obtain s1 a1 where s1: "step v s = Some s1" "inv s1 a1" using answers [OF Cons.prems(1)] g by blast
  have "client s1 c \<and> view s1 c = view s c" using secluded [OF Cons.prems(1) _ s1(1) Cons.prems(3)] g Cons.prems(4) by simp
  then show ?case using Cons.IH [OF s1(2)] g s1(1) Cons.prems(4) by (simp add: run_Cons)
qed

end

end
