(* ===== verification/Netmem_Runs.thy ===== *)
theory Netmem_Runs
  imports Netmem_Coherence Mach_Events
begin

text \<open>
  Runs of an object: sequences of messages of kernels that name pages by their offsets and report a
  completed lock only after they have been asked for the page.
\<close>

section \<open>Coherence is kept\<close>

definition coherent :: "nat \<Rightarrow> netobj \<Rightarrow> (nat \<Rightarrow> apage) \<Rightarrow> bool" where
  "coherent B s A \<longleftrightarrow> (\<forall>p a. a < object_size s \<longrightarrow>
     justified (kerninfo s) (acc (A (a div (B * MIN_PAGE_SIZE)))) (wq (A (a div (B * MIN_PAGE_SIZE)))) p (rights s p a))"

text \<open>A kernel reports a completed lock when its last message on the page took its rights.\<close>

fun answered :: "netobj \<Rightarrow> nm_event \<Rightarrow> bool" where
  "answered s (Lock_completed p off len) \<longleftrightarrow> (\<forall>a\<in>{off..<off + len}. rights s p a = NoAccess)"
| "answered s v \<longleftrightarrow> True"

lemma in_page:
  assumes "0 < B"
  shows "a div (B * MIN_PAGE_SIZE) = g \<longleftrightarrow> page_offset B g \<le> a \<and> a < page_offset B g + B * MIN_PAGE_SIZE"
proof -
  let ?n = "B * MIN_PAGE_SIZE"
  have n: "0 < ?n" using assms by (simp add: MIN_PAGE_SIZE_def)
  have "a div ?n = g \<longleftrightarrow> g * ?n \<le> a \<and> a < Suc g * ?n"
    using n by (metis div_nat_eqI dividend_less_div_times div_times_less_eq_dividend mult.commute mult_Suc add.commute)
  then show ?thesis by (simp add: page_offset_def mult.assoc add.commute)
qed

lemma release_sender:
  assumes "decode B s v = Some (g, P_release k)" and "event_ok B s v" and "nm_inv B s A"
  shows "\<exists>p. v = Lock_completed p (page_offset B g) (B * MIN_PAGE_SIZE) \<and> p = request_port (kerninfo s k)"
proof (cases v)
  case (Lock_completed p off len)
  then have k: "sender page_size s p off len = Some k" "g = off div (B * MIN_PAGE_SIZE)" using assms(1) by auto
  note D = senderD [OF k(1)]
  have "page_size (kerninfo s k) = B * MIN_PAGE_SIZE" using assms(3) D(1-3) by (simp add: nm_inv_def kernels_ok_def sized_def)
  moreover have "page_offset B g = off" using assms(2) k(2) Lock_completed by (simp add: page_offset_def mult.assoc)
  ultimately show ?thesis using D Lock_completed by auto
qed (use assms(1) in \<open>auto split: if_splits\<close>)

lemma coherent_step:
  assumes I: "nm_inv B s A" and C: "coherent B s A" and S: "stepped B s A v s' A'" and ok: "event_ok B s v" and ans: "answered s v"
  shows "coherent B s' A'"
proof (cases "decode B s v")
  case None
  then obtain ms where ms: "A' = A" "sent s' = sent s @ ms" "harmless ms" using S by (auto simp: stepped_def)
  have o': "object_size s' = object_size s" using S by (simp add: stepped_def)
  have ki: "request_port (kerninfo s' k) = request_port (kerninfo s k)" if "g < npages B s" "k \<in> involved (A g)" for g k
    using S I that by (auto simp: stepped_def nm_inv_def)
  have "justified (kerninfo s') (acc (A g)) (wq (A g)) p (rights s' p a)" if a: "a < object_size s" and g: "g = a div (B * MIN_PAGE_SIZE)" for p a g
  proof -
    have r: "rights s' p a = rights s p a" using rights_append [OF ms(2)] harmless_rights [OF ms(3)] by simp
    have "justified (kerninfo s) (acc (A g)) (wq (A g)) p (rights s p a)" using C a g by (simp add: coherent_def)
    moreover have "request_port (kerninfo s' k) = request_port (kerninfo s k)" if "acc (A g) = Writer k \<or> k \<in> readers (acc (A g))" for k
      using ki [of g k] page_number [OF I a] g that by (auto simp: involved_def)
    ultimately show ?thesis unfolding r by (auto simp: justified_def)
  qed
  then show ?thesis by (simp add: coherent_def o' ms(1))
next
  case (Some gx)
  obtain g x where gx: "gx = (g, x)" by (cases gx)
  define X where "X = page_act (kerninfo s) (storage s) (paging_object s) (page_offset B g) (B * MIN_PAGE_SIZE) x (A g)"
  have X: "A' = A(g := fst X)" "sent s' = sent s @ snd X" "g < npages B s" "op_kernel x < 32" "request_port (kerninfo s (op_kernel x)) \<noteq> 0"
      "kerninfo s' = kerninfo s" "object_size s' = object_size s"
    using S Some gx by (simp_all add: stepped_def Let_def X_def)
  have B: "0 < B" using I by (simp add: nm_inv_def)
  obtain R fs where R: "object_rep B (npages B s) s A R fs" using I by (auto simp: nm_inv_def)
  have pok: "page_ok B s (A g)" by (rule object_repD(2) [OF R X(3)])
  have kn: "k < 32" if "k \<in> involved (A g)" for k using pok that by (auto simp: page_ok_def involved_def known_def)
  have z: "sized B (kerninfo s k)" if "k \<in> involved (A g)" for k using I X(3) kn that by (auto simp: nm_inv_def kernels_ok_def)
  have zk: "sized B (kerninfo s (op_kernel x))" using I X(4,5) by (simp add: nm_inv_def kernels_ok_def)
  have "justified (kerninfo s) (acc (A' h)) (wq (A' h)) p (rights s' p a)" if a: "a < object_size s" and h: "h = a div (B * MIN_PAGE_SIZE)" for p a h
  proof -
    have J: "justified (kerninfo s) (acc (A h)) (wq (A h)) p (rights s p a)" using C a h by (simp add: coherent_def)
    show ?thesis
    proof (cases "h = g")
      case True
      then have pa: "page_offset B g \<le> a" "a < page_offset B g + B * MIN_PAGE_SIZE" using in_page [OF B, of a g] h by auto
      have rel: "rights s p a = NoAccess" if "x = P_release k" "p = request_port (kerninfo s k)" for k
        using release_sender [of B s v g k A] Some gx ok I ans that pa by auto
      show ?thesis unfolding rights_append [OF X(2)] X(1) X_def True
        using page_act_rights [where KI = "kerninfo s" and x = x, OF pok z zk B pa J [unfolded True], of "storage s" "paging_object s"] rel by simp
    next
      case False
      then have "\<not> (page_offset B g \<le> a \<and> a < page_offset B g + B * MIN_PAGE_SIZE)" using in_page [OF B, of a g] h by auto
      then have "rights_after p a (snd X) (rights s p a) = rights s p a" unfolding X_def by (intro page_act_outside [where KI = "kerninfo s" and x = x, OF z zk B])
      then show ?thesis unfolding rights_append [OF X(2)] X(1) using J False by simp
    qed
  qed
  then show ?thesis by (simp add: coherent_def X)
qed

section \<open>The object as a server of events\<close>

fun good_run :: "nat \<Rightarrow> nm_env \<Rightarrow> nm_event list \<Rightarrow> netobj \<Rightarrow> bool" where
  "good_run B e [] s \<longleftrightarrow> True"
| "good_run B e (v # vs) s \<longleftrightarrow> event_ok B s v \<and> answered s v \<and> (case nm_step e v s of None \<Rightarrow> True | Some s' \<Rightarrow> good_run B e vs s')"

interpretation nm: event_server "\<lambda>s A. heap_fresh e \<and> nm_inv B s A \<and> coherent B s A" "\<lambda>s v. event_ok B s v \<and> answered s v" "nm_step e" "nm_run e" "good_run B e" for B e
proof
  fix s A v assume I: "heap_fresh e \<and> nm_inv B s A \<and> coherent B s A" and ok: "event_ok B s v \<and> answered s v"
  then obtain s' A' where S: "nm_step e v s = Some s'" "stepped B s A v s' A'" using event_stepped [of B s A e v] by blast
  then have "nm_inv B s' A'" "coherent B s' A'" using coherent_step [OF _ _ S(2)] I ok by (auto simp: stepped_def)
  then show "\<exists>s' A'. nm_step e v s = Some s' \<and> heap_fresh e \<and> nm_inv B s' A' \<and> coherent B s' A'" using S I by blast
qed auto

end
