(* ===== verification/Netmem_Server.thy ===== *)
theory Netmem_Server
  imports Netmem_Runs
begin

text \<open>
  The server proper, \<open>mach/etc/netmemoryserver/netmemory.c\<close>: the creation and destruction of
  objects, the registry of ports whose death is awaited, and the statistics.
\<close>

unbundle bit_operations_syntax

section \<open>Creation\<close>

text \<open>The outcomes of the system calls, and the contents of the memory \<open>malloc\<close> returns.\<close>

record cover_env =
  vm_page_size :: nat
  malloc_ok :: bool
  new_paging :: "nat option"
  new_control :: "nat option"
  pad_ok :: bool
  alloc_ok :: bool
  copy_ok :: bool
  faults_ok :: bool
  calloc_ok :: bool
  junk_object :: netobj

definition no_faults :: fault_info where
  "no_faults = \<lparr>read_faults = 0, write_faults = 0, protection_faults = 0\<rparr>"

text \<open>What \<open>netmemory_cover\<close> holds while it runs, for the error exits.\<close>

datatype resource = Object | Paging_port | Control_port | Client_data | Padding | Storage | Fault_array | Min_pages | Thread

datatype netmemory_return = NETMEMORY_SUCCESS | NETMEMORY_INVALID_ARGUMENT | NETMEMORY_RESOURCE_SHORTAGE | VM_COPY_FAILED

definition round_page :: "nat \<Rightarrow> nat \<Rightarrow> nat" where
  "round_page ps n = round_down (u32 (n + ps - 1)) ps"

definition cover_size :: "cover_env \<Rightarrow> bool \<Rightarrow> nat \<Rightarrow> nat" where
  "cover_size c has_data n = (if has_data \<and> n AND (vm_page_size c - 1) \<noteq> 0 then round_page (vm_page_size c) n else n)"

definition round_object :: "nat \<Rightarrow> nat" where
  "round_object n = (if n AND (MAX_PAGE_SIZE - 1) \<noteq> 0 then u32 (push_bit MAX_PAGE_SHIFT (1 + drop_bit MAX_PAGE_SHIFT n)) else n)"

text \<open>The error exits, from \<open>e1\<close> to \<open>e5\<close>; \<open>e4\<close> gives back the storage, with its padding.\<close>

definition exit_e1 :: "resource list \<Rightarrow> resource list" where "exit_e1 held = removeAll Object held"
definition exit_e2 :: "resource list \<Rightarrow> resource list" where "exit_e2 held = exit_e1 (removeAll Paging_port held)"
definition exit_e3 :: "resource list \<Rightarrow> resource list" where "exit_e3 held = exit_e2 (removeAll Control_port held)"
definition exit_e4 :: "resource list \<Rightarrow> resource list" where
  "exit_e4 held = exit_e3 (filter (\<lambda>r. r \<noteq> Client_data \<and> r \<noteq> Padding \<and> r \<noteq> Storage) held)"
definition exit_e5 :: "resource list \<Rightarrow> resource list" where "exit_e5 held = exit_e4 (removeAll Fault_array held)"

text \<open>
  The storage of the object: the client's data, padded or copied, or fresh memory.  The first result
  is the code with which the exit \<open>e3\<close> is taken, if it is.
\<close>

definition cover_storage :: "cover_env \<Rightarrow> bool \<Rightarrow> nat \<Rightarrow> nat \<Rightarrow> resource list \<Rightarrow> netmemory_return option \<times> resource list" where
  "cover_storage c has_data old_size size2 held =
     (if has_data then
        (if old_size < size2 then
           (if pad_ok c then (None, Padding # held)
            else if \<not> alloc_ok c then (Some NETMEMORY_RESOURCE_SHORTAGE, held)
            else if \<not> copy_ok c then (Some VM_COPY_FAILED, Storage # held)
            else (None, Storage # removeAll Client_data held))
         else (None, held))
      else if alloc_ok c then (None, Storage # held) else (Some NETMEMORY_RESOURCE_SHORTAGE, held))"

text \<open>The contents of the storage: the data of the client, or zeroes.\<close>

definition cover_bytes :: "nat list option \<Rightarrow> nat \<Rightarrow> nat" where
  "cover_bytes data = (case data of None \<Rightarrow> (\<lambda>a. 0) | Some d \<Rightarrow> (\<lambda>a. if a < length d then d ! a else 0))"

text \<open>The fields of the new object that are set; the others are what \<open>malloc\<close> returned.
  \<open>req_heap\<close> and \<open>sent\<close>, the requests in use and the messages sent, belong to the model only and start empty.\<close>

definition cover_object :: "cover_env \<Rightarrow> nat \<Rightarrow> nat list option \<Rightarrow> nat \<Rightarrow> netobj" where
  "cover_object c pp object_data size2 = (junk_object c)\<lparr>paging_object := pp, storage := cover_bytes object_data, req_heap := {}, sent := [],
     faults_per_page := (\<lambda>j. if j < drop_bit MIN_PAGE_SHIFT size2 then no_faults else faults_per_page (junk_object c) j),
     object_size := size2,
     kerninfo := (\<lambda>k. if k < MAX_NUM_KERNELS then (kerninfo (junk_object c) k)\<lparr>request_port := 0\<rparr> else kerninfo (junk_object c) k)\<rparr>"

text \<open>The code returned, what is still held, and on success the object and its control port.\<close>

definition netmemory_cover :: "cover_env \<Rightarrow> nat list option \<Rightarrow> nat \<Rightarrow> netmemory_return \<times> resource list \<times> (netobj \<times> nat) option" where
  "netmemory_cover c object_data osize =
     (let has = (object_data \<noteq> None); h0 = (if has then [Client_data] else []) in
      if osize = 0 then (NETMEMORY_INVALID_ARGUMENT, h0, None)
      else
        (let old_size = cover_size c has osize; size2 = round_object old_size; h1 = Object # h0 in
         if \<not> malloc_ok c then (NETMEMORY_RESOURCE_SHORTAGE, h0, None)
         else case new_paging c of None \<Rightarrow> (NETMEMORY_RESOURCE_SHORTAGE, exit_e1 h1, None)
         | Some pp \<Rightarrow>
           (case new_control c of None \<Rightarrow> (NETMEMORY_RESOURCE_SHORTAGE, exit_e2 (Paging_port # h1), None)
            | Some cp \<Rightarrow>
              (case cover_storage c has old_size size2 (Control_port # Paging_port # h1) of
                 (Some code, h2) \<Rightarrow> (code, exit_e3 h2, None)
               | (None, h2) \<Rightarrow>
                 if \<not> faults_ok c then (NETMEMORY_RESOURCE_SHORTAGE, exit_e4 h2, None)
                 else (case Object_create (calloc_ok c) (cover_object c pp object_data size2) of
                         None \<Rightarrow> (NETMEMORY_RESOURCE_SHORTAGE, exit_e5 (Fault_array # h2), None)
                       | Some ob \<Rightarrow> (NETMEMORY_SUCCESS, Thread # Min_pages # Fault_array # h2, Some (ob, cp)))))))"

definition netmemory_create :: "cover_env \<Rightarrow> nat \<Rightarrow> netmemory_return \<times> resource list \<times> (netobj \<times> nat) option" where
  "netmemory_create c osize = netmemory_cover c None osize"

section \<open>The lists of the server\<close>

record registry_t =
  reg_object :: ptr
  reg_kernel :: nat
  reg_port :: nat
  reg_next :: ptr

text \<open>
  The objects are at addresses; \<open>posted\<close> are the messages \<open>port_death\<close> and \<open>object_thread_terminate\<close>
  the server sends to the threads of the objects.
\<close>

datatype post = Post_death nat ptr nat nat | Post_terminate nat

record nm_server =
  registry :: ptr
  unregistry :: ptr
  reg :: "ptr \<Rightarrow> registry_t"
  reg_heap :: "ptr set"
  object_list :: ptr
  obj :: "ptr \<Rightarrow> netobj"
  obj_control :: "ptr \<Rightarrow> nat"
  obj_next :: "ptr \<Rightarrow> ptr"
  obj_heap :: "ptr set"
  posted :: "post list"

text \<open>The loops that search with a pointer to the node before.\<close>

partial_function (option) find_prev :: "(ptr \<Rightarrow> ptr) \<Rightarrow> (ptr \<Rightarrow> bool) \<Rightarrow> ptr \<Rightarrow> ptr \<Rightarrow> (ptr \<times> ptr) option" where
  "find_prev nx P prev p = (if p = 0 then Some (prev, 0) else if P p then Some (prev, p) else find_prev nx P p (nx p))"

definition set_reg_next :: "ptr \<Rightarrow> ptr \<Rightarrow> nm_server \<Rightarrow> nm_server" where
  "set_reg_next r n s = s\<lparr>reg := (reg s)(r := (reg s r)\<lparr>reg_next := n\<rparr>)\<rparr>"

definition free_reg :: "ptr \<Rightarrow> nm_server \<Rightarrow> nm_server" where
  "free_reg r s = s\<lparr>reg_heap := reg_heap s - {r}\<rparr>"

definition post :: "post \<Rightarrow> nm_server \<Rightarrow> nm_server" where
  "post m s = s\<lparr>posted := posted s @ [m]\<rparr>"

definition port_death_register :: "nm_env \<Rightarrow> ptr \<Rightarrow> nat \<Rightarrow> nat \<Rightarrow> nm_server \<Rightarrow> nm_server option" where
  "port_death_register e object kn port s =
     Option.bind (find_prev (\<lambda>r. reg_next (reg s r)) (\<lambda>r. reg_port (reg s r) = port) 0 (unregistry s))
       (\<lambda>(r_prev, r).
          if r \<noteq> 0 then
            (let s1 = post (Post_death (paging_object (obj s object)) object kn port) s;
                 s2 = (if r_prev \<noteq> 0 then set_reg_next r_prev (reg_next (reg s1 r)) s1 else s1\<lparr>unregistry := reg_next (reg s1 r)\<rparr>)
             in Some (free_reg r s2))
          else
            (let r = nm_malloc e (reg_heap s)
             in Some (s\<lparr>reg_heap := insert r (reg_heap s),
                  reg := (reg s)(r := \<lparr>reg_object = object, reg_kernel = kn, reg_port = port, reg_next = registry s\<rparr>), registry := r\<rparr>)))"

text \<open>When the port is that of the first registered kernel, \<open>unregistry\<close> is assigned, not \<open>registry\<close>.\<close>

definition handle_port_death :: "nm_env \<Rightarrow> nat \<Rightarrow> nm_server \<Rightarrow> nm_server option" where
  "handle_port_death e port s =
     Option.bind (find_prev (\<lambda>r. reg_next (reg s r)) (\<lambda>r. reg_port (reg s r) = port) 0 (registry s))
       (\<lambda>(r_prev, r).
          if r \<noteq> 0 then
            (let s1 = post (Post_death (paging_object (obj s (reg_object (reg s r)))) (reg_object (reg s r)) (reg_kernel (reg s r)) port) s;
                 s2 = (if r_prev \<noteq> 0 then set_reg_next r_prev (reg_next (reg s1 r)) s1 else s1\<lparr>unregistry := reg_next (reg s1 r)\<rparr>)
             in Some (free_reg r s2))
          else
            (let r = nm_malloc e (reg_heap s)
             in Some (s\<lparr>reg_heap := insert r (reg_heap s), reg := (reg s)(r := (reg s r)\<lparr>reg_port := port, reg_next := unregistry s\<rparr>), unregistry := r\<rparr>)))"

text \<open>\<open>Object_destroy\<close> and \<open>free_object\<close> give everything of the object back; \<open>None\<close> is a search that does not end.\<close>

definition netmemory_destroy :: "nat \<Rightarrow> nm_server \<Rightarrow> (netmemory_return \<times> nm_server) option" where
  "netmemory_destroy control_port s =
     map_option (\<lambda>(previous_object, object).
       if object = 0 then (NETMEMORY_INVALID_ARGUMENT, s)
       else (let s1 = (if previous_object \<noteq> 0 then s\<lparr>obj_next := (obj_next s)(previous_object := obj_next s object)\<rparr>
                       else s\<lparr>object_list := obj_next s object\<rparr>);
                 s2 = post (Post_terminate (paging_object (obj s1 object))) s1
             in (NETMEMORY_SUCCESS, s2\<lparr>obj_heap := obj_heap s2 - {object}\<rparr>)))
       (find_prev (obj_next s) (\<lambda>x. obj_control s x = control_port) 0 (object_list s))"

definition netmemory_cache :: "nat \<Rightarrow> netmemory_return \<times> nat" where
  "netmemory_cache paging = (NETMEMORY_SUCCESS, paging)"

definition add_totals :: "fault_info \<Rightarrow> fault_info \<Rightarrow> fault_info" where
  "add_totals t f = \<lparr>read_faults = s32 (read_faults t + read_faults f), write_faults = s32 (write_faults t + write_faults f),
     protection_faults = s32 (protection_faults t + protection_faults f)\<rparr>"

definition paging_object_server_statistics :: "nm_server \<Rightarrow> fault_info option" where
  "paging_object_server_statistics s =
     fold_from (\<lambda>t. obj_next s) (\<lambda>x t. add_totals t (faults_total (obj s x))) (object_list s) no_faults"

end
