(* ===== verification/Netmem_Props.thy ===== *)
theory Netmem_Props
  imports Netmem_Server
begin

text \<open>What the network shared memory server guarantees to the kernels.\<close>

section \<open>A new object\<close>

definition free_page :: apage where
  "free_page = \<lparr>acc = Free, wq = []\<rparr>"

text \<open>The memory \<open>malloc\<close> returned for the object has no request in its lists, and nothing has been sent.\<close>

definition blank :: "netobj \<Rightarrow> bool" where
  "blank s \<longleftrightarrow> free_requests s = 0 \<and> req_heap s = {} \<and> sent s = []"

definition new_object :: "nat \<Rightarrow> netobj \<Rightarrow> bool" where
  "new_object B s \<longleftrightarrow> blank s \<and> (B = 1 \<or> B = 2) \<and> 8192 dvd object_size s \<and> object_size s < 2 ^ 32
     \<and> (\<forall>k<32. request_port (kerninfo s k) = 0) \<and> (\<forall>j<object_size s div 4096. min_pages s j = no_page)"

lemma free_page_rep:
  assumes "0 < B" and "\<And>j. j \<in> set (grp B g) \<Longrightarrow> min_pages s j = no_page"
  shows "page_rep B g s free_page [] \<and> page_ok B s free_page"
  using assms first_group [OF assms(1), of g]
  by (auto simp: page_rep_def page_ok_def free_page_def queue_rep_def use_rep_def wait_rep_def no_page_def)

lemma new_object_inv:
  assumes "new_object B s"
  shows "nm_inv B s (\<lambda>g. free_page)" and "coherent B s (\<lambda>g. free_page)"
proof -
  have B: "0 < B" "B * MIN_PAGE_SIZE dvd object_size s"
    using assms dvd_trans [of 4096 8192 "object_size s"] by (auto simp: new_object_def MIN_PAGE_SIZE_def)
  have "object_rep B (npages B s) s (\<lambda>g. free_page) (\<lambda>g. []) []"
    unfolding object_rep_def
  proof (intro conjI allI impI)
    fix g assume g: "g < npages B s"
    have "npages B s * B = object_size s div 4096"
      using B by (auto simp: npages_def MIN_PAGE_SIZE_def elim!: dvdE)
    then have "Suc g * B \<le> object_size s div 4096" using mult_le_mono1 [of "Suc g" "npages B s" B] g by simp
    then have "min_pages s j = no_page" if "j \<in> set (grp B g)" for j using that assms by (simp add: group_mem new_object_def)
    then show "page_rep B g s free_page []" "page_ok B s free_page" using free_page_rep [OF B(1)] by blast+
  next
    show "requests_ok (npages B s) s (\<lambda>g. []) []" using assms by (simp add: requests_ok_def new_object_def blank_def)
  qed
  moreover have "kernels_ok B s" using assms by (simp add: new_object_def kernels_ok_def)
  ultimately show "nm_inv B s (\<lambda>g. free_page)" using B assms by (auto simp: nm_inv_def new_object_def involved_def free_page_def)
  have "rights s p a = NoAccess" for p a using assms by (simp add: rights_def new_object_def blank_def)
  then show "coherent B s (\<lambda>g. free_page)" by (simp add: coherent_def justified_def)
qed

section \<open>Coherence\<close>



text \<open>An object of four minimal pages, and an environment whose \<open>malloc\<close> returns fresh addresses.\<close>

definition ex_env :: nm_env where
  "ex_env = \<lparr>nm_malloc = (\<lambda>H. Suc (Max (insert 0 H))), server_port = 1, junk_shift = 0, junk_first = 0, junk_last = 0, junk_use = USE_NONE\<rparr>"

definition ex_object :: netobj where
  "ex_object = \<lparr>storage = (\<lambda>a. 0), paging_object = 2, object_size = 16384, kerninfo = (\<lambda>k. \<lparr>request_port = 0, page_size = 0, real_page_size = 0\<rparr>),
     faults_per_page = (\<lambda>j. no_faults), faults_total = no_faults, min_pages = (\<lambda>j. no_page),
     req = (\<lambda>r. \<lparr>r_kernel = 0, first_page = 0, last_page = 0, follow = 0, sibling = 0, r_next = 0, r_count = 0, r_mark = 0\<rparr>),
     free_requests = 0, all_requests = 0, omark = 0, outstanding = (\<lambda>k m. 0), req_heap = {}, sent = []\<rparr>"

lemma ex_env_fresh: "heap_fresh ex_env"
  unfolding heap_fresh_def ex_env_def
proof (intro allI impI)
  fix H :: "ptr set" assume "finite H"
  then have "x \<le> Max (insert 0 H)" if "x \<in> H" for x using that by (intro Max_ge) auto
  then show "nm_malloc \<lparr>nm_malloc = \<lambda>H. Suc (Max (insert 0 H)), server_port = 1, junk_shift = 0, junk_first = 0, junk_last = 0, junk_use = USE_NONE\<rparr> H \<noteq> 0
      \<and> nm_malloc \<lparr>nm_malloc = \<lambda>H. Suc (Max (insert 0 H)), server_port = 1, junk_shift = 0, junk_first = 0, junk_last = 0, junk_use = USE_NONE\<rparr> H \<notin> H"
    by fastforce
qed

lemma ex_object_new: "new_object 1 ex_object" "new_object 2 ex_object"
  by (simp_all add: new_object_def blank_def ex_object_def)


lemma aligned_0 [simp]: "aligned s p 0"
  by (simp add: aligned_def split: option.splits)




section \<open>An object two kernels use\<close>

definition ex_shared :: netobj where
  "ex_shared = ex_object\<lparr>kerninfo := (\<lambda>k. if k = 0 then \<lparr>request_port = 5, page_size = 4096, real_page_size = 4096\<rparr>
     else if k = 1 then \<lparr>request_port = 6, page_size = 4096, real_page_size = 4096\<rparr> else \<lparr>request_port = 0, page_size = 0, real_page_size = 0\<rparr>)\<rparr>"

lemma ex_shared_inv: "nm_inv 1 ex_shared (\<lambda>g. free_page)"
  by (rule nm_inv_cong [OF new_object_inv(1) [OF ex_object_new(1)]])
     (auto simp: ex_shared_def ex_object_def kernels_ok_def sized_def MIN_PAGE_SIZE_def)

lemma ex_ports:
  assumes "kerninfo s = kerninfo ex_shared"
  shows "port_to_kernel s 5 = Some 0" "port_to_kernel s 6 = Some 1"
  by (simp_all add: port_to_kernel_def assms ex_shared_def MAX_NUM_KERNELS_def upt_rec)

lemma ex_sender:
  assumes "kerninfo s = kerninfo ex_shared" and "object_size s = 16384"
  shows "sender real_page_size s 5 0 4096 = Some 0" "sender real_page_size s 6 0 4096 = Some 1" "sender page_size s 5 0 4096 = Some 0"
  using ex_ports [OF assms(1)] by (simp_all add: sender_def assms misaligned_def) (simp_all add: ex_shared_def)

lemma ex_shared_sender: "sender real_page_size ex_shared 5 0 4096 = Some 0" "sender real_page_size ex_shared 6 0 4096 = Some 1"
  by (rule ex_sender; simp add: ex_shared_def ex_object_def)+

text \<open>The first kernel writes the first page, then the second one waits to read it.\<close>

definition ex_state :: "apage \<Rightarrow> netobj \<Rightarrow> bool" where
  "ex_state p s \<longleftrightarrow> nm_inv 1 s ((\<lambda>g. free_page)(0 := p)) \<and> coherent 1 s ((\<lambda>g. free_page)(0 := p)) \<and> kerninfo s = kerninfo ex_shared
     \<and> object_size s = 16384 \<and> storage s = (\<lambda>a. 0)"

lemma ex_shared_state: "ex_state free_page ex_shared"
proof -
  have e: "(\<lambda>g. free_page)(0 := free_page) = (\<lambda>g. free_page)" by auto
  have "rights ex_shared p a = NoAccess" for p a by (simp add: rights_def ex_shared_def ex_object_def)
  then have "coherent 1 ex_shared (\<lambda>g. free_page)" by (simp add: coherent_def justified_def)
  moreover have "object_size ex_shared = 16384" "storage ex_shared = (\<lambda>a. 0)" by (simp_all add: ex_shared_def ex_object_def)
  ultimately show ?thesis unfolding ex_state_def e using ex_shared_inv by blast
qed

lemma ex_state_step:
  assumes "ex_state p s" and "decode 1 s v = Some (0, x)" and "event_ok 1 s v" and "answered s v" and "store_after 1 s ((\<lambda>g. free_page)(0 := p)) v = storage s"
  shows "\<exists>s'. nm_step ex_env v s = Some s' \<and> ex_state (fst (page_act (kerninfo s) (storage s) (paging_object s) (page_offset 1 0) (1 * MIN_PAGE_SIZE) x p)) s'"
proof -
  obtain s' A' where S: "nm_step ex_env v s = Some s'" "stepped 1 s ((\<lambda>g. free_page)(0 := p)) v s' A'"
    using event_stepped [of 1 s "(\<lambda>g. free_page)(0 := p)" ex_env v] assms ex_env_fresh by (auto simp: ex_state_def)
  then show ?thesis using coherent_step [OF _ _ S(2)] assms by (auto simp: ex_state_def stepped_def Let_def)
qed

lemma ex_written: "\<exists>s. ex_state \<lparr>acc = Writer 0, wq = []\<rparr> s"
proof -
  have "decode 1 ex_shared (Data_request 5 0 4096 2) = Some (0, P_write 0 True)" using ex_shared_sender(1) by (simp add: VM_PROT_WRITE_def)
  from ex_state_step [OF ex_shared_state this] show ?thesis by (auto simp: a_write_def give_write_def free_page_def waiting_def)
qed

lemma ex_waiting: "\<exists>s. ex_state \<lparr>acc = Writer 0, wq = [(1, False, True)]\<rparr> s"
proof -
  obtain s where s: "ex_state \<lparr>acc = Writer 0, wq = []\<rparr> s" using ex_written by auto
  then have "decode 1 s (Data_request 6 0 4096 1) = Some (0, P_read 1 True)" using ex_sender(2) [of s] by (simp add: VM_PROT_WRITE_def ex_state_def)
  from ex_state_step [OF s this] show ?thesis by (auto simp: a_read_def a_wait_def waiting_def)
qed

section \<open>Refinement\<close>

text \<open>
  (C7) Every message of a kernel is answered and implements one operation of the page server on one
  page, or changes no page: the access and the queue of the page, the messages that are sent, and the
  stored data are those of the page server.
\<close>

theorem nm_message_refines:
  assumes "nm_inv B s A" and "heap_fresh e" and "event_ok B s v"
  shows "\<exists>s' A'. nm_step e v s = Some s' \<and> nm_inv B s' A' \<and> storage s' = store_after B s A v \<and> (case decode B s v of None \<Rightarrow> A' = A
     | Some (g, x) \<Rightarrow> (\<exists>ms. page_act (kerninfo s) (storage s) (paging_object s) (page_offset B g) (B * MIN_PAGE_SIZE) x (A g) = (A' g, ms)
         \<and> sent s' = sent s @ ms) \<and> (\<forall>h. h \<noteq> g \<longrightarrow> A' h = A h))"
proof -
  obtain s' A' where S: "nm_step e v s = Some s'" "stepped B s A v s' A'" using event_stepped [OF assms] by blast
  show ?thesis
  proof (cases "decode B s v")
    case None
    then show ?thesis using S by (auto simp: stepped_def)
  next
    case (Some gx)
    obtain g x where gx: "gx = (g, x)" by (cases gx)
    show ?thesis using S Some gx
      by (intro exI [of _ s'] exI [of _ A']) (auto simp: stepped_def Let_def intro: prod_eqI)
  qed
qed

theorem nm_message_refines_witness:
  "\<exists>s' A' ms. nm_step ex_env (Data_request 5 0 4096 2) ex_shared = Some s' \<and> acc (A' 0) = Writer 0 \<and> nm_inv 1 s' A' \<and> sent s' = sent ex_shared @ ms"
proof -
  have "decode 1 ex_shared (Data_request 5 0 4096 2) = Some (0, P_write 0 True)" using ex_shared_sender(1) by (simp add: VM_PROT_WRITE_def)
  then obtain s' A' ms where s': "nm_step ex_env (Data_request 5 0 4096 2) ex_shared = Some s'" "nm_inv 1 s' A'" "sent s' = sent ex_shared @ ms"
      "page_act (kerninfo ex_shared) (storage ex_shared) (paging_object ex_shared) (page_offset 1 0) (1 * MIN_PAGE_SIZE) (P_write 0 True) free_page = (A' 0, ms)"
    using nm_message_refines [OF ex_shared_inv ex_env_fresh, of "Data_request 5 0 4096 2"] by auto
  have "fst (page_act (kerninfo ex_shared) (storage ex_shared) (paging_object ex_shared) (page_offset 1 0) (1 * MIN_PAGE_SIZE) (P_write 0 True) free_page) = \<lparr>acc = Writer 0, wq = []\<rparr>"
    by (simp add: a_write_def free_page_def waiting_def give_write_def)
  then have "A' 0 = \<lparr>acc = Writer 0, wq = []\<rparr>" unfolding s'(4) by simp
  then show ?thesis using s' by (intro exI [of _ s'] exI [of _ A'] exI [of _ ms]) simp
qed

section \<open>The stored data\<close>



end
