(* ===== verification/Netmem_Service.thy ===== *)
theory Netmem_Service
  imports Netmem_Props "HOL-Library.Sublist"
begin

text \<open>
  The service of waiting kernels: queues are served in order, a writer that is waited for has been
  asked for its page, and the next kernel gets the data the writer has returned.
\<close>

section \<open>Order\<close>

text \<open>What a waiting kernel is sent when it is served: the data of the page, for reading or for writing.\<close>

fun grant_msgs :: "(nat \<Rightarrow> kernel_t) \<Rightarrow> (nat \<Rightarrow> nat) \<Rightarrow> nat \<Rightarrow> waiter \<Rightarrow> (nat \<times> pager_msg) list" where
  "grant_msgs KI st off (k, w, nd) = data_msgs KI st k off (if w then SUPPLY_ALL else SUPPLY_READ)"

abbreviation granted :: "(nat \<Rightarrow> kernel_t) \<Rightarrow> (nat \<Rightarrow> nat) \<Rightarrow> nat \<Rightarrow> waiter list \<Rightarrow> (nat \<times> pager_msg) list" where
  "granted KI st off q \<equiv> concat (map (grant_msgs KI st off) q)"

lemma serve_drops:
  assumes "distinct (map fst q)" and "readers a \<inter> fst ` set q = {}"
  shows "\<exists>n. wq (fst (serve KI st po off len a q)) = drop n q \<and> (q \<noteq> [] \<longrightarrow> 0 < n)
     \<and> subseq (granted KI st off (take n q)) (snd (serve KI st po off len a q))"
  using assms
proof (induction q arbitrary: a)
  case Nil
  show ?case by simp
next
  case (Cons x q)
  obtain k w nd where x: "x = (k, w, nd)" by (cases x)
  have k: "k \<notin> readers a" using Cons.prems(2) by (auto simp: x)
  show ?case
  proof (cases w)
    case True
    have "subseq (data_msgs KI st k off SUPPLY_ALL) (ls @ data_msgs KI st k off SUPPLY_ALL @ zs)" for ls zs
      by (simp add: list_emb_append2 list_emb_prefix)
    then show ?thesis using True k by (intro exI [of _ 1]) (simp add: x give_write_def split_beta)
  next
    case False
    let ?a = "Readers (insert k (readers a))"
    have "readers ?a \<inter> fst ` set q = {}" using Cons.prems by (auto simp: x)
    then obtain n where n: "wq (fst (serve KI st po off len ?a q)) = drop n q"
        "subseq (granted KI st off (take n q)) (snd (serve KI st po off len ?a q))" using Cons.IH [of ?a] Cons.prems(1) by (auto simp: x)
    then show ?thesis using False by (intro exI [of _ "Suc n"]) (simp add: x give_read_def split_beta list_emb_append_mono)
  qed
qed

lemma page_act_fifo:
  assumes "distinct (map fst (wq p))"
  shows "\<exists>n ys. map fst (wq (fst (page_act KI st po off len x p))) = drop n (map fst (wq p)) @ ys \<and> length ys \<le> 1
     \<and> subseq (granted KI st off (take n (wq p))) (snd (page_act KI st po off len x p))
     \<and> (\<forall>k. x = P_release k \<and> acc p = Writer k \<and> wq p \<noteq> [] \<longrightarrow> 0 < n)"
proof (cases x)
  case (P_read k nd)
  have "\<exists>ys. map fst (wq (fst (a_read KI st po off len k nd p))) = map fst (wq p) @ ys \<and> length ys \<le> 1"
    by (cases "acc p") (auto simp: a_read_def a_wait_def give_read_def)
  then show ?thesis using P_read by (auto intro: exI [of _ 0])
next
  case (P_write k nd)
  have "\<exists>ys. map fst (wq (fst (a_write KI st po off len k nd p))) = map fst (wq p) @ ys \<and> length ys \<le> 1"
    by (cases "acc p") (auto simp: a_write_def a_wait_def give_write_def comp_def)
  then show ?thesis using P_write by (auto intro: exI [of _ 0])
next
  case (P_release k)
  show ?thesis
  proof (cases "acc p = Writer k")
    case True
    obtain n where "wq (fst (serve KI st po off len Free (wq p))) = drop n (wq p)" "wq p \<noteq> [] \<longrightarrow> 0 < n"
        "subseq (granted KI st off (take n (wq p))) (snd (serve KI st po off len Free (wq p)))" using serve_drops [OF assms, of Free KI st po off len] by auto
    then show ?thesis using True P_release by (intro exI [of _ n] exI [of _ "[]"]) (simp add: a_release_def drop_map)
  next
    case False
    then show ?thesis using P_release by (intro exI [of _ 0] exI [of _ "[]"]) (simp add: a_release_def)
  qed
qed

lemma waiters_distinct: "nm_inv B s A \<Longrightarrow> g < npages B s \<Longrightarrow> distinct (map fst (wq (A g)))"
  unfolding nm_inv_def using object_repD(2) by (fastforce simp: page_ok_def)

text \<open>
  (C35) Waiting kernels are served in the order of their requests: a message takes kernels from the
  front of the queue of a page and adds at most one at its end; those it takes are sent the data of
  the page, for reading or for writing as they asked, in the same order; and when the writer of the
  page reports its lock completed the first waiting kernel is among them.
\<close>

theorem nm_fifo:
  assumes "nm_inv B s A" and "heap_fresh e" and "event_ok B s v"
  shows "\<exists>s' A' ms. nm_step e v s = Some s' \<and> nm_inv B s' A' \<and> sent s' = sent s @ ms
     \<and> (\<forall>g<npages B s. \<exists>n ys. map fst (wq (A' g)) = drop n (map fst (wq (A g))) @ ys \<and> length ys \<le> 1
          \<and> subseq (concat (map (grant_msgs (kerninfo s) (storage s) (page_offset B g)) (take n (wq (A g))))) ms
          \<and> (\<forall>k. decode B s v = Some (g, P_release k) \<and> acc (A g) = Writer k \<and> wq (A g) \<noteq> [] \<longrightarrow> 0 < n))"
proof -
  obtain s' A' where S: "nm_step e v s = Some s'" "stepped B s A v s' A'" using event_stepped [OF assms] by blast
  obtain ms where ms: "sent s' = sent s @ ms" using S(2) by (cases "decode B s v") (auto simp: stepped_def Let_def)
  have "\<exists>n ys. map fst (wq (A' g)) = drop n (map fst (wq (A g))) @ ys \<and> length ys \<le> 1
     \<and> subseq (granted (kerninfo s) (storage s) (page_offset B g) (take n (wq (A g)))) ms
     \<and> (\<forall>k. decode B s v = Some (g, P_release k) \<and> acc (A g) = Writer k \<and> wq (A g) \<noteq> [] \<longrightarrow> 0 < n)" if g: "g < npages B s" for g
  proof (cases "\<exists>x. decode B s v = Some (g, x)")
    case True
    then obtain x where x: "decode B s v = Some (g, x)" by blast
    let ?X = "page_act (kerninfo s) (storage s) (paging_object s) (page_offset B g) (B * MIN_PAGE_SIZE) x (A g)"
    have "A' g = fst ?X" "ms = snd ?X" using S(2) x ms by (simp_all add: stepped_def Let_def)
    then show ?thesis using page_act_fifo [OF waiters_distinct [OF assms(1) g], of "kerninfo s" "storage s" "paging_object s" "page_offset B g" "B * MIN_PAGE_SIZE" x] x by simp
  next
    case False
    then have "A' g = A g" using S(2) by (cases "decode B s v") (auto simp: stepped_def Let_def)
    then show ?thesis using False by (intro exI [of _ 0] exI [of _ "[]"]) auto
  qed
  then show ?thesis using S ms by (auto simp: stepped_def)
qed

theorem nm_fifo_witness:
  "\<exists>s s' A' ms n ys. ex_state \<lparr>acc = Writer 0, wq = [(1, False, True)]\<rparr> s \<and> nm_step ex_env (Lock_completed 5 0 4096) s = Some s' \<and> nm_inv 1 s' A'
     \<and> sent s' = sent s @ ms \<and> map fst (wq (A' 0)) = drop n [1] @ ys \<and> 0 < n
     \<and> subseq (granted (kerninfo s) (storage s) 0 (take n [(1, False, True)])) ms"
proof -
  let ?A = "(\<lambda>g. free_page)(0 := \<lparr>acc = Writer 0, wq = [(1, False, True)]\<rparr>)"
  obtain s where s: "ex_state \<lparr>acc = Writer 0, wq = [(1, False, True)]\<rparr> s" using ex_waiting by blast
  then have I: "nm_inv 1 s ?A" and d: "decode 1 s (Lock_completed 5 0 4096) = Some (0, P_release 0)" and g: "0 < npages 1 s"
    using ex_sender(3) [of s] by (auto simp: ex_state_def npages_def MIN_PAGE_SIZE_def)
  obtain s' A' ms where r: "nm_step ex_env (Lock_completed 5 0 4096) s = Some s'" "nm_inv 1 s' A'" "sent s' = sent s @ ms"
      "\<forall>g<npages 1 s. \<exists>n ys. map fst (wq (A' g)) = drop n (map fst (wq (?A g))) @ ys \<and> length ys \<le> 1
         \<and> subseq (granted (kerninfo s) (storage s) (page_offset 1 g) (take n (wq (?A g)))) ms
         \<and> (\<forall>k. decode 1 s (Lock_completed 5 0 4096) = Some (g, P_release k) \<and> acc (?A g) = Writer k \<and> wq (?A g) \<noteq> [] \<longrightarrow> 0 < n)"
    using nm_fifo [OF I ex_env_fresh, of "Lock_completed 5 0 4096"] by auto
  have "page_offset 1 0 = 0" by (simp add: page_offset_def)
  then obtain n ys where "map fst (wq (A' 0)) = drop n [1] @ ys" "0 < n" "subseq (granted (kerninfo s) (storage s) 0 (take n [(1, False, True)])) ms"
    using r(4) [rule_format, OF g] d by auto
  then show ?thesis using s r(1-3) by blast
qed

section \<open>Progress\<close>

lemma port_to_kernel_eq: "kernels_ok B s \<Longrightarrow> k < 32 \<Longrightarrow> request_port (kerninfo s k) \<noteq> 0 \<Longrightarrow> port_to_kernel s (request_port (kerninfo s k)) = Some k"
proof -
  assume a: "kernels_ok B s" "k < 32" "request_port (kerninfo s k) \<noteq> 0"
  have "request_port (kerninfo s j) \<noteq> request_port (kerninfo s k)" if "j < k" for j
    using a that unfolding kernels_ok_def by (metis less_trans nat_neq_iff)
  then show ?thesis using a(2) unfolding port_to_kernel_def MAX_NUM_KERNELS_def find_Some_iff by (intro exI [of _ k]) simp
qed

lemma writer_sender:
  assumes I: "nm_inv B s A" and g: "g < npages B s" and w: "acc (A g) = Writer k"
  shows "sender page_size s (request_port (kerninfo s k)) (page_offset B g) (B * MIN_PAGE_SIZE) = Some k"
proof -
  obtain R fs where R: "object_rep B (npages B s) s A R fs" using I by (auto simp: nm_inv_def)
  have k: "known B s k" using object_repD(2) [OF R g] w by (simp add: page_ok_def)
  have r: "request_port (kerninfo s k) \<noteq> 0" using I g w by (auto simp: nm_inv_def involved_def)
  have "page_offset B g < object_size s"
  proof -
    have d: "B * MIN_PAGE_SIZE dvd object_size s" and B: "0 < B * MIN_PAGE_SIZE" using I by (simp_all add: nm_inv_def MIN_PAGE_SIZE_def)
    have "page_offset B g < npages B s * (B * MIN_PAGE_SIZE)" unfolding page_offset_def mult.assoc using g B by (rule mult_less_mono1)
    then show ?thesis unfolding npages_def dvd_div_mult_self [OF d] .
  qed
  moreover have "even (page_offset B g)" by (simp add: page_offset_def MIN_PAGE_SIZE_def)
  then have "\<not> misaligned (page_offset B g) sz" for sz by (simp add: misaligned_def and_one_eq)
  ultimately show ?thesis using port_to_kernel_eq [of B s k] I k r by (auto simp: sender_def known_def nm_inv_def)
qed

text \<open>A writer that is waited for has been asked for the page: it may report its lock completed.\<close>

lemma writer_asked:
  assumes I: "nm_inv B s A" and C: "coherent B s A" and g: "g < npages B s" and w: "acc (A g) = Writer k" and q: "wq (A g) \<noteq> []"
  shows "answered s (Lock_completed (request_port (kerninfo s k)) (page_offset B g) (B * MIN_PAGE_SIZE))"
proof -
  have B: "0 < B" using I by (simp add: nm_inv_def)
  have "rights s p a = NoAccess" if a: "page_offset B g \<le> a" "a < page_offset B g + B * MIN_PAGE_SIZE" for p a
  proof -
    have ag: "a div (B * MIN_PAGE_SIZE) = g" using in_page [OF B] a by blast
    have d: "B * MIN_PAGE_SIZE dvd object_size s" using I by (simp add: nm_inv_def)
    have "page_offset B g + B * MIN_PAGE_SIZE = Suc g * (B * MIN_PAGE_SIZE)" by (simp add: page_offset_def mult.assoc)
    also have "\<dots> \<le> npages B s * (B * MIN_PAGE_SIZE)" using g by (intro mult_le_mono1) simp
    also have "\<dots> = object_size s" unfolding npages_def by (rule dvd_div_mult_self [OF d])
    finally have "a < object_size s" using a by simp
    then have "justified (kerninfo s) (acc (A g)) (wq (A g)) p (rights s p a)" using C ag unfolding coherent_def by blast
    then show ?thesis using w q by (cases "rights s p a") (auto simp: justified_def)
  qed
  then show ?thesis by simp
qed

text \<open>
  (C8) No request is lost: when the kernels that hold the page for writing answer the lock requests
  they have been sent, after at most one answer per waiting kernel every kernel that waited for the
  page has been sent its data, for reading or for writing as it asked, in the order of the requests,
  and the queue is empty.
\<close>

theorem nm_queue_drains:
  assumes "nm_inv B s A" and "coherent B s A" and "heap_fresh e" and "g < npages B s"
  shows "\<exists>vs s' A' ms. good_run B e vs s \<and> nm_run e vs s = Some s' \<and> nm_inv B s' A' \<and> wq (A' g) = [] \<and> length vs \<le> length (wq (A g))
     \<and> (\<forall>v\<in>set vs. \<exists>p. v = Lock_completed p (page_offset B g) (B * MIN_PAGE_SIZE))
     \<and> sent s' = sent s @ ms \<and> subseq (concat (map (grant_msgs (kerninfo s) (storage s) (page_offset B g)) (wq (A g)))) ms"
  using assms
proof (induction "length (wq (A g))" arbitrary: s A rule: less_induct)
  case less
  show ?case
  proof (cases "wq (A g) = []")
    case True
    then show ?thesis using less.prems by (intro exI [of _ "[]"] exI [of _ s] exI [of _ A]) simp
  next
    case q: False
    obtain R fs where R: "object_rep B (npages B s) s A R fs" using less.prems(1) by (auto simp: nm_inv_def)
    obtain k where k: "acc (A g) = Writer k" using object_repD(2) [OF R less.prems(4)] q by (auto simp: page_ok_def)
    define v where "v = Lock_completed (request_port (kerninfo s k)) (page_offset B g) (B * MIN_PAGE_SIZE)"
    have B: "0 < B" using less.prems(1) by (simp add: nm_inv_def)
    have ok: "event_ok B s v" by (simp add: v_def page_offset_def mult.assoc)
    have ans: "answered s v" unfolding v_def by (rule writer_asked [OF less.prems(1,2,4) k q])
    have dec: "decode B s v = Some (g, P_release k)"
      using writer_sender [OF less.prems(1,4) k] B by (simp add: v_def page_offset_def mult.assoc MIN_PAGE_SIZE_def)
    obtain s1 A1 where S: "nm_step e v s = Some s1" "stepped B s A v s1 A1" using event_stepped [OF less.prems(1,3) ok] by blast
    have I1: "nm_inv B s1 A1" "coherent B s1 A1" using S(2) coherent_step [OF less.prems(1,2) S(2) ok ans] by (simp_all add: stepped_def)
    have f1: "npages B s1 = npages B s" "kerninfo s1 = kerninfo s" "storage s1 = storage s"
      using S(2) dec by (simp_all add: stepped_def npages_def Let_def) (simp add: v_def)
    let ?X = "a_release (kerninfo s) (storage s) (paging_object s) (page_offset B g) (B * MIN_PAGE_SIZE) k (A g)"
    have X: "A1 g = fst ?X" "sent s1 = sent s @ snd ?X" using S(2) dec by (simp_all add: stepped_def Let_def)
    obtain n where n: "wq (A1 g) = drop n (wq (A g))" "0 < n" "subseq (granted (kerninfo s) (storage s) (page_offset B g) (take n (wq (A g)))) (snd ?X)"
      using serve_drops [OF waiters_distinct [OF less.prems(1,4)], of Free "kerninfo s" "storage s" "paging_object s" "page_offset B g" "B * MIN_PAGE_SIZE"] k q X(1)
      by (auto simp: a_release_def)
    then have lt: "length (wq (A1 g)) < length (wq (A g))" using q by (cases "wq (A g)") auto
    obtain vs s' A' ms where r: "good_run B e vs s1" "nm_run e vs s1 = Some s'" "nm_inv B s' A'" "wq (A' g) = []" "length vs \<le> length (wq (A1 g))"
        "\<forall>v\<in>set vs. \<exists>p. v = Lock_completed p (page_offset B g) (B * MIN_PAGE_SIZE)" "sent s' = sent s1 @ ms"
        "subseq (granted (kerninfo s) (storage s) (page_offset B g) (drop n (wq (A g)))) ms"
      using less.hyps [OF lt I1 less.prems(3)] less.prems(4) f1 n(1) by auto
    have "good_run B e (v # vs) s" "nm_run e (v # vs) s = Some s'" using ok ans S(1) r(1,2) by simp_all
    moreover have "granted (kerninfo s) (storage s) (page_offset B g) (wq (A g)) =
        granted (kerninfo s) (storage s) (page_offset B g) (take n (wq (A g))) @ granted (kerninfo s) (storage s) (page_offset B g) (drop n (wq (A g)))"
      by (metis append_take_drop_id concat_append map_append)
    then have "subseq (granted (kerninfo s) (storage s) (page_offset B g) (wq (A g))) (snd ?X @ ms)" using n(3) r(8) by (simp add: list_emb_append_mono)
    ultimately show ?thesis using r(3-7) lt v_def X(2) by (intro exI [of _ "v # vs"] exI [of _ s'] exI [of _ A'] exI [of _ "snd ?X @ ms"]) auto
  qed
qed

theorem nm_queue_drains_witness:
  "\<exists>s vs s' A' ms. ex_state \<lparr>acc = Writer 0, wq = [(1, False, True)]\<rparr> s \<and> good_run 1 ex_env vs s \<and> nm_run ex_env vs s = Some s' \<and> nm_inv 1 s' A' \<and> wq (A' 0) = []
     \<and> length vs \<le> 1 \<and> sent s' = sent s @ ms \<and> subseq (data_msgs (kerninfo s) (storage s) 1 0 SUPPLY_READ) ms"
proof -
  let ?A = "(\<lambda>g. free_page)(0 := \<lparr>acc = Writer 0, wq = [(1, False, True)]\<rparr>)"
  obtain s where s: "ex_state \<lparr>acc = Writer 0, wq = [(1, False, True)]\<rparr> s" using ex_waiting by blast
  then have I: "nm_inv 1 s ?A" "coherent 1 s ?A" "0 < npages 1 s" by (simp_all add: ex_state_def npages_def MIN_PAGE_SIZE_def)
  have o: "page_offset 1 0 = 0" by (simp add: page_offset_def)
  obtain vs s' A' ms where "good_run 1 ex_env vs s" "nm_run ex_env vs s = Some s'" "nm_inv 1 s' A'" "wq (A' 0) = []" "length vs \<le> length (wq (?A 0))"
      "sent s' = sent s @ ms" "subseq (granted (kerninfo s) (storage s) (page_offset 1 0) (wq (?A 0))) ms"
    using nm_queue_drains [OF I(1,2) ex_env_fresh I(3)] by (elim exE conjE) (rule that; simp)
  then show ?thesis using s unfolding o by (intro exI [of _ s] exI [of _ vs] exI [of _ s'] exI [of _ A'] exI [of _ ms]) simp
qed

section \<open>The reader sees what the writer wrote\<close>

lemma overwrite_read: "map (overwrite off d st) [off..<off + length d] = d"
  by (auto simp: overwrite_def intro: nth_equalityI)

text \<open>
  (C9) Data survives the change of hands: when the writer of a page returns its data and reports its
  lock completed, the first waiting kernel, if it wants to read, is sent exactly this data.
\<close>

theorem nm_reader_sees_write:
  assumes I: "nm_inv B s A" and h: "heap_fresh e" and g: "g < npages B s" and w: "acc (A g) = Writer k" and q: "wq (A g) = (r, False, True) # q"
    and z: "real_page_size (kerninfo s k) = B * MIN_PAGE_SIZE" "real_page_size (kerninfo s r) = B * MIN_PAGE_SIZE" and d: "length d = B * MIN_PAGE_SIZE"
    and p: "p = request_port (kerninfo s k)"
  shows "\<exists>s' ms. nm_run e [Data_write p (page_offset B g) d, Lock_completed p (page_offset B g) (B * MIN_PAGE_SIZE)] s = Some s'
     \<and> sent s' = sent s @ (0, Vm_deallocate (length d)) # (request_port (kerninfo s r), Data_provided (page_offset B g) d SUPPLY_READ) # ms"
proof -
  let ?off = "page_offset B g" and ?len = "B * MIN_PAGE_SIZE"
  have B: "0 < B" using I by (simp add: nm_inv_def)
  note S = senderD [OF writer_sender [OF I g w]]
  have sz: "page_size (kerninfo s k) = ?len" using S(6) by simp
  have sr: "sender real_page_size s p ?off (length d) = Some k" using S(3-5,7) z(1) d sz p by (simp add: sender_def)
  have og: "?off div ?len = g" using B by (simp add: page_offset_def mult.assoc MIN_PAGE_SIZE_def)
  have al: "aligned s p ?off" using S(5) z(1) p by (simp add: aligned_def page_offset_def mult.assoc)
  have "memory_object_data_write e p ?off d s = Some (send 0 (Vm_deallocate (length d)) (write_back ?off d s))"
  proof -
    obtain R fs where R: "object_rep B (npages B s) s A R fs" using I by (auto simp: nm_inv_def)
    have f: "use (min_pages s (g * B)) = USE_WRITE" "writer_of (user (min_pages s (g * B))) = k"
      using page_tests(1) [OF B object_repD(1,2) [OF R g] S(1)] w by (auto simp: is_writer_def)
    have "Subtract_kernel e k ?off (Some d) (length d) s = Some (write_back ?off d s)"
      unfolding Subtract_kernel_def Let_def d no_rounding [OF B] offsets [OF B] f by simp
    then show ?thesis using senderD [OF sr] by (simp add: memory_object_data_write_def Let_def)
  qed
  define s1 where "s1 = send 0 (Vm_deallocate (length d)) (write_back ?off d s)"
  have s1: "storage s1 = overwrite ?off d (storage s)" "kerninfo s1 = kerninfo s" "paging_object s1 = paging_object s" "object_size s1 = object_size s"
      "sent s1 = sent s @ [(0, Vm_deallocate (length d))]"
    by (simp_all add: s1_def send_def write_back_def overwrite_def)
  have I1: "nm_inv B s1 A" by (rule nm_inv_same [OF I]) (simp_all add: s1_def send_def write_back_def)
  have "decode B s1 (Lock_completed p ?off ?len) = Some (g, P_release k)"
    using writer_sender [OF I1 _ w] g og p s1 by (simp add: npages_def)
  moreover have "event_ok B s1 (Lock_completed p ?off ?len)" by (simp add: page_offset_def mult.assoc)
  ultimately obtain s2 where s2: "nm_step e (Lock_completed p ?off ?len) s1 = Some s2"
      "sent s2 = sent s1 @ snd (a_release (kerninfo s1) (storage s1) (paging_object s1) ?off ?len k (A g))"
    using event_stepped [OF I1 h, of "Lock_completed p ?off ?len"] by (auto simp: stepped_def Let_def)
  have "data_msgs (kerninfo s) (overwrite ?off d (storage s)) r ?off SUPPLY_READ = [(request_port (kerninfo s r), Data_provided ?off d SUPPLY_READ)]"
    using z(2) B overwrite_read [of ?off d "storage s"] by (simp add: data_msgs_def d)
  then have "\<exists>ms. snd (a_release (kerninfo s1) (storage s1) (paging_object s1) ?off ?len k (A g)) = (request_port (kerninfo s r), Data_provided ?off d SUPPLY_READ) # ms"
    using w q by (simp add: a_release_def give_read_def s1 split_beta)
  then show ?thesis using s2 \<open>memory_object_data_write e p ?off d s = _\<close> s1(5) by (auto simp: s1_def [symmetric])
qed

theorem nm_reader_sees_write_witness:
  "\<exists>s s' ms. ex_state \<lparr>acc = Writer 0, wq = [(1, False, True)]\<rparr> s \<and> nm_run ex_env [Data_write 5 0 (replicate 4096 7), Lock_completed 5 0 4096] s = Some s'
     \<and> sent s' = sent s @ (0, Vm_deallocate 4096) # (6, Data_provided 0 (replicate 4096 7) SUPPLY_READ) # ms"
proof -
  let ?A = "(\<lambda>g. free_page)(0 := \<lparr>acc = Writer 0, wq = [(1, False, True)]\<rparr>)"
  obtain s where s: "ex_state \<lparr>acc = Writer 0, wq = [(1, False, True)]\<rparr> s" using ex_waiting by blast
  then have I: "nm_inv 1 s ?A" "0 < npages 1 s" "kerninfo s = kerninfo ex_shared" by (simp_all add: ex_state_def npages_def MIN_PAGE_SIZE_def)
  have k: "real_page_size (kerninfo s 0) = 1 * MIN_PAGE_SIZE" "real_page_size (kerninfo s 1) = 1 * MIN_PAGE_SIZE" "5 = request_port (kerninfo s 0)" "request_port (kerninfo s 1) = 6"
    by (simp_all add: I(3) ex_shared_def MIN_PAGE_SIZE_def)
  have off: "page_offset 1 0 = 0" "1 * MIN_PAGE_SIZE = 4096" "length (replicate 4096 (7 :: nat)) = 4096" by (simp_all add: page_offset_def MIN_PAGE_SIZE_def)
  obtain s' ms where "nm_run ex_env [Data_write 5 0 (replicate 4096 7), Lock_completed 5 0 4096] s = Some s'"
      "sent s' = sent s @ (0, Vm_deallocate 4096) # (6, Data_provided 0 (replicate 4096 7) SUPPLY_READ) # ms"
    using nm_reader_sees_write [OF I(1) ex_env_fresh I(2) _ _ k(1,2) _ k(3), of "[]" "replicate 4096 7"] unfolding off k(4) by auto
  then show ?thesis using s by blast
qed

end
