(* ===== verification/Netmem_Errors.thy ===== *)
theory Netmem_Errors
  imports Netmem_Service
begin

text \<open>
  Where the network shared memory server does not keep its promises, and its handling of errors:
  kernels with different page sizes, offsets that are not page boundaries, the registry of dead
  ports, and the exits of \<open>netmemory_cover\<close>.
\<close>

section \<open>Two page sizes\<close>

text \<open>Kernel 0 has pages of 8192 bytes and reads the first one, kernel 1 has pages of 4096 bytes.\<close>

definition ex_mixed :: netobj where
  "ex_mixed = ex_object\<lparr>
     kerninfo := (\<lambda>k. if k = 0 then \<lparr>request_port = 5, page_size = 8192, real_page_size = 8192\<rparr>
        else if k = 1 then \<lparr>request_port = 6, page_size = 4096, real_page_size = 4096\<rparr> else \<lparr>request_port = 0, page_size = 0, real_page_size = 0\<rparr>),
     min_pages := (\<lambda>j. if j < 2 then no_page\<lparr>use := USE_READ, user := 1\<rparr> else no_page),
     sent := [(5, Data_provided 0 (map (\<lambda>a. 0) [0..<8192]) SUPPLY_READ)]\<rparr>"

lemma fold_32: "fold f [0..<32] s = fold f [1..<32] (f 0 s)"
  by (simp add: upt_conv_Cons)

lemma bit_1_nat: "bit (1 :: 32 word) n \<longleftrightarrow> n = 0"
  by (auto simp: bit_1_iff)

lemma boot_none:
  assumes "use (min_pages s f) = USE_READ \<longrightarrow> user (min_pages s f) = 0"
  shows "fold (boot_page kn) (pages f f) (False, s) = (False, s)"
    and "(if use (min_pages s f) = USE_READ then fold (boot_bigger f off sz) [0..<32] s else s) = s"
proof -
  have n: "use (min_pages s f) = USE_READ \<Longrightarrow> \<not> SET_MEMBER (user (min_pages s f)) r" for r using assms by (simp add: SET_MEMBER_bit)
  have "use (min_pages s f) = USE_READ \<Longrightarrow> fold (boot_other kn f) [0..<32] (False, s) = (False, s)" by (rule fold_id) (use n in \<open>simp add: boot_other_def\<close>)
  then show "fold (boot_page kn) (pages f f) (False, s) = (False, s)" by (simp add: pages_def boot_page_def)
  have "use (min_pages s f) = USE_READ \<Longrightarrow> fold (boot_bigger f off sz) [0..<32] s = s" by (rule fold_id) (use n in \<open>simp add: boot_bigger_def\<close>)
  then show "(if use (min_pages s f) = USE_READ then fold (boot_bigger f off sz) [0..<32] s else s) = s" by simp
qed

text \<open>Granting a page that nobody reads, in one minimal page.\<close>

lemma add_writer_alone:
  assumes "use (min_pages s f) = USE_READ \<longrightarrow> user (min_pages s f) = 0"
  shows "add_writer f f kn True s = s\<lparr>min_pages := (min_pages s)(f := (min_pages s f)\<lparr>use := USE_WRITE, user := set_writer kn (user (min_pages s f))\<rparr>),
     sent := sent s @ data_msgs (kerninfo s) (storage s) kn (PAGE_TO_OFFSET f) SUPPLY_ALL\<rparr>"
  unfolding add_writer_def Let_def boot_none(2) [OF assms] boot_none(1) [OF assms] prod.case
  by (simp add: pages_def upd_page_def DATA_PROVIDED_eq)

definition ex_booted :: netobj where
  "ex_booted = ex_mixed\<lparr>min_pages := (\<lambda>j. if j < 2 then no_page\<lparr>use := USE_READ\<rparr> else no_page),
     sent := sent ex_mixed @ [(5, Lock_request 4095 8192 False True SUPPLY_NONE 0)]\<rparr>"

lemma boot_bigger_reader: "fold (boot_bigger 1 4096 4096) [0..<32] ex_mixed = ex_booted"
proof -
  have x: "(4096 :: nat) XOR 8191 = 4095" by simp
  have s: "[0..<2] = [0, 1 :: nat]" by (simp add: upt_rec)
  have d: "SET_DELETE 0 (1 :: 32 word) = 0" by (simp add: SET_DELETE_def)
  have z: "no_page\<lparr>use := USE_READ, user := 0\<rparr> = no_page\<lparr>use := USE_READ\<rparr>" by (simp add: no_page_def)
  have "boot_reader 0 4095 8192 ex_mixed = ex_booted"
    unfolding boot_reader_def Let_def
    by (simp add: MIN_PAGE_SHIFT_def drop_bit_eq_div s upd_page_def LOCK_READER_def send_def ex_mixed_def ex_booted_def)
       (auto simp: fun_eq_iff d no_page_def)
  then have "boot_bigger 1 4096 4096 0 ex_mixed = ex_booted"
    by (simp add: boot_bigger_def SET_MEMBER_bit Let_def x bit_1_nat ex_mixed_def no_page_def)
  moreover have "fold (boot_bigger 1 4096 4096) [1..<32] ex_booted = ex_booted"
    by (rule fold_id) (simp add: boot_bigger_def SET_MEMBER_bit ex_booted_def no_page_def)
  ultimately show ?thesis by (simp add: fold_32)
qed

text \<open>
  (C37) With two page sizes memory is not coherent: \<open>add_writer\<close> computes the page of a reader with
  bigger pages with an exclusive or, so that the reader is struck off its whole page but is told to
  give up only a part of it, and another kernel then gets the rest of the page for writing.
\<close>

theorem nm_mixed_sizes_incoherent:
  "\<exists>s1 s2. Add_writing_kernel ex_env 1 4096 4096 True ex_mixed = Some s1 \<and> Add_writing_kernel ex_env 1 0 4096 True s1 = Some s2
     \<and> rights s2 5 0 = ReadOnly \<and> rights s2 6 0 = ReadWrite"
proof -
  let ?m = "data_msgs (kerninfo ex_mixed) (\<lambda>a. 0) 1"
  define s1 where "s1 = ex_booted\<lparr>min_pages := (min_pages ex_booted)(1 := (min_pages ex_booted 1)\<lparr>use := USE_WRITE, user := set_writer 1 0\<rparr>), sent := sent ex_booted @ ?m 4096 SUPPLY_ALL\<rparr>"
  define s2 where "s2 = s1\<lparr>min_pages := (min_pages s1)(0 := (min_pages s1 0)\<lparr>use := USE_WRITE, user := set_writer 1 0\<rparr>), sent := sent s1 @ ?m 0 SUPPLY_ALL\<rparr>"
  have b: "use (min_pages ex_booted j) = USE_READ \<longrightarrow> user (min_pages ex_booted j) = 0" for j by (simp add: ex_booted_def no_page_def)
  have ki: "kerninfo ex_booted = kerninfo ex_mixed" "storage ex_booted = (\<lambda>a. 0)" by (simp_all add: ex_booted_def ex_mixed_def ex_object_def)
  have p: "OFFSET_TO_PAGE 4096 = 1" "OFFSET_TO_PAGE (4096 + 4096) - 1 = 1" "OFFSET_TO_PAGE 0 = 0" "OFFSET_TO_PAGE (0 + 4096) - 1 = 0" "PAGE_TO_OFFSET 1 = 4096" "PAGE_TO_OFFSET 0 = 0"
    by (simp_all add: OFFSET_TO_PAGE_def PAGE_TO_OFFSET_def MIN_PAGE_SHIFT_def drop_bit_eq_div push_bit_eq_mult)
  have u: "use (min_pages ex_mixed 1) = USE_READ" "page_size (kerninfo ex_mixed 1) = 4096" by (simp_all add: ex_mixed_def)
  have "add_writer 1 1 1 True ex_mixed = add_writer 1 1 1 True ex_booted"
    unfolding add_writer_def Let_def p boot_none(2) [OF b] boot_none(1) [OF b] u ki(1) if_P [OF refl] boot_bigger_reader ..
  also have "\<dots> = s1" unfolding add_writer_alone [OF b] p ki s1_def by (simp add: ex_booted_def no_page_def)
  finally have 1: "Add_writing_kernel ex_env 1 4096 4096 True ex_mixed = Some s1"
    unfolding Add_writing_kernel_def Let_def p
    by (simp add: is_writer_def have_writer_def pages_def SET_MEMBER_def u) (simp add: ex_mixed_def no_page_def)
  have b1: "use (min_pages s1 0) = USE_READ \<longrightarrow> user (min_pages s1 0) = 0" by (simp add: s1_def ex_booted_def no_page_def)
  have ki1: "kerninfo s1 = kerninfo ex_mixed" "storage s1 = (\<lambda>a. 0)" by (simp_all add: s1_def ki)
  have "add_writer 0 0 1 True s1 = s2" unfolding add_writer_alone [OF b1] p ki1 s2_def by (simp add: s1_def ex_booted_def no_page_def)
  then have 2: "Add_writing_kernel ex_env 1 0 4096 True s1 = Some s2"
    unfolding Add_writing_kernel_def Let_def p
    by (simp add: is_writer_def have_writer_def pages_def SET_MEMBER_def) (simp add: s1_def ex_booted_def no_page_def)
  have z: "sized 1 (kerninfo ex_mixed 1)" "request_port (kerninfo ex_mixed 1) = 6" by (simp_all add: sized_def ex_mixed_def MIN_PAGE_SIZE_def)
  note D = data_rights [where KI = "kerninfo ex_mixed" and k = 1, OF z(1) zero_less_one, unfolded z(2)]
  have r: "rights s2 q 0 = rights_after q 0 (?m 0 SUPPLY_ALL) (rights_after q 0 (?m 4096 SUPPLY_ALL) (rights_after q 0 (sent ex_booted) NoAccess))" for q
    by (simp add: rights_def s2_def s1_def)
  have "rights_after q 0 (sent ex_booted) NoAccess = (if q = 5 then ReadOnly else NoAccess)" for q
    by (simp add: ex_booted_def ex_mixed_def right_step_def)
  then have "rights s2 5 0 = ReadOnly" "rights s2 6 0 = ReadWrite" unfolding r D by (simp_all add: MIN_PAGE_SIZE_def)
  then show ?thesis using 1 2 by blast
qed

section \<open>Offsets that are not page boundaries\<close>

text \<open>An object of four minimal pages, used by one kernel with pages of 8192 bytes.\<close>

definition ex_big :: netobj where
  "ex_big = ex_object\<lparr>kerninfo := (\<lambda>k. \<lparr>request_port = (if k = 0 then 5 else 0), page_size = 8192, real_page_size = 8192\<rparr>)\<rparr>"

text \<open>
  The test for a page boundary looks at the lowest bit only: a request two bytes before the end
  of an object of four minimal pages is accepted, and the fifth element of the array of pages, past
  its end, is marked as read.
\<close>

theorem nm_unaligned_out_of_range:
  "\<exists>s'. nm_step e (Data_request 5 16382 8192 1) ex_big = Some s' \<and> object_size ex_big = 4 * MIN_PAGE_SIZE \<and> use (min_pages s' 4) = USE_READ
     \<and> faults_per_page s' 4 \<noteq> faults_per_page ex_big 4"
proof -
  have k: "port_to_kernel ex_big 5 = Some 0" by (simp add: port_to_kernel_def ex_big_def MAX_NUM_KERNELS_def upt_rec)
  define s1 where "s1 = count_faults read_fault 3 2 ex_big"
  have f: "min_pages s1 = (\<lambda>j. no_page)" by (simp add: s1_def count_faults_def ex_big_def ex_object_def)
  have m: "\<not> misaligned 16382 8192" by (simp add: misaligned_def)
  have "nm_step e (Data_request 5 16382 8192 1) ex_big = Add_reading_kernel e 0 16382 8192 True s1"
    unfolding nm_step.simps memory_object_data_request_def memory_object_request_def k Let_def
    using m by (simp add: ex_big_def ex_object_def s1_def MIN_PAGE_SIZE_def MIN_PAGE_SHIFT_def drop_bit_eq_div fault_kind_def VM_PROT_WRITE_def)
  also have "\<dots> = Some (add_reader 3 4 0 s1)"
    by (simp add: Add_reading_kernel_def OFFSET_TO_PAGE_def MIN_PAGE_SHIFT_def drop_bit_eq_div is_writer_def have_writer_def f no_page_def SET_MEMBER_def)
  finally have 1: "nm_step e (Data_request 5 16382 8192 1) ex_big = Some (add_reader 3 4 0 s1)" .
  have "pages 3 4 = [3, 4]" by (simp add: pages_def upt_rec)
  then have "use (min_pages (add_reader 3 4 0 s1) 4) = USE_READ"
    by (simp add: add_reader_def DATA_PROVIDED_eq mark_reader_def upd_page_def f no_page_def Let_def)
  moreover have "faults_per_page (add_reader 3 4 0 s1) 4 \<noteq> faults_per_page ex_big 4"
    using \<open>pages 3 4 = [3, 4]\<close>
    by (simp add: add_reader_def DATA_PROVIDED_eq mark_reader_def upd_page_def Let_def s1_def count_faults_def read_fault_def ex_big_def ex_object_def no_faults_def upt_rec)
  ultimately show ?thesis using 1 by (intro exI [of _ "add_reader 3 4 0 s1"]) (simp add: ex_big_def ex_object_def MIN_PAGE_SIZE_def)
qed

end
