(* ===== verification/Netmem_Registry.thy ===== *)
theory Netmem_Registry
  imports Netmem_Errors
begin

text \<open>
  Objects and ports of the server: a created object is one the coherence theorem applies to, failed
  creations give everything back, and the lists of objects and of ports are searched and unlinked.
\<close>

section \<open>Sizes and exits of \<open>netmemory_cover\<close>\<close>

lemma round_object_bounds:
  assumes "n + 8192 \<le> 2 ^ 32"
  shows "n \<le> round_object n" "round_object n < n + 8192" "8192 dvd round_object n" "round_object n \<le> 2 ^ 32"
proof -
  have m: "n AND 8191 = n mod 8192" using take_bit_eq_mask [of 13 n] by (simp add: mask_eq_exp_minus_1 take_bit_eq_mod)
  have s: "push_bit 13 (1 + drop_bit 13 n) = (1 + n div 8192) * 8192" by (simp add: push_bit_eq_mult drop_bit_eq_div)
  have le: "(1 + n div 8192) * 8192 \<le> n + 8192" by (simp add: algebra_simps)
  have ro: "round_object n = (if n mod 8192 = 0 then n else u32 ((1 + n div 8192) * 8192))"
    unfolding round_object_def MAX_PAGE_SIZE_def MAX_PAGE_SHIFT_def s using m by simp
  have lt: "(1 + n div 8192) * 8192 < n + 8192" "n \<le> (1 + n div 8192) * 8192" if "n mod 8192 \<noteq> 0"
    unfolding add_mult_distrib using that div_mult_mod_eq [of n 8192] mod_less_divisor [of 8192 n] by linarith+
  have u: "u32 ((1 + n div 8192) * 8192) = (1 + n div 8192) * 8192" if "n mod 8192 \<noteq> 0"
    using lt [OF that] assms by (intro u32_id) linarith
  show "n \<le> round_object n" "round_object n < n + 8192" "8192 dvd round_object n" "round_object n \<le> 2 ^ 32"
    using u lt assms unfolding ro by (cases "n mod 8192 = 0"; simp; fail | cases "n mod 8192 = 0"; simp add: mod_0_imp_dvd)+
qed

text \<open>
  A successful \<open>netmemory_create\<close> makes an object of at least the size asked for, rounded up to the
  biggest page, with free pages and no kernel.  It is a new object in the sense of the coherence
  theorem, for kernels of either page size, exactly when the memory \<open>malloc\<close> returned for its structure
  happened to hold a null pointer at \<open>free_requests\<close>: the code never initialises this list.
\<close>

theorem netmemory_create_new:
  assumes "netmemory_create c n = (NETMEMORY_SUCCESS, held, Some (ob, cp))" and "n + 8192 < 2 ^ 32" and "B = 1 \<or> B = 2"
  shows "(new_object B ob \<longleftrightarrow> free_requests (junk_object c) = 0) \<and> n \<le> object_size ob \<and> object_size ob < n + 8192 \<and> (\<forall>a. storage ob a = 0)"
proof -
  have r: "n \<le> round_object n" "round_object n < n + 8192" "8192 dvd round_object n" using round_object_bounds [of n] assms(2) by auto
  obtain pp where ob: "Object_create (calloc_ok c) (cover_object c pp None (round_object n)) = Some ob"
    using assms(1) by (auto simp: netmemory_create_def netmemory_cover_def cover_size_def Let_def split: if_splits option.splits prod.splits)
  then have "object_size ob = round_object n" "\<And>k. k < 32 \<Longrightarrow> request_port (kerninfo ob k) = 0" "\<And>j. j < round_object n div 4096 \<Longrightarrow> min_pages ob j = no_page"
      "free_requests ob = free_requests (junk_object c)" "req_heap ob = {}" "sent ob = []" "\<And>a. storage ob a = 0"
    by (auto simp: Object_create_def cover_object_def cover_bytes_def Let_def MAX_NUM_KERNELS_def MIN_PAGE_SHIFT_def drop_bit_eq_div split: if_splits)
  then show ?thesis using assms(2,3) r by (auto simp: new_object_def blank_def)
qed

definition ex_cover :: cover_env where
  "ex_cover = \<lparr>vm_page_size = 4096, malloc_ok = True, new_paging = Some 7, new_control = Some 8, pad_ok = False, alloc_ok = True, copy_ok = False, faults_ok = True,
     calloc_ok = True, junk_object = ex_object\<rparr>"

theorem netmemory_create_new_witness:
  "\<exists>held ob cp. netmemory_create ex_cover 10000 = (NETMEMORY_SUCCESS, held, Some (ob, cp)) \<and> new_object 2 ob \<and> 10000 \<le> object_size ob"
proof -
  obtain held ob cp where c: "netmemory_create ex_cover 10000 = (NETMEMORY_SUCCESS, held, Some (ob, cp))"
    by (auto simp: netmemory_create_def netmemory_cover_def cover_storage_def Object_create_def ex_cover_def Let_def)
  have "free_requests (junk_object ex_cover) = 0" by (simp add: ex_cover_def ex_object_def)
  then show ?thesis using netmemory_create_new [OF c, of 2] c by simp
qed

text \<open>
  (C38) A creation without client data that fails gives back everything it had acquired, at whichever
  of its steps it fails.
\<close>

theorem netmemory_create_releases:
  assumes "netmemory_create c n = (code, held, r)" and "code \<noteq> NETMEMORY_SUCCESS"
  shows "held = [] \<and> r = None"
  using assms
  by (auto simp: netmemory_create_def netmemory_cover_def cover_storage_def Let_def exit_e1_def exit_e2_def exit_e3_def exit_e4_def exit_e5_def
      split: if_splits option.splits)

theorem netmemory_create_releases_witness:
  "netmemory_create (ex_cover\<lparr>faults_ok := False\<rparr>) 5 = (NETMEMORY_RESOURCE_SHORTAGE, [], None)"
proof -
  obtain held r where "netmemory_create (ex_cover\<lparr>faults_ok := False\<rparr>) 5 = (NETMEMORY_RESOURCE_SHORTAGE, held, r)"
    by (auto simp: netmemory_create_def netmemory_cover_def cover_storage_def ex_cover_def Let_def)
  then show ?thesis using netmemory_create_releases by fastforce
qed

text \<open>When the data of the client cannot be copied, both the copy and the data stay allocated.\<close>

lemma netmemory_cover_leaks:
  "netmemory_cover ex_cover (Some [1, 2, 3]) 3 = (VM_COPY_FAILED, [Storage, Client_data], None)"
proof -
  have "cover_size ex_cover True 3 < round_object (cover_size ex_cover True 3)"
    by (simp add: cover_size_def ex_cover_def round_page_def round_down_def round_object_def MAX_PAGE_SIZE_def MAX_PAGE_SHIFT_def push_bit_eq_mult drop_bit_eq_div u32_def)
  then show ?thesis by (simp add: netmemory_cover_def cover_storage_def Let_def ex_cover_def exit_e1_def exit_e2_def exit_e3_def)
qed

section \<open>Searching with a pointer behind\<close>

lemma find_prev_chain:
  assumes "chain nx p (ys @ x # zs)" and "\<And>y. y \<in> set ys \<Longrightarrow> \<not> P y" and "P x"
  shows "find_prev nx P prev p = Some (if ys = [] then prev else last ys, x)"
  using assms
proof (induction ys arbitrary: p prev)
  case Nil
  then show ?case by (subst find_prev.simps) simp
next
  case (Cons y ys)
  have "find_prev nx P prev p = find_prev nx P y (nx y)" using Cons.prems by (subst find_prev.simps) auto
  also have "\<dots> = Some (if ys = [] then y else last ys, x)" using Cons.prems by (intro Cons.IH) auto
  finally show ?case by auto
qed

lemma find_prev_absent:
  assumes "chain nx p xs" and "\<And>y. y \<in> set xs \<Longrightarrow> \<not> P y"
  shows "\<exists>q. find_prev nx P prev p = Some (q, 0)"
  using assms
proof (induction xs arbitrary: p prev)
  case Nil
  then show ?case by (subst find_prev.simps) simp
next
  case (Cons y ys)
  then have "find_prev nx P prev p = find_prev nx P y (nx y)" by (subst find_prev.simps) auto
  then show ?case using Cons by simp
qed

lemma unlink_after: "chain nx p (ys @ x # zs) \<Longrightarrow> ys \<noteq> [] \<Longrightarrow> chain (nx(last ys := nx x)) p (ys @ zs)"
  using chain_unlink [of nx p "butlast ys" "last ys" x zs] by (metis append.assoc append_Cons append_Nil append_butlast_last_id)

section \<open>Objects and ports\<close>

text \<open>
  \<open>netmemory_destroy\<close> takes exactly the object with the control port off the list of objects,
  stops its thread and frees it; the other objects stay, in order.
\<close>

theorem netmemory_destroy_unlinks:
  assumes c: "chain (obj_next s) (object_list s) (ys @ x # zs)" and n: "\<And>y. y \<in> set ys \<Longrightarrow> obj_control s y \<noteq> p" and x: "obj_control s x = p"
  shows "\<exists>s'. netmemory_destroy p s = Some (NETMEMORY_SUCCESS, s') \<and> chain (obj_next s') (object_list s') (ys @ zs) \<and> obj_heap s' = obj_heap s - {x}
     \<and> obj s' = obj s \<and> posted s' = posted s @ [Post_terminate (paging_object (obj s x))]"
proof -
  note F = find_prev_chain [of "obj_next s" "object_list s" ys x zs "\<lambda>x. obj_control s x = p" 0, OF c n x]
  have x0: "x \<noteq> 0" using chain_members [OF c] by auto
  show ?thesis
  proof (cases "ys = []")
    case True
    then show ?thesis using F x0 c by (simp add: netmemory_destroy_def post_def Let_def)
  next
    case False
    then have "last ys \<noteq> 0" using chain_members [OF c] last_in_set [OF False] by (metis UnI1 set_append)
    then show ?thesis using F x0 False unlink_after [OF c False] by (simp add: netmemory_destroy_def post_def Let_def)
  qed
qed

text \<open>The objects of a server with three objects at the addresses 10, 20 and 30.\<close>

definition ex_server :: nm_server where
  "ex_server = \<lparr>registry = 1, unregistry = 3, reg = (\<lambda>r. \<lparr>reg_object = 10, reg_kernel = 4, reg_port = r + 100, reg_next = (if r = 1 then 2 else 0)\<rparr>), reg_heap = {1, 2, 3},
     object_list = 10, obj = (\<lambda>x. ex_object), obj_control = (\<lambda>x. x + 1), obj_next = (\<lambda>x. if x = 10 then 20 else if x = 20 then 30 else 0), obj_heap = {10, 20, 30}, posted = []\<rparr>"

theorem netmemory_destroy_unlinks_witness:
  "\<exists>s'. netmemory_destroy 21 ex_server = Some (NETMEMORY_SUCCESS, s') \<and> chain (obj_next s') (object_list s') [10, 30]"
proof -
  have "chain (obj_next ex_server) (object_list ex_server) ([10] @ 20 # [30])" by (simp add: ex_server_def)
  from netmemory_destroy_unlinks [OF this, of 21] show ?thesis by (auto simp: ex_server_def)
qed

text \<open>
  A kernel whose port has died before it was registered is reported dead when it is registered,
  and its entry is taken off the list of unclaimed deaths; otherwise it is entered in the registry.
\<close>

theorem port_death_register_matches:
  assumes c: "chain (\<lambda>r. reg_next (reg s r)) (unregistry s) us"
  shows "(\<forall>ys x zs. us = ys @ x # zs \<and> (\<forall>y\<in>set ys. reg_port (reg s y) \<noteq> p) \<and> reg_port (reg s x) = p \<longrightarrow>
       (\<exists>s'. port_death_register e ob k p s = Some s' \<and> chain (\<lambda>r. reg_next (reg s' r)) (unregistry s') (ys @ zs) \<and> registry s' = registry s
          \<and> reg_heap s' = reg_heap s - {x} \<and> posted s' = posted s @ [Post_death (paging_object (obj s ob)) ob k p]))
     \<and> ((\<forall>y\<in>set us. reg_port (reg s y) \<noteq> p) \<longrightarrow>
       (\<exists>s'. port_death_register e ob k p s = Some s' \<and> registry s' = nm_malloc e (reg_heap s) \<and> unregistry s' = unregistry s \<and> posted s' = posted s
          \<and> reg s' (registry s') = \<lparr>reg_object = ob, reg_kernel = k, reg_port = p, reg_next = registry s\<rparr>))"
proof (intro conjI allI impI)
  fix ys x zs assume a: "us = ys @ x # zs \<and> (\<forall>y\<in>set ys. reg_port (reg s y) \<noteq> p) \<and> reg_port (reg s x) = p"
  let ?n = "\<lambda>r. reg_next (reg s r)"
  have c': "chain ?n (unregistry s) (ys @ x # zs)" using c a by simp
  note F = find_prev_chain [of ?n "unregistry s" ys x zs "\<lambda>r. reg_port (reg s r) = p" 0, OF c']
  have x0: "x \<noteq> 0" using chain_members [OF c'] by auto
  show "\<exists>s'. port_death_register e ob k p s = Some s' \<and> chain (\<lambda>r. reg_next (reg s' r)) (unregistry s') (ys @ zs) \<and> registry s' = registry s
          \<and> reg_heap s' = reg_heap s - {x} \<and> posted s' = posted s @ [Post_death (paging_object (obj s ob)) ob k p]"
  proof (cases "ys = []")
    case True
    then show ?thesis using F x0 a c' by (simp add: port_death_register_def post_def free_reg_def Let_def)
  next
    case False
    then have l: "last ys \<noteq> 0" using chain_members [OF c'] last_in_set [OF False] by (metis UnI1 set_append)
    have "(\<lambda>r. reg_next (if r = last ys then (reg s (last ys))\<lparr>reg_next := ?n x\<rparr> else reg s r)) = ?n(last ys := ?n x)" by auto
    then show ?thesis using F x0 False l a unlink_after [OF c' False]
      by (simp add: port_death_register_def post_def free_reg_def set_reg_next_def Let_def fun_upd_apply)
  qed
next
  assume "\<forall>y\<in>set us. reg_port (reg s y) \<noteq> p"
  then obtain q where "find_prev (\<lambda>r. reg_next (reg s r)) (\<lambda>r. reg_port (reg s r) = p) 0 (unregistry s) = Some (q, 0)"
    using find_prev_absent [OF c, of "\<lambda>r. reg_port (reg s r) = p" 0] by blast
  then show "\<exists>s'. port_death_register e ob k p s = Some s' \<and> registry s' = nm_malloc e (reg_heap s) \<and> unregistry s' = unregistry s \<and> posted s' = posted s
          \<and> reg s' (registry s') = \<lparr>reg_object = ob, reg_kernel = k, reg_port = p, reg_next = registry s\<rparr>"
    by (simp add: port_death_register_def Let_def)
qed

theorem port_death_register_matches_witness:
  "\<exists>s'. port_death_register ex_env 10 4 103 ex_server = Some s' \<and> unregistry s' = 0 \<and> registry s' = 1"
proof -
  have c: "chain (\<lambda>r. reg_next (reg ex_server r)) (unregistry ex_server) [3]" by (simp add: ex_server_def)
  have "\<forall>y\<in>set []. reg_port (reg ex_server y) \<noteq> 103" "reg_port (reg ex_server 3) = 103" by (simp_all add: ex_server_def)
  then obtain s' where "port_death_register ex_env 10 4 103 ex_server = Some s'" "chain (\<lambda>r. reg_next (reg s' r)) (unregistry s') ([] @ [])" "registry s' = registry ex_server"
    using port_death_register_matches [OF c, of 103 ex_env 10 4] by (metis append_Nil)
  then show ?thesis by (simp add: ex_server_def)
qed

text \<open>
  (C39) The death of the port registered last corrupts both lists: the registry goes on pointing to
  the entry that has been freed, and the unclaimed deaths are replaced by the rest of the registry.
\<close>

theorem handle_port_death_first:
  assumes c: "chain (\<lambda>r. reg_next (reg s r)) (registry s) (x # rs)" and p: "reg_port (reg s x) = p"
  shows "\<exists>s'. handle_port_death e p s = Some s' \<and> registry s' = x \<and> x \<notin> reg_heap s' \<and> chain (\<lambda>r. reg_next (reg s' r)) (unregistry s') rs"
proof -
  have "find_prev (\<lambda>r. reg_next (reg s r)) (\<lambda>r. reg_port (reg s r) = p) 0 (registry s) = Some (0, x)"
    using find_prev_chain [of "\<lambda>r. reg_next (reg s r)" "registry s" "[]" x rs "\<lambda>r. reg_port (reg s r) = p" 0] c p by simp
  then show ?thesis using c by (simp add: handle_port_death_def post_def free_reg_def Let_def)
qed

theorem handle_port_death_first_witness:
  "\<exists>s'. handle_port_death ex_env 101 ex_server = Some s' \<and> registry s' \<notin> reg_heap s' \<and> unregistry s' = 2"
proof -
  have c: "chain (\<lambda>r. reg_next (reg ex_server r)) (registry ex_server) (1 # [2])" by (simp add: ex_server_def)
  have "reg_port (reg ex_server 1) = 101" by (simp add: ex_server_def)
  from handle_port_death_first [OF c this, of ex_env] show ?thesis by auto
qed

end
