(* ===== verification/Pager_Files.thy ===== *)
theory Pager_Files
  imports Mach_Prelude
begin

text \<open>
  Paging files, \<open>kernel/builtin/inode_pager.c\<close>: the maps of used blocks, the files the pager
  allocates from, the structures of its memory objects with their maps of pages into a paging
  file, and the reclaim list of in-memory inodes.  The configuration is \<open>MACH_XP\<close> with \<open>MACH_VFS\<close>
  and without \<open>MACH_NBC\<close>.  The queues of the kernel (\<open>pager_files\<close>, \<open>istruct_queue\<close>) are lists;
  an array from \<open>kalloc\<close> is a function from indices to longwords.
\<close>

unbundle bit_operations_syntax

section \<open>Bit maps\<close>

definition setbit :: "(nat \<Rightarrow> 8 word) \<Rightarrow> nat \<Rightarrow> nat \<Rightarrow> 8 word" where
  "setbit a i = a(i div 8 := a (i div 8) OR push_bit (i mod 8) 1)"

definition clrbit :: "(nat \<Rightarrow> 8 word) \<Rightarrow> nat \<Rightarrow> nat \<Rightarrow> 8 word" where
  "clrbit a i = a(i div 8 := a (i div 8) AND NOT (push_bit (i mod 8) 1))"

definition isclr :: "(nat \<Rightarrow> 8 word) \<Rightarrow> nat \<Rightarrow> bool" where
  "isclr a i \<longleftrightarrow> a (i div 8) AND push_bit (i mod 8) 1 = 0"

definition howmany :: "nat \<Rightarrow> nat \<Rightarrow> nat" where
  "howmany x y = (x + (y - 1)) div y"

definition BYTEMASK :: "8 word" where
  "BYTEMASK = 0xff"

section \<open>Data\<close>

record pager_file =
  pf_ip :: ptr
  pf_count :: int
  pf_bmap :: "nat \<Rightarrow> 8 word"
  pf_npgs :: nat
  pf_pfree :: nat
  pf_prefer :: bool

datatype inode_pager_state = IS_OUT | IS_IN_MEMORY | IS_BUSY

datatype inode_ref = Ip ptr | Fs_ip nat nat nat

record istruct =
  client_count :: int
  dead_references :: int
  free_me :: bool
  use_count :: int
  is_state :: inode_pager_state
  is_pager :: nat
  is_pager_request :: nat
  is_pager_name :: nat
  pager_global :: nat
  pager_request_global :: nat
  is_errors :: int
  paging_shift :: nat
  is_size :: nat
  pf_info :: ptr
  pmap :: ptr
  queued :: bool
  cached :: bool
  paging :: bool
  swapfile :: bool
  is_inode :: inode_ref
  identity :: nat

record data_request =
  dr_pager :: nat
  dr_reply_to :: nat
  dr_offset :: nat

text \<open>
  A slot of the mount table: whether a file system is mounted there (\<open>m_bufp\<close>), and what the macros of
  the file-system configuration say of it; \<open>m_nodev\<close> is \<open>NO_MOUNT_DEVICE\<close>, \<open>fs_space\<close> is \<open>FS_PAGING_FREE_SPACE\<close>, which depends on the pass.
\<close>

record mount_slot =
  m_mounted :: bool
  m_nodev :: bool
  m_dev :: nat
  m_readonly :: bool
  m_bsize :: nat
  fs_space :: "nat \<Rightarrow> int"

text \<open>The calls to other parts of the kernel that a routine makes.\<close>

datatype 'd pg_call =
    Incr_inode ptr
  | Release_inode ptr
  | Release_vnode ptr
  | Hold_identity nat
  | Free_identity nat
  | Port_reference nat
  | Port_release nat
  | Port_deallocate nat
  | Port_set_add nat
  | Set_attributes nat bool
  | Vm_deallocate nat
  | Send_terminate nat
  | Init_swap_inode ptr
  | Put_inode ptr
  | Data_provided nat nat 'd
  | Data_unavailable nat nat
  | Data_error nat nat

record ('d, 'f) pg_state =
  pfile :: "ptr \<Rightarrow> pager_file"
  pager_files :: "ptr list"
  pager_file_count :: int
  istr :: "ptr \<Rightarrow> istruct"
  karr :: "ptr \<Rightarrow> nat \<Rightarrow> nat"
  kheap :: "ptr set"
  zheap :: "ptr set"
  istruct_queue :: "ptr list"
  istruct_qcount :: int
  istruct_qmax :: int
  istruct_released :: int
  i_pager :: "ptr \<Rightarrow> nat"
  i_pager_request :: "ptr \<Rightarrow> nat"
  inode_size :: "ptr \<Rightarrow> int"
  i_text :: "ptr \<Rightarrow> bool"
  inode_port_hashtable :: "nat \<Rightarrow> (nat \<times> ptr) list"
  data_request_queue :: "data_request list"
  receive_timeout :: bool
  paging_file_initialized :: bool
  use_paging_file :: bool
  inode_pager_default :: nat
  swap_preferred :: "nat \<Rightarrow> bool"
  swap_never :: "nat \<Rightarrow> bool"
  disk :: 'f
  calls :: "'d pg_call list"

text \<open>
  What the pager uses of the rest of the kernel: the allocators (given what is allocated, so that
  what they return may depend on it), the file system, the page size, and the values found in
  memory that has not been initialised.
\<close>

record ('d, 'f) pg_env =
  page_shift :: nat
  kalloc :: "ptr set \<Rightarrow> nat \<Rightarrow> ptr"
  zalloc :: "ptr set \<Rightarrow> ptr"
  junk_bit :: nat
  junk_map :: "nat \<Rightarrow> 8 word"
  minpagersize :: int
  u_identity :: nat
  i_dev :: "ptr \<Rightarrow> nat"
  i_fs :: "ptr \<Rightarrow> nat"
  i_number :: "ptr \<Rightarrow> nat"
  fs_bsize :: "ptr \<Rightarrow> nat"
  iget :: "nat \<Rightarrow> nat \<Rightarrow> nat \<Rightarrow> ptr"
  default_inode :: "'f \<Rightarrow> ptr option"
  vop_setattr :: "ptr \<Rightarrow> int \<Rightarrow> 'f \<Rightarrow> int \<times> 'f"
  vfs_statfs :: "ptr \<Rightarrow> 'f \<Rightarrow> int \<times> int \<times> int"
  vop_page_read :: "ptr \<Rightarrow> nat \<Rightarrow> 'f \<Rightarrow> int \<times> 'd \<times> 'f"
  vop_page_write :: "ptr \<Rightarrow> nat \<Rightarrow> 'd \<Rightarrow> bool \<Rightarrow> 'f \<Rightarrow> int \<times> 'f"
  object_copyin :: "nat \<Rightarrow> nat"
  object_copyout :: "nat \<Rightarrow> nat"
  mount :: "mount_slot list"
  root_paging_inode :: "nat \<Rightarrow> 'f \<Rightarrow> ptr"

definition atop :: "('d, 'f) pg_env \<Rightarrow> nat \<Rightarrow> nat" where
  "atop e x = u32 x div 2 ^ page_shift e"

definition ptoa :: "('d, 'f) pg_env \<Rightarrow> nat \<Rightarrow> nat" where
  "ptoa e x = u32 (x * 2 ^ page_shift e)"

definition NOPAGE :: nat where
  "NOPAGE = 2 ^ 32 - 1"

definition PAGEMAP_ENTRIES :: nat where
  "PAGEMAP_ENTRIES = 128"

definition INDIRECT_PAGEMAP :: "istruct \<Rightarrow> bool" where
  "INDIRECT_PAGEMAP i \<longleftrightarrow> is_size i * 4 > 512"

definition INDIRECT_PAGEMAP_ENTRIES :: "nat \<Rightarrow> nat" where
  "INDIRECT_PAGEMAP_ENTRIES npgs = (npgs - 1) div PAGEMAP_ENTRIES + 1"

section \<open>Blocks of a paging file\<close>

function first_clear :: "(nat \<Rightarrow> 8 word) \<Rightarrow> nat \<Rightarrow> nat" where
  "first_clear a i = (if i < 8 \<and> \<not> isclr a i then first_clear a (Suc i) else i)"
  by auto
termination by (relation "measure (\<lambda>(a, i). 8 - i)") auto

function scan_map :: "(nat \<Rightarrow> 8 word) \<Rightarrow> nat \<Rightarrow> nat \<Rightarrow> nat" where
  "scan_map a n bp = (if bp < n \<and> a bp = BYTEMASK then scan_map a n (Suc bp) else bp)"
  by auto
termination by (relation "measure (\<lambda>(a, n, bp). n - bp)") auto

declare first_clear.simps [simp del] scan_map.simps [simp del]

definition pf_allocate_page :: "('d, 'f) pg_env \<Rightarrow> pager_file \<Rightarrow> (nat option \<times> pager_file) option" where
  "pf_allocate_page e p = (if pf_pfree p = 0 then Some (None, p) else
     let n = howmany (pf_npgs p) 8; bp = scan_map (pf_bmap p) n 0;
         i = (if bp < n then first_clear (\<lambda>j. pf_bmap p (bp + j)) 0 else junk_bit e) in
     if bp * 8 + i > pf_npgs p then None
     else Some (Some (bp * 8 + i), p\<lparr>pf_bmap := setbit (pf_bmap p) (bp * 8 + i), pf_pfree := pf_pfree p - 1\<rparr>))"

definition pf_deallocate_page :: "nat \<Rightarrow> pager_file \<Rightarrow> pager_file option" where
  "pf_deallocate_page page p = (if page > pf_npgs p then None
     else Some (p\<lparr>pf_bmap := clrbit (pf_bmap p) page, pf_pfree := pf_pfree p + 1\<rparr>))"

section \<open>The paging files\<close>

definition upd_pf :: "ptr \<Rightarrow> (pager_file \<Rightarrow> pager_file) \<Rightarrow> ('d, 'f) pg_state \<Rightarrow> ('d, 'f) pg_state" where
  "upd_pf p f s = s\<lparr>pfile := (pfile s)(p := f (pfile s p))\<rparr>"

definition upd_is :: "ptr \<Rightarrow> (istruct \<Rightarrow> istruct) \<Rightarrow> ('d, 'f) pg_state \<Rightarrow> ('d, 'f) pg_state" where
  "upd_is z f s = s\<lparr>istr := (istr s)(z := f (istr s z))\<rparr>"

definition call :: "'d pg_call \<Rightarrow> ('d, 'f) pg_state \<Rightarrow> ('d, 'f) pg_state" where
  "call c s = s\<lparr>calls := calls s @ [c]\<rparr>"

text \<open>The structure of a new paging file, once its size is known.\<close>

definition enter_file :: "('d, 'f) pg_env \<Rightarrow> ptr \<Rightarrow> int \<Rightarrow> ('d, 'f) pg_state \<Rightarrow> (ptr \<times> ('d, 'f) pg_state) option" where
  "enter_file e p sz s =
    (let n = atop e (nat (sz mod 2 ^ 32)); b = kalloc e (kheap s) (howmany n 8) in
     if b = 0 then None
     else Some (p, upd_pf p (\<lambda>f. f\<lparr>pf_pfree := n, pf_npgs := n, pf_bmap := fold (\<lambda>i a. clrbit a i) [0..<n] (junk_map e), pf_prefer := False\<rparr>)
       (s\<lparr>kheap := insert b (kheap s), pager_files := pager_files s @ [p], pager_file_count := pager_file_count s + 1\<rparr>)))"

definition pf_file_init :: "('d, 'f) pg_env \<Rightarrow> ptr \<Rightarrow> int \<Rightarrow> ('d, 'f) pg_state \<Rightarrow> (ptr \<times> ('d, 'f) pg_state) option" where
  "pf_file_init e ip sz s =
    (if i_pager s ip \<noteq> 0 then Some (0, s)
     else let (error, d) = vop_setattr e ip (max sz (minpagersize e)) (disk s); s = s\<lparr>disk := d\<rparr> in
     if error \<noteq> 0 then Some (0, s)
     else let s = s\<lparr>inode_size := (inode_size s)(ip := sz)\<rparr>; p = kalloc e (kheap s) 36 in
     if p = 0 then None
     else let s = upd_pf p (\<lambda>f. f\<lparr>pf_ip := ip, pf_count := 0\<rparr>) (call (Incr_inode ip) (s\<lparr>kheap := insert p (kheap s)\<rparr>)) in
     if sz \<noteq> 0 then enter_file e p sz s
     else let (error, f_blocks, f_bsize) = vfs_statfs e ip (disk s) in
       if error \<noteq> 0 then Some (0, s\<lparr>kheap := kheap s - {p}\<rparr>)
       else enter_file e p (s32 (f_blocks * f_bsize)) s)"

definition pf_default_init :: "('d, 'f) pg_env \<Rightarrow> ('d, 'f) pg_state \<Rightarrow> ('d, 'f) pg_state option" where
  "pf_default_init e s = (case default_inode e (disk s) of
       None \<Rightarrow> Some s
     | Some ip \<Rightarrow> (case pf_file_init e ip 0 s of None \<Rightarrow> None | Some (p, s') \<Rightarrow> Some (call (Release_vnode ip) s')))"

text \<open>One pass of \<open>pf_find\<close> over the queue, and the passes.\<close>

definition pf_pass :: "bool \<Rightarrow> ('d, 'f) pg_state \<Rightarrow> ptr list \<Rightarrow> nat \<times> ptr \<Rightarrow> nat \<times> ptr" where
  "pf_pass only s = fold (\<lambda>p (mostspace, mostpf).
     if only \<and> \<not> pf_prefer (pfile s p) then (mostspace, mostpf)
     else if pf_pfree (pfile s p) > mostspace then (pf_pfree (pfile s p), p) else (mostspace, mostpf))"

function pf_passes :: "('d, 'f) pg_state \<Rightarrow> nat \<Rightarrow> nat \<times> ptr \<Rightarrow> nat \<times> ptr" where
  "pf_passes s pass m = (if pass < 4 then
     let m = pf_pass (pass < 2) s (pager_files s) m in if snd m \<noteq> 0 then m else pf_passes s (Suc pass) m else m)"
  by auto
termination by (relation "measure (\<lambda>(s, pass, m). 4 - pass)") auto

declare pf_passes.simps [simp del]

definition pf_find :: "('d, 'f) pg_state \<Rightarrow> ptr" where
  "pf_find s = (if pager_file_count s > 1 then snd (pf_passes s 0 (0, 0))
     else if pager_file_count s = 1 then hd (pager_files s) else 0)"

section \<open>Structures of memory objects\<close>

primrec ip_of :: "inode_ref \<Rightarrow> ptr" where
  "ip_of (Ip p) = p"
| "ip_of (Fs_ip a b c) = a"

text \<open>Releasing the inode of a structure taken from the reclaim list.\<close>

definition release_inode :: "('d, 'f) pg_env \<Rightarrow> ptr \<Rightarrow> ('d, 'f) pg_state \<Rightarrow> ('d, 'f) pg_state" where
  "release_inode e z s =
    (let ip = ip_of (is_inode (istr s z));
         s = upd_is z (\<lambda>i. i\<lparr>queued := False, is_inode := Fs_ip (i_dev e ip) (i_fs e ip) (i_number e ip), is_state := IS_BUSY\<rparr>) s in
     upd_is z (\<lambda>i. i\<lparr>is_state := IS_OUT\<rparr>) (call (Release_inode ip) s))"

primrec trim_queue :: "('d, 'f) pg_env \<Rightarrow> ptr list \<Rightarrow> ('d, 'f) pg_state \<Rightarrow> ('d, 'f) pg_state" where
  "trim_queue e [] s = s"
| "trim_queue e (z # zs) s = (if istruct_qcount s > istruct_qmax s then
     trim_queue e zs (release_inode e z
       (s\<lparr>istruct_queue := zs, istruct_qcount := istruct_qcount s - 1, istruct_released := istruct_released s + 1\<rparr>)) else s)"

definition unqueue :: "ptr \<Rightarrow> ('d, 'f) pg_state \<Rightarrow> ('d, 'f) pg_state" where
  "unqueue z s = (if queued (istr s z) then s\<lparr>istruct_queue := remove1 z (istruct_queue s), istruct_qcount := istruct_qcount s - 1\<rparr> else s)"

definition istruct_put :: "('d, 'f) pg_env \<Rightarrow> ptr \<Rightarrow> ('d, 'f) pg_state \<Rightarrow> ('d, 'f) pg_state" where
  "istruct_put e z s =
    (let s = upd_is z (\<lambda>i. i\<lparr>use_count := use_count i - 1\<rparr>) s;
         s = (if paging (istr s z) \<and> \<not> swapfile (istr s z) then
                let s = unqueue z s; idle = (use_count (istr s z) = 0); s = upd_is z (\<lambda>i. i\<lparr>queued := idle\<rparr>) s in
                if idle then s\<lparr>istruct_queue := istruct_queue s @ [z], istruct_qcount := istruct_qcount s + 1\<rparr> else s
              else s) in
     trim_queue e (istruct_queue s) s)"

definition istruct_get :: "('d, 'f) pg_env \<Rightarrow> ptr \<Rightarrow> ('d, 'f) pg_state \<Rightarrow> (ptr \<times> ('d, 'f) pg_state) option" where
  "istruct_get e z s =
    (if z = 0 then None
     else let s = upd_is z (\<lambda>i. i\<lparr>queued := False\<rparr>) (unqueue z (upd_is z (\<lambda>i. i\<lparr>use_count := use_count i + 1\<rparr>) s)) in
     case is_state (istr s z) of
       IS_BUSY \<Rightarrow> None
     | IS_IN_MEMORY \<Rightarrow> Some (ip_of (is_inode (istr s z)), s)
     | IS_OUT \<Rightarrow> (case is_inode (istr s z) of
           Ip p \<Rightarrow> None
         | Fs_ip d f n \<Rightarrow> let ip = iget e d f n in
             if ip = 0 then None
             else Some (ip, upd_is z (\<lambda>i. i\<lparr>is_inode := Ip ip, is_state := IS_IN_MEMORY\<rparr>)
               (s\<lparr>i_pager := (i_pager s)(ip := pager_global (istr s z)),
                  i_pager_request := (i_pager_request s)(ip := pager_request_global (istr s z)),
                  istruct_released := istruct_released s - 1\<rparr>))))"

text \<open>The first \<open>n\<close> longwords of an array set to a value.\<close>

definition fill :: "nat \<Rightarrow> nat \<Rightarrow> (nat \<Rightarrow> nat) \<Rightarrow> nat \<Rightarrow> nat" where
  "fill n v a = (\<lambda>i. if i < n then v else a i)"

definition pf_pager_create :: "('d, 'f) pg_env \<Rightarrow> ptr \<Rightarrow> nat \<Rightarrow> ('d, 'f) pg_state \<Rightarrow> ptr \<times> ('d, 'f) pg_state" where
  "pf_pager_create e p sz s =
    (let z = zalloc e (zheap s) in
     if z = 0 then (0, s)
     else let s = upd_is z (\<lambda>i. i\<lparr>pager_global := 0, pager_request_global := 0, is_pager := 0, is_pager_request := 0, is_size := atop e sz\<rparr>) s;
       n = is_size (istr s z); ind = INDIRECT_PAGEMAP (istr s z);
       a = kalloc e (kheap s) (if ind then INDIRECT_PAGEMAP_ENTRIES n * 4 else n * 4) in
     if a = 0 then (0, s)
     else let s = s\<lparr>zheap := insert z (zheap s), kheap := insert a (kheap s),
         karr := (karr s)(a := (if ind then fill (INDIRECT_PAGEMAP_ENTRIES n) 0 else fill n NOPAGE) (karr s a))\<rparr>;
       s = upd_is z (\<lambda>i. i\<lparr>pmap := a, client_count := 0, dead_references := 0, free_me := False, use_count := 1, paging := True, swapfile := True,
           is_inode := Ip (pf_ip (pfile s p)), is_state := IS_IN_MEMORY, identity := u_identity e, queued := False, is_errors := 0,
           paging_shift := 0, pf_info := p\<rparr>) s;
       s = upd_pf p (\<lambda>f. f\<lparr>pf_count := pf_count f + 1\<rparr>) (call (Hold_identity (u_identity e)) s) in
     (z, istruct_put e z s))"

datatype bflag = B_READ | B_WRITE

definition new_offset :: "('d, 'f) pg_env \<Rightarrow> nat \<Rightarrow> nat \<Rightarrow> nat" where
  "new_offset e f_offset page = u32 (f_offset mod 2 ^ page_shift e + ptoa e page)"

text \<open>The entry \<open>j\<close> of the array \<open>t\<close>, which is the map itself or a part of it.\<close>

definition pf_entry :: "('d, 'f) pg_env \<Rightarrow> ptr \<Rightarrow> ptr \<Rightarrow> nat \<Rightarrow> nat \<Rightarrow> bflag \<Rightarrow> ('d, 'f) pg_state \<Rightarrow> (nat option \<times> ('d, 'f) pg_state) option" where
  "pf_entry e z t j f_offset flag s =
    (if karr s t j = NOPAGE then
       if flag = B_READ then Some (None, s)
       else case pf_allocate_page e (pfile s (pf_info (istr s z))) of
           None \<Rightarrow> None
         | Some (None, p) \<Rightarrow> Some (None, s)
         | Some (Some newpage, p) \<Rightarrow> Some (Some (new_offset e f_offset newpage),
             s\<lparr>pfile := (pfile s)(pf_info (istr s z) := p), karr := (karr s)(t := (karr s t)(j := newpage))\<rparr>)
     else Some (Some (new_offset e f_offset (karr s t j)), s))"

definition pf_bmap_at :: "('d, 'f) pg_env \<Rightarrow> ptr \<Rightarrow> nat \<Rightarrow> bflag \<Rightarrow> ('d, 'f) pg_state \<Rightarrow> (nat option \<times> ('d, 'f) pg_state) option" where
  "pf_bmap_at e z f_offset flag s =
    (let i = istr s z; f_page = atop e f_offset in
     if f_page > is_size i then Some (None, s)
     else if INDIRECT_PAGEMAP i then
       let k = f_page div PAGEMAP_ENTRIES; j = f_page mod PAGEMAP_ENTRIES; t = karr s (pmap i) k in
       if t = 0 then
         if flag = B_READ then Some (None, s)
         else let t = kalloc e (kheap s) 512 in
           if t = 0 then Some (None, s)
           else pf_entry e z t j f_offset flag (s\<lparr>kheap := insert t (kheap s),
             karr := (karr s)(pmap i := (karr s (pmap i))(k := t), t := fill PAGEMAP_ENTRIES NOPAGE (karr s t))\<rparr>)
       else pf_entry e z t j f_offset flag s
     else pf_entry e z (pmap i) f_page f_offset flag s)"

definition pf_alloc :: "('d, 'f) pg_env \<Rightarrow> nat \<Rightarrow> ('d, 'f) pg_state \<Rightarrow> ptr \<times> ('d, 'f) pg_state" where
  "pf_alloc e sz s = (let p = pf_find s in if p = 0 then (0, s) else pf_pager_create e p sz s)"

text \<open>Returning the pages in the entries \<open>js\<close> of an array to the file \<open>p\<close>.\<close>

primrec free_slots :: "ptr \<Rightarrow> ptr \<Rightarrow> nat list \<Rightarrow> ('d, 'f) pg_state \<Rightarrow> ('d, 'f) pg_state option" where
  "free_slots p t [] s = Some s"
| "free_slots p t (j # js) s =
    (if karr s t j \<noteq> NOPAGE then
       case pf_deallocate_page (karr s t j) (pfile s p) of None \<Rightarrow> None | Some f \<Rightarrow> free_slots p t js (s\<lparr>pfile := (pfile s)(p := f)\<rparr>)
     else free_slots p t js s)"

primrec free_tables :: "ptr \<Rightarrow> ptr \<Rightarrow> nat list \<Rightarrow> ('d, 'f) pg_state \<Rightarrow> ('d, 'f) pg_state option" where
  "free_tables p a [] s = Some s"
| "free_tables p a (k # ks) s =
    (if karr s a k \<noteq> 0 then
       case free_slots p (karr s a k) [0..<PAGEMAP_ENTRIES] s of None \<Rightarrow> None
       | Some s' \<Rightarrow> free_tables p a ks (s'\<lparr>kheap := kheap s' - {karr s a k}\<rparr>)
     else free_tables p a ks s)"

definition pf_dealloc :: "('d, 'f) pg_env \<Rightarrow> ptr \<Rightarrow> ('d, 'f) pg_state \<Rightarrow> ('d, 'f) pg_state option" where
  "pf_dealloc e z s = (case istruct_get e z s of None \<Rightarrow> None | Some (ip, s) \<Rightarrow>
    (let i = istr s z; p = pf_info i in
     if p = 0 then None
     else case (if INDIRECT_PAGEMAP i then free_tables p (pmap i) [0..<INDIRECT_PAGEMAP_ENTRIES (is_size i)] s
                else free_slots p (pmap i) [0..<is_size i] s) of
       None \<Rightarrow> None
     | Some s \<Rightarrow> Some (call (Free_identity (identity i)) (upd_pf p (\<lambda>f. f\<lparr>pf_count := pf_count f - 1\<rparr>)
         (s\<lparr>kheap := kheap s - {pmap i}, zheap := zheap s - {z}\<rparr>)))))"

lemmas pager_file_defs [step_defs] = upd_pf_def upd_is_def call_def

end
