(* ===== verification/Pager_Server.thy ===== *)
theory Pager_Server
  imports Pager_Files
begin

text \<open>
  The inode pager as a server, \<open>kernel/builtin/inode_pager.c\<close>: the hash table from ports to the
  structures of memory objects, the queue of pagein requests, reading and writing pages, and the
  messages of the kernel.
\<close>

section \<open>Ports\<close>

definition INODE_PORT_HASH_COUNT :: nat where
  "INODE_PORT_HASH_COUNT = 127"

definition inode_port_hash :: "nat \<Rightarrow> nat" where
  "inode_port_hash name = (name mod 2 ^ 24) mod INODE_PORT_HASH_COUNT"

definition inode_port_hash_insert :: "nat \<Rightarrow> ptr \<Rightarrow> ('d, 'f) pg_state \<Rightarrow> ('d, 'f) pg_state" where
  "inode_port_hash_insert name z s = (let h = inode_port_hash name in
     s\<lparr>inode_port_hashtable := (inode_port_hashtable s)(h := inode_port_hashtable s h @ [(name, z)])\<rparr>)"

primrec entry_of :: "nat \<Rightarrow> (nat \<times> ptr) list \<Rightarrow> ptr" where
  "entry_of name [] = 0"
| "entry_of name (x # xs) = (if fst x = name then snd x else entry_of name xs)"

primrec del_entry :: "nat \<Rightarrow> (nat \<times> ptr) list \<Rightarrow> (nat \<times> ptr) list" where
  "del_entry name [] = []"
| "del_entry name (x # xs) = (if fst x = name then xs else x # del_entry name xs)"

definition inode_pager_lookup :: "nat \<Rightarrow> ('d, 'f) pg_state \<Rightarrow> ptr" where
  "inode_pager_lookup name s = entry_of name (inode_port_hashtable s (inode_port_hash name))"

text \<open>The reference \<open>inode_pager_lookup_external\<close> takes on the port is the one \<open>object_copyout\<close> consumes.\<close>

definition inode_pager_lookup_external :: "('d, 'f) pg_env \<Rightarrow> nat \<Rightarrow> ('d, 'f) pg_state \<Rightarrow> ptr" where
  "inode_pager_lookup_external e object s = inode_pager_lookup (object_copyout e object) s"

definition inode_port_hash_delete :: "nat \<Rightarrow> ('d, 'f) pg_state \<Rightarrow> ('d, 'f) pg_state" where
  "inode_port_hash_delete name s = (let h = inode_port_hash name in
     s\<lparr>inode_port_hashtable := (inode_port_hashtable s)(h := del_entry name (inode_port_hashtable s h))\<rparr>)"

section \<open>Swapping to file systems\<close>

datatype kern_return = KERN_SUCCESS | KERN_FAILURE | KERN_INVALID_ARGUMENT | KERN_RESOURCE_SHORTAGE | KERN_NO_ACCESS

primrec swap_scan :: "nat \<Rightarrow> bool \<Rightarrow> bool \<Rightarrow> mount_slot list \<Rightarrow> nat \<Rightarrow> ('d, 'f) pg_state \<Rightarrow> kern_return \<times> ('d, 'f) pg_state" where
  "swap_scan device prefer never [] i s = (KERN_SUCCESS, s)"
| "swap_scan device prefer never (m # ms) i s =
    (if m_dev m = device then
       if m_mounted m then swap_scan device prefer never ms (Suc i)
         (s\<lparr>swap_preferred := (swap_preferred s)(i := prefer), swap_never := (swap_never s)(i := never)\<rparr>)
       else (KERN_INVALID_ARGUMENT, s)
     else swap_scan device prefer never ms (Suc i) s)"

definition inode_swap_preference :: "('d, 'f) pg_env \<Rightarrow> bool \<Rightarrow> nat option \<Rightarrow> bool \<Rightarrow> bool \<Rightarrow> ('d, 'f) pg_state \<Rightarrow> kern_return \<times> ('d, 'f) pg_state" where
  "inode_swap_preference e suser device prefer never s =
    (if \<not> suser then (KERN_NO_ACCESS, s)
     else case device of None \<Rightarrow> (KERN_INVALID_ARGUMENT, s) | Some d \<Rightarrow> swap_scan d prefer never (mount e) 0 s)"

text \<open>Whether pass \<open>pass\<close> of \<open>iswap_allocate\<close> considers the file system in slot \<open>i\<close>.\<close>

definition swap_admits :: "('d, 'f) pg_env \<Rightarrow> nat \<Rightarrow> nat \<Rightarrow> ('d, 'f) pg_state \<Rightarrow> nat \<Rightarrow> bool" where
  "swap_admits e bsize pass s i \<longleftrightarrow>
    (let m = mount e ! i in m_mounted m \<and> \<not> m_nodev m \<and> \<not> m_readonly m \<and> \<not> swap_never s i
       \<and> (swap_preferred s i \<or> pass \<noteq> 1 \<and> \<not> (pass \<le> 2 \<and> m_bsize m < bsize) \<and> \<not> (pass \<le> 3 \<and> m_bsize m > bsize)))"

definition swap_pass :: "('d, 'f) pg_env \<Rightarrow> nat \<Rightarrow> nat \<Rightarrow> ('d, 'f) pg_state \<Rightarrow> int \<times> nat option \<Rightarrow> int \<times> nat option" where
  "swap_pass e bsize pass s = fold (\<lambda>i (mostf, mostidx).
     if swap_admits e bsize pass s i \<and> fs_space (mount e ! i) pass > mostf then (fs_space (mount e ! i) pass, Some i) else (mostf, mostidx))
     [0..<length (mount e)]"

function swap_passes :: "('d, 'f) pg_env \<Rightarrow> nat \<Rightarrow> nat \<Rightarrow> ('d, 'f) pg_state \<Rightarrow> int \<times> nat option \<Rightarrow> int \<times> nat option" where
  "swap_passes e bsize pass s m = (if pass \<le> 5 \<and> snd m = None then swap_passes e bsize (Suc pass) s (swap_pass e bsize pass s m) else m)"
  by auto
termination by (relation "measure (\<lambda>(e, b, pass, s, m). 6 - pass)") auto

declare swap_passes.simps [simp del]

definition iswap_allocate :: "('d, 'f) pg_env \<Rightarrow> nat \<Rightarrow> ('d, 'f) pg_state \<Rightarrow> ptr \<times> ('d, 'f) pg_state" where
  "iswap_allocate e bsize s = (case snd (swap_passes e bsize 1 s (0, None)) of
       None \<Rightarrow> (0, s)
     | Some idx \<Rightarrow> let ip = root_paging_inode e idx (disk s) in if ip = 0 then (0, s) else (ip, call (Init_swap_inode ip) s))"

section \<open>Memory objects for inodes\<close>

function block_shift :: "nat \<Rightarrow> nat \<Rightarrow> nat" where
  "block_shift pg block_size = (if block_size > pg then Suc (block_shift pg (block_size div 2)) else 0)"
  by auto
termination by (relation "measure (\<lambda>(pg, b). b)") auto

declare block_shift.simps [simp del]

definition inode_pager_create :: "('d, 'f) pg_env \<Rightarrow> ptr \<Rightarrow> bool \<Rightarrow> ('d, 'f) pg_state \<Rightarrow> ptr \<times> ('d, 'f) pg_state" where
  "inode_pager_create e ip pag s =
    (let z = zalloc e (zheap s) in
     if z = 0 then (0, s)
     else let s = upd_is z (\<lambda>i. i\<lparr>pager_global := 0, pager_request_global := 0, is_pager := 0, is_pager_request := 0,
           client_count := 0, dead_references := 0, free_me := False, use_count := 1, paging := pag, swapfile := False,
           is_state := IS_IN_MEMORY, is_inode := Ip ip, identity := u_identity e, queued := False, is_errors := 0,
           paging_shift := (if pag then block_shift (2 ^ page_shift e) (fs_bsize e ip) else 0)\<rparr>)
         (s\<lparr>zheap := insert z (zheap s), i_pager := (i_pager s)(ip := 0), i_pager_request := (i_pager_request s)(ip := 0)\<rparr>) in
     (z, istruct_put e z (call (Incr_inode ip) (call (Hold_identity (u_identity e)) s))))"

text \<open>The port that \<open>port_allocate\<close> gives is the argument \<open>port\<close>; the result is \<open>ip->i_vm_info->pager\<close>.\<close>

definition inode_pager_setup :: "('d, 'f) pg_env \<Rightarrow> ptr \<Rightarrow> bool \<Rightarrow> bool \<Rightarrow> nat \<Rightarrow> ('d, 'f) pg_state \<Rightarrow> (nat \<times> ('d, 'f) pg_state) option" where
  "inode_pager_setup e ip is_text can_cache port s =
    (if ip = 0 then Some (0, s)
     else let s = (if is_text then s\<lparr>i_text := (i_text s)(ip := True)\<rparr> else s);
       finish = (\<lambda>s. if i_pager s ip = 0 then None else Some (i_pager s ip, call (Port_reference (i_pager s ip)) s)) in
     if i_pager s ip = 0 then
       if \<exists>p\<in>set (pager_files s). pf_ip (pfile s p) = ip then Some (0, s)
       else let (z, s) = inode_pager_create e ip False s in
         if z = 0 then finish s
         else let s = inode_port_hash_insert port z (call (Port_set_add port) (upd_is z (\<lambda>i. i\<lparr>is_pager := port\<rparr>) s)) in
           finish (upd_is z (\<lambda>i. i\<lparr>pager_global := object_copyin e port, cached := can_cache\<rparr>)
             (s\<lparr>i_pager := (i_pager s)(ip := object_copyin e port)\<rparr>))
     else let z = inode_pager_lookup (i_pager s ip) s in
       finish (if z \<noteq> 0 \<and> identity (istr s z) \<noteq> 0 then
         upd_is z (\<lambda>i. i\<lparr>identity := u_identity e\<rparr>) (call (Hold_identity (u_identity e)) (call (Free_identity (identity (istr s z))) s)) else s))"

text \<open>\<open>refs\<close> is the reference count of the port at the time of the call.\<close>

definition inode_pager_no_more_senders :: "nat \<Rightarrow> int \<Rightarrow> int \<Rightarrow> bool" where
  "inode_pager_no_more_senders object dead refs \<longleftrightarrow> object = 0 \<or> refs - dead \<le> 3"

text \<open>The structure is freed by the last reference.\<close>

definition free_istruct :: "('d, 'f) pg_env \<Rightarrow> ptr \<Rightarrow> ('d, 'f) pg_state \<Rightarrow> ('d, 'f) pg_state option" where
  "free_istruct e z s = (if swapfile (istr s z) then pf_dealloc e z s
     else Some (call (Free_identity (identity (istr s z))) (s\<lparr>zheap := zheap s - {z}\<rparr>)))"

text \<open>
  A release in two parts: while its caller sends the termination message and gives up its
  reference, other calls may be handled.
\<close>

definition release_begin :: "('d, 'f) pg_env \<Rightarrow> nat \<Rightarrow> int \<Rightarrow> ('d, 'f) pg_state \<Rightarrow> ptr \<times> ('d, 'f) pg_state" where
  "release_begin e object refs s =
    (let z = inode_pager_lookup_external e object s;
       s = (if z \<noteq> 0 then let s = upd_is z (\<lambda>i. i\<lparr>dead_references := dead_references i + 1\<rparr>) s in
              if inode_pager_no_more_senders object (dead_references (istr s z)) refs then call (Send_terminate object) s else s
            else s) in
     (z, if object \<noteq> 0 then call (Port_release object) s else s))"

definition release_end :: "('d, 'f) pg_env \<Rightarrow> ptr \<Rightarrow> ('d, 'f) pg_state \<Rightarrow> ('d, 'f) pg_state option" where
  "release_end e z s =
    (if z \<noteq> 0 then let s = upd_is z (\<lambda>i. i\<lparr>dead_references := dead_references i - 1\<rparr>) s in
       if dead_references (istr s z) = 0 \<and> free_me (istr s z) then free_istruct e z s else Some s
     else Some s)"

definition inode_pager_release :: "('d, 'f) pg_env \<Rightarrow> nat \<Rightarrow> int \<Rightarrow> ('d, 'f) pg_state \<Rightarrow> ('d, 'f) pg_state option" where
  "inode_pager_release e object refs s = (let (z, s) = release_begin e object refs s in release_end e z s)"

definition inode_pager_active :: "('d, 'f) pg_env \<Rightarrow> nat \<Rightarrow> ('d, 'f) pg_state \<Rightarrow> bool" where
  "inode_pager_active e pager s = (let z = inode_pager_lookup_external e pager s in pager \<noteq> 0 \<and> z \<noteq> 0 \<and> paging (istr s z))"

section \<open>Pages\<close>

definition EINVAL :: int where
  "EINVAL = 22"

definition EIO :: int where
  "EIO = 5"

definition page_size :: "('d, 'f) pg_env \<Rightarrow> nat" where
  "page_size e = 2 ^ page_shift e"

text \<open>The offset of a page in the file that holds it.\<close>

definition actual_offset :: "('d, 'f) pg_env \<Rightarrow> ptr \<Rightarrow> nat \<Rightarrow> bflag \<Rightarrow> ('d, 'f) pg_state \<Rightarrow> (nat option \<times> ('d, 'f) pg_state) option" where
  "actual_offset e z offset flag s = (if swapfile (istr s z) then pf_bmap_at e z offset flag s else Some (Some offset, s))"

definition is_page_initialize :: "('d, 'f) pg_env \<Rightarrow> ptr \<Rightarrow> ptr \<Rightarrow> nat \<Rightarrow> 'd \<Rightarrow> ('d, 'f) pg_state \<Rightarrow> ('d, 'f) pg_state option" where
  "is_page_initialize e z ip offset d s = (case actual_offset e z offset B_READ s of
       None \<Rightarrow> None
     | Some (None, s) \<Rightarrow> Some s
     | Some (Some a, s) \<Rightarrow> Some (s\<lparr>disk := snd (vop_page_write e ip (u32 (a * 2 ^ paging_shift (istr s z))) d True (disk s))\<rparr>))"

definition is_page_read :: "('d, 'f) pg_env \<Rightarrow> ptr \<Rightarrow> ptr \<Rightarrow> nat \<Rightarrow> ('d, 'f) pg_state \<Rightarrow> (int \<times> 'd option \<times> ('d, 'f) pg_state) option" where
  "is_page_read e z ip offset s = (case actual_offset e z offset B_READ s of
       None \<Rightarrow> None
     | Some (None, s) \<Rightarrow> Some (EINVAL, None, s)
     | Some (Some a, s) \<Rightarrow> let (ret, d, f) = vop_page_read e ip (u32 (a * 2 ^ paging_shift (istr s z))) (disk s) in Some (ret, Some d, s\<lparr>disk := f\<rparr>))"

definition is_page_write :: "('d, 'f) pg_env \<Rightarrow> ptr \<Rightarrow> ptr \<Rightarrow> nat \<Rightarrow> 'd \<Rightarrow> ('d, 'f) pg_state \<Rightarrow> ('d, 'f) pg_state option" where
  "is_page_write e z ip offset d s = (case actual_offset e z offset B_WRITE s of
       None \<Rightarrow> None
     | Some (None, s) \<Rightarrow> Some s
     | Some (Some a, s) \<Rightarrow>
         let (error, f) = vop_page_write e ip (u32 (a * 2 ^ paging_shift (istr s z))) d False (disk s); s = s\<lparr>disk := f\<rparr> in
         Some (if error \<noteq> 0 then upd_is z (\<lambda>i. i\<lparr>is_errors := is_errors i + 1\<rparr>) s else s))"

definition inode_pagein :: "('d, 'f) pg_env \<Rightarrow> nat \<Rightarrow> nat \<Rightarrow> nat \<Rightarrow> nat \<Rightarrow> ('d, 'f) pg_state \<Rightarrow> ('d, 'f) pg_state option" where
  "inode_pagein e pager reply_to offset len s =
    (if len \<noteq> page_size e then None
     else Some (s\<lparr>data_request_queue := data_request_queue s @ [\<lparr>dr_pager = pager, dr_reply_to = reply_to, dr_offset = offset\<rparr>],
       receive_timeout := True\<rparr>))"

text \<open>The answer to a request, for the result of reading the page.\<close>

definition answer :: "int \<Rightarrow> 'd option \<Rightarrow> data_request \<Rightarrow> 'd pg_call option" where
  "answer ret d r = (if ret = 0 then map_option (Data_provided (dr_reply_to r) (dr_offset r)) d
     else if ret = EINVAL then Some (Data_unavailable (dr_reply_to r) (dr_offset r))
     else if ret = EIO then Some (Data_error (dr_reply_to r) (dr_offset r)) else None)"

definition inode_pager_timeout :: "('d, 'f) pg_env \<Rightarrow> ('d, 'f) pg_state \<Rightarrow> ('d, 'f) pg_state option" where
  "inode_pager_timeout e s = (case data_request_queue s of
       [] \<Rightarrow> Some (s\<lparr>receive_timeout := False\<rparr>)
     | r # rs \<Rightarrow> let s = s\<lparr>data_request_queue := rs\<rparr>; z = inode_pager_lookup (dr_pager r) s in
         if z = 0 then Some s
         else if is_errors (istr s z) \<noteq> 0 then Some (call (Data_error (dr_reply_to r) (dr_offset r)) s)
         else (case istruct_get e z s of None \<Rightarrow> None
           | Some (ip, s) \<Rightarrow> (case is_page_read e z ip (dr_offset r) s of None \<Rightarrow> None
             | Some (ret, d, s) \<Rightarrow> (case answer ret d r of None \<Rightarrow> None
               | Some c \<Rightarrow> Some (istruct_put e z (call c s))))))"

primrec timeouts :: "('d, 'f) pg_env \<Rightarrow> nat \<Rightarrow> ('d, 'f) pg_state \<Rightarrow> ('d, 'f) pg_state option" where
  "timeouts e 0 s = Some s"
| "timeouts e (Suc n) s = (case inode_pager_timeout e s of None \<Rightarrow> None | Some s \<Rightarrow> timeouts e n s)"

definition round_page :: "('d, 'f) pg_env \<Rightarrow> nat \<Rightarrow> nat" where
  "round_page e n = u32 (n + (page_size e - 1)) div page_size e * page_size e"

text \<open>The number of rounds of the loops over \<open>data_cnt\<close> bytes, after the rounding of a part of a page.\<close>

definition page_count :: "('d, 'f) pg_env \<Rightarrow> nat \<Rightarrow> nat" where
  "page_count e data_cnt = (if data_cnt mod page_size e \<noteq> 0 then round_page e data_cnt else data_cnt) div page_size e"

primrec each_page :: "(nat \<Rightarrow> ('d, 'f) pg_state \<Rightarrow> ('d, 'f) pg_state option) \<Rightarrow> nat list \<Rightarrow> ('d, 'f) pg_state \<Rightarrow> ('d, 'f) pg_state option" where
  "each_page f [] s = Some s"
| "each_page f (k # ks) s = (case f k s of None \<Rightarrow> None | Some s \<Rightarrow> each_page f ks s)"

text \<open>The data of a message is a function from the number of a page of it to its contents.\<close>

definition inode_data_initialize :: "('d, 'f) pg_env \<Rightarrow> nat \<Rightarrow> nat \<Rightarrow> (nat \<Rightarrow> 'd) \<Rightarrow> nat \<Rightarrow> ('d, 'f) pg_state \<Rightarrow> ('d, 'f) pg_state option" where
  "inode_data_initialize e pager offset dat data_cnt s =
    (let z = inode_pager_lookup pager s in case istruct_get e z s of None \<Rightarrow> None
     | Some (ip, s) \<Rightarrow> (case each_page (\<lambda>k. is_page_initialize e z ip (u32 (offset + k * page_size e)) (dat k)) [0..<page_count e data_cnt] s of
         None \<Rightarrow> None | Some s \<Rightarrow> Some (call (Vm_deallocate (page_count e data_cnt * page_size e)) (istruct_put e z s))))"

definition inode_data_write :: "('d, 'f) pg_env \<Rightarrow> nat \<Rightarrow> nat \<Rightarrow> (nat \<Rightarrow> 'd) \<Rightarrow> nat \<Rightarrow> ('d, 'f) pg_state \<Rightarrow> ('d, 'f) pg_state option" where
  "inode_data_write e pager offset dat data_cnt s =
    (let z = inode_pager_lookup pager s in case istruct_get e z s of None \<Rightarrow> None
     | Some (ip, s) \<Rightarrow> (case each_page (\<lambda>k. is_page_write e z ip (u32 (offset + k * page_size e)) (dat k)) [0..<page_count e data_cnt] s of
         None \<Rightarrow> None | Some s \<Rightarrow> timeouts e 4 (call (Vm_deallocate (page_count e data_cnt * page_size e)) (istruct_put e z s))))"

section \<open>Life of a memory object\<close>

definition inode_pager_create_pager :: "('d, 'f) pg_env \<Rightarrow> nat \<Rightarrow> nat \<Rightarrow> nat \<Rightarrow> nat \<Rightarrow> nat \<Rightarrow> nat \<Rightarrow> ('d, 'f) pg_state \<Rightarrow> (kern_return \<times> ('d, 'f) pg_state) option" where
  "inode_pager_create_pager e old_pager new_pager new_size new_pager_request new_pager_name new_page_size s =
    (if old_pager \<noteq> inode_pager_default s then Some (KERN_FAILURE, s)
     else if new_page_size \<noteq> page_size e then Some (KERN_INVALID_ARGUMENT, s)
     else let associate = (\<lambda>z s. inode_port_hash_insert new_pager z (upd_is z (\<lambda>i. i\<lparr>is_pager := new_pager, is_pager_request := new_pager_request,
            pager_request_global := 0, is_pager_name := new_pager_name\<rparr>) s));
          adopt = (\<lambda>z. upd_is z (\<lambda>i. i\<lparr>client_count := client_count i + 1, pager_global := object_copyin e new_pager\<rparr>)) in
     if use_paging_file s then
       case (if paging_file_initialized s then Some s else map_option (\<lambda>s. s\<lparr>paging_file_initialized := True\<rparr>) (pf_default_init e s)) of
         None \<Rightarrow> None
       | Some s \<Rightarrow> let (z, s) = pf_alloc e new_size s in
           if z = 0 then Some (KERN_RESOURCE_SHORTAGE, s)
           else Some (KERN_SUCCESS, call (Port_set_add new_pager) (associate z (adopt z s)))
     else let (ip, s) = iswap_allocate e (page_size e) s in
       if ip = 0 then Some (KERN_RESOURCE_SHORTAGE, s)
       else let (z, s) = inode_pager_create e ip True s in
         if z = 0 then Some (KERN_RESOURCE_SHORTAGE, s)
         else let s = adopt z s; s = s\<lparr>i_pager := (i_pager s)(ip := pager_global (istr s z))\<rparr> in
           Some (KERN_SUCCESS, call (Port_set_add new_pager) (call (Put_inode ip) (associate z s))))"

definition inode_pager_init_pager :: "('d, 'f) pg_env \<Rightarrow> nat \<Rightarrow> nat \<Rightarrow> nat \<Rightarrow> nat \<Rightarrow> ('d, 'f) pg_state \<Rightarrow> (kern_return \<times> ('d, 'f) pg_state) option" where
  "inode_pager_init_pager e pager pager_request pager_name pager_page_size s =
    (if pager_page_size \<noteq> page_size e then Some (KERN_FAILURE, s)
     else let z = inode_pager_lookup pager s in
     if z = 0 then Some (KERN_FAILURE, s)
     else let s = upd_is z (\<lambda>i. i\<lparr>client_count := client_count i + 1, is_pager_request := pager_request, is_pager_name := pager_name\<rparr>) s;
         s = (if pager_request_global (istr s z) \<noteq> 0 then call (Port_release (pager_request_global (istr s z))) s else s);
         s = upd_is z (\<lambda>i. i\<lparr>pager_request_global := object_copyin e pager_request\<rparr>) s in
     case istruct_get e z s of None \<Rightarrow> None
     | Some (ip, s) \<Rightarrow> Some (KERN_SUCCESS, call (Set_attributes pager_request (cached (istr s z)))
         (istruct_put e z (s\<lparr>i_pager_request := (i_pager_request s)(ip := pager_request_global (istr s z))\<rparr>))))"

text \<open>The parts of \<open>inode_pager_terminate_object\<close>: the rights that came with the message, the inode, the names of the ports.\<close>

definition drop_rights :: "nat \<Rightarrow> nat \<Rightarrow> ('d, 'f) pg_state \<Rightarrow> ('d, 'f) pg_state" where
  "drop_rights pager_name pager_request s =
    (let s = (if pager_name \<noteq> 0 then call (Port_deallocate pager_name) s else s) in
     if pager_request \<noteq> 0 then call (Port_deallocate pager_request) s else s)"

definition drop_inode :: "('d, 'f) pg_env \<Rightarrow> ptr \<Rightarrow> ('d, 'f) pg_state \<Rightarrow> ('d, 'f) pg_state option" where
  "drop_inode e z s = (if swapfile (istr s z) then Some s
     else case istruct_get e z s of None \<Rightarrow> None
       | Some (ip, s) \<Rightarrow> Some (call (Release_inode ip) (s\<lparr>i_text := (i_text s)(ip := False), i_pager := (i_pager s)(ip := 0)\<rparr>)))"

definition drop_names :: "ptr \<Rightarrow> ('d, 'f) pg_state \<Rightarrow> ('d, 'f) pg_state" where
  "drop_names z s =
    (let s = (if pager_global (istr s z) \<noteq> 0 then upd_is z (\<lambda>i. i\<lparr>pager_global := 0\<rparr>) (call (Port_release (pager_global (istr s z))) s) else s) in
     if pager_request_global (istr s z) \<noteq> 0 then
       upd_is z (\<lambda>i. i\<lparr>pager_request_global := 0\<rparr>) (call (Port_release (pager_request_global (istr s z))) s) else s)"

definition inode_pager_terminate_object :: "('d, 'f) pg_env \<Rightarrow> nat \<Rightarrow> nat \<Rightarrow> nat \<Rightarrow> int \<Rightarrow> ('d, 'f) pg_state \<Rightarrow> ('d, 'f) pg_state option" where
  "inode_pager_terminate_object e pager pager_request pager_name refs s =
    (let z = inode_pager_lookup pager s; s = drop_rights pager_name pager_request s in
     if z = 0 then Some s
     else let s = upd_is z (\<lambda>i. i\<lparr>client_count := client_count i - 1\<rparr>) s in
     if \<not> inode_pager_no_more_senders (pager_global (istr s z)) (dead_references (istr s z)) refs then Some s
     else case drop_inode e z s of
       None \<Rightarrow> None
     | Some s \<Rightarrow>
       let s = drop_names z s;
         s = unqueue z (call (Port_deallocate (is_pager (istr s z))) (inode_port_hash_delete (is_pager (istr s z)) s)) in
       if dead_references (istr s z) = 0 then free_istruct e z s
       else Some (upd_is z (\<lambda>i. i\<lparr>free_me := True\<rparr>) s))"

definition inode_pager_bootstrap :: "int \<Rightarrow> ('d, 'f) pg_state \<Rightarrow> ('d, 'f) pg_state" where
  "inode_pager_bootstrap ninode s = s\<lparr>istruct_queue := [], istruct_qcount := 0, istruct_qmax := ninode div 4, istruct_released := 0,
     swap_preferred := (\<lambda>i. False), swap_never := (\<lambda>i. i = 0), pager_files := [], pager_file_count := 0\<rparr>"

section \<open>Messages\<close>

datatype 'd pg_event =
    Create nat nat nat nat
  | Init nat nat nat nat
  | Terminate nat nat nat int
  | Request nat nat nat
  | Timeout
  | Write nat nat "nat \<Rightarrow> 'd" nat
  | Initialize nat nat "nat \<Rightarrow> 'd" nat
  | Setup ptr bool bool nat
  | Release_begin nat int
  | Release_end ptr

primrec pg_step :: "('d, 'f) pg_env \<Rightarrow> 'd pg_event \<Rightarrow> ('d, 'f) pg_state \<Rightarrow> ('d, 'f) pg_state option" where
  "pg_step e (Create new sz req nam) s = map_option snd (inode_pager_create_pager e (inode_pager_default s) new sz req nam (page_size e) s)"
| "pg_step e (Init pager req nam psz) s = map_option snd (inode_pager_init_pager e pager req nam psz s)"
| "pg_step e (Terminate pager req nam refs) s = inode_pager_terminate_object e pager req nam refs s"
| "pg_step e (Request pager reply off) s = inode_pagein e pager reply off (page_size e) s"
| "pg_step e Timeout s = inode_pager_timeout e s"
| "pg_step e (Write pager off dat n) s = inode_data_write e pager off dat n s"
| "pg_step e (Initialize pager off dat n) s = inode_data_initialize e pager off dat n s"
| "pg_step e (Setup ip is_txt cache port) s = map_option snd (inode_pager_setup e ip is_txt cache port s)"
| "pg_step e (Release_begin object refs) s = Some (snd (release_begin e object refs s))"
| "pg_step e (Release_end z) s = release_end e z s"

end
