(* ===== verification/Pager_Blocks.thy ===== *)
theory Pager_Blocks
  imports Pager_Server
begin

text \<open>
  The blocks of a paging file: the map of used blocks is a set, allocation takes the least free
  block, and the count of free blocks is exact.  Which paging file \<open>pf_find\<close> chooses.
\<close>

section \<open>Bit maps are sets\<close>

lemma isclr_bit: "isclr a i \<longleftrightarrow> \<not> bit (a (i div 8)) (i mod 8)"
  by (simp add: isclr_def and_exp_eq_0_iff_not_bit)

lemma mod8_eqI: "i mod 8 = j mod 8 \<Longrightarrow> i div 8 = j div 8 \<Longrightarrow> i = (j::nat)"
  by (metis div_mult_mod_eq)

lemma isclr_setbit [simp]: "isclr (setbit a i) j \<longleftrightarrow> isclr a j \<and> j \<noteq> i"
proof -
  have "bit (push_bit (i mod 8) 1 :: 8 word) (j mod 8) \<longleftrightarrow> i mod 8 = j mod 8"
    by (simp add: bit_simps) metis
  then show ?thesis using mod8_eqI [of i j] by (auto simp: isclr_bit setbit_def bit_or_iff)
qed

lemma isclr_clrbit [simp]: "isclr (clrbit a i) j \<longleftrightarrow> isclr a j \<or> j = i"
proof -
  have "bit (push_bit (i mod 8) 1 :: 8 word) (j mod 8) \<longleftrightarrow> i mod 8 = j mod 8"
    by (simp add: bit_simps) metis
  then show ?thesis using mod8_eqI [of i j] by (auto simp: isclr_bit clrbit_def bit_and_iff bit_not_iff)
qed

lemma isclr_fold [simp]: "isclr (fold (\<lambda>i a. clrbit a i) xs a) j \<longleftrightarrow> isclr a j \<or> j \<in> set xs"
  by (induction xs arbitrary: a) auto

lemma full_byte: "a = BYTEMASK \<longleftrightarrow> (\<forall>i<8. bit a i)" for a :: "8 word"
proof -
  have "BYTEMASK = mask 8" by (simp add: BYTEMASK_def mask_eq_exp_minus_1)
  then show ?thesis by (auto simp: bit_eq_iff bit_mask_iff)
qed

lemma scan_map_spec:
  "bp \<le> n \<Longrightarrow> scan_map a n bp \<le> n \<and> bp \<le> scan_map a n bp \<and> (\<forall>b. bp \<le> b \<and> b < scan_map a n bp \<longrightarrow> a b = BYTEMASK)
     \<and> (scan_map a n bp < n \<longrightarrow> a (scan_map a n bp) \<noteq> BYTEMASK)"
proof (induction a n bp rule: scan_map.induct)
  case (1 a n bp)
  show ?case
  proof (cases "bp < n \<and> a bp = BYTEMASK")
    case True
    then have "scan_map a n bp = scan_map a n (Suc bp)" by (simp add: scan_map.simps [of a n bp])
    then show ?thesis using 1 True by (metis Suc_leI Suc_leD le_antisym not_less_eq_eq)
  next
    case False
    have "scan_map a n bp = bp" by (simp only: scan_map.simps [of a n bp] False if_False)
    then show ?thesis using False 1(2) by auto
  qed
qed

lemma first_clear_spec:
  "i \<le> 8 \<Longrightarrow> first_clear a i \<le> 8 \<and> i \<le> first_clear a i \<and> (\<forall>j. i \<le> j \<and> j < first_clear a i \<longrightarrow> \<not> isclr a j)
     \<and> (first_clear a i < 8 \<longrightarrow> isclr a (first_clear a i))"
proof (induction a i rule: first_clear.induct)
  case (1 a i)
  show ?case
  proof (cases "i < 8 \<and> \<not> isclr a i")
    case True
    then have "first_clear a i = first_clear a (Suc i)" by (simp add: first_clear.simps [of a i])
    then show ?thesis using 1 True by (metis Suc_leI Suc_leD le_antisym not_less_eq_eq)
  next
    case False
    have "first_clear a i = i" by (simp only: first_clear.simps [of a i] False if_False)
    then show ?thesis using False 1(2) by auto
  qed
qed

section \<open>Free blocks\<close>

definition pf_used :: "pager_file \<Rightarrow> nat set" where
  "pf_used p = {i. i < pf_npgs p \<and> \<not> isclr (pf_bmap p) i}"

definition pf_ok :: "pager_file \<Rightarrow> bool" where
  "pf_ok p \<longleftrightarrow> card (pf_used p) + pf_pfree p = pf_npgs p"

lemma pf_used_finite [simp]: "finite (pf_used p)"
  by (simp add: pf_used_def)

text \<open>The scan finds the least clear bit, if there is one among the first \<open>n\<close>.\<close>

lemma scan_least:
  fixes a :: "nat \<Rightarrow> 8 word" and n :: nat
  defines "bp \<equiv> scan_map a (howmany n 8) 0"
  defines "p \<equiv> bp * 8 + first_clear (\<lambda>j. a (bp + j)) 0"
  assumes q: "q < n" "isclr a q"
  shows "bp < howmany n 8" and "isclr a p" and "\<forall>j<p. \<not> isclr a j" and "p \<le> q"
proof -
  let ?h = "howmany n 8" and ?i = "first_clear (\<lambda>j. a (bp + j)) 0"
  have S: "bp \<le> ?h" "\<forall>b<bp. a b = BYTEMASK" "bp < ?h \<longrightarrow> a bp \<noteq> BYTEMASK"
    using scan_map_spec [of 0 ?h a] by (auto simp: bp_def)
  have C: "?i \<le> 8" "\<forall>j<?i. \<not> isclr (\<lambda>j. a (bp + j)) j" "?i < 8 \<longrightarrow> isclr (\<lambda>j. a (bp + j)) ?i"
    using first_clear_spec [of 0 "\<lambda>j. a (bp + j)"] by auto
  have full: "\<not> isclr a j" if "j div 8 < bp" for j
  proof -
    have "a (j div 8) = BYTEMASK" using S(2) that by blast
    then show ?thesis using full_byte [of "a (j div 8)"] by (simp add: isclr_bit)
  qed
  have "bp \<le> q div 8" using full [of q] q by (meson not_le)
  moreover have "q div 8 < ?h" using q(1) by (simp add: howmany_def)
  ultimately show h: "bp < ?h" by simp
  then have "a bp \<noteq> BYTEMASK" using S(3) by blast
  then obtain k where k: "k < 8" "\<not> bit (a bp) k" using full_byte [of "a bp"] by blast
  have shift: "isclr (\<lambda>j. a (bp + j)) j \<longleftrightarrow> isclr a (bp * 8 + j)" if "j < 8" for j
    using that by (simp add: isclr_bit)
  have i: "?i < 8" using C(1,2) k shift [of k] by (metis isclr_bit div_less mod_less add.right_neutral le_neq_implies_less)
  show cp: "isclr a p" using C(3) i shift [OF i] by (simp add: p_def)
  show l: "\<forall>j<p. \<not> isclr a j"
  proof (intro allI impI)
    fix j assume j: "j < p"
    show "\<not> isclr a j"
    proof (cases "j div 8 < bp")
      case True
      then show ?thesis by (rule full)
    next
      case False
      then have "bp * 8 \<le> j" by (metis div_le_mono not_le div_mult_self_is_m zero_less_numeral less_mult_imp_div_less)
      then have "j - bp * 8 < ?i" "j - bp * 8 < 8" "bp * 8 + (j - bp * 8) = j" using j i by (auto simp: p_def)
      then show ?thesis using C(2) shift by metis
    qed
  qed
  show "p \<le> q" using l q(2) by (meson not_le)
qed

lemma pf_free_exists:
  assumes "pf_ok p" "pf_pfree p \<noteq> 0"
  shows "\<exists>q < pf_npgs p. isclr (pf_bmap p) q"
proof (rule ccontr)
  assume "\<not> ?thesis"
  then have "pf_used p = {..<pf_npgs p}" by (auto simp: pf_used_def)
  then show False using assms by (simp add: pf_ok_def)
qed

lemma pf_full:
  assumes "pf_ok p" "pf_pfree p = 0"
  shows "pf_used p = {..<pf_npgs p}"
proof (rule card_subset_eq)
  show "pf_used p \<subseteq> {..<pf_npgs p}" by (auto simp: pf_used_def)
qed (use assms in \<open>auto simp: pf_ok_def\<close>)

text \<open>What allocation does: the least free block, below the size of the file, and the count follows.\<close>

lemma pf_allocate_page_some:
  assumes ok: "pf_ok p" and f: "pf_pfree p \<noteq> 0"
  obtains n where "pf_allocate_page e p = Some (Some n, p\<lparr>pf_bmap := setbit (pf_bmap p) n, pf_pfree := pf_pfree p - 1\<rparr>)"
    "n < pf_npgs p" "n \<notin> pf_used p" "\<forall>j<n. j \<in> pf_used p"
    "pf_used (p\<lparr>pf_bmap := setbit (pf_bmap p) n, pf_pfree := pf_pfree p - 1\<rparr>) = insert n (pf_used p)"
    "pf_ok (p\<lparr>pf_bmap := setbit (pf_bmap p) n, pf_pfree := pf_pfree p - 1\<rparr>)"
proof -
  obtain q where q: "q < pf_npgs p" "isclr (pf_bmap p) q" using pf_free_exists [OF assms] by blast
  define bp where "bp = scan_map (pf_bmap p) (howmany (pf_npgs p) 8) 0"
  define n where "n = bp * 8 + first_clear (\<lambda>j. pf_bmap p (bp + j)) 0"
  note L = scan_least [OF q, folded bp_def, folded n_def]
  let ?p = "p\<lparr>pf_bmap := setbit (pf_bmap p) n, pf_pfree := pf_pfree p - 1\<rparr>"
  have n: "n < pf_npgs p" using L(4) q by simp
  have "pf_allocate_page e p = Some (Some n, ?p)"
    unfolding pf_allocate_page_def using f L(1) n by (simp add: Let_def bp_def [symmetric] n_def [symmetric])
  moreover have nu: "n \<notin> pf_used p" "\<forall>j<n. j \<in> pf_used p" using L(2,3) n by (auto simp: pf_used_def)
  moreover have u: "pf_used ?p = insert n (pf_used p)" using n by (auto simp: pf_used_def)
  moreover have "pf_ok ?p" using ok f nu u by (simp add: pf_ok_def)
  ultimately show thesis using that n by blast
qed

lemma pf_allocate_page_none: "pf_pfree p = 0 \<Longrightarrow> pf_allocate_page e p = Some (None, p)"
  by (simp add: pf_allocate_page_def)

lemma pf_deallocate_page_used:
  assumes "pf_ok p" "n \<in> pf_used p"
  shows "\<exists>p'. pf_deallocate_page n p = Some p' \<and> p' = p\<lparr>pf_bmap := clrbit (pf_bmap p) n, pf_pfree := pf_pfree p + 1\<rparr>
    \<and> pf_ok p' \<and> pf_used p' = pf_used p - {n}"
proof -
  let ?p = "p\<lparr>pf_bmap := clrbit (pf_bmap p) n, pf_pfree := pf_pfree p + 1\<rparr>"
  have "n < pf_npgs p" using assms(2) by (simp add: pf_used_def)
  moreover have u: "pf_used ?p = pf_used p - {n}" by (auto simp: pf_used_def)
  moreover have "card (pf_used ?p) + 1 = card (pf_used p)" unfolding u using card_Suc_Diff1 [OF pf_used_finite assms(2)] by simp
  then have "pf_ok ?p" using assms(1) by (simp add: pf_ok_def)
  ultimately show ?thesis by (simp add: pf_deallocate_page_def)
qed

lemma pf_count_irrelevant [simp]: "pf_used (p\<lparr>pf_count := c\<rparr>) = pf_used p" "pf_ok (p\<lparr>pf_count := c\<rparr>) = pf_ok p"
  by (simp_all add: pf_used_def pf_ok_def)

end
