(* ===== verification/Pager_Inv.thy ===== *)
theory Pager_Inv
  imports Pager_Blocks
begin

text \<open>
  The invariant of the inode pager when it pages to paging files: the maps of the objects occupy
  arrays of their own, and the pages the maps name are exactly the used blocks of the files.
\<close>

section \<open>Maps of pages\<close>

definition swap :: "('d, 'f) pg_state \<Rightarrow> ptr \<Rightarrow> bool" where
  "swap s z \<longleftrightarrow> z \<in> zheap s \<and> swapfile (istr s z)"

text \<open>The part of a structure that says where its pages are.\<close>

definition table :: "istruct \<Rightarrow> (ptr \<Rightarrow> nat \<Rightarrow> nat) \<Rightarrow> nat \<Rightarrow> ptr" where
  "table i A k = (if INDIRECT_PAGEMAP i then A (pmap i) k else 0)"

definition slot :: "istruct \<Rightarrow> (ptr \<Rightarrow> nat \<Rightarrow> nat) \<Rightarrow> nat \<Rightarrow> nat option" where
  "slot i A n = (let t = A (pmap i) (n div PAGEMAP_ENTRIES);
     v = (if INDIRECT_PAGEMAP i then if t = 0 then NOPAGE else A t (n mod PAGEMAP_ENTRIES) else A (pmap i) n) in
     if v = NOPAGE then None else Some v)"

definition capacity :: "istruct \<Rightarrow> nat" where
  "capacity i = (if INDIRECT_PAGEMAP i then INDIRECT_PAGEMAP_ENTRIES (is_size i) * PAGEMAP_ENTRIES else is_size i)"

definition tables :: "istruct \<Rightarrow> (ptr \<Rightarrow> nat \<Rightarrow> nat) \<Rightarrow> ptr set" where
  "tables i A = table i A ` {..<INDIRECT_PAGEMAP_ENTRIES (is_size i)} - {0}"

definition arrays :: "istruct \<Rightarrow> (ptr \<Rightarrow> nat \<Rightarrow> nat) \<Rightarrow> ptr set" where
  "arrays i A = insert (pmap i) (tables i A)"

definition map_ok :: "istruct \<Rightarrow> (ptr \<Rightarrow> nat \<Rightarrow> nat) \<Rightarrow> ptr set \<Rightarrow> bool" where
  "map_ok i A K \<longleftrightarrow> 0 \<notin> arrays i A \<and> arrays i A \<subseteq> K \<and> pmap i \<notin> tables i A
     \<and> (\<forall>k k'. k < INDIRECT_PAGEMAP_ENTRIES (is_size i) \<and> k' < INDIRECT_PAGEMAP_ENTRIES (is_size i)
          \<and> table i A k = table i A k' \<and> table i A k \<noteq> 0 \<longrightarrow> k = k')"

lemma index_bound: "n < capacity i \<Longrightarrow> INDIRECT_PAGEMAP i \<Longrightarrow> n div PAGEMAP_ENTRIES < INDIRECT_PAGEMAP_ENTRIES (is_size i)"
  by (simp add: capacity_def PAGEMAP_ENTRIES_def less_mult_imp_div_less)

lemma size_capacity: "is_size i \<le> capacity i"
proof (cases "INDIRECT_PAGEMAP i")
  case True
  have "is_size i - 1 < Suc ((is_size i - 1) div 128) * 128" by (metis dividend_less_div_times mult_Suc add.commute zero_less_numeral)
  then show ?thesis using True by (simp add: capacity_def INDIRECT_PAGEMAP_ENTRIES_def PAGEMAP_ENTRIES_def)
qed (simp add: capacity_def)

lemma slot_other:
  assumes "\<forall>a\<in>arrays i A. A' a = A a" and "n < capacity i"
  shows "slot i A' n = slot i A n"
proof -
  have p: "A' (pmap i) = A (pmap i)" using assms(1) by (simp add: arrays_def)
  have "A' t = A t" if "t = A (pmap i) (n div PAGEMAP_ENTRIES)" "t \<noteq> 0" "INDIRECT_PAGEMAP i" for t
  proof -
    have "t \<in> tables i A" using that index_bound [OF assms(2) that(3)] by (auto simp: tables_def table_def)
    then show ?thesis using assms(1) by (simp add: arrays_def)
  qed
  then show ?thesis by (simp add: slot_def Let_def p)
qed

lemma arrays_other: "A' (pmap i) = A (pmap i) \<Longrightarrow> arrays i A' = arrays i A"
  by (simp add: arrays_def tables_def table_def)

lemma map_ok_other: "A' (pmap i) = A (pmap i) \<Longrightarrow> map_ok i A K \<Longrightarrow> K \<subseteq> K' \<Longrightarrow> map_ok i A' K'"
proof -
  assume p: "A' (pmap i) = A (pmap i)" and ok: "map_ok i A K" and K: "K \<subseteq> K'"
  have "table i A' = table i A" by (rule ext) (simp add: table_def p)
  then have "tables i A' = tables i A" "table i A' = table i A" by (simp_all add: tables_def)
  then show "map_ok i A' K'" using ok K arrays_other [of A' i A, OF p] unfolding map_ok_def by (metis subset_trans)
qed

text \<open>Setting the entry of page \<open>m\<close>.\<close>

definition entry_array :: "istruct \<Rightarrow> (ptr \<Rightarrow> nat \<Rightarrow> nat) \<Rightarrow> nat \<Rightarrow> ptr" where
  "entry_array i A m = (if INDIRECT_PAGEMAP i then A (pmap i) (m div PAGEMAP_ENTRIES) else pmap i)"

definition entry_index :: "istruct \<Rightarrow> nat \<Rightarrow> nat" where
  "entry_index i m = (if INDIRECT_PAGEMAP i then m mod PAGEMAP_ENTRIES else m)"

definition set_entry :: "istruct \<Rightarrow> nat \<Rightarrow> nat \<Rightarrow> (ptr \<Rightarrow> nat \<Rightarrow> nat) \<Rightarrow> ptr \<Rightarrow> nat \<Rightarrow> nat" where
  "set_entry i m v A = A(entry_array i A m := (A (entry_array i A m))(entry_index i m := v))"

lemma divmod_eqI: "n div PAGEMAP_ENTRIES = m div PAGEMAP_ENTRIES \<Longrightarrow> n mod PAGEMAP_ENTRIES = m mod PAGEMAP_ENTRIES \<Longrightarrow> n = m"
  by (metis div_mult_mod_eq)

lemma entry_array_in:
  assumes "map_ok i A K" "m < capacity i" "entry_array i A m \<noteq> 0"
  shows "entry_array i A m \<in> arrays i A" and "INDIRECT_PAGEMAP i \<Longrightarrow> entry_array i A m \<noteq> pmap i"
proof -
  have t: "entry_array i A m \<in> tables i A" if "INDIRECT_PAGEMAP i"
    using that assms(3) index_bound [OF assms(2) that] by (auto simp: entry_array_def tables_def table_def)
  then show "entry_array i A m \<in> arrays i A" by (cases "INDIRECT_PAGEMAP i") (auto simp: arrays_def entry_array_def)
  show "entry_array i A m \<noteq> pmap i" if "INDIRECT_PAGEMAP i" using t that assms(1) by (auto simp: map_ok_def)
qed

lemma set_entry_map:
  assumes ok: "map_ok i A K" and m: "m < capacity i" "entry_array i A m \<noteq> 0" and v: "v \<noteq> NOPAGE"
  shows "map_ok i (set_entry i m v A) K" and "arrays i (set_entry i m v A) = arrays i A"
    and "n < capacity i \<Longrightarrow> slot i (set_entry i m v A) n = (if n = m then Some v else slot i A n)"
proof -
  note E = entry_array_in [OF ok m]
  let ?A = "set_entry i m v A"
  show "arrays i ?A = arrays i A"
    using E(2) by (cases "INDIRECT_PAGEMAP i") (auto simp: arrays_def tables_def table_def set_entry_def)
  show "map_ok i ?A K"
  proof (cases "INDIRECT_PAGEMAP i")
    case True
    then show ?thesis using map_ok_other [of ?A i A K K] E(2) ok by (simp add: set_entry_def)
  next
    case False
    then show ?thesis using ok by (auto simp: map_ok_def arrays_def tables_def table_def)
  qed
  show "slot i ?A n = (if n = m then Some v else slot i A n)" if n: "n < capacity i"
  proof (cases "INDIRECT_PAGEMAP i")
    case True
    let ?t = "\<lambda>n. A (pmap i) (n div PAGEMAP_ENTRIES)"
    have p: "?A (pmap i) = A (pmap i)" using E(2) True by (simp add: set_entry_def)
    have e: "entry_array i A m = ?t m" "entry_index i m = m mod PAGEMAP_ENTRIES" using True by (simp_all add: entry_array_def entry_index_def)
    have nz: "?t m \<noteq> 0" using m(2) e by simp
    have "n div PAGEMAP_ENTRIES = m div PAGEMAP_ENTRIES" if "?t n = ?t m"
      using ok True index_bound [OF n True] index_bound [OF m(1) True] that nz unfolding map_ok_def table_def by (metis (mono_tags, lifting))
    then have "?t n = ?t m \<and> n mod PAGEMAP_ENTRIES = m mod PAGEMAP_ENTRIES \<longleftrightarrow> n = m" using divmod_eqI by blast
    moreover have "?A (?t n) (n mod PAGEMAP_ENTRIES) = (if ?t n = ?t m \<and> n mod PAGEMAP_ENTRIES = m mod PAGEMAP_ENTRIES then v else A (?t n) (n mod PAGEMAP_ENTRIES))"
      by (simp add: set_entry_def e)
    ultimately show ?thesis using True nz v by (auto simp: slot_def Let_def p)
  next
    case False
    then show ?thesis using v by (simp add: slot_def Let_def set_entry_def entry_array_def entry_index_def)
  qed
qed

text \<open>Adding an empty part of the map.\<close>

definition add_table :: "istruct \<Rightarrow> nat \<Rightarrow> ptr \<Rightarrow> (ptr \<Rightarrow> nat \<Rightarrow> nat) \<Rightarrow> ptr \<Rightarrow> nat \<Rightarrow> nat" where
  "add_table i k t A = A(pmap i := (A (pmap i))(k := t), t := fill PAGEMAP_ENTRIES NOPAGE (A t))"

lemma add_table_map:
  assumes ok: "map_ok i A K" and I: "INDIRECT_PAGEMAP i" and k: "k < INDIRECT_PAGEMAP_ENTRIES (is_size i)" "A (pmap i) k = 0"
    and t: "t \<notin> K" "t \<noteq> 0"
  shows "map_ok i (add_table i k t A) (insert t K)" and "arrays i (add_table i k t A) = insert t (arrays i A)"
    and "n < capacity i \<Longrightarrow> slot i (add_table i k t A) n = slot i A n"
proof -
  let ?A = "add_table i k t A"
  have tp: "t \<noteq> pmap i" "t \<notin> tables i A" using ok t by (auto simp: map_ok_def arrays_def)
  have tb: "table i ?A j = (if j = k then t else table i A j)" for j using I tp by (simp add: table_def add_table_def)
  have ts: "tables i ?A = insert t (tables i A)"
  proof -
    let ?S = "{..<INDIRECT_PAGEMAP_ENTRIES (is_size i)}"
    have u: "table i ?A = (table i A)(k := t)" by (rule ext) (simp add: tb)
    have z: "table i A k = 0" using k I by (simp add: table_def)
    have "table i A ` (?S - {k}) - {0} = table i A ` ?S - {0}" using z by auto
    moreover have "tables i ?A = insert t (table i A ` (?S - {k})) - {0}" unfolding tables_def u by (simp only: fun_upd_image lessThan_iff k(1) if_True)
    ultimately show ?thesis using t(2) by (simp add: tables_def insert_Diff_if)
  qed
  show "arrays i ?A = insert t (arrays i A)" by (auto simp: arrays_def ts)
  have new: "table i A j \<noteq> t" if "j < INDIRECT_PAGEMAP_ENTRIES (is_size i)" for j
    using that tp(2) t(2) by (auto simp: tables_def)
  have D: "0 \<notin> arrays i A" "arrays i A \<subseteq> K" "pmap i \<notin> tables i A" using ok by (simp_all add: map_ok_def)
  have J: "j = j'" if "j < INDIRECT_PAGEMAP_ENTRIES (is_size i)" "j' < INDIRECT_PAGEMAP_ENTRIES (is_size i)"
      "table i ?A j = table i ?A j'" "table i ?A j \<noteq> 0" for j j'
  proof (cases "j = k \<or> j' = k")
    case True
    then show ?thesis using that(3) new [OF that(1)] new [OF that(2)] by (auto simp: tb split: if_splits)
  next
    case False
    then show ?thesis using ok that unfolding map_ok_def tb by (metis (mono_tags, lifting))
  qed
  show "map_ok i ?A (insert t K)"
    unfolding map_ok_def arrays_def ts using D t tp J by (auto simp: arrays_def)
  show "slot i ?A n = slot i A n" if n: "n < capacity i"
  proof -
    let ?q = "n div PAGEMAP_ENTRIES"
    have q: "A (pmap i) ?q \<noteq> t" using new [of ?q] index_bound [OF n I] I by (simp add: table_def)
    have "?A (pmap i) ?q = (if ?q = k then t else A (pmap i) ?q)" using tp by (simp add: add_table_def)
    moreover have "?A t (n mod PAGEMAP_ENTRIES) = NOPAGE" by (simp add: add_table_def fill_def PAGEMAP_ENTRIES_def)
    moreover have "?A (A (pmap i) ?q) = A (A (pmap i) ?q)" if "A (pmap i) ?q \<noteq> 0"
    proof -
      have "table i A ?q \<in> tables i A" using that index_bound [OF n I] I by (simp add: tables_def table_def)
      then have "A (pmap i) ?q \<noteq> pmap i" using D(3) I by (auto simp: table_def)
      then show ?thesis using q by (simp add: add_table_def)
    qed
    ultimately show ?thesis using I k t by (auto simp: slot_def Let_def)
  qed
qed

lemma arrays_set_entry_outside:
  assumes "a \<notin> arrays i A" "map_ok i A K" "m < capacity i" "entry_array i A m \<noteq> 0"
  shows "set_entry i m v A a = A a"
  using assms(1) entry_array_in(1) [OF assms(2-4)] by (auto simp: set_entry_def)

lemma add_table_outside: "a \<noteq> t \<Longrightarrow> a \<noteq> pmap i \<Longrightarrow> add_table i k t A a = A a"
  by (simp add: add_table_def)

end
