(* ===== verification/Pager_Maps.thy ===== *)
theory Pager_Maps
  imports Pager_Inv
begin

text \<open>
  \<open>pf_bmap\<close> on one object, the assignment of blocks to pages of objects, and the invariant of the
  whole pager.
\<close>

section \<open>Blocks assigned to pages\<close>

text \<open>
  \<open>T\<close> assigns blocks to pages of objects; \<open>blocks T P U\<close> says that the pages of the objects in \<open>P\<close>
  have different blocks and that these are exactly the blocks in \<open>U\<close>.
\<close>

definition blocks :: "('z \<Rightarrow> nat \<Rightarrow> nat option) \<Rightarrow> ('z \<Rightarrow> bool) \<Rightarrow> nat set \<Rightarrow> bool" where
  "blocks T P U \<longleftrightarrow> bij_betw (\<lambda>(z, n). the (T z n)) {(z, n). P z \<and> T z n \<noteq> None} U"

lemma blocks_cong: "(\<And>z n. T z n \<noteq> None \<Longrightarrow> P z = P' z) \<Longrightarrow> blocks T P U = blocks T P' U"
proof -
  assume "\<And>z n. T z n \<noteq> None \<Longrightarrow> P z = P' z"
  then have "{(z, n). P z \<and> T z n \<noteq> None} = {(z, n). P' z \<and> T z n \<noteq> None}" by auto
  then show ?thesis by (simp add: blocks_def)
qed

lemma blocks_other:
  assumes "\<not> P z" shows "blocks (T(z := x)) P U = blocks T P U"
proof -
  have d: "{(y, n). P y \<and> (T(z := x)) y n \<noteq> None} = {(y, n). P y \<and> T y n \<noteq> None}" using assms by (auto split: if_splits)
  show ?thesis unfolding blocks_def d by (rule bij_betw_cong) (use assms in auto)
qed

lemma blocksD:
  assumes "blocks T P U"
  shows "P z \<Longrightarrow> T z n = Some v \<Longrightarrow> v \<in> U"
    and "P z \<Longrightarrow> P z' \<Longrightarrow> T z n = Some v \<Longrightarrow> T z' n' = Some v \<Longrightarrow> z = z' \<and> n = n'"
    and "v \<in> U \<Longrightarrow> \<exists>z n. P z \<and> T z n = Some v"
proof -
  let ?f = "\<lambda>(z, n). the (T z n)" and ?S = "{(z, n). P z \<and> T z n \<noteq> None}"
  have i: "inj_on ?f ?S" and m: "?f ` ?S = U" using assms by (auto simp: blocks_def bij_betw_def)
  show "v \<in> U" if "P z" "T z n = Some v"
  proof -
    have "?f (z, n) \<in> ?f ` ?S" using that by (intro imageI) auto
    then show ?thesis using m that by simp
  qed
  show "z = z' \<and> n = n'" if "P z" "P z'" "T z n = Some v" "T z' n' = Some v"
    using inj_onD [OF i, of "(z, n)" "(z', n')"] that by simp
  show "\<exists>z n. P z \<and> T z n = Some v" if "v \<in> U" using that m by force
qed

lemma blocksI:
  assumes "\<And>z n v. P z \<Longrightarrow> T z n = Some v \<Longrightarrow> v \<in> U"
    and "\<And>z z' n n' v. P z \<Longrightarrow> P z' \<Longrightarrow> T z n = Some v \<Longrightarrow> T z' n' = Some v \<Longrightarrow> z = z' \<and> n = n'"
    and "\<And>v. v \<in> U \<Longrightarrow> \<exists>z n. P z \<and> T z n = Some v"
  shows "blocks T P U"
proof -
  let ?f = "\<lambda>(z, n). the (T z n)" and ?S = "{(z, n). P z \<and> T z n \<noteq> None}"
  have "inj_on ?f ?S" by (rule inj_onI) (use assms(2) in force)
  moreover have "?f ` ?S \<subseteq> U" using assms(1) by auto
  moreover have "v \<in> ?f ` ?S" if v: "v \<in> U" for v
  proof -
    obtain z n where "P z" "T z n = Some v" using assms(3) [OF v] by blast
    then show ?thesis by (intro image_eqI [of _ _ "(z, n)"]) auto
  qed
  ultimately show ?thesis unfolding blocks_def bij_betw_def by blast
qed

lemma blocks_insert:
  assumes b: "blocks T P U" and z: "T z n = None" "P z" and v: "v \<notin> U"
  shows "blocks (T(z := (T z)(n := Some v))) P (insert v U)"
proof (rule blocksI)
  let ?T = "T(z := (T z)(n := Some v))"
  have c: "?T y m = Some w \<longleftrightarrow> (y = z \<and> m = n \<and> w = v) \<or> (\<not> (y = z \<and> m = n) \<and> T y m = Some w)" for y m w by auto
  show "w \<in> insert v U" if "P y" "?T y m = Some w" for y m w using that blocksD(1) [OF b] unfolding c by blast
  show "y = y' \<and> m = m'" if "P y" "P y'" "?T y m = Some w" "?T y' m' = Some w" for y y' m m' w
    using that blocksD(1,2) [OF b] v unfolding c by blast
  show "\<exists>y m. P y \<and> ?T y m = Some w" if w: "w \<in> insert v U" for w
  proof (cases "w = v")
    case True
    then show ?thesis using z(2) by (intro exI [of _ z] exI [of _ n]) simp
  next
    case False
    then obtain y m where "P y" "T y m = Some w" using blocksD(3) [OF b] w by blast
    moreover then have "\<not> (y = z \<and> m = n)" using z(1) by auto
    ultimately show ?thesis unfolding c by blast
  qed
qed

lemma blocks_remove:
  assumes b: "blocks T P U" and z: "P z"
  shows "blocks (T(z := (\<lambda>n. None))) P (U - ran (T z))"
proof (rule blocksI)
  let ?T = "T(z := (\<lambda>n. None))"
  have c: "?T y m = Some w \<longleftrightarrow> y \<noteq> z \<and> T y m = Some w" for y m w by auto
  show "w \<in> U - ran (T z)" if "P y" "?T y m = Some w" for y m w
    using that blocksD(1,2) [OF b] z unfolding c ran_def by blast
  show "y = y' \<and> m = m'" if "P y" "P y'" "?T y m = Some w" "?T y' m' = Some w" for y y' m m' w
    using that blocksD(2) [OF b] unfolding c by blast
  show "\<exists>y m. P y \<and> ?T y m = Some w" if w: "w \<in> U - ran (T z)" for w
  proof -
    obtain y m where "P y" "T y m = Some w" using blocksD(3) [OF b] w by blast
    moreover then have "y \<noteq> z" using w by (auto simp: ran_def)
    ultimately show ?thesis unfolding c by blast
  qed
qed

lemma blocks_empty: "(\<And>z n. P z \<Longrightarrow> T z n = None) \<Longrightarrow> blocks T P {}"
  by (rule blocksI) auto

section \<open>Looking up a page\<close>

definition alloc_ok :: "('d, 'f) pg_env \<Rightarrow> bool" where
  "alloc_ok e \<longleftrightarrow> 9 \<le> page_shift e \<and> page_shift e < 32
     \<and> (\<forall>K n. finite K \<longrightarrow> kalloc e K n = 0 \<or> kalloc e K n \<notin> K) \<and> (\<forall>Z. finite Z \<longrightarrow> zalloc e Z = 0 \<or> zalloc e Z \<notin> Z)"

lemma alloc_okD:
  assumes "alloc_ok e"
  shows "finite K \<Longrightarrow> kalloc e K n \<noteq> 0 \<Longrightarrow> kalloc e K n \<notin> K" "finite Z \<Longrightarrow> zalloc e Z \<noteq> 0 \<Longrightarrow> zalloc e Z \<notin> Z"
    "9 \<le> page_shift e" "page_shift e < 32"
  using assms unfolding alloc_ok_def by metis+

lemma pf_bmap_read:
  assumes "atop e off \<le> is_size (istr s z)"
  shows "pf_bmap_at e z off B_READ s = Some (map_option (new_offset e off) (slot (istr s z) (karr s) (atop e off)), s)"
  using assms by (simp add: pf_bmap_at_def pf_entry_def slot_def Let_def)

lemma pf_bmap_read_total: "\<exists>r. pf_bmap_at e z off B_READ s = Some (r, s)"
proof (cases "atop e off \<le> is_size (istr s z)")
  case True
  then show ?thesis using pf_bmap_read by blast
next
  case False
  then show ?thesis by (simp add: pf_bmap_at_def Let_def)
qed

text \<open>The state with the part of the map that page \<open>n\<close> needs, if there is memory for it.\<close>

definition with_table :: "('d, 'f) pg_env \<Rightarrow> istruct \<Rightarrow> nat \<Rightarrow> ('d, 'f) pg_state \<Rightarrow> ('d, 'f) pg_state option" where
  "with_table e i n s = (let k = n div PAGEMAP_ENTRIES; t = kalloc e (kheap s) 512 in
     if INDIRECT_PAGEMAP i \<and> karr s (pmap i) k = 0 then
       if t = 0 then None else Some (s\<lparr>kheap := insert t (kheap s), karr := add_table i k t (karr s)\<rparr>)
     else Some s)"

lemma pf_bmap_write_old:
  assumes "atop e off \<le> is_size (istr s z)" "slot (istr s z) (karr s) (atop e off) = Some v"
  shows "pf_bmap_at e z off B_WRITE s = Some (Some (new_offset e off v), s)"
  using assms by (auto simp: pf_bmap_at_def pf_entry_def slot_def Let_def split: if_splits)

lemma pf_bmap_write_new:
  fixes s :: "('d, 'f) pg_state" and z :: ptr
  defines "i \<equiv> istr s z"
  assumes n: "atop e off \<le> is_size i" and sl: "slot i (karr s) (atop e off) = None"
    and t: "kalloc e (kheap s) 512 = 0 \<or> kalloc e (kheap s) 512 \<noteq> pmap i"
  shows "pf_bmap_at e z off B_WRITE s = (case with_table e i (atop e off) s of
      None \<Rightarrow> Some (None, s)
    | Some s' \<Rightarrow> (case pf_allocate_page e (pfile s (pf_info i)) of
         None \<Rightarrow> None
       | Some (None, p) \<Rightarrow> Some (None, s')
       | Some (Some v, p) \<Rightarrow> Some (Some (new_offset e off v),
           s'\<lparr>pfile := (pfile s)(pf_info i := p), karr := set_entry i (atop e off) v (karr s')\<rparr>)))"
proof (cases "INDIRECT_PAGEMAP i")
  case True
  let ?n = "atop e off"
  let ?k = "?n div PAGEMAP_ENTRIES" and ?j = "?n mod PAGEMAP_ENTRIES" and ?t = "kalloc e (kheap s) 512"
  have j: "?j < PAGEMAP_ENTRIES" by (simp add: PAGEMAP_ENTRIES_def)
  have s: "istr s z = i" by (simp add: i_def)
  show ?thesis
  proof (cases "karr s (pmap i) ?k = 0")
    case T: True
    show ?thesis
    proof (cases "?t = 0")
      case True
      then show ?thesis using \<open>INDIRECT_PAGEMAP i\<close> T n by (simp add: pf_bmap_at_def with_table_def Let_def s)
    next
      case False
      let ?A = "add_table i ?k ?t (karr s)"
      have a: "?A (pmap i) ?k = ?t" "?A ?t ?j = NOPAGE" using t False j by (auto simp: add_table_def fill_def)
      have e: "entry_array i ?A ?n = ?t" "entry_index i ?n = ?j" using \<open>INDIRECT_PAGEMAP i\<close> a by (simp_all add: entry_array_def entry_index_def)
      show ?thesis using \<open>INDIRECT_PAGEMAP i\<close> T n False a(2)
        by (simp add: pf_bmap_at_def with_table_def Let_def s pf_entry_def add_table_def [symmetric] set_entry_def e split: option.split prod.split)
    qed
  next
    case False
    then have e: "entry_array i (karr s) ?n = karr s (pmap i) ?k" "entry_index i ?n = ?j" using True by (simp_all add: entry_array_def entry_index_def)
    have "karr s (karr s (pmap i) ?k) ?j = NOPAGE" using sl True False by (auto simp: slot_def Let_def split: if_splits)
    then show ?thesis using True False n
      by (simp add: pf_bmap_at_def with_table_def Let_def s pf_entry_def set_entry_def e split: option.split prod.split)
  qed
next
  case False
  have s: "istr s z = i" by (simp add: i_def)
  have "karr s (pmap i) (atop e off) = NOPAGE" using sl False by (auto simp: slot_def Let_def split: if_splits)
  then show ?thesis using False n
    by (simp add: pf_bmap_at_def with_table_def Let_def s pf_entry_def set_entry_def entry_array_def entry_index_def split: option.split prod.split)
qed

end
