(* ===== verification/Pager_State.thy ===== *)
theory Pager_State
  imports Pager_Maps
begin

text \<open>
  The invariant of the inode pager that pages to paging files, what it depends on, and how
  \<open>pf_bmap\<close> keeps it.
\<close>

section \<open>The invariant\<close>

definition pagetab :: "('d, 'f) pg_state \<Rightarrow> ptr \<Rightarrow> nat \<Rightarrow> nat option" where
  "pagetab s z n = (if swap s z \<and> n < capacity (istr s z) then slot (istr s z) (karr s) n else None)"

definition files_ok :: "('d, 'f) pg_env \<Rightarrow> ('d, 'f) pg_state \<Rightarrow> bool" where
  "files_ok e s \<longleftrightarrow> distinct (pager_files s) \<and> 0 \<notin> set (pager_files s) \<and> pager_file_count s = int (length (pager_files s))
     \<and> (paging_file_initialized s \<or> pager_files s = []) \<and> inj_on (\<lambda>p. pf_ip (pfile s p)) (set (pager_files s))
     \<and> (\<forall>p\<in>set (pager_files s). pf_ok (pfile s p) \<and> pf_npgs (pfile s p) * 2 ^ page_shift e \<le> 2 ^ 32
          \<and> blocks (pagetab s) (\<lambda>z. pf_info (istr s z) = p) (pf_used (pfile s p)))"

definition maps_ok :: "('d, 'f) pg_state \<Rightarrow> bool" where
  "maps_ok s \<longleftrightarrow> finite (kheap s) \<and> (\<forall>z. swap s z \<longrightarrow> map_ok (istr s z) (karr s) (kheap s))
     \<and> (\<forall>z z'. swap s z \<and> swap s z' \<and> z \<noteq> z' \<longrightarrow> arrays (istr s z) (karr s) \<inter> arrays (istr s z') (karr s) = {})"

definition obj_ok :: "('d, 'f) pg_state \<Rightarrow> istruct \<Rightarrow> bool" where
  "obj_ok s i \<longleftrightarrow> is_state i = IS_IN_MEMORY \<and> \<not> queued i \<and> paging_shift i = 0 \<and> paging i = swapfile i
     \<and> (swapfile i \<longrightarrow> pf_info i \<in> set (pager_files s) \<and> is_inode i = Ip (pf_ip (pfile s (pf_info i))))"

definition objs_ok :: "('d, 'f) pg_state \<Rightarrow> bool" where
  "objs_ok s \<longleftrightarrow> finite (zheap s) \<and> 0 \<notin> zheap s \<and> istruct_queue s = [] \<and> (\<forall>z\<in>zheap s. obj_ok s (istr s z))"

definition table_ok :: "(nat \<Rightarrow> (nat \<times> ptr) list) \<Rightarrow> bool" where
  "table_ok H \<longleftrightarrow> (\<forall>h. distinct (map fst (H h)) \<and> (\<forall>x\<in>set (H h). snd x \<noteq> 0))"

definition registered :: "('d, 'f) pg_state \<Rightarrow> ptr \<Rightarrow> bool" where
  "registered s z \<longleftrightarrow> z \<noteq> 0 \<and> inode_pager_lookup (is_pager (istr s z)) s = z"

definition ports_ok :: "('d, 'f) pg_state \<Rightarrow> bool" where
  "ports_ok s \<longleftrightarrow> table_ok (inode_port_hashtable s)
     \<and> (\<forall>n. inode_pager_lookup n s \<noteq> 0 \<longrightarrow> inode_pager_lookup n s \<in> zheap s \<and> is_pager (istr s (inode_pager_lookup n s)) = n)"

definition mapped_ok :: "('d, 'f) pg_state \<Rightarrow> bool" where
  "mapped_ok s \<longleftrightarrow> (\<forall>z. registered s z \<and> \<not> swapfile (istr s z) \<longrightarrow>
        i_pager s (ip_of (is_inode (istr s z))) \<noteq> 0 \<and> (\<forall>p\<in>set (pager_files s). pf_ip (pfile s p) \<noteq> ip_of (is_inode (istr s z))))
     \<and> (\<forall>z z'. registered s z \<and> registered s z' \<and> \<not> swapfile (istr s z) \<and> \<not> swapfile (istr s z')
        \<and> ip_of (is_inode (istr s z)) = ip_of (is_inode (istr s z')) \<longrightarrow> z = z')"

definition refs_ok :: "('d, 'f) pg_state \<Rightarrow> bool" where
  "refs_ok s \<longleftrightarrow> (\<forall>z\<in>zheap s. free_me (istr s z) \<longrightarrow> \<not> registered s z)"

definition pg_inv :: "('d, 'f) pg_env \<Rightarrow> ('d, 'f) pg_state \<Rightarrow> bool" where
  "pg_inv e s \<longleftrightarrow> files_ok e s \<and> maps_ok s \<and> objs_ok s \<and> ports_ok s \<and> mapped_ok s \<and> refs_ok s \<and> use_paging_file s"

lemma pg_invD:
  assumes "pg_inv e s"
  shows "files_ok e s" "maps_ok s" "objs_ok s" "ports_ok s" "mapped_ok s" "refs_ok s" "use_paging_file s"
  using assms by (simp_all add: pg_inv_def)

section \<open>What the invariant depends on\<close>

definition core :: "istruct \<Rightarrow> istruct" where
  "core i = i\<lparr>client_count := 0, dead_references := 0, free_me := False, use_count := 0, is_pager_request := 0, is_pager_name := 0,
     pager_global := 0, pager_request_global := 0, is_errors := 0, cached := False, identity := 0\<rparr>"

lemma core_fields:
  "is_state (core i) = is_state i" "is_pager (core i) = is_pager i" "paging_shift (core i) = paging_shift i" "is_size (core i) = is_size i"
  "pf_info (core i) = pf_info i" "pmap (core i) = pmap i" "queued (core i) = queued i" "paging (core i) = paging i"
  "swapfile (core i) = swapfile i" "is_inode (core i) = is_inode i"
  by (simp_all add: core_def)

lemma coreD:
  assumes "core i = core i'"
  shows "is_state i = is_state i'" "is_pager i = is_pager i'" "paging_shift i = paging_shift i'" "is_size i = is_size i'"
    "pf_info i = pf_info i'" "pmap i = pmap i'" "queued i = queued i'" "paging i = paging i'"
    "swapfile i = swapfile i'" "is_inode i = is_inode i'"
  using arg_cong [OF assms, of is_state] arg_cong [OF assms, of is_pager] arg_cong [OF assms, of paging_shift]
    arg_cong [OF assms, of is_size] arg_cong [OF assms, of pf_info] arg_cong [OF assms, of pmap] arg_cong [OF assms, of queued]
    arg_cong [OF assms, of paging] arg_cong [OF assms, of swapfile] arg_cong [OF assms, of is_inode]
  by (simp_all add: core_fields)

lemma core_map:
  assumes "core i = core i'"
  shows "slot i = slot i'" "capacity i = capacity i'" "arrays i = arrays i'" "map_ok i = map_ok i'" "obj_ok s i = obj_ok s i'"
    "entry_array i = entry_array i'" "set_entry i = set_entry i'"
proof -
  note D = coreD [OF assms]
  have I: "INDIRECT_PAGEMAP i = INDIRECT_PAGEMAP i'" by (simp add: INDIRECT_PAGEMAP_def D)
  have t: "table i = table i'" by (intro ext) (simp add: table_def D I)
  then have ts: "tables i = tables i'" by (intro ext) (simp add: tables_def D)
  show "slot i = slot i'" by (intro ext) (simp add: slot_def Let_def D I)
  show "capacity i = capacity i'" by (simp add: capacity_def D I)
  show a: "arrays i = arrays i'" by (intro ext) (simp add: arrays_def D ts)
  show "map_ok i = map_ok i'" by (intro ext) (simp add: map_ok_def a ts t D)
  show "obj_ok s i = obj_ok s i'" by (simp add: obj_ok_def D)
  show ea: "entry_array i = entry_array i'" by (intro ext) (simp add: entry_array_def D I)
  show "set_entry i = set_entry i'" by (intro ext) (simp add: set_entry_def ea entry_index_def I)
qed

text \<open>Two states with the same objects, files and ports.\<close>

definition same_objs :: "('d, 'f) pg_state \<Rightarrow> ('d, 'f) pg_state \<Rightarrow> bool" where
  "same_objs s s' \<longleftrightarrow> (\<forall>z. core (istr s' z) = core (istr s z)) \<and> zheap s' = zheap s \<and> karr s' = karr s \<and> kheap s' = kheap s
     \<and> pager_files s' = pager_files s \<and> pager_file_count s' = pager_file_count s \<and> istruct_queue s' = istruct_queue s
     \<and> pfile s' = pfile s \<and> use_paging_file s' = use_paging_file s
     \<and> paging_file_initialized s' = paging_file_initialized s"

definition same_ports :: "('d, 'f) pg_state \<Rightarrow> ('d, 'f) pg_state \<Rightarrow> bool" where
  "same_ports s s' \<longleftrightarrow> inode_port_hashtable s' = inode_port_hashtable s \<and> i_pager s' = i_pager s"

lemma same_objs_refl [simp]: "same_objs s s" "same_ports s s"
  by (simp_all add: same_objs_def same_ports_def)

lemma same_objs_trans: "same_objs s s' \<Longrightarrow> same_objs s' s'' \<Longrightarrow> same_objs s s''"
  by (simp add: same_objs_def)

lemma same_ports_trans: "same_ports s s' \<Longrightarrow> same_ports s' s'' \<Longrightarrow> same_ports s s''"
  by (simp add: same_ports_def)

lemma same_pagetab:
  assumes "same_objs s s'" shows "swap s' = swap s" and "pagetab s' = pagetab s"
proof -
  have c: "core (istr s' z) = core (istr s z)" for z using assms by (simp add: same_objs_def)
  show w: "swap s' = swap s" by (rule ext) (use assms coreD(9) [OF c] in \<open>simp add: swap_def same_objs_def\<close>)
  show "pagetab s' = pagetab s" by (intro ext) (use assms core_map [OF c] in \<open>simp add: pagetab_def w same_objs_def\<close>)
qed

lemma same_parts:
  assumes S: "same_objs s s'"
  shows "files_ok e s \<Longrightarrow> files_ok e s'" "maps_ok s \<Longrightarrow> maps_ok s'" "objs_ok s \<Longrightarrow> objs_ok s'"
proof -
  have c: "core (istr s' z) = core (istr s z)" for z using S by (simp add: same_objs_def)
  note w = same_pagetab [OF S]
  have F: "zheap s' = zheap s" "karr s' = karr s" "kheap s' = kheap s" "pager_files s' = pager_files s"
      "pager_file_count s' = pager_file_count s" "istruct_queue s' = istruct_queue s" "pfile s' = pfile s"
      "paging_file_initialized s' = paging_file_initialized s"
    using S by (simp_all add: same_objs_def)
  show "files_ok e s'" if "files_ok e s" using that by (simp add: files_ok_def w F coreD [OF c])
  show "maps_ok s'" if "maps_ok s" using that by (simp add: maps_ok_def w F core_map [OF c])
  have o: "obj_ok s' (istr s' z) = obj_ok s (istr s z)" for z by (simp add: obj_ok_def F coreD [OF c])
  show "objs_ok s'" if "objs_ok s" using that by (simp add: objs_ok_def F o)
qed

lemma same_registered:
  assumes "same_objs s s'" "same_ports s s'"
  shows "inode_pager_lookup n s' = inode_pager_lookup n s" "registered s' = registered s"
proof -
  have c: "core (istr s' z) = core (istr s z)" for z using assms by (simp add: same_objs_def)
  show l: "inode_pager_lookup n s' = inode_pager_lookup n s" for n using assms by (simp add: inode_pager_lookup_def same_ports_def)
  show "registered s' = registered s" by (rule ext) (simp add: registered_def l coreD [OF c])
qed

lemma same_inv:
  assumes S: "same_objs s s'" "same_ports s s'" and i: "pg_inv e s" and f: "\<And>z. free_me (istr s' z) = free_me (istr s z)"
  shows "pg_inv e s'"
proof -
  have c: "core (istr s' z) = core (istr s z)" for z using S by (simp add: same_objs_def)
  have F: "zheap s' = zheap s" "pager_files s' = pager_files s" "pfile s' = pfile s" "inode_port_hashtable s' = inode_port_hashtable s"
      "i_pager s' = i_pager s" "use_paging_file s' = use_paging_file s"
    using S by (simp_all add: same_objs_def same_ports_def)
  note R = same_registered [OF S]
  have "ports_ok s'" using pg_invD(4) [OF i] by (simp add: ports_ok_def R F coreD [OF c])
  moreover have "mapped_ok s'" using pg_invD(5) [OF i] by (simp add: mapped_ok_def R F coreD [OF c])
  moreover have "refs_ok s'" using pg_invD(6) [OF i] by (simp add: refs_ok_def R F f)
  ultimately show ?thesis using same_parts [OF S(1)] pg_invD [OF i] by (simp add: pg_inv_def F)
qed

text \<open>The bookkeeping of a structure: counts, errors and names of ports.\<close>

lemma same_upd_is:
  assumes "\<And>i. core (f i) = core i"
  shows "same_objs s (upd_is z f s)" "same_ports s (upd_is z f s)"
  by (simp_all add: same_objs_def same_ports_def upd_is_def assms)

lemma same_call [simp]: "same_objs s (call c s)" "same_ports s (call c s)"
  by (simp_all add: same_objs_def same_ports_def call_def)

section \<open>The reclaim list is not used\<close>

lemma istruct_put_simple:
  assumes "obj_ok s (istr s z)" "istruct_queue s = []"
  shows "istruct_put e z s = upd_is z (\<lambda>i. i\<lparr>use_count := use_count i - 1\<rparr>) s"
  using assms by (simp add: istruct_put_def Let_def upd_is_def obj_ok_def)

lemma istruct_get_simple:
  assumes "obj_ok s (istr s z)" "z \<noteq> 0"
  shows "istruct_get e z s = Some (ip_of (is_inode (istr s z)), upd_is z (\<lambda>i. i\<lparr>use_count := use_count i + 1\<rparr>) s)"
proof -
  have q: "\<not> queued (istr s z)" "is_state (istr s z) = IS_IN_MEMORY" using assms by (simp_all add: obj_ok_def)
  have u: "(istr s z)\<lparr>use_count := u, queued := False\<rparr> = (istr s z)\<lparr>use_count := u\<rparr>" for u using q by simp
  show ?thesis using q assms(2) by (simp add: istruct_get_def Let_def upd_is_def unqueue_def, subst u, simp)
qed

end
