(* ===== verification/Pager_Alloc.thy ===== *)
theory Pager_Alloc
  imports Pager_State
begin

text \<open>
  Allocation of blocks keeps the invariant: growing a map changes no page, and a page that gets a
  block is the only page that changes.
\<close>

text \<open>States that differ in the memory of the maps and in the blocks of the files.\<close>

lemma ports_parts:
  assumes "istr s' = istr s" "zheap s' = zheap s" "inode_port_hashtable s' = inode_port_hashtable s" "i_pager s' = i_pager s"
    and "pager_files s' = pager_files s" "\<And>p. pf_ip (pfile s' p) = pf_ip (pfile s p)"
  shows "ports_ok s \<Longrightarrow> ports_ok s'" "mapped_ok s \<Longrightarrow> mapped_ok s'" "refs_ok s \<Longrightarrow> refs_ok s'"
    "istruct_queue s' = istruct_queue s \<Longrightarrow> objs_ok s \<Longrightarrow> objs_ok s'" "swap s' = swap s"
proof -
  have l: "inode_pager_lookup n s' = inode_pager_lookup n s" for n using assms by (simp add: inode_pager_lookup_def)
  have r: "registered s' = registered s" by (rule ext) (simp add: registered_def l assms)
  show "ports_ok s \<Longrightarrow> ports_ok s'" by (simp add: ports_ok_def l assms)
  show "mapped_ok s \<Longrightarrow> mapped_ok s'" by (simp add: mapped_ok_def r assms)
  show "refs_ok s \<Longrightarrow> refs_ok s'" by (simp add: refs_ok_def r assms)
  have o: "obj_ok s' i = obj_ok s i" for i by (simp add: obj_ok_def assms)
  show "objs_ok s'" if "istruct_queue s' = istruct_queue s" "objs_ok s" using that by (simp add: objs_ok_def assms o)
  show "swap s' = swap s" by (rule ext) (simp add: swap_def assms)
qed

lemma maps_okD:
  assumes "maps_ok s"
  shows "finite (kheap s)" "swap s z \<Longrightarrow> map_ok (istr s z) (karr s) (kheap s)"
    "swap s z \<Longrightarrow> swap s z' \<Longrightarrow> z \<noteq> z' \<Longrightarrow> arrays (istr s z) (karr s) \<inter> arrays (istr s z') (karr s) = {}"
  using assms unfolding maps_ok_def by blast+

text \<open>Memory changes inside the arrays of one object, or outside all of them.\<close>

lemma maps_ok_local:
  assumes M: "maps_ok s" and z: "swap s z"
    and eq: "istr s' = istr s" "zheap s' = zheap s" and K: "kheap s \<subseteq> kheap s'" "finite (kheap s')"
    and own: "map_ok (istr s z) (karr s') (kheap s')" "arrays (istr s z) (karr s') \<subseteq> arrays (istr s z) (karr s) \<union> (kheap s' - kheap s)"
    and out: "\<And>a. a \<in> kheap s \<Longrightarrow> a \<notin> arrays (istr s z) (karr s) \<Longrightarrow> karr s' a = karr s a"
  shows "maps_ok s'" and "y \<noteq> z \<Longrightarrow> pagetab s' y = pagetab s y"
proof -
  have w: "swap s' = swap s" by (rule ext) (simp add: swap_def eq)
  note D = maps_okD [OF M]
  have keep: "\<forall>a\<in>arrays (istr s y) (karr s). karr s' a = karr s a" if "swap s y" "y \<noteq> z" for y
    using D(2) [OF that(1)] D(3) [OF that(1) z that(2)] out unfolding map_ok_def by blast
  then have p: "karr s' (pmap (istr s y)) = karr s (pmap (istr s y))" if "swap s y" "y \<noteq> z" for y
    using that by (simp add: arrays_def)
  have oth: "map_ok (istr s y) (karr s') (kheap s')" "arrays (istr s y) (karr s') = arrays (istr s y) (karr s)" if "swap s y" "y \<noteq> z" for y
    using map_ok_other [of "karr s'" "istr s y" "karr s" "kheap s" "kheap s'"] arrays_other [of "karr s'" "istr s y" "karr s"] p [OF that] D(2) [OF that(1)] K(1)
    by blast+
  have dis: "arrays (istr s z) (karr s') \<inter> arrays (istr s y) (karr s') = {}" if "swap s y" "y \<noteq> z" for y
    using oth(2) [OF that] own(2) D(2) [OF that(1)] D(3) [OF that(1) z that(2)] unfolding map_ok_def by blast
  have "arrays (istr s y) (karr s') \<inter> arrays (istr s y') (karr s') = {}" if "swap s y" "swap s y'" "y \<noteq> y'" for y y'
  proof (cases "y = z \<or> y' = z")
    case True
    then show ?thesis using dis [of y] dis [of y'] that by auto
  next
    case False
    then show ?thesis using oth(2) D(3) that by auto
  qed
  moreover have "map_ok (istr s y) (karr s') (kheap s')" if "swap s y" for y using own(1) oth(1) that by (cases "y = z") auto
  ultimately show "maps_ok s'" using K(2) by (simp add: maps_ok_def w eq)
  show "pagetab s' y = pagetab s y" if "y \<noteq> z"
  proof (rule ext)
    fix n
    show "pagetab s' y n = pagetab s y n"
    proof (cases "swap s y \<and> n < capacity (istr s y)")
      case True
      then show ?thesis using slot_other [OF keep, of y n] that by (simp add: pagetab_def w eq)
    next
      case False
      then show ?thesis by (auto simp: pagetab_def w eq)
    qed
  qed
qed

lemma grow_inv:
  fixes s :: "('d, 'f) pg_state" and z :: ptr
  defines "i \<equiv> istr s z"
  assumes I: "pg_inv e s" and z: "swap s z" and x: "INDIRECT_PAGEMAP i" and k: "k < INDIRECT_PAGEMAP_ENTRIES (is_size i)" "karr s (pmap i) k = 0"
    and t: "t \<notin> kheap s" "t \<noteq> 0"
  defines "s' \<equiv> s\<lparr>kheap := insert t (kheap s), karr := add_table i k t (karr s)\<rparr>"
  shows "pg_inv e s'" and "pagetab s' = pagetab s"
proof -
  note P = pg_invD [OF I]
  note mo = maps_okD(2) [OF P(2) z, folded i_def]
  note A = add_table_map [OF mo x k t]
  have eq: "istr s' = istr s" "zheap s' = zheap s" "inode_port_hashtable s' = inode_port_hashtable s" "i_pager s' = i_pager s"
      "pager_files s' = pager_files s" "\<And>p. pf_ip (pfile s' p) = pf_ip (pfile s p)" "istruct_queue s' = istruct_queue s" "pfile s' = pfile s"
      "pager_file_count s' = pager_file_count s" "use_paging_file s' = use_paging_file s" "kheap s' = insert t (kheap s)" "karr s' = add_table i k t (karr s)"
      "paging_file_initialized s' = paging_file_initialized s"
    by (simp_all add: s'_def)
  have K: "kheap s \<subseteq> kheap s'" "finite (kheap s')" using maps_okD(1) [OF P(2)] by (auto simp: eq)
  have own: "map_ok (istr s z) (karr s') (kheap s')" "arrays (istr s z) (karr s') \<subseteq> arrays (istr s z) (karr s) \<union> (kheap s' - kheap s)"
    using A(1,2) t by (auto simp: eq i_def [symmetric])
  have out: "karr s' a = karr s a" if "a \<in> kheap s" "a \<notin> arrays (istr s z) (karr s)" for a
    using that t add_table_outside [of a t i k "karr s"] by (auto simp: eq arrays_def i_def)
  note L = maps_ok_local [OF P(2) z eq(1,2) K own out]
  have w: "swap s' = swap s" by (rule ext) (simp add: swap_def eq)
  have pz: "pagetab s' z = pagetab s z"
    by (rule ext) (use A(3) in \<open>simp add: pagetab_def w eq i_def\<close>)
  show T: "pagetab s' = pagetab s" by (rule ext) (metis L(2) pz)
  have "files_ok e s'" using P(1) by (auto simp: files_ok_def T eq)
  then show "pg_inv e s'" using L(1) ports_parts [OF eq(1-6)] eq P by (simp add: pg_inv_def)
qed

lemma assign_inv:
  fixes s :: "('d, 'f) pg_state" and z :: ptr
  defines "i \<equiv> istr s z"
  assumes I: "pg_inv e s" and z: "swap s z" and n: "n < capacity i" "entry_array i (karr s) n \<noteq> 0" "slot i (karr s) n = None"
    and v: "v \<notin> pf_used (pfile s (pf_info i))" "v \<noteq> NOPAGE"
    and p: "pf_used p = insert v (pf_used (pfile s (pf_info i)))" "pf_ok p" "pf_ip p = pf_ip (pfile s (pf_info i))" "pf_npgs p = pf_npgs (pfile s (pf_info i))"
  defines "s' \<equiv> s\<lparr>pfile := (pfile s)(pf_info i := p), karr := set_entry i n v (karr s)\<rparr>"
  shows "pg_inv e s'" and "pagetab s' = (pagetab s)(z := (pagetab s z)(n := Some v))"
proof -
  note P = pg_invD [OF I]
  note mo = maps_okD(2) [OF P(2) z, folded i_def]
  note A = set_entry_map [OF mo n(1,2) v(2)]
  have eq: "istr s' = istr s" "zheap s' = zheap s" "inode_port_hashtable s' = inode_port_hashtable s" "i_pager s' = i_pager s"
      "pager_files s' = pager_files s" "\<And>q. pf_ip (pfile s' q) = pf_ip (pfile s q)" "istruct_queue s' = istruct_queue s"
      "pager_file_count s' = pager_file_count s" "use_paging_file s' = use_paging_file s" "kheap s' = kheap s" "karr s' = set_entry i n v (karr s)"
      "pfile s' = (pfile s)(pf_info i := p)" "paging_file_initialized s' = paging_file_initialized s"
    using p(3) by (simp_all add: s'_def)
  have K: "kheap s \<subseteq> kheap s'" "finite (kheap s')" using maps_okD(1) [OF P(2)] by (auto simp: eq)
  have own: "map_ok (istr s z) (karr s') (kheap s')" "arrays (istr s z) (karr s') \<subseteq> arrays (istr s z) (karr s) \<union> (kheap s' - kheap s)"
    using A(1,2) by (auto simp: eq i_def [symmetric])
  have out: "karr s' a = karr s a" if "a \<in> kheap s" "a \<notin> arrays (istr s z) (karr s)" for a
    using arrays_set_entry_outside [OF _ mo n(1,2), of a v] that by (simp add: eq i_def)
  note L = maps_ok_local [OF P(2) z eq(1,2) K own out]
  have w: "swap s' = swap s" by (rule ext) (simp add: swap_def eq)
  have pz: "pagetab s' z = (pagetab s z)(n := Some v)"
    by (rule ext) (use A(3) z n(1) in \<open>auto simp: pagetab_def w eq i_def [symmetric]\<close>)
  show T: "pagetab s' = (pagetab s)(z := (pagetab s z)(n := Some v))" by (rule ext) (use L(2) pz in simp)
  have nz: "pagetab s z n = None" using n(3) by (simp add: pagetab_def i_def)
  have "blocks (pagetab s') (\<lambda>y. pf_info (istr s' y) = q) (pf_used (pfile s' q))" if q: "q \<in> set (pager_files s)" for q
  proof -
    have b: "blocks (pagetab s) (\<lambda>y. pf_info (istr s y) = q) (pf_used (pfile s q))" using P(1) q by (simp add: files_ok_def)
    show ?thesis
    proof (cases "q = pf_info i")
      case True
      then show ?thesis using blocks_insert [OF b nz] v(1) p(1) unfolding T by (simp add: eq i_def)
    next
      case False
      then have "\<not> pf_info (istr s z) = q" by (simp add: i_def)
      then show ?thesis using blocks_other [of "\<lambda>y. pf_info (istr s y) = q" z "pagetab s"] b False unfolding T by (simp add: eq)
    qed
  qed
  moreover have "pf_ok (pfile s' q) \<and> pf_npgs (pfile s' q) * 2 ^ page_shift e \<le> 2 ^ 32" if "q \<in> set (pager_files s)" for q
    using P(1) p that by (auto simp: files_ok_def eq(12))
  moreover have "inj_on (\<lambda>q. pf_ip (pfile s' q)) (set (pager_files s'))" using P(1) by (simp add: files_ok_def eq(5,6))
  ultimately have "files_ok e s'" using P(1) unfolding files_ok_def eq(5,8,13) by blast
  then show "pg_inv e s'" using L(1) ports_parts [OF eq(1-6)] eq P by (simp add: pg_inv_def)
qed

end
