(* ===== verification/Pager_Pages.thy ===== *)
theory Pager_Pages
  imports Pager_Alloc
begin

text \<open>
  Reading and writing pages of the objects: an object is a map from page numbers to contents, and
  the pages of different objects do not share blocks.
\<close>

section \<open>Finding a block for a page\<close>

text \<open>States that agree on everything but the maps, the memory they are in and the blocks in use.\<close>

definition remapped :: "('d, 'f) pg_state \<Rightarrow> ('d, 'f) pg_state \<Rightarrow> bool" where
  "remapped s s' \<longleftrightarrow> s' = s\<lparr>kheap := kheap s', karr := karr s', pfile := pfile s'\<rparr> \<and> (\<forall>p. pf_ip (pfile s' p) = pf_ip (pfile s p))"

lemma remapped_refl [simp]: "remapped s s"
  by (simp add: remapped_def)

lemma remapped_upd:
  assumes "remapped s s'" "\<And>q. pf_ip (F q) = pf_ip (pfile s q)"
  shows "remapped s (s'\<lparr>pfile := F, karr := A\<rparr>)"
proof -
  obtain K A' F' where "s' = s\<lparr>kheap := K, karr := A', pfile := F'\<rparr>" using assms(1) unfolding remapped_def by blast
  then show ?thesis using assms(2) by (simp add: remapped_def)
qed

lemma remapped_eqs:
  assumes "remapped s s'"
  shows "istr s' = istr s" "zheap s' = zheap s" "inode_port_hashtable s' = inode_port_hashtable s" "i_pager s' = i_pager s"
    "pager_files s' = pager_files s" "\<And>p. pf_ip (pfile s' p) = pf_ip (pfile s p)" "istruct_queue s' = istruct_queue s"
    "disk s' = disk s" "data_request_queue s' = data_request_queue s" "calls s' = calls s" "use_paging_file s' = use_paging_file s"
proof -
  have e: "s' = s\<lparr>kheap := kheap s', karr := karr s', pfile := pfile s'\<rparr>" and p: "\<And>p. pf_ip (pfile s' p) = pf_ip (pfile s p)"
    using assms by (simp_all add: remapped_def)
  show "\<And>p. pf_ip (pfile s' p) = pf_ip (pfile s p)" by (rule p)
  show "istr s' = istr s" "zheap s' = zheap s" "inode_port_hashtable s' = inode_port_hashtable s" "i_pager s' = i_pager s"
    "pager_files s' = pager_files s" "istruct_queue s' = istruct_queue s" "disk s' = disk s" "data_request_queue s' = data_request_queue s"
    "calls s' = calls s" "use_paging_file s' = use_paging_file s"
    by (subst e, simp)+
qed

lemma swap_file:
  assumes "pg_inv e s" "swap s z"
  shows "pf_info (istr s z) \<in> set (pager_files s)" "pf_ok (pfile s (pf_info (istr s z)))" "obj_ok s (istr s z)" "z \<noteq> 0"
    "map_ok (istr s z) (karr s) (kheap s)" "pf_npgs (pfile s (pf_info (istr s z))) * 2 ^ page_shift e \<le> 2 ^ 32"
    "ip_of (is_inode (istr s z)) = pf_ip (pfile s (pf_info (istr s z)))"
proof -
  note P = pg_invD [OF assms(1)]
  have o: "obj_ok s (istr s z)" "z \<noteq> 0" using P(3) assms(2) unfolding objs_ok_def swap_def by metis+
  then have f: "pf_info (istr s z) \<in> set (pager_files s)" using assms(2) by (simp add: obj_ok_def swap_def)
  show "pf_info (istr s z) \<in> set (pager_files s)" "obj_ok s (istr s z)" "z \<noteq> 0" by fact+
  show "pf_ok (pfile s (pf_info (istr s z)))" "pf_npgs (pfile s (pf_info (istr s z))) * 2 ^ page_shift e \<le> 2 ^ 32"
    using P(1) f unfolding files_ok_def by blast+
  show "map_ok (istr s z) (karr s) (kheap s)" by (rule maps_okD(2) [OF P(2) assms(2)])
  show "ip_of (is_inode (istr s z)) = pf_ip (pfile s (pf_info (istr s z)))" using o(1) assms(2) by (simp add: obj_ok_def swap_def)
qed

lemma with_table_inv:
  assumes I: "pg_inv e s" and e: "alloc_ok e" and z: "swap s z" and n: "n < capacity (istr s z)" and w: "with_table e (istr s z) n s = Some s'"
  shows "pg_inv e s'" "pagetab s' = pagetab s" "remapped s s'" "pfile s' = pfile s" "entry_array (istr s z) (karr s') n \<noteq> 0"
proof -
  let ?i = "istr s z" and ?k = "n div PAGEMAP_ENTRIES" and ?t = "kalloc e (kheap s) 512"
  note F = swap_file [OF I z]
  have pm: "pmap ?i \<noteq> 0" using F(5) unfolding map_ok_def arrays_def by (metis insertI1)
  have "pg_inv e s' \<and> pagetab s' = pagetab s \<and> remapped s s' \<and> pfile s' = pfile s \<and> entry_array ?i (karr s') n \<noteq> 0"
  proof (cases "INDIRECT_PAGEMAP ?i \<and> karr s (pmap ?i) ?k = 0")
    case True
    then have t: "?t \<noteq> 0" and s': "s' = s\<lparr>kheap := insert ?t (kheap s), karr := add_table ?i ?k ?t (karr s)\<rparr>"
      using w by (auto simp: with_table_def Let_def split: if_splits)
    have new: "?t \<notin> kheap s" using alloc_okD(1) [OF e maps_okD(1) [OF pg_invD(2) [OF I]] t] .
    have "?t \<noteq> pmap ?i" using new F(5) unfolding map_ok_def arrays_def by (metis insertI1 subsetD)
    then have "entry_array ?i (karr s') n \<noteq> 0" using True t by (simp add: s' entry_array_def add_table_def)
    then show ?thesis using grow_inv [OF I z _ index_bound [OF n] _ new t] True by (simp add: s' remapped_def)
  next
    case False
    then show ?thesis using w I pm by (auto simp: with_table_def Let_def entry_array_def split: if_splits)
  qed
  then show "pg_inv e s'" "pagetab s' = pagetab s" "remapped s s'" "pfile s' = pfile s" "entry_array ?i (karr s') n \<noteq> 0" by blast+
qed

lemma block_bound:
  assumes "alloc_ok e" "v < n" "n * 2 ^ page_shift e \<le> 2 ^ 32"
  shows "v * 2 ^ page_shift e + 2 ^ page_shift e \<le> 2 ^ 32" "v \<noteq> NOPAGE"
proof -
  have "(v + 1) * 2 ^ page_shift e \<le> n * 2 ^ page_shift e" using assms(2) by (intro mult_right_mono) auto
  then show b: "v * 2 ^ page_shift e + 2 ^ page_shift e \<le> 2 ^ 32" using assms(3) by (simp add: algebra_simps)
  have "(2::nat) ^ 9 \<le> 2 ^ page_shift e" using assms(1) by (intro power_increasing) (auto simp: alloc_ok_def)
  then have "v * 512 \<le> v * 2 ^ page_shift e" by (intro mult_left_mono) auto
  then show "v \<noteq> NOPAGE" using b by (auto simp: NOPAGE_def)
qed

lemma pf_bmap_write:
  assumes I: "pg_inv e s" and e: "alloc_ok e" and z: "swap s z" and n: "atop e off < is_size (istr s z)"
  shows "\<exists>r s'. pf_bmap_at e z off B_WRITE s = Some (r, s') \<and> pg_inv e s' \<and> remapped s s'
    \<and> (case r of None \<Rightarrow> pagetab s' = pagetab s \<and> pagetab s z (atop e off) = None \<and> pfile s' = pfile s
            \<and> (pf_pfree (pfile s (pf_info (istr s z))) = 0 \<or> kalloc e (kheap s) 512 = 0)
        | Some a \<Rightarrow> \<exists>v. a = new_offset e off v \<and> pagetab s' = (pagetab s)(z := (pagetab s z)(atop e off := Some v))
            \<and> v < pf_npgs (pfile s (pf_info (istr s z))) \<and> (pagetab s z (atop e off) = None \<longrightarrow> pf_pfree (pfile s (pf_info (istr s z))) \<noteq> 0)
            \<and> pf_pfree (pfile s (pf_info (istr s z))) \<le> Suc (pf_pfree (pfile s' (pf_info (istr s z)))))"
proof -
  let ?i = "istr s z" and ?n = "atop e off" and ?f = "pf_info (istr s z)"
  note F = swap_file [OF I z]
  have c: "?n < capacity ?i" using n size_capacity [of ?i] by simp
  then have T: "pagetab s z ?n = slot ?i (karr s) ?n" using z by (simp add: pagetab_def)
  show ?thesis
  proof (cases "slot ?i (karr s) ?n")
    case (Some v)
    have "(pagetab s)(z := (pagetab s z)(?n := Some v)) = pagetab s" using Some T by (auto simp: fun_eq_iff)
    moreover have "v \<in> pf_used (pfile s ?f)"
      using pg_invD(1) [OF I] F(1) Some T blocksD(1) [of "pagetab s" "\<lambda>y. pf_info (istr s y) = ?f" _ z ?n v] by (simp add: files_ok_def)
    ultimately show ?thesis using pf_bmap_write_old [OF less_imp_le [OF n] Some] I T Some
      by (intro exI [of _ "Some (new_offset e off v)"] exI [of _ s]) (auto simp: pf_used_def intro: exI [of _ v])
  next
    case None
    have t: "kalloc e (kheap s) 512 = 0 \<or> kalloc e (kheap s) 512 \<noteq> pmap ?i"
      using alloc_okD(1) [OF e maps_okD(1) [OF pg_invD(2) [OF I]], of 512] F(5) unfolding map_ok_def arrays_def by (metis insertI1 subsetD)
    note W = pf_bmap_write_new [OF less_imp_le [OF n] None t]
    show ?thesis
    proof (cases "with_table e ?i ?n s")
      case N: None
      then have "kalloc e (kheap s) 512 = 0" by (auto simp: with_table_def Let_def split: if_splits)
      then show ?thesis using W N I T None by simp
    next
      case S: (Some s1)
      note G = with_table_inv [OF I e z c S]
      note R = remapped_eqs [OF G(3)]
      show ?thesis
      proof (cases "pf_pfree (pfile s ?f) = 0")
        case True
        then show ?thesis using W S G T None by (simp add: pf_allocate_page_none)
      next
        case False
        obtain v where v: "pf_allocate_page e (pfile s ?f) = Some (Some v, (pfile s ?f)\<lparr>pf_bmap := setbit (pf_bmap (pfile s ?f)) v, pf_pfree := pf_pfree (pfile s ?f) - 1\<rparr>)"
          "v < pf_npgs (pfile s ?f)" "v \<notin> pf_used (pfile s ?f)" "\<forall>j<v. j \<in> pf_used (pfile s ?f)"
          "pf_used ((pfile s ?f)\<lparr>pf_bmap := setbit (pf_bmap (pfile s ?f)) v, pf_pfree := pf_pfree (pfile s ?f) - 1\<rparr>) = insert v (pf_used (pfile s ?f))"
          "pf_ok ((pfile s ?f)\<lparr>pf_bmap := setbit (pf_bmap (pfile s ?f)) v, pf_pfree := pf_pfree (pfile s ?f) - 1\<rparr>)"
          using pf_allocate_page_some [OF F(2) False] by blast
        define p where "p = (pfile s ?f)\<lparr>pf_bmap := setbit (pf_bmap (pfile s ?f)) v, pf_pfree := pf_pfree (pfile s ?f) - 1\<rparr>"
        have p: "pf_ip p = pf_ip (pfile s ?f)" "pf_npgs p = pf_npgs (pfile s ?f)" "pf_pfree p = pf_pfree (pfile s ?f) - 1" by (simp_all add: p_def)
        note v = v [folded p_def]
        let ?s = "s1\<lparr>pfile := (pfile s)(?f := p), karr := set_entry ?i ?n v (karr s1)\<rparr>"
        have z1: "swap s1 z" using z R by (simp add: swap_def)
        have sl: "slot (istr s1 z) (karr s1) ?n = None" using fun_cong [OF fun_cong [OF G(2), of z], of ?n] T None z1 c by (simp add: pagetab_def R)
        have A: "pg_inv e ?s" "pagetab ?s = (pagetab s)(z := (pagetab s z)(?n := Some v))"
          using assign_inv [OF G(1) z1, of ?n v p] c G(2,4,5) sl v(3,5,6) block_bound(2) [OF e v(2) F(6)] p by (simp_all add: R)
        have "remapped s ?s" by (rule remapped_upd [OF G(3)]) (use p(1) in simp)
        then show ?thesis using W S v(1,2) A p(3) False by auto
      qed
    qed
  qed
qed

end
