(* ===== verification/Pager_Store.thy ===== *)
theory Pager_Store
  imports Pager_Pages
begin

text \<open>
  Pages on disk.  The file system is given by what it promises: a page that has been written is
  read back, and writing a page changes no other page of any file.
\<close>

section \<open>The file system\<close>

definition store_ok :: "('f \<Rightarrow> ptr \<Rightarrow> nat \<Rightarrow> 'd) \<Rightarrow> ('d, 'f) pg_env \<Rightarrow> bool" where
  "store_ok content e \<longleftrightarrow>
    (\<forall>ip a d b f. (fst (vop_page_write e ip a d b f) = 0 \<and> \<not> b \<longrightarrow> content (snd (vop_page_write e ip a d b f)) ip a = d)
       \<and> (\<forall>ip' a'. ip' \<noteq> ip \<or> a' + page_size e \<le> a \<or> a + page_size e \<le> a' \<longrightarrow>
            content (snd (vop_page_write e ip a d b f)) ip' a' = content f ip' a'))
    \<and> (\<forall>ip a f. content (snd (snd (vop_page_read e ip a f))) = content f \<and> fst (vop_page_read e ip a f) \<in> {0, EINVAL, EIO}
       \<and> (fst (vop_page_read e ip a f) = 0 \<longrightarrow> fst (snd (vop_page_read e ip a f)) = content f ip a))
    \<and> (\<forall>ip n f ip'. ip' \<noteq> ip \<longrightarrow> content (snd (vop_setattr e ip n f)) ip' = content f ip')"

lemma store_okD:
  assumes "store_ok content e"
  shows "vop_page_write e ip a d b f = (0, f') \<Longrightarrow> \<not> b \<Longrightarrow> content f' ip a = d"
    and "vop_page_write e ip a d b f = (err, f') \<Longrightarrow> ip' \<noteq> ip \<or> a' + page_size e \<le> a \<or> a + page_size e \<le> a' \<Longrightarrow> content f' ip' a' = content f ip' a'"
    and "vop_page_read e ip a f = (r, x, f') \<Longrightarrow> content f' = content f \<and> r \<in> {0, EINVAL, EIO} \<and> (r = 0 \<longrightarrow> x = content f ip a)"
    and "vop_setattr e ip n f = (err, f') \<Longrightarrow> ip' \<noteq> ip \<Longrightarrow> content f' ip' = content f ip'"
proof -
  note S = assms [unfolded store_ok_def]
  show "content f' ip a = d" if "vop_page_write e ip a d b f = (0, f')" "\<not> b"
    using S that by (metis fst_conv snd_conv)
  show "content f' ip' a' = content f ip' a'" if "vop_page_write e ip a d b f = (err, f')" "ip' \<noteq> ip \<or> a' + page_size e \<le> a \<or> a + page_size e \<le> a'"
    using S that by (metis snd_conv)
  show "content f' = content f \<and> r \<in> {0, EINVAL, EIO} \<and> (r = 0 \<longrightarrow> x = content f ip a)" if "vop_page_read e ip a f = (r, x, f')"
    using S that by (metis fst_conv snd_conv)
  show "content f' ip' = content f ip'" if "vop_setattr e ip n f = (err, f')" "ip' \<noteq> ip" using S that by (metis snd_conv)
qed

section \<open>The contents of objects\<close>

definition contents :: "('f \<Rightarrow> ptr \<Rightarrow> nat \<Rightarrow> 'd) \<Rightarrow> ('d, 'f) pg_env \<Rightarrow> ('d, 'f) pg_state \<Rightarrow> ptr \<Rightarrow> nat \<Rightarrow> 'd option" where
  "contents content e s z n = map_option (\<lambda>v. content (disk s) (pf_ip (pfile s (pf_info (istr s z)))) (v * page_size e)) (pagetab s z n)"

text \<open>States with the same structures of objects, but perhaps other pages, counts and errors.\<close>

definition kept :: "('d, 'f) pg_state \<Rightarrow> ('d, 'f) pg_state \<Rightarrow> bool" where
  "kept s s' \<longleftrightarrow> (\<forall>z. core (istr s' z) = core (istr s z) \<and> free_me (istr s' z) = free_me (istr s z)) \<and> zheap s' = zheap s
     \<and> inode_port_hashtable s' = inode_port_hashtable s \<and> i_pager s' = i_pager s \<and> pager_files s' = pager_files s
     \<and> istruct_queue s' = istruct_queue s \<and> (\<forall>p. pf_ip (pfile s' p) = pf_ip (pfile s p)) \<and> use_paging_file s' = use_paging_file s"

lemma kept_refl [simp]: "kept s s"
  by (simp add: kept_def)

lemma kept_trans: "kept s s' \<Longrightarrow> kept s' s'' \<Longrightarrow> kept s s''"
  unfolding kept_def by simp

lemma keptD:
  assumes "kept s s'"
  shows "swap s' z = swap s z" "is_size (istr s' z) = is_size (istr s z)" "pf_info (istr s' z) = pf_info (istr s z)"
    "swapfile (istr s' z) = swapfile (istr s z)" "inode_pager_lookup n s' = inode_pager_lookup n s" "zheap s' = zheap s"
    "is_inode (istr s' z) = is_inode (istr s z)" "registered s' z = registered s z" "capacity (istr s' z) = capacity (istr s z)"
proof -
  have c: "core (istr s' z) = core (istr s z)" and e: "zheap s' = zheap s" "inode_port_hashtable s' = inode_port_hashtable s" using assms by (simp_all add: kept_def)
  show "zheap s' = zheap s" by (rule e)
  show l: "inode_pager_lookup n s' = inode_pager_lookup n s" for n by (simp add: inode_pager_lookup_def e)
  show "swap s' z = swap s z" "is_size (istr s' z) = is_size (istr s z)" "pf_info (istr s' z) = pf_info (istr s z)"
    "swapfile (istr s' z) = swapfile (istr s z)" "is_inode (istr s' z) = is_inode (istr s z)" "registered s' z = registered s z"
    "capacity (istr s' z) = capacity (istr s z)"
    using coreD [OF c] core_map(2) [OF c] by (simp_all add: swap_def e registered_def l)
qed

lemma kept_remapped: "remapped s s' \<Longrightarrow> kept s s'"
  by (simp add: kept_def remapped_eqs)

lemma kept_same:
  assumes "same_objs s s'" "same_ports s s'" "\<And>z. free_me (istr s' z) = free_me (istr s z)" shows "kept s s'"
  using assms by (simp add: kept_def same_objs_def same_ports_def)

lemma kept_disk [simp]: "kept s (s\<lparr>disk := f\<rparr>)" "same_objs s (s\<lparr>disk := f\<rparr>)" "same_ports s (s\<lparr>disk := f\<rparr>)"
  by (simp_all add: kept_def same_objs_def same_ports_def)

lemma contents_same:
  assumes "same_objs s s'" "disk s' = disk s"
  shows "contents content e s' = contents content e s"
proof -
  have "core (istr s' z) = core (istr s z)" for z using assms(1) by (simp add: same_objs_def)
  then have p: "pf_info (istr s' z) = pf_info (istr s z)" for z by (rule coreD(5))
  then show ?thesis using same_pagetab(2) [OF assms(1)] assms by (intro ext) (simp add: contents_def same_objs_def)
qed

lemma pagetab_used:
  assumes I: "pg_inv e s" and T: "pagetab s z n = Some v"
  shows "v \<in> pf_used (pfile s (pf_info (istr s z)))" "swap s z" "n < capacity (istr s z)"
proof -
  show z: "swap s z" "n < capacity (istr s z)" using T by (auto simp: pagetab_def split: if_splits)
  show "v \<in> pf_used (pfile s (pf_info (istr s z)))"
    using pg_invD(1) [OF I] swap_file(1) [OF I z(1)] blocksD(1) [of "pagetab s" "\<lambda>y. pf_info (istr s y) = pf_info (istr s z)" _ z n v] T
    by (simp add: files_ok_def)
qed

lemma contents_write:
  assumes I: "pg_inv e s" and st: "store_ok content e" and T: "pagetab s z n = Some v"
    and w: "vop_page_write e (pf_ip (pfile s (pf_info (istr s z)))) (v * page_size e) d b (disk s) = (err, f)"
  shows "y \<noteq> z \<or> m \<noteq> n \<Longrightarrow> contents content e (s\<lparr>disk := f\<rparr>) y m = contents content e s y m"
    and "err = 0 \<Longrightarrow> \<not> b \<Longrightarrow> contents content e (s\<lparr>disk := f\<rparr>) z n = Some d"
proof -
  have P: "pagetab (s\<lparr>disk := f\<rparr>) = pagetab s" by (intro ext) (simp add: pagetab_def swap_def)
  show "contents content e (s\<lparr>disk := f\<rparr>) z n = Some d" if "err = 0" "\<not> b"
    using store_okD(1) [OF st] w that T by (simp add: contents_def P)
  show "contents content e (s\<lparr>disk := f\<rparr>) y m = contents content e s y m" if o: "y \<noteq> z \<or> m \<noteq> n"
  proof (cases "pagetab s y m")
    case None
    then show ?thesis by (simp add: contents_def P)
  next
    case (Some u)
    let ?p = "pf_info (istr s z)" and ?q = "pf_info (istr s y)"
    note F = swap_file(1) [OF I pagetab_used(2) [OF I T]] swap_file(1) [OF I pagetab_used(2) [OF I Some]]
    have "pf_ip (pfile s ?q) \<noteq> pf_ip (pfile s ?p) \<or> u * page_size e + page_size e \<le> v * page_size e \<or> v * page_size e + page_size e \<le> u * page_size e"
    proof (cases "?q = ?p")
      case True
      have "u \<noteq> v"
        using pg_invD(1) [OF I] F(1) blocksD(2) [of "pagetab s" "\<lambda>y. pf_info (istr s y) = ?p" _ z y n v m] T Some o True
        by (auto simp: files_ok_def)
      then have "u + 1 \<le> v \<or> v + 1 \<le> u" by linarith
      then have "(u + 1) * page_size e \<le> v * page_size e \<or> (v + 1) * page_size e \<le> u * page_size e" by (metis mult_le_mono1)
      then show ?thesis by (simp add: algebra_simps)
    next
      case False
      then show ?thesis using pg_invD(1) [OF I] F by (auto simp: files_ok_def inj_on_def)
    qed
    then have "content f (pf_ip (pfile s ?q)) (u * page_size e) = content (disk s) (pf_ip (pfile s ?q)) (u * page_size e)"
      by (rule store_okD(2) [OF st w])
    then show ?thesis using Some by (simp add: contents_def P)
  qed
qed

text \<open>Writing to a file that is not a paging file.\<close>

lemma contents_foreign:
  assumes I: "pg_inv e s" and st: "store_ok content e" and ip: "\<forall>p\<in>set (pager_files s). pf_ip (pfile s p) \<noteq> ip"
    and w: "vop_page_write e ip a d b (disk s) = (err, f)"
  shows "contents content e (s\<lparr>disk := f\<rparr>) = contents content e s"
proof (intro ext)
  fix y m
  have P: "pagetab (s\<lparr>disk := f\<rparr>) = pagetab s" by (intro ext) (simp add: pagetab_def swap_def)
  show "contents content e (s\<lparr>disk := f\<rparr>) y m = contents content e s y m"
  proof (cases "pagetab s y m")
    case None
    then show ?thesis by (simp add: contents_def P)
  next
    case (Some u)
    then have "pf_ip (pfile s (pf_info (istr s y))) \<noteq> ip" using ip swap_file(1) [OF I pagetab_used(2) [OF I Some]] by blast
    then show ?thesis using Some store_okD(2) [OF st w] by (simp add: contents_def P)
  qed
qed

lemma page_offset:
  assumes "alloc_ok e" "v < n" "n * 2 ^ page_shift e \<le> 2 ^ 32" "off mod page_size e = 0"
  shows "new_offset e off v = v * page_size e" "u32 (new_offset e off v) = v * page_size e"
proof -
  have "v * 2 ^ page_shift e < 2 ^ 32"
    using block_bound(1) [OF assms(1-3)] by (metis less_le_trans less_add_same_cancel1 zero_less_power zero_less_numeral)
  then show "new_offset e off v = v * page_size e" "u32 (new_offset e off v) = v * page_size e"
    using assms(4) by (simp_all add: new_offset_def ptoa_def page_size_def u32_def)
qed

end
