(* ===== verification/Pager_Data.thy ===== *)
theory Pager_Data
  imports Pager_Store
begin

text \<open>
  The data calls: writing pages of an object changes that object only and stores the data, reading
  returns what is stored.
\<close>

section \<open>One page\<close>

definition touches :: "('f \<Rightarrow> ptr \<Rightarrow> nat \<Rightarrow> 'd) \<Rightarrow> ('d, 'f) pg_env \<Rightarrow> ptr set \<Rightarrow> ('d, 'f) pg_state \<Rightarrow> ('d, 'f) pg_state \<Rightarrow> bool" where
  "touches content e Z s s' \<longleftrightarrow> pg_inv e s' \<and> kept s s' \<and> (\<forall>y. y \<notin> Z \<longrightarrow> contents content e s' y = contents content e s y)"

lemma touches_refl: "pg_inv e s \<Longrightarrow> touches content e Z s s"
  by (simp add: touches_def)

lemma touches_trans: "touches content e Z s s' \<Longrightarrow> touches content e Z s' s'' \<Longrightarrow> touches content e Z s s''"
  unfolding touches_def using kept_trans by metis

lemma touches_mono: "touches content e Z s s' \<Longrightarrow> Z \<subseteq> Z' \<Longrightarrow> touches content e Z' s s'"
  unfolding touches_def by blast

lemma touches_same:
  assumes "pg_inv e s" "same_objs s s'" "same_ports s s'" "\<And>z. free_me (istr s' z) = free_me (istr s z)" "disk s' = disk s"
  shows "touches content e Z s s'"
  using assms same_inv [OF assms(2,3,1)] kept_same [OF assms(2,3)] contents_same [OF assms(2,5)] by (simp add: touches_def)

lemma touches_upd_is:
  assumes "pg_inv e s" "\<And>i. core (f i) = core i" "\<And>i. free_me (f i) = free_me i"
  shows "touches content e Z s (upd_is z f s)"
  by (rule touches_same [OF assms(1) same_upd_is [OF assms(2)]]) (simp_all add: upd_is_def assms(3))

lemma touches_call: "pg_inv e s \<Longrightarrow> touches content e Z s (call c s)"
  by (rule touches_same [OF _ same_call]) (simp_all add: call_def)

text \<open>What one page written to an object of a paging file does.\<close>

definition writes_succeed :: "('d, 'f) pg_env \<Rightarrow> bool" where
  "writes_succeed e \<longleftrightarrow> (\<forall>ip a d b f. fst (vop_page_write e ip a d b f) = 0)"

definition page_written :: "('f \<Rightarrow> ptr \<Rightarrow> nat \<Rightarrow> 'd) \<Rightarrow> ('d, 'f) pg_env \<Rightarrow> ptr \<Rightarrow> nat \<Rightarrow> 'd \<Rightarrow> ('d, 'f) pg_state \<Rightarrow> ('d, 'f) pg_state \<Rightarrow> bool" where
  "page_written content e z n d s s' \<longleftrightarrow> (\<forall>m. m \<noteq> n \<longrightarrow> contents content e s' z m = contents content e s z m)
     \<and> is_errors (istr s z) \<le> is_errors (istr s' z) \<and> (writes_succeed e \<longrightarrow> is_errors (istr s' z) = is_errors (istr s z))
     \<and> pf_pfree (pfile s (pf_info (istr s z))) \<le> Suc (pf_pfree (pfile s' (pf_info (istr s z))))
     \<and> (contents content e s' z n = Some d \<or> is_errors (istr s z) < is_errors (istr s' z)
        \<or> contents content e s' z = contents content e s z \<and> contents content e s z n = None \<and> is_errors (istr s' z) = is_errors (istr s z)
          \<and> (pf_pfree (pfile s (pf_info (istr s z))) = 0 \<or> kalloc e (kheap s) 512 = 0))"

lemma errors_touch: "pg_inv e s \<Longrightarrow> touches content e Z s (upd_is z (\<lambda>i. i\<lparr>is_errors := is_errors i + 1\<rparr>) s)"
  by (rule touches_upd_is) (simp_all add: core_def)

lemma remapped_contents:
  assumes "remapped s s'" "pagetab s' = (pagetab s)(z := (pagetab s z)(n := x))"
  shows "y \<noteq> z \<or> m \<noteq> n \<Longrightarrow> contents content e s' y m = contents content e s y m"
  using assms(2) by (auto simp: contents_def remapped_eqs [OF assms(1)])

lemma is_page_write_swap:
  assumes I: "pg_inv e s" and e: "alloc_ok e" and st: "store_ok content e" and z: "swap s z"
    and off: "off mod page_size e = 0" "atop e off < is_size (istr s z)"
  shows "\<exists>s'. is_page_write e z (ip_of (is_inode (istr s z))) off d s = Some s' \<and> touches content e {z} s s'
    \<and> page_written content e z (atop e off) d s s'"
proof -
  let ?n = "atop e off" and ?f = "pf_info (istr s z)"
  note F = swap_file [OF I z]
  obtain r s1 where b: "pf_bmap_at e z off B_WRITE s = Some (r, s1)" "pg_inv e s1" "remapped s s1"
    and c: "case r of None \<Rightarrow> pagetab s1 = pagetab s \<and> pagetab s z ?n = None \<and> pfile s1 = pfile s \<and> (pf_pfree (pfile s ?f) = 0 \<or> kalloc e (kheap s) 512 = 0)
       | Some a \<Rightarrow> \<exists>v. a = new_offset e off v \<and> pagetab s1 = (pagetab s)(z := (pagetab s z)(?n := Some v))
            \<and> v < pf_npgs (pfile s ?f) \<and> (pagetab s z ?n = None \<longrightarrow> pf_pfree (pfile s ?f) \<noteq> 0) \<and> pf_pfree (pfile s ?f) \<le> Suc (pf_pfree (pfile s1 ?f))"
    using pf_bmap_write [OF I e z off(2)] by blast
  note R = remapped_eqs [OF b(3)]
  have sw: "swapfile (istr s z)" "paging_shift (istr s z) = 0" using z F(3) by (simp_all add: swap_def obj_ok_def)
  show ?thesis
  proof (cases r)
    case None
    then have C: "contents content e s1 = contents content e s" using c by (intro ext) (simp add: contents_def R)
    have "is_page_write e z (ip_of (is_inode (istr s z))) off d s = Some s1"
      using b(1) sw None by (simp add: is_page_write_def actual_offset_def)
    moreover have "touches content e {z} s s1" using b(2) kept_remapped [OF b(3)] C by (simp add: touches_def)
    moreover have "page_written content e z ?n d s s1" using c None C by (auto simp: page_written_def R contents_def)
    ultimately show ?thesis by blast
  next
    case (Some a)
    then obtain v where v: "a = new_offset e off v" "pagetab s1 = (pagetab s)(z := (pagetab s z)(?n := Some v))"
      "v < pf_npgs (pfile s ?f)" "pf_pfree (pfile s ?f) \<le> Suc (pf_pfree (pfile s1 ?f))" using c by auto
    have a: "u32 a = v * page_size e" using page_offset(2) [OF e v(3) F(6) off(1)] v(1) by simp
    have T: "pagetab s1 z ?n = Some v" using v(2) by simp
    obtain err f where w: "vop_page_write e (pf_ip (pfile s1 (pf_info (istr s1 z)))) (v * page_size e) d False (disk s1) = (err, f)" by fastforce
    have ok: "err = 0" if "writes_succeed e" using that w unfolding writes_succeed_def by (metis fst_conv)
    let ?s2 = "s1\<lparr>disk := f\<rparr>"
    let ?s3 = "if err \<noteq> 0 then upd_is z (\<lambda>i. i\<lparr>is_errors := is_errors i + 1\<rparr>) ?s2 else ?s2"
    have "is_page_write e z (ip_of (is_inode (istr s z))) off d s = Some ?s3"
      using b(1) sw Some w F(7) by (simp add: is_page_write_def actual_offset_def R a)
    moreover have "pg_inv e ?s2" by (rule same_inv [OF _ _ b(2)]) simp_all
    then have E: "touches content e {z} ?s2 ?s3" using errors_touch touches_refl by auto
    have "contents content e (upd_is z (\<lambda>i. i\<lparr>is_errors := is_errors i + 1\<rparr>) ?s2) = contents content e ?s2"
      by (rule contents_same [OF same_upd_is(1)]) (simp_all add: core_def upd_is_def)
    then have E0: "contents content e ?s3 = contents content e ?s2" by simp
    note W = contents_write [OF b(2) st T w]
    have oth: "contents content e ?s2 y m = contents content e s y m" if "y \<noteq> z \<or> m \<noteq> ?n" for y m
      using W(1) [OF that] remapped_contents [OF b(3) v(2) that] by simp
    have "touches content e {z} s ?s2" unfolding touches_def
    proof (intro conjI allI impI)
      show "pg_inv e ?s2" by fact
      show "kept s ?s2" using kept_trans [OF kept_remapped [OF b(3)] kept_disk(1)] .
      show "contents content e ?s2 y = contents content e s y" if "y \<notin> {z}" for y by (rule ext) (use oth that in auto)
    qed
    then have "touches content e {z} s ?s3" using E by (rule touches_trans)
    moreover have "page_written content e z ?n d s ?s3"
      unfolding page_written_def E0 using oth W(2) v(4) ok by (auto simp: R upd_is_def)
    ultimately show ?thesis by blast
  qed
qed

text \<open>Writing and initialising pages of other objects, and initialising pages that have no block.\<close>

lemma foreign_disk:
  assumes I: "pg_inv e s" and st: "store_ok content e" and z: "registered s z" "\<not> swapfile (istr s z)"
    and w: "vop_page_write e (ip_of (is_inode (istr s z))) a d b (disk s) = (err, f)"
  shows "touches content e Z s (s\<lparr>disk := f\<rparr>)"
proof -
  have "\<forall>p\<in>set (pager_files s). pf_ip (pfile s p) \<noteq> ip_of (is_inode (istr s z))"
    using pg_invD(5) [OF I] z unfolding mapped_ok_def by blast
  note C = contents_foreign [OF I st this w]
  have "pg_inv e (s\<lparr>disk := f\<rparr>)" by (rule same_inv [OF _ _ I]) simp_all
  then show ?thesis by (simp add: touches_def C)
qed

lemma is_page_write_mapped:
  assumes I: "pg_inv e s" and st: "store_ok content e" and z: "registered s z" "\<not> swapfile (istr s z)"
  shows "\<exists>s'. is_page_write e z (ip_of (is_inode (istr s z))) off d s = Some s' \<and> touches content e Z s s'"
proof -
  obtain err f where w: "vop_page_write e (ip_of (is_inode (istr s z))) (u32 (off * 2 ^ paging_shift (istr s z))) d False (disk s) = (err, f)" by fastforce
  note T = foreign_disk [OF I st z w, of Z]
  then have "pg_inv e (s\<lparr>disk := f\<rparr>)" by (simp add: touches_def)
  then have "touches content e Z s (upd_is z (\<lambda>i. i\<lparr>is_errors := is_errors i + 1\<rparr>) (s\<lparr>disk := f\<rparr>))" using touches_trans [OF T errors_touch] by blast
  then show ?thesis using T w z(2) by (simp add: is_page_write_def actual_offset_def Let_def)
qed

lemma is_page_initialize_touches:
  assumes I: "pg_inv e s" and e: "alloc_ok e" and st: "store_ok content e" and z: "registered s z" "z \<in> zheap s"
    and off: "swapfile (istr s z) \<Longrightarrow> off mod page_size e = 0 \<and> atop e off < is_size (istr s z)"
  shows "\<exists>s'. is_page_initialize e z (ip_of (is_inode (istr s z))) off d s = Some s' \<and> touches content e {z} s s'
    \<and> (swapfile (istr s z) \<longrightarrow> contents content e s z (atop e off) = None \<longrightarrow> s' = s)"
proof (cases "swapfile (istr s z)")
  case True
  then have w: "swap s z" using z by (simp add: swap_def)
  note F = swap_file [OF I w] and o = off [OF True]
  have ps: "paging_shift (istr s z) = 0" using F(3) by (simp add: obj_ok_def)
  let ?n = "atop e off"
  have T: "pagetab s z ?n = slot (istr s z) (karr s) ?n" using w o size_capacity [of "istr s z"] by (simp add: pagetab_def)
  have b: "pf_bmap_at e z off B_READ s = Some (map_option (new_offset e off) (pagetab s z ?n), s)"
    using pf_bmap_read [of e off s z] o T by simp
  show ?thesis
  proof (cases "pagetab s z ?n")
    case None
    then show ?thesis using b True I touches_refl by (auto simp: is_page_initialize_def actual_offset_def)
  next
    case (Some v)
    have "v < pf_npgs (pfile s (pf_info (istr s z)))" using pagetab_used(1) [OF I Some] by (simp add: pf_used_def)
    then have a: "u32 (new_offset e off v) = v * page_size e" using page_offset(2) [OF e _ F(6)] o by simp
    obtain err f where wr: "vop_page_write e (pf_ip (pfile s (pf_info (istr s z)))) (v * page_size e) d True (disk s) = (err, f)" by fastforce
    note W = contents_write [OF I st Some wr]
    have "pg_inv e (s\<lparr>disk := f\<rparr>)" by (rule same_inv [OF _ _ I]) simp_all
    moreover have "contents content e (s\<lparr>disk := f\<rparr>) y = contents content e s y" if "y \<noteq> z" for y by (rule ext) (use W(1) that in blast)
    ultimately have "touches content e {z} s (s\<lparr>disk := f\<rparr>)" by (simp add: touches_def)
    then show ?thesis using b True Some wr F(7) ps by (simp add: is_page_initialize_def actual_offset_def a contents_def)
  qed
next
  case False
  obtain err f where w: "vop_page_write e (ip_of (is_inode (istr s z))) (u32 (off * 2 ^ paging_shift (istr s z))) d True (disk s) = (err, f)" by fastforce
  show ?thesis using foreign_disk [OF I st z(1) False w, of "{z}"] w False by (simp add: is_page_initialize_def actual_offset_def)
qed

text \<open>Reading.\<close>

lemma is_page_read_touches:
  assumes I: "pg_inv e s" and st: "store_ok content e"
  shows "\<exists>r d f. is_page_read e z ip off s = Some (r, d, s\<lparr>disk := f\<rparr>) \<and> touches content e {} s (s\<lparr>disk := f\<rparr>)
    \<and> r \<in> {0, EINVAL, EIO} \<and> (r = 0 \<longrightarrow> d \<noteq> None)"
proof -
  have T: "touches content e {} s (s\<lparr>disk := f\<rparr>)" if "content f = content (disk s)" for f
  proof -
    have "pg_inv e (s\<lparr>disk := f\<rparr>)" by (rule same_inv [OF _ _ I]) simp_all
    moreover have "contents content e (s\<lparr>disk := f\<rparr>) = contents content e s"
      using that same_pagetab(2) [OF kept_disk(2) [of s f]] by (intro ext) (simp add: contents_def)
    ultimately show ?thesis by (simp add: touches_def)
  qed
  obtain r where r: "actual_offset e z off B_READ s = Some (r, s)"
    unfolding actual_offset_def using pf_bmap_read_total [of e z off s] by (metis (full_types))
  show ?thesis
  proof (cases r)
    case None
    have "is_page_read e z ip off s = Some (EINVAL, None, s\<lparr>disk := disk s\<rparr>)" using r None by (simp add: is_page_read_def)
    then show ?thesis using T [of "disk s"] by (intro exI [of _ EINVAL] exI [of _ None] exI [of _ "disk s"]) (simp add: EINVAL_def)
  next
    case (Some a)
    obtain q x f where v: "vop_page_read e ip (u32 (a * 2 ^ paging_shift (istr s z))) (disk s) = (q, x, f)" by (metis surj_pair)
    have "is_page_read e z ip off s = Some (q, Some x, s\<lparr>disk := f\<rparr>)" using r Some v by (simp add: is_page_read_def)
    then show ?thesis using store_okD(3) [OF st v] T [of f] by auto
  qed
qed

lemma is_page_read_swap:
  assumes I: "pg_inv e s" and e: "alloc_ok e" and z: "swap s z"
    and off: "off mod page_size e = 0" "atop e off < is_size (istr s z)"
    and st: "store_ok content e" and r: "is_page_read e z (ip_of (is_inode (istr s z))) off s = Some (r, d, s')"
  shows "case contents content e s z (atop e off) of None \<Rightarrow> r = EINVAL | Some x \<Rightarrow> r = 0 \<longrightarrow> d = Some x"
proof -
  note F = swap_file [OF I z]
  have sw: "swapfile (istr s z)" "paging_shift (istr s z) = 0" using z F(3) by (simp_all add: swap_def obj_ok_def)
  let ?n = "atop e off"
  have T: "pagetab s z ?n = slot (istr s z) (karr s) ?n" using z off(2) size_capacity [of "istr s z"] by (simp add: pagetab_def)
  have b: "pf_bmap_at e z off B_READ s = Some (map_option (new_offset e off) (pagetab s z ?n), s)"
    using pf_bmap_read [of e off s z] off(2) T by simp
  show ?thesis
  proof (cases "pagetab s z ?n")
    case None
    then show ?thesis using r b sw by (auto simp: is_page_read_def actual_offset_def contents_def)
  next
    case (Some v)
    have "v < pf_npgs (pfile s (pf_info (istr s z)))" using pagetab_used(1) [OF I Some] by (simp add: pf_used_def)
    then have a: "u32 (new_offset e off v) = v * page_size e" using page_offset(2) [OF e _ F(6) off(1)] by simp
    obtain q x f where v: "vop_page_read e (pf_ip (pfile s (pf_info (istr s z)))) (v * page_size e) (disk s) = (q, x, f)" by (metis surj_pair)
    then show ?thesis using r b sw Some F(7) store_okD(3) [OF st v] by (auto simp: is_page_read_def actual_offset_def a contents_def)
  qed
qed

end
