(* ===== verification/Pager_Messages.thy ===== *)
theory Pager_Messages
  imports Pager_Data
begin

text \<open>
  The data messages of the kernel: requests are answered without changing any object, and writing
  changes the pages of the object that the message names and no others.
\<close>

section \<open>Requests\<close>

lemma lookup_registered:
  assumes "pg_inv e s" "inode_pager_lookup c s = z" "z \<noteq> 0"
  shows "registered s z" "z \<in> zheap s" "is_pager (istr s z) = c" "obj_ok s (istr s z)"
  using pg_invD(3,4) [OF assms(1)] assms(2,3) by (auto simp: ports_ok_def registered_def objs_ok_def)

lemma inv_queue: "pg_inv e s \<Longrightarrow> istruct_queue s = []"
  by (simp add: pg_inv_def objs_ok_def)

lemma kept_obj_ok:
  assumes "kept s s'" shows "obj_ok s' (istr s' z) = obj_ok s (istr s z)"
proof -
  have "core (istr s' z) = core (istr s z)" using assms by (simp add: kept_def)
  note D = coreD [OF this]
  show ?thesis using assms by (simp add: obj_ok_def kept_def D)
qed

lemma use_touch:
  assumes "pg_inv e s" shows "touches content e Z s (upd_is z (\<lambda>i. i\<lparr>use_count := u i\<rparr>) s)"
  by (rule touches_upd_is [OF assms]) (simp_all add: core_def)

lemma errors_upd_use: "is_errors (istr (upd_is z (\<lambda>i. i\<lparr>use_count := u i\<rparr>) s) y) = is_errors (istr s y)"
  by (simp add: upd_is_def)

text \<open>An operation between \<open>istruct_get\<close> and \<open>istruct_put\<close>.\<close>

lemma get_touch:
  assumes I: "pg_inv e s" and z: "obj_ok s (istr s z)" "z \<noteq> 0"
  obtains s1 where "istruct_get e z s = Some (ip_of (is_inode (istr s z)), s1)" "touches content e Z s s1"
    "s1 = upd_is z (\<lambda>i. i\<lparr>use_count := use_count i + 1\<rparr>) s"
  by (rule that [OF istruct_get_simple [OF z] use_touch [OF I] refl])

lemma put_touch:
  assumes "pg_inv e s" "obj_ok s (istr s z)"
  shows "touches content e Z s (istruct_put e z s)" "istruct_put e z s = upd_is z (\<lambda>i. i\<lparr>use_count := use_count i - 1\<rparr>) s"
  using istruct_put_simple [OF assms(2) inv_queue [OF assms(1)]] use_touch [OF assms(1)] by simp_all

lemma timeout_touches:
  assumes I: "pg_inv e s" and st: "store_ok content e"
  shows "\<exists>s'. inode_pager_timeout e s = Some s' \<and> touches content e {} s s' \<and> (\<forall>y. is_errors (istr s' y) = is_errors (istr s y))
    \<and> data_request_queue s' = tl (data_request_queue s)"
proof (cases "data_request_queue s")
  case Nil
  then show ?thesis by (auto simp: inode_pager_timeout_def same_objs_def same_ports_def intro!: touches_same [OF I])
next
  case (Cons r rs)
  let ?s0 = "s\<lparr>data_request_queue := rs\<rparr>"
  have t0: "touches content e {} s ?s0" by (rule touches_same [OF I]) (simp_all add: same_objs_def same_ports_def)
  then have I0: "pg_inv e ?s0" by (simp add: touches_def)
  define z where "z = inode_pager_lookup (dr_pager r) ?s0"
  show ?thesis
  proof (cases "z = 0 \<or> is_errors (istr s z) \<noteq> 0")
    case True
    then show ?thesis using Cons t0 touches_trans [OF t0 touches_call [OF I0]]
      by (auto simp: inode_pager_timeout_def Let_def z_def [symmetric] call_def)
  next
    case False
    note G = lookup_registered [OF I0 z_def [symmetric]]
    obtain s1 where s1: "istruct_get e z ?s0 = Some (ip_of (is_inode (istr ?s0 z)), s1)" "touches content e {} ?s0 s1"
      "s1 = upd_is z (\<lambda>i. i\<lparr>use_count := use_count i + 1\<rparr>) ?s0"
      using get_touch [OF I0 G(4), of content "{}"] False by blast
    then have I1: "pg_inv e s1" by (simp add: touches_def)
    obtain q d f where rd: "is_page_read e z (ip_of (is_inode (istr ?s0 z))) (dr_offset r) s1 = Some (q, d, s1\<lparr>disk := f\<rparr>)"
      "touches content e {} s1 (s1\<lparr>disk := f\<rparr>)" "q \<in> {0, EINVAL, EIO}" "q = 0 \<longrightarrow> d \<noteq> None"
      using is_page_read_touches [OF I1 st] by blast
    obtain c where c: "answer q d r = Some c" using rd(3,4) by (auto simp: answer_def EINVAL_def EIO_def)
    let ?s2 = "call c (s1\<lparr>disk := f\<rparr>)"
    have t2: "touches content e {} s ?s2"
      using touches_trans [OF t0 touches_trans [OF s1(2) touches_trans [OF rd(2) touches_call]]] rd(2) by (simp add: touches_def)
    then have "pg_inv e ?s2" "kept s ?s2" by (simp_all add: touches_def)
    moreover have "obj_ok ?s2 (istr ?s2 z)" using kept_obj_ok [OF \<open>kept s ?s2\<close>, of z] G(4) False by (simp add: obj_ok_def)
    ultimately have p: "touches content e {} s (istruct_put e z ?s2)" "istruct_put e z ?s2 = upd_is z (\<lambda>i. i\<lparr>use_count := use_count i - 1\<rparr>) ?s2"
      using touches_trans [OF t2] put_touch by blast+
    have "inode_pager_timeout e s = Some (istruct_put e z ?s2)"
      using Cons False s1(1) rd(1) c by (simp add: inode_pager_timeout_def Let_def z_def [symmetric])
    moreover have "is_errors (istr (istruct_put e z ?s2) y) = is_errors (istr s y)" for y
      unfolding p(2) errors_upd_use by (simp add: s1(3) errors_upd_use call_def upd_is_def)
    moreover have "data_request_queue (istruct_put e z ?s2) = tl (data_request_queue s)" unfolding p(2) by (simp add: s1(3) Cons call_def upd_is_def)
    ultimately show ?thesis using p(1) by blast
  qed
qed

lemma timeouts_touches:
  assumes "pg_inv e s" and st: "store_ok content e"
  shows "\<exists>s'. timeouts e n s = Some s' \<and> touches content e {} s s' \<and> (\<forall>y. is_errors (istr s' y) = is_errors (istr s y))
    \<and> data_request_queue s' = drop n (data_request_queue s)"
  using assms(1)
proof (induction n arbitrary: s)
  case 0
  then show ?case using touches_refl by auto
next
  case (Suc n)
  obtain s1 where s1: "inode_pager_timeout e s = Some s1" "touches content e {} s s1" "\<forall>y. is_errors (istr s1 y) = is_errors (istr s y)"
    "data_request_queue s1 = tl (data_request_queue s)" using timeout_touches [OF Suc.prems st] by blast
  then obtain s2 where s2: "timeouts e n s1 = Some s2" "touches content e {} s1 s2" "\<forall>y. is_errors (istr s2 y) = is_errors (istr s1 y)"
    "data_request_queue s2 = drop n (data_request_queue s1)" using Suc.IH [of s1] by (auto simp: touches_def)
  then show ?case using s1 touches_trans [OF s1(2) s2(2)] by (auto simp: drop_Suc)
qed

section \<open>Several pages\<close>

lemma each_page_append: "each_page f (xs @ ys) s = Option.bind (each_page f xs s) (each_page f ys)"
  by (induction xs arbitrary: s) (auto split: option.splits)

lemma each_page_touches:
  assumes "touches content e Z s s1" and "\<And>k t. k \<in> set ks \<Longrightarrow> touches content e Z s t \<Longrightarrow> \<exists>t'. f k t = Some t' \<and> touches content e Z t t'"
  shows "\<exists>s'. each_page f ks s1 = Some s' \<and> touches content e Z s s'"
  using assms
proof (induction ks arbitrary: s1)
  case (Cons k ks)
  obtain t' where t': "f k s1 = Some t'" "touches content e Z s1 t'" using Cons.prems(2) [of k s1] Cons.prems(1) by auto
  then show ?case using Cons.IH [of t'] Cons.prems touches_trans [OF Cons.prems(1) t'(2)] by simp
qed auto

text \<open>The pages a message is about: whole pages inside the object.\<close>

definition range_ok :: "('d, 'f) pg_env \<Rightarrow> istruct \<Rightarrow> nat \<Rightarrow> nat \<Rightarrow> bool" where
  "range_ok e i off n \<longleftrightarrow> off mod page_size e = 0 \<and> off + n * page_size e \<le> 2 ^ 32 \<and> off div page_size e + n \<le> is_size i"

lemma page_size_pos [simp]: "0 < page_size e"
  by (simp add: page_size_def)

lemma range_page:
  assumes "range_ok e i off n" "k < n"
  shows "u32 (off + k * page_size e) mod page_size e = 0" "atop e (u32 (off + k * page_size e)) = off div page_size e + k" "off div page_size e + k < is_size i"
proof -
  have "off + (k + 1) * page_size e \<le> off + n * page_size e" using assms(2) by (intro add_left_mono mult_right_mono) auto
  then have "off + k * page_size e + page_size e \<le> 2 ^ 32" using assms(1) by (simp add: range_ok_def)
  then have "off + k * page_size e < 2 ^ 32" using page_size_pos [of e] by linarith
  then have u: "u32 (off + k * page_size e) = off + k * page_size e" by (rule u32_id)
  show "u32 (off + k * page_size e) mod page_size e = 0" using assms(1) by (simp add: u range_ok_def)
  have "(off + k * page_size e) div page_size e = off div page_size e + k" by simp
  then show "atop e (u32 (off + k * page_size e)) = off div page_size e + k"
    using u by (simp add: atop_def page_size_def [symmetric])
  show "off div page_size e + k < is_size i" using assms by (simp add: range_ok_def)
qed

text \<open>The loop of \<open>inode_data_write\<close> over the first \<open>n\<close> pages.\<close>

definition written :: "nat \<Rightarrow> nat \<Rightarrow> (nat \<Rightarrow> 'd) \<Rightarrow> (nat \<Rightarrow> 'd option) \<Rightarrow> nat \<Rightarrow> 'd option" where
  "written n0 n dat c m = (if n0 \<le> m \<and> m < n0 + n then Some (dat (m - n0)) else c m)"

lemma write_loop:
  fixes content :: "'f \<Rightarrow> ptr \<Rightarrow> nat \<Rightarrow> 'd" and e :: "('d, 'f) pg_env" and dat :: "nat \<Rightarrow> 'd"
  assumes I: "pg_inv e s" and e: "alloc_ok e" and st: "store_ok content e" and z: "swap s z" and r: "range_ok e (istr s z) off n"
  defines "w \<equiv> \<lambda>k. is_page_write e z (ip_of (is_inode (istr s z))) (u32 (off + k * page_size e)) (dat k)"
  shows "\<exists>s'. each_page w [0..<n] s = Some s' \<and> touches content e {z} s s' \<and> is_errors (istr s z) \<le> is_errors (istr s' z)
    \<and> (writes_succeed e \<longrightarrow> is_errors (istr s' z) = is_errors (istr s z))
    \<and> pf_pfree (pfile s (pf_info (istr s z))) \<le> pf_pfree (pfile s' (pf_info (istr s z))) + n
    \<and> (is_errors (istr s' z) = is_errors (istr s z) \<and> n \<le> pf_pfree (pfile s (pf_info (istr s z))) \<and> (\<forall>K. kalloc e K 512 \<noteq> 0)
        \<longrightarrow> contents content e s' z = written (off div page_size e) n dat (contents content e s z))"
  using r
proof (induction n)
  case 0
  have "written (off div page_size e) 0 dat (contents content e s z) = contents content e s z" by (rule ext) (auto simp: written_def)
  then show ?case using touches_refl [OF I] by simp
next
  case (Suc n)
  let ?f = "pf_info (istr s z)" and ?n0 = "off div page_size e" and ?off = "u32 (off + n * page_size e)"
  have "off + n * page_size e \<le> off + Suc n * page_size e" by simp
  then have "range_ok e (istr s z) off n" using Suc.prems unfolding range_ok_def by linarith
  then obtain s1 where s1: "each_page w [0..<n] s = Some s1" "touches content e {z} s s1" "is_errors (istr s z) \<le> is_errors (istr s1 z)"
    "pf_pfree (pfile s ?f) \<le> pf_pfree (pfile s1 ?f) + n" and ws: "writes_succeed e \<longrightarrow> is_errors (istr s1 z) = is_errors (istr s z)" and
    s1c: "is_errors (istr s1 z) = is_errors (istr s z) \<and> n \<le> pf_pfree (pfile s ?f) \<and> (\<forall>K. kalloc e K 512 \<noteq> 0)
        \<longrightarrow> contents content e s1 z = written ?n0 n dat (contents content e s z)" using Suc.IH by blast
  have k: "pg_inv e s1" "kept s s1" using s1(2) by (simp_all add: touches_def)
  note K = keptD [OF k(2)]
  note R = range_page [OF Suc.prems, of n, simplified]
  obtain s2 where s2: "w n s1 = Some s2" "touches content e {z} s1 s2" "page_written content e z (?n0 + n) (dat n) s1 s2"
    using is_page_write_swap [OF k(1) e st, of z ?off "dat n"] z R K by (auto simp: w_def)
  have "contents content e s2 z = written ?n0 (Suc n) dat (contents content e s z)"
    if h: "is_errors (istr s2 z) = is_errors (istr s z)" "Suc n \<le> pf_pfree (pfile s ?f)" "\<forall>K. kalloc e K 512 \<noteq> 0"
  proof -
    have e1: "is_errors (istr s1 z) = is_errors (istr s z)" "is_errors (istr s2 z) = is_errors (istr s1 z)"
      using h(1) s1(3) s2(3) by (simp_all add: page_written_def)
    then have c: "contents content e s1 z = written ?n0 n dat (contents content e s z)" using s1c h by simp
    have "pf_pfree (pfile s1 ?f) \<noteq> 0" using s1(4) h(2) by linarith
    then have "contents content e s2 z (?n0 + n) = Some (dat n)" using s2(3) e1(2) h(3) K by (simp add: page_written_def)
    moreover have "contents content e s2 z m = contents content e s1 z m" if "m \<noteq> ?n0 + n" for m using s2(3) that by (simp add: page_written_def)
    ultimately have "contents content e s2 z m = (if m = ?n0 + n then Some (dat n) else written ?n0 n dat (contents content e s z) m)" for m
      unfolding c [symmetric] by simp
    then show ?thesis by (intro ext) (auto simp: written_def)
  qed
  moreover have "each_page w [0..<Suc n] s = Some s2" using s1(1) s2(1) by (simp add: each_page_append)
  moreover have "touches content e {z} s s2" by (rule touches_trans [OF s1(2) s2(2)])
  moreover have "is_errors (istr s z) \<le> is_errors (istr s2 z)" "pf_pfree (pfile s ?f) \<le> pf_pfree (pfile s2 ?f) + Suc n"
    "writes_succeed e \<longrightarrow> is_errors (istr s2 z) = is_errors (istr s z)"
    using s1(3,4) s2(3) K ws by (simp_all add: page_written_def)
  ultimately show ?case by (intro exI [of _ s2]) blast
qed

section \<open>Messages with data\<close>

lemma page_use: "touches content e Z s s' \<Longrightarrow> pg_inv e s'" "touches content e Z s s' \<Longrightarrow> kept s s'"
  by (simp_all add: touches_def)

text \<open>The end of both data messages: the use of the object is given up and the data released.\<close>

lemma put_call_touch:
  assumes t: "touches content e Z s s'" and z: "obj_ok s (istr s z)"
  shows "touches content e Z s (call c (istruct_put e z s'))"
    "contents content e (call c (istruct_put e z s')) = contents content e s'"
    "is_errors (istr (call c (istruct_put e z s')) y) = is_errors (istr s' y)"
proof -
  have o: "obj_ok s' (istr s' z)" using kept_obj_ok [OF page_use(2) [OF t]] z by simp
  note P = put_touch [OF page_use(1) [OF t] o]
  have "touches content e Z s' (call c (istruct_put e z s'))" using touches_trans [OF P(1) touches_call] page_use(1) [OF P(1)] by blast
  then show "touches content e Z s (call c (istruct_put e z s'))" using touches_trans [OF t] by blast
  have u: "same_objs s' (istruct_put e z s')" unfolding P(2) by (rule same_upd_is) (simp add: core_def)
  show "contents content e (call c (istruct_put e z s')) = contents content e s'"
    by (rule contents_same [OF same_objs_trans [OF u same_call(1)]]) (simp add: P(2) call_def upd_is_def)
  show "is_errors (istr (call c (istruct_put e z s')) y) = is_errors (istr s' y)" by (simp add: P(2) call_def upd_is_def)
qed

lemma data_write_touches:
  assumes I: "pg_inv e s" and e: "alloc_ok e" and st: "store_ok content e" and z: "inode_pager_lookup c s = z" "z \<noteq> 0"
    and r: "swapfile (istr s z) \<Longrightarrow> range_ok e (istr s z) off (page_count e n)"
  shows "\<exists>s'. inode_data_write e c off dat n s = Some s' \<and> touches content e {z} s s'
    \<and> (swapfile (istr s z) \<and> is_errors (istr s' z) = is_errors (istr s z) \<and> page_count e n \<le> pf_pfree (pfile s (pf_info (istr s z)))
        \<and> (\<forall>K. kalloc e K 512 \<noteq> 0) \<longrightarrow> contents content e s' z = written (off div page_size e) (page_count e n) dat (contents content e s z))
    \<and> (swapfile (istr s z) \<and> writes_succeed e \<longrightarrow> is_errors (istr s' z) = is_errors (istr s z))"
proof -
  note G = lookup_registered [OF I z]
  obtain s1 where s1: "istruct_get e z s = Some (ip_of (is_inode (istr s z)), s1)" "touches content e {z} s s1"
    "s1 = upd_is z (\<lambda>i. i\<lparr>use_count := use_count i + 1\<rparr>) s" using get_touch [OF I G(4) z(2), of content "{z}"] by blast
  note I1 = page_use(1) [OF s1(2)] and K = keptD [OF page_use(2) [OF s1(2)]]
  have c1: "contents content e s1 = contents content e s" unfolding s1(3)
    by (rule contents_same [OF same_upd_is(1)]) (simp_all add: core_def upd_is_def)
  have f1: "pfile s1 = pfile s" "is_errors (istr s1 z) = is_errors (istr s z)" by (simp_all add: s1(3) upd_is_def)
  let ?w = "\<lambda>k. is_page_write e z (ip_of (is_inode (istr s z))) (u32 (off + k * page_size e)) (dat k)" and ?n = "page_count e n"
  have "\<exists>s2. each_page ?w [0..<?n] s1 = Some s2 \<and> touches content e {z} s s2
    \<and> (swapfile (istr s z) \<and> is_errors (istr s2 z) = is_errors (istr s z) \<and> ?n \<le> pf_pfree (pfile s (pf_info (istr s z)))
        \<and> (\<forall>K. kalloc e K 512 \<noteq> 0) \<longrightarrow> contents content e s2 z = written (off div page_size e) ?n dat (contents content e s z))
    \<and> (swapfile (istr s z) \<and> writes_succeed e \<longrightarrow> is_errors (istr s2 z) = is_errors (istr s z))"
  proof (cases "swapfile (istr s z)")
    case True
    have "swap s1 z" "range_ok e (istr s1 z) off ?n" using True G(2) r K by (simp_all add: swap_def range_ok_def)
    note L = write_loop [OF I1 e st this, of dat]
    then show ?thesis using touches_trans [OF s1(2)] K c1 f1 by auto
  next
    case False
    have "\<exists>t'. ?w k t = Some t' \<and> touches content e {z} t t'" if "touches content e {z} s t" for k t
      using is_page_write_mapped [OF page_use(1) [OF that] st] keptD [OF page_use(2) [OF that]] G(1) False by metis
    then show ?thesis using each_page_touches [OF s1(2), of "[0..<?n]" ?w] False by blast
  qed
  then obtain s2 where s2: "each_page ?w [0..<?n] s1 = Some s2" "touches content e {z} s s2"
    "swapfile (istr s z) \<and> is_errors (istr s2 z) = is_errors (istr s z) \<and> ?n \<le> pf_pfree (pfile s (pf_info (istr s z)))
        \<and> (\<forall>K. kalloc e K 512 \<noteq> 0) \<longrightarrow> contents content e s2 z = written (off div page_size e) ?n dat (contents content e s z)"
    "swapfile (istr s z) \<and> writes_succeed e \<longrightarrow> is_errors (istr s2 z) = is_errors (istr s z)" by blast
  let ?s3 = "call (Vm_deallocate (page_count e n * page_size e)) (istruct_put e z s2)"
  note P = put_call_touch [OF s2(2) G(4), of "Vm_deallocate (page_count e n * page_size e)"]
  obtain s4 where s4: "timeouts e 4 ?s3 = Some s4" "touches content e {} ?s3 s4" "\<forall>y. is_errors (istr s4 y) = is_errors (istr ?s3 y)"
    using timeouts_touches [OF page_use(1) [OF P(1)] st] by blast
  have "contents content e s4 z = contents content e s2 z" using s4(2) P(2) by (simp add: touches_def)
  then have "inode_data_write e c off dat n s = Some s4 \<and> touches content e {z} s s4
    \<and> (swapfile (istr s z) \<and> is_errors (istr s4 z) = is_errors (istr s z) \<and> ?n \<le> pf_pfree (pfile s (pf_info (istr s z)))
        \<and> (\<forall>K. kalloc e K 512 \<noteq> 0) \<longrightarrow> contents content e s4 z = written (off div page_size e) ?n dat (contents content e s z))
    \<and> (swapfile (istr s z) \<and> writes_succeed e \<longrightarrow> is_errors (istr s4 z) = is_errors (istr s z))"
    using s1(1) s2 s4 z(1) P(3) touches_trans [OF P(1) touches_mono [OF s4(2)]] by (simp add: inode_data_write_def Let_def)
  then show ?thesis by blast
qed

lemma data_initialize_touches:
  assumes I: "pg_inv e s" and e: "alloc_ok e" and st: "store_ok content e" and z: "inode_pager_lookup c s = z" "z \<noteq> 0"
    and r: "swapfile (istr s z) \<Longrightarrow> range_ok e (istr s z) off (page_count e n)"
  shows "\<exists>s'. inode_data_initialize e c off dat n s = Some s' \<and> touches content e {z} s s'"
proof -
  note G = lookup_registered [OF I z]
  obtain s1 where s1: "istruct_get e z s = Some (ip_of (is_inode (istr s z)), s1)" "touches content e {z} s s1"
    using get_touch [OF I G(4) z(2), of content "{z}"] by blast
  let ?w = "\<lambda>k. is_page_initialize e z (ip_of (is_inode (istr s z))) (u32 (off + k * page_size e)) (dat k)" and ?n = "page_count e n"
  have "\<exists>t'. ?w k t = Some t' \<and> touches content e {z} t t'" if k: "k \<in> set [0..<?n]" and t: "touches content e {z} s t" for k t
  proof -
    note K = keptD [OF page_use(2) [OF t]]
    have "u32 (off + k * page_size e) mod page_size e = 0 \<and> atop e (u32 (off + k * page_size e)) < is_size (istr t z)" if "swapfile (istr t z)"
      using range_page [of e "istr s z" off ?n k] r k that K by simp
    then show ?thesis using is_page_initialize_touches [OF page_use(1) [OF t] e st, of z] G(1,2) K by simp metis
  qed
  then obtain s2 where s2: "each_page ?w [0..<?n] s1 = Some s2" "touches content e {z} s s2"
    using each_page_touches [OF s1(2), of "[0..<?n]" ?w] by blast
  then show ?thesis using put_call_touch(1) [OF s2(2) G(4)] s1(1) z(1) by (simp add: inode_data_initialize_def Let_def)
qed

end
