(* ===== verification/Pager_Free.thy ===== *)
theory Pager_Free
  imports Pager_Messages
begin

text \<open>
  Giving an object back: \<open>pf_dealloc\<close> returns exactly the blocks of the object's pages to the file
  and frees its maps.
\<close>

section \<open>Returning blocks\<close>

definition freed :: "pager_file \<Rightarrow> nat set \<Rightarrow> pager_file \<Rightarrow> bool" where
  "freed f U f' \<longleftrightarrow> pf_ok f' \<and> pf_used f' = pf_used f - U \<and> pf_ip f' = pf_ip f \<and> pf_npgs f' = pf_npgs f"

lemma freed_trans: "freed f U f1 \<Longrightarrow> freed f1 V f2 \<Longrightarrow> freed f (U \<union> V) f2"
  unfolding freed_def by auto

definition vals :: "(nat \<Rightarrow> nat) \<Rightarrow> nat set \<Rightarrow> nat set" where
  "vals a J = a ` J - {NOPAGE}"

lemma free_slots_spec:
  assumes "pf_ok (pfile s p)" "distinct js" "inj_on (karr s t) {j \<in> set js. karr s t j \<noteq> NOPAGE}" "vals (karr s t) (set js) \<subseteq> pf_used (pfile s p)"
  shows "\<exists>f. free_slots p t js s = Some (s\<lparr>pfile := (pfile s)(p := f)\<rparr>) \<and> freed (pfile s p) (vals (karr s t) (set js)) f"
  using assms
proof (induction js arbitrary: s)
  case Nil
  then show ?case by (intro exI [of _ "pfile s p"]) (simp add: freed_def vals_def)
next
  case (Cons j js)
  have i: "inj_on (karr s t) {i \<in> set js. karr s t i \<noteq> NOPAGE}" by (rule inj_on_subset [OF Cons.prems(3)]) auto
  show ?case
  proof (cases "karr s t j = NOPAGE")
    case True
    then have "vals (karr s t) (set (j # js)) = vals (karr s t) (set js)" by (auto simp: vals_def)
    then show ?thesis using Cons.IH [OF Cons.prems(1) _ i] Cons.prems(2,4) True by simp
  next
    case False
    let ?v = "karr s t j"
    have u: "?v \<in> pf_used (pfile s p)" using Cons.prems(4) False by (auto simp: vals_def)
    obtain f1 where f1: "pf_deallocate_page ?v (pfile s p) = Some f1" "pf_ok f1" "pf_used f1 = pf_used (pfile s p) - {?v}"
      "f1 = (pfile s p)\<lparr>pf_bmap := clrbit (pf_bmap (pfile s p)) ?v, pf_pfree := pf_pfree (pfile s p) + 1\<rparr>"
      using pf_deallocate_page_used [OF Cons.prems(1) u] by blast
    let ?s = "s\<lparr>pfile := (pfile s)(p := f1)\<rparr>"
    have "karr s t i \<noteq> ?v" if "i \<in> set js" for i
      using Cons.prems(2) inj_onD [OF Cons.prems(3), of i j] False that by auto
    then have "vals (karr s t) (set js) \<subseteq> pf_used f1" using Cons.prems(4) by (auto simp: f1(3) vals_def)
    then have "\<exists>f. free_slots p t js ?s = Some (?s\<lparr>pfile := (pfile ?s)(p := f)\<rparr>) \<and> freed (pfile ?s p) (vals (karr ?s t) (set js)) f"
      by (intro Cons.IH) (use f1(2) i Cons.prems(2) in simp_all)
    then obtain f where f0: "free_slots p t js ?s = Some (?s\<lparr>pfile := (pfile ?s)(p := f)\<rparr>)" "freed (pfile ?s p) (vals (karr ?s t) (set js)) f" by blast
    have f: "free_slots p t js ?s = Some (s\<lparr>pfile := (pfile s)(p := f)\<rparr>)" "freed f1 (vals (karr s t) (set js)) f" using f0 by simp_all
    have "freed (pfile s p) {?v} f1" using f1(2,3) by (simp add: freed_def f1(4))
    then have "freed (pfile s p) ({?v} \<union> vals (karr s t) (set js)) f" using f(2) by (rule freed_trans)
    moreover have "{?v} \<union> vals (karr s t) (set js) = vals (karr s t) (set (j # js))" using False by (auto simp: vals_def)
    moreover have "free_slots p t (j # js) s = Some (s\<lparr>pfile := (pfile s)(p := f)\<rparr>)" using False f1(1) f(1) by simp
    ultimately show ?thesis by metis
  qed
qed

definition all_vals :: "(ptr \<Rightarrow> nat \<Rightarrow> nat) \<Rightarrow> ptr \<Rightarrow> nat set \<Rightarrow> nat set" where
  "all_vals A a K = (\<Union>k\<in>{k \<in> K. A a k \<noteq> 0}. vals (A (A a k)) {..<PAGEMAP_ENTRIES})"

lemma free_tables_spec:
  assumes "pf_ok (pfile s p)" "distinct ks"
    "inj_on (\<lambda>(k, j). karr s (karr s a k) j) {(k, j). k \<in> set ks \<and> karr s a k \<noteq> 0 \<and> j < PAGEMAP_ENTRIES \<and> karr s (karr s a k) j \<noteq> NOPAGE}"
    "all_vals (karr s) a (set ks) \<subseteq> pf_used (pfile s p)"
  shows "\<exists>f. free_tables p a ks s = Some (s\<lparr>pfile := (pfile s)(p := f), kheap := kheap s - (karr s a ` set ks - {0})\<rparr>)
    \<and> freed (pfile s p) (all_vals (karr s) a (set ks)) f"
  using assms
proof (induction ks arbitrary: s)
  case Nil
  then show ?case by (intro exI [of _ "pfile s p"]) (simp add: freed_def all_vals_def)
next
  case (Cons k ks)
  let ?I = "\<lambda>ks. {(k, j). k \<in> set ks \<and> karr s a k \<noteq> 0 \<and> j < PAGEMAP_ENTRIES \<and> karr s (karr s a k) j \<noteq> NOPAGE}"
  have i: "inj_on (\<lambda>(k, j). karr s (karr s a k) j) (?I ks)" by (rule inj_on_subset [OF Cons.prems(3)]) auto
  show ?case
  proof (cases "karr s a k = 0")
    case True
    then have v: "all_vals (karr s) a (set (k # ks)) = all_vals (karr s) a (set ks)" by (auto simp: all_vals_def)
    have h: "karr s a ` set (k # ks) - {0} = karr s a ` set ks - {0}" using True by auto
    have "all_vals (karr s) a (set ks) \<subseteq> pf_used (pfile s p)" "distinct ks" using Cons.prems(2,4) v by auto
    then show ?thesis unfolding v h using Cons.IH [OF Cons.prems(1) _ i] True by simp
  next
    case False
    let ?t = "karr s a k" and ?V = "vals (karr s (karr s a k)) {..<PAGEMAP_ENTRIES}"
    have av: "all_vals (karr s) a (set (k # ks)) = ?V \<union> all_vals (karr s) a (set ks)" using False by (auto simp: all_vals_def)
    have "inj_on (karr s ?t) {j \<in> set [0..<PAGEMAP_ENTRIES]. karr s ?t j \<noteq> NOPAGE}"
      using inj_onD [OF Cons.prems(3), of "(k, _)" "(k, _)"] False by (intro inj_onI) auto
    moreover have S: "set [0..<PAGEMAP_ENTRIES] = {..<PAGEMAP_ENTRIES}" by auto
    moreover have "vals (karr s ?t) (set [0..<PAGEMAP_ENTRIES]) \<subseteq> pf_used (pfile s p)" using Cons.prems(4) unfolding av S by blast
    ultimately obtain f1 where f1: "free_slots p ?t [0..<PAGEMAP_ENTRIES] s = Some (s\<lparr>pfile := (pfile s)(p := f1)\<rparr>)" "freed (pfile s p) ?V f1"
      using free_slots_spec [OF Cons.prems(1), of "[0..<PAGEMAP_ENTRIES]" ?t] by (metis distinct_upt)
    let ?s = "s\<lparr>pfile := (pfile s)(p := f1), kheap := kheap s - {?t}\<rparr>"
    have "?V \<inter> all_vals (karr s) a (set ks) = {}"
    proof -
      have "karr s ?t j \<noteq> karr s (karr s a k') j'" if "k' \<in> set ks" "karr s a k' \<noteq> 0" "j < PAGEMAP_ENTRIES" "j' < PAGEMAP_ENTRIES"
          "karr s ?t j \<noteq> NOPAGE" for j k' j'
        using inj_onD [OF Cons.prems(3), of "(k, j)" "(k', j')"] that False Cons.prems(2) by auto
      then show ?thesis unfolding all_vals_def vals_def by blast
    qed
    then have "all_vals (karr s) a (set ks) \<subseteq> pf_used f1" using Cons.prems(4) [unfolded av] f1(2) unfolding freed_def by blast
    moreover have "pf_ok f1" using f1(2) by (simp add: freed_def)
    ultimately have "\<exists>f. free_tables p a ks ?s = Some (?s\<lparr>pfile := (pfile ?s)(p := f), kheap := kheap ?s - (karr ?s a ` set ks - {0})\<rparr>)
        \<and> freed (pfile ?s p) (all_vals (karr ?s) a (set ks)) f"
      by (intro Cons.IH) (use i Cons.prems(2) in simp_all)
    then obtain f where f0: "free_tables p a ks ?s = Some (?s\<lparr>pfile := (pfile ?s)(p := f), kheap := kheap ?s - (karr ?s a ` set ks - {0})\<rparr>)"
      "freed (pfile ?s p) (all_vals (karr ?s) a (set ks)) f" by blast
    have f: "free_tables p a ks ?s = Some (s\<lparr>pfile := (pfile s)(p := f), kheap := kheap s - {?t} - (karr s a ` set ks - {0})\<rparr>)"
      "freed f1 (all_vals (karr s) a (set ks)) f" using f0 by simp_all
    have "kheap s - {?t} - (karr s a ` set ks - {0}) = kheap s - (karr s a ` set (k # ks) - {0})" using False by auto
    then have "free_tables p a (k # ks) s = Some (s\<lparr>pfile := (pfile s)(p := f), kheap := kheap s - (karr s a ` set (k # ks) - {0})\<rparr>)"
      using f(1) f1(1) False by simp
    then show ?thesis using freed_trans [OF f1(2) f(2)] unfolding av by metis
  qed
qed

section \<open>The blocks of one object\<close>

lemma slot_indirect:
  assumes "INDIRECT_PAGEMAP i" "j < PAGEMAP_ENTRIES"
  shows "slot i A (k * PAGEMAP_ENTRIES + j) = (if A (pmap i) k = 0 \<or> A (A (pmap i) k) j = NOPAGE then None else Some (A (A (pmap i) k) j))"
proof -
  have "(k * PAGEMAP_ENTRIES + j) div PAGEMAP_ENTRIES = k" "(k * PAGEMAP_ENTRIES + j) mod PAGEMAP_ENTRIES = j" using assms(2) by simp_all
  then show ?thesis using assms(1) by (simp add: slot_def Let_def)
qed

lemma index_capacity:
  assumes "INDIRECT_PAGEMAP i" "k < INDIRECT_PAGEMAP_ENTRIES (is_size i)" "j < PAGEMAP_ENTRIES"
  shows "k * PAGEMAP_ENTRIES + j < capacity i"
proof -
  have "k * PAGEMAP_ENTRIES + j < Suc k * PAGEMAP_ENTRIES" using assms(3) by simp
  also have "\<dots> \<le> INDIRECT_PAGEMAP_ENTRIES (is_size i) * PAGEMAP_ENTRIES" using assms(2) by (intro mult_le_mono1) simp
  finally show ?thesis using assms(1) by (simp add: capacity_def)
qed

lemma file_blocks:
  assumes "pg_inv e s" "swap s z"
  shows "blocks (pagetab s) (\<lambda>y. pf_info (istr s y) = pf_info (istr s z)) (pf_used (pfile s (pf_info (istr s z))))"
  using pg_invD(1) [OF assms(1)] swap_file(1) [OF assms] by (simp add: files_ok_def)

lemma pagetab_inj:
  assumes "pg_inv e s" "pagetab s z n = Some v" "pagetab s z m = Some v"
  shows "n = m"
  using blocksD(2) [OF file_blocks [OF assms(1) pagetab_used(2) [OF assms(1,2)]] _ _ assms(2,3)] by simp

lemma ran_direct:
  assumes "swap s z" "\<not> INDIRECT_PAGEMAP (istr s z)"
  shows "ran (pagetab s z) = vals (karr s (pmap (istr s z))) {..<is_size (istr s z)}"
proof -
  have "pagetab s z n = (if n < is_size (istr s z) \<and> karr s (pmap (istr s z)) n \<noteq> NOPAGE then Some (karr s (pmap (istr s z)) n) else None)" for n
    using assms by (simp add: pagetab_def slot_def capacity_def Let_def)
  then show ?thesis by (auto simp: ran_def vals_def)
qed

lemma ran_indirect:
  assumes "swap s z" and I: "INDIRECT_PAGEMAP (istr s z)"
  shows "ran (pagetab s z) = all_vals (karr s) (pmap (istr s z)) {..<INDIRECT_PAGEMAP_ENTRIES (is_size (istr s z))}"
proof (intro set_eqI iffI)
  let ?i = "istr s z"
  let ?A = "karr s" and ?E = "INDIRECT_PAGEMAP_ENTRIES (is_size ?i)"
  fix v
  show "v \<in> all_vals ?A (pmap ?i) {..<?E}" if v: "v \<in> ran (pagetab s z)"
  proof -
    obtain n where n: "n < capacity ?i" "slot ?i ?A n = Some v" using v by (auto simp: ran_def pagetab_def split: if_splits)
    let ?k = "n div PAGEMAP_ENTRIES" and ?j = "n mod PAGEMAP_ENTRIES"
    have j: "?j < PAGEMAP_ENTRIES" by (simp add: PAGEMAP_ENTRIES_def)
    have "?A (pmap ?i) ?k \<noteq> 0" "?A (?A (pmap ?i) ?k) ?j = v" "v \<noteq> NOPAGE"
      using n(2) slot_indirect [OF I j, of ?A ?k] by (auto split: if_splits)
    then show ?thesis using index_bound [OF n(1) I] j unfolding all_vals_def vals_def by blast
  qed
  show "v \<in> ran (pagetab s z)" if v: "v \<in> all_vals ?A (pmap ?i) {..<?E}"
  proof -
    obtain k j where k: "k < ?E" "?A (pmap ?i) k \<noteq> 0" "j < PAGEMAP_ENTRIES" "v = ?A (?A (pmap ?i) k) j" "v \<noteq> NOPAGE"
      using v by (auto simp: all_vals_def vals_def)
    then have "pagetab s z (k * PAGEMAP_ENTRIES + j) = Some v"
      using slot_indirect [OF I k(3), of ?A k] index_capacity [OF I k(1,3)] assms(1) by (simp add: pagetab_def)
    then show ?thesis by (rule ranI)
  qed
qed

lemma ran_used: "pg_inv e s \<Longrightarrow> swap s z \<Longrightarrow> ran (pagetab s z) \<subseteq> pf_used (pfile s (pf_info (istr s z)))"
  using pagetab_used(1) by (auto simp: ran_def)

text \<open>The loops of \<open>pf_dealloc\<close> on an object.\<close>

lemma dealloc_loops:
  assumes I: "pg_inv e s" and z: "swap s z"
  defines "i \<equiv> istr s z"
  shows "\<exists>f K. (if INDIRECT_PAGEMAP i then free_tables (pf_info i) (pmap i) [0..<INDIRECT_PAGEMAP_ENTRIES (is_size i)] s
      else free_slots (pf_info i) (pmap i) [0..<is_size i] s) = Some (s\<lparr>pfile := (pfile s)(pf_info i := f), kheap := K\<rparr>)
    \<and> freed (pfile s (pf_info i)) (ran (pagetab s z)) f \<and> K - {pmap i} = kheap s - arrays i (karr s)"
proof (cases "INDIRECT_PAGEMAP i")
  case True
  let ?E = "INDIRECT_PAGEMAP_ENTRIES (is_size i)" and ?A = "karr s"
  have T: "pagetab s z (k * PAGEMAP_ENTRIES + j) = Some (?A (?A (pmap i) k) j)"
    if "k < ?E" "?A (pmap i) k \<noteq> 0" "j < PAGEMAP_ENTRIES" "?A (?A (pmap i) k) j \<noteq> NOPAGE" for k j
    using slot_indirect [OF True that(3), of ?A k] index_capacity [OF True that(1,3)] that z by (simp add: pagetab_def i_def)
  have "inj_on (\<lambda>(k, j). ?A (?A (pmap i) k) j) {(k, j). k \<in> set [0..<?E] \<and> ?A (pmap i) k \<noteq> 0 \<and> j < PAGEMAP_ENTRIES \<and> ?A (?A (pmap i) k) j \<noteq> NOPAGE}"
  proof (rule inj_onI)
    fix x y
    assume xy: "x \<in> {(k, j). k \<in> set [0..<?E] \<and> ?A (pmap i) k \<noteq> 0 \<and> j < PAGEMAP_ENTRIES \<and> ?A (?A (pmap i) k) j \<noteq> NOPAGE}"
      "y \<in> {(k, j). k \<in> set [0..<?E] \<and> ?A (pmap i) k \<noteq> 0 \<and> j < PAGEMAP_ENTRIES \<and> ?A (?A (pmap i) k) j \<noteq> NOPAGE}"
      "(\<lambda>(k, j). ?A (?A (pmap i) k) j) x = (\<lambda>(k, j). ?A (?A (pmap i) k) j) y"
    obtain k j k' j' where p: "x = (k, j)" "y = (k', j')" by (metis surj_pair)
    have h: "k \<in> set [0..<?E]" "?A (pmap i) k \<noteq> 0" "j < PAGEMAP_ENTRIES" "?A (?A (pmap i) k) j \<noteq> NOPAGE"
      "k' \<in> set [0..<?E]" "?A (pmap i) k' \<noteq> 0" "j' < PAGEMAP_ENTRIES" "?A (?A (pmap i) k') j' \<noteq> NOPAGE" "?A (?A (pmap i) k) j = ?A (?A (pmap i) k') j'"
      using xy by (simp_all add: p)
    have "pagetab s z (k * PAGEMAP_ENTRIES + j) = Some (?A (?A (pmap i) k) j)" "pagetab s z (k' * PAGEMAP_ENTRIES + j') = Some (?A (?A (pmap i) k) j)"
      using T [of k j] T [of k' j'] h by simp_all
    then have n: "k * PAGEMAP_ENTRIES + j = k' * PAGEMAP_ENTRIES + j'" by (rule pagetab_inj [OF I])
    have "(k * PAGEMAP_ENTRIES + j) div PAGEMAP_ENTRIES = k" "(k' * PAGEMAP_ENTRIES + j') div PAGEMAP_ENTRIES = k'" using h(3,7) by simp_all
    then show "x = y" using n by (simp add: p)
  qed
  then obtain f where f: "free_tables (pf_info i) (pmap i) [0..<?E] s = Some (s\<lparr>pfile := (pfile s)(pf_info i := f), kheap := kheap s - (?A (pmap i) ` set [0..<?E] - {0})\<rparr>)"
    "freed (pfile s (pf_info i)) (all_vals ?A (pmap i) (set [0..<?E])) f"
    using free_tables_spec [of s "pf_info i" "[0..<?E]" "pmap i"] swap_file(2) [OF I z] ran_used [OF I z] ran_indirect [OF z] True
    by (auto simp: i_def atLeast0LessThan)
  moreover have "ran (pagetab s z) = all_vals ?A (pmap i) (set [0..<?E])" using ran_indirect [OF z] True by (simp add: i_def atLeast0LessThan)
  moreover have "kheap s - (?A (pmap i) ` set [0..<?E] - {0}) - {pmap i} = kheap s - arrays i ?A"
    using True by (auto simp: arrays_def tables_def table_def atLeast0LessThan)
  ultimately show ?thesis using True by auto
next
  case False
  have T: "pagetab s z n = Some (karr s (pmap i) n)" if "n < is_size i" "karr s (pmap i) n \<noteq> NOPAGE" for n
    using that z False by (simp add: pagetab_def slot_def capacity_def Let_def i_def)
  have "inj_on (karr s (pmap i)) {j \<in> set [0..<is_size i]. karr s (pmap i) j \<noteq> NOPAGE}"
  proof (rule inj_onI)
    fix x y assume h: "x \<in> {j \<in> set [0..<is_size i]. karr s (pmap i) j \<noteq> NOPAGE}" "y \<in> {j \<in> set [0..<is_size i]. karr s (pmap i) j \<noteq> NOPAGE}"
      "karr s (pmap i) x = karr s (pmap i) y"
    show "x = y" by (rule pagetab_inj [OF I, of z x "karr s (pmap i) x"]) (use T [of x] T [of y] h in simp_all)
  qed
  then obtain f where f: "free_slots (pf_info i) (pmap i) [0..<is_size i] s = Some (s\<lparr>pfile := (pfile s)(pf_info i := f)\<rparr>)"
    "freed (pfile s (pf_info i)) (ran (pagetab s z)) f"
    using free_slots_spec [of s "pf_info i" "[0..<is_size i]" "pmap i"] swap_file(2) [OF I z] ran_used [OF I z] ran_direct [OF z] False
    by (auto simp: i_def atLeast0LessThan)
  have "tables i (karr s) = {}" using False by (auto simp: tables_def table_def)
  then have "kheap s - {pmap i} = kheap s - arrays i (karr s)" by (simp add: arrays_def)
  moreover have "s\<lparr>pfile := F\<rparr> = s\<lparr>pfile := F, kheap := kheap s\<rparr>" for F by simp
  ultimately show ?thesis using f False by metis
qed

end
