(* ===== verification/Pager_Life.thy ===== *)
theory Pager_Life
  imports Pager_Free
begin

text \<open>
  The end of a memory object: its port is taken out of the table, and its structure, maps and
  blocks are freed, at once or by the last release.
\<close>

section \<open>Freeing a structure\<close>

definition removed :: "ptr \<Rightarrow> ('d, 'f) pg_state \<Rightarrow> ('d, 'f) pg_state \<Rightarrow> bool" where
  "removed z s s' \<longleftrightarrow> zheap s' = zheap s - {z} \<and> (\<forall>y. y \<noteq> z \<longrightarrow> istr s' y = istr s y) \<and> inode_port_hashtable s' = inode_port_hashtable s
     \<and> i_pager s' = i_pager s \<and> pager_files s' = pager_files s \<and> (\<forall>p. pf_ip (pfile s' p) = pf_ip (pfile s p)) \<and> disk s' = disk s
     \<and> istruct_queue s' = istruct_queue s \<and> use_paging_file s' = use_paging_file s
     \<and> paging_file_initialized s' = paging_file_initialized s \<and> pager_file_count s' = pager_file_count s"

lemma unregistered_lookup:
  assumes "pg_inv e s" "\<not> registered s z" "z \<noteq> 0"
  shows "inode_pager_lookup n s \<noteq> z"
  using pg_invD(4) [OF assms(1)] assms(2,3) unfolding ports_ok_def registered_def by metis

lemma removed_parts:
  assumes I: "pg_inv e s" and z: "\<not> registered s z" "z \<in> zheap s" and R: "removed z s s'"
  shows "ports_ok s'" "mapped_ok s'" "refs_ok s'" "objs_ok s'"
    "\<And>y. y \<noteq> z \<Longrightarrow> registered s' y = registered s y" "\<And>n. inode_pager_lookup n s' = inode_pager_lookup n s" "\<And>y. swap s' y \<longleftrightarrow> swap s y \<and> y \<noteq> z"
proof -
  note P = pg_invD [OF I]
  have E: "zheap s' = zheap s - {z}" "\<And>y. y \<noteq> z \<Longrightarrow> istr s' y = istr s y" "inode_port_hashtable s' = inode_port_hashtable s" "i_pager s' = i_pager s"
      "pager_files s' = pager_files s" "\<And>p. pf_ip (pfile s' p) = pf_ip (pfile s p)" "istruct_queue s' = istruct_queue s" using R by (simp_all add: removed_def)
  have z0: "z \<noteq> 0" using P(3) z(2) unfolding objs_ok_def by metis
  note U = unregistered_lookup [OF I z(1) z0]
  show l: "inode_pager_lookup n s' = inode_pager_lookup n s" for n by (simp add: inode_pager_lookup_def E)
  show r: "registered s' y = registered s y" if "y \<noteq> z" for y using that by (simp add: registered_def l E)
  have rz: "\<not> registered s' z" using U by (simp add: registered_def l)
  show "swap s' y \<longleftrightarrow> swap s y \<and> y \<noteq> z" for y by (auto simp: swap_def E)
  show "ports_ok s'" using P(4) U unfolding ports_ok_def l E(1,3) by (metis DiffI E(2) singletonD)
  show "mapped_ok s'" using P(5) rz unfolding mapped_ok_def E(4,5,6) by (metis E(2) r)
  show "refs_ok s'" using P(6) unfolding refs_ok_def E(1) by (metis DiffE E(2) r singletonI)
  have "obj_ok s' i = obj_ok s i" for i by (simp add: obj_ok_def E)
  then show "objs_ok s'" using P(3) E by (auto simp: objs_ok_def)
qed

lemma remove_swap:
  assumes I: "pg_inv e s" and z: "swap s z" "\<not> registered s z" and R: "removed z s s'"
    and A: "karr s' = karr s" "kheap s' = kheap s - arrays (istr s z) (karr s)"
    and f: "freed (pfile s (pf_info (istr s z))) (ran (pagetab s z)) (pfile s' (pf_info (istr s z)))" "\<And>p. p \<noteq> pf_info (istr s z) \<Longrightarrow> pfile s' p = pfile s p"
  shows "pg_inv e s'" "pagetab s' = (pagetab s)(z := (\<lambda>n. None))"
proof -
  note P = pg_invD [OF I]
  have zh: "z \<in> zheap s" using z(1) by (simp add: swap_def)
  note Q = removed_parts [OF I z(2) zh R]
  have E: "\<And>y. y \<noteq> z \<Longrightarrow> istr s' y = istr s y" "pager_files s' = pager_files s" "\<And>p. pf_ip (pfile s' p) = pf_ip (pfile s p)"
      "use_paging_file s' = use_paging_file s" "paging_file_initialized s' = paging_file_initialized s" "pager_file_count s' = pager_file_count s"
    using R by (simp_all add: removed_def)
  show T: "pagetab s' = (pagetab s)(z := (\<lambda>n. None))"
  proof (intro ext)
    show "pagetab s' y n = ((pagetab s)(z := (\<lambda>n. None))) y n" for y n by (cases "y = z") (simp_all add: pagetab_def Q(7) E A)
  qed
  note D = maps_okD [OF P(2)]
  have "map_ok (istr s' y) (karr s') (kheap s')" if "swap s' y" for y
  proof -
    have y: "swap s y" "y \<noteq> z" using that Q(7) by auto
    then show ?thesis using D(2) [OF y(1)] D(3) [OF y(1) z(1) y(2)] unfolding map_ok_def A E(1) [OF y(2)] by blast
  qed
  moreover have "arrays (istr s' y) (karr s') \<inter> arrays (istr s' y') (karr s') = {}" if "swap s' y" "swap s' y'" "y \<noteq> y'" for y y'
    using that D(3) [of y y'] Q(7) by (simp add: E A)
  ultimately have m: "maps_ok s'" using D(1) unfolding maps_ok_def A by auto
  have "blocks (pagetab s') (\<lambda>y. pf_info (istr s' y) = p) (pf_used (pfile s' p)) \<and> pf_ok (pfile s' p) \<and> pf_npgs (pfile s' p) * 2 ^ page_shift e \<le> 2 ^ 32"
    if p: "p \<in> set (pager_files s)" for p
  proof -
    have b: "blocks (pagetab s) (\<lambda>y. pf_info (istr s y) = p) (pf_used (pfile s p))" and o: "pf_ok (pfile s p)" "pf_npgs (pfile s p) * 2 ^ page_shift e \<le> 2 ^ 32"
      using P(1) p by (auto simp: files_ok_def)
    have c: "blocks (pagetab s') (\<lambda>y. pf_info (istr s' y) = p) U = blocks (pagetab s') (\<lambda>y. pf_info (istr s y) = p) U" for U
    proof (rule blocks_cong)
      show "(pf_info (istr s' y) = p) = (pf_info (istr s y) = p)" if "pagetab s' y n \<noteq> None" for y n using that T E(1) [of y] by (cases "y = z") auto
    qed
    show ?thesis
    proof (cases "pf_info (istr s z) = p")
      case True
      then show ?thesis using blocks_remove [OF b, of z] f(1) o unfolding c unfolding T by (auto simp: freed_def)
    next
      case False
      then show ?thesis using blocks_other [of "\<lambda>y. pf_info (istr s y) = p" z "pagetab s"] b f(2) o unfolding c unfolding T by auto
    qed
  qed
  moreover have "inj_on (\<lambda>p. pf_ip (pfile s' p)) (set (pager_files s'))" using P(1) by (simp add: files_ok_def E)
  ultimately have "files_ok e s'" using P(1) unfolding files_ok_def E(2,5,6) by blast
  then show "pg_inv e s'" using m Q(1-4) P(7) by (simp add: pg_inv_def E)
qed

lemma pf_dealloc_inv:
  assumes I: "pg_inv e s" and z: "swap s z" "\<not> registered s z"
  shows "\<exists>s'. pf_dealloc e z s = Some s' \<and> pg_inv e s' \<and> removed z s s' \<and> pagetab s' = (pagetab s)(z := (\<lambda>n. None))
    \<and> pf_used (pfile s' (pf_info (istr s z))) = pf_used (pfile s (pf_info (istr s z))) - ran (pagetab s z)
    \<and> pf_npgs (pfile s' (pf_info (istr s z))) = pf_npgs (pfile s (pf_info (istr s z)))"
proof -
  note F = swap_file [OF I z(1)]
  define s1 where "s1 = upd_is z (\<lambda>i. i\<lparr>use_count := use_count i + 1\<rparr>) s"
  have g: "istruct_get e z s = Some (ip_of (is_inode (istr s z)), s1)" unfolding s1_def by (rule istruct_get_simple [OF F(3,4)])
  have S: "same_objs s s1" "same_ports s s1" unfolding s1_def by (rule same_upd_is; simp add: core_def)+
  have I1: "pg_inv e s1" by (rule same_inv [OF S I]) (simp add: s1_def upd_is_def)
  have zh: "zheap s1 = zheap s" by (simp add: s1_def upd_is_def)
  have c1: "core (istr s1 y) = core (istr s y)" for y using S(1) by (simp add: same_objs_def)
  note C = coreD [OF c1] core_map [OF c1]
  note R1 = same_registered [OF S] and T1 = same_pagetab [OF S(1)]
  have z1: "swap s1 z" "\<not> registered s1 z" using z R1 T1 by simp_all
  define i where "i = istr s1 z"
  obtain f K where L: "(if INDIRECT_PAGEMAP i then free_tables (pf_info i) (pmap i) [0..<INDIRECT_PAGEMAP_ENTRIES (is_size i)] s1
      else free_slots (pf_info i) (pmap i) [0..<is_size i] s1) = Some (s1\<lparr>pfile := (pfile s1)(pf_info i := f), kheap := K\<rparr>)"
    "freed (pfile s1 (pf_info i)) (ran (pagetab s1 z)) f" "K - {pmap i} = kheap s1 - arrays i (karr s1)"
    using dealloc_loops [OF I1 z1(1)] unfolding i_def by blast
  let ?s2 = "s1\<lparr>pfile := (pfile s1)(pf_info i := f), kheap := K\<rparr>"
  define s' where "s' = call (Free_identity (identity i)) (upd_pf (pf_info i) (\<lambda>f. f\<lparr>pf_count := pf_count f - 1\<rparr>)
         (?s2\<lparr>kheap := K - {pmap i}, zheap := zheap s - {z}\<rparr>))"
  have p0: "pf_info i \<noteq> 0" using swap_file(1) [OF I1 z1(1)] pg_invD(1) [OF I1] unfolding files_ok_def i_def by metis
  have "pf_dealloc e z s = Some s'"
    unfolding pf_dealloc_def g by (simp only: option.case prod.case Let_def i_def [symmetric] p0 if_False L(1)) (simp add: s'_def zh)
  moreover have R: "removed z s1 s'"
    using L(2) by (auto simp: removed_def s'_def call_def upd_pf_def freed_def zh)
  moreover have "freed (pfile s1 (pf_info i)) (ran (pagetab s1 z)) (pfile s' (pf_info i))"
    using L(2) by (simp add: freed_def s'_def call_def upd_pf_def)
  then have fr: "freed (pfile s1 (pf_info (istr s1 z))) (ran (pagetab s1 z)) (pfile s' (pf_info (istr s1 z)))" by (simp add: i_def)
  have inv: "pg_inv e s'" "pagetab s' = (pagetab s1)(z := (\<lambda>n. None))"
    using remove_swap [OF I1 z1 R _ _ fr] L(3) by (simp_all add: s'_def call_def upd_pf_def i_def)
  moreover have "removed z s s'" using R by (simp add: removed_def s1_def upd_is_def)
  moreover have "pfile s1 = pfile s" by (simp add: s1_def upd_is_def)
  ultimately show ?thesis using fr by (auto simp: T1 freed_def C)
qed

lemma free_istruct_inv:
  assumes I: "pg_inv e s" and z: "z \<in> zheap s" "\<not> registered s z"
  shows "\<exists>s'. free_istruct e z s = Some s' \<and> pg_inv e s' \<and> removed z s s' \<and> pagetab s' = (pagetab s)(z := (\<lambda>n. None))"
proof (cases "swapfile (istr s z)")
  case True
  then show ?thesis using pf_dealloc_inv [OF I _ z(2)] z(1) by (auto simp: free_istruct_def swap_def)
next
  case False
  let ?s = "call (Free_identity (identity (istr s z))) (s\<lparr>zheap := zheap s - {z}\<rparr>)"
  have R: "removed z s ?s" by (simp add: removed_def call_def)
  note Q = removed_parts [OF I z(2,1) R] and P = pg_invD [OF I]
  have w: "swap ?s = swap s" using False by (auto simp: swap_def call_def fun_eq_iff)
  have k: "istr ?s = istr s" "karr ?s = karr s" by (simp_all add: call_def)
  have T: "pagetab ?s = pagetab s" by (intro ext) (simp only: pagetab_def w k)
  have "maps_ok ?s" using P(2) unfolding maps_ok_def w by (simp add: call_def)
  moreover have "files_ok e ?s" using P(1) unfolding files_ok_def T by (simp add: call_def)
  ultimately have "pg_inv e ?s" using Q(1-4) P(7) by (simp add: pg_inv_def) (simp add: call_def)
  moreover have "pagetab s = (pagetab s)(z := (\<lambda>n. None))" using False by (auto simp: pagetab_def swap_def fun_eq_iff)
  ultimately show ?thesis using False R T by (simp add: free_istruct_def)
qed

lemma removed_contents:
  assumes "removed z s s'" "pagetab s' = (pagetab s)(z := (\<lambda>n. None))" "y \<noteq> z"
  shows "contents content e s' y = contents content e s y"
  using assms by (intro ext) (simp add: contents_def removed_def)

end
