(* ===== verification/Pager_Ports.thy ===== *)
theory Pager_Ports
  imports Pager_Life
begin

text \<open>
  The table of ports and the end of objects: \<open>inode_pager_terminate_object\<close> and the two parts of a
  release keep the invariant and leave the other objects alone.
\<close>

section \<open>The table\<close>

lemma entry_of_none: "\<forall>x\<in>set xs. snd x \<noteq> 0 \<Longrightarrow> entry_of n xs = 0 \<longleftrightarrow> n \<notin> fst ` set xs"
  by (induction xs) auto

lemma entry_of_append: "n \<notin> fst ` set xs \<Longrightarrow> entry_of m (xs @ [(n, z)]) = (if m = n then z else entry_of m xs)"
  by (induction xs) auto

lemma entry_of_absent: "n \<notin> fst ` set xs \<Longrightarrow> entry_of n xs = 0"
  by (induction xs) auto

lemma entry_of_del: "distinct (map fst xs) \<Longrightarrow> entry_of m (del_entry n xs) = (if m = n then 0 else entry_of m xs)"
  by (induction xs) (auto simp: entry_of_absent)

lemma set_del_entry: "set (del_entry n xs) \<subseteq> set xs"
  by (induction xs) auto

lemma distinct_del_entry: "distinct (map fst xs) \<Longrightarrow> distinct (map fst (del_entry n xs))"
proof (induction xs)
  case (Cons x xs)
  then show ?case using set_del_entry [of n xs] by auto
qed simp

lemma lookup_delete:
  assumes "table_ok (inode_port_hashtable s)"
  shows "inode_pager_lookup m (inode_port_hash_delete n s) = (if m = n then 0 else inode_pager_lookup m s)"
    "table_ok (inode_port_hashtable (inode_port_hash_delete n s))"
proof -
  have d: "distinct (map fst (inode_port_hashtable s h))" "\<forall>x\<in>set (inode_port_hashtable s h). snd x \<noteq> 0" for h
    using assms by (simp_all add: table_ok_def)
  show "inode_pager_lookup m (inode_port_hash_delete n s) = (if m = n then 0 else inode_pager_lookup m s)"
    using entry_of_del [OF d(1)] by (auto simp: inode_pager_lookup_def inode_port_hash_delete_def Let_def)
  show "table_ok (inode_port_hashtable (inode_port_hash_delete n s))"
    using d distinct_del_entry set_del_entry by (fastforce simp: table_ok_def inode_port_hash_delete_def Let_def)
qed

lemma lookup_insert:
  assumes "table_ok (inode_port_hashtable s)" "inode_pager_lookup n s = 0" "z \<noteq> 0"
  shows "inode_pager_lookup m (inode_port_hash_insert n z s) = (if m = n then z else inode_pager_lookup m s)"
    "table_ok (inode_port_hashtable (inode_port_hash_insert n z s))"
proof -
  have d: "distinct (map fst (inode_port_hashtable s h))" "\<forall>x\<in>set (inode_port_hashtable s h). snd x \<noteq> 0" for h
    using assms(1) by (simp_all add: table_ok_def)
  have a: "n \<notin> fst ` set (inode_port_hashtable s (inode_port_hash n))"
    using assms(2) entry_of_none [OF d(2)] by (simp add: inode_pager_lookup_def)
  show "inode_pager_lookup m (inode_port_hash_insert n z s) = (if m = n then z else inode_pager_lookup m s)"
    using entry_of_append [OF a] by (auto simp: inode_pager_lookup_def inode_port_hash_insert_def Let_def)
  show "table_ok (inode_port_hashtable (inode_port_hash_insert n z s))"
    using d a assms(3) by (auto simp: table_ok_def inode_port_hash_insert_def Let_def)
qed

section \<open>What clients see\<close>

text \<open>The memory objects in paging files, by port, with their sizes and contents.\<close>

definition backed :: "('d, 'f) pg_state \<Rightarrow> nat \<Rightarrow> bool" where
  "backed s c \<longleftrightarrow> inode_pager_lookup c s \<noteq> 0 \<and> swapfile (istr s (inode_pager_lookup c s))"

definition object_view :: "('f \<Rightarrow> ptr \<Rightarrow> nat \<Rightarrow> 'd) \<Rightarrow> ('d, 'f) pg_env \<Rightarrow> ('d, 'f) pg_state \<Rightarrow> nat \<Rightarrow> nat \<times> (nat \<Rightarrow> 'd option)" where
  "object_view content e s c = (is_size (istr s (inode_pager_lookup c s)), contents content e s (inode_pager_lookup c s))"

definition leaves :: "('f \<Rightarrow> ptr \<Rightarrow> nat \<Rightarrow> 'd) \<Rightarrow> ('d, 'f) pg_env \<Rightarrow> nat set \<Rightarrow> ('d, 'f) pg_state \<Rightarrow> ('d, 'f) pg_state \<Rightarrow> bool" where
  "leaves content e X s s' \<longleftrightarrow> pg_inv e s' \<and> (\<forall>c. backed s c \<and> c \<notin> X \<longrightarrow> backed s' c \<and> object_view content e s' c = object_view content e s c)"

lemma leaves_refl: "pg_inv e s \<Longrightarrow> leaves content e X s s"
  by (simp add: leaves_def)

lemma leaves_seq: "leaves content e X s s' \<Longrightarrow> leaves content e X s' s'' \<Longrightarrow> leaves content e X s s''"
  unfolding leaves_def by metis

lemma leaves_mono: "leaves content e X s s' \<Longrightarrow> X \<subseteq> Y \<Longrightarrow> leaves content e Y s s'"
  unfolding leaves_def by blast

lemma touches_leaves:
  assumes I: "pg_inv e s" and t: "touches content e {z} s s'" and z: "inode_pager_lookup c s = z" "z \<noteq> 0"
  shows "leaves content e {c} s s'"
proof -
  note K = keptD [OF page_use(2) [OF t]]
  have "inode_pager_lookup b s \<noteq> z" if "b \<noteq> c" for b
    using pg_invD(4) [OF I] z that unfolding ports_ok_def by metis
  then have "contents content e s' (inode_pager_lookup b s) = contents content e s (inode_pager_lookup b s)" if "b \<noteq> c" for b
    using t that by (simp add: touches_def)
  then show ?thesis using page_use(1) [OF t] by (simp add: leaves_def backed_def object_view_def K)
qed

lemma touches_leaves_all:
  assumes t: "touches content e {} s s'" shows "leaves content e X s s'"
proof -
  note K = keptD [OF page_use(2) [OF t]]
  have "contents content e s' y = contents content e s y" for y using t by (simp add: touches_def)
  then show ?thesis using page_use(1) [OF t] by (simp add: leaves_def backed_def object_view_def K)
qed

section \<open>Taking an object out of the table\<close>

lemma unregister_inv:
  assumes I: "pg_inv e s" and z: "inode_pager_lookup c s = z" "z \<noteq> 0" and S: "same_objs s s'"
    and H: "inode_port_hashtable s' = inode_port_hashtable (inode_port_hash_delete c s)"
    and p: "\<And>y. registered s y \<Longrightarrow> y \<noteq> z \<Longrightarrow> \<not> swapfile (istr s y) \<Longrightarrow> i_pager s' (ip_of (is_inode (istr s y))) = i_pager s (ip_of (is_inode (istr s y)))"
    and f: "\<And>y. y \<noteq> z \<Longrightarrow> free_me (istr s' y) = free_me (istr s y)"
  shows "pg_inv e s'" "\<not> registered s' z" "inode_pager_lookup n s' = (if n = c then 0 else inode_pager_lookup n s)"
proof -
  note P = pg_invD [OF I] and G = lookup_registered [OF I z]
  have t: "table_ok (inode_port_hashtable s)" using P(4) by (simp add: ports_ok_def)
  have C: "core (istr s' y) = core (istr s y)" for y using S by (simp add: same_objs_def)
  note D = coreD [OF C]
  have E: "zheap s' = zheap s" "pager_files s' = pager_files s" "pfile s' = pfile s" "use_paging_file s' = use_paging_file s"
    using S by (simp_all add: same_objs_def)
  show l: "inode_pager_lookup n s' = (if n = c then 0 else inode_pager_lookup n s)" for n
    using lookup_delete(1) [OF t, of n c] by (simp add: inode_pager_lookup_def H)
  have r: "registered s' y \<longleftrightarrow> registered s y \<and> y \<noteq> z" for y
  proof (cases "is_pager (istr s y) = c")
    case True
    have "registered s y \<longleftrightarrow> y = z" using z True by (auto simp: registered_def)
    moreover have "\<not> registered s' y" using True by (auto simp: registered_def l D(2))
    ultimately show ?thesis by simp
  next
    case False
    then have "y \<noteq> z" using G(3) by blast
    then show ?thesis using False by (simp add: registered_def l D(2))
  qed
  show "\<not> registered s' z" using r by simp
  have "ports_ok s'" using P(4) lookup_delete(2) [OF t, of c] unfolding ports_ok_def l D(2) E(1) H by auto
  moreover have "mapped_ok s'"
    using P(5) p unfolding mapped_ok_def r D E by metis
  moreover have "refs_ok s'" using P(6) f unfolding refs_ok_def r E(1) by metis
  ultimately show "pg_inv e s'" using same_parts [OF S] P by (simp add: pg_inv_def E)
qed

lemma unregister_leaves:
  assumes I: "pg_inv e s" and z: "inode_pager_lookup c s = z" "z \<noteq> 0" and S: "same_objs s s'" and I': "pg_inv e s'" and d: "disk s' = disk s"
    and l: "\<And>n. inode_pager_lookup n s' = (if n = c then 0 else inode_pager_lookup n s)"
  shows "leaves content e {c} s s'"
proof -
  have C: "core (istr s' y) = core (istr s y)" for y using S by (simp add: same_objs_def)
  note D = coreD [OF C]
  show ?thesis using I' contents_same [OF S d] by (simp add: leaves_def backed_def object_view_def l D)
qed

lemma free_leaves:
  assumes I: "pg_inv e s" and z: "z \<in> zheap s" "\<not> registered s z"
  shows "\<exists>s'. free_istruct e z s = Some s' \<and> leaves content e X s s' \<and> removed z s s'"
proof -
  obtain s' where s': "free_istruct e z s = Some s'" "pg_inv e s'" "removed z s s'" "pagetab s' = (pagetab s)(z := (\<lambda>n. None))"
    using free_istruct_inv [OF I z] by blast
  note Q = removed_parts [OF I z(2,1) s'(3)]
  have "z \<noteq> 0" using pg_invD(3) [OF I] z(1) unfolding objs_ok_def by metis
  note U = unregistered_lookup [OF I z(2) this]
  have "backed s' c \<and> object_view content e s' c = object_view content e s c" if "backed s c" for c
    using that U [of c] s'(3) removed_contents [OF s'(3,4)] by (simp add: backed_def object_view_def Q(6) removed_def)
  then show ?thesis using s' by (auto simp: leaves_def)
qed

section \<open>Termination and release\<close>

text \<open>Bookkeeping that no client sees.\<close>

definition quiet :: "('d, 'f) pg_state \<Rightarrow> ('d, 'f) pg_state \<Rightarrow> bool" where
  "quiet s s' \<longleftrightarrow> same_objs s s' \<and> inode_port_hashtable s' = inode_port_hashtable s \<and> disk s' = disk s
     \<and> (\<forall>y. free_me (istr s' y) = free_me (istr s y) \<and> dead_references (istr s' y) = dead_references (istr s y))"

lemma quiet_refl [simp]: "quiet s s"
  by (simp add: quiet_def)

lemma quiet_trans: "quiet s s' \<Longrightarrow> quiet s' s'' \<Longrightarrow> quiet s s''"
  unfolding quiet_def using same_objs_trans by (metis (full_types))

lemma quiet_call [simp]: "quiet s (call c s)"
  by (simp add: quiet_def) (simp add: call_def)

lemma quiet_upd:
  assumes "\<And>i. core (f i) = core i" "\<And>i. free_me (f i) = free_me i" "\<And>i. dead_references (f i) = dead_references i"
  shows "quiet s (upd_is z f s)"
  using same_upd_is(1) [of f s z, OF assms(1)] by (simp add: quiet_def) (simp add: upd_is_def assms)

lemma drop_rights_quiet: "quiet s (drop_rights n r s)" "i_pager (drop_rights n r s) = i_pager s"
proof -
  show "quiet s (drop_rights n r s)" unfolding drop_rights_def Let_def using quiet_trans [OF quiet_call quiet_call] by auto
  show "i_pager (drop_rights n r s) = i_pager s" by (simp add: drop_rights_def call_def)
qed

lemma drop_names_quiet: "quiet s (drop_names z s)" "i_pager (drop_names z s) = i_pager s"
proof -
  have a: "quiet t (upd_is z (\<lambda>i. i\<lparr>pager_global := 0\<rparr>) (call c t))" "quiet t (upd_is z (\<lambda>i. i\<lparr>pager_request_global := 0\<rparr>) (call c t))" for t c
    by (rule quiet_trans [OF quiet_call quiet_upd]; simp add: core_def)+
  show "quiet s (drop_names z s)" unfolding drop_names_def Let_def using a quiet_trans [OF a(1) a(2)] by auto
  show "i_pager (drop_names z s) = i_pager s" by (simp add: drop_names_def Let_def call_def upd_is_def)
qed

lemma quiet_leaves:
  assumes "pg_inv e s" "quiet s s'" "i_pager s' = i_pager s" shows "leaves content e X s s'"
  using touches_leaves_all [OF touches_same [OF assms(1)]] assms by (simp add: quiet_def same_ports_def)

lemma drop_inode_quiet:
  assumes "obj_ok s (istr s z)" "z \<noteq> 0"
  shows "\<exists>s'. drop_inode e z s = Some s' \<and> quiet s s'
    \<and> i_pager s' = (if swapfile (istr s z) then i_pager s else (i_pager s)(ip_of (is_inode (istr s z)) := 0))"
proof (cases "swapfile (istr s z)")
  case False
  let ?s1 = "upd_is z (\<lambda>i. i\<lparr>use_count := use_count i + 1\<rparr>) s" and ?ip = "ip_of (is_inode (istr s z))"
  have q: "quiet s ?s1" by (rule quiet_upd) (simp_all add: core_def)
  have "quiet t (call c (t\<lparr>i_text := a, i_pager := b\<rparr>))" for t :: "('d, 'f) pg_state" and c a b
    by (simp add: quiet_def same_objs_def call_def)
  then have "quiet s (call (Release_inode ?ip) (?s1\<lparr>i_text := (i_text ?s1)(?ip := False), i_pager := (i_pager ?s1)(?ip := 0)\<rparr>))"
    using quiet_trans [OF q] by blast
  then show ?thesis using istruct_get_simple [OF assms] False by (simp add: drop_inode_def) (simp add: call_def upd_is_def)
qed (simp add: drop_inode_def)

lemma free_me_leaves:
  assumes I: "pg_inv e s" and z: "\<not> registered s z"
  shows "leaves content e X s (upd_is z (\<lambda>i. i\<lparr>free_me := True\<rparr>) s)"
proof -
  let ?t = "upd_is z (\<lambda>i. i\<lparr>free_me := True\<rparr>) s"
  have S: "same_objs s ?t" "same_ports s ?t" by (rule same_upd_is; simp add: core_def)+
  have C: "core (istr ?t y) = core (istr s y)" for y using S by (simp add: same_objs_def)
  note D = coreD [OF C] and R = same_registered [OF S] and P = pg_invD [OF I]
  have F: "zheap ?t = zheap s" "pager_files ?t = pager_files s" "pfile ?t = pfile s" "inode_port_hashtable ?t = inode_port_hashtable s"
      "i_pager ?t = i_pager s" "use_paging_file ?t = use_paging_file s" "disk ?t = disk s" by (simp_all add: upd_is_def)
  have "ports_ok ?t" using P(4) by (simp add: ports_ok_def R F D)
  moreover have "mapped_ok ?t" using P(5) by (simp add: mapped_ok_def R F D)
  moreover have "refs_ok ?t" using P(6) z unfolding refs_ok_def R F by (simp add: upd_is_def)
  ultimately have "pg_inv e ?t" using same_parts [OF S(1)] P by (simp add: pg_inv_def F)
  then show ?thesis using contents_same [OF S(1) F(7)] by (simp add: leaves_def backed_def object_view_def R D)
qed

text \<open>When nobody can send to an object any more, it is taken out of the table.\<close>

lemma terminate_detach:
  assumes I: "pg_inv e s" and z: "inode_pager_lookup c s = z" "z \<noteq> 0"
    and n: "inode_pager_no_more_senders (pager_global (istr s z)) (dead_references (istr s z)) refs"
  shows "\<exists>t. inode_pager_terminate_object e c req nam refs s =
      (if dead_references (istr s z) = 0 then free_istruct e z t else Some (upd_is z (\<lambda>i. i\<lparr>free_me := True\<rparr>) t))
    \<and> leaves content e {c} s t \<and> \<not> registered t z \<and> same_objs s t"
proof -
  note G = lookup_registered [OF I z]
  define s1 where "s1 = upd_is z (\<lambda>i. i\<lparr>client_count := client_count i - 1\<rparr>) (drop_rights nam req s)"
  note Q0 = drop_rights_quiet [where s = s and n = nam and r = req]
  have Q1: "quiet s s1" "i_pager s1 = i_pager s" unfolding s1_def
    using quiet_trans [OF Q0(1) quiet_upd] Q0(2) by (auto simp: core_def upd_is_def)
  have S1: "same_objs s s1" using Q1(1) by (simp add: quiet_def)
  have C: "core (istr t y) = core (istr s y)" if "same_objs s t" for t y using that by (simp add: same_objs_def)
  have n1: "inode_pager_no_more_senders (pager_global (istr s1 z)) (dead_references (istr s1 z)) refs"
    using n by (simp add: s1_def upd_is_def drop_rights_def call_def)
  note D1 = coreD [OF C [OF S1]]
  have "obj_ok s1 (istr s1 z)" using G(4) S1 by (simp add: obj_ok_def same_objs_def D1)
  then obtain s2 where s2: "drop_inode e z s1 = Some s2" "quiet s1 s2"
    "i_pager s2 = (if swapfile (istr s1 z) then i_pager s1 else (i_pager s1)(ip_of (is_inode (istr s1 z)) := 0))"
    using drop_inode_quiet [of s1 z e] z(2) by blast
  define s3 where "s3 = drop_names z s2"
  note Q3' = drop_names_quiet [where s = s2 and z = z, folded s3_def]
  have Q3: "quiet s s3" using quiet_trans [OF quiet_trans [OF Q1(1) s2(2)] Q3'(1)] .
  then have S3: "same_objs s s3" by (simp add: quiet_def)
  note D3 = coreD [OF C [OF S3]]
  define t where "t = call (Port_deallocate (is_pager (istr s3 z))) (inode_port_hash_delete (is_pager (istr s3 z)) s3)"
  have u: "unqueue z t = t" using G(4) by (simp add: unqueue_def t_def call_def inode_port_hash_delete_def Let_def D3 obj_ok_def)
  have S4: "same_objs s t" using S3 by (simp add: t_def same_objs_def call_def inode_port_hash_delete_def Let_def)
  have E4: "inode_port_hashtable t = inode_port_hashtable (inode_port_hash_delete c s)" "disk t = disk s" "i_pager t = i_pager s2" "istr t = istr s3"
    using Q3 Q3'(2) G(3) by (simp_all add: t_def call_def inode_port_hash_delete_def Let_def quiet_def D3)
  have ip: "i_pager t (ip_of (is_inode (istr s y))) = i_pager s (ip_of (is_inode (istr s y)))"
    if "registered s y" "y \<noteq> z" "\<not> swapfile (istr s y)" for y
  proof (cases "swapfile (istr s z)")
    case True
    then show ?thesis by (simp add: E4(3) s2(3) D1 Q1(2))
  next
    case False
    then have "ip_of (is_inode (istr s y)) \<noteq> ip_of (is_inode (istr s z))" using pg_invD(5) [OF I] that G(1) unfolding mapped_ok_def by blast
    then show ?thesis using False by (simp add: E4(3) s2(3) D1 Q1(2))
  qed
  have fm: "free_me (istr t y) = free_me (istr s y)" "dead_references (istr t y) = dead_references (istr s y)" for y using Q3 by (simp_all add: E4 quiet_def)
  note R4 = unregister_inv [OF I z S4 E4(1) ip fm(1)]
  have "inode_pager_terminate_object e c req nam refs s = (if dead_references (istr t z) = 0 then free_istruct e z t else Some (upd_is z (\<lambda>i. i\<lparr>free_me := True\<rparr>) t))"
    using z s2(1) u n1 by (simp add: inode_pager_terminate_object_def s1_def [symmetric] s3_def [symmetric] t_def [symmetric])
  then show ?thesis using unregister_leaves [OF I z S4 R4(1) E4(2) R4(3)] R4(2) S4 unfolding fm(2) by blast
qed

lemma terminate_leaves:
  assumes I: "pg_inv e s"
  shows "\<exists>s'. inode_pager_terminate_object e c req nam refs s = Some s' \<and> leaves content e {c} s s'"
proof -
  define z where "z = inode_pager_lookup c s"
  note Q0 = drop_rights_quiet [where s = s and n = nam and r = req]
  show ?thesis
  proof (cases "z = 0")
    case True
    then show ?thesis using quiet_leaves [OF I Q0] by (simp add: inode_pager_terminate_object_def z_def [symmetric])
  next
    case z: False
    show ?thesis
    proof (cases "inode_pager_no_more_senders (pager_global (istr s z)) (dead_references (istr s z)) refs")
      case True
      from terminate_detach [OF I z_def [symmetric] z True, of req nam content] obtain t where
        t: "inode_pager_terminate_object e c req nam refs s = (if dead_references (istr s z) = 0 then free_istruct e z t else Some (upd_is z (\<lambda>i. i\<lparr>free_me := True\<rparr>) t))"
          "leaves content e {c} s t" "\<not> registered t z" "same_objs s t" by blast
      have It: "pg_inv e t" "z \<in> zheap t" using t(2,4) lookup_registered(2) [OF I z_def [symmetric] z] by (simp_all add: leaves_def same_objs_def)
      obtain t' where "free_istruct e z t = Some t'" "leaves content e {c} t t'" using free_leaves [OF It t(3)] by blast
      then show ?thesis using t(1) leaves_seq [OF t(2)] free_me_leaves [OF It(1) t(3)] by (cases "dead_references (istr s z) = 0") auto
    next
      case False
      let ?s1 = "upd_is z (\<lambda>i. i\<lparr>client_count := client_count i - 1\<rparr>) (drop_rights nam req s)"
      have "quiet s ?s1" "i_pager ?s1 = i_pager s" using quiet_trans [OF Q0(1) quiet_upd] Q0(2) by (auto simp: core_def upd_is_def)
      moreover have "pager_global (istr ?s1 z) = pager_global (istr s z)" "dead_references (istr ?s1 z) = dead_references (istr s z)"
        by (simp_all add: upd_is_def drop_rights_def call_def)
      ultimately show ?thesis using quiet_leaves [OF I] z False by (simp add: inode_pager_terminate_object_def z_def [symmetric])
    qed
  qed
qed

text \<open>A terminated object that no release is pending for gives back its structure and its blocks at once.\<close>

lemma terminate_frees:
  assumes I: "pg_inv e s" and z: "inode_pager_lookup c s = z" "z \<noteq> 0" "swapfile (istr s z)"
    and n: "inode_pager_no_more_senders (pager_global (istr s z)) (dead_references (istr s z)) refs" "dead_references (istr s z) = 0"
  shows "\<exists>s'. inode_pager_terminate_object e c req nam refs s = Some s' \<and> pg_inv e s' \<and> zheap s' = zheap s - {z} \<and> pagetab s' = (pagetab s)(z := (\<lambda>n. None))
    \<and> pf_used (pfile s' (pf_info (istr s z))) = pf_used (pfile s (pf_info (istr s z))) - ran (pagetab s z)
    \<and> pf_npgs (pfile s' (pf_info (istr s z))) = pf_npgs (pfile s (pf_info (istr s z))) \<and> pager_files s' = pager_files s"
proof -
  from terminate_detach [OF I z(1,2) n(1), of req nam] n(2) obtain t where
    t: "inode_pager_terminate_object e c req nam refs s = free_istruct e z t" "pg_inv e t" "\<not> registered t z" "same_objs s t"
    by (auto simp: leaves_def)
  have C: "core (istr t y) = core (istr s y)" for y using t(4) by (simp add: same_objs_def)
  note D = coreD [OF C] and T = same_pagetab [OF t(4)]
  have sw: "swap t z" using lookup_registered(2) [OF I z(1,2)] z(3) T(1) by (simp add: swap_def)
  obtain s' where s': "pf_dealloc e z t = Some s'" "pg_inv e s'" "removed z t s'" "pagetab s' = (pagetab t)(z := (\<lambda>n. None))"
    "pf_used (pfile s' (pf_info (istr t z))) = pf_used (pfile t (pf_info (istr t z))) - ran (pagetab t z)"
    "pf_npgs (pfile s' (pf_info (istr t z))) = pf_npgs (pfile t (pf_info (istr t z)))"
    using pf_dealloc_inv [OF t(2) sw t(3)] by blast
  have "zheap s' = zheap s - {z}" "pfile t = pfile s" "pager_files s' = pager_files s" using s'(3) t(4) by (simp_all add: removed_def same_objs_def)
  moreover have "free_istruct e z t = Some s'" using s'(1) z(3) by (simp add: free_istruct_def D)
  ultimately show ?thesis using s' t(1) unfolding D T by auto
qed

end
