(* ===== verification/Pager_Create.thy ===== *)
theory Pager_Create
  imports Pager_Ports
begin

text \<open>
  The beginning of a memory object: structures from the zone, their maps, the entry in the table of
  ports, and the paging file that is set up for the first object.
\<close>

section \<open>Structures that are not in use\<close>

lemma lookup_in_zone: "pg_inv e s \<Longrightarrow> z \<notin> zheap s \<Longrightarrow> z \<noteq> 0 \<Longrightarrow> inode_pager_lookup n s \<noteq> z"
  using pg_invD(4) [of e s] unfolding ports_ok_def by metis

text \<open>
  A structure that the state \<open>s\<close> does not use is filled in and taken into use: it is not registered,
  and if it belongs to a paging file it has an empty map in an array of its own.
\<close>

definition adopted :: "ptr \<Rightarrow> ('d, 'f) pg_state \<Rightarrow> ('d, 'f) pg_state \<Rightarrow> bool" where
  "adopted z s s' \<longleftrightarrow> z \<noteq> 0 \<and> z \<notin> zheap s \<and> (zheap s' = zheap s \<or> zheap s' = insert z (zheap s) \<and> obj_ok s' (istr s' z) \<and> \<not> free_me (istr s' z))
     \<and> (\<forall>y. y \<noteq> z \<longrightarrow> istr s' y = istr s y) \<and> inode_port_hashtable s' = inode_port_hashtable s \<and> i_pager s' = i_pager s
     \<and> pager_files s' = pager_files s \<and> pager_file_count s' = pager_file_count s \<and> (\<forall>p. \<exists>c. pfile s' p = (pfile s p)\<lparr>pf_count := c\<rparr>)
     \<and> istruct_queue s' = istruct_queue s \<and> use_paging_file s' = use_paging_file s \<and> paging_file_initialized s' = paging_file_initialized s
     \<and> disk s' = disk s \<and> kheap s \<subseteq> kheap s' \<and> finite (kheap s') \<and> (\<forall>a\<in>kheap s. karr s' a = karr s a)
     \<and> (swap s' z \<longrightarrow> map_ok (istr s' z) (karr s') (kheap s') \<and> arrays (istr s' z) (karr s') \<inter> kheap s = {}
          \<and> (\<forall>n < capacity (istr s' z). slot (istr s' z) (karr s') n = None))"

lemma adopted_inv:
  assumes I: "pg_inv e s" and a: "adopted z s s'"
  shows "pg_inv e s'" "pagetab s' = pagetab s" "\<not> registered s' z" "inode_pager_lookup n s' = inode_pager_lookup n s" "leaves content e X s s'"
proof -
  note P = pg_invD [OF I]
  have z: "z \<noteq> 0" "z \<notin> zheap s" using a by (simp_all add: adopted_def)
  have E: "\<And>y. y \<noteq> z \<Longrightarrow> istr s' y = istr s y" "inode_port_hashtable s' = inode_port_hashtable s" "i_pager s' = i_pager s" "pager_files s' = pager_files s"
      "pager_file_count s' = pager_file_count s" "istruct_queue s' = istruct_queue s" "use_paging_file s' = use_paging_file s"
      "paging_file_initialized s' = paging_file_initialized s" "disk s' = disk s" and K: "kheap s \<subseteq> kheap s'" "finite (kheap s')"
      and A: "\<And>a. a \<in> kheap s \<Longrightarrow> karr s' a = karr s a"
    using a by (simp_all add: adopted_def)
  have Z: "zheap s' = zheap s \<or> zheap s' = insert z (zheap s) \<and> obj_ok s' (istr s' z) \<and> \<not> free_me (istr s' z)" using a by (simp add: adopted_def)
  have f: "pf_ip (pfile s' p) = pf_ip (pfile s p)" "pf_ok (pfile s' p) = pf_ok (pfile s p)" "pf_used (pfile s' p) = pf_used (pfile s p)"
      "pf_npgs (pfile s' p) = pf_npgs (pfile s p)" for p
  proof -
    have "\<forall>p. \<exists>c. pfile s' p = (pfile s p)\<lparr>pf_count := c\<rparr>" using a by (simp add: adopted_def)
    then obtain c where "pfile s' p = (pfile s p)\<lparr>pf_count := c\<rparr>" by blast
    then show "pf_ip (pfile s' p) = pf_ip (pfile s p)" "pf_ok (pfile s' p) = pf_ok (pfile s p)" "pf_used (pfile s' p) = pf_used (pfile s p)"
      "pf_npgs (pfile s' p) = pf_npgs (pfile s p)" by simp_all
  qed
  note U = lookup_in_zone [OF I z(2,1)]
  show l: "inode_pager_lookup n s' = inode_pager_lookup n s" for n by (simp add: inode_pager_lookup_def E)
  have r: "registered s' y = registered s y" for y
    using U by (cases "y = z") (auto simp: registered_def l E)
  show nr: "\<not> registered s' z" using U by (auto simp: registered_def l)
  have w: "swap s' y = swap s y" if "y \<noteq> z" for y using that Z by (auto simp: swap_def E)
  have nz: "\<not> swap s z" using z(2) by (simp add: swap_def)
  note D = maps_okD [OF P(2)]
  have keep: "\<forall>a\<in>arrays (istr s y) (karr s). karr s' a = karr s a" if "swap s y" for y using D(2) [OF that] A by (auto simp: map_ok_def)
  then have p: "karr s' (pmap (istr s y)) = karr s (pmap (istr s y))" if "swap s y" for y using that by (simp add: arrays_def)
  have ar: "arrays (istr s y) (karr s') = arrays (istr s y) (karr s)" if "swap s y" for y by (rule arrays_other) (rule p [OF that])
  have mo: "map_ok (istr s y) (karr s') (kheap s')" if "swap s y" for y by (rule map_ok_other [where A = "karr s", OF _ D(2) [OF that] K(1)]) (rule p [OF that])
  have new: "swap s' z \<Longrightarrow> map_ok (istr s' z) (karr s') (kheap s')" "swap s' z \<Longrightarrow> arrays (istr s' z) (karr s') \<inter> kheap s = {}"
    "swap s' z \<Longrightarrow> n < capacity (istr s' z) \<Longrightarrow> slot (istr s' z) (karr s') n = None" for n using a by (auto simp: adopted_def)
  show T: "pagetab s' = pagetab s"
  proof (intro ext)
    fix y n
    show "pagetab s' y n = pagetab s y n"
    proof (cases "y = z")
      case True
      then show ?thesis using nz new(3) [of n] by (auto simp: pagetab_def)
    next
      case False
      then show ?thesis using slot_other [OF keep, of y n] w [OF False] by (auto simp: pagetab_def E)
    qed
  qed
  have sub: "arrays (istr s y) (karr s) \<subseteq> kheap s" if "swap s y" for y using D(2) [OF that] by (simp add: map_ok_def)
  have "map_ok (istr s' y) (karr s') (kheap s')" if "swap s' y" for y
    using that new(1) mo w E(1) by (cases "y = z") simp_all
  moreover have "arrays (istr s' y) (karr s') \<inter> arrays (istr s' y') (karr s') = {}" if "swap s' y" "swap s' y'" "y \<noteq> y'" for y y'
  proof -
    have "arrays (istr s' x) (karr s') \<subseteq> kheap s" if "swap s' x" "x \<noteq> z" for x using that ar sub w E(1) by simp
    then show ?thesis using that new(2) D(3) [of y y'] ar w E(1) by (cases "y = z"; cases "y' = z") (simp, blast, blast, simp)
  qed
  ultimately have m: "maps_ok s'" using K(2) by (simp add: maps_ok_def)
  have b: "blocks (pagetab s) (\<lambda>y. pf_info (istr s' y) = q) V = blocks (pagetab s) (\<lambda>y. pf_info (istr s y) = q) V" for q V
  proof (rule blocks_cong)
    show "(pf_info (istr s' y) = q) = (pf_info (istr s y) = q)" if "pagetab s y n \<noteq> None" for y n
      using that nz E(1) [of y] by (cases "y = z") (auto simp: pagetab_def)
  qed
  have "files_ok e s'" using P(1) unfolding files_ok_def T E f b by simp
  moreover have "obj_ok s' i = obj_ok s i" for i by (simp add: obj_ok_def E f)
  then have "objs_ok s'" using P(3) Z z E unfolding objs_ok_def by (metis finite_insert insert_iff)
  moreover have "ports_ok s'" using P(4) Z U unfolding ports_ok_def l E(2) by (metis E(1) insertI2)
  moreover have "mapped_ok s'" using P(5) nr unfolding mapped_ok_def r E(3,4) f by (metis E(1) r)
  moreover have "refs_ok s'" using P(6) Z unfolding refs_ok_def r by (metis E(1) insert_iff r nr)
  ultimately show I': "pg_inv e s'" using m P(7) by (simp add: pg_inv_def E)
  have "contents content e s' y = contents content e s y" if "y \<noteq> z" for y
    by (rule ext) (simp add: contents_def T E f that)
  then show "leaves content e X s s'" using I' U by (auto simp: leaves_def backed_def object_view_def l E)
qed

text \<open>An object gets a port.\<close>

definition enrolled :: "ptr \<Rightarrow> nat \<Rightarrow> ('d, 'f) pg_state \<Rightarrow> ('d, 'f) pg_state \<Rightarrow> bool" where
  "enrolled z c s s' \<longleftrightarrow> z \<in> zheap s \<and> inode_pager_lookup c s = 0 \<and> zheap s' = zheap s \<and> (\<forall>y. y \<noteq> z \<longrightarrow> istr s' y = istr s y)
     \<and> core (istr s' z) = (core (istr s z))\<lparr>is_pager := c\<rparr> \<and> \<not> free_me (istr s' z)
     \<and> inode_port_hashtable s' = inode_port_hashtable (inode_port_hash_insert c z s)
     \<and> pager_files s' = pager_files s \<and> pager_file_count s' = pager_file_count s \<and> pfile s' = pfile s \<and> karr s' = karr s \<and> kheap s' = kheap s
     \<and> istruct_queue s' = istruct_queue s \<and> use_paging_file s' = use_paging_file s \<and> paging_file_initialized s' = paging_file_initialized s \<and> disk s' = disk s
     \<and> (if swapfile (istr s z) then i_pager s' = i_pager s
        else i_pager s (ip_of (is_inode (istr s z))) = 0 \<and> (\<forall>p\<in>set (pager_files s). pf_ip (pfile s p) \<noteq> ip_of (is_inode (istr s z)))
          \<and> (\<exists>g. g \<noteq> 0 \<and> i_pager s' = (i_pager s)(ip_of (is_inode (istr s z)) := g)))"

lemma is_pager_map:
  fixes i :: istruct and p :: nat
  defines "j \<equiv> i\<lparr>is_pager := p\<rparr>"
  shows "slot j = slot i" "capacity j = capacity i" "arrays j = arrays i" "map_ok j = map_ok i" "obj_ok s j = obj_ok s i"
proof -
  have I: "INDIRECT_PAGEMAP j = INDIRECT_PAGEMAP i" by (simp add: INDIRECT_PAGEMAP_def j_def)
  have f: "pmap j = pmap i" "is_size j = is_size i" by (simp_all add: j_def)
  have t: "table j = table i" by (intro ext) (simp add: table_def I f)
  then have ts: "tables j = tables i" by (intro ext) (simp add: tables_def f)
  show "slot j = slot i" by (intro ext) (simp add: slot_def Let_def I f)
  show "capacity j = capacity i" by (simp add: capacity_def I f)
  show a: "arrays j = arrays i" by (intro ext) (simp add: arrays_def f ts)
  show "map_ok j = map_ok i" by (intro ext) (simp add: map_ok_def a ts t f)
  show "obj_ok s j = obj_ok s i" by (simp add: obj_ok_def j_def)
qed

lemma enrolled_inv:
  assumes I: "pg_inv e s" and a: "enrolled z c s s'" and nr: "\<not> registered s z"
  shows "pg_inv e s'" "inode_pager_lookup n s' = (if n = c then z else inode_pager_lookup n s)" "leaves content e X s s'" "contents content e s' = contents content e s"
proof -
  note P = pg_invD [OF I]
  have z: "z \<in> zheap s" "inode_pager_lookup c s = 0" using a by (simp_all add: enrolled_def)
  have z0: "z \<noteq> 0" using P(3) z(1) unfolding objs_ok_def by metis
  have E: "zheap s' = zheap s" "\<And>y. y \<noteq> z \<Longrightarrow> istr s' y = istr s y" "core (istr s' z) = (core (istr s z))\<lparr>is_pager := c\<rparr>" "\<not> free_me (istr s' z)"
     "inode_port_hashtable s' = inode_port_hashtable (inode_port_hash_insert c z s)" "pager_files s' = pager_files s" "pager_file_count s' = pager_file_count s"
     "pfile s' = pfile s" "karr s' = karr s" "kheap s' = kheap s" "istruct_queue s' = istruct_queue s" "use_paging_file s' = use_paging_file s"
     "paging_file_initialized s' = paging_file_initialized s" "disk s' = disk s"
    using a by (simp_all add: enrolled_def)
  have t: "table_ok (inode_port_hashtable s)" using P(4) by (simp add: ports_ok_def)
  note L = lookup_insert [OF t z(2) z0]
  show l: "inode_pager_lookup n s' = (if n = c then z else inode_pager_lookup n s)" for n
    using L(1) [of n] by (simp add: inode_pager_lookup_def E(5))
  have c0: "core ((istr s' z)\<lparr>is_pager := is_pager (istr s z)\<rparr>) = core (istr s z)"
  proof -
    have "core ((istr s' z)\<lparr>is_pager := is_pager (istr s z)\<rparr>) = (core (istr s' z))\<lparr>is_pager := is_pager (istr s z)\<rparr>" by (simp add: core_def)
    then show ?thesis unfolding E(3) by (simp add: core_def)
  qed
  define t' where "t' = s'\<lparr>istr := (istr s')(z := (istr s' z)\<lparr>is_pager := is_pager (istr s z)\<rparr>)\<rparr>"
  have S: "same_objs s t'" using E c0 by (simp add: same_objs_def t'_def)
  have ip: "is_pager (istr s' z) = c" using arg_cong [OF E(3), of is_pager] by (simp add: core_def)
  have sw: "swap s' = swap t'" by (rule ext) (auto simp: swap_def t'_def)
  have sl: "slot (istr s' y) = slot (istr t' y)" "capacity (istr s' y) = capacity (istr t' y)" "arrays (istr s' y) = arrays (istr t' y)"
      "map_ok (istr s' y) = map_ok (istr t' y)" "obj_ok s' (istr s' y) = obj_ok t' (istr t' y)" "pf_info (istr s' y) = pf_info (istr t' y)"
      "swapfile (istr s' y) = swapfile (istr t' y)" "is_inode (istr s' y) = is_inode (istr t' y)" "is_size (istr s' y) = is_size (istr t' y)" for y
    by (simp_all add: t'_def is_pager_map) (simp add: obj_ok_def)
  have f: "karr s' = karr t'" "kheap s' = kheap t'" "zheap s' = zheap t'" "pager_files s' = pager_files t'" "pfile s' = pfile t'" "istruct_queue s' = istruct_queue t'"
    "pager_file_count s' = pager_file_count t'" "paging_file_initialized s' = paging_file_initialized t'" "disk s' = disk t'" by (simp_all add: t'_def)
  have T: "pagetab s' = pagetab t'" by (intro ext) (simp only: pagetab_def sw sl f)
  have ct: "contents content e s' = contents content e t'" by (intro ext) (simp only: contents_def T sl f)
  have dt: "disk t' = disk s" using E by (simp add: t'_def)
  show C: "contents content e s' = contents content e s" unfolding ct by (rule contents_same [OF S dt])
  have core': "core (istr t' y) = core (istr s y)" for y using S by (simp add: same_objs_def)
  note D = coreD [OF core']
  have r: "registered s' y \<longleftrightarrow> registered s y \<or> y = z" for y
  proof (cases "y = z")
    case True
    then show ?thesis using z0 by (simp add: registered_def l ip)
  next
    case False
    moreover have "is_pager (istr s y) \<noteq> c" if "registered s y" using that z(2) by (auto simp: registered_def)
    ultimately show ?thesis by (auto simp: registered_def l E(2))
  qed
  have "files_ok e s'" using same_parts(1) [OF S P(1)] unfolding files_ok_def T sl f .
  moreover have "maps_ok s'" using same_parts(2) [OF S P(2)] unfolding maps_ok_def sw sl f .
  moreover have "objs_ok s'" using same_parts(3) [OF S P(3)] unfolding objs_ok_def sl f .
  moreover have "ports_ok s'" unfolding ports_ok_def E(1)
  proof (intro conjI allI impI)
    show "table_ok (inode_port_hashtable s')" using L(2) by (simp add: E(5))
    fix n assume n: "inode_pager_lookup n s' \<noteq> 0"
    have "inode_pager_lookup n s \<noteq> z" using unregistered_lookup [OF I nr z0] .
    then show "inode_pager_lookup n s' \<in> zheap s" "is_pager (istr s' (inode_pager_lookup n s')) = n"
      using n P(4) z(1) ip E(2) by (auto simp: l ports_ok_def split: if_splits)
  qed
  moreover have "refs_ok s'" using P(6) E(2,4) unfolding refs_ok_def r E(1) by metis
  moreover have "mapped_ok s'"
  proof (cases "swapfile (istr s z)")
    case True
    then have "i_pager s' = i_pager s" using a by (simp add: enrolled_def)
    then show ?thesis using P(5) True unfolding mapped_ok_def r sl f(4,5) D E(6,8) by (metis E(6,8) f(4,5))
  next
    case False
    let ?ip = "ip_of (is_inode (istr s z))"
    obtain g where g: "g \<noteq> 0" "i_pager s' = (i_pager s)(?ip := g)" "i_pager s ?ip = 0" "\<forall>p\<in>set (pager_files s). pf_ip (pfile s p) \<noteq> ?ip"
      using a False by (auto simp: enrolled_def)
    have o: "ip_of (is_inode (istr s y)) \<noteq> ?ip" if "registered s y" "\<not> swapfile (istr s y)" for y
      using P(5) that g(3) unfolding mapped_ok_def by metis
    have m: "i_pager s (ip_of (is_inode (istr s y))) \<noteq> 0" "\<forall>p\<in>set (pager_files s). pf_ip (pfile s p) \<noteq> ip_of (is_inode (istr s y))"
      if "registered s y" "\<not> swapfile (istr s y)" for y using P(5) that unfolding mapped_ok_def by blast+
    have i: "y = y'" if "registered s y" "registered s y'" "\<not> swapfile (istr s y)" "\<not> swapfile (istr s y')" "ip_of (is_inode (istr s y)) = ip_of (is_inode (istr s y'))" for y y'
      using P(5) that unfolding mapped_ok_def by blast
    show ?thesis unfolding mapped_ok_def r sl f(4,5) D E(6,8) [symmetric] g(2)
      using m i g by (auto simp: f(4,5) [symmetric] E(6,8) dest: o o [symmetric])
  qed
  ultimately show I': "pg_inv e s'" using P(7) by (simp add: pg_inv_def E)
  show "leaves content e X s s'" using I' C z(2) by (auto simp: leaves_def backed_def object_view_def l sl D)
qed

end
