(* ===== verification/Pager_Events.thy ===== *)
theory Pager_Events
  imports Pager_Create
begin

text \<open>
  Every message of the kernel to the pager keeps the invariant and changes no object but the one it
  is for.
\<close>

section \<open>New structures\<close>

definition pf_better :: "bool \<Rightarrow> ('d, 'f) pg_state \<Rightarrow> ptr \<Rightarrow> nat \<times> ptr \<Rightarrow> nat \<times> ptr" where
  "pf_better b s p m = (if (b \<longrightarrow> pf_prefer (pfile s p)) \<and> pf_pfree (pfile s p) > fst m then (pf_pfree (pfile s p), p) else m)"

lemma pf_pass_simps [simp]: "pf_pass b s [] m = m" "pf_pass b s (p # ps) m = pf_pass b s ps (pf_better b s p m)"
  by (auto simp: pf_pass_def pf_better_def split: prod.splits)

lemma pf_pass_in: "snd m \<in> insert 0 S \<Longrightarrow> set ps \<subseteq> S \<Longrightarrow> snd (pf_pass b s ps m) \<in> insert 0 S"
proof (induction ps arbitrary: m)
  case (Cons p ps)
  then have "snd (pf_better b s p m) \<in> insert 0 S" by (simp add: pf_better_def)
  then show ?case using Cons.IH [of "pf_better b s p m"] Cons.prems by simp
qed simp

lemma pf_passes_in: "snd m \<in> insert 0 (set (pager_files s)) \<Longrightarrow> snd (pf_passes s k m) \<in> insert 0 (set (pager_files s))"
proof (induction s k m rule: pf_passes.induct)
  case (1 s k m)
  have "snd (pf_pass (k < 2) s (pager_files s) m) \<in> insert 0 (set (pager_files s))" by (rule pf_pass_in [OF 1(2)]) simp
  then show ?case using 1 by (subst pf_passes.simps) (auto simp: Let_def)
qed

lemma pf_find_in:
  assumes "files_ok e s" "pf_find s \<noteq> 0" shows "pf_find s \<in> set (pager_files s)"
proof (cases "pager_file_count s > 1")
  case True
  then show ?thesis using pf_passes_in [of "(0, 0)" s 0] assms(2) by (simp add: pf_find_def)
next
  case False
  then have "pager_file_count s = 1" using assms(2) by (simp add: pf_find_def split: if_splits)
  then have "length (pager_files s) = 1" using assms(1) by (simp add: files_ok_def)
  then show ?thesis using False \<open>pager_file_count s = 1\<close> by (cases "pager_files s") (simp_all add: pf_find_def)
qed

lemma fresh_map:
  assumes i: "pmap i = a" and A: "A a = (if INDIRECT_PAGEMAP i then fill (INDIRECT_PAGEMAP_ENTRIES (is_size i)) 0 else fill (is_size i) NOPAGE) B"
  shows "arrays i A = {a}" "n < capacity i \<Longrightarrow> slot i A n = None" "a \<noteq> 0 \<Longrightarrow> a \<in> K \<Longrightarrow> map_ok i A K"
proof -
  have t: "table i A k = 0" if "k < INDIRECT_PAGEMAP_ENTRIES (is_size i)" for k using that by (simp add: table_def i A fill_def)
  then have ts: "tables i A = {}" by (auto simp: tables_def)
  then show ar: "arrays i A = {a}" by (simp add: arrays_def i)
  show "map_ok i A K" if "a \<noteq> 0" "a \<in> K" using that t unfolding map_ok_def ar ts by auto
  show "slot i A n = None" if n: "n < capacity i"
  proof (cases "INDIRECT_PAGEMAP i")
    case True
    then show ?thesis using index_bound [OF n True] by (simp add: slot_def i A fill_def)
  next
    case False
    then show ?thesis using n by (simp add: slot_def capacity_def i A fill_def)
  qed
qed

lemma pf_pager_create_adopted:
  assumes I: "pg_inv e s" and e: "alloc_ok e" and p: "p \<in> set (pager_files s)"
  shows "pf_pager_create e p sz s = (0, s) \<or> (\<exists>z r s'. pf_pager_create e p sz s = (r, s') \<and> adopted z s s'
     \<and> (r = 0 \<or> r = z \<and> z \<in> zheap s' \<and> swapfile (istr s' z) \<and> is_size (istr s' z) = atop e sz))"
proof (cases "zalloc e (zheap s) = 0")
  case True
  then show ?thesis by (simp add: pf_pager_create_def)
next
  case False
  note P = pg_invD [OF I]
  define z where "z = zalloc e (zheap s)"
  have z: "z \<noteq> 0" "z \<notin> zheap s" using False alloc_okD(2) [OF e] P(3) by (auto simp: z_def objs_ok_def)
  have fk: "finite (kheap s)" by (rule maps_okD(1) [OF P(2)])
  define s1 where "s1 = upd_is z (\<lambda>i. i\<lparr>pager_global := 0, pager_request_global := 0, is_pager := 0, is_pager_request := 0, is_size := atop e sz\<rparr>) s"
  define ind where "ind = INDIRECT_PAGEMAP (istr s1 z)"
  define a where "a = kalloc e (kheap s1) (if ind then INDIRECT_PAGEMAP_ENTRIES (is_size (istr s1 z)) * 4 else is_size (istr s1 z) * 4)"
  have k1: "kheap s1 = kheap s" "is_size (istr s1 z) = atop e sz" by (simp_all add: s1_def upd_is_def)
  show ?thesis
  proof (cases "a = 0")
    case True
    have "adopted z s s1" using z fk by (simp add: adopted_def s1_def upd_is_def swap_def) (metis pager_file.surjective pager_file.update_convs(2))
    moreover have "pf_pager_create e p sz s = (0, s1)"
      using True z unfolding pf_pager_create_def Let_def z_def [symmetric] s1_def [symmetric] ind_def [symmetric] a_def [symmetric] by simp
    ultimately show ?thesis by blast
  next
    case False
    define s2 where "s2 = s1\<lparr>zheap := insert z (zheap s1), kheap := insert a (kheap s1),
         karr := (karr s1)(a := (if ind then fill (INDIRECT_PAGEMAP_ENTRIES (is_size (istr s1 z))) 0 else fill (is_size (istr s1 z)) NOPAGE) (karr s1 a))\<rparr>"
    define s3 where "s3 = upd_is z (\<lambda>i. i\<lparr>pmap := a, client_count := 0, dead_references := 0, free_me := False, use_count := 1, paging := True, swapfile := True,
           is_inode := Ip (pf_ip (pfile s2 p)), is_state := IS_IN_MEMORY, identity := u_identity e, queued := False, is_errors := 0,
           paging_shift := 0, pf_info := p\<rparr>) s2"
    define s4 where "s4 = upd_pf p (\<lambda>f. f\<lparr>pf_count := pf_count f + 1\<rparr>) (call (Hold_identity (u_identity e)) s3)"
    have c: "pf_pager_create e p sz s = (z, istruct_put e z s4)"
      using False z unfolding pf_pager_create_def Let_def z_def [symmetric] s1_def [symmetric] ind_def [symmetric] a_def [symmetric]
        s2_def [symmetric] s3_def [symmetric] s4_def [symmetric] by simp
    have a: "a \<notin> kheap s" using alloc_okD(1) [OF e fk] False by (simp add: a_def k1)
    have o4: "obj_ok s4 (istr s4 z)" "istruct_queue s4 = []"
      using p P(3) by (simp_all add: obj_ok_def s4_def s3_def s2_def s1_def upd_pf_def upd_is_def call_def objs_ok_def)
    define s5 where "s5 = istruct_put e z s4"
    have s5: "s5 = upd_is z (\<lambda>i. i\<lparr>use_count := use_count i - 1\<rparr>) s4" unfolding s5_def by (rule istruct_put_simple [OF o4])
    have E: "istr s5 y = istr s y" if "y \<noteq> z" for y using that by (simp add: s5 s4_def s3_def s2_def s1_def upd_pf_def upd_is_def call_def)
    have E': "zheap s5 = insert z (zheap s)" "kheap s5 = insert a (kheap s)" "pager_files s5 = pager_files s" "disk s5 = disk s" "i_pager s5 = i_pager s"
      "inode_port_hashtable s5 = inode_port_hashtable s" "pager_file_count s5 = pager_file_count s" "istruct_queue s5 = istruct_queue s"
      "use_paging_file s5 = use_paging_file s" "paging_file_initialized s5 = paging_file_initialized s"
      "pmap (istr s5 z) = a" "is_size (istr s5 z) = atop e sz" "swapfile (istr s5 z)" "\<not> free_me (istr s5 z)"
      "pfile s5 = (pfile s)(p := (pfile s p)\<lparr>pf_count := pf_count (pfile s p) + 1\<rparr>)"
      by (simp_all add: s5 s4_def s3_def s2_def s1_def upd_pf_def upd_is_def call_def)
    have obj: "obj_ok s5 (istr s5 z)" using o4(1) by (simp add: s5 obj_ok_def upd_is_def)
    have pc: "\<exists>c. pfile s5 q = (pfile s q)\<lparr>pf_count := c\<rparr>" for q
      unfolding E'(15) by (cases "q = p") (auto intro: exI [of _ "pf_count (pfile s q)"])
    have ia: "INDIRECT_PAGEMAP (istr s5 z) = ind" by (simp add: INDIRECT_PAGEMAP_def E' ind_def k1)
    have ka: "karr s5 b = (if b = a then (if ind then fill (INDIRECT_PAGEMAP_ENTRIES (atop e sz)) 0 else fill (atop e sz) NOPAGE) (karr s a) else karr s b)" for b
      by (simp add: s5 s4_def s3_def s2_def upd_pf_def upd_is_def call_def k1) (simp add: s1_def upd_is_def)
    note M = fresh_map [of "istr s5 z" a "karr s5" "karr s a", OF E'(11)]
    have M1: "arrays (istr s5 z) (karr s5) = {a}" "\<forall>n < capacity (istr s5 z). slot (istr s5 z) (karr s5) n = None"
      and mo: "map_ok (istr s5 z) (karr s5) (kheap s5)"
      using M False by (simp_all add: ia E' ka)
    have "adopted z s s5" unfolding adopted_def
      using z E E' obj pc fk a M1 mo ka by auto
    then show ?thesis using c E' unfolding s5_def [symmetric] by blast
  qed
qed

section \<open>The first paging file\<close>

text \<open>A state without paging files in which at most one new, empty file is entered.\<close>

lemma first_file_inv:
  assumes I: "pg_inv e s" and n: "pager_files s = []"
    and E: "istr s' = istr s" "zheap s' = zheap s" "inode_port_hashtable s' = inode_port_hashtable s" "i_pager s' = i_pager s"
      "istruct_queue s' = istruct_queue s" "use_paging_file s' = use_paging_file s" "finite (kheap s')" "paging_file_initialized s'"
    and F: "pager_files s' = [] \<and> pager_file_count s' = pager_file_count s \<or> (\<exists>p. pager_files s' = [p] \<and> pager_file_count s' = pager_file_count s + 1 \<and> p \<noteq> 0
        \<and> pf_used (pfile s' p) = {} \<and> pf_ok (pfile s' p) \<and> pf_npgs (pfile s' p) * 2 ^ page_shift e \<le> 2 ^ 32 \<and> i_pager s (pf_ip (pfile s' p)) = 0)"
  shows "leaves content e X s s'" "inode_pager_lookup m s' = inode_pager_lookup m s"
proof -
  note P = pg_invD [OF I]
  have ns: "\<not> swap s z" for z using swap_file(1) [OF I, of z] n by auto
  have ns': "\<not> swap s' z" for z using ns [of z] by (simp add: swap_def E)
  have T: "pagetab s' z m = None" for z m by (simp add: pagetab_def ns')
  show l: "inode_pager_lookup m s' = inode_pager_lookup m s" for m by (simp add: inode_pager_lookup_def E)
  have r: "registered s' = registered s" by (rule ext) (simp add: registered_def l E)
  have nf: "pager_file_count s = 0" using P(1) n by (simp add: files_ok_def)
  have "blocks (pagetab s') (\<lambda>z. pf_info (istr s' z) = p) {}" for p by (rule blocks_empty) (rule T)
  then have f: "files_ok e s'" using F nf E(8) by (auto simp: files_ok_def)
  have z: "\<not> swapfile (istr s z)" if "z \<in> zheap s" for z using ns [of z] that by (simp add: swap_def)
  have "maps_ok s'" using E(7) ns' by (simp add: maps_ok_def)
  moreover have "objs_ok s'" using P(3) z E by (simp add: objs_ok_def obj_ok_def)
  moreover have "ports_ok s'" using P(4) by (simp add: ports_ok_def l E)
  moreover have "mapped_ok s'"
    using P(5) F unfolding mapped_ok_def r E(1,4) by auto
  moreover have "refs_ok s'" using P(6) by (simp add: refs_ok_def r E)
  ultimately have "pg_inv e s'" using f P(7) by (simp add: pg_inv_def E)
  moreover have "\<not> backed s c" for c using lookup_registered(2) [OF I refl] z by (auto simp: backed_def)
  ultimately show "leaves content e X s s'" by (simp add: leaves_def)
qed

lemma atop_bound: "atop e x * 2 ^ page_shift e \<le> 2 ^ 32"
proof -
  have "atop e x * 2 ^ page_shift e \<le> u32 x" by (simp add: atop_def)
  then show ?thesis using u32_less [of x] by linarith
qed

lemma enter_file_entered:
  assumes "enter_file e p sz s = Some (q, s')"
  shows "pager_files s' = pager_files s @ [p]" "pager_file_count s' = pager_file_count s + 1" "istr s' = istr s" "zheap s' = zheap s"
    "inode_port_hashtable s' = inode_port_hashtable s" "i_pager s' = i_pager s" "istruct_queue s' = istruct_queue s" "use_paging_file s' = use_paging_file s"
    "finite (kheap s) \<Longrightarrow> finite (kheap s')" "pf_used (pfile s' p) = {}" "pf_ok (pfile s' p)" "pf_npgs (pfile s' p) * 2 ^ page_shift e \<le> 2 ^ 32"
    "pf_ip (pfile s' p) = pf_ip (pfile s p)"
proof -
  let ?n = "atop e (nat (sz mod 2 ^ 32))"
  obtain b where s': "s' = upd_pf p (\<lambda>f. f\<lparr>pf_pfree := ?n, pf_npgs := ?n, pf_bmap := fold (\<lambda>i a. clrbit a i) [0..<?n] (junk_map e), pf_prefer := False\<rparr>)
       (s\<lparr>kheap := insert b (kheap s), pager_files := pager_files s @ [p], pager_file_count := pager_file_count s + 1\<rparr>)"
    using assms unfolding enter_file_def Let_def by (metis option.discI option.inject prod.inject)
  have u: "pf_used (pfile s' p) = {}" by (simp add: s' upd_pf_def pf_used_def)
  show "pf_ok (pfile s' p)" unfolding pf_ok_def u by (simp add: s' upd_pf_def)
  show "pf_npgs (pfile s' p) * 2 ^ page_shift e \<le> 2 ^ 32" using atop_bound [of e] by (simp add: s' upd_pf_def)
  show "pf_used (pfile s' p) = {}" by (rule u)
  show "pager_files s' = pager_files s @ [p]" "pager_file_count s' = pager_file_count s + 1" "istr s' = istr s" "zheap s' = zheap s"
    "inode_port_hashtable s' = inode_port_hashtable s" "i_pager s' = i_pager s" "istruct_queue s' = istruct_queue s" "use_paging_file s' = use_paging_file s"
    "finite (kheap s) \<Longrightarrow> finite (kheap s')" "pf_ip (pfile s' p) = pf_ip (pfile s p)" by (simp_all add: s' upd_pf_def)
qed

lemma pf_file_init_refused:
  "i_pager s ip \<noteq> 0 \<Longrightarrow> pf_file_init e ip sz s = Some (0, s)"
  "i_pager s ip = 0 \<Longrightarrow> vop_setattr e ip (max sz (minpagersize e)) (disk s) = (err, d) \<Longrightarrow> err \<noteq> 0 \<Longrightarrow> pf_file_init e ip sz s = Some (0, s\<lparr>disk := d\<rparr>)"
  by (simp_all add: pf_file_init_def)

lemma pf_default_init_leaves:
  assumes I: "pg_inv e s" and n: "\<not> paging_file_initialized s" and d: "pf_default_init e s = Some s'"
  shows "leaves content e X s (s'\<lparr>paging_file_initialized := True\<rparr>)" "inode_pager_lookup m (s'\<lparr>paging_file_initialized := True\<rparr>) = inode_pager_lookup m s"
proof -
  have f: "pager_files s = []" "finite (kheap s)" using pg_invD(1,2) [OF I] n by (simp_all add: files_ok_def maps_ok_def)
  have k: "istr s' = istr s \<and> zheap s' = zheap s \<and> inode_port_hashtable s' = inode_port_hashtable s \<and> i_pager s' = i_pager s
      \<and> istruct_queue s' = istruct_queue s \<and> use_paging_file s' = use_paging_file s \<and> finite (kheap s')
      \<and> (pager_files s' = [] \<and> pager_file_count s' = pager_file_count s \<or> (\<exists>p. pager_files s' = [p] \<and> pager_file_count s' = pager_file_count s + 1 \<and> p \<noteq> 0
        \<and> pf_used (pfile s' p) = {} \<and> pf_ok (pfile s' p) \<and> pf_npgs (pfile s' p) * 2 ^ page_shift e \<le> 2 ^ 32 \<and> i_pager s (pf_ip (pfile s' p)) = 0))"
  proof (cases "default_inode e (disk s)")
    case None
    then show ?thesis using d f by (simp add: pf_default_init_def)
  next
    case (Some ip)
    then obtain q t where t: "pf_file_init e ip 0 s = Some (q, t)" and s': "s' = call (Release_vnode ip) t"
      using d by (auto simp: pf_default_init_def split: option.splits)
    obtain err dd where v: "vop_setattr e ip (max 0 (minpagersize e)) (disk s) = (err, dd)" by fastforce
    obtain er bl bs where w: "vfs_statfs e ip dd = (er, bl, bs)" by (metis surj_pair)
    show ?thesis
    proof (cases "i_pager s ip \<noteq> 0 \<or> err \<noteq> 0")
      case True
      then have "t = s \<or> t = s\<lparr>disk := dd\<rparr>" using t pf_file_init_refused(1) [of s ip e 0] pf_file_init_refused(2) [OF _ v]
        by (metis option.inject prod.inject)
      then show ?thesis using f by (auto simp: s' call_def)
    next
      case False
      define s1 where "s1 = s\<lparr>disk := dd, inode_size := (inode_size s)(ip := 0)\<rparr>"
      define p where "p = kalloc e (kheap s1) 36"
      define s2 where "s2 = upd_pf p (\<lambda>f. f\<lparr>pf_ip := ip, pf_count := 0\<rparr>) (call (Incr_inode ip) (s1\<lparr>kheap := insert p (kheap s1)\<rparr>))"
      have t2: "p \<noteq> 0" "(if er \<noteq> 0 then Some (0, s2\<lparr>kheap := kheap s2 - {p}\<rparr>) else enter_file e p (s32 (bl * bs)) s2) = Some (q, t)"
        using t v w False by (auto simp: pf_file_init_def Let_def s2_def p_def s1_def upd_pf_def call_def split: if_splits)
      have E2: "istr s2 = istr s" "zheap s2 = zheap s" "inode_port_hashtable s2 = inode_port_hashtable s" "i_pager s2 = i_pager s"
          "istruct_queue s2 = istruct_queue s" "use_paging_file s2 = use_paging_file s" "finite (kheap s2)" "pager_files s2 = []"
          "pager_file_count s2 = pager_file_count s" "pf_ip (pfile s2 p) = ip"
        using f by (simp_all add: s2_def s1_def upd_pf_def call_def)
      show ?thesis
      proof (cases "er \<noteq> 0")
        case True
        then have "t = s2\<lparr>kheap := kheap s2 - {p}\<rparr>" using t2(2) by simp
        then show ?thesis using E2 by (simp add: s' call_def)
      next
        case er: False
        then have "enter_file e p (s32 (bl * bs)) s2 = Some (q, t)" using t2(2) by simp
        note N = enter_file_entered [OF this]
        show ?thesis using N E2 t2(1) False by (simp add: s' call_def)
      qed
    qed
  qed
  let ?t = "s'\<lparr>paging_file_initialized := True\<rparr>"
  have E: "istr ?t = istr s" "zheap ?t = zheap s" "inode_port_hashtable ?t = inode_port_hashtable s" "i_pager ?t = i_pager s"
      "istruct_queue ?t = istruct_queue s" "use_paging_file ?t = use_paging_file s" "finite (kheap ?t)" "paging_file_initialized ?t" using k by simp_all
  have F: "pager_files ?t = [] \<and> pager_file_count ?t = pager_file_count s \<or> (\<exists>p. pager_files ?t = [p] \<and> pager_file_count ?t = pager_file_count s + 1 \<and> p \<noteq> 0
        \<and> pf_used (pfile ?t p) = {} \<and> pf_ok (pfile ?t p) \<and> pf_npgs (pfile ?t p) * 2 ^ page_shift e \<le> 2 ^ 32 \<and> i_pager s (pf_ip (pfile ?t p)) = 0)"
    using k by simp
  show "leaves content e X s ?t" by (rule first_file_inv(1) [OF I f(1) E F])
  show "inode_pager_lookup m ?t = inode_pager_lookup m s" by (rule first_file_inv(2) [OF I f(1) E F])
qed

end
