(* ===== verification/Pager_Steps.thy ===== *)
theory Pager_Steps
  imports Pager_Events
begin

text \<open>
  The steps of the pager: creating, initialising and releasing objects, and the whole set of
  messages.
\<close>

section \<open>Creating objects\<close>

lemma leaves_inv: "leaves content e X s s' \<Longrightarrow> pg_inv e s'"
  by (simp add: leaves_def)

lemma enroll_new:
  fixes g r m :: nat
  assumes I: "pg_inv e s" and a: "adopted z s s1" "z \<in> zheap s1" "swapfile (istr s1 z)" and c: "inode_pager_lookup c s = 0"
  defines "s2 \<equiv> upd_is z (\<lambda>i. i\<lparr>client_count := client_count i + 1, pager_global := g\<rparr>) s1"
  defines "s3 \<equiv> inode_port_hash_insert c z (upd_is z (\<lambda>i. i\<lparr>is_pager := c, is_pager_request := r, pager_request_global := 0, is_pager_name := m\<rparr>) s2)"
  shows "leaves content e X s (call (Port_set_add c) s3)" "inode_pager_lookup c (call (Port_set_add c) s3) = z"
    "is_size (istr (call (Port_set_add c) s3) z) = is_size (istr s1 z)" "swapfile (istr (call (Port_set_add c) s3) z)"
    "contents content e (call (Port_set_add c) s3) z = (\<lambda>n. None)"
proof -
  note A = adopted_inv [OF I a(1)]
  let ?t = "call (Port_set_add c) s3"
  have zh: "zheap s1 = insert z (zheap s)" "z \<notin> zheap s" "\<not> free_me (istr s1 z)" using a(1,2) by (auto simp: adopted_def)
  have e: "enrolled z c s1 ?t"
    using a(2,3) zh(3) c A(4) [of c]
    by (simp add: enrolled_def s3_def s2_def upd_is_def call_def inode_port_hash_insert_def Let_def core_def)
  note N = enrolled_inv [OF A(1) e A(3)]
  show "leaves content e X s ?t" by (rule leaves_seq [OF A(5) N(3)])
  show "inode_pager_lookup c ?t = z" using N(2) by simp
  show "is_size (istr ?t z) = is_size (istr s1 z)" "swapfile (istr ?t z)" using a(3)
    by (simp_all add: s3_def s2_def upd_is_def call_def inode_port_hash_insert_def Let_def)
  show "contents content e ?t z = (\<lambda>n. None)" unfolding N(4)
    using zh(2) by (intro ext) (simp add: contents_def A(2) pagetab_def swap_def)
qed

lemma create_leaves:
  assumes I: "pg_inv e s" and e: "alloc_ok e" and c: "inode_pager_lookup c s = 0" and d: "paging_file_initialized s \<or> pf_default_init e s \<noteq> None"
  shows "\<exists>r s'. inode_pager_create_pager e (inode_pager_default s) c sz req nam (page_size e) s = Some (r, s') \<and> leaves content e X s s'
    \<and> (r = KERN_SUCCESS \<longrightarrow> backed s' c \<and> object_view content e s' c = (atop e sz, \<lambda>n. None)) \<and> r \<in> {KERN_SUCCESS, KERN_RESOURCE_SHORTAGE}"
proof -
  have u: "use_paging_file s" using pg_invD(7) [OF I] .
  obtain s0 where s0: "(if paging_file_initialized s then Some s else map_option (\<lambda>s. s\<lparr>paging_file_initialized := True\<rparr>) (pf_default_init e s)) = Some s0"
    "leaves content e X s s0" "inode_pager_lookup c s0 = 0"
  proof (cases "paging_file_initialized s")
    case True
    then show ?thesis using that [of s] leaves_refl [OF I] c by simp
  next
    case False
    then obtain t where "pf_default_init e s = Some t" using d by blast
    then show ?thesis using that pf_default_init_leaves [OF I False] False c by simp
  qed
  note I0 = leaves_inv [OF s0(2)]
  have pa: "pf_alloc e sz s0 = (0, s0) \<or> (\<exists>z r s'. pf_alloc e sz s0 = (r, s') \<and> adopted z s0 s'
     \<and> (r = 0 \<or> r = z \<and> z \<in> zheap s' \<and> swapfile (istr s' z) \<and> is_size (istr s' z) = atop e sz))"
    using pf_pager_create_adopted [OF I0 e pf_find_in [OF pg_invD(1) [OF I0]]] by (cases "pf_find s0 = 0") (simp_all add: pf_alloc_def)
  obtain z1 s1 where p1: "pf_alloc e sz s0 = (z1, s1)" by fastforce
  note C = s0(1) p1 u
  show ?thesis
  proof (cases "z1 = 0")
    case True
    then have l: "leaves content e X s0 s1" using pa p1 leaves_refl [OF I0] adopted_inv(5) [OF I0] by (metis prod.inject)
    have "inode_pager_create_pager e (inode_pager_default s) c sz req nam (page_size e) s = Some (KERN_RESOURCE_SHORTAGE, s1)"
      using C True by (simp add: inode_pager_create_pager_def Let_def)
    then show ?thesis using leaves_seq [OF s0(2) l] by (intro exI [of _ KERN_RESOURCE_SHORTAGE] exI [of _ s1]) simp
  next
    case False
    then have a: "adopted z1 s0 s1" "z1 \<in> zheap s1" "swapfile (istr s1 z1)" "is_size (istr s1 z1) = atop e sz" using pa p1 by auto
    note N = enroll_new [OF I0 a(1-3) s0(3), where g = "object_copyin e c" and r = req and m = nam]
    let ?t = "call (Port_set_add c) (inode_port_hash_insert c z1 (upd_is z1 (\<lambda>i. i\<lparr>is_pager := c, is_pager_request := req, pager_request_global := 0, is_pager_name := nam\<rparr>)
       (upd_is z1 (\<lambda>i. i\<lparr>client_count := client_count i + 1, pager_global := object_copyin e c\<rparr>) s1)))"
    have "inode_pager_create_pager e (inode_pager_default s) c sz req nam (page_size e) s = Some (KERN_SUCCESS, ?t)"
      using C False by (simp add: inode_pager_create_pager_def Let_def)
    moreover have "backed ?t c" "object_view content e ?t c = (atop e sz, \<lambda>n. None)"
      using N False a(4) by (simp_all add: backed_def object_view_def)
    ultimately show ?thesis using leaves_seq [OF s0(2) N(1)] by blast
  qed
qed

section \<open>Objects for mapped files\<close>

lemma inode_pager_create_adopted:
  assumes I: "pg_inv e s" and e: "alloc_ok e" and z: "zalloc e (zheap s) \<noteq> 0" and ip: "i_pager s ip = 0"
  shows "\<exists>z s'. inode_pager_create e ip False s = (z, s') \<and> adopted z s s' \<and> z \<in> zheap s' \<and> \<not> swapfile (istr s' z) \<and> is_inode (istr s' z) = Ip ip \<and> z \<noteq> 0"
proof -
  note P = pg_invD [OF I]
  define z where "z = zalloc e (zheap s)"
  have zz: "z \<noteq> 0" "z \<notin> zheap s" using z alloc_okD(2) [OF e] P(3) by (auto simp: z_def objs_ok_def)
  define s1 where "s1 = upd_is z (\<lambda>i. i\<lparr>pager_global := 0, pager_request_global := 0, is_pager := 0, is_pager_request := 0,
           client_count := 0, dead_references := 0, free_me := False, use_count := 1, paging := False, swapfile := False,
           is_state := IS_IN_MEMORY, is_inode := Ip ip, identity := u_identity e, queued := False, is_errors := 0, paging_shift := 0\<rparr>)
         (s\<lparr>zheap := insert z (zheap s), i_pager := (i_pager s)(ip := 0), i_pager_request := (i_pager_request s)(ip := 0)\<rparr>)"
  define s2 where "s2 = call (Incr_inode ip) (call (Hold_identity (u_identity e)) s1)"
  have o: "obj_ok s2 (istr s2 z)" "istruct_queue s2 = []" using P(3) by (simp_all add: s2_def s1_def obj_ok_def call_def upd_is_def objs_ok_def)
  have s3: "istruct_put e z s2 = upd_is z (\<lambda>i. i\<lparr>use_count := use_count i - 1\<rparr>) s2" by (rule istruct_put_simple [OF o])
  let ?s3 = "upd_is z (\<lambda>i. i\<lparr>use_count := use_count i - 1\<rparr>) s2"
  have c: "inode_pager_create e ip False s = (z, ?s3)"
    using zz s3 unfolding inode_pager_create_def Let_def z_def [symmetric] by (simp add: s2_def s1_def)
  have "\<exists>c. pfile s p = (pfile s p)\<lparr>pf_count := c\<rparr>" for p by (rule exI [of _ "pf_count (pfile s p)"]) simp
  moreover have "(i_pager s)(ip := 0) = i_pager s" using ip by auto
  ultimately have "adopted z s ?s3"
    using zz maps_okD(1) [OF P(2)] by (simp add: adopted_def s2_def s1_def upd_is_def call_def swap_def obj_ok_def)
  moreover have "z \<in> zheap ?s3" "\<not> swapfile (istr ?s3 z)" "is_inode (istr ?s3 z) = Ip ip" by (simp_all add: s2_def s1_def upd_is_def call_def)
  ultimately show ?thesis using c zz(1) by blast
qed

lemma setup_leaves:
  assumes I: "pg_inv e s" and e: "alloc_ok e" and z: "zalloc e (zheap s) \<noteq> 0" and c: "inode_pager_lookup port s = 0" "object_copyin e port \<noteq> 0"
  shows "\<exists>r s'. inode_pager_setup e ip is_txt cache port s = Some (r, s') \<and> leaves content e X s s'"
proof (cases "ip = 0")
  case True
  then show ?thesis using leaves_refl [OF I] by (simp add: inode_pager_setup_def)
next
  case False
  define s0 where "s0 = (if is_txt then s\<lparr>i_text := (i_text s)(ip := True)\<rparr> else s)"
  have t0: "touches content e {} s s0" unfolding s0_def by (rule touches_same [OF I]) (simp_all add: same_objs_def same_ports_def)
  note I0 = page_use(1) [OF t0] and l0 = touches_leaves_all [OF t0, of X]
  have E0: "zheap s0 = zheap s" "inode_pager_lookup n s0 = inode_pager_lookup n s" for n by (simp_all add: s0_def inode_pager_lookup_def)
  define finish where "finish = (\<lambda>s. if i_pager s ip = 0 then None else Some (i_pager s ip, call (Port_reference (i_pager s ip)) s :: ('a, 'b) pg_state))"
  have fin: "\<exists>r s'. finish t = Some (r, s') \<and> leaves content e X s s'" if "leaves content e X s t" "i_pager t ip \<noteq> 0" for t
    using that leaves_seq [OF that(1) touches_leaves_all [OF touches_call [OF leaves_inv [OF that(1)]]]] by (simp add: finish_def)
  note D = inode_pager_setup_def [of e ip is_txt cache port s, unfolded Let_def, folded s0_def]
  show ?thesis
  proof (cases "i_pager s0 ip = 0")
    case True
    show ?thesis
    proof (cases "\<exists>p\<in>set (pager_files s0). pf_ip (pfile s0 p) = ip")
      case pf: True
      then show ?thesis using True False D l0 by (simp add: s0_def)
    next
      case nf: False
      obtain z1 s1 where N: "inode_pager_create e ip False s0 = (z1, s1)" "adopted z1 s0 s1" "z1 \<in> zheap s1" "\<not> swapfile (istr s1 z1)"
        "is_inode (istr s1 z1) = Ip ip" "z1 \<noteq> 0"
        using inode_pager_create_adopted [OF I0 e _ True] z E0(1) by auto
      note A = adopted_inv [OF I0 N(2)]
      define s2 where "s2 = inode_port_hash_insert port z1 (call (Port_set_add port) (upd_is z1 (\<lambda>i. i\<lparr>is_pager := port\<rparr>) s1))"
      define s3 where "s3 = upd_is z1 (\<lambda>i. i\<lparr>pager_global := object_copyin e port, cached := cache\<rparr>) (s2\<lparr>i_pager := (i_pager s2)(ip := object_copyin e port)\<rparr>)"
      have f: "\<not> free_me (istr s1 z1)" "i_pager s1 = i_pager s0" "pager_files s1 = pager_files s0" "\<forall>p. pf_ip (pfile s1 p) = pf_ip (pfile s0 p)"
      proof -
        show "\<not> free_me (istr s1 z1)" "i_pager s1 = i_pager s0" "pager_files s1 = pager_files s0" using N(2,3) by (auto simp: adopted_def)
        have "\<forall>p. \<exists>c. pfile s1 p = (pfile s0 p)\<lparr>pf_count := c\<rparr>" using N(2) by (simp add: adopted_def)
        then show "\<forall>p. pf_ip (pfile s1 p) = pf_ip (pfile s0 p)" by (metis pager_file.select_convs(1) pager_file.surjective pager_file.update_convs(2))
      qed
      have "enrolled z1 port s1 s3"
        using N(3-5) f c A(4) [of port] E0(2) [of port] True nf
        by (auto simp: enrolled_def s3_def s2_def upd_is_def call_def inode_port_hash_insert_def Let_def core_def intro!: exI [of _ "object_copyin e port"])
      note M = enrolled_inv [OF A(1) this A(3)]
      have "leaves content e X s s3" by (rule leaves_seq [OF l0 leaves_seq [OF A(5) M(3)]])
      moreover have "i_pager s3 ip \<noteq> 0" using c(2) by (simp add: s3_def upd_is_def)
      ultimately obtain r s' where "finish s3 = Some (r, s')" "leaves content e X s s'" using fin by blast
      moreover have "inode_pager_setup e ip is_txt cache port s = finish s3"
        unfolding D using True False nf N(1,6) by (simp add: s2_def [symmetric] s3_def [symmetric]) (simp add: finish_def)
      ultimately show ?thesis by auto
    qed
  next
    case ne: False
    let ?z = "inode_pager_lookup (i_pager s0 ip) s0"
    let ?t = "if ?z \<noteq> 0 \<and> identity (istr s0 ?z) \<noteq> 0 then
         upd_is ?z (\<lambda>i. i\<lparr>identity := u_identity e\<rparr>) (call (Hold_identity (u_identity e)) (call (Free_identity (identity (istr s0 ?z))) s0)) else s0"
    have u: "quiet t (upd_is y (\<lambda>i. i\<lparr>identity := u_identity e\<rparr>) t)" for t :: "('a, 'b) pg_state" and y by (rule quiet_upd) (simp_all add: core_def)
    have q: "quiet s0 ?t" using quiet_trans [OF quiet_trans [OF quiet_call quiet_call] u] by simp
    have i: "i_pager ?t = i_pager s0" by (simp add: upd_is_def call_def)
    have "leaves content e X s ?t" by (rule leaves_seq [OF l0 quiet_leaves [OF I0 q i]])
    then obtain r s' where "finish ?t = Some (r, s')" "leaves content e X s s'" using fin [of ?t] ne i by auto
    moreover have "inode_pager_setup e ip is_txt cache port s = finish ?t" unfolding D using False ne by (simp only: if_False finish_def)
    ultimately show ?thesis by auto
  qed
qed

end
