(* ===== verification/Pager_Runs.thy ===== *)
theory Pager_Runs
  imports Pager_Steps Mach_Events
begin

text \<open>
  Runs of the inode pager: every message keeps the invariant, and what a client sees of an object
  in a paging file changes only by messages for that object.
\<close>

section \<open>Releases and initialisation\<close>

lemma release_begin_leaves:
  assumes I: "pg_inv e s" shows "leaves content e X s (snd (release_begin e object refs s))"
proof -
  let ?z = "inode_pager_lookup_external e object s"
  have t: "leaves content e X t (upd_is ?z (\<lambda>i. i\<lparr>dead_references := dead_references i + 1\<rparr>) t)" if "pg_inv e t" for t
    by (rule touches_leaves_all [OF touches_upd_is [OF that]]) (simp_all add: core_def)
  have c: "leaves content e X t (call x t)" if "pg_inv e t" for t x by (rule touches_leaves_all [OF touches_call [OF that]])
  let ?s1 = "upd_is ?z (\<lambda>i. i\<lparr>dead_references := dead_references i + 1\<rparr>) s"
  define s2 where "s2 = (if ?z \<noteq> 0 then if inode_pager_no_more_senders object (dead_references (istr ?s1 ?z)) refs then call (Send_terminate object) ?s1 else ?s1 else s)"
  have "leaves content e X s ?s1" by (rule t [OF I])
  then have l2: "leaves content e X s s2" unfolding s2_def using leaves_refl [OF I] leaves_seq [OF _ c [OF leaves_inv]] by auto
  moreover have "snd (release_begin e object refs s) = (if object \<noteq> 0 then call (Port_release object) s2 else s2)"
    unfolding release_begin_def Let_def s2_def [symmetric] by simp
  ultimately show ?thesis using leaves_seq [OF l2 c [OF leaves_inv [OF l2]]] by simp
qed

lemma release_end_leaves:
  assumes I: "pg_inv e s" and z: "z = 0 \<or> z \<in> zheap s"
  shows "\<exists>s'. release_end e z s = Some s' \<and> leaves content e X s s'"
proof (cases "z = 0")
  case True
  then show ?thesis using leaves_refl [OF I] by (simp add: release_end_def)
next
  case False
  define s1 where "s1 = upd_is z (\<lambda>i. i\<lparr>dead_references := dead_references i - 1\<rparr>) s"
  have l: "leaves content e X s s1" unfolding s1_def
    by (rule touches_leaves_all [OF touches_upd_is [OF I]]) (simp_all add: core_def)
  note I1 = leaves_inv [OF l]
  have D: "release_end e z s = (if dead_references (istr s1 z) = 0 \<and> free_me (istr s1 z) then free_istruct e z s1 else Some s1)"
    using False by (simp add: release_end_def Let_def s1_def)
  show ?thesis
  proof (cases "dead_references (istr s1 z) = 0 \<and> free_me (istr s1 z)")
    case True
    have zh: "z \<in> zheap s1" using False z by (simp add: s1_def upd_is_def)
    then have "\<not> registered s1 z" using pg_invD(6) [OF I1] True by (simp add: refs_ok_def)
    then show ?thesis using free_leaves [OF I1 zh, of content X] leaves_seq [OF l] True unfolding D by auto
  next
    case False
    then show ?thesis using l unfolding D by auto
  qed
qed

lemma init_leaves:
  assumes I: "pg_inv e s"
  shows "\<exists>r s'. inode_pager_init_pager e c req nam psz s = Some (r, s') \<and> leaves content e X s s'"
proof (cases "psz \<noteq> page_size e \<or> inode_pager_lookup c s = 0")
  case True
  then show ?thesis using leaves_refl [OF I] by (auto simp: inode_pager_init_pager_def Let_def)
next
  case False
  define z where "z = inode_pager_lookup c s"
  have z: "z \<noteq> 0" using False by (simp add: z_def)
  define s1 where "s1 = upd_is z (\<lambda>i. i\<lparr>client_count := client_count i + 1, is_pager_request := req, is_pager_name := nam\<rparr>) s"
  define s2 where "s2 = (if pager_request_global (istr s1 z) \<noteq> 0 then call (Port_release (pager_request_global (istr s1 z))) s1 else s1)"
  define s3 where "s3 = upd_is z (\<lambda>i. i\<lparr>pager_request_global := object_copyin e req\<rparr>) s2"
  have q1: "quiet s s1" unfolding s1_def by (rule quiet_upd) (simp_all add: core_def)
  have q2: "quiet s1 s2" unfolding s2_def by simp
  have q3: "quiet s2 s3" unfolding s3_def by (rule quiet_upd) (simp_all add: core_def)
  have q: "quiet s s3" by (rule quiet_trans [OF quiet_trans [OF q1 q2] q3])
  have ip: "i_pager s3 = i_pager s" by (simp add: s3_def s2_def s1_def upd_is_def call_def)
  have S: "same_objs s s3" "same_ports s s3" using q ip by (simp_all add: quiet_def same_ports_def)
  have t3: "touches content e {} s s3" by (rule touches_same [OF I S]) (use q in \<open>simp_all add: quiet_def\<close>)
  note G = lookup_registered [OF I z_def [symmetric] z]
  have o3: "obj_ok s3 (istr s3 z)" using kept_obj_ok [OF page_use(2) [OF t3]] G(4) by simp
  define s4 where "s4 = upd_is z (\<lambda>i. i\<lparr>use_count := use_count i + 1\<rparr>) s3"
  have g: "istruct_get e z s3 = Some (ip_of (is_inode (istr s3 z)), s4)" unfolding s4_def by (rule istruct_get_simple [OF o3 z])
  have t4: "touches content e {} s s4" unfolding s4_def by (rule touches_trans [OF t3 use_touch [OF page_use(1) [OF t3]]])
  define s5 where "s5 = s4\<lparr>i_pager_request := (i_pager_request s4)(ip_of (is_inode (istr s3 z)) := pager_request_global (istr s4 z))\<rparr>"
  have "touches content e {} s4 s5" unfolding s5_def
    by (rule touches_same [OF page_use(1) [OF t4]]) (simp_all add: same_objs_def same_ports_def)
  then have t5: "touches content e {} s s5" by (rule touches_trans [OF t4])
  have "inode_pager_init_pager e c req nam psz s = Some (KERN_SUCCESS, call (Set_attributes req (cached (istr s4 z))) (istruct_put e z s5))"
    unfolding inode_pager_init_pager_def Let_def z_def [symmetric] s1_def [symmetric] s2_def [symmetric] s3_def [symmetric] g
    using False z by (simp add: z_def [symmetric] s5_def)
  then show ?thesis using touches_leaves_all [OF put_call_touch(1) [OF t5 G(4)]] by auto
qed

section \<open>Messages\<close>

text \<open>
  Which messages the kernel may send in a state: a new port is not in the table, data is for a
  registered object and, for an object in a paging file, consists of whole pages inside it; a
  release ends on a structure that still exists.
\<close>

primrec pg_ok :: "('d, 'f) pg_env \<Rightarrow> ('d, 'f) pg_state \<Rightarrow> 'd pg_event \<Rightarrow> bool" where
  "pg_ok e s (Create new sz req nam) \<longleftrightarrow> inode_pager_lookup new s = 0 \<and> (paging_file_initialized s \<or> pf_default_init e s \<noteq> None)"
| "pg_ok e s (Init pager req nam psz) \<longleftrightarrow> True"
| "pg_ok e s (Terminate pager req nam refs) \<longleftrightarrow> True"
| "pg_ok e s (Request pager reply off) \<longleftrightarrow> True"
| "pg_ok e s Timeout \<longleftrightarrow> True"
| "pg_ok e s (Write pager off dat n) \<longleftrightarrow> inode_pager_lookup pager s \<noteq> 0
     \<and> (swapfile (istr s (inode_pager_lookup pager s)) \<longrightarrow> range_ok e (istr s (inode_pager_lookup pager s)) off (page_count e n))"
| "pg_ok e s (Initialize pager off dat n) \<longleftrightarrow> inode_pager_lookup pager s \<noteq> 0
     \<and> (swapfile (istr s (inode_pager_lookup pager s)) \<longrightarrow> range_ok e (istr s (inode_pager_lookup pager s)) off (page_count e n))"
| "pg_ok e s (Setup ip is_txt cache port) \<longleftrightarrow> inode_pager_lookup port s = 0 \<and> zalloc e (zheap s) \<noteq> 0 \<and> object_copyin e port \<noteq> 0"
| "pg_ok e s (Release_begin object refs) \<longleftrightarrow> True"
| "pg_ok e s (Release_end z) \<longleftrightarrow> z = 0 \<or> z \<in> zheap s"

text \<open>The messages that are for the object of a port.\<close>

primrec pg_own :: "'d pg_event \<Rightarrow> nat \<Rightarrow> bool" where
  "pg_own (Create new sz req nam) c \<longleftrightarrow> False"
| "pg_own (Init pager req nam psz) c \<longleftrightarrow> False"
| "pg_own (Terminate pager req nam refs) c \<longleftrightarrow> c = pager"
| "pg_own (Request pager reply off) c \<longleftrightarrow> False"
| "pg_own Timeout c \<longleftrightarrow> False"
| "pg_own (Write pager off dat n) c \<longleftrightarrow> c = pager"
| "pg_own (Initialize pager off dat n) c \<longleftrightarrow> c = pager"
| "pg_own (Setup ip is_txt cache port) c \<longleftrightarrow> False"
| "pg_own (Release_begin object refs) c \<longleftrightarrow> False"
| "pg_own (Release_end z) c \<longleftrightarrow> False"

definition pager_env_ok :: "('f \<Rightarrow> ptr \<Rightarrow> nat \<Rightarrow> 'd) \<Rightarrow> ('d, 'f) pg_env \<Rightarrow> bool" where
  "pager_env_ok content e \<longleftrightarrow> alloc_ok e \<and> store_ok content e"

lemma pg_step_leaves:
  assumes I: "pg_inv e s" and v: "pager_env_ok content e" and ok: "pg_ok e s ev"
  shows "\<exists>s'. pg_step e ev s = Some s' \<and> leaves content e (Collect (pg_own ev)) s s'"
proof -
  have e: "alloc_ok e" and st: "store_ok content e" using v by (simp_all add: pager_env_ok_def)
  have one: "Collect (pg_own (Terminate p req nam refs)) = {p}" "Collect (pg_own (Write p off dat n)) = {p}" "Collect (pg_own (Initialize p off dat n)) = {p}"
    for p req nam refs off n and dat :: "nat \<Rightarrow> 'a" by auto
  show ?thesis
  proof (cases ev)
    case (Create new sz req nam)
    then obtain r s' where "inode_pager_create_pager e (inode_pager_default s) new sz req nam (page_size e) s = Some (r, s')" "leaves content e (Collect (pg_own ev)) s s'"
      using create_leaves [OF I e, of new sz req nam content "Collect (pg_own ev)"] ok by auto
    then show ?thesis using Create by simp
  next
    case (Init pager req nam psz)
    then show ?thesis using init_leaves [OF I, of pager req nam psz content "Collect (pg_own ev)"] by auto
  next
    case (Terminate pager req nam refs)
    then show ?thesis using terminate_leaves [OF I, of pager req nam refs content] by (simp add: one)
  next
    case (Request pager reply off)
    have "touches content e {} s (s\<lparr>data_request_queue := data_request_queue s @ [\<lparr>dr_pager = pager, dr_reply_to = reply, dr_offset = off\<rparr>], receive_timeout := True\<rparr>)"
      by (rule touches_same [OF I]) (simp_all add: same_objs_def same_ports_def)
    then show ?thesis using Request touches_leaves_all by (simp add: inode_pagein_def)
  next
    case Timeout
    then show ?thesis using timeout_touches [OF I st] touches_leaves_all by (metis pg_step.simps(5))
  next
    case (Write pager off dat n)
    then show ?thesis using data_write_touches [OF I e st refl, of pager off n dat] ok touches_leaves [OF I _ refl, of content pager] by (auto simp: one)
  next
    case (Initialize pager off dat n)
    then show ?thesis using data_initialize_touches [OF I e st refl, of pager off n dat] ok touches_leaves [OF I _ refl, of content pager] by (auto simp: one)
  next
    case (Setup ip is_txt cache port)
    then show ?thesis using setup_leaves [OF I e, of port ip is_txt cache content "Collect (pg_own ev)"] ok by auto
  next
    case (Release_begin object refs)
    then show ?thesis using release_begin_leaves [OF I, of content "Collect (pg_own ev)" object refs] by simp
  next
    case (Release_end z)
    then show ?thesis using release_end_leaves [OF I, of z content "Collect (pg_own ev)"] ok by simp
  qed
qed

section \<open>Runs\<close>

primrec pg_run :: "('d, 'f) pg_env \<Rightarrow> 'd pg_event list \<Rightarrow> ('d, 'f) pg_state \<Rightarrow> ('d, 'f) pg_state option" where
  "pg_run e [] s = Some s"
| "pg_run e (v # vs) s = Option.bind (pg_step e v s) (pg_run e vs)"

primrec pg_good :: "('d, 'f) pg_env \<Rightarrow> 'd pg_event list \<Rightarrow> ('d, 'f) pg_state \<Rightarrow> bool" where
  "pg_good e [] s \<longleftrightarrow> True"
| "pg_good e (v # vs) s \<longleftrightarrow> pg_ok e s v \<and> (case pg_step e v s of None \<Rightarrow> True | Some s' \<Rightarrow> pg_good e vs s')"

interpretation pager: object_server "\<lambda>s (u :: unit). pager_env_ok content e \<and> pg_inv e s" "pg_ok e" "pg_step e" "pg_run e" "pg_good e"
  backed "object_view content e" pg_own for content :: "'f \<Rightarrow> ptr \<Rightarrow> nat \<Rightarrow> 'd" and e
proof
  show "\<exists>s' u'. pg_step e v s = Some s' \<and> pager_env_ok content e \<and> pg_inv e s'" if "pager_env_ok content e \<and> pg_inv e s" "pg_ok e s v" for s and u :: unit and v
    using pg_step_leaves [of e s content v] that leaves_inv by blast
  show "backed s' c \<and> object_view content e s' c = object_view content e s c"
    if "pager_env_ok content e \<and> pg_inv e s" "pg_ok e s v" "pg_step e v s = Some s'" "backed s c" "\<not> pg_own v c" for s and u :: unit and v s' c
    using pg_step_leaves [of e s content v] that by (auto simp: leaves_def)
qed (auto split: option.splits)

end
