(* ===== verification/Pager_Props.thy ===== *)
theory Pager_Props
  imports Pager_Runs
begin

text \<open>What the inode pager promises the kernel, and where it fails.\<close>

section \<open>Blocks\<close>

text \<open>A pager after \<open>inode_pager_bootstrap\<close>: there are no objects and no paging files.\<close>

definition pg_blank :: "('d, 'f) pg_state \<Rightarrow> bool" where
  "pg_blank s \<longleftrightarrow> zheap s = {} \<and> finite (kheap s) \<and> (\<forall>h. inode_port_hashtable s h = []) \<and> use_paging_file s"

lemma bootstrap_inv:
  assumes "pg_blank s" shows "pg_inv e (inode_pager_bootstrap n s)"
proof -
  let ?t = "inode_pager_bootstrap n s"
  have n: "\<not> swap ?t z" for z using assms by (simp add: swap_def inode_pager_bootstrap_def pg_blank_def)
  have l: "inode_pager_lookup m ?t = 0" for m
    using assms by (simp add: inode_pager_lookup_def inode_pager_bootstrap_def pg_blank_def)
  then have r: "\<not> registered ?t z" for z by (auto simp: registered_def)
  have E: "pager_files ?t = []" "pager_file_count ?t = 0" "zheap ?t = {}" "finite (kheap ?t)" "istruct_queue ?t = []" "use_paging_file ?t" "\<And>h. inode_port_hashtable ?t h = []"
    using assms by (simp_all add: inode_pager_bootstrap_def pg_blank_def)
  show ?thesis by (simp add: pg_inv_def files_ok_def maps_ok_def objs_ok_def ports_ok_def mapped_ok_def refs_ok_def table_ok_def n l r E)
qed

definition backing :: "('d, 'f) pg_state \<Rightarrow> ptr \<Rightarrow> (ptr \<times> nat) set" where
  "backing s p = {(z, n). pf_info (istr s z) = p \<and> pagetab s z n \<noteq> None}"

lemma backing_card:
  assumes I: "pg_inv e s" and p: "p \<in> set (pager_files s)"
  shows "pf_pfree (pfile s p) + card (backing s p) = pf_npgs (pfile s p)"
proof -
  have b: "blocks (pagetab s) (\<lambda>z. pf_info (istr s z) = p) (pf_used (pfile s p))" and o: "pf_ok (pfile s p)" using pg_invD(1) [OF I] p by (auto simp: files_ok_def)
  have "card (backing s p) = card (pf_used (pfile s p))" unfolding backing_def by (rule bij_betw_same_card [OF b [unfolded blocks_def]])
  then show ?thesis using o by (simp add: pf_ok_def)
qed

lemma card_ran:
  assumes "pg_inv e s" shows "card (ran (pagetab s z)) = card {n. pagetab s z n \<noteq> None}"
proof -
  let ?T = "pagetab s z" and ?D = "{n. pagetab s z n \<noteq> None}"
  have "inj_on (\<lambda>n. the (?T n)) ?D"
  proof (rule inj_onI)
    fix m n assume h: "m \<in> ?D" "n \<in> ?D" "the (?T m) = the (?T n)"
    then obtain v where "?T m = Some v" "?T n = Some v" by auto
    then show "m = n" by (rule pagetab_inj [OF assms])
  qed
  then have "card ((\<lambda>n. the (?T n)) ` ?D) = card ?D" by (rule card_image)
  moreover have "(\<lambda>n. the (?T n)) ` ?D = ran ?T"
  proof (intro set_eqI iffI)
    show "v \<in> ran ?T" if "v \<in> (\<lambda>n. the (?T n)) ` ?D" for v using that by (auto intro: ranI)
    show "v \<in> (\<lambda>n. the (?T n)) ` ?D" if v: "v \<in> ran ?T" for v
    proof -
      obtain n where "?T n = Some v" using v by (auto simp: ran_def)
      then show ?thesis by (intro image_eqI [of _ _ n]) simp_all
    qed
  qed
  ultimately show ?thesis by simp
qed

text \<open>
  (C3) In every run of the pager from its start, whatever objects are created, written, terminated and
  released, no two pages of any objects share a block of a paging file, every block lies in its
  file, and the count of free blocks of a file is exact.  The pager swaps to a paging file, the kernel
  sends the messages it may send (\<open>pg_good\<close>), and the allocators and the file system do what they
  promise (\<open>pager_env_ok\<close>).
\<close>

theorem pager_blocks_accounted:
  assumes "pager_env_ok content e" and "pg_blank s" and "pg_good e vs (inode_pager_bootstrap n s)"
  shows "\<exists>s'. pg_run e vs (inode_pager_bootstrap n s) = Some s'
    \<and> (\<forall>p\<in>set (pager_files s'). pf_pfree (pfile s' p) + card (backing s' p) = pf_npgs (pfile s' p))
    \<and> (\<forall>y z m n v. pagetab s' y m = Some v \<and> pagetab s' z n = Some v \<and> pf_info (istr s' y) = pf_info (istr s' z) \<longrightarrow> y = z \<and> m = n)
    \<and> (\<forall>z n v. pagetab s' z n = Some v \<longrightarrow> v < pf_npgs (pfile s' (pf_info (istr s' z))))"
proof -
  obtain s' where s': "pg_run e vs (inode_pager_bootstrap n s) = Some s'" "pg_inv e s'"
    using pager.run_answers [OF conjI [OF assms(1) bootstrap_inv [OF assms(2)]] assms(3)] by blast
  have "y = z \<and> m = k" if "pagetab s' y m = Some v" "pagetab s' z k = Some v" "pf_info (istr s' y) = pf_info (istr s' z)" for y z m k v
    using blocksD(2) [OF file_blocks [OF s'(2) pagetab_used(2) [OF s'(2) that(2)]] that(3) refl that(1,2)] .
  moreover have "v < pf_npgs (pfile s' (pf_info (istr s' z)))" if "pagetab s' z k = Some v" for z k v
    using pagetab_used(1) [OF s'(2) that] by (simp add: pf_used_def)
  ultimately show ?thesis using s' backing_card by blast
qed

text \<open>
  (C21) Terminating an object that nobody can send to returns to its paging file exactly the blocks of
  its pages, and frees its structure.
\<close>

theorem pager_terminate_returns_blocks:
  assumes "pg_inv e s" and "backed s c" and "inode_pager_lookup c s = z"
    and "inode_pager_no_more_senders (pager_global (istr s z)) (dead_references (istr s z)) refs" and "dead_references (istr s z) = 0"
  shows "\<exists>s'. inode_pager_terminate_object e c req nam refs s = Some s' \<and> z \<notin> zheap s'
    \<and> pf_pfree (pfile s' (pf_info (istr s z))) = pf_pfree (pfile s (pf_info (istr s z))) + card {n. pagetab s z n \<noteq> None}
    \<and> pf_used (pfile s' (pf_info (istr s z))) = pf_used (pfile s (pf_info (istr s z))) - ran (pagetab s z)"
proof -
  let ?p = "pf_info (istr s z)"
  have z: "z \<noteq> 0" "swapfile (istr s z)" using assms(2,3) by (auto simp: backed_def)
  obtain s' where s': "inode_pager_terminate_object e c req nam refs s = Some s'" "pg_inv e s'" "zheap s' = zheap s - {z}" "pagetab s' = (pagetab s)(z := (\<lambda>n. None))"
    "pf_used (pfile s' ?p) = pf_used (pfile s ?p) - ran (pagetab s z)" "pf_npgs (pfile s' ?p) = pf_npgs (pfile s ?p)" "pager_files s' = pager_files s"
    using terminate_frees [OF assms(1,3) z assms(4,5), of req nam] by blast
  have sw: "swap s z" using lookup_registered(2) [OF assms(1,3) z(1)] z(2) by (simp add: swap_def)
  have p: "?p \<in> set (pager_files s)" by (rule swap_file(1) [OF assms(1) sw])
  have ok: "pf_ok (pfile s ?p)" "pf_ok (pfile s' ?p)" using pg_invD(1) [OF assms(1)] pg_invD(1) [OF s'(2)] p s'(7) by (simp_all add: files_ok_def)
  note c = card_ran [OF assms(1), of z]
  have r: "ran (pagetab s z) \<subseteq> pf_used (pfile s ?p)" by (rule ran_used [OF assms(1) sw])
  have "card (pf_used (pfile s' ?p)) = card (pf_used (pfile s ?p)) - card (ran (pagetab s z))" "card (ran (pagetab s z)) \<le> card (pf_used (pfile s ?p))"
    unfolding s'(5) using r by (simp_all add: card_Diff_subset finite_subset card_mono)
  then have "pf_pfree (pfile s' ?p) = pf_pfree (pfile s ?p) + card {n. pagetab s z n \<noteq> None}" using ok s'(6) c by (simp add: pf_ok_def)
  then show ?thesis using s' by auto
qed

end
