(* ===== verification/Pager_Storage.thy ===== *)
theory Pager_Storage
  imports Pager_Props
begin

text \<open>Memory objects as storage: what is written is read back, and what is lost.\<close>

section \<open>Reading a page\<close>

definition reads_succeed :: "('d, 'f) pg_env \<Rightarrow> bool" where
  "reads_succeed e \<longleftrightarrow> (\<forall>ip a f. fst (vop_page_read e ip a f) = 0)"

text \<open>The answer that a request for a page should get, by what the object holds there.\<close>

definition page_answer :: "nat \<Rightarrow> nat \<Rightarrow> 'd option \<Rightarrow> 'd pg_call" where
  "page_answer reply off x = (case x of None \<Rightarrow> Data_unavailable reply off | Some d \<Rightarrow> Data_provided reply off d)"

lemma timeout_reads:
  assumes I: "pg_inv e s" and e: "alloc_ok e" and st: "store_ok content e" and q: "data_request_queue s = r # rs" and b: "backed s (dr_pager r)"
    and er: "is_errors (istr s (inode_pager_lookup (dr_pager r) s)) = 0"
    and off: "dr_offset r mod page_size e = 0" "atop e (dr_offset r) < fst (object_view content e s (dr_pager r))"
    and ok: "reads_succeed e \<or> snd (object_view content e s (dr_pager r)) (atop e (dr_offset r)) = None"
  shows "\<exists>s'. inode_pager_timeout e s = Some s'
    \<and> calls s' = calls s @ [page_answer (dr_reply_to r) (dr_offset r) (snd (object_view content e s (dr_pager r)) (atop e (dr_offset r)))]"
proof -
  define z where "z = inode_pager_lookup (dr_pager r) s"
  let ?s0 = "s\<lparr>data_request_queue := rs\<rparr>"
  have t0: "touches content e {} s ?s0" by (rule touches_same [OF I]) (simp_all add: same_objs_def same_ports_def)
  have z: "z \<noteq> 0" "swapfile (istr s z)" using b by (simp_all add: backed_def z_def)
  have z0: "inode_pager_lookup (dr_pager r) ?s0 = z" by (simp add: z_def inode_pager_lookup_def)
  note G = lookup_registered [OF I z_def [symmetric] z(1)]
  define s1 where "s1 = upd_is z (\<lambda>i. i\<lparr>use_count := use_count i + 1\<rparr>) ?s0"
  have o0: "obj_ok ?s0 (istr ?s0 z)" using G(4) by (simp add: obj_ok_def)
  have g: "istruct_get e z ?s0 = Some (ip_of (is_inode (istr ?s0 z)), s1)" unfolding s1_def by (rule istruct_get_simple [OF o0 z(1)])
  have t1: "touches content e {} s s1" unfolding s1_def by (rule touches_trans [OF t0 use_touch [OF page_use(1) [OF t0]]])
  note I1 = page_use(1) [OF t1] and K = keptD [OF page_use(2) [OF t1]]
  have sw: "swap s1 z" using G(2) z(2) K by (simp add: swap_def)
  obtain c d f where rd: "is_page_read e z (ip_of (is_inode (istr s1 z))) (dr_offset r) s1 = Some (c, d, s1\<lparr>disk := f\<rparr>)" "touches content e {} s1 (s1\<lparr>disk := f\<rparr>)"
    "c \<in> {0, EINVAL, EIO}" "c = 0 \<longrightarrow> d \<noteq> None" using is_page_read_touches [OF I1 st] by blast
  have n: "atop e (dr_offset r) < is_size (istr s1 z)" using off(2) K by (simp add: object_view_def z_def)
  have ct: "contents content e s1 z = contents content e s z" using t1 by (simp add: touches_def)
  have R: "case contents content e s z (atop e (dr_offset r)) of None \<Rightarrow> c = EINVAL | Some x \<Rightarrow> c = 0 \<longrightarrow> d = Some x"
    using is_page_read_swap [OF I1 e sw off(1) n st rd(1)] ct by simp
  have ip: "ip_of (is_inode (istr ?s0 z)) = ip_of (is_inode (istr s1 z))" using K by simp
  have rd0: "c = 0" if n: "contents content e s z (atop e (dr_offset r)) \<noteq> None"
  proof -
    have r0: "fst (vop_page_read e ip a g) = 0" for ip a g using ok n by (auto simp: reads_succeed_def object_view_def z_def)
    have "actual_offset e z (dr_offset r) B_READ s1 = Some (map_option (new_offset e (dr_offset r)) (slot (istr s1 z) (karr s1) (atop e (dr_offset r))), s1)"
      using pf_bmap_read [OF less_imp_le [OF \<open>atop e (dr_offset r) < is_size (istr s1 z)\<close>]] sw by (simp add: actual_offset_def swap_def)
    moreover have "slot (istr s1 z) (karr s1) (atop e (dr_offset r)) \<noteq> None"
      using n unfolding ct [symmetric] by (auto simp: contents_def pagetab_def split: if_splits)
    ultimately show ?thesis using rd(1) r0 by (auto simp: is_page_read_def split: prod.splits) (metis fst_conv)
  qed
  obtain a where a: "answer c d r = Some a" using rd(3,4) by (auto simp: answer_def EINVAL_def EIO_def)
  let ?s2 = "call a (s1\<lparr>disk := f\<rparr>)"
  have t2: "touches content e {} s ?s2" using touches_trans [OF t1 touches_trans [OF rd(2) touches_call]] rd(2) by (simp add: touches_def)
  have "obj_ok ?s2 (istr ?s2 z)" using kept_obj_ok [OF page_use(2) [OF t2]] G(4) by simp
  then have p: "istruct_put e z ?s2 = upd_is z (\<lambda>i. i\<lparr>use_count := use_count i - 1\<rparr>) ?s2" by (rule put_touch(2) [OF page_use(1) [OF t2]])
  have T: "inode_pager_timeout e s = Some (istruct_put e z ?s2)"
    using q z(1) er g rd(1) a unfolding ip by (simp add: inode_pager_timeout_def Let_def z0 z_def [symmetric])
  have cs: "calls (istruct_put e z ?s2) = calls s @ [a]" unfolding p by (simp add: upd_is_def call_def s1_def)
  show ?thesis
  proof (cases "contents content e s z (atop e (dr_offset r))")
    case None
    then show ?thesis using T cs R a by (simp add: object_view_def z_def [symmetric] answer_def EINVAL_def page_answer_def)
  next
    case (Some x)
    then show ?thesis using rd0 R a cs T by (simp add: answer_def object_view_def z_def [symmetric] page_answer_def)
  qed
qed

lemma timeout_errors:
  assumes "data_request_queue s = r # rs" "inode_pager_lookup (dr_pager r) s \<noteq> 0" "is_errors (istr s (inode_pager_lookup (dr_pager r) s)) \<noteq> 0"
  shows "\<exists>s'. inode_pager_timeout e s = Some s' \<and> calls s' = calls s @ [Data_error (dr_reply_to r) (dr_offset r)]"
  using assms by (auto simp: inode_pager_timeout_def Let_def inode_pager_lookup_def call_def)

lemma timeouts_add: "timeouts e (m + n) s = Option.bind (timeouts e m s) (timeouts e n)"
  by (induction m arbitrary: s) (auto split: option.splits)

text \<open>A request is answered once the requests before it are.\<close>

lemma request_served:
  assumes I: "pg_inv e s" and v: "pager_env_ok content e" and b: "backed s c"
    and off: "off mod page_size e = 0" "atop e off < fst (object_view content e s c)"
    and ok: "reads_succeed e \<or> snd (object_view content e s c) (atop e off) = None"
  shows "\<exists>s1 s2. inode_pagein e c reply off (page_size e) s = Some s1 \<and> timeouts e (Suc (length (data_request_queue s))) s1 = Some s2
    \<and> last (calls s2) = (if is_errors (istr s (inode_pager_lookup c s)) \<noteq> 0 then Data_error reply off else page_answer reply off (snd (object_view content e s c) (atop e off)))"
proof -
  have e: "alloc_ok e" "store_ok content e" using v by (simp_all add: pager_env_ok_def)
  define r where "r = \<lparr>dr_pager = c, dr_reply_to = reply, dr_offset = off\<rparr>"
  define s1 where "s1 = s\<lparr>data_request_queue := data_request_queue s @ [r], receive_timeout := True\<rparr>"
  have t1: "touches content e {} s s1" unfolding s1_def by (rule touches_same [OF I]) (simp_all add: same_objs_def same_ports_def)
  obtain s2 where s2: "timeouts e (length (data_request_queue s)) s1 = Some s2" "touches content e {} s1 s2"
    "\<forall>y. is_errors (istr s2 y) = is_errors (istr s1 y)" "data_request_queue s2 = [r]"
    using timeouts_touches [OF page_use(1) [OF t1] e(2), of "length (data_request_queue s)"] by (auto simp: s1_def)
  have t2: "touches content e {} s s2" by (rule touches_trans [OF t1 s2(2)])
  note I2 = page_use(1) [OF t2] and K = keptD [OF page_use(2) [OF t2]]
  have V: "object_view content e s2 c = object_view content e s c" "backed s2 c" "inode_pager_lookup c s2 \<noteq> 0"
    using t2 b K by (simp_all add: object_view_def touches_def backed_def)
  have E: "is_errors (istr s2 (inode_pager_lookup c s2)) = is_errors (istr s (inode_pager_lookup c s))" using s2(3) K by (simp add: s1_def)
  have "\<exists>s3. inode_pager_timeout e s2 = Some s3 \<and> last (calls s3) =
      (if is_errors (istr s (inode_pager_lookup c s)) \<noteq> 0 then Data_error reply off else page_answer reply off (snd (object_view content e s c) (atop e off)))"
  proof (cases "is_errors (istr s (inode_pager_lookup c s)) = 0")
    case True
    then show ?thesis using timeout_reads [OF I2 e s2(4)] V E off ok by (auto simp: r_def)
  next
    case False
    then show ?thesis using timeout_errors [OF s2(4), of e] V(3) E by (auto simp: r_def)
  qed
  moreover have "timeouts e (Suc (length (data_request_queue s))) s1 = inode_pager_timeout e s2"
    using s2(1) timeouts_add [of e "length (data_request_queue s)" 1 s1] by (simp split: option.splits)
  moreover have "inode_pagein e c reply off (page_size e) s = Some s1" by (simp add: inode_pagein_def s1_def r_def)
  ultimately show ?thesis by auto
qed

section \<open>Storage\<close>

text \<open>
  (C10) The objects in paging files are private: whatever other messages the pager handles, objects
  created, written, terminated, files mapped, pages requested, releases begun and ended, an object
  keeps its size and the contents of all its pages until a message for its own port.  The messages are
  those the kernel may send (\<open>pg_good\<close>), from a state of the invariant, and the allocators and the
  file system do what they promise (\<open>pager_env_ok\<close>).
\<close>

theorem pager_objects_private:
  assumes "pager_env_ok content e" and "pg_inv e s" and "pg_good e vs s" and "backed s c" and "\<forall>v\<in>set vs. \<not> pg_own v c"
  shows "\<exists>s'. pg_run e vs s = Some s' \<and> pg_inv e s' \<and> backed s' c \<and> object_view content e s' c = object_view content e s c"
  using pager.run_secluded [OF conjI [OF assms(1,2)] assms(3-5)] by blast

lemma write_stores:
  assumes "pager_env_ok content e" and "pg_inv e s" and "backed s c" and "pg_ok e s (Write c off dat n)"
    and "page_count e n \<le> pf_pfree (pfile s (pf_info (istr s (inode_pager_lookup c s))))" and "\<forall>K. kalloc e K 512 \<noteq> 0"
    and "writes_succeed e"
  shows "\<exists>s'. inode_data_write e c off dat n s = Some s' \<and> pg_inv e s' \<and> backed s' c
    \<and> object_view content e s' c = (fst (object_view content e s c), written (off div page_size e) (page_count e n) dat (snd (object_view content e s c)))"
proof -
  let ?z = "inode_pager_lookup c s"
  have z: "?z \<noteq> 0" "swapfile (istr s ?z)" using assms(3) by (simp_all add: backed_def)
  obtain s' where s': "inode_data_write e c off dat n s = Some s'" "touches content e {?z} s s'"
    "contents content e s' ?z = written (off div page_size e) (page_count e n) dat (contents content e s ?z)"
    using data_write_touches [OF assms(2) _ _ refl z(1), of content off n dat] assms z(2) by (auto simp: pager_env_ok_def)
  note K = keptD [OF page_use(2) [OF s'(2)]]
  show ?thesis using s' page_use(1) [OF s'(2)] z by (auto simp: object_view_def backed_def K)
qed

text \<open>
  (C11) \<open>memory_object_data_write\<close> implements the update of the object's map from pages to contents, as
  long as the paging file has room for the pages, memory for the maps is available and the file
  system reports no error.
\<close>

theorem pager_write_refines:
  assumes "pager_env_ok content e" and "pg_inv e s" and "backed s c" and "pg_ok e s (Write c off dat n)"
    and "page_count e n \<le> pf_pfree (pfile s (pf_info (istr s (inode_pager_lookup c s))))" and "\<forall>K. kalloc e K 512 \<noteq> 0"
    and "writes_succeed e"
  shows "\<exists>s'. inode_data_write e c off dat n s = Some s' \<and> pg_inv e s' \<and> backed s' c
    \<and> object_view content e s' c = (fst (object_view content e s c), written (off div page_size e) (page_count e n) dat (snd (object_view content e s c)))"
  by (rule write_stores [OF assms])

text \<open>
  (C12) A page that has been written is read back: after a write, and any messages that are not for the
  object, a request for one of the pages written is answered with the data of that page once the
  requests queued before it have been answered, or with an error if one has been recorded for the
  object.
\<close>

theorem pager_round_trip:
  assumes v: "pager_env_ok content e" and I: "pg_inv e s" and b: "backed s c" and g: "pg_good e (Write c off dat n # vs) s"
    and f: "page_count e n \<le> pf_pfree (pfile s (pf_info (istr s (inode_pager_lookup c s))))" "\<forall>K. kalloc e K 512 \<noteq> 0"
    and io: "writes_succeed e" "reads_succeed e" and vs: "\<forall>v\<in>set vs. \<not> pg_own v c" and k: "k < page_count e n"
  shows "\<exists>s1 s2 s3. pg_run e (Write c off dat n # vs) s = Some s1
    \<and> inode_pagein e c reply (off + k * page_size e) (page_size e) s1 = Some s2
    \<and> timeouts e (Suc (length (data_request_queue s1))) s2 = Some s3
    \<and> last (calls s3) = (if is_errors (istr s1 (inode_pager_lookup c s1)) = 0 then Data_provided reply (off + k * page_size e) (dat k)
        else Data_error reply (off + k * page_size e))"
proof -
  let ?z = "inode_pager_lookup c s" and ?off = "off + k * page_size e"
  have z: "?z \<noteq> 0" "swapfile (istr s ?z)" using b by (simp_all add: backed_def)
  have w: "pg_ok e s (Write c off dat n)" using g by simp
  have rng: "range_ok e (istr s ?z) off (page_count e n)" using w z by simp
  obtain s0 where s0: "inode_data_write e c off dat n s = Some s0" "pg_inv e s0" "backed s0 c"
    "object_view content e s0 c = (fst (object_view content e s c), written (off div page_size e) (page_count e n) dat (snd (object_view content e s c)))"
    using write_stores [OF v I b w f io(1)] by blast
  have g0: "pg_good e vs s0" using g s0(1) by simp
  obtain s1 where s1: "pg_run e vs s0 = Some s1" "pg_inv e s1" "backed s1 c" "object_view content e s1 c = object_view content e s0 c"
    using pager.run_secluded [OF conjI [OF v s0(2)] g0 s0(3) vs] by blast
  have u: "u32 ?off = ?off"
  proof -
    have "(k + 1) * page_size e \<le> page_count e n * page_size e" using k by (intro mult_right_mono) auto
    then have "?off + page_size e \<le> 2 ^ 32" using rng by (simp add: range_ok_def)
    then have "?off < 2 ^ 32" using page_size_pos [of e] by linarith
    then show ?thesis by (rule u32_id)
  qed
  note R = range_page [OF rng k, unfolded u]
  have V: "fst (object_view content e s1 c) = is_size (istr s ?z)" "snd (object_view content e s1 c) (atop e ?off) = Some (dat k)"
    using s1(4) s0(4) R(2) k by (simp_all add: object_view_def written_def)
  show ?thesis using request_served [OF s1(2) v s1(3) R(1), of reply] R(2,3) V io(2) s0(1) s1(1) by (auto simp: page_answer_def)
qed

section \<open>What is lost\<close>

text \<open>Pages without a block, written while the paging file is full.\<close>

lemma full_page:
  assumes I: "pg_inv e s" and v: "pager_env_ok content e" and z: "swap s z" and off: "atop e off < is_size (istr s z)"
    and f: "pf_pfree (pfile s (pf_info (istr s z))) = 0" and n: "contents content e s z (atop e off) = None"
  shows "\<exists>s'. is_page_write e z (ip_of (is_inode (istr s z))) off d s = Some s' \<and> pg_inv e s' \<and> contents content e s' = contents content e s
    \<and> istr s' = istr s \<and> pfile s' = pfile s \<and> kept s s'"
proof -
  have e: "alloc_ok e" using v by (simp add: pager_env_ok_def)
  have p: "pagetab s z (atop e off) = None" using n by (simp add: contents_def)
  obtain r s1 where b: "pf_bmap_at e z off B_WRITE s = Some (r, s1)" "pg_inv e s1" "remapped s s1" and r: "r = None" and c: "pagetab s1 = pagetab s" "pfile s1 = pfile s"
    using pf_bmap_write [OF I e z off] f p by (auto split: option.splits)
  note R = remapped_eqs [OF b(3)]
  have "contents content e s1 = contents content e s" by (intro ext) (simp add: contents_def R c)
  then show ?thesis using b r c R kept_remapped [OF b(3)] z by (auto simp: is_page_write_def actual_offset_def swap_def)
qed

lemma full_loop:
  fixes content :: "'f \<Rightarrow> ptr \<Rightarrow> nat \<Rightarrow> 'd" and e :: "('d, 'f) pg_env" and dat :: "nat \<Rightarrow> 'd"
  assumes I: "pg_inv e s" and v: "pager_env_ok content e" and z: "swap s z" and r: "range_ok e (istr s z) off n"
    and f: "pf_pfree (pfile s (pf_info (istr s z))) = 0" and c: "\<And>k. k < n \<Longrightarrow> contents content e s z (off div page_size e + k) = None"
  defines "w \<equiv> \<lambda>k. is_page_write e z (ip_of (is_inode (istr s z))) (u32 (off + k * page_size e)) (dat k)"
  shows "m \<le> n \<Longrightarrow> \<exists>s'. each_page w [0..<m] s = Some s' \<and> pg_inv e s' \<and> contents content e s' = contents content e s
    \<and> istr s' = istr s \<and> pfile s' = pfile s \<and> kept s s'"
proof (induction m)
  case 0
  then show ?case using I by simp
next
  case (Suc m)
  then obtain s1 where s1: "each_page w [0..<m] s = Some s1" "pg_inv e s1" "contents content e s1 = contents content e s" "istr s1 = istr s" "pfile s1 = pfile s" "kept s s1"
    by auto
  have m: "m < n" using Suc.prems by simp
  note R = range_page [OF r m]
  have "swap s1 z" using z keptD(1) [OF s1(6)] by simp
  then obtain s2 where "w m s1 = Some s2" "pg_inv e s2" "contents content e s2 = contents content e s1" "istr s2 = istr s1" "pfile s2 = pfile s1" "kept s1 s2"
    using full_page [OF s1(2) v, of z "u32 (off + m * page_size e)" "dat m"] R s1 f c [OF m] by (auto simp: w_def)
  then show ?case using s1 kept_trans [OF s1(6)] by (simp add: each_page_append)
qed

text \<open>
  Pages written while the paging file is full are lost without a trace: a write of pages that have
  no block yet, to a file without a free block, returns normally, records no error and stores nothing,
  and a later request for such a page is answered that the data is unavailable, so that the kernel
  supplies zeroes.
\<close>

theorem pager_full_loses_pages:
  assumes v: "pager_env_ok content e" and I: "pg_inv e s" and b: "backed s c" and w: "pg_ok e s (Write c off dat n)"
    and f: "pf_pfree (pfile s (pf_info (istr s (inode_pager_lookup c s)))) = 0"
    and none: "\<forall>k<page_count e n. snd (object_view content e s c) (off div page_size e + k) = None"
    and er: "is_errors (istr s (inode_pager_lookup c s)) = 0" and k: "k < page_count e n"
  shows "\<exists>s1 s2 s3. inode_data_write e c off dat n s = Some s1 \<and> object_view content e s1 c = object_view content e s c
    \<and> is_errors (istr s1 (inode_pager_lookup c s1)) = 0
    \<and> inode_pagein e c reply (u32 (off + k * page_size e)) (page_size e) s1 = Some s2
    \<and> timeouts e (Suc (length (data_request_queue s1))) s2 = Some s3
    \<and> last (calls s3) = Data_unavailable reply (u32 (off + k * page_size e))"
proof -
  let ?z = "inode_pager_lookup c s" and ?n = "page_count e n" and ?off = "u32 (off + k * page_size e)"
  have st: "store_ok content e" using v by (simp add: pager_env_ok_def)
  have z: "?z \<noteq> 0" "swapfile (istr s ?z)" using b by (simp_all add: backed_def)
  note G = lookup_registered [OF I refl z(1)]
  have rng: "range_ok e (istr s ?z) off ?n" using w z by simp
  obtain s1 where s1: "istruct_get e ?z s = Some (ip_of (is_inode (istr s ?z)), s1)" "touches content e {} s s1"
    "s1 = upd_is ?z (\<lambda>i. i\<lparr>use_count := use_count i + 1\<rparr>) s" using get_touch [OF I G(4) z(1), of content "{}"] by blast
  note K = keptD [OF page_use(2) [OF s1(2)]]
  have c1: "contents content e s1 = contents content e s" using s1(2) by (auto simp: touches_def)
  have e1: "pfile s1 = pfile s" "\<And>y. is_errors (istr s1 y) = is_errors (istr s y)" by (simp_all add: s1(3) upd_is_def)
  let ?w = "\<lambda>k. is_page_write e ?z (ip_of (is_inode (istr s ?z))) (u32 (off + k * page_size e)) (dat k)"
  have "swap s1 ?z" "range_ok e (istr s1 ?z) off ?n" using z(2) G(2) rng K by (simp_all add: swap_def range_ok_def)
  moreover have "contents content e s1 ?z (off div page_size e + j) = None" if "j < ?n" for j using none that c1 by (simp add: object_view_def)
  ultimately obtain s2 where s2: "each_page ?w [0..<?n] s1 = Some s2" "pg_inv e s2" "contents content e s2 = contents content e s1" "istr s2 = istr s1" "kept s1 s2"
    using full_loop [OF page_use(1) [OF s1(2)] v, of ?z off ?n ?n dat] f e1(1) K by auto
  have t2: "touches content e {} s s2" by (rule touches_trans [OF s1(2)]) (use s2(2,3,5) in \<open>simp add: touches_def\<close>)
  let ?s3 = "call (Vm_deallocate (page_count e n * page_size e)) (istruct_put e ?z s2)"
  note P = put_call_touch [OF t2 G(4), of "Vm_deallocate (page_count e n * page_size e)"]
  obtain s4 where s4: "timeouts e 4 ?s3 = Some s4" "touches content e {} ?s3 s4" "\<forall>y. is_errors (istr s4 y) = is_errors (istr ?s3 y)"
    using timeouts_touches [OF page_use(1) [OF P(1)] st] by blast
  have t4: "touches content e {} s s4" by (rule touches_trans [OF P(1) s4(2)])
  note L = keptD [OF page_use(2) [OF t4]]
  have W: "inode_data_write e c off dat n s = Some s4" using s1(1) s2(1) s4(1) by (simp add: inode_data_write_def Let_def)
  have V: "object_view content e s4 c = object_view content e s c" "backed s4 c" using t4 L b by (simp_all add: object_view_def touches_def backed_def)
  have E: "is_errors (istr s4 (inode_pager_lookup c s4)) = 0" using s4(3) P(3) s2(4) e1(2) er L by simp
  note R = range_page [OF rng k]
  have U: "snd (object_view content e s c) (atop e ?off) = None" using none k R(2) by simp
  have "atop e ?off < fst (object_view content e s4 c)" using R(2,3) unfolding V by (simp add: object_view_def)
  then show ?thesis using request_served [OF page_use(1) [OF t4] v V(2) R(1), of reply] W E U unfolding V by (auto simp: page_answer_def V)
qed

text \<open>
  Initial data for pages that are not in the paging file is dropped: \<open>memory_object_data_initialize\<close> of
  pages without a block releases the message's data and does nothing else, while its comment promises to
  write exactly the pages that have not been written before.
\<close>

theorem pager_initialize_dropped:
  assumes v: "pager_env_ok content e" and I: "pg_inv e s" and b: "backed s c" and w: "pg_ok e s (Initialize c off dat n)"
    and none: "\<forall>k<page_count e n. snd (object_view content e s c) (off div page_size e + k) = None"
  shows "inode_data_initialize e c off dat n s = Some (call (Vm_deallocate (page_count e n * page_size e)) s)"
proof -
  let ?z = "inode_pager_lookup c s" and ?n = "page_count e n"
  have z: "?z \<noteq> 0" "swapfile (istr s ?z)" using b by (simp_all add: backed_def)
  have e: "alloc_ok e" "store_ok content e" using v by (simp_all add: pager_env_ok_def)
  note G = lookup_registered [OF I refl z(1)]
  have rng: "range_ok e (istr s ?z) off ?n" using w z by simp
  obtain s1 where s1: "istruct_get e ?z s = Some (ip_of (is_inode (istr s ?z)), s1)" "touches content e {} s s1"
    "s1 = upd_is ?z (\<lambda>i. i\<lparr>use_count := use_count i + 1\<rparr>) s" using get_touch [OF I G(4) z(1), of content "{}"] by blast
  note K = keptD [OF page_use(2) [OF s1(2)]]
  have c1: "contents content e s1 = contents content e s" using s1(2) by (auto simp: touches_def)
  let ?w = "\<lambda>k. is_page_initialize e ?z (ip_of (is_inode (istr s ?z))) (u32 (off + k * page_size e)) (dat k)"
  have w1: "?w k s1 = Some s1" if "k < ?n" for k
  proof -
    note R = range_page [OF rng that]
    have "contents content e s1 ?z (atop e (u32 (off + k * page_size e))) = None" using none that R(2) c1 by (simp add: object_view_def)
    then show ?thesis
      using is_page_initialize_touches [OF page_use(1) [OF s1(2)] e, of ?z "u32 (off + k * page_size e)" "dat k"] R G z(2) K by auto
  qed
  have each: "each_page ?w ks s1 = Some s1" if "set ks \<subseteq> {..<?n}" for ks using that by (induction ks) (auto simp: w1)
  have o1: "obj_ok s1 (istr s1 ?z)" using kept_obj_ok [OF page_use(2) [OF s1(2)]] G(4) by simp
  have "istruct_put e ?z s1 = s"
    unfolding put_touch(2) [OF page_use(1) [OF s1(2)] o1] by (simp add: s1(3) upd_is_def)
  moreover have "each_page ?w [0..<?n] s1 = Some s1" by (rule each) auto
  ultimately show ?thesis using s1(1) by (simp add: inode_data_initialize_def Let_def)
qed

section \<open>The choice of a paging file\<close>





end
