(* ===== verification/Pager_Demo.thy ===== *)
theory Pager_Demo
  imports Pager_Storage
begin

text \<open>
  The theorems of the inode pager at a concrete pager: a disk that maps files and offsets to
  numbers, a paging file of three blocks, and the states that some messages lead to.
\<close>

definition demo_pager :: "(nat, ptr \<Rightarrow> nat \<Rightarrow> nat) pg_env" where
  "demo_pager = \<lparr>page_shift = 12, kalloc = (\<lambda>K n. Max (insert 99 K) + 1), zalloc = (\<lambda>K. Max (insert 49 K) + 1), junk_bit = 0, junk_map = (\<lambda>i. 0xff),
     minpagersize = 0, u_identity = 7, i_dev = (\<lambda>ip. 1), i_fs = (\<lambda>ip. 1), i_number = (\<lambda>ip. ip), fs_bsize = (\<lambda>ip. 4096), iget = (\<lambda>d f n. n),
     default_inode = (\<lambda>f. Some 77), vop_setattr = (\<lambda>ip n f. (0, f)), vfs_statfs = (\<lambda>ip f. (0, 3, 4096)),
     vop_page_read = (\<lambda>ip a f. (0, f ip a, f)), vop_page_write = (\<lambda>ip a d b f. (0, f(ip := (f ip)(a := d)))),
     object_copyin = (\<lambda>n. n), object_copyout = (\<lambda>n. n), mount = [], root_paging_inode = (\<lambda>i f. 0)\<rparr>"

definition demo_file :: pager_file where
  "demo_file = \<lparr>pf_ip = 0, pf_count = 0, pf_bmap = (\<lambda>i. 0), pf_npgs = 0, pf_pfree = 0, pf_prefer = False\<rparr>"

definition demo_istruct :: istruct where
  "demo_istruct = \<lparr>client_count = 0, dead_references = 0, free_me = False, use_count = 0, is_state = IS_OUT, is_pager = 0, is_pager_request = 0,
     is_pager_name = 0, pager_global = 0, pager_request_global = 0, is_errors = 0, paging_shift = 0, is_size = 0, pf_info = 0, pmap = 0, queued = False,
     cached = False, paging = False, swapfile = False, is_inode = Ip 0, identity = 0\<rparr>"

definition demo_blank :: "(nat, ptr \<Rightarrow> nat \<Rightarrow> nat) pg_state" where
  "demo_blank = \<lparr>pfile = (\<lambda>p. demo_file), pager_files = [], pager_file_count = 0, istr = (\<lambda>z. demo_istruct), karr = (\<lambda>a i. 0), kheap = {}, zheap = {},
     istruct_queue = [], istruct_qcount = 0, istruct_qmax = 0, istruct_released = 0, i_pager = (\<lambda>ip. 0), i_pager_request = (\<lambda>ip. 0), inode_size = (\<lambda>ip. 0),
     i_text = (\<lambda>ip. False), inode_port_hashtable = (\<lambda>h. []), data_request_queue = [], receive_timeout = False, paging_file_initialized = False,
     use_paging_file = True, inode_pager_default = 3, swap_preferred = (\<lambda>i. False), swap_never = (\<lambda>i. False), disk = (\<lambda>ip a. 0), calls = []\<rparr>"

lemma demo_pager_ok: "pager_env_ok (\<lambda>f. f) demo_pager"
proof -
  have "Max (insert b K) + 1 \<notin> K" if "finite K" for K :: "nat set" and b
  proof
    assume "Max (insert b K) + 1 \<in> K"
    then have "Max (insert b K) + 1 \<le> Max (insert b K)" by (intro Max_ge) (use that in auto)
    then show False by simp
  qed
  then show ?thesis by (auto simp: pager_env_ok_def alloc_ok_def store_ok_def demo_pager_def page_size_def)
qed

lemma demo_blank_ok: "pg_blank demo_blank"
  by (simp add: pg_blank_def demo_blank_def)

abbreviation demo_start :: "(nat, ptr \<Rightarrow> nat \<Rightarrow> nat) pg_state" where
  "demo_start \<equiv> inode_pager_bootstrap 100 demo_blank"

lemmas demo_defs = inode_pager_create_pager_def pf_default_init_def pf_file_init_def enter_file_def pf_alloc_def pf_find_def pf_pager_create_def
  inode_port_hash_insert_def inode_port_hash_def inode_pager_lookup_def INODE_PORT_HASH_COUNT_def demo_pager_def inode_pager_bootstrap_def
  upd_pf_def upd_is_def call_def page_size_def atop_def ptoa_def howmany_def clrbit_def INDIRECT_PAGEMAP_def u32_def s32_def istruct_put_def unqueue_def

lemmas demo_write_defs = inode_data_write_def istruct_get_def page_count_def is_page_write_def actual_offset_def pf_bmap_at_def pf_entry_def
  pf_allocate_page_def scan_map.simps first_clear.simps isclr_def setbit_def BYTEMASK_def new_offset_def inode_pager_timeout_def NOPAGE_def

lemma demo_upt: "[0..<2] = [0, 1::nat]" "[0..<3] = [0, 1, 2::nat]"
  by (simp_all add: upt_rec)

definition demo_object :: "nat \<Rightarrow> ptr \<Rightarrow> istruct" where
  "demo_object port a = demo_istruct\<lparr>client_count := 1, is_state := IS_IN_MEMORY, is_pager := port, is_pager_request := 8, is_pager_name := 9,
     pager_global := port, is_size := 2, pf_info := 100, pmap := a, paging := True, swapfile := True, is_inode := Ip 77, identity := 7\<rparr>"

definition demo_one :: "(nat, ptr \<Rightarrow> nat \<Rightarrow> nat) pg_state" where
  "demo_one = demo_start\<lparr>pfile := (\<lambda>p. demo_file)(100 := \<lparr>pf_ip = 77, pf_count = 1, pf_bmap = (\<lambda>i. 0xff)(0 := 0xf8), pf_npgs = 3, pf_pfree = 3, pf_prefer = False\<rparr>),
     pager_files := [100], pager_file_count := 1, istr := (\<lambda>z. demo_istruct)(50 := demo_object 10 102), karr := (\<lambda>a i. 0)(102 := fill 2 NOPAGE (\<lambda>i. 0)),
     kheap := {102, 101, 100}, zheap := {50}, inode_size := (\<lambda>ip. 0)(77 := 0), inode_port_hashtable := (\<lambda>h. [])(10 := [(10, 50)]), paging_file_initialized := True,
     calls := [Incr_inode 77, Release_vnode 77, Hold_identity 7, Port_set_add 10]\<rparr>"

lemma demo_create: "pg_step demo_pager (Create 10 8192 8 9) demo_start = Some demo_one"
  by (simp add: demo_one_def demo_object_def demo_istruct_def demo_file_def demo_defs Let_def demo_blank_def demo_upt)

definition demo_two :: "(nat, ptr \<Rightarrow> nat \<Rightarrow> nat) pg_state" where
  "demo_two = demo_one\<lparr>pfile := (pfile demo_one)(100 := (pfile demo_one 100)\<lparr>pf_count := 2\<rparr>), istr := (istr demo_one)(51 := demo_object 20 103),
     karr := (karr demo_one)(103 := fill 2 NOPAGE (\<lambda>i. 0)), kheap := {103, 102, 101, 100}, zheap := {51, 50},
     inode_port_hashtable := (inode_port_hashtable demo_one)(20 := [(20, 51)]), calls := calls demo_one @ [Hold_identity 7, Port_set_add 20]\<rparr>"

lemma demo_create_second: "pg_step demo_pager (Create 20 8192 8 9) demo_one = Some demo_two"
  by (simp add: demo_two_def demo_one_def demo_object_def demo_istruct_def demo_file_def demo_defs Let_def demo_blank_def)

lemma timeouts_idle: "data_request_queue s = [] \<Longrightarrow> \<not> receive_timeout s \<Longrightarrow> timeouts e n s = Some s"
proof (induction n)
  case (Suc n)
  have "inode_pager_timeout e s = Some s" using Suc.prems by (cases s) (simp add: inode_pager_timeout_def)
  then show ?case using Suc by simp
qed simp

definition demo_written :: "(nat, ptr \<Rightarrow> nat \<Rightarrow> nat) pg_state" where
  "demo_written = demo_two\<lparr>pfile := (pfile demo_two)(100 := (pfile demo_two 100)\<lparr>pf_bmap := (\<lambda>i. 0xff)(0 := 0xfb), pf_pfree := 1\<rparr>),
     karr := (karr demo_two)(102 := (karr demo_two 102)(0 := 0, 1 := 1)), disk := (\<lambda>ip a. 0)(77 := (\<lambda>a. 0)(0 := 40, 4096 := 41)),
     calls := calls demo_two @ [Vm_deallocate 8192]\<rparr>"

lemmas demo_states = demo_two_def demo_one_def demo_object_def demo_istruct_def demo_file_def demo_blank_def

lemma demo_write: "pg_step demo_pager (Write 10 0 (\<lambda>k. k + 40) 8192) demo_two = Some demo_written"
  by (simp add: demo_write_defs demo_written_def demo_states demo_defs Let_def fill_def demo_upt timeouts_idle) (auto simp: fun_eq_iff)

definition demo_full :: "(nat, ptr \<Rightarrow> nat \<Rightarrow> nat) pg_state" where
  "demo_full = demo_written\<lparr>pfile := (pfile demo_two)(100 := (pfile demo_two 100)\<lparr>pf_bmap := (\<lambda>i. 0xff), pf_pfree := 0\<rparr>),
     karr := (karr demo_written)(103 := (karr demo_two 103)(0 := 2)), disk := (\<lambda>ip a. 0)(77 := (\<lambda>a. 0)(0 := 40, 4096 := 41, 8192 := 50)),
     calls := calls demo_written @ [Vm_deallocate 4096]\<rparr>"

lemma demo_write_second: "pg_step demo_pager (Write 20 0 (\<lambda>k. k + 50) 4096) demo_written = Some demo_full"
  by (simp add: demo_write_defs demo_full_def demo_written_def demo_states demo_defs Let_def fill_def demo_upt timeouts_idle) (auto simp: fun_eq_iff)

lemma demo_run_two: "pg_run demo_pager [Create 10 8192 8 9, Create 20 8192 8 9] demo_start = Some demo_two"
  by (simp add: demo_create demo_create_second del: pg_step.simps)

lemma demo_run_full:
  "pg_run demo_pager [Create 10 8192 8 9, Create 20 8192 8 9, Write 10 0 (\<lambda>k. k + 40) 8192, Write 20 0 (\<lambda>k. k + 50) 4096] demo_start = Some demo_full"
  by (simp add: demo_create demo_create_second demo_write demo_write_second del: pg_step.simps)

lemma demo_legal:
  "pg_ok demo_pager demo_start (Create 10 8192 8 9)" "pg_ok demo_pager demo_one (Create 20 8192 8 9)"
  "pg_ok demo_pager demo_two (Write 10 0 (\<lambda>k. k + 40) 8192)" "pg_ok demo_pager demo_written (Write 20 0 (\<lambda>k. k + 50) 4096)"
  "pg_ok demo_pager demo_full (Write 20 4096 (\<lambda>k. k + 60) 4096)" "pg_ok demo_pager demo_two (Initialize 20 4096 (\<lambda>k. k + 60) 4096)"
  by (simp_all add: demo_full_def demo_written_def demo_states demo_defs Let_def page_count_def range_ok_def demo_upt)

lemma demo_good:
  "pg_good demo_pager [Create 10 8192 8 9, Create 20 8192 8 9, Write 10 0 (\<lambda>k. k + 40) 8192, Write 20 0 (\<lambda>k. k + 50) 4096] demo_start"
  by (simp add: demo_create demo_create_second demo_write demo_write_second demo_legal del: pg_step.simps pg_ok.simps)

lemma demo_reach:
  assumes "pg_good demo_pager vs demo_start" "pg_run demo_pager vs demo_start = Some s" shows "pg_inv demo_pager s"
  using pager.run_answers [OF conjI [OF demo_pager_ok bootstrap_inv [OF demo_blank_ok]] assms(1)] assms(2) by auto

lemma demo_inv: "pg_inv demo_pager demo_two" "pg_inv demo_pager demo_written" "pg_inv demo_pager demo_full"
proof -
  show "pg_inv demo_pager demo_two" by (rule demo_reach [OF _ demo_run_two]) (simp add: demo_create demo_create_second demo_legal del: pg_step.simps pg_ok.simps)
  show "pg_inv demo_pager demo_full" by (rule demo_reach [OF demo_good demo_run_full])
  show "pg_inv demo_pager demo_written"
    by (rule demo_reach [of "[Create 10 8192 8 9, Create 20 8192 8 9, Write 10 0 (\<lambda>k. k + 40) 8192]"])
      (simp_all add: demo_create demo_create_second demo_write demo_legal del: pg_step.simps pg_ok.simps)
qed

lemma demo_backed: "backed demo_two 10" "backed demo_two 20" "backed demo_full 20" "backed demo_written 10" "inode_pager_lookup 10 demo_two = 50"
  "inode_pager_lookup 10 demo_written = 50" "inode_pager_lookup 20 demo_full = 51"
  by (simp_all add: backed_def demo_full_def demo_written_def demo_states demo_defs)

theorem pager_blocks_accounted_witness:
  "\<exists>s'. pg_run demo_pager [Create 10 8192 8 9, Create 20 8192 8 9, Write 10 0 (\<lambda>k. k + 40) 8192, Write 20 0 (\<lambda>k. k + 50) 4096] demo_start = Some s'
    \<and> pf_pfree (pfile s' 100) + card (backing s' 100) = 3"
proof -
  have "100 \<in> set (pager_files demo_full)" "pf_npgs (pfile demo_full 100) = 3" by (simp_all add: demo_full_def demo_written_def demo_states)
  moreover have "\<forall>p\<in>set (pager_files demo_full). pf_pfree (pfile demo_full p) + card (backing demo_full p) = pf_npgs (pfile demo_full p)"
    using pager_blocks_accounted [OF demo_pager_ok demo_blank_ok demo_good] unfolding demo_run_full by blast
  ultimately show ?thesis using demo_run_full by (metis (no_types, lifting))
qed

theorem pager_terminate_returns_blocks_witness:
  "\<exists>s'. inode_pager_terminate_object demo_pager 10 0 0 3 demo_written = Some s' \<and> 50 \<notin> zheap s'"
proof -
  have "inode_pager_no_more_senders (pager_global (istr demo_written 50)) (dead_references (istr demo_written 50)) 3" "dead_references (istr demo_written 50) = 0"
    by (simp_all add: inode_pager_no_more_senders_def demo_written_def demo_states)
  then show ?thesis using pager_terminate_returns_blocks [OF demo_inv(2) demo_backed(4,6)] by blast
qed

theorem pager_objects_private_witness:
  "\<exists>s'. pg_run demo_pager [Write 10 0 (\<lambda>k. k + 40) 8192, Request 20 5 0, Timeout, Terminate 10 0 0 3] demo_two = Some s'
    \<and> object_view (\<lambda>f. f) demo_pager s' 20 = object_view (\<lambda>f. f) demo_pager demo_two 20"
proof -
  have "pg_good demo_pager [Write 10 0 (\<lambda>k. k + 40) 8192, Request 20 5 0, Timeout, Terminate 10 0 0 3] demo_two"
    using demo_legal(3) by (simp split: option.split)
  moreover have "\<forall>v\<in>set [Write 10 0 (\<lambda>k. k + 40) 8192, Request 20 5 0, Timeout, Terminate 10 0 0 3]. \<not> pg_own v 20" by simp
  ultimately show ?thesis using pager_objects_private [OF demo_pager_ok demo_inv(1) _ demo_backed(2)] by blast
qed

theorem pager_write_refines_witness:
  "\<exists>s'. inode_data_write demo_pager 10 0 (\<lambda>k. k + 40) 8192 demo_two = Some s' \<and> snd (object_view (\<lambda>f. f) demo_pager s' 10) 1 = Some 41"
proof -
  have "page_count demo_pager 8192 = 2" "page_size demo_pager = 4096" "pf_pfree (pfile demo_two (pf_info (istr demo_two 50))) = 3" "\<forall>K. kalloc demo_pager K 512 \<noteq> 0" "writes_succeed demo_pager"
    by (simp_all add: page_count_def writes_succeed_def demo_states demo_defs)
  then show ?thesis using pager_write_refines [OF demo_pager_ok demo_inv(1) demo_backed(1) demo_legal(3)] demo_backed(5) by (auto simp: written_def)
qed

theorem pager_round_trip_witness:
  "\<exists>s1 s2 s3. pg_run demo_pager [Write 10 0 (\<lambda>k. k + 40) 8192, Write 20 0 (\<lambda>k. k + 50) 4096] demo_two = Some s1
    \<and> inode_pagein demo_pager 10 5 4096 4096 s1 = Some s2 \<and> timeouts demo_pager 1 s2 = Some s3 \<and> last (calls s3) = Data_provided 5 4096 41"
proof -
  let ?vs = "[Write 20 0 (\<lambda>k. k + 50) 4096]" and ?w = "Write 10 0 (\<lambda>k. k + 40) 8192"
  have D: "page_count demo_pager 8192 = 2" "page_size demo_pager = 4096" "pf_pfree (pfile demo_two (pf_info (istr demo_two 50))) = 3" "\<forall>K. kalloc demo_pager K 512 \<noteq> 0"
    "writes_succeed demo_pager" "reads_succeed demo_pager"
    by (simp_all add: page_count_def writes_succeed_def reads_succeed_def demo_states demo_defs)
  have F: "Suc (length (data_request_queue demo_full)) = 1" "is_errors (istr demo_full (inode_pager_lookup 10 demo_full)) = 0"
    by (simp_all add: demo_full_def demo_written_def demo_states demo_defs)
  have run: "pg_run demo_pager (?w # ?vs) demo_two = Some demo_full" by (simp add: demo_write demo_write_second del: pg_step.simps)
  have good: "pg_good demo_pager (?w # ?vs) demo_two" by (simp add: demo_write demo_write_second demo_legal del: pg_step.simps pg_ok.simps)
  have own: "\<forall>v\<in>set ?vs. \<not> pg_own v 10" by simp
  obtain s2 s3 where "inode_pagein demo_pager 10 5 4096 4096 demo_full = Some s2" "timeouts demo_pager 1 s2 = Some s3" "last (calls s3) = Data_provided 5 4096 41"
    using pager_round_trip [OF demo_pager_ok demo_inv(1) demo_backed(1) good _ D(4,5,6) own, of 1 5] unfolding demo_backed(5) run D(1,2,3) option.inject ex_simps(1) F
    by (auto simp: F simp del: timeouts.simps)
  then show ?thesis using run by blast
qed

theorem pager_full_loses_pages_witness:
  "\<exists>s1. inode_data_write demo_pager 20 4096 (\<lambda>k. k + 60) 4096 demo_full = Some s1
    \<and> object_view (\<lambda>f. f) demo_pager s1 20 = object_view (\<lambda>f. f) demo_pager demo_full 20"
proof -
  have D: "pf_pfree (pfile demo_full (pf_info (istr demo_full 51))) = 0" "is_errors (istr demo_full 51) = 0" "page_count demo_pager 4096 = 1" "page_size demo_pager = 4096"
    by (simp_all add: demo_full_def demo_written_def demo_states demo_defs page_count_def)
  have "pagetab demo_full 51 1 = None"
    by (simp add: pagetab_def slot_def demo_full_def demo_written_def demo_states demo_defs fill_def Let_def)
  then have "\<forall>k<page_count demo_pager 4096. snd (object_view (\<lambda>f. f) demo_pager demo_full 20) (4096 div page_size demo_pager + k) = None"
    by (simp add: D object_view_def contents_def demo_backed(7))
  then show ?thesis using pager_full_loses_pages [OF demo_pager_ok demo_inv(3) demo_backed(3) demo_legal(5), of 0] D demo_backed(7) by auto
qed

theorem pager_initialize_dropped_witness:
  "inode_data_initialize demo_pager 20 4096 (\<lambda>k. k + 60) 4096 demo_two = Some (call (Vm_deallocate 4096) demo_two)"
proof -
  have D: "page_count demo_pager 4096 = 1" "page_size demo_pager = 4096" "pagetab demo_two 51 1 = None" "inode_pager_lookup 20 demo_two = 51"
    by (simp_all add: page_count_def pagetab_def slot_def demo_states demo_defs fill_def Let_def)
  then have N: "\<forall>k<page_count demo_pager 4096. snd (object_view (\<lambda>f. f) demo_pager demo_two 20) (4096 div page_size demo_pager + k) = None"
    by (simp add: object_view_def contents_def)
  show ?thesis using pager_initialize_dropped [OF demo_pager_ok demo_inv(1) demo_backed(2) demo_legal(6) N] by (simp add: D)
qed


end
