(* ===== verification/Cthread_Monitor.thy ===== *)
theory Cthread_Monitor
  imports Cthread_Coroutine_Props
begin

text \<open>
  The coroutine package as a whole: the abstract scheduler of \<open>Cthread_Coroutine\<close> with the mutexes
  and with what each suspended cproc does when it is loaded again, and the refinement of this
  abstract monitor by every call of the package.
\<close>

section \<open>The abstract monitor\<close>

text \<open>
  \<open>held\<close>: the mutexes that are taken; \<open>todo\<close>: what a cproc does first when it runs again: return to
  the client (\<open>Return\<close>), take the mutex again after a wait (\<open>Relock\<close>), or go on trying to take it (\<open>Retry\<close>).
\<close>

record monitor =
  queues :: sched
  held :: "ptr \<Rightarrow> bool"
  todo :: "ptr \<Rightarrow> cont"

definition running :: "monitor \<Rightarrow> ptr" where
  "running a = hd (rdy (queues a))"

fun pending :: "cont \<Rightarrow> ptr option" where
  "pending Return = None"
| "pending (Relock m) = Some m"
| "pending (Retry m) = Some m"

text \<open>The mutex that the running cproc wants with a call.\<close>

fun wanted :: "call \<Rightarrow> monitor \<Rightarrow> ptr option" where
  "wanted (Lock m) a = Some m"
| "wanted Resume a = pending (todo a (running a))"
| "wanted _ a = None"

definition granted :: "call \<Rightarrow> monitor \<Rightarrow> bool" where
  "granted call a \<longleftrightarrow> (case wanted call a of None \<Rightarrow> True | Some m \<Rightarrow> \<not> held a m)"

text \<open>A call that wants a mutex leaves it taken, by the caller or by the cproc that had it.\<close>

fun held_after :: "call \<Rightarrow> monitor \<Rightarrow> ptr \<Rightarrow> bool" where
  "held_after (Unlock m) a = (held a)(m := False)"
| "held_after (Wait c m) a = (held a)(m := False)"
| "held_after call a = (case wanted call a of None \<Rightarrow> held a | Some m \<Rightarrow> (held a)(m := True))"

fun todo_after :: "call \<Rightarrow> monitor \<Rightarrow> ptr \<Rightarrow> cont" where
  "todo_after Yield a = (todo a)(running a := Return)"
| "todo_after (Create p) a = (todo a)(running a := Return, p := Return)"
| "todo_after (Wait c m) a = (todo a)(running a := Relock m)"
| "todo_after call a = (case wanted call a of None \<Rightarrow> todo a
     | Some m \<Rightarrow> (todo a)(running a := (if held a m then Retry m else Return)))"

definition monitor_call :: "call \<Rightarrow> monitor \<Rightarrow> monitor option" where
  "monitor_call call a = map_option (\<lambda>q. \<lparr>queues = q, held = held_after call a, todo = todo_after call a\<rparr>)
     (sched_call (granted call a) call (queues a))"

definition monitor_rep :: "ptr set \<Rightarrow> ptr list \<Rightarrow> coro_state \<Rightarrow> monitor \<Rightarrow> bool" where
  "monitor_rep C ps s a \<longleftrightarrow> sched_rep C ps s (queues a)
     \<and> held a = (\<lambda>m. mutexes s m \<noteq> 0) \<and> todo a = (\<lambda>p. ctx (procs s p))"

section \<open>Mutexes and contexts through the calls\<close>

text \<open>
  \<open>ctxs s\<close>: the suspended contexts.  One lemma for each call says what it does to them and to the
  words of the mutexes.
\<close>

definition ctxs :: "coro_state \<Rightarrow> ptr \<Rightarrow> cont" where
  "ctxs s = (\<lambda>p. ctx (procs s p))"

lemma ctxs_simps [simp]:
  "ctxs (s\<lparr>mutexes := w\<rparr>) = ctxs s" "ctxs (s\<lparr>n_blocked := n\<rparr>) = ctxs s" "ctxs (s\<lparr>ready := q\<rparr>) = ctxs s"
  "ctxs (ready_enq p s) = ctxs s" "ctxs (ready_preq p s) = ctxs s" "ctxs (cond_enq c p s) = ctxs s" "ctxs (upd_cond c f s) = ctxs s"
  "ctxs (cproc_switch p k r s) = (ctxs s)(p := k)"
  "ctxs (upd_cproc p (\<lambda>x. x\<lparr>ctx := k\<rparr>) s) = (ctxs s)(p := k)"
  "ctxs (upd_cproc p (\<lambda>x. x\<lparr>cstate := st\<rparr>) s) = ctxs s"
  by (auto simp: ctxs_def fun_eq_iff)

lemma ctxs_current: "ctx (procs s p) = ctxs s p"
  by (simp add: ctxs_def)

lemma monitor_rep_ctxs:
  "monitor_rep C ps s a \<longleftrightarrow> sched_rep C ps s (queues a) \<and> held a = (\<lambda>m. mutexes s m \<noteq> 0) \<and> todo a = ctxs s"
  by (simp add: monitor_rep_def ctxs_def)

lemma ready_deq_current:
  assumes "sched_rep C ps s a"
  shows "\<exists>q. ready_deq s = (current s, s\<lparr>ready := q\<rparr>)"
proof -
  obtain rs where a: "rdy a = current s # rs" using sched_rep_head [OF assms] by blast
  have "queues_rep C s a" using assms by (simp add: sched_rep_def)
  from queues_rep_ready_deq [OF this a] show ?thesis by blast
qed

lemma yield_effect:
  assumes "sched_rep C ps s a"
  shows "mutexes (cthread_yield k s) = mutexes s \<and> ctxs (cthread_yield k s) = (ctxs s)(current s := k)"
  using ready_deq_current [OF assms] by (auto simp: cthread_yield_def Let_def)

lemma wait_round_effect:
  assumes "sched_rep C ps s a"
  shows "mutexes (mutex_wait_round m s) = (mutexes s)(m := (if mutexes s m = 0 then 1 else mutexes s m))
    \<and> ctxs (mutex_wait_round m s) = (ctxs s)(current s := (if mutexes s m = 0 then Return else Retry m))"
  using yield_effect [OF assms, of "Retry m"] by (simp add: mutex_wait_round_def mutex_try_lock_def)

lemma lock_effect:
  assumes "sched_rep C ps s a"
  shows "mutexes (mutex_lock lim m s) = (mutexes s)(m := (if mutexes s m = 0 then 1 else mutexes s m))
    \<and> ctxs (mutex_lock lim m s) = (ctxs s)(current s := (if mutexes s m = 0 then Return else Retry m))"
proof (cases "mutexes s m = 0")
  case True
  then show ?thesis by (simp add: mutex_lock_def mutex_try_lock_def)
next
  case False
  then have "mutex_lock lim m s = mutex_wait_round m s"
    by (simp add: mutex_lock_def mutex_try_lock_def mutex_wait_lock_def mutex_spin_held)
  then show ?thesis using wait_round_effect [OF assms] by simp
qed

lemma wait_effect:
  assumes "sched_rep C ps s a" and "condition_wait c m s = Inr s'"
  shows "mutexes s' = (mutexes s)(m := 0) \<and> ctxs s' = (ctxs s)(current s := Relock m)"
  using ready_deq_current [OF assms(1)] assms(2)
  by (auto simp: condition_wait_def Let_def mutex_release_def mutex_unlock_def split: if_splits)

text \<open>Waking a cproc changes no mutex and no context.\<close>

definition same_monitor :: "coro_state \<Rightarrow> coro_state \<Rightarrow> bool" where
  "same_monitor s s' \<longleftrightarrow> mutexes s' = mutexes s \<and> ctxs s' = ctxs s"

lemma same_monitor_intros [simp, intro]:
  "same_monitor s s" "same_monitor s (upd_cond c f s)" "same_monitor s (cproc_continue p s)"
  by (auto simp: same_monitor_def cproc_continue_def Let_def)

lemma same_monitor_trans: "same_monitor s s1 \<Longrightarrow> same_monitor s1 s2 \<Longrightarrow> same_monitor s s2"
  by (simp add: same_monitor_def)

lemma continue_all_same: "continue_all q s = Some s' \<Longrightarrow> same_monitor s s'"
proof (rule continue_all.raw_induct [where P = "\<lambda>q s s'. same_monitor s s'"])
  fix f q s s'
  assume IH: "\<And>q s s'. f q s = Some s' \<Longrightarrow> same_monitor s s'"
    and e: "(case cthread_queue_deq (nxt s) q of (q', p) \<Rightarrow> if p = 0 then Some s else f q' (cproc_continue p s)) = Some s'"
  obtain q' p where d: "cthread_queue_deq (nxt s) q = (q', p)" by force
  show "same_monitor s s'"
  proof (cases "p = 0")
    case True
    then show ?thesis using e d by simp
  next
    case False
    then have "same_monitor (cproc_continue p s) s'" using IH [of q' "cproc_continue p s" s'] e d by simp
    then show ?thesis by (rule same_monitor_trans [OF same_monitor_intros(3)])
  qed
qed

lemma signal_same:
  assumes "condition_signal c s = Inr s'"
  shows "same_monitor s s'"
  using assms
  by (auto simp: condition_signal_def cond_signal_def Let_def same_monitor_def cproc_continue_def
      split: if_splits option.splits prod.splits)

lemma broadcast_same:
  assumes "condition_broadcast c s = Inr s'"
  shows "same_monitor s s'"
  using assms
  by (auto simp: condition_broadcast_def cond_broadcast_def Let_def same_monitor_def
      dest!: continue_all_same split: if_splits option.splits)

lemma create_effect:
  assumes "cproc_create p s = Inr s'"
  shows "mutexes s' = mutexes s \<and> ctxs s' = (ctxs s)(current s := Return, p := Return)"
  using assms
  by (auto simp: cproc_create_def cproc_alloc_def Let_def ctxs_def fun_eq_iff split: sum.splits if_splits option.splits)

section \<open>The refinement\<close>

lemma granted_free:
  assumes "monitor_rep C ps s a"
  shows "granted call a = wants_free call s"
proof -
  have "running a = current s" using assms by (simp add: monitor_rep_def sched_rep_def running_def)
  then show ?thesis using assms
    by (cases call) (auto simp: granted_def monitor_rep_def split: cont.splits option.splits)
qed

lemma resume_effect:
  assumes "sched_rep C ps s a"
  shows "case pending (ctxs s (current s)) of None \<Rightarrow> resume lim s = s
    | Some m \<Rightarrow> mutexes (resume lim s) = (mutexes s)(m := (if mutexes s m = 0 then 1 else mutexes s m))
        \<and> ctxs (resume lim s) = (ctxs s)(current s := (if mutexes s m = 0 then Return else Retry m))"
  using lock_effect [OF assms] wait_round_effect [OF assms]
  by (cases "ctxs s (current s)") (simp_all add: resume_def ctxs_current)

text \<open>The mutexes and the contexts after any call are those of the abstract monitor.\<close>

lemma call_effect:
  assumes R: "monitor_rep C ps s a" and e: "coro_call lim call s = Inr s'"
  shows "(\<lambda>m. mutexes s' m \<noteq> 0) = held_after call a \<and> ctxs s' = todo_after call a"
proof -
  have r: "sched_rep C ps s (queues a)" and run: "running a = current s"
    and h: "held a = (\<lambda>m. mutexes s m \<noteq> 0)" and t: "todo a = ctxs s"
    using R by (simp_all add: monitor_rep_ctxs sched_rep_def running_def)
  show ?thesis
  proof (cases call)
    case (Lock m)
    then show ?thesis using lock_effect [OF r, of lim m] e by (auto simp: h t run fun_eq_iff)
  next
    case Resume
    then show ?thesis using resume_effect [OF r, of lim] e
      by (cases "pending (ctxs s (current s))") (auto simp: h t run fun_eq_iff)
  next
    case (Wait c m)
    then show ?thesis using wait_effect [OF r, of c m s'] e by (auto simp: h t run fun_eq_iff)
  next
    case (Create p)
    then show ?thesis using create_effect [of p s s'] e by (auto simp: h t run fun_eq_iff)
  next
    case Yield
    then show ?thesis using yield_effect [OF r, of Return] e by (auto simp: h t run fun_eq_iff)
  next
    case (Signal c)
    then show ?thesis using signal_same [of c s s'] e by (simp add: h t same_monitor_def)
  next
    case (Broadcast c)
    then show ?thesis using broadcast_same [of c s s'] e by (simp add: h t same_monitor_def)
  next
    case (Unlock m)
    then show ?thesis using e by (auto simp: h t mutex_release_def mutex_unlock_def fun_eq_iff)
  next
    case (Init_cond c)
    then show ?thesis using e by (auto simp: h t condition_init_def)
  qed
qed

text \<open>
  (C14) \<^bold>\<open>The coroutine package implements the abstract monitor\<close>: from any represented state, every
  legal call either has the effect of the abstract call, with all invariants of the
  representation kept (queues linked and disjoint, states of the cprocs, number of blocked cprocs,
  list of all cprocs, spin locks free), or, when the last runnable cproc waits, ends with all cprocs
  blocked.  The abstract call orders the runnable cprocs and the waiters in lists, takes a mutex
  exactly when it is free and otherwise leaves the caller trying at the end of the ready list,
  releases it in \<open>mutex_unlock\<close> and \<open>condition_wait\<close>, and makes a woken cproc take its mutex again
  before it returns.  No call hangs or follows the null pointer.
\<close>

theorem coroutine_refines:
  assumes "monitor_rep C ps s a" and "legal C call (queues a)"
  shows "case monitor_call call a of
      None \<Rightarrow> coro_call lim call s = Inl All_blocked
    | Some a' \<Rightarrow> \<exists>s'. coro_call lim call s = Inr s' \<and> monitor_rep (conds_after call C) (cprocs_after call ps) s' a'"
proof -
  have R: "sched_rep C ps s (queues a)" using assms(1) by (simp add: monitor_rep_def)
  show ?thesis
    using scheduler_refines [OF R assms(2), of lim] call_effect [OF assms(1), of lim call]
    unfolding monitor_call_def granted_free [OF assms(1)]
    by (fastforce simp: monitor_rep_ctxs split: option.splits)
qed

text \<open>
  Two cprocs and a mutex: the first cproc takes the mutex, the second finds it taken and lets the
  first run again, which releases it.
\<close>

theorem coroutine_refines_witness:
  "\<exists>s s1 s2 s3. cproc_init 8 coro_start = Inr s \<and> coro_call 0 (Lock 40) s = Inr s1 \<and> coro_call 0 (Create 4) s1 = Inr s2
     \<and> coro_call 5 (Lock 40) s2 = Inr s3
     \<and> monitor_rep {} [4, 8] s3 \<lparr>queues = \<lparr>rdy = [8, 4], wtg = \<lambda>_. []\<rparr>, held = (\<lambda>_. False)(40 := True),
          todo = (\<lambda>_. Return)(4 := Retry 40)\<rparr>"
proof -
  let ?q = "\<lambda>r. \<lparr>rdy = r, wtg = \<lambda>_. []\<rparr>"
  obtain s where i: "cproc_init 8 coro_start = Inr s" and S: "sched_rep {} [8] s (?q [8])"
    using cproc_init_rep [of coro_start 8] by (auto simp: coro_start_def)
  have R: "monitor_rep {} [8] s \<lparr>queues = ?q [8], held = \<lambda>_. False, todo = \<lambda>_. Return\<rparr>"
    using i S by (auto simp: monitor_rep_def cproc_init_def cproc_alloc_def coro_start_def Let_def fun_eq_iff)
  obtain s1 where 1: "coro_call 0 (Lock 40) s = Inr s1"
    and R1: "monitor_rep {} [8] s1 \<lparr>queues = ?q [8], held = (\<lambda>_. False)(40 := True), todo = \<lambda>_. Return\<rparr>"
    using coroutine_refines [OF R, of "Lock 40" 0]
    by (auto simp: monitor_call_def granted_def running_def fun_upd_idem)
  obtain s2 where 2: "coro_call 0 (Create 4) s1 = Inr s2"
    and R2: "monitor_rep {} [4, 8] s2 \<lparr>queues = ?q [4, 8], held = (\<lambda>_. False)(40 := True), todo = \<lambda>_. Return\<rparr>"
    using coroutine_refines [OF R1, of "Create 4" 0]
    by (auto simp: monitor_call_def granted_def running_def fun_upd_idem all_cprocs_def)
  show ?thesis
    using i 1 2 coroutine_refines [OF R2, of "Lock 40" 5]
    by (auto simp: monitor_call_def granted_def running_def rotate_ready_def)
qed

end
