(* ===== verification/Spec2Isabelle.thy ===== *)
theory Spec2Isabelle
  imports Cthread_Time Cthread_Malloc_Contract Cthread_Stack Cthread_Coroutine_Props Cthread_Threads_Wake Net_Route_Props Net_Slip_Props Net_Raw_Props Net_Loop Env_Manager Netmem_Registry Pager_Demo Cthread_Monitor
begin

text \<open>
  \<^bold>\<open>A verification of parts of the Mach 2.5 release of CMU.\<close>

  The repository is the source tree of a VAX Unix on the Mach kernel.  Its own C code that is
  readable as text falls into the threads package that every server is linked with, the network
  layer of the kernel, and the servers that run beside the kernel.  The development models these:

  \<^item> C Threads (\<open>src/mach/lib/threads\<close>, \<open>src/mach/mach_include/cthreads.h\<close>): queues, locks, the
    coroutine scheduler, threads multiplexed on it, stacks, the allocator, time arithmetic;
  \<^item> the network layer (\<open>src/kernel/net\<close>): packet queues, interfaces, routing tables, raw
    sockets, the loopback and serial-line drivers, the thread that runs the protocols' input;
  \<^item> the environment manager (\<open>src/mach/etc/envmgr\<close>), which keeps named strings and ports for
    its clients in tables shared copy-on-write;
  \<^item> the network shared memory server (\<open>src/mach/etc/netmemoryserver\<close>), which keeps the pages of
    memory objects coherent between kernels;
  \<^item> the inode pager of the kernel (\<open>src/kernel/builtin/inode_pager.c\<close>), which backs memory objects
    with files and with blocks of paging files.

  \<^bold>\<open>How the model reads.\<close>  A C structure is a \<open>record\<close> with the fields of the source, an
  enumeration a \<open>datatype\<close>, a pointer a natural number with 0 for the null pointer, and a heap of
  structures a function from pointers to records; so aliasing is as in the C code.  A routine is a
  function of the state that returns the new state, with the early returns of the source as
  branches.  Integers that may wrap are words or have the reduction written out.  A \<open>while\<close> loop
  over linked data is a \<open>partial_function (option)\<close>: a loop that does not end has the value \<open>None\<close>,
  and every theorem says that the call returns (\<open>= Some\<close>), so no fuel occurs anywhere.  Loops with
  a bound in the source are structural recursion or a \<open>function\<close> with a termination proof.  A panic
  or an access through a null pointer is \<open>None\<close> as well.  What is not in \<open>src\<close> as text (the virtual
  memory primitives, message primitives, mbuf allocation, character queues, socket layer,
  protocols, device routines) is a field of an environment record, and what the code relies on is a
  named hypothesis: for instance \<open>vm_spec\<close> for \<open>vm_allocate\<close>, \<open>vm_tracks\<close> for the pages
  \<open>vm_allocate\<close> and \<open>vm_deallocate\<close> give out and take back under the stacks, \<open>mbuf_spec\<close> for mbufs,
  \<open>clist_ok\<close> for character queues, which take characters while there is room and refuse them
  after that, \<open>em_ok\<close> for the environment manager's ports, \<open>heap_fresh\<close> for \<open>malloc\<close> in the
  memory server, \<open>alloc_ok\<close> and \<open>store_ok\<close> for the allocators and the file system of the inode pager.  Each is satisfied by a
  concrete instance in the witness of the property that uses it.

  \<^bold>\<open>Prelude.\<close>  \<open>Mach_Prelude\<close> has the fact collections, 32-bit arithmetic, and null-terminated
  chains of pointers (\<open>chain\<close>, \<open>find_from\<close>, \<open>fold_from\<close>) that all components share.  \<open>Mach_Events\<close> states what the
  servers have in common as locales: \<open>event_server\<close>, every admissible sequence of messages is
  answered, and its extension \<open>object_server\<close>, what a client sees of its object changes only by
  messages for it; the memory server and the inode pager interpret them.

  \<^bold>\<open>C Threads.\<close>
  \<^item> \<open>Cthread_Queue\<close>: the queue macros; the locale \<open>linked_queue\<close> states first-in first-out order
    over an abstract list and is interpreted on the macros here and on the packet queues in
    \<open>Net_Ifqueue\<close>.
  \<^item> \<open>Cthread_Sync\<close>, \<open>Cthread_Time\<close>: \<open>sync.c\<close> and \<open>time.c\<close>.
  \<^item> \<open>Cthread_Coroutine\<close> is \<open>cprocs.c\<close> with the mutex and condition calls, in the configuration
    \<open>COROUTINE\<close>; \<open>Cthread_Coroutine_Props\<close> proves that every call implements an operation of a
    scheduler on lists and that yielding is round-robin; \<open>Cthread_Monitor\<close> adds the mutexes that are
    taken and what each suspended cproc does next, and proves that every call implements an
    operation of this monitor (\<open>coroutine_refines\<close>).
  \<^item> \<open>Cthread_Threads\<close> is \<open>cthreads.c\<close>: \<open>fork\<close>, \<open>join\<close>, \<open>detach\<close>, \<open>exit\<close> and the body of a cproc as
    atomic steps between which cprocs interleave; the step relation \<open>thr_reach\<close> of
    \<open>Cthread_Threads_Props\<close> has every interleaving, changes of the limit included, in which the client
    joins or detaches a thread at most once.  \<open>Cthread_Threads_Runs\<close> and \<open>Cthread_Threads_Wake\<close> prove where every thread structure
    is, what the counters count, what a join returns, and that no wake-up is lost.
  \<^item> \<open>Cthread_Stack\<close> is \<open>stack.c\<close> with \<open>ur_cthread_self\<close>: the word at the start of a stack segment
    always identifies the cproc that runs on it.
  \<^item> \<open>Cthread_Malloc\<close> is \<open>malloc.c\<close>; \<open>Cthread_Malloc_Heap\<close>, \<open>_Correct\<close> and \<open>_Props\<close> hold the heap
    invariant and what each call does to it; \<open>Cthread_Malloc_Contract\<close> states the interface as
    the locale \<open>allocator\<close>, proves there that no sequence of calls makes blocks overlap, and
    interprets it on \<open>malloc\<close> and \<open>free\<close>.

  \<^bold>\<open>Network layer.\<close>
  \<^item> \<open>Net_Ifqueue\<close> (\<open>if.h\<close>): the packet queues, an interpretation of \<open>linked_queue\<close>.
  \<^item> \<open>Net_If\<close>, \<open>Net_If_Props\<close> (\<open>if.c\<close>): interfaces and addresses, \<open>ifconf\<close> and the other requests.
  \<^item> \<open>Net_Route\<close>, \<open>Net_Route_Props\<close> (\<open>route.c\<close>, \<open>af.c\<close>): the relation \<open>rt_reach\<close> is any history of
    lookups, releases, additions, deletions and redirects; no route is freed while referenced.
  \<^item> \<open>Net_Slip\<close>, \<open>Net_Slip_Props\<close> (\<open>if_sl.c\<close>): the framing of packets on a serial line and its
    inverse, and the error paths.
  \<^item> \<open>Net_Raw\<close>, \<open>Net_Raw_Props\<close> (\<open>raw_cb.c\<close>, \<open>raw_usrreq.c\<close>): the ring of control blocks under the
    user requests, delivery compared with a reference on lists.
  \<^item> \<open>Net_Loop\<close> (\<open>if_loop.c\<close>, \<open>netisr.c\<close>): the loopback driver and the network thread with
    interrupts in between, as the step relation \<open>isr_reach\<close>.

  \<^bold>\<open>Environment manager.\<close>  \<open>Env_Table\<close> and \<open>Env_Server\<close> are \<open>envprocs.c\<close> and the dispatch of
  \<open>envmgrmain.c\<close>.  \<open>Env_Inv\<close>, \<open>Env_Names\<close>, \<open>Env_Ops\<close>, \<open>Env_Copy\<close>, \<open>Env_Contexts\<close>, \<open>Env_Writes\<close>,
  \<open>Env_Lists\<close>, \<open>Env_Conns\<close> and \<open>Env_Props\<close> hold the invariant of the tables and its preservation,
  \<open>Env_Runs\<close> the sequences of messages.  \<open>Env_Manager\<close> states the service as the locale
  \<open>private_service\<close>, interprets it, and has the properties: every sequence of messages is
  answered unless one lists more ports than the array \<open>tmp_ports\<close> holds (\<open>env_serve\<close> stops there, as
  the code would write behind the array), the sharing of tables is invisible, strings are private to the holder of the port.

  \<^bold>\<open>Network shared memory.\<close>  \<open>Netmem_Sched\<close> is \<open>scheduler.c\<close>: minimal pages, sets of readers, one
  writer, queues of requests linked through siblings.  \<open>Netmem_Object\<close> is \<open>object.c\<close>: the
  messages of a kernel.  \<open>Netmem_Server\<close> is \<open>netmemory.c\<close>: creating and destroying objects and the
  registry of dead ports.  For kernels that share one page size, \<open>Netmem_Rep\<close> relates an object to a
  page server in which a page is an access and a queue; \<open>Netmem_Grant\<close>, \<open>Netmem_Queue\<close>,
  \<open>Netmem_Wait\<close>, \<open>Netmem_Pages\<close> and \<open>Netmem_Refine\<close> prove that the routines implement it,
  \<open>Netmem_Events\<close> that the messages do; \<open>Netmem_Coherence\<close> reads the rights of a kernel off the
  messages it was sent.  \<open>Netmem_Runs\<close> has the runs (\<open>good_run\<close>: kernels name pages by their
  offsets, report a completed lock only when asked and answer before the tick after next of the
  server's timer, and none dies; the ticks and the requests for statistics are messages of the run)
  and interprets \<open>event_server\<close>.
  \<open>Netmem_Props\<close> and \<open>Netmem_Service\<close> state coherence, order and service; \<open>Netmem_Errors\<close> what goes
  wrong with two page sizes and with offsets that are not page boundaries; \<open>Netmem_Registry\<close> the
  creation of objects and its error exits, and the registry.
  
  \<^bold>\<open>Inode pager.\<close>  \<open>Pager_Files\<close> and \<open>Pager_Server\<close> are \<open>inode_pager.c\<close> in the configuration
  \<open>MACH_XP\<close> with \<open>MACH_VFS\<close>: the paging files with their maps of used blocks, the structures of
  memory objects with their one- or two-level maps of pages into a paging file, the reclaim list of
  inodes, the table from ports to objects, the choice of a file system to swap to, and the messages
  of the kernel (under the names that the \<open>#define\<close>s of the file give them, such as \<open>inode_pagein\<close>
  for \<open>memory_object_data_request\<close>).  The pager is one thread, so a message is one step; a release
  by another thread is two (\<open>release_begin\<close>, \<open>release_end\<close>), with messages in between.
  \<open>Pager_Blocks\<close>, \<open>Pager_Inv\<close> and \<open>Pager_Maps\<close> have the bit maps and the two-level page maps,
  \<open>Pager_State\<close> the invariant: the pages of all objects and the used blocks of a file are in
  bijection.  \<open>Pager_Alloc\<close>, \<open>Pager_Free\<close>, \<open>Pager_Pages\<close>, \<open>Pager_Store\<close>, \<open>Pager_Data\<close>, \<open>Pager_Ports\<close>,
  \<open>Pager_Messages\<close>, \<open>Pager_Create\<close>, \<open>Pager_Life\<close>, \<open>Pager_Events\<close> and \<open>Pager_Steps\<close> prove what each routine
  does to it and to the contents of the objects; \<open>Pager_Runs\<close> has the messages the kernel may send
  (\<open>pg_ok\<close>) and interprets \<open>object_server\<close>.  \<open>Pager_Props\<close> and \<open>Pager_Storage\<close> state that blocks are
  accounted for and returned, that objects are private, that a write implements the update of a map
  from pages to contents and is read back, how a paging file is chosen, and how pages get lost when a
  file is full or a page is initialised; \<open>Pager_Demo\<close> has the concrete pager of the witnesses.
  Swapping to file systems without a paging file is modelled; the invariant is for a pager with one.

  \<^bold>\<open>How the parts meet.\<close>  The packet queues of \<open>Net_Ifqueue\<close> are those that the loopback, serial
  and raw code fill; the interfaces of \<open>Net_If\<close> are what \<open>Net_Route\<close> routes to and what
  \<open>Net_Slip\<close> and \<open>Net_Loop\<close> attach; \<open>Cthread_Threads\<close> runs on the conditions of the coroutine
  scheduler and its queues on \<open>Cthread_Queue\<close>; the netmemory objects created in \<open>Netmem_Server\<close>
  are new objects in the sense of the coherence theorem exactly when the memory of their structure
  starts with a null list of free requests (\<open>netmemory_create_new\<close>).

  \<^bold>\<open>Not modelled.\<close>  Most of the kernel (\<open>bsd\<close>, \<open>kern\<close>, \<open>vm\<close>, \<open>sys\<close>, \<open>netinet\<close>, \<open>vfs\<close>, \<open>nfs\<close>,
  drivers), the netmsgserver proper, \<open>mig\<close> and \<open>gdb\<close> are in the repository only as compressed
  files.  The machine-dependent parts of C Threads (\<open>csw.s\<close>, \<open>lock.s\<close>) are assembler; a context
  switch is represented by which cproc runs next.  The other configurations of C Threads
  (\<open>MTASK\<close>, with shared memory between tasks) are not.  \<open>main\<close> routines, signal handling and
  printing are input and output.  Other readable programs (the device pager, \<open>krpc\<close>, \<open>netimp\<close>, \<open>vice\<close>, \<open>kdb\<close>, \<open>libmach\<close>, the small servers, and the
  Berkeley and third-party programs under \<open>src/src\<close>) are outside the development.
\<close>

end
